(* ===== verification/Prelude.thy ===== *)
theory Prelude
  imports Main "HOL-Library.Monad_Syntax"
begin

text \<open>
  Shared vocabulary of the development: fixed-width counters written on \<open>nat\<close>, the
  integer base-two logarithm that the allocators compute with a bit-scan instruction,
  rounding up to a multiple, and the arithmetic of a grid of equally sized blocks.
  The collection \<open>arith_facts\<close> gathers the facts the component proofs hand to
  the simplifier.
\<close>

named_theorems arith_facts \<open>facts on rounding, logarithms and block grids\<close>

unbundle bit_operations_syntax

section \<open>Fixed-width counters\<close>

text \<open>
  \<open>size_t\<close> and pointers are 64 bits wide throughout. Counters that only grow with
  the number of live objects are plain \<open>nat\<close>; a decrement is written out with its
  wrap-around, because decrementing an empty counter is a mistake the proofs must exclude.
\<close>

definition max_u64 :: nat where
  "max_u64 = 2 ^ 64 - 1"

definition dec64 :: "nat \<Rightarrow> nat" where
  "dec64 n = (if n = 0 then max_u64 else n - 1)"

lemma dec64_pos [simp]: "0 < n \<Longrightarrow> dec64 n = n - 1"
  by (simp add: dec64_def)

lemma dec64_Suc [simp]: "dec64 (Suc n) = n"
  by (simp add: dec64_def)

section \<open>Bit scan\<close>

text \<open>Index of the highest set bit (\<open>BSR\<close>); the value at 0 is not used by any caller.\<close>

fun bsr :: "nat \<Rightarrow> nat" where
  "bsr n = (if n \<le> 1 then 0 else Suc (bsr (n div 2)))"

declare bsr.simps [simp del]

lemma bsr_less [arith_facts]: "n < 2 ^ Suc (bsr n)"
proof (induction n rule: bsr.induct)
  case (1 n)
  then show ?case by (subst bsr.simps) auto
qed

lemma bsr_le [arith_facts]: "0 < n \<Longrightarrow> 2 ^ bsr n \<le> n"
proof (induction n rule: bsr.induct)
  case (1 n)
  show ?case
  proof (cases "n \<le> 1")
    case True
    with "1.prems" show ?thesis by (subst bsr.simps) simp
  next
    case False
    with 1 have "2 ^ bsr (n div 2) \<le> n div 2" by simp
    with False show ?thesis by (subst bsr.simps) simp
  qed
qed

lemma bsr_unique:
  assumes "2 ^ k \<le> n" and "n < 2 ^ Suc k"
  shows "bsr n = k"
proof -
  from assms have n: "0 < n" by (meson less_le_trans zero_less_numeral zero_less_power)
  have "2 ^ k < (2::nat) ^ Suc (bsr n)" using assms(1) bsr_less [of n] by linarith
  then have "k < Suc (bsr n)" by (simp only: power_strict_increasing_iff one_less_numeral_iff semiring_norm)
  moreover have "2 ^ bsr n < (2::nat) ^ Suc k" using assms(2) bsr_le [OF n] by linarith
  then have "bsr n < Suc k" by (simp only: power_strict_increasing_iff one_less_numeral_iff semiring_norm)
  ultimately show ?thesis by simp
qed

lemma bsr_numeral:
  "bsr (numeral w) = (if (numeral w :: nat) \<le> 1 then 0 else Suc (bsr (numeral w div 2)))"
  "bsr 1 = 0" "bsr (Suc 0) = 0"
  by (subst bsr.simps; simp)+

section \<open>Rounding up\<close>

text \<open>
  \<open>(n + (k - 1)) & ~(k - 1)\<close> for a power of two \<open>k\<close>: clearing the low bits is
  subtracting the remainder.
\<close>

definition round_up :: "nat \<Rightarrow> nat \<Rightarrow> nat" where
  "round_up k n = (n + (k - 1)) - (n + (k - 1)) mod k"

lemma round_up_ge [arith_facts]: "0 < k \<Longrightarrow> n \<le> round_up k n"
proof -
  assume k: "0 < k"
  then have "(n + (k - 1)) mod k \<le> k - 1" by (simp add: less_Suc_eq_le [symmetric])
  then show ?thesis by (simp add: round_up_def)
qed

lemma round_up_less [arith_facts]: "0 < k \<Longrightarrow> round_up k n < n + k"
  by (simp add: round_up_def less_imp_diff_less)

lemma round_up_dvd [arith_facts]: "k dvd round_up k n"
  by (simp add: round_up_def minus_mod_eq_mult_div)

lemma round_up_multiple [simp]: "0 < k \<Longrightarrow> k dvd n \<Longrightarrow> round_up k n = n"
proof -
  assume "0 < k" and "k dvd n"
  then obtain j where n: "n = k * j" by (auto elim: dvdE)
  have "(k * j + (k - 1)) mod k = (k - 1) mod k" by simp
  also have "\<dots> = k - 1" using \<open>0 < k\<close> by simp
  finally show ?thesis by (simp add: round_up_def n)
qed

section \<open>Grids of blocks\<close>

text \<open>Start addresses \<open>p, p + w, \<dots>, p + (n - 1) w\<close> of \<open>n\<close> blocks of \<open>w\<close> bytes.\<close>

definition grid :: "nat \<Rightarrow> nat \<Rightarrow> nat \<Rightarrow> nat list" where
  "grid p w n = map (\<lambda>i. p + i * w) [0..<n]"

lemma set_grid: "set (grid p w n) = {p + i * w | i. i < n}"
  by (auto simp: grid_def)

lemma length_grid [simp]: "length (grid p w n) = n"
  by (simp add: grid_def)

lemma grid_0 [simp]: "grid p w 0 = []"
  by (simp add: grid_def)

lemma grid_Suc: "grid p w (Suc n) = grid p w n @ [p + n * w]"
  by (simp add: grid_def)

lemma grid_Cons: "grid p w (Suc n) = p # grid (p + w) w n"
proof -
  have "[0..<Suc n] = 0 # map Suc [0..<n]" by (simp add: map_Suc_upt upt_conv_Cons)
  then show ?thesis by (simp add: grid_def algebra_simps)
qed

lemma distinct_grid: "0 < w \<Longrightarrow> distinct (grid p w n)"
  by (auto simp: grid_def distinct_map inj_on_def)

lemma step_le: "i < j \<Longrightarrow> i * w + w \<le> j * (w::nat)"
proof -
  assume "i < j"
  then have "Suc i * w \<le> j * w" by (intro mult_le_mono1) simp
  then show ?thesis by simp
qed

lemma grid_apart:
  assumes "x \<in> set (grid p w n)" and "y \<in> set (grid p w n)" and "x \<noteq> y"
  shows "x + w \<le> y \<or> y + w \<le> x"
proof -
  from assms obtain i j where ij: "x = p + i * w" "y = p + j * w" by (auto simp: set_grid)
  with assms(3) have "i < j \<or> j < i" by (metis nat_neq_iff)
  with ij show ?thesis using step_le [of i j w] step_le [of j i w] by auto
qed

lemma grid_bounds:
  assumes "x \<in> set (grid p w n)"
  shows "p \<le> x \<and> x + w \<le> p + n * w"
proof -
  from assms obtain i where "x = p + i * w" "i < n" by (auto simp: set_grid)
  then show ?thesis using step_le [of i n w] by auto
qed

text \<open>A condition that must hold for the code to go on: an assertion, or the absence of undefined behaviour.\<close>

definition check :: "bool \<Rightarrow> unit option" where
  "check c = (if c then Some () else None)"

lemma check_simps [simp]: "check True = Some ()" "check False = None"
  by (simp_all add: check_def)

end
