(* ===== verification/World.thy ===== *)
theory World
  imports Prelude
begin

text \<open>
  The machine as the allocators see it: 8-byte cells addressed by their first byte, and
  the ledger of the objects currently owned from the system (what \<open>malloc\<close>,
  \<open>new[]\<close>, \<open>VirtualAlloc\<close> and their kin have returned and not yet taken back).
  Loads and stores outside an owned object, and loads of a cell whose value is not
  determined (fresh \<open>malloc\<close> memory, or a cell partly overwritten by a store to an
  overlapping address), are undefined behaviour and yield \<open>None\<close>. The address that
  the system returns is an argument of the operations, never invented here; \<open>malloc_ok\<close>
  is its documented contract.
\<close>

record world =
  cells :: "nat \<Rightarrow> nat option"
  regions :: "(nat \<times> nat) list"

section \<open>Cells\<close>

definition overlap :: "nat \<Rightarrow> nat \<Rightarrow> bool" where
  "overlap a b \<longleftrightarrow> a < b + 8 \<and> b < a + 8"

definition poke :: "nat \<Rightarrow> nat \<Rightarrow> (nat \<Rightarrow> nat option) \<Rightarrow> (nat \<Rightarrow> nat option)" where
  "poke a v m = (\<lambda>x. if x = a then Some v else if overlap a x then None else m x)"

definition wipe :: "nat \<Rightarrow> nat \<Rightarrow> (nat \<Rightarrow> nat option) \<Rightarrow> (nat \<Rightarrow> nat option)" where
  "wipe p n m = (\<lambda>x. if x < p + n \<and> p < x + 8 then None else m x)"

lemma poke_same [simp]: "poke a v m a = Some v"
  by (simp add: poke_def)

lemma poke_apart [simp]: "a + 8 \<le> x \<or> x + 8 \<le> a \<Longrightarrow> poke a v m x = m x"
  by (auto simp: poke_def overlap_def)

lemma wipe_apart [simp]: "p + n \<le> x \<or> x + 8 \<le> p \<Longrightarrow> wipe p n m x = m x"
  by (auto simp: wipe_def)

section \<open>Owned objects\<close>

definition inside :: "nat \<Rightarrow> nat \<Rightarrow> (nat \<times> nat) list \<Rightarrow> bool" where
  "inside a n rs \<longleftrightarrow> list_ex (\<lambda>(p, k). p \<le> a \<and> a + n \<le> p + k) rs"

definition apart :: "nat \<Rightarrow> nat \<Rightarrow> nat \<Rightarrow> nat \<Rightarrow> bool" where
  "apart a n b k \<longleftrightarrow> a + n \<le> b \<or> b + k \<le> a"

definition regions_ok :: "(nat \<times> nat) list \<Rightarrow> bool" where
  "regions_ok rs \<longleftrightarrow> list_all (\<lambda>(p, n). 0 < p \<and> 0 < n) rs
     \<and> sorted_wrt (\<lambda>(p, n) (q, k). apart p n q k) rs"

lemma inside_iff: "inside a n rs \<longleftrightarrow> (\<exists>(p, k) \<in> set rs. p \<le> a \<and> a + n \<le> p + k)"
  by (simp add: inside_def list_ex_iff)

lemma insideI: "(p, k) \<in> set rs \<Longrightarrow> p \<le> a \<Longrightarrow> a + n \<le> p + k \<Longrightarrow> inside a n rs"
  by (auto simp: inside_iff)

lemma inside_mono:
  assumes "inside a n rs" and "a \<le> b" and "b + k \<le> a + n"
  shows "inside b k rs"
proof -
  from assms(1) obtain q m where "(q, m) \<in> set rs" "q \<le> a" "a + n \<le> q + m"
    by (auto simp: inside_iff)
  with assms(2,3) show ?thesis by (intro insideI [of q m]) auto
qed

lemma inside_Cons: "inside a n ((p, k) # rs) \<longleftrightarrow> p \<le> a \<and> a + n \<le> p + k \<or> inside a n rs"
  by (simp add: inside_def)

lemma apart_sym: "apart a n b k = apart b k a n"
  by (auto simp: apart_def)

lemma apart_mono: "apart a n b k \<Longrightarrow> a \<le> a' \<Longrightarrow> a' + n' \<le> a + n \<Longrightarrow> apart a' n' b k"
  by (auto simp: apart_def)

lemma regions_ok_Nil [simp]: "regions_ok []"
  by (simp add: regions_ok_def)

lemma regions_ok_Cons:
  "regions_ok ((p, n) # rs) \<longleftrightarrow>
     0 < p \<and> 0 < n \<and> (\<forall>(q, k) \<in> set rs. apart p n q k) \<and> regions_ok rs"
  by (auto simp: regions_ok_def)

lemma regions_ok_pos: "regions_ok rs \<Longrightarrow> (p, n) \<in> set rs \<Longrightarrow> 0 < p \<and> 0 < n"
  by (auto simp: regions_ok_def list_all_iff)

lemma regions_ok_apart:
  "regions_ok rs \<Longrightarrow> (p, n) \<in> set rs \<Longrightarrow> (q, k) \<in> set rs \<Longrightarrow> (p, n) \<noteq> (q, k) \<Longrightarrow> apart p n q k"
proof (induction rs)
  case Nil
  then show ?case by simp
next
  case (Cons r rs)
  obtain b m where r: "r = (b, m)" by (cases r)
  from Cons show ?case
    by (auto simp: r regions_ok_Cons apart_sym [of _ _ b m])
qed

lemma regions_ok_base:
  assumes "regions_ok rs" and "(p, n) \<in> set rs" and "(p, k) \<in> set rs"
  shows "n = k"
  using regions_ok_apart [OF assms] regions_ok_pos [OF assms(1,2)] regions_ok_pos [OF assms(1,3)]
  by (auto simp: apart_def)

lemma inside_pos: "regions_ok rs \<Longrightarrow> inside a n rs \<Longrightarrow> 0 < a"
  by (fastforce simp: inside_iff dest: regions_ok_pos)

section \<open>Access\<close>

definition load :: "nat \<Rightarrow> 'a world_scheme \<Rightarrow> nat option" where
  "load a s = (if inside a 8 (regions s) then cells s a else None)"

definition store :: "nat \<Rightarrow> nat \<Rightarrow> 'a world_scheme \<Rightarrow> 'a world_scheme option" where
  "store a v s =
     (if inside a 8 (regions s) then Some (s\<lparr>cells := poke a v (cells s)\<rparr>) else None)"

lemma load_Some: "load a s = Some v \<longleftrightarrow> inside a 8 (regions s) \<and> cells s a = Some v"
  by (simp add: load_def)

lemma store_Some:
  "store a v s = Some s' \<longleftrightarrow> inside a 8 (regions s) \<and> s' = s\<lparr>cells := poke a v (cells s)\<rparr>"
  by (auto simp: store_def)

lemma store_load_same: "store a v s = Some s' \<Longrightarrow> load a s' = Some v"
  by (auto simp: store_Some load_Some)

lemma store_load_apart: "store a v s = Some s' \<Longrightarrow> apart a 8 b 8 \<Longrightarrow> load b s' = load b s"
  by (auto simp: store_Some load_def apart_def)

section \<open>The system allocator\<close>

text \<open>The only exception the allocators throw.\<close>

datatype exn = Bad_alloc

text \<open>
  \<open>sys_take p n\<close> records that the system answered \<open>p\<close> to a request for \<open>n\<close> bytes:
  the null pointer changes nothing, any other answer is an object with undetermined contents.
  \<open>sys_give\<close> hands an object back, which is only defined for the base address of an owned
  object; \<open>c_free\<close> is the C function, which ignores the null pointer.
\<close>

definition malloc_ok :: "nat \<Rightarrow> nat \<Rightarrow> 'a world_scheme \<Rightarrow> bool" where
  "malloc_ok p n s \<longleftrightarrow> 0 < p \<and> 0 < n \<and> list_all (\<lambda>(q, k). apart p n q k) (regions s)"

definition sys_take :: "nat \<Rightarrow> nat \<Rightarrow> 'a world_scheme \<Rightarrow> 'a world_scheme" where
  "sys_take p n s =
     (if p = 0 then s else s\<lparr>regions := (p, n) # regions s, cells := wipe p n (cells s)\<rparr>)"

definition sys_give :: "nat \<Rightarrow> 'a world_scheme \<Rightarrow> 'a world_scheme option" where
  "sys_give p s =
     (case map_of (regions s) p of
        None \<Rightarrow> None
      | Some n \<Rightarrow> Some (s\<lparr>regions := filter (\<lambda>r. fst r \<noteq> p) (regions s),
                            cells := wipe p n (cells s)\<rparr>))"

definition c_free :: "nat \<Rightarrow> 'a world_scheme \<Rightarrow> 'a world_scheme option" where
  "c_free p s = (if p = 0 then Some s else sys_give p s)"

lemma malloc_ok_pos: "malloc_ok p n s \<Longrightarrow> 0 < p \<and> 0 < n"
  by (simp add: malloc_ok_def)

lemma malloc_ok_apart: "malloc_ok p n s \<Longrightarrow> (q, k) \<in> set (regions s) \<Longrightarrow> apart p n q k"
  by (auto simp: malloc_ok_def list_all_iff)

lemma malloc_ok_inside: "malloc_ok p n s \<Longrightarrow> inside a k (regions s) \<Longrightarrow> apart p n a k"
  by (fastforce simp: inside_iff apart_def dest: malloc_ok_apart)

lemma regions_ok_take:
  "regions_ok (regions s) \<Longrightarrow> malloc_ok p n s \<Longrightarrow> regions_ok (regions (sys_take p n s))"
  by (auto simp: sys_take_def regions_ok_Cons malloc_ok_def list_all_iff)

lemma regions_ok_filter: "regions_ok rs \<Longrightarrow> regions_ok (filter P rs)"
  by (auto simp: regions_ok_def list_all_iff sorted_wrt_filter)

lemma sys_give_Some:
  assumes "regions_ok (regions s)" and "(p, n) \<in> set (regions s)"
  shows "sys_give p s = Some (s\<lparr>regions := filter (\<lambda>r. fst r \<noteq> p) (regions s),
                                 cells := wipe p n (cells s)\<rparr>)"
proof -
  have "map_of (regions s) p = Some n"
    using assms by (metis map_of_SomeD not_None_eq regions_ok_base weak_map_of_SomeI)
  then show ?thesis by (simp add: sys_give_def)
qed

lemma inside_give:
  assumes "regions_ok rs" and "(p, n) \<in> set rs" and "inside a k rs" and "apart p n a k" and "0 < k"
  shows "inside a k (filter (\<lambda>r. fst r \<noteq> p) rs)"
proof -
  from assms(3) obtain q m where q: "(q, m) \<in> set rs" "q \<le> a" "a + k \<le> q + m"
    by (auto simp: inside_iff)
  have "q \<noteq> p"
    using q assms regions_ok_base [OF assms(1,2)] by (fastforce simp: apart_def)
  with q show ?thesis by (auto simp: inside_iff)
qed

text \<open>\<open>delete[]\<close> of each block of a list, in order.\<close>

fun delete_all :: "nat list \<Rightarrow> 'a world_scheme \<Rightarrow> 'a world_scheme option" where
  "delete_all [] s = Some s"
| "delete_all (b # bs) s = do { s \<leftarrow> c_free b s; delete_all bs s }"

lemma delete_all_ok:
  assumes "regions_ok (regions s)" and "distinct bs" and "\<forall>b \<in> set bs. (b, n b) \<in> set (regions s)"
  shows "\<exists>m. delete_all bs s
      = Some (s\<lparr>regions := filter (\<lambda>r. fst r \<notin> set bs) (regions s), cells := m\<rparr>)"
  using assms
proof (induction bs arbitrary: s)
  case Nil
  then show ?case by (intro exI [of _ "cells s"]) simp
next
  case (Cons b bs)
  let ?t = "s\<lparr>regions := filter (\<lambda>r. fst r \<noteq> b) (regions s), cells := wipe b (n b) (cells s)\<rparr>"
  have b: "(b, n b) \<in> set (regions s)" "0 < b"
    using Cons.prems(1,3) by (auto dest: regions_ok_pos)
  have "c_free b s = Some ?t"
    using sys_give_Some [OF Cons.prems(1) b(1)] b(2) by (simp add: c_free_def)
  moreover obtain m where
    "delete_all bs ?t = Some (?t\<lparr>regions := filter (\<lambda>r. fst r \<notin> set bs) (regions ?t), cells := m\<rparr>)"
    using Cons.IH [of ?t] Cons.prems regions_ok_filter by fastforce
  ultimately show ?case by (auto simp: conj_commute)
qed


section \<open>Copying\<close>

text \<open>
  \<open>memcpy\<close> of \<open>n\<close> bytes from \<open>p\<close> to \<open>q\<close>: the cells that lie wholly in the
  destination receive those of the source, determined or not; a cell partly overwritten is
  undetermined. Both ranges must be owned and must not overlap.
\<close>

definition copy_cells :: "nat \<Rightarrow> nat \<Rightarrow> nat \<Rightarrow> (nat \<Rightarrow> nat option) \<Rightarrow> (nat \<Rightarrow> nat option)" where
  "copy_cells q p n m = (\<lambda>x. if q \<le> x \<and> x + 8 \<le> q + n then m (x - q + p)
                              else if x < q + n \<and> q < x + 8 then None else m x)"

definition memcpy :: "nat \<Rightarrow> nat \<Rightarrow> nat \<Rightarrow> 'a world_scheme \<Rightarrow> 'a world_scheme option" where
  "memcpy q p n s =
     (if n = 0 then Some s
      else if inside q n (regions s) \<and> inside p n (regions s) \<and> apart q n p n
      then Some (s\<lparr>cells := copy_cells q p n (cells s)\<rparr>) else None)"

lemma copy_cells_apart [simp]: "apart q n x 8 \<Longrightarrow> copy_cells q p n m x = m x"
  by (auto simp: copy_cells_def apart_def)

lemma copy_cells_inside: "i + 8 \<le> n \<Longrightarrow> copy_cells q p n m (q + i) = m (p + i)"
  by (simp add: copy_cells_def add.commute)

text \<open>
  \<open>realloc\<close> of an object: \<open>r\<close> is its answer, 0 when there is no memory, in which case the
  object stays; otherwise the first bytes move to the new object and the old one is gone.
\<close>

definition c_realloc :: "nat \<Rightarrow> nat \<Rightarrow> nat \<Rightarrow> 'a world_scheme \<Rightarrow> 'a world_scheme option" where
  "c_realloc p r n s =
     (case map_of (regions s) p of
        None \<Rightarrow> None
      | Some k \<Rightarrow> if r = 0 then Some s
          else Some (s\<lparr>regions := (r, n) # filter (\<lambda>t. fst t \<noteq> p) (regions s),
                        cells := (\<lambda>x. if r \<le> x \<and> x + 8 \<le> r + min k n then cells s (x - r + p)
                                      else wipe r n (wipe p k (cells s)) x)\<rparr>))"

end
