(* ===== verification/FreeLists.thy ===== *)
theory FreeLists
  imports World
begin

text \<open>
  Intrusive free lists: a free block stores the link to the next free block inside itself.
  Every allocator of the repository keeps such lists; they differ in where the link sits in
  the block (\<open>foff\<close>), how a block address is written as a link (\<open>fenc\<close>: the pointer
  itself, or an index into a block array) and which value ends the list (\<open>fnil\<close>).
  \<open>heap_inv\<close> is the invariant of a family of such lists, one per class \<open>c\<close> (a size
  class, a chunk, a thread), together with the blocks \<open>L\<close> handed out to the client: the
  lists are well linked and repeat no block, no block is both free and handed out, and all
  blocks lie in owned memory without overlapping one another.
\<close>

record fmt =
  fnil :: nat
  fenc :: "nat \<Rightarrow> nat"
  foff :: nat

definition ptr_fmt :: "nat \<Rightarrow> fmt" where
  "ptr_fmt k = \<lparr>fnil = 0, fenc = (\<lambda>x. x), foff = k\<rparr>"

lemma ptr_fmt_simps [simp]:
  "fnil (ptr_fmt k) = 0" "fenc (ptr_fmt k) x = x" "foff (ptr_fmt k) = k"
  by (simp_all add: ptr_fmt_def)

fun chain :: "fmt \<Rightarrow> (nat \<Rightarrow> nat option) \<Rightarrow> nat \<Rightarrow> nat list \<Rightarrow> bool" where
  "chain f m v [] \<longleftrightarrow> v = fnil f"
| "chain f m v (x # xs) \<longleftrightarrow> v = fenc f x \<and> fenc f x \<noteq> fnil f
     \<and> (\<exists>q. m (x + foff f) = Some q \<and> chain f m q xs)"

lemma chain_nil_iff: "chain f m v xs \<Longrightarrow> v = fnil f \<longleftrightarrow> xs = []"
  by (cases xs) auto

lemma chain_cong:
  "(\<And>x. x \<in> set xs \<Longrightarrow> m (x + foff f) = m' (x + foff f)) \<Longrightarrow> chain f m v xs = chain f m' v xs"
  by (induction xs arbitrary: v) auto

lemma chain_append:
  "chain f m v (xs @ ys) \<Longrightarrow> \<exists>q. chain f m q ys"
  by (induction xs arbitrary: v) auto

section \<open>The invariant of a family of free lists\<close>

definition blocks :: "('c \<Rightarrow> nat list) \<Rightarrow> (nat \<rightharpoonup> 'c) \<Rightarrow> (nat \<times> 'c) set" where
  "blocks fs L = {(x, c). x \<in> set (fs c) \<or> L x = Some c}"

definition block_ok :: "('c \<Rightarrow> nat) \<Rightarrow> ('c \<Rightarrow> fmt) \<Rightarrow> (nat \<times> nat) list \<Rightarrow> nat \<Rightarrow> 'c \<Rightarrow> bool" where
  "block_ok sz fm rs x c \<longleftrightarrow>
     foff (fm c) + 8 \<le> sz c \<and> fenc (fm c) x \<noteq> fnil (fm c) \<and> inside x (sz c) rs"

definition spaced :: "('c \<Rightarrow> nat) \<Rightarrow> (nat \<times> 'c) set \<Rightarrow> bool" where
  "spaced sz B \<longleftrightarrow>
     (\<forall>(x, c) \<in> B. \<forall>(y, d) \<in> B. (x, c) \<noteq> (y, d) \<longrightarrow> apart x (sz c) y (sz d))"

lemma spacedD:
  "spaced sz B \<Longrightarrow> (x, c) \<in> B \<Longrightarrow> (y, d) \<in> B \<Longrightarrow> (x, c) \<noteq> (y, d) \<Longrightarrow> apart x (sz c) y (sz d)"
  by (fastforce simp: spaced_def)

lemma spacedI:
  "(\<And>x c y d. (x, c) \<in> B \<Longrightarrow> (y, d) \<in> B \<Longrightarrow> (x, c) \<noteq> (y, d) \<Longrightarrow> apart x (sz c) y (sz d))
     \<Longrightarrow> spaced sz B"
  by (auto simp: spaced_def)

lemma spaced_mono: "spaced sz B \<Longrightarrow> A \<subseteq> B \<Longrightarrow> spaced sz A"
  by (intro spacedI) (blast dest: spacedD)

lemma spaced_Un:
  assumes "spaced sz A" and "spaced sz B"
    and "\<And>x c y d. (x, c) \<in> A \<Longrightarrow> (y, d) \<in> B \<Longrightarrow> apart x (sz c) y (sz d)"
  shows "spaced sz (A \<union> B)"
proof (rule spacedI)
  fix x c y d assume "(x, c) \<in> A \<union> B" "(y, d) \<in> A \<union> B" "(x, c) \<noteq> (y, d)"
  then show "apart x (sz c) y (sz d)"
    using spacedD [OF assms(1)] spacedD [OF assms(2)] assms(3) [of x c y d]
      assms(3) [of y d x c] by (auto simp: apart_sym [of x])
qed

definition heap_inv ::
  "('c \<Rightarrow> nat) \<Rightarrow> ('c \<Rightarrow> fmt) \<Rightarrow> (nat \<Rightarrow> nat option) \<Rightarrow> (nat \<times> nat) list
     \<Rightarrow> ('c \<Rightarrow> nat) \<Rightarrow> ('c \<Rightarrow> nat list) \<Rightarrow> (nat \<rightharpoonup> 'c) \<Rightarrow> bool" where
  "heap_inv sz fm m rs h fs L \<longleftrightarrow>
     regions_ok rs
     \<and> (\<forall>c. chain (fm c) m (h c) (fs c) \<and> distinct (fs c) \<and> (\<forall>x \<in> set (fs c). L x \<noteq> Some c))
     \<and> (\<forall>(x, c) \<in> blocks fs L. block_ok sz fm rs x c)
     \<and> spaced sz (blocks fs L)"

lemma in_blocks: "(x, c) \<in> blocks fs L \<longleftrightarrow> x \<in> set (fs c) \<or> L x = Some c"
  by (simp add: blocks_def)

lemma heap_regions:
  assumes H: "heap_inv sz fm m rs h fs L"
  shows "regions_ok rs"
  using H by (simp add: heap_inv_def)

lemma heap_chain:
  assumes H: "heap_inv sz fm m rs h fs L"
  shows "chain (fm c) m (h c) (fs c)"
  using H by (simp add: heap_inv_def)

lemma heap_distinct:
  assumes H: "heap_inv sz fm m rs h fs L"
  shows "distinct (fs c)"
  using H by (simp add: heap_inv_def)

lemma heap_free_not_live:
  assumes H: "heap_inv sz fm m rs h fs L"
  shows "x \<in> set (fs c) \<Longrightarrow> L x \<noteq> Some c"
  using H by (auto simp: heap_inv_def)

lemma heap_block_ok:
  assumes H: "heap_inv sz fm m rs h fs L"
  shows "(x, c) \<in> blocks fs L \<Longrightarrow> block_ok sz fm rs x c"
  using H by (auto simp: heap_inv_def)

lemma heap_apart:
  assumes H: "heap_inv sz fm m rs h fs L"
  shows "(x, c) \<in> blocks fs L \<Longrightarrow> (y, d) \<in> blocks fs L \<Longrightarrow> (x, c) \<noteq> (y, d) \<Longrightarrow> apart x (sz c) y (sz d)"
  using H by (auto simp: heap_inv_def dest: spacedD)

lemma heap_block_inside:
  assumes H: "heap_inv sz fm m rs h fs L"
  shows "(x, c) \<in> blocks fs L \<Longrightarrow> inside x (sz c) rs"
  by (drule heap_block_ok [OF H]) (simp add: block_ok_def)

lemma heap_block_size:
  assumes H: "heap_inv sz fm m rs h fs L"
  shows "(x, c) \<in> blocks fs L \<Longrightarrow> foff (fm c) + 8 \<le> sz c"
  by (drule heap_block_ok [OF H]) (simp add: block_ok_def)

lemma heap_block_pos:
  assumes H: "heap_inv sz fm m rs h fs L"
  shows "(x, c) \<in> blocks fs L \<Longrightarrow> 0 < x"
  using heap_block_inside [OF H] heap_regions [OF H] inside_pos by blast

lemma heap_empty_iff:
  assumes H: "heap_inv sz fm m rs h fs L"
  shows "h c = fnil (fm c) \<longleftrightarrow> fs c = []"
  using heap_chain [OF H] by (rule chain_nil_iff)

lemma heap_link_inside:
  assumes H: "heap_inv sz fm m rs h fs L"
  shows "(x, c) \<in> blocks fs L \<Longrightarrow> inside (x + foff (fm c)) 8 rs"
  using heap_block_inside [OF H, of x c] heap_block_size [OF H, of x c]
  by (auto elim: inside_mono)

lemma heap_class_unique:
  assumes H: "heap_inv sz fm m rs h fs L"
    and "(x, c) \<in> blocks fs L" and "(x, d) \<in> blocks fs L"
  shows "c = d"
  using heap_apart [OF assms] heap_block_size [OF assms(1,2)] heap_block_size [OF assms(1,3)]
  by (auto simp: apart_def)

lemma heap_cells_cong:
  assumes H: "heap_inv sz fm m rs h fs L"
    and "\<And>c x. x \<in> set (fs c) \<Longrightarrow> m' (x + foff (fm c)) = m (x + foff (fm c))"
  shows "heap_inv sz fm m' rs h fs L"
proof -
  have "chain (fm c) m' (h c) (fs c)" for c
    using heap_chain [OF H, of c] assms(2) by (subst chain_cong [where m' = m]) auto
  then show ?thesis using H by (simp add: heap_inv_def)
qed

lemma heap_poke_apart:
  assumes H: "heap_inv sz fm m rs h fs L"
    and "\<And>c x. x \<in> set (fs c) \<Longrightarrow> apart a 8 (x + foff (fm c)) 8"
  shows "heap_inv sz fm (poke a v m) rs h fs L"
  using assms by (intro heap_cells_cong [OF H] poke_apart) (auto simp: apart_def)

text \<open>The client may write anywhere inside the blocks it holds.\<close>

lemma heap_poke_live:
  assumes H: "heap_inv sz fm m rs h fs L"
    and x: "L x = Some c" and a: "x \<le> a" "a + 8 \<le> x + sz c"
  shows "heap_inv sz fm (poke a v m) rs h fs L"
proof (rule heap_poke_apart [OF H])
  fix d y assume y: "y \<in> set (fs d)"
  with x have "(y, d) \<noteq> (x, c)" using heap_free_not_live [OF H] by auto
  then have "apart x (sz c) y (sz d)"
    using x y heap_apart [OF H, of x c y d] by (auto simp: in_blocks)
  moreover have "foff (fm d) + 8 \<le> sz d"
    using y heap_block_size [OF H, of y d] by (simp add: in_blocks)
  ultimately show "apart a 8 (y + foff (fm d)) 8" using a by (auto simp: apart_def)
qed

lemma heap_live_inside:
  assumes H: "heap_inv sz fm m rs h fs L"
  shows "L x = Some c \<Longrightarrow> x \<le> a \<Longrightarrow> a + n \<le> x + sz c \<Longrightarrow> inside a n rs"
  using heap_block_inside [OF H, of x c] by (auto simp: in_blocks elim: inside_mono)

lemma heap_live_apart:
  assumes H: "heap_inv sz fm m rs h fs L"
  shows "L x = Some c \<Longrightarrow> L y = Some d \<Longrightarrow> x \<noteq> y \<Longrightarrow> apart x (sz c) y (sz d)"
  using heap_apart [OF H, of x c y d] by (auto simp: in_blocks)

text \<open>Changing the link format of classes that hold no block.\<close>

lemma heap_fmt_cong:
  assumes H: "heap_inv sz fm m rs h fs L"
    and "\<And>x c. (x, c) \<in> blocks fs L \<Longrightarrow> fm' c = fm c" and "\<And>c. fnil (fm' c) = fnil (fm c)"
  shows "heap_inv sz fm' m rs h fs L"
proof -
  have "chain (fm' c) m (h c) (fs c)" for c
  proof (cases "fs c = []")
    case True
    then show ?thesis using heap_chain [OF H, of c] assms(3) by simp
  next
    case False
    then have "(hd (fs c), c) \<in> blocks fs L" by (simp add: in_blocks)
    then show ?thesis using heap_chain [OF H, of c] assms(2) by simp
  qed
  then show ?thesis using H assms(2) by (auto simp: heap_inv_def block_ok_def)
qed

text \<open>Taking the first free block of a class.\<close>

lemma heap_pop:
  assumes H: "heap_inv sz fm m rs h fs L"
    and c: "fs c = x # xs"
  obtains q where "h c = fenc (fm c) x" and "m (x + foff (fm c)) = Some q"
    and "inside (x + foff (fm c)) 8 rs" and "L x = None"
    and "heap_inv sz fm m rs (h(c := q)) (fs(c := xs)) (L(x \<mapsto> c))"
proof -
  obtain q where q: "h c = fenc (fm c) x" "m (x + foff (fm c)) = Some q" "chain (fm c) m q xs"
    using heap_chain [OF H, of c] by (auto simp: c)
  have xc: "(x, c) \<in> blocks fs L" by (simp add: in_blocks c)
  have L: "L x = None"
  proof (cases "L x")
    case (Some d)
    then show ?thesis
      using heap_class_unique [OF H xc, of d] heap_free_not_live [OF H, of x c] c by (auto simp: in_blocks)
  qed simp
  have B: "blocks (fs(c := xs)) (L(x \<mapsto> c)) = blocks fs L"
    using L c by (auto simp: blocks_def split: if_splits)
  have notin: "x \<notin> set (fs d)" if "d \<noteq> c" for d
    using heap_class_unique [OF H xc, of d] that by (auto simp: in_blocks)
  have "heap_inv sz fm m rs (h(c := q)) (fs(c := xs)) (L(x \<mapsto> c))"
    unfolding heap_inv_def B
    using H q(3) notin heap_distinct [OF H, of c] c by (auto simp: heap_inv_def)
  with q L heap_link_inside [OF H xc] that show ?thesis by blast
qed

text \<open>Returning a block to the front of its list.\<close>

lemma heap_push:
  assumes H: "heap_inv sz fm m rs h fs L"
    and x: "L x = Some c"
  shows "heap_inv sz fm (poke (x + foff (fm c)) (h c) m) rs (h(c := fenc (fm c) x))
           (fs(c := x # fs c)) (L(x := None))"
proof -
  let ?m = "poke (x + foff (fm c)) (h c) m"
  have xc: "(x, c) \<in> blocks fs L" by (simp add: in_blocks x)
  have H': "heap_inv sz fm ?m rs h fs L"
    using heap_poke_live [OF H x] heap_block_size [OF H xc] by simp
  have B: "blocks (fs(c := x # fs c)) (L(x := None)) = blocks fs L"
    using x by (auto simp: blocks_def split: if_splits)
  have nf: "x \<notin> set (fs c)" using heap_free_not_live [OF H] x by auto
  show ?thesis
    unfolding heap_inv_def B
    using H' nf heap_block_ok [OF H xc] heap_class_unique [OF H xc]
    by (auto simp: heap_inv_def block_ok_def in_blocks)
qed

text \<open>A new object from the system; the lists are untouched.\<close>

lemma heap_take:
  assumes H: "heap_inv sz fm m rs h fs L"
    and "0 < p" and "0 < n" and "\<And>q k. (q, k) \<in> set rs \<Longrightarrow> apart p n q k"
  shows "heap_inv sz fm (wipe p n m) ((p, n) # rs) h fs L"
proof -
  have ap: "apart p n a k" if "inside a k rs" for a k
    using that assms(3) assms(4) by (fastforce simp: inside_iff apart_def)
  have "chain (fm c) (wipe p n m) (h c) (fs c)" for c
    using heap_chain [OF H, of c] ap [OF heap_link_inside [OF H]] 
    by (subst chain_cong [where m' = m]) (auto simp: apart_def in_blocks)
  then show ?thesis
    using H assms by (auto simp: heap_inv_def regions_ok_Cons block_ok_def inside_Cons)
qed

text \<open>A block not yet in use becomes a live block of class \<open>c\<close>.\<close>

lemma heap_carve:
  assumes H: "heap_inv sz fm m rs h fs L"
    and "block_ok sz fm rs x c"
    and "\<And>y d. (y, d) \<in> blocks fs L \<Longrightarrow> apart x (sz c) y (sz d)"
  shows "heap_inv sz fm m rs h fs (L(x \<mapsto> c))"
proof -
  have pos: "0 < sz c" using assms(2) by (simp add: block_ok_def)
  have new: "(x, d) \<notin> blocks fs L" for d
    using assms(3) [of x d] heap_block_size [OF H, of x d] pos by (auto simp: apart_def)
  have B: "blocks fs (L(x \<mapsto> c)) = insert (x, c) (blocks fs L)"
    using new by (auto simp: blocks_def split: if_splits)
  have "spaced sz ({(x, c)} \<union> blocks fs L)"
    using H assms(3) by (intro spaced_Un) (auto simp: heap_inv_def intro: spacedI)
  then have "spaced sz (blocks fs (L(x \<mapsto> c)))" by (simp add: B)
  moreover have "\<forall>(y, d) \<in> blocks fs (L(x \<mapsto> c)). block_ok sz fm rs y d"
    unfolding B using heap_block_ok [OF H] assms(2) by auto
  moreover have "\<forall>y \<in> set (fs d). (L(x \<mapsto> c)) y \<noteq> Some d" for d
    using heap_free_not_live [OF H] new by (auto simp: in_blocks)
  ultimately show ?thesis using H unfolding heap_inv_def by blast
qed

text \<open>Unused memory that is already owned joins the free list of a class.\<close>

lemma heap_add:
  assumes H: "heap_inv sz fm m rs h fs L"
    and ok: "block_ok sz fm rs x c"
    and ap: "\<And>y d. (y, d) \<in> blocks fs L \<Longrightarrow> apart x (sz c) y (sz d)"
  shows "heap_inv sz fm (poke (x + foff (fm c)) (h c) m) rs (h(c := fenc (fm c) x)) (fs(c := x # fs c)) L"
proof -
  have "L x = None"
  proof (cases "L x")
    case (Some d)
    then have "(x, d) \<in> blocks fs L" by (simp add: in_blocks)
    then show ?thesis using ap [of x d] heap_block_size [OF H, of x d] ok
      by (simp add: block_ok_def apart_def)
  qed
  then have "(L(x \<mapsto> c))(x := None) = L" by auto
  then show ?thesis using heap_push [OF heap_carve [OF H ok ap], of x c] by simp
qed

text \<open>Forgetting live blocks, and forgetting the whole list of a class.\<close>

lemma heap_drop_live:
  assumes H: "heap_inv sz fm m rs h fs L"
  shows "heap_inv sz fm m rs h fs (L |` A)"
proof -
  have "blocks fs (L |` A) \<subseteq> blocks fs L" by (auto simp: blocks_def restrict_map_def split: if_splits)
  then have "spaced sz (blocks fs (L |` A))"
    and "\<forall>(x, d) \<in> blocks fs (L |` A). block_ok sz fm rs x d"
    using H heap_block_ok [OF H] by (auto simp: heap_inv_def intro: spaced_mono)
  then show ?thesis using H by (auto simp: heap_inv_def restrict_map_def)
qed

lemma heap_reset_class:
  assumes H: "heap_inv sz fm m rs h fs L"
  shows "heap_inv sz fm m rs (h(c := fnil (fm c))) (fs(c := [])) L"
proof -
  have B: "blocks (fs(c := [])) L \<subseteq> blocks fs L" by (auto simp: blocks_def split: if_splits)
  then have "spaced sz (blocks (fs(c := [])) L)"
    and "\<forall>(x, d) \<in> blocks (fs(c := [])) L. block_ok sz fm rs x d"
    using H heap_block_ok [OF H] by (auto simp: heap_inv_def intro: spaced_mono)
  then show ?thesis using H unfolding heap_inv_def by auto
qed

text \<open>Installing a freshly linked list in an empty class.\<close>

lemma heap_install:
  assumes H: "heap_inv sz fm m rs h fs L"
    and c: "fs c = []" and ch: "chain (fm c) m v ys" and d: "distinct ys"
    and ok: "\<And>y. y \<in> set ys \<Longrightarrow> block_ok sz fm rs y c"
    and ap: "\<And>y z. y \<in> set ys \<Longrightarrow> z \<in> set ys \<Longrightarrow> y \<noteq> z \<Longrightarrow> apart y (sz c) z (sz c)"
    and old: "\<And>y z e. y \<in> set ys \<Longrightarrow> (z, e) \<in> blocks fs L \<Longrightarrow> apart y (sz c) z (sz e)"
  shows "heap_inv sz fm m rs (h(c := v)) (fs(c := ys)) L"
proof -
  have B: "blocks (fs(c := ys)) L = blocks fs L \<union> (\<lambda>y. (y, c)) ` set ys"
    using c by (auto simp: blocks_def split: if_splits)
  have notlive: "L y \<noteq> Some c" if "y \<in> set ys" for y
    using old [OF that, of y c] ok [OF that] by (auto simp: in_blocks apart_def block_ok_def)
  have "spaced sz (blocks fs L)" using H by (simp add: heap_inv_def)
  moreover have "spaced sz ((\<lambda>y. (y, c)) ` set ys)" using ap by (intro spacedI) auto
  moreover have "apart z (sz e) y (sz d)"
    if "(z, e) \<in> blocks fs L" "(y, d) \<in> (\<lambda>y. (y, c)) ` set ys" for z e y d
    using that old [of y z e] by (auto simp: apart_sym [of z])
  ultimately have "spaced sz (blocks (fs(c := ys)) L)"
    unfolding B by (rule spaced_Un)
  moreover have "\<forall>(x, e) \<in> blocks (fs(c := ys)) L. block_ok sz fm rs x e"
    unfolding B using heap_block_ok [OF H] ok by auto
  ultimately show ?thesis
    using H ch d notlive unfolding heap_inv_def by auto
qed

text \<open>
  A new object whose blocks were linked in ascending order, which is how most of the
  allocators prepare a chunk.
\<close>

lemma chain_grid:
  assumes "0 < p" and "0 < n"
    and "\<And>j. j < n \<Longrightarrow> m (p + j * w + k) = Some (if Suc j = n then 0 else p + Suc j * w)"
  shows "chain (ptr_fmt k) m p (grid p w n)"
  using assms
proof (induction n arbitrary: p)
  case 0
  then show ?case by simp
next
  case (Suc n)
  show ?case
  proof (cases "n = 0")
    case True
    with Suc.prems(1) Suc.prems(3) [of 0] show ?thesis by (simp add: grid_Cons)
  next
    case False
    have "m (p + w + j * w + k) = Some (if Suc j = n then 0 else p + w + Suc j * w)" if "j < n" for j
      using Suc.prems(3) [of "Suc j"] that by (simp add: algebra_simps)
    with False Suc.prems(1) have "chain (ptr_fmt k) m (p + w) (grid (p + w) w n)"
      by (intro Suc.IH) auto
    moreover have "m (p + k) = Some (p + w)" using Suc.prems(3) [of 0] False by simp
    ultimately show ?thesis using Suc.prems(1) by (simp add: grid_Cons)
  qed
qed

lemma heap_new_grid:
  assumes H: "heap_inv sz fm m rs h fs L"
    and fresh: "0 < p" "0 < n" "\<And>q k. (q, k) \<in> set rs \<Longrightarrow> apart p n q k"
    and outside: "\<And>x. apart p n x 8 \<Longrightarrow> m' x = m x"
    and c: "fs c = []" "fm c = ptr_fmt k" "k + 8 \<le> sz c"
    and N: "0 < N" "p \<le> q" "q + N * sz c \<le> p + n"
    and links: "\<And>j. j < N \<Longrightarrow>
          m' (q + j * sz c + k) = Some (if Suc j = N then 0 else q + Suc j * sz c)"
  shows "heap_inv sz fm m' ((p, n) # rs) (h(c := q)) (fs(c := grid q (sz c) N)) L"
proof -
  have old: "apart p n x (sz d)" if "(x, d) \<in> blocks fs L" for x d
    using heap_block_inside [OF H that] fresh(3) by (fastforce simp: inside_iff apart_def)
  have T: "heap_inv sz fm (wipe p n m) ((p, n) # rs) h fs L"
    using H fresh by (rule heap_take)
  have T': "heap_inv sz fm m' ((p, n) # rs) h fs L"
  proof (rule heap_cells_cong [OF T])
    fix d x assume "x \<in> set (fs d)"
    then have xd: "(x, d) \<in> blocks fs L" by (simp add: in_blocks)
    have "apart p n (x + foff (fm d)) 8"
      using old [OF xd] heap_block_size [OF H xd] by (auto simp: apart_def)
    then show "m' (x + foff (fm d)) = wipe p n m (x + foff (fm d))"
      using outside by (auto simp: apart_def)
  qed
  have g: "p \<le> y \<and> y + sz c \<le> p + n" if "y \<in> set (grid q (sz c) N)" for y
    using grid_bounds [OF that] N by linarith
  have ch: "chain (fm c) m' q (grid q (sz c) N)"
    using chain_grid [of q N m' "sz c" k] links N fresh(1) c(2) by auto
  show ?thesis
  proof (rule heap_install [OF T' c(1) ch])
    show "distinct (grid q (sz c) N)" using c(3) by (intro distinct_grid) simp
  next
    fix y assume "y \<in> set (grid q (sz c) N)"
    then show "block_ok sz fm ((p, n) # rs) y c"
      using g c fresh(1) by (force simp: block_ok_def inside_Cons)
  next
    fix y z assume "y \<in> set (grid q (sz c) N)" "z \<in> set (grid q (sz c) N)" "y \<noteq> z"
    then show "apart y (sz c) z (sz c)" using grid_apart by (auto simp: apart_def)
  next
    fix y z e assume "y \<in> set (grid q (sz c) N)" "(z, e) \<in> blocks fs L"
    then show "apart y (sz c) z (sz e)" using g [of y] old [of z e] by (auto simp: apart_def)
  qed
qed

text \<open>Carving unused memory that is already owned into a linked list.\<close>

lemma heap_fill_grid:
  assumes H: "heap_inv sz fm m rs h fs L"
    and c: "fs c = []" "fm c = ptr_fmt k" "k + 8 \<le> sz c"
    and N: "0 < N" "0 < q" "inside q (N * sz c) rs"
    and old: "\<And>x d. (x, d) \<in> blocks fs L \<Longrightarrow> apart q (N * sz c) x (sz d)"
    and outside: "\<And>x. apart q (N * sz c) x 8 \<Longrightarrow> m' x = m x"
    and links: "\<And>j. j < N \<Longrightarrow>
          m' (q + j * sz c + k) = Some (if Suc j = N then 0 else q + Suc j * sz c)"
  shows "heap_inv sz fm m' rs (h(c := q)) (fs(c := grid q (sz c) N)) L"
proof -
  have H': "heap_inv sz fm m' rs h fs L"
  proof (rule heap_cells_cong [OF H])
    fix d x assume "x \<in> set (fs d)"
    then have xd: "(x, d) \<in> blocks fs L" by (simp add: in_blocks)
    show "m' (x + foff (fm d)) = m (x + foff (fm d))"
      using old [OF xd] heap_block_size [OF H xd] by (intro outside) (auto simp: apart_def)
  qed
  have ch: "chain (fm c) m' q (grid q (sz c) N)"
    using chain_grid [of q N m' "sz c" k] links N(1,2) c(2) by auto
  have g: "q \<le> y \<and> y + sz c \<le> q + N * sz c" if "y \<in> set (grid q (sz c) N)" for y
    using grid_bounds [OF that] .
  show ?thesis
  proof (rule heap_install [OF H' c(1) ch])
    show "distinct (grid q (sz c) N)" using c(3) by (intro distinct_grid) simp
  next
    fix y assume "y \<in> set (grid q (sz c) N)"
    then show "block_ok sz fm rs y c"
      using g [of y] c N(2) inside_mono [OF N(3), of y "sz c"] by (simp add: block_ok_def)
  next
    fix y z assume "y \<in> set (grid q (sz c) N)" "z \<in> set (grid q (sz c) N)" "y \<noteq> z"
    then show "apart y (sz c) z (sz c)" using grid_apart by (auto simp: apart_def)
  next
    fix y z e assume "y \<in> set (grid q (sz c) N)" "(z, e) \<in> blocks fs L"
    then show "apart y (sz c) z (sz e)" using g [of y] old [of z e] by (auto simp: apart_def)
  qed
qed

text \<open>An object that holds no block goes back to the system.\<close>

lemma heap_give:
  assumes H: "heap_inv sz fm m rs h fs L"
    and p: "(p, n) \<in> set rs" and "\<And>y d. (y, d) \<in> blocks fs L \<Longrightarrow> apart y (sz d) p n"
  shows "heap_inv sz fm (wipe p n m) (filter (\<lambda>r. fst r \<noteq> p) rs) h fs L"
proof -
  have "chain (fm c) (wipe p n m) (h c) (fs c)" for c
  proof (subst chain_cong [where m' = m])
    fix x assume "x \<in> set (fs c)"
    then have "(x, c) \<in> blocks fs L" by (simp add: in_blocks)
    with assms(3) [of x c] heap_block_size [OF H, of x c] show "wipe p n m (x + foff (fm c)) = m (x + foff (fm c))"
      by (auto simp: apart_def)
  qed (rule heap_chain [OF H])
  moreover have "inside y (sz d) (filter (\<lambda>r. fst r \<noteq> p) rs)" if "(y, d) \<in> blocks fs L" for y d
    using that inside_give [OF heap_regions [OF H] p heap_block_inside [OF H that] ] assms(3) [OF that]
      heap_block_size [OF H that] by (simp add: apart_sym [of _ _ p])
  ultimately show ?thesis
    using H by (auto simp: heap_inv_def block_ok_def regions_ok_filter)
qed

lemma heap_init:
  "regions_ok rs \<Longrightarrow> heap_inv sz fm m rs (\<lambda>c. fnil (fm c)) (\<lambda>_. []) Map.empty"
  by (simp add: heap_inv_def blocks_def spaced_def)

text \<open>An allocator with a single free list uses the class type \<open>unit\<close>.\<close>

lemma unit_fun_upd [simp]: "(\<lambda>_::unit. a)(u := b) = (\<lambda>_. b)"
  by auto

end
