(* ===== verification/ClientHeap.thy ===== *)
theory ClientHeap
  imports FreeLists
begin

text \<open>
  What an allocator promises its client, as a locale. The abstract state is the map
  \<open>L\<close> from the addresses handed out to the bytes the client may use there. The laws say
  that an allocation returns a block overlapping no block in use, that freeing a block in use
  succeeds, that the client may write anywhere inside its blocks, and that neither operation
  disturbs the contents of the blocks in use. From these laws alone every legal client program
  runs without undefined behaviour, never holds two overlapping blocks and reads back what it
  wrote. Each allocator interprets the locale on its own definitions.
\<close>

definition fresh_block :: "(nat \<rightharpoonup> nat) \<Rightarrow> nat \<Rightarrow> nat \<Rightarrow> bool" where
  "fresh_block L p n \<longleftrightarrow> (\<forall>q k. L q = Some k \<longrightarrow> q \<noteq> p \<and> apart p n q k)"

definition keeps :: "(nat \<rightharpoonup> nat) \<Rightarrow> 'x world_scheme \<Rightarrow> 'x world_scheme \<Rightarrow> bool" where
  "keeps L s s' \<longleftrightarrow>
     (\<forall>p n a. L p = Some n \<longrightarrow> p \<le> a \<longrightarrow> a + 8 \<le> p + n \<longrightarrow> load a s' = load a s)"

lemma keeps_refl [simp]: "keeps L s s"
  by (simp add: keeps_def)

lemma keeps_trans: "keeps L s s' \<Longrightarrow> keeps L s' s'' \<Longrightarrow> keeps L s s''"
  by (simp add: keeps_def)

lemma keepsD: "keeps L s s' \<Longrightarrow> L p = Some n \<Longrightarrow> i + 8 \<le> n \<Longrightarrow> load (p + i) s' = load (p + i) s"
  by (auto simp: keeps_def)

lemma keepsI:
  assumes "\<And>p n a. L p = Some n \<Longrightarrow> p \<le> a \<Longrightarrow> a + 8 \<le> p + n \<Longrightarrow>
      inside a 8 (regions s') = inside a 8 (regions s) \<and> cells s' a = cells s a"
  shows "keeps L s s'"
  using assms by (simp add: keeps_def load_def)

lemma keeps_cong:
  "cells t = cells t' \<Longrightarrow> regions t = regions t' \<Longrightarrow> keeps L s t = keeps L s t'"
  by (simp add: keeps_def load_def)

lemma keeps_upd_none: "keeps L s s' \<Longrightarrow> keeps (L(p := None)) s s'"
  by (auto simp: keeps_def)

section \<open>Client programs\<close>

text \<open>
  A command carries what the environment answers to the calls it makes to the system
  (\<open>'e\<close>). \<open>Write p i v\<close> stores \<open>v\<close> at byte \<open>i\<close> of the client's block \<open>p\<close>.
\<close>

datatype 'e cmd = Malloc 'e nat | Free nat | Write nat nat nat

fun run ::
  "('e \<Rightarrow> nat \<Rightarrow> 'x world_scheme \<Rightarrow> (nat \<times> 'x world_scheme) option)
     \<Rightarrow> (nat \<Rightarrow> nat \<Rightarrow> 'x world_scheme \<Rightarrow> 'x world_scheme option)
     \<Rightarrow> 'e cmd list \<Rightarrow> 'x world_scheme \<Rightarrow> (nat \<rightharpoonup> nat) \<Rightarrow> ('x world_scheme \<times> (nat \<rightharpoonup> nat)) option" where
  "run al fr [] s L = Some (s, L)"
| "run al fr (Malloc e n # cs) s L =
     (case al e n s of None \<Rightarrow> None | Some (p, s') \<Rightarrow> run al fr cs s' (L(p \<mapsto> n)))"
| "run al fr (Free p # cs) s L =
     (case L p of None \<Rightarrow> None | Some n \<Rightarrow>
       (case fr p n s of None \<Rightarrow> None | Some s' \<Rightarrow> run al fr cs s' (L(p := None))))"
| "run al fr (Write p i v # cs) s L =
     (case store (p + i) v s of None \<Rightarrow> None | Some s' \<Rightarrow> run al fr cs s' L)"

text \<open>
  A legal program frees and writes only blocks it holds, within their bounds, and its
  allocations find the environment as its contract describes.
\<close>

fun legal ::
  "('e \<Rightarrow> nat \<Rightarrow> 'x world_scheme \<Rightarrow> bool)
     \<Rightarrow> ('e \<Rightarrow> nat \<Rightarrow> 'x world_scheme \<Rightarrow> (nat \<times> 'x world_scheme) option)
     \<Rightarrow> (nat \<Rightarrow> nat \<Rightarrow> 'x world_scheme \<Rightarrow> 'x world_scheme option)
     \<Rightarrow> 'e cmd list \<Rightarrow> 'x world_scheme \<Rightarrow> (nat \<rightharpoonup> nat) \<Rightarrow> bool" where
  "legal env al fr [] s L \<longleftrightarrow> True"
| "legal env al fr (Malloc e n # cs) s L \<longleftrightarrow>
     env e n s \<and> (case al e n s of None \<Rightarrow> True | Some (p, s') \<Rightarrow> legal env al fr cs s' (L(p \<mapsto> n)))"
| "legal env al fr (Free p # cs) s L \<longleftrightarrow>
     (case L p of None \<Rightarrow> False | Some n \<Rightarrow>
       (case fr p n s of None \<Rightarrow> True | Some s' \<Rightarrow> legal env al fr cs s' (L(p := None))))"
| "legal env al fr (Write p i v # cs) s L \<longleftrightarrow>
     (case L p of None \<Rightarrow> False | Some n \<Rightarrow> i + 8 \<le> n
       \<and> (case store (p + i) v s of None \<Rightarrow> True | Some s' \<Rightarrow> legal env al fr cs s' L))"

text \<open>The program leaves the cell at byte \<open>i\<close> of block \<open>p\<close> alone.\<close>

fun spares :: "nat \<Rightarrow> nat \<Rightarrow> 'e cmd \<Rightarrow> bool" where
  "spares p i (Malloc e n) \<longleftrightarrow> True"
| "spares p i (Free q) \<longleftrightarrow> q \<noteq> p"
| "spares p i (Write q j v) \<longleftrightarrow> q \<noteq> p \<or> apart j 8 i 8"

definition disjoint_blocks :: "(nat \<rightharpoonup> nat) \<Rightarrow> bool" where
  "disjoint_blocks L \<longleftrightarrow>
     (\<forall>p n q k. L p = Some n \<longrightarrow> L q = Some k \<longrightarrow> p \<noteq> q \<longrightarrow> apart p n q k)"

lemma run_append:
  "run al fr (cs @ cs') s L = (case run al fr cs s L of None \<Rightarrow> None | Some (t, K) \<Rightarrow> run al fr cs' t K)"
  by (induction al fr cs s L rule: run.induct)
    (auto split: option.splits simp del: fun_upd_apply)

lemma legal_append:
  "legal env al fr (cs @ cs') s L \<Longrightarrow> run al fr cs s L = Some (t, K) \<Longrightarrow>
     legal env al fr cs s L \<and> legal env al fr cs' t K"
  by (induction al fr cs s L rule: run.induct)
    (auto split: option.splits simp del: fun_upd_apply)

lemma legal_prefix:
  "legal env al fr (cs @ cs') s L \<Longrightarrow> legal env al fr cs s L"
  by (induction env al fr cs s L rule: legal.induct)
    (auto split: option.splits simp del: fun_upd_apply)

text \<open>
  What a legal program may rely on, for any point at which it is cut in two: both parts run,
  the blocks held at the end are disjoint, and every cell held at the cut that the second part
  neither frees nor overwrites is still held and unchanged at the end.
\<close>

definition sound_run ::
  "('e \<Rightarrow> nat \<Rightarrow> 'x world_scheme \<Rightarrow> (nat \<times> 'x world_scheme) option)
     \<Rightarrow> (nat \<Rightarrow> nat \<Rightarrow> 'x world_scheme \<Rightarrow> 'x world_scheme option)
     \<Rightarrow> 'e cmd list \<Rightarrow> 'e cmd list \<Rightarrow> 'x world_scheme \<Rightarrow> bool" where
  "sound_run al fr cs cs' s \<longleftrightarrow> (\<exists>t K t' K'. run al fr cs s Map.empty = Some (t, K)
     \<and> run al fr cs' t K = Some (t', K') \<and> disjoint_blocks K'
     \<and> (\<forall>p n i. K p = Some n \<longrightarrow> i + 8 \<le> n \<longrightarrow> list_all (spares p i) cs' \<longrightarrow>
          K' p = Some n \<and> load (p + i) t' = load (p + i) t))"

lemma sound_runD:
  assumes "sound_run al fr cs cs' s" and "run al fr cs s Map.empty = Some (t, K)"
    and "K p = Some n" and "i + 8 \<le> n" and "list_all (spares p i) cs'"
  shows "\<exists>t' K'. run al fr (cs @ cs') s Map.empty = Some (t', K') \<and> disjoint_blocks K'
    \<and> K' p = Some n \<and> load (p + i) t' = load (p + i) t"
  using assms unfolding sound_run_def run_append by auto

section \<open>The interface\<close>

locale client_heap =
  fixes inv :: "'x world_scheme \<Rightarrow> (nat \<rightharpoonup> nat) \<Rightarrow> bool"
    and env :: "'e \<Rightarrow> nat \<Rightarrow> 'x world_scheme \<Rightarrow> bool"
    and al :: "'e \<Rightarrow> nat \<Rightarrow> 'x world_scheme \<Rightarrow> (nat \<times> 'x world_scheme) option"
    and fr :: "nat \<Rightarrow> nat \<Rightarrow> 'x world_scheme \<Rightarrow> 'x world_scheme option"
  assumes alloc_ok: "inv s L \<Longrightarrow> env e n s \<Longrightarrow>
        \<exists>p s'. al e n s = Some (p, s') \<and> fresh_block L p n \<and> inv s' (L(p \<mapsto> n)) \<and> keeps L s s'"
    and free_ok: "inv s L \<Longrightarrow> L p = Some n \<Longrightarrow>
        \<exists>s'. fr p n s = Some s' \<and> inv s' (L(p := None)) \<and> keeps (L(p := None)) s s'"
    and write_ok: "inv s L \<Longrightarrow> L p = Some n \<Longrightarrow> p \<le> a \<Longrightarrow> a + 8 \<le> p + n \<Longrightarrow>
        \<exists>s'. store a v s = Some s' \<and> inv s' L"
    and live_apart: "inv s L \<Longrightarrow> disjoint_blocks L"
begin

lemma legal_malloc:
  assumes "inv s L" and "legal env al fr (Malloc e n # cs) s L"
  obtains p s' where "al e n s = Some (p, s')" and "fresh_block L p n"
    and "inv s' (L(p \<mapsto> n))" and "keeps L s s'" and "legal env al fr cs s' (L(p \<mapsto> n))"
proof -
  have "env e n s" using assms(2) by simp
  then obtain p s' where "al e n s = Some (p, s')" "fresh_block L p n" "inv s' (L(p \<mapsto> n))"
    "keeps L s s'" using alloc_ok [OF assms(1)] by blast
  with assms(2) that show ?thesis by simp
qed

lemma legal_free:
  assumes "inv s L" and "legal env al fr (Free p # cs) s L"
  obtains n s' where "L p = Some n" and "fr p n s = Some s'" and "inv s' (L(p := None))"
    and "keeps (L(p := None)) s s'" and "legal env al fr cs s' (L(p := None))"
proof -
  obtain n where n: "L p = Some n" using assms(2) by (auto split: option.splits)
  then obtain s' where "fr p n s = Some s'" "inv s' (L(p := None))" "keeps (L(p := None)) s s'"
    using free_ok [OF assms(1)] by blast
  with n assms(2) that show ?thesis by simp
qed

lemma legal_write:
  assumes "inv s L" and "legal env al fr (Write p i v # cs) s L"
  obtains n s' where "L p = Some n" and "i + 8 \<le> n" and "store (p + i) v s = Some s'"
    and "inv s' L" and "legal env al fr cs s' L"
proof -
  obtain n where n: "L p = Some n" "i + 8 \<le> n" using assms(2) by (auto split: option.splits)
  then obtain s' where "store (p + i) v s = Some s'" "inv s' L"
    using write_ok [OF assms(1) n(1), of "p + i"] by auto
  with n assms(2) that show ?thesis by simp
qed

text \<open>Every legal program runs to its end, and the blocks it then holds are disjoint.\<close>

lemma run_safe:
  "inv s L \<Longrightarrow> legal env al fr cs s L \<Longrightarrow>
     \<exists>s' L'. run al fr cs s L = Some (s', L') \<and> inv s' L' \<and> disjoint_blocks L'"
proof (induction cs arbitrary: s L)
  case Nil
  then show ?case using live_apart by auto
next
  case (Cons c cs)
  show ?case
  proof (cases c)
    case (Malloc e n)
    with Cons.prems obtain p t where t: "al e n s = Some (p, t)" "inv t (L(p \<mapsto> n))"
      "legal env al fr cs t (L(p \<mapsto> n))" by (blast elim: legal_malloc)
    from Cons.IH [OF t(2,3)] show ?thesis by (simp add: Malloc t(1) del: fun_upd_apply)
  next
    case (Free p)
    with Cons.prems obtain n t where t: "L p = Some n" "fr p n s = Some t"
      "inv t (L(p := None))" "legal env al fr cs t (L(p := None))" by (blast elim: legal_free)
    from Cons.IH [OF t(3,4)] show ?thesis by (simp add: Free t(1,2) del: fun_upd_apply)
  next
    case (Write p i v)
    with Cons.prems obtain t where t: "store (p + i) v s = Some t" "inv t L"
      "legal env al fr cs t L" by (blast elim: legal_write)
    from Cons.IH [OF t(2,3)] show ?thesis by (simp add: Write t(1))
  qed
qed

text \<open>A cell of a block reads back unchanged while the program neither frees nor overwrites it.\<close>

lemma run_keeps:
  "inv s L \<Longrightarrow> legal env al fr cs s L \<Longrightarrow> L p = Some n \<Longrightarrow> i + 8 \<le> n \<Longrightarrow>
     list_all (spares p i) cs \<Longrightarrow> run al fr cs s L = Some (s', L') \<Longrightarrow>
     L' p = Some n \<and> load (p + i) s' = load (p + i) s"
proof (induction cs arbitrary: s L)
  case Nil
  then show ?case by simp
next
  case (Cons c cs)
  show ?case
  proof (cases c)
    case (Malloc e k)
    with Cons.prems obtain q t where t: "al e k s = Some (q, t)" "fresh_block L q k"
      "inv t (L(q \<mapsto> k))" "keeps L s t" "legal env al fr cs t (L(q \<mapsto> k))"
      by (blast elim: legal_malloc)
    moreover have "q \<noteq> p" using t(2) Cons.prems(3) by (auto simp: fresh_block_def)
    ultimately have "(L(q \<mapsto> k)) p = Some n" and "list_all (spares p i) cs"
      and "run al fr cs t (L(q \<mapsto> k)) = Some (s', L')"
      using Cons.prems t(1) by (simp_all add: Malloc)
    then have "L' p = Some n \<and> load (p + i) s' = load (p + i) t"
      using Cons.IH [OF t(3,5) _ Cons.prems(4)] by blast
    then show ?thesis using keepsD [OF t(4) Cons.prems(3,4)] by simp
  next
    case (Free q)
    with Cons.prems obtain k t where t: "L q = Some k" "fr q k s = Some t" "inv t (L(q := None))"
      "keeps (L(q := None)) s t" "legal env al fr cs t (L(q := None))"
      by (blast elim: legal_free)
    moreover have "q \<noteq> p" using Cons.prems(5) by (simp add: Free)
    ultimately have "(L(q := None)) p = Some n" and "list_all (spares p i) cs"
      and "run al fr cs t (L(q := None)) = Some (s', L')"
      using Cons.prems t(1,2) by (simp_all add: Free)
    then have "L' p = Some n \<and> load (p + i) s' = load (p + i) t"
      using Cons.IH [OF t(3,5) _ Cons.prems(4)] by blast
    then show ?thesis using keepsD [OF t(4), of p n i] \<open>q \<noteq> p\<close> Cons.prems(3,4) by simp
  next
    case (Write q j v)
    with Cons.prems obtain k t where t: "L q = Some k" "j + 8 \<le> k" "store (q + j) v s = Some t"
      "inv t L" "legal env al fr cs t L"
      by (blast elim: legal_write)
    have "apart (q + j) 8 (p + i) 8"
    proof (cases "q = p")
      case True
      then show ?thesis using Cons.prems(5) by (auto simp: Write apart_def)
    next
      case False
      then have "apart q k p n"
        using live_apart [OF Cons.prems(1)] t(1) Cons.prems(3) by (simp add: disjoint_blocks_def)
      then show ?thesis using t(2) Cons.prems(4) by (auto simp: apart_def)
    qed
    then have "load (p + i) t = load (p + i) s" using store_load_apart [OF t(3)] by simp
    then show ?thesis using Cons.IH [OF t(4,5)] Cons.prems(3-6) t(3) by (simp add: Write)
  qed
qed

lemma run_sound:
  assumes "inv s Map.empty" and "legal env al fr (cs @ cs') s Map.empty"
  shows "sound_run al fr cs cs' s"
proof -
  obtain t K where t: "run al fr cs s Map.empty = Some (t, K)" "inv t K"
    using run_safe [OF assms(1) legal_prefix [OF assms(2)]] by blast
  note l = legal_append [OF assms(2) t(1), THEN conjunct2]
  obtain t' K' where t': "run al fr cs' t K = Some (t', K')" "disjoint_blocks K'"
    using run_safe [OF t(2) l] by blast
  show ?thesis
    unfolding sound_run_def using t(1) t' run_keeps [OF t(2) l _ _ _ t'(1)] by blast
qed

end

end
