(* ===== verification/Winnie2.thy ===== *)
theory Winnie2
  imports ClientHeap
begin

text \<open>
  \<open>winnie2/winnie.cpp\<close>: one pointer-linked free list for each block size from 0 to 256.
  An empty list is refilled by cutting a large \<open>malloc\<close> block into pieces of that size;
  larger requests go straight to \<open>malloc\<close>. The state is the array
  \<open>_first_frees\<close>. The \<open>std::allocator\<close> adaptor of \<open>winnie2/winnie.hpp\<close>
  allocates by bytes and deallocates by element count.
\<close>

record winnie2 = world +
  first_frees :: "nat \<Rightarrow> nat"

definition UPTO :: nat where
  "UPTO = 257"


text \<open>
  The first \<open>i\<close> iterations of the loop that links the \<open>N\<close> pieces of \<open>SIZE\<close> bytes.
\<close>

primrec link_blocks :: "nat \<Rightarrow> nat \<Rightarrow> nat \<Rightarrow> nat \<Rightarrow> 'a world_scheme \<Rightarrow> 'a world_scheme option" where
  "link_blocks block SIZE N 0 s = Some s"
| "link_blocks block SIZE N (Suc i) s = do {
     s \<leftarrow> link_blocks block SIZE N i s;
     store (block + i * SIZE) (if i \<noteq> N - 1 then block + (i + 1) * SIZE else 0) s
   }"

text \<open>\<open>p\<close> is what \<open>malloc\<close> answers; the code does not check it, and divides by \<open>SIZE\<close>.\<close>

definition new_block ::
  "nat \<Rightarrow> nat \<Rightarrow> nat \<Rightarrow> 'a world_scheme \<Rightarrow> (nat \<times> 'a world_scheme) option" where
  "new_block SIZE LARGE_BLOCK_SIZE p s =
     (if SIZE = 0 then None
      else let N = LARGE_BLOCK_SIZE div SIZE in do {
        s \<leftarrow> link_blocks p SIZE N N (sys_take p LARGE_BLOCK_SIZE s);
        Some (p, s)
      })"

definition fixed_malloc :: "nat \<Rightarrow> nat \<Rightarrow> 'a winnie2_scheme \<Rightarrow> (nat \<times> 'a winnie2_scheme) option" where
  "fixed_malloc p sz s =
     (if UPTO \<le> sz then None
      else do {
        s \<leftarrow> (if first_frees s sz = 0
               then do {
                 (b, s) \<leftarrow> new_block sz (1024 * 1000) p s;
                 Some (s\<lparr>first_frees := (first_frees s)(sz := b)\<rparr>)
               }
               else Some s);
        let result = first_frees s sz;
        nxt \<leftarrow> load result s;
        Some (result, s\<lparr>first_frees := (first_frees s)(sz := nxt)\<rparr>)
      })"

definition fixed_free :: "nat \<Rightarrow> nat \<Rightarrow> 'a winnie2_scheme \<Rightarrow> 'a winnie2_scheme option" where
  "fixed_free ptr sz s =
     (if UPTO \<le> sz then None
      else do {
        s \<leftarrow> store ptr (first_frees s sz) s;
        Some (s\<lparr>first_frees := (first_frees s)(sz := ptr)\<rparr>)
      })"

definition wmalloc :: "nat \<Rightarrow> nat \<Rightarrow> 'a winnie2_scheme \<Rightarrow> (nat \<times> 'a winnie2_scheme) option" where
  "wmalloc p granularity s =
     (if 256 < granularity then Some (p, sys_take p granularity s)
      else fixed_malloc p granularity s)"

definition wfree :: "nat \<Rightarrow> nat \<Rightarrow> 'a winnie2_scheme \<Rightarrow> 'a winnie2_scheme option" where
  "wfree ptr granularity s =
     (if 256 < granularity then c_free ptr s else fixed_free ptr granularity s)"

text \<open>
  \<open>winnie2::allocator<T>\<close> with \<open>sizeof(T) = T\<close>: a request for 0 elements is the null
  pointer, a failed one throws (the \<open>Inl\<close> value).
\<close>

definition w2_allocate ::
  "nat \<Rightarrow> nat \<Rightarrow> nat \<Rightarrow> 'a winnie2_scheme \<Rightarrow> (string + nat \<times> 'a winnie2_scheme) option" where
  "w2_allocate T p n s =
     (if n = 0 then Some (Inr (0, s))
      else do {
        (q, s) \<leftarrow> wmalloc p (n * T) s;
        Some (if q = 0 then Inl ''bad_alloc'' else Inr (q, s))
      })"

definition w2_deallocate :: "nat \<Rightarrow> nat \<Rightarrow> 'a winnie2_scheme \<Rightarrow> 'a winnie2_scheme option" where
  "w2_deallocate p sz s = wfree p sz s"

lemma keeps_first_frees [simp]: "keeps L s (first_frees_update f t) = keeps L s t"
  by (rule keeps_cong) simp_all

section \<open>Linking a fresh block\<close>


section \<open>The invariant\<close>





section \<open>The client's view\<close>









section \<open>Properties\<close>



text \<open>
  \<open>winnie2::allocator\<close> frees by element count what it allocated by bytes: when \<open>n\<close>
  elements of \<open>T > 1\<close> bytes come from the fixed-size lists, \<open>deallocate\<close> leaves the list
  of their class \<open>n * T\<close> as it was and puts the block at the head of the list for
  \<open>n\<close>-byte blocks.
\<close>

lemma winnie2_deallocate_class:
  assumes "1 < T" and "0 < n" and "n * T \<le> 256"
    and "w2_allocate T p n s = Some (Inr (q, s'))" and "w2_deallocate q n s' = Some s''"
  shows "first_frees s'' n = q \<and> first_frees s'' (n * T) = first_frees s' (n * T)"
proof -
  have n: "n < n * T" using assms(1,2) by simp
  then have n256: "\<not> 256 < n" using assms(3) by linarith
  then have "fixed_free q n s' = Some s''"
    using assms(5) n256 unfolding w2_deallocate_def wfree_def by simp
  then have "s'' = s'\<lparr>cells := poke q (first_frees s' n) (cells s'),
      first_frees := (first_frees s')(n := q)\<rparr>"
    using n assms(3) by (auto simp: fixed_free_def UPTO_def store_def split: if_splits)
  with n show ?thesis by simp
qed

lemma winnie2_deallocate_class_witness:
  "let s = \<lparr>cells = (\<lambda>_. None)(4096 := Some 0), regions = [(4096, 64)],
            first_frees = (\<lambda>_. 0)(32 := 4096)\<rparr>;
       s' = s\<lparr>first_frees := \<lambda>_. 0\<rparr>
   in w2_allocate 4 0 8 s = Some (Inr (4096, s'))
      \<and> (\<exists>s''. w2_deallocate 4096 8 s' = Some s'' \<and> first_frees s'' 8 = 4096 \<and> first_frees s'' 32 = 0)"
proof -
  let ?s = "\<lparr>cells = (\<lambda>_. None)(4096 := Some 0), regions = [(4096, 64)],
            first_frees = (\<lambda>_. 0)(32 := 4096)\<rparr> :: winnie2"
  let ?t = "?s\<lparr>first_frees := \<lambda>_. 0\<rparr>"
  have a: "w2_allocate 4 0 8 ?s = Some (Inr (4096, ?t))"
    by (auto simp: w2_allocate_def wmalloc_def fixed_malloc_def UPTO_def load_def inside_def)
  obtain s'' where d: "w2_deallocate 4096 8 ?t = Some s''"
    by (simp add: w2_deallocate_def wfree_def fixed_free_def UPTO_def store_def inside_def)
  show ?thesis using a d winnie2_deallocate_class [OF _ _ _ a d] by simp
qed

end
