(* ===== verification/ClientView.thy ===== *)
theory ClientView
  imports ClientHeap
begin

text \<open>
  Connecting the internal blocks of an allocator with what its client sees. Internally a
  block in use has an address and a class (\<open>M\<close>); the client holds a pointer \<open>hdr\<close> bytes
  further on and the size it asked for (\<open>L\<close>). \<open>fits c n\<close> says that a request of \<open>n\<close>
  bytes is served by class \<open>c\<close>. The lemmas turn facts about \<open>heap_inv\<close> into the laws
  of the client interface.
\<close>

definition views :: "nat \<Rightarrow> ('c \<Rightarrow> nat \<Rightarrow> bool) \<Rightarrow> (nat \<rightharpoonup> nat) \<Rightarrow> (nat \<rightharpoonup> 'c) \<Rightarrow> bool" where
  "views hdr fits L M \<longleftrightarrow>
     (\<forall>p. L p \<noteq> None \<longrightarrow> hdr \<le> p)
     \<and> (\<forall>x. rel_option (\<lambda>n c. fits c n) (L (x + hdr)) (M x))"

lemma views_empty [simp]: "views hdr fits Map.empty Map.empty"
  by (simp add: views_def)

lemma viewsD:
  assumes "views hdr fits L M" and "L p = Some n"
  obtains x c where "p = x + hdr" and "M x = Some c" and "fits c n"
proof -
  have "hdr \<le> p" using assms by (auto simp: views_def)
  then have p: "p = (p - hdr) + hdr" by simp
  have "rel_option (\<lambda>n c. fits c n) (L (p - hdr + hdr)) (M (p - hdr))"
    using assms(1) by (simp add: views_def)
  then have "rel_option (\<lambda>n c. fits c n) (Some n) (M (p - hdr))" using p assms(2) by simp
  then obtain c where "M (p - hdr) = Some c" "fits c n" by (auto simp: option_rel_Some1)
  with p that show ?thesis by blast
qed

lemma views_live:
  assumes "views hdr fits L M" and "M x = Some c"
  obtains n where "L (x + hdr) = Some n" and "fits c n"
proof -
  have "rel_option (\<lambda>n c. fits c n) (L (x + hdr)) (Some c)"
    using assms by (metis views_def)
  with that show ?thesis by (auto simp: option_rel_Some2)
qed

lemma views_upd:
  "views hdr fits L M \<Longrightarrow> fits c n \<Longrightarrow> views hdr fits (L(x + hdr \<mapsto> n)) (M(x \<mapsto> c))"
  by (auto simp: views_def)

lemma views_del: "views hdr fits L M \<Longrightarrow> views hdr fits (L(x + hdr := None)) (M(x := None))"
  by (auto simp: views_def)

lemma views_dom:
  assumes "views hdr fits L M"
  shows "M x = None \<longleftrightarrow> L (x + hdr) = None"
proof -
  have "rel_option (\<lambda>n c. fits c n) (L (x + hdr)) (M x)" using assms by (simp add: views_def)
  then show ?thesis by (cases "L (x + hdr)"; cases "M x") auto
qed

section \<open>The laws of the interface\<close>

definition roomy :: "nat \<Rightarrow> ('c \<Rightarrow> nat \<Rightarrow> bool) \<Rightarrow> ('c \<Rightarrow> nat) \<Rightarrow> bool" where
  "roomy hdr fits sz \<longleftrightarrow> (\<forall>c n. fits c n \<longrightarrow> hdr + n \<le> sz c)"

lemma roomyD: "roomy hdr fits sz \<Longrightarrow> fits c n \<Longrightarrow> hdr + n \<le> sz c"
  by (simp add: roomy_def)

lemma view_disjoint:
  assumes H: "heap_inv sz fm m rs h fs M" and V: "views hdr fits L M" and R: "roomy hdr fits sz"
  shows "disjoint_blocks L"
  unfolding disjoint_blocks_def
proof (intro allI impI)
  fix p n q k assume p: "L p = Some n" and q: "L q = Some k" and pq: "p \<noteq> q"
  obtain x c where x: "p = x + hdr" "M x = Some c" "fits c n" using viewsD [OF V p] .
  obtain y d where y: "q = y + hdr" "M y = Some d" "fits d k" using viewsD [OF V q] .
  have "apart x (sz c) y (sz d)" using heap_live_apart [OF H x(2) y(2)] pq x(1) y(1) by simp
  then show "apart p n q k"
    using roomyD [OF R x(3)] roomyD [OF R y(3)] x(1) y(1) by (auto simp: apart_def)
qed

lemma view_fresh:
  assumes H: "heap_inv sz fm m rs h fs (M(x \<mapsto> c))" and x: "M x = None"
    and V: "views hdr fits L M" and R: "roomy hdr fits sz" and n: "fits c n"
  shows "fresh_block L (x + hdr) n"
  unfolding fresh_block_def
proof (intro allI impI)
  fix q k assume q: "L q = Some k"
  obtain y d where y: "q = y + hdr" "M y = Some d" "fits d k" using viewsD [OF V q] .
  have xy: "x \<noteq> y" using x y(2) by auto
  have "apart x (sz c) y (sz d)"
    using heap_live_apart [OF H, of x c y d] xy y(2) by simp
  then show "q \<noteq> x + hdr \<and> apart (x + hdr) n q k"
    using roomyD [OF R n] roomyD [OF R y(3)] xy y(1) by (auto simp: apart_def)
qed

lemma view_cell:
  assumes H: "heap_inv sz fm m rs h fs M" and V: "views hdr fits L M" and R: "roomy hdr fits sz"
    and p: "L p = Some n" and a: "p \<le> a" "a + 8 \<le> p + n"
  obtains x c where "p = x + hdr" and "M x = Some c" and "fits c n" and "x + hdr \<le> a"
    and "a + 8 \<le> x + sz c" and "inside a 8 rs"
proof -
  obtain x c where x: "p = x + hdr" "M x = Some c" "fits c n" using viewsD [OF V p] .
  with a roomyD [OF R x(3)] have "x \<le> a" "a + 8 \<le> x + sz c" by simp_all
  then show ?thesis using heap_live_inside [OF H x(2)] x a that by auto
qed

text \<open>A write by the client.\<close>

lemma view_write:
  assumes H: "heap_inv sz fm m rs h fs M" and V: "views hdr fits L M" and R: "roomy hdr fits sz"
    and p: "L p = Some n" and a: "p \<le> a" "a + 8 \<le> p + n"
  shows "inside a 8 rs \<and> heap_inv sz fm (poke a v m) rs h fs M"
proof -
  obtain x c where x: "M x = Some c" "x + hdr \<le> a" "a + 8 \<le> x + sz c" "inside a 8 rs"
    using view_cell [OF H V R p a] by metis
  then show ?thesis using heap_poke_live [OF H x(1), of a v] by simp
qed

text \<open>
  Operations of the allocator leave the client's cells alone when they only write inside
  blocks that are not in use, or inside an object just obtained from the system.
\<close>

lemma view_keeps:
  assumes H: "heap_inv sz fm (cells s) (regions s) h fs M"
    and V: "views hdr fits L M" and R: "roomy hdr fits sz"
    and rs: "\<And>x c. M x = Some c \<Longrightarrow> inside x (sz c) (regions s')"
    and cs: "\<And>x c a. M x = Some c \<Longrightarrow> x + hdr \<le> a \<Longrightarrow> a + 8 \<le> x + sz c \<Longrightarrow> cells s' a = cells s a"
  shows "keeps L s s'"
proof (rule keepsI)
  fix p n a assume p: "L p = Some n" "p \<le> a" "a + 8 \<le> p + n"
  obtain x c where x: "M x = Some c" "x + hdr \<le> a" "a + 8 \<le> x + sz c" "inside a 8 (regions s)"
    using view_cell [OF H V R p] by metis
  then show "inside a 8 (regions s') = inside a 8 (regions s) \<and> cells s' a = cells s a"
    using cs [OF x(1-3)] inside_mono [OF rs [OF x(1)], of a 8] by simp
qed

text \<open>Pushing the freed block \<open>x\<close> keeps the other blocks.\<close>

lemma view_keeps_push:
  assumes H: "heap_inv sz fm (cells s) (regions s) h fs M"
    and V: "views hdr fits L M" and R: "roomy hdr fits sz" and x: "M x = Some c"
    and s': "regions s' = regions s" "cells s' = poke (x + foff (fm c)) v (cells s)"
  shows "keeps (L(x + hdr := None)) s s'"
proof (rule view_keeps [OF heap_drop_live [OF H, of "- {x}"], unfolded restrict_complement_singleton_eq])
  show "views hdr fits (L(x + hdr := None)) (M(x := None))" using V by (rule views_del)
  show "roomy hdr fits sz" by (rule R)
next
  fix y d assume "(M(x := None)) y = Some d"
  then show "inside y (sz d) (regions s')"
    using heap_block_inside [OF H] s' by (auto simp: in_blocks split: if_splits)
next
  fix y d a assume y: "(M(x := None)) y = Some d" "y + hdr \<le> a" "a + 8 \<le> y + sz d"
  then have "apart x (sz c) y (sz d)"
    using heap_live_apart [OF H x] by (auto split: if_splits)
  moreover have "foff (fm c) + 8 \<le> sz c"
    using heap_block_size [OF H, of x c] x by (simp add: in_blocks)
  ultimately have "apart (x + foff (fm c)) 8 a 8" using y(2,3) by (auto simp: apart_def)
  then show "cells s' a = cells s a" by (simp add: s'(2) apart_def)
qed

text \<open>Filling a new object from the system.\<close>

lemma view_keeps_take:
  assumes H: "heap_inv sz fm (cells s) (regions s) h fs M"
    and V: "views hdr fits L M" and R: "roomy hdr fits sz" and p: "malloc_ok p n s"
    and s': "regions s' = (p, n) # regions s" "\<And>x. apart p n x 8 \<Longrightarrow> cells s' x = cells s x"
  shows "keeps L s s'"
proof (rule view_keeps [OF H V R])
  fix x c assume x: "M x = Some c"
  then show "inside x (sz c) (regions s')"
    using heap_block_inside [OF H, of x c] s' by (simp add: in_blocks inside_Cons)
next
  fix x c a assume x: "M x = Some c" "x + hdr \<le> a" "a + 8 \<le> x + sz c"
  then have "inside x (sz c) (regions s)" using heap_block_inside [OF H] by (simp add: in_blocks)
  then have "apart p n x (sz c)" using malloc_ok_inside [OF p] by blast
  then show "cells s' a = cells s a" using x by (intro s'(2)) (auto simp: apart_def)
qed

end
