(* ===== verification/FSB1.thy ===== *)
theory FSB1
  imports ClientView
begin

text \<open>
  \<open>FSBAllocator_ElemAllocator<ElemSize>\<close> of \<open>FSBAllocator/FSBAllocator.hh\<close>: a vector of
  blocks of 512 units, each unit an element followed by the index of its block. A block links its
  free units by unit offset, ending with \<open>Data_t(-1)\<close>; \<open>blocksWithFree\<close> is the stack of
  the blocks that are not full. A block whose last element is freed is deleted, and is obtained
  anew when it is used again.
\<close>

record memblock =
  mb_block :: nat
  mb_firstFree :: nat
  mb_amount :: nat
  mb_endIndex :: "nat option" \<comment> \<open>not set by the constructor\<close>

record fsb1 = world +
  data :: "memblock list"
  blocksWithFree :: "nat list"

definition BlockElements1 :: nat where
  "BlockElements1 = 512"

definition ElemSizeInDSize1 :: "nat \<Rightarrow> nat" where
  "ElemSizeInDSize1 E = (E + (8 - 1)) div 8"

definition UnitSizeInDSize :: "nat \<Rightarrow> nat" where
  "UnitSizeInDSize E = ElemSizeInDSize1 E + 1"

definition BlockSize1 :: "nat \<Rightarrow> nat" where
  "BlockSize1 E = BlockElements1 * UnitSizeInDSize E"

definition MemBlock :: memblock where
  "MemBlock = \<lparr>mb_block = 0, mb_firstFree = max_u64, mb_amount = 0, mb_endIndex = None\<rparr>"

definition isFull :: "memblock \<Rightarrow> bool" where
  "isFull b \<longleftrightarrow> mb_amount b = BlockElements1"

definition mb_clear :: "memblock \<Rightarrow> 'a world_scheme \<Rightarrow> (memblock \<times> 'a world_scheme) option" where
  "mb_clear b s = do {
     s \<leftarrow> c_free (mb_block b) s;
     Some (b\<lparr>mb_block := 0, mb_firstFree := max_u64\<rparr>, s)
   }"

text \<open>\<open>p\<close> is the answer of \<open>new\<close>, which throws when there is no memory.\<close>

definition mb_allocate ::
  "nat \<Rightarrow> nat \<Rightarrow> nat \<Rightarrow> memblock \<Rightarrow> 'a world_scheme \<Rightarrow> ((exn + nat) \<times> memblock \<times> 'a world_scheme) option" where
  "mb_allocate E p vectorIndex b s =
     (if mb_firstFree b = max_u64 then
        (if mb_block b = 0 \<and> p = 0 then Some (Inl Bad_alloc, b, s)
         else let (b, s) = (if mb_block b = 0
                            then (b\<lparr>mb_block := p, mb_endIndex := Some 0\<rparr>, sys_take p (8 * BlockSize1 E) s)
                            else (b, s))
              in do {
                e \<leftarrow> mb_endIndex b;
                let retval = mb_block b + 8 * e;
                s \<leftarrow> store (retval + 8 * ElemSizeInDSize1 E) vectorIndex s;
                Some (Inr retval, b\<lparr>mb_endIndex := Some (e + UnitSizeInDSize E),
                                    mb_amount := mb_amount b + 1\<rparr>, s)
              })
      else do {
        let retval = mb_block b + 8 * mb_firstFree b;
        nxt \<leftarrow> load retval s;
        Some (Inr retval, b\<lparr>mb_firstFree := nxt, mb_amount := mb_amount b + 1\<rparr>, s)
      })"

definition mb_deallocate ::
  "nat \<Rightarrow> memblock \<Rightarrow> 'a world_scheme \<Rightarrow> (memblock \<times> 'a world_scheme) option" where
  "mb_deallocate ptr b s = do {
     s \<leftarrow> store ptr (mb_firstFree b) s;
     let b = b\<lparr>mb_firstFree := (ptr - mb_block b) div 8, mb_amount := dec64 (mb_amount b)\<rparr>;
     if mb_amount b = 0 then mb_clear b s else Some (b, s)
   }"

definition fsb1_init :: "'a world_scheme \<Rightarrow> fsb1" where
  "fsb1_init w = \<lparr>cells = cells w, regions = regions w, data = [], blocksWithFree = []\<rparr>"

definition fsb1_allocate :: "nat \<Rightarrow> nat \<Rightarrow> 'a fsb1_scheme \<Rightarrow> ((exn + nat) \<times> 'a fsb1_scheme) option" where
  "fsb1_allocate E p s =
     (let s = (if blocksWithFree s = []
               then s\<lparr>blocksWithFree := [length (data s)], data := data s @ [MemBlock]\<rparr> else s);
          index = last (blocksWithFree s)
      in if length (data s) \<le> index then None
         else do {
           (r, b, s) \<leftarrow> mb_allocate E p index (data s ! index) s;
           let s = s\<lparr>data := (data s)[index := b]\<rparr>;
           Some (r, case r of
              Inl e \<Rightarrow> s
            | Inr q \<Rightarrow> if isFull b then s\<lparr>blocksWithFree := butlast (blocksWithFree s)\<rparr> else s)
         })"

definition fsb1_deallocate :: "nat \<Rightarrow> nat \<Rightarrow> 'a fsb1_scheme \<Rightarrow> 'a fsb1_scheme option" where
  "fsb1_deallocate E ptr s =
     (if ptr = 0 then Some s
      else do {
        blockIndex \<leftarrow> load (ptr + 8 * ElemSizeInDSize1 E) s;
        if length (data s) \<le> blockIndex then None
        else do {
          let b = data s ! blockIndex;
          let s = (if isFull b then s\<lparr>blocksWithFree := blocksWithFree s @ [blockIndex]\<rparr> else s);
          (b, s) \<leftarrow> mb_deallocate ptr b s;
          Some (s\<lparr>data := (data s)[blockIndex := b]\<rparr>)
        }
      })"

text \<open>The destructor of the vector clears every block.\<close>

fun clear_all :: "memblock list \<Rightarrow> 'a world_scheme \<Rightarrow> 'a world_scheme option" where
  "clear_all [] s = Some s"
| "clear_all (b # bs) s = do { (b, s) \<leftarrow> mb_clear b s; clear_all bs s }"

section \<open>The invariant\<close>

definition fsb1_fmt :: "nat \<Rightarrow> fmt" where
  "fsb1_fmt b = \<lparr>fnil = max_u64, fenc = (\<lambda>x. (x - b) div 8), foff = 0\<rparr>"

lemma fsb1_fmt_simps [simp]:
  "fnil (fsb1_fmt b) = max_u64" "fenc (fsb1_fmt b) x = (x - b) div 8" "foff (fsb1_fmt b) = 0"
  by (simp_all add: fsb1_fmt_def)

text \<open>The block of a vector index; an index past the end behaves as an empty block.\<close>

definition blk :: "'a fsb1_scheme \<Rightarrow> nat \<Rightarrow> memblock" where
  "blk s c = (if c < length (data s) then data s ! c else MemBlock)"

text \<open>
  One block with its free units \<open>xs\<close> and its units in use \<open>A\<close>: the units lie on the
  grid, the first \<open>j\<close> grid positions are exactly those handed out so far, and the object is
  owned. \<open>w\<close> is the unit size in bytes.
\<close>

definition memblock_ok ::
  "nat \<Rightarrow> (nat \<times> nat) list \<Rightarrow> memblock \<Rightarrow> nat list \<Rightarrow> nat set \<Rightarrow> bool" where
  "memblock_ok w rs b xs A \<longleftrightarrow> finite A \<and> card A = mb_amount b \<and>
     (if mb_block b = 0 then xs = [] \<and> A = {}
      else (\<exists>j \<le> 512. mb_endIndex b = Some (j * (w div 8)) \<and> (mb_block b, 512 * w) \<in> set rs
              \<and> length xs + card A = j \<and> set xs \<union> A \<subseteq> set (grid (mb_block b) w j)))"

text \<open>The blocks \<open>B\<close> of an allocator whose elements take \<open>k\<close> bytes.\<close>

definition fsb1_core ::
  "nat \<Rightarrow> (nat \<Rightarrow> nat option) \<Rightarrow> (nat \<times> nat) list \<Rightarrow> (nat \<Rightarrow> memblock) \<Rightarrow> (nat \<Rightarrow> nat list)
     \<Rightarrow> (nat \<rightharpoonup> nat) \<Rightarrow> bool" where
  "fsb1_core k m rs B fs M \<longleftrightarrow>
     8 \<le> k \<and> 8 dvd k \<and> 512 * (k + 8) div 8 < max_u64
     \<and> heap_inv (\<lambda>_. k + 8) (\<lambda>c. fsb1_fmt (mb_block (B c))) m rs (\<lambda>c. mb_firstFree (B c)) fs M
     \<and> (\<forall>(x, c) \<in> blocks fs M. m (x + k) = Some c)
     \<and> (\<forall>c. memblock_ok (k + 8) rs (B c) (fs c) {x. M x = Some c})
     \<and> (\<forall>c d. mb_block (B c) = mb_block (B d) \<longrightarrow> mb_block (B c) \<noteq> 0 \<longrightarrow> c = d)"

definition fsb1_inv :: "nat \<Rightarrow> 'a fsb1_scheme \<Rightarrow> (nat \<rightharpoonup> nat) \<Rightarrow> bool" where
  "fsb1_inv E s L \<longleftrightarrow>
     (\<exists>fs M. fsb1_core (8 * ElemSizeInDSize1 E) (cells s) (regions s) (blk s) fs M
         \<and> views 0 (\<lambda>_ n. n = E) L M
         \<and> (\<forall>(x, c) \<in> blocks fs M. c < length (data s))
         \<and> distinct (blocksWithFree s)
         \<and> set (blocksWithFree s) = {c. c < length (data s) \<and> \<not> isFull (blk s c)})"

section \<open>Steps on the blocks\<close>

lemma grid_mono: "i \<le> j \<Longrightarrow> set (grid p w i) \<subseteq> set (grid p w j)"
  by (auto simp: set_grid)

lemma core_intro:
  assumes "8 \<le> k" and "8 dvd k" and "512 * (k + 8) div 8 < max_u64"
    and "heap_inv (\<lambda>_. k + 8) (\<lambda>c. fsb1_fmt (mb_block (B c))) m rs (\<lambda>c. mb_firstFree (B c)) fs M"
    and "\<And>x c. (x, c) \<in> blocks fs M \<Longrightarrow> m (x + k) = Some c"
    and "\<And>c. memblock_ok (k + 8) rs (B c) (fs c) {x. M x = Some c}"
    and "\<And>c d. mb_block (B c) = mb_block (B d) \<Longrightarrow> mb_block (B c) \<noteq> 0 \<Longrightarrow> c = d"
  shows "fsb1_core k m rs B fs M"
  unfolding fsb1_core_def using assms by blast

lemma core_sizes:
  "fsb1_core k m rs B fs M \<Longrightarrow> 8 \<le> k \<and> 8 dvd k \<and> 512 * (k + 8) div 8 < max_u64"
  by (simp add: fsb1_core_def)

lemma core_index: "fsb1_core k m rs B fs M \<Longrightarrow> (x, c) \<in> blocks fs M \<Longrightarrow> m (x + k) = Some c"
  by (auto simp: fsb1_core_def)

lemma core_inj:
  "fsb1_core k m rs B fs M \<Longrightarrow> mb_block (B c) = mb_block (B d) \<Longrightarrow> mb_block (B c) \<noteq> 0 \<Longrightarrow> c = d"
  by (simp add: fsb1_core_def)

lemma memblock_ok_mono:
  "memblock_ok w rs b xs A \<Longrightarrow> (mb_block b \<noteq> 0 \<Longrightarrow> (mb_block b, 512 * w) \<in> set rs') \<Longrightarrow>
     memblock_ok w rs' b xs A"
  by (auto simp: memblock_ok_def)

lemma memblock_ok_move:
  assumes "memblock_ok w rs b xs A" and "mb_block b \<noteq> 0"
    and "mb_block b' = mb_block b" and "mb_endIndex b' = mb_endIndex b"
    and "set ys \<union> A' = set xs \<union> A" and "length ys + card A' = length xs + card A"
    and "finite A'" and "card A' = mb_amount b'"
  shows "memblock_ok w rs b' ys A'"
proof -
  obtain j where "j \<le> 512" "mb_endIndex b = Some (j * (w div 8))" "(mb_block b, 512 * w) \<in> set rs"
    "length xs + card A = j" "set xs \<union> A \<subseteq> set (grid (mb_block b) w j)"
    using assms(1,2) unfolding memblock_ok_def by auto
  then have "\<exists>j \<le> 512. mb_endIndex b = Some (j * (w div 8)) \<and> (mb_block b, 512 * w) \<in> set rs
      \<and> length ys + card A' = j \<and> set ys \<union> A' \<subseteq> set (grid (mb_block b) w j)"
    unfolding assms(5,6) by blast
  then show ?thesis
    using assms(2,7,8) unfolding memblock_ok_def assms(3,4) by simp
qed

lemma core_heap:
  "fsb1_core k m rs B fs M \<Longrightarrow>
     heap_inv (\<lambda>_. k + 8) (\<lambda>c. fsb1_fmt (mb_block (B c))) m rs (\<lambda>c. mb_firstFree (B c)) fs M"
  by (simp add: fsb1_core_def)

lemma core_block:
  "fsb1_core k m rs B fs M \<Longrightarrow> memblock_ok (k + 8) rs (B c) (fs c) {x. M x = Some c}"
  by (simp add: fsb1_core_def)

lemma core_grid:
  assumes C: "fsb1_core k m rs B fs M" and x: "(x, c) \<in> blocks fs M"
  obtains i where "i < 512" and "x = mb_block (B c) + i * (k + 8)" and "mb_block (B c) \<noteq> 0"
proof -
  have "x \<in> set (fs c) \<union> {x. M x = Some c}" using x by (simp add: in_blocks)
  then have b: "mb_block (B c) \<noteq> 0" and "\<exists>j \<le> 512. x \<in> set (grid (mb_block (B c)) (k + 8) j)"
    using core_block [OF C, of c] by (auto simp: memblock_ok_def split: if_splits)
  then obtain i where "i < 512" "x = mb_block (B c) + i * (k + 8)" by (auto simp: set_grid)
  with b that show ?thesis by blast
qed

text \<open>A unit address and its link, the offset in words from the start of the block.\<close>

lemma core_link:
  assumes C: "fsb1_core k m rs B fs M" and x: "(x, c) \<in> blocks fs M"
  shows "mb_block (B c) + 8 * ((x - mb_block (B c)) div 8) = x"
proof -
  obtain i where i: "x = mb_block (B c) + i * (k + 8)" using core_grid [OF C x] by metis
  have "8 dvd k" using C by (simp add: fsb1_core_def)
  then have "8 dvd i * (k + 8)" by (intro dvd_mult) (simp add: dvd_add)
  with i show ?thesis by simp
qed

lemma core_pop:
  assumes C: "fsb1_core k m rs B fs M" and c: "fs c = x # xs"
  obtains q where "x = mb_block (B c) + 8 * mb_firstFree (B c)" and "mb_firstFree (B c) \<noteq> max_u64"
    and "m x = Some q" and "inside x 8 rs" and "M x = None"
    and "fsb1_core k m rs (B(c := (B c)\<lparr>mb_firstFree := q, mb_amount := mb_amount (B c) + 1\<rparr>))
          (fs(c := xs)) (M(x \<mapsto> c))"
proof -
  note H = core_heap [OF C]
  obtain q where q: "mb_firstFree (B c) = (x - mb_block (B c)) div 8" "m x = Some q" "inside x 8 rs"
    "M x = None"
    "heap_inv (\<lambda>_. k + 8) (\<lambda>c. fsb1_fmt (mb_block (B c))) m rs ((\<lambda>c. mb_firstFree (B c))(c := q))
       (fs(c := xs)) (M(x \<mapsto> c))"
    using heap_pop [OF H c] by auto
  let ?b = "(B c)\<lparr>mb_firstFree := q, mb_amount := mb_amount (B c) + 1\<rparr>"
  have xc: "(x, c) \<in> blocks fs M" using c by (simp add: in_blocks)
  have BB: "blocks (fs(c := xs)) (M(x \<mapsto> c)) = blocks fs M"
    using q(4) c heap_class_unique [OF H xc] by (auto simp: blocks_def split: if_splits)
  have A: "{y. (M(x \<mapsto> c)) y = Some d} = (if d = c then insert x {y. M y = Some c} else {y. M y = Some d})" for d
    using q(4) by auto
  have ok: "memblock_ok (k + 8) rs ((B(c := ?b)) d) ((fs(c := xs)) d) {y. (M(x \<mapsto> c)) y = Some d}" for d
  proof (cases "d = c")
    case False
    then show ?thesis using core_block [OF C, of d] unfolding A by simp
  next
    case True
    have "mb_block (B c) \<noteq> 0" using core_grid [OF C xc] by blast
    have new: "x \<notin> {y. M y = Some c}" using q(4) by simp
    have fin: "finite {y. M y = Some c}" "card {y. M y = Some c} = mb_amount (B c)"
      using core_block [OF C, of c] by (auto simp: memblock_ok_def)
    have "memblock_ok (k + 8) rs ?b xs (insert x {y. M y = Some c})"
      by (rule memblock_ok_move [OF core_block [OF C, of c]]) (use c new fin \<open>mb_block (B c) \<noteq> 0\<close> in auto)
    then show ?thesis unfolding A True by simp
  qed
  have F: "(\<lambda>d. fsb1_fmt (mb_block ((B(c := ?b)) d))) = (\<lambda>d. fsb1_fmt (mb_block (B d)))"
    "(\<lambda>d. mb_firstFree ((B(c := ?b)) d)) = (\<lambda>d. mb_firstFree (B d))(c := q)" by auto
  have "fsb1_core k m rs (B(c := ?b)) (fs(c := xs)) (M(x \<mapsto> c))"
  proof (rule core_intro)
    show "heap_inv (\<lambda>_. k + 8) (\<lambda>d. fsb1_fmt (mb_block ((B(c := ?b)) d))) m rs
        (\<lambda>d. mb_firstFree ((B(c := ?b)) d)) (fs(c := xs)) (M(x \<mapsto> c))"
      unfolding F by (rule q(5))
    show "d = e" if "mb_block ((B(c := ?b)) d) = mb_block ((B(c := ?b)) e)" "mb_block ((B(c := ?b)) d) \<noteq> 0" for d e
      using that core_inj [OF C, of d e] by (auto split: if_splits)
    show "m (y + k) = Some d" if "(y, d) \<in> blocks (fs(c := xs)) (M(x \<mapsto> c))" for y d
      using that unfolding BB by (rule core_index [OF C])
  qed (use core_sizes [OF C] ok in blast)+
  moreover have "mb_firstFree (B c) \<noteq> max_u64" using heap_empty_iff [OF H, of c] c by simp
  ultimately show ?thesis using that q core_link [OF C xc] by metis
qed

text \<open>The next unit of a block whose units so far are all in use.\<close>

lemma core_carve:
  assumes C: "fsb1_core k m rs B fs M" and c: "fs c = []" and b: "mb_block (B c) \<noteq> 0"
    and notfull: "mb_amount (B c) < 512"
  obtains e x where "mb_endIndex (B c) = Some e" and "x = mb_block (B c) + 8 * e"
    and "inside (x + k) 8 rs" and "M x = None"
    and "fsb1_core k (poke (x + k) c m) rs
          (B(c := (B c)\<lparr>mb_endIndex := Some (e + (k + 8) div 8), mb_amount := mb_amount (B c) + 1\<rparr>))
          fs (M(x \<mapsto> c))"
proof -
  note H = core_heap [OF C]
  let ?w = "k + 8" and ?p = "mb_block (B c)" and ?A = "{x. M x = Some c}"
  have k: "8 \<le> k" "8 dvd k" "512 * ?w div 8 < max_u64" using C by (auto simp: fsb1_core_def)
  obtain j where j: "j \<le> 512" "mb_endIndex (B c) = Some (j * (?w div 8))" "(?p, 512 * ?w) \<in> set rs"
    "card ?A = j" "?A \<subseteq> set (grid ?p ?w j)" "finite ?A" "card ?A = mb_amount (B c)"
    using core_block [OF C, of c] b c by (auto simp: memblock_ok_def)
  have j5: "j < 512" using j(4,7) notfull by simp
  let ?x = "?p + j * ?w"
  have w8: "8 * (j * (?w div 8)) = j * ?w" using k(2) by (metis dvd_add_right_iff dvd_mult_div_cancel dvd_refl mult.left_commute add.commute)
  have pos: "0 < ?p" using b by simp
  have jw: "j * ?w + ?w \<le> 512 * ?w" using step_le [OF j5] .
  have ap: "apart ?x ?w y ?w" if y: "(y, d) \<in> blocks fs M" for y d
  proof (cases "d = c")
    case True
    then have "y \<in> set (grid ?p ?w j)" using y j(5) c by (auto simp: in_blocks)
    then show ?thesis using grid_bounds [of y ?p ?w j] by (simp add: apart_def)
  next
    case False
    obtain i where i: "i < 512" "y = mb_block (B d) + i * ?w" "mb_block (B d) \<noteq> 0"
      using core_grid [OF C y] by metis
    have "(mb_block (B d), 512 * ?w) \<in> set rs"
      using core_block [OF C, of d] i(3) by (auto simp: memblock_ok_def)
    moreover have "mb_block (B d) \<noteq> ?p" using C False i(3) unfolding fsb1_core_def by metis
    ultimately have "apart ?p (512 * ?w) (mb_block (B d)) (512 * ?w)"
      using regions_ok_apart [OF heap_regions [OF H] j(3)] by auto
    then show ?thesis using jw step_le [OF i(1), of ?w] i(2) by (auto simp: apart_def)
  qed
  have ins: "inside ?x ?w rs" using j(3) jw by (intro insideI) auto
  have ok: "block_ok (\<lambda>_. ?w) (\<lambda>c. fsb1_fmt (mb_block (B c))) rs ?x c"
  proof -
    have "(?x - ?p) div 8 \<le> 512 * ?w div 8" using jw by (intro div_le_mono) simp
    then show ?thesis using k ins by (simp add: block_ok_def)
  qed
  have none: "M ?x = None"
    using ap [of ?x] k(1) by (cases "M ?x") (auto simp: in_blocks apart_def)
  let ?m = "poke (?x + k) c m"
  have H1: "heap_inv (\<lambda>_. ?w) (\<lambda>c. fsb1_fmt (mb_block (B c))) m rs (\<lambda>c. mb_firstFree (B c)) fs (M(?x \<mapsto> c))"
    using heap_carve [OF H ok] ap by simp
  have H2: "heap_inv (\<lambda>_. ?w) (\<lambda>c. fsb1_fmt (mb_block (B c))) ?m rs (\<lambda>c. mb_firstFree (B c)) fs (M(?x \<mapsto> c))"
    using heap_poke_live [OF H1, of ?x c "?x + k"] by simp
  let ?b = "(B c)\<lparr>mb_endIndex := Some (j * (?w div 8) + ?w div 8), mb_amount := mb_amount (B c) + 1\<rparr>"
  have idx: "?m (y + k) = Some d" if "(y, d) \<in> blocks fs (M(?x \<mapsto> c))" for y d
  proof (cases "(y, d) \<in> blocks fs M")
    case True
    then have "apart (?x + k) 8 (y + k) 8" using ap [OF True] by (auto simp: apart_def)
    then show ?thesis using True C by (auto simp: fsb1_core_def apart_def)
  next
    case False
    then have "y = ?x" "d = c" using that by (auto simp: in_blocks split: if_splits)
    then show ?thesis by simp
  qed
  have A: "{y. (M(?x \<mapsto> c)) y = Some d} = (if d = c then insert ?x ?A else {y. M y = Some d})" for d
    using none by auto
  have g: "set (grid ?p ?w (Suc j)) = insert ?x (set (grid ?p ?w j))" by (simp add: grid_Suc)
  have new: "?x \<notin> ?A" using none by simp
  have okc: "memblock_ok ?w rs ((B(c := ?b)) d) (fs d) {y. (M(?x \<mapsto> c)) y = Some d}" for d
  proof (cases "d = c")
    case False
    then show ?thesis using core_block [OF C, of d] unfolding A by simp
  next
    case True
    have "memblock_ok ?w rs ?b [] (insert ?x ?A)"
      unfolding memblock_ok_def using b j j5 new
      by (auto simp: g add.commute intro!: exI [of _ "Suc j"])
    then show ?thesis unfolding A using True c by simp
  qed
  have F: "(\<lambda>d. fsb1_fmt (mb_block ((B(c := ?b)) d))) = (\<lambda>d. fsb1_fmt (mb_block (B d)))"
    "(\<lambda>d. mb_firstFree ((B(c := ?b)) d)) = (\<lambda>d. mb_firstFree (B d))" by auto
  have "fsb1_core k ?m rs (B(c := ?b)) fs (M(?x \<mapsto> c))"
  proof (rule core_intro)
    show "heap_inv (\<lambda>_. ?w) (\<lambda>d. fsb1_fmt (mb_block ((B(c := ?b)) d))) ?m rs
        (\<lambda>d. mb_firstFree ((B(c := ?b)) d)) fs (M(?x \<mapsto> c))"
      unfolding F by (rule H2)
    show "d = e" if "mb_block ((B(c := ?b)) d) = mb_block ((B(c := ?b)) e)" "mb_block ((B(c := ?b)) d) \<noteq> 0" for d e
      using that core_inj [OF C, of d e] by (auto split: if_splits)
  qed (fact k(1) k(2) k(3) idx okc)+
  moreover have "inside (?x + k) 8 rs" using ins by (rule inside_mono) auto
  ultimately show ?thesis using that [OF j(2), of ?x] none w8 by simp
qed

text \<open>A block that is not allocated gets a new object.\<close>

lemma core_take:
  assumes C: "fsb1_core k m rs B fs M" and b: "mb_block (B c) = 0" and p: "0 < p"
    and fresh: "\<And>q n. (q, n) \<in> set rs \<Longrightarrow> apart p (512 * (k + 8)) q n"
  shows "fsb1_core k (wipe p (512 * (k + 8)) m) ((p, 512 * (k + 8)) # rs)
           (B(c := (B c)\<lparr>mb_block := p, mb_endIndex := Some 0\<rparr>)) fs M"
proof -
  note H = core_heap [OF C]
  let ?w = "k + 8" and ?b = "(B c)\<lparr>mb_block := p, mb_endIndex := Some 0\<rparr>"
  let ?m = "wipe p (512 * ?w) m" and ?rs = "(p, 512 * ?w) # rs"
  have empty: "fs c = []" "{x. M x = Some c} = {}" "mb_amount (B c) = 0"
    using core_block [OF C, of c] b by (auto simp: memblock_ok_def)
  have T: "heap_inv (\<lambda>_. ?w) (\<lambda>c. fsb1_fmt (mb_block (B c))) ?m ?rs (\<lambda>c. mb_firstFree (B c)) fs M"
    using H p fresh by (intro heap_take) auto
  have T': "heap_inv (\<lambda>_. ?w) (\<lambda>d. fsb1_fmt (mb_block ((B(c := ?b)) d))) ?m ?rs
      (\<lambda>d. mb_firstFree ((B(c := ?b)) d)) fs M"
  proof -
    have F: "(\<lambda>d. mb_firstFree ((B(c := ?b)) d)) = (\<lambda>d. mb_firstFree (B d))" by auto
    show ?thesis
      unfolding F using empty(1,2) by (intro heap_fmt_cong [OF T]) (auto simp: in_blocks)
  qed
  have idx: "?m (x + k) = Some d" if x: "(x, d) \<in> blocks fs M" for x d
  proof -
    have "apart p (512 * ?w) x ?w"
      using heap_block_inside [OF H x] fresh by (fastforce simp: inside_iff apart_def)
    moreover have "m (x + k) = Some d" using C x by (auto simp: fsb1_core_def)
    ultimately show ?thesis by (auto simp: apart_def)
  qed
  have new: "mb_block (B d) \<noteq> p" if "mb_block (B d) \<noteq> 0" for d
  proof
    assume "mb_block (B d) = p"
    then have "(p, 512 * ?w) \<in> set rs" using core_block [OF C, of d] that by (auto simp: memblock_ok_def)
    then show False using fresh [of p "512 * ?w"] by (simp add: apart_def)
  qed
  have ok: "memblock_ok ?w ?rs ((B(c := ?b)) d) (fs d) {x. M x = Some d}" for d
  proof (cases "d = c")
    case False
    have "mb_block (B d) \<noteq> 0 \<Longrightarrow> (mb_block (B d), 512 * ?w) \<in> set rs"
      using core_block [OF C, of d] by (simp add: memblock_ok_def)
    then show ?thesis using False memblock_ok_mono [OF core_block [OF C, of d]] by simp
  next
    case True
    then show ?thesis using empty p by (simp add: memblock_ok_def)
  qed
  show ?thesis
  proof (rule core_intro)
    show "d = e" if "mb_block ((B(c := ?b)) d) = mb_block ((B(c := ?b)) e)" "mb_block ((B(c := ?b)) d) \<noteq> 0" for d e
      using that core_inj [OF C, of d e] new [of d] new [of e] p by (auto split: if_splits)
  qed (use core_sizes [OF C] T' idx ok in blast)+
qed

text \<open>A unit in use goes back to the free list of its block.\<close>

lemma core_push:
  assumes C: "fsb1_core k m rs B fs M" and x: "M x = Some c"
  shows "fsb1_core k (poke x (mb_firstFree (B c)) m) rs
           (B(c := (B c)\<lparr>mb_firstFree := (x - mb_block (B c)) div 8, mb_amount := mb_amount (B c) - 1\<rparr>))
           (fs(c := x # fs c)) (M(x := None))"
    and "0 < mb_amount (B c)"
proof -
  note H = core_heap [OF C]
  let ?A = "{y. M y = Some c}"
    and ?b = "(B c)\<lparr>mb_firstFree := (x - mb_block (B c)) div 8, mb_amount := mb_amount (B c) - 1\<rparr>"
  have xc: "(x, c) \<in> blocks fs M" using x by (simp add: in_blocks)
  have nz: "mb_block (B c) \<noteq> 0" using core_grid [OF C xc] by metis
  have fin: "finite ?A" "card ?A = mb_amount (B c)"
    using core_block [OF C, of c] by (auto simp: memblock_ok_def)
  show pos: "0 < mb_amount (B c)" using fin x by (metis card_gt_0_iff empty_iff mem_Collect_eq)
  have A: "{y. (M(x := None)) y = Some d} = (if d = c then ?A - {x} else {y. M y = Some d})" for d
    using x by auto
  have BB: "blocks (fs(c := x # fs c)) (M(x := None)) = blocks fs M"
    using x by (auto simp: blocks_def split: if_splits)
  have ok: "memblock_ok (k + 8) rs ((B(c := ?b)) d) ((fs(c := x # fs c)) d)
      {y. (M(x := None)) y = Some d}" for d
  proof (cases "d = c")
    case False
    then show ?thesis using core_block [OF C, of d] unfolding A by simp
  next
    case True
    have "memblock_ok (k + 8) rs ?b (x # fs c) (?A - {x})"
      by (rule memblock_ok_move [OF core_block [OF C, of c]]) (use x nz fin pos in auto)
    then show ?thesis unfolding A using True by simp
  qed
  have F: "(\<lambda>d. fsb1_fmt (mb_block ((B(c := ?b)) d))) = (\<lambda>d. fsb1_fmt (mb_block (B d)))"
    "(\<lambda>d. mb_firstFree ((B(c := ?b)) d))
       = (\<lambda>d. mb_firstFree (B d))(c := (x - mb_block (B c)) div 8)" by auto
  show "fsb1_core k (poke x (mb_firstFree (B c)) m) rs (B(c := ?b)) (fs(c := x # fs c)) (M(x := None))"
  proof (rule core_intro)
    show "heap_inv (\<lambda>_. k + 8) (\<lambda>d. fsb1_fmt (mb_block ((B(c := ?b)) d)))
        (poke x (mb_firstFree (B c)) m) rs (\<lambda>d. mb_firstFree ((B(c := ?b)) d))
        (fs(c := x # fs c)) (M(x := None))"
      unfolding F using heap_push [OF H x] by simp
    show "d = e" if "mb_block ((B(c := ?b)) d) = mb_block ((B(c := ?b)) e)"
      "mb_block ((B(c := ?b)) d) \<noteq> 0" for d e
      using that core_inj [OF C, of d e] by (auto split: if_splits)
    show "poke x (mb_firstFree (B c)) m (y + k) = Some d"
      if "(y, d) \<in> blocks (fs(c := x # fs c)) (M(x := None))" for y d
    proof -
      have y: "(y, d) \<in> blocks fs M" using that unfolding BB .
      have "x = y \<or> apart x (k + 8) y (k + 8)"
        using heap_apart [OF H xc y] by blast
      then have "x + 8 \<le> y + k \<or> y + k + 8 \<le> x" using core_sizes [OF C] by (auto simp: apart_def)
      then show ?thesis using core_index [OF C y] by simp
    qed
  qed (use core_sizes [OF C] ok in blast)+
qed

text \<open>A block without units in use goes back to the system.\<close>

lemma core_clear:
  assumes C: "fsb1_core k m rs B fs M" and p: "mb_block (B c) = p" "p \<noteq> 0" and z: "mb_amount (B c) = 0"
  shows "fsb1_core k (wipe p (512 * (k + 8)) m) (filter (\<lambda>r. fst r \<noteq> p) rs)
           (B(c := (B c)\<lparr>mb_block := 0, mb_firstFree := max_u64\<rparr>)) (fs(c := [])) M"
    and "(p, 512 * (k + 8)) \<in> set rs"
    and "\<And>y d. M y = Some d \<Longrightarrow> apart y (k + 8) p (512 * (k + 8))"
proof -
  note H = core_heap [OF C]
  let ?w = "k + 8" and ?b = "(B c)\<lparr>mb_block := 0, mb_firstFree := max_u64\<rparr>"
  have A: "{y. M y = Some c} = {}" using core_block [OF C, of c] z by (auto simp: memblock_ok_def)
  have own: "(mb_block (B d), 512 * ?w) \<in> set rs" if "mb_block (B d) \<noteq> 0" for d
    using core_block [OF C, of d] that by (simp add: memblock_ok_def)
  show r: "(p, 512 * ?w) \<in> set rs" using own [of c] p by simp
  have R: "heap_inv (\<lambda>_. ?w) (\<lambda>d. fsb1_fmt (mb_block (B d))) m rs
      ((\<lambda>d. mb_firstFree (B d))(c := max_u64)) (fs(c := [])) M"
    using heap_reset_class [OF H, of c] by simp
  have ap: "apart y ?w p (512 * ?w)" if y: "(y, d) \<in> blocks (fs(c := [])) M" for y d
  proof -
    have d: "d \<noteq> c" "(y, d) \<in> blocks fs M" using y A by (auto simp: in_blocks split: if_splits)
    obtain i where i: "i < 512" "y = mb_block (B d) + i * ?w" "mb_block (B d) \<noteq> 0"
      using core_grid [OF C d(2)] by metis
    have "mb_block (B d) \<noteq> p" using core_inj [OF C, of d c] d(1) i(3) p by auto
    then have "apart (mb_block (B d)) (512 * ?w) p (512 * ?w)"
      using regions_ok_apart [OF heap_regions [OF H] own [OF i(3)] r] by auto
    then show ?thesis using step_le [OF i(1), of ?w] i(2) by (auto simp: apart_def)
  qed
  then show live: "apart y ?w p (512 * ?w)" if "M y = Some d" for y d
    using that ap [of y d] by (simp add: in_blocks)
  let ?m = "wipe p (512 * ?w) m" and ?rs = "filter (\<lambda>r. fst r \<noteq> p) rs"
  have G: "heap_inv (\<lambda>_. ?w) (\<lambda>d. fsb1_fmt (mb_block (B d))) ?m ?rs
      ((\<lambda>d. mb_firstFree (B d))(c := max_u64)) (fs(c := [])) M"
    using heap_give [OF R r ap] by simp
  have none: "(y, c) \<notin> blocks (fs(c := [])) M" for y using A by (auto simp: in_blocks)
  have F: "(\<lambda>d. mb_firstFree ((B(c := ?b)) d)) = (\<lambda>d. mb_firstFree (B d))(c := max_u64)" by auto
  show "fsb1_core k ?m ?rs (B(c := ?b)) (fs(c := [])) M"
  proof (rule core_intro)
    show "heap_inv (\<lambda>_. ?w) (\<lambda>d. fsb1_fmt (mb_block ((B(c := ?b)) d))) ?m ?rs
        (\<lambda>d. mb_firstFree ((B(c := ?b)) d)) (fs(c := [])) M"
      unfolding F using none by (intro heap_fmt_cong [OF G]) auto
    show "d = e" if "mb_block ((B(c := ?b)) d) = mb_block ((B(c := ?b)) e)"
      "mb_block ((B(c := ?b)) d) \<noteq> 0" for d e
      using that core_inj [OF C, of d e] by (auto split: if_splits)
    show "?m (y + k) = Some d" if "(y, d) \<in> blocks (fs(c := [])) M" for y d
    proof -
      have "(y, d) \<in> blocks fs M" using that by (auto simp: in_blocks split: if_splits)
      then show ?thesis using ap [OF that] core_index [OF C] by (auto simp: apart_def)
    qed
    show "memblock_ok ?w ?rs ((B(c := ?b)) d) ((fs(c := [])) d) {x. M x = Some d}" for d
    proof (cases "d = c")
      case True
      then show ?thesis using A z by (simp add: memblock_ok_def)
    next
      case False
      have "(mb_block (B d), 512 * ?w) \<in> set ?rs" if "mb_block (B d) \<noteq> 0"
        using own [OF that] core_inj [OF C, of d c] that p False by auto
      then show ?thesis using False memblock_ok_mono [OF core_block [OF C, of d]] by simp
    qed
  qed (use core_sizes [OF C] in blast)+
qed

section \<open>The operations of a block\<close>

lemma unit_bytes: "8 * UnitSizeInDSize E = 8 * ElemSizeInDSize1 E + 8"
  by (simp add: UnitSizeInDSize_def)

lemma block_bytes: "8 * BlockSize1 E = 512 * (8 * ElemSizeInDSize1 E + 8)"
  by (simp add: BlockSize1_def BlockElements1_def UnitSizeInDSize_def)

text \<open>The blocks in use keep their memory and contents from \<open>s\<close> to \<open>s'\<close>.\<close>

definition spares_units :: "nat \<Rightarrow> (nat \<rightharpoonup> nat) \<Rightarrow> 'a world_scheme \<Rightarrow> 'a world_scheme \<Rightarrow> bool" where
  "spares_units k M s s' \<longleftrightarrow> (\<forall>y d. M y = Some d \<longrightarrow> inside y (k + 8) (regions s')
     \<and> (\<forall>a. y \<le> a \<longrightarrow> a + 8 \<le> y + k \<longrightarrow> cells s' a = cells s a))"

lemma sparesD:
  assumes "spares_units k M s s'" and "M y = Some d" and "y \<le> a" and "a + 8 \<le> y + k"
  shows "inside y (k + 8) (regions s') \<and> cells s' a = cells s a"
  using assms unfolding spares_units_def by blast

lemma carve_ok:
  assumes C: "fsb1_core (8 * ElemSizeInDSize1 E) (cells s) (regions s) B fs M" and c: "fs c = []"
    and b: "mb_block (B c) \<noteq> 0" and nf: "mb_amount (B c) < 512"
  obtains x e s' b' where "mb_endIndex (B c) = Some e"
    and "x = mb_block (B c) + 8 * e"
    and "store (x + 8 * ElemSizeInDSize1 E) c s = Some s'"
    and "b' = (B c)\<lparr>mb_endIndex := Some (e + UnitSizeInDSize E), mb_amount := mb_amount (B c) + 1\<rparr>"
    and "M x = None" and "fsb1_core (8 * ElemSizeInDSize1 E) (cells s') (regions s') (B(c := b')) fs (M(x \<mapsto> c))"
    and "spares_units (8 * ElemSizeInDSize1 E) M s s'"
proof -
  let ?k = "8 * ElemSizeInDSize1 E"
  obtain e x where x: "mb_endIndex (B c) = Some e" "x = mb_block (B c) + 8 * e"
    "inside (x + ?k) 8 (regions s)" "M x = None"
    "fsb1_core ?k (poke (x + ?k) c (cells s)) (regions s)
       (B(c := (B c)\<lparr>mb_endIndex := Some (e + (?k + 8) div 8), mb_amount := mb_amount (B c) + 1\<rparr>))
       fs (M(x \<mapsto> c))"
    using core_carve [OF C c b nf] by metis
  let ?s = "s\<lparr>cells := poke (x + ?k) c (cells s)\<rparr>"
  have u: "(?k + 8) div 8 = UnitSizeInDSize E" by (simp add: UnitSizeInDSize_def)
  have "spares_units ?k M s ?s"
    unfolding spares_units_def
  proof (intro allI impI conjI)
    fix y d assume y: "M y = Some d"
    then show "inside y (?k + 8) (regions ?s)"
      using heap_block_inside [OF core_heap [OF C], of y d] by (simp add: in_blocks)
    fix a assume a: "y \<le> a" "a + 8 \<le> y + ?k"
    have yx: "(M(x \<mapsto> c)) y = Some d" "y \<noteq> x" using y x(4) by auto
    then have "apart x (?k + 8) y (?k + 8)"
      using heap_live_apart [OF core_heap [OF x(5)], of x c y d] by simp
    then show "cells ?s a = cells s a" using a by (auto simp: apart_def)
  qed
  with x u that [of e x ?s] show ?thesis by (simp add: store_def)
qed

lemma mb_allocate_ok:
  assumes C: "fsb1_core (8 * ElemSizeInDSize1 E) (cells s) (regions s) B fs M"
    and nf: "\<not> isFull (B c)" and env: "mb_block (B c) = 0 \<Longrightarrow> malloc_ok p (8 * BlockSize1 E) s"
  shows "\<exists>x b s' fs'. mb_allocate E p c (B c) s = Some (Inr x, b, s') \<and> M x = None
    \<and> fsb1_core (8 * ElemSizeInDSize1 E) (cells s') (regions s') (B(c := b)) fs' (M(x \<mapsto> c))
    \<and> blocks fs' (M(x \<mapsto> c)) \<subseteq> insert (x, c) (blocks fs M)
    \<and> spares_units (8 * ElemSizeInDSize1 E) M s s' \<and> world.more s' = world.more s"
proof -
  let ?k = "8 * ElemSizeInDSize1 E"
  note H = core_heap [OF C]
  have "mb_amount (B c) \<le> 512"
    using core_block [OF C, of c] by (auto simp: memblock_ok_def split: if_splits)
  then have lt: "mb_amount (B c) < 512" using nf by (simp add: isFull_def BlockElements1_def)
  have insert_sub: "blocks fs (M(x \<mapsto> c)) \<subseteq> insert (x, c) (blocks fs M)" for x
    by (auto simp: blocks_def split: if_splits)
  show ?thesis
  proof (cases "fs c")
    case (Cons x xs)
    obtain q where q: "x = mb_block (B c) + 8 * mb_firstFree (B c)" "mb_firstFree (B c) \<noteq> max_u64"
      "cells s x = Some q" "inside x 8 (regions s)" "M x = None"
      "fsb1_core ?k (cells s) (regions s)
         (B(c := (B c)\<lparr>mb_firstFree := q, mb_amount := mb_amount (B c) + 1\<rparr>)) (fs(c := xs)) (M(x \<mapsto> c))"
      using core_pop [OF C Cons] by metis
    have "mb_allocate E p c (B c) s
        = Some (Inr x, (B c)\<lparr>mb_firstFree := q, mb_amount := mb_amount (B c) + 1\<rparr>, s)"
      using q(1-4) by (simp add: mb_allocate_def load_def Let_def)
    moreover have "blocks (fs(c := xs)) (M(x \<mapsto> c)) \<subseteq> insert (x, c) (blocks fs M)"
      using Cons by (auto simp: blocks_def split: if_splits)
    moreover have "spares_units ?k M s s"
      using heap_block_inside [OF H] by (auto simp: spares_units_def in_blocks)
    ultimately show ?thesis using q(5,6) by blast
  next
    case Nil
    have ff: "mb_firstFree (B c) = max_u64" using heap_empty_iff [OF H, of c] Nil by simp
    show ?thesis
    proof (cases "mb_block (B c) = 0")
      case False
      obtain x e s' b' where x: "mb_endIndex (B c) = Some e" "x = mb_block (B c) + 8 * e"
        "store (x + ?k) c s = Some s'"
        "b' = (B c)\<lparr>mb_endIndex := Some (e + UnitSizeInDSize E), mb_amount := mb_amount (B c) + 1\<rparr>"
        "M x = None" "fsb1_core ?k (cells s') (regions s') (B(c := b')) fs (M(x \<mapsto> c))"
        "spares_units ?k M s s'"
        using carve_ok [OF C Nil False lt] by metis
      have "mb_allocate E p c (B c) s = Some (Inr x, b', s')"
        using ff False x(1-4) by (simp add: mb_allocate_def Let_def)
      moreover have "world.more s' = world.more s" using x(3) by (auto simp: store_Some)
      ultimately show ?thesis using x(5-7) insert_sub by blast
    next
      case True
      have ok: "malloc_ok p (8 * BlockSize1 E) s" using env True .
      have p: "0 < p" using malloc_ok_pos [OF ok] by simp
      let ?t = "sys_take p (8 * BlockSize1 E) s" and ?B = "B(c := (B c)\<lparr>mb_block := p, mb_endIndex := Some 0\<rparr>)"
      have fresh: "apart p (512 * (?k + 8)) q n" if "(q, n) \<in> set (regions s)" for q n
        using malloc_ok_apart [OF ok that] block_bytes [of E] by simp
      have T: "fsb1_core ?k (cells ?t) (regions ?t) ?B fs M"
        using core_take [OF C True p fresh] p by (simp add: sys_take_def block_bytes)
      have "mb_block (?B c) \<noteq> 0" "mb_amount (?B c) < 512" using p lt by simp_all
      then obtain x e s' b' where x: "mb_endIndex (?B c) = Some e" "x = mb_block (?B c) + 8 * e"
        "store (x + ?k) c ?t = Some s'"
        "b' = (?B c)\<lparr>mb_endIndex := Some (e + UnitSizeInDSize E), mb_amount := mb_amount (?B c) + 1\<rparr>"
        "M x = None" "fsb1_core ?k (cells s') (regions s') (?B(c := b')) fs (M(x \<mapsto> c))"
        "spares_units ?k M ?t s'"
        using carve_ok [OF T Nil] by metis
      have "mb_allocate E p c (B c) s = Some (Inr x, b', s')"
        using ff True p x(1-4) by (simp add: mb_allocate_def Let_def)
      moreover have "world.more s' = world.more s"
        using x(3) p by (auto simp: store_Some sys_take_def)
      moreover have "cells ?t a = cells s a" if "M y = Some d" "y \<le> a" "a + 8 \<le> y + ?k" for y d a
      proof -
        have "apart p (8 * BlockSize1 E) y (?k + 8)"
          using heap_block_inside [OF H, of y d] that(1) malloc_ok_inside [OF ok] by (simp add: in_blocks)
        then show ?thesis using that p by (auto simp: sys_take_def apart_def)
      qed
      then have "spares_units ?k M s s'" using x(7) by (auto simp: spares_units_def)
      ultimately show ?thesis using x(5,6) insert_sub by (metis fun_upd_upd)
    qed
  qed
qed

lemma mb_deallocate_ok:
  assumes C: "fsb1_core (8 * ElemSizeInDSize1 E) (cells s) (regions s) B fs M" and x: "M x = Some c"
  shows "\<exists>b s' fs'. mb_deallocate x (B c) s = Some (b, s')
    \<and> fsb1_core (8 * ElemSizeInDSize1 E) (cells s') (regions s') (B(c := b)) fs' (M(x := None))
    \<and> blocks fs' (M(x := None)) \<subseteq> blocks fs M
    \<and> mb_amount b + 1 = mb_amount (B c)
    \<and> spares_units (8 * ElemSizeInDSize1 E) (M(x := None)) s s' \<and> world.more s' = world.more s"
proof -
  let ?k = "8 * ElemSizeInDSize1 E"
    and ?b = "(B c)\<lparr>mb_firstFree := (x - mb_block (B c)) div 8, mb_amount := mb_amount (B c) - 1\<rparr>"
    and ?s = "s\<lparr>cells := poke x (mb_firstFree (B c)) (cells s)\<rparr>"
  note H = core_heap [OF C] and P = core_push [OF C x]
  have xc: "(x, c) \<in> blocks fs M" using x by (simp add: in_blocks)
  obtain i where nz: "mb_block (B c) \<noteq> 0" using core_grid [OF C xc] by metis
  have st: "store x (mb_firstFree (B c)) s = Some ?s"
    using heap_link_inside [OF H xc] by (simp add: store_def)
  have sub: "blocks (fs(c := x # fs c)) (M(x := None)) \<subseteq> blocks fs M"
    using x by (auto simp: blocks_def split: if_splits)
  have S: "spares_units ?k (M(x := None)) s ?s"
    unfolding spares_units_def
  proof (intro allI impI conjI)
    fix y d assume y: "(M(x := None)) y = Some d"
    then have y': "M y = Some d" "y \<noteq> x" by (auto split: if_splits)
    then show "inside y (?k + 8) (regions ?s)"
      using heap_block_inside [OF H, of y d] by (simp add: in_blocks)
    fix a assume a: "y \<le> a" "a + 8 \<le> y + ?k"
    have "apart x (?k + 8) y (?k + 8)" using heap_live_apart [OF H x y'(1)] y'(2) by simp
    then show "cells ?s a = cells s a" using a core_sizes [OF C] by (auto simp: apart_def)
  qed
  show ?thesis
  proof (cases "mb_amount (B c) - 1 = 0")
    case False
    have "mb_deallocate x (B c) s = Some (?b, ?s)"
      using st False P(2) by (simp add: mb_deallocate_def Let_def)
    moreover have "mb_amount ?b + 1 = mb_amount (B c)" using P(2) by simp
    moreover have "world.more ?s = world.more s" by simp
    moreover have "fsb1_core ?k (cells ?s) (regions ?s) (B(c := ?b)) (fs(c := x # fs c)) (M(x := None))"
      using P(1) by simp
    ultimately show ?thesis using sub S by blast
  next
    case True
    let ?p = "mb_block (B c)" and ?B = "B(c := ?b)"
    have "mb_block (?B c) = ?p" "?p \<noteq> 0" "mb_amount (?B c) = 0" using nz True by simp_all
    note K = core_clear [OF P(1) this]
    let ?c = "(?B c)\<lparr>mb_block := 0, mb_firstFree := max_u64\<rparr>"
      and ?u = "?s\<lparr>regions := filter (\<lambda>r. fst r \<noteq> ?p) (regions s), cells := wipe ?p (512 * (?k + 8)) (cells ?s)\<rparr>"
    have "c_free ?p ?s = Some ?u"
      using sys_give_Some [of ?s ?p "512 * (?k + 8)"] heap_regions [OF H] K(2) nz by (simp add: c_free_def)
    then have "mb_deallocate x (B c) s = Some (?c, ?u)"
      using st True P(2) by (simp add: mb_deallocate_def mb_clear_def Let_def)
    moreover have "fsb1_core ?k (cells ?u) (regions ?u) (B(c := ?c))
        ((fs(c := x # fs c))(c := [])) (M(x := None))"
      using K(1) by (simp del: fun_upd_apply)
    moreover have "blocks ((fs(c := x # fs c))(c := [])) (M(x := None)) \<subseteq> blocks fs M"
      by (auto simp: blocks_def split: if_splits)
    moreover have "mb_amount ?c + 1 = mb_amount (B c)" using P(2) True by simp
    moreover have "world.more ?u = world.more s" by simp
    moreover have "spares_units ?k (M(x := None)) s ?u"
      unfolding spares_units_def
    proof (intro allI impI conjI)
      fix y d assume y: "(M(x := None)) y = Some d"
      have ap: "apart y (?k + 8) ?p (512 * (?k + 8))" using K(3) [OF y] .
      have ins: "inside y (?k + 8) (regions ?s)" using S y by (simp add: spares_units_def)
      show "inside y (?k + 8) (regions ?u)"
        using inside_give [OF heap_regions [OF H] K(2), of y "?k + 8"] ins ap
        by (simp add: apart_sym [of _ _ ?p])
      fix a assume a: "y \<le> a" "a + 8 \<le> y + ?k"
      then have "cells ?s a = cells s a" using S y unfolding spares_units_def by blast
      moreover have "wipe ?p (512 * (?k + 8)) (cells ?s) a = cells ?s a"
        using ap a by (intro wipe_apart) (auto simp: apart_def)
      ultimately show "cells ?u a = cells s a" by simp
    qed
    ultimately show ?thesis by blast
  qed
qed

section \<open>The allocator and its client\<close>

lemma keeps_fsb1 [simp]:
  "keeps L s (data_update f1 t) = keeps L s t"
  "keeps L s (blocksWithFree_update f2 t) = keeps L s t"
  by (rule keeps_cong; simp)+

definition fsb1_env :: "nat \<Rightarrow> nat \<Rightarrow> nat \<Rightarrow> 'a fsb1_scheme \<Rightarrow> bool" where
  "fsb1_env E p n s \<longleftrightarrow> n = E \<and>
     (blocksWithFree s = [] \<or> mb_block (blk s (last (blocksWithFree s))) = 0
        \<longrightarrow> malloc_ok p (8 * BlockSize1 E) s)"

definition fsb1_al :: "nat \<Rightarrow> nat \<Rightarrow> nat \<Rightarrow> 'a fsb1_scheme \<Rightarrow> (nat \<times> 'a fsb1_scheme) option" where
  "fsb1_al E p n s =
     (case fsb1_allocate E p s of Some (Inr q, s') \<Rightarrow> Some (q, s') | _ \<Rightarrow> None)"

definition fsb1_fr :: "nat \<Rightarrow> nat \<Rightarrow> nat \<Rightarrow> 'a fsb1_scheme \<Rightarrow> 'a fsb1_scheme option" where
  "fsb1_fr E p n s = fsb1_deallocate E p s"

lemma roomy1: "roomy 0 (\<lambda>_ n. n = E) (\<lambda>_::nat. 8 * ElemSizeInDSize1 E + 8)"
  by (simp add: roomy_def ElemSizeInDSize1_def)

lemma elem_le1: "E \<le> 8 * ElemSizeInDSize1 E"
  by (simp add: ElemSizeInDSize1_def)

lemma spares_keeps:
  assumes C: "fsb1_core (8 * ElemSizeInDSize1 E) (cells s) (regions s) B fs M"
    and V: "views 0 (\<lambda>_ n. n = E) L M" and S: "spares_units (8 * ElemSizeInDSize1 E) M s s'"
  shows "keeps L s s'"
proof (rule keepsI)
  fix p n a assume p: "L p = Some n" "p \<le> a" "a + 8 \<le> p + n"
  obtain c where c: "M p = Some c" "n = E" using viewsD [OF V p(1)] by auto
  have a: "a + 8 \<le> p + 8 * ElemSizeInDSize1 E" using p(3) c(2) elem_le1 [of E] by simp
  have "inside p (8 * ElemSizeInDSize1 E + 8) (regions s)"
    using heap_block_inside [OF core_heap [OF C], of p c] c(1) by (simp add: in_blocks)
  then have "inside a 8 (regions s)" using p(2) a by (auto elim: inside_mono)
  moreover have "inside p (8 * ElemSizeInDSize1 E + 8) (regions s')"
    and "cells s' a = cells s a"
    using S c(1) p(2) a by (auto simp: spares_units_def)
  moreover from this have "inside a 8 (regions s')" using p(2) a by (auto elim: inside_mono)
  ultimately show "inside a 8 (regions s') = inside a 8 (regions s) \<and> cells s' a = cells s a"
    by simp
qed

lemma spares_drop: "spares_units k M s s' \<Longrightarrow> spares_units k (M(x := None)) s s'"
  by (auto simp: spares_units_def split: if_splits)

lemma blk_upd: "c < length (data s) \<Longrightarrow> blk (s\<lparr>data := (data s)[c := b]\<rparr>) = (blk s)(c := b)"
  by (auto simp: blk_def)

lemma blk_push: "blk (s\<lparr>data := data s @ [MemBlock]\<rparr>) = blk s"
  by (rule ext) (auto simp: blk_def nth_append less_Suc_eq)

lemma blk_cong: "data s = data t \<Longrightarrow> blk s = blk t"
  by (rule ext) (simp add: blk_def)

lemma notFull_MemBlock: "\<not> isFull MemBlock"
  by (simp add: isFull_def MemBlock_def BlockElements1_def)

lemma fsb1_inv_init:
  assumes "regions_ok (regions w)" and "0 < E" and "512 * (8 * ElemSizeInDSize1 E + 8) div 8 < max_u64"
  shows "fsb1_inv E (fsb1_init w) Map.empty"
proof -
  have b: "blk (fsb1_init w) = (\<lambda>_. MemBlock)" by (rule ext) (simp add: blk_def fsb1_init_def)
  have "fsb1_core (8 * ElemSizeInDSize1 E) (cells w) (regions w) (\<lambda>_. MemBlock) (\<lambda>_. []) Map.empty"
    using assms heap_init [OF assms(1), of _ "\<lambda>_. fsb1_fmt 0"]
    by (intro core_intro) (auto simp: MemBlock_def memblock_ok_def in_blocks ElemSizeInDSize1_def)
  then show ?thesis
    unfolding fsb1_inv_def b
    by (intro exI [of _ "\<lambda>_. []"] exI [of _ Map.empty]) (auto simp: fsb1_init_def in_blocks)
qed

text \<open>The first step of \<open>allocate\<close>: make sure that some block is not full.\<close>

definition some_block :: "'a fsb1_scheme \<Rightarrow> 'a fsb1_scheme" where
  "some_block s = (if blocksWithFree s = []
     then s\<lparr>blocksWithFree := [length (data s)], data := data s @ [MemBlock]\<rparr> else s)"

lemma some_block_ok:
  assumes "fsb1_inv E s L"
  shows "fsb1_inv E (some_block s) L" and "blocksWithFree (some_block s) \<noteq> []"
    and "cells (some_block s) = cells s" and "regions (some_block s) = regions s"
    and "blk (some_block s) = blk s"
proof -
  show *: "blk (some_block s) = blk s"
    by (rule ext) (auto simp: some_block_def blk_def nth_append less_Suc_eq)
  show "blocksWithFree (some_block s) \<noteq> []" "cells (some_block s) = cells s"
    "regions (some_block s) = regions s" by (auto simp: some_block_def)
  obtain fs M where fs: "fsb1_core (8 * ElemSizeInDSize1 E) (cells s) (regions s) (blk s) fs M"
    "views 0 (\<lambda>_ n. n = E) L M" "\<forall>(x, c) \<in> blocks fs M. c < length (data s)"
    "distinct (blocksWithFree s)"
    "set (blocksWithFree s) = {c. c < length (data s) \<and> \<not> isFull (blk s c)}"
    using assms unfolding fsb1_inv_def by blast
  have l: "length (data s) \<le> length (data (some_block s))" by (simp add: some_block_def)
  have "set (blocksWithFree (some_block s)) = {c. c < length (data (some_block s)) \<and> \<not> isFull (blk s c)}"
  proof (cases "blocksWithFree s = []")
    case True
    then have "\<And>c. c < length (data s) \<Longrightarrow> isFull (blk s c)" using fs(5) by auto
    moreover have "blk s (length (data s)) = MemBlock" by (simp add: blk_def)
    ultimately show ?thesis using True notFull_MemBlock by (auto simp: some_block_def less_Suc_eq)
  next
    case False
    then show ?thesis using fs(5) by (simp add: some_block_def)
  qed
  moreover have "distinct (blocksWithFree (some_block s))" using fs(4) by (simp add: some_block_def)
  ultimately show "fsb1_inv E (some_block s) L"
    unfolding fsb1_inv_def * using fs(1-3) l
    by (intro exI [of _ fs] exI [of _ M]) (auto simp: some_block_def)
qed

lemma set_butlast_last: "distinct xs \<Longrightarrow> xs \<noteq> [] \<Longrightarrow> set (butlast xs) = set xs - {last xs}"
  by (cases xs rule: rev_cases) auto

lemma blocks_upd_le: "blocks fs' (M(x \<mapsto> c)) \<subseteq> insert (x, c) (blocks fs M) \<Longrightarrow>
    \<forall>(x, c) \<in> blocks fs M. c < n \<Longrightarrow> c < n \<Longrightarrow> \<forall>(x, c) \<in> blocks fs' (M(x \<mapsto> c)). c < n"
  by blast

lemma fsb1_alloc_ok:
  assumes I: "fsb1_inv E s L" and e: "fsb1_env E p n s"
  shows "\<exists>q s'. fsb1_al E p n s = Some (q, s') \<and> fresh_block L q n \<and> fsb1_inv E s' (L(q \<mapsto> n))
           \<and> keeps L s s'"
proof -
  let ?k = "8 * ElemSizeInDSize1 E" and ?t = "some_block s"
  note S = some_block_ok [OF I]
  obtain fs M where C: "fsb1_core ?k (cells ?t) (regions ?t) (blk ?t) fs M"
    and V: "views 0 (\<lambda>_ n. n = E) L M" and len: "\<forall>(x, c) \<in> blocks fs M. c < length (data ?t)"
    and d: "distinct (blocksWithFree ?t)"
    and bwf: "set (blocksWithFree ?t) = {c. c < length (data ?t) \<and> \<not> isFull (blk ?t c)}"
    using S(1) unfolding fsb1_inv_def by blast
  define c where "c = last (blocksWithFree ?t)"
  have "c \<in> set (blocksWithFree ?t)" using S(2) by (simp add: c_def)
  then have c: "c < length (data ?t)" "\<not> isFull (blk ?t c)" using bwf by auto
  have bc: "blk ?t c = data ?t ! c" using c by (simp add: blk_def)
  have n: "n = E" using e by (simp add: fsb1_env_def)
  have env: "malloc_ok p (8 * BlockSize1 E) ?t" if "mb_block (blk ?t c) = 0"
  proof -
    have "blocksWithFree s = [] \<or> mb_block (blk s (last (blocksWithFree s))) = 0"
      using that S(5) by (cases "blocksWithFree s = []") (auto simp: c_def some_block_def)
    then have "malloc_ok p (8 * BlockSize1 E) s" using e by (simp add: fsb1_env_def)
    then show ?thesis using S(4) by (simp add: malloc_ok_def)
  qed
  obtain x b s' fs' where x: "mb_allocate E p c (blk ?t c) ?t = Some (Inr x, b, s')" "M x = None"
    "fsb1_core ?k (cells s') (regions s') ((blk ?t)(c := b)) fs' (M(x \<mapsto> c))"
    "blocks fs' (M(x \<mapsto> c)) \<subseteq> insert (x, c) (blocks fs M)"
    "spares_units ?k M ?t s'" "world.more s' = world.more ?t"
    using mb_allocate_ok [OF C c(2) env] by blast
  have more: "data s' = data ?t" "blocksWithFree s' = blocksWithFree ?t"
    using x(6) by (cases s'; cases ?t; simp)+
  let ?u = "s'\<lparr>data := (data s')[c := b]\<rparr>"
  let ?v = "if isFull b then ?u\<lparr>blocksWithFree := butlast (blocksWithFree ?u)\<rparr> else ?u"
  have al: "fsb1_al E p n s = Some (x, ?v)"
    using c(1) x(1) bc
    by (simp add: fsb1_al_def fsb1_allocate_def some_block_def [symmetric] c_def Let_def)
  have len': "\<forall>(y, d) \<in> blocks fs' (M(x \<mapsto> c)). d < length (data ?v)"
    using blocks_upd_le [OF x(4) len c(1)] more by simp
  have "blk s' = blk ?t" using more by (intro blk_cong) simp
  then have bu: "blk ?v = (blk ?t)(c := b)"
    using blk_upd [of c s' b] c(1) more by (simp add: blk_cong [of ?v ?u])
  have bw: "set (blocksWithFree ?v) = {d. d < length (data ?v) \<and> \<not> isFull (blk ?v d)} \<and> distinct (blocksWithFree ?v)"
  proof (cases "isFull b")
    case True
    then show ?thesis
      unfolding bu using set_butlast_last [OF d S(2)] bwf c more d
      by (auto simp: c_def [symmetric] distinct_butlast)
  next
    case False
    then show ?thesis unfolding bu using bwf c more d by auto
  qed
  have core: "fsb1_core ?k (cells ?v) (regions ?v) (blk ?v) fs' (M(x \<mapsto> c))"
    using x(3) unfolding bu by simp
  have V': "views 0 (\<lambda>_ n. n = E) (L(x \<mapsto> n)) (M(x \<mapsto> c))"
    using views_upd [OF V, where c = c and n = n and x = x] n by simp
  have inv: "fsb1_inv E ?v (L(x \<mapsto> n))"
    unfolding fsb1_inv_def
    by (intro exI conjI) (rule core, rule V', rule len', use bw in blast, use bw in blast)
  have fresh: "fresh_block L x n"
    using view_fresh [OF core_heap [OF core] x(2) V roomy1, of n] n by simp
  have "keeps L ?t s'" using spares_keeps [OF C V x(5)] .
  moreover have "keeps L s ?t" using S(3,4) by (intro keepsI) simp
  ultimately have "keeps L s ?v" using keeps_trans by (simp add: keeps_trans)
  with al inv fresh show ?thesis by blast
qed

lemma fsb1_free_ok:
  assumes I: "fsb1_inv E s L" and L: "L x = Some n"
  shows "\<exists>s'. fsb1_fr E x n s = Some s' \<and> fsb1_inv E s' (L(x := None)) \<and> keeps (L(x := None)) s s'"
proof -
  let ?k = "8 * ElemSizeInDSize1 E"
  obtain fs M where C: "fsb1_core ?k (cells s) (regions s) (blk s) fs M"
    and V: "views 0 (\<lambda>_ n. n = E) L M" and len: "\<forall>(x, c) \<in> blocks fs M. c < length (data s)"
    and d: "distinct (blocksWithFree s)"
    and bwf: "set (blocksWithFree s) = {c. c < length (data s) \<and> \<not> isFull (blk s c)}"
    using I unfolding fsb1_inv_def by blast
  obtain c where Mx: "M x = Some c" using viewsD [OF V L] by auto
  have xc: "(x, c) \<in> blocks fs M" using Mx by (simp add: in_blocks)
  then have c: "c < length (data s)" using len by blast
  have bc: "blk s c = data s ! c" using c by (simp add: blk_def)
  have x0: "0 < x" using heap_block_pos [OF core_heap [OF C] xc] .
  have ld: "load (x + ?k) s = Some c"
    using core_index [OF C xc] heap_live_inside [OF core_heap [OF C] Mx, of "x + ?k" 8] by (simp add: load_def)
  let ?t = "if isFull (blk s c) then s\<lparr>blocksWithFree := blocksWithFree s @ [c]\<rparr> else s"
  have Ct: "fsb1_core ?k (cells ?t) (regions ?t) (blk s) fs M" using C by simp
  obtain b s' fs' where u: "mb_deallocate x (blk s c) ?t = Some (b, s')"
    "fsb1_core ?k (cells s') (regions s') ((blk s)(c := b)) fs' (M(x := None))"
    "blocks fs' (M(x := None)) \<subseteq> blocks fs M" "mb_amount b + 1 = mb_amount (blk s c)"
    "spares_units ?k (M(x := None)) ?t s'" "world.more s' = world.more ?t"
    using mb_deallocate_ok [OF Ct Mx] by blast
  have more: "data s' = data s" "blocksWithFree s' = blocksWithFree ?t"
    using u(6) by (cases s'; cases s; simp)+
  let ?v = "s'\<lparr>data := (data s')[c := b]\<rparr>"
  have fr: "fsb1_fr E x n s = Some ?v"
    using x0 ld c u(1) bc by (simp add: fsb1_fr_def fsb1_deallocate_def Let_def)
  have bu: "blk ?v = (blk s)(c := b)"
    using blk_upd [of c s' b] c more(1) blk_cong [OF more(1)] by simp
  have "mb_amount (blk s c) \<le> 512"
    using core_block [OF C, of c] by (auto simp: memblock_ok_def split: if_splits)
  then have nf: "\<not> isFull b" using u(4) by (simp add: isFull_def BlockElements1_def)
  have bw: "set (blocksWithFree ?v) = {d. d < length (data ?v) \<and> \<not> isFull (blk ?v d)}"
    and dv: "distinct (blocksWithFree ?v)"
    unfolding bu using bwf c nf d more by auto
  have len': "\<forall>(y, d) \<in> blocks fs' (M(x := None)). d < length (data ?v)"
    using u(3) len more(1) by auto
  have core: "fsb1_core ?k (cells ?v) (regions ?v) (blk ?v) fs' (M(x := None))"
    using u(2) unfolding bu by simp
  have V': "views 0 (\<lambda>_ n. n = E) (L(x := None)) (M(x := None))" using views_del [OF V, of x] by simp
  have inv: "fsb1_inv E ?v (L(x := None))"
    unfolding fsb1_inv_def by (intro exI conjI) (rule core, rule V', rule len', rule dv, rule bw)
  have CN: "fsb1_core ?k (cells s) (regions s) (blk s) fs M" by (rule C)
  have "keeps (L(x := None)) s s'"
  proof (rule keepsI)
    fix p m a assume p: "(L(x := None)) p = Some m" "p \<le> a" "a + 8 \<le> p + m"
    then have px: "p \<noteq> x" "L p = Some m" by (auto split: if_splits)
    obtain g where g: "M p = Some g" "m = E" using viewsD [OF V px(2)] by auto
    have a: "a + 8 \<le> p + ?k" using p(3) g(2) elem_le1 [of E] by simp
    have "inside p (?k + 8) (regions s)"
      using heap_block_inside [OF core_heap [OF C], of p g] g(1) by (simp add: in_blocks)
    moreover have "inside p (?k + 8) (regions s')" and "cells s' a = cells ?t a"
      using sparesD [OF u(5), of p g a] g(1) px(1) p(2) a by simp_all
    moreover from this have cs: "cells s' a = cells s a" by simp
    ultimately have "inside a 8 (regions s)" "inside a 8 (regions s')"
      using p(2) a by (auto elim: inside_mono)
    with cs show "inside a 8 (regions s') = inside a 8 (regions s) \<and> cells s' a = cells s a" by simp
  qed
  with fr inv show ?thesis by auto
qed

lemma fsb1_write_ok:
  assumes I: "fsb1_inv E s L" and L: "L p = Some n" "p \<le> a" "a + 8 \<le> p + n"
  shows "\<exists>s'. store a v s = Some s' \<and> fsb1_inv E s' L"
proof -
  let ?k = "8 * ElemSizeInDSize1 E"
  obtain fs M where C: "fsb1_core ?k (cells s) (regions s) (blk s) fs M"
    and V: "views 0 (\<lambda>_ n. n = E) L M" and rest: "\<forall>(x, c) \<in> blocks fs M. c < length (data s)"
    "distinct (blocksWithFree s)"
    "set (blocksWithFree s) = {c. c < length (data s) \<and> \<not> isFull (blk s c)}"
    using I unfolding fsb1_inv_def by blast
  note H = core_heap [OF C]
  obtain c where c: "M p = Some c" "n = E" using viewsD [OF V L(1)] by auto
  have pc: "(p, c) \<in> blocks fs M" using c by (simp add: in_blocks)
  note W = view_write [OF H V roomy1 L]
  have "fsb1_core ?k (poke a v (cells s)) (regions s) (blk s) fs M"
  proof (rule core_intro)
    fix y d assume y: "(y, d) \<in> blocks fs M"
    have "(y, d) = (p, c) \<or> apart p (?k + 8) y (?k + 8)" using heap_apart [OF H pc y] by auto
    then have "a + 8 \<le> y + ?k \<or> y + ?k + 8 \<le> a"
      using L c(2) elem_le1 [of E] by (auto simp: apart_def)
    then show "poke a v (cells s) (y + ?k) = Some d" using core_index [OF C y] by simp
  next
    fix d e assume "mb_block (blk s d) = mb_block (blk s e)" "mb_block (blk s d) \<noteq> 0"
    then show "d = e" by (rule core_inj [OF C])
  qed (use core_sizes [OF C] core_block [OF C] W in blast)+
  moreover have "blk (s\<lparr>cells := m\<rparr>) = blk s" for m by (rule blk_cong) simp
  ultimately have "fsb1_inv E (s\<lparr>cells := poke a v (cells s)\<rparr>) L"
    unfolding fsb1_inv_def using V rest by (intro exI [of _ fs] exI [of _ M]) simp
  with W show ?thesis by (simp add: store_def)
qed

interpretation fsb1: client_heap "fsb1_inv E" "fsb1_env E" "fsb1_al E" "fsb1_fr E"
proof unfold_locales
  fix s :: "'a fsb1_scheme" and L e n
  assume "fsb1_inv E s L" "fsb1_env E e n s"
  then show "\<exists>p s'. fsb1_al E e n s = Some (p, s') \<and> fresh_block L p n \<and> fsb1_inv E s' (L(p \<mapsto> n))
      \<and> keeps L s s'" by (rule fsb1_alloc_ok)
next
  fix s :: "'a fsb1_scheme" and L p n
  assume "fsb1_inv E s L" "L p = Some n"
  then show "\<exists>s'. fsb1_fr E p n s = Some s' \<and> fsb1_inv E s' (L(p := None)) \<and> keeps (L(p := None)) s s'"
    by (rule fsb1_free_ok)
next
  fix s :: "'a fsb1_scheme" and L p n a v
  assume "fsb1_inv E s L" "L p = Some n" "p \<le> a" "a + 8 \<le> p + n"
  then show "\<exists>s'. store a v s = Some s' \<and> fsb1_inv E s' L" by (rule fsb1_write_ok)
next
  fix s :: "'a fsb1_scheme" and L
  assume "fsb1_inv E s L"
  then obtain fs M where "fsb1_core (8 * ElemSizeInDSize1 E) (cells s) (regions s) (blk s) fs M"
    "views 0 (\<lambda>_ n. n = E) L M" unfolding fsb1_inv_def by blast
  then show "disjoint_blocks L" using view_disjoint [OF core_heap _ roomy1] by blast
qed

text \<open>\<open>FSBAllocator<Ty>\<close>, with the assertion on \<open>count\<close> as a fault.\<close>

definition FSBAllocator_allocate ::
  "nat \<Rightarrow> nat \<Rightarrow> nat \<Rightarrow> 'a fsb1_scheme \<Rightarrow> ((exn + nat) \<times> 'a fsb1_scheme) option" where
  "FSBAllocator_allocate E count p s = (if count = 1 then fsb1_allocate E p s else None)"

definition FSBAllocator_deallocate :: "nat \<Rightarrow> nat \<Rightarrow> nat \<Rightarrow> 'a fsb1_scheme \<Rightarrow> 'a fsb1_scheme option" where
  "FSBAllocator_deallocate E ptr count s = fsb1_deallocate E ptr s"

definition FSBAllocator_max_size :: "nat \<Rightarrow> nat" where
  "FSBAllocator_max_size E = max_u64 div E"

section \<open>Properties\<close>



lemma mb_allocate_Inl:
  "mb_allocate E p c b s = Some (Inl e, b', s') \<Longrightarrow> e = Bad_alloc \<and> b' = b \<and> s' = s"
  by (cases e) (auto simp: mb_allocate_def Let_def split: if_splits option.splits bind_splits)

text \<open>
  When the system has no memory, \<open>FSBAllocator_ElemAllocator::allocate\<close> throws and leaves
  the allocator consistent: the blocks in use are as before and later operations are sound.
\<close>

lemma fsb1_alloc_failure_safe:
  assumes I: "fsb1_inv E s L" and f: "fsb1_allocate E p s = Some (Inl e, s')"
  shows "e = Bad_alloc \<and> fsb1_inv E s' L \<and> keeps L s s'"
proof -
  note S = some_block_ok [OF I]
  let ?t = "some_block s" and ?i = "last (blocksWithFree (some_block s))"
  obtain b u where u: "mb_allocate E p ?i (data ?t ! ?i) ?t = Some (Inl e, b, u)"
    "s' = u\<lparr>data := (data u)[?i := b]\<rparr>"
    using f by (auto simp: fsb1_allocate_def some_block_def [symmetric] Let_def
        split: if_splits bind_splits sum.splits)
  then have "e = Bad_alloc" "s' = ?t" using mb_allocate_Inl [OF u(1)] by simp_all
  moreover have "keeps L s ?t" using S(3,4) by (intro keepsI) simp
  ultimately show ?thesis using S(1) by simp
qed

lemma fsb1_alloc_failure_safe_witness:
  "\<exists>s'. fsb1_allocate 16 0 (fsb1_init \<lparr>cells = \<lambda>_. None, regions = []\<rparr>) = Some (Inl Bad_alloc, s')
    \<and> fsb1_inv 16 s' Map.empty"
proof -
  let ?s = "fsb1_init \<lparr>cells = \<lambda>_. None, regions = []\<rparr>"
  have i: "fsb1_inv 16 ?s Map.empty"
    by (rule fsb1_inv_init) (simp_all add: max_u64_def ElemSizeInDSize1_def)
  obtain s' where f: "fsb1_allocate 16 0 ?s = Some (Inl Bad_alloc, s')"
    by (simp add: fsb1_allocate_def fsb1_init_def mb_allocate_def MemBlock_def)
  from fsb1_alloc_failure_safe [OF i f] f show ?thesis by blast
qed

end
