(* ===== verification/FSB2.thy ===== *)
theory FSB2
  imports ClientView
begin

text \<open>
  \<open>FSBAllocator2_ElemAllocator<ElemSize>\<close> of \<open>FSBAllocator/FSBAllocator.hh\<close>: elements of one
  size are cut from blocks of 1024, in order; freed elements form a pointer-linked list that is
  used first; when the last element is freed all blocks but the first go back to the system.
  \<open>E\<close> is the template argument \<open>ElemSize\<close>, and block addresses are byte addresses, so an
  index \<open>i\<close> of the \<open>size_t\<close> array is \<open>8 * i\<close> bytes into the block.
\<close>

record fsb2 = world +
  ptrs :: "nat list"
  headIndex :: nat
  freeList :: nat
  allocatedElementsAmount :: nat

definition BlockElements2 :: nat where
  "BlockElements2 = 1024"

definition ElemSizeInDSize2 :: "nat \<Rightarrow> nat" where
  "ElemSizeInDSize2 E = (E + (8 - 1)) div 8"

definition BlockSize2 :: "nat \<Rightarrow> nat" where
  "BlockSize2 E = BlockElements2 * ElemSizeInDSize2 E"

text \<open>The static members; \<open>p\<close> is the first block, obtained by the constructor of \<open>Blocks\<close>.\<close>

definition fsb2_init :: "nat \<Rightarrow> nat \<Rightarrow> 'a world_scheme \<Rightarrow> fsb2" where
  "fsb2_init E p w =
     (let w = sys_take p (8 * BlockSize2 E) w
      in \<lparr>cells = cells w, regions = regions w, ptrs = [p], headIndex = 0, freeList = 0,
          allocatedElementsAmount = 0\<rparr>)"

definition fsb2_freeAll :: "'a fsb2_scheme \<Rightarrow> 'a fsb2_scheme option" where
  "fsb2_freeAll s = do {
     s \<leftarrow> delete_all (tl (ptrs s)) s;
     Some (s\<lparr>ptrs := take 1 (ptrs s), headIndex := 0, freeList := 0\<rparr>)
   }"

text \<open>\<open>p\<close> is the answer of \<open>new\<close>, which throws when there is no memory (\<open>p = 0\<close>).\<close>

definition fsb2_allocate ::
  "nat \<Rightarrow> nat \<Rightarrow> 'a fsb2_scheme \<Rightarrow> ((exn + nat) \<times> 'a fsb2_scheme) option" where
  "fsb2_allocate E p s =
     (let s = s\<lparr>allocatedElementsAmount := allocatedElementsAmount s + 1\<rparr>;
          bump = (\<lambda>s. let retval = last (ptrs s) + 8 * headIndex s
                      in Some (Inr retval, s\<lparr>headIndex := headIndex s + ElemSizeInDSize2 E\<rparr>))
      in if freeList s \<noteq> 0 then do {
           let retval = freeList s;
           nxt \<leftarrow> load retval s;
           Some (Inr retval, s\<lparr>freeList := nxt\<rparr>)
         }
         else if headIndex s = BlockSize2 E then
           (if p = 0 then Some (Inl Bad_alloc, s)
            else let s = sys_take p (8 * BlockSize2 E) s
                 in bump (s\<lparr>ptrs := ptrs s @ [p], headIndex := 0\<rparr>))
         else bump s)"

definition fsb2_deallocate :: "nat \<Rightarrow> 'a fsb2_scheme \<Rightarrow> 'a fsb2_scheme option" where
  "fsb2_deallocate ptr s =
     (if ptr = 0 then Some s
      else do {
        s \<leftarrow> store ptr (freeList s) s;
        let s = s\<lparr>freeList := ptr, allocatedElementsAmount := dec64 (allocatedElementsAmount s)\<rparr>;
        if allocatedElementsAmount s = 0 then fsb2_freeAll s else Some s
      })"

lemma keeps_fsb2 [simp]:
  "keeps L s (ptrs_update f1 t) = keeps L s t"
  "keeps L s (headIndex_update f2 t) = keeps L s t"
  "keeps L s (freeList_update f3 t) = keeps L s t"
  "keeps L s (allocatedElementsAmount_update f4 t) = keeps L s t"
  by (rule keeps_cong; simp)+

section \<open>The invariant\<close>

definition fsb2_inv :: "nat \<Rightarrow> 'a fsb2_scheme \<Rightarrow> (nat \<rightharpoonup> nat) \<Rightarrow> bool" where
  "fsb2_inv E s L \<longleftrightarrow> 0 < E \<and> finite (dom L) \<and> card (dom L) = allocatedElementsAmount s
     \<and> ptrs s \<noteq> [] \<and> distinct (ptrs s)
     \<and> (\<forall>b \<in> set (ptrs s). (b, 8 * BlockSize2 E) \<in> set (regions s))
     \<and> (\<exists>fs M j. heap_inv (\<lambda>_::unit. 8 * ElemSizeInDSize2 E) (\<lambda>_. ptr_fmt 0) (cells s) (regions s)
           (\<lambda>_. freeList s) (\<lambda>_. fs) M
         \<and> views 0 (\<lambda>_ n. n = E) L M
         \<and> j \<le> 1024 \<and> headIndex s = j * ElemSizeInDSize2 E
         \<and> (\<forall>(x, c) \<in> blocks (\<lambda>_. fs) M. apart x (8 * ElemSizeInDSize2 E)
               (last (ptrs s) + j * (8 * ElemSizeInDSize2 E))
               ((1024 - j) * (8 * ElemSizeInDSize2 E))))"

definition fsb2_env :: "nat \<Rightarrow> nat \<Rightarrow> nat \<Rightarrow> 'a fsb2_scheme \<Rightarrow> bool" where
  "fsb2_env E p n s \<longleftrightarrow> n = E \<and>
     (freeList s = 0 \<longrightarrow> headIndex s = BlockSize2 E \<longrightarrow> malloc_ok p (8 * BlockSize2 E) s)"

text \<open>The client only sees allocations that return.\<close>

definition fsb2_al :: "nat \<Rightarrow> nat \<Rightarrow> nat \<Rightarrow> 'a fsb2_scheme \<Rightarrow> (nat \<times> 'a fsb2_scheme) option" where
  "fsb2_al E p n s =
     (case fsb2_allocate E p s of Some (Inr q, s') \<Rightarrow> Some (q, s') | _ \<Rightarrow> None)"

definition fsb2_fr :: "nat \<Rightarrow> nat \<Rightarrow> 'a fsb2_scheme \<Rightarrow> 'a fsb2_scheme option" where
  "fsb2_fr p n s = fsb2_deallocate p s"

lemma elem_size_roomy: "E \<le> 8 * ElemSizeInDSize2 E"
  by (simp add: ElemSizeInDSize2_def)

lemma elem_size_pos: "0 < E \<Longrightarrow> 8 \<le> 8 * ElemSizeInDSize2 E"
  by (simp add: ElemSizeInDSize2_def)

lemma roomy2: "roomy 0 (\<lambda>_ n. n = E) (\<lambda>_::unit. 8 * ElemSizeInDSize2 E)"
  by (simp add: roomy_def elem_size_roomy)

lemma fsb2_inv_init:
  assumes "0 < E" and "regions_ok (regions w)" and "malloc_ok p (8 * BlockSize2 E) w"
  shows "fsb2_inv E (fsb2_init E p w) Map.empty"
proof -
  have "regions_ok (regions (sys_take p (8 * BlockSize2 E) w))"
    using assms(2,3) by (rule regions_ok_take)
  then have "heap_inv (\<lambda>_::unit. 8 * ElemSizeInDSize2 E) (\<lambda>_. ptr_fmt 0)
      (cells (sys_take p (8 * BlockSize2 E) w)) (regions (sys_take p (8 * BlockSize2 E) w))
      (\<lambda>_. 0) (\<lambda>_. []) Map.empty"
    using heap_init [of _ _ "\<lambda>_. ptr_fmt 0"] by simp
  then show ?thesis
    using assms(1,3) unfolding fsb2_inv_def
    by (auto simp: fsb2_init_def Let_def sys_take_def malloc_ok_def in_blocks
        intro!: exI [of _ "[]"] exI [of _ Map.empty] exI [of _ 0])
qed

section \<open>Allocation\<close>

text \<open>Cutting the next element from the last block.\<close>

lemma fsb2_bump_ok:
  assumes H: "heap_inv (\<lambda>_::unit. w) (\<lambda>_. ptr_fmt 0) m rs (\<lambda>_. h) (\<lambda>_. fs) M"
    and b: "(b, 1024 * w) \<in> set rs" and j: "j < 1024" and w: "8 \<le> w"
    and room: "\<forall>(x, c) \<in> blocks (\<lambda>_. fs) M. apart x w (b + j * w) ((1024 - j) * w)"
  shows "heap_inv (\<lambda>_::unit. w) (\<lambda>_. ptr_fmt 0) m rs (\<lambda>_. h) (\<lambda>_. fs) (M(b + j * w \<mapsto> ()))"
    and "M (b + j * w) = None"
    and "\<forall>(x, c) \<in> blocks (\<lambda>_. fs) (M(b + j * w \<mapsto> ())).
           apart x w (b + Suc j * w) ((1024 - Suc j) * w)"
proof -
  let ?x = "b + j * w"
  have split: "(1024 - j) * w = w + (1024 - Suc j) * w"
    using j by (metis Suc_diff_Suc mult_Suc)
  have jw: "j * w + w \<le> 1024 * w" using step_le [OF j] .
  have pos: "0 < b" using regions_ok_pos [OF heap_regions [OF H] b] by simp
  have ap: "apart ?x w y w" if "(y, d) \<in> blocks (\<lambda>_. fs) M" for y d
    using room that split by (fastforce simp: apart_def)
  show "heap_inv (\<lambda>_::unit. w) (\<lambda>_. ptr_fmt 0) m rs (\<lambda>_. h) (\<lambda>_. fs) (M(?x \<mapsto> ()))"
    using b jw w pos ap by (intro heap_carve [OF H]) (auto simp: block_ok_def intro: insideI)
  show none: "M ?x = None"
    using ap [of ?x "()"] w by (cases "M ?x") (auto simp: in_blocks apart_def)
  have "apart y w (b + Suc j * w) ((1024 - Suc j) * w)" if "(y, d) \<in> blocks (\<lambda>_. fs) M" for y d
    using room that split by (fastforce simp: apart_def)
  moreover have "apart ?x w (b + Suc j * w) ((1024 - Suc j) * w)" by (simp add: apart_def)
  ultimately show "\<forall>(x, c) \<in> blocks (\<lambda>_. fs) (M(?x \<mapsto> ())).
      apart x w (b + Suc j * w) ((1024 - Suc j) * w)"
    by (auto simp: in_blocks split: if_splits)
qed

lemma card_dom_upd: "finite (dom L) \<Longrightarrow> L p = None \<Longrightarrow> card (dom (L(p \<mapsto> n))) = Suc (card (dom L))"
  by (simp add: domIff)

lemma card_dom_del: "finite (dom L) \<Longrightarrow> L p = Some n \<Longrightarrow> card (dom (L(p := None))) = card (dom L) - 1"
  by (simp add: domIff)

lemma fsb2_alloc_ok:
  assumes I: "fsb2_inv E s L" and e: "fsb2_env E p n s"
  shows "\<exists>q s'. fsb2_al E p n s = Some (q, s') \<and> fresh_block L q n \<and> fsb2_inv E s' (L(q \<mapsto> n))
           \<and> keeps L s s'"
proof -
  let ?w = "8 * ElemSizeInDSize2 E"
  obtain fs M j where fs: "heap_inv (\<lambda>_::unit. ?w) (\<lambda>_. ptr_fmt 0) (cells s) (regions s)
       (\<lambda>_. freeList s) (\<lambda>_. fs) M"
    and V: "views 0 (\<lambda>_ n. n = E) L M"
    and j: "j \<le> 1024" "headIndex s = j * ElemSizeInDSize2 E"
    and room: "\<forall>(x, c) \<in> blocks (\<lambda>_. fs) M. apart x ?w (last (ptrs s) + j * ?w) ((1024 - j) * ?w)"
    and g: "0 < E" "finite (dom L)" "card (dom L) = allocatedElementsAmount s"
      "ptrs s \<noteq> []" "distinct (ptrs s)"
      "\<forall>b \<in> set (ptrs s). (b, 8 * BlockSize2 E) \<in> set (regions s)"
    using I unfolding fsb2_inv_def by blast
  have n: "n = E" using e by (simp add: fsb2_env_def)
  have w: "8 \<le> ?w" using elem_size_pos [OF g(1)] .
  have bs: "8 * BlockSize2 E = 1024 * ?w" by (simp add: BlockSize2_def BlockElements2_def)
  show ?thesis
  proof (cases "freeList s = 0")
    case False
    then obtain x xs where xs: "fs = x # xs" using heap_empty_iff [OF fs] by (cases fs) auto
    obtain q where q: "freeList s = x" "cells s x = Some q" "inside x 8 (regions s)" "M x = None"
      "heap_inv (\<lambda>_::unit. ?w) (\<lambda>_. ptr_fmt 0) (cells s) (regions s) (\<lambda>_. q) (\<lambda>_. xs) (M(x \<mapsto> ()))"
      using heap_pop [OF fs xs] by auto
    let ?t = "s\<lparr>allocatedElementsAmount := allocatedElementsAmount s + 1, freeList := q\<rparr>"
    have "fsb2_al E p n s = Some (x, ?t)"
      using False q(1-3) by (simp add: fsb2_al_def fsb2_allocate_def load_def)
    moreover have Lx: "L x = None" using views_dom [OF V, of x] q(4) by simp
    have B: "blocks (\<lambda>_. xs) (M(x \<mapsto> ())) \<subseteq> blocks (\<lambda>_. fs) M"
      using xs by (auto simp: blocks_def split: if_splits)
    have "fsb2_inv E ?t (L(x \<mapsto> n))"
      unfolding fsb2_inv_def using g q(5) j views_upd [OF V, where c = "()" and n = n and x = "x"] n room B Lx
      by (auto simp: card_dom_upd domIff intro!: exI [of _ xs] exI [of _ "M(x \<mapsto> ())"] exI [of _ j])
    moreover have "fresh_block L x n" using view_fresh [OF q(5,4) V roomy2, of n] n by simp
    ultimately show ?thesis by auto
  next
    case True
    show ?thesis
    proof (cases "headIndex s = BlockSize2 E")
      case False
      have j': "j < 1024"
        using False j g(1) by (cases "j = 1024") (auto simp: BlockSize2_def BlockElements2_def)
      have b: "(last (ptrs s), 1024 * ?w) \<in> set (regions s)" using g(4,6) bs by simp
      let ?x = "last (ptrs s) + j * ?w"
      let ?t = "s\<lparr>allocatedElementsAmount := allocatedElementsAmount s + 1,
                  headIndex := headIndex s + ElemSizeInDSize2 E\<rparr>"
      note B = fsb2_bump_ok [OF fs b j' w room]
      have "fsb2_al E p n s = Some (?x, ?t)"
        using False True j by (simp add: fsb2_al_def fsb2_allocate_def)
      moreover have Lx: "L ?x = None" using views_dom [OF V, of ?x] B(2) by simp
      have "fsb2_inv E ?t (L(?x \<mapsto> n))"
        unfolding fsb2_inv_def using g B(1,3) j j' views_upd [OF V, where c = "()" and n = n and x = "?x"] n Lx
        by (auto simp: card_dom_upd domIff intro!: exI [of _ fs] exI [of _ "M(?x \<mapsto> ())"] exI [of _ "Suc j"])
      moreover have "fresh_block L ?x n" using view_fresh [OF B(1,2) V roomy2, of n] n by simp
      ultimately show ?thesis by auto
    next
      case Full: True
      have ok: "malloc_ok p (8 * BlockSize2 E) s" using e True Full by (simp add: fsb2_env_def)
      then have p: "0 < p" "0 < 8 * BlockSize2 E" by (auto simp: malloc_ok_def)
      let ?rs = "(p, 8 * BlockSize2 E) # regions s" and ?m = "wipe p (8 * BlockSize2 E) (cells s)"
      have T: "heap_inv (\<lambda>_::unit. ?w) (\<lambda>_. ptr_fmt 0) ?m ?rs (\<lambda>_. freeList s) (\<lambda>_. fs) M"
        using fs p malloc_ok_apart [OF ok] by (rule heap_take)
      have room': "\<forall>(x, c) \<in> blocks (\<lambda>_. fs) M. apart x ?w (p + 0 * ?w) ((1024 - 0) * ?w)"
        using heap_block_inside [OF fs] malloc_ok_inside [OF ok] bs
        by (fastforce simp: apart_sym [of p])
      have b: "(p, 1024 * ?w) \<in> set ?rs" using bs by simp
      note B = fsb2_bump_ok [OF T b _ w room', simplified]
      let ?t = "s\<lparr>allocatedElementsAmount := allocatedElementsAmount s + 1, regions := ?rs, cells := ?m,
                  ptrs := ptrs s @ [p], headIndex := ElemSizeInDSize2 E\<rparr>"
      have al: "fsb2_al E p n s = Some (p, ?t)"
        using Full True p by (simp add: fsb2_al_def fsb2_allocate_def sys_take_def Let_def)
      have Lx: "L p = None" using views_dom [OF V, of p] B(2) by simp
      have new: "p \<notin> set (ptrs s)"
        using g(6) malloc_ok_apart [OF ok] p by (fastforce simp: apart_def)
      have I': "fsb2_inv E ?t (L(p \<mapsto> n))"
        unfolding fsb2_inv_def using g B(1,3) views_upd [OF V, where c = "()" and n = n and x = "p"] n Lx new
        by (auto simp: card_dom_upd domIff intro!: exI [of _ fs] exI [of _ "M(p \<mapsto> ())"] exI [of _ 1])
      have F: "fresh_block L p n" using view_fresh [OF B(1,2) V roomy2, of n] n by simp
      have "keeps L s ?t"
        by (rule view_keeps_take [OF fs V roomy2 ok]) (simp_all add: apart_def)
      then show ?thesis using al I' F by blast
    qed
  qed
qed

section \<open>Deallocation\<close>

lemma fsb2_push_ok:
  assumes I: "fsb2_inv E s L" and L: "L x = Some n"
  shows "\<exists>s'. fsb2_fr x n s = Some s' \<and> fsb2_inv E s' (L(x := None)) \<and> keeps (L(x := None)) s s'"
proof -
  let ?w = "8 * ElemSizeInDSize2 E"
  obtain fs M j where fs: "heap_inv (\<lambda>_::unit. ?w) (\<lambda>_. ptr_fmt 0) (cells s) (regions s)
       (\<lambda>_. freeList s) (\<lambda>_. fs) M"
    and V: "views 0 (\<lambda>_ n. n = E) L M"
    and j: "j \<le> 1024" "headIndex s = j * ElemSizeInDSize2 E"
    and room: "\<forall>(x, c) \<in> blocks (\<lambda>_. fs) M. apart x ?w (last (ptrs s) + j * ?w) ((1024 - j) * ?w)"
    and g: "0 < E" "finite (dom L)" "card (dom L) = allocatedElementsAmount s"
      "ptrs s \<noteq> []" "distinct (ptrs s)"
      "\<forall>b \<in> set (ptrs s). (b, 8 * BlockSize2 E) \<in> set (regions s)"
    using I unfolding fsb2_inv_def by blast
  have Mx: "M x = Some ()" using viewsD [OF V L] by auto
  have x0: "0 < x" using heap_block_pos [OF fs, of x "()"] Mx by (simp add: in_blocks)
  have st: "inside x 8 (regions s)"
    using heap_live_inside [OF fs Mx, of x 8] elem_size_pos [OF g(1)] by simp
  let ?m = "poke x (freeList s) (cells s)" and ?a = "allocatedElementsAmount s - 1"
  let ?t = "s\<lparr>cells := ?m, freeList := x, allocatedElementsAmount := ?a\<rparr>"
  have a: "0 < allocatedElementsAmount s"
    using g(2,3) L by (metis card_gt_0_iff domI empty_iff)
  have V': "views 0 (\<lambda>_ n. n = E) (L(x := None)) (M(x := None))"
    using views_del [OF V, of x] by simp
  have H': "heap_inv (\<lambda>_::unit. ?w) (\<lambda>_. ptr_fmt 0) ?m (regions s) (\<lambda>_. x) (\<lambda>_. x # fs) (M(x := None))"
    using heap_push [OF fs Mx] by simp
  have B: "blocks (\<lambda>_. x # fs) (M(x := None)) = blocks (\<lambda>_. fs) M"
    using Mx by (auto simp: blocks_def split: if_splits)
  have C: "card (dom (L(x := None))) = ?a" using card_dom_del [OF g(2) L] g(3) by simp
  have K: "keeps (L(x := None)) s ?t"
    using view_keeps_push [OF fs V roomy2 Mx, of ?t] by simp
  show ?thesis
  proof (cases "?a = 0")
    case False
    then have "fsb2_fr x n s = Some ?t"
      using st x0 a by (simp add: fsb2_fr_def fsb2_deallocate_def store_def)
    moreover have "fsb2_inv E ?t (L(x := None))"
      unfolding fsb2_inv_def using g(1,2,4-6) C H' V' j room
      by (auto simp: B intro!: exI [of _ "x # fs"] exI [of _ "M(x := None)"] exI [of _ j])
    ultimately show ?thesis using K by blast
  next
    case True
    have "dom (L(x := None)) = {}" using C True g(2) by (simp add: domIff)
    then have E: "L(x := None) = Map.empty" by (simp only: dom_eq_empty_conv)
    have ok: "regions_ok (regions ?t)" using heap_regions [OF fs] by simp
    have ds: "distinct (tl (ptrs s))" using g(5) by (rule distinct_tl)
    have rs: "\<forall>b \<in> set (tl (ptrs s)). (b, 8 * BlockSize2 E) \<in> set (regions ?t)"
      using g(4,6) by (auto dest: list.set_sel(2))
    let ?rs = "filter (\<lambda>r. fst r \<notin> set (tl (ptrs s))) (regions s)"
    obtain m where m: "delete_all (tl (ptrs s)) ?t = Some (?t\<lparr>regions := ?rs, cells := m\<rparr>)"
      using delete_all_ok [OF ok ds, of "\<lambda>_. 8 * BlockSize2 E"] rs by auto
    let ?u = "?t\<lparr>regions := ?rs, cells := m, ptrs := take 1 (ptrs s), headIndex := 0, freeList := 0\<rparr>"
    have "fsb2_fr x n s = Some ?u"
      using st x0 a True m by (simp add: fsb2_fr_def fsb2_deallocate_def store_def fsb2_freeAll_def)
    moreover have "fsb2_inv E ?u (L(x := None))"
    proof -
      obtain b bs where b: "ptrs s = b # bs" using g(4) by (cases "ptrs s") auto
      have "(b, 8 * BlockSize2 E) \<in> set ?rs" using g(5,6) b by auto
      moreover have "heap_inv (\<lambda>_::unit. ?w) (\<lambda>_. ptr_fmt 0) m ?rs (\<lambda>_. 0) (\<lambda>_. []) Map.empty"
        using heap_init [OF regions_ok_filter [OF heap_regions [OF fs]], of _ "\<lambda>_. ptr_fmt 0"] by simp
      ultimately show ?thesis
        unfolding fsb2_inv_def E using g(1) True b
        by (auto simp: in_blocks intro!: exI [of _ "[]"] exI [of _ Map.empty] exI [of _ 0])
    qed
    moreover have "keeps (L(x := None)) s ?u" unfolding E by (simp add: keeps_def)
    ultimately show ?thesis by blast
  qed
qed

lemma fsb2_write_ok:
  assumes I: "fsb2_inv E s L" and L: "L p = Some n" "p \<le> a" "a + 8 \<le> p + n"
  shows "\<exists>s'. store a v s = Some s' \<and> fsb2_inv E s' L"
proof -
  let ?w = "8 * ElemSizeInDSize2 E"
  obtain fs M j where fs: "heap_inv (\<lambda>_::unit. ?w) (\<lambda>_. ptr_fmt 0) (cells s) (regions s)
       (\<lambda>_. freeList s) (\<lambda>_. fs) M"
    and V: "views 0 (\<lambda>_ n. n = E) L M"
    and j: "j \<le> 1024" "headIndex s = j * ElemSizeInDSize2 E"
    and room: "\<forall>(x, c) \<in> blocks (\<lambda>_. fs) M. apart x ?w (last (ptrs s) + j * ?w) ((1024 - j) * ?w)"
    and g: "0 < E" "finite (dom L)" "card (dom L) = allocatedElementsAmount s"
      "ptrs s \<noteq> []" "distinct (ptrs s)"
      "\<forall>b \<in> set (ptrs s). (b, 8 * BlockSize2 E) \<in> set (regions s)"
    using I unfolding fsb2_inv_def by blast
  note W = view_write [OF fs V roomy2 L]
  have "fsb2_inv E (s\<lparr>cells := poke a v (cells s)\<rparr>) L"
    unfolding fsb2_inv_def using g W j room V
    by (auto intro!: exI [of _ fs] exI [of _ M] exI [of _ j])
  with W show ?thesis by (simp add: store_def)
qed

interpretation fsb2: client_heap "fsb2_inv E" "fsb2_env E" "fsb2_al E" fsb2_fr
proof unfold_locales
  fix s :: "'a fsb2_scheme" and L e n
  assume "fsb2_inv E s L" "fsb2_env E e n s"
  then show "\<exists>p s'. fsb2_al E e n s = Some (p, s') \<and> fresh_block L p n \<and> fsb2_inv E s' (L(p \<mapsto> n))
      \<and> keeps L s s'" by (rule fsb2_alloc_ok)
next
  fix s :: "'a fsb2_scheme" and L p n
  assume "fsb2_inv E s L" "L p = Some n"
  then show "\<exists>s'. fsb2_fr p n s = Some s' \<and> fsb2_inv E s' (L(p := None)) \<and> keeps (L(p := None)) s s'"
    by (rule fsb2_push_ok)
next
  fix s :: "'a fsb2_scheme" and L p n a v
  assume "fsb2_inv E s L" "L p = Some n" "p \<le> a" "a + 8 \<le> p + n"
  then show "\<exists>s'. store a v s = Some s' \<and> fsb2_inv E s' L" by (rule fsb2_write_ok)
next
  fix s :: "'a fsb2_scheme" and L
  assume "fsb2_inv E s L"
  then show "disjoint_blocks L"
    unfolding fsb2_inv_def using view_disjoint [OF _ _ roomy2] by blast
qed

section \<open>Sweeping\<close>

text \<open>
  \<open>cleanSweep\<close> marks every element that is not in use with \<open>unusedValue\<close> (first the free
  list, then the rest of the last block), deletes the blocks all of whose elements carry the
  mark, pulls \<open>headIndex\<close> back over marked elements of the last block and returns the other
  marked elements through \<open>deallocate\<close>. The list walk ends only if the list does, hence
  the partial function; the other loops run over index ranges.
\<close>

partial_function (option) sweep_free_list :: "nat \<Rightarrow> 'a fsb2_scheme \<Rightarrow> 'a fsb2_scheme option" where
  "sweep_free_list u s =
     (if freeList s = 0 then Some s
      else do {
        let current = freeList s;
        nxt \<leftarrow> load current s;
        s \<leftarrow> store current u (s\<lparr>freeList := nxt\<rparr>);
        sweep_free_list u s
      })"

function sweep_rest :: "nat \<Rightarrow> nat \<Rightarrow> nat \<Rightarrow> nat \<Rightarrow> 'a world_scheme \<Rightarrow> 'a world_scheme option" where
  "sweep_rest E block u i s =
     (if i < BlockSize2 E \<and> 0 < ElemSizeInDSize2 E
      then do { s \<leftarrow> store (block + 8 * i) u s; sweep_rest E block u (i + ElemSizeInDSize2 E) s }
      else Some s)"
  by pat_completeness auto
termination by (relation "measure (\<lambda>(E, _, _, i, _). BlockSize2 E - i)") auto

function count_marked :: "nat \<Rightarrow> nat \<Rightarrow> nat \<Rightarrow> nat \<Rightarrow> nat \<Rightarrow> 'a world_scheme \<Rightarrow> nat option" where
  "count_marked E block u i freeAmount s =
     (if i < BlockSize2 E \<and> 0 < ElemSizeInDSize2 E
      then do {
        v \<leftarrow> load (block + 8 * i) s;
        count_marked E block u (i + ElemSizeInDSize2 E) (if v = u then freeAmount + 1 else freeAmount) s
      }
      else Some freeAmount)"
  by pat_completeness auto
termination by (relation "measure (\<lambda>(E, _, _, i, _). BlockSize2 E - i)") auto

text \<open>A wholly marked block is deleted and the last block takes its place in the vector.\<close>

function drop_marked :: "nat \<Rightarrow> nat \<Rightarrow> nat \<Rightarrow> 'a fsb2_scheme \<Rightarrow> 'a fsb2_scheme option" where
  "drop_marked E u blockInd s =
     (if blockInd < length (ptrs s) then do {
        let block = ptrs s ! blockInd;
        freeAmount \<leftarrow> count_marked E block u 0 0 s;
        if freeAmount = BlockElements2 then do {
          s' \<leftarrow> c_free block s;
          drop_marked E u blockInd (s'\<lparr>ptrs := butlast ((ptrs s)[blockInd := last (ptrs s)])\<rparr>)
        }
        else drop_marked E u (blockInd + 1) s
      }
      else Some s)"
  by pat_completeness auto
termination by (relation "measure (\<lambda>(E, u, i, s). length (ptrs s) - i)") auto

function find_head :: "nat \<Rightarrow> nat \<Rightarrow> nat \<Rightarrow> nat \<Rightarrow> 'a world_scheme \<Rightarrow> nat option" where
  "find_head E lastBlock u h s =
     (if 0 < h \<and> 0 < ElemSizeInDSize2 E then do {
        v \<leftarrow> load (lastBlock + 8 * (h - ElemSizeInDSize2 E)) s;
        if v \<noteq> u then Some h else find_head E lastBlock u (h - ElemSizeInDSize2 E) s
      }
      else Some h)"
  by pat_completeness auto
termination by (relation "measure (\<lambda>(E, _, _, h, _). h)") auto

text \<open>The inner loop of the last phase; \<open>stop\<close> is the bound set for the last block.\<close>

function free_marked_in :: "nat \<Rightarrow> nat \<Rightarrow> nat \<Rightarrow> bool \<Rightarrow> nat \<Rightarrow> 'a fsb2_scheme \<Rightarrow> 'a fsb2_scheme option" where
  "free_marked_in E block u isLast i s =
     (if i < BlockSize2 E \<and> 0 < ElemSizeInDSize2 E \<and> \<not> (isLast \<and> i = headIndex s)
      then do {
        v \<leftarrow> load (block + 8 * i) s;
        s \<leftarrow> (if v = u then fsb2_deallocate (block + 8 * i) s else Some s);
        free_marked_in E block u isLast (i + ElemSizeInDSize2 E) s
      }
      else Some s)"
  by pat_completeness auto
termination by (relation "measure (\<lambda>(E, _, _, _, i, _). BlockSize2 E - i)") auto

function free_marked :: "nat \<Rightarrow> nat \<Rightarrow> nat \<Rightarrow> nat \<Rightarrow> 'a fsb2_scheme \<Rightarrow> 'a fsb2_scheme option" where
  "free_marked E u lastBlockIndex blockInd s =
     (if blockInd \<le> lastBlockIndex then
        (if length (ptrs s) \<le> blockInd then None
         else do {
           s \<leftarrow> free_marked_in E (ptrs s ! blockInd) u (blockInd = lastBlockIndex) 0 s;
           free_marked E u lastBlockIndex (blockInd + 1) s
         })
      else Some s)"
  by pat_completeness auto
termination by (relation "measure (\<lambda>(E, u, n, i, s). Suc n - i)") auto

definition cleanSweep :: "nat \<Rightarrow> nat \<Rightarrow> 'a fsb2_scheme \<Rightarrow> 'a fsb2_scheme option" where
  "cleanSweep E u s = do {
     s \<leftarrow> sweep_free_list u s;
     s \<leftarrow> sweep_rest E (last (ptrs s)) u (headIndex s) s;
     s \<leftarrow> drop_marked E u 1 s;
     h \<leftarrow> find_head E (last (ptrs s)) u (BlockSize2 E) s;
     free_marked E u (length (ptrs s) - 1) 0 (s\<lparr>headIndex := h\<rparr>)
   }"

text \<open>The destructor of \<open>Blocks\<close>.\<close>

definition fsb2_destroy :: "'a fsb2_scheme \<Rightarrow> 'a fsb2_scheme option" where
  "fsb2_destroy s = delete_all (ptrs s) s"

text \<open>\<open>FSBAllocator2<Ty>\<close>, with the assertion on \<open>count\<close> as a fault.\<close>

definition FSBAllocator2_allocate ::
  "nat \<Rightarrow> nat \<Rightarrow> nat \<Rightarrow> 'a fsb2_scheme \<Rightarrow> ((exn + nat) \<times> 'a fsb2_scheme) option" where
  "FSBAllocator2_allocate E count p s = (if count = 1 then fsb2_allocate E p s else None)"

definition FSBAllocator2_deallocate :: "nat \<Rightarrow> nat \<Rightarrow> 'a fsb2_scheme \<Rightarrow> 'a fsb2_scheme option" where
  "FSBAllocator2_deallocate ptr count s = fsb2_deallocate ptr s"

definition FSBAllocator2_max_size :: "nat \<Rightarrow> nat" where
  "FSBAllocator2_max_size E = max_u64 div E"

declare sweep_rest.simps [simp del] count_marked.simps [simp del] drop_marked.simps [simp del]
  find_head.simps [simp del] free_marked_in.simps [simp del] free_marked.simps [simp del]

text \<open>The first phase ends, empties the free list and marks exactly its elements.\<close>

lemma sweep_free_list_step:
  assumes "chain (ptr_fmt 0) (cells s) (freeList s) xs" and "distinct xs"
    and "\<And>x. x \<in> set xs \<Longrightarrow> inside x 8 (regions s)"
    and "\<And>x y. x \<in> set xs \<Longrightarrow> y \<in> set xs \<Longrightarrow> x \<noteq> y \<Longrightarrow> apart x 8 y 8"
  shows "\<exists>m. sweep_free_list u s = Some (s\<lparr>freeList := 0, cells := m\<rparr>)
    \<and> (\<forall>x \<in> set xs. m x = Some u) \<and> (\<forall>a. (\<forall>x \<in> set xs. apart x 8 a 8) \<longrightarrow> m a = cells s a)"
  using assms
proof (induction xs arbitrary: s)
  case Nil
  then show ?case
    by (intro exI [of _ "cells s"]) (subst sweep_free_list.simps, simp)
next
  case (Cons x xs)
  obtain q where q: "freeList s = x" "x \<noteq> 0" "cells s x = Some q" "chain (ptr_fmt 0) (cells s) q xs"
    using Cons.prems(1) by auto
  let ?t = "s\<lparr>freeList := q, cells := poke x u (cells s)\<rparr>"
  have x: "x \<notin> set xs" "inside x 8 (regions s)" using Cons.prems(2,3) by auto
  have ap: "apart x 8 y 8" if "y \<in> set xs" for y
    using that x(1) Cons.prems(4) [of x y] by auto
  have "chain (ptr_fmt 0) (cells ?t) (freeList ?t) xs"
    using q(4) ap by (subst chain_cong [where m' = "cells s"]) (auto simp: apart_def)
  then obtain m where m: "sweep_free_list u ?t = Some (?t\<lparr>freeList := 0, cells := m\<rparr>)"
    "\<forall>y \<in> set xs. m y = Some u"
    "\<forall>a. (\<forall>y \<in> set xs. apart y 8 a 8) \<longrightarrow> m a = cells ?t a"
    using Cons.IH [of ?t] Cons.prems by auto
  have "m x = cells ?t x" using m(3) ap by (auto simp: apart_sym [of _ _ x])
  then have mx: "m x = Some u" by simp
  have "sweep_free_list u s = sweep_free_list u ?t"
    using q(1-3) x(2) by (subst sweep_free_list.simps) (simp add: load_def store_def)
  moreover have "m a = cells s a" if "\<forall>y \<in> set (x # xs). apart y 8 a 8" for a
  proof -
    have "m a = cells ?t a" using that m(3) by simp
    also have "\<dots> = cells s a" using that by (simp add: apart_def)
    finally show ?thesis .
  qed
  ultimately show ?case using m(1,2) mx by (intro exI [of _ m]) auto
qed

section \<open>Properties\<close>



text \<open>
  Freeing the last element in use gives every block but the first back to the system and
  leaves the allocator as it was created: no free list, the first block unused.
\<close>

lemma fsb2_last_free_resets:
  assumes "fsb2_inv E s L" and "L = [x \<mapsto> n]"
  shows "\<exists>s'. fsb2_deallocate x s = Some s' \<and> ptrs s' = take 1 (ptrs s) \<and> headIndex s' = 0
    \<and> freeList s' = 0 \<and> allocatedElementsAmount s' = 0
    \<and> regions s' = filter (\<lambda>r. fst r \<notin> set (tl (ptrs s))) (regions s)"
proof -
  obtain fs M where H: "heap_inv (\<lambda>_::unit. 8 * ElemSizeInDSize2 E) (\<lambda>_. ptr_fmt 0) (cells s)
      (regions s) (\<lambda>_. freeList s) (\<lambda>_. fs) M" and V: "views 0 (\<lambda>_ n. n = E) L M"
    and g: "0 < E" "card (dom L) = allocatedElementsAmount s" "distinct (ptrs s)"
      "\<forall>b \<in> set (ptrs s). (b, 8 * BlockSize2 E) \<in> set (regions s)" "ptrs s \<noteq> []"
    using assms(1) unfolding fsb2_inv_def by blast
  have L: "L x = Some n" "allocatedElementsAmount s = 1" using assms(2) g(2) by simp_all
  have Mx: "M x = Some ()" using viewsD [OF V L(1)] by auto
  have x: "0 < x" "inside x 8 (regions s)"
    using heap_block_pos [OF H, of x "()"] heap_live_inside [OF H Mx, of x 8] elem_size_pos [OF g(1)] Mx
    by (simp_all add: in_blocks)
  let ?t = "s\<lparr>cells := poke x (freeList s) (cells s), freeList := x, allocatedElementsAmount := 0\<rparr>"
  have "\<forall>b \<in> set (tl (ptrs s)). (b, 8 * BlockSize2 E) \<in> set (regions ?t)"
    using g(4,5) by (auto dest: list.set_sel(2))
  then obtain m where "delete_all (tl (ptrs s)) ?t = Some (?t\<lparr>regions :=
      filter (\<lambda>r. fst r \<notin> set (tl (ptrs s))) (regions s), cells := m\<rparr>)"
    using delete_all_ok [of ?t "tl (ptrs s)" "\<lambda>_. 8 * BlockSize2 E"] heap_regions [OF H] g(3)
    by (auto simp: distinct_tl)
  then show ?thesis
    using x L(2) by (simp add: fsb2_deallocate_def store_def fsb2_freeAll_def)
qed

lemma fsb2_last_free_resets_witness:
  "\<exists>s'. fsb2_deallocate 4096 (fsb2_init 16 4096 \<lparr>cells = \<lambda>_. None, regions = []\<rparr>
       \<lparr>headIndex := 2, allocatedElementsAmount := 1\<rparr>) = Some s' \<and> headIndex s' = 0 \<and> freeList s' = 0"
proof -
  let ?w = "\<lparr>cells = \<lambda>_. None, regions = []\<rparr>" and ?s = "fsb2_init 16 4096 \<lparr>cells = \<lambda>_. None, regions = []\<rparr>"
  have i: "fsb2_inv 16 ?s Map.empty"
    by (rule fsb2_inv_init) (simp_all add: malloc_ok_def BlockSize2_def BlockElements2_def ElemSizeInDSize2_def)
  have "fsb2_env 16 0 16 ?s"
    by (simp add: fsb2_env_def fsb2_init_def Let_def BlockSize2_def BlockElements2_def ElemSizeInDSize2_def)
  moreover have "fsb2_al 16 0 16 ?s = Some (4096, ?s\<lparr>headIndex := 2, allocatedElementsAmount := 1\<rparr>)"
    by (simp add: fsb2_al_def fsb2_allocate_def fsb2_init_def BlockSize2_def BlockElements2_def
        ElemSizeInDSize2_def sys_take_def Let_def)
  ultimately have "fsb2_inv 16 (?s\<lparr>headIndex := 2, allocatedElementsAmount := 1\<rparr>) [4096 \<mapsto> 16]"
    using fsb2_alloc_ok [OF i, of 0 16] by auto
  from fsb2_last_free_resets [OF this refl] show ?thesis by auto
qed

text \<open>
  The first phase of \<open>cleanSweep\<close> ends and empties the free list; every element that was
  on it carries the mark, and no element in use is touched.
\<close>

lemma fsb2_sweep_marks_free:
  assumes "fsb2_inv E s L"
  shows "\<exists>xs m. chain (ptr_fmt 0) (cells s) (freeList s) xs
    \<and> sweep_free_list u s = Some (s\<lparr>freeList := 0, cells := m\<rparr>)
    \<and> (\<forall>x \<in> set xs. m x = Some u) \<and> keeps L s (s\<lparr>freeList := 0, cells := m\<rparr>)"
proof -
  obtain fs M where H: "heap_inv (\<lambda>_::unit. 8 * ElemSizeInDSize2 E) (\<lambda>_. ptr_fmt 0) (cells s)
      (regions s) (\<lambda>_. freeList s) (\<lambda>_. fs) M" and V: "views 0 (\<lambda>_ n. n = E) L M" and E: "0 < E"
    using assms unfolding fsb2_inv_def by blast
  have w: "8 \<le> 8 * ElemSizeInDSize2 E" using elem_size_pos [OF E] .
  have c: "chain (ptr_fmt 0) (cells s) (freeList s) fs" using heap_chain [OF H] .
  obtain m where m: "sweep_free_list u s = Some (s\<lparr>freeList := 0, cells := m\<rparr>)"
    "\<forall>x \<in> set fs. m x = Some u" "\<forall>a. (\<forall>x \<in> set fs. apart x 8 a 8) \<longrightarrow> m a = cells s a"
  proof -
    have "\<exists>m. sweep_free_list u s = Some (s\<lparr>freeList := 0, cells := m\<rparr>)
        \<and> (\<forall>x \<in> set fs. m x = Some u) \<and> (\<forall>a. (\<forall>x \<in> set fs. apart x 8 a 8) \<longrightarrow> m a = cells s a)"
    proof (rule sweep_free_list_step [OF c heap_distinct [OF H]])
      show "inside x 8 (regions s)" if "x \<in> set fs" for x
        using heap_link_inside [OF H, of x "()"] that by (simp add: in_blocks)
      show "apart x 8 y 8" if "x \<in> set fs" "y \<in> set fs" "x \<noteq> y" for x y
        using heap_apart [OF H, of x "()" y "()"] that w by (auto simp: in_blocks apart_def)
    qed
    then show ?thesis using that by blast
  qed
  have "keeps L s (s\<lparr>freeList := 0, cells := m\<rparr>)"
  proof (rule view_keeps [OF H V roomy2])
    fix x c a assume x: "M x = Some c" "x + 0 \<le> a" "a + 8 \<le> x + 8 * ElemSizeInDSize2 E"
    have "apart y 8 a 8" if "y \<in> set fs" for y
      using heap_apart [OF H, of y "()" x "()"] heap_free_not_live [OF H that] that x w
      by (cases "y = x") (auto simp: in_blocks apart_def)
    then show "cells (s\<lparr>freeList := 0, cells := m\<rparr>) a = cells s a" using m(3) by simp
  next
    fix x c assume "M x = Some c"
    then show "inside x (8 * ElemSizeInDSize2 E) (regions (s\<lparr>freeList := 0, cells := m\<rparr>))"
      using heap_block_inside [OF H, of x c] by (simp add: in_blocks)
  qed
  with c m show ?thesis by blast
qed

lemma fsb2_sweep_marks_free_witness:
  "\<exists>s'. sweep_free_list 99 (fsb2_init 16 4096 \<lparr>cells = \<lambda>_. None, regions = []\<rparr>) = Some s' \<and> freeList s' = 0"
proof -
  have "fsb2_inv 16 (fsb2_init 16 4096 \<lparr>cells = \<lambda>_. None, regions = []\<rparr>) Map.empty"
    by (rule fsb2_inv_init) (simp_all add: malloc_ok_def BlockSize2_def BlockElements2_def ElemSizeInDSize2_def)
  from fsb2_sweep_marks_free [OF this, of 99] show ?thesis by auto
qed

text \<open>
  \<open>FSBAllocator2_ElemAllocator::allocate\<close> counts the element before it asks for memory:
  when the request fails, the count exceeds the number of elements in use by one, and freeing
  any of them, the last one included, no longer gives the blocks back.
\<close>

lemma fsb2_alloc_failure_miscounts:
  assumes "fsb2_inv E s L" and "freeList s = 0" and "headIndex s = BlockSize2 E"
  shows "\<exists>s'. fsb2_allocate E 0 s = Some (Inl Bad_alloc, s')
    \<and> allocatedElementsAmount s' = card (dom L) + 1
    \<and> (\<forall>x n. L x = Some n \<longrightarrow> (\<exists>s''. fsb2_deallocate x s' = Some s'' \<and> ptrs s'' = ptrs s
         \<and> allocatedElementsAmount s'' = card (dom (L(x := None))) + 1))"
proof -
  obtain fs M where H: "heap_inv (\<lambda>_::unit. 8 * ElemSizeInDSize2 E) (\<lambda>_. ptr_fmt 0) (cells s)
      (regions s) (\<lambda>_. freeList s) (\<lambda>_. fs) M" and V: "views 0 (\<lambda>_ n. n = E) L M"
    and g: "0 < E" "card (dom L) = allocatedElementsAmount s" "finite (dom L)"
    using assms(1) unfolding fsb2_inv_def by blast
  let ?t = "s\<lparr>allocatedElementsAmount := allocatedElementsAmount s + 1\<rparr>"
  have "fsb2_allocate E 0 s = Some (Inl Bad_alloc, ?t)"
    using assms(2,3) by (simp add: fsb2_allocate_def Let_def)
  moreover have "\<exists>s''. fsb2_deallocate x ?t = Some s'' \<and> ptrs s'' = ptrs s
      \<and> allocatedElementsAmount s'' = card (dom (L(x := None))) + 1" if L: "L x = Some n" for x n
  proof -
    have Mx: "M x = Some ()" using viewsD [OF V L] by auto
    have x: "0 < x" "inside x 8 (regions s)"
      using heap_block_pos [OF H, of x "()"] heap_live_inside [OF H Mx, of x 8] elem_size_pos [OF g(1)] Mx
      by (simp_all add: in_blocks)
    have c: "0 < card (dom L)" using L g(3) by (metis card_gt_0_iff domI empty_iff)
    then have "card (dom (L(x := None))) + 1 = allocatedElementsAmount s"
      using card_dom_del [OF g(3) L] g(2) by simp
    then show ?thesis using x c g(2) assms(2) by (simp add: fsb2_deallocate_def store_def Let_def)
  qed
  ultimately show ?thesis using g(2) by auto
qed

lemma fsb2_alloc_failure_miscounts_witness:
  "\<exists>s'. fsb2_allocate 16 0 (fsb2_init 16 4096 \<lparr>cells = \<lambda>_. None, regions = []\<rparr>\<lparr>headIndex := 2048\<rparr>)
      = Some (Inl Bad_alloc, s') \<and> allocatedElementsAmount s' = 1"
proof -
  let ?s = "fsb2_init 16 4096 \<lparr>cells = \<lambda>_. None, regions = []\<rparr>"
  have "fsb2_inv 16 ?s Map.empty"
    by (rule fsb2_inv_init) (simp_all add: malloc_ok_def BlockSize2_def BlockElements2_def ElemSizeInDSize2_def)
  then have "heap_inv (\<lambda>_::unit. 16) (\<lambda>_. ptr_fmt 0) (cells ?s) (regions ?s) (\<lambda>_. 0) (\<lambda>_. []) Map.empty"
    using heap_init [of "regions ?s" _ "\<lambda>_. ptr_fmt 0"] by (auto simp: fsb2_inv_def heap_inv_def)
  then have i: "fsb2_inv 16 (?s\<lparr>headIndex := 2048\<rparr>) Map.empty"
    unfolding fsb2_inv_def
    by (auto simp: ElemSizeInDSize2_def in_blocks fsb2_init_def Let_def sys_take_def
        intro!: exI [of _ "[]"] exI [of _ Map.empty] exI [of _ 1024])
  have "freeList (?s\<lparr>headIndex := 2048\<rparr>) = 0" "headIndex (?s\<lparr>headIndex := 2048\<rparr>) = BlockSize2 16"
    by (simp_all add: fsb2_init_def Let_def BlockSize2_def BlockElements2_def ElemSizeInDSize2_def)
  from fsb2_alloc_failure_miscounts [OF i this] show ?thesis by auto
qed

end
