(* ===== verification/BitIndex.thy ===== *)
theory BitIndex
  imports Prelude "HOL-Library.Word"
begin

text \<open>
  \<open>fc_malloc/bit_index.hpp\<close>: a bit set with a tree of summary words, so that the first set bit
  is found by one count-leading-zeros per level. \<open>Bit1\<close> and \<open>Bits64\<close> are the
  specialisations for sizes 1 and 64, \<open>Index n base subs\<close> the general template of size
  \<open>n\<close>. Position 0 is the most significant bit of a word. A failing assertion, an access
  past the array of subindexes and a shift by a negative amount are the value \<open>None\<close>.
\<close>

datatype bix = Bit1 "64 word" | Bits64 "64 word" | Index nat "64 word" "bix list"

section \<open>Sizes 64 and 1\<close>

definition LZERO :: "64 word \<Rightarrow> nat" where
  "LZERO w = length (takeWhile (\<lambda>i. \<not> bit w (63 - i)) [0..<64])"

definition first_set_bit64 :: "64 word \<Rightarrow> nat" where
  "first_set_bit64 w = (if w = 0 then 64 else LZERO w)"

definition get64 :: "64 word \<Rightarrow> nat \<Rightarrow> bool option" where
  "get64 w pos = (if pos < 64 then Some (w AND push_bit (63 - pos) 1 \<noteq> 0) else None)"

definition set64 :: "64 word \<Rightarrow> nat \<Rightarrow> 64 word option" where
  "set64 w pos = (if pos < 64 then Some (w OR push_bit (63 - pos) 1) else None)"

text \<open>The result says whether no bit is left.\<close>

definition clear64 :: "64 word \<Rightarrow> nat \<Rightarrow> (bool \<times> 64 word) option" where
  "clear64 w pos =
     (if pos < 64 then let w = w AND NOT (push_bit (63 - pos) 1) in Some (w = 0, w) else None)"

definition count64 :: "64 word \<Rightarrow> nat" where
  "count64 w = length (filter (bit w) [0..<64])"

definition get1 :: "64 word \<Rightarrow> bool" where
  "get1 w \<longleftrightarrow> w \<noteq> 0"

definition set1 :: "nat \<Rightarrow> 64 word option" where
  "set1 pos = (if pos = 0 then Some 1 else None)"

definition clear1 :: "nat \<Rightarrow> (bool \<times> 64 word) option" where
  "clear1 pos = (if pos = 0 then Some (True, 0) else None)"

definition first_set_bit1 :: "64 word \<Rightarrow> nat" where
  "first_set_bit1 w = (if w = 0 then 1 else 0)"

section \<open>The general template\<close>

definition sub_index_size :: "nat \<Rightarrow> nat" where
  "sub_index_size n = (n + 63) div 64"

definition sub_index_count :: "nat \<Rightarrow> nat" where
  "sub_index_count n = n div sub_index_size n"

fun index_size :: "bix \<Rightarrow> nat" where
  "index_size (Bit1 w) = 1"
| "index_size (Bits64 w) = 64"
| "index_size (Index n b ts) = n"

lemma nth_size: "i < length ts \<Longrightarrow> size (ts ! i) < Suc (size_list size ts)"
  using size_list_estimation' [of "ts ! i" ts "size (ts ! i)" size] by (simp add: le_imp_less_Suc)

function first_set_bit :: "bix \<Rightarrow> nat option" where
  "first_set_bit (Bit1 w) = Some (first_set_bit1 w)"
| "first_set_bit (Bits64 w) = Some (first_set_bit64 w)"
| "first_set_bit (Index n b ts) =
     (let base = first_set_bit64 b
      in if sub_index_count n \<le> base then Some n
         else if length ts \<le> base then None
         else do {
           subidx \<leftarrow> first_set_bit (ts ! base);
           Some (base * sub_index_size n + subidx)
         })"
  by pat_completeness auto
termination by (relation "measure size") (auto simp: nth_size)

function bget :: "bix \<Rightarrow> nat \<Rightarrow> bool option" where
  "bget (Bit1 w) pos = Some (get1 w)"
| "bget (Bits64 w) pos = get64 w pos"
| "bget (Index n b ts) pos =
     (let sub_idx = pos div sub_index_size n; sub_idx_bit = pos mod sub_index_size n
      in if n \<le> pos \<or> length ts \<le> sub_idx then None else bget (ts ! sub_idx) sub_idx_bit)"
  by pat_completeness auto
termination by (relation "measure (size \<circ> fst)") (auto simp: nth_size)

function bset :: "bix \<Rightarrow> nat \<Rightarrow> bix option" where
  "bset (Bit1 w) pos = map_option Bit1 (set1 pos)"
| "bset (Bits64 w) pos = map_option Bits64 (set64 w pos)"
| "bset (Index n b ts) pos =
     (let sub_idx = pos div sub_index_size n; sub_idx_bit = pos mod sub_index_size n
      in if n \<le> pos \<or> length ts \<le> sub_idx then None
         else do {
           b \<leftarrow> set64 b sub_idx;
           t \<leftarrow> bset (ts ! sub_idx) sub_idx_bit;
           Some (Index n b (ts[sub_idx := t]))
         })"
  by pat_completeness auto
termination by (relation "measure (size \<circ> fst)") (auto simp: nth_size)

function bclear :: "bix \<Rightarrow> nat \<Rightarrow> (bool \<times> bix) option" where
  "bclear (Bit1 w) pos = map_option (map_prod id Bit1) (clear1 pos)"
| "bclear (Bits64 w) pos = map_option (map_prod id Bits64) (clear64 w pos)"
| "bclear (Index n b ts) pos =
     (let sub_idx = pos div sub_index_size n; sub_idx_bit = pos mod sub_index_size n
      in if n \<le> pos \<or> length ts \<le> sub_idx then None
         else do {
           (z, t) \<leftarrow> bclear (ts ! sub_idx) sub_idx_bit;
           if z then do {
             (e, b) \<leftarrow> clear64 b sub_idx;
             Some (e, Index n b (ts[sub_idx := t]))
           }
           else Some (False, Index n b (ts[sub_idx := t]))
         })"
  by pat_completeness auto
termination by (relation "measure (size \<circ> fst)") (auto simp: nth_size)

fun set_all :: "bix \<Rightarrow> bix" where
  "set_all (Bit1 w) = Bit1 1"
| "set_all (Bits64 w) = Bits64 (- 1)"
| "set_all (Index n b ts) = Index n (- 1) (map set_all ts)"

fun clear_every :: "bix \<Rightarrow> bix" where
  "clear_every (Bit1 w) = Bit1 0"
| "clear_every (Bits64 w) = Bits64 0"
| "clear_every (Index n b ts) = Index n 0 (map clear_every ts)"

text \<open>\<open>count\<close> of the general template sums up and then returns 0.\<close>

fun bcount :: "bix \<Rightarrow> nat option" where
  "bcount (Bit1 w) = None"
| "bcount (Bits64 w) = Some (count64 w)"
| "bcount (Index n b ts) = (if list_all (\<lambda>t. bcount t \<noteq> None) ts then Some 0 else None)"

section \<open>What the set contains\<close>

definition elems :: "bix \<Rightarrow> nat set" where
  "elems t = {i. i < index_size t \<and> bget t i = Some True}"

text \<open>
  Well-formed trees: the size is 64 times that of the subindexes, and a summary bit is set
  exactly when its subindex holds some bit.
\<close>

fun bix_ok :: "bix \<Rightarrow> bool" where
  "bix_ok (Bit1 w) \<longleftrightarrow> True"
| "bix_ok (Bits64 w) \<longleftrightarrow> True"
| "bix_ok (Index n b ts) \<longleftrightarrow> 64 \<le> n \<and> 64 dvd n \<and> length ts = 64
     \<and> (\<forall>t \<in> set ts. bix_ok t \<and> index_size t = sub_index_size n)
     \<and> (\<forall>i < 64. bit b (63 - i) \<longleftrightarrow> elems (ts ! i) \<noteq> {})"

section \<open>Words\<close>

lemma get64_bit: "pos < 64 \<Longrightarrow> get64 w pos = Some (bit w (63 - pos))"
  by (simp add: get64_def bit_iff_and_push_bit_not_eq_0)

lemma sub63_inj: "i < 64 \<Longrightarrow> j < 64 \<Longrightarrow> (63::nat) - i = 63 - j \<longleftrightarrow> i = j"
  by auto

lemma bit_set64:
  "set64 w pos = Some w' \<Longrightarrow> i < 64 \<Longrightarrow> bit w' (63 - i) \<longleftrightarrow> i = pos \<or> bit w (63 - i)"
  by (auto simp: set64_def bit_simps sub63_inj split: if_splits)

lemma bit_clear64:
  assumes "clear64 w pos = Some (z, w')" and "i < 64"
  shows "bit w' (63 - i) \<longleftrightarrow> i \<noteq> pos \<and> bit w (63 - i)"
proof -
  have "pos < 64" and w': "w' = w AND NOT (push_bit (63 - pos) 1)"
    using assms(1) by (auto simp: clear64_def Let_def split: if_splits)
  then have "bit (push_bit (63 - pos) (1 :: 64 word)) (63 - i) \<longleftrightarrow> i = pos"
    using assms(2) by (auto simp: bit_simps sub63_inj)
  then show ?thesis using assms(2) by (auto simp: w' bit_and_iff bit_not_iff)
qed

lemma clear64_zero: "clear64 w pos = Some (z, w') \<Longrightarrow> z \<longleftrightarrow> w' = 0"
  by (auto simp: clear64_def Let_def split: if_splits)

lemma word_zero_iff: "(w :: 64 word) = 0 \<longleftrightarrow> (\<forall>i < 64. \<not> bit w (63 - i))"
proof
  assume *: "\<forall>i < 64. \<not> bit w (63 - i)"
  have "\<not> bit w k" if "k < 64" for k
    using * [rule_format, of "63 - k"] that by simp
  then show "w = 0" by (intro bit_word_eqI) simp
qed simp

lemma first_set_bit64_spec:
  "first_set_bit64 w \<le> 64 \<and> (\<forall>i < first_set_bit64 w. \<not> bit w (63 - i))
     \<and> (first_set_bit64 w < 64 \<longrightarrow> bit w (63 - first_set_bit64 w))"
proof -
  let ?P = "\<lambda>i. \<not> bit w (63 - i)" and ?xs = "[0..<64]"
  have l: "LZERO w \<le> 64" using length_takeWhile_le [of ?P ?xs] by (simp add: LZERO_def)
  have "?P i" if "i < LZERO w" for i
  proof -
    have "takeWhile ?P ?xs ! i \<in> set (takeWhile ?P ?xs)" using that by (simp add: LZERO_def)
    moreover have "takeWhile ?P ?xs ! i = i"
      using that l by (simp add: takeWhile_nth LZERO_def del: upt_Suc)
    ultimately show ?thesis using set_takeWhileD by metis
  qed
  moreover have "bit w (63 - LZERO w)" if "LZERO w < 64"
    using nth_length_takeWhile [of ?P ?xs] that by (simp add: LZERO_def del: upt_Suc)
  ultimately show ?thesis using l word_zero_iff [of w] by (auto simp: first_set_bit64_def)
qed


section \<open>The tree is a set\<close>

lemma sub_index:
  assumes "64 \<le> n" and "64 dvd n"
  shows "0 < sub_index_size n" and "sub_index_count n = 64" and "64 * sub_index_size n = n"
proof -
  obtain k where k: "n = 64 * k" "0 < k" using assms by (auto elim!: dvdE)
  then have s: "sub_index_size n = k" by (simp add: sub_index_size_def)
  with k show "0 < sub_index_size n" "64 * sub_index_size n = n" by simp_all
  show "sub_index_count n = 64" unfolding sub_index_count_def s using k by simp
qed

text \<open>A position below the size selects a subindex and a position below the size of that.\<close>

lemma index_split:
  assumes "64 \<le> n" and "64 dvd n"
  shows "p < n \<longleftrightarrow> p div sub_index_size n < 64" and "p mod sub_index_size n < sub_index_size n"
proof -
  note s = sub_index [OF assms]
  show "p mod sub_index_size n < sub_index_size n" using s(1) by simp
  have "p < 64 * sub_index_size n \<longleftrightarrow> p div sub_index_size n < 64"
    using s(1) by (simp add: div_less_iff_less_mult)
  then show "p < n \<longleftrightarrow> p div sub_index_size n < 64" unfolding s(3) .
qed

lemma bix_okD:
  assumes "bix_ok (Index n b ts)" and "i < 64"
  shows "bix_ok (ts ! i)" and "index_size (ts ! i) = sub_index_size n"
    and "bit b (63 - i) \<longleftrightarrow> elems (ts ! i) \<noteq> {}"
  using assms by auto

lemma elems_bound: "i \<in> elems t \<Longrightarrow> i < index_size t"
  by (simp add: elems_def)

lemma elems_Bits64: "elems (Bits64 w) = {i. i < 64 \<and> bit w (63 - i)}"
  by (auto simp: elems_def get64_bit)

lemma elems_Bit1: "elems (Bit1 w) = (if w = 0 then {} else {0})"
  by (auto simp: elems_def get1_def)

lemma elems_Index:
  assumes "bix_ok (Index n b ts)"
  shows "p \<in> elems (Index n b ts) \<longleftrightarrow> p div sub_index_size n < 64
    \<and> p mod sub_index_size n \<in> elems (ts ! (p div sub_index_size n))"
proof -
  have n: "64 \<le> n" "64 dvd n" "length ts = 64" using assms by auto
  show ?thesis
    using index_split [OF n(1,2), of p] n(3) bix_okD(2) [OF assms, of "p div sub_index_size n"]
    by (auto simp: elems_def Let_def)
qed

lemma bget_total: "bix_ok t \<Longrightarrow> p < index_size t \<Longrightarrow> bget t p \<noteq> None"
proof (induction t p rule: bget.induct)
  case (3 n b ts p)
  have n: "64 \<le> n" "64 dvd n" "length ts = 64" "p < n" using 3(2,3) by simp_all
  note S = index_split [OF n(1,2), of p]
  show ?case using 3(1) [OF refl refl] S n bix_okD(1,2) [OF 3(2), of "p div sub_index_size n"] by simp
qed (auto simp: get64_def)

text \<open>The first set bit is the least element.\<close>

definition least_in :: "nat \<Rightarrow> nat set \<Rightarrow> nat \<Rightarrow> bool" where
  "least_in n S k \<longleftrightarrow> k \<le> n \<and> (\<forall>i < k. i \<notin> S) \<and> (k < n \<longrightarrow> k \<in> S)"

lemma first_set_bit_least:
  "bix_ok t \<Longrightarrow> \<exists>k. first_set_bit t = Some k \<and> least_in (index_size t) (elems t) k"
proof (induction t rule: first_set_bit.induct)
  case (1 w)
  then show ?case by (simp add: first_set_bit1_def least_in_def elems_Bit1)
next
  case (2 w)
  then show ?case using first_set_bit64_spec [of w] by (auto simp: least_in_def elems_Bits64)
next
  case (3 n b ts)
  define f where "f = first_set_bit64 b"
  let ?s = "sub_index_size n"
  have n: "64 \<le> n" "64 dvd n" "length ts = 64" using 3(2) by simp_all
  note s = sub_index [OF n(1,2)]
  have F: "f \<le> 64" "\<And>i. i < f \<Longrightarrow> \<not> bit b (63 - i)" "f < 64 \<Longrightarrow> bit b (63 - f)"
    using first_set_bit64_spec [of b] by (auto simp: f_def)
  have below: "p \<notin> elems (Index n b ts)" if "p div ?s < f" for p
  proof -
    have "elems (ts ! (p div ?s)) = {}"
      using bix_okD(3) [OF 3(2), of "p div ?s"] F(1,2) that by fastforce
    then show ?thesis by (simp add: elems_Index [OF 3(2)])
  qed
  show ?case
  proof (cases "f = 64")
    case True
    have "p \<notin> elems (Index n b ts)" if "p < n" for p
      using below [of p] that index_split(1) [OF n(1,2), of p] True by simp
    then show ?thesis using True by (simp add: f_def [symmetric] s(2) least_in_def)
  next
    case False
    then have f: "f < 64" using F(1) by simp
    have ok: "bix_ok (ts ! f)" "index_size (ts ! f) = ?s" "elems (ts ! f) \<noteq> {}"
      using bix_okD [OF 3(2) f] F(3) [OF f] by auto
    obtain k where k: "first_set_bit (ts ! f) = Some k" "least_in ?s (elems (ts ! f)) k"
      using 3(1) [OF f_def _ _ ok(1)] f n(3) s(2) ok(2) by auto
    have ks: "k < ?s" using k(2) ok(2,3) elems_bound [of _ "ts ! f"] by (fastforce simp: least_in_def)
    have d: "(f * ?s + k) div ?s = f" "(f * ?s + k) mod ?s = k" using ks by simp_all
    have "p \<notin> elems (Index n b ts)" if p: "p < f * ?s + k" for p
    proof (cases "p div ?s < f")
      case False
      have "p div ?s \<le> f" using div_le_mono [of p "f * ?s + k" ?s] p d(1) by simp
      with False have e: "p div ?s = f" by simp
      then have "p mod ?s < k" using p div_mult_mod_eq [of p ?s] by simp
      then show ?thesis using k(2) e by (simp add: elems_Index [OF 3(2)] least_in_def)
    qed (rule below)
    moreover have "f * ?s + k \<in> elems (Index n b ts)"
      using k(2) ks f by (simp add: elems_Index [OF 3(2)] d least_in_def)
    moreover have "f * ?s + k \<le> n"
      using elems_bound [OF calculation(2)] by simp
    ultimately show ?thesis
      using False f n(3) k(1) by (simp add: f_def [symmetric] s(2) least_in_def)
  qed
qed

lemma bset_elems:
  "bix_ok t \<Longrightarrow> p < index_size t \<Longrightarrow>
     \<exists>t'. bset t p = Some t' \<and> bix_ok t' \<and> index_size t' = index_size t \<and> elems t' = insert p (elems t)"
proof (induction t p rule: bset.induct)
  case (1 w p)
  then show ?case by (simp add: set1_def elems_Bit1)
next
  case (2 w p)
  then obtain w' where "set64 w p = Some w'" by (simp add: set64_def)
  then show ?case using bit_set64 [of w p w'] 2(2) by (auto simp: elems_Bits64)
next
  case (3 n b ts p)
  let ?s = "sub_index_size n" and ?i = "p div sub_index_size n" and ?j = "p mod sub_index_size n"
  have n: "64 \<le> n" "64 dvd n" "length ts = 64" "p < n" using 3(2,3) by simp_all
  note S = index_split [OF n(1,2), of p]
  have i: "?i < 64" using S(1) n(4) by simp
  obtain b' where b': "set64 b ?i = Some b'" using i by (simp add: set64_def)
  obtain t' where t': "bset (ts ! ?i) ?j = Some t'" "bix_ok t'" "index_size t' = ?s"
    "elems t' = insert ?j (elems (ts ! ?i))"
    using 3(1) [OF refl refl _ b'] n i S(2) bix_okD(1,2) [OF 3(2) i] by auto
  let ?t = "Index n b' (ts[?i := t'])"
  have ok: "bix_ok ?t"
  proof -
    have "bit b' (63 - k) \<longleftrightarrow> elems (ts[?i := t'] ! k) \<noteq> {}" if "k < 64" for k
      using bit_set64 [OF b' that] bix_okD(3) [OF 3(2) that] t'(4) n(3) that
      by (cases "k = ?i") auto
    moreover have "bix_ok u \<and> index_size u = ?s" if "u \<in> set (ts[?i := t'])" for u
      using that t'(2,3) 3(2) set_update_subset_insert [of ts ?i t'] by auto
    ultimately show ?thesis using n by simp
  qed
  have "q \<in> elems ?t \<longleftrightarrow> q = p \<or> q \<in> elems (Index n b ts)" for q
  proof (cases "q div ?s = ?i")
    case True
    have "q mod ?s = ?j \<longleftrightarrow> q = p" using True by (metis div_mult_mod_eq)
    then show ?thesis
      using True i n(3) t'(4) by (simp add: elems_Index [OF ok] elems_Index [OF 3(2)])
  next
    case False
    then show ?thesis using n(3) by (auto simp: elems_Index [OF ok] elems_Index [OF 3(2)])
  qed
  then have "elems ?t = insert p (elems (Index n b ts))" by blast
  moreover have "bset (Index n b ts) p = Some ?t" using n i b' t'(1) by (simp add: Let_def)
  ultimately show ?case using ok by simp
qed

lemma bclear_elems:
  "bix_ok t \<Longrightarrow> p < index_size t \<Longrightarrow>
     \<exists>z t'. bclear t p = Some (z, t') \<and> bix_ok t' \<and> index_size t' = index_size t
       \<and> elems t' = elems t - {p} \<and> (z \<longleftrightarrow> elems t' = {})"
proof (induction t p rule: bclear.induct)
  case (1 w p)
  then show ?case by (auto simp: clear1_def elems_Bit1)
next
  case (2 w p)
  obtain z w' where w': "clear64 w p = Some (z, w')" using 2(2) by (simp add: clear64_def Let_def)
  then show ?case
    using bit_clear64 [OF w'] clear64_zero [OF w'] word_zero_iff [of w'] 2(2) by (auto simp: elems_Bits64)
next
  case (3 n b ts p)
  let ?s = "sub_index_size n" and ?i = "p div sub_index_size n" and ?j = "p mod sub_index_size n"
  have n: "64 \<le> n" "64 dvd n" "length ts = 64" "p < n" using 3(2,3) by simp_all
  note S = index_split [OF n(1,2), of p]
  have i: "?i < 64" using S(1) n(4) by simp
  obtain z t' where t': "bclear (ts ! ?i) ?j = Some (z, t')" "bix_ok t'" "index_size t' = ?s"
    "elems t' = elems (ts ! ?i) - {?j}" "z \<longleftrightarrow> elems t' = {}"
    using 3(1) [OF refl refl] n i S(2) bix_okD(1,2) [OF 3(2) i] by auto
  have sub: "elems (ts[?i := t'] ! k) = (if k = ?i then elems t' else elems (ts ! k))" if "k < 64" for k
    using n(3) that by auto
  have okI: "bix_ok (Index n b' (ts[?i := t']))"
    if b': "\<And>k. k < 64 \<Longrightarrow> bit b' (63 - k) \<longleftrightarrow> elems (ts[?i := t'] ! k) \<noteq> {}" for b'
  proof -
    have "bix_ok u \<and> index_size u = ?s" if "u \<in> set (ts[?i := t'])" for u
      using that t'(2,3) 3(2) set_update_subset_insert [of ts ?i t'] by auto
    then show ?thesis using n b' by simp
  qed
  have el: "elems (Index n b' (ts[?i := t'])) = elems (Index n b ts) - {p}"
    if ok: "bix_ok (Index n b' (ts[?i := t']))" for b'
  proof -
    have "q \<in> elems (Index n b' (ts[?i := t'])) \<longleftrightarrow> q \<noteq> p \<and> q \<in> elems (Index n b ts)" for q
    proof (cases "q div ?s = ?i")
      case True
      have "q mod ?s = ?j \<longleftrightarrow> q = p" using True by (metis div_mult_mod_eq)
      then show ?thesis
        using True i n(3) t'(4) by (auto simp: elems_Index [OF ok] elems_Index [OF 3(2)])
    next
      case False
      then show ?thesis using n(3) by (auto simp: elems_Index [OF ok] elems_Index [OF 3(2)])
    qed
    then show ?thesis by blast
  qed
  have empty: "elems (Index n b' (ts[?i := t'])) = {} \<longleftrightarrow> (\<forall>k < 64. \<not> bit b' (63 - k))"
    if ok: "bix_ok (Index n b' (ts[?i := t']))" for b'
  proof -
    have nz: "0 < ?s" using sub_index(1) [OF n(1,2)] .
    have "(\<forall>q. q \<notin> elems (Index n b' (ts[?i := t'])))
        \<longleftrightarrow> (\<forall>k < 64. elems (ts[?i := t'] ! k) = {})"
    proof
      assume *: "\<forall>q. q \<notin> elems (Index n b' (ts[?i := t']))"
      show "\<forall>k < 64. elems (ts[?i := t'] ! k) = {}"
      proof (intro allI impI equals0I)
        fix k j assume k: "k < 64" "j \<in> elems (ts[?i := t'] ! k)"
        then have "j < ?s" using elems_bound [OF k(2)] bix_okD(2) [OF ok k(1)] by simp
        then have "k * ?s + j \<in> elems (Index n b' (ts[?i := t']))"
          using k by (simp add: elems_Index [OF ok])
        then show False using * by blast
      qed
    qed (auto simp: elems_Index [OF ok])
    then show ?thesis using bix_okD(3) [OF ok] by auto
  qed
  show ?case
  proof (cases z)
    case True
    obtain e b' where b': "clear64 b ?i = Some (e, b')" using i by (simp add: clear64_def Let_def)
    have ok: "bix_ok (Index n b' (ts[?i := t']))"
      using bit_clear64 [OF b'] bix_okD(3) [OF 3(2)] t'(5) True by (intro okI) (auto simp: sub)
    have "bclear (Index n b ts) p = Some (e, Index n b' (ts[?i := t']))"
      using n i t'(1) b' True by (simp add: Let_def)
    moreover have "e \<longleftrightarrow> elems (Index n b' (ts[?i := t'])) = {}"
      using clear64_zero [OF b'] word_zero_iff [of b'] empty [OF ok] by simp
    ultimately show ?thesis using ok el [OF ok] by simp
  next
    case False
    have ok: "bix_ok (Index n b (ts[?i := t']))"
      using bix_okD(3) [OF 3(2)] t'(4,5) False by (intro okI) (auto simp: sub)
    have "bclear (Index n b ts) p = Some (False, Index n b (ts[?i := t']))"
      using n i t'(1) False by (simp add: Let_def)
    moreover have "bit b (63 - ?i)" using bix_okD(3) [OF ok i] sub [OF i] t'(5) False by simp
    then have "elems (Index n b (ts[?i := t'])) \<noteq> {}" using empty [OF ok] i by blast
    ultimately show ?thesis using ok el [OF ok] by auto
  qed
qed

lemma index_size_pos: "bix_ok t \<Longrightarrow> 0 < index_size t"
  by (cases t) auto

lemma set_all_elems:
  "bix_ok t \<Longrightarrow> index_size (set_all t) = index_size t \<and> elems (set_all t) = {..<index_size t}
     \<and> bix_ok (set_all t)"
proof (induction t)
  case (Bit1 w)
  then show ?case by (auto simp: elems_Bit1)
next
  case (Bits64 w)
  then show ?case by (auto simp: elems_Bits64)
next
  case (Index n b ts)
  have n: "64 \<le> n" "64 dvd n" "length ts = 64" using Index(2) by simp_all
  have sub: "index_size (set_all (ts ! i)) = sub_index_size n"
    "elems (set_all (ts ! i)) = {..<sub_index_size n}" "bix_ok (set_all (ts ! i))" if "i < 64" for i
    using Index(1) [of "ts ! i"] bix_okD(1,2) [OF Index(2) that] n(3) that by auto
  have ok: "bix_ok (Index n (- 1) (map set_all ts))"
  proof -
    have "\<forall>u \<in> set (map set_all ts). bix_ok u \<and> index_size u = sub_index_size n"
      using sub(1,3) n(3) by (fastforce simp: in_set_conv_nth)
    moreover have "\<forall>i < 64. bit (- 1 :: 64 word) (63 - i) \<longleftrightarrow> elems (map set_all ts ! i) \<noteq> {}"
      using sub(2) n(3) sub_index(1) [OF n(1,2)] by (auto simp: lessThan_empty_iff)
    ultimately show ?thesis using n by simp
  qed
  have "p \<in> elems (Index n (- 1) (map set_all ts)) \<longleftrightarrow> p < n" for p
  proof (cases "p div sub_index_size n < 64")
    case True
    then show ?thesis
      using index_split [OF n(1,2), of p] sub(2) [OF True] n(3) by (simp only: elems_Index [OF ok] nth_map) simp
  next
    case False
    then show ?thesis using index_split(1) [OF n(1,2), of p] by (simp only: elems_Index [OF ok]) simp
  qed
  then show ?case using ok by auto
qed

lemma clear_every_elems:
  "bix_ok t \<Longrightarrow> index_size (clear_every t) = index_size t \<and> elems (clear_every t) = {}
     \<and> bix_ok (clear_every t)"
proof (induction t)
  case (Bit1 w)
  then show ?case by (auto simp: elems_Bit1)
next
  case (Bits64 w)
  then show ?case by (auto simp: elems_Bits64)
next
  case (Index n b ts)
  have n: "64 \<le> n" "64 dvd n" "length ts = 64" using Index(2) by simp_all
  have sub: "index_size (clear_every (ts ! i)) = sub_index_size n"
    "elems (clear_every (ts ! i)) = {}" "bix_ok (clear_every (ts ! i))" if "i < 64" for i
    using Index(1) [of "ts ! i"] bix_okD(1,2) [OF Index(2) that] n(3) that by auto
  have ok: "bix_ok (Index n 0 (map clear_every ts))"
  proof -
    have "\<forall>u \<in> set (map clear_every ts). bix_ok u \<and> index_size u = sub_index_size n"
      using sub(1,3) n(3) by (fastforce simp: in_set_conv_nth)
    moreover have "\<forall>i < 64. bit (0 :: 64 word) (63 - i) \<longleftrightarrow> elems (map clear_every ts ! i) \<noteq> {}"
      using sub(2) n(3) by simp
    ultimately show ?thesis using n by simp
  qed
  have "p \<notin> elems (Index n 0 (map clear_every ts))" for p
    using sub(2) [of "p div sub_index_size n"] n(3) by (auto simp: elems_Index [OF ok])
  then show ?case using ok by auto
qed

section \<open>Iterators\<close>

text \<open>
  An iterator holds its position, the subindex it is in and an iterator of that; its pointer to
  the tree is an argument here. A position of the 64-bit iterator is a \<open>uint8_t\<close>.
\<close>

datatype bit_itr = It1 nat | It64 nat | ItN nat nat bit_itr

fun it_bit :: "bit_itr \<Rightarrow> nat" where
  "it_bit (It1 p) = p"
| "it_bit (It64 p) = p"
| "it_bit (ItN p si it) = p"

fun it_end :: "bix \<Rightarrow> bit_itr \<Rightarrow> bool" where
  "it_end (Index n b ts) (ItN p si it) \<longleftrightarrow> sub_index_count n \<le> si"
| "it_end t (It64 p) \<longleftrightarrow> p = 64"
| "it_end t it \<longleftrightarrow> it_bit it = 1"

text \<open>The constructor: the subindex is computed by \<open>(bit/64)%64\<close> whatever the size.\<close>

function it_at :: "bix \<Rightarrow> nat \<Rightarrow> bit_itr option" where
  "it_at (Bit1 w) p = Some (It1 (p mod 256))"
| "it_at (Bits64 w) p = Some (It64 (p mod 256))"
| "it_at (Index n b ts) p =
     (let sub_idx = p div 64 mod 64
      in if length ts \<le> sub_idx then None
         else do {
           it \<leftarrow> it_at (ts ! sub_idx) (p mod sub_index_size n);
           Some (ItN p sub_idx it)
         })"
  by pat_completeness auto
termination by (relation "measure (size \<circ> fst)") (auto simp: nth_size)

function it_get :: "bix \<Rightarrow> bit_itr \<Rightarrow> bool option" where
  "it_get (Bits64 w) (It64 p) = get64 w p"
| "it_get (Bit1 w) (It1 p) = Some (get1 w)"
| "it_get (Index n b ts) (ItN p si it) = (if length ts \<le> si then None else it_get (ts ! si) it)"
| "it_get (Bits64 w) (It1 p) = None"
| "it_get (Bits64 w) (ItN p si it) = None"
| "it_get (Bit1 w) (It64 p) = None"
| "it_get (Bit1 w) (ItN p si it) = None"
| "it_get (Index n b ts) (It1 p) = None"
| "it_get (Index n b ts) (It64 p) = None"
  by pat_completeness auto
termination by (relation "measure (size \<circ> fst)") (auto simp: nth_size)

text \<open>Shifting out the bits up to and including \<open>p\<close>; past the end the shift is undefined.\<close>

definition next64 :: "64 word \<Rightarrow> nat \<Rightarrow> nat option" where
  "next64 w p =
     (let p = p + 1
      in if p = 64 then Some 64
         else if 64 < p then None
         else Some (first_set_bit64 (drop_bit p (push_bit p w))))"

fun it_next :: "bix \<Rightarrow> bit_itr \<Rightarrow> bit_itr option" where
  "it_next (Bits64 w) (It64 p) = map_option It64 (next64 w p)"
| "it_next (Bit1 w) (It1 p) = Some (It1 1)"
| "it_next (Index n b ts) (ItN p si it) =
     (if sub_index_count n \<le> si then Some (ItN p si it)
      else if length ts \<le> si then None
      else do {
        it \<leftarrow> it_next (ts ! si) it;
        if it_end (ts ! si) it then do {
          si' \<leftarrow> next64 b si;
          if sub_index_count n \<le> si' then Some (ItN n si' it)
          else if length ts \<le> si' then None
          else do {
            fb \<leftarrow> first_set_bit (ts ! si');
            it \<leftarrow> it_at (ts ! si') fb;
            Some (ItN (si' * sub_index_size n + it_bit it) si' it)
          }
        }
        else Some (ItN (si * sub_index_size n + it_bit it) si it)
      })"
| "it_next t it = None"

function it_set :: "bix \<Rightarrow> bit_itr \<Rightarrow> bix option" where
  "it_set (Index n b ts) (ItN p si it) = do {
     b \<leftarrow> set64 b si;
     if length ts \<le> si then None
     else do { t \<leftarrow> it_set (ts ! si) it; Some (Index n b (ts[si := t])) }
   }"
| "it_set (Index n b ts) (It1 p) = None"
| "it_set (Index n b ts) (It64 p) = None"
| "it_set (Bit1 w) it = bset (Bit1 w) (it_bit it)"
| "it_set (Bits64 w) it = bset (Bits64 w) (it_bit it)"
  by pat_completeness auto
termination by (relation "measure (size \<circ> fst)") (auto simp: nth_size)

function it_clear :: "bix \<Rightarrow> bit_itr \<Rightarrow> (bool \<times> bix) option" where
  "it_clear (Index n b ts) (ItN p si it) =
     (if length ts \<le> si then None
      else do {
        (z, t) \<leftarrow> it_clear (ts ! si) it;
        if z then do {
          (e, b) \<leftarrow> clear64 b si;
          Some (e, Index n b (ts[si := t]))
        }
        else Some (False, Index n b (ts[si := t]))
      })"
| "it_clear (Index n b ts) (It1 p) = None"
| "it_clear (Index n b ts) (It64 p) = None"
| "it_clear (Bit1 w) it = bclear (Bit1 w) (it_bit it)"
| "it_clear (Bits64 w) it = bclear (Bits64 w) (it_bit it)"
  by pat_completeness auto
termination by (relation "measure (size \<circ> fst)") (auto simp: nth_size)

text \<open>The word that contains a bit; only the 64-bit case checks the position.\<close>

function get_bits :: "bix \<Rightarrow> nat \<Rightarrow> 64 word option" where
  "get_bits (Bit1 w) pos = Some w"
| "get_bits (Bits64 w) pos = (if pos < 64 then Some w else None)"
| "get_bits (Index n b ts) pos =
     (let sub_idx = pos div sub_index_size n
      in if length ts \<le> sub_idx then None else get_bits (ts ! sub_idx) (pos mod sub_index_size n))"
  by pat_completeness auto
termination by (relation "measure (size \<circ> fst)") (auto simp: nth_size)

lemma next64_spec:
  assumes "k < 64"
  shows "\<exists>r. next64 w k = Some r \<and> k < r \<and> r \<le> 64 \<and> (\<forall>i. k < i \<longrightarrow> i < r \<longrightarrow> \<not> bit w (63 - i))
    \<and> (r < 64 \<longrightarrow> bit w (63 - r))"
proof (cases "k = 63")
  case True
  then show ?thesis by (intro exI [of _ 64]) (simp add: next64_def)
next
  case False
  define m where "m = k + 1"
  define u where "u = drop_bit m (push_bit m w)"
  have b: "bit u (63 - i) \<longleftrightarrow> k < i \<and> bit w (63 - i)" if "i < 64" for i
  proof -
    have "bit u (63 - i) \<longleftrightarrow> m \<le> i \<and> bit w (63 - i)" using that by (auto simp: u_def bit_simps)
    then show ?thesis by (auto simp: m_def)
  qed
  have "next64 w k = Some (first_set_bit64 u)" using False assms by (simp add: next64_def u_def m_def)
  moreover have F: "first_set_bit64 u \<le> 64" "\<And>i. i < first_set_bit64 u \<Longrightarrow> \<not> bit u (63 - i)"
    "first_set_bit64 u < 64 \<Longrightarrow> bit u (63 - first_set_bit64 u)"
    using first_set_bit64_spec [of u] by auto
  moreover have "k < first_set_bit64 u"
    using F(1,3) b [of "first_set_bit64 u"] assms by (cases "first_set_bit64 u = 64") auto
  ultimately show ?thesis using b by (intro exI [of _ "first_set_bit64 u"]) auto
qed

text \<open>The iterator of a two-level set standing at position \<open>p\<close>.\<close>

definition itr2 :: "nat \<Rightarrow> bit_itr" where
  "itr2 p = ItN p (p div 64) (It64 (p mod 64))"

definition two_level :: "bix \<Rightarrow> bool" where
  "two_level t \<longleftrightarrow> bix_ok t \<and> (\<exists>b ws. t = Index 4096 b (map Bits64 ws))"

lemma sub_index_4096: "sub_index_size 4096 = 64" "sub_index_count 4096 = 64"
  by (simp_all add: sub_index_count_def sub_index_size_def)

lemma two_level_next:
  assumes "two_level t" and "p < 4096"
  shows "\<exists>it. it_next t (itr2 p) = Some it
    \<and> (let q = it_bit it in p < q \<and> q \<le> 4096 \<and> (\<forall>i. p < i \<longrightarrow> i < q \<longrightarrow> i \<notin> elems t)
        \<and> (if it_end t it then q = 4096 else q \<in> elems t \<and> it = itr2 q))"
proof -
  obtain b ws where t: "t = Index 4096 b (map Bits64 ws)" and ok: "bix_ok t"
    using assms(1) by (auto simp: two_level_def)
  have len: "length ws = 64" using ok t by simp
  define si j where "si = p div 64" and "j = p mod 64"
  have p: "p = si * 64 + j" "j < 64" "si < 64" using assms(2) by (simp_all add: si_def j_def)
  have el: "i * 64 + k \<in> elems t \<longleftrightarrow> i < 64 \<and> bit (ws ! i) (63 - k)" if "k < 64" for i k
    using elems_Index [OF ok [unfolded t], of "i * 64 + k"] len that
    by (auto simp: t sub_index_4096 elems_Bits64)
  have bb: "bit b (63 - i) \<longleftrightarrow> (\<exists>k < 64. bit (ws ! i) (63 - k))" if "i < 64" for i
    using bix_okD(3) [OF ok [unfolded t] that] that len by (auto simp: elems_Bits64)
  obtain r where r: "next64 (ws ! si) j = Some r" "j < r" "r \<le> 64"
    "\<And>i. j < i \<Longrightarrow> i < r \<Longrightarrow> \<not> bit (ws ! si) (63 - i)" "r < 64 \<Longrightarrow> bit (ws ! si) (63 - r)"
    using next64_spec [OF p(2), of "ws ! si"] by blast
  have gap: "i \<notin> elems t" if i: "p < i" "i div 64 = si" "i mod 64 < r" for i
  proof -
    have "i = si * 64 + i mod 64" using i(2) by (metis div_mult_mod_eq)
    moreover have "j < i mod 64" using i(1) p(1) calculation by linarith
    ultimately show ?thesis using el [of "i mod 64" si] r(4) [OF _ i(3)] by simp
  qed
  show ?thesis
  proof (cases "r = 64")
    case False
    then have r64: "r < 64" using r(3) by simp
    let ?q = "si * 64 + r"
    have it: "it_next t (itr2 p) = Some (itr2 ?q)"
      using r(1) r64 p len by (simp add: t itr2_def sub_index_4096 si_def [symmetric] j_def [symmetric])
    have "i \<notin> elems t" if "p < i" "i < ?q" for i
    proof -
      have "i div 64 = si" using that p r64 by linarith
      moreover from this have "i mod 64 < r" using that(2) by (metis add_less_cancel_left div_mult_mod_eq)
      ultimately show ?thesis using gap that(1) by blast
    qed
    moreover have "?q \<in> elems t" using el [OF r64, of si] r(5) r64 p(3) by simp
    moreover have "\<not> it_end t (itr2 ?q)" using r64 p(3) by (simp add: t itr2_def sub_index_4096)
    ultimately show ?thesis
      using it p r(2) r64 by (intro exI [of _ "itr2 ?q"]) (simp add: itr2_def)
  next
    case True
    obtain s' where s': "next64 b si = Some s'" "si < s'" "s' \<le> 64"
      "\<And>i. si < i \<Longrightarrow> i < s' \<Longrightarrow> \<not> bit b (63 - i)" "s' < 64 \<Longrightarrow> bit b (63 - s')"
      using next64_spec [OF p(3), of b] by blast
    have none: "i \<notin> elems t" if i: "p < i" "i div 64 < s'" for i
    proof (cases "i div 64 = si")
      case True
      then show ?thesis using gap [OF i(1)] \<open>r = 64\<close> by simp
    next
      case False
      have "si \<le> i div 64" using i(1) by (simp add: si_def div_le_mono)
      then have d: "si < i div 64" using False by simp
      have "i div 64 < 64" using i(2) s'(3) by simp
      then have "\<not> bit (ws ! (i div 64)) (63 - i mod 64)" using s'(4) [OF d i(2)] bb by auto
      then show ?thesis using el [of "i mod 64" "i div 64"] by simp
    qed
    show ?thesis
    proof (cases "s' = 64")
      case True
      have "it_next t (itr2 p) = Some (ItN 4096 64 (It64 64))"
        using r(1) \<open>r = 64\<close> s'(1) True p len
        by (simp add: t itr2_def sub_index_4096 si_def [symmetric] j_def [symmetric])
      moreover have "i \<notin> elems t" if "p < i" "i < 4096" for i
        using none [OF that(1)] that(2) True by simp
      ultimately show ?thesis
        using assms(2) by (intro exI [of _ "ItN 4096 64 (It64 64)"]) (simp add: t sub_index_4096)
    next
      case False
      then have s64: "s' < 64" using s'(3) by simp
      let ?fb = "first_set_bit64 (ws ! s')" and ?q = "s' * 64 + first_set_bit64 (ws ! s')"
      have F: "\<And>i. i < ?fb \<Longrightarrow> \<not> bit (ws ! s') (63 - i)" "?fb < 64 \<Longrightarrow> bit (ws ! s') (63 - ?fb)"
        "?fb \<le> 64" using first_set_bit64_spec [of "ws ! s'"] by auto
      have fb: "?fb < 64" using bb [OF s64] s'(5) [OF s64] F(1,3) by (cases "?fb = 64") auto
      have it: "it_next t (itr2 p) = Some (itr2 ?q)"
        using r(1) \<open>r = 64\<close> s'(1) s64 p len fb
        by (simp add: t itr2_def sub_index_4096 si_def [symmetric] j_def [symmetric])
      have "i \<notin> elems t" if "p < i" "i < ?q" for i
      proof (cases "i div 64 < s'")
        case False
        have e: "i div 64 = s'" using False that(2) fb by linarith
        then have "i mod 64 < ?fb" using that(2) by (metis add_less_cancel_left div_mult_mod_eq)
        moreover have "i = s' * 64 + i mod 64" using e by (metis div_mult_mod_eq)
        ultimately show ?thesis using F(1) [of "i mod 64"] el [of "i mod 64" s'] by simp
      qed (rule none [OF that(1)])
      moreover have "?q \<in> elems t" using el [OF fb, of s'] F(2) [OF fb] s64 by simp
      moreover have "\<not> it_end t (itr2 ?q)" using fb s64 by (simp add: t itr2_def sub_index_4096)
      moreover have "p < ?q" "?q \<le> 4096" using s'(2) p fb s64 by linarith+
      ultimately show ?thesis
        using it fb by (intro exI [of _ "itr2 ?q"]) (simp add: itr2_def)
    qed
  qed
qed

lemma empty_4096: "bix_ok (Index 4096 0 (replicate 64 (Bits64 0)))"
  by (simp add: elems_Bits64 sub_index_4096)

lemma empty_4096_two_level: "two_level (Index 4096 0 (replicate 64 (Bits64 0)))"
proof -
  have "replicate 64 (Bits64 0) = map Bits64 (replicate 64 0)" by (simp only: map_replicate)
  then show ?thesis using empty_4096 unfolding two_level_def by metis
qed

lemma empty_4096_elems: "elems (Index 4096 0 (replicate 64 (Bits64 0))) = {}"
  using elems_Index [OF empty_4096] by (auto simp: elems_Bits64 nth_replicate)

section \<open>Properties\<close>

text \<open>
  C22. \<open>first_set_bit\<close> finds the least element of the set, or the size when the set is empty,
  on trees of any depth.
\<close>

theorem bit_index_first_set_bit:
  assumes "bix_ok t"
  shows "first_set_bit t = Some (if elems t = {} then index_size t else Min (elems t))"
proof -
  obtain k where k: "first_set_bit t = Some k" "least_in (index_size t) (elems t) k"
    using first_set_bit_least [OF assms] by blast
  show ?thesis
  proof (cases "elems t = {}")
    case True
    then show ?thesis using k by (auto simp: least_in_def)
  next
    case False
    then obtain j where j: "j \<in> elems t" by blast
    have fin: "finite (elems t)"
      by (rule finite_subset [of _ "{..<index_size t}"]) (auto dest: elems_bound)
    have "k < index_size t"
      using k(2) j elems_bound [OF j] by (metis least_in_def le_neq_implies_less)
    then have "Min (elems t) = k"
      using k(2) fin by (intro Min_eqI) (auto simp: least_in_def not_less [symmetric])
    then show ?thesis using k(1) False by simp
  qed
qed

theorem bit_index_first_set_bit_witness:
  "first_set_bit (Index 4096 0 (replicate 64 (Bits64 0))) = Some 4096"
  using bit_index_first_set_bit [OF empty_4096] empty_4096_elems by simp

text \<open>
  C18. The tree implements a set of the positions below its size: \<open>set\<close> inserts,
  \<open>clear\<close> removes and reports whether the set became empty, both keep the summary words
  consistent, and \<open>get\<close> answers membership.
\<close>

theorem bit_index_set_clear:
  assumes "bix_ok t" and "p < index_size t"
  shows "\<exists>t' t'' z. bset t p = Some t' \<and> bix_ok t' \<and> elems t' = insert p (elems t)
    \<and> bclear t p = Some (z, t'') \<and> bix_ok t'' \<and> elems t'' = elems t - {p}
    \<and> (z \<longleftrightarrow> elems t'' = {}) \<and> bget t p = Some (p \<in> elems t)"
proof -
  have "bget t p = Some (p \<in> elems t)"
    using bget_total [OF assms] assms(2) by (cases "bget t p") (auto simp: elems_def)
  then show ?thesis using bset_elems [OF assms] bclear_elems [OF assms] by fastforce
qed

theorem bit_index_set_clear_witness:
  "\<exists>t. bset (Index 4096 0 (replicate 64 (Bits64 0))) 1010 = Some t \<and> 1010 \<in> elems t"
  using bit_index_set_clear [OF empty_4096, of 1010] by auto

text \<open>
  On the two-level set of 4096 bits, \<open>next_set_bit\<close> moves an iterator at any position to
  the least element after it, or to the end when there is none.
\<close>

lemma bit_index_next_set_bit:
  assumes "two_level t" and "p < 4096"
  shows "it_at t p = Some (itr2 p) \<and> (\<exists>it. it_next t (itr2 p) = Some it
    \<and> (let q = it_bit it in p < q \<and> q \<le> 4096 \<and> (\<forall>i. p < i \<longrightarrow> i < q \<longrightarrow> i \<notin> elems t)
        \<and> (if it_end t it then q = 4096 else q \<in> elems t \<and> it = itr2 q)))"
proof -
  have "it_at t p = Some (itr2 p)"
  proof -
    obtain b ws where t: "t = Index 4096 b (map Bits64 ws)" "length ws = 64"
      using assms(1) by (auto simp: two_level_def)
    have "p div 64 < 64" "p mod 64 < 256" using assms(2) by (simp_all add: less_trans [of _ 64])
    then show ?thesis using t by (simp add: itr2_def sub_index_4096 Let_def)
  qed
  then show ?thesis using two_level_next [OF assms] by blast
qed

lemma bit_index_next_set_bit_witness:
  "\<exists>it. it_next (Index 4096 0 (replicate 64 (Bits64 0))) (itr2 7) = Some it \<and> 7 < it_bit it"
  using bit_index_next_set_bit [OF empty_4096_two_level, of 7] by (auto simp: Let_def)

text \<open>
  The constructor of the iterator takes the subindex \<open>(bit/64)%64\<close>. On the three-level
  set of \<open>64 ^ 3\<close> bits an iterator made for position \<open>p\<close> therefore reads another bit.
\<close>

lemma bit_index_iterator_position:
  assumes "bix_ok (Index (64 ^ 3) b ts)" and "\<forall>t \<in> set ts. two_level t" and "p < 64 ^ 3"
  shows "\<exists>it. it_at (Index (64 ^ 3) b ts) p = Some it
    \<and> it_get (Index (64 ^ 3) b ts) it
        = bget (Index (64 ^ 3) b ts) (p div 64 mod 64 * 4096 + p mod 4096)"
proof -
  let ?i = "p div 64 mod 64" and ?j = "p mod 4096"
  have s: "sub_index_size (64 ^ 3) = 4096" by (simp add: sub_index_size_def)
  have len: "length ts = 64" using assms(1) by simp
  then have "two_level (ts ! ?i)" using assms(2) by simp
  then obtain b' ws where t: "ts ! ?i = Index 4096 b' (map Bits64 ws)" "length ws = 64"
    by (auto simp: two_level_def)
  have j64: "?j mod 64 < 64" and j4096: "?j < 4096" by simp_all
  have j: "?j div 64 < 64" "?j mod 64 < 256" "?j mod 64 < 64" "?j < 4096"
    using less_mult_imp_div_less [of ?j 64 64] j64 j4096 by linarith+
  have "(?i * 4096 + ?j) div 4096 = ?i" "(?i * 4096 + ?j) mod 4096 = ?j" by simp_all
  moreover have "?i * 4096 + ?j < 64 ^ 3"
  proof -
    have "?i * 4096 \<le> 63 * 4096" by (intro mult_le_mono1) (simp add: less_Suc_eq_le [symmetric])
    then show ?thesis using j(4) by simp
  qed
  moreover have le: "(4096 \<le> ?j) = False" by (simp add: not_le)
  ultimately show ?thesis
    using t j len by (simp add: s [simplified] sub_index_4096 Let_def le)
qed

lemma bit_index_iterator_position_witness:
  "let t = Index (64 ^ 3) 0 (replicate 64 (Index 4096 0 (replicate 64 (Bits64 0))))
   in \<exists>it. it_at t 64 = Some it \<and> it_get t it = bget t 4160"
proof -
  let ?e = "Index 4096 0 (replicate 64 (Bits64 0))"
  have "bix_ok (Index (64 ^ 3) 0 (replicate 64 ?e))"
    using empty_4096 empty_4096_elems by (simp del: bix_ok.simps(2) add: sub_index_size_def)
  moreover have "\<forall>t \<in> set (replicate 64 ?e). two_level t" using empty_4096_two_level by simp
  ultimately show ?thesis using bit_index_iterator_position [of 0 "replicate 64 ?e" 64] by simp
qed

text \<open>
  Sizes between 4033 and 4095 are accepted by the template's assertions, but their
  63 subindexes of 64 bits do not cover them: the positions from 4032 on lie past the array.
\<close>

lemma bit_index_uneven_size:
  assumes "4033 \<le> n" and "n < 4096" and "length ts = sub_index_count n" and "4032 \<le> p" and "p < n"
  shows "sub_index_size n = 64 \<and> sub_index_count n = 63
    \<and> bget (Index n b ts) p = None \<and> bset (Index n b ts) p = None"
proof -
  have s: "sub_index_size n = 64" using assms(1,2) by (simp add: sub_index_size_def)
  then have c: "sub_index_count n = 63" using assms(1,2) by (simp add: sub_index_count_def)
  have "63 \<le> p div 64" using div_le_mono [OF assms(4), of 64] by simp
  then show ?thesis using s c assms(3) by (simp add: Let_def)
qed

lemma bit_index_uneven_size_witness:
  "bset (Index 4040 0 (replicate 63 (Bits64 0))) 4035 = None"
  using bit_index_uneven_size [of 4040 "replicate 63 (Bits64 0)" 4035 0]
  by (simp add: sub_index_count_def sub_index_size_def)

end
