(* ===== verification/Winnie3.thy ===== *)
theory Winnie3
  imports ClientView
begin

text \<open>
  The fast pool allocator of \<open>winnie3/winnie.hpp\<close> and of \<open>winnie4/winnie.hpp\<close>, which
  makes the chunk size a template parameter: one free list per block size, carved from chunks
  that are themselves kept in a list through their first word. The state is that of one
  thread: the \<open>SThreadAllocatorState\<close> of every instantiation \<open>SIZE\<close>, and the list of
  those that own a chunk. \<open>K\<close> is \<open>CHUNK_SIZE\<close>.
\<close>

record winnie3 = world +
  pThreadAllocatorStates :: "nat list"
  m_pChunksHead :: "nat \<Rightarrow> nat"
  m_pFirstFree :: "nat \<Rightarrow> nat"

definition USE_OPERATOR_NEW :: nat where
  "USE_OPERATOR_NEW = 512"

definition CHUNK_SIZE3 :: nat where
  "CHUNK_SIZE3 = 4096"

definition w3_init :: "'a world_scheme \<Rightarrow> winnie3" where
  "w3_init w = \<lparr>cells = cells w, regions = regions w, pThreadAllocatorStates = [],
     m_pChunksHead = (\<lambda>_. 0), m_pFirstFree = (\<lambda>_. 0)\<rparr>"

text \<open>The loop of \<open>NewChunk\<close>, for \<open>i\<close> blocks still to link, from the last to the first.\<close>

fun link_chunk :: "nat \<Rightarrow> nat \<Rightarrow> nat \<Rightarrow> 'a winnie3_scheme \<Rightarrow> 'a winnie3_scheme option" where
  "link_chunk SIZE storage 0 s = Some s"
| "link_chunk SIZE storage (Suc i) s = do {
     let pFree = storage + i * SIZE;
     s \<leftarrow> store pFree (m_pFirstFree s SIZE) s;
     link_chunk SIZE storage i (s\<lparr>m_pFirstFree := (m_pFirstFree s)(SIZE := pFree)\<rparr>)
   }"

text \<open>
  \<open>p\<close> is the answer of \<open>new\<close>. The state of the size class joins the list of states before
  memory is asked for.
\<close>

definition NewChunk :: "nat \<Rightarrow> nat \<Rightarrow> nat \<Rightarrow> 'a winnie3_scheme \<Rightarrow> ((exn + unit) \<times> 'a winnie3_scheme) option" where
  "NewChunk K SIZE p s =
     (let s = (if m_pChunksHead s SIZE = 0
               then s\<lparr>pThreadAllocatorStates := SIZE # pThreadAllocatorStates s\<rparr> else s)
      in if p = 0 then Some (Inl Bad_alloc, s)
         else do {
           s \<leftarrow> store p (m_pChunksHead s SIZE) (sys_take p (K + 8) s);
           s \<leftarrow> link_chunk SIZE (p + 8) (K div SIZE) (s\<lparr>m_pChunksHead := (m_pChunksHead s)(SIZE := p)\<rparr>);
           Some (Inr (), s)
         })"

definition fl_Allocate :: "nat \<Rightarrow> nat \<Rightarrow> nat \<Rightarrow> 'a winnie3_scheme \<Rightarrow> ((exn + nat) \<times> 'a winnie3_scheme) option" where
  "fl_Allocate K SIZE p s = do {
     (r, s) \<leftarrow> (if m_pFirstFree s SIZE = 0 then NewChunk K SIZE p s else Some (Inr (), s));
     case r of
       Inl e \<Rightarrow> Some (Inl e, s)
     | Inr _ \<Rightarrow> do {
         let pFree = m_pFirstFree s SIZE;
         nxt \<leftarrow> load pFree s;
         Some (Inr pFree, s\<lparr>m_pFirstFree := (m_pFirstFree s)(SIZE := nxt)\<rparr>)
       }
   }"

definition fl_Deallocate :: "nat \<Rightarrow> nat \<Rightarrow> 'a winnie3_scheme \<Rightarrow> 'a winnie3_scheme option" where
  "fl_Deallocate SIZE p s = do {
     s \<leftarrow> store p (m_pFirstFree s SIZE) s;
     Some (s\<lparr>m_pFirstFree := (m_pFirstFree s)(SIZE := p)\<rparr>)
   }"

definition new_Allocate :: "nat \<Rightarrow> nat \<Rightarrow> 'a winnie3_scheme \<Rightarrow> (exn + nat) \<times> 'a winnie3_scheme" where
  "new_Allocate SIZE p s = (if p = 0 then (Inl Bad_alloc, s) else (Inr p, sys_take p SIZE s))"

text \<open>\<open>CSizedAllocator\<close>: the free lists up to 512 bytes, \<open>operator new\<close> above.\<close>

definition sized :: "nat \<Rightarrow> nat" where
  "sized SIZE = (if 8 \<le> SIZE then SIZE else 8)"

definition sized_Allocate :: "nat \<Rightarrow> nat \<Rightarrow> nat \<Rightarrow> 'a winnie3_scheme \<Rightarrow> ((exn + nat) \<times> 'a winnie3_scheme) option" where
  "sized_Allocate K SIZE p s =
     (if SIZE \<le> USE_OPERATOR_NEW then fl_Allocate K (sized SIZE) p s else Some (new_Allocate SIZE p s))"

definition sized_Deallocate :: "nat \<Rightarrow> nat \<Rightarrow> 'a winnie3_scheme \<Rightarrow> 'a winnie3_scheme option" where
  "sized_Deallocate SIZE p s =
     (if SIZE \<le> USE_OPERATOR_NEW then fl_Deallocate (sized SIZE) p s else c_free p s)"

text \<open>\<open>CFastPoolAllocator<T>\<close> for \<open>sizeof(T) = T\<close>.\<close>

definition cfp_allocate :: "nat \<Rightarrow> nat \<Rightarrow> nat \<Rightarrow> nat \<Rightarrow> 'a winnie3_scheme \<Rightarrow> ((exn + nat) \<times> 'a winnie3_scheme) option" where
  "cfp_allocate K T in_Count p s =
     (if in_Count \<noteq> 1 then Some (new_Allocate (in_Count * T) p s) else sized_Allocate K T p s)"

definition cfp_deallocate :: "nat \<Rightarrow> nat \<Rightarrow> nat \<Rightarrow> 'a winnie3_scheme \<Rightarrow> 'a winnie3_scheme option" where
  "cfp_deallocate T p in_Count s = (if in_Count \<noteq> 1 then c_free p s else sized_Deallocate T p s)"

definition cfp_max_size :: "nat \<Rightarrow> nat" where
  "cfp_max_size T = max_u64 div T"

text \<open>The clean-up of a thread walks the chunks of every size class; the heads are kept.\<close>

partial_function (option) Cleaner_loop :: "nat \<Rightarrow> 'a world_scheme \<Rightarrow> 'a world_scheme option" where
  "Cleaner_loop pChunk s =
     (if pChunk = 0 then Some s
      else do {
        pNext \<leftarrow> load pChunk s;
        s \<leftarrow> sys_give pChunk s;
        Cleaner_loop pNext s
      })"

definition Cleaner :: "nat \<Rightarrow> 'a winnie3_scheme \<Rightarrow> 'a winnie3_scheme option" where
  "Cleaner SIZE s = Cleaner_loop (m_pChunksHead s SIZE) s"

fun clean_states :: "nat list \<Rightarrow> 'a winnie3_scheme \<Rightarrow> 'a winnie3_scheme option" where
  "clean_states [] s = Some s"
| "clean_states (SIZE # ss) s = do { s \<leftarrow> Cleaner SIZE s; clean_states ss s }"

definition CleanThreadAllocatorState :: "'a winnie3_scheme \<Rightarrow> 'a winnie3_scheme option" where
  "CleanThreadAllocatorState s = clean_states (pThreadAllocatorStates s) s"

lemma keeps_winnie3 [simp]:
  "keeps L s (pThreadAllocatorStates_update f1 t) = keeps L s t"
  "keeps L s (m_pChunksHead_update f2 t) = keeps L s t"
  "keeps L s (m_pFirstFree_update f3 t) = keeps L s t"
  by (rule keeps_cong; simp)+

section \<open>The invariant\<close>

text \<open>
  Classes: \<open>Inl c\<close> are the blocks of \<open>c\<close> bytes, \<open>Inr c\<close> the headers of the chunks of
  size class \<open>c\<close>, which form the chunk list.
\<close>

fun w3_size :: "nat + nat \<Rightarrow> nat" where
  "w3_size (Inl c) = c"
| "w3_size (Inr c) = 8"

definition w3_heads :: "'a winnie3_scheme \<Rightarrow> nat + nat \<Rightarrow> nat" where
  "w3_heads s = case_sum (m_pFirstFree s) (m_pChunksHead s)"

definition w3_core :: "nat \<Rightarrow> 'a winnie3_scheme \<Rightarrow> (nat + nat \<Rightarrow> nat list) \<Rightarrow> (nat \<rightharpoonup> nat + nat) \<Rightarrow> bool" where
  "w3_core K s fs M \<longleftrightarrow>
     heap_inv w3_size (\<lambda>_. ptr_fmt 0) (cells s) (regions s) (w3_heads s) fs M
     \<and> (\<forall>x c. M x \<noteq> Some (Inr c))
     \<and> (\<forall>x c. M x = Some (Inl c) \<longrightarrow> 512 < c \<longrightarrow> (x, c) \<in> set (regions s))
     \<and> (\<forall>c. \<forall>x \<in> set (fs (Inr c)). (x, K + 8) \<in> set (regions s))
     \<and> distinct (pThreadAllocatorStates s)
     \<and> set (pThreadAllocatorStates s) = {c. fs (Inr c) \<noteq> []}"

definition w3_inv :: "nat \<Rightarrow> 'a winnie3_scheme \<Rightarrow> (nat \<rightharpoonup> nat) \<Rightarrow> bool" where
  "w3_inv K s L \<longleftrightarrow> 512 \<le> K \<and> (\<exists>fs M. w3_core K s fs M \<and> views 0 (\<lambda>c n. c = Inl (sized n)) L M)"

definition w3_env :: "nat \<Rightarrow> nat \<Rightarrow> nat \<Rightarrow> 'a winnie3_scheme \<Rightarrow> bool" where
  "w3_env K p n s \<longleftrightarrow> (if n \<le> 512 then m_pFirstFree s (sized n) = 0 \<longrightarrow> malloc_ok p (K + 8) s
     else malloc_ok p n s)"

definition w3_al :: "nat \<Rightarrow> nat \<Rightarrow> nat \<Rightarrow> 'a winnie3_scheme \<Rightarrow> (nat \<times> 'a winnie3_scheme) option" where
  "w3_al K p n s = (case sized_Allocate K n p s of Some (Inr q, s') \<Rightarrow> Some (q, s') | _ \<Rightarrow> None)"

definition w3_fr :: "nat \<Rightarrow> nat \<Rightarrow> 'a winnie3_scheme \<Rightarrow> 'a winnie3_scheme option" where
  "w3_fr p n s = sized_Deallocate n p s"

lemma sized_bounds: "8 \<le> sized n" "n \<le> sized n" "n \<le> 512 \<Longrightarrow> sized n \<le> 512" "512 < n \<Longrightarrow> sized n = n"
  by (auto simp: sized_def)

lemma roomy3: "roomy 0 (\<lambda>c n. c = Inl (sized n)) w3_size"
  using sized_bounds(2) by (simp add: roomy_def)

lemma w3_inv_init: "512 \<le> K \<Longrightarrow> regions_ok (regions w) \<Longrightarrow> w3_inv K (w3_init w) Map.empty"
proof -
  assume K: "512 \<le> K" and r: "regions_ok (regions w)"
  have h: "w3_heads (w3_init w) = (\<lambda>_. 0)"
    by (rule ext) (auto simp: w3_heads_def w3_init_def split: sum.splits)
  have "heap_inv w3_size (\<lambda>_. ptr_fmt 0) (cells w) (regions w) (\<lambda>_. 0) (\<lambda>_. []) Map.empty"
    using heap_init [OF r, of w3_size "\<lambda>_. ptr_fmt 0"] by simp
  then have "w3_core K (w3_init w) (\<lambda>_. []) Map.empty"
    by (simp add: w3_core_def h) (simp add: w3_init_def)
  then show ?thesis using K unfolding w3_inv_def
    by (intro conjI exI [of _ "\<lambda>_. []"] exI [of _ Map.empty]) simp_all
qed

text \<open>The links written by the loop of \<open>NewChunk\<close>.\<close>

lemma link_chunk_spec:
  assumes "inside st (N * w) (regions s)" and "8 \<le> w" and "i \<le> N"
  shows "\<exists>m. link_chunk w st i s = Some (s\<lparr>cells := m, m_pFirstFree :=
        (m_pFirstFree s)(w := if i = 0 then m_pFirstFree s w else st)\<rparr>)
    \<and> (\<forall>x. apart st (i * w) x 8 \<longrightarrow> m x = cells s x)
    \<and> (\<forall>j < i. m (st + j * w) = Some (if Suc j = i then m_pFirstFree s w else st + Suc j * w))"
  using assms
proof (induction i arbitrary: s)
  case 0
  then show ?case by (intro exI [of _ "cells s"]) simp
next
  case (Suc i)
  let ?v = "m_pFirstFree s w"
  let ?t = "s\<lparr>cells := poke (st + i * w) ?v (cells s), m_pFirstFree := (m_pFirstFree s)(w := st + i * w)\<rparr>"
  have ins: "inside (st + i * w) 8 (regions s)"
    using step_le [of i N w] Suc.prems(2,3) by (intro inside_mono [OF Suc.prems(1)]) auto
  obtain m where m: "link_chunk w st i ?t = Some (?t\<lparr>cells := m, m_pFirstFree :=
        (m_pFirstFree ?t)(w := if i = 0 then m_pFirstFree ?t w else st)\<rparr>)"
    "\<And>x. apart st (i * w) x 8 \<Longrightarrow> m x = cells ?t x"
    "\<And>j. j < i \<Longrightarrow> m (st + j * w) = Some (if Suc j = i then m_pFirstFree ?t w else st + Suc j * w)"
  proof -
    have "inside st (N * w) (regions ?t)" "i \<le> N" using Suc.prems by simp_all
    from Suc.IH [OF this(1) Suc.prems(2) this(2)] that show ?thesis by blast
  qed
  have "link_chunk w st (Suc i) s = Some (s\<lparr>cells := m, m_pFirstFree := (m_pFirstFree s)(w := st)\<rparr>)"
    using m(1) ins by (cases "i = 0") (simp_all add: store_def)
  moreover have "m x = cells s x" if "apart st (Suc i * w) x 8" for x
  proof -
    have "apart st (i * w) x 8" using that by (auto simp: apart_def)
    then have "m x = cells ?t x" by (rule m(2))
    also have "\<dots> = cells s x" using that Suc.prems(2) by (auto simp: apart_def)
    finally show ?thesis .
  qed
  moreover have "m (st + j * w) = Some (if Suc j = Suc i then ?v else st + Suc j * w)" if "j < Suc i" for j
  proof (cases "j = i")
    case True
    have "m (st + i * w) = cells ?t (st + i * w)" by (rule m(2)) (simp add: apart_def)
    then show ?thesis using True by simp
  next
    case False
    then show ?thesis using that m(3) [of j] by (cases "Suc j = i") auto
  qed
  ultimately show ?case
    by (intro exI [of _ m] conjI) (simp_all del: fun_upd_apply link_chunk.simps)
qed

lemma w3_coreD:
  assumes "w3_core K s fs M"
  shows "heap_inv w3_size (\<lambda>_. ptr_fmt 0) (cells s) (regions s) (w3_heads s) fs M"
    and "M x \<noteq> Some (Inr c)" and "M x = Some (Inl d) \<Longrightarrow> 512 < d \<Longrightarrow> (x, d) \<in> set (regions s)"
    and "x \<in> set (fs (Inr c)) \<Longrightarrow> (x, K + 8) \<in> set (regions s)"
    and "distinct (pThreadAllocatorStates s)"
    and "set (pThreadAllocatorStates s) = {c. fs (Inr c) \<noteq> []}"
  using assms by (auto simp: w3_core_def)

lemma w3_coreI:
  assumes "heap_inv w3_size (\<lambda>_. ptr_fmt 0) (cells s) (regions s) (w3_heads s) fs M"
    and "\<And>x c. M x \<noteq> Some (Inr c)" and "\<And>x d. M x = Some (Inl d) \<Longrightarrow> 512 < d \<Longrightarrow> (x, d) \<in> set (regions s)"
    and "\<And>x c. x \<in> set (fs (Inr c)) \<Longrightarrow> (x, K + 8) \<in> set (regions s)"
    and "distinct (pThreadAllocatorStates s)"
    and "set (pThreadAllocatorStates s) = {c. fs (Inr c) \<noteq> []}"
  shows "w3_core K s fs M"
  unfolding w3_core_def using assms by blast

lemma w3_heads_first: "w3_heads (s\<lparr>m_pFirstFree := (m_pFirstFree s)(c := v)\<rparr>) = (w3_heads s)(Inl c := v)"
  by (rule ext) (auto simp: w3_heads_def split: sum.splits)

lemma w3_heads_cong:
  "m_pFirstFree s = m_pFirstFree t \<Longrightarrow> m_pChunksHead s = m_pChunksHead t \<Longrightarrow> w3_heads s = w3_heads t"
  by (simp add: w3_heads_def)

text \<open>A new chunk: its header joins the chunk list, its blocks the empty free list.\<close>

lemma NewChunk_ok:
  assumes C: "w3_core K s fs M" and c: "8 \<le> c" "c \<le> K" and e: "m_pFirstFree s c = 0"
    and ok: "malloc_ok p (K + 8) s"
  shows "\<exists>s'. NewChunk K c p s = Some (Inr (), s')
    \<and> w3_core K s' (fs(Inr c := p # fs (Inr c), Inl c := grid (p + 8) c (K div c))) M
    \<and> regions s' = (p, K + 8) # regions s \<and> (\<forall>x. apart p (K + 8) x 8 \<longrightarrow> cells s' x = cells s x)"
proof -
  note H = w3_coreD(1) [OF C]
  let ?N = "K div c" and ?n = "K + 8"
  have p: "0 < p" using malloc_ok_pos [OF ok] by simp
  have N: "?N * c \<le> K" by (rule div_times_less_eq_dividend)
  have N0: "0 < ?N" using c by (simp add: div_greater_zero_iff)
  let ?a = "if m_pChunksHead s c = 0 then s\<lparr>pThreadAllocatorStates := c # pThreadAllocatorStates s\<rparr> else s"
  have hc: "m_pChunksHead s c = 0 \<longleftrightarrow> fs (Inr c) = []"
    using heap_empty_iff [OF H, of "Inr c"] by (simp add: w3_heads_def)
  let ?rs = "(p, ?n) # regions s" and ?m = "wipe p ?n (cells s)"
  have T: "heap_inv w3_size (\<lambda>_. ptr_fmt 0) ?m ?rs (w3_heads s) fs M"
    using H p malloc_ok_apart [OF ok] by (intro heap_take) auto
  have old: "apart p ?n x (w3_size d)" if "(x, d) \<in> blocks fs M" for x d
    using heap_block_inside [OF H that] malloc_ok_inside [OF ok] by blast
  have Cv: "heap_inv w3_size (\<lambda>_. ptr_fmt 0) ?m ?rs (w3_heads s) fs (M(p \<mapsto> Inr c))"
  proof (rule heap_carve [OF T])
    show "block_ok w3_size (\<lambda>_. ptr_fmt 0) ?rs p (Inr c)" using p by (simp add: block_ok_def inside_Cons)
    show "apart p (w3_size (Inr c)) y (w3_size d)" if "(y, d) \<in> blocks fs M" for y d
      using old [OF that] by (auto simp: apart_def)
  qed
  have Mp: "M p = None"
  proof (cases "M p")
    case (Some d)
    then show ?thesis using old [of p d] heap_block_size [OF H, of p d] by (simp add: in_blocks apart_def)
  qed
  let ?m1 = "poke p (m_pChunksHead s c) ?m" and ?fs1 = "fs(Inr c := p # fs (Inr c))"
  have P: "heap_inv w3_size (\<lambda>_. ptr_fmt 0) ?m1 ?rs ((w3_heads s)(Inr c := p)) ?fs1 M"
  proof -
    have "(M(p \<mapsto> Inr c))(p := None) = M" using Mp by auto
    moreover have "w3_heads s (Inr c) = m_pChunksHead s c" by (simp add: w3_heads_def)
    ultimately show ?thesis using heap_push [OF Cv, of p "Inr c"] by simp
  qed
  let ?b = "?a\<lparr>regions := ?rs, cells := ?m1, m_pChunksHead := (m_pChunksHead s)(c := p)\<rparr>"
  have ins: "inside (p + 8) (?N * c) (regions ?b)" using N by (simp add: inside_Cons)
  obtain m where m: "link_chunk c (p + 8) ?N ?b = Some (?b\<lparr>cells := m, m_pFirstFree :=
        (m_pFirstFree s)(c := p + 8)\<rparr>)"
    "\<And>x. apart (p + 8) (?N * c) x 8 \<Longrightarrow> m x = ?m1 x"
    "\<And>j. j < ?N \<Longrightarrow> m (p + 8 + j * c) = Some (if Suc j = ?N then 0 else p + 8 + Suc j * c)"
  proof -
    have "m_pFirstFree ?b = m_pFirstFree s" by simp
    from link_chunk_spec [OF ins c(1) order_refl, unfolded this e] N0 that show ?thesis by auto
  qed
  let ?u = "?b\<lparr>cells := m, m_pFirstFree := (m_pFirstFree s)(c := p + 8)\<rparr>"
  have run: "NewChunk K c p s = Some (Inr (), ?u)"
    using m(1) p by (cases "m_pChunksHead s c = 0")
      (simp_all add: NewChunk_def Let_def sys_take_def store_def inside_Cons)
  let ?fs2 = "?fs1(Inl c := grid (p + 8) c ?N)"
  have "heap_inv w3_size (\<lambda>_. ptr_fmt 0) m ?rs (((w3_heads s)(Inr c := p))(Inl c := p + 8))
      (?fs1(Inl c := grid (p + 8) (w3_size (Inl c)) ?N)) M"
  proof (rule heap_fill_grid [OF P, where k = 0])
    show "?fs1 (Inl c) = []" using heap_empty_iff [OF H, of "Inl c"] e by (simp add: w3_heads_def)
    show "inside (p + 8) (?N * w3_size (Inl c)) ?rs" using ins by simp
    show "apart (p + 8) (?N * w3_size (Inl c)) x (w3_size d)" if "(x, d) \<in> blocks ?fs1 M" for x d
    proof (cases "(x, d) \<in> blocks fs M")
      case True
      then show ?thesis using old [OF True] N unfolding apart_def w3_size.simps by linarith
    next
      case False
      then have "x = p" "d = Inr c" using that by (auto simp: in_blocks split: if_splits)
      then show ?thesis by (simp add: apart_def)
    qed
  qed (use N0 c m(2,3) in auto)
  moreover have "w3_heads ?u = ((w3_heads s)(Inr c := p))(Inl c := p + 8)"
    by (rule ext) (auto simp: w3_heads_def split: sum.splits)
  ultimately have HH: "heap_inv w3_size (\<lambda>_. ptr_fmt 0) (cells ?u) (regions ?u) (w3_heads ?u) ?fs2 M"
    by simp
  have "w3_core K ?u ?fs2 M"
  proof (rule w3_coreI [OF HH])
    show "set (pThreadAllocatorStates ?u) = {d. ?fs2 (Inr d) \<noteq> []}"
      using w3_coreD(6) [OF C] hc by auto
    show "distinct (pThreadAllocatorStates ?u)" using w3_coreD(5,6) [OF C] hc by auto
  qed (use w3_coreD(2-4) [OF C] in \<open>auto split: if_splits\<close>)
  moreover have "cells ?u x = cells s x" if "apart p ?n x 8" for x
  proof -
    have "apart (p + 8) (?N * c) x 8" using that N unfolding apart_def by linarith
    then have "m x = ?m1 x" by (rule m(2))
    also have "\<dots> = cells s x" using that by (auto simp: apart_def)
    finally show ?thesis by simp
  qed
  ultimately show ?thesis using run by (intro exI [of _ ?u]) auto
qed

section \<open>The laws of the interface\<close>

lemma w3_pop:
  assumes C: "w3_core K s fs M" and c: "fs (Inl c) = x # xs" "c \<le> 512"
  obtains q where "m_pFirstFree s c = x" and "x \<noteq> 0" and "load x s = Some q" and "M x = None"
    and "w3_core K (s\<lparr>m_pFirstFree := (m_pFirstFree s)(c := q)\<rparr>) (fs(Inl c := xs)) (M(x \<mapsto> Inl c))"
proof -
  note H = w3_coreD(1) [OF C]
  obtain q where q: "w3_heads s (Inl c) = x" "cells s x = Some q" "inside x 8 (regions s)" "M x = None"
    "heap_inv w3_size (\<lambda>_. ptr_fmt 0) (cells s) (regions s) ((w3_heads s)(Inl c := q)) (fs(Inl c := xs))
       (M(x \<mapsto> Inl c))"
    using heap_pop [OF H c(1)] by auto
  have "x \<noteq> 0" using heap_block_pos [OF H, of x "Inl c"] c(1) by (simp add: in_blocks)
  moreover have "w3_core K (s\<lparr>m_pFirstFree := (m_pFirstFree s)(c := q)\<rparr>) (fs(Inl c := xs)) (M(x \<mapsto> Inl c))"
  proof (rule w3_coreI)
    show "heap_inv w3_size (\<lambda>_. ptr_fmt 0) (cells (s\<lparr>m_pFirstFree := (m_pFirstFree s)(c := q)\<rparr>))
        (regions (s\<lparr>m_pFirstFree := (m_pFirstFree s)(c := q)\<rparr>))
        (w3_heads (s\<lparr>m_pFirstFree := (m_pFirstFree s)(c := q)\<rparr>)) (fs(Inl c := xs)) (M(x \<mapsto> Inl c))"
      unfolding w3_heads_first using q(5) by simp
  qed (use w3_coreD(2-6) [OF C] c(2) in \<open>auto split: if_splits\<close>)
  ultimately show ?thesis using that q(1-4) by (simp add: w3_heads_def load_def)
qed

lemma w3_views_del: "views 0 (\<lambda>c n. c = Inl (sized n)) L M \<Longrightarrow>
    views 0 (\<lambda>c n. c = Inl (sized n)) (L(x := None)) (M(x := None))"
  using views_del [of 0 _ L M x] by simp

lemma w3_views_upd: "views 0 (\<lambda>c n. c = Inl (sized n)) L M \<Longrightarrow>
    views 0 (\<lambda>c n. c = Inl (sized n)) (L(x \<mapsto> n)) (M(x \<mapsto> Inl (sized n)))"
  using views_upd [of 0 "\<lambda>c n. c = Inl (sized n)" L M "Inl (sized n)" n x] by simp

lemma w3_small_alloc:
  assumes K: "512 \<le> K" and C: "w3_core K s fs M" and V: "views 0 (\<lambda>c n. c = Inl (sized n)) L M"
    and e: "w3_env K p n s" and n: "n \<le> 512"
  shows "\<exists>q s'. w3_al K p n s = Some (q, s') \<and> fresh_block L q n \<and> w3_inv K s' (L(q \<mapsto> n)) \<and> keeps L s s'"
proof -
  let ?c = "sized n"
  have c: "8 \<le> ?c" "?c \<le> 512" "?c \<le> K" using sized_bounds [of n] n K by auto
  note H = w3_coreD(1) [OF C]
  obtain t gs where t: "(if m_pFirstFree s ?c = 0 then NewChunk K ?c p s else Some (Inr (), s)) = Some (Inr (), t)"
    "w3_core K t gs M" "gs (Inl ?c) \<noteq> []" "keeps L s t"
  proof (cases "m_pFirstFree s ?c = 0")
    case False
    then have "fs (Inl ?c) \<noteq> []" using heap_empty_iff [OF H, of "Inl ?c"] by (simp add: w3_heads_def)
    then show ?thesis using that [of s fs] C False by simp
  next
    case True
    then have ok: "malloc_ok p (K + 8) s" using e n by (simp add: w3_env_def)
    obtain t where t: "NewChunk K ?c p s = Some (Inr (), t)"
      "w3_core K t (fs(Inr ?c := p # fs (Inr ?c), Inl ?c := grid (p + 8) ?c (K div ?c))) M"
      "regions t = (p, K + 8) # regions s" "\<And>x. apart p (K + 8) x 8 \<Longrightarrow> cells t x = cells s x"
      using NewChunk_ok [OF C c(1,3) True ok] by blast
    have "keeps L s t" by (rule view_keeps_take [OF H V roomy3 ok t(3,4)])
    moreover have "grid (p + 8) ?c (K div ?c) \<noteq> []"
      using c by (simp add: grid_def div_greater_zero_iff)
    ultimately show ?thesis using that [OF _ t(2)] t(1) True by simp
  qed
  obtain x xs where gs: "gs (Inl ?c) = x # xs" using t(3) by (cases "gs (Inl ?c)") auto
  obtain q where q: "m_pFirstFree t ?c = x" "load x t = Some q" "M x = None"
    "w3_core K (t\<lparr>m_pFirstFree := (m_pFirstFree t)(?c := q)\<rparr>) (gs(Inl ?c := xs)) (M(x \<mapsto> Inl ?c))"
    using w3_pop [OF t(2) gs c(2)] by metis
  let ?u = "t\<lparr>m_pFirstFree := (m_pFirstFree t)(?c := q)\<rparr>"
  have al: "w3_al K p n s = Some (x, ?u)"
    unfolding w3_al_def sized_Allocate_def fl_Allocate_def t(1)
    using n q(1,2) by (simp add: USE_OPERATOR_NEW_def del: fun_upd_apply)
  have "w3_inv K ?u (L(x \<mapsto> n))"
    unfolding w3_inv_def using K q(4) w3_views_upd [OF V] by blast
  moreover have "fresh_block L x n"
    using view_fresh [OF w3_coreD(1) [OF q(4)] q(3) V roomy3, of n] by simp
  moreover have "keeps L s ?u" using t(4) by simp
  ultimately show ?thesis using al by blast
qed

lemma w3_big_alloc:
  assumes K: "512 \<le> K" and C: "w3_core K s fs M" and V: "views 0 (\<lambda>c n. c = Inl (sized n)) L M"
    and ok: "malloc_ok p n s" and n: "512 < n"
  shows "\<exists>q s'. w3_al K p n s = Some (q, s') \<and> fresh_block L q n \<and> w3_inv K s' (L(q \<mapsto> n)) \<and> keeps L s s'"
proof -
  note H = w3_coreD(1) [OF C]
  have p: "0 < p" using malloc_ok_pos [OF ok] by simp
  let ?u = "s\<lparr>regions := (p, n) # regions s, cells := wipe p n (cells s)\<rparr>"
  have T: "heap_inv w3_size (\<lambda>_. ptr_fmt 0) (cells ?u) (regions ?u) (w3_heads s) fs M"
    using H p n malloc_ok_apart [OF ok] heap_take [OF H p, of n] by simp
  have old: "apart p n x (w3_size d)" if "(x, d) \<in> blocks fs M" for x d
    using heap_block_inside [OF H that] malloc_ok_inside [OF ok] by blast
  have Cv: "heap_inv w3_size (\<lambda>_. ptr_fmt 0) (cells ?u) (regions ?u) (w3_heads ?u) fs (M(p \<mapsto> Inl n))"
    using p n old heap_carve [OF T, of p "Inl n"]
    by (simp add: block_ok_def inside_Cons w3_heads_cong [of ?u s])
  have Mp: "M p = None"
  proof (cases "M p")
    case (Some d)
    then show ?thesis using old [of p d] heap_block_size [OF H, of p d] n by (simp add: in_blocks apart_def)
  qed
  have C': "w3_core K ?u fs (M(p \<mapsto> Inl n))"
    by (rule w3_coreI [OF Cv]) (use w3_coreD(2-6) [OF C] in \<open>auto split: if_splits\<close>)
  have sz: "sized n = n" using sized_bounds(4) [OF n] .
  have "w3_al K p n s = Some (p, ?u)"
    using n p by (simp add: w3_al_def sized_Allocate_def new_Allocate_def USE_OPERATOR_NEW_def sys_take_def)
  moreover have "w3_inv K ?u (L(p \<mapsto> n))"
    unfolding w3_inv_def using K C' w3_views_upd [OF V, of p n] sz by auto
  moreover have "fresh_block L p n"
    using view_fresh [OF Cv Mp V roomy3, of n] sz by simp
  moreover have "keeps L s ?u"
    by (rule view_keeps_take [OF H V roomy3 ok]) (auto simp: apart_def)
  ultimately show ?thesis by blast
qed

lemma w3_free_ok:
  assumes I: "w3_inv K s L" and L: "L x = Some n"
  shows "\<exists>s'. w3_fr x n s = Some s' \<and> w3_inv K s' (L(x := None)) \<and> keeps (L(x := None)) s s'"
proof -
  obtain fs M where K: "512 \<le> K" and C: "w3_core K s fs M"
    and V: "views 0 (\<lambda>c n. c = Inl (sized n)) L M" using I by (auto simp: w3_inv_def)
  note H = w3_coreD(1) [OF C]
  have Mx: "M x = Some (Inl (sized n))" using viewsD [OF V L] by auto
  have x0: "0 < x" using heap_block_pos [OF H, of x] Mx by (auto simp: in_blocks)
  show ?thesis
  proof (cases "n \<le> 512")
    case True
    let ?c = "sized n"
    let ?u = "s\<lparr>cells := poke x (m_pFirstFree s ?c) (cells s)\<rparr>\<lparr>m_pFirstFree := (m_pFirstFree s)(?c := x)\<rparr>"
    have ins: "inside x 8 (regions s)"
      using heap_live_inside [OF H Mx, of x 8] sized_bounds(1) [of n] by simp
    have fr: "w3_fr x n s = Some ?u"
      using True ins by (simp add: w3_fr_def sized_Deallocate_def USE_OPERATOR_NEW_def fl_Deallocate_def store_def)
    have hd: "w3_heads ?u = (w3_heads s)(Inl ?c := x)"
      by (rule ext) (auto simp: w3_heads_def split: sum.splits)
    have "heap_inv w3_size (\<lambda>_. ptr_fmt 0) (cells ?u) (regions ?u) (w3_heads ?u)
        (fs(Inl ?c := x # fs (Inl ?c))) (M(x := None))"
      unfolding hd using heap_push [OF H Mx] by (simp add: w3_heads_def)
    then have "w3_core K ?u (fs(Inl ?c := x # fs (Inl ?c))) (M(x := None))"
      by (rule w3_coreI) (use w3_coreD(2-6) [OF C] in \<open>auto split: if_splits\<close>)
    then have "w3_inv K ?u (L(x := None))"
      unfolding w3_inv_def using K w3_views_del [OF V] by blast
    moreover have "keeps (L(x := None)) s ?u"
      using view_keeps_push [OF H V roomy3 Mx, of ?u] by simp
    ultimately show ?thesis using fr by blast
  next
    case False
    then have sz: "sized n = n" by (simp add: sized_bounds)
    have r: "(x, n) \<in> set (regions s)" using w3_coreD(3) [OF C, of x n] Mx False sz by simp
    let ?u = "s\<lparr>regions := filter (\<lambda>r. fst r \<noteq> x) (regions s), cells := wipe x n (cells s)\<rparr>"
    have g: "w3_fr x n s = Some ?u"
      using False sys_give_Some [OF heap_regions [OF H] r] x0
      by (simp add: w3_fr_def sized_Deallocate_def USE_OPERATOR_NEW_def c_free_def)
    have D: "heap_inv w3_size (\<lambda>_. ptr_fmt 0) (cells s) (regions s) (w3_heads s) fs (M(x := None))"
      using heap_drop_live [OF H, of "- {x}"] by (simp add: restrict_complement_singleton_eq)
    have ap: "apart y (w3_size d) x n" if "(y, d) \<in> blocks fs (M(x := None))" for y d
    proof -
      have "(y, d) \<in> blocks fs M" "(y, d) \<noteq> (x, Inl n)"
        using that heap_free_not_live [OF H] Mx sz by (auto simp: in_blocks split: if_splits)
      then show ?thesis using heap_apart [OF H, of y d x "Inl n"] Mx sz by (simp add: in_blocks)
    qed
    have G: "heap_inv w3_size (\<lambda>_. ptr_fmt 0) (cells ?u) (regions ?u) (w3_heads ?u) fs (M(x := None))"
      using heap_give [OF D r ap] w3_heads_cong [of ?u s] by simp
    have own: "y \<noteq> x" if "(y, d) \<in> blocks fs (M(x := None))" for y d
      using ap [OF that] heap_block_size [OF D that] False by (auto simp: apart_def)
    have "w3_core K ?u fs (M(x := None))"
    proof (rule w3_coreI [OF G])
      show "(y, K + 8) \<in> set (regions ?u)" if "y \<in> set (fs (Inr c))" for y c
        using own [of y "Inr c"] that w3_coreD(4) [OF C that] by (simp add: in_blocks)
    qed (use w3_coreD(2,3,5,6) [OF C] in \<open>auto split: if_splits\<close>)
    then have "w3_inv K ?u (L(x := None))"
      unfolding w3_inv_def using K w3_views_del [OF V] by blast
    moreover have "keeps (L(x := None)) s ?u"
    proof (rule view_keeps [OF D w3_views_del [OF V] roomy3])
      fix y d assume y: "(M(x := None)) y = Some d"
      then have ap': "apart y (w3_size d) x n" using ap [of y d] by (simp add: in_blocks)
      have yb: "(y, d) \<in> blocks fs (M(x := None))" using y by (simp add: in_blocks)
      show "inside y (w3_size d) (regions ?u)" using heap_block_inside [OF G yb] .
      fix a assume "y + 0 \<le> a" "a + 8 \<le> y + w3_size d"
      then show "cells ?u a = cells s a" using ap' by (simp, intro wipe_apart) (auto simp: apart_def)
    qed
    ultimately show ?thesis using g by blast
  qed
qed

lemma w3_write_ok:
  assumes I: "w3_inv K s L" and L: "L p = Some n" "p \<le> a" "a + 8 \<le> p + n"
  shows "\<exists>s'. store a v s = Some s' \<and> w3_inv K s' L"
proof -
  obtain fs M where K: "512 \<le> K" and C: "w3_core K s fs M"
    and V: "views 0 (\<lambda>c n. c = Inl (sized n)) L M" using I by (auto simp: w3_inv_def)
  note W = view_write [OF w3_coreD(1) [OF C] V roomy3 L]
  let ?u = "s\<lparr>cells := poke a v (cells s)\<rparr>"
  have "w3_core K ?u fs M"
    by (rule w3_coreI) (use W w3_coreD(2-6) [OF C] w3_heads_cong [of ?u s] in auto)
  then show ?thesis using W K V unfolding w3_inv_def by (simp add: store_def) blast
qed

interpretation w3: client_heap "w3_inv K" "w3_env K" "w3_al K" w3_fr
proof unfold_locales
  fix s :: "'a winnie3_scheme" and L e n
  assume I: "w3_inv K s L" and e: "w3_env K e n s"
  then obtain fs M where C: "512 \<le> K" "w3_core K s fs M" "views 0 (\<lambda>c n. c = Inl (sized n)) L M"
    by (auto simp: w3_inv_def)
  show "\<exists>p s'. w3_al K e n s = Some (p, s') \<and> fresh_block L p n \<and> w3_inv K s' (L(p \<mapsto> n))
      \<and> keeps L s s'"
  proof (cases "n \<le> 512")
    case True
    show ?thesis by (rule w3_small_alloc [OF C e True])
  next
    case False
    then have ok: "malloc_ok e n s" and n: "512 < n" using e by (simp_all add: w3_env_def)
    show ?thesis by (rule w3_big_alloc [OF C ok n])
  qed
next
  fix s :: "'a winnie3_scheme" and L p n
  assume "w3_inv K s L" "L p = Some n"
  then show "\<exists>s'. w3_fr p n s = Some s' \<and> w3_inv K s' (L(p := None)) \<and> keeps (L(p := None)) s s'"
    by (rule w3_free_ok)
next
  fix s :: "'a winnie3_scheme" and L p n a v
  assume "w3_inv K s L" "L p = Some n" "p \<le> a" "a + 8 \<le> p + n"
  then show "\<exists>s'. store a v s = Some s' \<and> w3_inv K s' L" by (rule w3_write_ok)
next
  fix s :: "'a winnie3_scheme" and L
  assume "w3_inv K s L"
  then show "disjoint_blocks L"
    unfolding w3_inv_def using view_disjoint [OF w3_coreD(1) _ roomy3] by blast
qed

section \<open>Cleaning up a thread\<close>

lemma Cleaner_loop_ok:
  assumes "chain (ptr_fmt 0) (cells s) v xs" and "distinct xs" and "regions_ok (regions s)"
    and "\<And>x. x \<in> set xs \<Longrightarrow> (x, n) \<in> set (regions s)" and "8 \<le> n"
  shows "\<exists>m. Cleaner_loop v s
      = Some (s\<lparr>regions := filter (\<lambda>r. fst r \<notin> set xs) (regions s), cells := m\<rparr>)
    \<and> (\<forall>a. (\<forall>x \<in> set xs. apart x n a 8) \<longrightarrow> m a = cells s a)"
  using assms
proof (induction xs arbitrary: s v)
  case Nil
  then show ?case by (intro exI [of _ "cells s"]) (subst Cleaner_loop.simps, simp)
next
  case (Cons x xs)
  obtain q where q: "v = x" "x \<noteq> 0" "cells s x = Some q" "chain (ptr_fmt 0) (cells s) q xs"
    using Cons.prems(1) by auto
  have x: "(x, n) \<in> set (regions s)" "x \<notin> set xs" using Cons.prems(2,4) by auto
  let ?t = "s\<lparr>regions := filter (\<lambda>r. fst r \<noteq> x) (regions s), cells := wipe x n (cells s)\<rparr>"
  have g: "sys_give x s = Some ?t" by (rule sys_give_Some [OF Cons.prems(3) x(1)])
  have ld: "load x s = Some q"
    using q(3) insideI [OF x(1), of x 8] Cons.prems(5) by (simp add: load_def)
  have ap: "apart x n y 8" if "y \<in> set xs" for y
  proof -
    have "x \<noteq> y" using that x(2) by blast
    then have "apart x n y n"
      using regions_ok_apart [OF Cons.prems(3) x(1), of y n] Cons.prems(4) [of y] that by simp
    then show ?thesis using Cons.prems(5) by (auto simp: apart_def)
  qed
  have c: "chain (ptr_fmt 0) (cells ?t) q xs"
    using q(4) ap by (subst chain_cong [where m' = "cells s"]) (auto simp: apart_def)
  have own: "(y, n) \<in> set (regions ?t)" if "y \<in> set xs" for y
    using that Cons.prems(4) [of y] x(2) by auto
  have "distinct xs" "regions_ok (regions ?t)"
    using Cons.prems(2,3) by (simp_all add: regions_ok_filter)
  then obtain m where m: "Cleaner_loop q ?t
      = Some (?t\<lparr>regions := filter (\<lambda>r. fst r \<notin> set xs) (regions ?t), cells := m\<rparr>)"
    "\<And>a. (\<forall>x \<in> set xs. apart x n a 8) \<Longrightarrow> m a = cells ?t a"
    using Cons.IH [OF c _ _ own Cons.prems(5)] by blast
  have "Cleaner_loop v s = Cleaner_loop q ?t"
    using q(1,2) ld g by (subst Cleaner_loop.simps) simp
  moreover have "m a = cells s a" if "\<forall>x \<in> set (x # xs). apart x n a 8" for a
  proof -
    have "m a = cells ?t a" using that by (intro m(2)) simp
    also have "\<dots> = cells s a" using that by (auto simp: apart_def)
    finally show ?thesis .
  qed
  ultimately show ?case using m(1) by (intro exI [of _ m]) (auto simp: conj_commute)
qed

text \<open>All chunks of the size classes \<open>ss\<close> go back, and nothing else.\<close>

lemma clean_states_ok:
  assumes "\<And>c. c \<in> set ss \<Longrightarrow> chain (ptr_fmt 0) (cells s) (m_pChunksHead s c) (cs c) \<and> distinct (cs c)"
    and "\<And>c x. c \<in> set ss \<Longrightarrow> x \<in> set (cs c) \<Longrightarrow> (x, n) \<in> set (regions s)"
    and "\<And>c d. c \<in> set ss \<Longrightarrow> d \<in> set ss \<Longrightarrow> c \<noteq> d \<Longrightarrow> set (cs c) \<inter> set (cs d) = {}"
    and "distinct ss" and "regions_ok (regions s)" and "8 \<le> n"
  shows "\<exists>m. clean_states ss s
      = Some (s\<lparr>regions := filter (\<lambda>r. fst r \<notin> (\<Union>c \<in> set ss. set (cs c))) (regions s), cells := m\<rparr>)"
  using assms
proof (induction ss arbitrary: s)
  case Nil
  then show ?case by (intro exI [of _ "cells s"]) simp
next
  case (Cons c ss)
  have "\<And>x. x \<in> set (cs c) \<Longrightarrow> (x, n) \<in> set (regions s)" using Cons.prems(2) [of c] by simp
  then obtain m where m: "Cleaner c s
      = Some (s\<lparr>regions := filter (\<lambda>r. fst r \<notin> set (cs c)) (regions s), cells := m\<rparr>)"
    "\<And>a. (\<forall>x \<in> set (cs c). apart x n a 8) \<Longrightarrow> m a = cells s a"
    using Cleaner_loop_ok [of s "m_pChunksHead s c" "cs c" n] Cons.prems(1) [of c] Cons.prems(5,6)
    unfolding Cleaner_def by auto
  let ?t = "s\<lparr>regions := filter (\<lambda>r. fst r \<notin> set (cs c)) (regions s), cells := m\<rparr>"
  have dis: "set (cs c) \<inter> set (cs d) = {}" if "d \<in> set ss" for d
    using Cons.prems(3) [of c d] that Cons.prems(4) by auto
  have own: "(x, n) \<in> set (regions ?t)" if "d \<in> set ss" "x \<in> set (cs d)" for d x
    using Cons.prems(2) [of d x] dis [of d] that by auto
  have same: "m x = cells s x" if "d \<in> set ss" "x \<in> set (cs d)" for d x
  proof (rule m(2), rule ballI)
    fix y assume y: "y \<in> set (cs c)"
    have "y \<noteq> x" using dis [OF that(1)] y that(2) by blast
    then have "apart y n x n"
      using regions_ok_apart [OF Cons.prems(5), of y n x n] Cons.prems(2) [of c y] Cons.prems(2) [of d x] y that
      by auto
    then show "apart y n x 8" using Cons.prems(6) by (auto simp: apart_def)
  qed
  have ch: "chain (ptr_fmt 0) (cells ?t) (m_pChunksHead ?t d) (cs d) \<and> distinct (cs d)" if "d \<in> set ss" for d
    using Cons.prems(1) [of d] same [OF that] that by (subst chain_cong [where m' = "cells s"]) auto
  have ds: "distinct ss" "regions_ok (regions ?t)"
    using Cons.prems(4,5) by (simp_all add: regions_ok_filter)
  have pd: "\<And>d e. d \<in> set ss \<Longrightarrow> e \<in> set ss \<Longrightarrow> d \<noteq> e \<Longrightarrow> set (cs d) \<inter> set (cs e) = {}"
    using Cons.prems(3) by simp
  obtain m' where "clean_states ss ?t = Some (?t\<lparr>regions :=
      filter (\<lambda>r. fst r \<notin> (\<Union>c \<in> set ss. set (cs c))) (regions ?t), cells := m'\<rparr>)"
    using Cons.IH [of ?t, OF ch] own pd ds Cons.prems(6) by blast
  then show ?case using m(1) by (intro exI [of _ m']) (auto intro: filter_cong)
qed

section \<open>The chunk size as a parameter\<close>

text \<open>
  \<open>winnie4/winnie.hpp\<close> is the same code with \<open>CHUNK_SIZE\<close> a template parameter and a
  static assertion in \<open>NewChunk\<close>; a failing assertion is a fault here.
\<close>

definition MWinnie_NewChunk :: "nat \<Rightarrow> nat \<Rightarrow> nat \<Rightarrow> 'a winnie3_scheme \<Rightarrow> ((exn + unit) \<times> 'a winnie3_scheme) option" where
  "MWinnie_NewChunk K SIZE p s = (if SIZE < K + 8 then NewChunk K SIZE p s else None)"

definition MWinnie_Allocate :: "nat \<Rightarrow> nat \<Rightarrow> nat \<Rightarrow> 'a winnie3_scheme \<Rightarrow> ((exn + nat) \<times> 'a winnie3_scheme) option" where
  "MWinnie_Allocate K SIZE p s = do {
     (r, s) \<leftarrow> (if m_pFirstFree s SIZE = 0 then MWinnie_NewChunk K SIZE p s else Some (Inr (), s));
     case r of
       Inl e \<Rightarrow> Some (Inl e, s)
     | Inr _ \<Rightarrow> do {
         let pFree = m_pFirstFree s SIZE;
         nxt \<leftarrow> load pFree s;
         Some (Inr pFree, s\<lparr>m_pFirstFree := (m_pFirstFree s)(SIZE := nxt)\<rparr>)
       }
   }"

definition MWinnie_sized_Allocate :: "nat \<Rightarrow> nat \<Rightarrow> nat \<Rightarrow> 'a winnie3_scheme \<Rightarrow> ((exn + nat) \<times> 'a winnie3_scheme) option" where
  "MWinnie_sized_Allocate K SIZE p s =
     (if SIZE \<le> USE_OPERATOR_NEW then MWinnie_Allocate K (sized SIZE) p s
      else Some (new_Allocate SIZE p s))"

definition MWinnie_cfp_allocate :: "nat \<Rightarrow> nat \<Rightarrow> nat \<Rightarrow> nat \<Rightarrow> 'a winnie3_scheme \<Rightarrow> ((exn + nat) \<times> 'a winnie3_scheme) option" where
  "MWinnie_cfp_allocate K T in_Count p s =
     (if in_Count \<noteq> 1 then Some (new_Allocate (in_Count * T) p s) else MWinnie_sized_Allocate K T p s)"

section \<open>Properties\<close>

text \<open>
  C16. For every chunk size from 512 bytes on, any legal program that allocates and frees single
  objects of any mix of sizes, small ones from the per-size free lists and large ones from
  \<open>operator new\<close>, runs without undefined behaviour, holds disjoint blocks and keeps contents.
\<close>

theorem winnie3_programs_sound:
  assumes "512 \<le> K" and "regions_ok (regions w)"
    and "legal (w3_env K) (w3_al K) w3_fr (cs @ cs') (w3_init w) Map.empty"
  shows "sound_run (w3_al K) w3_fr cs cs' (w3_init w)"
  by (rule w3.run_sound [OF w3_inv_init [OF assms(1,2)] assms(3)])

theorem winnie3_programs_sound_witness:
  "\<exists>t K. run (w3_al 512) w3_fr [Malloc 4096 512, Write 4104 8 7, Malloc 8192 700, Free 8192]
      (w3_init \<lparr>cells = \<lambda>_. None, regions = []\<rparr>) Map.empty = Some (t, K)
    \<and> disjoint_blocks K \<and> K 4104 = Some 512 \<and> load (4104 + 8) t = Some 7"
proof -
  let ?w = "\<lparr>cells = \<lambda>_. None, regions = []\<rparr>"
  let ?cs = "[Malloc 4096 512, Write 4104 8 7] :: nat cmd list" and ?cs' = "[Malloc 8192 700, Free 8192] :: nat cmd list"
  note defs = w3_env_def w3_al_def w3_fr_def sized_Allocate_def sized_Deallocate_def sized_def
    fl_Allocate_def NewChunk_def new_Allocate_def USE_OPERATOR_NEW_def w3_init_def Let_def sys_take_def
    store_def load_def inside_def malloc_ok_def apart_def c_free_def sys_give_def
  have "legal (w3_env 512) (w3_al 512) w3_fr (?cs @ ?cs') (w3_init ?w) Map.empty"
    by (simp add: defs)
  then have S: "sound_run (w3_al 512) w3_fr ?cs ?cs' (w3_init ?w)"
    by (intro winnie3_programs_sound) simp_all
  obtain t K where "run (w3_al 512) w3_fr ?cs (w3_init ?w) Map.empty = Some (t, K)"
    "K 4104 = Some 512" "load (4104 + 8) t = Some 7"
    by (simp add: defs)
  then show ?thesis using sound_runD [OF S, of t K 4104 512 8] by simp
qed

text \<open>
  At the end of a thread, in any state reached by allocating and freeing, the clean-up gives
  back every chunk of every size class and no other object.
\<close>

lemma winnie3_cleanup_returns_chunks:
  assumes "w3_inv K s L"
  shows "\<exists>fs m. (\<forall>c. chain (ptr_fmt 0) (cells s) (m_pChunksHead s c) (fs c))
    \<and> CleanThreadAllocatorState s
        = Some (s\<lparr>regions := filter (\<lambda>r. fst r \<notin> (\<Union>c. set (fs c))) (regions s), cells := m\<rparr>)
    \<and> (\<forall>p n. L p = Some n \<longrightarrow> 512 < n \<longrightarrow> (p, n) \<in> set (filter (\<lambda>r. fst r \<notin> (\<Union>c. set (fs c))) (regions s)))"
proof -
  obtain fs M where C: "w3_core K s fs M" and V: "views 0 (\<lambda>c n. c = Inl (sized n)) L M"
    using assms by (auto simp: w3_inv_def)
  note H = w3_coreD(1) [OF C]
  let ?g = "\<lambda>c. fs (Inr c)" and ?ss = "pThreadAllocatorStates s"
  have ch: "chain (ptr_fmt 0) (cells s) (m_pChunksHead s c) (?g c)" for c
    using heap_chain [OF H, of "Inr c"] by (simp add: w3_heads_def)
  have dis: "set (?g c) \<inter> set (?g d) = {}" if "c \<noteq> d" for c d
    using heap_class_unique [OF H, of _ "Inr c" "Inr d"] that by (auto simp: in_blocks)
  obtain m where m: "clean_states ?ss s
      = Some (s\<lparr>regions := filter (\<lambda>r. fst r \<notin> (\<Union>c \<in> set ?ss. set (?g c))) (regions s), cells := m\<rparr>)"
    using clean_states_ok [of ?ss s ?g "K + 8"] ch dis heap_distinct [OF H] w3_coreD(4,5) [OF C]
      heap_regions [OF H] by auto
  have U: "(\<Union>c \<in> set ?ss. set (?g c)) = (\<Union>c. set (?g c))" using w3_coreD(6) [OF C] by auto
  have "(p, n) \<in> set (filter (\<lambda>r. fst r \<notin> (\<Union>c. set (?g c))) (regions s))"
    if p: "L p = Some n" "512 < n" for p n
  proof -
    have M: "M p = Some (Inl n)" using viewsD [OF V p(1)] sized_bounds(4) [OF p(2)] by auto
    have "p \<notin> set (?g c)" for c
      using heap_class_unique [OF H, of p "Inl n" "Inr c"] M by (auto simp: in_blocks)
    then show ?thesis using w3_coreD(3) [OF C M p(2)] by simp
  qed
  then show ?thesis
    using ch m unfolding CleanThreadAllocatorState_def U by (intro exI [of _ ?g] exI [of _ m]) blast
qed

lemma winnie3_cleanup_returns_chunks_witness:
  "\<exists>q s. w3_al 512 4096 512 (w3_init \<lparr>cells = \<lambda>_. None, regions = []\<rparr>) = Some (q, s)
    \<and> CleanThreadAllocatorState s \<noteq> None"
proof -
  let ?s = "w3_init \<lparr>cells = \<lambda>_. None, regions = []\<rparr>"
  have i: "w3_inv 512 ?s Map.empty" by (rule w3_inv_init) simp_all
  have e: "w3_env 512 4096 512 ?s" by (simp add: w3_env_def w3_init_def malloc_ok_def)
  obtain q s where s: "w3_al 512 4096 512 ?s = Some (q, s)" "w3_inv 512 s [q \<mapsto> 512]"
    using w3.alloc_ok [OF i e] by blast
  from winnie3_cleanup_returns_chunks [OF s(2)] s(1) show ?thesis by auto
qed

text \<open>
  The static assertion of the variant with a chunk size parameter admits block sizes that
  are larger than the chunk: such a chunk holds no block, and the allocation reads through the
  null pointer.
\<close>

lemma winnie4_chunk_without_block:
  assumes "K < SIZE" and "SIZE < K + 8" and "m_pFirstFree s SIZE = 0" and "regions_ok (regions s)"
    and "malloc_ok p (K + 8) s"
  shows "MWinnie_NewChunk K SIZE p s \<noteq> None \<and> MWinnie_Allocate K SIZE p s = None"
proof -
  have p: "0 < p" using malloc_ok_pos [OF assms(5)] by simp
  obtain t where t: "NewChunk K SIZE p s = Some (Inr (), t)" "m_pFirstFree t SIZE = 0"
    "regions t = (p, K + 8) # regions s"
    using assms(1,3) p by (simp add: NewChunk_def Let_def sys_take_def store_def inside_Cons)
  have "\<not> inside 0 8 (regions t)"
    using inside_pos [of "regions t" 0 8] regions_ok_take [OF assms(4,5)] p t(3) by (auto simp: sys_take_def)
  then have "load 0 t = None" by (simp add: load_def)
  then show ?thesis
    using assms(2,3) t(1,2) by (simp add: MWinnie_Allocate_def MWinnie_NewChunk_def)
qed

lemma winnie4_chunk_without_block_witness:
  "MWinnie_Allocate 500 504 4096 (w3_init \<lparr>cells = \<lambda>_. None, regions = []\<rparr>) = None"
  using winnie4_chunk_without_block [of 500 504 "w3_init \<lparr>cells = \<lambda>_. None, regions = []\<rparr>" 4096]
  by (simp add: w3_init_def malloc_ok_def)

end
