(* ===== verification/Winnie1.thy ===== *)
theory Winnie1
  imports ClientView
begin

text \<open>
  \<open>winnie1/winnie_alloc.cpp\<close>: lists of free blocks of size \<open>2 ^ list_num\<close>, refilled by
  splitting a bigger block or a block of a megabyte from the system; requests from 1024 bytes
  on go to \<open>malloc\<close>. Every block starts with a header of 8 bytes: the link while it is free,
  and while it is in use the byte \<open>is_malloced\<close> and the byte \<open>list_num\<close>, the other
  bytes keeping what they held.
\<close>

record winnie1 = world +
  os_block_num :: nat
  os_blocks :: "nat \<Rightarrow> nat"
  free_blocks_lists :: "nat \<Rightarrow> nat"

definition max_lists_num :: nat where
  "max_lists_num = 31"

definition first_os_block_size_log :: nat where
  "first_os_block_size_log = 20"

definition malloc_threshold :: nat where
  "malloc_threshold = 1024"

definition max_os_block_num :: nat where
  "max_os_block_num = 1 + 34359738368 div 2 ^ first_os_block_size_log"

definition w1_init :: "'a world_scheme \<Rightarrow> winnie1" where
  "w1_init w = \<lparr>cells = cells w, regions = regions w, os_block_num = 0, os_blocks = (\<lambda>_. 0),
     free_blocks_lists = (\<lambda>_. 0)\<rparr>"

section \<open>The header\<close>

definition is_malloced :: "nat \<Rightarrow> nat" where
  "is_malloced v = v mod 256"

definition list_num :: "nat \<Rightarrow> nat" where
  "list_num v = v div 256 mod 256"

definition put_malloced :: "nat \<Rightarrow> nat \<Rightarrow> nat" where
  "put_malloced b v = v div 256 * 256 + b"

definition put_list_num :: "nat \<Rightarrow> nat \<Rightarrow> nat" where
  "put_list_num l v = v div 65536 * 65536 + l mod 256 * 256 + v mod 256"

lemma put_malloced_fields:
  assumes "b < 256"
  shows "is_malloced (put_malloced b v) = b" and "list_num (put_malloced b v) = list_num v"
  using assms by (simp_all add: is_malloced_def put_malloced_def list_num_def)

lemma put_list_num_fields:
  assumes "l < 256"
  shows "is_malloced (put_list_num l v) = is_malloced v" and "list_num (put_list_num l v) = l"
proof -
  have "put_list_num l v = (v div 65536 * 256 + l) * 256 + v mod 256"
    using assms by (simp add: put_list_num_def)
  then have "put_list_num l v div 256 = v div 65536 * 256 + l" "put_list_num l v mod 256 = v mod 256"
    by (simp_all only: div_mult_self3 mod_mult_self3) simp_all
  then show "is_malloced (put_list_num l v) = is_malloced v" "list_num (put_list_num l v) = l"
    using assms by (simp_all add: is_malloced_def list_num_def)
qed

section \<open>Size classes\<close>

definition BitTable :: "nat list" where
  "BitTable = [0, 1, 2, 2, 3, 3, 3, 3] @ replicate 8 4 @ replicate 16 5 @ replicate 32 6
     @ replicate 64 7 @ replicate 128 8"

definition GetNextPowerOfTwo :: "nat \<Rightarrow> nat option" where
  "GetNextPowerOfTwo k =
     (let k = dec64 k
      in if k < 256 then Some (BitTable ! k)
         else if k < 256 * 256 then Some (BitTable ! (k div 2 ^ 8) + 8)
         else if k < 256 * 256 * 256 then Some (BitTable ! (k div 2 ^ 16) + 16)
         else if k div 2 ^ 24 < 256 then Some (BitTable ! (k div 2 ^ 24) + 24)
         else None)"

lemma BitTable_bits: "\<forall>k \<in> set [0..<256]. k < 2 ^ (BitTable ! k) \<and> (0 < k \<longrightarrow> 2 ^ (BitTable ! k) \<le> 2 * k)"
  by code_simp

lemma BitTable_bound: "k < 256 \<Longrightarrow> k < 2 ^ (BitTable ! k) \<and> (0 < k \<longrightarrow> 2 ^ (BitTable ! k) \<le> 2 * k)"
  using BitTable_bits by (simp only: atLeastLessThan_iff set_upt) simp

text \<open>The bits of \<open>k\<close> from those of its upper part.\<close>

lemma bits_shift:
  fixes k :: nat
  assumes "k div 2 ^ j < 2 ^ b" and "2 ^ b \<le> 2 * (k div 2 ^ j)"
  shows "k < 2 ^ (b + j)" and "2 ^ (b + j) \<le> 2 * k"
proof -
  have "k < 2 ^ b * 2 ^ j" using assms(1) by (simp add: div_less_iff_less_mult)
  then show "k < 2 ^ (b + j)" by (simp add: power_add)
  have "2 ^ b * 2 ^ j \<le> 2 * (k div 2 ^ j) * 2 ^ j" using assms(2) by simp
  also have "\<dots> \<le> 2 * k" by (simp add: mult.assoc)
  finally show "2 ^ (b + j) \<le> 2 * k" by (simp add: power_add)
qed

lemma GetNextPowerOfTwo_spec:
  assumes "0 < k" and "k \<le> 2 ^ 32"
  shows "\<exists>r. GetNextPowerOfTwo k = Some r \<and> k \<le> 2 ^ r \<and> (1 < k \<longrightarrow> 2 ^ r < 2 * k) \<and> (k = 1 \<longrightarrow> r = 0)"
proof -
  define i where "i = k - 1"
  have k: "dec64 k = i" "k = Suc i" "i < 2 ^ 32" using assms by (simp_all add: i_def)
  have up: "\<exists>r. Some (BitTable ! (i div 2 ^ j) + j) = Some r \<and> k \<le> 2 ^ r \<and> (1 < k \<longrightarrow> 2 ^ r < 2 * k)
      \<and> (k = 1 \<longrightarrow> r = 0)" if j: "i div 2 ^ j < 256" "0 < i div 2 ^ j" for j
  proof -
    have "i \<noteq> 0" using j(2) by (metis div_0 less_irrefl)
    then show ?thesis
      using BitTable_bound [OF j(1)] j(2) bits_shift [of i j "BitTable ! (i div 2 ^ j)"] k(2) by auto
  qed
  consider "i < 256" | "256 \<le> i" "i < 256 * 256" | "256 * 256 \<le> i" "i < 256 * 256 * 256"
    | "256 * 256 * 256 \<le> i" by linarith
  then show ?thesis
  proof cases
    case 1
    then show ?thesis
      using BitTable_bound [OF 1] k by (cases "i = 0") (auto simp: GetNextPowerOfTwo_def BitTable_def)
  next
    case 2
    have "i div 2 ^ 8 < 256" "0 < i div 2 ^ 8" using 2 by simp_all
    then show ?thesis using up [of 8] 2 k(1) by (simp add: GetNextPowerOfTwo_def)
  next
    case 3
    have "i div 2 ^ 16 < 256" "0 < i div 2 ^ 16" using 3 by simp_all
    then show ?thesis using up [of 16] 3 k(1) by (simp add: GetNextPowerOfTwo_def)
  next
    case 4
    have "i div 2 ^ 24 < 256" "0 < i div 2 ^ 24" using 4 k(3) by simp_all
    then show ?thesis using up [of 24] 4 k(1) by (simp add: GetNextPowerOfTwo_def)
  qed
qed

section \<open>The operations\<close>

definition AddBlockToList :: "nat \<Rightarrow> nat \<Rightarrow> 'a winnie1_scheme \<Rightarrow> 'a winnie1_scheme option" where
  "AddBlockToList p_memory l s =
     (if max_lists_num < l then None
      else do {
        s \<leftarrow> store p_memory (free_blocks_lists s l) s;
        Some (s\<lparr>free_blocks_lists := (free_blocks_lists s)(l := p_memory)\<rparr>)
      })"

definition DetachFirstBlock :: "nat \<Rightarrow> 'a winnie1_scheme \<Rightarrow> (nat \<times> 'a winnie1_scheme) option" where
  "DetachFirstBlock l s =
     (if max_lists_num < l then None
      else do {
        let p_header = free_blocks_lists s l;
        nxt \<leftarrow> load p_header s;
        let s = s\<lparr>free_blocks_lists := (free_blocks_lists s)(l := nxt)\<rparr>;
        s \<leftarrow> store p_header (put_list_num l nxt) s;
        v \<leftarrow> load p_header s;
        s \<leftarrow> store p_header (put_malloced 0 v) s;
        Some (p_header, s)
      })"

text \<open>
  The loop of \<open>SplitBlockAndAddToLists\<close>; \<open>i\<close> is unsigned, so with \<open>first_list_num = 0\<close>
  it never ends.
\<close>

fun split_loop :: "nat \<Rightarrow> nat \<Rightarrow> nat \<Rightarrow> 'a winnie1_scheme \<Rightarrow> 'a winnie1_scheme option" where
  "split_loop first 0 p_memory s = (if first = 0 then None else Some s)"
| "split_loop first (Suc i) p_memory s =
     (if first \<le> Suc i then do {
        s \<leftarrow> AddBlockToList p_memory (Suc i) s;
        split_loop first i (p_memory - 2 ^ i) s
      }
      else Some s)"

definition SplitBlockAndAddToLists :: "nat \<Rightarrow> nat \<Rightarrow> nat \<Rightarrow> 'a winnie1_scheme \<Rightarrow> 'a winnie1_scheme option" where
  "SplitBlockAndAddToLists raw first memory_log_size s =
     (if memory_log_size = 0 then None
      else do {
        s \<leftarrow> split_loop first (memory_log_size - 1) (raw + 2 ^ (memory_log_size - 1)) s;
        AddBlockToList raw first s
      })"

text \<open>The search for a bigger free block, from \<open>i\<close> on.\<close>

function find_list :: "nat \<Rightarrow> 'a winnie1_scheme \<Rightarrow> nat" where
  "find_list i s =
     (if i < max_lists_num then (if free_blocks_lists s i \<noteq> 0 then i else find_list (i + 1) s) else i)"
  by pat_completeness auto
termination by (relation "measure (\<lambda>(i, s). max_lists_num - i)") auto

declare find_list.simps [simp del]

text \<open>\<open>p\<close> is the answer of \<open>SystemAlloc\<close>.\<close>

definition FindNewBlockForList :: "nat \<Rightarrow> nat \<Rightarrow> 'a winnie1_scheme \<Rightarrow> (bool \<times> 'a winnie1_scheme) option" where
  "FindNewBlockForList p l s =
     (if max_lists_num \<le> l then Some (False, s)
      else let i = find_list (l + 1) s
           in if i \<noteq> max_lists_num then do {
                (result, s) \<leftarrow> DetachFirstBlock i s;
                s \<leftarrow> SplitBlockAndAddToLists result l i s;
                Some (True, s)
              }
              else let sz = (if l < first_os_block_size_log then first_os_block_size_log else l)
                   in if os_block_num s = max_os_block_num then Some (False, s)
                      else if p = 0 then Some (False, s)
                      else do {
                        s \<leftarrow> SplitBlockAndAddToLists p l sz (sys_take p (2 ^ sz) s);
                        Some (True, s\<lparr>os_blocks := (os_blocks s)(os_block_num s := p),
                                       os_block_num := os_block_num s + 1\<rparr>)
                      })"

text \<open>
  \<open>p\<close> is the answer of \<open>malloc\<close> or \<open>SystemAlloc\<close>; \<open>j\<close> is what the other bytes of a
  fresh header hold. The null pointer is returned when there is no memory.
\<close>

definition Alloc :: "nat \<Rightarrow> nat \<Rightarrow> nat \<Rightarrow> 'a winnie1_scheme \<Rightarrow> (nat \<times> 'a winnie1_scheme) option" where
  "Alloc p j n s = do {
     l \<leftarrow> GetNextPowerOfTwo (n + 8);
     if malloc_threshold \<le> n then
       (if p = 0 then Some (0, s)
        else do {
          s \<leftarrow> store p (put_malloced 1 j) (sys_take p (n + 8) s);
          Some (p + 8, s)
        })
     else if max_lists_num < l then None
     else do {
       (ok, s) \<leftarrow> (if free_blocks_lists s l = 0 then FindNewBlockForList p l s else Some (True, s));
       if ok then do {
         (h, s) \<leftarrow> DetachFirstBlock l s;
         Some (h + 8, s)
       }
       else Some (0, s)
     }
   }"

definition Free :: "nat \<Rightarrow> 'a winnie1_scheme \<Rightarrow> 'a winnie1_scheme option" where
  "Free p s =
     (if p = 0 then Some s
      else do {
        let p_header = p - 8;
        v \<leftarrow> load p_header s;
        if is_malloced v \<noteq> 0 then c_free p_header s
        else AddBlockToList p_header (list_num v) s
      })"

text \<open>\<open>q\<close> is the answer of \<open>realloc\<close> or \<open>SystemAlloc\<close>.\<close>

definition Realloc :: "nat \<Rightarrow> nat \<Rightarrow> nat \<Rightarrow> nat \<Rightarrow> 'a winnie1_scheme \<Rightarrow> (nat \<times> 'a winnie1_scheme) option" where
  "Realloc p q j n s = do {
     let p_header = p - 8;
     v \<leftarrow> load p_header s;
     if is_malloced v \<noteq> 0 then
       (if n < malloc_threshold then do {
          (p_new, s) \<leftarrow> Alloc q j n s;
          s \<leftarrow> memcpy p_new p n s;
          s \<leftarrow> c_free p_header s;
          Some (p_new, s)
        }
        else do {
          s \<leftarrow> c_realloc p_header q (n + 8) s;
          if q = 0 then Some (0, s)
          else do {
            u \<leftarrow> load q s;
            s \<leftarrow> store q (put_malloced 1 u) s;
            Some (q + 8, s)
          }
        })
     else do {
       new_list_num \<leftarrow> GetNextPowerOfTwo (n + 8);
       if list_num v \<noteq> new_list_num then do {
         let old_size = 2 ^ list_num v;
         (new_p, s) \<leftarrow> Alloc q j n s;
         s \<leftarrow> memcpy new_p p (if n \<le> old_size then n else old_size) s;
         s \<leftarrow> Free p s;
         Some (new_p, s)
       }
       else Some (p, s)
     }
   }"

text \<open>\<open>u\<close> is the answer of \<open>_msize\<close>.\<close>

definition MSize :: "nat \<Rightarrow> nat \<Rightarrow> 'a winnie1_scheme \<Rightarrow> nat option" where
  "MSize u p s = do {
     v \<leftarrow> load (p - 8) s;
     Some (if is_malloced v \<noteq> 0 then u else 2 ^ list_num v)
   }"

fun free_os_blocks :: "nat list \<Rightarrow> 'a winnie1_scheme \<Rightarrow> 'a winnie1_scheme option" where
  "free_os_blocks [] s = Some s"
| "free_os_blocks (i # is) s = do {
     s \<leftarrow> (if os_blocks s i \<noteq> 0 then c_free (os_blocks s i) s else Some s);
     free_os_blocks is s
   }"

definition DesroyHeap :: "'a winnie1_scheme \<Rightarrow> 'a winnie1_scheme option" where
  "DesroyHeap s = do {
     s \<leftarrow> free_os_blocks [0..<max_os_block_num] s;
     Some (s\<lparr>os_blocks := (\<lambda>_. 0), os_block_num := 0, free_blocks_lists := (\<lambda>_. 0)\<rparr>)
   }"

text \<open>The length of a free list, as counted by \<open>GetAllocInfo\<close>.\<close>

partial_function (option) count_free :: "nat \<Rightarrow> nat \<Rightarrow> 'a world_scheme \<Rightarrow> nat option" where
  "count_free p k s = (if p = 0 then Some k else do { q \<leftarrow> load p s; count_free q (k + 1) s })"

definition GetAllocInfo :: "nat \<Rightarrow> 'a winnie1_scheme \<Rightarrow> nat option" where
  "GetAllocInfo i s = count_free (free_blocks_lists s i) 0 s"

lemma keeps_winnie1 [simp]:
  "keeps L s (os_block_num_update f1 t) = keeps L s t"
  "keeps L s (os_blocks_update f2 t) = keeps L s t"
  "keeps L s (free_blocks_lists_update f3 t) = keeps L s t"
  by (rule keeps_cong; simp)+

section \<open>The invariant\<close>

text \<open>
  Classes: \<open>Inl l\<close> are the blocks of \<open>2 ^ l\<close> bytes, \<open>Inr k\<close> the objects of \<open>k\<close> bytes
  obtained from \<open>malloc\<close>. \<open>tagged\<close> says that the header of a block in use names its class.
\<close>

fun w1_size :: "nat + nat \<Rightarrow> nat" where
  "w1_size (Inl l) = 2 ^ l"
| "w1_size (Inr k) = k"

definition w1_heads :: "'a winnie1_scheme \<Rightarrow> nat + nat \<Rightarrow> nat" where
  "w1_heads s = case_sum (free_blocks_lists s) (\<lambda>_. 0)"

fun tagged :: "nat + nat \<Rightarrow> nat \<Rightarrow> bool" where
  "tagged (Inl l) v \<longleftrightarrow> is_malloced v = 0 \<and> list_num v = l"
| "tagged (Inr k) v \<longleftrightarrow> is_malloced v \<noteq> 0"

definition w1_core :: "'a winnie1_scheme \<Rightarrow> (nat + nat \<Rightarrow> nat list) \<Rightarrow> (nat \<rightharpoonup> nat + nat) \<Rightarrow> bool" where
  "w1_core s fs M \<longleftrightarrow>
     heap_inv w1_size (\<lambda>_. ptr_fmt 0) (cells s) (regions s) (w1_heads s) fs M
     \<and> (\<forall>x l. (x, Inl l) \<in> blocks fs M \<longrightarrow> l \<le> 20)
     \<and> (\<forall>k. fs (Inr k) = [])
     \<and> (\<forall>x k. M x = Some (Inr k) \<longrightarrow> (x, k) \<in> set (regions s))
     \<and> (\<forall>x c. M x = Some c \<longrightarrow> (\<exists>v. cells s x = Some v \<and> tagged c v))"

definition w1_class :: "nat \<Rightarrow> nat + nat" where
  "w1_class n = (if n < malloc_threshold then Inl (the (GetNextPowerOfTwo (n + 8))) else Inr (n + 8))"

definition w1_fits :: "nat + nat \<Rightarrow> nat \<Rightarrow> bool" where
  "w1_fits c n \<longleftrightarrow> c = w1_class n"

definition w1_inv :: "'a winnie1_scheme \<Rightarrow> (nat \<rightharpoonup> nat) \<Rightarrow> bool" where
  "w1_inv s L \<longleftrightarrow> (\<exists>fs M. w1_core s fs M \<and> views 8 w1_fits L M)"

text \<open>
  The environment: addresses are below 4 gigabytes as the request sizes are, the system answers
  when it is asked, and the table of its blocks is not full.
\<close>

definition w1_env :: "nat \<times> nat \<Rightarrow> nat \<Rightarrow> 'a winnie1_scheme \<Rightarrow> bool" where
  "w1_env e n s \<longleftrightarrow> n + 8 \<le> 2 ^ 32
     \<and> (if n < malloc_threshold
        then (let l = the (GetNextPowerOfTwo (n + 8))
              in free_blocks_lists s l = 0 \<longrightarrow> find_list (l + 1) s = max_lists_num
                   \<longrightarrow> malloc_ok (fst e) (2 ^ 20) s \<and> os_block_num s \<noteq> max_os_block_num)
        else malloc_ok (fst e) (n + 8) s)"

definition w1_al :: "nat \<times> nat \<Rightarrow> nat \<Rightarrow> 'a winnie1_scheme \<Rightarrow> (nat \<times> 'a winnie1_scheme) option" where
  "w1_al e n s = Alloc (fst e) (snd e) n s"

definition w1_fr :: "nat \<Rightarrow> nat \<Rightarrow> 'a winnie1_scheme \<Rightarrow> 'a winnie1_scheme option" where
  "w1_fr p n s = Free p s"

lemma w1_list_num:
  assumes "n < malloc_threshold"
  shows "\<exists>l. GetNextPowerOfTwo (n + 8) = Some l \<and> 3 \<le> l \<and> l \<le> 11 \<and> n + 8 \<le> 2 ^ l"
proof -
  have n: "n + 8 \<le> 2 ^ 32" "1 < n + 8" using assms by (simp_all add: malloc_threshold_def)
  obtain l where l: "GetNextPowerOfTwo (n + 8) = Some l" "n + 8 \<le> 2 ^ l" "2 ^ l < 2 * (n + 8)"
    using GetNextPowerOfTwo_spec [of "n + 8"] n by auto
  have "2 ^ l < (2 :: nat) ^ 12" using l(3) assms by (simp add: malloc_threshold_def)
  then have "l < 12" by (simp only: power_strict_increasing_iff)
  moreover have "(2 :: nat) ^ 3 \<le> 2 ^ l" using l(2) by simp
  then have "3 \<le> l" by (simp only: power_increasing_iff)
  ultimately show ?thesis using l by auto
qed

section \<open>Splitting\<close>

lemma w1_heads_upd:
  "w1_heads (s\<lparr>cells := m, free_blocks_lists := (free_blocks_lists s)(l := v)\<rparr>) = (w1_heads s)(Inl l := v)"
  by (rule ext) (auto simp: w1_heads_def split: sum.splits)

lemma w1_heads_cong: "free_blocks_lists s = free_blocks_lists t \<Longrightarrow> w1_heads s = w1_heads t"
  by (simp add: w1_heads_def)

abbreviation w1_heap :: "'a winnie1_scheme \<Rightarrow> (nat + nat \<Rightarrow> nat list) \<Rightarrow> (nat \<rightharpoonup> nat + nat) \<Rightarrow> bool" where
  "w1_heap s fs M \<equiv> heap_inv w1_size (\<lambda>_. ptr_fmt 0) (cells s) (regions s) (w1_heads s) fs M"

lemma AddBlock_ok:
  assumes H: "w1_heap s fs M" and l: "3 \<le> l" "l \<le> 31" and x: "0 < x" "inside x (2 ^ l) (regions s)"
    and ap: "\<And>y d. (y, d) \<in> blocks fs M \<Longrightarrow> apart x (2 ^ l) y (w1_size d)"
  shows "AddBlockToList x l s = Some (s\<lparr>cells := poke x (free_blocks_lists s l) (cells s),
      free_blocks_lists := (free_blocks_lists s)(l := x)\<rparr>)"
    and "w1_heap (s\<lparr>cells := poke x (free_blocks_lists s l) (cells s),
      free_blocks_lists := (free_blocks_lists s)(l := x)\<rparr>) (fs(Inl l := x # fs (Inl l))) M"
proof -
  have "(2 :: nat) ^ 3 \<le> 2 ^ l" using l(1) by (simp only: power_increasing_iff)
  then have l8: "8 \<le> (2 :: nat) ^ l" by simp
  have "inside x 8 (regions s)" using inside_mono [OF x(2), of x 8] l8 by simp
  then show "AddBlockToList x l s = Some (s\<lparr>cells := poke x (free_blocks_lists s l) (cells s),
      free_blocks_lists := (free_blocks_lists s)(l := x)\<rparr>)"
    using l(2) by (simp add: AddBlockToList_def max_lists_num_def store_def)
  have "block_ok w1_size (\<lambda>_. ptr_fmt 0) (regions s) x (Inl l)"
    using l8 x by (simp add: block_ok_def)
  from heap_add [OF H this] ap show "w1_heap (s\<lparr>cells := poke x (free_blocks_lists s l) (cells s),
      free_blocks_lists := (free_blocks_lists s)(l := x)\<rparr>) (fs(Inl l := x # fs (Inl l))) M"
    unfolding w1_heads_upd by (simp add: w1_heads_def)
qed

lemma split_loop_ok:
  assumes "w1_heap s fs M" and "3 \<le> first" and "first \<le> Suc i" and "Suc i \<le> 31" and "0 < raw"
    and "inside raw (2 ^ Suc i) (regions s)"
    and "\<And>y d. (y, d) \<in> blocks fs M \<Longrightarrow> apart raw (2 ^ Suc i) y (w1_size d)"
  shows "\<exists>m f gs. split_loop first i (raw + 2 ^ i) s = Some (s\<lparr>cells := m, free_blocks_lists := f\<rparr>)
    \<and> w1_heap (s\<lparr>cells := m, free_blocks_lists := f\<rparr>) gs M
    \<and> (\<forall>(y, d) \<in> blocks gs M. apart raw (2 ^ first) y (w1_size d))
    \<and> (\<forall>x. apart raw (2 ^ Suc i) x 8 \<longrightarrow> m x = cells s x)
    \<and> (\<forall>(y, d) \<in> blocks gs M. (y, d) \<in> blocks fs M \<or> (\<exists>l \<le> i. d = Inl l))
    \<and> (\<forall>k. gs (Inr k) = fs (Inr k))"
  using assms
proof (induction i arbitrary: s fs)
  case 0
  then show ?case by simp
next
  case (Suc i)
  show ?case
  proof (cases "first \<le> Suc i")
    case False
    then have f: "first = Suc (Suc i)" using Suc.prems(3) by simp
    have "split_loop first (Suc i) (raw + 2 ^ Suc i) s
        = Some (s\<lparr>cells := cells s, free_blocks_lists := free_blocks_lists s\<rparr>)"
      using False by simp
    then show ?thesis
      using Suc.prems(1,7) unfolding f
      by (intro exI [of _ "cells s"] exI [of _ "free_blocks_lists s"] exI [of _ fs]) (auto simp del: power_Suc)
  next
    case True
    let ?x = "raw + 2 ^ Suc i" and ?l = "Suc i"
    let ?t = "s\<lparr>cells := poke ?x (free_blocks_lists s ?l) (cells s),
      free_blocks_lists := (free_blocks_lists s)(?l := ?x)\<rparr>" and ?gs = "fs(Inl ?l := ?x # fs (Inl ?l))"
    have two: "(2 :: nat) ^ Suc ?l = 2 ^ ?l + 2 ^ ?l" by simp
    have l: "3 \<le> ?l" "?l \<le> 31" using Suc.prems(2,4) True by auto
    have ins: "inside ?x (2 ^ ?l) (regions s)" "inside raw (2 ^ ?l) (regions s)"
      using Suc.prems(6) two by (auto elim!: inside_mono)
    have ap: "apart ?x (2 ^ ?l) y (w1_size d)" "apart raw (2 ^ ?l) y (w1_size d)"
      if "(y, d) \<in> blocks fs M" for y d
      using Suc.prems(7) [OF that] two unfolding apart_def by linarith+
    have x0: "0 < ?x" using Suc.prems(5) by simp
    note A = AddBlock_ok [OF Suc.prems(1) l x0 ins(1) ap(1)]
    have B: "(y, d) \<in> blocks fs M \<or> (y = ?x \<and> d = Inl ?l)" if "(y, d) \<in> blocks ?gs M" for y d
      using that by (auto simp: in_blocks split: if_splits)
    have ap': "apart raw (2 ^ Suc i) y (w1_size d)" if "(y, d) \<in> blocks ?gs M" for y d
      using B [OF that] ap(2) by (auto simp: apart_def)
    have "\<exists>m f gs. split_loop first i (raw + 2 ^ i) ?t = Some (?t\<lparr>cells := m, free_blocks_lists := f\<rparr>)
      \<and> w1_heap (?t\<lparr>cells := m, free_blocks_lists := f\<rparr>) gs M
      \<and> (\<forall>(y, d) \<in> blocks gs M. apart raw (2 ^ first) y (w1_size d))
      \<and> (\<forall>x. apart raw (2 ^ Suc i) x 8 \<longrightarrow> m x = cells ?t x)
      \<and> (\<forall>(y, d) \<in> blocks gs M. (y, d) \<in> blocks ?gs M \<or> (\<exists>l \<le> i. d = Inl l))
      \<and> (\<forall>k. gs (Inr k) = ?gs (Inr k))"
    proof (rule Suc.IH [OF A(2) Suc.prems(2) True l(2) Suc.prems(5) _ ap'])
      show "inside raw (2 ^ Suc i) (regions ?t)" using ins(2) by simp
    qed
    then obtain m f gs where g:
      "split_loop first i (raw + 2 ^ i) ?t = Some (?t\<lparr>cells := m, free_blocks_lists := f\<rparr>)"
      "w1_heap (?t\<lparr>cells := m, free_blocks_lists := f\<rparr>) gs M"
      "\<forall>(y, d) \<in> blocks gs M. apart raw (2 ^ first) y (w1_size d)"
      "\<And>x. apart raw (2 ^ Suc i) x 8 \<Longrightarrow> m x = cells ?t x"
      "\<And>y d. (y, d) \<in> blocks gs M \<Longrightarrow> (y, d) \<in> blocks ?gs M \<or> (\<exists>l \<le> i. d = Inl l)"
      "\<forall>k. gs (Inr k) = ?gs (Inr k)" by blast
    have step: "raw + 2 ^ Suc i - 2 ^ i = raw + 2 ^ i" by simp
    have "split_loop first (Suc i) (raw + 2 ^ Suc i) s = split_loop first i (raw + 2 ^ i) ?t"
      using True by (simp only: split_loop.simps A(1) step) simp
    then have r: "split_loop first (Suc i) (raw + 2 ^ Suc i) s = Some (s\<lparr>cells := m, free_blocks_lists := f\<rparr>)"
      using g(1) by simp
    have "m x = cells s x" if "apart raw (2 ^ Suc (Suc i)) x 8" for x
    proof -
      have "apart raw (2 ^ Suc i) x 8" "apart ?x 8 x 8"
      proof -
        have "(2 :: nat) ^ 3 \<le> 2 ^ ?l" using l(1) by (simp only: power_increasing_iff)
        then have "8 \<le> (2 :: nat) ^ ?l" by simp
        then show "apart raw (2 ^ Suc i) x 8" "apart ?x 8 x 8"
          using that two unfolding apart_def by linarith+
      qed
      then show ?thesis using g(4) [of x] by (auto simp: apart_def)
    qed
    moreover have "(y, d) \<in> blocks fs M \<or> (\<exists>l \<le> Suc i. d = Inl l)" if "(y, d) \<in> blocks gs M" for y d
      using g(5) [OF that] B [of y d] le_SucI by blast
    ultimately show ?thesis
      using r g(2,3,6) by (intro exI [of _ m] exI [of _ f] exI [of _ gs]) (auto simp del: split_loop.simps power_Suc)
  qed
qed

lemma SplitBlock_ok:
  assumes H: "w1_heap s fs M" and l: "3 \<le> l" "l \<le> g" "g \<le> 31" and raw: "0 < raw" "inside raw (2 ^ g) (regions s)"
    and ap: "\<And>y d. (y, d) \<in> blocks fs M \<Longrightarrow> apart raw (2 ^ g) y (w1_size d)"
  shows "\<exists>m f gs. SplitBlockAndAddToLists raw l g s = Some (s\<lparr>cells := m, free_blocks_lists := f\<rparr>)
    \<and> w1_heap (s\<lparr>cells := m, free_blocks_lists := f\<rparr>) gs M \<and> gs (Inl l) \<noteq> []
    \<and> (\<forall>x. apart raw (2 ^ g) x 8 \<longrightarrow> m x = cells s x)
    \<and> (\<forall>(y, d) \<in> blocks gs M. (y, d) \<in> blocks fs M \<or> (\<exists>k \<le> g. d = Inl k))
    \<and> (\<forall>k. gs (Inr k) = fs (Inr k))"
proof -
  obtain i where i: "g = Suc i" using l by (cases g) auto
  obtain m f gs where g: "split_loop l i (raw + 2 ^ i) s = Some (s\<lparr>cells := m, free_blocks_lists := f\<rparr>)"
    "w1_heap (s\<lparr>cells := m, free_blocks_lists := f\<rparr>) gs M"
    "\<And>y d. (y, d) \<in> blocks gs M \<Longrightarrow> apart raw (2 ^ l) y (w1_size d)"
    "\<And>x. apart raw (2 ^ g) x 8 \<Longrightarrow> m x = cells s x"
    "\<And>y d. (y, d) \<in> blocks gs M \<Longrightarrow> (y, d) \<in> blocks fs M \<or> (\<exists>l \<le> i. d = Inl l)"
    "\<And>k. gs (Inr k) = fs (Inr k)"
    using split_loop_ok [OF H l(1) _ _ raw(1), of i] l raw(2) ap unfolding i by blast
  let ?t = "s\<lparr>cells := m, free_blocks_lists := f\<rparr>"
  have le: "(2 :: nat) ^ l \<le> 2 ^ g" "(2 :: nat) ^ 3 \<le> 2 ^ l" using l(1,2) by (simp_all only: power_increasing_iff)
  have ins: "inside raw (2 ^ l) (regions ?t)" using inside_mono [OF raw(2), of raw "2 ^ l"] le(1) by simp
  note A = AddBlock_ok [OF g(2) l(1) _ raw(1) ins g(3)]
  have l31: "l \<le> 31" using l by simp
  let ?u = "?t\<lparr>cells := poke raw (f l) m, free_blocks_lists := f(l := raw)\<rparr>"
  have r: "SplitBlockAndAddToLists raw l g s = Some (s\<lparr>cells := poke raw (f l) m, free_blocks_lists := f(l := raw)\<rparr>)"
    using g(1) A(1) [OF l31] by (simp add: SplitBlockAndAddToLists_def i)
  have o: "poke raw (f l) m x = cells s x" if "apart raw (2 ^ g) x 8" for x
  proof -
    have "8 \<le> (2 :: nat) ^ g" using order_trans [OF le(2,1)] by simp
    then have "apart raw 8 x 8" using that unfolding apart_def by linarith
    then show ?thesis using g(4) [OF that] by (auto simp: apart_def)
  qed
  let ?gs = "gs(Inl l := raw # gs (Inl l))"
  have b: "(y, d) \<in> blocks fs M \<or> (\<exists>k \<le> g. d = Inl k)" if "(y, d) \<in> blocks ?gs M" for y d
  proof (cases "(y, d) \<in> blocks gs M")
    case True
    then show ?thesis using g(5) i le_SucI by blast
  next
    case False
    then have "d = Inl l" using that by (auto simp: in_blocks split: if_splits)
    then show ?thesis using l(2) by simp
  qed
  show ?thesis
    using r A(2) [OF l31] o b g(6)
    by (intro exI [of _ "poke raw (f l) m"] exI [of _ "f(l := raw)"] exI [of _ ?gs]) auto
qed

section \<open>Refilling a list\<close>

lemma w1_coreD:
  assumes "w1_core s fs M"
  shows "w1_heap s fs M" and "(x, Inl l) \<in> blocks fs M \<Longrightarrow> l \<le> 20" and "fs (Inr k) = []"
    and "M x = Some (Inr k) \<Longrightarrow> (x, k) \<in> set (regions s)"
    and "M x = Some c \<Longrightarrow> \<exists>v. cells s x = Some v \<and> tagged c v"
  using assms by (auto simp: w1_core_def)

lemma w1_coreI:
  assumes "w1_heap s fs M" and "\<And>x l. (x, Inl l) \<in> blocks fs M \<Longrightarrow> l \<le> 20" and "\<And>k. fs (Inr k) = []"
    and "\<And>x k. M x = Some (Inr k) \<Longrightarrow> (x, k) \<in> set (regions s)"
    and "\<And>x c. M x = Some c \<Longrightarrow> \<exists>v. cells s x = Some v \<and> tagged c v"
  shows "w1_core s fs M"
  unfolding w1_core_def using assms by blast

lemma Detach_ok:
  assumes C: "w1_core s fs M" and c: "fs (Inl l) = x # xs"
  shows "\<exists>m q. DetachFirstBlock l s
      = Some (x, s\<lparr>cells := m, free_blocks_lists := (free_blocks_lists s)(l := q)\<rparr>)
    \<and> w1_core (s\<lparr>cells := m, free_blocks_lists := (free_blocks_lists s)(l := q)\<rparr>)
         (fs(Inl l := xs)) (M(x \<mapsto> Inl l))
    \<and> M x = None \<and> (\<forall>a. apart x 8 a 8 \<longrightarrow> m a = cells s a)"
proof -
  note H = w1_coreD(1) [OF C]
  obtain q where q: "w1_heads s (Inl l) = x" "cells s x = Some q" "inside x 8 (regions s)" "M x = None"
    "heap_inv w1_size (\<lambda>_. ptr_fmt 0) (cells s) (regions s) ((w1_heads s)(Inl l := q)) (fs(Inl l := xs))
       (M(x \<mapsto> Inl l))"
    using heap_pop [OF H c] by auto
  have xl: "(x, Inl l) \<in> blocks fs M" using c by (simp add: in_blocks)
  have l: "l \<le> 20" "8 \<le> w1_size (Inl l)"
    using w1_coreD(2) [OF C xl] heap_block_size [OF H xl] by simp_all
  let ?v = "put_list_num l q" and ?w = "put_malloced 0 (put_list_num l q)"
  let ?m = "poke x ?w (poke x ?v (cells s))"
  let ?t = "s\<lparr>cells := ?m, free_blocks_lists := (free_blocks_lists s)(l := q)\<rparr>"
  have run: "DetachFirstBlock l s = Some (x, ?t)"
    using l q(1-3) by (simp add: DetachFirstBlock_def max_lists_num_def load_def store_def w1_heads_def Let_def)
  have "heap_inv w1_size (\<lambda>_. ptr_fmt 0) ?m (regions s) ((w1_heads s)(Inl l := q)) (fs(Inl l := xs))
      (M(x \<mapsto> Inl l))"
    using heap_poke_live [OF heap_poke_live [OF q(5), of x "Inl l" x ?v], of x "Inl l" x ?w] l(2) by simp
  then have HH: "w1_heap ?t (fs(Inl l := xs)) (M(x \<mapsto> Inl l))"
    unfolding w1_heads_upd by simp
  have o: "?m a = cells s a" if "apart x 8 a 8" for a using that by (auto simp: apart_def)
  have "w1_core ?t (fs(Inl l := xs)) (M(x \<mapsto> Inl l))"
  proof (rule w1_coreI [OF HH])
    show "k \<le> 20" if "(y, Inl k) \<in> blocks (fs(Inl l := xs)) (M(x \<mapsto> Inl l))" for y k
      using that w1_coreD(2) [OF C, of y k] l(1) c by (auto simp: in_blocks split: if_splits)
    show "\<exists>v. cells ?t y = Some v \<and> tagged d v" if "(M(x \<mapsto> Inl l)) y = Some d" for y d
    proof (cases "y = x")
      case True
      then show ?thesis
        using that l put_malloced_fields [of 0 ?v] put_list_num_fields [of l q] by (simp add: poke_same) auto
    next
      case False
      then have y: "M y = Some d" using that by simp
      then have yd: "(y, d) \<in> blocks fs M" by (simp add: in_blocks)
      have "apart x (w1_size (Inl l)) y (w1_size d)"
        using heap_apart [OF H xl yd] False by auto
      then have "apart x 8 y 8"
        using l(2) heap_block_size [OF H yd] by (auto simp: apart_def)
      then show ?thesis using w1_coreD(5) [OF C y] o by simp
    qed
  qed (use w1_coreD(3,4) [OF C] in \<open>auto split: if_splits\<close>)
  then show ?thesis using run q(4) o by blast
qed

text \<open>The blocks in use keep their contents.\<close>

definition same_live :: "(nat \<rightharpoonup> nat + nat) \<Rightarrow> (nat \<Rightarrow> nat option) \<Rightarrow> (nat \<Rightarrow> nat option) \<Rightarrow> bool" where
  "same_live M m m' \<longleftrightarrow> (\<forall>y d a. M y = Some d \<longrightarrow> y \<le> a \<longrightarrow> a + 8 \<le> y + w1_size d \<longrightarrow> m' a = m a)"

lemma same_liveD: "same_live M m m' \<Longrightarrow> M y = Some d \<Longrightarrow> y \<le> a \<Longrightarrow> a + 8 \<le> y + w1_size d \<Longrightarrow> m' a = m a"
  by (simp add: same_live_def)

lemma same_live_area:
  assumes "\<And>x. apart p n x 8 \<Longrightarrow> m' x = m x" and "\<And>y d. M y = Some d \<Longrightarrow> apart p n y (w1_size d)"
  shows "same_live M m m'"
  unfolding same_live_def
proof (intro allI impI)
  fix y d a assume "M y = Some d" "y \<le> a" "a + 8 \<le> y + w1_size d"
  then have "apart p n a 8" using assms(2) [of y d] by (auto simp: apart_def)
  then show "m' a = m a" by (rule assms(1))
qed

lemma w1_core_same:
  assumes C: "w1_core s fs M" and H: "w1_heap t gs M" and same: "same_live M (cells s) (cells t)"
    and B: "\<And>y d. (y, d) \<in> blocks gs M \<Longrightarrow> (y, d) \<in> blocks fs M \<or> (\<exists>k \<le> 20. d = Inl k)"
    and R: "\<And>k. gs (Inr k) = []" and rs: "set (regions s) \<subseteq> set (regions t)"
  shows "w1_core t gs M"
proof (rule w1_coreI [OF H])
  show "l \<le> 20" if "(x, Inl l) \<in> blocks gs M" for x l using B [OF that] w1_coreD(2) [OF C] by auto
  show "\<exists>v. cells t x = Some v \<and> tagged c v" if "M x = Some c" for x c
    using w1_coreD(5) [OF C that] same_liveD [OF same that, of x]
      heap_block_size [OF w1_coreD(1) [OF C], of x c] that by (simp add: in_blocks)
qed (use R w1_coreD(4) [OF C] rs in auto)

lemma find_list_spec:
  "i \<le> 31 \<Longrightarrow> i \<le> find_list i s \<and> find_list i s \<le> 31
     \<and> (find_list i s \<noteq> 31 \<longrightarrow> free_blocks_lists s (find_list i s) \<noteq> 0)"
proof (induction i s rule: find_list.induct)
  case (1 i s)
  then show ?case
    by (subst (1 2 3 4) find_list.simps) (auto simp: max_lists_num_def dest: Suc_leD)
qed

lemma FindNew_ok:
  assumes C: "w1_core s fs M" and l: "3 \<le> l" "l \<le> 11"
    and e: "find_list (l + 1) s = max_lists_num \<Longrightarrow> malloc_ok p (2 ^ 20) s \<and> os_block_num s \<noteq> max_os_block_num"
  shows "\<exists>t gs. FindNewBlockForList p l s = Some (True, t) \<and> w1_core t gs M \<and> gs (Inl l) \<noteq> []
    \<and> same_live M (cells s) (cells t)"
proof -
  note H = w1_coreD(1) [OF C]
  define i where "i = find_list (l + 1) s"
  have i: "l + 1 \<le> i" "i \<le> 31" "i \<noteq> 31 \<Longrightarrow> free_blocks_lists s i \<noteq> 0"
    using find_list_spec [of "l + 1" s] l by (simp_all add: i_def)
  show ?thesis
  proof (cases "i = 31")
    case False
    have "fs (Inl i) \<noteq> []" using heap_empty_iff [OF H, of "Inl i"] i(3) [OF False] by (simp add: w1_heads_def)
    then obtain x xs where x: "fs (Inl i) = x # xs" by (cases "fs (Inl i)") auto
    then have xi: "(x, Inl i) \<in> blocks fs M" by (simp add: in_blocks)
    obtain m q where d: "DetachFirstBlock i s
        = Some (x, s\<lparr>cells := m, free_blocks_lists := (free_blocks_lists s)(i := q)\<rparr>)"
      "w1_core (s\<lparr>cells := m, free_blocks_lists := (free_blocks_lists s)(i := q)\<rparr>)
         (fs(Inl i := xs)) (M(x \<mapsto> Inl i))" "M x = None" "\<And>a. apart x 8 a 8 \<Longrightarrow> m a = cells s a"
      using Detach_ok [OF C x] by blast
    let ?t = "s\<lparr>cells := m, free_blocks_lists := (free_blocks_lists s)(i := q)\<rparr>" and ?fs = "fs(Inl i := xs)"
    have "(M(x \<mapsto> Inl i)) |` (- {x}) = M" using d(3) by (auto simp: restrict_map_def)
    then have D: "w1_heap ?t ?fs M" using heap_drop_live [OF w1_coreD(1) [OF d(2)], of "- {x}"] by simp
    have dist: "x \<notin> set xs" using heap_distinct [OF H, of "Inl i"] x by simp
    have ap: "apart x (2 ^ i) y (w1_size c)" if y: "(y, c) \<in> blocks ?fs M" for y c
    proof -
      have "(y, c) \<in> blocks fs M" "(y, c) \<noteq> (x, Inl i)"
        using y x d(3) dist by (auto simp: in_blocks split: if_splits)
      then show ?thesis using heap_apart [OF H xi] by fastforce
    qed
    have raw: "0 < x" "inside x (2 ^ i) (regions ?t)"
      using heap_block_pos [OF H xi] heap_block_inside [OF H xi] by simp_all
    obtain m' f gs where g: "SplitBlockAndAddToLists x l i ?t = Some (?t\<lparr>cells := m', free_blocks_lists := f\<rparr>)"
      "w1_heap (?t\<lparr>cells := m', free_blocks_lists := f\<rparr>) gs M" "gs (Inl l) \<noteq> []"
      "\<And>a. apart x (2 ^ i) a 8 \<Longrightarrow> m' a = cells ?t a"
      "\<And>y d. (y, d) \<in> blocks gs M \<Longrightarrow> (y, d) \<in> blocks ?fs M \<or> (\<exists>k \<le> i. d = Inl k)"
      "\<And>k. gs (Inr k) = ?fs (Inr k)"
    proof -
      have "l \<le> i" using i(1) by simp
      from SplitBlock_ok [OF D l(1) this i(2) raw ap] that show ?thesis by blast
    qed
    let ?u = "?t\<lparr>cells := m', free_blocks_lists := f\<rparr>"
    have i20: "i \<le> 20" using w1_coreD(2) [OF C xi] .
    have same: "same_live M (cells s) (cells ?u)"
    proof (rule same_live_area)
      show "apart x (2 ^ i) y (w1_size c)" if "M y = Some c" for y c
        using ap [of y c] that by (simp add: in_blocks)
      show "cells ?u a = cells s a" if "apart x (2 ^ i) a 8" for a
      proof -
        have "(2 :: nat) ^ 3 \<le> 2 ^ i" using l(1) i(1) by (intro power_increasing) auto
        then have "apart x 8 a 8" using that by (auto simp: apart_def)
        then show ?thesis using g(4) [OF that] d(4) by simp
      qed
    qed
    have "w1_core ?u gs M"
    proof (rule w1_core_same [OF C g(2) same])
      show "(y, c) \<in> blocks fs M \<or> (\<exists>k \<le> 20. c = Inl k)" if "(y, c) \<in> blocks gs M" for y c
        using g(5) [OF that] x i20 by (fastforce simp: in_blocks split: if_splits)
    qed (use g(6) w1_coreD(3) [OF C] in auto)
    moreover have "FindNewBlockForList p l s = Some (True, ?u)"
      using l False d(1) g(1) by (simp add: FindNewBlockForList_def max_lists_num_def i_def Let_def)
    ultimately show ?thesis using g(3) same by blast
  next
    case True
    then have e': "malloc_ok p (2 ^ 20) s" "os_block_num s \<noteq> max_os_block_num"
      using e by (simp_all add: i_def max_lists_num_def)
    have p: "0 < p" using malloc_ok_pos [OF e'(1)] by simp
    let ?t = "s\<lparr>regions := (p, 2 ^ 20) # regions s, cells := wipe p (2 ^ 20) (cells s)\<rparr>"
    have T: "w1_heap ?t fs M"
      using heap_take [OF H p, of "2 ^ 20"] malloc_ok_apart [OF e'(1)] w1_heads_cong [of ?t s] by simp
    have ap: "apart p (2 ^ 20) y (w1_size c)" if "(y, c) \<in> blocks fs M" for y c
      using heap_block_inside [OF H that] malloc_ok_inside [OF e'(1)] by blast
    have raw: "inside p (2 ^ 20) (regions ?t)" by (simp add: inside_Cons)
    obtain m f gs where g: "SplitBlockAndAddToLists p l 20 ?t = Some (?t\<lparr>cells := m, free_blocks_lists := f\<rparr>)"
      "w1_heap (?t\<lparr>cells := m, free_blocks_lists := f\<rparr>) gs M" "gs (Inl l) \<noteq> []"
      "\<And>a. apart p (2 ^ 20) a 8 \<Longrightarrow> m a = cells ?t a"
      "\<And>y d. (y, d) \<in> blocks gs M \<Longrightarrow> (y, d) \<in> blocks fs M \<or> (\<exists>k \<le> 20. d = Inl k)"
      "\<And>k. gs (Inr k) = fs (Inr k)"
    proof -
      have "l \<le> 20" "20 \<le> (31::nat)" using l(2) by simp_all
      from SplitBlock_ok [OF T l(1) this p raw ap] that show ?thesis by blast
    qed
    let ?u = "?t\<lparr>cells := m, free_blocks_lists := f, os_blocks := (os_blocks s)(os_block_num s := p),
       os_block_num := os_block_num s + 1\<rparr>"
    have same: "same_live M (cells s) (cells ?u)"
    proof (rule same_live_area)
      show "apart p (2 ^ 20) y (w1_size c)" if "M y = Some c" for y c
        using ap [of y c] that by (simp add: in_blocks)
      show "cells ?u a = cells s a" if "apart p (2 ^ 20) a 8" for a
        using g(4) [OF that] that by (auto simp: apart_def)
    qed
    have HU: "w1_heap ?u gs M"
      using g(2) w1_heads_cong [of ?u "?t\<lparr>cells := m, free_blocks_lists := f\<rparr>"] by simp
    have "w1_core ?u gs M"
      by (rule w1_core_same [OF C HU same g(5)]) (use g(6) w1_coreD(3) [OF C] in auto)
    moreover have "FindNewBlockForList p l s = Some (True, ?u)"
    proof -
      have "\<not> max_lists_num \<le> l" "l < first_os_block_size_log" "find_list (l + 1) s = max_lists_num"
        using l True by (simp_all add: max_lists_num_def first_os_block_size_log_def i_def)
      then show ?thesis
        using g(1) e'(2) p by (simp add: FindNewBlockForList_def first_os_block_size_log_def Let_def sys_take_def)
    qed
    ultimately show ?thesis using g(3) same by blast
  qed
qed

section \<open>The laws of the interface\<close>

lemma roomy_w1: "roomy 8 w1_fits w1_size"
  unfolding roomy_def w1_fits_def
proof (intro allI impI)
  fix c n assume c: "c = w1_class n"
  show "8 + n \<le> w1_size c"
  proof (cases "n < malloc_threshold")
    case True
    then obtain l where "GetNextPowerOfTwo (n + 8) = Some l" "n + 8 \<le> 2 ^ l" using w1_list_num by blast
    then show ?thesis using True c by (simp add: w1_class_def)
  qed (simp add: c w1_class_def)
qed

lemma same_live_keeps:
  assumes H: "w1_heap s fs M" and V: "views 8 w1_fits L M" and same: "same_live M (cells s) (cells s')"
    and ins: "\<And>x c. M x = Some c \<Longrightarrow> inside x (w1_size c) (regions s')"
  shows "keeps L s s'"
proof (rule view_keeps [OF H V roomy_w1 ins])
  fix x c a assume "M x = Some c" "x + 8 \<le> a" "a + 8 \<le> x + w1_size c"
  then show "cells s' a = cells s a" using same_liveD [OF same, of x c a] by simp
qed

lemma w1_inv_init: "regions_ok (regions w) \<Longrightarrow> w1_inv (w1_init w) Map.empty"
proof -
  assume r: "regions_ok (regions w)"
  have h: "w1_heads (w1_init w) = (\<lambda>_. 0)"
    by (rule ext) (auto simp: w1_heads_def w1_init_def split: sum.splits)
  have "w1_core (w1_init w) (\<lambda>_. []) Map.empty"
    using heap_init [OF r, of w1_size "\<lambda>_. ptr_fmt 0"]
    by (intro w1_coreI) (simp_all add: h in_blocks, simp add: w1_init_def)
  then show ?thesis
    unfolding w1_inv_def using views_empty [of 8 w1_fits] by blast
qed

lemma w1_small_alloc:
  assumes C: "w1_core s fs M" and V: "views 8 w1_fits L M" and e: "w1_env e n s" and n: "n < malloc_threshold"
  shows "\<exists>q s'. w1_al e n s = Some (q, s') \<and> fresh_block L q n \<and> w1_inv s' (L(q \<mapsto> n)) \<and> keeps L s s'"
proof -
  obtain l where l: "GetNextPowerOfTwo (n + 8) = Some l" "3 \<le> l" "l \<le> 11" "n + 8 \<le> 2 ^ l"
    using w1_list_num [OF n] by blast
  note H = w1_coreD(1) [OF C]
  obtain t gs where t: "(if free_blocks_lists s l = 0 then FindNewBlockForList (fst e) l s else Some (True, s))
      = Some (True, t)" "w1_core t gs M" "gs (Inl l) \<noteq> []" "same_live M (cells s) (cells t)"
  proof (cases "free_blocks_lists s l = 0")
    case True
    have "malloc_ok (fst e) (2 ^ 20) s \<and> os_block_num s \<noteq> max_os_block_num"
      if "find_list (l + 1) s = max_lists_num"
      using e n l(1) True that by (simp add: w1_env_def)
    then show ?thesis using FindNew_ok [OF C l(2,3)] True that by auto
  next
    case False
    then have "fs (Inl l) \<noteq> []" using heap_empty_iff [OF H, of "Inl l"] by (simp add: w1_heads_def)
    then show ?thesis using that [of s fs] C False by (simp add: same_live_def)
  qed
  obtain x xs where x: "gs (Inl l) = x # xs" using t(3) by (cases "gs (Inl l)") auto
  obtain m q where d: "DetachFirstBlock l t
      = Some (x, t\<lparr>cells := m, free_blocks_lists := (free_blocks_lists t)(l := q)\<rparr>)"
    "w1_core (t\<lparr>cells := m, free_blocks_lists := (free_blocks_lists t)(l := q)\<rparr>)
       (gs(Inl l := xs)) (M(x \<mapsto> Inl l))" "M x = None" "\<And>a. apart x 8 a 8 \<Longrightarrow> m a = cells t a"
    using Detach_ok [OF t(2) x] by blast
  let ?u = "t\<lparr>cells := m, free_blocks_lists := (free_blocks_lists t)(l := q)\<rparr>"
  have al: "w1_al e n s = Some (x + 8, ?u)"
    unfolding w1_al_def Alloc_def using l n t(1) d(1) by (simp add: max_lists_num_def)
  have cl: "w1_fits (Inl l) n" using n l(1) by (simp add: w1_fits_def w1_class_def)
  have HU: "w1_heap ?u (gs(Inl l := xs)) (M(x \<mapsto> Inl l))" using w1_coreD(1) [OF d(2)] .
  have "w1_inv ?u (L(x + 8 \<mapsto> n))"
    unfolding w1_inv_def using d(2) views_upd [OF V cl, of x] by blast
  moreover have "fresh_block L (x + 8) n" using view_fresh [OF HU d(3) V roomy_w1 cl] .
  moreover have "keeps L s ?u"
  proof (rule same_live_keeps [OF H V])
    show "inside y (w1_size c) (regions ?u)" if "M y = Some c" for y c
      using heap_block_inside [OF HU, of y c] that d(3) by (cases "y = x") (auto simp: in_blocks)
    show "same_live M (cells s) (cells ?u)"
      unfolding same_live_def
    proof (intro allI impI)
      fix y c a assume y: "M y = Some c" "y \<le> a" "a + 8 \<le> y + w1_size c"
      have xy: "x \<noteq> y" using y(1) d(3) by auto
      then have "apart x (w1_size (Inl l)) y (w1_size c)"
        using heap_live_apart [OF HU, of x "Inl l" y c] y(1) by simp
      moreover have "8 \<le> w1_size (Inl l)" using l(4) by simp
      ultimately have "apart x 8 a 8" using y by (auto simp: apart_def)
      then show "cells ?u a = cells s a" using d(4) same_liveD [OF t(4) y] by simp
    qed
  qed
  ultimately show ?thesis using al by blast
qed

lemma w1_big_alloc:
  assumes C: "w1_core s fs M" and V: "views 8 w1_fits L M" and e: "w1_env e n s" and n: "\<not> n < malloc_threshold"
  shows "\<exists>q s'. w1_al e n s = Some (q, s') \<and> fresh_block L q n \<and> w1_inv s' (L(q \<mapsto> n)) \<and> keeps L s s'"
proof -
  note H = w1_coreD(1) [OF C]
  let ?p = "fst e" and ?h = "put_malloced 1 (snd e)"
  have ok: "malloc_ok ?p (n + 8) s" and sz: "n + 8 \<le> 2 ^ 32" using e n by (simp_all add: w1_env_def)
  have p: "0 < ?p" using malloc_ok_pos [OF ok] by simp
  obtain l where l: "GetNextPowerOfTwo (n + 8) = Some l" using GetNextPowerOfTwo_spec [OF _ sz] by auto
  let ?u = "s\<lparr>regions := (?p, n + 8) # regions s, cells := poke ?p ?h (wipe ?p (n + 8) (cells s))\<rparr>"
  have al: "w1_al e n s = Some (?p + 8, ?u)"
    using l n p by (simp add: w1_al_def Alloc_def sys_take_def store_def inside_Cons)
  have ap: "apart ?p (n + 8) y (w1_size c)" if "(y, c) \<in> blocks fs M" for y c
    using heap_block_inside [OF H that] malloc_ok_inside [OF ok] by blast
  have Mp: "M ?p = None"
  proof (cases "M ?p")
    case (Some d)
    then show ?thesis using ap [of ?p d] heap_block_size [OF H, of ?p d] by (simp add: in_blocks apart_def)
  qed
  have T: "heap_inv w1_size (\<lambda>_. ptr_fmt 0) (wipe ?p (n + 8) (cells s)) (regions ?u) (w1_heads s) fs M"
    using heap_take [OF H p, of "n + 8"] malloc_ok_apart [OF ok] by simp
  have Cv: "heap_inv w1_size (\<lambda>_. ptr_fmt 0) (wipe ?p (n + 8) (cells s)) (regions ?u) (w1_heads s) fs
      (M(?p \<mapsto> Inr (n + 8)))"
    using heap_carve [OF T, of ?p "Inr (n + 8)"] ap p by (simp add: block_ok_def inside_Cons)
  have HU: "w1_heap ?u fs (M(?p \<mapsto> Inr (n + 8)))"
    using heap_poke_live [OF Cv, of ?p "Inr (n + 8)" ?p ?h] w1_heads_cong [of ?u s] by simp
  have o: "cells ?u a = cells s a" if "apart ?p (n + 8) a 8" for a
    using that by (auto simp: apart_def)
  have CU: "w1_core ?u fs (M(?p \<mapsto> Inr (n + 8)))"
  proof (rule w1_coreI [OF HU])
    show "k \<le> 20" if "(y, Inl k) \<in> blocks fs (M(?p \<mapsto> Inr (n + 8)))" for y k
      using that w1_coreD(2) [OF C, of y k] by (auto simp: in_blocks split: if_splits)
    show "\<exists>v. cells ?u y = Some v \<and> tagged c v" if y: "(M(?p \<mapsto> Inr (n + 8))) y = Some c" for y c
    proof (cases "y = ?p")
      case True
      then show ?thesis using y put_malloced_fields [of 1 "snd e"] by auto
    next
      case False
      then have y': "M y = Some c" using y by simp
      then have yb: "(y, c) \<in> blocks fs M" by (simp add: in_blocks)
      have "apart ?p (n + 8) y 8"
        using ap [OF yb] heap_block_size [OF H yb] by (auto simp: apart_def)
      then show ?thesis using w1_coreD(5) [OF C y'] o by simp
    qed
  qed (use w1_coreD(3,4) [OF C] in \<open>auto split: if_splits\<close>)
  have cl: "w1_fits (Inr (n + 8)) n" using n by (simp add: w1_fits_def w1_class_def)
  have "w1_inv ?u (L(?p + 8 \<mapsto> n))"
    unfolding w1_inv_def using CU views_upd [OF V cl, of ?p] by blast
  moreover have "fresh_block L (?p + 8) n" using view_fresh [OF HU Mp V roomy_w1 cl] .
  moreover have "keeps L s ?u" by (rule view_keeps_take [OF H V roomy_w1 ok _ o]) simp_all
  ultimately show ?thesis using al by blast
qed

lemma w1_free_ok:
  assumes I: "w1_inv s L" and L: "L p = Some n"
  shows "\<exists>s'. w1_fr p n s = Some s' \<and> w1_inv s' (L(p := None)) \<and> keeps (L(p := None)) s s'"
proof -
  obtain fs M where C: "w1_core s fs M" and V: "views 8 w1_fits L M" using I by (auto simp: w1_inv_def)
  note H = w1_coreD(1) [OF C]
  obtain x c where x: "p = x + 8" "M x = Some c" "w1_fits c n" using viewsD [OF V L] .
  have xc: "(x, c) \<in> blocks fs M" using x(2) by (simp add: in_blocks)
  obtain v where v: "cells s x = Some v" "tagged c v" using w1_coreD(5) [OF C x(2)] by blast
  have sz: "8 \<le> w1_size c" using heap_block_size [OF H xc] by simp
  have ld: "load x s = Some v"
    using heap_live_inside [OF H x(2), of x 8] sz v(1) by (simp add: load_def)
  have x0: "0 < x" using heap_block_pos [OF H xc] .
  have V': "views 8 w1_fits (L(p := None)) (M(x := None))" using views_del [OF V] x(1) by simp
  have tag: "\<exists>v. m y = Some v \<and> tagged d v"
    if y: "(M(x := None)) y = Some d" and m: "\<And>a. apart x (w1_size c) a 8 \<Longrightarrow> m a = cells s a" for m y d
  proof -
    have y': "M y = Some d" "y \<noteq> x" using y by (auto split: if_splits)
    have "apart x (w1_size c) y (w1_size d)" using heap_live_apart [OF H x(2) y'(1)] y'(2) by simp
    then have "apart x (w1_size c) y 8"
      using heap_block_size [OF H, of y d] y'(1) by (auto simp: in_blocks apart_def)
    then show ?thesis using m w1_coreD(5) [OF C y'(1)] by simp
  qed
  show ?thesis
  proof (cases c)
    case (Inl l)
    have vl: "is_malloced v = 0" "list_num v = l" using v(2) Inl by simp_all
    have l20: "l \<le> 20" using w1_coreD(2) [OF C, of x l] xc Inl by simp
    let ?u = "s\<lparr>cells := poke x (free_blocks_lists s l) (cells s), free_blocks_lists := (free_blocks_lists s)(l := x)\<rparr>"
    have fr: "w1_fr p n s = Some ?u"
      using x(1) x0 ld vl l20 heap_live_inside [OF H x(2), of x 8] sz
      by (simp add: w1_fr_def Free_def AddBlockToList_def max_lists_num_def store_def)
    have HU: "w1_heap ?u (fs(Inl l := x # fs (Inl l))) (M(x := None))"
      unfolding w1_heads_upd using heap_push [OF H x(2)] Inl by (simp add: w1_heads_def)
    have "w1_core ?u (fs(Inl l := x # fs (Inl l))) (M(x := None))"
    proof (rule w1_coreI [OF HU])
      show "k \<le> 20" if "(y, Inl k) \<in> blocks (fs(Inl l := x # fs (Inl l))) (M(x := None))" for y k
        using that w1_coreD(2) [OF C, of y k] l20 by (auto simp: in_blocks split: if_splits)
      show "\<exists>v. cells ?u y = Some v \<and> tagged d v" if "(M(x := None)) y = Some d" for y d
        by (rule tag [OF that]) (use sz in \<open>auto simp: apart_def\<close>)
    qed (use w1_coreD(3,4) [OF C] in \<open>auto split: if_splits\<close>)
    then have "w1_inv ?u (L(p := None))" unfolding w1_inv_def using V' by blast
    moreover have "keeps (L(p := None)) s ?u"
      using view_keeps_push [OF H V roomy_w1 x(2), of ?u] x(1) by simp
    ultimately show ?thesis using fr by blast
  next
    case (Inr k)
    have vl: "is_malloced v \<noteq> 0" using v(2) Inr by simp
    have r: "(x, k) \<in> set (regions s)" using w1_coreD(4) [OF C] x(2) Inr by simp
    let ?u = "s\<lparr>regions := filter (\<lambda>r. fst r \<noteq> x) (regions s), cells := wipe x k (cells s)\<rparr>"
    have fr: "w1_fr p n s = Some ?u"
      using x(1) x0 ld vl sys_give_Some [OF heap_regions [OF H] r] by (simp add: w1_fr_def Free_def c_free_def)
    have D: "heap_inv w1_size (\<lambda>_. ptr_fmt 0) (cells s) (regions s) (w1_heads s) fs (M(x := None))"
      using heap_drop_live [OF H, of "- {x}"] by (simp add: restrict_complement_singleton_eq)
    have ap: "apart y (w1_size d) x k" if "(y, d) \<in> blocks fs (M(x := None))" for y d
    proof -
      have "(y, d) \<in> blocks fs M" "(y, d) \<noteq> (x, Inr k)"
        using that heap_free_not_live [OF H] x(2) Inr by (auto simp: in_blocks split: if_splits)
      then show ?thesis using heap_apart [OF H, of y d x "Inr k"] xc Inr by simp
    qed
    have HU: "w1_heap ?u fs (M(x := None))"
      using heap_give [OF D r ap] w1_heads_cong [of ?u s] by simp
    have "w1_core ?u fs (M(x := None))"
    proof (rule w1_coreI [OF HU])
      show "l \<le> 20" if "(y, Inl l) \<in> blocks fs (M(x := None))" for y l
        using that w1_coreD(2) [OF C, of y l] by (auto simp: in_blocks split: if_splits)
      show "\<exists>v. cells ?u y = Some v \<and> tagged d v" if "(M(x := None)) y = Some d" for y d
        by (rule tag [OF that]) (use Inr in \<open>auto simp: apart_def\<close>)
    qed (use w1_coreD(3,4) [OF C] in \<open>auto split: if_splits\<close>)
    then have "w1_inv ?u (L(p := None))" unfolding w1_inv_def using V' by blast
    moreover have "keeps (L(p := None)) s ?u"
    proof (rule view_keeps [OF D V' roomy_w1])
      fix y d assume y: "(M(x := None)) y = Some d"
      then have yb: "(y, d) \<in> blocks fs (M(x := None))" by (simp add: in_blocks)
      show "inside y (w1_size d) (regions ?u)" using heap_block_inside [OF HU yb] .
      fix a assume "y + 8 \<le> a" "a + 8 \<le> y + w1_size d"
      then have "x + k \<le> a \<or> a + 8 \<le> x" using ap [OF yb] by (auto simp: apart_def)
      then show "cells ?u a = cells s a" by simp
    qed
    ultimately show ?thesis using fr by blast
  qed
qed

lemma w1_write_ok:
  assumes I: "w1_inv s L" and L: "L p = Some n" "p \<le> a" "a + 8 \<le> p + n"
  shows "\<exists>s'. store a v s = Some s' \<and> w1_inv s' L"
proof -
  obtain fs M where C: "w1_core s fs M" and V: "views 8 w1_fits L M" using I by (auto simp: w1_inv_def)
  note H = w1_coreD(1) [OF C]
  note W = view_write [OF H V roomy_w1 L]
  obtain x c where x: "M x = Some c" "x + 8 \<le> a" "a + 8 \<le> x + w1_size c"
    using view_cell [OF H V roomy_w1 L] by metis
  let ?u = "s\<lparr>cells := poke a v (cells s)\<rparr>"
  have HU: "w1_heap ?u fs M" using W w1_heads_cong [of ?u s] by simp
  have "w1_core ?u fs M"
  proof (rule w1_coreI [OF HU])
    show "\<exists>v. cells ?u y = Some v \<and> tagged d v" if y: "M y = Some d" for y d
    proof -
      have "y = x \<or> apart x (w1_size c) y (w1_size d)" using heap_live_apart [OF H x(1) y] by blast
      then have "a + 8 \<le> y \<or> y + 8 \<le> a"
        using x(2,3) heap_block_size [OF H, of y d] y by (auto simp: in_blocks apart_def)
      then show ?thesis using w1_coreD(5) [OF C y] by simp
    qed
  qed (use w1_coreD(2-4) [OF C] in auto)
  then have "w1_inv ?u L" unfolding w1_inv_def using V by blast
  with W show ?thesis by (simp add: store_def)
qed

interpretation w1: client_heap w1_inv w1_env w1_al w1_fr
proof unfold_locales
  fix s :: "'a winnie1_scheme" and L e n
  assume I: "w1_inv s L" and e: "w1_env e n s"
  then obtain fs M where C: "w1_core s fs M" "views 8 w1_fits L M" by (auto simp: w1_inv_def)
  show "\<exists>p s'. w1_al e n s = Some (p, s') \<and> fresh_block L p n \<and> w1_inv s' (L(p \<mapsto> n)) \<and> keeps L s s'"
    using w1_small_alloc [OF C e] w1_big_alloc [OF C e] by blast
next
  fix s :: "'a winnie1_scheme" and L p n
  assume "w1_inv s L" "L p = Some n"
  then show "\<exists>s'. w1_fr p n s = Some s' \<and> w1_inv s' (L(p := None)) \<and> keeps (L(p := None)) s s'"
    by (rule w1_free_ok)
next
  fix s :: "'a winnie1_scheme" and L p n a v
  assume "w1_inv s L" "L p = Some n" "p \<le> a" "a + 8 \<le> p + n"
  then show "\<exists>s'. store a v s = Some s' \<and> w1_inv s' L" by (rule w1_write_ok)
next
  fix s :: "'a winnie1_scheme" and L
  assume "w1_inv s L"
  then show "disjoint_blocks L"
    unfolding w1_inv_def using view_disjoint [OF w1_coreD(1) _ roomy_w1] by blast
qed

section \<open>Owned memory after an allocation\<close>

lemma AddBlock_regions: "AddBlockToList p l s = Some t \<Longrightarrow> regions t = regions s"
  by (auto simp: AddBlockToList_def store_Some split: if_splits bind_splits)

lemma Detach_regions: "DetachFirstBlock l s = Some (x, t) \<Longrightarrow> regions t = regions s"
  by (auto simp: DetachFirstBlock_def Let_def store_Some split: if_splits bind_splits)

lemma split_loop_regions: "split_loop f i p s = Some t \<Longrightarrow> regions t = regions s"
  by (induction f i p s rule: split_loop.induct)
    (auto dest: AddBlock_regions split: if_splits bind_splits)

lemma Split_regions:
  assumes "SplitBlockAndAddToLists r f g s = Some t"
  shows "regions t = regions s"
proof -
  obtain u where "split_loop f (g - 1) (r + 2 ^ (g - 1)) s = Some u" "AddBlockToList r f u = Some t"
    using assms by (auto simp: SplitBlockAndAddToLists_def split: if_splits bind_splits)
  then show ?thesis using split_loop_regions AddBlock_regions by metis
qed

lemma FindNew_regions:
  assumes F: "FindNewBlockForList p l s = Some (b, t)"
  shows "regions t = regions s
    \<or> p \<noteq> 0 \<and> regions t = (p, 2 ^ (if l < first_os_block_size_log then first_os_block_size_log else l)) # regions s"
proof (cases "find_list (l + 1) s = max_lists_num")
  case True
  then show ?thesis
    using F by (auto simp: FindNewBlockForList_def Let_def sys_take_def dest!: Split_regions
        split: if_splits bind_splits)
next
  case False
  show ?thesis
  proof (cases "max_lists_num \<le> l")
    case True
    then show ?thesis using F by (simp add: FindNewBlockForList_def)
  next
    case l: False
    obtain x u where "DetachFirstBlock (find_list (l + 1) s) s = Some (x, u)"
      "SplitBlockAndAddToLists x l (find_list (l + 1) s) u = Some t"
      using F False l by (auto simp: FindNewBlockForList_def Let_def split: bind_splits)
    then show ?thesis using Detach_regions Split_regions by metis
  qed
qed

lemma Alloc_regions:
  assumes A: "Alloc p j n s = Some (q, t)"
  shows "regions t = regions s \<or> regions t = (p, n + 8) # regions s \<or> regions t = (p, 2 ^ 20) # regions s"
proof (cases "n < malloc_threshold")
  case False
  then show ?thesis using A by (auto simp: Alloc_def sys_take_def store_Some split: if_splits bind_splits)
next
  case True
  obtain l where l: "GetNextPowerOfTwo (n + 8) = Some l" "l \<le> 11" using w1_list_num [OF True] by blast
  obtain ok u where u: "(if free_blocks_lists s l = 0 then FindNewBlockForList p l s else Some (True, s)) = Some (ok, u)"
    "if ok then (\<exists>h. DetachFirstBlock l u = Some (h, t)) else t = u"
    using A True l by (auto simp: Alloc_def max_lists_num_def split: if_splits bind_splits)
  have "regions t = regions u" using u(2) Detach_regions by (auto split: if_splits)
  moreover have "regions u = regions s \<or> regions u = (p, 2 ^ 20) # regions s"
  proof (cases "free_blocks_lists s l = 0")
    case True
    then have "FindNewBlockForList p l s = Some (ok, u)" using u(1) by simp
    from FindNew_regions [OF this] show ?thesis using l(2) by (auto simp: first_os_block_size_log_def)
  next
    case False
    then show ?thesis using u(1) by simp
  qed
  ultimately show ?thesis by auto
qed

section \<open>Properties\<close>

text \<open>
  C5. Any legal program over \<open>Alloc\<close> and \<open>Free\<close>, with requests of any size up to four
  gigabytes, runs without undefined behaviour, holds disjoint blocks and keeps their contents:
  splitting and reuse never hand out overlapping memory, and the header of a block always leads
  \<open>Free\<close> to the right list or to \<open>free\<close>.
\<close>

theorem winnie1_programs_sound:
  assumes "regions_ok (regions w)" and "legal w1_env w1_al w1_fr (cs @ cs') (w1_init w) Map.empty"
  shows "sound_run w1_al w1_fr cs cs' (w1_init w)"
  by (rule w1.run_sound [OF w1_inv_init [OF assms(1)] assms(2)])

theorem winnie1_programs_sound_witness:
  "\<exists>t K. run w1_al w1_fr [Malloc (4096, 0) 2000, Write 4104 8 7, Malloc (8192, 0) 3000, cmd.Free 8200]
      (w1_init \<lparr>cells = \<lambda>_. None, regions = []\<rparr>) Map.empty = Some (t, K)
    \<and> disjoint_blocks K \<and> K 4104 = Some 2000 \<and> load (4104 + 8) t = Some 7"
proof -
  let ?w = "\<lparr>cells = \<lambda>_. None, regions = []\<rparr>"
  let ?cs = "[Malloc (4096, 0) 2000, Write 4104 8 7] :: (nat \<times> nat) cmd list"
    and ?cs' = "[Malloc (8192, 0) 3000, cmd.Free 8200] :: (nat \<times> nat) cmd list"
  have g: "GetNextPowerOfTwo 2008 = Some 11" "GetNextPowerOfTwo 3008 = Some 12"
    by (simp_all add: GetNextPowerOfTwo_def BitTable_def dec64_def nth_append nth_Cons')
  note defs = w1_env_def w1_al_def w1_fr_def Alloc_def Free_def w1_init_def Let_def sys_take_def
    store_def load_def inside_def malloc_ok_def apart_def c_free_def sys_give_def malloc_threshold_def
    put_malloced_def is_malloced_def g
  have "legal w1_env w1_al w1_fr (?cs @ ?cs') (w1_init ?w) Map.empty" by (simp add: defs)
  then have S: "sound_run w1_al w1_fr ?cs ?cs' (w1_init ?w)" by (intro winnie1_programs_sound) simp_all
  obtain t K where "run w1_al w1_fr ?cs (w1_init ?w) Map.empty = Some (t, K)"
    "K 4104 = Some 2000" "load (4104 + 8) t = Some 7"
    by (simp add: defs)
  then show ?thesis using sound_runD [OF S, of t K 4104 2000 8] by simp
qed

text \<open>
  \<open>GetNextPowerOfTwo\<close> is the exponent of the least power of two that is not smaller
  than its argument, for every argument from 1 to four gigabytes.
\<close>

lemma winnie1_next_power_least:
  assumes "0 < k" and "k \<le> 2 ^ 32"
  shows "GetNextPowerOfTwo k = Some (LEAST r. k \<le> 2 ^ r)"
proof -
  obtain r where r: "GetNextPowerOfTwo k = Some r" "k \<le> 2 ^ r" "1 < k \<Longrightarrow> 2 ^ r < 2 * k" "k = 1 \<Longrightarrow> r = 0"
    using GetNextPowerOfTwo_spec [OF assms] by blast
  have "(LEAST r. k \<le> 2 ^ r) = r"
  proof (rule Least_equality [where P = "\<lambda>r. k \<le> 2 ^ r"])
    show "k \<le> 2 ^ r" by (rule r(2))
  next
    fix i assume i: "k \<le> 2 ^ i"
    show "r \<le> i"
    proof (cases "k = 1")
      case False
      then have "(2 :: nat) ^ r < 2 ^ Suc i" using r(3) assms(1) i by simp
      then have "r < Suc i" by (simp only: power_strict_increasing_iff)
      then show ?thesis by simp
    qed (simp add: r(4))
  qed
  then show ?thesis using r(1) by simp
qed

lemma winnie1_next_power_least_witness: "GetNextPowerOfTwo 1000 = Some (LEAST r. 1000 \<le> (2 :: nat) ^ r)"
  using winnie1_next_power_least [of 1000] by simp

text \<open>
  \<open>Realloc\<close> of a list block to a bigger size copies \<open>2 ^ list_num\<close> bytes from the
  user's pointer, 8 more than the block has there. When the memory behind the block is not
  owned, which is so for the last block of a megabyte, the copy is undefined behaviour.
\<close>

lemma winnie1_realloc_overreads:
  assumes I: "w1_inv s L" and L: "L p = Some n" and n: "n < malloc_threshold" and n0: "0 < n"
    and e: "w1_env (q, j) k s" "malloc_ok q (k + 8) s" "malloc_ok q (2 ^ 20) s"
    and l: "GetNextPowerOfTwo (n + 8) = Some l" and k: "2 ^ l < k"
    and last: "\<not> inside p (2 ^ l) (regions s)"
  shows "Realloc p q j k s = None"
proof -
  obtain fs M where C: "w1_core s fs M" and V: "views 8 w1_fits L M" using I by (auto simp: w1_inv_def)
  note H = w1_coreD(1) [OF C]
  obtain x c where x: "p = x + 8" "M x = Some c" "w1_fits c n" using viewsD [OF V L] .
  have c: "c = Inl l" using x(3) n l by (simp add: w1_fits_def w1_class_def)
  obtain v where v: "cells s x = Some v" "is_malloced v = 0" "list_num v = l"
    using w1_coreD(5) [OF C x(2)] c by auto
  have xc: "(x, Inl l) \<in> blocks fs M" using x(2) c by (simp add: in_blocks)
  have l8: "8 \<le> (2 :: nat) ^ l" using heap_block_size [OF H xc] by simp
  have bx: "inside x (2 ^ l) (regions s)" using heap_block_inside [OF H xc] by simp
  have ld: "load x s = Some v" using inside_mono [OF bx, of x 8] l8 v(1) by (simp add: load_def)
  obtain new t where t: "Alloc q j k s = Some (new, t)"
    using w1.alloc_ok [OF I e(1)] by (auto simp: w1_al_def)
  obtain r where r: "GetNextPowerOfTwo (k + 8) = Some r" "k + 8 \<le> 2 ^ r"
    using GetNextPowerOfTwo_spec [of "k + 8"] e(1) by (auto simp: w1_env_def)
  have rl: "r \<noteq> l" using r(2) k by auto
  have l16: "16 \<le> (2 :: nat) ^ l"
  proof -
    have "n + 8 \<le> 2 ^ l" using w1_list_num [OF n] l by auto
    then have "(2 :: nat) ^ 3 < 2 ^ l" using n0 by simp
    then have "3 < l" by (simp only: power_strict_increasing_iff)
    then have "4 \<le> l" by simp
    then have "(2 :: nat) ^ 4 \<le> 2 ^ l" by (simp only: power_increasing_iff)
    then show ?thesis by simp
  qed
  have far: "\<not> (q \<le> p \<and> p + 2 ^ l \<le> q + g)" if "malloc_ok q g s" for g
    using malloc_ok_inside [OF that bx] x(1) l16 unfolding apart_def by linarith
  have "\<not> inside p (2 ^ l) (regions t)"
    using Alloc_regions [OF t] last far [OF e(2)] far [OF e(3)] by (auto simp: inside_Cons)
  then have "memcpy new p (2 ^ l) t = None" by (simp add: memcpy_def)
  then show ?thesis
    using x(1) ld v(2,3) r(1) rl t k by (simp add: Realloc_def Let_def)
qed


lemma winnie1_realloc_overreads_witness:
  "let s = (w1_init \<lparr>cells = (\<lambda>_. None)(4096 := Some 1024), regions = [(4096, 16)]\<rparr>)
   in Realloc 4104 8192 0 20 s = None"
proof -
  let ?s = "w1_init \<lparr>cells = (\<lambda>_. None)(4096 := Some 1024), regions = [(4096, 16)]\<rparr>"
  have h: "w1_heads ?s = (\<lambda>_. 0)"
    by (rule ext) (auto simp: w1_heads_def w1_init_def split: sum.splits)
  have g: "GetNextPowerOfTwo 16 = Some 4" "GetNextPowerOfTwo 28 = Some 5"
    by (simp_all add: GetNextPowerOfTwo_def BitTable_def dec64_def nth_append nth_Cons')
  have "heap_inv w1_size (\<lambda>_. ptr_fmt 0) (cells ?s) (regions ?s) (\<lambda>_. 0) (\<lambda>_. []) Map.empty"
    using heap_init [of "regions ?s" w1_size "\<lambda>_. ptr_fmt 0"] by (simp add: w1_init_def regions_ok_Cons)
  then have "w1_heap ?s (\<lambda>_. []) [4096 \<mapsto> Inl 4]"
    unfolding h by (rule heap_carve) (simp_all add: block_ok_def w1_init_def inside_def in_blocks)
  then have "w1_core ?s (\<lambda>_. []) [4096 \<mapsto> Inl 4]"
    by (rule w1_coreI) (auto simp: in_blocks w1_init_def is_malloced_def list_num_def split: if_splits)
  moreover have "views 8 w1_fits [4096 + 8 \<mapsto> 8] [4096 \<mapsto> Inl 4]"
    using views_upd [OF views_empty, of w1_fits "Inl 4" 8 8 4096]
    by (simp add: w1_fits_def w1_class_def malloc_threshold_def g)
  ultimately have i: "w1_inv ?s [4104 \<mapsto> 8]" unfolding w1_inv_def by auto
  have "Realloc 4104 8192 0 20 ?s = None"
    by (rule winnie1_realloc_overreads [OF i, of _ 8 _ _ _ 4])
      (simp_all add: w1_env_def malloc_threshold_def g malloc_ok_def apart_def w1_init_def inside_def
        max_os_block_num_def)
  then show ?thesis by simp
qed

end
