(* ===== verification/DList.thy ===== *)
theory DList
  imports World
begin

text \<open>
  Lists linked through the fields of records in a store: doubly linked ones, whose nodes hold
  the addresses of both neighbours, and singly linked ones. \<open>dseg\<close> is a segment of a doubly
  linked list from its first node \<open>h\<close> (entered from \<open>p\<close>) to its last node \<open>q\<close>, whose next
  field is \<open>e\<close>. The locale \<open>dnode\<close> holds what insertion at the front and removal of an
  inner node do to such a list, for any record with two link fields.
\<close>

fun dseg :: "('r \<Rightarrow> nat) \<Rightarrow> ('r \<Rightarrow> nat) \<Rightarrow> (nat \<Rightarrow> 'r option)
    \<Rightarrow> nat \<Rightarrow> nat \<Rightarrow> nat list \<Rightarrow> nat \<Rightarrow> nat \<Rightarrow> bool" where
  "dseg pv nx M p h [] q e \<longleftrightarrow> q = p \<and> h = e"
| "dseg pv nx M p h (x # xs) q e \<longleftrightarrow> h = x \<and> x \<noteq> 0 \<and>
     (case M x of None \<Rightarrow> False | Some r \<Rightarrow> pv r = p \<and> dseg pv nx M x (nx r) xs q e)"

definition dlist :: "('r \<Rightarrow> nat) \<Rightarrow> ('r \<Rightarrow> nat) \<Rightarrow> (nat \<Rightarrow> 'r option) \<Rightarrow> nat \<Rightarrow> nat list \<Rightarrow> bool" where
  "dlist pv nx M h xs \<longleftrightarrow> dseg pv nx M 0 h xs (if xs = [] then 0 else last xs) 0"

fun slist :: "('r \<Rightarrow> nat) \<Rightarrow> (nat \<Rightarrow> 'r option) \<Rightarrow> nat \<Rightarrow> nat list \<Rightarrow> bool" where
  "slist nx M h [] \<longleftrightarrow> h = 0"
| "slist nx M h (x # xs) \<longleftrightarrow> h = x \<and> x \<noteq> 0 \<and>
     (case M x of None \<Rightarrow> False | Some r \<Rightarrow> slist nx M (nx r) xs)"

section \<open>Changing a field of a node\<close>

text \<open>Writing through a null or dangling pointer is undefined.\<close>

definition alter :: "nat \<Rightarrow> ('r \<Rightarrow> 'r) \<Rightarrow> (nat \<Rightarrow> 'r option) \<Rightarrow> (nat \<Rightarrow> 'r option) option" where
  "alter x f M = (case M x of None \<Rightarrow> None | Some r \<Rightarrow> Some (M(x \<mapsto> f r)))"

text \<open>\<open>if (x) x->field = v;\<close>\<close>

definition relink :: "nat \<Rightarrow> ('r \<Rightarrow> 'r) \<Rightarrow> (nat \<Rightarrow> 'r option) \<Rightarrow> (nat \<Rightarrow> 'r option) option" where
  "relink x f M = (if x \<noteq> 0 then alter x f M else Some M)"

lemma relink_0 [simp]: "relink 0 f M = Some M"
  by (simp add: relink_def)

lemma alter_Some: "M x = Some r \<Longrightarrow> alter x f M = Some (M(x \<mapsto> f r))"
  by (simp add: alter_def)

lemma dseg_last: "dseg pv nx M p h xs q e \<Longrightarrow> q = (if xs = [] then p else last xs)"
  by (induction xs arbitrary: p h) (auto split: option.splits)

lemma dseg_cong:
  assumes "\<And>x. x \<in> set xs \<Longrightarrow> M' x = M x"
  shows "dseg pv nx M' p h xs q e = dseg pv nx M p h xs q e"
  using assms by (induction xs arbitrary: p h) (auto split: option.splits)

lemma dlist_cong:
  "(\<And>x. x \<in> set xs \<Longrightarrow> M' x = M x) \<Longrightarrow> dlist pv nx M' h xs = dlist pv nx M h xs"
  by (simp add: dlist_def cong: dseg_cong)

lemma slist_cong:
  "(\<And>x. x \<in> set xs \<Longrightarrow> M' x = M x) \<Longrightarrow> slist nx M' h xs = slist nx M h xs"
  by (induction xs arbitrary: h) (auto split: option.splits)

lemma dseg_links_cong:
  assumes "\<And>x. x \<in> set xs \<Longrightarrow> map_option pv (M' x) = map_option pv (M x) \<and> map_option nx (M' x) = map_option nx (M x)"
  shows "dseg pv nx M' p h xs q e = dseg pv nx M p h xs q e"
  using assms
proof (induction xs arbitrary: p h)
  case Nil
  then show ?case by simp
next
  case (Cons x xs)
  then have "map_option pv (M' x) = map_option pv (M x)" "map_option nx (M' x) = map_option nx (M x)"
    by simp_all
  moreover have "dseg pv nx M' p h xs q e = dseg pv nx M p h xs q e" for p h
    by (intro Cons.IH Cons.prems) simp
  ultimately show ?case by (cases "M x"; cases "M' x") auto
qed

lemma dlist_links_cong:
  "(\<And>x. x \<in> set xs \<Longrightarrow> map_option pv (M' x) = map_option pv (M x) \<and> map_option nx (M' x) = map_option nx (M x))
     \<Longrightarrow> dlist pv nx M' h xs = dlist pv nx M h xs"
  unfolding dlist_def by (rule dseg_links_cong)

lemma slist_links_cong:
  assumes "\<And>x. x \<in> set xs \<Longrightarrow> map_option nx (M' x) = map_option nx (M x)"
  shows "slist nx M' h xs = slist nx M h xs"
  using assms
proof (induction xs arbitrary: h)
  case Nil
  then show ?case by simp
next
  case (Cons x xs)
  then have "map_option nx (M' x) = map_option nx (M x)" by simp
  moreover have "slist nx M' h xs = slist nx M h xs" for h
    by (intro Cons.IH Cons.prems) simp
  ultimately show ?case by (cases "M x"; cases "M' x") auto
qed

lemma dseg_append:
  "dseg pv nx M p h (us @ vs) q e \<longleftrightarrow>
     (\<exists>m k. dseg pv nx M p h us m k \<and> dseg pv nx M m k vs q e)"
  by (induction us arbitrary: p h) (auto split: option.splits)

lemma dseg_Some: "dseg pv nx M p h xs q e \<Longrightarrow> x \<in> set xs \<Longrightarrow> x \<noteq> 0 \<and> (\<exists>r. M x = Some r)"
  by (induction xs arbitrary: p h) (auto split: option.splits)

lemma dseg_alter: "dseg pv nx M p h xs q e \<Longrightarrow> x \<in> set xs \<Longrightarrow> alter x f M = Some (M(x \<mapsto> f (the (M x))))"
  using dseg_Some [of pv nx M p h xs q e x] by (auto simp: alter_def)

lemma dlist_Some: "dlist pv nx M h xs \<Longrightarrow> x \<in> set xs \<Longrightarrow> x \<noteq> 0 \<and> (\<exists>r. M x = Some r)"
  unfolding dlist_def by (rule dseg_Some)

lemma slist_Some: "slist nx M h xs \<Longrightarrow> x \<in> set xs \<Longrightarrow> x \<noteq> 0 \<and> (\<exists>r. M x = Some r)"
  by (induction xs arbitrary: h) (auto split: option.splits)

lemma dlist_Nil [simp]: "dlist pv nx M h [] \<longleftrightarrow> h = 0"
  by (simp add: dlist_def)

lemma dlist_head: "dlist pv nx M h xs \<Longrightarrow> h = (case xs of [] \<Rightarrow> 0 | x # _ \<Rightarrow> x)"
  by (auto simp: dlist_def split: list.splits)

lemma slist_head: "slist nx M h xs \<Longrightarrow> h = (case xs of [] \<Rightarrow> 0 | x # _ \<Rightarrow> x)"
  by (auto split: list.splits)

lemma dlist_0: "dlist pv nx M 0 xs \<longleftrightarrow> xs = []"
  by (cases xs) (auto simp: dlist_def)

lemma dlist_dseg: "dlist pv nx M h xs \<longleftrightarrow> (\<exists>q. dseg pv nx M 0 h xs q 0)"
  unfolding dlist_def using dseg_last by metis

locale dnode =
  fixes pv :: "'r \<Rightarrow> nat" and nx :: "'r \<Rightarrow> nat"
    and spv :: "nat \<Rightarrow> 'r \<Rightarrow> 'r" and snx :: "nat \<Rightarrow> 'r \<Rightarrow> 'r"
  assumes pv_spv: "pv (spv v r) = v" and nx_spv: "nx (spv v r) = nx r"
    and nx_snx: "nx (snx v r) = v" and pv_snx: "pv (snx v r) = pv r"
begin

lemma set_prev:
  assumes "dseg pv nx M p h xs q e" and "distinct xs" and "xs \<noteq> []" and "M h = Some r"
  shows "dseg pv nx (M(h \<mapsto> spv p' r)) p' h xs q e"
proof -
  obtain ys where xs: "xs = h # ys" using assms(1,3) by (cases xs) auto
  then have "dseg pv nx (M(h \<mapsto> spv p' r)) h (nx r) ys q e = dseg pv nx M h (nx r) ys q e"
    using assms(2) by (intro dseg_cong) auto
  then show ?thesis using assms(1,4) by (simp add: xs pv_spv nx_spv)
qed

lemma set_next:
  assumes "dseg pv nx M p h xs q e" and "distinct xs" and "xs \<noteq> []" and "M q = Some r"
  shows "dseg pv nx (M(q \<mapsto> snx e' r)) p h xs q e'"
  using assms
proof (induction xs arbitrary: p h)
  case Nil
  then show ?case by simp
next
  case (Cons x xs)
  then obtain rx where rx: "h = x" "x \<noteq> 0" "M x = Some rx" "pv rx = p"
    "dseg pv nx M x (nx rx) xs q e" by (auto split: option.splits)
  show ?case
  proof (cases "xs = []")
    case True
    with rx Cons.prems(4) show ?thesis by (simp add: nx_snx pv_snx)
  next
    case False
    have "q \<in> set xs" using dseg_last [OF rx(5)] False by simp
    then have "q \<noteq> x" using Cons.prems(2) by auto
    with Cons.IH [OF rx(5) _ False Cons.prems(4)] rx Cons.prems(2) show ?thesis by simp
  qed
qed

text \<open>
  The four assignments that take a node out of its list: the successor's back link, the
  predecessor's forward link, or the head when there is no predecessor.
\<close>

lemma unlink:
  assumes "dlist pv nx M h (us @ x # vs)" and "distinct (us @ x # vs)" and "M x = Some r"
  obtains M1 M2 where
    "relink (nx r) (spv (pv r)) M = Some M1"
    and "relink (pv r) (snx (nx r)) M1 = Some M2"
    and "dlist pv nx M2 (if pv r \<noteq> 0 then h else nx r) (us @ vs)"
    and "\<And>y. y \<notin> set us \<union> set vs \<Longrightarrow> M2 y = M y"
    and "\<And>y ry. M y = Some ry \<Longrightarrow> \<exists>a b. M2 y \<in> {Some ry, Some (spv a ry), Some (snx b ry)}"
proof -
  from assms(1) obtain m k q where u: "dseg pv nx M 0 h us m k" and kx: "k = x"
    and mr: "pv r = m" and v: "dseg pv nx M x (nx r) vs q 0"
    using assms(3) by (auto simp: dlist_dseg dseg_append)
  define M1 where "M1 = (if nx r \<noteq> 0 then M(nx r \<mapsto> spv m (the (M (nx r)))) else M)"
  have nv: "nx r \<noteq> 0 \<longleftrightarrow> vs \<noteq> []" "nx r \<noteq> 0 \<Longrightarrow> nx r \<in> set vs"
    using v by (cases vs; auto)+
  have M1: "relink (nx r) (spv (pv r)) M = Some M1"
    using dseg_alter [OF v nv(2)] by (simp add: M1_def mr relink_def)
  have v1: "\<exists>q. dseg pv nx M1 m (nx r) vs q 0"
  proof (cases "vs = []")
    case True
    with nv v show ?thesis by simp
  next
    case False
    with nv dseg_Some [OF v] obtain rn where "M (nx r) = Some rn" by blast
    then have "dseg pv nx (M(nx r \<mapsto> spv m rn)) m (nx r) vs q 0"
      using set_prev [OF v _ False] assms(2) by simp
    then show ?thesis using False nv \<open>M (nx r) = Some rn\<close> by (auto simp: M1_def)
  qed
  have u1: "dseg pv nx M1 0 h us m x"
  proof -
    have "dseg pv nx M1 0 h us m x = dseg pv nx M 0 h us m x"
      using nv assms(2) by (intro dseg_cong) (auto simp: M1_def)
    with u kx show ?thesis by simp
  qed
  define M2 where "M2 = (if m \<noteq> 0 then M1(m \<mapsto> snx (nx r) (the (M1 m))) else M1)"
  have mu: "m \<noteq> 0 \<longleftrightarrow> us \<noteq> []" "m \<noteq> 0 \<Longrightarrow> m \<in> set us"
    using dseg_last [OF u] dseg_Some [OF u] by (auto split: if_splits)
  have M2: "relink (pv r) (snx (nx r)) M1 = Some M2"
    using dseg_alter [OF u1 mu(2)] by (simp add: M2_def mr relink_def)
  have vm: "\<exists>q. dseg pv nx M2 m (nx r) vs q 0"
  proof -
    have "dseg pv nx M2 m (nx r) vs q' 0 = dseg pv nx M1 m (nx r) vs q' 0" for q'
      using mu assms(2) by (intro dseg_cong) (auto simp: M2_def)
    with v1 show ?thesis by auto
  qed
  have um: "dseg pv nx M2 0 (if m \<noteq> 0 then h else nx r) us m (nx r)"
  proof (cases "us = []")
    case True
    with mu show ?thesis by (simp add: M2_def)
  next
    case False
    with mu dseg_Some [OF u1] obtain rm where "M1 m = Some rm" by blast
    then have "dseg pv nx (M1(m \<mapsto> snx (nx r) rm)) 0 h us m (nx r)"
      using set_next [OF u1 _ False] assms(2) by simp
    then show ?thesis using False mu \<open>M1 m = Some rm\<close> by (auto simp: M2_def)
  qed
  have "dlist pv nx M2 (if pv r \<noteq> 0 then h else nx r) (us @ vs)"
    unfolding dlist_dseg dseg_append mr using vm um by blast
  moreover have "M2 y = M y" if "y \<notin> set us \<union> set vs" for y
    using that nv mu by (auto simp: M2_def M1_def)
  moreover have "\<exists>a b. M2 y \<in> {Some ry, Some (spv a ry), Some (snx b ry)}" if "M y = Some ry" for y ry
  proof -
    have "m \<noteq> nx r" if "m \<noteq> 0" and "nx r \<noteq> 0"
      using that mu nv assms(2) by auto
    then show ?thesis using that by (auto simp: M2_def M1_def)
  qed
  ultimately show ?thesis using that M1 M2 by blast
qed

text \<open>Insertion of a node, whose own links are already set, at the front.\<close>

lemma push_front:
  assumes "dlist pv nx M h xs" and "distinct xs" and "x \<notin> set xs" and "x \<noteq> 0"
    and "M x = Some r" and "pv r = 0" and "nx r = h"
  obtains M1 where "relink h (spv x) M = Some M1"
    and "dlist pv nx M1 x (x # xs)" and "\<And>y. y \<notin> set xs \<Longrightarrow> M1 y = M y"
    and "\<And>y ry. M y = Some ry \<Longrightarrow> \<exists>a. M1 y \<in> {Some ry, Some (spv a ry)}"
proof -
  from assms(1) obtain q where d: "dseg pv nx M 0 h xs q 0" by (auto simp: dlist_dseg)
  define M1 where "M1 = (if h \<noteq> 0 then M(h \<mapsto> spv x (the (M h))) else M)"
  have hx: "h \<noteq> 0 \<longleftrightarrow> xs \<noteq> []" "h \<noteq> 0 \<Longrightarrow> h \<in> set xs" using d by (cases xs; auto)+
  have M1: "relink h (spv x) M = Some M1"
    using dseg_alter [OF d hx(2)] by (simp add: M1_def relink_def)
  have hx': "x \<noteq> h" if "h \<noteq> 0" using hx assms(3) that by auto
  have M1x: "M1 x = Some r" using assms(5) hx' by (simp add: M1_def)
  have "\<exists>q. dseg pv nx M1 x h xs q 0"
  proof (cases "xs = []")
    case True
    with hx show ?thesis by simp
  next
    case False
    with hx dseg_Some [OF d] obtain rh where "M h = Some rh" by blast
    then have "dseg pv nx (M(h \<mapsto> spv x rh)) x h xs q 0"
      using set_prev [OF d assms(2) False] by simp
    then show ?thesis using False hx \<open>M h = Some rh\<close> by (auto simp: M1_def)
  qed
  then have "dlist pv nx M1 x (x # xs)" using assms(4,6,7) M1x by (auto simp: dlist_dseg)
  moreover have "M1 y = M y" if "y \<notin> set xs" for y using that hx by (auto simp: M1_def)
  moreover have "\<exists>a. M1 y \<in> {Some ry, Some (spv a ry)}" if "M y = Some ry" for y ry
    using that by (auto simp: M1_def)
  ultimately show ?thesis using that M1 by blast
qed

end

end
