(* ===== verification/MBAlloc.thy ===== *)
theory MBAlloc
  imports DList
begin

text \<open>
  \<open>tav/mballoc.cpp\<close>: blocks of one size class are carved from megablocks of 128 KiB; every
  context keeps its megablocks in lists (completely filled, partly free per class, unused).
  The size-class arithmetic is written for any size of the block header (\<open>hs\<close>, 4 or 8 bytes);
  the heap is the 32-bit build with the configuration of the file (alignment 4, accuracy 2,
  \<open>MB_THREADSAFE\<close>, no call stacks), in 4-byte words. An \<open>ASSERT\<close> that fails and a shift by
  a negative amount are undefined (\<open>None\<close>).
\<close>

section \<open>Size classes\<close>

definition MBALLOC_ALIGNMENT :: nat where "MBALLOC_ALIGNMENT = 4"
definition MEGABLOCK_SIZE :: nat where "MEGABLOCK_SIZE = 128 * 1024"
definition MAX_BLOCK_SIZE :: nat where "MAX_BLOCK_SIZE = 16 * 1024"

definition GetIndexFromSize :: "nat \<Rightarrow> nat \<Rightarrow> nat option" where
  "GetIndexFromSize hs n =
     (let s = round_up MBALLOC_ALIGNMENT (n + hs);
          index = bsr ((s - 1) OR 1)
      in if index < 2 then None
         else Some (index * 4 + ((s - 1) div 2 ^ (index - 2)) mod 4 + 1))"

definition GetSizeFromIndex :: "nat \<Rightarrow> nat option" where
  "GetSizeFromIndex i =
     (let baseShift = i div 4
      in if baseShift < 2 then None
         else Some (2 ^ baseShift OR (i mod 4) * 2 ^ (baseShift - 2)))"

lemma bsr_or_1: "0 < n \<Longrightarrow> bsr (n OR 1) = bsr n"
proof -
  assume n: "0 < n"
  show ?thesis
  proof (cases "odd n")
    case True
    then have "n OR 1 = n" using or_one_eq [of n] by simp
    then show ?thesis by simp
  next
    case False
    then have o: "n OR 1 = Suc n" using or_one_eq [of n] by simp
    have "Suc n < 2 ^ Suc (bsr n)"
    proof -
      obtain m where m: "n = 2 * m" using False by (auto elim: evenE)
      then have "m < 2 ^ bsr n" using bsr_less [of n] by simp
      then show ?thesis by (simp add: m)
    qed
    moreover have "2 ^ bsr n \<le> Suc n" using bsr_le [OF n] by simp
    ultimately show ?thesis unfolding o by (intro bsr_unique)
  qed
qed

lemma or_shifted:
  fixes j k :: nat
  assumes "j < 4"
  shows "2 ^ (k + 2) OR j * 2 ^ k = (4 + j) * 2 ^ k"
proof -
  have "2 ^ (k + 2) OR j * 2 ^ k = push_bit k (4 :: nat) OR push_bit k j"
    by (simp add: push_bit_eq_mult power_add)
  also have "\<dots> = push_bit k (4 OR j)" by (simp add: push_bit_or)
  also have "4 OR j = 4 + j"
  proof -
    have "j = 0 \<or> j = 1 \<or> j = 2 \<or> j = 3" using assms by linarith
    then show ?thesis by auto
  qed
  finally show ?thesis by (simp add: push_bit_eq_mult)
qed

text \<open>The size of class \<open>4 b + j\<close> (\<open>j < 4\<close>) is \<open>(4 + j) 2\<^sup>b\<^sup>-\<^sup>2\<close>.\<close>

lemma GetSizeFromIndex_eq:
  "j < 4 \<Longrightarrow> GetSizeFromIndex (4 * (k + 2) + j) = Some ((4 + j) * 2 ^ k)"
proof -
  assume j: "j < 4"
  then have "(4 * (k + 2) + j) div 4 = k + 2" and "(4 * (k + 2) + j) mod 4 = j" by presburger+
  then show ?thesis
    unfolding GetSizeFromIndex_def Let_def using or_shifted [OF j, of k] by simp
qed

lemma GetSizeFromIndex_cases:
  assumes "GetSizeFromIndex i = Some z"
  obtains k j where "i = 4 * (k + 2) + j" and "j < 4" and "z = (4 + j) * 2 ^ k"
proof -
  from assms have b: "2 \<le> i div 4" by (auto simp: GetSizeFromIndex_def Let_def split: if_splits)
  define k where "k = i div 4 - 2"
  have "i = 4 * (k + 2) + i mod 4" using b unfolding k_def by presburger
  moreover have "i mod 4 < 4" by simp
  ultimately show ?thesis using that assms GetSizeFromIndex_eq [of "i mod 4" k] by simp
qed

text \<open>Rounding up to a quarter power of two, with the bit scan that finds the power.\<close>

lemma quarter_power:
  assumes "4 < s"
  obtains k q where "bsr ((s - 1) OR 1) = k + 2" and "(s - 1) div 2 ^ k = q" and "4 \<le> q" and "q < 8"
    and "(q + 1) * 2 ^ k = round_up (2 ^ k) s" and "2 ^ (k + 2) < s" and "s \<le> 2 ^ (k + 3)"
proof -
  define b where "b = bsr (s - 1)"
  have s1: "0 < s - 1" using assms by simp
  have lo: "2 ^ b \<le> s - 1" and hi: "s - 1 < 2 ^ Suc b"
    using bsr_le [OF s1] bsr_less [of "s - 1"] by (simp_all add: b_def)
  have b2: "2 \<le> b"
  proof (rule ccontr)
    assume "\<not> 2 \<le> b"
    then have "(2::nat) ^ Suc b \<le> 2 ^ 2" by (intro power_increasing) auto
    with hi assms show False by simp
  qed
  define k where "k = b - 2"
  have bk: "b = k + 2" using b2 by (simp add: k_def)
  define q where "q = (s - 1) div 2 ^ k"
  have "4 * 2 ^ k \<le> s - 1" and "s - 1 < 8 * 2 ^ k" using lo hi by (simp_all add: bk power_add)
  then have q: "4 \<le> q" "q < 8"
    by (simp_all add: q_def less_mult_imp_div_less div_le_mono [of "4 * 2 ^ k", simplified]
        less_eq_div_iff_mult_less_eq)
  have "(q + 1) * 2 ^ k = round_up (2 ^ k) s"
  proof -
    have "s + (2 ^ k - 1) = (s - 1) + 2 ^ k" using assms by simp
    moreover have "\<dots> - \<dots> mod 2 ^ k = 2 ^ k * (((s - 1) + 2 ^ k) div 2 ^ k)"
      by (simp only: minus_mod_eq_mult_div)
    moreover have "((s - 1) + 2 ^ k) div 2 ^ k = q + 1" by (simp add: q_def div_add_self2)
    ultimately show ?thesis unfolding round_up_def by (simp only: mult.commute)
  qed
  moreover have "2 ^ (k + 2) < s" and "s \<le> 2 ^ (k + 3)" using lo hi assms
    by (auto simp: bk power_add)
  moreover have "bsr ((s - 1) OR 1) = k + 2" using bsr_or_1 [OF s1] by (simp only: bk b_def [symmetric])
  ultimately show ?thesis using that q q_def by blast
qed

text \<open>The class chosen for \<open>n\<close> bytes has the padded size rounded up to a quarter power of two.\<close>

lemma class_of_size:
  assumes "s = round_up MBALLOC_ALIGNMENT (n + hs)" and "4 < s"
  shows "\<exists>i k. GetIndexFromSize hs n = Some i \<and> GetSizeFromIndex i = Some (round_up (2 ^ k) s)
    \<and> 2 ^ (k + 2) < s \<and> s \<le> 2 ^ (k + 3) \<and> 2 \<le> i div 4"
proof -
  obtain k q where k: "bsr ((s - 1) OR 1) = k + 2" "(s - 1) div 2 ^ k = q" and q: "4 \<le> q" "q < 8"
    and z: "(q + 1) * 2 ^ k = round_up (2 ^ k) s" and b: "2 ^ (k + 2) < s" "s \<le> 2 ^ (k + 3)"
    by (rule quarter_power [OF assms(2)])
  have i: "GetIndexFromSize hs n = Some ((k + 2) * 4 + q mod 4 + 1)"
    unfolding GetIndexFromSize_def Let_def assms(1) [symmetric] k(1) using k(2) by simp
  have "GetSizeFromIndex ((k + 2) * 4 + q mod 4 + 1) = Some ((q + 1) * 2 ^ k)"
  proof (cases "q = 7")
    case True
    have "GetSizeFromIndex (4 * (Suc k + 2) + 0) = Some ((4 + 0) * 2 ^ Suc k)"
      by (intro GetSizeFromIndex_eq) simp
    moreover have e: "(k + 2) * 4 + q mod 4 + 1 = 4 * (Suc k + 2) + 0" using True by simp
    ultimately show ?thesis unfolding e by (simp add: True)
  next
    case False
    with q have "q = 4 \<or> q = 5 \<or> q = 6" by linarith
    then have e: "(k + 2) * 4 + q mod 4 + 1 = 4 * (k + 2) + (q - 3)" by auto
    moreover have "GetSizeFromIndex (4 * (k + 2) + (q - 3)) = Some ((4 + (q - 3)) * 2 ^ k)"
      using False q by (intro GetSizeFromIndex_eq) auto
    ultimately show ?thesis unfolding e using q by simp
  qed
  moreover have "2 \<le> ((k + 2) * 4 + q mod 4 + 1) div 4" by simp
  ultimately show ?thesis using i z b by auto
qed

lemma round_up_pow_4:
  assumes "4 dvd s"
  shows "4 dvd round_up (2 ^ k) s"
proof (cases "k \<le> 2")
  case True
  then have "(2::nat) ^ k dvd 2 ^ 2" by (intro le_imp_power_dvd)
  then have "2 ^ k dvd s" using assms by (metis dvd_trans numeral_eq_iff power2_eq_square
        num_double numeral_times_numeral)
  then show ?thesis using assms by simp
next
  case False
  then have "(2::nat) ^ 2 dvd 2 ^ k" by (intro le_imp_power_dvd) simp
  then have "4 dvd (2::nat) ^ k" by simp
  then show ?thesis using round_up_dvd dvd_trans by blast
qed
text \<open>Every class size at least the padded size is at least the size of the chosen class.\<close>

lemma class_least:
  assumes "2 ^ (k + 2) < s" and "GetSizeFromIndex j = Some w" and "s \<le> w"
  shows "round_up (2 ^ k) s \<le> w"
proof -
  from assms(2) obtain l j' where w: "w = (4 + j') * 2 ^ l" "j' < 4"
    by (blast elim: GetSizeFromIndex_cases)
  then have "w < 8 * 2 ^ l" by simp
  then have "(2::nat) ^ (k + 2) < 2 ^ (l + 3)" using assms(1,3) by (simp add: power_add)
  then have "k \<le> l" by (simp only: power_strict_increasing_iff one_less_numeral_iff semiring_norm)
  then have d: "2 ^ k dvd w" by (simp add: w le_imp_power_dvd)
  show ?thesis
  proof (rule ccontr)
    assume "\<not> round_up (2 ^ k) s \<le> w"
    then have "w < round_up (2 ^ k) s" by simp
    moreover have "2 ^ k dvd round_up (2 ^ k) s" by (rule round_up_dvd)
    ultimately have "w + 2 ^ k \<le> round_up (2 ^ k) s"
      using d by (metis add.commute dvd_diff_nat dvd_imp_le le_add_diff_inverse less_or_eq_imp_le
          nat_add_left_cancel_le zero_less_diff)
    then show False using round_up_less [of "2 ^ k" s] assms(3) by simp
  qed
qed

lemma padded_size: "hs \<in> {4, 8} \<Longrightarrow> 1 \<le> n \<Longrightarrow> 8 \<le> round_up MBALLOC_ALIGNMENT (n + hs)"
proof -
  assume a: "hs \<in> {4, 8}" "1 \<le> n"
  have "n + hs \<le> round_up 4 (n + hs)" by (rule round_up_ge) simp
  moreover obtain m where "round_up 4 (n + hs) = 4 * m" using round_up_dvd by blast
  ultimately show ?thesis using a by (auto simp: MBALLOC_ALIGNMENT_def)
qed

text \<open>What the heap needs of the class of a request: at most 16 KiB when the request is in range.\<close>

lemma class_of_request:
  assumes "hs \<in> {4, 8}" and "1 \<le> n"
  obtains i z where "GetIndexFromSize hs n = Some i" and "GetSizeFromIndex i = Some z"
    and "n + hs \<le> z" and "8 \<le> z" and "4 dvd z" and "n + hs \<le> MAX_BLOCK_SIZE \<Longrightarrow> z \<le> MAX_BLOCK_SIZE"
proof -
  define s where "s = round_up MBALLOC_ALIGNMENT (n + hs)"
  have s8: "8 \<le> s" using padded_size [OF assms] by (simp add: s_def)
  then obtain i k where ik: "GetIndexFromSize hs n = Some i"
    "GetSizeFromIndex i = Some (round_up (2 ^ k) s)" "2 ^ (k + 2) < s"
    using class_of_size [OF s_def] by auto
  have s4: "4 dvd s" by (simp add: s_def MBALLOC_ALIGNMENT_def round_up_dvd)
  have ns: "n + hs \<le> s" by (simp add: s_def MBALLOC_ALIGNMENT_def round_up_ge)
  have sz: "s \<le> round_up (2 ^ k) s" by (simp add: round_up_ge)
  have "round_up (2 ^ k) s \<le> MAX_BLOCK_SIZE" if "n + hs \<le> MAX_BLOCK_SIZE"
  proof -
    have "s < MAX_BLOCK_SIZE + 4"
      using that round_up_less [of 4 "n + hs"] by (simp add: s_def MBALLOC_ALIGNMENT_def)
    moreover obtain m where "s = 4 * m" using s4 by (rule dvdE)
    ultimately have "s \<le> MAX_BLOCK_SIZE" by (simp add: MAX_BLOCK_SIZE_def)
    moreover have "GetSizeFromIndex (4 * (12 + 2) + 0) = Some ((4 + 0) * 2 ^ 12)"
      by (rule GetSizeFromIndex_eq) simp
    ultimately show ?thesis using class_least [OF ik(3)] by (simp add: MAX_BLOCK_SIZE_def)
  qed
  then show ?thesis using that [OF ik(1,2)] ns sz s8 round_up_pow_4 [OF s4] by simp
qed

text \<open>
  The size class of a request of at least one byte exists, holds the block header and the
  request, keeps blocks 4-byte aligned, wastes less than a quarter of the padded size, and is the
  smallest of all classes that can hold the padded size.
\<close>

lemma mb_size_class:
  assumes "hs \<in> {4, 8}" and "1 \<le> n"
  shows "\<exists>i z. GetIndexFromSize hs n = Some i \<and> GetSizeFromIndex i = Some z
    \<and> n + hs \<le> z \<and> 4 dvd z
    \<and> 4 * (z - round_up MBALLOC_ALIGNMENT (n + hs)) < round_up MBALLOC_ALIGNMENT (n + hs)
    \<and> (\<forall>j w. GetSizeFromIndex j = Some w \<longrightarrow> round_up MBALLOC_ALIGNMENT (n + hs) \<le> w \<longrightarrow> z \<le> w)"
proof -
  define s where "s = round_up MBALLOC_ALIGNMENT (n + hs)"
  have s8: "4 < s" using padded_size [OF assms] by (simp add: s_def)
  obtain i k where ik: "GetIndexFromSize hs n = Some i"
    "GetSizeFromIndex i = Some (round_up (2 ^ k) s)" "2 ^ (k + 2) < s"
    using class_of_size [OF s_def s8] by blast
  have "n + hs \<le> s" by (simp add: s_def MBALLOC_ALIGNMENT_def round_up_ge)
  moreover have "s \<le> round_up (2 ^ k) s" by (simp add: round_up_ge)
  moreover have "4 dvd s" by (simp add: s_def MBALLOC_ALIGNMENT_def round_up_dvd)
  then have "4 dvd round_up (2 ^ k) s" by (rule round_up_pow_4)
  moreover have "4 * (round_up (2 ^ k) s - s) < s"
    using round_up_less [of "2 ^ k" s] ik(3) by (simp add: power_add)
  ultimately show ?thesis
    using ik class_least [OF ik(3)] unfolding s_def [symmetric] by fastforce
qed

lemma mb_size_class_witness:
  "\<exists>i z. GetIndexFromSize 8 100 = Some i \<and> GetSizeFromIndex i = Some z \<and> 108 \<le> z"
  using mb_size_class [of 8 100] by fastforce

text \<open>
  A free block must hold two pointers, the header and the link of the free list. With 4-byte
  pointers every class does; with 8-byte pointers the class of requests up to four bytes does not,
  so that the link would overwrite the header of the next block. The index of the empty request,
  which the statistics ask for, takes a shift by a negative amount when pointers have 4 bytes.
\<close>

lemma mb_free_link_fits:
  assumes "1 \<le> n"
  shows "(\<exists>i z. GetIndexFromSize 4 n = Some i \<and> GetSizeFromIndex i = Some z \<and> 2 * 4 \<le> z)
    \<and> (n \<le> 4 \<longrightarrow> (\<exists>i. GetIndexFromSize 8 n = Some i \<and> GetSizeFromIndex i = Some 12 \<and> 12 < 2 * (8::nat)))
    \<and> GetIndexFromSize 4 0 = None"
proof (intro conjI impI)
  show "\<exists>i z. GetIndexFromSize 4 n = Some i \<and> GetSizeFromIndex i = Some z \<and> 2 * 4 \<le> z"
  proof (rule class_of_request [of 4 n])
    fix i z
    assume "GetIndexFromSize 4 n = Some i" and "GetSizeFromIndex i = Some z" and "8 \<le> z"
    then show ?thesis by auto
  qed (use assms in auto)
next
  assume "n \<le> 4"
  with assms have "n = 1 \<or> n = 2 \<or> n = 3 \<or> n = 4" by linarith
  moreover have "list_all (\<lambda>n. GetIndexFromSize 8 n = Some 14) [1, 2, 3, 4]" by code_simp
  moreover have "GetSizeFromIndex 14 = Some 12" by code_simp
  ultimately show "\<exists>i. GetIndexFromSize 8 n = Some i \<and> GetSizeFromIndex i = Some 12 \<and> 12 < 2 * (8::nat)"
    by auto
next
  show "GetIndexFromSize 4 0 = None" by code_simp
qed

lemma mb_free_link_fits_witness:
  "\<exists>i. GetIndexFromSize 8 1 = Some i \<and> GetSizeFromIndex i = Some 12"
  using mb_free_link_fits [of 1] by auto

end
