(* ===== verification/MBHeap.thy ===== *)
theory MBHeap
  imports MBAlloc ClientHeap
begin

text \<open>
  The heap of \<open>tav/mballoc.cpp\<close> (32-bit build). Megablock structs are records in a store
  keyed by their address; block headers and the links of the free blocks are 4-byte words of
  the memory they occupy, so that a free block's link lies where the client's data was.
\<close>

section \<open>State\<close>

record MegaBlock =
  mb_prev :: nat
  mb_next :: nat
  firstBlock :: nat
  mb_index :: nat
  numOfAllocatedBlocks :: nat
  mb_context :: nat

record PartlyFreeMegaBlock =
  pf_first :: nat
  justAllocated :: nat
  nextFreeBlock :: nat
  blocksLeft :: nat

record Context =
  partlyFreeMegaBlocks :: "nat \<Rightarrow> PartlyFreeMegaBlock"
  freeMegaBlock :: nat
  filledMegaBlock :: nat
  forceTLSmode :: bool
  sysAllocatedBlocks :: int
  sysAllocatedBlocksSize :: int

datatype MBMTMode = mbmtmTLS | mbmtmAppControlled | mbmtmCS

record mball =
  owned :: "(nat \<times> nat) list"
  words :: "nat \<Rightarrow> nat option"
  megas :: "nat \<Rightarrow> MegaBlock option"
  ctxs :: "nat \<Rightarrow> Context"
  contextOverride :: "nat option"
  mtMode :: MBMTMode
  critSectionInitialized :: bool

definition no_pf :: PartlyFreeMegaBlock where
  "no_pf = \<lparr>pf_first = 0, justAllocated = 0, nextFreeBlock = 0, blocksLeft = 0\<rparr>"

definition context0 :: Context where
  "context0 = \<lparr>partlyFreeMegaBlocks = (\<lambda>_. no_pf), freeMegaBlock = 0, filledMegaBlock = 0,
     forceTLSmode = False, sysAllocatedBlocks = 0, sysAllocatedBlocksSize = 0\<rparr>"

definition mb_init :: mball where
  "mb_init = \<lparr>owned = [], words = Map.empty, megas = Map.empty, ctxs = (\<lambda>_. context0),
     contextOverride = None, mtMode = mbmtmTLS, critSectionInitialized = False\<rparr>"

abbreviation pf_of :: "mball \<Rightarrow> nat \<Rightarrow> nat \<Rightarrow> PartlyFreeMegaBlock" where
  "pf_of s c i \<equiv> partlyFreeMegaBlocks (ctxs s c) i"

definition set_pf :: "nat \<Rightarrow> nat \<Rightarrow> PartlyFreeMegaBlock \<Rightarrow> mball \<Rightarrow> mball" where
  "set_pf c i f s = s\<lparr>ctxs := (ctxs s)(c := (ctxs s c)\<lparr>partlyFreeMegaBlocks :=
     (partlyFreeMegaBlocks (ctxs s c))(i := f)\<rparr>)\<rparr>"

definition set_filled :: "nat \<Rightarrow> nat \<Rightarrow> mball \<Rightarrow> mball" where
  "set_filled c m s = s\<lparr>ctxs := (ctxs s)(c := (ctxs s c)\<lparr>filledMegaBlock := m\<rparr>)\<rparr>"

definition set_unused :: "nat \<Rightarrow> nat \<Rightarrow> mball \<Rightarrow> mball" where
  "set_unused c m s = s\<lparr>ctxs := (ctxs s)(c := (ctxs s c)\<lparr>freeMegaBlock := m\<rparr>)\<rparr>"

section \<open>Memory\<close>

definition rd :: "nat \<Rightarrow> mball \<Rightarrow> nat option" where
  "rd a s = (if inside a 4 (owned s) \<and> 4 dvd a then words s a else None)"

definition wr :: "nat \<Rightarrow> nat \<Rightarrow> mball \<Rightarrow> mball option" where
  "wr a v s = (if inside a 4 (owned s) \<and> 4 dvd a then Some (s\<lparr>words := (words s)(a \<mapsto> v)\<rparr>) else None)"

text \<open>The system answers a request with \<open>p\<close>; fresh memory holds neither words nor structs.\<close>

definition drop_range :: "nat \<Rightarrow> nat \<Rightarrow> (nat \<Rightarrow> 'v option) \<Rightarrow> (nat \<Rightarrow> 'v option)" where
  "drop_range p n m = (\<lambda>a. if p \<le> a \<and> a < p + n then None else m a)"

definition SysAlloc :: "nat \<Rightarrow> nat \<Rightarrow> mball \<Rightarrow> mball" where
  "SysAlloc p n s =
     (if p = 0 then s
      else s\<lparr>owned := (p, n) # owned s, words := drop_range p n (words s),
             megas := drop_range p n (megas s)\<rparr>)"

definition SysFree :: "nat \<Rightarrow> mball \<Rightarrow> mball option" where
  "SysFree p s =
     (case map_of (owned s) p of None \<Rightarrow> None
      | Some n \<Rightarrow> Some (s\<lparr>owned := filter (\<lambda>r. fst r \<noteq> p) (owned s),
          words := drop_range p n (words s), megas := drop_range p n (megas s)\<rparr>))"

definition put_mega :: "nat \<Rightarrow> MegaBlock \<Rightarrow> mball \<Rightarrow> mball option" where
  "put_mega m r s = (if inside m 24 (owned s) then Some (s\<lparr>megas := (megas s)(m \<mapsto> r)\<rparr>) else None)"

definition ASSERT :: "bool \<Rightarrow> unit option" where
  "ASSERT b = (if b then Some () else None)"

definition decr :: "nat \<Rightarrow> nat option" where
  "decr n = (if n = 0 then None else Some (n - 1))"

section \<open>Operations\<close>

definition BH :: nat where "BH = 4"
definition MEGABLOCK_HEADER_SIZE :: nat where
  "MEGABLOCK_HEADER_SIZE = round_up MBALLOC_ALIGNMENT (24 + BH) - BH"
definition MEGABLOCK_TOTAL :: nat where
  "MEGABLOCK_TOTAL = MEGABLOCK_SIZE + MEGABLOCK_HEADER_SIZE"

definition u32 :: "int \<Rightarrow> nat" where
  "u32 i = nat (i mod 2 ^ 32)"

definition CritSectionAutoLeave :: "nat \<Rightarrow> mball \<Rightarrow> nat \<times> bool" where
  "CritSectionAutoLeave ct s =
     (if forceTLSmode (ctxs s ct) then (ct, False)
      else case contextOverride s of
        None \<Rightarrow> (ct, False)
      | Some c \<Rightarrow> (c, mtMode s = mbmtmCS))"

text \<open>The last free block was taken: the megablock, first of its list, is now filled.\<close>

definition partly_to_filled :: "nat \<Rightarrow> nat \<Rightarrow> nat \<Rightarrow> mball \<Rightarrow> mball option" where
  "partly_to_filled c i mb s = do {
     r \<leftarrow> megas s mb;
     M \<leftarrow> relink (mb_next r) (mb_prev_update (\<lambda>_. mb_prev r)) (megas s);
     let s = set_pf c i ((pf_of s c i)\<lparr>pf_first := mb_next r\<rparr>) (s\<lparr>megas := M\<rparr>);
     let h = filledMegaBlock (ctxs s c);
     s \<leftarrow> put_mega mb (r\<lparr>mb_prev := 0, mb_next := h\<rparr>) s;
     M \<leftarrow> relink h (mb_prev_update (\<lambda>_. mb)) (megas s);
     Some (set_filled c mb (s\<lparr>megas := M\<rparr>))
   }"

text \<open>1. A partly free megablock of the class.\<close>

definition alloc_partly :: "nat \<Rightarrow> nat \<Rightarrow> nat \<Rightarrow> mball \<Rightarrow> (nat \<times> mball) option" where
  "alloc_partly c i z s = do {
     let mb = pf_first (pf_of s c i);
     r \<leftarrow> megas s mb;
     let b = firstBlock r;
     nf \<leftarrow> rd (b + BH) s;
     s \<leftarrow> put_mega mb (r\<lparr>numOfAllocatedBlocks := numOfAllocatedBlocks r + 1, firstBlock := nf\<rparr>) s;
     s \<leftarrow> (if nf = 0 then do {
              ASSERT (numOfAllocatedBlocks r + 1 = MEGABLOCK_SIZE div z);
              partly_to_filled c i mb s
            } else Some s);
     Some (b + BH, s)
   }"

text \<open>2. The megablock from which blocks of the class are being carved.\<close>

definition alloc_just :: "nat \<Rightarrow> nat \<Rightarrow> nat \<Rightarrow> mball \<Rightarrow> (nat \<times> mball) option" where
  "alloc_just c i z s =
     (let pf = pf_of s c i; mb = justAllocated pf; r = nextFreeBlock pf in do {
        left \<leftarrow> decr (blocksLeft pf);
        let s = set_pf c i (pf\<lparr>nextFreeBlock := r + z, blocksLeft := left,
                  justAllocated := (if left = 0 then 0 else mb)\<rparr>) s;
        s \<leftarrow> wr r mb s;
        Some (r + BH, s)
      })"

text \<open>3. An unused megablock, or else 4. a new one, for which the system answers \<open>p\<close>.\<close>

definition take_mega :: "nat \<Rightarrow> nat \<Rightarrow> mball \<Rightarrow> (nat \<times> mball) option" where
  "take_mega p c s =
     (let mb = freeMegaBlock (ctxs s c) in
      if mb \<noteq> 0 then do { r \<leftarrow> megas s mb; Some (mb, set_unused c (mb_next r) s) }
      else Some (p, SysAlloc p MEGABLOCK_TOTAL s))"

definition alloc_new :: "nat \<Rightarrow> nat \<Rightarrow> nat \<Rightarrow> nat \<Rightarrow> mball \<Rightarrow> (nat \<times> mball) option" where
  "alloc_new p c i z s = do {
     (mb, s) \<leftarrow> take_mega p c s;
     let n = MEGABLOCK_SIZE div z;
     let h = filledMegaBlock (ctxs s c);
     s \<leftarrow> put_mega mb \<lparr>mb_prev = 0, mb_next = h, firstBlock = 0, mb_index = i,
            numOfAllocatedBlocks = n, mb_context = c\<rparr> s;
     M \<leftarrow> relink h (mb_prev_update (\<lambda>_. mb)) (megas s);
     let s = set_filled c mb (s\<lparr>megas := M\<rparr>);
     left \<leftarrow> decr n;
     let r = mb + MEGABLOCK_HEADER_SIZE;
     let s = set_pf c i ((pf_of s c i)\<lparr>justAllocated := mb, blocksLeft := left,
               nextFreeBlock := r + z\<rparr>) s;
     s \<leftarrow> wr r mb s;
     Some (r + BH, s)
   }"

text \<open>\<open>me\<close> is the calling thread, whose context is \<open>ctxs s me\<close>.\<close>

definition MBAlloc :: "nat \<Rightarrow> nat \<Rightarrow> int \<Rightarrow> mball \<Rightarrow> (nat \<times> mball) option" where
  "MBAlloc me p sz s =
     (let c = fst (CritSectionAutoLeave me s) in
      if MAX_BLOCK_SIZE - BH < u32 sz then do {
        let s = SysAlloc p ((u32 sz + BH) mod 2 ^ 32) s;
        s \<leftarrow> wr p 0 s;
        let x = ctxs s c;
        Some (p + BH, s\<lparr>ctxs := (ctxs s)(c := x\<lparr>sysAllocatedBlocks := sysAllocatedBlocks x + 1,
          sysAllocatedBlocksSize := sysAllocatedBlocksSize x + sz\<rparr>)\<rparr>)
      } else do {
        let n = (if u32 sz < 1 then 1 else u32 sz);
        i \<leftarrow> GetIndexFromSize BH n;
        z \<leftarrow> GetSizeFromIndex i;
        if pf_first (pf_of s c i) \<noteq> 0 then alloc_partly c i z s
        else if justAllocated (pf_of s c i) \<noteq> 0 then alloc_just c i z s
        else alloc_new p c i z s
      })"

text \<open>The size that a block can hold; \<open>SysMemSize\<close> is the size asked of the system.\<close>

definition MBMemSize :: "nat \<Rightarrow> mball \<Rightarrow> nat option" where
  "MBMemSize p s = do {
     ASSERT (p \<noteq> 0);
     m \<leftarrow> rd (p - BH) s;
     n \<leftarrow> (if m \<noteq> 0 then do { r \<leftarrow> megas s m; GetSizeFromIndex (mb_index r) }
           else map_of (owned s) (p - BH));
     Some (n - BH)
   }"

definition unlink_mega :: "MegaBlock \<Rightarrow> (nat \<Rightarrow> MegaBlock option) \<Rightarrow> (nat \<Rightarrow> MegaBlock option) option" where
  "unlink_mega r M = do {
     M \<leftarrow> relink (mb_next r) (mb_prev_update (\<lambda>_. mb_prev r)) M;
     relink (mb_prev r) (mb_next_update (\<lambda>_. mb_next r)) M
   }"

text \<open>The megablock was completely filled: it moves to the partly free ones of its class.\<close>

definition filled_to_partly :: "nat \<Rightarrow> nat \<Rightarrow> mball \<Rightarrow> mball option" where
  "filled_to_partly c mb s = do {
     r \<leftarrow> megas s mb;
     M \<leftarrow> unlink_mega r (megas s);
     let s = s\<lparr>megas := M\<rparr>;
     let s = (if mb_prev r \<noteq> 0 then s else set_filled c (mb_next r) s);
     let pf = pf_of s c (mb_index r);
     s \<leftarrow> put_mega mb (r\<lparr>mb_prev := 0, mb_next := pf_first pf\<rparr>) s;
     M \<leftarrow> relink (pf_first pf) (mb_prev_update (\<lambda>_. mb)) (megas s);
     Some (set_pf c (mb_index r) (pf\<lparr>pf_first := mb\<rparr>) (s\<lparr>megas := M\<rparr>))
   }"

text \<open>The last block of the megablock was freed: it moves to the unused ones.\<close>

definition partly_to_unused :: "nat \<Rightarrow> nat \<Rightarrow> mball \<Rightarrow> mball option" where
  "partly_to_unused c mb s = do {
     r \<leftarrow> megas s mb;
     M \<leftarrow> unlink_mega r (megas s);
     let s = s\<lparr>megas := M\<rparr>;
     let pf = pf_of s c (mb_index r);
     let s = (if mb_prev r \<noteq> 0 then s else set_pf c (mb_index r) (pf\<lparr>pf_first := mb_next r\<rparr>) s);
     s \<leftarrow> put_mega mb (r\<lparr>mb_next := freeMegaBlock (ctxs s c)\<rparr>) s;
     Some (set_unused c mb s)
   }"

definition MBFree :: "nat \<Rightarrow> nat \<Rightarrow> mball \<Rightarrow> mball option" where
  "MBFree me p s = do {
     ASSERT (p \<noteq> 0);
     let b = p - BH;
     mb \<leftarrow> rd b s;
     if mb \<noteq> 0 then do {
       r \<leftarrow> megas s mb;
       let c = fst (CritSectionAutoLeave (mb_context r) s);
       n \<leftarrow> decr (numOfAllocatedBlocks r);
       s \<leftarrow> put_mega mb (r\<lparr>numOfAllocatedBlocks := n\<rparr>) s;
       if 0 < n then do {
         s \<leftarrow> (if firstBlock r = 0 then filled_to_partly c mb s else Some s);
         r \<leftarrow> megas s mb;
         s \<leftarrow> wr (b + BH) (firstBlock r) s;
         put_mega mb (r\<lparr>firstBlock := b\<rparr>) s
       } else partly_to_unused c mb s
     } else do {
       let c = fst (CritSectionAutoLeave me s);
       n \<leftarrow> MBMemSize p s;
       let x = ctxs s c;
       SysFree b (s\<lparr>ctxs := (ctxs s)(c := x\<lparr>sysAllocatedBlocks := sysAllocatedBlocks x - 1,
         sysAllocatedBlocksSize := sysAllocatedBlocksSize x - int n\<rparr>)\<rparr>)
     }
   }"
text \<open>\<open>memcpy\<close> of a block's words, lowest address first.\<close>

fun copy_words :: "nat \<Rightarrow> nat \<Rightarrow> nat \<Rightarrow> mball \<Rightarrow> mball option" where
  "copy_words dst src 0 s = Some s"
| "copy_words dst src (Suc k) s = do {
     s \<leftarrow> copy_words dst src k s;
     (if inside (src + 4 * k) 4 (owned s) \<and> inside (dst + 4 * k) 4 (owned s)
      then Some (s\<lparr>words := (words s)(dst + 4 * k := words s (src + 4 * k))\<rparr>) else None)
   }"

definition MBRealloc :: "nat \<Rightarrow> nat \<Rightarrow> nat \<Rightarrow> int \<Rightarrow> mball \<Rightarrow> (nat \<times> mball) option" where
  "MBRealloc me e p sz s =
     (if p \<noteq> 0 then do {
        blockSize \<leftarrow> MBMemSize p s;
        if sz \<le> int blockSize then Some (p, s)
        else do {
          (pp, s) \<leftarrow> MBAlloc me e sz s;
          s \<leftarrow> copy_words pp p (blockSize div 4) s;
          s \<leftarrow> MBFree me p s;
          Some (pp, s)
        }
      } else MBAlloc me e sz s)"

text \<open>The three loops of \<open>MBFreeContext\<close>; a cyclic list would never be left.\<close>

partial_function (option) free_megas :: "nat \<Rightarrow> mball \<Rightarrow> mball option" where
  "free_megas m s =
     (if m = 0 then Some s
      else do { r \<leftarrow> megas s m; s \<leftarrow> SysFree m s; free_megas (mb_next r) s })"

fun free_partly :: "nat \<Rightarrow> nat list \<Rightarrow> mball \<Rightarrow> mball option" where
  "free_partly c [] s = Some s"
| "free_partly c (i # is) s = do { s \<leftarrow> free_megas (pf_first (pf_of s c i)) s; free_partly c is s }"

definition PARTLY_LENGTH :: nat where "PARTLY_LENGTH = 4 * 8 * 4"

definition MBFreeContext :: "nat \<Rightarrow> mball \<Rightarrow> mball option" where
  "MBFreeContext c s = do {
     s \<leftarrow> free_partly c [0..<PARTLY_LENGTH] s;
     let s = s\<lparr>ctxs := (ctxs s)(c := (ctxs s c)\<lparr>partlyFreeMegaBlocks := (\<lambda>_. no_pf)\<rparr>)\<rparr>;
     s \<leftarrow> free_megas (freeMegaBlock (ctxs s c)) s;
     let s = set_unused c 0 s;
     s \<leftarrow> free_megas (filledMegaBlock (ctxs s c)) s;
     Some (set_filled c 0 s)
   }"

definition MBFreeMainContext :: "nat \<Rightarrow> mball \<Rightarrow> mball option" where
  "MBFreeMainContext c s = do {
     s \<leftarrow> MBFreeContext c s;
     Some (if critSectionInitialized s then s\<lparr>critSectionInitialized := False\<rparr> else s)
   }"

definition MBSwitchMTMode :: "nat \<Rightarrow> MBMTMode \<Rightarrow> mball \<Rightarrow> MBMTMode \<times> mball" where
  "MBSwitchMTMode me mode s =
     (let s' = (case mode of
          mbmtmTLS \<Rightarrow> s\<lparr>contextOverride := None\<rparr>
        | mbmtmAppControlled \<Rightarrow> s\<lparr>contextOverride := Some me\<rparr>
        | mbmtmCS \<Rightarrow> (let s = s\<lparr>contextOverride := Some me\<rparr> in
            if \<not> critSectionInitialized s then s\<lparr>critSectionInitialized := True\<rparr> else s))
      in (mtMode s', s'\<lparr>mtMode := mode\<rparr>))"

definition MBForceTLSMode :: "nat \<Rightarrow> mball \<Rightarrow> mball" where
  "MBForceTLSMode me s = s\<lparr>ctxs := (ctxs s)(me := (ctxs s me)\<lparr>forceTLSmode := True\<rparr>)\<rparr>"

section \<open>Histories of the heap\<close>

text \<open>
  What a program in the thread-local mode can bring about: allocations, for which the system has
  aligned memory away from everything it lent before, frees of blocks in use, by any thread, and
  4-byte writes into blocks in use. \<open>L\<close> maps the blocks in use to the bytes asked for.
\<close>

definition sys_request :: "int \<Rightarrow> nat" where
  "sys_request sz = (if MAX_BLOCK_SIZE - BH < u32 sz then (u32 sz + BH) mod 2 ^ 32 else MEGABLOCK_TOTAL)"

definition answer_ok :: "nat \<Rightarrow> nat \<Rightarrow> mball \<Rightarrow> bool" where
  "answer_ok p n s \<longleftrightarrow> 0 < p \<and> 8 dvd p \<and> list_all (\<lambda>(q, k). apart p n q k) (owned s)"

definition size_ok :: "int \<Rightarrow> bool" where
  "size_ok sz \<longleftrightarrow> 0 \<le> sz \<and> sz < 2 ^ 31"

inductive mb_reach :: "mball \<Rightarrow> (nat \<rightharpoonup> nat) \<Rightarrow> bool" where
  start: "mb_reach mb_init Map.empty"
| alloc: "mb_reach s L \<Longrightarrow> size_ok sz \<Longrightarrow> answer_ok e (sys_request sz) s \<Longrightarrow>
    MBAlloc me e sz s = Some (p, s') \<Longrightarrow> mb_reach s' (L(p \<mapsto> nat sz))"
| free: "mb_reach s L \<Longrightarrow> L p = Some n \<Longrightarrow> MBFree me p s = Some s' \<Longrightarrow> mb_reach s' (L(p := None))"
| store: "mb_reach s L \<Longrightarrow> L p = Some n \<Longrightarrow> i + 4 \<le> n \<Longrightarrow> 4 dvd i \<Longrightarrow> wr (p + i) v s = Some s' \<Longrightarrow>
    mb_reach s' L"

end
