(* ===== verification/MBInv.thy ===== *)
theory MBInv
  imports MBHeap
begin

text \<open>
  The invariant of the megablock heap and the theorems on its histories. Ghost data: the place of
  every megablock (the list of its context that holds it), the contents of every list, and the
  free blocks of every megablock.
\<close>

interpretation mg: dnode mb_prev mb_next "\<lambda>v. mb_prev_update (\<lambda>_. v)" "\<lambda>v. mb_next_update (\<lambda>_. v)"
  by unfold_locales simp_all

lemma sizes [simp]: "BH = 4" "MEGABLOCK_HEADER_SIZE = 24" "MEGABLOCK_TOTAL = 131096"
  "MAX_BLOCK_SIZE = 16384" "MEGABLOCK_SIZE = 131072"
  by (simp_all add: BH_def MEGABLOCK_HEADER_SIZE_def MEGABLOCK_TOTAL_def MAX_BLOCK_SIZE_def
      MEGABLOCK_SIZE_def MBALLOC_ALIGNMENT_def round_up_def)

section \<open>The invariant\<close>

datatype place = Filled nat | Partly nat nat | Unused nat

fun head_of :: "mball \<Rightarrow> place \<Rightarrow> nat" where
  "head_of s (Filled c) = filledMegaBlock (ctxs s c)"
| "head_of s (Partly c i) = pf_first (pf_of s c i)"
| "head_of s (Unused c) = freeMegaBlock (ctxs s c)"

definition linked :: "(nat \<Rightarrow> MegaBlock option) \<Rightarrow> nat \<Rightarrow> place \<Rightarrow> nat list \<Rightarrow> bool" where
  "linked M h pl xs \<longleftrightarrow> (case pl of Unused c \<Rightarrow> slist mb_next M h xs | _ \<Rightarrow> dlist mb_prev mb_next M h xs)"

fun free_chain :: "(nat \<Rightarrow> nat option) \<Rightarrow> nat \<Rightarrow> nat list \<Rightarrow> bool" where
  "free_chain W h [] \<longleftrightarrow> h = 0"
| "free_chain W h (b # bs) \<longleftrightarrow> h = b \<and> b \<noteq> 0 \<and>
     (case W (b + 4) of None \<Rightarrow> False | Some n \<Rightarrow> free_chain W n bs)"

text \<open>How many blocks of a megablock have been carved.\<close>

definition carved :: "PartlyFreeMegaBlock \<Rightarrow> nat \<Rightarrow> nat \<Rightarrow> nat" where
  "carved f m z = (if justAllocated f = m then 131072 div z - blocksLeft f else 131072 div z)"

abbreviation blocks :: "nat \<Rightarrow> nat \<Rightarrow> nat \<Rightarrow> nat set" where
  "blocks m z k \<equiv> set (grid (m + 24) z k)"

definition mega_ok :: "(nat \<Rightarrow> nat option) \<Rightarrow> PartlyFreeMegaBlock \<Rightarrow> nat \<Rightarrow> nat \<Rightarrow> nat \<Rightarrow> nat list \<Rightarrow> bool" where
  "mega_ok W f m z h fl \<longleftrightarrow> 8 \<le> z \<and> z \<le> 16384 \<and> 4 dvd z
     \<and> free_chain W h fl \<and> distinct fl \<and> set fl \<subseteq> blocks m z (carved f m z)
     \<and> (\<forall>b \<in> blocks m z (carved f m z). W b = Some m)
     \<and> (justAllocated f = m \<longrightarrow> 0 < blocksLeft f \<and> blocksLeft f < 131072 div z
          \<and> nextFreeBlock f = m + 24 + carved f m z * z)"

definition in_use :: "place \<Rightarrow> bool" where
  "in_use pl \<longleftrightarrow> (case pl of Unused c \<Rightarrow> False | _ \<Rightarrow> True)"

definition place_ok :: "place \<Rightarrow> MegaBlock \<Rightarrow> bool" where
  "place_ok pl r \<longleftrightarrow> pl = Filled (mb_context r) \<or> pl = Partly (mb_context r) (mb_index r)"

definition lists_ok :: "(nat \<Rightarrow> MegaBlock option) \<Rightarrow> (place \<Rightarrow> nat) \<Rightarrow> (place \<Rightarrow> nat list) \<Rightarrow> (nat \<Rightarrow> place option) \<Rightarrow> bool" where
  "lists_ok M H lst loc \<longleftrightarrow> (\<forall>pl. linked M (H pl) pl (lst pl) \<and> distinct (lst pl)
     \<and> (\<forall>m. m \<in> set (lst pl) \<longleftrightarrow> loc m = Some pl))"

definition homes_ok :: "(nat \<times> nat) list \<Rightarrow> (nat \<Rightarrow> place option) \<Rightarrow> bool" where
  "homes_ok R loc \<longleftrightarrow> regions_ok R \<and> (\<forall>m pl. loc m = Some pl \<longrightarrow> (m, 131096) \<in> set R \<and> 8 dvd m)"

text \<open>One megablock in use: its struct, its place, its books.\<close>

definition one_ok :: "(nat \<Rightarrow> nat option) \<Rightarrow> (nat \<Rightarrow> nat \<Rightarrow> PartlyFreeMegaBlock) \<Rightarrow> (nat \<Rightarrow> MegaBlock option)
    \<Rightarrow> nat \<Rightarrow> place \<Rightarrow> nat list \<Rightarrow> bool" where
  "one_ok W PF M m pl fl \<longleftrightarrow> (\<exists>r z. M m = Some r \<and> place_ok pl r \<and> GetSizeFromIndex (mb_index r) = Some z
     \<and> mega_ok W (PF (mb_context r) (mb_index r)) m z (firstBlock r) fl
     \<and> numOfAllocatedBlocks r + length fl = 131072 div z
     \<and> (fl = [] \<longleftrightarrow> pl = Filled (mb_context r)))"

definition megs_ok :: "(nat \<Rightarrow> nat option) \<Rightarrow> (nat \<Rightarrow> nat \<Rightarrow> PartlyFreeMegaBlock) \<Rightarrow> (nat \<Rightarrow> MegaBlock option)
    \<Rightarrow> (nat \<Rightarrow> place option) \<Rightarrow> (nat \<Rightarrow> nat list) \<Rightarrow> bool" where
  "megs_ok W PF M loc fl \<longleftrightarrow>
     (\<forall>m pl. loc m = Some pl \<longrightarrow> in_use pl \<longrightarrow> one_ok W PF M m pl (fl m))"

definition justs_ok :: "(nat \<Rightarrow> nat \<Rightarrow> PartlyFreeMegaBlock) \<Rightarrow> (nat \<Rightarrow> MegaBlock option) \<Rightarrow> (nat \<Rightarrow> place option) \<Rightarrow> bool" where
  "justs_ok PF M loc \<longleftrightarrow> (\<forall>c i. justAllocated (PF c i) \<noteq> 0 \<longrightarrow>
     (\<exists>r pl. M (justAllocated (PF c i)) = Some r \<and> mb_context r = c \<and> mb_index r = i
        \<and> loc (justAllocated (PF c i)) = Some pl \<and> in_use pl))"

definition class_block :: "(nat \<Rightarrow> nat \<Rightarrow> PartlyFreeMegaBlock) \<Rightarrow> (nat \<Rightarrow> MegaBlock option) \<Rightarrow> (nat \<Rightarrow> place option)
    \<Rightarrow> (nat \<Rightarrow> nat list) \<Rightarrow> nat \<Rightarrow> nat \<Rightarrow> nat \<Rightarrow> bool" where
  "class_block PF M loc fl p n m \<longleftrightarrow> (\<exists>pl r z. loc m = Some pl \<and> in_use pl \<and> M m = Some r
     \<and> GetSizeFromIndex (mb_index r) = Some z
     \<and> p - 4 \<in> blocks m z (carved (PF (mb_context r) (mb_index r)) m z)
     \<and> p - 4 \<notin> set (fl m) \<and> n + 4 \<le> z)"

definition sys_block :: "(nat \<times> nat) list \<Rightarrow> (nat \<Rightarrow> nat option) \<Rightarrow> (nat \<Rightarrow> place option) \<Rightarrow> nat \<Rightarrow> nat \<Rightarrow> bool" where
  "sys_block R W loc p n \<longleftrightarrow> (p - 4, n + 4) \<in> set R \<and> loc (p - 4) = None
     \<and> W (p - 4) = Some 0 \<and> 8 dvd (p - 4)"

definition live_ok :: "(nat \<times> nat) list \<Rightarrow> (nat \<Rightarrow> nat option) \<Rightarrow> (nat \<Rightarrow> nat \<Rightarrow> PartlyFreeMegaBlock)
    \<Rightarrow> (nat \<Rightarrow> MegaBlock option) \<Rightarrow> (nat \<Rightarrow> place option) \<Rightarrow> (nat \<Rightarrow> nat list) \<Rightarrow> (nat \<rightharpoonup> nat) \<Rightarrow> bool" where
  "live_ok R W PF M loc fl L \<longleftrightarrow> (\<forall>p n. L p = Some n \<longrightarrow> 4 < p \<and>
     ((\<exists>m. class_block PF M loc fl p n m) \<or> sys_block R W loc p n))"

definition PF_of :: "mball \<Rightarrow> nat \<Rightarrow> nat \<Rightarrow> PartlyFreeMegaBlock" where
  "PF_of s = (\<lambda>c i. pf_of s c i)"

definition core :: "mball \<Rightarrow> (place \<Rightarrow> nat list) \<Rightarrow> (nat \<Rightarrow> place option) \<Rightarrow> (nat \<Rightarrow> nat list) \<Rightarrow> bool" where
  "core s lst loc fl \<longleftrightarrow> contextOverride s = None \<and> homes_ok (owned s) loc
     \<and> lists_ok (megas s) (head_of s) lst loc \<and> megs_ok (words s) (PF_of s) (megas s) loc fl
     \<and> justs_ok (PF_of s) (megas s) loc"

definition mb_inv :: "mball \<Rightarrow> (nat \<rightharpoonup> nat) \<Rightarrow> bool" where
  "mb_inv s L \<longleftrightarrow> (\<exists>lst loc fl. core s lst loc fl
     \<and> live_ok (owned s) (words s) (PF_of s) (megas s) loc fl L)"

section \<open>Lemmas on the parts\<close>

lemma free_chain_cong:
  "(\<And>b. b \<in> set fl \<Longrightarrow> W' (b + 4) = W (b + 4)) \<Longrightarrow> free_chain W' h fl = free_chain W h fl"
  by (induction fl arbitrary: h) (auto split: option.splits)

lemma carved_le: "carved f m z \<le> 131072 div z"
  by (simp add: carved_def)

lemma block_bounds:
  assumes "b \<in> blocks m z k" and "k \<le> 131072 div z" and "0 < z"
  shows "m + 24 \<le> b" and "b + z \<le> m + 131096"
proof -
  have "k * z \<le> 131072 div z * z" using assms(2) by (intro mult_le_mono1)
  also have "\<dots> \<le> 131072" by simp
  finally show "m + 24 \<le> b" and "b + z \<le> m + 131096"
    using grid_bounds [OF assms(1)] by auto
qed

lemma block_aligned: "b \<in> blocks m z k \<Longrightarrow> 8 dvd m \<Longrightarrow> 4 dvd z \<Longrightarrow> 4 dvd b"
proof -
  assume "b \<in> blocks m z k" and "8 dvd m" and "4 dvd z"
  then obtain i where "b = m + 24 + i * z" by (auto simp: set_grid)
  moreover have "4 dvd m" using \<open>8 dvd m\<close> by (auto elim!: dvdE intro: dvdI [of _ _ "2 * _"])
  ultimately show ?thesis using \<open>4 dvd z\<close> by simp
qed

text \<open>\<open>mega_ok\<close> reads only the words of the megablock's block area.\<close>

lemma mega_ok_cong:
  assumes "\<And>a. m + 24 \<le> a \<Longrightarrow> a + 4 \<le> m + 131096 \<Longrightarrow> W' a = W a"
  shows "mega_ok W' f m z h fl = mega_ok W f m z h fl"
proof (cases "8 \<le> z \<and> set fl \<subseteq> blocks m z (carved f m z)")
  case True
  then have z: "0 < z" "8 \<le> z" by auto
  have b: "W' b = W b \<and> W' (b + 4) = W (b + 4)" if "b \<in> blocks m z (carved f m z)" for b
    using block_bounds [OF that carved_le z(1)] z(2) assms by auto
  have "free_chain W' h fl = free_chain W h fl"
    using b True by (intro free_chain_cong) auto
  moreover have "(\<forall>b \<in> blocks m z (carved f m z). W' b = Some m) =
      (\<forall>b \<in> blocks m z (carved f m z). W b = Some m)"
    using b by auto
  ultimately show ?thesis by (simp add: mega_ok_def)
next
  case False
  then show ?thesis by (auto simp: mega_ok_def)
qed
section \<open>Moving megablocks between lists\<close>

definition same_body :: "(nat \<Rightarrow> MegaBlock option) \<Rightarrow> (nat \<Rightarrow> MegaBlock option) \<Rightarrow> nat \<Rightarrow> bool" where
  "same_body M M' y \<longleftrightarrow> (\<forall>r. M y = Some r \<longrightarrow> (\<exists>r'. M' y = Some r' \<and> firstBlock r' = firstBlock r
     \<and> mb_index r' = mb_index r \<and> numOfAllocatedBlocks r' = numOfAllocatedBlocks r
     \<and> mb_context r' = mb_context r))"

lemma same_body_refl [simp]: "same_body M M y"
  by (simp add: same_body_def)

lemma same_body_trans: "same_body M M' y \<Longrightarrow> same_body M' M'' y \<Longrightarrow> same_body M M'' y"
  by (fastforce simp: same_body_def)

lemma linked_links:
  assumes "\<And>x. x \<in> set xs \<Longrightarrow> map_option mb_prev (M' x) = map_option mb_prev (M x)
      \<and> map_option mb_next (M' x) = map_option mb_next (M x)"
  shows "linked M' h pl xs = linked M h pl xs"
proof -
  have "dlist mb_prev mb_next M' h xs = dlist mb_prev mb_next M h xs"
    using assms by (rule dlist_links_cong)
  moreover have "slist mb_next M' h xs = slist mb_next M h xs"
    using assms by (intro slist_links_cong) blast
  ultimately show ?thesis by (simp add: linked_def split: place.split)
qed

lemma linked_cong:
  assumes "\<And>x. x \<in> set xs \<Longrightarrow> M' x = M x"
  shows "linked M' h pl xs = linked M h pl xs"
proof (rule linked_links)
  fix x
  assume "x \<in> set xs"
  then have e: "M' x = M x" by (rule assms)
  show "map_option mb_prev (M' x) = map_option mb_prev (M x)
      \<and> map_option mb_next (M' x) = map_option mb_next (M x)"
    unfolding e by simp
qed

lemma linked_in_use: "in_use pl \<Longrightarrow> linked M h pl xs = dlist mb_prev mb_next M h xs"
  by (cases pl) (auto simp: linked_def in_use_def)

lemma lists_okD:
  assumes "lists_ok M H lst loc"
  shows "linked M (H pl) pl (lst pl)" and "distinct (lst pl)" and "m \<in> set (lst pl) \<longleftrightarrow> loc m = Some pl"
  using assms by (auto simp: lists_ok_def)

lemma linked_Some: "linked M h pl xs \<Longrightarrow> x \<in> set xs \<Longrightarrow> x \<noteq> 0 \<and> (\<exists>r. M x = Some r)"
  using dlist_Some [of mb_prev mb_next M h xs x] slist_Some [of mb_next M h xs x]
  by (cases pl) (simp_all add: linked_def)

lemma linked_head: "linked M h pl xs \<Longrightarrow> h = (case xs of [] \<Rightarrow> 0 | x # _ \<Rightarrow> x)"
  using dlist_head [of mb_prev mb_next M h xs] slist_head [of mb_next M h xs]
  by (cases pl) (simp_all add: linked_def)

lemmas lists_ok_head = lists_okD(1) [THEN linked_head]

lemma lists_ok_Some: "lists_ok M H lst loc \<Longrightarrow> loc m = Some pl \<Longrightarrow> m \<noteq> 0 \<and> (\<exists>r. M m = Some r)"
  using lists_okD(1,3) linked_Some by metis

lemma lists_ok_links:
  assumes "lists_ok M H lst loc"
    and "\<And>y pl. loc y = Some pl \<Longrightarrow> map_option mb_prev (M' y) = map_option mb_prev (M y)
      \<and> map_option mb_next (M' y) = map_option mb_next (M y)"
  shows "lists_ok M' H lst loc"
proof -
  have "linked M' (H pl) pl (lst pl) = linked M (H pl) pl (lst pl)" for pl
    using lists_okD(3) [OF assms(1)] assms(2) by (intro linked_links) auto
  then show ?thesis using assms(1) by (simp add: lists_ok_def)
qed

lemma lists_remove:
  assumes ok: "lists_ok M H lst loc" and m: "loc m = Some pl" and u: "in_use pl" and r: "M m = Some r"
  obtains M1 M2 where
    "relink (mb_next r) (mb_prev_update (\<lambda>_. mb_prev r)) M = Some M1"
    and "relink (mb_prev r) (mb_next_update (\<lambda>_. mb_next r)) M1 = Some M2"
    and "lists_ok M2 (H(pl := if mb_prev r \<noteq> 0 then H pl else mb_next r))
           (lst(pl := remove1 m (lst pl))) (loc(m := None))"
    and "M2 m = Some r" and "\<And>y. same_body M M2 y"
proof -
  have "m \<in> set (lst pl)" using lists_okD(3) [OF ok] m by simp
  then obtain us vs where uv: "lst pl = us @ m # vs" by (auto simp: in_set_conv_decomp)
  have d: "distinct (us @ m # vs)" using lists_okD(2) [OF ok, of pl] by (simp add: uv)
  have "dlist mb_prev mb_next M (H pl) (us @ m # vs)"
    using lists_okD(1) [OF ok, of pl] by (simp add: linked_in_use [OF u] uv)
  from mg.unlink [OF this d r] obtain M1 M2 where M:
    "relink (mb_next r) (mb_prev_update (\<lambda>_. mb_prev r)) M = Some M1"
    "relink (mb_prev r) (mb_next_update (\<lambda>_. mb_next r)) M1 = Some M2"
    "dlist mb_prev mb_next M2 (if mb_prev r \<noteq> 0 then H pl else mb_next r) (us @ vs)"
    "\<And>y. y \<notin> set us \<union> set vs \<Longrightarrow> M2 y = M y"
    "\<And>y ry. M y = Some ry \<Longrightarrow> \<exists>a b. M2 y \<in> {Some ry, Some (ry\<lparr>mb_prev := a\<rparr>), Some (ry\<lparr>mb_next := b\<rparr>)}"
    by blast
  have rm: "remove1 m (lst pl) = us @ vs" using d by (simp add: uv remove1_append)
  have "lists_ok M2 (H(pl := if mb_prev r \<noteq> 0 then H pl else mb_next r))
      (lst(pl := remove1 m (lst pl))) (loc(m := None))"
    unfolding lists_ok_def
  proof (intro allI)
    fix p
    show "linked M2 ((H(pl := if mb_prev r \<noteq> 0 then H pl else mb_next r)) p) p ((lst(pl := remove1 m (lst pl))) p)
      \<and> distinct ((lst(pl := remove1 m (lst pl))) p)
      \<and> (\<forall>y. y \<in> set ((lst(pl := remove1 m (lst pl))) p) \<longleftrightarrow> (loc(m := None)) y = Some p)"
    proof (cases "p = pl")
      case True
      moreover have "y \<in> set (us @ vs) \<longleftrightarrow> (loc(m := None)) y = Some pl" for y
        using lists_okD(3) [OF ok, of y pl] d by (auto simp: uv)
      ultimately show ?thesis using M(3) d by (simp add: rm linked_in_use [OF u])
    next
      case False
      have "M2 y = M y" if "y \<in> set (lst p)" for y
      proof -
        have "loc y = Some p" using lists_okD(3) [OF ok] that by simp
        then have "y \<notin> set (lst pl)" using lists_okD(3) [OF ok] False by simp
        then show ?thesis using M(4) by (simp add: uv)
      qed
      then have "linked M2 (H p) p (lst p) = linked M (H p) p (lst p)" by (rule linked_cong)
      moreover have "y \<in> set (lst p) \<longleftrightarrow> (loc(m := None)) y = Some p" for y
        using lists_okD(3) [OF ok, of y p] m False by auto
      ultimately show ?thesis using lists_okD(1,2) [OF ok, of p] False by simp
    qed
  qed
  moreover have "M2 m = Some r" using M(4) [of m] d r by auto
  moreover have "same_body M M2 y" for y
    unfolding same_body_def using M(5) [of y] by fastforce
  ultimately show ?thesis using that M(1,2) by blast
qed

lemma lists_pop_unused:
  assumes ok: "lists_ok M H lst loc" and h: "H (Unused c) = m" "m \<noteq> 0"
  obtains r where "M m = Some r" and "loc m = Some (Unused c)"
    and "lists_ok M (H(Unused c := mb_next r)) (lst(Unused c := tl (lst (Unused c)))) (loc(m := None))"
proof -
  have "slist mb_next M m (lst (Unused c))"
    using lists_okD(1) [OF ok, of "Unused c"] h by (simp add: linked_def)
  with h(2) obtain xs r where xs: "lst (Unused c) = m # xs" "M m = Some r" "slist mb_next M (mb_next r) xs"
    by (cases "lst (Unused c)") (auto split: option.splits)
  have loc: "loc m = Some (Unused c)" using lists_okD(3) [OF ok, of m "Unused c"] xs(1) by simp
  have d: "distinct (m # xs)" using lists_okD(2) [OF ok, of "Unused c"] xs(1) by simp
  have "lists_ok M (H(Unused c := mb_next r)) (lst(Unused c := tl (lst (Unused c)))) (loc(m := None))"
    unfolding lists_ok_def
  proof (intro allI)
    fix p
    show "linked M ((H(Unused c := mb_next r)) p) p ((lst(Unused c := tl (lst (Unused c)))) p)
      \<and> distinct ((lst(Unused c := tl (lst (Unused c)))) p)
      \<and> (\<forall>y. y \<in> set ((lst(Unused c := tl (lst (Unused c)))) p) \<longleftrightarrow> (loc(m := None)) y = Some p)"
    proof (cases "p = Unused c")
      case True
      moreover have "y \<in> set xs \<longleftrightarrow> (loc(m := None)) y = Some (Unused c)" for y
        using lists_okD(3) [OF ok, of y "Unused c"] d by (auto simp: xs(1))
      ultimately show ?thesis using d xs by (simp add: linked_def)
    next
      case False
      then have "y \<in> set (lst p) \<longleftrightarrow> (loc(m := None)) y = Some p" for y
        using lists_okD(3) [OF ok, of y p] loc by auto
      then show ?thesis using lists_okD(1,2) [OF ok, of p] False by simp
    qed
  qed
  then show ?thesis using that xs(2) loc by blast
qed

lemma lists_push:
  assumes ok: "lists_ok M H lst loc" and n: "loc m = None" "m \<noteq> 0" and u: "in_use pl"
    and r: "M m = Some r" "mb_prev r = 0" "mb_next r = H pl"
  obtains M1 where
    "relink (H pl) (mb_prev_update (\<lambda>_. m)) M = Some M1"
    and "lists_ok M1 (H(pl := m)) (lst(pl := m # lst pl)) (loc(m \<mapsto> pl))"
    and "M1 m = Some r" and "\<And>y. same_body M M1 y"
proof -
  have nin: "m \<notin> set (lst pl)" using lists_okD(3) [OF ok, of m pl] n by simp
  have "dlist mb_prev mb_next M (H pl) (lst pl)"
    using lists_okD(1) [OF ok, of pl] by (simp add: linked_in_use [OF u])
  from mg.push_front [OF this lists_okD(2) [OF ok] nin n(2) r] obtain M1 where M:
    "relink (H pl) (mb_prev_update (\<lambda>_. m)) M = Some M1"
    "dlist mb_prev mb_next M1 m (m # lst pl)" "\<And>y. y \<notin> set (lst pl) \<Longrightarrow> M1 y = M y"
    "\<And>y ry. M y = Some ry \<Longrightarrow> \<exists>a. M1 y \<in> {Some ry, Some (ry\<lparr>mb_prev := a\<rparr>)}"
    by blast
  have "lists_ok M1 (H(pl := m)) (lst(pl := m # lst pl)) (loc(m \<mapsto> pl))"
    unfolding lists_ok_def
  proof (intro allI)
    fix p
    show "linked M1 ((H(pl := m)) p) p ((lst(pl := m # lst pl)) p)
      \<and> distinct ((lst(pl := m # lst pl)) p)
      \<and> (\<forall>y. y \<in> set ((lst(pl := m # lst pl)) p) \<longleftrightarrow> (loc(m \<mapsto> pl)) y = Some p)"
    proof (cases "p = pl")
      case True
      moreover have "y \<in> set (m # lst pl) \<longleftrightarrow> (loc(m \<mapsto> pl)) y = Some pl" for y
        using lists_okD(3) [OF ok, of y pl] by auto
      ultimately show ?thesis using M(2) nin lists_okD(2) [OF ok, of pl] by (simp add: linked_in_use [OF u])
    next
      case False
      have "M1 y = M y" if "y \<in> set (lst p)" for y
      proof -
        have "loc y = Some p" using lists_okD(3) [OF ok] that by simp
        then have "y \<notin> set (lst pl)" using lists_okD(3) [OF ok] False by simp
        then show ?thesis using M(3) by simp
      qed
      then have "linked M1 (H p) p (lst p) = linked M (H p) p (lst p)" by (rule linked_cong)
      moreover have "y \<in> set (lst p) \<longleftrightarrow> (loc(m \<mapsto> pl)) y = Some p" for y
        using lists_okD(3) [OF ok, of y p] n False by auto
      ultimately show ?thesis using lists_okD(1,2) [OF ok, of p] False by simp
    qed
  qed
  moreover have "M1 m = Some r" using M(3) [of m] nin r by simp
  moreover have "same_body M M1 y" for y
    unfolding same_body_def using M(4) [of y] by fastforce
  ultimately show ?thesis using that M(1) by blast
qed

lemma lists_push_unused:
  assumes ok: "lists_ok M H lst loc" and n: "loc m = None" "m \<noteq> 0"
    and r: "M m = Some r" "mb_next r = H (Unused c)"
  shows "lists_ok M (H(Unused c := m)) (lst(Unused c := m # lst (Unused c))) (loc(m \<mapsto> Unused c))"
  unfolding lists_ok_def
proof (intro allI)
  fix p
  have nin: "m \<notin> set (lst (Unused c))" using lists_okD(3) [OF ok, of m] n by simp
  show "linked M ((H(Unused c := m)) p) p ((lst(Unused c := m # lst (Unused c))) p)
    \<and> distinct ((lst(Unused c := m # lst (Unused c))) p)
    \<and> (\<forall>y. y \<in> set ((lst(Unused c := m # lst (Unused c))) p) \<longleftrightarrow> (loc(m \<mapsto> Unused c)) y = Some p)"
  proof (cases "p = Unused c")
    case True
    moreover have "y \<in> set (m # lst (Unused c)) \<longleftrightarrow> (loc(m \<mapsto> Unused c)) y = Some (Unused c)" for y
      using lists_okD(3) [OF ok, of y "Unused c"] by auto
    ultimately show ?thesis
      using nin lists_okD(1,2) [OF ok, of "Unused c"] n r by (simp add: linked_def)
  next
    case False
    then have "y \<in> set (lst p) \<longleftrightarrow> (loc(m \<mapsto> Unused c)) y = Some p" for y
      using lists_okD(3) [OF ok, of y p] n by auto
    then show ?thesis using lists_okD(1,2) [OF ok, of p] False by simp
  qed
qed
section \<open>Frames\<close>

definition same_just :: "nat \<Rightarrow> PartlyFreeMegaBlock \<Rightarrow> PartlyFreeMegaBlock \<Rightarrow> bool" where
  "same_just y f f' \<longleftrightarrow> (justAllocated f' = y \<longleftrightarrow> justAllocated f = y)
     \<and> (justAllocated f = y \<longrightarrow> blocksLeft f' = blocksLeft f \<and> nextFreeBlock f' = nextFreeBlock f)"

lemma same_just_refl [simp]: "same_just y f f"
  by (simp add: same_just_def)

lemma same_just_carved: "same_just y f f' \<Longrightarrow> carved f' y z = carved f y z"
  by (auto simp: same_just_def carved_def)

lemma same_just_mega_ok: "same_just y f f' \<Longrightarrow> mega_ok W f' y z h fl = mega_ok W f y z h fl"
  by (auto simp: mega_ok_def same_just_carved) (auto simp: same_just_def)

definition undisturbed :: "(nat \<Rightarrow> nat option) \<Rightarrow> (nat \<Rightarrow> nat option) \<Rightarrow> (nat \<Rightarrow> nat \<Rightarrow> PartlyFreeMegaBlock)
    \<Rightarrow> (nat \<Rightarrow> nat \<Rightarrow> PartlyFreeMegaBlock) \<Rightarrow> (nat \<Rightarrow> MegaBlock option) \<Rightarrow> (nat \<Rightarrow> MegaBlock option) \<Rightarrow> nat \<Rightarrow> bool" where
  "undisturbed W W' PF PF' M M' y \<longleftrightarrow> same_body M M' y \<and> (\<forall>c i. same_just y (PF c i) (PF' c i))
     \<and> (\<forall>a. y + 24 \<le> a \<longrightarrow> a + 4 \<le> y + 131096 \<longrightarrow> W' a = W a)"

lemma one_ok_frame:
  assumes "one_ok W PF M y pl fl" and "undisturbed W W' PF PF' M M' y"
  shows "one_ok W' PF' M' y pl fl"
proof -
  from assms(1) obtain r z where r: "M y = Some r" "place_ok pl r" "GetSizeFromIndex (mb_index r) = Some z"
    "mega_ok W (PF (mb_context r) (mb_index r)) y z (firstBlock r) fl"
    "numOfAllocatedBlocks r + length fl = 131072 div z" "fl = [] \<longleftrightarrow> pl = Filled (mb_context r)"
    by (auto simp: one_ok_def)
  from assms(2) r(1) obtain r' where r': "M' y = Some r'" "firstBlock r' = firstBlock r"
    "mb_index r' = mb_index r" "numOfAllocatedBlocks r' = numOfAllocatedBlocks r"
    "mb_context r' = mb_context r"
    by (auto simp: undisturbed_def same_body_def)
  have "mega_ok W' (PF (mb_context r) (mb_index r)) y z (firstBlock r) fl"
    using r(4) mega_ok_cong [of y W' W] assms(2) by (simp add: undisturbed_def)
  moreover have j: "same_just y (PF (mb_context r) (mb_index r)) (PF' (mb_context r) (mb_index r))"
    using assms(2) by (simp add: undisturbed_def)
  ultimately have "mega_ok W' (PF' (mb_context r) (mb_index r)) y z (firstBlock r) fl"
    by (simp add: same_just_mega_ok [OF j])
  then show ?thesis
    unfolding one_ok_def using r r' by (intro exI [of _ r'] exI [of _ z]) (simp add: place_ok_def)
qed

lemma megs_ok_step:
  assumes "megs_ok W PF M loc fl"
    and "\<And>y pl. y \<noteq> m \<Longrightarrow> loc' y = Some pl \<Longrightarrow> in_use pl \<Longrightarrow>
           loc y = Some pl \<and> fl' y = fl y \<and> undisturbed W W' PF PF' M M' y"
    and "\<And>pl. loc' m = Some pl \<Longrightarrow> in_use pl \<Longrightarrow> one_ok W' PF' M' m pl (fl' m)"
  shows "megs_ok W' PF' M' loc' fl'"
  unfolding megs_ok_def
proof (intro allI impI)
  fix y pl
  assume y: "loc' y = Some pl" "in_use pl"
  show "one_ok W' PF' M' y pl (fl' y)"
  proof (cases "y = m")
    case True
    with y assms(3) show ?thesis by simp
  next
    case False
    then have "one_ok W PF M y pl (fl y)" using assms(1,2) y by (simp add: megs_ok_def)
    then show ?thesis using one_ok_frame assms(2) [OF False y] by simp
  qed
qed

lemma class_block_frame:
  assumes "class_block PF M loc fl p n y" and "undisturbed W W' PF PF' M M' y"
    and "loc' y = loc y" and "fl' y = fl y"
  shows "class_block PF' M' loc' fl' p n y"
proof -
  from assms(1) obtain pl r z where r: "loc y = Some pl" "in_use pl" "M y = Some r"
    "GetSizeFromIndex (mb_index r) = Some z"
    "p - 4 \<in> blocks y z (carved (PF (mb_context r) (mb_index r)) y z)" "p - 4 \<notin> set (fl y)" "n + 4 \<le> z"
    by (auto simp: class_block_def)
  from assms(2) r(3) obtain r' where r': "M' y = Some r'" "mb_index r' = mb_index r"
    "mb_context r' = mb_context r"
    by (auto simp: undisturbed_def same_body_def)
  have "same_just y (PF (mb_context r) (mb_index r)) (PF' (mb_context r) (mb_index r))"
    using assms(2) by (simp add: undisturbed_def)
  then have "carved (PF' (mb_context r) (mb_index r)) y z = carved (PF (mb_context r) (mb_index r)) y z"
    by (rule same_just_carved)
  then show ?thesis
    unfolding class_block_def using r r' assms(3,4)
    by (intro exI [of _ pl] exI [of _ r'] exI [of _ z]) simp
qed

lemma class_block_home:
  assumes "class_block PF M loc fl p n y" and "homes_ok R loc" and "megs_ok W PF M loc fl"
  obtains pl r z where "loc y = Some pl" and "in_use pl" and "M y = Some r"
    and "GetSizeFromIndex (mb_index r) = Some z" and "8 \<le> z" and "4 dvd z" and "n + 4 \<le> z" and "p - 4 \<notin> set (fl y)"
    and "p - 4 \<in> blocks y z (carved (PF (mb_context r) (mb_index r)) y z)"
    and "(y, 131096) \<in> set R" and "8 dvd y" and "y + 24 \<le> p - 4" and "p - 4 + z \<le> y + 131096"
    and "W (p - 4) = Some y" and "one_ok W PF M y pl (fl y)"
proof -
  from assms(1) obtain pl r z where r: "loc y = Some pl" "in_use pl" "M y = Some r"
    "GetSizeFromIndex (mb_index r) = Some z"
    "p - 4 \<in> blocks y z (carved (PF (mb_context r) (mb_index r)) y z)" "p - 4 \<notin> set (fl y)" "n + 4 \<le> z"
    by (auto simp: class_block_def)
  have one: "one_ok W PF M y pl (fl y)" using assms(3) r(1,2) by (simp add: megs_ok_def)
  then have mo: "mega_ok W (PF (mb_context r) (mb_index r)) y z (firstBlock r) (fl y)"
    using r(3,4) by (auto simp: one_ok_def)
  then have z: "8 \<le> z" "4 dvd z" and w: "W (p - 4) = Some y" using r(5) by (auto simp: mega_ok_def)
  have "y + 24 \<le> p - 4" "p - 4 + z \<le> y + 131096"
    using block_bounds [OF r(5) carved_le] z(1) by simp_all
  moreover have "(y, 131096) \<in> set R" "8 dvd y" using assms(2) r(1) by (auto simp: homes_ok_def)
  ultimately show ?thesis using that r z one w by blast
qed

text \<open>Every block in use lies, with its header, inside an owned region.\<close>

lemma live_home:
  assumes "live_ok R W PF M loc fl L" and "homes_ok R loc" and "megs_ok W PF M loc fl" and "L p = Some n"
  obtains y k where "(y, k) \<in> set R" and "y \<le> p - 4" and "p + n \<le> y + k" and "4 < p"
    and "class_block PF M loc fl p n y \<and> loc y \<noteq> None \<and> y + 24 \<le> p - 4 \<or> sys_block R W loc p n \<and> y = p - 4 \<and> loc y = None"
proof -
  from assms(1,4) have p: "4 < p" "(\<exists>m. class_block PF M loc fl p n m) \<or> sys_block R W loc p n"
    by (auto simp: live_ok_def)
  from p(2) show ?thesis
  proof
    assume "\<exists>m. class_block PF M loc fl p n m"
    then obtain y where y: "class_block PF M loc fl p n y" ..
    obtain pl z where "loc y = Some pl" "n + 4 \<le> z"
      "(y, 131096) \<in> set R" "y + 24 \<le> p - 4" "p - 4 + z \<le> y + 131096"
      using class_block_home [OF y assms(2,3)] by blast
    then show ?thesis using that [of y 131096] p(1) y by simp
  next
    assume s: "sys_block R W loc p n"
    then show ?thesis using that [of "p - 4" "n + 4"] p(1) by (simp add: sys_block_def)
  qed
qed

lemma live_apart:
  assumes "live_ok R W PF M loc fl L" and "homes_ok R loc" and "megs_ok W PF M loc fl"
  shows "disjoint_blocks L"
  unfolding disjoint_blocks_def
proof (intro allI impI)
  fix p n q k
  assume pq: "L p = Some n" "L q = Some k" "p \<noteq> q"
  obtain y j where y: "(y, j) \<in> set R" "y \<le> p - 4" "p + n \<le> y + j" "4 < p"
    "class_block PF M loc fl p n y \<and> loc y \<noteq> None \<and> y + 24 \<le> p - 4 \<or> sys_block R W loc p n \<and> y = p - 4 \<and> loc y = None"
    using live_home [OF assms pq(1)] by blast
  obtain x l where x: "(x, l) \<in> set R" "x \<le> q - 4" "q + k \<le> x + l" "4 < q"
    "class_block PF M loc fl q k x \<and> loc x \<noteq> None \<and> x + 24 \<le> q - 4 \<or> sys_block R W loc q k \<and> x = q - 4 \<and> loc x = None"
    using live_home [OF assms pq(2)] by blast
  have ro: "regions_ok R" using assms(2) by (simp add: homes_ok_def)
  show "apart p n q k"
  proof (cases "(y, j) = (x, l)")
    case False
    then show ?thesis using regions_ok_apart [OF ro y(1) x(1)] x y by (auto simp: apart_def)
  next
    case True
    then have cb: "class_block PF M loc fl p n y" "class_block PF M loc fl q k y"
      using x(4,5) y(4,5) pq(3) by auto
    obtain r z where z: "M y = Some r"
      "GetSizeFromIndex (mb_index r) = Some z" "n + 4 \<le> z"
      "p - 4 \<in> blocks y z (carved (PF (mb_context r) (mb_index r)) y z)"
      using class_block_home [OF cb(1) assms(2,3)] by blast
    obtain r' z' where z': "M y = Some r'"
      "GetSizeFromIndex (mb_index r') = Some z'" "k + 4 \<le> z'"
      "q - 4 \<in> blocks y z' (carved (PF (mb_context r') (mb_index r')) y z')"
      using class_block_home [OF cb(2) assms(2,3)] by blast
    have e: "r' = r" "z' = z" using z z' by simp_all
    have "p - 4 \<noteq> q - 4" using pq(3) x(4) y(4) by simp
    then have "p - 4 + z \<le> q - 4 \<or> q - 4 + z \<le> p - 4"
      using grid_apart [OF z(4) z'(4) [unfolded e]] by simp
    then show ?thesis using z(3) z'(3) x(4) y(4) unfolding apart_def e by linarith
  qed
qed
section \<open>The allocation paths\<close>

lemma head_of_simps [simp]:
  "head_of (s\<lparr>megas := M\<rparr>) = head_of s"
  "head_of (s\<lparr>words := W\<rparr>) = head_of s"
  "head_of (s\<lparr>owned := R\<rparr>) = head_of s"
  "head_of (set_pf c i f s) = (head_of s)(Partly c i := pf_first f)"
  "head_of (set_filled c m s) = (head_of s)(Filled c := m)"
  "head_of (set_unused c m s) = (head_of s)(Unused c := m)"
proof -
  have e: "f = g" if "\<And>pl. f pl = g pl" for f g :: "place \<Rightarrow> nat" using that by (rule ext)
  show "head_of (s\<lparr>megas := M\<rparr>) = head_of s" "head_of (s\<lparr>words := W\<rparr>) = head_of s"
    "head_of (s\<lparr>owned := R\<rparr>) = head_of s" "head_of (set_pf c i f s) = (head_of s)(Partly c i := pf_first f)"
    "head_of (set_filled c m s) = (head_of s)(Filled c := m)"
    "head_of (set_unused c m s) = (head_of s)(Unused c := m)"
    by (rule e; case_tac pl; simp add: set_pf_def set_filled_def set_unused_def)+
qed

lemma PF_of_simps [simp]:
  "PF_of (s\<lparr>megas := M\<rparr>) = PF_of s"
  "PF_of (s\<lparr>words := W\<rparr>) = PF_of s"
  "PF_of (s\<lparr>owned := R\<rparr>) = PF_of s"
  "PF_of (set_pf c i f s) = (\<lambda>c' i'. if c' = c \<and> i' = i then f else PF_of s c' i')"
  "PF_of (set_filled c m s) = PF_of s"
  "PF_of (set_unused c m s) = PF_of s"
  by (auto simp: PF_of_def set_pf_def set_filled_def set_unused_def fun_eq_iff)

lemma set_simps [simp]:
  "megas (set_pf c i f s) = megas s" "words (set_pf c i f s) = words s" "owned (set_pf c i f s) = owned s"
  "megas (set_filled c m s) = megas s" "words (set_filled c m s) = words s" "owned (set_filled c m s) = owned s"
  "megas (set_unused c m s) = megas s" "words (set_unused c m s) = words s" "owned (set_unused c m s) = owned s"
  "contextOverride (set_pf c i f s) = contextOverride s"
  "contextOverride (set_filled c m s) = contextOverride s"
  "contextOverride (set_unused c m s) = contextOverride s"
  "filledMegaBlock (ctxs (set_pf c i f s) d) = filledMegaBlock (ctxs s d)"
  "freeMegaBlock (ctxs (set_pf c i f s) d) = freeMegaBlock (ctxs s d)"
  "freeMegaBlock (ctxs (set_filled c m s) d) = freeMegaBlock (ctxs s d)"
  by (simp_all add: set_pf_def set_filled_def set_unused_def)

lemma PF_of_apply: "PF_of s c i = pf_of s c i"
  by (simp add: PF_of_def)

lemma set_megas [simp]:
  "set_pf c i f (s\<lparr>megas := M\<rparr>) = (set_pf c i f s)\<lparr>megas := M\<rparr>"
  "set_filled c m (s\<lparr>megas := M\<rparr>) = (set_filled c m s)\<lparr>megas := M\<rparr>"
  "set_unused c m (s\<lparr>megas := M\<rparr>) = (set_unused c m s)\<lparr>megas := M\<rparr>"
  by (simp_all add: set_pf_def set_filled_def set_unused_def)

definition fine :: "mball \<Rightarrow> (place \<Rightarrow> nat list) \<Rightarrow> (nat \<Rightarrow> place option) \<Rightarrow> (nat \<Rightarrow> nat list) \<Rightarrow> (nat \<rightharpoonup> nat) \<Rightarrow> bool" where
  "fine s lst loc fl L \<longleftrightarrow> core s lst loc fl \<and> live_ok (owned s) (words s) (PF_of s) (megas s) loc fl L"

lemma fineD:
  assumes "fine s lst loc fl L"
  shows "contextOverride s = None" and "homes_ok (owned s) loc"
    and "lists_ok (megas s) (head_of s) lst loc" and "megs_ok (words s) (PF_of s) (megas s) loc fl"
    and "justs_ok (PF_of s) (megas s) loc"
    and "live_ok (owned s) (words s) (PF_of s) (megas s) loc fl L"
  using assms by (simp_all add: fine_def core_def)

lemma mb_inv_fine: "mb_inv s L \<longleftrightarrow> (\<exists>lst loc fl. fine s lst loc fl L)"
  by (simp add: mb_inv_def fine_def)

text \<open>What holds of a megablock in use.\<close>

lemma used_mega:
  assumes "fine s lst loc fl L" and "loc m = Some pl" and "in_use pl"
  obtains r z where "megas s m = Some r" and "place_ok pl r" and "GetSizeFromIndex (mb_index r) = Some z"
    and "mega_ok (words s) (PF_of s (mb_context r) (mb_index r)) m z (firstBlock r) (fl m)"
    and "numOfAllocatedBlocks r + length (fl m) = 131072 div z"
    and "fl m = [] \<longleftrightarrow> pl = Filled (mb_context r)"
    and "(m, 131096) \<in> set (owned s)" and "8 dvd m" and "0 < m" and "8 \<le> z" and "4 dvd z" and "z \<le> 16384"
proof -
  have "one_ok (words s) (PF_of s) (megas s) m pl (fl m)"
    using fineD(4) [OF assms(1)] assms(2,3) by (simp add: megs_ok_def)
  then obtain r z where r: "megas s m = Some r" "place_ok pl r" "GetSizeFromIndex (mb_index r) = Some z"
    "mega_ok (words s) (PF_of s (mb_context r) (mb_index r)) m z (firstBlock r) (fl m)"
    "numOfAllocatedBlocks r + length (fl m) = 131072 div z"
    "fl m = [] \<longleftrightarrow> pl = Filled (mb_context r)"
    unfolding one_ok_def by blast
  have h: "(m, 131096) \<in> set (owned s)" "8 dvd m" "regions_ok (owned s)"
    using fineD(2) [OF assms(1)] assms(2) by (auto simp: homes_ok_def)
  then have "0 < m" using regions_ok_pos by blast
  moreover have "8 \<le> z" "4 dvd z" "z \<le> 16384" using r(4) by (simp_all add: mega_ok_def)
  ultimately show ?thesis using that [OF r h(1,2)] by blast
qed

lemma block_word:
  assumes "(m, 131096) \<in> set R" and "8 dvd m" and "b \<in> blocks m z k" and "k \<le> 131072 div z"
    and "8 \<le> z" and "4 dvd z"
  shows "inside b 4 R" and "inside (b + 4) 4 R" and "4 dvd b" and "4 dvd (b + 4)" and "0 < b"
proof -
  have b: "m + 24 \<le> b" "b + z \<le> m + 131096" using block_bounds [OF assms(3,4)] assms(5) by auto
  then show "inside b 4 R" "inside (b + 4) 4 R" using assms(1,5) by (auto intro!: insideI)
  show d: "4 dvd b" using block_aligned [OF assms(3,2,6)] .
  then show "4 dvd (b + 4)" by simp
  show "0 < b" using b by simp
qed

text \<open>A block that is not in use: its payload pointer is not among the pointers in use.\<close>

lemma not_live:
  assumes "fine s lst loc fl L" and "(m, 131096) \<in> set (owned s)" and "m + 24 \<le> b" and "b + 4 \<le> m + 131096"
    and "loc m \<noteq> None" and "\<And>n. \<not> class_block (PF_of s) (megas s) loc fl (b + 4) n m"
  shows "L (b + 4) = None"
proof (rule ccontr)
  assume "L (b + 4) \<noteq> None"
  then obtain n where n: "L (b + 4) = Some n" by auto
  obtain y k where y: "(y, k) \<in> set (owned s)"
    "y \<le> b + 4 - 4" "b + 4 + n \<le> y + k"
    "class_block (PF_of s) (megas s) loc fl (b + 4) n y \<and> loc y \<noteq> None \<and> y + 24 \<le> b + 4 - 4
     \<or> sys_block (owned s) (words s) loc (b + 4) n \<and> y = b + 4 - 4 \<and> loc y = None"
    by (rule live_home [OF fineD(6,2,4) [OF assms(1)] n]) blast
  have ro: "regions_ok (owned s)" using fineD(2) [OF assms(1)] by (simp add: homes_ok_def)
  have "(y, k) = (m, 131096)"
  proof (rule ccontr)
    assume "(y, k) \<noteq> (m, 131096)"
    then have "apart y k m 131096" using regions_ok_apart [OF ro y(1) assms(2)] by simp
    then show False using y(2,3) assms(3,4) by (auto simp: apart_def)
  qed
  then show False using y(4) assms(5,6) by auto
qed
text \<open>One step of the heap: it touches one megablock \<open>m\<close> and leaves every other one alone.\<close>

lemma fine_step:
  assumes f: "fine s lst loc fl L" and o: "contextOverride s' = None" and h: "homes_ok (owned s') loc'"
    and l: "lists_ok (megas s') (head_of s') lst' loc'"
    and others: "\<And>y. y \<noteq> m \<Longrightarrow> loc' y = loc y"
      "\<And>y. y \<noteq> m \<Longrightarrow> loc y \<noteq> None \<Longrightarrow> fl' y = fl y
         \<and> undisturbed (words s) (words s') (PF_of s) (PF_of s') (megas s) (megas s') y"
    and m: "\<And>pl. loc' m = Some pl \<Longrightarrow> in_use pl \<Longrightarrow> one_ok (words s') (PF_of s') (megas s') m pl (fl' m)"
    and j: "justs_ok (PF_of s') (megas s') loc'"
    and live: "\<And>q n. L' q = Some n \<Longrightarrow>
        L q = Some n \<and> \<not> class_block (PF_of s) (megas s) loc fl q n m
          \<and> (sys_block (owned s) (words s) loc q n \<longrightarrow> sys_block (owned s') (words s') loc' q n)
        \<or> 4 < q \<and> class_block (PF_of s') (megas s') loc' fl' q n m
        \<or> 4 < q \<and> sys_block (owned s') (words s') loc' q n"
  shows "fine s' lst' loc' fl' L'"
proof -
  have "megs_ok (words s') (PF_of s') (megas s') loc' fl'"
    by (rule megs_ok_step [OF fineD(4) [OF f], of m]) (use others m in auto)
  moreover have "live_ok (owned s') (words s') (PF_of s') (megas s') loc' fl' L'"
    unfolding live_ok_def
  proof (intro allI impI)
    fix q n
    assume q: "L' q = Some n"
    show "4 < q \<and> ((\<exists>y. class_block (PF_of s') (megas s') loc' fl' q n y) \<or> sys_block (owned s') (words s') loc' q n)"
    proof (cases "4 < q \<and> (class_block (PF_of s') (megas s') loc' fl' q n m \<or> sys_block (owned s') (words s') loc' q n)")
      case True
      then show ?thesis by blast
    next
      case False
      then have old: "L q = Some n" "\<not> class_block (PF_of s) (megas s) loc fl q n m"
        "sys_block (owned s) (words s) loc q n \<longrightarrow> sys_block (owned s') (words s') loc' q n"
        using live [OF q] by blast+
      have lq: "4 < q" "(\<exists>y. class_block (PF_of s) (megas s) loc fl q n y) \<or> sys_block (owned s) (words s) loc q n"
        using fineD(6) [OF f] old(1) by (auto simp: live_ok_def)
      from lq(2) show ?thesis
      proof
        assume "\<exists>y. class_block (PF_of s) (megas s) loc fl q n y"
        then obtain y where y: "class_block (PF_of s) (megas s) loc fl q n y" ..
        then have ym: "y \<noteq> m" "loc y \<noteq> None" using old(2) by (auto simp: class_block_def)
        have "class_block (PF_of s') (megas s') loc' fl' q n y"
          using class_block_frame [OF y] others(1) [OF ym(1)] others(2) [OF ym] by blast
        then show ?thesis using lq(1) by blast
      next
        assume "sys_block (owned s) (words s) loc q n"
        then show ?thesis using old(3) lq(1) by blast
      qed
    qed
  qed
  ultimately show ?thesis using o h l j by (simp add: fine_def core_def)
qed

lemma justs_okD:
  assumes "justs_ok PF M loc" and "justAllocated (PF c i) \<noteq> 0"
  obtains r pl where "M (justAllocated (PF c i)) = Some r" and "mb_context r = c" and "mb_index r = i"
    and "loc (justAllocated (PF c i)) = Some pl" and "in_use pl"
  using assms unfolding justs_ok_def by blast

lemma justs_ok_step:
  assumes "justs_ok PF M loc"
    and "\<And>y. y \<noteq> m \<Longrightarrow> loc y \<noteq> None \<Longrightarrow> loc' y = loc y \<and> same_body M M' y"
    and "\<And>c i. justAllocated (PF' c i) = 0
          \<or> justAllocated (PF' c i) = justAllocated (PF c i) \<and> justAllocated (PF' c i) \<noteq> m
          \<or> justAllocated (PF' c i) = m \<and> (\<exists>r pl. M' m = Some r \<and> mb_context r = c \<and> mb_index r = i
               \<and> loc' m = Some pl \<and> in_use pl)"
  shows "justs_ok PF' M' loc'"
  unfolding justs_ok_def
proof (intro allI impI)
  fix c i
  assume nz: "justAllocated (PF' c i) \<noteq> 0"
  define j where "j = justAllocated (PF' c i)"
  consider "j = justAllocated (PF c i)" "j \<noteq> m"
    | "j = m" "\<exists>r pl. M' m = Some r \<and> mb_context r = c \<and> mb_index r = i \<and> loc' m = Some pl \<and> in_use pl"
    using assms(3) [of c i] nz unfolding j_def by blast
  then show "\<exists>r pl. M' (justAllocated (PF' c i)) = Some r \<and> mb_context r = c \<and> mb_index r = i
      \<and> loc' (justAllocated (PF' c i)) = Some pl \<and> in_use pl"
  proof cases
    case 1
    obtain r pl where r: "M j = Some r" "mb_context r = c" "mb_index r = i" "loc j = Some pl" "in_use pl"
      using justs_okD [OF assms(1), of c i] nz 1(1) unfolding j_def by metis
    moreover obtain r' where "M' j = Some r'" "mb_context r' = mb_context r" "mb_index r' = mb_index r"
      using assms(2) [OF 1(2)] r(1,4) by (auto simp: same_body_def)
    ultimately show ?thesis using assms(2) [OF 1(2)] by (simp add: j_def [symmetric])
  next
    case 2
    then show ?thesis by (simp add: j_def [symmetric])
  qed
qed

lemma justs_ok_loc: "justs_ok PF M loc \<Longrightarrow> justAllocated (PF c i) \<noteq> 0 \<Longrightarrow> loc (justAllocated (PF c i)) \<noteq> None"
  by (erule justs_okD) auto

lemma sub_block:
  "free_chain W h fl \<Longrightarrow> fl = b # fs \<Longrightarrow> h = b \<and> b \<noteq> 0 \<and> (\<exists>nf. W (b + 4) = Some nf \<and> free_chain W nf fs)"
  by (auto split: option.splits)

lemma free_chain_0: "free_chain W h fl \<Longrightarrow> h = 0 \<longleftrightarrow> fl = []"
  by (cases fl) auto

text \<open>The two forms of taking the first free block of \<open>m\<close>: with and without a successor.\<close>

lemma alloc_partly_ok:
  assumes f: "fine s lst loc fl L" and h: "pf_first (pf_of s c i) \<noteq> 0"
    and z: "GetSizeFromIndex i = Some z" and n: "n + 4 \<le> z"
  shows "\<exists>p s'. alloc_partly c i z s = Some (p, s') \<and> mb_inv s' (L(p \<mapsto> n)) \<and> L p = None
    \<and> words s' = words s \<and> owned s' = owned s"
proof -
  define m where "m = pf_first (pf_of s c i)"
  note lok = fineD(3) [OF f]
  have hm: "head_of s (Partly c i) = m" "m \<noteq> 0" using h by (simp_all add: m_def)
  then obtain xs where xs: "lst (Partly c i) = m # xs"
    using lists_ok_head [OF lok, of "Partly c i"] by (auto split: list.splits)
  have loc: "loc m = Some (Partly c i)" using lists_okD(3) [OF lok, of m "Partly c i"] xs by simp
  have iu: "in_use (Partly c i)" "in_use (Filled c)" by (simp_all add: in_use_def)
  obtain r z' where r0: "megas s m = Some r" "place_ok (Partly c i) r" "GetSizeFromIndex (mb_index r) = Some z'"
    "mega_ok (words s) (PF_of s (mb_context r) (mb_index r)) m z' (firstBlock r) (fl m)"
    "numOfAllocatedBlocks r + length (fl m) = 131072 div z'"
    "fl m = [] \<longleftrightarrow> Partly c i = Filled (mb_context r)"
    "(m, 131096) \<in> set (owned s)" "8 dvd m" "8 \<le> z'" "4 dvd z'"
    by (rule used_mega [OF f loc iu(1)])
  have ci: "mb_context r = c" "mb_index r = i" using r0(2) by (auto simp: place_ok_def)
  then have "z' = z" using r0(3) z by simp
  note r = r0 [unfolded this]
  obtain b fs where bf: "fl m = b # fs" using r(6) by (cases "fl m") auto
  have mo: "free_chain (words s) (firstBlock r) (fl m)" "distinct (fl m)"
    "set (fl m) \<subseteq> blocks m z (carved (PF_of s c i) m z)"
    using r(4) by (simp_all add: mega_ok_def ci)
  obtain nf where nf: "firstBlock r = b" "b \<noteq> 0" "words s (b + 4) = Some nf" "free_chain (words s) nf fs"
    using sub_block [OF mo(1) bf] by blast
  have bb: "b \<in> blocks m z (carved (PF_of s c i) m z)" using mo(3) bf by simp
  note bw = block_word [OF r(7,8) bb carved_le r(9,10)]
  have bm: "m + 24 \<le> b" "b + z \<le> m + 131096" using block_bounds [OF bb carved_le] r(9) by auto
  have rdb: "rd (b + 4) s = Some nf" using bw nf(3) by (simp add: rd_def)
  have im: "inside m 24 (owned s)" using r(7) by (auto intro!: insideI)
  define r' where "r' = r\<lparr>numOfAllocatedBlocks := numOfAllocatedBlocks r + 1, firstBlock := nf\<rparr>"
  define M where "M = (megas s)(m \<mapsto> r')"
  have lokM: "lists_ok M (head_of s) lst loc"
    using lists_ok_links [OF lok, of M] r(1) by (auto simp: M_def r'_def)
  have dead: "L (b + 4) = None"
    by (rule not_live [OF f r(7) bm(1)]) (use bm r(9) loc bf in \<open>auto simp: class_block_def\<close>)
  have fin: "mb_inv s' (L(b + 4 \<mapsto> n))"
    if s': "contextOverride s' = None" "owned s' = owned s" "words s' = words s"
      "lists_ok (megas s') (head_of s') lst' (loc(m \<mapsto> pl))"
      "\<And>y. y \<noteq> m \<Longrightarrow> same_body (megas s) (megas s') y"
      "PF_of s' = (\<lambda>c' i'. if c' = c \<and> i' = i then (PF_of s c i)\<lparr>pf_first := v\<rparr> else PF_of s c' i')"
      "megas s' m = Some r''" "firstBlock r'' = nf" "numOfAllocatedBlocks r'' = numOfAllocatedBlocks r + 1"
      "mb_index r'' = i" "mb_context r'' = c"
      "pl = (if fs = [] then Filled c else Partly c i)"
    for s' lst' pl r'' v
  proof -
    have ju: "justAllocated (PF_of s' c' i') = justAllocated (PF_of s c' i')" for c' i' by (simp add: s'(6))
    have sj: "same_just y (PF_of s c' i') (PF_of s' c' i')" for y c' i'
      by (simp add: s'(6) same_just_def)
    have car: "carved (PF_of s' c i) m z = carved (PF_of s c i) m z"
      by (rule same_just_carved [OF sj])
    have "fine s' lst' (loc(m \<mapsto> pl)) (fl(m := fs)) (L(b + 4 \<mapsto> n))"
    proof (rule fine_step [OF f s'(1), where m = m])
      show "homes_ok (owned s') (loc(m \<mapsto> pl))"
        using fineD(2) [OF f] r(7,8) by (auto simp: homes_ok_def s'(2))
      show "lists_ok (megas s') (head_of s') lst' (loc(m \<mapsto> pl))" by (rule s'(4))
      show "(loc(m \<mapsto> pl)) y = loc y" if "y \<noteq> m" for y using that by simp
      show "(fl(m := fs)) y = fl y \<and> undisturbed (words s) (words s') (PF_of s) (PF_of s') (megas s) (megas s') y"
        if "y \<noteq> m" for y using that s'(3,5) sj by (simp add: undisturbed_def)
      show "one_ok (words s') (PF_of s') (megas s') m q ((fl(m := fs)) m)" if q: "(loc(m \<mapsto> pl)) m = Some q" "in_use q" for q
      proof -
        have "mega_ok (words s) (PF_of s c i) m z nf fs"
          using r(4) nf(4) bf by (simp add: mega_ok_def ci)
        then have "mega_ok (words s') (PF_of s' c i) m z nf fs"
          by (simp add: s'(3) same_just_mega_ok [OF sj])
        then show ?thesis
          using q s'(7-12) z r(5) bf by (auto simp: one_ok_def place_ok_def split: if_splits)
      qed
      show "justs_ok (PF_of s') (megas s') (loc(m \<mapsto> pl))"
      proof (rule justs_ok_step [OF fineD(5) [OF f], of m])
        fix c' i'
        consider "justAllocated (PF_of s c' i') = 0" | "justAllocated (PF_of s c' i') \<noteq> 0" "justAllocated (PF_of s c' i') \<noteq> m"
          | "justAllocated (PF_of s c' i') = m" "m \<noteq> 0" by (metis hm(2))
        then show "justAllocated (PF_of s' c' i') = 0
          \<or> justAllocated (PF_of s' c' i') = justAllocated (PF_of s c' i') \<and> justAllocated (PF_of s' c' i') \<noteq> m
          \<or> justAllocated (PF_of s' c' i') = m \<and> (\<exists>ra pa. megas s' m = Some ra \<and> mb_context ra = c'
               \<and> mb_index ra = i' \<and> (loc(m \<mapsto> pl)) m = Some pa \<and> in_use pa)"
        proof cases
          case 3
          then obtain ry where "megas s m = Some ry" "mb_context ry = c'" "mb_index ry = i'"
            using justs_okD [OF fineD(5) [OF f], of c' i'] by metis
          then have "c' = c" "i' = i" using r(1) ci by auto
          then show ?thesis using 3 s'(7,10-12) iu by (simp add: ju)
        qed (simp_all add: ju)
      qed (use s'(5) in simp)
      fix q k
      assume q: "(L(b + 4 \<mapsto> n)) q = Some k"
      show "L q = Some k \<and> \<not> class_block (PF_of s) (megas s) loc fl q k m
          \<and> (sys_block (owned s) (words s) loc q k \<longrightarrow> sys_block (owned s') (words s') (loc(m \<mapsto> pl)) q k)
        \<or> 4 < q \<and> class_block (PF_of s') (megas s') (loc(m \<mapsto> pl)) (fl(m := fs)) q k m
        \<or> 4 < q \<and> sys_block (owned s') (words s') (loc(m \<mapsto> pl)) q k"
      proof (cases "q = b + 4")
        case True
        then have "class_block (PF_of s') (megas s') (loc(m \<mapsto> pl)) (fl(m := fs)) q k m"
          using q s'(7,10-12) z n bb mo(2) bf car iu by (simp add: class_block_def)
        then show ?thesis using True nf(2) by simp
      next
        case False
        then have Lq: "L q = Some k" using q by simp
        then have "4 < q" using fineD(6) [OF f] by (auto simp: live_ok_def)
        have "class_block (PF_of s') (megas s') (loc(m \<mapsto> pl)) (fl(m := fs)) q k m"
          if "class_block (PF_of s) (megas s) loc fl q k m"
          using that s'(7,10-12) r(1) ci z bf car iu by (auto simp: class_block_def)
        moreover have "sys_block (owned s') (words s') (loc(m \<mapsto> pl)) q k" if "sys_block (owned s) (words s) loc q k"
          using that loc by (auto simp: sys_block_def s'(2,3))
        ultimately show ?thesis using Lq \<open>4 < q\<close> by blast
      qed
    qed
    then show ?thesis by (auto simp: mb_inv_fine)
  qed
  have opM: "put_mega m r' s = Some (s\<lparr>megas := M\<rparr>)" using im by (simp add: put_mega_def M_def)
  have pfm: "pf_first (pf_of s c i) = m" by (simp add: m_def)
  have prev0: "mb_prev r' = 0"
    using lists_okD(1) [OF lok, of "Partly c i"] r(1)
    by (simp add: linked_in_use [OF iu(1)] dlist_def xs r'_def)
  show ?thesis
  proof (cases "nf = 0")
    case False
    then have "fs \<noteq> []" using free_chain_0 [OF nf(4)] by simp
    have op: "alloc_partly c i z s = Some (b + 4, s\<lparr>megas := M\<rparr>)"
      using r(1) nf(1) rdb opM False by (simp add: alloc_partly_def Let_def pfm r'_def)
    have "mb_inv (s\<lparr>megas := M\<rparr>) (L(b + 4 \<mapsto> n))"
    proof (rule fin [where pl = "Partly c i" and v = "pf_first (PF_of s c i)" and r'' = r' and lst' = lst])
      show "lists_ok (megas (s\<lparr>megas := M\<rparr>)) (head_of (s\<lparr>megas := M\<rparr>)) lst (loc(m \<mapsto> Partly c i))"
        using lokM loc by (simp add: fun_upd_idem)
    qed (use fineD(1) [OF f] \<open>fs \<noteq> []\<close> ci in \<open>auto simp: M_def r'_def fun_eq_iff same_body_def\<close>)
    with op dead show ?thesis by simp
  next
    case True
    then have fs: "fs = []" using free_chain_0 [OF nf(4)] by simp
    have Mm: "M m = Some r'" by (simp add: M_def)
    obtain M1 M2 where M1: "relink (mb_next r') (mb_prev_update (\<lambda>_. mb_prev r')) M = Some M1"
      "relink (mb_prev r') (mb_next_update (\<lambda>_. mb_next r')) M1 = Some M2"
      "lists_ok M2 ((head_of s)(Partly c i := if mb_prev r' \<noteq> 0 then head_of s (Partly c i) else mb_next r'))
         (lst(Partly c i := remove1 m (lst (Partly c i)))) (loc(m := None))"
      "M2 m = Some r'" "\<And>y. same_body M M2 y"
      by (rule lists_remove [OF lokM loc iu(1) Mm]) blast
    have M21: "M2 = M1" using M1(2) prev0 by simp
    define h where "h = filledMegaBlock (ctxs s c)"
    define r2 where "r2 = r'\<lparr>mb_prev := 0, mb_next := h\<rparr>"
    define H where "H = (head_of s)(Partly c i := mb_next r')"
    have l2: "lists_ok (M1(m \<mapsto> r2)) H (lst(Partly c i := remove1 m (lst (Partly c i)))) (loc(m := None))"
    proof (rule lists_ok_links)
      show "lists_ok M1 H (lst(Partly c i := remove1 m (lst (Partly c i)))) (loc(m := None))"
        using M1(3) unfolding M21 prev0 H_def by simp
      fix y pl
      assume "(loc(m := None)) y = Some pl"
      then have "y \<noteq> m" by auto
      then show "map_option mb_prev ((M1(m \<mapsto> r2)) y) = map_option mb_prev (M1 y)
        \<and> map_option mb_next ((M1(m \<mapsto> r2)) y) = map_option mb_next (M1 y)" by simp
    qed
    have r2: "(M1(m \<mapsto> r2)) m = Some r2" "mb_prev r2 = 0" "mb_next r2 = H (Filled c)"
      by (simp_all add: r2_def H_def h_def)
    have nm: "(loc(m := None)) m = None" by simp
    obtain M3 where M3: "relink (H (Filled c)) (mb_prev_update (\<lambda>_. m)) (M1(m \<mapsto> r2)) = Some M3"
      "lists_ok M3 (H(Filled c := m)) ((lst(Partly c i := remove1 m (lst (Partly c i))))(Filled c := m # (lst(Partly c i := remove1 m (lst (Partly c i)))) (Filled c)))
         ((loc(m := None))(m \<mapsto> Filled c))"
      "M3 m = Some r2" "\<And>y. same_body (M1(m \<mapsto> r2)) M3 y"
      by (rule lists_push [OF l2 nm hm(2) iu(2) r2]) blast
    have hH: "H (Filled c) = h" by (simp add: H_def h_def)
    define t where "t = set_filled c m (set_pf c i ((pf_of s c i)\<lparr>pf_first := mb_next r'\<rparr>) s\<lparr>megas := M3\<rparr>)"
    have pt: "partly_to_filled c i m (s\<lparr>megas := M\<rparr>) = Some t"
    proof -
      have "relink h (mb_prev_update (\<lambda>_. m)) (M1(m \<mapsto> r2)) = Some M3"
        using M3(1) unfolding hH .
      then show ?thesis using M1(1) Mm im
        by (simp add: partly_to_filled_def Let_def put_mega_def t_def h_def [symmetric]
            r2_def [symmetric] del: fun_upd_apply)
    qed
    have op: "alloc_partly c i z s = Some (b + 4, t)"
      using r(1,5) nf(1) rdb opM True bf fs pt
      by (simp add: alloc_partly_def Let_def pfm r'_def ASSERT_def)
    have "mb_inv t (L(b + 4 \<mapsto> n))"
    proof (rule fin [where pl = "Filled c" and v = "mb_next r'" and r'' = r2])
      show "same_body (megas s) (megas t) y" if "y \<noteq> m" for y
        using M1(5) [of y] M3(4) [of y] that by (auto simp: t_def M_def M21 same_body_def)
      show "lists_ok (megas t) (head_of t) ((lst(Partly c i := remove1 m (lst (Partly c i))))(Filled c := m # (lst(Partly c i := remove1 m (lst (Partly c i)))) (Filled c)))
         (loc(m \<mapsto> Filled c))"
        using M3(2) by (simp add: t_def H_def)
      show "PF_of t = (\<lambda>c' i'. if c' = c \<and> i' = i then (PF_of s c i)\<lparr>pf_first := mb_next r'\<rparr> else PF_of s c' i')"
        by (simp add: t_def fun_eq_iff PF_of_apply)
    qed (use fineD(1) [OF f] fs ci M3(3) in \<open>auto simp: t_def r2_def r'_def\<close>)
    moreover have "words t = words s" "owned t = owned s" by (simp_all add: t_def)
    ultimately show ?thesis using op dead by blast
  qed
qed

end
