(* ===== verification/MBSafe.thy ===== *)
theory MBSafe
  imports MBInv
begin

text \<open>
  Carving, fresh megablocks, system blocks and frees of the megablock heap preserve its
  invariant; the theorems on the histories of the heap.
\<close>

lemma region_apart:
  "regions_ok R \<Longrightarrow> (y, k) \<in> set R \<Longrightarrow> (m, l) \<in> set R \<Longrightarrow> y \<noteq> m \<Longrightarrow> apart y k m l"
  using regions_ok_apart by blast

text \<open>A block of a megablock in use overlaps no other block in use, headers included.\<close>

lemma live_avoids:
  assumes f: "fine s lst loc fl L" and q: "L q = Some k" "q \<noteq> b + 4"
    and m: "(m, 131096) \<in> set (owned s)" "loc m \<noteq> None"
    and r: "megas s m = Some r" "GetSizeFromIndex (mb_index r) = Some z"
    and b: "b \<in> blocks m z (131072 div z)" "8 \<le> z"
  shows "apart b z (q - 4) (k + 4)"
proof -
  have bm: "m + 24 \<le> b" "b + z \<le> m + 131096" using block_bounds [OF b(1)] b(2) by auto
  obtain y j where y: "(y, j) \<in> set (owned s)" "y \<le> q - 4" "q + k \<le> y + j" "4 < q"
    "class_block (PF_of s) (megas s) loc fl q k y \<and> loc y \<noteq> None \<and> y + 24 \<le> q - 4
     \<or> sys_block (owned s) (words s) loc q k \<and> y = q - 4 \<and> loc y = None"
    by (rule live_home [OF fineD(6,2,4) [OF f] q(1)]) blast
  have ro: "regions_ok (owned s)" using fineD(2) [OF f] by (simp add: homes_ok_def)
  show ?thesis
  proof (cases "y = m")
    case False
    then have "apart y j m 131096" using region_apart [OF ro y(1) m(1)] by simp
    then show ?thesis using y(2-4) bm unfolding apart_def by linarith
  next
    case True
    then have cb: "class_block (PF_of s) (megas s) loc fl q k m" using y(5) m(2) by auto
    obtain r' z' where z': "megas s m = Some r'" "GetSizeFromIndex (mb_index r') = Some z'" "k + 4 \<le> z'"
      "q - 4 \<in> blocks m z' (carved (PF_of s (mb_context r') (mb_index r')) m z')"
      using class_block_home [OF cb fineD(2,4) [OF f]] by blast
    have e: "z' = z" using z' r by simp
    have "q - 4 \<in> blocks m z (131072 div z)"
      using z'(4) carved_le unfolding e by (fastforce simp: set_grid dest: less_le_trans)
    moreover have "b \<noteq> q - 4" using q(2) y(4) by auto
    ultimately have "b + z \<le> q - 4 \<or> q - 4 + z \<le> b" using grid_apart [OF b(1)] by blast
    then show ?thesis using z'(3) unfolding apart_def e by linarith
  qed
qed

text \<open>Nothing in use touches memory outside the megablocks in use and the system blocks.\<close>

lemma live_off_unused:
  assumes f: "fine s lst loc fl L" and q: "L q = Some k"
    and m: "(m, l) \<in> set (owned s)" "\<And>pl. loc m = Some pl \<Longrightarrow> \<not> in_use pl" "loc m \<noteq> None"
  shows "apart m l (q - 4) (k + 4)"
proof -
  obtain y j where y: "(y, j) \<in> set (owned s)" "y \<le> q - 4" "q + k \<le> y + j" "4 < q"
    "class_block (PF_of s) (megas s) loc fl q k y \<and> loc y \<noteq> None \<and> y + 24 \<le> q - 4
     \<or> sys_block (owned s) (words s) loc q k \<and> y = q - 4 \<and> loc y = None"
    by (rule live_home [OF fineD(6,2,4) [OF f] q]) blast
  have "y \<noteq> m" using y(5) m(2,3) by (auto simp: class_block_def)
  then have "apart y j m l"
    using region_apart [of "owned s" y j m l] y(1) m(1) fineD(2) [OF f] by (simp add: homes_ok_def)
  then show ?thesis using y(2-4) unfolding apart_def by linarith
qed

lemma live_off_new:
  assumes f: "fine s lst loc fl L" and q: "L q = Some k"
    and m: "list_all (\<lambda>(x, n). apart m l x n) (owned s)"
  shows "apart m l (q - 4) (k + 4)"
proof -
  obtain y j where y: "(y, j) \<in> set (owned s)" "y \<le> q - 4" "q + k \<le> y + j" "4 < q"
    by (rule live_home [OF fineD(6,2,4) [OF f] q]) blast
  then have "apart m l y j" using m by (auto simp: list_all_iff)
  then show ?thesis using y(2-4) unfolding apart_def by linarith
qed

text \<open>The words of the blocks in use read as before.\<close>

definition same_words :: "mball \<Rightarrow> mball \<Rightarrow> (nat \<rightharpoonup> nat) \<Rightarrow> bool" where
  "same_words s s' L \<longleftrightarrow>
     (\<forall>q k a. L q = Some k \<longrightarrow> q \<le> a \<longrightarrow> a + 4 \<le> q + k \<longrightarrow> rd a s' = rd a s)"

lemma same_words_refl: "words s' = words s \<Longrightarrow> owned s' = owned s \<Longrightarrow> same_words s s' L"
  by (simp add: same_words_def rd_def)

lemma same_words_apart:
  assumes "\<And>q k a. L q = Some k \<Longrightarrow> q \<le> a \<Longrightarrow> a + 4 \<le> q + k \<Longrightarrow> words s' a = words s a"
    and "\<And>q k a. L q = Some k \<Longrightarrow> q \<le> a \<Longrightarrow> a + 4 \<le> q + k \<Longrightarrow> inside a 4 (owned s') = inside a 4 (owned s)"
  shows "same_words s s' L"
  using assms by (simp add: same_words_def rd_def)

section \<open>Carving the next block\<close>

lemma justs_used:
  assumes f: "fine s lst loc fl L" and j: "justAllocated (pf_of s c i) \<noteq> 0"
  obtains r pl where "megas s (justAllocated (pf_of s c i)) = Some r" and "mb_context r = c" and "mb_index r = i"
    and "loc (justAllocated (pf_of s c i)) = Some pl" and "in_use pl"
proof -
  have "justAllocated (PF_of s c i) \<noteq> 0" using j by (simp add: PF_of_def)
  from justs_okD [OF fineD(5) [OF f] this] that show ?thesis by (auto simp: PF_of_def)
qed

lemma alloc_just_ok:
  assumes f: "fine s lst loc fl L" and h: "justAllocated (pf_of s c i) \<noteq> 0"
    and z: "GetSizeFromIndex i = Some z" and n: "n + 4 \<le> z"
  shows "\<exists>p s'. alloc_just c i z s = Some (p, s') \<and> mb_inv s' (L(p \<mapsto> n)) \<and> L p = None
    \<and> same_words s s' L"
proof -
  define m where "m = justAllocated (pf_of s c i)"
  obtain r pl where j: "megas s m = Some r" "mb_context r = c" "mb_index r = i" "loc m = Some pl" "in_use pl"
    using justs_used [OF f h] unfolding m_def by blast
  obtain r' z' where r0: "megas s m = Some r'" "place_ok pl r'" "GetSizeFromIndex (mb_index r') = Some z'"
    "mega_ok (words s) (PF_of s (mb_context r') (mb_index r')) m z' (firstBlock r') (fl m)"
    "numOfAllocatedBlocks r' + length (fl m) = 131072 div z'"
    "fl m = [] \<longleftrightarrow> pl = Filled (mb_context r')"
    "(m, 131096) \<in> set (owned s)" "8 dvd m" "0 < m" "8 \<le> z'" "4 dvd z'"
    by (rule used_mega [OF f j(4,5)])
  have "r' = r" using r0(1) j(1) by simp
  moreover have "z' = z" using r0(3) z j(1,3) r0(1) by simp
  ultimately have r: "place_ok pl r" "mega_ok (words s) (PF_of s c i) m z (firstBlock r) (fl m)"
    "numOfAllocatedBlocks r + length (fl m) = 131072 div z" "fl m = [] \<longleftrightarrow> pl = Filled c"
    "(m, 131096) \<in> set (owned s)" "8 dvd m" "0 < m" "8 \<le> z" "4 dvd z"
    using r0 j by simp_all
  define pf where "pf = PF_of s c i"
  define k where "k = carved pf m z"
  have jm: "justAllocated pf = m" by (simp add: pf_def PF_of_def m_def)
  have left: "0 < blocksLeft pf" "blocksLeft pf < 131072 div z" "nextFreeBlock pf = m + 24 + k * z"
    using r(2) jm by (simp_all add: mega_ok_def pf_def [symmetric] k_def)
  have k: "k = 131072 div z - blocksLeft pf" by (simp add: k_def carved_def jm)
  define b where "b = m + 24 + k * z"
  have bc: "b \<in> blocks m z (131072 div z)" using left(1,2) k by (auto simp: set_grid b_def)
  have bs: "blocks m z (Suc k) = insert b (blocks m z k)" by (simp add: grid_Suc b_def)
  have bn: "b \<notin> blocks m z k" using r(8) by (auto simp: set_grid b_def)
  have kc: "k \<le> 131072 div z" using k by simp
  note bw = block_word [OF r(5,6) bc order_refl r(8,9)]
  have bm: "m + 24 \<le> b" "b + z \<le> m + 131096" using block_bounds [OF bc] r(8) by auto
  define pf' where "pf' = pf\<lparr>nextFreeBlock := b + z, blocksLeft := blocksLeft pf - 1,
      justAllocated := (if blocksLeft pf - 1 = 0 then 0 else m)\<rparr>"
  define s' where "s' = (set_pf c i pf' s)\<lparr>words := (words s)(b \<mapsto> m)\<rparr>"
  have pfe: "pf_of s c i = pf" by (simp add: pf_def PF_of_def)
  have nb: "nextFreeBlock pf = b" using left(3) by (simp add: b_def)
  have op: "alloc_just c i z s = Some (b + 4, s')"
    using left(1) nb bw jm by (simp add: alloc_just_def Let_def decr_def wr_def pfe pf'_def s'_def)
  have PF: "PF_of s' = (\<lambda>c' i'. if c' = c \<and> i' = i then pf' else PF_of s c' i')"
    by (simp add: s'_def)
  have car: "carved pf' m z = Suc k"
    using left k by (auto simp: carved_def pf'_def)
  have dead: "L (b + 4) = None"
    by (rule not_live [OF f r(5) bm(1)])
      (use bm r(8) j z bn in \<open>auto simp: class_block_def k_def pf_def\<close>)
  have Wb: "words s' a = words s a" if "a + 4 \<le> b \<or> b + 4 \<le> a" for a
    using that by (auto simp: s'_def)
  have far: "a + 4 \<le> b \<or> b + 4 \<le> a" if "(y, x) \<in> set (owned s)" "y \<noteq> m" "y \<le> a" "a + 4 \<le> y + x" for y x a
  proof -
    have "apart y x m 131096"
      using region_apart [OF _ that(1) r(5) that(2)] fineD(2) [OF f] by (simp add: homes_ok_def)
    then show ?thesis using that(3,4) bm r(8) unfolding apart_def by linarith
  qed
  have und: "undisturbed (words s) (words s') (PF_of s) (PF_of s') (megas s) (megas s') y"
    if "y \<noteq> m" "loc y \<noteq> None" for y
  proof -
    have yo: "(y, 131096) \<in> set (owned s)" using fineD(2) [OF f] that(2) by (auto simp: homes_ok_def)
    have "words s' a = words s a" if "y + 24 \<le> a" "a + 4 \<le> y + 131096" for a
      using Wb far [OF yo \<open>y \<noteq> m\<close>] that by auto
    moreover have "same_just y (PF_of s c' i') (PF_of s' c' i')" for c' i'
      using that(1) jm r(7) lists_ok_Some [OF fineD(3) [OF f]] that(2)
      by (auto simp: PF same_just_def pf_def [symmetric] pf'_def)
    ultimately show ?thesis by (simp add: undisturbed_def s'_def)
  qed
  have "fine s' lst loc fl (L(b + 4 \<mapsto> n))"
  proof (rule fine_step [OF f, where m = m])
    show "contextOverride s' = None" using fineD(1) [OF f] by (simp add: s'_def)
    show "homes_ok (owned s') loc" using fineD(2) [OF f] by (simp add: s'_def)
    have "head_of s' = head_of s" by (simp add: s'_def pf'_def pf_def PF_of_def fun_upd_idem)
    then show "lists_ok (megas s') (head_of s') lst loc" using fineD(3) [OF f] by (simp add: s'_def)
    show "fl y = fl y \<and> undisturbed (words s) (words s') (PF_of s) (PF_of s') (megas s) (megas s') y"
      if "y \<noteq> m" "loc y \<noteq> None" for y using und [OF that] by simp
    show "one_ok (words s') (PF_of s') (megas s') m q (fl m)" if "loc m = Some q" "in_use q" for q
    proof -
      have fb: "x + 4 \<noteq> b \<and> x \<noteq> b" if "x \<in> blocks m z k" for x
      proof -
        have "x + z \<le> b \<or> b + z \<le> x"
          using grid_apart [of x "m + 24" z "Suc k" b] that bn bs by auto
        then show ?thesis using r(8) by linarith
      qed
      have mo: "set (fl m) \<subseteq> blocks m z k" "\<forall>x \<in> blocks m z k. words s x = Some m"
        "free_chain (words s) (firstBlock r) (fl m)" "distinct (fl m)" "z \<le> 16384"
        using r(2) by (simp_all add: mega_ok_def pf_def [symmetric] k_def)
      have "words s' (x + 4) = words s (x + 4)" if "x \<in> set (fl m)" for x
        using fb [of x] mo(1) that by (auto simp: s'_def)
      then have "free_chain (words s') (firstBlock r) (fl m)"
        using mo(3) free_chain_cong by blast
      moreover have "\<forall>x \<in> blocks m z (Suc k). words s' x = Some m"
        using mo(2) fb bs by (auto simp: s'_def)
      moreover have "set (fl m) \<subseteq> blocks m z (Suc k)" using mo(1) bs by auto
      moreover have "justAllocated pf' = m \<longrightarrow> 0 < blocksLeft pf' \<and> blocksLeft pf' < 131072 div z
          \<and> nextFreeBlock pf' = m + 24 + Suc k * z"
        using left r(7) by (auto simp: pf'_def b_def)
      ultimately have "mega_ok (words s') pf' m z (firstBlock r) (fl m)"
        using mo(4,5) r(8,9) by (simp add: mega_ok_def car)
      then show ?thesis using that j z r(1,3,4)
        unfolding one_ok_def by (intro exI [of _ r] exI [of _ z] conjI) (simp_all add: PF s'_def)
    qed
    show "justs_ok (PF_of s') (megas s') loc"
    proof (rule justs_ok_step [OF fineD(5) [OF f], of m])
      show "loc y = loc y \<and> same_body (megas s) (megas s') y" if "y \<noteq> m" for y by (simp add: s'_def)
      fix c' i'
      show "justAllocated (PF_of s' c' i') = 0
        \<or> justAllocated (PF_of s' c' i') = justAllocated (PF_of s c' i') \<and> justAllocated (PF_of s' c' i') \<noteq> m
        \<or> justAllocated (PF_of s' c' i') = m \<and> (\<exists>r pl. megas s' m = Some r \<and> mb_context r = c'
             \<and> mb_index r = i' \<and> loc m = Some pl \<and> in_use pl)"
      proof (cases "c' = c \<and> i' = i")
        case True
        then show ?thesis using j by (simp add: PF pf'_def s'_def)
      next
        case False
        have "justAllocated (PF_of s c' i') \<noteq> m"
        proof
          assume e: "justAllocated (PF_of s c' i') = m"
          then have "justAllocated (PF_of s c' i') \<noteq> 0" using r(7) by simp
          from justs_okD [OF fineD(5) [OF f] this] obtain ry where
            "megas s m = Some ry" "mb_context ry = c'" "mb_index ry = i'" unfolding e by blast
          then show False using j False by simp
        qed
        then show ?thesis using False by (auto simp: PF)
      qed
    qed
    fix q x
    assume q: "(L(b + 4 \<mapsto> n)) q = Some x"
    show "L q = Some x \<and> \<not> class_block (PF_of s) (megas s) loc fl q x m
        \<and> (sys_block (owned s) (words s) loc q x \<longrightarrow> sys_block (owned s') (words s') loc q x)
      \<or> 4 < q \<and> class_block (PF_of s') (megas s') loc fl q x m
      \<or> 4 < q \<and> sys_block (owned s') (words s') loc q x"
    proof (cases "q = b + 4")
      case True
      have "b \<notin> set (fl m)" using r(2) bn by (auto simp: mega_ok_def pf_def [symmetric] k_def)
      then have "class_block (PF_of s') (megas s') loc fl q x m"
        using q j z n bs True by (simp add: class_block_def PF car s'_def)
      then show ?thesis using True bm by simp
    next
      case False
      then have Lq: "L q = Some x" using q by simp
      then have "4 < q" using fineD(6) [OF f] by (auto simp: live_ok_def)
      have "class_block (PF_of s') (megas s') loc fl q x m" if "class_block (PF_of s) (megas s) loc fl q x m"
        using that j z bs by (auto simp: class_block_def PF car k_def pf_def [symmetric] s'_def)
      moreover have "sys_block (owned s') (words s') loc q x" if sb: "sys_block (owned s) (words s) loc q x"
      proof -
        have "(q - 4, x + 4) \<in> set (owned s)" "q - 4 \<noteq> m" using sb j(4) by (auto simp: sys_block_def)
        then have "words s' (q - 4) = words s (q - 4)" using Wb far by auto
        then show ?thesis using sb by (simp add: sys_block_def s'_def)
      qed
      ultimately show ?thesis using Lq \<open>4 < q\<close> by blast
    qed
  qed simp
  then have "mb_inv s' (L(b + 4 \<mapsto> n))" by (auto simp: mb_inv_fine)
  moreover have "same_words s s' L"
  proof (rule same_words_apart)
    fix q x a
    assume q: "L q = Some x" "q \<le> a" "a + 4 \<le> q + x"
    then have qb: "q \<noteq> b + 4" using dead by auto
    have "4 < q" using fineD(6) [OF f] q(1) by (auto simp: live_ok_def)
    moreover have "loc m \<noteq> None" using j by simp
    ultimately have "a + 4 \<le> b \<or> b + 4 \<le> a"
      using live_avoids [OF f q(1) qb r(5) _ j(1) _ bc r(8)] q(2,3) z j(3) r(8) unfolding apart_def
      by fastforce
    then show "words s' a = words s a" by (rule Wb)
  qed (simp add: s'_def)
  ultimately show ?thesis using op dead by blast
qed
section \<open>A fresh megablock\<close>

lemma drop_range_out [simp]: "a < p \<or> p + n \<le> a \<Longrightarrow> drop_range p n m a = m a"
  by (auto simp: drop_range_def)

lemma homes_apart:
  "homes_ok R loc \<Longrightarrow> loc y \<noteq> None \<Longrightarrow> (m, 131096) \<in> set R \<Longrightarrow> y \<noteq> m \<Longrightarrow> apart y 131096 m 131096"
  using region_apart by (fastforce simp: homes_ok_def)

lemma inside_same:
  assumes "inside a n R" and "set R \<subseteq> set R'"
  shows "inside a n R'"
  using assms by (auto simp: inside_iff)

text \<open>What the caller of \<open>take_mega\<close> gets: an owned, aligned megablock away from all in use.\<close>

definition got_mega :: "mball \<Rightarrow> mball \<Rightarrow> (nat \<Rightarrow> place option) \<Rightarrow> (nat \<rightharpoonup> nat) \<Rightarrow> nat \<Rightarrow> nat \<Rightarrow> bool" where
  "got_mega s t loc L c m \<longleftrightarrow> 0 < m \<and> 8 dvd m \<and> (m, 131096) \<in> set (owned t)
     \<and> homes_ok (owned t) (loc(m := None)) \<and> (\<exists>lst. lists_ok (megas t) (head_of t) lst (loc(m := None)))
     \<and> PF_of t = PF_of s \<and> contextOverride t = None
     \<and> (loc m = None \<or> loc m = Some (Unused c))
     \<and> (\<forall>y. y \<noteq> m \<longrightarrow> loc y \<noteq> None \<longrightarrow> apart y 131096 m 131096 \<and> megas t y = megas s y)
     \<and> (\<forall>y a. y \<noteq> m \<longrightarrow> loc y \<noteq> None \<longrightarrow> y \<le> a \<longrightarrow> a + 4 \<le> y + 131096 \<longrightarrow> words t a = words s a)
     \<and> (\<forall>q k. L q = Some k \<longrightarrow> apart m 131096 (q - 4) (k + 4))
     \<and> (\<forall>q k a. L q = Some k \<longrightarrow> q - 4 \<le> a \<longrightarrow> a + 4 \<le> q + k \<longrightarrow> words t a = words s a)
     \<and> set (owned s) \<subseteq> set (owned t)"

lemma take_unused:
  assumes f: "fine s lst loc fl L" and h: "freeMegaBlock (ctxs s c) \<noteq> 0"
  shows "\<exists>t m. take_mega p c s = Some (m, t) \<and> got_mega s t loc L c m"
proof -
  define m where "m = freeMegaBlock (ctxs s c)"
  have hm: "head_of s (Unused c) = m" "m \<noteq> 0" using h by (simp_all add: m_def)
  obtain r where r: "megas s m = Some r" "loc m = Some (Unused c)"
    "lists_ok (megas s) ((head_of s)(Unused c := mb_next r)) (lst(Unused c := tl (lst (Unused c)))) (loc(m := None))"
    by (rule lists_pop_unused [OF fineD(3) [OF f] hm]) blast
  have mo: "(m, 131096) \<in> set (owned s)" "8 dvd m" using fineD(2) [OF f] r(2) by (auto simp: homes_ok_def)
  have "apart m 131096 (q - 4) (k + 4)" if "L q = Some k" for q k
    by (rule live_off_unused [OF f that mo(1)]) (use r(2) in \<open>auto simp: in_use_def\<close>)
  moreover have "apart y 131096 m 131096" if "y \<noteq> m" "loc y \<noteq> None" for y
    using homes_apart [OF fineD(2) [OF f] that(2) mo(1) that(1)] .
  moreover have "homes_ok (owned s) (loc(m := None))" using fineD(2) [OF f] by (auto simp: homes_ok_def)
  moreover have "\<exists>lst. lists_ok (megas (set_unused c (mb_next r) s)) (head_of (set_unused c (mb_next r) s)) lst (loc(m := None))"
    using r(3) by auto
  ultimately have "got_mega s (set_unused c (mb_next r) s) loc L c m"
    using mo hm r(2) fineD(1) [OF f] by (simp add: got_mega_def)
  moreover have "take_mega p c s = Some (m, set_unused c (mb_next r) s)"
    using r(1) hm(2) by (simp add: take_mega_def Let_def m_def [symmetric])
  ultimately show ?thesis by blast
qed

lemma take_new:
  assumes f: "fine s lst loc fl L" and h: "freeMegaBlock (ctxs s c) = 0"
    and p: "answer_ok p MEGABLOCK_TOTAL s"
  shows "\<exists>t m. take_mega p c s = Some (m, t) \<and> got_mega s t loc L c m"
proof -
  define t where "t = SysAlloc p 131096 s"
  have p0: "0 < p" "8 dvd p" "list_all (\<lambda>(q, k). apart p 131096 q k) (owned s)"
    using p by (simp_all add: answer_ok_def)
  have t: "t = s\<lparr>owned := (p, 131096) # owned s, words := drop_range p 131096 (words s),
      megas := drop_range p 131096 (megas s)\<rparr>" using p0(1) by (simp add: t_def SysAlloc_def)
  have ap: "apart p 131096 q k" if "(q, k) \<in> set (owned s)" for q k using p0(3) that by (auto simp: list_all_iff)
  have ho: "(y, 131096) \<in> set (owned s)" if "loc y \<noteq> None" for y
    using fineD(2) [OF f] that by (auto simp: homes_ok_def)
  have lp: "loc p = None"
  proof (rule ccontr)
    assume "loc p \<noteq> None"
    then show False using ap [OF ho [of p]] by (simp add: apart_def)
  qed
  then have locp: "loc(p := None) = loc" by (simp add: fun_upd_idem)
  have mt: "megas t y = megas s y" if "loc y \<noteq> None" for y
    using ap [OF ho [OF that]] by (auto simp: t apart_def)
  have "lists_ok (megas t) (head_of s) lst loc"
    by (rule lists_ok_links [OF fineD(3) [OF f]]) (simp add: mt)
  moreover have "head_of t = head_of s"
    by (rule ext, case_tac x) (simp_all add: t)
  ultimately have l: "\<exists>lst. lists_ok (megas t) (head_of t) lst (loc(p := None))" by (auto simp: locp)
  have pf: "PF_of t = PF_of s" by (simp add: PF_of_def t)
  have live: "apart p 131096 (q - 4) (k + 4)" if "L q = Some k" for q k
    by (rule live_off_new [OF f that p0(3)])
  have w1: "words t a = words s a" if "loc y \<noteq> None" "y \<le> a" "a + 4 \<le> y + 131096" for y a
  proof -
    have "a < p \<or> p + 131096 \<le> a" using ap [OF ho [OF that(1)]] that(2,3) unfolding apart_def by linarith
    then show ?thesis by (simp add: t)
  qed
  have w2: "words t a = words s a" if "L q = Some k" "q - 4 \<le> a" "a + 4 \<le> q + k" for q k a
  proof -
    have "4 < q" using fineD(6) [OF f] that(1) by (auto simp: live_ok_def)
    then have "a < p \<or> p + 131096 \<le> a" using live [OF that(1)] that(2,3) unfolding apart_def by linarith
    then show ?thesis by (simp add: t)
  qed
  have "homes_ok (owned t) (loc(p := None))"
    using fineD(2) [OF f] ho p0 ap by (auto simp: homes_ok_def t regions_ok_Cons locp)
  moreover have "apart y 131096 p 131096" if "loc y \<noteq> None" for y
    using ap [OF ho [OF that]] by (simp add: apart_sym)
  ultimately have "got_mega s t loc L c p"
    unfolding got_mega_def using p0(1,2) l pf fineD(1) [OF f] lp mt w1 w2 live
    by (intro conjI allI impI) (auto simp: t)
  moreover have "take_mega p c s = Some (p, t)" using h by (simp add: take_mega_def t_def)
  ultimately show ?thesis by blast
qed
lemma alloc_new_ok:
  assumes f: "fine s lst loc fl L" and j0: "justAllocated (pf_of s c i) = 0"
    and z: "GetSizeFromIndex i = Some z" "8 \<le> z" "4 dvd z" "z \<le> 16384" and n: "n + 4 \<le> z"
    and p: "answer_ok p MEGABLOCK_TOTAL s"
  shows "\<exists>q s'. alloc_new p c i z s = Some (q, s') \<and> mb_inv s' (L(q \<mapsto> n)) \<and> L q = None
    \<and> same_words s s' L"
proof -
  obtain t m where tm: "take_mega p c s = Some (m, t)" "got_mega s t loc L c m"
    using take_unused [OF f] take_new [OF f _ p] by (cases "freeMegaBlock (ctxs s c) = 0") blast+
  have g: "0 < m" "8 dvd m" "(m, 131096) \<in> set (owned t)" "homes_ok (owned t) (loc(m := None))"
    "PF_of t = PF_of s" "contextOverride t = None" "loc m = None \<or> loc m = Some (Unused c)"
    "set (owned s) \<subseteq> set (owned t)"
    using tm(2) by (simp_all add: got_mega_def)
  have gy: "apart y 131096 m 131096" "megas t y = megas s y" if "y \<noteq> m" "loc y \<noteq> None" for y
    using tm(2) that by (simp_all add: got_mega_def)
  have gw: "words t a = words s a" if "y \<noteq> m" "loc y \<noteq> None" "y \<le> a" "a + 4 \<le> y + 131096" for y a
    using tm(2) that unfolding got_mega_def by blast
  have gl: "apart m 131096 (q - 4) (k + 4)" if "L q = Some k" for q k
    using tm(2) that by (simp add: got_mega_def)
  have glw: "words t a = words s a" if "L q = Some k" "q - 4 \<le> a" "a + 4 \<le> q + k" for q k a
    using tm(2) that unfolding got_mega_def by blast
  obtain lst1 where l1: "lists_ok (megas t) (head_of t) lst1 (loc(m := None))"
    using tm(2) by (auto simp: got_mega_def)
  define cap where "cap = 131072 div z"
  have cap: "8 \<le> cap" using z(2,4) div_le_mono2 [of z 16384 131072] by (simp add: cap_def)
  define h where "h = filledMegaBlock (ctxs t c)"
  define r where "r = \<lparr>mb_prev = 0, mb_next = h, firstBlock = 0, mb_index = i,
            numOfAllocatedBlocks = cap, mb_context = c\<rparr>"
  have l2: "lists_ok ((megas t)(m \<mapsto> r)) (head_of t) lst1 (loc(m := None))"
  proof (rule lists_ok_links [OF l1])
    fix y pl
    assume "(loc(m := None)) y = Some pl"
    then have "y \<noteq> m" by auto
    then show "map_option mb_prev (((megas t)(m \<mapsto> r)) y) = map_option mb_prev (megas t y)
        \<and> map_option mb_next (((megas t)(m \<mapsto> r)) y) = map_option mb_next (megas t y)" by simp
  qed
  have nm: "(loc(m := None)) m = None" by simp
  have m0: "m \<noteq> 0" using g(1) by simp
  have iu: "in_use (Filled c)" by (simp add: in_use_def)
  have rr: "((megas t)(m \<mapsto> r)) m = Some r" "mb_prev r = 0" "mb_next r = head_of t (Filled c)"
    by (simp_all add: r_def h_def)
  obtain M where M: "relink (head_of t (Filled c)) (mb_prev_update (\<lambda>_. m)) ((megas t)(m \<mapsto> r)) = Some M"
    "lists_ok M ((head_of t)(Filled c := m)) (lst1(Filled c := m # lst1 (Filled c))) ((loc(m := None))(m \<mapsto> Filled c))"
    "M m = Some r" "\<And>y. same_body ((megas t)(m \<mapsto> r)) M y"
    by (rule lists_push [OF l2 nm m0 iu rr]) blast
  define b where "b = m + 24"
  define pf' where "pf' = (PF_of s c i)\<lparr>justAllocated := m, blocksLeft := cap - 1, nextFreeBlock := b + z\<rparr>"
  define s' where "s' = (set_pf c i pf' (set_filled c m t))\<lparr>megas := M, words := (words t)(b \<mapsto> m)\<rparr>"
  have im: "inside m 24 (owned t)" "inside b 4 (owned t)" using g(3) by (auto intro!: insideI simp: b_def)
  have b4: "4 dvd b"
    using block_aligned [of b m z 1] g(2) z(3) by (simp add: grid_def b_def)
  have pft: "pf_of (set_filled c m t) c i = PF_of s c i"
    using PF_of_apply [of "set_filled c m t" c i] g(5) by simp
  have op: "alloc_new p c i z s = Some (b + 4, s')"
    using tm(1) im b4 M(1) cap unfolding b_def
    by (simp add: alloc_new_def Let_def put_mega_def wr_def decr_def r_def h_def [symmetric]
        cap_def [symmetric] pf'_def s'_def pft b_def del: fun_upd_apply)
  have PF: "PF_of s' = (\<lambda>c' i'. if c' = c \<and> i' = i then pf' else PF_of s c' i')"
    by (simp add: s'_def g(5) fun_eq_iff)
  have jp: "justAllocated pf' = m" "blocksLeft pf' = cap - 1" "nextFreeBlock pf' = b + z"
    by (simp_all add: pf'_def)
  have car: "carved pf' m z = Suc 0" using cap by (simp add: carved_def pf'_def cap_def [symmetric])
  have b1: "blocks m z (Suc 0) = {b}" by (simp add: grid_def b_def)
  have sm: "same_body (megas s) (megas s') y" if "y \<noteq> m" "loc y \<noteq> None" for y
    using M(4) [of y] gy(2) [OF that] that(1) by (simp add: s'_def same_body_def)
  have dead: "L (b + 4) = None"
  proof (rule ccontr)
    assume "L (b + 4) \<noteq> None"
    then obtain k where "L (b + 4) = Some k" by auto
    from gl [OF this] show False by (simp add: apart_def b_def)
  qed
  have und: "undisturbed (words s) (words s') (PF_of s) (PF_of s') (megas s) (megas s') y"
    if y: "y \<noteq> m" "loc y \<noteq> None" for y
  proof -
    have "words s' a = words s a" if "y + 24 \<le> a" "a + 4 \<le> y + 131096" for a
    proof -
      have "a \<noteq> b" using gy(1) [OF y] that by (auto simp: apart_def b_def)
      then show ?thesis using gw [OF y, of a] that by (simp add: s'_def)
    qed
    moreover have "y \<noteq> 0" using lists_ok_Some [OF fineD(3) [OF f]] y(2) by blast
    then have "same_just y (PF_of s c' i') (PF_of s' c' i')" for c' i'
      using y(1) j0 by (simp add: PF same_just_def pf'_def PF_of_apply)
    ultimately show ?thesis using sm [OF y] by (simp add: undisturbed_def)
  qed
  have "fine s' (lst1(Filled c := m # lst1 (Filled c))) (loc(m \<mapsto> Filled c)) (fl(m := [])) (L(b + 4 \<mapsto> n))"
  proof (rule fine_step [OF f, where m = m])
    show "contextOverride s' = None" using g(6) by (simp add: s'_def)
    show "homes_ok (owned s') (loc(m \<mapsto> Filled c))"
      using g(2,3,4) by (auto simp: homes_ok_def s'_def)
    have "head_of s' = (head_of t)(Filled c := m)"
    proof
      fix pl
      have "pf_first pf' = pf_first (pf_of t c i)"
        using g(5) by (simp add: pf'_def PF_of_def fun_eq_iff)
      then show "head_of s' pl = ((head_of t)(Filled c := m)) pl"
        by (cases pl) (auto simp: s'_def)
    qed
    then show "lists_ok (megas s') (head_of s') (lst1(Filled c := m # lst1 (Filled c))) (loc(m \<mapsto> Filled c))"
      using M(2) by (simp add: s'_def)
    show "(loc(m \<mapsto> Filled c)) y = loc y" if "y \<noteq> m" for y using that by simp
    show "(fl(m := [])) y = fl y \<and> undisturbed (words s) (words s') (PF_of s) (PF_of s') (megas s) (megas s') y"
      if "y \<noteq> m" "loc y \<noteq> None" for y using und [OF that] that by simp
    show "one_ok (words s') (PF_of s') (megas s') m q ((fl(m := [])) m)"
      if q: "(loc(m \<mapsto> Filled c)) m = Some q" "in_use q" for q
    proof -
      have "mega_ok (words s') pf' m z 0 []"
        using z cap b1 jp by (simp add: mega_ok_def car s'_def cap_def [symmetric] b_def [symmetric])
      then show ?thesis unfolding one_ok_def using q M(3) z(1)
        by (intro exI [of _ r] exI [of _ z]) (simp add: r_def s'_def PF [unfolded s'_def] place_ok_def cap_def)
    qed
    show "justs_ok (PF_of s') (megas s') (loc(m \<mapsto> Filled c))"
      unfolding justs_ok_def
    proof (intro allI impI)
      fix c' i'
      assume nz: "justAllocated (PF_of s' c' i') \<noteq> 0"
      show "\<exists>r pl. megas s' (justAllocated (PF_of s' c' i')) = Some r \<and> mb_context r = c' \<and> mb_index r = i'
          \<and> (loc(m \<mapsto> Filled c)) (justAllocated (PF_of s' c' i')) = Some pl \<and> in_use pl"
      proof (cases "c' = c \<and> i' = i")
        case True
        then have "justAllocated (PF_of s' c' i') = m" by (simp add: PF pf'_def)
        then show ?thesis using True M(3) iu by (simp add: s'_def r_def)
      next
        case False
        then have e: "PF_of s' c' i' = PF_of s c' i'" by (auto simp: PF)
        obtain ry pl where y: "megas s (justAllocated (PF_of s c' i')) = Some ry" "mb_context ry = c'"
          "mb_index ry = i'" "loc (justAllocated (PF_of s c' i')) = Some pl" "in_use pl"
          using justs_okD [OF fineD(5) [OF f], of c' i'] nz unfolding e by blast
        then have ym: "justAllocated (PF_of s c' i') \<noteq> m" using g(7) by (auto simp: in_use_def)
        then obtain ry' where "megas s' (justAllocated (PF_of s c' i')) = Some ry'" "mb_context ry' = c'"
          "mb_index ry' = i'" using sm [OF ym] y by (auto simp: same_body_def)
        then show ?thesis using y ym unfolding e by simp
      qed
    qed
    fix q x
    assume q: "(L(b + 4 \<mapsto> n)) q = Some x"
    show "L q = Some x \<and> \<not> class_block (PF_of s) (megas s) loc fl q x m
        \<and> (sys_block (owned s) (words s) loc q x \<longrightarrow> sys_block (owned s') (words s') (loc(m \<mapsto> Filled c)) q x)
      \<or> 4 < q \<and> class_block (PF_of s') (megas s') (loc(m \<mapsto> Filled c)) (fl(m := [])) q x m
      \<or> 4 < q \<and> sys_block (owned s') (words s') (loc(m \<mapsto> Filled c)) q x"
    proof (cases "q = b + 4")
      case True
      have "class_block (PF_of s') (megas s') (loc(m \<mapsto> Filled c)) (fl(m := [])) q x m"
        unfolding class_block_def using q True M(3) z(1) n b1 car iu
        by (intro exI [of _ "Filled c"] exI [of _ r] exI [of _ z]) (simp add: r_def s'_def PF [unfolded s'_def])
      then show ?thesis using True g(1) by (simp add: b_def)
    next
      case False
      then have Lq: "L q = Some x" using q by simp
      have "\<not> class_block (PF_of s) (megas s) loc fl q x m" using g(7) by (auto simp: class_block_def in_use_def)
      moreover have "sys_block (owned s') (words s') (loc(m \<mapsto> Filled c)) q x"
        if sb: "sys_block (owned s) (words s) loc q x"
      proof -
        have "4 < q" using fineD(6) [OF f] Lq by (auto simp: live_ok_def)
        then have a: "q - 4 \<noteq> b" "q - 4 \<noteq> m" using gl [OF Lq] by (auto simp: apart_def b_def)
        have "words t (q - 4) = words s (q - 4)" using glw [OF Lq, of "q - 4"] \<open>4 < q\<close> by simp
        then show ?thesis using sb a g(8) by (auto simp: sys_block_def s'_def)
      qed
      ultimately show ?thesis using Lq by blast
    qed
  qed
  then have "mb_inv s' (L(b + 4 \<mapsto> n))" by (auto simp: mb_inv_fine)
  moreover have "same_words s s' L"
  proof (rule same_words_apart)
    fix q x a
    assume q: "L q = Some x" "q \<le> a" "a + 4 \<le> q + x"
    then have "a \<noteq> b" using gl [OF q(1)] by (auto simp: apart_def b_def)
    then show "words s' a = words s a" using glw [OF q(1), of a] q(2,3) by (simp add: s'_def)
    obtain y j where "(y, j) \<in> set (owned s)" "y \<le> q - 4" "q + x \<le> y + j"
      by (rule live_home [OF fineD(6,2,4) [OF f] q(1)]) blast
    then have "inside a 4 (owned s)" using q(2,3) by (auto intro!: insideI [of y j])
    then show "inside a 4 (owned s') = inside a 4 (owned s)"
      using inside_same [OF _ g(8)] by (simp add: s'_def)
  qed
  ultimately show ?thesis using op dead by blast
qed
section \<open>System blocks\<close>

lemma sys_alloc_ok:
  assumes f: "fine s lst loc fl L" and p: "answer_ok p (n + 4) s"
    and t: "t = (SysAlloc p (n + 4) s)\<lparr>words := (words (SysAlloc p (n + 4) s))(p \<mapsto> 0)\<rparr>"
    and s': "owned s' = owned t" "words s' = words t" "megas s' = megas t" "PF_of s' = PF_of s"
      "head_of s' = head_of s" "contextOverride s' = None"
  shows "mb_inv s' (L(p + 4 \<mapsto> n)) \<and> L (p + 4) = None \<and> same_words s s' L"
proof -
  have p0: "0 < p" "8 dvd p" "list_all (\<lambda>(q, k). apart p (n + 4) q k) (owned s)"
    using p by (simp_all add: answer_ok_def)
  have ap: "apart p (n + 4) q k" if "(q, k) \<in> set (owned s)" for q k
    using p0(3) that by (auto simp: list_all_iff)
  have t': "owned s' = (p, n + 4) # owned s" "words s' = (drop_range p (n + 4) (words s))(p \<mapsto> 0)"
    "megas s' = drop_range p (n + 4) (megas s)"
    using p0(1) by (simp_all add: s' t SysAlloc_def)
  have ho: "(y, 131096) \<in> set (owned s)" if "loc y \<noteq> None" for y
    using fineD(2) [OF f] that by (auto simp: homes_ok_def)
  have lp: "loc p = None"
  proof (rule ccontr)
    assume "loc p \<noteq> None"
    then show False using ap [OF ho [of p]] by (simp add: apart_def)
  qed
  have W: "words s' a = words s a" if "a < p \<or> p + (n + 4) \<le> a" for a
    using that by (auto simp: t'(2))
  have Wr: "words s' a = words s a" if "(y, k) \<in> set (owned s)" "y \<le> a" "a + 4 \<le> y + k" for y k a
  proof -
    have "a < p \<or> p + (n + 4) \<le> a" using ap [OF that(1)] that(2,3) unfolding apart_def by linarith
    then show ?thesis by (rule W)
  qed
  have mt: "megas s' y = megas s y" if "loc y \<noteq> None" for y
    using ap [OF ho [OF that]] by (auto simp: t'(3) apart_def)
  have dead: "L (p + 4) = None"
  proof (rule ccontr)
    assume "L (p + 4) \<noteq> None"
    then obtain k where "L (p + 4) = Some k" by auto
    from live_off_new [OF f this p0(3)] show False by (simp add: apart_def)
  qed
  have "fine s' lst loc fl (L(p + 4 \<mapsto> n))"
  proof (rule fine_step [OF f s'(6), where m = p])
    show "homes_ok (owned s') loc"
      using fineD(2) [OF f] p0(1) ap by (auto simp: homes_ok_def t'(1) regions_ok_Cons)
    show "lists_ok (megas s') (head_of s') lst loc"
      unfolding s'(5) by (rule lists_ok_links [OF fineD(3) [OF f]]) (simp add: mt)
    show "fl y = fl y \<and> undisturbed (words s) (words s') (PF_of s) (PF_of s') (megas s) (megas s') y"
      if "loc y \<noteq> None" for y
      using mt [OF that] Wr [OF ho [OF that]] by (simp add: undisturbed_def s'(4) same_body_def)
    show "one_ok (words s') (PF_of s') (megas s') p q (fl p)" if "loc p = Some q" for q
      using that lp by simp
    show "justs_ok (PF_of s') (megas s') loc"
      unfolding s'(4)
    proof (rule justs_ok_step [OF fineD(5) [OF f], of p])
      show "loc y = loc y \<and> same_body (megas s) (megas s') y" if "loc y \<noteq> None" for y
        using mt [OF that] by (simp add: same_body_def)
      show "justAllocated (PF_of s c i) = 0
          \<or> justAllocated (PF_of s c i) = justAllocated (PF_of s c i) \<and> justAllocated (PF_of s c i) \<noteq> p
          \<or> justAllocated (PF_of s c i) = p \<and> (\<exists>r pl. megas s' p = Some r \<and> mb_context r = c \<and> mb_index r = i
               \<and> loc p = Some pl \<and> in_use pl)" for c i
        using justs_ok_loc [OF fineD(5) [OF f], of c i] lp by metis
    qed
    fix q x
    assume q: "(L(p + 4 \<mapsto> n)) q = Some x"
    show "L q = Some x \<and> \<not> class_block (PF_of s) (megas s) loc fl q x p
        \<and> (sys_block (owned s) (words s) loc q x \<longrightarrow> sys_block (owned s') (words s') loc q x)
      \<or> 4 < q \<and> class_block (PF_of s') (megas s') loc fl q x p
      \<or> 4 < q \<and> sys_block (owned s') (words s') loc q x"
    proof (cases "q = p + 4")
      case True
      then show ?thesis using q p0(1,2) lp by (simp add: sys_block_def t'(1,2))
    next
      case False
      then have Lq: "L q = Some x" using q by simp
      have "\<not> class_block (PF_of s) (megas s) loc fl q x p" using lp by (auto simp: class_block_def)
      moreover have "sys_block (owned s') (words s') loc q x" if sb: "sys_block (owned s) (words s) loc q x"
      proof -
        have "(q - 4, x + 4) \<in> set (owned s)" using sb by (simp add: sys_block_def)
        then have "words s' (q - 4) = words s (q - 4)" by (rule Wr) simp_all
        then show ?thesis using sb by (simp add: sys_block_def t'(1))
      qed
      ultimately show ?thesis using Lq by blast
    qed
  qed simp_all
  then have "mb_inv s' (L(p + 4 \<mapsto> n))" by (auto simp: mb_inv_fine)
  moreover have "same_words s s' L"
  proof (rule same_words_apart)
    fix q x a
    assume q: "L q = Some x" "q \<le> a" "a + 4 \<le> q + x"
    obtain y j where y: "(y, j) \<in> set (owned s)" "y \<le> q - 4" "q + x \<le> y + j" "4 < q"
      by (rule live_home [OF fineD(6,2,4) [OF f] q(1)]) blast
    then show "words s' a = words s a" using q(2,3) by (intro Wr [OF y(1)]) auto
    have "inside a 4 (owned s)" using q(2,3) y by (auto intro!: insideI [of y j])
    then show "inside a 4 (owned s') = inside a 4 (owned s)"
      using inside_same [of a 4 "owned s" "owned s'"] by (auto simp: t'(1))
  qed
  ultimately show ?thesis using dead by blast
qed

lemma sys_free_ok:
  assumes f: "fine s lst loc fl L" and q: "L (b + 4) = Some n" "sys_block (owned s) (words s) loc (b + 4) n"
    and s': "owned s' = filter (\<lambda>r. fst r \<noteq> b) (owned s)" "words s' = drop_range b (n + 4) (words s)"
      "megas s' = drop_range b (n + 4) (megas s)" "PF_of s' = PF_of s"
      "head_of s' = head_of s" "contextOverride s' = None"
  shows "mb_inv s' (L(b + 4 := None)) \<and> same_words s s' (L(b + 4 := None))"
proof -
  have b: "(b, n + 4) \<in> set (owned s)" "loc b = None" using q(2) by (simp_all add: sys_block_def)
  have ro: "regions_ok (owned s)" using fineD(2) [OF f] by (simp add: homes_ok_def)
  have ap: "apart b (n + 4) y k" if "(y, k) \<in> set (owned s)" "y \<noteq> b" for y k
    using region_apart [OF ro b(1) that(1)] that(2) by simp
  have ho: "(y, 131096) \<in> set (owned s)" "y \<noteq> b" if "loc y \<noteq> None" for y
    using fineD(2) [OF f] that b(2) by (auto simp: homes_ok_def)
  have Wr: "words s' a = words s a" if "(y, k) \<in> set (owned s)" "y \<noteq> b" "y \<le> a" "a + 4 \<le> y + k" for y k a
  proof -
    have "a < b \<or> b + (n + 4) \<le> a" using ap [OF that(1,2)] that(3,4) unfolding apart_def by linarith
    then show ?thesis by (simp add: s'(2))
  qed
  have mt: "megas s' y = megas s y" if "loc y \<noteq> None" for y
    using ap [OF ho [OF that]] by (auto simp: s'(3) apart_def)
  have other: "y \<noteq> b" if "class_block (PF_of s) (megas s) loc fl q' k y \<and> loc y \<noteq> None \<and> y + 24 \<le> q' - 4
     \<or> sys_block (owned s) (words s) loc q' k \<and> y = q' - 4 \<and> loc y = None" "4 < q'" "q' \<noteq> b + 4" for q' k y
    using that b(2) by auto
  have "fine s' lst loc fl (L(b + 4 := None))"
  proof (rule fine_step [OF f s'(6), where m = b])
    show "homes_ok (owned s') loc"
      using fineD(2) [OF f] ho regions_ok_filter [OF ro] by (auto simp: homes_ok_def s'(1))
    show "lists_ok (megas s') (head_of s') lst loc"
      unfolding s'(5) by (rule lists_ok_links [OF fineD(3) [OF f]]) (simp add: mt)
    show "fl y = fl y \<and> undisturbed (words s) (words s') (PF_of s) (PF_of s') (megas s) (megas s') y"
      if "loc y \<noteq> None" for y
      using mt [OF that] Wr [OF ho [OF that]] by (simp add: undisturbed_def s'(4) same_body_def)
    show "one_ok (words s') (PF_of s') (megas s') b q (fl b)" if "loc b = Some q" for q
      using that b(2) by simp
    show "justs_ok (PF_of s') (megas s') loc"
      unfolding s'(4)
    proof (rule justs_ok_step [OF fineD(5) [OF f], of b])
      show "loc y = loc y \<and> same_body (megas s) (megas s') y" if "loc y \<noteq> None" for y
        using mt [OF that] by (simp add: same_body_def)
      show "justAllocated (PF_of s c i) = 0
          \<or> justAllocated (PF_of s c i) = justAllocated (PF_of s c i) \<and> justAllocated (PF_of s c i) \<noteq> b
          \<or> justAllocated (PF_of s c i) = b \<and> (\<exists>r pl. megas s' b = Some r \<and> mb_context r = c \<and> mb_index r = i
               \<and> loc b = Some pl \<and> in_use pl)" for c i
        using justs_ok_loc [OF fineD(5) [OF f], of c i] b(2) by metis
    qed
    fix q' x
    assume "(L(b + 4 := None)) q' = Some x"
    then have Lq: "L q' = Some x" "q' \<noteq> b + 4" by (auto split: if_splits)
    have "\<not> class_block (PF_of s) (megas s) loc fl q' x b" using b(2) by (auto simp: class_block_def)
    moreover have "sys_block (owned s') (words s') loc q' x" if sb: "sys_block (owned s) (words s) loc q' x"
    proof -
      have "4 < q'" using fineD(6) [OF f] Lq(1) by (auto simp: live_ok_def)
      then have "(q' - 4, x + 4) \<in> set (owned s)" "q' - 4 \<noteq> b" using sb Lq(2) by (auto simp: sys_block_def)
      moreover from this have "words s' (q' - 4) = words s (q' - 4)" by (rule Wr) simp_all
      ultimately show ?thesis using sb by (simp add: sys_block_def s'(1))
    qed
    ultimately show "L q' = Some x \<and> \<not> class_block (PF_of s) (megas s) loc fl q' x b
        \<and> (sys_block (owned s) (words s) loc q' x \<longrightarrow> sys_block (owned s') (words s') loc q' x)
      \<or> 4 < q' \<and> class_block (PF_of s') (megas s') loc fl q' x b
      \<or> 4 < q' \<and> sys_block (owned s') (words s') loc q' x"
      using Lq(1) by blast
  qed simp_all
  then have "mb_inv s' (L(b + 4 := None))" by (auto simp: mb_inv_fine)
  moreover have "same_words s s' (L(b + 4 := None))"
  proof (rule same_words_apart)
    fix q' x a
    assume "(L(b + 4 := None)) q' = Some x" and a: "q' \<le> a" "a + 4 \<le> q' + x"
    then have Lq: "L q' = Some x" "q' \<noteq> b + 4" by (auto split: if_splits)
    obtain y j where y: "(y, j) \<in> set (owned s)" "y \<le> q' - 4" "q' + x \<le> y + j" "4 < q'"
      "class_block (PF_of s) (megas s) loc fl q' x y \<and> loc y \<noteq> None \<and> y + 24 \<le> q' - 4
     \<or> sys_block (owned s) (words s) loc q' x \<and> y = q' - 4 \<and> loc y = None"
      by (rule live_home [OF fineD(6,2,4) [OF f] Lq(1)]) blast
    have yb: "y \<noteq> b" by (rule other [OF y(5,4) Lq(2)])
    show "words s' a = words s a" using a y by (intro Wr [OF y(1) yb]) auto
    have "inside a 4 (owned s)" "inside a 4 (owned s')"
      using a y yb by (auto intro!: insideI [of y j] simp: s'(1))
    then show "inside a 4 (owned s') = inside a 4 (owned s)" by simp
  qed
  ultimately show ?thesis by blast
qed

end
