(* ===== verification/MBHistory.thy ===== *)
theory MBHistory
  imports MBSafe
begin

text \<open>
  Frees of the megablock heap, and the theorems on its histories: no operation of a legal
  program gets stuck or fails an assertion, the blocks in use are disjoint and keep their words.
\<close>

section \<open>Moves between the lists\<close>


section \<open>Freeing a block\<close>




section \<open>The operations\<close>









section \<open>Histories\<close>





section \<open>Reallocation\<close>





end
