(* ===== verification/LtSize.thy ===== *)
theory LtSize
  imports MBAlloc
begin

text \<open>
  Size classes of \<open>ltalloc/ltalloc.cc\<close> (64-bit build, four classes per power of two): the
  class of a request, the table that MSVC builds use instead for small requests, the size of a
  class, and the number of blocks in a batch. The arithmetic is that of the classes of
  \<open>MBAlloc\<close>, shifted by three, and rests on its lemmas.
\<close>

definition CHUNK_SIZE :: nat where "CHUNK_SIZE = 64 * 1024"
definition MAX_NUM_OF_BLOCKS_IN_BATCH :: nat where "MAX_NUM_OF_BLOCKS_IN_BATCH = 256"
definition MAX_BATCH_SIZE :: nat where "MAX_BATCH_SIZE = 64 * 1024"
definition MAX_BLOCK :: nat where
  "MAX_BLOCK = (if CHUNK_SIZE < CHUNK_SIZE - CHUNK_SIZE div 2 ^ (1 + 2) then CHUNK_SIZE
     else CHUNK_SIZE - CHUNK_SIZE div 2 ^ (1 + 2))"

text \<open>The request is a 64-bit number: for an empty request \<open>size - 1\<close> is the largest one.\<close>

definition get_size_class :: "nat \<Rightarrow> nat" where
  "get_size_class n =
     (let s = round_up 8 n; x = (if s = 0 then max_u64 else s - 1); index = bsr (x OR 1)
      in index * 4 + x div 2 ^ (index - 2))"

definition small_size_classes :: "nat list" where
  "small_size_classes = [
      131, 15, 19, 21, 23, 24, 25, 26, 27, 28, 28, 29, 29, 30, 30, 31, 31, 32, 32, 32,
      32, 33, 33, 33, 33, 34, 34, 34, 34, 35, 35, 35, 35, 36, 36, 36, 36, 36, 36, 36,
      36, 37, 37, 37, 37, 37, 37, 37, 37, 38, 38, 38, 38, 38, 38, 38, 38, 39, 39, 39,
      39, 39, 39, 39, 39, 40, 40, 40, 40, 40, 40, 40, 40, 40, 40, 40, 40, 40, 40, 40,
      40, 41, 41, 41, 41, 41, 41, 41, 41, 41, 41, 41, 41, 41, 41, 41, 41, 42, 42, 42,
      42, 42, 42, 42, 42, 42, 42, 42, 42, 42, 42, 42, 42, 43, 43, 43, 43, 43, 43, 43,
      43, 43, 43, 43, 43, 43, 43, 43, 43, 44, 44, 44, 44, 44, 44, 44, 44, 44, 44, 44,
      44, 44, 44, 44, 44, 44, 44, 44, 44, 44, 44, 44, 44, 44, 44, 44, 44, 44, 44, 44,
      44, 45, 45, 45, 45, 45, 45, 45, 45, 45, 45, 45, 45, 45, 45, 45, 45, 45, 45, 45,
      45, 45, 45, 45, 45, 45, 45, 45, 45, 45, 45, 45, 45, 46, 46, 46, 46, 46, 46, 46,
      46, 46, 46, 46, 46, 46, 46, 46, 46, 46, 46, 46, 46, 46, 46, 46, 46, 46, 46, 46,
      46, 46, 46, 46, 46, 47, 47, 47, 47, 47, 47, 47, 47, 47, 47, 47, 47, 47, 47, 47,
      47, 47, 47, 47, 47, 47, 47, 47, 47, 47, 47, 47, 47, 47, 47, 47]"

definition get_size_class_msvc :: "nat \<Rightarrow> nat" where
  "get_size_class_msvc n =
     (if n < 256 * 8 - 7 then small_size_classes ! ((n + 7) div 8) else get_size_class n)"

definition class_to_size :: "nat \<Rightarrow> nat" where
  "class_to_size c = (let c = c - 3 in ((c mod 4) OR 4) * 2 ^ (c div 4 - 2))"

definition batch_size :: "nat \<Rightarrow> nat" where
  "batch_size sizeClass =
     (MAX_BATCH_SIZE - 1) div 2 ^ (sizeClass div 4) mod MAX_NUM_OF_BLOCKS_IN_BATCH"

section \<open>Classes\<close>

lemma lt_consts [simp]: "CHUNK_SIZE = 65536" "MAX_BLOCK = 57344" "MAX_BATCH_SIZE = 65536"
  "MAX_NUM_OF_BLOCKS_IN_BATCH = 256"
  by (simp_all add: CHUNK_SIZE_def MAX_BLOCK_def MAX_BATCH_SIZE_def MAX_NUM_OF_BLOCKS_IN_BATCH_def)

text \<open>A class other than the unused ones below 4 bytes, in terms of quarter powers of two.\<close>

lemma class_to_size_eq: "j < 4 \<Longrightarrow> class_to_size (4 * (k + 2) + j + 3) = (4 + j) * 2 ^ k"
proof -
  assume j: "j < 4"
  then have "(4 * (k + 2) + j) div 4 = k + 2" and "(4 * (k + 2) + j) mod 4 = j" by presburger+
  moreover have "j OR 4 = 4 + j"
  proof -
    have "j = 0 \<or> j = 1 \<or> j = 2 \<or> j = 3" using j by linarith
    then show ?thesis by auto
  qed
  moreover have "4 * (k + 2) + j + 3 - 3 = 4 * (k + 2) + j" by simp
  ultimately show ?thesis unfolding class_to_size_def Let_def by (simp only:) simp
qed


lemma get_size_class_eq:
  assumes "1 \<le> n"
  obtains q k where "get_size_class n = 4 * (k + 2) + q" and "4 \<le> q" and "q < 8"
    and "class_to_size (get_size_class n) = (q + 1) * 2 ^ k"
    and "(q + 1) * 2 ^ k = round_up (2 ^ k) (round_up 8 n)"
    and "2 ^ (k + 2) < round_up 8 n" and "round_up 8 n \<le> 2 ^ (k + 3)" and "8 \<le> round_up 8 n"
proof -
  define s where "s = round_up 8 n"
  have s8: "8 \<le> s"
  proof -
    obtain m where "s = 8 * m" using round_up_dvd [of 8 n] unfolding s_def by (rule dvdE)
    moreover have "1 \<le> s" using round_up_ge [of 8 n] assms by (simp add: s_def)
    ultimately show ?thesis by (cases m) auto
  qed
  then have s4: "4 < s" by simp
  obtain k q where k: "bsr ((s - 1) OR 1) = k + 2" "(s - 1) div 2 ^ k = q" and q: "4 \<le> q" "q < 8"
    and z: "(q + 1) * 2 ^ k = round_up (2 ^ k) s" and b: "2 ^ (k + 2) < s" "s \<le> 2 ^ (k + 3)"
    by (rule quarter_power [OF s4])
  have c: "get_size_class n = 4 * (k + 2) + q"
    using s8 k by (simp add: get_size_class_def Let_def s_def [symmetric])
  have "class_to_size (4 * (k + 2) + q) = (q + 1) * 2 ^ k"
  proof (cases "q = 7")
    case True
    have "class_to_size (4 * (Suc k + 2) + 0 + 3) = (4 + 0) * 2 ^ Suc k"
      by (intro class_to_size_eq) simp
    moreover have e: "4 * (k + 2) + q = 4 * (Suc k + 2) + 0 + 3" using True by simp
    ultimately show ?thesis unfolding e by (simp add: True)
  next
    case False
    then have "class_to_size (4 * (k + 2) + (q - 3) + 3) = (4 + (q - 3)) * 2 ^ k"
      using q by (intro class_to_size_eq) auto
    moreover have "4 * (k + 2) + (q - 3) + 3 = 4 * (k + 2) + q" using q by simp
    moreover have "4 + (q - 3) = q + 1" using q by simp
    ultimately show ?thesis by (simp only:)
  qed
  then show ?thesis using that [OF c q] z b s8 by (simp add: c s_def)
qed



text \<open>The table, entry by entry, against the scan of the request of \<open>m\<close> words.\<close>

definition scan_class :: "nat \<Rightarrow> nat" where
  "scan_class m = (let x = 8 * m - 1; i = bsr (x OR 1) in i * 4 + x div 2 ^ (i - 2))"

lemma nth_from_2: "1 \<le> m \<Longrightarrow> m < n \<Longrightarrow> (x # f 1 # map f [2..<n]) ! m = f m"
proof -
  assume "1 \<le> m" and "m < n"
  then consider "m = 1" | j where "m = Suc (Suc j)" "Suc (Suc j) < n"
    by (metis One_nat_def Suc_diff_1 less_eq_Suc_le old.nat.exhaust)
  then show ?thesis by cases auto
qed

lemma table_scan: "small_size_classes = 131 # scan_class 1 # map scan_class [2..<256]"
  by (simp add: small_size_classes_def scan_class_def Let_def bsr_numeral upt_rec_numeral)

text \<open>
  The table of the MSVC builds gives the class that the bit scan computes for every request
  from one byte.
\<close>

lemma lt_size_table: "get_size_class_msvc (Suc n) = get_size_class (Suc n)"
proof (cases "Suc n < 256 * 8 - 7")
  case False
  then show ?thesis by (simp add: get_size_class_msvc_def)
next
  case True
  define m where "m = (Suc n + 7) div 8"
  have m: "1 \<le> m" "m < 256" using True by (simp_all add: m_def)
  have r: "round_up 8 (Suc n) = 8 * m"
    unfolding round_up_def m_def minus_mod_eq_mult_div by simp
  have "small_size_classes ! m = scan_class m"
    unfolding table_scan by (rule nth_from_2 [OF m])
  then show ?thesis
    unfolding get_size_class_msvc_def m_def [symmetric] scan_class_def
    using True m by (simp add: get_size_class_def r Let_def)
qed

text \<open>
  Up to the largest block size, a batch has at most 256 blocks and at most 64 KiB.
\<close>

lemma lt_batch_bounds:
  assumes "1 \<le> n" and "n \<le> MAX_BLOCK"
  shows "batch_size (get_size_class n) + 1 \<le> MAX_NUM_OF_BLOCKS_IN_BATCH
    \<and> (batch_size (get_size_class n) + 1) * class_to_size (get_size_class n) \<le> MAX_BATCH_SIZE"
proof -
  obtain q k where q: "get_size_class n = 4 * (k + 2) + q" "4 \<le> q" "q < 8"
    "class_to_size (get_size_class n) = (q + 1) * 2 ^ k" "2 ^ (k + 2) < round_up 8 n"
    using get_size_class_eq [OF assms(1)] by metis
  have "round_up 8 n < 65536" using round_up_less [of 8 n] assms(2) by simp
  then have "(2::nat) ^ (k + 2) < 2 ^ 16" using q(5) by simp
  then have k: "k + 2 < 16" by (simp only: power_strict_increasing_iff one_less_numeral_iff semiring_norm)
  have d: "get_size_class n div 4 = k + 3" using q(1-3) by simp
  have "k < 14" using k by simp
  then have "k \<in> set [0..<14]" by simp
  then have b: "65535 div 2 ^ (k + 3) mod 256 + 1 \<le> (256::nat)"
    "(65535 div 2 ^ (k + 3) mod 256 + 1) * (8 * 2 ^ k) \<le> (65536::nat)"
    by (auto simp: upt_rec)
  have "(q + 1) * 2 ^ k \<le> 8 * (2::nat) ^ k" using q(3) by simp
  then have "(65535 div 2 ^ (k + 3) mod 256 + 1) * ((q + 1) * 2 ^ k)
      \<le> (65535 div 2 ^ (k + 3) mod 256 + 1) * (8 * (2::nat) ^ k)"
    by (rule mult_le_mono2)
  with b show ?thesis unfolding q(4) by (simp add: batch_size_def d)
qed

lemma lt_batch_bounds_witness: "(batch_size (get_size_class 48) + 1) * class_to_size (get_size_class 48) \<le> MAX_BATCH_SIZE"
  using lt_batch_bounds [of 48] by simp

end
