(* ===== verification/LtCache.thy ===== *)
theory LtCache
  imports LtSize
begin

text \<open>
  The caches of \<open>ltalloc/ltalloc.cc\<close>: every thread has for every size class a free list, a
  spare list and a counter, every class has a central cache, which hands out whole batches, and
  the chunks of 64 KB are cut into blocks lazily. A linked list of blocks is the list of their
  addresses; a batch is such a list, the batches of a class are linked at their first blocks; the
  chunks of the smallest blocks, which hold their batches in an array, form a doubly linked list seen
  from the current one (the nearest predecessor and successor first, the last used array
  element first). \<open>hooks p\<close> is the last word of the chunk at \<open>p\<close> and
  \<open>chunkClass p\<close> the first one. A critical section is one step; \<open>None\<close> is a failed assertion or
  a null pointer read.
\<close>

record thread_cache =
  tc_freeList :: "nat list"
  tempList :: "nat list"
  counter :: int

record chunk_sm =
  sm_chunk :: nat
  sm_batches :: "nat list list"

record central_cache =
  freeBlocksInLastChunk :: nat
  lastChunk :: nat
  firstBatch :: "nat list list"
  chunkWithFreeBatches :: "(chunk_sm list \<times> chunk_sm \<times> chunk_sm list) option"
  cc_freeList :: "nat list"
  freeListSize :: nat
  minChunkAddr :: nat
  maxChunkAddr :: nat

record lt =
  threadCache :: "nat \<Rightarrow> nat \<Rightarrow> thread_cache"
  centralCache :: "nat \<Rightarrow> central_cache"
  pad_freeChunk :: "nat list"
  pad_size :: nat
  chunkClass :: "nat \<Rightarrow> nat"
  hooks :: "nat \<Rightarrow> nat"

definition tc0 :: thread_cache where
  "tc0 = \<lparr>tc_freeList = [], tempList = [], counter = 0\<rparr>"

definition cc0 :: central_cache where
  "cc0 = \<lparr>freeBlocksInLastChunk = 0, lastChunk = 0, firstBatch = [], chunkWithFreeBatches = None,
     cc_freeList = [], freeListSize = 0, minChunkAddr = 0, maxChunkAddr = 0\<rparr>"

definition NUMBER_OF_SIZE_CLASSES :: nat where "NUMBER_OF_SIZE_CLASSES = (8 * 8 + 1) * 2 ^ 2"
definition NUM_OF_BATCHES_IN_CHUNK_SM :: nat where
  "NUM_OF_BATCHES_IN_CHUNK_SM = CHUNK_SIZE div (8 * MAX_NUM_OF_BLOCKS_IN_BATCH)"

definition CHUNK_IS_SMALL :: "nat \<Rightarrow> bool" where
  "CHUNK_IS_SMALL sizeClass = (sizeClass < get_size_class (2 * 8))"

text \<open>The headers have 64 and, with 32 batch pointers, 288 bytes rounded up to 320.\<close>

definition numBlocksInChunk :: "nat \<Rightarrow> nat" where
  "numBlocksInChunk sizeClass =
     (CHUNK_SIZE - (if CHUNK_IS_SMALL sizeClass then 320 else 64)) div class_to_size sizeClass"

definition chunk_of :: "nat \<Rightarrow> nat" where "chunk_of p = p - p mod CHUNK_SIZE"

section \<open>Taking blocks from the central cache\<close>

datatype fetched = Block nat | NewChunk | Region nat

definition take_temp :: "nat \<Rightarrow> thread_cache \<Rightarrow> (nat \<times> thread_cache) option" where
  "take_temp sizeClass tc =
     (if counter tc \<noteq> int (batch_size sizeClass) + 1 then None
      else Some (hd (tempList tc), tc\<lparr>counter := 1, tc_freeList := tl (tempList tc), tempList := []\<rparr>))"

text \<open>The inner \<open>None\<close> is the jump to \<open>no_free_batch\<close>.\<close>

definition pop_batch :: "nat \<Rightarrow> central_cache \<Rightarrow> (nat list option \<times> central_cache) option" where
  "pop_batch sizeClass cc =
     (if \<not> CHUNK_IS_SMALL sizeClass then
        (case firstBatch cc of [] \<Rightarrow> Some (None, cc) | b # bs \<Rightarrow> Some (Some b, cc\<lparr>firstBatch := bs\<rparr>))
      else
        (case chunkWithFreeBatches cc of
           None \<Rightarrow> Some (None, cc)
         | Some (prev, cs, next) \<Rightarrow>
             (case sm_batches cs of
                b # bs \<Rightarrow> Some (Some b, cc\<lparr>chunkWithFreeBatches := Some (prev, cs\<lparr>sm_batches := bs\<rparr>, next)\<rparr>)
              | [] \<Rightarrow>
                 (case prev of
                    [] \<Rightarrow> Some (None, cc)
                  | cs' # prev' \<Rightarrow>
                     if length (sm_batches cs') \<noteq> NUM_OF_BATCHES_IN_CHUNK_SM then None
                     else Some (Some (hd (sm_batches cs')), cc\<lparr>chunkWithFreeBatches :=
                       Some (prev', cs'\<lparr>sm_batches := tl (sm_batches cs')\<rparr>, cs # next)\<rparr>)))))"

definition take_short :: "nat \<Rightarrow> thread_cache \<Rightarrow> central_cache \<Rightarrow>
    (fetched \<times> thread_cache \<times> central_cache) option" where
  "take_short sizeClass tc cc =
     (let batchSize = batch_size sizeClass + 1; l = cc_freeList cc; n = freeListSize cc in
      if n = 0 then None
      else if n \<le> batchSize + 1 then
        Some (Block (hd l), tc\<lparr>counter := int batchSize - int n + 1, tc_freeList := tl l\<rparr>,
          cc\<lparr>freeListSize := 0, cc_freeList := []\<rparr>)
      else if length l < batchSize then None
      else Some (Block (hd l), tc\<lparr>tc_freeList := tl (take batchSize l)\<rparr>,
        cc\<lparr>freeListSize := n - batchSize, cc_freeList := drop batchSize l\<rparr>))"

definition take_last :: "(nat \<Rightarrow> nat) \<Rightarrow> nat \<Rightarrow> thread_cache \<Rightarrow> central_cache \<Rightarrow>
    (fetched \<times> thread_cache \<times> central_cache) option" where
  "take_last hook sizeClass tc cc =
     (let blockSize = class_to_size sizeClass; batchSize = batch_size sizeClass + 1;
          firstFree = lastChunk cc; free = freeBlocksInLastChunk cc in
      if firstFree = 0 \<or> free \<noteq> (CHUNK_SIZE - firstFree mod CHUNK_SIZE) div blockSize then None
      else
        let n = (if free < batchSize then free else batchSize);
            tc = (if free < batchSize then tc\<lparr>counter := int batchSize - int free + 1\<rparr> else tc);
            end = firstFree + blockSize * n;
            tc = tc\<lparr>tc_freeList := tl (grid firstFree blockSize n)\<rparr> in
        if free - n = 0 then
          (if end mod CHUNK_SIZE \<noteq> 0 then None
           else let last = hook (end - CHUNK_SIZE) in
             Some (Block firstFree, tc, cc\<lparr>lastChunk := last, freeBlocksInLastChunk :=
               if last = 0 then 0 else (CHUNK_SIZE - last mod CHUNK_SIZE) div blockSize\<rparr>))
        else Some (Block firstFree, tc, cc\<lparr>lastChunk := end, freeBlocksInLastChunk := free - n\<rparr>))"

definition no_free_batch :: "(nat \<Rightarrow> nat) \<Rightarrow> nat \<Rightarrow> thread_cache \<Rightarrow> central_cache \<Rightarrow>
    (fetched \<times> thread_cache \<times> central_cache) option" where
  "no_free_batch hook sizeClass tc cc =
     (if cc_freeList cc \<noteq> [] then take_short sizeClass tc cc
      else if freeBlocksInLastChunk cc \<noteq> 0 then take_last hook sizeClass tc cc
      else Some (NewChunk, tc, cc))"

definition fetch_from_central_cache :: "(nat \<Rightarrow> nat) \<Rightarrow> nat \<Rightarrow> thread_cache \<Rightarrow> central_cache \<Rightarrow>
    (fetched \<times> thread_cache \<times> central_cache) option" where
  "fetch_from_central_cache hook sizeClass tc cc =
     (if tempList tc \<noteq> [] then map_option (\<lambda>(p, tc). (Block p, tc, cc)) (take_temp sizeClass tc)
      else if counter tc \<noteq> 0 \<and> counter tc \<noteq> int (batch_size sizeClass) + 1 then None
      else let tc = tc\<lparr>counter := 1\<rparr> in
        (case pop_batch sizeClass cc of
           None \<Rightarrow> None
         | Some (Some b, cc) \<Rightarrow> Some (Block (hd b), tc\<lparr>tc_freeList := tl b\<rparr>, cc)
         | Some (None, cc) \<Rightarrow> no_free_batch hook sizeClass tc cc))"

text \<open>
  A new chunk \<open>p\<close>, from the pad or the system, cut and put in place after the lock was released:
  the central cache may have changed meanwhile.
\<close>

definition insert_sm :: "nat \<Rightarrow> central_cache \<Rightarrow> central_cache" where
  "insert_sm p cc = cc\<lparr>chunkWithFreeBatches :=
     (case chunkWithFreeBatches cc of
        None \<Rightarrow> Some ([], \<lparr>sm_chunk = p, sm_batches = []\<rparr>, [])
      | Some (prev, cs, next) \<Rightarrow> Some (prev, cs, \<lparr>sm_chunk = p, sm_batches = []\<rparr> # next))\<rparr>"

definition install_chunk :: "nat \<Rightarrow> nat \<Rightarrow> (nat \<Rightarrow> nat) \<Rightarrow> thread_cache \<Rightarrow> central_cache \<Rightarrow>
    nat \<times> thread_cache \<times> central_cache \<times> (nat \<Rightarrow> nat)" where
  "install_chunk sizeClass p hook tc cc =
     (let blockSize = class_to_size sizeClass; batchSize = batch_size sizeClass + 1;
          num = numBlocksInChunk sizeClass;
          n = (if num < batchSize then num else batchSize);
          tc = (if num < batchSize then tc\<lparr>counter := int batchSize - int num + 1\<rparr> else tc);
          fb = p + CHUNK_SIZE - num * blockSize; firstFree = fb + blockSize * n;
          tc = tc\<lparr>tc_freeList := tl (grid fb blockSize n)\<rparr>;
          cc = cc\<lparr>minChunkAddr := if p < minChunkAddr cc \<or> minChunkAddr cc = 0 then p else minChunkAddr cc,
                  maxChunkAddr := if maxChunkAddr cc < p then p else maxChunkAddr cc\<rparr>;
          cc = (if CHUNK_IS_SMALL sizeClass then insert_sm p cc else cc);
          hook = (if freeBlocksInLastChunk cc \<noteq> 0 then hook(chunk_of firstFree := lastChunk cc) else hook)
      in (fb, tc, cc\<lparr>freeBlocksInLastChunk := num - n, lastChunk := firstFree\<rparr>, hook))"

section \<open>Giving blocks back\<close>

definition add_batch_to_central_cache :: "central_cache \<Rightarrow> nat \<Rightarrow> nat list \<Rightarrow> central_cache option" where
  "add_batch_to_central_cache cc sizeClass batch =
     (if \<not> CHUNK_IS_SMALL sizeClass then Some (cc\<lparr>firstBatch := batch # firstBatch cc\<rparr>)
      else
        (case chunkWithFreeBatches cc of
           None \<Rightarrow> None
         | Some (prev, cs, next) \<Rightarrow>
             if length (sm_batches cs) = NUM_OF_BATCHES_IN_CHUNK_SM then
               (case next of
                  [] \<Rightarrow> None
                | cs' # next' \<Rightarrow>
                   if sm_batches cs' \<noteq> [] then None
                   else Some (cc\<lparr>chunkWithFreeBatches :=
                     Some (cs # prev, cs'\<lparr>sm_batches := [batch]\<rparr>, next')\<rparr>))
             else Some (cc\<lparr>chunkWithFreeBatches :=
               Some (prev, cs\<lparr>sm_batches := batch # sm_batches cs\<rparr>, next)\<rparr>)))"

definition move_to_central_cache :: "thread_cache \<Rightarrow> central_cache \<Rightarrow> nat \<Rightarrow>
    (thread_cache \<times> central_cache) option" where
  "move_to_central_cache tc cc sizeClass =
     map_option (\<lambda>cc. (tc\<lparr>counter := int (batch_size sizeClass), tempList := tc_freeList tc, tc_freeList := []\<rparr>, cc))
       (if tempList tc \<noteq> [] then add_batch_to_central_cache cc sizeClass (tempList tc) else Some cc)"

definition free_block :: "nat \<Rightarrow> nat \<Rightarrow> thread_cache \<Rightarrow> central_cache \<Rightarrow>
    (thread_cache \<times> central_cache) option" where
  "free_block sizeClass p tc cc =
     (let tc = tc\<lparr>counter := counter tc - 1\<rparr> in
      map_option (\<lambda>(tc, cc). (tc\<lparr>tc_freeList := p # tc_freeList tc\<rparr>, cc))
        (if counter tc < 0 then move_to_central_cache tc cc sizeClass else Some (tc, cc)))"

text \<open>The end of a thread, for one class; its cache disappears with it.\<close>

definition release_class :: "nat \<Rightarrow> thread_cache \<Rightarrow> central_cache \<Rightarrow> central_cache option" where
  "release_class sizeClass tc cc =
     (if tc_freeList tc = [] \<and> tempList tc = [] then Some cc
      else
        (case (if tempList tc \<noteq> [] then add_batch_to_central_cache cc sizeClass (tempList tc) else Some cc) of
           None \<Rightarrow> None
         | Some cc \<Rightarrow>
             if tc_freeList tc = [] then Some cc
             else if int (length (tc_freeList tc)) \<noteq> int (batch_size sizeClass) + 1 - counter tc then None
             else Some (cc\<lparr>cc_freeList := tc_freeList tc @ cc_freeList cc,
               freeListSize := freeListSize cc + length (tc_freeList tc)\<rparr>)))"

section \<open>The allocator\<close>

definition set_class :: "nat \<Rightarrow> nat \<Rightarrow> thread_cache \<Rightarrow> central_cache \<Rightarrow> lt \<Rightarrow> lt" where
  "set_class t c tc cc s = s\<lparr>threadCache := (threadCache s)(t := (threadCache s t)(c := tc)),
     centralCache := (centralCache s)(c := cc)\<rparr>"

text \<open>
  A request for \<open>n\<close> bytes. \<open>NewChunk\<close>: the thread goes on to get a chunk; \<open>Region\<close>: it goes on to
  get a region of that size from the system. An empty request is one for one byte.
\<close>

definition ltmalloc_small :: "nat \<Rightarrow> nat \<Rightarrow> lt \<Rightarrow> (fetched \<times> lt) option" where
  "ltmalloc_small t c s =
     (let tc = threadCache s t c in
      (case tc_freeList tc of
         fb # rest \<Rightarrow> Some (Block fb, set_class t c (tc\<lparr>tc_freeList := rest, counter := counter tc + 1\<rparr>)
           (centralCache s c) s)
       | [] \<Rightarrow> map_option (\<lambda>(r, tc, cc). (r, set_class t c tc cc s))
           (fetch_from_central_cache (hooks s) c tc (centralCache s c))))"

definition ltmalloc :: "nat \<Rightarrow> nat \<Rightarrow> lt \<Rightarrow> (fetched \<times> lt) option" where
  "ltmalloc t n s =
     (if tc_freeList (threadCache s t (get_size_class n)) = [] \<and> (n = 0 \<or> MAX_BLOCK < n) then
        (if n = 0 then ltmalloc_small t (get_size_class 1) s
         else Some (Region (round_up CHUNK_SIZE n mod 2 ^ 64), s))
      else ltmalloc_small t (get_size_class n) s)"

definition pad_chunk :: "lt \<Rightarrow> (nat \<times> lt) option" where
  "pad_chunk s = (case pad_freeChunk s of
      [] \<Rightarrow> None
    | p # ps \<Rightarrow> Some (p, s\<lparr>pad_freeChunk := ps, pad_size := pad_size s - CHUNK_SIZE,
        hooks := (hooks s)(p := 0)\<rparr>))"

definition finish_malloc :: "nat \<Rightarrow> nat \<Rightarrow> nat \<Rightarrow> lt \<Rightarrow> (nat \<times> lt) option" where
  "finish_malloc t c p s =
     (if hooks s p \<noteq> 0 then None
      else (case install_chunk c p (hooks s) (threadCache s t c) (centralCache s c) of
        (fb, tc, cc, hook) \<Rightarrow>
          Some (fb, set_class t c tc cc (s\<lparr>chunkClass := (chunkClass s)(p := c), hooks := hook\<rparr>))))"

definition ltfree :: "nat \<Rightarrow> nat \<Rightarrow> lt \<Rightarrow> lt option" where
  "ltfree t p s =
     (let c = chunkClass s (chunk_of p) in
      map_option (\<lambda>(tc, cc). set_class t c tc cc s)
        (free_block c p (threadCache s t c) (centralCache s c)))"

definition ltmsize :: "nat \<Rightarrow> lt \<Rightarrow> nat" where
  "ltmsize p s = class_to_size (chunkClass s (chunk_of p))"

fun release_classes :: "nat \<Rightarrow> nat \<Rightarrow> lt \<Rightarrow> lt option" where
  "release_classes t 0 s = Some s"
| "release_classes t (Suc c) s =
     (case release_classes t c s of
        None \<Rightarrow> None
      | Some s \<Rightarrow> map_option (\<lambda>cc. set_class t c tc0 cc s)
          (release_class c (threadCache s t c) (centralCache s c)))"

definition release_thread_cache :: "nat \<Rightarrow> lt \<Rightarrow> lt option" where
  "release_thread_cache t s = release_classes t NUMBER_OF_SIZE_CLASSES s"

end
