(* ===== verification/LtPlaces.thy ===== *)
theory LtPlaces
  imports LtCache
begin

text \<open>
  The blocks of one size class and where they are: in the free or spare list of a thread, in
  batches, on the short free list of the central cache, in the uncut rest of a chunk, or in use.
  Every block of every chunk of the class is in exactly one of these places.
\<close>

datatype place = InFree nat | InTemp nat | InBatch | InShort | InRest

definition placed :: "(place \<Rightarrow> nat list) \<Rightarrow> nat set \<Rightarrow> nat set \<Rightarrow> bool" where
  "placed at used U \<longleftrightarrow>
     (\<forall>pl. distinct (at pl) \<and> set (at pl) \<inter> used = {}) \<and>
     (\<forall>pl ql. pl \<noteq> ql \<longrightarrow> set (at pl) \<inter> set (at ql) = {}) \<and>
     (\<Union>pl. set (at pl)) \<union> used = U"

lemma UN_split: "(\<Union>p. f p) = f a \<union> f b \<union> (\<Union>p\<in>- {a, b}. f p)"
  by auto

text \<open>
  Blocks move between two places and the users, and new ones may come in; the other places stay.
\<close>

lemma placed_move:
  assumes P: "placed at used U" and ne: "pl \<noteq> ql"
    and d: "distinct (xs @ ys)" "set (xs @ ys) \<inter> used' = {}"
    and same: "set xs \<union> set ys \<union> used' = set (at pl) \<union> set (at ql) \<union> used \<union> new"
    and new: "new \<inter> U = {}"
  shows "placed (at(pl := xs, ql := ys)) used' (U \<union> new)"
proof -
  let ?at' = "at(pl := xs, ql := ys)" and ?V = "set (at pl) \<union> set (at ql) \<union> used \<union> new"
  have other: "set (at r) \<inter> ?V = {}" if r: "r \<noteq> pl" "r \<noteq> ql" for r
  proof -
    have "set (at r) \<subseteq> U" using P unfolding placed_def by blast
    then show ?thesis using P r new unfolding placed_def by blast
  qed
  have in_V: "set xs \<subseteq> ?V" "set ys \<subseteq> ?V" "used' \<subseteq> ?V" using same by blast+
  have 1: "distinct (?at' r) \<and> set (?at' r) \<inter> used' = {}" for r
  proof (cases "r = pl \<or> r = ql")
    case False
    then have "set (at r) \<inter> used' = {}" using other [of r] in_V(3) by blast
    then show ?thesis using False P by (simp add: placed_def)
  qed (use d ne in auto)
  have 2: "set (?at' r) \<inter> set (?at' r') = {}" if "r \<noteq> r'" for r r'
  proof -
    have o1: "set (at q) \<inter> set xs = {}" "set (at q) \<inter> set ys = {}" if "q \<noteq> pl" "q \<noteq> ql" for q
      using other [OF that] in_V by blast+
    have o2: "set (at r) \<inter> set (at r') = {}" using P that unfolding placed_def by blast
    show ?thesis using o1 [of r] o1 [of r'] o2 that d ne
      by (cases "r = pl"; cases "r = ql"; cases "r' = pl"; cases "r' = ql") auto
  qed
  have U: "U = set (at pl) \<union> set (at ql) \<union> (\<Union>p\<in>- {pl, ql}. set (at p)) \<union> used"
    using P UN_split [of "\<lambda>p. set (at p)" pl ql] unfolding placed_def by simp
  have "(\<Union>p\<in>- {pl, ql}. set (?at' p)) = (\<Union>p\<in>- {pl, ql}. set (at p))" by simp
  then have "(\<Union>p. set (?at' p)) = set xs \<union> set ys \<union> (\<Union>p\<in>- {pl, ql}. set (at p))"
    using UN_split [of "\<lambda>p. set (?at' p)" pl ql] ne by simp
  then have "(\<Union>p. set (?at' p)) \<union> used' = U \<union> new" using U same by blast
  with 1 2 show ?thesis unfolding placed_def by blast
qed

lemma placedD:
  assumes "placed at used U"
  shows "distinct (at pl)" and "set (at pl) \<inter> used = {}" and "set (at pl) \<subseteq> U"
  using assms unfolding placed_def by blast+

lemma placed_used: "placed at used U \<Longrightarrow> used \<subseteq> U"
  unfolding placed_def by blast

lemma placed_apart: "placed at used U \<Longrightarrow> pl \<noteq> ql \<Longrightarrow> set (at pl) \<inter> set (at ql) = {}"
  unfolding placed_def by blast

lemma placed_cong: "placed at used U \<Longrightarrow> at = at' \<Longrightarrow> used = used' \<Longrightarrow> U = U' \<Longrightarrow> placed at' used' U'"
  by simp

lemma placed_take:
  assumes P: "placed at used U" and x: "at pl = x # xs"
  shows "placed (at(pl := xs)) (insert x used) U"
proof -
  obtain ql where q: "pl \<noteq> ql" by (cases "pl = InRest") (use place.distinct in metis)+
  have "x # xs = at pl" using x by simp
  then have "placed (at(pl := xs, ql := at ql)) (insert x used) (U \<union> {})"
    using placedD [OF P, of pl] placedD [OF P, of ql] placed_apart [OF P q] x
    by (intro placed_move [OF P q]) auto
  then show ?thesis using q by (simp add: fun_upd_other fun_upd_twist [OF q])
qed

lemma placed_give:
  assumes P: "placed at used U" and x: "x \<in> used"
  shows "placed (at(pl := x # at pl)) (used - {x}) U"
proof -
  obtain ql where q: "pl \<noteq> ql" by (cases "pl = InRest") (use place.distinct in metis)+
  have "placed (at(pl := x # at pl, ql := at ql)) (used - {x}) (U \<union> {})"
    using placedD [OF P, of pl] placedD [OF P, of ql] placed_apart [OF P q] x
    by (intro placed_move [OF P q]) auto
  then show ?thesis using q by (simp add: fun_upd_other fun_upd_twist [OF q])
qed

text \<open>A list found in \<open>ql\<close> moves to \<open>pl\<close>, its first block to a user.\<close>

lemma placed_fetch:
  assumes P: "placed at used U" and q: "pl \<noteq> ql" and e: "at pl = []"
    and b: "b \<noteq> []" "set (at ql) = set b \<union> set r" "distinct (b @ r)"
  shows "placed (at(pl := tl b, ql := r)) (insert (hd b) used) U"
proof -
  obtain x xs where x: "b = x # xs" using b(1) by (cases b) auto
  have "placed (at(pl := tl b, ql := r)) (insert (hd b) used) (U \<union> {})"
    using placedD [OF P, of ql] b e x by (intro placed_move [OF P q]) auto
  then show ?thesis by simp
qed

lemma placed_shift:
  assumes P: "placed at used U" and q: "pl \<noteq> ql"
    and b: "set xs \<union> set ys = set (at pl) \<union> set (at ql)" "distinct (xs @ ys)"
  shows "placed (at(pl := xs, ql := ys)) used U"
proof -
  have "set (xs @ ys) \<inter> used = {}" using placedD(2) [OF P, of pl] placedD(2) [OF P, of ql] b(1) by auto
  then have "placed (at(pl := xs, ql := ys)) used (U \<union> {})"
    using b by (intro placed_move [OF P q]) auto
  then show ?thesis by simp
qed

text \<open>A new chunk: its first blocks go to a thread and a user, the others are the rest.\<close>

lemma placed_grow:
  assumes P: "placed at used U" and q: "pl \<noteq> ql" and e: "at pl = []"
    and b: "b \<noteq> []" "distinct (b @ r)" "set (b @ r) \<inter> U = {}"
  shows "placed (at(pl := tl b, ql := r @ at ql)) (insert (hd b) used) (U \<union> set (b @ r))"
proof -
  obtain x xs where x: "b = x # xs" using b(1) by (cases b) auto
  show ?thesis using placedD [OF P, of ql] placed_used [OF P] b e x
    by (intro placed_move [OF P q]) auto
qed

end
