(* ===== verification/LtInv.thy ===== *)
theory LtInv
  imports LtPlaces
begin

text \<open>
  The invariant of one size class of ltalloc, over all threads: the counter of a thread and its
  free list add up to a batch, spare lists and batches have exactly the size of a batch, the uncut
  rests of chunks are chained through the last words of the chunks, and every block is in exactly
  one place. Each operation keeps it; a block handed out was not in use.
\<close>

definition valid_class :: "nat \<Rightarrow> bool" where
  "valid_class c \<longleftrightarrow> (\<exists>n. 1 \<le> n \<and> n \<le> MAX_BLOCK \<and> c = get_size_class n)"

section \<open>The numbers of a class\<close>

lemma round_up_mono_dvd:
  assumes "0 < k" and "k dvd m" and "n \<le> m"
  shows "round_up k n \<le> m"
proof -
  obtain a where a: "round_up k n = k * a" using round_up_dvd [of k n] by (rule dvdE)
  obtain b where b: "m = k * b" using assms(2) by (rule dvdE)
  have "k * a < m + k" using round_up_less [OF assms(1), of n] assms(3) by (simp add: a)
  then have "k * a < k * (b + 1)" by (simp add: b)
  then have "a < b + 1" by (simp only: nat_mult_less_cancel1 [OF assms(1)])
  then show ?thesis by (simp add: a b)
qed

lemma valid_size:
  assumes "valid_class c"
  shows "8 \<le> class_to_size c" and "class_to_size c \<le> 57344"
proof -
  obtain n where n: "1 \<le> n" "n \<le> 57344" "c = get_size_class n" using assms by (auto simp: valid_class_def)
  obtain q k where e: "class_to_size c = (q + 1) * 2 ^ k" "(q + 1) * 2 ^ k = round_up (2 ^ k) (round_up 8 n)"
    "2 ^ (k + 2) < round_up 8 n" "8 \<le> round_up 8 n"
    using get_size_class_eq [OF n(1)] n(3) by metis
  have s: "round_up 8 n \<le> 57344" by (rule round_up_mono_dvd) (use n in auto)
  have "(2::nat) ^ (k + 2) < 2 ^ 16" using e(3) s by simp
  then have "k + 2 < 16" by (simp only: power_strict_increasing_iff one_less_numeral_iff semiring_norm)
  then have "(2::nat) ^ k dvd 2 ^ 13" by (intro le_imp_power_dvd) simp
  then have "(2::nat) ^ k dvd 2 ^ 13 * 7" by (rule dvd_mult2)
  then have "2 ^ k dvd (57344::nat)" by simp
  then show "class_to_size c \<le> 57344" using s e by (simp add: round_up_mono_dvd)
  show "8 \<le> class_to_size c" using e round_up_ge [of "2 ^ k" "round_up 8 n"] by simp
qed

lemma numBlocks:
  assumes "valid_class c"
  shows "0 < numBlocksInChunk c" and "numBlocksInChunk c * class_to_size c \<le> 65472"
proof -
  have s: "8 \<le> class_to_size c" "class_to_size c \<le> 57344" using valid_size [OF assms] by auto
  let ?h = "CHUNK_SIZE - (if CHUNK_IS_SMALL c then 320 else 64)"
  have h: "57344 \<le> ?h" "?h \<le> 65472" by auto
  have "class_to_size c \<le> ?h" using s(2) h(1) by linarith
  then show "0 < numBlocksInChunk c" using s(1) unfolding numBlocksInChunk_def by (simp add: div_greater_zero_iff)
  have "numBlocksInChunk c * class_to_size c \<le> ?h" unfolding numBlocksInChunk_def by (rule div_times_less_eq_dividend)
  then show "numBlocksInChunk c * class_to_size c \<le> 65472" using h(2) by linarith
qed

lemma get_size_class_16: "get_size_class 16 = 19"
  by (simp add: get_size_class_def round_up_def Let_def bsr_numeral)

lemma small_class:
  assumes "valid_class c" and "CHUNK_IS_SMALL c"
  shows "class_to_size c = 8" and "batch_size c = 255" and "numBlocksInChunk c = 8152"
proof -
  obtain n where n: "1 \<le> n" "c = get_size_class n" using assms(1) by (auto simp: valid_class_def)
  have c19: "c < 19" using assms(2) by (simp add: CHUNK_IS_SMALL_def get_size_class_16)
  obtain q k where e: "c = 4 * (k + 2) + q" "4 \<le> q" "q < 8" "class_to_size c = (q + 1) * 2 ^ k"
    "(q + 1) * 2 ^ k = round_up (2 ^ k) (round_up 8 n)"
    "2 ^ (k + 2) < round_up 8 n" "round_up 8 n \<le> 2 ^ (k + 3)" "8 \<le> round_up 8 n"
    using get_size_class_eq [OF n(1)] n(2) by metis
  have "4 * (k + 2) + 4 < 19" using c19 e(1,2) by simp
  then have "k < 2" by simp
  then have "k = 0 \<or> k = 1" by linarith
  then have k: "k = 0"
  proof
    assume k: "k = 1"
    have "8 dvd round_up 8 n" by (rule round_up_dvd)
    then have "round_up 8 n = 16" using e(6,7) k by (auto elim!: dvdE)
    then have "q + 1 = 8" using e(5) k by simp
    then show ?thesis using e(1) k c19 by simp
  qed simp
  then have "round_up 8 n = 8" using e(7,8) by simp
  then have "q = 7" using e(5) k by simp
  then show s: "class_to_size c = 8" using e(4) k by simp
  have "c = 15" using e(1) k \<open>q = 7\<close> by simp
  then show "batch_size c = 255" by (simp add: batch_size_def)
  show "numBlocksInChunk c = 8152" using assms(2) s by (simp add: numBlocksInChunk_def)
qed

section \<open>The invariant\<close>

definition tc_ok :: "nat \<Rightarrow> bool \<Rightarrow> thread_cache \<Rightarrow> bool" where
  "tc_ok c pending tc \<longleftrightarrow>
     (if pending then tc = \<lparr>tc_freeList = [], tempList = [], counter = 1\<rparr>
      else tc = tc0 \<or> (0 \<le> counter tc \<and> int (length (tc_freeList tc)) + counter tc = int (batch_size c) + 1 \<and>
             (tempList tc = [] \<or> length (tempList tc) = batch_size c + 1)))"

definition batches :: "nat \<Rightarrow> central_cache \<Rightarrow> nat list list" where
  "batches c cc = (if CHUNK_IS_SMALL c
     then (case chunkWithFreeBatches cc of None \<Rightarrow> []
           | Some (prev, cs, next) \<Rightarrow> sm_batches cs @ concat (map sm_batches prev))
     else firstBatch cc)"

definition sm_ok :: "nat set \<Rightarrow> central_cache \<Rightarrow> bool" where
  "sm_ok chunks cc = (case chunkWithFreeBatches cc of
     None \<Rightarrow> chunks = {}
   | Some (prev, cs, next) \<Rightarrow>
       (\<forall>x \<in> set prev. length (sm_batches x) = NUM_OF_BATCHES_IN_CHUNK_SM) \<and>
       (\<forall>x \<in> set next. sm_batches x = []) \<and>
       length (sm_batches cs) \<le> NUM_OF_BATCHES_IN_CHUNK_SM \<and>
       card chunks = length prev + 1 + length next)"

definition cc_ok :: "nat \<Rightarrow> nat set \<Rightarrow> central_cache \<Rightarrow> bool" where
  "cc_ok c chunks cc \<longleftrightarrow>
     (\<forall>b \<in> set (batches c cc). length b = batch_size c + 1) \<and>
     freeListSize cc = length (cc_freeList cc) \<and> (CHUNK_IS_SMALL c \<longrightarrow> sm_ok chunks cc)"

fun rest_ok :: "nat set \<Rightarrow> (nat \<Rightarrow> nat) \<Rightarrow> nat \<Rightarrow> nat \<Rightarrow> nat \<Rightarrow> (nat \<times> nat) list \<Rightarrow> bool" where
  "rest_ok chunks hook bs lst n [] = (n = 0)"
| "rest_ok chunks hook bs lst n ((a, k) # rs) =
     (a = lst \<and> k = n \<and> 0 < n \<and>
      (\<exists>p \<in> chunks. p < a \<and> a + n * bs = p + CHUNK_SIZE \<and>
         (if hook p = 0 then rs = []
          else rs \<noteq> [] \<and> rest_ok chunks hook bs (hook p) ((CHUNK_SIZE - hook p mod CHUNK_SIZE) div bs) rs)))"

definition rest_blocks :: "nat \<Rightarrow> (nat \<times> nat) list \<Rightarrow> nat list" where
  "rest_blocks bs rest = concat (map (\<lambda>(a, k). grid a bs k) rest)"

fun at_places :: "nat \<Rightarrow> (nat \<Rightarrow> thread_cache) \<Rightarrow> central_cache \<Rightarrow> (nat \<times> nat) list \<Rightarrow> place \<Rightarrow> nat list" where
  "at_places c tcs cc rest (InFree t) = tc_freeList (tcs t)"
| "at_places c tcs cc rest (InTemp t) = tempList (tcs t)"
| "at_places c tcs cc rest InBatch = concat (batches c cc)"
| "at_places c tcs cc rest InShort = cc_freeList cc"
| "at_places c tcs cc rest InRest = rest_blocks (class_to_size c) rest"

definition chunk_blocks :: "nat \<Rightarrow> nat \<Rightarrow> nat list" where
  "chunk_blocks c p = grid (p + CHUNK_SIZE - numBlocksInChunk c * class_to_size c) (class_to_size c) (numBlocksInChunk c)"

definition class_blocks :: "nat \<Rightarrow> nat set \<Rightarrow> nat set" where
  "class_blocks c chunks = (\<Union>p \<in> chunks. set (chunk_blocks c p))"

definition class_inv :: "nat \<Rightarrow> nat set \<Rightarrow> (nat \<Rightarrow> nat) \<Rightarrow> (nat \<Rightarrow> thread_cache) \<Rightarrow> central_cache \<Rightarrow>
    nat set \<Rightarrow> nat set \<Rightarrow> bool" where
  "class_inv c chunks hook tcs cc used pend \<longleftrightarrow>
     finite chunks \<and> (\<forall>p \<in> chunks. CHUNK_SIZE dvd p \<and> p \<noteq> 0) \<and>
     (\<forall>t. tc_ok c (t \<in> pend) (tcs t)) \<and> cc_ok c chunks cc \<and>
     (\<exists>rest. rest_ok chunks hook (class_to_size c) (lastChunk cc) (freeBlocksInLastChunk cc) rest \<and>
        (rest \<noteq> [] \<longrightarrow> batch_size c + 1 < numBlocksInChunk c) \<and>
        placed (at_places c tcs cc rest) used (class_blocks c chunks))"
lemma at_placesI:
  assumes "\<And>u. at (InFree u) = tc_freeList (tcs u)" and "\<And>u. at (InTemp u) = tempList (tcs u)"
    and "at InBatch = concat (batches c cc)" and "at InShort = cc_freeList cc"
    and "at InRest = rest_blocks (class_to_size c) rest"
  shows "at = at_places c tcs cc rest"
proof
  fix pl show "at pl = at_places c tcs cc rest pl" using assms by (cases pl) auto
qed

lemma class_consts [simp]: "NUM_OF_BATCHES_IN_CHUNK_SM = 32" "NUMBER_OF_SIZE_CLASSES = 260"
  by (simp_all add: NUM_OF_BATCHES_IN_CHUNK_SM_def NUMBER_OF_SIZE_CLASSES_def)

section \<open>Batches\<close>

lemma pop_batch_ok:
  assumes "cc_ok c chunks cc"
  shows "\<exists>r cc'. pop_batch c cc = Some (r, cc') \<and> cc_ok c chunks cc' \<and>
    cc_freeList cc' = cc_freeList cc \<and> lastChunk cc' = lastChunk cc \<and>
    freeBlocksInLastChunk cc' = freeBlocksInLastChunk cc \<and>
    batches c cc = (case r of None \<Rightarrow> [] | Some b \<Rightarrow> b # batches c cc') \<and> (r = None \<longrightarrow> cc' = cc)"
proof (cases "CHUNK_IS_SMALL c")
  case False
  with assms show ?thesis
    by (cases "firstBatch cc") (simp_all add: pop_batch_def cc_ok_def batches_def)
next
  case True
  show ?thesis
  proof (cases "chunkWithFreeBatches cc")
    case None
    with True assms show ?thesis by (simp add: pop_batch_def batches_def)
  next
    case (Some z)
    obtain prev cs succ where z: "z = (prev, cs, succ)" by (cases z)
    show ?thesis
    proof (cases "sm_batches cs")
      case (Cons b bs)
      with True Some z assms show ?thesis
        by (simp add: pop_batch_def cc_ok_def batches_def sm_ok_def)
    next
      case cs: Nil
      show ?thesis
      proof (cases prev)
        case Nil
        with True Some z cs assms show ?thesis by (simp add: pop_batch_def batches_def)
      next
        case (Cons cs' prev')
        then have l: "length (sm_batches cs') = 32" using True Some z assms by (simp add: cc_ok_def sm_ok_def)
        then obtain b bs where b: "sm_batches cs' = b # bs" by (cases "sm_batches cs'") auto
        then have "Suc (length bs) = 32" using l by simp
        with b True Some z cs Cons l assms show ?thesis
          by (simp add: pop_batch_def cc_ok_def batches_def sm_ok_def)
      qed
    qed
  qed
qed

lemma sum_list_const: "(\<forall>x \<in> set xs. f x = k) \<Longrightarrow> sum_list (map f xs) = k * length xs" for k :: nat
  by (induction xs) auto

lemma length_batches: "cc_ok c chunks cc \<Longrightarrow>
    length (concat (batches c cc)) = (batch_size c + 1) * length (batches c cc)"
  unfolding length_concat by (rule sum_list_const) (simp add: cc_ok_def)

text \<open>There is always an array with room: a chunk of smallest blocks has fewer blocks than 32 batches.\<close>

lemma add_batch_ok:
  assumes ok: "cc_ok c chunks cc" and v: "valid_class c" and b: "length b = batch_size c + 1"
    and room: "length (b @ concat (batches c cc)) \<le> card chunks * numBlocksInChunk c"
  shows "\<exists>cc'. add_batch_to_central_cache cc c b = Some cc' \<and> cc_ok c chunks cc' \<and>
    cc_freeList cc' = cc_freeList cc \<and> lastChunk cc' = lastChunk cc \<and>
    freeBlocksInLastChunk cc' = freeBlocksInLastChunk cc \<and> freeListSize cc' = freeListSize cc \<and>
    batches c cc' = b # batches c cc"
proof (cases "CHUNK_IS_SMALL c")
  case False
  with assms show ?thesis by (simp add: add_batch_to_central_cache_def cc_ok_def batches_def)
next
  case True
  have sm: "sm_ok chunks cc" using ok True by (simp add: cc_ok_def)
  have room: "256 * Suc (length (batches c cc)) \<le> card chunks * 8152"
    using room b length_batches [OF ok] small_class [OF v True] by simp
  then obtain prev cs succ where z: "chunkWithFreeBatches cc = Some (prev, cs, succ)"
    using sm by (cases "chunkWithFreeBatches cc") (auto simp: sm_ok_def)
  have len: "length (concat (map sm_batches prev)) = 32 * length prev"
    using sm z unfolding length_concat by (simp add: sm_ok_def sum_list_const o_def)
  show ?thesis
  proof (cases "length (sm_batches cs) = 32")
    case False
    with True ok sm z b show ?thesis
      by (simp add: add_batch_to_central_cache_def cc_ok_def batches_def sm_ok_def)
  next
    case full: True
    have "batches c cc = sm_batches cs @ concat (map sm_batches prev)" using True z by (simp add: batches_def)
    then have "length (batches c cc) = 32 + 32 * length prev" using full len by simp
    then have "succ \<noteq> []" using room sm z by (auto simp: sm_ok_def)
    then obtain cs' succ' where s: "succ = cs' # succ'" by (cases succ) auto
    then have "sm_batches cs' = []" using sm z by (simp add: sm_ok_def)
    with True ok sm z s full b show ?thesis
      by (simp add: add_batch_to_central_cache_def cc_ok_def batches_def sm_ok_def)
  qed
qed

section \<open>Blocks of chunks\<close>

lemma chunk_blocks_bounds:
  assumes "valid_class c" and "b \<in> set (chunk_blocks c p)"
  shows "p + 64 \<le> b" and "b + class_to_size c \<le> p + CHUNK_SIZE"
proof -
  note n = numBlocks [OF assms(1)]
  have "p + CHUNK_SIZE - numBlocksInChunk c * class_to_size c \<le> b \<and>
    b + class_to_size c \<le> p + CHUNK_SIZE - numBlocksInChunk c * class_to_size c + numBlocksInChunk c * class_to_size c"
    using grid_bounds [OF assms(2) [unfolded chunk_blocks_def]] .
  then show "p + 64 \<le> b" and "b + class_to_size c \<le> p + CHUNK_SIZE" using n(2) by auto
qed

lemma chunk_of_block:
  assumes "valid_class c" and "b \<in> set (chunk_blocks c p)" and "CHUNK_SIZE dvd p"
  shows "chunk_of b = p" and "b mod CHUNK_SIZE \<noteq> 0"
proof -
  obtain j where p: "p = CHUNK_SIZE * j" using assms(3) by (rule dvdE)
  have b: "p + 64 \<le> b" "b < p + CHUNK_SIZE"
    using chunk_blocks_bounds [OF assms(1,2)] valid_size [OF assms(1)] by auto
  then obtain i where i: "b = p + i" "64 \<le> i" "i < CHUNK_SIZE"
    using le_Suc_ex [of p b] by (metis add_leD1 nat_add_left_cancel_le nat_add_left_cancel_less)
  have m: "b mod CHUNK_SIZE = i" unfolding i(1) p using i(3) by (simp only: mod_mult_self4 mod_less)
  show "chunk_of b = p" unfolding chunk_of_def m using i(1) by simp
  show "b mod CHUNK_SIZE \<noteq> 0" unfolding m using i(2) by simp
qed

lemma class_blocks_finite: "finite chunks \<Longrightarrow> finite (class_blocks c chunks)"
  by (simp add: class_blocks_def)

lemma card_class_blocks:
  assumes "finite chunks"
  shows "card (class_blocks c chunks) \<le> card chunks * numBlocksInChunk c"
proof -
  have "card (class_blocks c chunks) \<le> (\<Sum>p\<in>chunks. card (set (chunk_blocks c p)))"
    unfolding class_blocks_def by (rule card_UN_le [OF assms])
  also have "\<dots> \<le> (\<Sum>p\<in>chunks. numBlocksInChunk c)"
    by (rule sum_mono) (metis card_length chunk_blocks_def length_grid)
  finally show ?thesis by simp
qed

lemma placed_room:
  assumes "placed at used (class_blocks c chunks)" and "finite chunks" and "pl \<noteq> ql"
  shows "length (at pl @ at ql) \<le> card chunks * numBlocksInChunk c"
proof -
  have "distinct (at pl @ at ql)"
    using placedD(1) [OF assms(1)] placed_apart [OF assms(1,3)] by simp
  then have "length (at pl @ at ql) = card (set (at pl @ at ql))" by (rule distinct_card [symmetric])
  also have "\<dots> \<le> card (class_blocks c chunks)"
    using placedD(3) [OF assms(1), of pl] placedD(3) [OF assms(1), of ql]
    by (intro card_mono class_blocks_finite assms) simp
  finally show ?thesis using card_class_blocks [OF assms(2), of c] by linarith
qed

end
