(* ===== verification/LtOps.thy ===== *)
theory LtOps
  imports LtInv
begin

text \<open>
  Every operation on one class of ltalloc keeps the invariant of LtInv, fails no assertion and
  hands out only blocks that were not in use.
\<close>

lemma grid_append: "grid p w (m + n) = grid p w m @ grid (p + m * w) w n"
proof (induction m arbitrary: p)
  case (Suc m)
  have "grid p w (Suc m + n) = p # grid (p + w) w (m + n)" by (simp add: grid_Cons)
  also have "\<dots> = grid p w (Suc m) @ grid (p + Suc m * w) w n"
    using Suc [of "p + w"] by (simp add: grid_Cons algebra_simps)
  finally show ?case .
qed simp

lemma tl_grid: "0 < n \<Longrightarrow> tl (grid p w n) = grid (p + w) w (n - 1)"
  by (cases n) (simp_all add: grid_Cons)

lemma hd_grid: "0 < n \<Longrightarrow> hd (grid p w n) = p"
  by (cases n) (simp_all add: grid_Cons)

lemma grid_nonempty: "0 < n \<Longrightarrow> grid p w n \<noteq> []"
  by (cases n) (simp_all add: grid_Cons)

section \<open>Uncut rests\<close>

lemma rest_first:
  assumes "rest_ok chunks hook bs a n rest" and "n \<noteq> 0" and "0 < bs" and "\<forall>p \<in> chunks. CHUNK_SIZE dvd p"
  obtains p rs where "rest = (a, n) # rs" and "p \<in> chunks" and "p < a" and "a + n * bs = p + CHUNK_SIZE"
    and "(CHUNK_SIZE - a mod CHUNK_SIZE) div bs = n"
    and "if hook p = 0 then rs = []
         else rs \<noteq> [] \<and> rest_ok chunks hook bs (hook p) ((CHUNK_SIZE - hook p mod CHUNK_SIZE) div bs) rs"
proof -
  obtain rs p where r: "rest = (a, n) # rs" "p \<in> chunks" "p < a" "a + n * bs = p + CHUNK_SIZE"
    "if hook p = 0 then rs = []
     else rs \<noteq> [] \<and> rest_ok chunks hook bs (hook p) ((CHUNK_SIZE - hook p mod CHUNK_SIZE) div bs) rs"
    using assms(1,2) by (cases rest) auto
  obtain j where p: "p = CHUNK_SIZE * j" using assms(4) r(2) by (auto elim: dvdE)
  obtain i where i: "a = p + i" using r(3) less_imp_add_positive by blast
  have "0 < n * bs" using assms(2,3) by simp
  then have "i < CHUNK_SIZE" using r(4) i by linarith
  then have "a mod CHUNK_SIZE = i" unfolding i p by (simp only: mod_mult_self4 mod_less)
  moreover have "CHUNK_SIZE - i = n * bs" using r(4) i by linarith
  ultimately have "(CHUNK_SIZE - a mod CHUNK_SIZE) div bs = n" using assms(3) by simp
  with r show thesis by (intro that) auto
qed

lemma rest_ok_mono:
  "rest_ok chunks hook bs a n rest \<Longrightarrow> chunks \<subseteq> chunks' \<Longrightarrow> (\<And>p. p \<in> chunks \<Longrightarrow> hook' p = hook p) \<Longrightarrow>
   rest_ok chunks' hook' bs a n rest"
proof (induction chunks hook bs a n rest rule: rest_ok.induct)
  case (2 chunks hook bs lst n a k rs)
  then obtain p where p: "p \<in> chunks" "p < a" "a + n * bs = p + CHUNK_SIZE"
    "if hook p = 0 then rs = []
     else rs \<noteq> [] \<and> rest_ok chunks hook bs (hook p) ((CHUNK_SIZE - hook p mod CHUNK_SIZE) div bs) rs"
    "a = lst" "k = n" "0 < n" by auto
  have h: "hook' p = hook p" "p \<in> chunks'" using "2.prems" p(1) by auto
  then have "if hook' p = 0 then rs = []
     else rs \<noteq> [] \<and> rest_ok chunks' hook' bs (hook' p) ((CHUNK_SIZE - hook' p mod CHUNK_SIZE) div bs) rs"
    using p(1,4) "2.IH" [OF p(1)] "2.prems"(2,3) by auto
  with p h show ?case by auto
qed simp

section \<open>Taking blocks\<close>

text \<open>The outcome of a request that found the free list empty.\<close>

definition fetched_ok :: "nat \<Rightarrow> nat set \<Rightarrow> (nat \<Rightarrow> nat) \<Rightarrow> (nat \<Rightarrow> thread_cache) \<Rightarrow> nat \<Rightarrow>
    nat set \<Rightarrow> nat set \<Rightarrow> fetched \<times> thread_cache \<times> central_cache \<Rightarrow> bool" where
  "fetched_ok c chunks hook tcs t used pend = (\<lambda>(r, tc, cc).
     (case r of
        Block p \<Rightarrow> p \<notin> used \<and> p \<in> class_blocks c chunks \<and>
          class_inv c chunks hook (tcs(t := tc)) cc (insert p used) pend
      | NewChunk \<Rightarrow> class_inv c chunks hook (tcs(t := tc)) cc used (insert t pend)
      | Region n \<Rightarrow> False))"

lemma class_invI:
  assumes "finite chunks" and "\<forall>p \<in> chunks. CHUNK_SIZE dvd p \<and> p \<noteq> 0"
    and "\<forall>u. tc_ok c (u \<in> pend) (tcs u)" and "cc_ok c chunks cc"
    and "rest_ok chunks hook (class_to_size c) (lastChunk cc) (freeBlocksInLastChunk cc) rest"
    and "rest \<noteq> [] \<longrightarrow> batch_size c + 1 < numBlocksInChunk c"
    and "placed at used (class_blocks c chunks)" and "at = at_places c tcs cc rest"
  shows "class_inv c chunks hook tcs cc used pend"
  using assms unfolding class_inv_def by blast

lemma class_invE:
  assumes "class_inv c chunks hook tcs cc used pend"
  obtains rest where "finite chunks" and "\<forall>p \<in> chunks. CHUNK_SIZE dvd p \<and> p \<noteq> 0"
    and "\<forall>u. tc_ok c (u \<in> pend) (tcs u)" and "cc_ok c chunks cc"
    and "rest_ok chunks hook (class_to_size c) (lastChunk cc) (freeBlocksInLastChunk cc) rest"
    and "rest \<noteq> [] \<longrightarrow> batch_size c + 1 < numBlocksInChunk c"
    and "placed (at_places c tcs cc rest) used (class_blocks c chunks)"
  using assms unfolding class_inv_def by blast

text \<open>A list of one place goes to a thread without blocks: its first block to the user.\<close>

lemma fetched_block:
  assumes P: "placed (at_places c tcs cc rest) used (class_blocks c chunks)"
    and fin: "finite chunks" "\<forall>p \<in> chunks. CHUNK_SIZE dvd p \<and> p \<noteq> 0"
    and tcs: "\<forall>u. tc_ok c (u \<in> pend) (tcs u)"
    and cc: "cc_ok c chunks cc'"
    and rest: "rest_ok chunks hook (class_to_size c) (lastChunk cc') (freeBlocksInLastChunk cc') rest'"
      "rest' \<noteq> [] \<longrightarrow> batch_size c + 1 < numBlocksInChunk c"
    and t: "t \<notin> pend" "tc_freeList (tcs t) = []"
    and q: "InFree t \<noteq> ql"
    and b: "b \<noteq> []" "set (at_places c tcs cc rest ql) = set b \<union> set r" "distinct (b @ r)"
    and tc: "tc_freeList tc' = tl b" "counter tc' = int (batch_size c) + 2 - int (length b)" "0 \<le> counter tc'"
      "tempList tc' = [] \<or> length (tempList tc') = batch_size c + 1"
    and at': "(at_places c tcs cc rest)(InFree t := tl b, ql := r) = at_places c (tcs(t := tc')) cc' rest'"
  shows "fetched_ok c chunks hook tcs t used pend (Block (hd b), tc', cc')"
proof -
  have "hd b \<in> set (at_places c tcs cc rest ql)" using b(1,2) by auto
  then have fresh: "hd b \<notin> used" "hd b \<in> class_blocks c chunks"
    using placedD [OF P, of ql] by auto
  have "placed ((at_places c tcs cc rest)(InFree t := tl b, ql := r)) (insert (hd b) used) (class_blocks c chunks)"
    using t b by (intro placed_fetch [OF P q]) auto
  then have P': "placed (at_places c (tcs(t := tc')) cc' rest') (insert (hd b) used) (class_blocks c chunks)"
    by (simp only: at')
  have "int (length (tl b)) = int (length b) - 1" using b(1) by (cases b) auto
  then have "tc_ok c (t \<in> pend) tc'" using tc t by (simp add: tc_ok_def)
  then have tcs': "\<forall>u. tc_ok c (u \<in> pend) ((tcs(t := tc')) u)" using tcs by simp
  show ?thesis unfolding fetched_ok_def prod.case fetched.case
    using fresh class_invI [OF fin tcs' cc rest P' refl] by blast
qed

lemma take_last_ok:
  assumes v: "valid_class c"
    and P: "placed (at_places c tcs cc rest) used (class_blocks c chunks)"
    and fin: "finite chunks" "\<forall>p \<in> chunks. CHUNK_SIZE dvd p \<and> p \<noteq> 0"
    and tcs: "\<forall>u. tc_ok c (u \<in> pend) (tcs u)" and cc: "cc_ok c chunks cc"
    and rest: "rest_ok chunks hook (class_to_size c) (lastChunk cc) (freeBlocksInLastChunk cc) rest"
      "rest \<noteq> [] \<longrightarrow> batch_size c + 1 < numBlocksInChunk c"
    and t: "t \<notin> pend" "tc_freeList (tcs t) = []"
    and free: "freeBlocksInLastChunk cc \<noteq> 0"
    and tc: "tc_freeList tc = []" "tempList tc = tempList (tcs t)" "counter tc = 1" "tempList (tcs t) = []"
  shows "\<exists>x. take_last hook c tc cc = Some x \<and> fetched_ok c chunks hook tcs t used pend x"
proof -
  define bs where "bs = class_to_size c"
  define a n where "a = lastChunk cc" and "n = freeBlocksInLastChunk cc"
  define B where "B = batch_size c + 1"
  define m where "m = (if n < B then n else B)"
  have bs: "0 < bs" using valid_size [OF v] by (simp add: bs_def)
  obtain p rs where r: "rest = (a, n) # rs" "p \<in> chunks" "p < a" "a + n * bs = p + CHUNK_SIZE"
    "(CHUNK_SIZE - a mod CHUNK_SIZE) div bs = n"
    "if hook p = 0 then rs = []
     else rs \<noteq> [] \<and> rest_ok chunks hook bs (hook p) ((CHUNK_SIZE - hook p mod CHUNK_SIZE) div bs) rs"
    using rest_first [OF rest(1) free] bs fin(2) unfolding bs_def [symmetric] a_def [symmetric] n_def [symmetric]
    by blast
  have m: "0 < m" "m \<le> n" "m \<le> B" using free by (auto simp: m_def n_def B_def)
  define b where "b = grid a bs m"
  have g: "grid a bs n = b @ grid (a + m * bs) bs (n - m)"
    using grid_append [of a bs m "n - m"] m by (simp add: b_def)
  define tc' where "tc' = tc\<lparr>counter := int B - int m + 1, tc_freeList := tl b\<rparr>"
  have tc1: "(if n < B then tc\<lparr>counter := int B - int n + 1\<rparr> else tc)\<lparr>tc_freeList := tl (grid a bs m)\<rparr> = tc'"
    using tc(3) by (simp add: tc'_def m_def b_def)
  have dist: "distinct (at_places c tcs cc rest InRest)" using placedD(1) [OF P] .
  have bl: "at_places c tcs cc rest InRest = b @ grid (a + m * bs) bs (n - m) @ rest_blocks bs rs"
    by (simp add: r(1) rest_blocks_def g flip: bs_def)
  have hb: "hd b = a" "b \<noteq> []" using m by (simp_all add: b_def hd_grid grid_nonempty)
  note F = fetched_block [OF P fin tcs _ _ _ t, where ql = InRest and b = b and tc' = tc', unfolded hb(1)]
  have tc'_ok: "tc_freeList tc' = tl b" "counter tc' = int (batch_size c) + 2 - int (length b)" "0 \<le> counter tc'"
    "tempList tc' = []" using m tc by (auto simp: tc'_def B_def b_def)
  have step: "a \<noteq> 0" "\<not> n \<noteq> (CHUNK_SIZE - a mod CHUNK_SIZE) div bs" using r(3,5) by auto
  note T = take_last_def [of hook c tc cc, folded bs_def a_def n_def B_def]
  show ?thesis
  proof (cases "n - m = 0")
    case True
    have e: "a + bs * m = p + CHUNK_SIZE" using True m r(4) by (simp add: mult.commute)
    have pm: "(p + CHUNK_SIZE) mod CHUNK_SIZE = 0" using fin(2) r(2) by simp
    define cc' where "cc' = cc\<lparr>lastChunk := hook p, freeBlocksInLastChunk :=
      if hook p = 0 then 0 else (CHUNK_SIZE - hook p mod CHUNK_SIZE) div bs\<rparr>"
    have x: "take_last hook c tc cc = Some (Block a, tc', cc')"
      using step True e pm tc1 unfolding T cc'_def m_def [symmetric] Let_def by simp
    have "fetched_ok c chunks hook tcs t used pend (Block a, tc', cc')"
    proof (rule F [where r = "rest_blocks bs rs" and rest' = rs])
      show "cc_ok c chunks cc'" using cc by (simp add: cc_ok_def cc'_def batches_def sm_ok_def)
      show "rest_ok chunks hook (class_to_size c) (lastChunk cc') (freeBlocksInLastChunk cc') rs"
        using r(6) by (cases "hook p = 0") (simp_all add: cc'_def bs_def)
      show "rs \<noteq> [] \<longrightarrow> batch_size c + 1 < numBlocksInChunk c" using rest(2) r(1) by simp
      show "set (at_places c tcs cc rest InRest) = set b \<union> set (rest_blocks bs rs)"
        using True m unfolding bl by simp
      show "distinct (b @ rest_blocks bs rs)" using dist unfolding bl by auto
      show "(at_places c tcs cc rest)(InFree t := tl b, InRest := rest_blocks bs rs) =
          at_places c (tcs(t := tc')) cc' rs"
        using tc'_ok tc t by (intro at_placesI) (auto simp: cc'_def batches_def bs_def)
    qed (use hb tc'_ok in auto)
    with x show ?thesis by blast
  next
    case False
    define cc' where "cc' = cc\<lparr>lastChunk := a + bs * m, freeBlocksInLastChunk := n - m\<rparr>"
    have x: "take_last hook c tc cc = Some (Block a, tc', cc')"
      using step False tc1 unfolding T cc'_def m_def [symmetric] Let_def by simp
    let ?rest = "(a + m * bs, n - m) # rs"
    have e: "a + m * bs + (n - m) * bs = p + CHUNK_SIZE"
      using r(4) m(2) by (simp flip: add_mult_distrib add.assoc add: add.commute [of "m * bs"] algebra_simps)
    have "fetched_ok c chunks hook tcs t used pend (Block a, tc', cc')"
    proof (rule F [where r = "rest_blocks bs ?rest" and rest' = "?rest"])
      show "cc_ok c chunks cc'" using cc by (simp add: cc_ok_def cc'_def batches_def sm_ok_def)
      show "rest_ok chunks hook (class_to_size c) (lastChunk cc') (freeBlocksInLastChunk cc') ?rest"
        unfolding bs_def [symmetric] cc'_def using False r(2,3,6) e by (auto simp: mult.commute)
      show "?rest \<noteq> [] \<longrightarrow> batch_size c + 1 < numBlocksInChunk c" using rest(2) r(1) by simp
      show "set (at_places c tcs cc rest InRest) = set b \<union> set (rest_blocks bs ?rest)"
        unfolding bl by (auto simp: rest_blocks_def)
      show "distinct (b @ rest_blocks bs ?rest)" using dist unfolding bl by (simp add: rest_blocks_def)
      show "(at_places c tcs cc rest)(InFree t := tl b, InRest := rest_blocks bs ?rest) =
          at_places c (tcs(t := tc')) cc' ?rest"
        using tc'_ok tc t by (intro at_placesI) (auto simp: cc'_def batches_def bs_def)
    qed (use hb tc'_ok in auto)
    with x show ?thesis by blast
  qed
qed
lemma take_short_ok:
  assumes v: "valid_class c"
    and P: "placed (at_places c tcs cc rest) used (class_blocks c chunks)"
    and fin: "finite chunks" "\<forall>p \<in> chunks. CHUNK_SIZE dvd p \<and> p \<noteq> 0"
    and tcs: "\<forall>u. tc_ok c (u \<in> pend) (tcs u)" and cc: "cc_ok c chunks cc"
    and rest: "rest_ok chunks hook (class_to_size c) (lastChunk cc) (freeBlocksInLastChunk cc) rest"
      "rest \<noteq> [] \<longrightarrow> batch_size c + 1 < numBlocksInChunk c"
    and t: "t \<notin> pend" "tc_freeList (tcs t) = []"
    and free: "cc_freeList cc \<noteq> []"
    and tc: "tc_freeList tc = []" "tempList tc = tempList (tcs t)" "counter tc = 1" "tempList (tcs t) = []"
  shows "\<exists>x. take_short c tc cc = Some x \<and> fetched_ok c chunks hook tcs t used pend x"
proof -
  define B where "B = batch_size c + 1"
  define l where "l = cc_freeList cc"
  have l: "freeListSize cc = length l" "l \<noteq> []" using cc free by (simp_all add: cc_ok_def l_def)
  have dist: "distinct l" using placedD(1) [OF P, of InShort] by (simp add: l_def)
  note F = fetched_block [OF P fin tcs _ _ rest(2) t, where ql = InShort]
  show ?thesis
  proof (cases "length l \<le> B + 1")
    case True
    define tc' where "tc' = tc\<lparr>counter := int B - int (length l) + 1, tc_freeList := tl l\<rparr>"
    define cc' where "cc' = cc\<lparr>freeListSize := 0, cc_freeList := []\<rparr>"
    have x: "take_short c tc cc = Some (Block (hd l), tc', cc')"
      using l True unfolding take_short_def tc'_def cc'_def B_def l_def Let_def by simp
    have "fetched_ok c chunks hook tcs t used pend (Block (hd l), tc', cc')"
    proof (rule F [where r = "[]"])
      show "cc_ok c chunks cc'" using cc by (simp add: cc_ok_def cc'_def batches_def sm_ok_def)
      show "rest_ok chunks hook (class_to_size c) (lastChunk cc') (freeBlocksInLastChunk cc') rest"
        using rest(1) by (simp add: cc'_def)
      show "(at_places c tcs cc rest)(InFree t := tl l, InShort := []) = at_places c (tcs(t := tc')) cc' rest"
        using tc t by (intro at_placesI) (auto simp: cc'_def tc'_def batches_def)
    qed (use l True tc dist in \<open>auto simp: tc'_def B_def l_def\<close>)
    with x show ?thesis by blast
  next
    case False
    define tc' where "tc' = tc\<lparr>tc_freeList := tl (take B l)\<rparr>"
    define cc' where "cc' = cc\<lparr>freeListSize := length l - B, cc_freeList := drop B l\<rparr>"
    have x: "take_short c tc cc = Some (Block (hd (take B l)), tc', cc')"
      using l False unfolding take_short_def tc'_def cc'_def B_def l_def Let_def by simp
    have len: "length (take B l) = B" using False by simp
    have "fetched_ok c chunks hook tcs t used pend (Block (hd (take B l)), tc', cc')"
    proof (rule F [where r = "drop B l"])
      show "cc_ok c chunks cc'" using cc by (simp add: cc_ok_def cc'_def batches_def sm_ok_def)
      show "rest_ok chunks hook (class_to_size c) (lastChunk cc') (freeBlocksInLastChunk cc') rest"
        using rest(1) by (simp add: cc'_def)
      show "set (at_places c tcs cc rest InShort) = set (take B l) \<union> set (drop B l)"
        by (simp add: l_def flip: set_append)
      show "distinct (take B l @ drop B l)" using dist by simp
      show "take B l \<noteq> []" using l(2) by (simp add: B_def)
      show "(at_places c tcs cc rest)(InFree t := tl (take B l), InShort := drop B l) =
          at_places c (tcs(t := tc')) cc' rest"
        using tc t by (intro at_placesI) (auto simp: cc'_def tc'_def batches_def)
    qed (use len tc in \<open>auto simp: tc'_def B_def\<close>)
    with x show ?thesis by blast
  qed
qed

lemma fetch_ok:
  assumes v: "valid_class c" and inv: "class_inv c chunks hook tcs cc used pend"
    and t: "t \<notin> pend" "tc_freeList (tcs t) = []"
  shows "\<exists>x. fetch_from_central_cache hook c (tcs t) cc = Some x \<and> fetched_ok c chunks hook tcs t used pend x"
proof -
  obtain rest where I: "finite chunks" "\<forall>p \<in> chunks. CHUNK_SIZE dvd p \<and> p \<noteq> 0"
    "\<forall>u. tc_ok c (u \<in> pend) (tcs u)" "cc_ok c chunks cc"
    "rest_ok chunks hook (class_to_size c) (lastChunk cc) (freeBlocksInLastChunk cc) rest"
    "rest \<noteq> [] \<longrightarrow> batch_size c + 1 < numBlocksInChunk c"
    "placed (at_places c tcs cc rest) used (class_blocks c chunks)"
    using class_invE [OF inv] by blast
  note P = I(7)
  have tc: "tc_ok c False (tcs t)" using I(3) t(1) by (auto dest: spec [of _ t])
  show ?thesis
  proof (cases "tempList (tcs t) = []")
    case False
    let ?l = "tempList (tcs t)"
    define tc' where "tc' = (tcs t)\<lparr>counter := 1, tc_freeList := tl ?l, tempList := []\<rparr>"
    have n: "counter (tcs t) = int (batch_size c) + 1" "length ?l = batch_size c + 1"
      using tc False t(2) by (auto simp: tc_ok_def tc0_def)
    have x: "fetch_from_central_cache hook c (tcs t) cc = Some (Block (hd ?l), tc', cc)"
      using False n(1) by (simp add: fetch_from_central_cache_def take_temp_def tc'_def)
    have "fetched_ok c chunks hook tcs t used pend (Block (hd ?l), tc', cc)"
    proof (rule fetched_block [OF P I(1,2,3,4,5,6) t, where ql = "InTemp t" and r = "[]"])
      show "(at_places c tcs cc rest)(InFree t := tl ?l, InTemp t := []) = at_places c (tcs(t := tc')) cc rest"
        by (intro at_placesI) (auto simp: tc'_def)
      show "distinct (?l @ [])" using placedD(1) [OF P, of "InTemp t"] by simp
    qed (use False n in \<open>auto simp: tc'_def\<close>)
    with x show ?thesis by blast
  next
    case True
    have cnt: "counter (tcs t) = 0 \<or> counter (tcs t) = int (batch_size c) + 1"
      using tc t(2) by (auto simp: tc_ok_def tc0_def)
    define tc1 where "tc1 = (tcs t)\<lparr>counter := 1\<rparr>"
    have tc1: "tc_freeList tc1 = []" "tempList tc1 = tempList (tcs t)" "counter tc1 = 1"
      using t(2) by (simp_all add: tc1_def)
    have e: "fetch_from_central_cache hook c (tcs t) cc =
        (case pop_batch c cc of None \<Rightarrow> None
         | Some (Some b, cc) \<Rightarrow> Some (Block (hd b), tc1\<lparr>tc_freeList := tl b\<rparr>, cc)
         | Some (None, cc) \<Rightarrow> no_free_batch hook c tc1 cc)"
    proof -
      have "(counter (tcs t) \<noteq> 0 \<and> counter (tcs t) \<noteq> int (batch_size c) + 1) = False" using cnt by blast
      then show ?thesis using True unfolding fetch_from_central_cache_def tc1_def Let_def
        by (simp only: if_False simp_thms)
    qed
    obtain r cc' where pop: "pop_batch c cc = Some (r, cc')" "cc_ok c chunks cc'"
      "cc_freeList cc' = cc_freeList cc" "lastChunk cc' = lastChunk cc"
      "freeBlocksInLastChunk cc' = freeBlocksInLastChunk cc"
      "batches c cc = (case r of None \<Rightarrow> [] | Some b \<Rightarrow> b # batches c cc')" "r = None \<longrightarrow> cc' = cc"
      using pop_batch_ok [OF I(4)] by blast
    show ?thesis
    proof (cases r)
      case (Some b)
      have b: "length b = batch_size c + 1" using I(4) pop(6) Some by (simp add: cc_ok_def)
      have "distinct (concat (batches c cc))" using placedD(1) [OF P, of InBatch] by simp
      then have d: "distinct (b @ concat (batches c cc'))" using pop(6) Some by simp
      define tc' where "tc' = tc1\<lparr>tc_freeList := tl b\<rparr>"
      have x: "fetch_from_central_cache hook c (tcs t) cc = Some (Block (hd b), tc', cc')"
        unfolding e pop(1) tc'_def using Some by simp
      have "fetched_ok c chunks hook tcs t used pend (Block (hd b), tc', cc')"
      proof (rule fetched_block [OF P I(1,2,3) pop(2) _ I(6) t, where ql = InBatch and r = "concat (batches c cc')"])
        show "rest_ok chunks hook (class_to_size c) (lastChunk cc') (freeBlocksInLastChunk cc') rest"
          using I(5) pop by simp
        show "(at_places c tcs cc rest)(InFree t := tl b, InBatch := concat (batches c cc')) =
            at_places c (tcs(t := tc')) cc' rest"
          using pop True by (intro at_placesI) (auto simp: tc'_def tc1_def)
        show "b \<noteq> []" using b by auto
      qed (use d b True pop(6) Some in \<open>auto simp: tc'_def tc1_def\<close>)
      with x show ?thesis by blast
    next
      case None
      then have cc': "cc' = cc" using pop(7) by simp
      have e': "fetch_from_central_cache hook c (tcs t) cc = no_free_batch hook c tc1 cc"
        unfolding e pop(1) None cc' by simp
      consider "cc_freeList cc \<noteq> []" | "cc_freeList cc = []" "freeBlocksInLastChunk cc \<noteq> 0"
        | "cc_freeList cc = []" "freeBlocksInLastChunk cc = 0" by blast
      then show ?thesis
      proof cases
        case 1
        then show ?thesis unfolding e' no_free_batch_def
          using take_short_ok [OF v P I(1-6) t 1 tc1 True] by simp
      next
        case 2
        then show ?thesis unfolding e' no_free_batch_def
          using take_last_ok [OF v P I(1-6) t 2(2) tc1 True] by simp
      next
        case 3
        have x: "fetch_from_central_cache hook c (tcs t) cc = Some (NewChunk, tc1, cc)"
          unfolding e' no_free_batch_def using 3 by simp
        have p: "tc1 = \<lparr>tc_freeList = [], tempList = [], counter = 1\<rparr>" using t(2) True by (simp add: tc1_def)
        have "class_inv c chunks hook (tcs(t := tc1)) cc used (insert t pend)"
        proof (rule class_invI [OF I(1,2) _ I(4,5,6) P])
          have "tc_ok c True tc1" using p by (simp add: tc_ok_def)
          then show "\<forall>u. tc_ok c (u \<in> insert t pend) ((tcs(t := tc1)) u)" using I(3) by auto
          show "at_places c tcs cc rest = at_places c (tcs(t := tc1)) cc rest"
            using t(2) True by (intro at_placesI) (auto simp: p)
        qed
        with x show ?thesis by (auto simp: fetched_ok_def)
      qed
    qed
  qed
qed

text \<open>The fast path.\<close>

lemma pop_free_ok:
  assumes inv: "class_inv c chunks hook tcs cc used pend" and t: "tc_freeList (tcs t) = p # ps"
  shows "fetched_ok c chunks hook tcs t used pend
    (Block p, (tcs t)\<lparr>tc_freeList := ps, counter := counter (tcs t) + 1\<rparr>, cc)"
proof -
  obtain rest where I: "finite chunks" "\<forall>p \<in> chunks. CHUNK_SIZE dvd p \<and> p \<noteq> 0"
    "\<forall>u. tc_ok c (u \<in> pend) (tcs u)" "cc_ok c chunks cc"
    "rest_ok chunks hook (class_to_size c) (lastChunk cc) (freeBlocksInLastChunk cc) rest"
    "rest \<noteq> [] \<longrightarrow> batch_size c + 1 < numBlocksInChunk c"
    "placed (at_places c tcs cc rest) used (class_blocks c chunks)"
    using class_invE [OF inv] by blast
  define tc' where "tc' = (tcs t)\<lparr>tc_freeList := ps, counter := counter (tcs t) + 1\<rparr>"
  have "tc_ok c (t \<in> pend) (tcs t)" using I(3) by blast
  then have "tc_ok c (t \<in> pend) tc'" using t by (auto simp: tc_ok_def tc'_def tc0_def split: if_splits)
  then have tcs': "\<forall>u. tc_ok c (u \<in> pend) ((tcs(t := tc')) u)" using I(3) by simp
  have at1: "at_places c tcs cc rest (InFree t) = p # ps" using t by simp
  have fresh: "p \<notin> used" "p \<in> class_blocks c chunks"
    using placedD(2,3) [OF I(7), of "InFree t"] unfolding at1 by auto
  have "class_inv c chunks hook (tcs(t := tc')) cc (insert p used) pend"
    by (rule class_invI [OF I(1,2) tcs' I(4-6) placed_take [OF I(7) at1]])
      (intro at_placesI; auto simp: tc'_def)
  then show ?thesis using fresh by (simp add: fetched_ok_def tc'_def)
qed
section \<open>A new chunk\<close>

lemma finite_sm_insert:
  assumes "sm_ok chunks cc" and "finite chunks" and "p \<notin> chunks"
  shows "sm_ok (insert p chunks) (insert_sm p cc)"
  using assms by (auto simp: sm_ok_def insert_sm_def split: option.splits prod.splits)

lemma batches_insert_sm:
  "CHUNK_IS_SMALL c \<Longrightarrow> batches c (insert_sm p cc) = batches c cc"
  by (auto simp: batches_def insert_sm_def split: option.splits)

lemma install_ok:
  assumes v: "valid_class c" and inv: "class_inv c chunks hook tcs cc used pend"
    and t: "t \<in> pend" and p: "CHUNK_SIZE dvd p" "p \<noteq> 0" "p \<notin> chunks" "hook p = 0"
  obtains fb tc' cc' hook' where "install_chunk c p hook (tcs t) cc = (fb, tc', cc', hook')"
    and "fb \<notin> class_blocks c chunks" and "fb \<in> set (chunk_blocks c p)"
    and "class_inv c (insert p chunks) hook' (tcs(t := tc')) cc' (insert fb used) (pend - {t})"
    and "\<And>q. q \<noteq> p \<Longrightarrow> hook' q = hook q"
proof -
  obtain rest where I: "finite chunks" "\<forall>p \<in> chunks. CHUNK_SIZE dvd p \<and> p \<noteq> 0"
    "\<forall>u. tc_ok c (u \<in> pend) (tcs u)" "cc_ok c chunks cc"
    "rest_ok chunks hook (class_to_size c) (lastChunk cc) (freeBlocksInLastChunk cc) rest"
    "rest \<noteq> [] \<longrightarrow> batch_size c + 1 < numBlocksInChunk c"
    "placed (at_places c tcs cc rest) used (class_blocks c chunks)"
    using class_invE [OF inv] by blast
  note P = I(7)
  define bs N B where "bs = class_to_size c" and "N = numBlocksInChunk c" and "B = batch_size c + 1"
  define n where "n = (if N < B then N else B)"
  define fb where "fb = p + CHUNK_SIZE - N * bs"
  have bs: "0 < bs" "8 \<le> bs" using valid_size [OF v] by (simp_all add: bs_def)
  have N: "0 < N" "N * bs \<le> 65472" using numBlocks [OF v] by (simp_all add: N_def bs_def)
  have n: "0 < n" "n \<le> N" "n \<le> B" using N by (auto simp: n_def B_def)
  define b r where "b = grid fb bs n" and "r = grid (fb + n * bs) bs (N - n)"
  have blocks: "chunk_blocks c p = b @ r"
    using grid_append [of fb bs n "N - n"] n by (simp add: chunk_blocks_def b_def r_def fb_def N_def bs_def)
  define tc' where "tc' = (tcs t)\<lparr>counter := int B - int n + 1, tc_freeList := tl b\<rparr>"
  have pt: "tcs t = \<lparr>tc_freeList = [], tempList = [], counter = 1\<rparr>"
    using I(3) t by (auto simp: tc_ok_def dest: spec [of _ t])
  have tc1: "(if N < B then (tcs t)\<lparr>counter := int B - int N + 1\<rparr> else tcs t)\<lparr>tc_freeList := tl b\<rparr> = tc'"
    using pt by (simp add: tc'_def n_def)
  define cc1 where "cc1 = cc\<lparr>minChunkAddr := if p < minChunkAddr cc \<or> minChunkAddr cc = 0 then p else minChunkAddr cc,
    maxChunkAddr := if maxChunkAddr cc < p then p else maxChunkAddr cc\<rparr>"
  define cc2 where "cc2 = (if CHUNK_IS_SMALL c then insert_sm p cc1 else cc1)"
  have cc2: "freeBlocksInLastChunk cc2 = freeBlocksInLastChunk cc" "lastChunk cc2 = lastChunk cc"
    "cc_freeList cc2 = cc_freeList cc" "freeListSize cc2 = freeListSize cc"
    by (simp_all add: cc2_def cc1_def insert_sm_def)
  have bat: "batches c cc2 = batches c cc"
  proof (cases "CHUNK_IS_SMALL c")
    case True
    then have "batches c cc2 = batches c cc1" by (simp add: cc2_def batches_insert_sm)
    then show ?thesis by (simp add: cc1_def batches_def)
  qed (simp add: cc2_def cc1_def batches_def)
  define cc' where "cc' = cc2\<lparr>freeBlocksInLastChunk := N - n, lastChunk := fb + bs * n\<rparr>"
  define hook' where "hook' = (if freeBlocksInLastChunk cc2 \<noteq> 0
    then hook(chunk_of (fb + bs * n) := lastChunk cc2) else hook)"
  have e: "install_chunk c p hook (tcs t) cc = (fb, tc', cc', hook')"
    unfolding install_chunk_def Let_def N_def [symmetric] bs_def [symmetric] B_def [symmetric] n_def [symmetric]
      fb_def [symmetric] b_def [symmetric] cc1_def [symmetric] cc2_def [symmetric] tc1 hook'_def cc'_def by simp
  have cover: "fb + n * bs + (N - n) * bs = p + CHUNK_SIZE"
  proof -
    have "n * bs + (N - n) * bs = N * bs" using n(2) by (simp flip: add_mult_distrib)
    then show ?thesis using N(2) by (simp add: fb_def)
  qed
  have more: "n < N" if "freeBlocksInLastChunk cc2 \<noteq> 0"
  proof -
    have "rest \<noteq> []" using that I(5) cc2(1) by (cases rest) auto
    then show ?thesis using I(6) by (simp add: n_def N_def B_def)
  qed
  have at_p: "chunk_of (fb + bs * n) = p" if "n < N"
  proof -
    have "fb + n * bs \<in> set (chunk_blocks c p)"
      unfolding blocks r_def using grid_nonempty [of "N - n" "fb + n * bs" bs] that
      by (metis Un_iff hd_grid hd_in_set set_append zero_less_diff)
    then show ?thesis using chunk_of_block(1) [OF v _ p(1)] by (simp add: mult.commute)
  qed
  have hook': "hook' q = hook q" if "q \<noteq> p" for q using at_p more that by (simp add: hook'_def)
  define rest' where "rest' = (if N - n = 0 then [] else (fb + bs * n, N - n) # rest)"
  have rest_ok': "rest_ok (insert p chunks) hook' bs (fb + bs * n) (N - n) rest'"
  proof (cases "N - n = 0")
    case True
    then show ?thesis by (simp add: rest'_def)
  next
    case False
    have I5: "rest_ok (insert p chunks) hook' bs (lastChunk cc) (freeBlocksInLastChunk cc) rest"
      using rest_ok_mono [OF I(5) [folded bs_def] subset_insertI] hook' p(3) by metis
    have 1: "p < fb + bs * n" using N(2) by (simp add: fb_def)
    have 2: "fb + bs * n + (N - n) * bs = p + CHUNK_SIZE" using cover by (simp add: mult.commute)
    have 3: "if hook' p = 0 then rest = []
      else rest \<noteq> [] \<and> rest_ok (insert p chunks) hook' bs (hook' p) ((CHUNK_SIZE - hook' p mod CHUNK_SIZE) div bs) rest"
    proof (cases "freeBlocksInLastChunk cc = 0")
      case True
      then have "rest = []" using I(5) by (cases rest) auto
      then show ?thesis using True p(4) by (simp add: hook'_def cc2)
    next
      case f: False
      then have h: "hook' p = lastChunk cc" using at_p more cc2 by (simp add: hook'_def)
      obtain q rs where q: "rest = (lastChunk cc, freeBlocksInLastChunk cc) # rs" "q < lastChunk cc"
        "(CHUNK_SIZE - lastChunk cc mod CHUNK_SIZE) div bs = freeBlocksInLastChunk cc"
        using rest_first [OF I(5) f] bs(1) I(2) unfolding bs_def by metis
      then show ?thesis using I5 h by simp
    qed
    have "0 < N - n" using False by simp
    then have "rest_ok (insert p chunks) hook' bs (fb + bs * n) (N - n) ((fb + bs * n, N - n) # rest)"
      using 1 2 3 unfolding rest_ok.simps by blast
    then show ?thesis using False by (simp only: rest'_def if_False)
  qed
  have new: "set (chunk_blocks c p) \<inter> class_blocks c chunks = {}"
  proof -
    have False if x: "x \<in> set (chunk_blocks c p)" "q \<in> chunks" "x \<in> set (chunk_blocks c q)" for x q
      using chunk_of_block(1) [OF v x(1) p(1)] chunk_of_block(1) [OF v x(3)] I(2) x(2) p(3) by auto
    then show ?thesis by (auto simp: class_blocks_def)
  qed
  have dist: "distinct (chunk_blocks c p)" using bs by (simp add: chunk_blocks_def distinct_grid flip: bs_def)
  have b: "b \<noteq> []" "hd b = fb" using n by (simp_all add: b_def hd_grid grid_nonempty)
  have P': "placed ((at_places c tcs cc rest)(InFree t := tl b, InRest := r @ at_places c tcs cc rest InRest))
      (insert (hd b) used) (class_blocks c chunks \<union> set (b @ r))"
    using pt b(1) dist new unfolding blocks by (intro placed_grow [OF P]) auto
  have U: "class_blocks c chunks \<union> set (b @ r) = class_blocks c (insert p chunks)"
    unfolding blocks [symmetric] by (auto simp: class_blocks_def)
  have "class_inv c (insert p chunks) hook' (tcs(t := tc')) cc' (insert fb used) (pend - {t})"
  proof (rule class_invI [where rest = rest'])
    show "finite (insert p chunks)" "\<forall>p \<in> insert p chunks. CHUNK_SIZE dvd p \<and> p \<noteq> 0" using I(1,2) p by auto
    have "tc_ok c False tc'" using n pt by (cases n) (auto simp: tc_ok_def tc'_def B_def b_def grid_Cons)
    then show "\<forall>u. tc_ok c (u \<in> pend - {t}) ((tcs(t := tc')) u)" using I(3) by auto
    have "CHUNK_IS_SMALL c \<Longrightarrow> sm_ok chunks cc1" using I(4) by (simp add: cc_ok_def cc1_def sm_ok_def)
    then have "CHUNK_IS_SMALL c \<Longrightarrow> sm_ok (insert p chunks) cc2"
      using finite_sm_insert [OF _ I(1) p(3)] by (simp add: cc2_def)
    then have "CHUNK_IS_SMALL c \<Longrightarrow> sm_ok (insert p chunks) cc'" by (simp add: cc'_def sm_ok_def)
    then show "cc_ok c (insert p chunks) cc'"
    proof -
      have "batches c cc' = batches c cc2" by (simp add: cc'_def batches_def)
      then show ?thesis using I(4) bat cc2 \<open>CHUNK_IS_SMALL c \<Longrightarrow> sm_ok (insert p chunks) cc'\<close>
        by (simp add: cc_ok_def cc'_def)
    qed
    show "rest_ok (insert p chunks) hook' (class_to_size c) (lastChunk cc') (freeBlocksInLastChunk cc') rest'"
      using rest_ok' by (simp add: cc'_def bs_def)
    show "rest' \<noteq> [] \<longrightarrow> batch_size c + 1 < numBlocksInChunk c"
      by (auto simp: rest'_def n_def N_def B_def split: if_splits)
    show "placed ((at_places c tcs cc rest)(InFree t := tl b, InRest := r @ at_places c tcs cc rest InRest))
      (insert fb used) (class_blocks c (insert p chunks))" using P' unfolding U b(2) .
    have "r @ rest_blocks bs rest = rest_blocks bs rest'"
    proof (cases "N - n = 0")
      case True
      have "rest = []" using True I(6) by (auto simp: n_def N_def B_def split: if_splits)
      then show ?thesis using True by (simp add: r_def rest'_def rest_blocks_def)
    qed (simp add: r_def rest'_def rest_blocks_def mult.commute)
    then show "(at_places c tcs cc rest)(InFree t := tl b, InRest := r @ at_places c tcs cc rest InRest) =
        at_places c (tcs(t := tc')) cc' rest'"
      using pt bat cc2 by (intro at_placesI) (auto simp: tc'_def cc'_def batches_def bs_def)
  qed
  moreover have "fb \<in> set (chunk_blocks c p)" unfolding blocks using b by (metis Un_iff hd_in_set set_append)
  moreover have "fb \<notin> class_blocks c chunks" using calculation(2) new by blast
  ultimately show thesis using that [OF e] hook' by blast
qed
section \<open>Giving blocks back\<close>

text \<open>The spare list of a thread becomes a batch.\<close>

lemma add_temp_ok:
  assumes v: "valid_class c"
    and P: "placed (at_places c tcs cc rest) used (class_blocks c chunks)"
    and fin: "finite chunks" and tcs: "tc_ok c False (tcs t)" and cc: "cc_ok c chunks cc"
  shows "\<exists>cc'. (if tempList (tcs t) \<noteq> [] then add_batch_to_central_cache cc c (tempList (tcs t)) else Some cc) = Some cc' \<and>
    cc_ok c chunks cc' \<and> cc_freeList cc' = cc_freeList cc \<and> lastChunk cc' = lastChunk cc \<and>
    freeBlocksInLastChunk cc' = freeBlocksInLastChunk cc \<and> freeListSize cc' = freeListSize cc \<and>
    concat (batches c cc') = tempList (tcs t) @ concat (batches c cc) \<and>
    placed ((at_places c tcs cc rest)(InTemp t := [], InBatch := tempList (tcs t) @ concat (batches c cc)))
      used (class_blocks c chunks)"
proof -
  let ?l = "tempList (tcs t)"
  have room: "length (?l @ concat (batches c cc)) \<le> card chunks * numBlocksInChunk c"
    using placed_room [OF P fin, of "InTemp t" InBatch] by simp
  have P': "placed ((at_places c tcs cc rest)(InTemp t := [], InBatch := ?l @ concat (batches c cc)))
      used (class_blocks c chunks)"
    using placedD(1) [OF P, of "InTemp t"] placedD(1) [OF P, of InBatch] placed_apart [OF P, of "InTemp t" InBatch]
    by (intro placed_shift [OF P]) auto
  show ?thesis
  proof (cases "?l = []")
    case True
    then show ?thesis using cc P' by simp
  next
    case False
    then have "length ?l = batch_size c + 1" using tcs by (auto simp: tc_ok_def tc0_def)
    from add_batch_ok [OF cc v this room] show ?thesis using False P' by auto
  qed
qed

lemma free_ok:
  assumes v: "valid_class c" and inv: "class_inv c chunks hook tcs cc used pend"
    and t: "t \<notin> pend" and p: "p \<in> used"
  shows "\<exists>tc' cc'. free_block c p (tcs t) cc = Some (tc', cc') \<and>
    class_inv c chunks hook (tcs(t := tc')) cc' (used - {p}) pend"
proof -
  obtain rest where I: "finite chunks" "\<forall>p \<in> chunks. CHUNK_SIZE dvd p \<and> p \<noteq> 0"
    "\<forall>u. tc_ok c (u \<in> pend) (tcs u)" "cc_ok c chunks cc"
    "rest_ok chunks hook (class_to_size c) (lastChunk cc) (freeBlocksInLastChunk cc) rest"
    "rest \<noteq> [] \<longrightarrow> batch_size c + 1 < numBlocksInChunk c"
    "placed (at_places c tcs cc rest) used (class_blocks c chunks)"
    using class_invE [OF inv] by blast
  note P = I(7)
  have tc: "tc_ok c False (tcs t)" using I(3) t by (auto dest: spec [of _ t])
  show ?thesis
  proof (cases "counter (tcs t) - 1 < 0")
    case False
    define tc' where "tc' = (tcs t)\<lparr>counter := counter (tcs t) - 1, tc_freeList := p # tc_freeList (tcs t)\<rparr>"
    have x: "free_block c p (tcs t) cc = Some (tc', cc)"
      using False by (simp add: free_block_def tc'_def Let_def)
    have "tc_ok c False tc'" using tc False by (auto simp: tc_ok_def tc'_def tc0_def)
    then have tcs': "\<forall>u. tc_ok c (u \<in> pend) ((tcs(t := tc')) u)" using I(3) t by simp
    have "class_inv c chunks hook (tcs(t := tc')) cc (used - {p}) pend"
      by (rule class_invI [OF I(1,2) tcs' I(4-6) placed_give [OF P p, of "InFree t"]])
        (intro at_placesI; auto simp: tc'_def)
    with x show ?thesis by blast
  next
    case True
    let ?l = "tempList (tcs t)" and ?f = "tc_freeList (tcs t)"
    have f: "?f = [] \<or> length ?f = batch_size c + 1" using tc True by (auto simp: tc_ok_def tc0_def)
    obtain cc' where a: "(if ?l \<noteq> [] then add_batch_to_central_cache cc c ?l else Some cc) = Some cc'"
      "cc_ok c chunks cc'" "cc_freeList cc' = cc_freeList cc" "lastChunk cc' = lastChunk cc"
      "freeBlocksInLastChunk cc' = freeBlocksInLastChunk cc" "concat (batches c cc') = ?l @ concat (batches c cc)"
      "placed ((at_places c tcs cc rest)(InTemp t := [], InBatch := ?l @ concat (batches c cc)))
        used (class_blocks c chunks)"
      using add_temp_ok [OF v P I(1) tc I(4)] by blast
    define tc' where "tc' = \<lparr>tc_freeList = [p], tempList = ?f, counter = int (batch_size c)\<rparr>"
    have x: "free_block c p (tcs t) cc = Some (tc', cc')"
      using True a(1) by (cases "?l = []") (simp_all add: free_block_def move_to_central_cache_def tc'_def Let_def)
    have "tc_ok c False tc'" using f by (auto simp: tc_ok_def tc'_def)
    then have tcs': "\<forall>u. tc_ok c (u \<in> pend) ((tcs(t := tc')) u)" using I(3) t by simp
    let ?at = "(at_places c tcs cc rest)(InTemp t := [], InBatch := ?l @ concat (batches c cc))"
    have "placed (?at(InFree t := [], InTemp t := ?f)) used (class_blocks c chunks)"
      using placedD(1) [OF P, of "InFree t"] by (intro placed_shift [OF a(7)]) auto
    from placed_give [OF this p, of "InFree t"]
    have P3: "placed (?at(InFree t := [p], InTemp t := ?f)) (used - {p}) (class_blocks c chunks)"
      by (rule placed_cong) auto
    have "class_inv c chunks hook (tcs(t := tc')) cc' (used - {p}) pend"
    proof (rule class_invI [OF I(1,2) tcs' a(2) _ I(6) P3])
      show "rest_ok chunks hook (class_to_size c) (lastChunk cc') (freeBlocksInLastChunk cc') rest"
        using I(5) a by simp
      show "?at(InFree t := [p], InTemp t := ?f) = at_places c (tcs(t := tc')) cc' rest"
        using a by (intro at_placesI) (auto simp: tc'_def)
    qed
    with x show ?thesis by blast
  qed
qed

lemma release_ok:
  assumes v: "valid_class c" and inv: "class_inv c chunks hook tcs cc used pend" and t: "t \<notin> pend"
  shows "\<exists>cc'. release_class c (tcs t) cc = Some cc' \<and> class_inv c chunks hook (tcs(t := tc0)) cc' used pend"
proof -
  obtain rest where I: "finite chunks" "\<forall>p \<in> chunks. CHUNK_SIZE dvd p \<and> p \<noteq> 0"
    "\<forall>u. tc_ok c (u \<in> pend) (tcs u)" "cc_ok c chunks cc"
    "rest_ok chunks hook (class_to_size c) (lastChunk cc) (freeBlocksInLastChunk cc) rest"
    "rest \<noteq> [] \<longrightarrow> batch_size c + 1 < numBlocksInChunk c"
    "placed (at_places c tcs cc rest) used (class_blocks c chunks)"
    using class_invE [OF inv] by blast
  note P = I(7)
  let ?l = "tempList (tcs t)" and ?f = "tc_freeList (tcs t)"
  have tc: "tc_ok c False (tcs t)" using I(3) t by (auto dest: spec [of _ t])
  have tcs': "\<forall>u. tc_ok c (u \<in> pend) ((tcs(t := tc0)) u)"
    using I(3) t by (simp add: tc_ok_def [of c False tc0])
  obtain cc' where a: "(if ?l \<noteq> [] then add_batch_to_central_cache cc c ?l else Some cc) = Some cc'"
    "cc_ok c chunks cc'" "cc_freeList cc' = cc_freeList cc" "lastChunk cc' = lastChunk cc"
    "freeBlocksInLastChunk cc' = freeBlocksInLastChunk cc" "freeListSize cc' = freeListSize cc"
    "concat (batches c cc') = ?l @ concat (batches c cc)"
    "placed ((at_places c tcs cc rest)(InTemp t := [], InBatch := ?l @ concat (batches c cc)))
      used (class_blocks c chunks)"
    using add_temp_ok [OF v P I(1) tc I(4)] by blast
  define cc2 where "cc2 = cc'\<lparr>cc_freeList := ?f @ cc_freeList cc', freeListSize := freeListSize cc' + length ?f\<rparr>"
  have cnt: "int (length ?f) = int (batch_size c) + 1 - counter (tcs t)" if "?f \<noteq> []"
    using tc that by (auto simp: tc_ok_def tc0_def)
  have x: "release_class c (tcs t) cc = Some cc2"
  proof (cases "?f = []")
    case True
    then have "cc2 = cc'" by (simp add: cc2_def)
    then show ?thesis using a(1) True by (cases "?l = []") (simp_all add: release_class_def)
  next
    case False
    then show ?thesis using a(1) cnt [OF False] unfolding release_class_def cc2_def by simp
  qed
  let ?at = "(at_places c tcs cc rest)(InTemp t := [], InBatch := ?l @ concat (batches c cc))"
  have P2: "placed (?at(InFree t := [], InShort := ?f @ cc_freeList cc)) used (class_blocks c chunks)"
    using placedD(1) [OF P, of "InFree t"] placedD(1) [OF P, of InShort] placed_apart [OF P, of "InFree t" InShort]
    by (intro placed_shift [OF a(8)]) auto
  have "batches c cc2 = batches c cc'" by (simp add: cc2_def batches_def)
  then have cc2: "cc_ok c chunks cc2" "concat (batches c cc2) = ?l @ concat (batches c cc)"
    using a(2,6,7) by (simp_all add: cc_ok_def cc2_def sm_ok_def)
  have "class_inv c chunks hook (tcs(t := tc0)) cc2 used pend"
  proof (rule class_invI [OF I(1,2) tcs' cc2(1) _ I(6) P2])
    show "rest_ok chunks hook (class_to_size c) (lastChunk cc2) (freeBlocksInLastChunk cc2) rest"
      using I(5) a by (simp add: cc2_def)
    show "?at(InFree t := [], InShort := ?f @ cc_freeList cc) = at_places c (tcs(t := tc0)) cc2 rest"
      using a cc2(2) by (intro at_placesI) (auto simp: tc0_def cc2_def)
  qed
  with x show ?thesis by blast
qed

end
