(* ===== verification/LtHistory.thy ===== *)
theory LtHistory
  imports LtOps
begin





section \<open>The invariant\<close>













section \<open>One class changes\<close>

lemma set_class_simps [simp]:
  "threadCache (set_class t c tc cc s) u d = (if u = t \<and> d = c then tc else threadCache s u d)"
  "centralCache (set_class t c tc cc s) d = (if d = c then cc else centralCache s d)"
  "hooks (set_class t c tc cc s) = hooks s" "chunkClass (set_class t c tc cc s) = chunkClass s"
  "pad_freeChunk (set_class t c tc cc s) = pad_freeChunk s"
  by (simp_all add: set_class_def)

section \<open>Operations\<close>









section \<open>Every history\<close>










end
