(* ===== verification/LtTrie.thy ===== *)
theory LtTrie
  imports Prelude
begin

text \<open>
  The compressed radix tree of \<open>ltalloc/ltalloc.cc\<close> that remembers the sizes of the blocks
  obtained from the system. A node has two keys and two children; the low byte of the first key is
  the number of the bit on which it branches, a child with its low bit set is the value stored under
  the key beside it, and the value 0 stands for no child. Here a child is a node (with its
  address), a value, or nothing. A failed assertion and a write through the null \<open>pkey\<close> are
  \<open>None\<close>.
\<close>

datatype ptrie = PNull | PVal nat | PNode nat nat nat ptrie ptrie

definition low_byte :: "nat \<Rightarrow> nat" where "low_byte k = k mod 256"
definition no_low :: "nat \<Rightarrow> nat" where "no_low k = k - k mod 256"

section \<open>Operations\<close>

fun ptrie_lookup_from :: "nat option \<Rightarrow> ptrie \<Rightarrow> nat \<Rightarrow> nat option" where
  "ptrie_lookup_from lastKey (PNode a k0 k1 l r) key =
     (if bit key (low_byte k0) then ptrie_lookup_from (Some k1) r key
      else ptrie_lookup_from (Some k0) l key)"
| "ptrie_lookup_from lastKey (PVal v) key =
     (case lastKey of None \<Rightarrow> None | Some k \<Rightarrow> if no_low k = key then Some v else None)"
| "ptrie_lookup_from lastKey PNull key =
     (case lastKey of None \<Rightarrow> None | Some k \<Rightarrow> if no_low k = key then Some 0 else None)"

definition ptrie_lookup :: "ptrie \<Rightarrow> nat \<Rightarrow> nat option" where
  "ptrie_lookup root key = ptrie_lookup_from None root key"

text \<open>A new node in front of \<open>n\<close>, branching on the highest bit where the keys differ.\<close>

definition splice :: "nat \<Rightarrow> nat \<Rightarrow> nat \<Rightarrow> nat \<Rightarrow> nat \<Rightarrow> ptrie \<Rightarrow> ptrie" where
  "splice newNode key value x pkey n =
     (let index = bsr x in
      if bit key index then PNode newNode (pkey OR index) key n (PVal value)
      else PNode newNode (key OR index) pkey (PVal value) n)"

text \<open>The unset second key of a first node is what the memory held; it is never used.\<close>

fun ptrie_insert_at :: "nat \<Rightarrow> nat \<Rightarrow> nat \<Rightarrow> nat option \<Rightarrow> ptrie \<Rightarrow> ptrie option" where
  "ptrie_insert_at key value newNode prevKey (PNode a k0 k1 l r) =
     (let prefixEnd = low_byte k0; x = key XOR k0 in
      if x div 2 ^ Suc prefixEnd = 0 then
        (if bit key prefixEnd
         then map_option (PNode a k0 k1 l) (ptrie_insert_at key value newNode (Some k1) r)
         else map_option (\<lambda>l. PNode a k0 k1 l r) (ptrie_insert_at key value newNode (Some k0) l))
      else Some (splice newNode key value x (no_low k0) (PNode a k0 k1 l r)))"
| "ptrie_insert_at key value newNode prevKey PNull =
     Some (PNode newNode key 0 (PVal value) PNull)"
| "ptrie_insert_at key value newNode prevKey (PVal v) =
     (case prevKey of None \<Rightarrow> None
      | Some k \<Rightarrow> (let pkey = no_low k; x = key XOR pkey in
          if x = 0 then None else Some (splice newNode key value x pkey (PVal v))))"

definition ptrie_insert :: "nat \<Rightarrow> nat \<Rightarrow> nat \<Rightarrow> ptrie \<Rightarrow> ptrie option" where
  "ptrie_insert key value newNode root =
     (if odd value \<or> low_byte key \<noteq> 0 then None else ptrie_insert_at key value newNode None root)"

text \<open>
  The result of a removal below a node: what takes the place of the child, the key to be
  written beside it when that is a value, the value removed, and the node freed.
\<close>

fun is_val :: "ptrie \<Rightarrow> bool" where
  "is_val (PVal v) = True" | "is_val _ = False"

fun is_node :: "ptrie \<Rightarrow> bool" where
  "is_node (PNode a k0 k1 l r) = True" | "is_node _ = False"

fun ptrie_remove_at :: "nat \<Rightarrow> ptrie \<Rightarrow> (ptrie \<times> nat option \<times> nat \<times> nat) option" where
  "ptrie_remove_at key (PNode a k0 k1 l r) =
     (if bit key (low_byte k0) then
        (case r of
           PNull \<Rightarrow> None
         | PVal v \<Rightarrow> if no_low k1 = key then Some (l, if is_val l then Some (no_low k0) else None, v, a) else None
         | PNode _ _ _ _ _ \<Rightarrow> map_option (\<lambda>(r', u, v, n).
             (PNode a k0 (case u of None \<Rightarrow> k1 | Some k \<Rightarrow> k OR low_byte k1) l r', None, v, n))
             (ptrie_remove_at key r))
      else
        (case l of
           PNull \<Rightarrow> None
         | PVal v \<Rightarrow> if no_low k0 = key then Some (r, if is_val r then Some (no_low k1) else None, v, a) else None
         | PNode _ _ _ _ _ \<Rightarrow> map_option (\<lambda>(l', u, v, n).
             (PNode a (case u of None \<Rightarrow> k0 | Some k \<Rightarrow> k OR low_byte k0) k1 l' r, None, v, n))
             (ptrie_remove_at key l)))"
| "ptrie_remove_at key _ = None"

definition ptrie_remove :: "nat \<Rightarrow> ptrie \<Rightarrow> (ptrie \<times> nat \<times> nat) option" where
  "ptrie_remove key root =
     (case ptrie_remove_at key root of
        Some (t, None, v, n) \<Rightarrow> Some (t, v, n)
      | _ \<Rightarrow> None)"

section \<open>Bits\<close>

lemma bit_bsr: "0 < n \<Longrightarrow> bit n (bsr n)"
proof -
  assume n: "0 < n"
  have "n div 2 ^ bsr n = 1"
    using bsr_le [OF n] bsr_less [of n] by (intro div_nat_eqI) auto
  then show ?thesis by (simp add: bit_iff_odd)
qed

lemma div_pow_xor: "(a XOR b) div 2 ^ n = (a div 2 ^ n) XOR (b div 2 ^ n)" for a b :: nat
  by (simp flip: drop_bit_eq_div)

lemma xor_0_iff: "a XOR b = 0 \<longleftrightarrow> a = b" for a b :: nat
  by (metis bit.xor_self xor_self_eq xor.assoc xor.left_neutral xor.right_neutral)

lemma same_prefix: "(a XOR b) div 2 ^ n = 0 \<longleftrightarrow> a div 2 ^ n = b div 2 ^ n" for a b :: nat
  unfolding div_pow_xor xor_0_iff ..
lemma bit_div_pow: "bit n (k + i) \<longleftrightarrow> bit (n div 2 ^ k) i" for n :: nat
  by (simp add: bit_iff_odd div_mult2_eq power_add)

lemma top_bit_xor:
  fixes key k :: nat
  assumes x: "key XOR k \<noteq> 0"
  shows "key div 2 ^ Suc (bsr (key XOR k)) = k div 2 ^ Suc (bsr (key XOR k))"
    and "bit key (bsr (key XOR k)) \<noteq> bit k (bsr (key XOR k))"
proof -
  have "(key XOR k) div 2 ^ Suc (bsr (key XOR k)) = 0" by (simp add: bsr_less del: power_Suc)
  then show "key div 2 ^ Suc (bsr (key XOR k)) = k div 2 ^ Suc (bsr (key XOR k))"
    by (simp add: same_prefix del: power_Suc)
  have "bit (key XOR k) (bsr (key XOR k))" by (rule bit_bsr) (use x in simp)
  then show "bit key (bsr (key XOR k)) \<noteq> bit k (bsr (key XOR k))" by (simp add: bit_xor_iff)
qed

lemma bsr_ge: "2 ^ k \<le> n \<Longrightarrow> k \<le> bsr n"
proof -
  assume n: "2 ^ k \<le> n"
  then have "2 ^ k < (2::nat) ^ Suc (bsr n)" using bsr_less [of n] by linarith
  then have "k < Suc (bsr n)" by (simp only: power_strict_increasing_iff one_less_numeral_iff semiring_norm)
  then show ?thesis by simp
qed

lemma bsr_lt:
  assumes "n < 2 ^ k" and "0 < n"
  shows "bsr n < k"
proof -
  have "2 ^ bsr n < (2::nat) ^ k" using assms bsr_le [of n] by linarith
  then show ?thesis by (simp only: power_strict_increasing_iff one_less_numeral_iff semiring_norm)
qed

lemma or_low:
  fixes k i :: nat
  assumes "k mod 256 = 0" and "i < 256"
  shows "k OR i = k + i"
proof -
  have "k AND i = 0"
  proof (rule bit_eqI)
    fix n
    have "bit k n \<Longrightarrow> 8 \<le> n"
    proof (rule ccontr)
      assume "bit k n" and "\<not> 8 \<le> n"
      then have "bit (take_bit 8 k) n" by (simp add: bit_take_bit_iff)
      then show False using assms(1) by (simp add: take_bit_eq_mod)
    qed
    moreover have "8 \<le> n \<Longrightarrow> \<not> bit i n"
    proof -
      assume "8 \<le> n"
      then have "(2::nat) ^ 8 \<le> 2 ^ n" by (intro power_increasing) auto
      with assms(2) show ?thesis by (simp add: bit_iff_odd)
    qed
    ultimately show "bit (k AND i) n = bit 0 n" by (auto simp: bit_and_iff)
  qed
  then show ?thesis by (simp add: disjunctive_add_eq_or)
qed

lemma no_low_dvd [simp]: "256 dvd no_low k"
  by (simp add: no_low_def minus_mod_eq_mult_div)

lemma no_low_le: "no_low k \<le> k" by (simp add: no_low_def)

lemma no_low_id [simp]: "256 dvd k \<Longrightarrow> no_low k = k"
  by (simp add: no_low_def)

lemma low_byte_less [simp]: "low_byte k < 256" by (simp add: low_byte_def)

lemma low_or [simp]: "256 dvd k \<Longrightarrow> i < 256 \<Longrightarrow> low_byte (k OR i) = i"
  by (auto simp: or_low low_byte_def elim!: dvdE)

lemma no_low_or [simp]: "256 dvd k \<Longrightarrow> i < 256 \<Longrightarrow> no_low (k OR i) = k"
  by (auto simp: or_low no_low_def elim!: dvdE)

lemma no_low_div:
  assumes "8 \<le> n"
  shows "no_low k div 2 ^ n = k div 2 ^ n"
proof -
  obtain m where n: "n = 8 + m" using assms le_Suc_ex by blast
  have "no_low k div 256 = k div 256" by (simp add: no_low_def minus_mod_eq_mult_div)
  then show ?thesis by (simp add: n power_add div_mult2_eq)
qed

lemma or_div:
  fixes k i :: nat
  assumes "256 dvd k" and "i < 256" and "8 \<le> n"
  shows "(k OR i) div 2 ^ n = k div 2 ^ n"
proof -
  have "no_low (k OR i) div 2 ^ n = (k OR i) div 2 ^ n" by (rule no_low_div [OF assms(3)])
  then show ?thesis using assms by simp
qed

lemma or_less:
  fixes k i :: nat
  assumes "256 dvd k" and "i < 256" and "k < 2 ^ 64"
  shows "k OR i < 2 ^ 64"
proof -
  have "(k OR i) div 2 ^ 64 = k div 2 ^ 64" by (rule or_div) (use assms in auto)
  then have "(k OR i) div 2 ^ 64 = 0" using assms(3) by simp
  then show ?thesis by (simp add: div_eq_0_iff)
qed

lemma xor_less: "a < 2 ^ n \<Longrightarrow> b < 2 ^ n \<Longrightarrow> a XOR b < 2 ^ n" for a b :: nat
proof -
  assume "a < 2 ^ n" and "b < 2 ^ n"
  then have "(a XOR b) div 2 ^ n = 0" by (simp add: div_pow_xor)
  then show ?thesis by (simp add: div_eq_0_iff)
qed

lemma xor_high:
  fixes a b :: nat
  assumes "256 dvd a" and "256 dvd b" and "a \<noteq> b"
  shows "8 \<le> bsr (a XOR b)"
proof (rule bsr_ge)
  have "take_bit 8 a = 0" and "take_bit 8 b = 0"
    using assms(1,2) by (simp_all add: take_bit_eq_mod)
  then have "take_bit 8 (a XOR b) = 0" by simp
  then have "256 dvd (a XOR b)" by (simp add: take_bit_eq_mod mod_eq_0_iff_dvd)
  moreover have "a XOR b \<noteq> 0" using assms(3) by (simp add: xor_0_iff)
  ultimately show "2 ^ 8 \<le> a XOR b" by (auto elim!: dvdE)
qed
section \<open>Well-formed tries\<close>

text \<open>
  The key/value pairs of a child, given the key stored beside it. A node branching on bit \<open>pe\<close>
  holds keys that agree with its first key above \<open>pe\<close>, split by that bit; the node made by an
  insertion at the null child has \<open>pe = 0\<close> and one value; over the whole tree there is exactly
  one null child.
\<close>

fun contents :: "nat \<Rightarrow> ptrie \<Rightarrow> (nat \<times> nat) list" where
  "contents k PNull = []"
| "contents k (PVal v) = [(no_low k, v)]"
| "contents k (PNode a k0 k1 l r) = contents k0 l @ contents k1 r"

fun nulls :: "ptrie \<Rightarrow> nat" where
  "nulls PNull = 1" | "nulls (PVal v) = 0" | "nulls (PNode a k0 k1 l r) = nulls l + nulls r"

fun nodes :: "ptrie \<Rightarrow> nat list" where
  "nodes PNull = []" | "nodes (PVal v) = []"
| "nodes (PNode a k0 k1 l r) = a # nodes l @ nodes r"

fun trie_ok :: "ptrie \<Rightarrow> bool" where
  "trie_ok PNull = True"
| "trie_ok (PVal v) = True"
| "trie_ok (PNode a k0 k1 l r) =
     (k0 < 2 ^ 64 \<and> k1 < 2 ^ 64 \<and>
      (low_byte k0 = 0 \<and> is_val l \<and> r = PNull \<or> 8 \<le> low_byte k0 \<and> low_byte k0 < 64) \<and>
      (\<forall>k \<in> fst ` set (contents k0 l). k div 2 ^ Suc (low_byte k0) = k0 div 2 ^ Suc (low_byte k0) \<and>
         \<not> bit k (low_byte k0)) \<and>
      (\<forall>k \<in> fst ` set (contents k1 r). k div 2 ^ Suc (low_byte k0) = k0 div 2 ^ Suc (low_byte k0) \<and>
         bit k (low_byte k0)) \<and>
      trie_ok l \<and> trie_ok r)"

definition trie_inv :: "ptrie \<Rightarrow> bool" where
  "trie_inv t = (trie_ok t \<and> nulls t = 1)"

definition trie_map :: "ptrie \<Rightarrow> nat \<rightharpoonup> nat" where
  "trie_map t = map_of (contents 0 t)"

lemma contents_node: "is_node t \<Longrightarrow> contents k t = contents k' t"
  by (cases t) auto

lemma contents_key:
  assumes "trie_ok t" and "(k, v) \<in> set (contents lk t)" and "lk < 2 ^ 64"
  shows "256 dvd k \<and> k < 2 ^ 64"
  using assms
proof (induction t arbitrary: lk)
  case (PVal w)
  then show ?case using no_low_le [of lk] by auto
qed auto

lemma contents_distinct: "trie_ok t \<Longrightarrow> distinct (map fst (contents lk t))"
proof (induction t arbitrary: lk)
  case (PNode a k0 k1 l r)
  then have "fst ` set (contents k0 l) \<inter> fst ` set (contents k1 r) = {}" by fastforce
  with PNode show ?case by simp
qed auto

lemma map_of_contents:
  "trie_ok t \<Longrightarrow> map_of (contents lk t) k = Some v \<longleftrightarrow> (k, v) \<in> set (contents lk t)"
  by (simp add: contents_distinct)

section \<open>Insertion\<close>

lemma splice_ok:
  fixes key pkey :: nat
  assumes keys: "256 dvd key" "key < 2 ^ 64" "256 dvd pkey" "pkey < 2 ^ 64"
    and x: "bsr x = bsr (key XOR pkey)" "key \<noteq> pkey"
    and n: "trie_ok n" "\<forall>k \<in> fst ` set (contents pkey n). k div 2 ^ bsr x = pkey div 2 ^ bsr x"
  shows "trie_ok (splice a key v x pkey n)"
    and "set (contents lk (splice a key v x pkey n)) = insert (key, v) (set (contents pkey n))"
    and "nulls (splice a key v x pkey n) = nulls n"
    and "nodes (splice a key v x pkey n) = a # nodes n"
proof -
  define i where "i = bsr x"
  have ne: "key XOR pkey \<noteq> 0" using x(2) by (simp add: xor_0_iff)
  have i: "8 \<le> i" unfolding i_def x(1) by (rule xor_high) (use keys x in auto)
  have i64: "i < 64" unfolding i_def x(1)
    by (rule bsr_lt) (use keys ne xor_less [of key 64 pkey] in auto)
  have top: "key div 2 ^ Suc i = pkey div 2 ^ Suc i" "bit key i \<noteq> bit pkey i"
    using top_bit_xor [OF ne] unfolding i_def x(1) by auto
  have n1: "k div 2 ^ Suc i = pkey div 2 ^ Suc i \<and> (bit k i \<longleftrightarrow> bit pkey i)"
    if "k \<in> fst ` set (contents pkey n)" for k
  proof -
    have e: "k div 2 ^ i = pkey div 2 ^ i" using n(2) that unfolding i_def by blast
    then have "bit k i \<longleftrightarrow> bit pkey i" by (simp add: bit_iff_odd)
    moreover have "k div 2 ^ i div 2 = pkey div 2 ^ i div 2" using e by simp
    then have "k div 2 ^ Suc i = pkey div 2 ^ Suc i" by (simp flip: div_mult2_eq add: mult.commute)
    ultimately show ?thesis by simp
  qed
  have c: "contents (pkey OR i) n = contents pkey n"
    using keys i64 by (cases n) auto
  have or64: "pkey OR i < 2 ^ 64" "key OR i < 2 ^ 64" using or_less [of _ i] keys i64 by simp_all
  have d: "(k OR i) div 2 ^ Suc i = k div 2 ^ Suc i" if "256 dvd k" for k :: nat
    by (rule or_div) (use that i i64 in auto)
  have s: "splice a key v x pkey n = (if bit key i then PNode a (pkey OR i) key n (PVal v)
      else PNode a (key OR i) pkey (PVal v) n)"
    by (simp add: splice_def i_def Let_def)
  show "trie_ok (splice a key v x pkey n)"
    using keys i i64 top n1 n(1) d or64 unfolding s
    by (auto simp: c simp del: power_Suc)
  show "set (contents lk (splice a key v x pkey n)) = insert (key, v) (set (contents pkey n))"
    using keys i64 unfolding s by (auto simp: c)
  show "nulls (splice a key v x pkey n) = nulls n" unfolding s by simp
  show "nodes (splice a key v x pkey n) = a # nodes n" unfolding s by simp
qed

lemma bsr_div:
  assumes e: "a div 2 ^ n = b div 2 ^ n" and nz: "b div 2 ^ n \<noteq> 0"
  shows "bsr a = bsr b"
proof (rule bsr_unique)
  have "(2::nat) ^ n \<le> b" using nz by (simp add: div_eq_0_iff not_less)
  moreover from this have "0 < b" using zero_less_power [of "2::nat" n] by linarith
  ultimately have n: "n \<le> bsr b" and "0 < b" using bsr_ge [of n b] by auto
  then obtain m where m: "bsr b = n + m" using le_Suc_ex by blast
  have "2 ^ (n + m) div (2::nat) ^ n \<le> b div 2 ^ n"
    using bsr_le [OF \<open>0 < b\<close>] by (intro div_le_mono) (simp add: m)
  then have "(2::nat) ^ m \<le> a div 2 ^ n" by (simp add: e power_add)
  then have "2 ^ m * 2 ^ n \<le> a" by (simp add: less_eq_div_iff_mult_less_eq)
  then show "2 ^ bsr b \<le> a" by (simp add: m power_add mult.commute)
  have "b < 2 ^ Suc m * 2 ^ n" using bsr_less [of b] by (simp add: m power_add algebra_simps)
  then have "a div 2 ^ n < 2 ^ Suc m" unfolding e by (simp add: less_mult_imp_div_less)
  then have "a < 2 ^ Suc m * 2 ^ n" by (simp add: div_less_iff_less_mult)
  then show "a < 2 ^ Suc (bsr b)" by (simp add: m power_add algebra_simps)
qed

lemma div_pow_le: "a div 2 ^ m = b div 2 ^ m \<Longrightarrow> m \<le> n \<Longrightarrow> a div 2 ^ n = b div 2 ^ n" for a b :: nat
proof -
  assume e: "a div 2 ^ m = b div 2 ^ m" and "m \<le> n"
  then obtain j where n: "n = m + j" using le_Suc_ex by blast
  show ?thesis using e by (simp add: n power_add div_mult2_eq)
qed

lemma ptrie_insert_at:
  assumes "trie_ok t" and "256 dvd key" and "key < 2 ^ 64" and "lk < 2 ^ 64"
    and "key \<notin> fst ` set (contents lk t)"
    and "is_val t \<Longrightarrow> prev = Some lk"
  shows "\<exists>t'. ptrie_insert_at key v a prev t = Some t' \<and> trie_ok t' \<and> is_node t' \<and>
    set (contents lk t') = insert (key, v) (set (contents lk t)) \<and> nulls t' = nulls t \<and>
    set (nodes t') = insert a (set (nodes t)) \<and> length (nodes t') = Suc (length (nodes t))"
  using assms
proof (induction t arbitrary: lk prev)
  case PNull
  moreover have "\<not> bit key 0" using PNull.prems(2) by (auto simp: bit_0 elim!: dvdE)
  ultimately show ?case by (auto simp: low_byte_def elim!: dvdE)
next
  case (PVal w)
  have p: "prev = Some lk" using PVal.prems(6) by simp
  let ?x = "key XOR no_low lk"
  have ne: "key \<noteq> no_low lk" using PVal.prems(5) by simp
  have sp: "no_low lk < 2 ^ 64" using PVal.prems(4) no_low_le [of lk] by linarith
  note s = splice_ok [of key "no_low lk" ?x "PVal w"]
  have e: "ptrie_insert_at key v a prev (PVal w) = Some (splice a key v ?x (no_low lk) (PVal w))"
    using ne by (simp add: p Let_def xor_0_iff)
  have "is_node (splice a key v ?x (no_low lk) (PVal w))" by (simp add: splice_def Let_def)
  then show ?case unfolding e using s sp ne PVal.prems by simp
next
  case (PNode b k0 k1 l r)
  let ?pe = "low_byte k0" and ?x = "key XOR k0"
  have k: "k0 < 2 ^ 64" "k1 < 2 ^ 64" using PNode.prems(1) by auto
  show ?case
  proof (cases "?x div 2 ^ Suc ?pe = 0")
    case True
    have pre: "key div 2 ^ Suc ?pe = k0 div 2 ^ Suc ?pe"
      using True by (simp add: same_prefix del: power_Suc)
    have pe: "8 \<le> ?pe"
    proof (rule ccontr)
      assume "\<not> 8 \<le> ?pe"
      then have z: "?pe = 0" and l: "is_val l" using PNode.prems(1) by auto
      then have "256 dvd k0" by (simp add: low_byte_def mod_eq_0_iff_dvd)
      with PNode.prems(2) pre z have "k0 = key" by (auto elim!: dvdE)
      with \<open>256 dvd k0\<close> l PNode.prems(5) show False by (cases l) auto
    qed
    show ?thesis
    proof (cases "bit key ?pe")
      case b: True
      obtain r' where r': "ptrie_insert_at key v a (Some k1) r = Some r'" "trie_ok r'" "is_node r'"
        "set (contents k1 r') = insert (key, v) (set (contents k1 r))" "nulls r' = nulls r"
        "set (nodes r') = insert a (set (nodes r))" "length (nodes r') = Suc (length (nodes r))"
        using PNode.IH(2) [of k1 "Some k1"] PNode.prems k by auto
      have e: "ptrie_insert_at key v a prev (PNode b k0 k1 l r) = Some (PNode b k0 k1 l r')"
        using True b r'(1) by (simp add: Let_def del: power_Suc)
      show ?thesis unfolding e using r' b pre pe PNode.prems(1) by (auto simp del: power_Suc)
    next
      case b: False
      obtain l' where l': "ptrie_insert_at key v a (Some k0) l = Some l'" "trie_ok l'" "is_node l'"
        "set (contents k0 l') = insert (key, v) (set (contents k0 l))" "nulls l' = nulls l"
        "set (nodes l') = insert a (set (nodes l))" "length (nodes l') = Suc (length (nodes l))"
        using PNode.IH(1) [of k0 "Some k0"] PNode.prems k by auto
      have e: "ptrie_insert_at key v a prev (PNode b k0 k1 l r) = Some (PNode b k0 k1 l' r)"
        using True b l'(1) by (simp add: Let_def del: power_Suc)
      show ?thesis unfolding e using l' b pre pe PNode.prems(1) by (auto simp del: power_Suc)
    qed
  next
    case False
    let ?n = "PNode b k0 k1 l r"
    have e: "ptrie_insert_at key v a prev ?n = Some (splice a key v ?x (no_low k0) ?n)"
      using False by (simp add: Let_def del: power_Suc)
    have kn: "no_low k0 < 2 ^ 64" using k(1) no_low_le [of k0] by linarith
    have pe: "8 \<le> Suc ?pe \<or> no_low k0 = k0"
      using PNode.prems(1) by (auto simp: low_byte_def no_low_def)
    have same: "no_low k0 div 2 ^ Suc ?pe = k0 div 2 ^ Suc ?pe"
      using pe no_low_div by (auto simp del: power_Suc)
    have bs: "bsr ?x = bsr (key XOR no_low k0)"
      by (rule bsr_div [of _ "Suc ?pe", symmetric])
        (use False same in \<open>auto simp: div_pow_xor simp del: power_Suc\<close>)
    have ne: "key \<noteq> no_low k0"
      using False same by (auto simp: same_prefix simp del: power_Suc)
    have "2 ^ Suc ?pe \<le> ?x" using False by (simp add: div_eq_0_iff not_less del: power_Suc)
    then have ge: "Suc ?pe \<le> bsr ?x" by (rule bsr_ge)
    have "k div 2 ^ Suc ?pe = k0 div 2 ^ Suc ?pe" if "k \<in> fst ` set (contents (no_low k0) ?n)" for k
      using that PNode.prems(1) by (auto simp del: power_Suc)
    then have top: "\<forall>k \<in> fst ` set (contents (no_low k0) ?n). k div 2 ^ bsr ?x = no_low k0 div 2 ^ bsr ?x"
      using same div_pow_le [OF _ ge] by metis
    have c: "contents (no_low k0) ?n = contents lk ?n" by simp
    note s = splice_ok [OF PNode.prems(2,3) no_low_dvd kn bs ne PNode.prems(1) top]
    have "is_node (splice a key v ?x (no_low k0) ?n)" by (simp add: splice_def Let_def)
    then show ?thesis unfolding e using s unfolding c by simp
  qed
qed

section \<open>Lookup and removal\<close>

lemma ptrie_lookup_from:
  "trie_ok t \<Longrightarrow> (key, v) \<in> set (contents lk t) \<Longrightarrow> (is_val t \<Longrightarrow> prev = Some lk) \<Longrightarrow>
   ptrie_lookup_from prev t key = Some v"
proof (induction t arbitrary: lk prev)
  case (PNode a k0 k1 l r)
  show ?case
  proof (cases "bit key (low_byte k0)")
    case True
    then have "(key, v) \<in> set (contents k1 r)" using PNode.prems(1,2) by fastforce
    then show ?thesis using True PNode.IH(2) [of k1 "Some k1"] PNode.prems(1) by simp
  next
    case False
    then have "(key, v) \<in> set (contents k0 l)" using PNode.prems(1,2) by fastforce
    then show ?thesis using False PNode.IH(1) [of k0 "Some k0"] PNode.prems(1) by simp
  qed
qed auto

lemma is_val_iff: "is_val t \<longleftrightarrow> (\<exists>v. t = PVal v)" by (cases t) auto

text \<open>
  What a removal below a node returns: the key to be written beside the replacement is given
  exactly when that is a value, and is one of the keys of the subtree.
\<close>

definition removed :: "nat \<Rightarrow> nat \<Rightarrow> ptrie \<Rightarrow> ptrie \<times> nat option \<times> nat \<times> nat \<Rightarrow> bool" where
  "removed key v t = (\<lambda>(t', u, w, b). w = v \<and> trie_ok t' \<and> nulls t' = nulls t \<and>
     (is_val t' \<longleftrightarrow> u \<noteq> None) \<and>
     (\<forall>k \<in> set_option u. 256 dvd k \<and> k \<in> fst ` set (contents 0 t)) \<and>
     (\<forall>lk. (\<forall>k \<in> set_option u. no_low lk = k) \<longrightarrow>
        set (contents lk t') = set (contents 0 t) - {(key, v)}) \<and>
     b \<in> set (nodes t) \<and> distinct (nodes t') \<and> set (nodes t') = set (nodes t) - {b})"

lemma set_contents_split:
  assumes "trie_ok (PNode a k0 k1 l r)" and "(key, v) \<in> set (contents k (PNode a k0 k1 l r))"
  shows "bit key (low_byte k0) \<Longrightarrow> (key, v) \<in> set (contents k1 r) \<and> (key, v) \<notin> set (contents k0 l)"
    and "\<not> bit key (low_byte k0) \<Longrightarrow> (key, v) \<in> set (contents k0 l) \<and> (key, v) \<notin> set (contents k1 r)"
  using assms by fastforce+

lemma contents_keys:
  "trie_ok t \<Longrightarrow> lk < 2 ^ 64 \<Longrightarrow> k \<in> fst ` set (contents lk t) \<Longrightarrow> 256 dvd k \<and> k < 2 ^ 64"
  using contents_key by fastforce

lemma removed_right:
  assumes ok: "trie_ok (PNode a k0 k1 l r)" and b: "bit key (low_byte k0)"
    and d: "distinct (nodes (PNode a k0 k1 l r))" and r: "is_node r" and l: "\<not> r = PNull"
    and key: "(key, v) \<in> set (contents 0 (PNode a k0 k1 l r))"
    and rem: "removed key v r (r', u, w, n)"
  shows "removed key v (PNode a k0 k1 l r)
    (PNode a k0 (case u of None \<Rightarrow> k1 | Some k \<Rightarrow> k OR low_byte k1) l r', None, w, n)"
proof -
  define k1' where "k1' = (case u of None \<Rightarrow> k1 | Some k \<Rightarrow> k OR low_byte k1)"
  have ks: "256 dvd k \<and> k < 2 ^ 64 \<and> k \<in> fst ` set (contents k1 r)" if "u = Some k" for k
    using that rem ok contents_keys [of r k1 k] contents_node [OF r, of 0 k1] by (auto simp: removed_def)
  have k1: "k1' < 2 ^ 64" using ok ks or_less by (auto simp: k1'_def split: option.split)
  have c: "set (contents k1' r') = set (contents k1 r) - {(key, v)}"
    using rem ks contents_node [OF r, of 0 k1] by (auto simp: removed_def k1'_def split: option.splits)
  have nl: "(key, v) \<notin> set (contents k0 l)" using set_contents_split(1) [OF ok key b] by simp
  have pe: "8 \<le> low_byte k0 \<and> low_byte k0 < 64" using ok r by auto
  show ?thesis unfolding k1'_def [symmetric] using ok d k1 c nl pe rem
    by (auto simp: removed_def simp del: power_Suc)
qed

lemma removed_left:
  assumes ok: "trie_ok (PNode a k0 k1 l r)" and b: "\<not> bit key (low_byte k0)"
    and d: "distinct (nodes (PNode a k0 k1 l r))" and l: "is_node l"
    and key: "(key, v) \<in> set (contents 0 (PNode a k0 k1 l r))"
    and rem: "removed key v l (l', u, w, n)"
  shows "removed key v (PNode a k0 k1 l r)
    (PNode a (case u of None \<Rightarrow> k0 | Some k \<Rightarrow> k OR low_byte k0) k1 l' r, None, w, n)"
proof -
  define k0' where "k0' = (case u of None \<Rightarrow> k0 | Some k \<Rightarrow> k OR low_byte k0)"
  have pe: "8 \<le> low_byte k0 \<and> low_byte k0 < 64" using ok l by (cases l) auto
  have ks: "256 dvd k \<and> k < 2 ^ 64 \<and> k \<in> fst ` set (contents k0 l)" if "u = Some k" for k
    using that rem ok contents_keys [of l k0 k] contents_node [OF l, of 0 k0] by (auto simp: removed_def)
  have k0: "k0' < 2 ^ 64" "low_byte k0' = low_byte k0"
    using ok ks or_less by (auto simp: k0'_def split: option.split)
  have pre: "k0' div 2 ^ Suc (low_byte k0) = k0 div 2 ^ Suc (low_byte k0)"
  proof (cases u)
    case (Some k)
    then have "(k OR low_byte k0) div 2 ^ Suc (low_byte k0) = k div 2 ^ Suc (low_byte k0)"
      using ks pe by (intro or_div) auto
    moreover have "k div 2 ^ Suc (low_byte k0) = k0 div 2 ^ Suc (low_byte k0)"
      using ok ks [OF Some] by (auto simp del: power_Suc)
    ultimately show ?thesis by (simp add: k0'_def Some del: power_Suc)
  qed (simp add: k0'_def)
  have c: "set (contents k0' l') = set (contents k0 l) - {(key, v)}"
    using rem ks contents_node [OF l, of 0 k0] by (auto simp: removed_def k0'_def split: option.splits)
  have nr: "(key, v) \<notin> set (contents k1 r)" using set_contents_split(2) [OF ok key b] by simp
  show ?thesis unfolding k0'_def [symmetric] using ok d k0 c nr pe rem pre
    by (auto simp: removed_def simp del: power_Suc)
qed

lemma removed_here:
  assumes ok: "trie_ok (PNode a k0 k1 l r)"
    and d: "distinct (nodes (PNode a k0 k1 l r))"
  shows "r = PVal v \<Longrightarrow> bit (no_low k1) (low_byte k0) \<Longrightarrow> removed (no_low k1) v (PNode a k0 k1 l r)
      (l, if is_val l then Some (no_low k0) else None, v, a)"
    and "l = PVal v \<Longrightarrow> \<not> bit (no_low k0) (low_byte k0) \<Longrightarrow> removed (no_low k0) v (PNode a k0 k1 l r)
      (r, if is_val r then Some (no_low k1) else None, v, a)"
proof -
  assume r: "r = PVal v" and b: "bit (no_low k1) (low_byte k0)"
  have "(no_low k1, v) \<notin> set (contents k0 l)"
    using set_contents_split(1) [OF ok, of "no_low k1" v 0] b r by simp
  then show "removed (no_low k1) v (PNode a k0 k1 l r)
      (l, if is_val l then Some (no_low k0) else None, v, a)"
    using ok d r by (cases l) (auto simp: removed_def simp del: power_Suc)
next
  assume l: "l = PVal v" and b: "\<not> bit (no_low k0) (low_byte k0)"
  have "(no_low k0, v) \<notin> set (contents k1 r)"
    using set_contents_split(2) [OF ok, of "no_low k0" v 0] b l by simp
  then show "removed (no_low k0) v (PNode a k0 k1 l r)
      (r, if is_val r then Some (no_low k1) else None, v, a)"
    using ok d l by (cases r) (auto simp: removed_def simp del: power_Suc)
qed

lemma ptrie_remove_at:
  assumes "trie_ok t" and "(key, v) \<in> set (contents 0 t)" and "distinct (nodes t)" and "is_node t"
  shows "\<exists>x. ptrie_remove_at key t = Some x \<and> removed key v t x"
  using assms
proof (induction t)
  case (PNode a k0 k1 l r)
  note key = set_contents_split [OF PNode.prems(1,2)]
  show ?case
  proof (cases "bit key (low_byte k0)")
    case b: True
    show ?thesis
    proof (cases r)
      case PNull
      then show ?thesis using key(1) [OF b] by simp
    next
      case (PVal w)
      then have "key = no_low k1" "w = v" using key(1) [OF b] by auto
      then show ?thesis using b PVal removed_here(1) [OF PNode.prems(1,3) PVal] by simp
    next
      case r: (PNode b' c0 c1 cl cr)
      have "(key, v) \<in> set (contents 0 r)" using key(1) [OF b] r by simp
      then obtain r' u w n where x: "ptrie_remove_at key r = Some (r', u, w, n)" "removed key v r (r', u, w, n)"
        using PNode.IH(2) PNode.prems r by (metis distinct.simps(2) distinct_append is_node.simps(1)
            nodes.simps(3) prod_cases4 trie_ok.simps(3))
      have e: "ptrie_remove_at key (PNode a k0 k1 l r) =
          Some (PNode a k0 (case u of None \<Rightarrow> k1 | Some k \<Rightarrow> k OR low_byte k1) l r', None, w, n)"
        using b x(1) r by simp
      show ?thesis unfolding e
        using removed_right [OF PNode.prems(1) b PNode.prems(3) _ _ PNode.prems(2) x(2)] r by simp
    qed
  next
    case b: False
    show ?thesis
    proof (cases l)
      case PNull
      then show ?thesis using key(2) [OF b] by simp
    next
      case (PVal w)
      then have "key = no_low k0" "w = v" using key(2) [OF b] by auto
      then show ?thesis using b PVal removed_here(2) [OF PNode.prems(1,3) PVal] by simp
    next
      case l: (PNode b' c0 c1 cl cr)
      have "(key, v) \<in> set (contents 0 l)" using key(2) [OF b] l by simp
      then obtain l' u w n where x: "ptrie_remove_at key l = Some (l', u, w, n)" "removed key v l (l', u, w, n)"
        using PNode.IH(1) PNode.prems l by (metis distinct.simps(2) distinct_append is_node.simps(1)
            nodes.simps(3) prod_cases4 trie_ok.simps(3))
      have e: "ptrie_remove_at key (PNode a k0 k1 l r) =
          Some (PNode a (case u of None \<Rightarrow> k0 | Some k \<Rightarrow> k OR low_byte k0) k1 l' r, None, w, n)"
        using b x(1) l by simp
      show ?thesis unfolding e
        using removed_left [OF PNode.prems(1) b PNode.prems(3) _ PNode.prems(2) x(2)] l by simp
    qed
  qed
qed auto

end
