(* ===== verification/LtSizes.thy ===== *)
theory LtSizes
  imports LtTrie
begin

text \<open>
  The table of system allocations of \<open>ltalloc/ltalloc.cc\<close>: the radix tree of LtTrie together with
  the places its nodes come from, the list of freed nodes and the stack of partly used node pages.
  A page of nodes in use is represented by its next unused node; the word at the end of the page
  links to the page below, which is the rest of the list. The page size is the parameter \<open>psz\<close>.
  The lock is released while a thread asks the system for a page, so other threads may have added
  nodes and pages by the time it is installed: taking a node is one operation, installing a page
  obtained meanwhile is another, each atomic under the lock.
\<close>

record sizes =
  ptrieRoot :: ptrie
  ptrieFreeNodesList :: "nat list"
  ptrieNewAllocatedPage :: "nat list"

definition sizes0 :: sizes where
  "sizes0 = \<lparr>ptrieRoot = PNull, ptrieFreeNodesList = [], ptrieNewAllocatedPage = []\<rparr>"

definition NODE :: nat where "NODE = 32"

section \<open>Operations\<close>

text \<open>\<open>None\<close>: there is no node, the thread goes to the system for a page.\<close>

definition take_node :: "nat \<Rightarrow> sizes \<Rightarrow> (nat \<times> sizes) option" where
  "take_node psz s =
     (case ptrieFreeNodesList s of
        n # ns \<Rightarrow> Some (n, s\<lparr>ptrieFreeNodesList := ns\<rparr>)
      | [] \<Rightarrow> (case ptrieNewAllocatedPage s of
          n # ns \<Rightarrow> Some (n, s\<lparr>ptrieNewAllocatedPage :=
             if psz dvd n + NODE then ns else (n + NODE) # ns\<rparr>)
        | [] \<Rightarrow> None))"

definition install_page :: "nat \<Rightarrow> sizes \<Rightarrow> nat \<times> sizes" where
  "install_page page s = (page, s\<lparr>ptrieNewAllocatedPage := (page + NODE) # ptrieNewAllocatedPage s\<rparr>)"

text \<open>
  Remembering the size of a region. The outer \<open>None\<close> is a failed assertion; the answer \<open>False\<close>
  says that a page is needed first, or that the system has refused it (\<open>Some 0\<close>).
\<close>

definition remember :: "nat \<Rightarrow> nat option \<Rightarrow> nat \<Rightarrow> nat \<Rightarrow> sizes \<Rightarrow> (bool \<times> sizes) option" where
  "remember psz page p sz s =
     (case (case page of None \<Rightarrow> take_node psz s
            | Some q \<Rightarrow> if q = 0 then None else Some (install_page q s)) of
        None \<Rightarrow> Some (False, s)
      | Some (n, s1) \<Rightarrow>
          map_option (\<lambda>t. (True, s1\<lparr>ptrieRoot := t\<rparr>)) (ptrie_insert p sz n (ptrieRoot s1)))"

definition size_of :: "nat \<Rightarrow> sizes \<Rightarrow> nat option" where
  "size_of p s = ptrie_lookup (ptrieRoot s) p"

definition forget :: "nat \<Rightarrow> sizes \<Rightarrow> (nat \<times> sizes) option" where
  "forget p s = map_option (\<lambda>(t, sz, n). (sz, s\<lparr>ptrieRoot := t, ptrieFreeNodesList := n # ptrieFreeNodesList s\<rparr>))
     (ptrie_remove p (ptrieRoot s))"

section \<open>The interface of a table of sizes\<close>

text \<open>
  A table agrees with a finite map on a sequence of requests, as long as the requests are legal: a
  new region is at an unused address and has an admissible size, a page comes fresh from the
  system or is refused, only regions in the table are asked for and released. An insertion may
  be answered by \<open>False\<close> when no page is given with it; then nothing has happened.
\<close>

datatype request = Remember "nat option" nat nat | Forget nat | Ask nat

fun agrees :: "(nat option \<Rightarrow> nat \<Rightarrow> nat \<Rightarrow> 's \<Rightarrow> (bool \<times> 's) option) \<Rightarrow> (nat \<Rightarrow> 's \<Rightarrow> (nat \<times> 's) option) \<Rightarrow>
    (nat \<Rightarrow> 's \<Rightarrow> nat option) \<Rightarrow> (nat \<Rightarrow> nat \<Rightarrow> bool) \<Rightarrow> (nat \<Rightarrow> bool) \<Rightarrow>
    (nat \<rightharpoonup> nat) \<Rightarrow> nat set \<Rightarrow> 's \<Rightarrow> request list \<Rightarrow> bool" where
  "agrees ins del look good page_ok m used s [] = True"
| "agrees ins del look good page_ok m used s (Remember page p sz # rs) =
     (p \<notin> dom m \<and> good p sz \<and> (\<forall>q \<in> set_option page. q \<noteq> 0 \<longrightarrow> page_ok q \<and> q \<notin> used) \<longrightarrow>
      (case ins page p sz s of None \<Rightarrow> False
       | Some (b, s') \<Rightarrow> (b \<or> page \<in> {None, Some 0} \<and> s' = s) \<and>
           agrees ins del look good page_ok (if b then m(p \<mapsto> sz) else m) (used \<union> set_option page) s' rs))"
| "agrees ins del look good page_ok m used s (Forget p # rs) =
     (case m p of None \<Rightarrow> True
      | Some n \<Rightarrow> (case del p s of None \<Rightarrow> False
          | Some (n', s') \<Rightarrow> n' = n \<and> agrees ins del look good page_ok (m(p := None)) used s' rs))"
| "agrees ins del look good page_ok m used s (Ask p # rs) =
     (case m p of None \<Rightarrow> True
      | Some n \<Rightarrow> look p s = Some n \<and> agrees ins del look good page_ok m used s rs)"

locale size_table =
  fixes ins :: "nat option \<Rightarrow> nat \<Rightarrow> nat \<Rightarrow> 's \<Rightarrow> (bool \<times> 's) option"
    and del :: "nat \<Rightarrow> 's \<Rightarrow> (nat \<times> 's) option"
    and look :: "nat \<Rightarrow> 's \<Rightarrow> nat option"
    and good :: "nat \<Rightarrow> nat \<Rightarrow> bool"
    and page_ok :: "nat \<Rightarrow> bool"
    and ok :: "nat set \<Rightarrow> 's \<Rightarrow> bool"
    and ab :: "'s \<Rightarrow> nat \<rightharpoonup> nat"
  assumes ins: "ok used s \<Longrightarrow> p \<notin> dom (ab s) \<Longrightarrow> good p sz \<Longrightarrow>
      (\<And>q. page = Some q \<Longrightarrow> q \<noteq> 0 \<Longrightarrow> page_ok q \<and> q \<notin> used) \<Longrightarrow>
      ins page p sz s = Some (False, s) \<and> page \<in> {None, Some 0} \<or>
      (\<exists>s'. ins page p sz s = Some (True, s') \<and> ok (used \<union> set_option page) s' \<and> ab s' = (ab s)(p \<mapsto> sz))"
    and more: "ok used s \<Longrightarrow> ok (insert 0 used) s"
    and del: "ok used s \<Longrightarrow> ab s p = Some n \<Longrightarrow>
      \<exists>s'. del p s = Some (n, s') \<and> ok used s' \<and> ab s' = (ab s)(p := None)"
    and look: "ok used s \<Longrightarrow> ab s p = Some n \<Longrightarrow> look p s = Some n"
begin

lemma simulates: "ok used s \<Longrightarrow> agrees ins del look good page_ok (ab s) used s rs"
proof (induction rs arbitrary: used s)
  case (Cons r rs)
  show ?case
  proof (cases r)
    case (Remember page p sz)
    show ?thesis
    proof (cases "p \<notin> dom (ab s) \<and> good p sz \<and> (\<forall>q \<in> set_option page. q \<noteq> 0 \<longrightarrow> page_ok q \<and> q \<notin> used)")
      case True
      then consider "ins page p sz s = Some (False, s)" "page \<in> {None, Some 0}"
        | s' where "ins page p sz s = Some (True, s')" "ok (used \<union> set_option page) s'" "ab s' = (ab s)(p \<mapsto> sz)"
        using ins [OF Cons.prems, of p sz page] by fastforce
      then show ?thesis
      proof cases
        case 1
        then have "ok (used \<union> set_option page) s" using Cons.prems more by auto
        from Cons.IH [OF this] 1 show ?thesis by (simp add: Remember)
      next
        case 2
        from Cons.IH [OF 2(2)] 2 show ?thesis by (simp add: Remember del: fun_upd_apply)
      qed
    next
      case False
      then show ?thesis unfolding Remember agrees.simps by blast
    qed
  next
    case (Forget p)
    show ?thesis
    proof (cases "ab s p")
      case (Some n)
      with del [OF Cons.prems] obtain s' where "del p s = Some (n, s')" "ok used s'" "ab s' = (ab s)(p := None)"
        by blast
      with Cons.IH [of used s'] Some show ?thesis by (simp add: Forget del: fun_upd_apply)
    qed (simp add: Forget)
  next
    case (Ask p)
    with Cons.IH [OF Cons.prems] look [OF Cons.prems] show ?thesis by (simp split: option.split)
  qed
qed simp

end

section \<open>Where nodes come from\<close>

text \<open>
  The pages obtained so far are \<open>used\<close>. Every node, in the tree or free, lies in one of them, and
  behind the next unused node of its page is nothing that was handed out.
\<close>

definition node_at :: "nat \<Rightarrow> nat set \<Rightarrow> nat \<Rightarrow> bool" where
  "node_at psz used n \<longleftrightarrow> NODE dvd n \<and> n div psz * psz \<in> used"

definition sizes_ok :: "nat \<Rightarrow> nat set \<Rightarrow> sizes \<Rightarrow> bool" where
  "sizes_ok psz used s \<longleftrightarrow>
     trie_inv (ptrieRoot s) \<and>
     distinct (nodes (ptrieRoot s) @ ptrieFreeNodesList s) \<and>
     (\<forall>n \<in> set (nodes (ptrieRoot s) @ ptrieFreeNodesList s). node_at psz used n) \<and>
     distinct (map (\<lambda>q. q div psz) (ptrieNewAllocatedPage s)) \<and>
     (\<forall>q \<in> set (ptrieNewAllocatedPage s). node_at psz used q \<and> \<not> psz dvd q \<and>
        (\<forall>n \<in> set (nodes (ptrieRoot s) @ ptrieFreeNodesList s). n div psz = q div psz \<longrightarrow> n < q))"

lemma next_node:
  assumes "NODE dvd psz" and "NODE dvd q" and "\<not> psz dvd q + NODE" and "0 < psz"
  shows "(q + NODE) div psz = q div psz"
proof -
  have "NODE dvd q mod psz" using assms(1,2) by (simp add: dvd_mod)
  then obtain i where i: "q mod psz = NODE * i" by (auto elim: dvdE)
  obtain j where j: "psz = NODE * j" using assms(1) by (auto elim: dvdE)
  have "NODE * i < NODE * j" using assms(4) by (simp flip: i j)
  then have "NODE * Suc i \<le> NODE * j" by (intro mult_le_mono2) simp
  then have "q mod psz + NODE \<le> psz" using i j by simp
  moreover have "q mod psz + NODE \<noteq> psz"
  proof
    assume "q mod psz + NODE = psz"
    then have "(q + NODE) mod psz = 0" by (metis mod_add_left_eq mod_self)
    then show False using assms(3) by auto
  qed
  ultimately have lt: "q mod psz + NODE < psz" by simp
  have e: "(q mod psz + NODE) + q div psz * psz = q + NODE" by simp
  have "((q mod psz + NODE) + q div psz * psz) div psz = q div psz"
    using assms(4) lt by (subst div_mult_self1) auto
  then show ?thesis unfolding e .
qed

lemma take_node_ok:
  assumes ok: "sizes_ok psz used s" and t: "take_node psz s = Some (n, s')" and psz: "NODE dvd psz" "psz \<noteq> 0"
  shows "ptrieRoot s' = ptrieRoot s \<and> n \<notin> set (nodes (ptrieRoot s)) \<and>
    (\<forall>t'. trie_inv t' \<and> distinct (nodes t') \<and> set (nodes t') = insert n (set (nodes (ptrieRoot s))) \<longrightarrow>
      sizes_ok psz used (s'\<lparr>ptrieRoot := t'\<rparr>))"
proof (cases "ptrieFreeNodesList s")
  case (Cons m ns)
  then show ?thesis using ok t by (auto simp: take_node_def sizes_ok_def)
next
  case Nil
  then obtain q qs where q: "ptrieNewAllocatedPage s = q # qs" and n: "n = q"
    and s': "s' = s\<lparr>ptrieNewAllocatedPage := if psz dvd q + NODE then qs else (q + NODE) # qs\<rparr>"
    using t by (auto simp: take_node_def split: list.splits)
  have "node_at psz used q" "\<not> psz dvd q" using ok q by (auto simp: sizes_ok_def)
  then have d: "(q + NODE) div psz = q div psz" if "\<not> psz dvd q + NODE"
    using next_node [OF psz(1) _ that] psz(2) by (simp add: node_at_def)
  have 1: "q \<notin> set (nodes (ptrieRoot s))" using ok q by (force simp: sizes_ok_def)
  show ?thesis
  proof (cases "psz dvd q + NODE")
    case True
    then show ?thesis using ok q n s' 1 Nil
      by (auto simp: sizes_ok_def image_iff)
  next
    case False
    have "node_at psz used (q + NODE)" using \<open>node_at psz used q\<close> d [OF False] by (simp add: node_at_def)
    with False show ?thesis using ok q n s' 1 Nil d [OF False]
      by (auto simp: sizes_ok_def image_iff NODE_def)
  qed
qed

lemma install_page_ok:
  assumes ok: "sizes_ok psz used s" and q: "psz dvd q" "q \<noteq> 0" "q \<notin> used"
    and psz: "NODE dvd psz" "NODE < psz"
  shows "q \<notin> set (nodes (ptrieRoot s)) \<and>
    (\<forall>t'. trie_inv t' \<and> distinct (nodes t') \<and> set (nodes t') = insert q (set (nodes (ptrieRoot s))) \<longrightarrow>
      sizes_ok psz (insert q used) ((snd (install_page q s))\<lparr>ptrieRoot := t'\<rparr>))"
proof -
  obtain j where j: "q = psz * j" using q(1) by (auto elim: dvdE)
  have page: "n div psz \<noteq> q div psz" if "node_at psz used n" for n
    using that q(3) psz(2) by (auto simp: node_at_def j mult.commute)
  have q': "node_at psz (insert q used) q" "node_at psz (insert q used) (q + NODE)"
    using psz by (auto simp: node_at_def j mult.commute)
  have mono: "node_at psz used n \<Longrightarrow> node_at psz (insert q used) n" for n by (auto simp: node_at_def)
  have "\<not> psz dvd NODE" using psz dvd_imp_le [of psz NODE] by (auto simp: NODE_def)
  then have d: "(q + NODE) div psz = q div psz" "\<not> psz dvd q + NODE"
    using psz by (auto simp: j dvd_add_right_iff)
  have 1: "q \<notin> set (nodes (ptrieRoot s) @ ptrieFreeNodesList s)"
    using page [of q] ok by (auto simp: sizes_ok_def)
  have 2: "\<forall>n \<in> set (nodes (ptrieRoot s) @ ptrieFreeNodesList s). n div psz \<noteq> q div psz"
    and 3: "\<forall>n \<in> set (ptrieNewAllocatedPage s). n div psz \<noteq> q div psz \<and> q div psz \<noteq> n div psz"
    using ok page by (fastforce simp: sizes_ok_def)+
  have ok': "sizes_ok psz (insert q used) s" using ok mono by (auto simp: sizes_ok_def)
  have "q < q + NODE" by (simp add: NODE_def)
  with ok' 1 2 3 q'(1,2) d show ?thesis
    by (simp add: sizes_ok_def install_page_def image_iff)
qed

section \<open>The table of the allocator is a table of sizes\<close>

definition region_ok :: "nat \<Rightarrow> nat \<Rightarrow> bool" where
  "region_ok p sz \<longleftrightarrow> 256 dvd p \<and> p < 2 ^ 64 \<and> even sz"

lemma trie_map_iff: "trie_inv t \<Longrightarrow> trie_map t k = Some v \<longleftrightarrow> (k, v) \<in> set (contents 0 t)"
  by (simp add: trie_map_def trie_inv_def map_of_contents)

lemma trie_map_none: "k \<notin> dom (trie_map t) \<longleftrightarrow> k \<notin> fst ` set (contents 0 t)"
  by (simp add: trie_map_def dom_map_of_conv_image_fst)

lemma trie_map_eqI:
  assumes "trie_inv t" and "\<And>x w. (x, w) \<in> set (contents 0 t) \<longleftrightarrow> m x = Some w"
  shows "trie_map t = m"
proof
  fix x
  have "trie_map t x = Some w \<longleftrightarrow> m x = Some w" for w by (simp add: trie_map_iff assms)
  then show "trie_map t x = m x" by (cases "m x"; cases "trie_map t x") auto
qed

lemma trie_map_update:
  assumes "trie_inv t" and "trie_inv t'" and "k \<notin> dom (trie_map t)"
    and "set (contents 0 t') = insert (k, v) (set (contents 0 t))"
  shows "trie_map t' = (trie_map t)(k \<mapsto> v)"
proof (rule trie_map_eqI [OF assms(2)])
  fix x w
  show "(x, w) \<in> set (contents 0 t') \<longleftrightarrow> ((trie_map t)(k \<mapsto> v)) x = Some w"
    using assms(3,4) trie_map_iff [OF assms(1), of x w] by (cases "x = k") (auto simp: domIff)
qed

lemma trie_map_delete:
  assumes "trie_inv t" and "trie_inv t'" and "trie_map t k = Some v"
    and "set (contents 0 t') = set (contents 0 t) - {(k, v)}"
  shows "trie_map t' = (trie_map t)(k := None)"
proof (rule trie_map_eqI [OF assms(2)])
  fix x w
  show "(x, w) \<in> set (contents 0 t') \<longleftrightarrow> ((trie_map t)(k := None)) x = Some w"
    using assms(3,4) trie_map_iff [OF assms(1), of x w] by (cases "x = k") auto
qed

lemma insert_root:
  assumes t: "trie_inv t" and d: "distinct (nodes t)" and a: "a \<notin> set (nodes t)"
    and p: "p \<notin> dom (trie_map t)" and r: "region_ok p sz"
  shows "\<exists>t'. ptrie_insert p sz a t = Some t' \<and> trie_inv t' \<and> distinct (nodes t') \<and>
    set (nodes t') = insert a (set (nodes t)) \<and> trie_map t' = (trie_map t)(p \<mapsto> sz)"
proof -
  have "\<not> is_val t" using t by (cases t) (auto simp: trie_inv_def)
  then obtain t' where t': "ptrie_insert_at p sz a None t = Some t'" "trie_ok t'"
    "set (contents 0 t') = insert (p, sz) (set (contents 0 t))" "nulls t' = nulls t"
    "set (nodes t') = insert a (set (nodes t))" "length (nodes t') = Suc (length (nodes t))"
    using ptrie_insert_at [of t p 0 None sz a] t r p unfolding trie_map_none trie_inv_def region_ok_def
    by auto
  have inv: "trie_inv t'" using t' t by (simp add: trie_inv_def)
  have "card (set (nodes t')) = length (nodes t')"
    using t'(5,6) d a by (simp add: distinct_card)
  then have "distinct (nodes t')" by (rule card_distinct)
  moreover have "ptrie_insert p sz a t = Some t'"
    using t'(1) r by (auto simp: ptrie_insert_def region_ok_def low_byte_def)
  ultimately show ?thesis using t' inv trie_map_update [OF t inv p t'(3)] by blast
qed

lemma remember_ok:
  assumes ok: "sizes_ok psz used s" and p: "p \<notin> dom (trie_map (ptrieRoot s))" "region_ok p sz"
    and q: "\<And>q. page = Some q \<Longrightarrow> q \<noteq> 0 \<Longrightarrow> psz dvd q \<and> q \<notin> used"
    and psz: "NODE dvd psz" "NODE < psz"
  shows "remember psz page p sz s = Some (False, s) \<and> page \<in> {None, Some 0} \<or>
    (\<exists>s'. remember psz page p sz s = Some (True, s') \<and> sizes_ok psz (used \<union> set_option page) s' \<and>
      trie_map (ptrieRoot s') = (trie_map (ptrieRoot s))(p \<mapsto> sz))"
proof -
  have t: "trie_inv (ptrieRoot s)" "distinct (nodes (ptrieRoot s))" using ok by (auto simp: sizes_ok_def)
  have psz0: "psz \<noteq> 0" using psz by simp
  consider "page = None" | "page = Some 0" | n where "page = Some n" "n \<noteq> 0" by (cases page) auto
  then show ?thesis
  proof cases
    case 1
    show ?thesis
    proof (cases "take_node psz s")
      case None
      then show ?thesis using 1 by (simp add: remember_def)
    next
      case (Some x)
      obtain n s1 where x: "x = (n, s1)" by (cases x)
      note ok1 = take_node_ok [OF ok Some [unfolded x] psz(1) psz0]
      then obtain t' where "ptrie_insert p sz n (ptrieRoot s) = Some t'" "trie_inv t'" "distinct (nodes t')"
        "set (nodes t') = insert n (set (nodes (ptrieRoot s)))" "trie_map t' = (trie_map (ptrieRoot s))(p \<mapsto> sz)"
        using insert_root [OF t _ p] by blast
      with ok1 1 Some x show ?thesis by (simp add: remember_def)
    qed
  next
    case 2
    then show ?thesis by (simp add: remember_def)
  next
    case (3 n)
    have q': "psz dvd n" "n \<notin> used" using q 3 by auto
    note ok1 = install_page_ok [OF ok q'(1) 3(2) q'(2) psz]
    then obtain t' where "ptrie_insert p sz n (ptrieRoot s) = Some t'" "trie_inv t'" "distinct (nodes t')"
      "set (nodes t') = insert n (set (nodes (ptrieRoot s)))" "trie_map t' = (trie_map (ptrieRoot s))(p \<mapsto> sz)"
      using insert_root [OF t _ p] by blast
    with ok1 3 show ?thesis by (simp add: remember_def install_page_def)
  qed
qed

lemma remove_root:
  assumes t: "trie_inv t" and d: "distinct (nodes t)" and p: "trie_map t p = Some sz"
  shows "\<exists>t' b. ptrie_remove p t = Some (t', sz, b) \<and> trie_inv t' \<and> distinct (nodes t') \<and>
    b \<in> set (nodes t) \<and> set (nodes t') = set (nodes t) - {b} \<and> trie_map t' = (trie_map t)(p := None)"
proof -
  have k: "(p, sz) \<in> set (contents 0 t)" using p by (simp add: trie_map_iff [OF t])
  have "is_node t" using t k by (cases t) (auto simp: trie_inv_def)
  then obtain t' u w b where r: "ptrie_remove_at p t = Some (t', u, w, b)" "removed p sz t (t', u, w, b)"
    using ptrie_remove_at [OF _ k d] t unfolding trie_inv_def by (metis prod_cases4)
  have inv: "trie_inv t'" using r(2) t by (simp add: removed_def trie_inv_def)
  then have "\<not> is_val t'" by (cases t') (auto simp: trie_inv_def)
  then have u: "u = None" "w = sz" using r(2) by (auto simp: removed_def)
  then have c: "set (contents 0 t') = set (contents 0 t) - {(p, sz)}" using r(2) by (simp add: removed_def)
  have "ptrie_remove p t = Some (t', sz, b)" using r(1) u by (simp add: ptrie_remove_def)
  then show ?thesis using r(2) inv trie_map_delete [OF t inv p c] by (simp add: removed_def)
qed

lemma forget_ok:
  assumes ok: "sizes_ok psz used s" and p: "trie_map (ptrieRoot s) p = Some sz"
  shows "\<exists>s'. forget p s = Some (sz, s') \<and> sizes_ok psz used s' \<and>
    trie_map (ptrieRoot s') = (trie_map (ptrieRoot s))(p := None)"
proof -
  have t: "trie_inv (ptrieRoot s)" "distinct (nodes (ptrieRoot s))" using ok by (auto simp: sizes_ok_def)
  obtain t' b where r: "ptrie_remove p (ptrieRoot s) = Some (t', sz, b)" "trie_inv t'" "distinct (nodes t')"
    "b \<in> set (nodes (ptrieRoot s))" "set (nodes t') = set (nodes (ptrieRoot s)) - {b}"
    "trie_map t' = (trie_map (ptrieRoot s))(p := None)"
    using remove_root [OF t p] by blast
  have "sizes_ok psz used (s\<lparr>ptrieRoot := t', ptrieFreeNodesList := b # ptrieFreeNodesList s\<rparr>)"
    using ok r unfolding sizes_ok_def by auto
  with r show ?thesis by (simp add: forget_def)
qed

lemma size_of_ok:
  assumes ok: "sizes_ok psz used s" and p: "trie_map (ptrieRoot s) p = Some n"
  shows "size_of p s = Some n"
proof -
  have t: "trie_inv (ptrieRoot s)" using ok by (simp add: sizes_ok_def)
  then have "\<not> is_val (ptrieRoot s)" by (cases "ptrieRoot s") (auto simp: trie_inv_def)
  then show ?thesis using ptrie_lookup_from [of "ptrieRoot s" p n 0 None] t p trie_map_iff [OF t, of p n]
    by (simp add: size_of_def ptrie_lookup_def trie_inv_def)
qed

lemma sizes_ok_more: "sizes_ok psz used s \<Longrightarrow> sizes_ok psz (insert q used) s"
  by (auto simp: sizes_ok_def node_at_def)

text \<open>Every page size that holds two nodes gives a table; the usual one is 4096.\<close>

locale node_pages =
  fixes psz :: nat
  assumes psz: "NODE dvd psz" "NODE < psz"

sublocale node_pages \<subseteq> table: size_table "remember psz" forget size_of region_ok "\<lambda>q. psz dvd q"
    "sizes_ok psz" "\<lambda>s. trie_map (ptrieRoot s)"
proof unfold_locales
  fix used s p sz page
  assume "sizes_ok psz used s" "p \<notin> dom (trie_map (ptrieRoot s))" "region_ok p sz"
    and "\<And>q. page = Some q \<Longrightarrow> q \<noteq> 0 \<Longrightarrow> psz dvd q \<and> q \<notin> used"
  then show "remember psz page p sz s = Some (False, s) \<and> page \<in> {None, Some 0} \<or>
    (\<exists>s'. remember psz page p sz s = Some (True, s') \<and> sizes_ok psz (used \<union> set_option page) s' \<and>
      trie_map (ptrieRoot s') = (trie_map (ptrieRoot s))(p \<mapsto> sz))"
    using remember_ok psz by blast
qed (use forget_ok size_of_ok sizes_ok_more in blast)+

context node_pages begin

lemma empty_simulates:
  "agrees (remember psz) forget size_of region_ok (\<lambda>q. psz dvd q) Map.empty {} sizes0 rs"
proof -
  have "sizes_ok psz {} sizes0" by (simp add: sizes_ok_def sizes0_def trie_inv_def)
  from table.simulates [OF this, of rs] show ?thesis by (simp add: sizes0_def trie_map_def)
qed

end

interpretation pages4096: node_pages 4096
  by unfold_locales (simp_all add: NODE_def)



end
