(* ===== verification/LtSystem.thy ===== *)
theory LtSystem
  imports LtHistory LtSizes
begin

text \<open>
  The parts of \<open>ltalloc/ltalloc.cc\<close> around the caches: getting aligned memory from the system, large
  requests with the table of their sizes, the requests with an alignment, zeroed and resized blocks, and
  what happens when there is no memory for a chunk. Answers of \<open>mmap\<close> are arguments, 0 is a failure.
\<close>

section \<open>Aligned memory from the system\<close>

text \<open>
  The result, and the parts unmapped again, each with its length; \<open>p\<close> is the answer to the first
  request, \<open>q\<close> that to the larger second one. \<open>None\<close> is a failed assertion.
\<close>

definition sys_aligned_alloc :: "nat \<Rightarrow> nat \<Rightarrow> nat \<Rightarrow> nat \<Rightarrow> nat \<Rightarrow> (nat \<times> (nat \<times> nat) list) option" where
  "sys_aligned_alloc psz alignment n p q =
     (if p mod alignment \<noteq> 0 then
        (if q \<noteq> 0 then
           (let ap = round_up alignment q; diff = ap - q;
                cut1 = (if diff \<noteq> 0 then [(q, diff)] else []);
                diff' = int alignment - int psz - int diff in
            if diff' < 0 then None
            else Some (ap, (p, n) # cut1 @ (if diff' \<noteq> 0 then [(ap + n, nat diff')] else [])))
         else Some (q, [(p, n)]))
      else Some (p, []))"

definition cells :: "nat \<times> nat \<Rightarrow> nat set" where
  "cells r = {fst r..<fst r + snd r}"

text \<open>
  A region from the system is aligned, and the unmapped parts are exactly what was mapped beyond it:
  the first answer if that was not aligned, and from the second one all but the region, with no overlap.
\<close>

lemma lt_aligned_region:
  assumes "psz dvd alignment" and "0 < psz" and "0 < alignment" and "psz dvd q"
  shows "\<exists>r cuts. sys_aligned_alloc psz alignment n p q = Some (r, cuts) \<and> alignment dvd r \<and>
    (alignment dvd p \<longrightarrow> r = p \<and> cuts = []) \<and>
    (\<not> alignment dvd p \<and> q = 0 \<longrightarrow> r = 0 \<and> cuts = [(p, n)]) \<and>
    (\<not> alignment dvd p \<and> q \<noteq> 0 \<longrightarrow> hd cuts = (p, n) \<and>
       cells (r, n) \<union> (\<Union>c \<in> set (tl cuts). cells c) = cells (q, n + alignment - psz) \<and>
       (\<forall>c \<in> set (tl cuts). cells c \<inter> cells (r, n) = {}))"
proof (cases "p mod alignment = 0 \<or> q = 0")
  case True
  then show ?thesis by (auto simp: sys_aligned_alloc_def dvd_eq_mod_eq_0)
next
  case False
  define ap where "ap = round_up alignment q"
  have ap: "q \<le> ap" "ap < q + alignment" "alignment dvd ap"
    using assms(3) by (simp_all add: ap_def round_up_ge round_up_less round_up_dvd)
  obtain d where d: "ap = q + d" using ap(1) le_Suc_ex by blast
  have "psz dvd ap" using assms(1) ap(3) dvd_trans by blast
  then have "psz dvd d" using assms(4) by (simp add: d dvd_add_right_iff)
  moreover have "d < alignment" using ap(2) by (simp add: d)
  ultimately have le: "d + psz \<le> alignment"
  proof -
    obtain i j where "d = psz * i" "alignment = psz * j" using \<open>psz dvd d\<close> assms(1) by (auto elim!: dvdE)
    with \<open>d < alignment\<close> have "i < j" by simp
    then have "psz * Suc i \<le> psz * j" by (intro mult_le_mono2) simp
    then show ?thesis using \<open>d = psz * i\<close> \<open>alignment = psz * j\<close> by simp
  qed
  define e where "e = alignment - psz - d"
  have e: "int alignment - int psz - int d = int e" "n + alignment - psz = d + n + e"
    using le by (simp_all add: e_def)
  have a: "sys_aligned_alloc psz alignment n p q = Some (ap, (p, n) # (if d \<noteq> 0 then [(q, d)] else []) @
      (if e \<noteq> 0 then [(ap + n, e)] else []))"
    using False e(1) by (simp add: sys_aligned_alloc_def Let_def d flip: ap_def)
  show ?thesis unfolding a using False ap(3) e(2)
    by (auto simp: d cells_def dvd_eq_mod_eq_0)
qed

lemma lt_aligned_region_witness:
  "\<exists>r cuts. sys_aligned_alloc 4096 65536 65536 4096 69632 = Some (r, cuts) \<and> 65536 dvd r \<and> hd cuts = (4096, 65536)"
proof -
  have "\<exists>r cuts. sys_aligned_alloc 4096 65536 65536 4096 69632 = Some (r, cuts) \<and> 65536 dvd r \<and>
    (65536 dvd (4096::nat) \<longrightarrow> r = 4096 \<and> cuts = []) \<and>
    (\<not> 65536 dvd (4096::nat) \<and> (69632::nat) = 0 \<longrightarrow> r = 0 \<and> cuts = [(4096, 65536)]) \<and>
    (\<not> 65536 dvd (4096::nat) \<and> (69632::nat) \<noteq> 0 \<longrightarrow> hd cuts = (4096, 65536) \<and>
       cells (r, 65536) \<union> (\<Union>c \<in> set (tl cuts). cells c) = cells (69632, 65536 + 65536 - 4096) \<and>
       (\<forall>c \<in> set (tl cuts). cells c \<inter> cells (r, 65536) = {}))"
    by (rule lt_aligned_region) simp_all
  moreover have "\<not> 65536 dvd (4096::nat)" by simp
  ultimately show ?thesis by fastforce
qed

section \<open>Large requests\<close>

text \<open>
  A region of \<open>sz\<close> bytes at \<open>p\<close> (0 if the system had none) is entered into the table, with a node of
  a new page if there is none; \<open>page\<close> is the answer to that request. The result is 0 without memory.
\<close>

definition malloc_region :: "nat \<Rightarrow> nat \<Rightarrow> nat \<Rightarrow> nat \<Rightarrow> sizes \<Rightarrow> (nat \<times> sizes) option" where
  "malloc_region psz p sz page s =
     (if p = 0 then Some (0, s)
      else Option.bind (remember psz None p sz s) (\<lambda>(found, s).
        if found then Some (p, s)
        else Option.bind (remember psz (Some page) p sz s) (\<lambda>(found, s).
          Some (if found then p else 0, s))))"

text \<open>Freeing and measuring a region; the null pointer is freed silently and has no bytes.\<close>

definition free_region :: "nat \<Rightarrow> sizes \<Rightarrow> (nat \<times> sizes) option" where
  "free_region p s = (if p = 0 then Some (0, s) else forget p s)"

definition msize_region :: "nat \<Rightarrow> sizes \<Rightarrow> nat option" where
  "msize_region p s = (if p = 0 then Some 0 else size_of p s)"

text \<open>
  A large request that fails for want of a page of nodes reports failure but keeps the region: its
  result is null, the table is unchanged, and the region, mapped before, is neither entered nor unmapped.
\<close>

lemma lt_region_leaks:
  assumes "p \<noteq> 0" and "ptrieFreeNodesList s = []" and "ptrieNewAllocatedPage s = []"
  shows "malloc_region psz p sz 0 s = Some (0, s)"
  using assms by (simp add: malloc_region_def remember_def take_node_def)

lemma lt_region_leaks_witness:
  "malloc_region 4096 131072 65536 0 sizes0 = Some (0, sizes0) \<and> trie_map (ptrieRoot sizes0) 131072 = None"
  using lt_region_leaks [of 131072 sizes0 4096 65536] by (simp add: sizes0_def trie_map_def)

section \<open>No memory for a chunk\<close>

lemma take_short_block: "take_short c tc cc \<noteq> Some (NewChunk, x)"
  by (simp add: take_short_def Let_def)

lemma take_last_block: "take_last hook c tc cc \<noteq> Some (NewChunk, x)"
  by (simp add: take_last_def Let_def)

text \<open>
  When there is no memory for a chunk the counter of the thread is left at one: its next request of
  the class, whatever the state of the cache then, fails the assertion on the counter, unless
  batches of the class have only one block.
\<close>

lemma lt_chunk_failure_breaks:
  assumes f: "fetch_from_central_cache hook c tc cc = Some (NewChunk, tc', cc')" and b: "batch_size c \<noteq> 0"
  shows "fetch_from_central_cache hook' c tc' cc'' = None"
proof -
  have t: "tempList tc = []"
    using f by (auto simp: fetch_from_central_cache_def take_temp_def split: if_splits)
  define tc1 where "tc1 = tc\<lparr>counter := 1\<rparr>"
  have f1: "(case pop_batch c cc of None \<Rightarrow> None
       | Some (Some b, cc) \<Rightarrow> Some (Block (hd b), tc1\<lparr>tc_freeList := tl b\<rparr>, cc)
       | Some (None, cc) \<Rightarrow> no_free_batch hook c tc1 cc) = Some (NewChunk, tc', cc')"
    using f t unfolding fetch_from_central_cache_def tc1_def [symmetric] Let_def by (simp split: if_splits)
  then obtain cc1 where "no_free_batch hook c tc1 cc1 = Some (NewChunk, tc', cc')"
    by (auto split: option.splits)
  then have "tc' = tc1" using take_short_block take_last_block by (auto simp: no_free_batch_def split: if_splits)
  then have "counter tc' = 1 \<and> tempList tc' = []" using t by (simp add: tc1_def)
  then show ?thesis using b by (simp add: fetch_from_central_cache_def)
qed

lemma lt_chunk_failure_breaks_witness:
  "\<exists>tc' cc'. fetch_from_central_cache (\<lambda>_. 0) 15 tc0 cc0 = Some (NewChunk, tc', cc') \<and>
    fetch_from_central_cache (\<lambda>_. 0) 15 tc' cc' = None"
proof -
  have "pop_batch 15 cc0 = Some (None, cc0)" by (simp add: pop_batch_def cc0_def)
  then have f: "fetch_from_central_cache (\<lambda>_. 0) 15 tc0 cc0 = Some (NewChunk, tc0\<lparr>counter := 1\<rparr>, cc0)"
    by (simp add: fetch_from_central_cache_def no_free_batch_def Let_def tc0_def) (simp add: cc0_def)
  have "batch_size 15 \<noteq> 0" by (simp add: batch_size_def)
  from lt_chunk_failure_breaks [OF f this] f show ?thesis by blast
qed

section \<open>Alignment, zeroing, resizing\<close>

text \<open>The request \<open>ltmemalign\<close> makes; the number of bytes \<open>ltcalloc\<close> asks for.\<close>

definition ltmemalign :: "nat \<Rightarrow> nat \<Rightarrow> nat \<Rightarrow> lt \<Rightarrow> (fetched \<times> lt) option" where
  "ltmemalign t align n s = ltmalloc t (round_up align n) s"

definition ltcalloc :: "nat \<Rightarrow> nat \<Rightarrow> nat \<Rightarrow> lt \<Rightarrow> (fetched \<times> lt) option" where
  "ltcalloc t elems n s = ltmalloc t (n * elems mod 2 ^ 64) s"

text \<open>
  Resizing with the bytes of memory; \<open>osz\<close> is what \<open>ltmsize\<close> says of the block, \<open>nptr\<close> what
  \<open>ltmalloc\<close> answers. The result, the memory, and the block to free; \<open>None\<close>: a copy to null.
\<close>

definition ltrealloc :: "nat \<Rightarrow> nat \<Rightarrow> nat \<Rightarrow> nat \<Rightarrow> (nat \<Rightarrow> nat) \<Rightarrow> (nat \<times> (nat \<Rightarrow> nat) \<times> nat option) option" where
  "ltrealloc ptr sz osz nptr m =
     (if ptr = 0 then Some (nptr, m, None)
      else if sz = 0 then Some (0, m, Some ptr)
      else if sz \<le> osz then Some (ptr, m, None)
      else if nptr = 0 then None
      else Some (nptr, (\<lambda>a. if nptr \<le> a \<and> a < nptr + osz then m (ptr + (a - nptr)) else m a), Some ptr))"

lemma class_size_dvd:
  assumes n: "1 \<le> n" and j: "2 ^ j dvd n"
  shows "2 ^ j dvd class_to_size (get_size_class n)"
proof -
  obtain k where c: "class_to_size (get_size_class n) = round_up (2 ^ k) (round_up 8 n)"
    using get_size_class_eq [OF n] by metis
  define i where "i = max j 3"
  have i: "(2::nat) ^ i dvd round_up 8 n"
  proof (cases "3 \<le> j")
    case True
    then have "(2::nat) ^ 3 dvd 2 ^ j" by (intro le_imp_power_dvd)
    from dvd_trans [OF this j] have "8 dvd n" by simp
    then show ?thesis using True j by (simp add: i_def max_absorb1)
  next
    case False
    then have "i = 3" by (simp add: i_def)
    then show ?thesis using round_up_dvd [of 8 n] by simp
  qed
  have ji: "(2::nat) ^ j dvd 2 ^ i" unfolding i_def by (intro le_imp_power_dvd) simp
  show ?thesis
  proof (cases "k \<le> i")
    case True
    then have "(2::nat) ^ k dvd 2 ^ i" by (intro le_imp_power_dvd)
    then have "2 ^ k dvd round_up 8 n" using i dvd_trans by blast
    then have "round_up (2 ^ k) (round_up 8 n) = round_up 8 n" by simp
    then show ?thesis unfolding c using ji i dvd_trans by simp
  next
    case False
    then have "(2::nat) ^ i dvd 2 ^ k" by (intro le_imp_power_dvd) simp
    from dvd_trans [OF dvd_trans [OF ji this] round_up_dvd] show ?thesis unfolding c .
  qed
qed

text \<open>
  A request with an alignment up to the size of a chunk, if it is for a block, gets an aligned one: all
  blocks of the class of the rounded request, in whatever chunk, are multiples of the alignment.
\<close>

lemma lt_memalign_aligned:
  assumes a: "align = 2 ^ j" "align dvd CHUNK_SIZE" and n: "1 \<le> n" "round_up align n \<le> MAX_BLOCK"
    and p: "CHUNK_SIZE dvd p" and b: "b \<in> set (chunk_blocks (get_size_class (round_up align n)) p)"
  shows "align dvd b"
proof -
  let ?m = "round_up align n"
  let ?c = "get_size_class ?m"
  have m: "1 \<le> ?m" using n(1) round_up_ge [of align n] a(1) by simp
  have v: "valid_class ?c" unfolding valid_class_def using m n(2) by blast
  have "align dvd ?m" by (rule round_up_dvd)
  then have s: "align dvd class_to_size ?c" using class_size_dvd [OF m] a(1) by simp
  have "align dvd p" using a(2) p dvd_trans by blast
  have N: "numBlocksInChunk ?c * class_to_size ?c \<le> p + CHUNK_SIZE" using numBlocks(2) [OF v] by simp
  obtain i where "b = p + CHUNK_SIZE - numBlocksInChunk ?c * class_to_size ?c + i * class_to_size ?c"
    using b by (auto simp: chunk_blocks_def set_grid)
  moreover have "align dvd p + CHUNK_SIZE - numBlocksInChunk ?c * class_to_size ?c"
    using \<open>align dvd p\<close> a(2) s N by (intro dvd_diff_nat dvd_add dvd_mult) auto
  ultimately show ?thesis using s by simp
qed

lemma lt_memalign_aligned_witness:
  "73728 \<in> set (chunk_blocks (get_size_class (round_up 8192 50000)) 65536) \<and> 8192 dvd (73728::nat)"
proof
  have c: "get_size_class (round_up 8192 50000) = 66"
    by (simp add: round_up_def get_size_class_def Let_def bsr_numeral)
  have s: "\<not> CHUNK_IS_SMALL 66" by (simp add: CHUNK_IS_SMALL_def get_size_class_16)
  have "(3::nat) OR 4 = 7" by simp
  then have z: "class_to_size 66 = 57344" by (simp add: class_to_size_def Let_def)
  show m: "73728 \<in> set (chunk_blocks (get_size_class (round_up 8192 50000)) 65536)"
    unfolding c using s by (simp add: chunk_blocks_def numBlocksInChunk_def z grid_def)
  show "8192 dvd (73728::nat)"
    by (rule lt_memalign_aligned [of 8192 13 50000 65536 73728, OF _ _ _ _ _ m])
      (simp_all add: round_up_def)
qed

end
