(* ===== verification/LtSqueeze.thy ===== *)
theory LtSqueeze
  imports LtInv
begin

text \<open>
  \<open>ltsqueeze\<close> of \<open>ltalloc/ltalloc.cc\<close> for one size class, on the pointers themselves: the store holds
  the two link fields of every block and the four local list heads, and a pointer to a pointer is
  the name of such a cell. Other threads may use the central cache between the detaching of its
  lists and their return, so the two critical sections are separate steps. \<open>None\<close> is a failed assertion;
  a loop along a list that never ends is \<open>None\<close>, too.
\<close>

datatype slot = FirstBatch | FreeList | AddBatches | AddBlocks | Next nat | NextBatch nat

text \<open>The central cache as the pointers of its lists; the scratch counters; the chunks found free.\<close>

record heads =
  h_firstBatch :: nat
  h_freeList :: nat
  h_freeListSize :: nat
  h_minChunkAddr :: nat
  h_maxChunkAddr :: nat

record squeeze =
  store :: "slot \<Rightarrow> nat"
  inChunkFreeBlocks :: "nat \<Rightarrow> nat"
  headers :: "nat \<Rightarrow> nat option"
  firstFreeChunk :: "nat list"

record sq_params =
  sq_class :: nat
  sq_min :: nat

definition set_slot :: "slot \<Rightarrow> nat \<Rightarrow> squeeze \<Rightarrow> squeeze" where
  "set_slot p v s = s\<lparr>store := (store s)(p := v)\<rparr>"

definition sq_num :: "sq_params \<Rightarrow> nat" where
  "sq_num P = (CHUNK_SIZE - 64) div class_to_size (sq_class P)"

definition sq_batch :: "sq_params \<Rightarrow> nat" where
  "sq_batch P = batch_size (sq_class P) + 1"

definition chunk_index :: "sq_params \<Rightarrow> nat \<Rightarrow> nat" where
  "chunk_index P block = (block - sq_min P) div CHUNK_SIZE"

definition releasable :: "sq_params \<Rightarrow> squeeze \<Rightarrow> nat \<Rightarrow> bool" where
  "releasable P s block = (inChunkFreeBlocks s (chunk_index P block) = sq_num P)"

section \<open>1. Counting\<close>

text \<open>The first critical section: the lists of the cache move to the local heads.\<close>

definition detach :: "heads \<Rightarrow> squeeze \<Rightarrow> nat \<times> heads \<times> squeeze" where
  "detach h s = (h_freeListSize h, h\<lparr>h_firstBatch := 0, h_freeList := 0, h_freeListSize := 0\<rparr>,
     set_slot FreeList (h_freeList h) (set_slot FirstBatch (h_firstBatch h) s))"

text \<open>The header of a free chunk is overwritten by the link of the list of free chunks.\<close>

definition FREE_BLOCK :: "sq_params \<Rightarrow> nat \<Rightarrow> squeeze \<Rightarrow> squeeze option" where
  "FREE_BLOCK P block s =
     (let i = chunk_index P block; n = inChunkFreeBlocks s i + 1;
          s = s\<lparr>inChunkFreeBlocks := (inChunkFreeBlocks s)(i := n)\<rparr> in
      if n = sq_num P then
        (let chunk = chunk_of block in
         if headers s chunk \<noteq> Some (sq_class P) then None
         else Some (s\<lparr>headers := (headers s)(chunk := None), firstFreeChunk := chunk # firstFreeChunk s\<rparr>))
      else Some s)"

partial_function (option) count_blocks :: "sq_params \<Rightarrow> nat \<Rightarrow> squeeze \<Rightarrow> squeeze option" where
  "count_blocks P block s =
     (if block = 0 then Some s
      else Option.bind (FREE_BLOCK P block s) (\<lambda>s. count_blocks P (store s (Next block)) s))"

partial_function (option) count_batches :: "sq_params \<Rightarrow> slot \<Rightarrow> squeeze \<Rightarrow> (slot \<times> squeeze) option" where
  "count_batches P pbatch s =
     (let b = store s pbatch in
      if b = 0 then Some (pbatch, s)
      else Option.bind (count_blocks P b s) (\<lambda>s. count_batches P (NextBatch b) s))"

partial_function (option) count_free :: "sq_params \<Rightarrow> slot \<Rightarrow> squeeze \<Rightarrow> (slot \<times> squeeze) option" where
  "count_free P pblock s =
     (let b = store s pblock in
      if b = 0 then Some (pblock, s)
      else Option.bind (FREE_BLOCK P b s) (\<lambda>s. count_free P (Next b) s))"

text \<open>Without memory for the counters only the ends of the lists are looked for.\<close>

partial_function (option) last_batch :: "slot \<Rightarrow> squeeze \<Rightarrow> slot option" where
  "last_batch pbatch s = (let b = store s pbatch in if b = 0 then Some pbatch else last_batch (NextBatch b) s)"

partial_function (option) last_free :: "slot \<Rightarrow> squeeze \<Rightarrow> slot option" where
  "last_free pblock s = (let b = store s pblock in if b = 0 then Some pblock else last_free (Next b) s)"

definition find_free_chunks :: "bool \<Rightarrow> sq_params \<Rightarrow> squeeze \<Rightarrow> (slot \<times> slot \<times> squeeze) option" where
  "find_free_chunks memory P s =
     (if memory then
        Option.bind (count_batches P FirstBatch s) (\<lambda>(pbatch, s).
        Option.bind (count_free P FreeList s) (\<lambda>(pblock, s). Some (pbatch, pblock, s)))
      else
        Option.bind (last_batch FirstBatch s) (\<lambda>pbatch.
        Option.bind (last_free FreeList s) (\<lambda>pblock. Some (pbatch, pblock, s))))"

section \<open>2. Unlinking\<close>

text \<open>The cursors of the two lists under construction, and the length of the one of blocks.\<close>

record adding =
  abatch :: slot
  ablock :: slot
  additionalBlocksListSize :: nat

text \<open>The additional blocks are a full batch: it joins the additional batches. The order of the writes is that of each call.\<close>

definition close_batch :: "adding \<Rightarrow> squeeze \<Rightarrow> adding \<times> squeeze" where
  "close_batch a s =
     (let b = store s AddBlocks;
          s = set_slot (abatch a) b s;
          s = set_slot (NextBatch b) 0 s;
          s = set_slot (ablock a) 0 s;
          s = set_slot AddBlocks 0 s
      in (\<lparr>abatch = NextBatch b, ablock = AddBlocks, additionalBlocksListSize = 0\<rparr>, s))"

text \<open>The inner loop: it follows kept blocks without writing, until one is releasable or the batch is full.\<close>

partial_function (option) follow :: "sq_params \<Rightarrow> nat \<Rightarrow> adding \<Rightarrow> squeeze \<Rightarrow> (nat \<times> adding \<times> squeeze) option" where
  "follow P block a s =
     (let a = a\<lparr>ablock := Next block\<rparr>; block = store s (Next block);
          n = additionalBlocksListSize a + 1; a = a\<lparr>additionalBlocksListSize := n\<rparr> in
      if n = sq_batch P then (case close_batch a s of (a, s) \<Rightarrow> Some (block, a, s))
      else if block \<noteq> 0 \<and> \<not> releasable P s block then follow P block a s
      else Some (block, a, s))"

partial_function (option) readd :: "sq_params \<Rightarrow> nat \<Rightarrow> adding \<Rightarrow> squeeze \<Rightarrow> (adding \<times> squeeze) option" where
  "readd P block a s =
     (if block = 0 then Some (a, s)
      else if \<not> releasable P s block then
        Option.bind (follow P block a (set_slot (ablock a) block s)) (\<lambda>(block, a, s). readd P block a s)
      else readd P (store s (Next block)) a s)"

partial_function (option) has_releasable :: "sq_params \<Rightarrow> nat \<Rightarrow> squeeze \<Rightarrow> bool option" where
  "has_releasable P block s =
     (if block = 0 then Some False
      else if releasable P s block then Some True
      else has_releasable P (store s (Next block)) s)"

partial_function (option) unlink_batches :: "sq_params \<Rightarrow> slot \<Rightarrow> adding \<Rightarrow> squeeze \<Rightarrow>
    (slot \<times> adding \<times> squeeze) option" where
  "unlink_batches P pbatch a s =
     (let b = store s pbatch in
      if b = 0 then Some (pbatch, a, s)
      else Option.bind (has_releasable P b s) (\<lambda>found.
        if found then
          (let nextBatch = store s (NextBatch b) in
           Option.bind (readd P b a s) (\<lambda>(a, s).
             unlink_batches P pbatch a (set_slot pbatch nextBatch (set_slot (ablock a) 0 s))))
        else unlink_batches P (NextBatch b) a s))"

partial_function (option) unlink_free :: "sq_params \<Rightarrow> nat \<Rightarrow> adding \<Rightarrow> squeeze \<Rightarrow> (adding \<times> squeeze) option" where
  "unlink_free P block a s =
     (if block = 0 then Some (a, s)
      else if \<not> releasable P s block then
        (let s = set_slot (ablock a) block s; block' = store s (Next block);
             a = a\<lparr>ablock := Next block\<rparr>; s = set_slot (Next block) 0 s;
             n = additionalBlocksListSize a + 1; a = a\<lparr>additionalBlocksListSize := n\<rparr> in
         if n = sq_batch P then
           (let b = store s AddBlocks;
                s = set_slot (abatch a) b s;
                s = set_slot (NextBatch b) 0 s;
                s = set_slot AddBlocks 0 s
            in unlink_free P block' \<lparr>abatch = NextBatch b, ablock = AddBlocks, additionalBlocksListSize = 0\<rparr> s)
         else unlink_free P block' a s)
      else unlink_free P (store s (Next block)) a s)"

text \<open>Joining the lists: the cursors that the return of the lists uses, and the size of the block list.\<close>

definition join_lists :: "slot \<Rightarrow> adding \<Rightarrow> squeeze \<Rightarrow> slot \<times> slot \<times> nat \<times> squeeze" where
  "join_lists pbatch a s =
     (let s = set_slot (abatch a) (store s pbatch) s;
          s = set_slot pbatch (store s AddBatches) s;
          pblock = ablock a;
          s = set_slot FreeList (store s AddBlocks) s
      in (pbatch, pblock, additionalBlocksListSize a, s))"

definition unlink :: "sq_params \<Rightarrow> squeeze \<Rightarrow> (slot \<times> slot \<times> nat \<times> squeeze) option" where
  "unlink P s =
     (let s = set_slot AddBlocks 0 (set_slot AddBatches 0 s);
          a = \<lparr>abatch = AddBatches, ablock = AddBlocks, additionalBlocksListSize = 0\<rparr> in
      Option.bind (unlink_batches P FirstBatch a s) (\<lambda>(pbatch, a, s).
      Option.bind (unlink_free P (store s FreeList) a s) (\<lambda>(a, s). Some (join_lists pbatch a s))))"

text \<open>The second critical section, on the cache as the other threads have left it.\<close>

definition give_back :: "slot \<Rightarrow> slot \<Rightarrow> nat \<Rightarrow> heads \<Rightarrow> squeeze \<Rightarrow> heads \<times> squeeze" where
  "give_back pbatch pblock n h s =
     (let s = set_slot pbatch (h_firstBatch h) s;
          h = h\<lparr>h_firstBatch := store s FirstBatch\<rparr>;
          s = set_slot pblock (h_freeList h) s
      in (h\<lparr>h_freeList := store s FreeList, h_freeListSize := h_freeListSize h + n\<rparr>, s))"

section \<open>3. Releasing\<close>

text \<open>Free chunks are put off up to the size of the pad, at least one when it is too small.\<close>

fun put_off :: "nat \<Rightarrow> nat \<Rightarrow> nat list \<Rightarrow> nat list \<times> nat \<times> nat list" where
  "put_off padsz n [] = ([], n, [])"
| "put_off padsz n (c # cs) =
     (let n = n + CHUNK_SIZE in
      if n < padsz \<and> cs \<noteq> [] then (case put_off padsz n cs of (first, n, cs) \<Rightarrow> (c # first, n, cs))
      else ([c], n, cs))"

definition keep_pad :: "nat \<Rightarrow> nat list \<Rightarrow> nat \<Rightarrow> nat list \<Rightarrow> nat list \<times> nat \<times> nat list" where
  "keep_pad padsz pad n chunks =
     (if padsz \<noteq> 0 \<and> n < padsz then
        (case put_off padsz n chunks of (first, n, rest) \<Rightarrow> (first @ pad, n, rest))
      else (pad, n, chunks))"

text \<open>
  One class from the first critical section to the end: the cache at the return (\<open>later\<close>, a function
  of what is left of it by the first section), and the chunks that go back to the system.
\<close>

definition ltsqueeze_class :: "bool \<Rightarrow> nat \<Rightarrow> (heads \<times> squeeze \<Rightarrow> heads \<times> squeeze) \<Rightarrow> nat \<Rightarrow> heads \<Rightarrow> squeeze \<Rightarrow>
    nat list \<Rightarrow> nat \<Rightarrow> (heads \<times> squeeze \<times> nat list \<times> nat \<times> nat list) option" where
  "ltsqueeze_class memory padsz later sizeClass h s pad padSize =
     (if h_maxChunkAddr h - h_minChunkAddr h \<le> CHUNK_SIZE then Some (h, s, pad, padSize, [])
      else
        (let P = \<lparr>sq_class = sizeClass, sq_min = h_minChunkAddr h\<rparr>;
             (n, h, s) = detach h s;
             s = s\<lparr>inChunkFreeBlocks := \<lambda>_. 0, firstFreeChunk := []\<rparr> in
         Option.bind (find_free_chunks memory P s) (\<lambda>(pbatch, pblock, s).
           if firstFreeChunk s \<noteq> [] then
             Option.bind (unlink P s) (\<lambda>(pbatch, pblock, n, s).
               let (h, s) = later (h, s); (h, s) = give_back pbatch pblock n h s;
                   (pad, padSize, released) = keep_pad padsz pad padSize (firstFreeChunk s)
               in Some (h, s, pad, padSize, released))
           else
             let (h, s) = later (h, s); (h, s) = give_back pbatch pblock n h s
             in Some (h, s, pad, padSize, []))))"
section \<open>Lists in the store\<close>

fun blist :: "(slot \<Rightarrow> nat) \<Rightarrow> nat \<Rightarrow> nat list \<Rightarrow> bool" where
  "blist m p [] = (p = 0)"
| "blist m p (x # xs) = (p = x \<and> x \<noteq> 0 \<and> blist m (m (Next x)) xs)"

text \<open>A chain of batches from the cell \<open>sl\<close> to the cell \<open>sl'\<close>.\<close>

fun bseg :: "(slot \<Rightarrow> nat) \<Rightarrow> slot \<Rightarrow> nat list list \<Rightarrow> slot \<Rightarrow> bool" where
  "bseg m sl [] sl' = (sl = sl')"
| "bseg m sl (b # bs) sl' = (b \<noteq> [] \<and> blist m (m sl) b \<and> bseg m (NextBatch (hd b)) bs sl')"

fun blists :: "(slot \<Rightarrow> nat) \<Rightarrow> nat \<Rightarrow> nat list list \<Rightarrow> bool" where
  "blists m p [] = (p = 0)"
| "blists m p (b # bs) = (b \<noteq> [] \<and> blist m p b \<and> blists m (m (NextBatch (hd b))) bs)"

definition last_slot :: "slot \<Rightarrow> nat list list \<Rightarrow> slot" where
  "last_slot sl bs = (if bs = [] then sl else NextBatch (hd (last bs)))"

definition last_link :: "slot \<Rightarrow> nat list \<Rightarrow> slot" where
  "last_link sl xs = (if xs = [] then sl else Next (last xs))"

lemma bseg_end: "bseg m sl bs sl' \<Longrightarrow> sl' = last_slot sl bs"
  by (induction m sl bs sl' rule: bseg.induct) (auto simp: last_slot_def split: if_splits)

lemma blist_frame:
  "blist m p xs \<Longrightarrow> (\<And>x. x \<in> set xs \<Longrightarrow> m' (Next x) = m (Next x)) \<Longrightarrow> blist m' p xs"
  by (induction m p xs rule: blist.induct) auto

lemma blist_unique: "blist m p xs \<Longrightarrow> blist m p ys \<Longrightarrow> xs = ys"
  by (induction m p xs arbitrary: ys rule: blist.induct) (case_tac ys; auto)+

section \<open>Counting finds the free chunks\<close>

definition chunk_count :: "nat list \<Rightarrow> nat \<Rightarrow> nat" where
  "chunk_count xs p = length (filter (\<lambda>x. chunk_of x = p) xs)"

text \<open>The state after the blocks \<open>D\<close> of all the blocks \<open>L\<close> have been counted.\<close>

definition counted :: "sq_params \<Rightarrow> nat list \<Rightarrow> nat list \<Rightarrow> squeeze \<Rightarrow> bool" where
  "counted P L D s \<longleftrightarrow>
     (\<forall>x \<in> set L. inChunkFreeBlocks s (chunk_index P x) = chunk_count D (chunk_of x)) \<and>
     (\<forall>x \<in> set L. headers s (chunk_of x) =
        (if chunk_count D (chunk_of x) = sq_num P then None else Some (sq_class P))) \<and>
     distinct (firstFreeChunk s) \<and>
     set (firstFreeChunk s) = chunk_of ` {x \<in> set D. chunk_count D (chunk_of x) = sq_num P}"

text \<open>The blocks counted lie at or after the first chunk of the class and fill no chunk more than once.\<close>

definition countable_blocks :: "sq_params \<Rightarrow> nat list \<Rightarrow> bool" where
  "countable_blocks P L \<longleftrightarrow> CHUNK_SIZE dvd sq_min P \<and> (\<forall>x \<in> set L. sq_min P \<le> x) \<and>
     (\<forall>x \<in> set L. chunk_count L (chunk_of x) \<le> sq_num P) \<and> 0 < sq_num P"

lemma chunk_index_iff:
  assumes "CHUNK_SIZE dvd m" and "m \<le> x" and "m \<le> y"
  shows "(x - m) div CHUNK_SIZE = (y - m) div CHUNK_SIZE \<longleftrightarrow> chunk_of x = chunk_of y"
proof -
  obtain j where m: "m = CHUNK_SIZE * j" using assms(1) by (rule dvdE)
  have e: "z div CHUNK_SIZE = (z - m) div CHUNK_SIZE + j" if "m \<le> z" for z
  proof -
    have "z = (z - m) + CHUNK_SIZE * j" using that m by simp
    then have "z div CHUNK_SIZE = ((z - m) + CHUNK_SIZE * j) div CHUNK_SIZE" by simp
    then show ?thesis by simp
  qed
  have "chunk_of z = CHUNK_SIZE * (z div CHUNK_SIZE)" for z
    unfolding chunk_of_def by (rule minus_mod_eq_mult_div)
  then show ?thesis using e [OF assms(2)] e [OF assms(3)] by simp
qed

lemma FREE_BLOCK_counted:
  assumes L: "countable_blocks P L" "L = D @ x # E" and s: "counted P L D s"
  obtains s' where "FREE_BLOCK P x s = Some s'" and "counted P L (D @ [x]) s'" and "store s' = store s"
proof -
  have xL: "x \<in> set L" using L(2) by simp
  have idx: "chunk_index P y = chunk_index P x \<longleftrightarrow> chunk_of y = chunk_of x" if "y \<in> set L" for y
    using L(1) that xL unfolding countable_blocks_def chunk_index_def by (intro chunk_index_iff) auto
  let ?n = "chunk_count D (chunk_of x)"
  have cnt: "inChunkFreeBlocks s (chunk_index P x) = ?n" using s xL by (simp add: counted_def)
  have new: "chunk_count (D @ [x]) p = chunk_count D p + (if p = chunk_of x then 1 else 0)" for p
    by (simp add: chunk_count_def)
  have "chunk_count L (chunk_of x) \<le> sq_num P" using L(1) xL by (simp add: countable_blocks_def)
  then have lt: "?n < sq_num P" by (simp add: L(2) chunk_count_def)
  define s1 where "s1 = s\<lparr>inChunkFreeBlocks := (inChunkFreeBlocks s)(chunk_index P x := ?n + 1)\<rparr>"
  have hd: "headers s (chunk_of x) = Some (sq_class P)" using s xL lt by (simp add: counted_def)
  have c1: "inChunkFreeBlocks s1 (chunk_index P y) = chunk_count (D @ [x]) (chunk_of y)" if "y \<in> set L" for y
    using s that idx [OF that] unfolding new by (auto simp: counted_def s1_def)
  have free: "set (firstFreeChunk s) = chunk_of ` {y \<in> set D. chunk_count D (chunk_of y) = sq_num P}"
    using s by (simp add: counted_def)
  show thesis
  proof (cases "?n + 1 = sq_num P")
    case False
    have 1: "FREE_BLOCK P x s = Some s1" using False cnt by (simp add: FREE_BLOCK_def Let_def s1_def)
    have "headers s1 (chunk_of y) = (if chunk_count (D @ [x]) (chunk_of y) = sq_num P then None else Some (sq_class P))"
      if "y \<in> set L" for y
      using s that False hd lt unfolding new by (auto simp: counted_def s1_def)
    moreover have "{y \<in> set (D @ [x]). chunk_count (D @ [x]) (chunk_of y) = sq_num P} =
        {y \<in> set D. chunk_count D (chunk_of y) = sq_num P}"
      using False lt unfolding new by auto
    ultimately have "counted P L (D @ [x]) s1" using s c1 free unfolding counted_def by (simp add: s1_def)
    with 1 show thesis by (rule that) (simp add: s1_def)
  next
    case True
    define s2 where "s2 = s1\<lparr>headers := (headers s1)(chunk_of x := None), firstFreeChunk := chunk_of x # firstFreeChunk s1\<rparr>"
    have 1: "FREE_BLOCK P x s = Some s2" using True cnt hd by (simp add: FREE_BLOCK_def Let_def s1_def s2_def)
    have "headers s2 (chunk_of y) = (if chunk_count (D @ [x]) (chunk_of y) = sq_num P then None else Some (sq_class P))"
      if "y \<in> set L" for y
      using s that True unfolding new by (auto simp: counted_def s1_def s2_def)
    moreover have "chunk_of ` {y \<in> set (D @ [x]). chunk_count (D @ [x]) (chunk_of y) = sq_num P} =
        insert (chunk_of x) (chunk_of ` {y \<in> set D. chunk_count D (chunk_of y) = sq_num P})"
      using True lt unfolding new by auto
    moreover have "chunk_of x \<notin> set (firstFreeChunk s)" using lt unfolding free by auto
    ultimately have "counted P L (D @ [x]) s2" using s c1 free unfolding counted_def by (simp add: s1_def s2_def)
    with 1 show thesis by (rule that) (simp add: s1_def s2_def)
  qed
qed

lemma count_blocks_ok:
  assumes "countable_blocks P L" and "L = D @ xs @ E" and "counted P L D s" and "blist (store s) p xs"
  shows "\<exists>s'. count_blocks P p s = Some s' \<and> counted P L (D @ xs) s' \<and> store s' = store s"
  using assms
proof (induction xs arbitrary: D p s)
  case Nil
  then show ?case by (simp add: count_blocks.simps)
next
  case (Cons x xs)
  obtain s1 where s1: "FREE_BLOCK P x s = Some s1" "counted P L (D @ [x]) s1" "store s1 = store s"
    by (rule FREE_BLOCK_counted [OF Cons.prems(1) _ Cons.prems(3), of x "xs @ E"]) (use Cons.prems(2) in auto)
  have "\<exists>s'. count_blocks P (store s (Next x)) s1 = Some s' \<and> counted P L ((D @ [x]) @ xs) s' \<and> store s' = store s1"
    by (rule Cons.IH) (use Cons.prems s1 in auto)
  then show ?case using Cons.prems(4) s1 by (subst count_blocks.simps) auto
qed

lemma count_batches_ok:
  assumes "countable_blocks P L" and "L = D @ concat bs @ E" and "counted P L D s"
    and "bseg (store s) sl bs sl'" and "store s sl' = 0"
  shows "\<exists>s'. count_batches P sl s = Some (sl', s') \<and> counted P L (D @ concat bs) s' \<and> store s' = store s"
  using assms
proof (induction bs arbitrary: D sl s)
  case Nil
  then show ?case by (simp add: count_batches.simps)
next
  case (Cons b bs)
  have b: "b \<noteq> []" "blist (store s) (store s sl) b" using Cons.prems(4) by auto
  then have hd: "store s sl = hd b" "hd b \<noteq> 0" by (cases b; auto)+
  obtain s1 where s1: "count_blocks P (hd b) s = Some s1" "counted P L (D @ b) s1" "store s1 = store s"
    using count_blocks_ok [OF Cons.prems(1) _ Cons.prems(3) b(2), of "concat bs @ E"] Cons.prems(2) hd by auto
  have "\<exists>s'. count_batches P (NextBatch (hd b)) s1 = Some (sl', s') \<and> counted P L ((D @ b) @ concat bs) s' \<and> store s' = store s1"
    by (rule Cons.IH) (use Cons.prems s1 in auto)
  then show ?case using s1 hd by (subst count_batches.simps) auto
qed

lemma count_free_ok:
  assumes "countable_blocks P L" and "L = D @ xs @ E" and "counted P L D s" and "blist (store s) (store s sl) xs"
  shows "\<exists>s'. count_free P sl s = Some (last_link sl xs, s') \<and> counted P L (D @ xs) s' \<and> store s' = store s"
  using assms
proof (induction xs arbitrary: D sl s)
  case Nil
  then show ?case by (simp add: count_free.simps last_link_def)
next
  case (Cons x xs)
  obtain s1 where s1: "FREE_BLOCK P x s = Some s1" "counted P L (D @ [x]) s1" "store s1 = store s"
    by (rule FREE_BLOCK_counted [OF Cons.prems(1) _ Cons.prems(3), of x "xs @ E"]) (use Cons.prems(2) in auto)
  have "\<exists>s'. count_free P (Next x) s1 = Some (last_link (Next x) xs, s') \<and> counted P L ((D @ [x]) @ xs) s' \<and> store s' = store s1"
    by (rule Cons.IH) (use Cons.prems s1 in auto)
  moreover have "last_link (Next x) xs = last_link sl (x # xs)" by (simp add: last_link_def)
  ultimately show ?case using Cons.prems(4) s1 by (subst count_free.simps) auto
qed
section \<open>Appending lists in the store\<close>

lemma blists_bseg:
  "blists m (m sl) bs \<Longrightarrow> bseg m sl bs (last_slot sl bs) \<and> m (last_slot sl bs) = 0"
proof (induction bs arbitrary: sl)
  case (Cons b bs)
  then show ?case using Cons.IH [of "NextBatch (hd b)"] by (cases bs) (auto simp: last_slot_def)
qed (simp add: last_slot_def)

lemma blists_frame:
  "blists m p bs \<Longrightarrow> (\<And>x. x \<in> set (concat bs) \<Longrightarrow> m' (Next x) = m (Next x)) \<Longrightarrow>
   (\<And>b. b \<in> set bs \<Longrightarrow> m' (NextBatch (hd b)) = m (NextBatch (hd b))) \<Longrightarrow> blists m' p bs"
proof (induction bs arbitrary: p)
  case (Cons b bs)
  then have "blist m' p b" using blist_frame [of m p b m'] by auto
  then show ?case using Cons by auto
qed simp

lemma blists_unique: "blists m p xs \<Longrightarrow> blists m p ys \<Longrightarrow> xs = ys"
proof (induction xs arbitrary: p ys)
  case Nil
  then show ?case by (cases ys) (auto elim: blist.elims)
next
  case (Cons b bs)
  then obtain c cs where ys: "ys = c # cs" by (cases ys) (auto elim: blist.elims)
  then have "b = c" using Cons.prems blist_unique by auto
  then show ?case using Cons ys by auto
qed

lemma blists_nonempty: "blists m p bs \<Longrightarrow> b \<in> set bs \<Longrightarrow> b \<noteq> []"
  by (induction m p bs rule: blists.induct) auto

lemma blist_append:
  "blist m p xs \<Longrightarrow> xs \<noteq> [] \<Longrightarrow> blist m q ys \<Longrightarrow> distinct (xs @ ys) \<Longrightarrow>
   blist (m(Next (last xs) := q)) p (xs @ ys)"
proof (induction xs arbitrary: p)
  case (Cons x xs)
  show ?case
  proof (cases "xs = []")
    case True
    then have "blist (m(Next x := q)) q ys" using Cons.prems by (intro blist_frame [OF Cons.prems(3)]) auto
    then show ?thesis using Cons.prems True by (simp del: fun_upd_apply add: fun_upd_same)
  next
    case False
    then have "x \<noteq> last xs" using Cons.prems(4) by auto
    then show ?thesis using Cons False by auto
  qed
qed simp

lemma blists_append:
  "blists m p bs \<Longrightarrow> bs \<noteq> [] \<Longrightarrow> blists m q cs \<Longrightarrow> distinct (concat bs @ concat cs) \<Longrightarrow>
   blists (m(NextBatch (hd (last bs)) := q)) p (bs @ cs)"
proof (induction bs arbitrary: p)
  case (Cons b bs)
  let ?m = "m(NextBatch (hd (last (b # bs))) := q)"
  have b: "b \<noteq> []" "blist m p b" using Cons.prems(1) by auto
  have b': "blist ?m p b" by (rule blist_frame [OF b(2)]) simp
  have hds: "hd c \<in> set c" if "c \<in> set (b # bs @ cs)" for c
    using that blists_nonempty [OF Cons.prems(1)] blists_nonempty [OF Cons.prems(3)] by fastforce
  show ?case
  proof (cases "bs = []")
    case True
    have "blists ?m q cs"
    proof (rule blists_frame [OF Cons.prems(3)])
      fix c assume c: "c \<in> set cs"
      have "hd b \<noteq> hd c" using Cons.prems(4) hds [of b] hds [of c] c by auto
      then show "?m (NextBatch (hd c)) = m (NextBatch (hd c))" using True by simp
    qed simp
    then show ?thesis using True b b' by (simp del: fun_upd_apply add: fun_upd_same)
  next
    case False
    then have l: "last bs \<in> set bs" by simp
    have "hd b \<noteq> hd (last bs)" using l Cons.prems(4) hds [of b] hds [of "last bs"] by auto
    then have "?m (NextBatch (hd b)) = m (NextBatch (hd b))" using False by simp
    moreover have "blists ?m (m (NextBatch (hd b))) (bs @ cs)"
      using Cons.IH [of "m (NextBatch (hd b))"] Cons.prems False by (simp del: fun_upd_apply)
    ultimately show ?thesis using b(1) b' by (simp del: fun_upd_apply)
  qed
qed simp

text \<open>Two lists are joined at the end of the first, wherever that is.\<close>

lemma join_blists:
  assumes "blists m (m sl) bs" and "blists m q cs" and "distinct (concat bs @ concat cs)"
    and "\<And>b. sl \<noteq> NextBatch b" and "\<And>b. sl \<noteq> Next b"
  shows "blists (m(last_slot sl bs := q)) ((m(last_slot sl bs := q)) sl) (bs @ cs)"
proof (cases "bs = []")
  case True
  then show ?thesis using blists_frame [OF assms(2), of "m(sl := q)"] assms(4,5)
    by (simp add: last_slot_def) (metis fun_upd_other)
next
  case False
  then show ?thesis using blists_append [OF assms(1) False assms(2,3)] assms(4) [of "hd (last bs)"]
    by (simp add: last_slot_def)
qed

lemma join_blist:
  assumes "blist m (m sl) xs" and "blist m q ys" and "distinct (xs @ ys)" and "\<And>b. sl \<noteq> Next b"
  shows "blist (m(last_link sl xs := q)) ((m(last_link sl xs := q)) sl) (xs @ ys)"
proof (cases "xs = []")
  case True
  then show ?thesis using blist_frame [OF assms(2), of "m(sl := q)"] assms(4)
    by (simp add: last_link_def) (metis fun_upd_other)
next
  case False
  then show ?thesis using blist_append [OF assms(1) False assms(2,3)] assms(4) [of "last xs"]
    by (simp add: last_link_def)
qed
section \<open>What squeezing does\<close>

text \<open>
  The lists detached from the cache of a class: the batches from \<open>FirstBatch\<close>, the blocks from
  \<open>FreeList\<close>, all different, each a block of the class in a chunk that is not below the first one.
\<close>

definition detached :: "sq_params \<Rightarrow> nat list list \<Rightarrow> nat list \<Rightarrow> squeeze \<Rightarrow> bool" where
  "detached P bs fl s \<longleftrightarrow>
     blists (store s) (store s FirstBatch) bs \<and> blist (store s) (store s FreeList) fl \<and>
     distinct (concat bs @ fl) \<and> CHUNK_SIZE dvd sq_min P \<and>
     (\<forall>x \<in> set (concat bs @ fl). sq_min P \<le> x \<and> x \<in> set (chunk_blocks (sq_class P) (chunk_of x)) \<and>
        headers s (chunk_of x) = Some (sq_class P)) \<and>
     (\<forall>i. inChunkFreeBlocks s i = 0) \<and> firstFreeChunk s = []"

lemma chunk_count_card:
  "distinct L \<Longrightarrow> chunk_count L p = card {x \<in> set L. chunk_of x = p}"
  unfolding chunk_count_def by (metis distinct_card distinct_filter set_filter)

lemma sq_num_eq: "\<not> CHUNK_IS_SMALL (sq_class P) \<Longrightarrow> sq_num P = numBlocksInChunk (sq_class P)"
  by (simp add: sq_num_def numBlocksInChunk_def)

lemma card_chunk_blocks: "valid_class c \<Longrightarrow> card (set (chunk_blocks c p)) = numBlocksInChunk c"
  using valid_size [of c] by (simp add: chunk_blocks_def distinct_card distinct_grid)

lemma detached_count:
  assumes d: "detached P bs fl s" and v: "valid_class (sq_class P)" "\<not> CHUNK_IS_SMALL (sq_class P)"
  shows "countable_blocks P (concat bs @ fl)"
    and "x \<in> set (concat bs @ fl) \<Longrightarrow> chunk_count (concat bs @ fl) (chunk_of x) = sq_num P \<longleftrightarrow>
      set (chunk_blocks (sq_class P) (chunk_of x)) \<subseteq> set (concat bs @ fl)"
proof -
  let ?L = "concat bs @ fl" and ?c = "sq_class P"
  have dist: "distinct ?L" using d by (simp only: detached_def)
  have sub: "{y \<in> set ?L. chunk_of y = p} \<subseteq> set (chunk_blocks ?c p)" for p
    using d unfolding detached_def by blast
  have n: "card (set (chunk_blocks ?c p)) = sq_num P" for p
    using card_chunk_blocks [OF v(1)] sq_num_eq [OF v(2)] by simp
  have "chunk_count ?L p \<le> sq_num P" for p
    unfolding chunk_count_card [OF dist] n [of p, symmetric] by (rule card_mono [OF _ sub]) simp
  then show "countable_blocks P ?L"
    using d numBlocks(1) [OF v(1)] sq_num_eq [OF v(2)] unfolding countable_blocks_def detached_def by auto
  assume x: "x \<in> set ?L"
  have al: "CHUNK_SIZE dvd chunk_of x" by (simp add: chunk_of_def minus_mod_eq_mult_div)
  have own: "chunk_of y = chunk_of x" if "y \<in> set (chunk_blocks ?c (chunk_of x))" for y
    using chunk_of_block(1) [OF v(1) that al] .
  show "chunk_count ?L (chunk_of x) = sq_num P \<longleftrightarrow> set (chunk_blocks ?c (chunk_of x)) \<subseteq> set ?L"
  proof
    assume "chunk_count ?L (chunk_of x) = sq_num P"
    then have "card {y \<in> set ?L. chunk_of y = chunk_of x} = card (set (chunk_blocks ?c (chunk_of x)))"
      unfolding chunk_count_card [OF dist] n .
    then have "{y \<in> set ?L. chunk_of y = chunk_of x} = set (chunk_blocks ?c (chunk_of x))"
      by (intro card_subset_eq sub) auto
    then show "set (chunk_blocks ?c (chunk_of x)) \<subseteq> set ?L" by blast
  next
    assume "set (chunk_blocks ?c (chunk_of x)) \<subseteq> set ?L"
    then have "{y \<in> set ?L. chunk_of y = chunk_of x} = set (chunk_blocks ?c (chunk_of x))"
      using sub own by blast
    then show "chunk_count ?L (chunk_of x) = sq_num P" unfolding chunk_count_card [OF dist] by (simp add: n)
  qed
qed

lemma find_free_chunks_ok:
  assumes d: "detached P bs fl s" and v: "valid_class (sq_class P)" "\<not> CHUNK_IS_SMALL (sq_class P)"
  shows "\<exists>s'. find_free_chunks True P s = Some (last_slot FirstBatch bs, last_link FreeList fl, s') \<and>
    store s' = store s \<and> counted P (concat bs @ fl) (concat bs @ fl) s'"
proof -
  let ?L = "concat bs @ fl"
  note c = detached_count(1) [OF d v]
  have num: "sq_num P \<noteq> 0" using c by (simp add: countable_blocks_def)
  have c0: "counted P ?L [] s" using d num by (auto simp: counted_def chunk_count_def detached_def)
  have bs: "bseg (store s) FirstBatch bs (last_slot FirstBatch bs)" "store s (last_slot FirstBatch bs) = 0"
    using blists_bseg [of "store s" FirstBatch bs] d by (simp_all add: detached_def)
  obtain s1 where s1: "count_batches P FirstBatch s = Some (last_slot FirstBatch bs, s1)"
    "counted P ?L (concat bs) s1" "store s1 = store s"
    using count_batches_ok [OF c _ c0 bs, of fl] by auto
  have "blist (store s1) (store s1 FreeList) fl" using d s1(3) by (simp add: detached_def)
  from count_free_ok [OF c _ s1(2) this, of "[]"]
  obtain s2 where "count_free P FreeList s1 = Some (last_link FreeList fl, s2)"
    "counted P ?L ?L s2" "store s2 = store s1" by auto
  with s1 show ?thesis by (simp add: find_free_chunks_def)
qed

text \<open>
  C24. Squeezing finds exactly the free chunks: from the detached lists of a class it collects, each
  once, the chunks all of whose blocks are in the lists, without failing an assertion or changing a link.
\<close>

theorem lt_squeeze_free_chunks:
  assumes d: "detached P bs fl s" and v: "valid_class (sq_class P)" "\<not> CHUNK_IS_SMALL (sq_class P)"
  shows "\<exists>pbatch pblock s'. find_free_chunks True P s = Some (pbatch, pblock, s') \<and> store s' = store s \<and>
    distinct (firstFreeChunk s') \<and>
    set (firstFreeChunk s') = {p. CHUNK_SIZE dvd p \<and> set (chunk_blocks (sq_class P) p) \<subseteq> set (concat bs @ fl)}"
proof -
  let ?L = "concat bs @ fl" and ?c = "sq_class P"
  obtain s' where s': "find_free_chunks True P s = Some (last_slot FirstBatch bs, last_link FreeList fl, s')"
    "store s' = store s" "counted P ?L ?L s'" using find_free_chunks_ok [OF assms] by blast
  have "chunk_of ` {x \<in> set ?L. chunk_count ?L (chunk_of x) = sq_num P} =
      {p. CHUNK_SIZE dvd p \<and> set (chunk_blocks ?c p) \<subseteq> set ?L}"
  proof (intro set_eqI iffI)
    fix p assume "p \<in> chunk_of ` {x \<in> set ?L. chunk_count ?L (chunk_of x) = sq_num P}"
    then show "p \<in> {p. CHUNK_SIZE dvd p \<and> set (chunk_blocks ?c p) \<subseteq> set ?L}"
      using detached_count(2) [OF d v] by (auto simp: chunk_of_def minus_mod_eq_mult_div)
  next
    fix p assume p: "p \<in> {p. CHUNK_SIZE dvd p \<and> set (chunk_blocks ?c p) \<subseteq> set ?L}"
    have "set (chunk_blocks ?c p) \<noteq> {}" using card_chunk_blocks [OF v(1), of p] numBlocks(1) [OF v(1)] by auto
    then obtain x where x: "x \<in> set (chunk_blocks ?c p)" by (metis all_not_in_conv)
    then have "chunk_of x = p" "x \<in> set ?L" using chunk_of_block(1) [OF v(1)] p by auto
    then show "p \<in> chunk_of ` {x \<in> set ?L. chunk_count ?L (chunk_of x) = sq_num P}"
      using detached_count(2) [OF d v, of x] p by auto
  qed
  then show ?thesis using s' unfolding counted_def by auto
qed

text \<open>
  Dissolving batches loses blocks: the additional batches made of the kept blocks of dissolved batches
  are hooked to the end of the kept batches, but the return of the lists overwrites that very link, so
  the cache gets the kept batches and those it had, whatever was added; and when no additional block is left
  over, the blocks that other threads put on the free list of the cache meanwhile are cut off while
  they are still counted.
\<close>

lemma lt_squeeze_drops_batches:
  assumes kept: "blists (store s) (store s FirstBatch) kept" "pbatch = last_slot FirstBatch kept"
    and add: "blists (store s) (store s AddBatches) added" "abatch a = last_slot AddBatches added"
    and blk: "blist (store s) (store s AddBlocks) left" "ablock a = last_link AddBlocks left"
    and now: "blists (store s) (h_firstBatch h) now"
    and dist: "distinct (concat kept @ concat added @ left @ concat now)"
    and j: "join_lists pbatch a s = (pb, pl, n, s1)" and g: "give_back pb pl n h s1 = (h', s')"
  shows "(\<forall>bs. blists (store s') (h_firstBatch h') bs \<longleftrightarrow> bs = kept @ now) \<and>
    (left = [] \<longrightarrow> h_freeList h' = 0 \<and> h_freeListSize h' = h_freeListSize h + additionalBlocksListSize a)"
proof -
  let ?e = "last_slot FirstBatch kept" and ?ab = "last_slot AddBatches added" and ?l = "last_link AddBlocks left"
  have hds: "hd b \<in> set b" if "b \<in> set (kept @ added @ now)" for b
    using that blists_nonempty [OF kept(1)] blists_nonempty [OF add(1)] blists_nonempty [OF now] by auto
  have ends: "?e = FirstBatch \<or> (\<exists>b \<in> set kept. ?e = NextBatch (hd b))"
    "?ab = AddBatches \<or> (\<exists>b \<in> set added. ?ab = NextBatch (hd b))"
    "?l = AddBlocks \<or> (\<exists>x \<in> set left. ?l = Next x)"
    by (auto simp: last_slot_def last_link_def intro!: bexI [of _ "last _"])
  have apart: "hd b \<noteq> hd c" if "b \<in> set kept" "c \<in> set added \<union> set now" for b c
    using that hds [of b] hds [of c] dist by auto
  have apart': "hd b \<noteq> hd c" if "b \<in> set added" "c \<in> set now" for b c
    using that hds [of b] hds [of c] dist by auto
  define m where "m = (store s)(?ab := 0, FreeList := store s AddBlocks, ?l := h_freeList h)"
  have e0: "store s ?e = 0" using blists_bseg [OF kept(1)] by simp
  have ne: "?e \<noteq> ?ab" "?e \<noteq> FreeList" "?e \<noteq> ?l" "?e \<noteq> AddBlocks" "?ab \<noteq> FreeList" "?ab \<noteq> ?l" "?ab \<noteq> AddBlocks"
    "?e \<noteq> AddBatches" "?ab \<noteq> FirstBatch" "?l \<noteq> FreeList" "?l \<noteq> FirstBatch"
    using ends apart by auto
  have st: "store s' = m(?e := h_firstBatch h)" "h_firstBatch h' = store s' FirstBatch"
    "h_freeList h' = store s' FreeList" "h_freeListSize h' = h_freeListSize h + additionalBlocksListSize a"
    using j g ne e0 kept(2) add(2) blk(2)
    by (auto simp: join_lists_def give_back_def set_slot_def Let_def m_def fun_eq_iff)
  have nx: "m (Next x) = store s (Next x)" if "x \<in> set (concat kept @ concat now)" for x
  proof -
    have "x \<notin> set left" using that dist by auto
    then show ?thesis using ends(2,3) by (auto simp: m_def)
  qed
  have nb: "m (NextBatch (hd b)) = store s (NextBatch (hd b))" if "b \<in> set kept \<union> set now" for b
    using that ends(2,3) apart apart' by (fastforce simp: m_def)
  have "m FirstBatch = store s FirstBatch" using ends(2,3) by (auto simp: m_def)
  then have k: "blists m (m FirstBatch) kept"
    using blists_frame [OF kept(1), of m] nx nb by simp
  have w: "blists m (h_firstBatch h) now" using blists_frame [OF now, of m] nx nb by simp
  have "distinct (concat kept @ concat now)" using dist by auto
  then have "blists (store s') (h_firstBatch h') (kept @ now)"
    unfolding st(1,2) by (intro join_blists [OF k w]) auto
  then have 1: "blists (store s') (h_firstBatch h') bs \<longleftrightarrow> bs = kept @ now" for bs
    using blists_unique by blast
  have "h_freeList h' = 0" if "left = []"
  proof -
    have "store s AddBlocks = 0" "?l = AddBlocks" using blk(1) that by (simp_all add: last_link_def)
    then show ?thesis using ne unfolding st(1,3) by (simp add: m_def)
  qed
  with 1 st(4) show ?thesis by blast
qed


text \<open>Two blocks of a chunk in use, put together from two dissolved batches of class 60, are lost.\<close>

definition sq_example :: squeeze where
  "sq_example = \<lparr>store = (\<lambda>_. 0)(AddBatches := 200064, Next 200064 := 220544, FirstBatch := 0),
     inChunkFreeBlocks = \<lambda>_. 0, headers = \<lambda>_. None, firstFreeChunk = []\<rparr>"

lemma lt_squeeze_drops_batches_witness:
  "\<exists>pb pl n s1 h' s'.
     join_lists FirstBatch \<lparr>abatch = NextBatch 200064, ablock = AddBlocks, additionalBlocksListSize = 0\<rparr> sq_example
       = (pb, pl, n, s1) \<and>
     give_back pb pl n \<lparr>h_firstBatch = 0, h_freeList = 0, h_freeListSize = 0, h_minChunkAddr = 0, h_maxChunkAddr = 0\<rparr> s1
       = (h', s') \<and>
     blists (store sq_example) (store sq_example AddBatches) [[200064, 220544]] \<and>
     blists (store s') (h_firstBatch h') []"
proof -
  let ?a = "\<lparr>abatch = NextBatch 200064, ablock = AddBlocks, additionalBlocksListSize = 0\<rparr>"
  let ?h = "\<lparr>h_firstBatch = 0, h_freeList = 0, h_freeListSize = 0, h_minChunkAddr = 0, h_maxChunkAddr = 0\<rparr>"
  obtain pb pl n s1 where j: "join_lists FirstBatch ?a sq_example = (pb, pl, n, s1)"
    by (metis prod_cases4)
  obtain h' s' where g: "give_back pb pl n ?h s1 = (h', s')" by fastforce
  have b: "blists (store sq_example) (store sq_example AddBatches) [[200064, 220544]]"
    by (simp add: sq_example_def)
  have "\<forall>bs. blists (store s') (h_firstBatch h') bs \<longleftrightarrow> bs = [] @ []"
    by (rule conjunct1 [OF lt_squeeze_drops_batches [where kept = "[]" and now = "[]" and left = "[]",
            OF _ _ b _ _ _ _ _ j g]])
      (simp_all add: sq_example_def last_slot_def last_link_def)
  then have "blists (store s') (h_firstBatch h') []" by (drule_tac spec [of _ "[]"]) simp
  with j g b show ?thesis by blast
qed

text \<open>
  When no chunk is free, or there is no memory for the counters, the lists go back whole: behind them
  come those the cache has got from other threads meanwhile, and the count of free blocks is the sum.
\<close>

lemma lt_squeeze_returns_lists:
  assumes d: "detached P bs fl s" and v: "valid_class (sq_class P)" "\<not> CHUNK_IS_SMALL (sq_class P)"
    and f: "find_free_chunks memory P s = Some (pbatch, pblock, s1)"
    and now: "blists (store s1) (h_firstBatch h) bs'" "blist (store s1) (h_freeList h) fl'"
    and dist: "distinct ((concat bs @ concat bs') @ (fl @ fl'))"
    and g: "give_back pbatch pblock n h s1 = (h', s')"
  shows "blists (store s') (h_firstBatch h') (bs @ bs') \<and> blist (store s') (h_freeList h') (fl @ fl') \<and>
    h_freeListSize h' = h_freeListSize h + n"
proof -
  let ?e = "last_slot FirstBatch bs" and ?l = "last_link FreeList fl"
  have rep: "blists (store s) (store s FirstBatch) bs" "blist (store s) (store s FreeList) fl"
    using d by (simp_all add: detached_def)
  have lb: "blists (store t) (store t sl) cs \<Longrightarrow> last_batch sl t = Some (last_slot sl cs)" for t sl cs
  proof (induction cs arbitrary: sl)
    case (Cons c cs)
    then have c: "store t sl = hd c" "hd c \<noteq> 0" by (cases c; auto)+
    have "last_batch (NextBatch (hd c)) t = Some (last_slot (NextBatch (hd c)) cs)" using Cons by simp
    then show ?case using c by (subst last_batch.simps) (simp add: last_slot_def)
  qed (simp add: last_batch.simps last_slot_def)
  have lf: "blist (store t) (store t sl) xs \<Longrightarrow> last_free sl t = Some (last_link sl xs)" for t sl xs
  proof (induction xs arbitrary: sl)
    case (Cons x xs)
    then have "last_free (Next x) t = Some (last_link (Next x) xs)" by simp
    then show ?case using Cons.prems by (subst last_free.simps) (simp add: last_link_def)
  qed (simp add: last_free.simps last_link_def)
  have s1: "pbatch = ?e" "pblock = ?l" "store s1 = store s"
  proof -
    have "pbatch = ?e \<and> pblock = ?l \<and> store s1 = store s"
    proof (cases memory)
      case True
      then show ?thesis using f find_free_chunks_ok [OF d v] by auto
    next
      case False
      then show ?thesis using f lb [OF rep(1)] lf [OF rep(2)] by (simp add: find_free_chunks_def)
    qed
    then show "pbatch = ?e" "pblock = ?l" "store s1 = store s" by blast+
  qed
  define m1 where "m1 = (store s)(?e := h_firstBatch h)"
  have ends: "?e = FirstBatch \<or> (\<exists>b. ?e = NextBatch b)" "?l = FreeList \<or> (\<exists>x \<in> set fl. ?l = Next x)"
    by (auto simp: last_slot_def last_link_def intro!: bexI [of _ "last _"])
  then have ne: "?e \<noteq> ?l" "?e \<noteq> FreeList" "?l \<noteq> FirstBatch" by auto
  have st: "store s' = m1(?l := h_freeList h)" "h_firstBatch h' = m1 FirstBatch"
    "h_freeList h' = store s' FreeList" "h_freeListSize h' = h_freeListSize h + n"
    using g ne unfolding s1 give_back_def set_slot_def Let_def m1_def by (auto simp: s1(3))
  have "blists m1 (m1 FirstBatch) (bs @ bs')"
    unfolding m1_def by (rule join_blists) (use rep(1) now(1) dist s1(3) in auto)
  then have 1: "blists (store s') (h_firstBatch h') (bs @ bs')"
    unfolding st(1,2) by (rule blists_frame) (use ends(2) dist in auto)
  have m1n: "m1 (Next x) = store s (Next x)" "m1 FreeList = store s FreeList" for x
    using ends(1) by (auto simp: m1_def)
  have "blist m1 (m1 FreeList) fl" "blist m1 (h_freeList h) fl'"
    using blist_frame [OF rep(2), of m1] blist_frame [OF now(2), of m1] m1n s1(3) by auto
  then have "blist (store s') (h_freeList h') (fl @ fl')"
    unfolding st(1,3) by (intro join_blist) (use dist in auto)
  with 1 st(4) show ?thesis by blast
qed
text \<open>The one block of a chunk of the largest class.\<close>

definition sq_largest :: sq_params where "sq_largest = \<lparr>sq_class = 66, sq_min = 65536\<rparr>"

definition sq_one_free :: squeeze where
  "sq_one_free = \<lparr>store = (\<lambda>_. 0)(FreeList := 73728), inChunkFreeBlocks = \<lambda>_. 0,
     headers = (\<lambda>_. None)(65536 \<mapsto> 66), firstFreeChunk = []\<rparr>"

lemma largest_class:
  "valid_class 66" "\<not> CHUNK_IS_SMALL 66" "class_to_size 66 = 57344" "chunk_blocks 66 65536 = [73728]"
  "chunk_of 73728 = 65536"
proof -
  have "get_size_class 57344 = 66"
    by (simp add: get_size_class_def round_up_def Let_def or_nat_numerals bsr_numeral)
  then show "valid_class 66" unfolding valid_class_def by (intro exI [of _ 57344]) simp
  show s: "\<not> CHUNK_IS_SMALL 66" by (simp add: CHUNK_IS_SMALL_def get_size_class_16)
  have "(3::nat) OR 4 = 7" by simp
  then show c: "class_to_size 66 = 57344" by (simp add: class_to_size_def Let_def)
  show "chunk_blocks 66 65536 = [73728]"
    using s by (simp add: chunk_blocks_def numBlocksInChunk_def c grid_def)
  show "chunk_of 73728 = 65536" by (simp add: chunk_of_def)
qed

lemma sq_one_free_detached: "detached sq_largest [] [73728] sq_one_free"
  by (simp add: detached_def sq_largest_def sq_one_free_def largest_class)

theorem lt_squeeze_free_chunks_witness:
  "\<exists>pbatch pblock s'. find_free_chunks True sq_largest sq_one_free = Some (pbatch, pblock, s') \<and>
    65536 \<in> set (firstFreeChunk s')"
proof -
  obtain pbatch pblock s' where "find_free_chunks True sq_largest sq_one_free = Some (pbatch, pblock, s')"
    "set (firstFreeChunk s') = {p. CHUNK_SIZE dvd p \<and>
       set (chunk_blocks (sq_class sq_largest) p) \<subseteq> set (concat [] @ [73728])}"
    using lt_squeeze_free_chunks [OF sq_one_free_detached] largest_class(1,2) by (auto simp: sq_largest_def)
  moreover have "CHUNK_SIZE dvd 65536" by simp
  ultimately show ?thesis using largest_class(4) by (simp add: sq_largest_def)
qed

lemma lt_squeeze_returns_lists_witness:
  "\<exists>pbatch pblock s1 h' s'. find_free_chunks False sq_largest sq_one_free = Some (pbatch, pblock, s1) \<and>
    give_back pbatch pblock 1
      \<lparr>h_firstBatch = 0, h_freeList = 0, h_freeListSize = 0, h_minChunkAddr = 65536, h_maxChunkAddr = 262144\<rparr> s1
      = (h', s') \<and>
    blist (store s') (h_freeList h') [73728] \<and> h_freeListSize h' = 1"
proof -
  let ?h = "\<lparr>h_firstBatch = 0, h_freeList = 0, h_freeListSize = 0, h_minChunkAddr = 65536, h_maxChunkAddr = 262144\<rparr>"
  have f: "find_free_chunks False sq_largest sq_one_free = Some (FirstBatch, Next 73728, sq_one_free)"
    by (simp add: find_free_chunks_def sq_one_free_def last_batch.simps last_free.simps Let_def)
  obtain h' s' where g: "give_back FirstBatch (Next 73728) 1 ?h sq_one_free = (h', s')" by fastforce
  have "blists (store s') (h_firstBatch h') ([] @ []) \<and> blist (store s') (h_freeList h') ([73728] @ []) \<and>
      h_freeListSize h' = h_freeListSize ?h + 1"
    by (rule lt_squeeze_returns_lists [OF sq_one_free_detached _ _ f _ _ _ g])
      (simp_all add: sq_largest_def largest_class)
  then show ?thesis using f g by auto
qed

end
