(* ===== verification/MicroAlloc.thy ===== *)
theory MicroAlloc
  imports Prelude
begin

text \<open>
  \<open>MicroAllocator/MicroAllocator.inl\<close>: blocks of up to 1024 bytes from chunks of equal blocks, one family of
  chunks per size class, and a sorted array of the chunks obtained later, which tells by
  its address where a block belongs. A \<open>MemoryChunk\<close> is named by its size class, by the
  \<open>MemoryChunkChunk\<close> that holds it (its address, 0 for the one embedded in the class), and by its index there;
  a free list is the list of its blocks. Answers of \<open>malloc\<close> are arguments; the debug assertions are
  on, a failed one is \<open>None\<close>. The lock makes each operation one step.
\<close>

type_synonym chunk_ref = "nat \<times> nat \<times> nat"

definition MAX_ALLOCATION_SIZE :: nat where "MAX_ALLOCATION_SIZE = 1024"
definition MAX_ALLOCATORS :: nat where "MAX_ALLOCATORS = 17"
definition DEFAULT_CHUNKS :: nat where "DEFAULT_CHUNKS = 32"

record memory_chunk =
  mMyHeap :: bool
  mData :: nat
  mDataEnd :: nat
  mUsedCount :: nat
  mFreeList :: "nat list"
  mChunkSize :: nat

record micro_chunk =
  mMemStart :: nat
  mMemEnd :: nat
  mChunk :: chunk_ref

record micro =
  mFixedSize :: nat
  mChunkStart :: nat
  mChunkEnd :: nat
  mMaxMicroChunks :: nat
  mMicroChunks :: "micro_chunk list"
  mLastMicroChunk :: "nat option"
  mChunks :: "chunk_ref \<Rightarrow> memory_chunk"
  mGroups :: "nat \<Rightarrow> nat list"
  mCurrent :: "nat \<Rightarrow> nat \<times> nat"

section \<open>One chunk\<close>

definition MemoryChunk :: memory_chunk where
  "MemoryChunk = \<lparr>mMyHeap = False, mData = 0, mDataEnd = 0, mUsedCount = 0, mFreeList = [], mChunkSize = 0\<rparr>"

text \<open>
  \<open>init\<close> links the blocks in order. Its loop runs to \<open>maxChunks - 1\<close> as an unsigned number: without a
  single block it would not end before it has overwritten the memory, here \<open>None\<close>.
\<close>

definition chunk_init :: "nat \<Rightarrow> nat \<Rightarrow> nat \<Rightarrow> memory_chunk \<Rightarrow> memory_chunk option" where
  "chunk_init chunkBase chunkSize maxChunks c =
     (if maxChunks = 0 then None
      else Some (c\<lparr>mChunkSize := chunkSize, mData := chunkBase, mDataEnd := chunkBase + chunkSize * maxChunks,
        mFreeList := grid chunkBase chunkSize maxChunks\<rparr>))"

section \<open>The sorted array of chunks\<close>

definition inside :: "nat \<Rightarrow> micro_chunk \<Rightarrow> bool" where
  "inside p mc = (mMemStart mc \<le> p \<and> p < mMemEnd mc)"

definition isInside :: "nat \<Rightarrow> memory_chunk \<Rightarrow> bool" where
  "isInside p c = (mData c \<le> p \<and> p < mDataEnd c)"

text \<open>The insertion: before the first element that starts after the end of the new one; its index.\<close>

fun insert_micro :: "micro_chunk \<Rightarrow> micro_chunk list \<Rightarrow> nat \<times> micro_chunk list" where
  "insert_micro x [] = (0, [x])"
| "insert_micro x (y # ys) =
     (if mMemEnd x < mMemStart y then (0, x # y # ys)
      else (case insert_micro x ys of (i, zs) \<Rightarrow> (Suc i, y # zs)))"

definition addMicroChunk :: "nat \<Rightarrow> nat \<Rightarrow> chunk_ref \<Rightarrow> micro \<Rightarrow> micro" where
  "addMicroChunk memStart memEnd r m =
     (let mx = (if mMaxMicroChunks m \<le> length (mMicroChunks m)
                then (if mMaxMicroChunks m = 0 then 64 else mMaxMicroChunks m * 2) else mMaxMicroChunks m);
          (i, xs) = insert_micro \<lparr>mMemStart = memStart, mMemEnd = memEnd, mChunk = r\<rparr> (mMicroChunks m)
      in m\<lparr>mMaxMicroChunks := mx, mMicroChunks := xs, mLastMicroChunk := Some i\<rparr>)"

text \<open>\<open>None\<close>: the assertion that the chunk was found.\<close>

fun remove_micro :: "chunk_ref \<Rightarrow> micro_chunk list \<Rightarrow> micro_chunk list option" where
  "remove_micro r [] = None"
| "remove_micro r (y # ys) = (if mChunk y = r then Some ys else map_option ((#) y) (remove_micro r ys))"

definition removeMicroChunk :: "chunk_ref \<Rightarrow> micro \<Rightarrow> micro option" where
  "removeMicroChunk r m =
     map_option (\<lambda>xs. m\<lparr>mLastMicroChunk := None, mMicroChunks := xs\<rparr>) (remove_micro r (mMicroChunks m))"

text \<open>The index found, if any, between \<open>low\<close> and \<open>high\<close>.\<close>

function binarySearch :: "micro_chunk list \<Rightarrow> nat \<Rightarrow> nat \<Rightarrow> nat \<Rightarrow> nat option" where
  "binarySearch xs p low high =
     (if high \<le> low then None
      else
        let mid = (high - low) div 2 + low; mc = xs ! mid in
        if inside p mc then Some mid
        else if mMemEnd mc < p then binarySearch xs p (mid + 1) high
        else binarySearch xs p low mid)"
  by pat_completeness auto
termination
  by (relation "measure (\<lambda>(xs, p, low, high). high - low)") auto

declare binarySearch.simps [simp del]

fun linearSearch :: "micro_chunk list \<Rightarrow> nat \<Rightarrow> nat option" where
  "linearSearch [] p = None"
| "linearSearch (x # xs) p = (if inside p x then Some 0 else map_option Suc (linearSearch xs p))"

definition search_micro :: "micro_chunk list \<Rightarrow> nat \<Rightarrow> nat option" where
  "search_micro xs p = (if 4 \<le> length xs then binarySearch xs p 0 (length xs) else linearSearch xs p)"

definition isMicroAlloc :: "nat \<Rightarrow> micro \<Rightarrow> (chunk_ref option \<times> micro) option" where
  "isMicroAlloc p m =
     (let xs = mMicroChunks m; found = (\<lambda>r m. if isInside p (mChunks m r) then Some (Some r, m) else None) in
      if mChunkStart m \<le> p \<and> p < mChunkEnd m then
        (let index = (p - mChunkStart m) div mFixedSize m in
         if MAX_ALLOCATORS \<le> index then None else found (index, 0, 0) m)
      else if xs = [] then Some (None, m)
      else if \<exists>i \<in> set_option (mLastMicroChunk m). inside p (xs ! i) then
        found (mChunk (xs ! the (mLastMicroChunk m))) m
      else
        (case search_micro xs p of
           Some j \<Rightarrow> found (mChunk (xs ! j)) (m\<lparr>mLastMicroChunk := Some j\<rparr>)
         | None \<Rightarrow> if \<exists>x \<in> set xs. inside p x then None else Some (None, m)))"

section \<open>Size classes\<close>

text \<open>The upper ends of the seventeen classes, and the class of a size.\<close>

definition class_ends :: "nat list" where
  "class_ends = [8, 16, 24, 32, 48, 64, 80, 96, 128, 160, 192, 224, 296, 368, 440, 512, 1024]"

definition fixed_allocator_of :: "nat \<Rightarrow> nat" where
  "fixed_allocator_of n = length (takeWhile (\<lambda>e. e < n) class_ends)"

definition max_chunks :: "micro \<Rightarrow> nat \<Rightarrow> nat" where
  "max_chunks m N = mFixedSize m div (class_ends ! N)"

section \<open>Allocating and freeing blocks\<close>

text \<open>
  \<open>MemoryChunk::allocate\<close>, with the answer \<open>d\<close> to the request for the memory of a chunk that has none;
  the result 0 says that the chunk is full.
\<close>

definition chunk_allocate :: "nat \<Rightarrow> chunk_ref \<Rightarrow> micro \<Rightarrow> (nat \<times> micro) option" where
  "chunk_allocate d r m =
     (let cs = class_ends ! fst r; mx = max_chunks m (fst r) in
      case (if mData (mChunks m r) = 0 then
              (if d = 0 then None
               else map_option (\<lambda>c. addMicroChunk (mData c) (mDataEnd c) r (m\<lparr>mChunks := (mChunks m)(r := c)\<rparr>))
                      (chunk_init d cs mx ((mChunks m r)\<lparr>mMyHeap := True\<rparr>)))
            else Some m) of
        None \<Rightarrow> None
      | Some m \<Rightarrow>
          (let c = mChunks m r in
           (case mFreeList c of
              [] \<Rightarrow> Some (0, m)
            | p # ps \<Rightarrow> Some (p, m\<lparr>mChunks := (mChunks m)(r := c\<lparr>mUsedCount := mUsedCount c + 1, mFreeList := ps\<rparr>)\<rparr>))))"

text \<open>The chunks of a class in the order in which they are tried; the first that is not full serves.\<close>

fun try_chunks :: "nat \<Rightarrow> nat \<Rightarrow> (nat \<times> nat) list \<Rightarrow> micro \<Rightarrow> (nat \<times> micro) option" where
  "try_chunks d N [] m = Some (0, m)"
| "try_chunks d N (gi # gis) m =
     (case chunk_allocate d (N, gi) m of
        None \<Rightarrow> None
      | Some (p, m) \<Rightarrow> if p \<noteq> 0 then Some (p, m\<lparr>mCurrent := (mCurrent m)(N := gi)\<rparr>) else try_chunks d N gis m)"

definition group_chunks :: "micro \<Rightarrow> nat \<Rightarrow> (nat \<times> nat) list" where
  "group_chunks m N = concat (map (\<lambda>g. map (Pair g) [0..<DEFAULT_CHUNKS]) (mGroups m N))"

text \<open>\<open>MemoryChunkChunk::allocate\<close>: \<open>g\<close> answers the request for a further group, put behind the first.\<close>

definition chunkchunk_allocate :: "nat \<Rightarrow> nat \<Rightarrow> nat \<Rightarrow> micro \<Rightarrow> (nat \<times> micro) option" where
  "chunkchunk_allocate d g N m =
     (case try_chunks d N (group_chunks m N) m of
        None \<Rightarrow> None
      | Some (p, m) \<Rightarrow>
          if p \<noteq> 0 then Some (p, m)
          else if g = 0 then None
          else
            (let m = m\<lparr>mChunks := (\<lambda>(N', g', i). if N' = N \<and> g' = g then MemoryChunk else mChunks m (N', g', i)),
                       mGroups := (mGroups m)(N := hd (mGroups m N) # g # tl (mGroups m N))\<rparr> in
             map_option (\<lambda>(p, m). (p, m\<lparr>mCurrent := (mCurrent m)(N := (g, 0))\<rparr>)) (chunk_allocate d (N, g, 0) m)))"

definition fixed_allocate :: "nat \<Rightarrow> nat \<Rightarrow> nat \<Rightarrow> micro \<Rightarrow> (nat \<times> micro) option" where
  "fixed_allocate d g N m =
     (case chunk_allocate d (N, mCurrent m N) m of
        None \<Rightarrow> None
      | Some (p, m) \<Rightarrow> if p = 0 then chunkchunk_allocate d g N m else Some (p, m))"

definition micro_malloc :: "nat \<Rightarrow> nat \<Rightarrow> nat \<Rightarrow> micro \<Rightarrow> (nat \<times> micro) option" where
  "micro_malloc d g n m =
     (if n \<le> MAX_ALLOCATION_SIZE then fixed_allocate d g (fixed_allocator_of n) m else None)"

text \<open>\<open>MemoryChunk::deallocate\<close>; an emptied chunk of its own memory gives that back (the second result).\<close>

definition chunk_deallocate :: "nat \<Rightarrow> chunk_ref \<Rightarrow> micro \<Rightarrow> (nat option \<times> micro) option" where
  "chunk_deallocate p r m =
     (let c = mChunks m r in
      if mUsedCount c = 0 \<or> \<not> isInside p c then None
      else
        let c' = c\<lparr>mFreeList := p # mFreeList c, mUsedCount := mUsedCount c - 1\<rparr> in
        if mUsedCount c' = 0 \<and> mMyHeap c then
          map_option (\<lambda>m. (Some (mData c), m\<lparr>mChunks := (mChunks m)(r := c'\<lparr>mMyHeap := False, mData := 0, mDataEnd := 0,
            mFreeList := []\<rparr>)\<rparr>)) (removeMicroChunk r m)
        else Some (None, m\<lparr>mChunks := (mChunks m)(r := c')\<rparr>))"

section \<open>The heap manager\<close>

text \<open>The start of the first chunk: behind the object of \<open>size\<close> bytes at \<open>base\<close>, 16-byte aligned.\<close>

definition first_chunk :: "nat \<Rightarrow> nat \<Rightarrow> nat" where
  "first_chunk base objsize = (base + objsize + 32) div 16 * 16"

text \<open>Initialisation: one chunk of every class, one behind the other; \<open>None\<close> if one has no block.\<close>

definition createMicroAllocator :: "nat \<Rightarrow> nat \<Rightarrow> nat \<Rightarrow> micro option" where
  "createMicroAllocator base objsize chunkSize =
     (let start = first_chunk base objsize;
          cs = map (\<lambda>N. chunk_init (start + N * chunkSize) (class_ends ! N) (chunkSize div (class_ends ! N)) MemoryChunk)
                 [0..<MAX_ALLOCATORS] in
      if base = 0 \<or> None \<in> set cs \<or> base + (chunkSize * MAX_ALLOCATORS + objsize + 32) < start + MAX_ALLOCATORS * chunkSize then None
      else Some \<lparr>mFixedSize = chunkSize, mChunkStart = start, mChunkEnd = start + MAX_ALLOCATORS * chunkSize,
        mMaxMicroChunks = 0, mMicroChunks = [], mLastMicroChunk = None,
        mChunks = (\<lambda>(N, g, i). if g = 0 \<and> i = 0 \<and> N < MAX_ALLOCATORS then the (cs ! N) else MemoryChunk),
        mGroups = (\<lambda>_. [0]), mCurrent = (\<lambda>_. (0, 0))\<rparr>)"

text \<open>Large blocks come from \<open>malloc\<close> itself: \<open>d\<close> is its answer, 0 fails an assertion.\<close>

definition heap_malloc :: "nat \<Rightarrow> nat \<Rightarrow> nat \<Rightarrow> micro \<Rightarrow> (nat \<times> micro) option" where
  "heap_malloc d g n m =
     (if n \<le> MAX_ALLOCATION_SIZE then micro_malloc d g n m else if d = 0 then None else Some (d, m))"

text \<open>What goes back to \<open>free\<close> is the first result.\<close>

definition heap_free :: "nat \<Rightarrow> micro \<Rightarrow> (nat option \<times> micro) option" where
  "heap_free p m =
     (case isMicroAlloc p m of
        None \<Rightarrow> None
      | Some (Some r, m) \<Rightarrow> chunk_deallocate p r m
      | Some (None, m) \<Rightarrow> Some (Some p, m))"

text \<open>
  Resizing, with the bytes of memory. A large block goes to \<open>realloc\<close>, which does what it
  does: the result is then \<open>None\<close> inside. Otherwise the block, what went back to \<open>free\<close>, the memory and the state.
\<close>

definition heap_realloc :: "nat \<Rightarrow> nat \<Rightarrow> nat \<Rightarrow> nat \<Rightarrow> (nat \<Rightarrow> nat) \<Rightarrow> micro \<Rightarrow>
    ((nat \<times> nat option \<times> (nat \<Rightarrow> nat)) option \<times> micro) option" where
  "heap_realloc d g p n mem m =
     (case isMicroAlloc p m of
        None \<Rightarrow> None
      | Some (None, m) \<Rightarrow> Some (None, m)
      | Some (Some r, m) \<Rightarrow>
          let oldSize = mChunkSize (mChunks m r) in
          if n \<le> oldSize then Some (Some (p, None, mem), m)
          else
            (case heap_malloc d g n m of
               None \<Rightarrow> None
             | Some (q, m) \<Rightarrow>
                 map_option (\<lambda>(f, m). (Some (q, f, (\<lambda>a. if q \<le> a \<and> a < q + oldSize then mem (p + (a - q)) else mem a)), m))
                   (chunk_deallocate p r m)))"

text \<open>The inlined entry point also clears the block.\<close>

definition inline_heap_malloc :: "nat \<Rightarrow> nat \<Rightarrow> nat \<Rightarrow> (nat \<Rightarrow> nat) \<Rightarrow> micro \<Rightarrow> (nat \<times> (nat \<Rightarrow> nat) \<times> micro) option" where
  "inline_heap_malloc d g n mem m =
     map_option (\<lambda>(p, m). (p, (\<lambda>a. if p \<le> a \<and> a < p + n then 0 else mem a), m)) (heap_malloc d g n m)"

text \<open>The inlined search makes no assertion but the one on the index of a first chunk.\<close>

definition inline_isMicroAlloc :: "nat \<Rightarrow> micro \<Rightarrow> (chunk_ref option \<times> micro) option" where
  "inline_isMicroAlloc p m =
     (let xs = mMicroChunks m in
      if mChunkStart m \<le> p \<and> p < mChunkEnd m then
        (let index = (p - mChunkStart m) div mFixedSize m in
         if MAX_ALLOCATORS \<le> index then None else Some (Some (index, 0, 0), m))
      else if xs = [] then Some (None, m)
      else if \<exists>i \<in> set_option (mLastMicroChunk m). inside p (xs ! i) then
        Some (Some (mChunk (xs ! the (mLastMicroChunk m))), m)
      else
        (case search_micro xs p of
           Some j \<Rightarrow> Some (Some (mChunk (xs ! j)), m\<lparr>mLastMicroChunk := Some j\<rparr>)
         | None \<Rightarrow> Some (None, m)))"

definition inline_heap_free :: "nat \<Rightarrow> micro \<Rightarrow> (nat option \<times> micro) option" where
  "inline_heap_free p m =
     (case inline_isMicroAlloc p m of
        None \<Rightarrow> None
      | Some (Some r, m) \<Rightarrow> chunk_deallocate p r m
      | Some (None, m) \<Rightarrow> Some (Some p, m))"

text \<open>The adaptor for containers does not ask for an empty array.\<close>

definition micro_allocate :: "nat \<Rightarrow> nat \<Rightarrow> nat \<Rightarrow> nat \<Rightarrow> (nat \<Rightarrow> nat) \<Rightarrow> micro \<Rightarrow> (nat \<times> (nat \<Rightarrow> nat) \<times> micro) option" where
  "micro_allocate d g elt s mem m =
     (if s = 0 then Some (0, mem, m) else inline_heap_malloc d g (s * elt mod 2 ^ 64) mem m)"

end
