(* ===== verification/MicroInv.thy ===== *)
theory MicroInv
  imports MicroAlloc
begin

text \<open>
  The invariant of \<open>MicroAllocator\<close> and its preservation: the free list of a chunk and its count of
  blocks in use add up, the array of chunks is sorted with gaps and lists exactly the chunks
  obtained after the start, and the regions obtained from \<open>malloc\<close> lie apart.
\<close>

section \<open>Searching the sorted array\<close>

definition sorted_chunks :: "micro_chunk list \<Rightarrow> bool" where
  "sorted_chunks xs \<longleftrightarrow> sorted_wrt (\<lambda>x y. mMemEnd x < mMemStart y) xs \<and> (\<forall>x \<in> set xs. mMemStart x < mMemEnd x)"

lemma sorted_nth:
  "sorted_chunks xs \<Longrightarrow> i < j \<Longrightarrow> j < length xs \<Longrightarrow> mMemEnd (xs ! i) < mMemStart (xs ! j)"
  by (simp add: sorted_chunks_def sorted_wrt_iff_nth_less)

lemma sorted_start_end: "sorted_chunks xs \<Longrightarrow> i < length xs \<Longrightarrow> mMemStart (xs ! i) < mMemEnd (xs ! i)"
  by (simp add: sorted_chunks_def)

lemma inside_unique:
  assumes "sorted_chunks xs" and "i < length xs" and "j < length xs" and "inside p (xs ! i)" and "inside p (xs ! j)"
  shows "i = j"
proof (rule ccontr)
  assume "i \<noteq> j"
  then consider "i < j" | "j < i" by linarith
  then show False using sorted_nth [OF assms(1)] assms(2-5) by cases (fastforce simp: inside_def)+
qed

lemma binarySearch_some:
  "binarySearch xs p low high = Some j \<Longrightarrow> low \<le> j \<and> j < high \<and> inside p (xs ! j)"
proof (induction xs p low high rule: binarySearch.induct)
  case (1 xs p low high)
  show ?case
  proof (cases "high \<le> low")
    case False
    define mid where "mid = (high - low) div 2 + low"
    have mid: "low \<le> mid" "mid < high" using False by (auto simp: mid_def)
    note IH = "1.IH" [OF False mid_def refl]
    show ?thesis using "1.prems" False mid IH
      by (subst (asm) binarySearch.simps) (auto simp: Let_def mid_def [symmetric] split: if_splits)
  qed (use "1.prems" in \<open>simp add: binarySearch.simps\<close>)
qed

lemma binarySearch_none:
  assumes "sorted_chunks xs"
  shows "binarySearch xs p low high = None \<Longrightarrow> high \<le> length xs \<Longrightarrow> low \<le> j \<Longrightarrow> j < high \<Longrightarrow> \<not> inside p (xs ! j)"
  using assms
proof (induction xs p low high rule: binarySearch.induct)
  case (1 xs p low high)
  note srt = "1.prems"(5)
  define mid where "mid = (high - low) div 2 + low"
  have nle: "\<not> high \<le> low" using "1.prems" by simp
  have mid: "low \<le> mid" "mid < high" using nle by (auto simp: mid_def)
  note IH = "1.IH" [OF nle mid_def refl]
  have e: "binarySearch xs p low high = (if inside p (xs ! mid) then Some mid
      else if mMemEnd (xs ! mid) < p then binarySearch xs p (mid + 1) high else binarySearch xs p low mid)"
    using nle by (subst binarySearch.simps) (simp add: Let_def mid_def)
  have nin: "\<not> inside p (xs ! mid)" using "1.prems"(1) e by (auto split: if_splits)
  show ?case
  proof (cases "mMemEnd (xs ! mid) < p")
    case True
    show ?thesis
    proof (cases "j \<le> mid")
      case le: True
      show ?thesis
      proof (cases "j = mid")
        case False
        then have "mMemEnd (xs ! j) < mMemStart (xs ! mid)" using le mid "1.prems" by (intro sorted_nth [OF srt]) auto
        moreover have "mMemStart (xs ! mid) < mMemEnd (xs ! mid)" using mid "1.prems" by (intro sorted_start_end [OF srt]) auto
        ultimately show ?thesis using True by (simp add: inside_def)
      qed (use nin in simp)
    next
      case False
      have "binarySearch xs p (mid + 1) high = None" using "1.prems"(1) e nin True by simp
      then show ?thesis using IH(1) [OF nin True] "1.prems" False srt by simp
    qed
  next
    case le: False
    show ?thesis
    proof (cases "j < mid")
      case True
      have "binarySearch xs p low mid = None" using "1.prems"(1) e nin le by simp
      then show ?thesis using IH(2) [OF nin le] "1.prems" True mid srt by simp
    next
      case False
      show ?thesis
      proof (cases "j = mid")
        case ne: False
        then have "mMemEnd (xs ! mid) < mMemStart (xs ! j)" using False "1.prems" by (intro sorted_nth [OF srt]) auto
        then show ?thesis using le by (simp add: inside_def)
      qed (use nin in simp)
    qed
  qed
qed

lemma linearSearch_some: "linearSearch xs p = Some j \<Longrightarrow> j < length xs \<and> inside p (xs ! j)"
  by (induction xs arbitrary: j) (auto split: if_splits)

lemma linearSearch_none: "linearSearch xs p = None \<longleftrightarrow> (\<forall>x \<in> set xs. \<not> inside p x)"
  by (induction xs) auto

lemma search_same: "sorted_chunks xs \<Longrightarrow> binarySearch xs p 0 (length xs) = linearSearch xs p"
proof -
  assume s: "sorted_chunks xs"
  show ?thesis
  proof (cases "linearSearch xs p")
    case None
    then have "\<not> inside p (xs ! j)" if "j < length xs" for j using that by (simp add: linearSearch_none)
    then show ?thesis using None binarySearch_some [of xs p 0 "length xs"] by (cases "binarySearch xs p 0 (length xs)") auto
  next
    case (Some j)
    then have j: "j < length xs" "inside p (xs ! j)" using linearSearch_some by blast+
    then obtain i where i: "binarySearch xs p 0 (length xs) = Some i"
      using binarySearch_none [OF s, of p 0 "length xs" j] by auto
    then have "i = j" using inside_unique [OF s _ j(1) _ j(2)] binarySearch_some [OF i] by blast
    then show ?thesis using i Some by simp
  qed
qed


definition four_chunks :: "nat \<Rightarrow> micro_chunk list" where
  "four_chunks gap = map (\<lambda>i. \<lparr>mMemStart = i * (64 + gap), mMemEnd = i * (64 + gap) + 64, mChunk = (0, 0, i)\<rparr>) [0, 1, 2, 3]"


text \<open>Without a gap the search misses the first byte of a chunk that follows the one it probes.\<close>

lemma adjacent_chunks_missed:
  "linearSearch (four_chunks 0) 192 = Some 3 \<and> binarySearch (four_chunks 0) 192 0 4 = None"
  by (simp add: four_chunks_def inside_def binarySearch.simps)

section \<open>Insertion and removal\<close>

lemma insert_micro_set: "insert_micro x xs = (i, ys) \<Longrightarrow> set ys = insert x (set xs) \<and> i < length ys \<and>
    length ys = Suc (length xs) \<and> ys ! i = x"
  by (induction xs arbitrary: i ys) (auto split: if_splits prod.splits)

lemma insert_micro_sorted:
  assumes "sorted_chunks xs" and "mMemStart x < mMemEnd x"
    and "\<forall>y \<in> set xs. mMemEnd x < mMemStart y \<or> mMemEnd y < mMemStart x" and "insert_micro x xs = (i, ys)"
  shows "sorted_chunks ys"
  using assms
proof (induction xs arbitrary: i ys)
  case (Cons y xs)
  show ?case
  proof (cases "mMemEnd x < mMemStart y")
    case True
    have "mMemEnd x < mMemStart z" if "z \<in> set xs" for z
      using that Cons.prems(1) True unfolding sorted_chunks_def by fastforce
    then show ?thesis using Cons.prems True by (auto simp: sorted_chunks_def)
  next
    case False
    then obtain k zs where z: "insert_micro x xs = (k, zs)" "ys = y # zs"
      using Cons.prems(4) by (auto split: prod.splits)
    have s: "sorted_chunks xs" using Cons.prems(1) by (simp add: sorted_chunks_def)
    have "sorted_chunks zs" using Cons.IH [OF s Cons.prems(2) _ z(1)] Cons.prems(3) by simp
    moreover have "set zs = insert x (set xs)" using insert_micro_set [OF z(1)] by simp
    ultimately show ?thesis using Cons.prems(1,3) False z(2) by (auto simp: sorted_chunks_def)
  qed
qed (auto simp: sorted_chunks_def)

lemma remove_micro_some:
  assumes "x \<in> set xs" and "mChunk x = r" and "\<forall>y \<in> set xs. mChunk y = r \<longrightarrow> y = x" and "distinct xs"
  shows "\<exists>ys. remove_micro r xs = Some ys \<and> set ys = set xs - {x} \<and> distinct ys \<and> (sorted_chunks xs \<longrightarrow> sorted_chunks ys)"
  using assms
proof (induction xs)
  case (Cons y ys)
  show ?case
  proof (cases "mChunk y = r")
    case True
    then have "y = x" using Cons.prems(3) by simp
    then show ?thesis using True Cons.prems(4) by (auto simp: sorted_chunks_def)
  next
    case False
    then have "x \<in> set ys" using Cons.prems(1,2) by auto
    moreover have "\<forall>z \<in> set ys. mChunk z = r \<longrightarrow> z = x" "distinct ys" using Cons.prems(3,4) by simp_all
    ultimately obtain zs where z: "remove_micro r ys = Some zs" "set zs = set ys - {x}" "distinct zs"
      "sorted_chunks ys \<longrightarrow> sorted_chunks zs" using Cons.IH Cons.prems(2) by blast
    have "y \<noteq> x" using False Cons.prems(2) by blast
    then have "set (y # zs) = set (y # ys) - {x}" using z(2) by auto
    moreover have "sorted_chunks (y # ys) \<longrightarrow> sorted_chunks (y # zs)"
      using z(2,4) by (simp add: sorted_chunks_def)
    ultimately show ?thesis using False z Cons.prems(4) by simp
  qed
qed simp

lemma sorted_distinct: "sorted_chunks xs \<Longrightarrow> distinct xs"
  unfolding distinct_conv_nth
proof (intro allI impI)
  fix i j assume s: "sorted_chunks xs" and i: "i < length xs" "j < length xs" "i \<noteq> j"
  have "inside (mMemStart (xs ! i)) (xs ! i)" using sorted_start_end [OF s i(1)] by (simp add: inside_def)
  then show "xs ! i \<noteq> xs ! j" using inside_unique [OF s i(1,2)] i(3) by metis
qed
section \<open>The invariant\<close>

abbreviation bsize :: "chunk_ref \<Rightarrow> nat" where "bsize r \<equiv> class_ends ! fst r"

definition blocks :: "micro \<Rightarrow> chunk_ref \<Rightarrow> nat set" where
  "blocks m r = set (grid (mData (mChunks m r)) (bsize r) (max_chunks m (fst r)))"

definition chunk_wf :: "micro \<Rightarrow> chunk_ref \<Rightarrow> bool" where
  "chunk_wf m r \<longleftrightarrow> (let c = mChunks m r in
     if mData c = 0 then \<not> mMyHeap c \<and> mDataEnd c = 0 \<and> mUsedCount c = 0 \<and> mFreeList c = []
     else fst r < MAX_ALLOCATORS \<and> snd r \<in> set (group_chunks m (fst r)) \<and> mChunkSize c = bsize r \<and>
       mDataEnd c = mData c + bsize r * max_chunks m (fst r) \<and> distinct (mFreeList c) \<and>
       set (mFreeList c) \<subseteq> blocks m r \<and> mUsedCount c + length (mFreeList c) = max_chunks m (fst r))"

definition heap_wf :: "micro \<Rightarrow> nat \<times> nat \<Rightarrow> bool" where
  "heap_wf m base \<longleftrightarrow> 1024 \<le> mFixedSize m \<and> mChunkEnd m = mChunkStart m + MAX_ALLOCATORS * mFixedSize m \<and>
     fst base \<le> mChunkStart m \<and> mChunkEnd m \<le> snd base \<and>
     (\<forall>N < MAX_ALLOCATORS. mData (mChunks m (N, 0, 0)) = mChunkStart m + N * mFixedSize m \<and>
        \<not> mMyHeap (mChunks m (N, 0, 0)) \<and> 0 \<in> set (mGroups m N) \<and> mCurrent m N \<in> set (group_chunks m N)) \<and>
     (\<forall>r. mData (mChunks m r) \<noteq> 0 \<and> snd r \<noteq> (0, 0) \<longrightarrow> mMyHeap (mChunks m r))"

definition array_wf :: "micro \<Rightarrow> bool" where
  "array_wf m \<longleftrightarrow> sorted_chunks (mMicroChunks m) \<and>
     set (mMicroChunks m) = {\<lparr>mMemStart = mData (mChunks m r), mMemEnd = mDataEnd (mChunks m r), mChunk = r\<rparr> | r.
       mMyHeap (mChunks m r)} \<and>
     (\<forall>i \<in> set_option (mLastMicroChunk m). i < length (mMicroChunks m))"

text \<open>The regions obtained from \<open>malloc\<close>, by their owners; \<open>big\<close> maps the large blocks in use to their sizes.\<close>

datatype owner = OBase | OChunk chunk_ref | OGroup nat nat | OBig nat

definition GROUP_SIZE :: nat where "GROUP_SIZE = 32 * 48 + 4 * 8"

fun region :: "micro \<Rightarrow> nat \<times> nat \<Rightarrow> (nat \<rightharpoonup> nat) \<Rightarrow> owner \<Rightarrow> (nat \<times> nat) option" where
  "region m base big OBase = Some base"
| "region m base big (OChunk r) = (if mMyHeap (mChunks m r) then Some (mData (mChunks m r), mDataEnd (mChunks m r)) else None)"
| "region m base big (OGroup N g) = (if g \<in> set (mGroups m N) \<and> g \<noteq> 0 then Some (g, g + GROUP_SIZE) else None)"
| "region m base big (OBig p) = map_option (\<lambda>n. (p, p + n)) (big p)"

text \<open>
  Regions lie apart, with at least one byte between them, as the header that \<open>malloc\<close> keeps in front of
  every block makes them.
\<close>

definition apart_from :: "(owner \<Rightarrow> (nat \<times> nat) option) \<Rightarrow> owner \<Rightarrow> nat \<times> nat \<Rightarrow> bool" where
  "apart_from R w x \<longleftrightarrow> 0 < fst x \<and> fst x < snd x \<and>
     (\<forall>v y. v \<noteq> w \<and> R v = Some y \<longrightarrow> snd x < fst y \<or> snd y < fst x)"

definition regions_wf :: "(owner \<Rightarrow> (nat \<times> nat) option) \<Rightarrow> bool" where
  "regions_wf R \<longleftrightarrow> (\<forall>w x. R w = Some x \<longrightarrow> apart_from R w x)"

definition live_wf :: "micro \<Rightarrow> nat set \<Rightarrow> bool" where
  "live_wf m live \<longleftrightarrow>
     (\<forall>r. mData (mChunks m r) \<noteq> 0 \<longrightarrow> live \<inter> blocks m r = blocks m r - set (mFreeList (mChunks m r))) \<and>
     (\<forall>p \<in> live. \<exists>r. mData (mChunks m r) \<noteq> 0 \<and> p \<in> blocks m r)"

definition micro_inv :: "micro \<Rightarrow> nat \<times> nat \<Rightarrow> nat set \<Rightarrow> (nat \<rightharpoonup> nat) \<Rightarrow> bool" where
  "micro_inv m base live big \<longleftrightarrow> (\<forall>r. chunk_wf m r) \<and> heap_wf m base \<and> array_wf m \<and>
     regions_wf (region m base big) \<and> live_wf m live"

lemma micro_consts [simp]: "MAX_ALLOCATION_SIZE = 1024" "MAX_ALLOCATORS = 17" "DEFAULT_CHUNKS = 32"
  by (simp_all add: MAX_ALLOCATION_SIZE_def MAX_ALLOCATORS_def DEFAULT_CHUNKS_def)

lemma class_end_bounds: "N < 17 \<Longrightarrow> 8 \<le> class_ends ! N \<and> class_ends ! N \<le> 1024"
proof -
  assume "N < 17"
  moreover have "\<forall>e \<in> set class_ends. 8 \<le> e \<and> e \<le> 1024" by (simp add: class_ends_def)
  moreover have "length class_ends = 17" by (simp add: class_ends_def)
  ultimately show ?thesis by simp
qed

lemma max_chunks_bounds:
  assumes "1024 \<le> mFixedSize m" and "N < 17"
  shows "0 < max_chunks m N" and "class_ends ! N * max_chunks m N \<le> mFixedSize m"
proof -
  have "class_ends ! N \<le> mFixedSize m" using class_end_bounds [OF assms(2)] assms(1) by linarith
  then show "0 < max_chunks m N" using class_end_bounds [OF assms(2)] by (simp add: max_chunks_def div_greater_zero_iff)
  show "class_ends ! N * max_chunks m N \<le> mFixedSize m" unfolding max_chunks_def by (rule times_div_less_eq_dividend)
qed

lemma chunk_block_bounds:
  assumes "N < 17" and "p \<in> set (grid a (class_ends ! N) k)"
  shows "a \<le> p" and "p + class_ends ! N \<le> a + class_ends ! N * k" and "p < a + class_ends ! N * k"
  using grid_bounds [OF assms(2)] class_end_bounds [OF assms(1)] by (auto simp: mult.commute)

lemma wf_active:
  assumes "chunk_wf m r" and "mData (mChunks m r) \<noteq> 0"
  shows "fst r < 17" and "snd r \<in> set (group_chunks m (fst r))" and "mChunkSize (mChunks m r) = bsize r"
    and "mDataEnd (mChunks m r) = mData (mChunks m r) + bsize r * max_chunks m (fst r)"
    and "distinct (mFreeList (mChunks m r))" and "set (mFreeList (mChunks m r)) \<subseteq> blocks m r"
    and "mUsedCount (mChunks m r) + length (mFreeList (mChunks m r)) = max_chunks m (fst r)"
  using assms unfolding chunk_wf_def Let_def by auto

lemma micro_invD:
  assumes "micro_inv m base live big"
  shows "chunk_wf m r" and "heap_wf m base" and "array_wf m" and "regions_wf (region m base big)" and "live_wf m live"
  using assms unfolding micro_inv_def by blast+

lemma block_inside:
  assumes "micro_inv m base live big" and "mData (mChunks m r) \<noteq> 0" and "p \<in> blocks m r"
  shows "mData (mChunks m r) \<le> p" and "p + bsize r \<le> mDataEnd (mChunks m r)" and "p < mDataEnd (mChunks m r)"
proof -
  note w = wf_active [OF micro_invD(1) [OF assms(1)] assms(2)]
  note b = chunk_block_bounds [OF w(1) assms(3) [unfolded blocks_def]]
  show "mData (mChunks m r) \<le> p" and "p + bsize r \<le> mDataEnd (mChunks m r)" and "p < mDataEnd (mChunks m r)"
    using b w(4) by simp_all
qed

lemma regions_apart:
  assumes "micro_inv m base live big" and "region m base big w = Some x" and "region m base big v = Some y" and "v \<noteq> w"
  shows "snd x < fst y \<or> snd y < fst x"
  using micro_invD(4) [OF assms(1)] assms(2-4) unfolding regions_wf_def apart_from_def by blast

text \<open>Different chunks do not overlap.\<close>

lemma chunks_apart:
  assumes I: "micro_inv m base live big" and r: "mData (mChunks m r) \<noteq> 0" and q: "mData (mChunks m q) \<noteq> 0" and ne: "r \<noteq> q"
  shows "mDataEnd (mChunks m r) \<le> mData (mChunks m q) \<or> mDataEnd (mChunks m q) \<le> mData (mChunks m r)"
proof -
  note wf = micro_invD(1,2) [OF I]
  have fx: "1024 \<le> mFixedSize m" using wf(2) by (simp add: heap_wf_def)
  have ends: "mDataEnd (mChunks m r) = mData (mChunks m r) + bsize r * max_chunks m (fst r)"
    "bsize r * max_chunks m (fst r) \<le> mFixedSize m" "fst r < 17" if "mData (mChunks m r) \<noteq> 0" for r
    using wf_active [OF wf(1) that] max_chunks_bounds(2) [OF fx] by auto
  have first: "mData (mChunks m r) = mChunkStart m + fst r * mFixedSize m \<and> \<not> mMyHeap (mChunks m r)"
    if "snd r = (0, 0)" "mData (mChunks m r) \<noteq> 0" for r
    using wf(2) that ends(3) [of r] by (cases r) (simp add: heap_wf_def)
  have other: "mMyHeap (mChunks m r)" if "snd r \<noteq> (0, 0)" "mData (mChunks m r) \<noteq> 0" for r
    using wf(2) that unfolding heap_wf_def by blast
  have in_base: "fst base \<le> mData (mChunks m r) \<and> mDataEnd (mChunks m r) \<le> snd base"
    if f: "snd r = (0, 0)" "mData (mChunks m r) \<noteq> 0" for r
  proof -
    have "fst r * mFixedSize m + mFixedSize m \<le> 17 * mFixedSize m" by (rule step_le) (use ends(3) f in simp)
    moreover have "fst base \<le> mChunkStart m" "mChunkStart m + 17 * mFixedSize m \<le> snd base"
      using wf(2) unfolding heap_wf_def micro_consts by simp_all
    ultimately show ?thesis using first [OF f] ends [OF f(2)] by linarith
  qed
  have mixed: "mDataEnd (mChunks m r) \<le> mData (mChunks m q) \<or> mDataEnd (mChunks m q) \<le> mData (mChunks m r)"
    if f: "snd r = (0, 0)" "mData (mChunks m r) \<noteq> 0" and o: "snd q \<noteq> (0, 0)" "mData (mChunks m q) \<noteq> 0" for r q
  proof -
    have "region m base big (OChunk q) = Some (mData (mChunks m q), mDataEnd (mChunks m q))" using other [OF o] by simp
    from regions_apart [OF I this, of OBase base]
    have "mDataEnd (mChunks m q) < fst base \<or> snd base < mData (mChunks m q)" by auto
    then show ?thesis using in_base [OF f] by linarith
  qed
  consider "snd r = (0, 0)" "snd q = (0, 0)" | "snd r = (0, 0)" "snd q \<noteq> (0, 0)" | "snd r \<noteq> (0, 0)" "snd q = (0, 0)"
    | "snd r \<noteq> (0, 0)" "snd q \<noteq> (0, 0)" by blast
  then show ?thesis
  proof cases
    case 1
    then have "fst r \<noteq> fst q" using ne by (metis prod_eqI)
    then have "fst r * mFixedSize m + mFixedSize m \<le> fst q * mFixedSize m \<or>
      fst q * mFixedSize m + mFixedSize m \<le> fst r * mFixedSize m"
      using step_le by (metis nat_neq_iff)
    then show ?thesis using first [OF 1(1) r] first [OF 1(2) q] ends [OF r] ends [OF q] by linarith
  next
    case 2
    then show ?thesis using mixed r q by blast
  next
    case 3
    then show ?thesis using mixed r q by blast
  next
    case 4
    have 1: "region m base big (OChunk r) = Some (mData (mChunks m r), mDataEnd (mChunks m r))" using other [OF 4(1) r] by simp
    have 2: "region m base big (OChunk q) = Some (mData (mChunks m q), mDataEnd (mChunks m q))" using other [OF 4(2) q] by simp
    from regions_apart [OF I 1 2] ne show ?thesis by auto
  qed
qed

lemma block_owner:
  assumes I: "micro_inv m base live big" and "mData (mChunks m r) \<noteq> 0" "p \<in> blocks m r"
    and "mData (mChunks m q) \<noteq> 0" "mData (mChunks m q) \<le> p" "p < mDataEnd (mChunks m q)"
  shows "q = r"
  using chunks_apart [OF I assms(2,4)] block_inside [OF I assms(2,3)] assms(5,6) by fastforce
section \<open>Where an address belongs\<close>

lemma array_set:
  "array_wf m \<Longrightarrow> set (mMicroChunks m) =
    {\<lparr>mMemStart = mData (mChunks m r), mMemEnd = mDataEnd (mChunks m r), mChunk = r\<rparr> | r. mMyHeap (mChunks m r)}"
  unfolding array_wf_def by (elim conjE)

lemma array_has:
  assumes A: "array_wf m" and h: "mMyHeap (mChunks m r)"
  shows "\<lparr>mMemStart = mData (mChunks m r), mMemEnd = mDataEnd (mChunks m r), mChunk = r\<rparr> \<in> set (mMicroChunks m)"
  unfolding array_set [OF A] using h by blast

lemma array_only:
  assumes A: "array_wf m" and i: "i < length (mMicroChunks m)"
  shows "mMicroChunks m ! i = \<lparr>mMemStart = mData (mChunks m (mChunk (mMicroChunks m ! i))),
      mMemEnd = mDataEnd (mChunks m (mChunk (mMicroChunks m ! i))), mChunk = mChunk (mMicroChunks m ! i)\<rparr>"
    and "mMyHeap (mChunks m (mChunk (mMicroChunks m ! i)))"
proof -
  have "mMicroChunks m ! i \<in> set (mMicroChunks m)" using i by simp
  then obtain r where "mMicroChunks m ! i = \<lparr>mMemStart = mData (mChunks m r), mMemEnd = mDataEnd (mChunks m r), mChunk = r\<rparr>"
    "mMyHeap (mChunks m r)" unfolding array_set [OF A] by blast
  then show "mMicroChunks m ! i = \<lparr>mMemStart = mData (mChunks m (mChunk (mMicroChunks m ! i))),
      mMemEnd = mDataEnd (mChunks m (mChunk (mMicroChunks m ! i))), mChunk = mChunk (mMicroChunks m ! i)\<rparr>"
    and "mMyHeap (mChunks m (mChunk (mMicroChunks m ! i)))" by simp_all
qed

lemma search_some: "sorted_chunks xs \<Longrightarrow> search_micro xs p = linearSearch xs p"
  by (simp add: search_micro_def search_same)

lemma my_heap_active: "chunk_wf m r \<Longrightarrow> mMyHeap (mChunks m r) \<Longrightarrow> mData (mChunks m r) \<noteq> 0"
  by (cases "mData (mChunks m r) = 0") (simp_all add: chunk_wf_def Let_def)

lemma base_region:
  assumes "micro_inv m base live big"
  shows "fst base \<le> mChunkStart m" and "mChunkStart m + 17 * mFixedSize m \<le> snd base" and "1024 \<le> mFixedSize m"
    and "mChunkEnd m = mChunkStart m + 17 * mFixedSize m" and "0 < fst base"
proof -
  note h = micro_invD(2) [OF assms]
  show "fst base \<le> mChunkStart m" and "mChunkStart m + 17 * mFixedSize m \<le> snd base" and "1024 \<le> mFixedSize m"
    and "mChunkEnd m = mChunkStart m + 17 * mFixedSize m"
    using h unfolding heap_wf_def micro_consts by simp_all
  have "region m base big OBase = Some base" by simp
  then show "0 < fst base" using micro_invD(4) [OF assms] unfolding regions_wf_def apart_from_def by blast
qed

lemma my_heap_outside:
  assumes I: "micro_inv m base live big" and h: "mMyHeap (mChunks m r)"
    and p: "mData (mChunks m r) \<le> p" "p < mDataEnd (mChunks m r)"
  shows "\<not> (mChunkStart m \<le> p \<and> p < mChunkEnd m)"
proof -
  have "region m base big OBase = Some base" by simp
  moreover have "region m base big (OChunk r) = Some (mData (mChunks m r), mDataEnd (mChunks m r))" using h by simp
  ultimately have "snd base < mData (mChunks m r) \<or> mDataEnd (mChunks m r) < fst base"
    using regions_apart [OF I, of OBase base "OChunk r"] by fastforce
  then show ?thesis using base_region [OF I] p by auto
qed

text \<open>Only the position last found changes.\<close>

lemma micro_inv_last:
  assumes "micro_inv m base live big" and "j < length (mMicroChunks m)"
  shows "micro_inv (m\<lparr>mLastMicroChunk := Some j\<rparr>) base live big"
proof -
  let ?m = "m\<lparr>mLastMicroChunk := Some j\<rparr>"
  have "chunk_wf ?m r = chunk_wf m r" for r
    by (simp add: chunk_wf_def blocks_def group_chunks_def max_chunks_def)
  moreover have "heap_wf ?m base = heap_wf m base" by (simp add: heap_wf_def group_chunks_def)
  moreover have "array_wf ?m" using micro_invD(3) [OF assms(1)] assms(2) by (simp add: array_wf_def)
  moreover have "region ?m base big = region m base big" by (rule ext) (case_tac x; simp)
  moreover have "live_wf ?m live = live_wf m live" by (simp add: live_wf_def blocks_def max_chunks_def)
  ultimately show ?thesis using assms(1) unfolding micro_inv_def by simp
qed

lemma isMicroAlloc_out:
  assumes "\<not> (mChunkStart m \<le> p \<and> p < mChunkEnd m)" and "mMicroChunks m \<noteq> []"
  shows "isMicroAlloc p m =
    (if \<exists>i \<in> set_option (mLastMicroChunk m). inside p (mMicroChunks m ! i)
     then (if isInside p (mChunks m (mChunk (mMicroChunks m ! the (mLastMicroChunk m))))
           then Some (Some (mChunk (mMicroChunks m ! the (mLastMicroChunk m))), m) else None)
     else (case search_micro (mMicroChunks m) p of
        Some j \<Rightarrow> (if isInside p (mChunks m (mChunk (mMicroChunks m ! j)))
                   then Some (Some (mChunk (mMicroChunks m ! j)), m\<lparr>mLastMicroChunk := Some j\<rparr>) else None)
      | None \<Rightarrow> if \<exists>x \<in> set (mMicroChunks m). inside p x then None else Some (None, m)))"
  unfolding isMicroAlloc_def Let_def using assms by (simp only: if_False simp_thms if_not_P micro.simps) (simp split: option.split)

text \<open>An address in a chunk leads to the chunk; the state keeps its invariant.\<close>

definition same_chunks :: "micro \<Rightarrow> micro \<Rightarrow> bool" where
  "same_chunks m m' \<longleftrightarrow> (\<exists>l. m' = m\<lparr>mLastMicroChunk := l\<rparr>)"

lemma isMicroAlloc_in:
  assumes I: "micro_inv m base live big" and r: "mData (mChunks m r) \<noteq> 0"
    and p: "mData (mChunks m r) \<le> p" "p < mDataEnd (mChunks m r)"
  shows "\<exists>m'. isMicroAlloc p m = Some (Some r, m') \<and> same_chunks m m' \<and> micro_inv m' base live big"
proof (cases "snd r = (0, 0)")
  case True
  note w = wf_active [OF micro_invD(1) [OF I] r] and b = base_region [OF I]
  define N where "N = fst r"
  have rN: "r = (N, 0, 0)" using True by (simp add: N_def prod_eq_iff)
  have N: "N < 17" using w(1) by (simp add: N_def)
  have d: "mData (mChunks m r) = mChunkStart m + N * mFixedSize m"
    using micro_invD(2) [OF I] N unfolding rN heap_wf_def by simp
  have e: "mDataEnd (mChunks m r) \<le> mChunkStart m + N * mFixedSize m + mFixedSize m"
    using w(4) max_chunks_bounds(2) [OF b(3) N] d by (simp add: N_def)
  have "N * mFixedSize m + mFixedSize m \<le> 17 * mFixedSize m" by (rule step_le [OF N])
  then have inr: "mChunkStart m \<le> p \<and> p < mChunkEnd m" using p d e b(4) by linarith
  have "(p - mChunkStart m) div mFixedSize m = N"
    by (rule div_nat_eqI) (use p d e in \<open>auto simp: mult.commute\<close>)
  then have "isMicroAlloc p m = Some (Some r, m)"
    using inr N p by (simp add: isMicroAlloc_def Let_def isInside_def flip: rN)
  then show ?thesis using I by (auto simp: same_chunks_def intro!: exI [of _ "mLastMicroChunk m"])
next
  case False
  note A = micro_invD(3) [OF I]
  have h: "mMyHeap (mChunks m r)" using micro_invD(2) [OF I] r False unfolding heap_wf_def by blast
  have out: "\<not> (mChunkStart m \<le> p \<and> p < mChunkEnd m)" by (rule my_heap_outside [OF I h p])
  let ?xs = "mMicroChunks m" and ?x = "\<lparr>mMemStart = mData (mChunks m r), mMemEnd = mDataEnd (mChunks m r), mChunk = r\<rparr>"
  have mem: "?x \<in> set ?xs" by (rule array_has [OF A h])
  then have ne: "?xs \<noteq> []" by auto
  have srt: "sorted_chunks ?xs" using A by (simp add: array_wf_def)
  obtain k where k: "k < length ?xs" "?xs ! k = ?x" using mem by (auto simp: in_set_conv_nth)
  have own: "mChunk (?xs ! i) = r" if "i < length ?xs" "inside p (?xs ! i)" for i
  proof -
    have "inside p (?xs ! k)" using k(2) p by (simp add: inside_def)
    then have "i = k" using inside_unique [OF srt that(1) k(1) that(2)] by simp
    then show ?thesis using k(2) by simp
  qed
  have ins: "isInside p (mChunks m r)" using p by (simp add: isInside_def)
  show ?thesis
  proof (cases "\<exists>i \<in> set_option (mLastMicroChunk m). inside p (?xs ! i)")
    case True
    then obtain i where i: "mLastMicroChunk m = Some i" "inside p (?xs ! i)" by auto
    then have "i < length ?xs" using A by (simp add: array_wf_def)
    then have "isMicroAlloc p m = Some (Some r, m)"
      using i own ins by (simp add: isMicroAlloc_out [OF out ne])
    then show ?thesis using I by (auto simp: same_chunks_def intro!: exI [of _ "mLastMicroChunk m"])
  next
    case last: False
    have "linearSearch ?xs p \<noteq> None" using mem p by (auto simp: linearSearch_none inside_def intro!: bexI [OF _ mem])
    then obtain j where j: "search_micro ?xs p = Some j" using search_some [OF srt] by auto
    then have j': "j < length ?xs" "inside p (?xs ! j)" using linearSearch_some search_some [OF srt] by auto
    have "isMicroAlloc p m = Some (Some r, m\<lparr>mLastMicroChunk := Some j\<rparr>)"
      unfolding isMicroAlloc_out [OF out ne] using last j own [OF j'] ins by simp
    then show ?thesis using micro_inv_last [OF I j'(1)] by (auto simp: same_chunks_def)
  qed
qed

lemma isMicroAlloc_big:
  assumes I: "micro_inv m base live big" and p: "big p = Some n"
  shows "isMicroAlloc p m = Some (None, m)"
proof -
  have R: "region m base big (OBig p) = Some (p, p + n)" using p by simp
  have "region m base big OBase = Some base" by simp
  from regions_apart [OF I R this] have "snd base < p \<or> p + n < fst base" by auto
  moreover have "apart_from (region m base big) (OBig p) (p, p + n)"
    using micro_invD(4) [OF I] R unfolding regions_wf_def by blast
  then have "p < p + n" by (simp add: apart_from_def)
  ultimately have out: "\<not> (mChunkStart m \<le> p \<and> p < mChunkEnd m)" using base_region [OF I] by auto
  have no: "\<not> inside p x" if x: "x \<in> set (mMicroChunks m)" for x
  proof -
    obtain r where r: "x = \<lparr>mMemStart = mData (mChunks m r), mMemEnd = mDataEnd (mChunks m r), mChunk = r\<rparr>" "mMyHeap (mChunks m r)"
      using x unfolding array_set [OF micro_invD(3) [OF I]] by blast
    then have "region m base big (OChunk r) = Some (mData (mChunks m r), mDataEnd (mChunks m r))" by simp
    from regions_apart [OF I R this] show ?thesis using r(1) \<open>p < p + n\<close> by (auto simp: inside_def)
  qed
  have srt: "sorted_chunks (mMicroChunks m)" using micro_invD(3) [OF I] by (simp add: array_wf_def)
  have "search_micro (mMicroChunks m) p = None" using no search_some [OF srt] by (simp add: linearSearch_none)
  moreover have "\<not> (\<exists>i \<in> set_option (mLastMicroChunk m). inside p (mMicroChunks m ! i))"
  proof
    assume "\<exists>i \<in> set_option (mLastMicroChunk m). inside p (mMicroChunks m ! i)"
    then obtain i where i: "i \<in> set_option (mLastMicroChunk m)" "inside p (mMicroChunks m ! i)" by blast
    then have "i < length (mMicroChunks m)" using micro_invD(3) [OF I] unfolding array_wf_def by blast
    then show False using no [of "mMicroChunks m ! i"] i(2) by simp
  qed
  moreover have "\<not> (\<exists>x \<in> set (mMicroChunks m). inside p x)" using no by blast
  moreover have "mMicroChunks m = [] \<Longrightarrow> isMicroAlloc p m = Some (None, m)"
    unfolding isMicroAlloc_def Let_def using out by (simp only: if_False if_True simp_thms)
  ultimately show ?thesis using isMicroAlloc_out [OF out] by (cases "mMicroChunks m = []") simp_all
qed

end
