(* ===== verification/MicroSteps.thy ===== *)
theory MicroSteps
  imports MicroInv
begin

text \<open>
  Allocation and freeing keep the invariant of \<open>MicroAllocator\<close>; a block handed out is new. The answers of
  \<open>malloc\<close> are non-null and lie apart from all regions in use.
\<close>

section \<open>A chunk gets its memory\<close>

definition fresh :: "(owner \<Rightarrow> (nat \<times> nat) option) \<Rightarrow> nat \<Rightarrow> nat \<Rightarrow> bool" where
  "fresh R d n \<longleftrightarrow> 0 < d \<and> (\<forall>v y. R v = Some y \<longrightarrow> d + n < fst y \<or> snd y < d)"

lemma regions_add:
  assumes R: "regions_wf R" and f: "fresh R d n" and n: "0 < n" and w: "R w = None"
    and R': "\<And>v. v \<noteq> w \<Longrightarrow> R' v = R v" "R' w = Some (d, d + n)"
  shows "regions_wf R'"
  unfolding regions_wf_def
proof (intro allI impI)
  fix v x assume v: "R' v = Some x"
  show "apart_from R' v x"
  proof (cases "v = w")
    case True
    then have x: "x = (d, d + n)" using v R'(2) by simp
    show ?thesis unfolding apart_from_def x
    proof (intro conjI allI impI)
      fix u y assume u: "u \<noteq> v \<and> R' u = Some y"
      then have "R u = Some y" using True R'(1) [of u] by simp
      then show "snd (d, d + n) < fst y \<or> snd y < fst (d, d + n)" using f unfolding fresh_def by simp
    qed (use f n in \<open>auto simp: fresh_def\<close>)
  next
    case False
    then have "R v = Some x" using v R'(1) by simp
    then have a: "apart_from R v x" and y: "d + n < fst x \<or> snd x < d"
      using R f unfolding regions_wf_def fresh_def by blast+
    show ?thesis unfolding apart_from_def
    proof (intro conjI allI impI)
      fix u z assume u: "u \<noteq> v \<and> R' u = Some z"
      show "snd x < fst z \<or> snd z < fst x"
      proof (cases "u = w")
        case True
        then have "z = (d, d + n)" using u R'(2) by simp
        then show ?thesis using y by auto
      next
        case nw: False
        then have "R u = Some z" using u R'(1) by simp
        then show ?thesis using a u unfolding apart_from_def by blast
      qed
    qed (use a in \<open>auto simp: apart_from_def\<close>)
  qed
qed

lemma regions_less:
  assumes "regions_wf R" and "\<And>v x. R' v = Some x \<Longrightarrow> R v = Some x"
  shows "regions_wf R'"
  using assms unfolding regions_wf_def apart_from_def by blast

text \<open>Only chunk \<open>r\<close> changes.\<close>

definition upd :: "chunk_ref \<Rightarrow> memory_chunk \<Rightarrow> micro \<Rightarrow> micro" where
  "upd r c m = m\<lparr>mChunks := (mChunks m)(r := c)\<rparr>"

lemma upd_simps [simp]:
  "mChunks (upd r c m) = (mChunks m)(r := c)" "mGroups (upd r c m) = mGroups m" "mCurrent (upd r c m) = mCurrent m"
  "mFixedSize (upd r c m) = mFixedSize m" "mChunkStart (upd r c m) = mChunkStart m" "mChunkEnd (upd r c m) = mChunkEnd m"
  "mMicroChunks (upd r c m) = mMicroChunks m" "mLastMicroChunk (upd r c m) = mLastMicroChunk m"
  "group_chunks (upd r c m) N = group_chunks m N" "max_chunks (upd r c m) N = max_chunks m N"
  by (simp_all add: upd_def group_chunks_def max_chunks_def)

lemma set_group_chunks: "set (group_chunks m N) = set (mGroups m N) \<times> {..<32}"
  by (auto simp: group_chunks_def)

lemma chunk_wf_mono:
  assumes "chunk_wf m r" and "mChunks m' r = mChunks m r" and "mFixedSize m' = mFixedSize m"
    and g: "set (mGroups m (fst r)) \<subseteq> set (mGroups m' (fst r))"
  shows "chunk_wf m' r"
proof -
  have "blocks m' r = blocks m r" "max_chunks m' (fst r) = max_chunks m (fst r)"
    using assms(2,3) by (simp_all add: blocks_def max_chunks_def)
  moreover have "snd r \<in> set (group_chunks m (fst r)) \<Longrightarrow> snd r \<in> set (group_chunks m' (fst r))"
    using g by (auto simp: set_group_chunks)
  ultimately show ?thesis using assms(1) unfolding chunk_wf_def Let_def assms(2) by (auto split: if_splits)
qed

text \<open>The blocks in use or not change, but neither the memory of the chunk nor whose it is.\<close>

lemma upd_inv:
  assumes I: "micro_inv m base live big" and r: "mData (mChunks m r) \<noteq> 0"
    and c: "mData c = mData (mChunks m r)" "mDataEnd c = mDataEnd (mChunks m r)" "mMyHeap c = mMyHeap (mChunks m r)"
      "mChunkSize c = mChunkSize (mChunks m r)"
    and f: "distinct (mFreeList c)" "set (mFreeList c) \<subseteq> blocks m r" "mUsedCount c + length (mFreeList c) = max_chunks m (fst r)"
    and l: "live' \<inter> blocks m r = blocks m r - set (mFreeList c)" "live' - blocks m r = live - blocks m r"
  shows "micro_inv (upd r c m) base live' big"
proof -
  have b: "blocks (upd r c m) q = blocks m q" for q using c(1) by (simp add: blocks_def)
  have wf: "chunk_wf (upd r c m) q" for q
  proof (cases "q = r")
    case True
    then show ?thesis using wf_active [OF micro_invD(1) [OF I] r] r c f unfolding chunk_wf_def Let_def by (simp add: b)
  next
    case False
    then show ?thesis by (intro chunk_wf_mono [OF micro_invD(1) [OF I]]) simp_all
  qed
  have same: "mData (mChunks (upd r c m) q) = mData (mChunks m q)" "mDataEnd (mChunks (upd r c m) q) = mDataEnd (mChunks m q)"
    "mMyHeap (mChunks (upd r c m) q) = mMyHeap (mChunks m q)" for q using c by simp_all
  have h: "heap_wf (upd r c m) base" using micro_invD(2) [OF I] unfolding heap_wf_def same by simp
  have a: "array_wf (upd r c m)" using micro_invD(3) [OF I] unfolding array_wf_def same by simp
  have "region (upd r c m) base big w = region m base big w" for w using c by (cases w) simp_all
  then have R: "regions_wf (region (upd r c m) base big)" using micro_invD(4) [OF I] by presburger
  have L: "live_wf m live" by (rule micro_invD(5) [OF I])
  have 1: "live' \<inter> blocks m q = blocks m q - set (mFreeList (mChunks (upd r c m) q))" if q: "mData (mChunks m q) \<noteq> 0" for q
  proof (cases "q = r")
    case False
    have "blocks m q \<inter> blocks m r = {}"
      using block_owner [OF I r _ q] block_inside [OF I q] False by blast
    then have "live' \<inter> blocks m q = live \<inter> blocks m q" using l(2) by blast
    then show ?thesis using L q False unfolding live_wf_def by simp
  qed (use l(1) in simp)
  have 2: "\<exists>q. mData (mChunks m q) \<noteq> 0 \<and> p \<in> blocks m q" if "p \<in> live'" for p
  proof (cases "p \<in> blocks m r")
    case False
    then have "p \<in> live" using that l(2) by blast
    then show ?thesis using L unfolding live_wf_def by blast
  qed (use r in blast)
  have "live_wf (upd r c m) live'" unfolding live_wf_def b same(1) using 1 2 by blast
  then show ?thesis using wf h a R unfolding micro_inv_def by blast
qed

lemma pop_block:
  assumes I: "micro_inv m base live big" and r: "mData (mChunks m r) \<noteq> 0" and p: "mFreeList (mChunks m r) = p # ps"
  shows "micro_inv (upd r ((mChunks m r)\<lparr>mUsedCount := mUsedCount (mChunks m r) + 1, mFreeList := ps\<rparr>) m)
      base (insert p live) big"
    and "p \<notin> live" and "p \<in> blocks m r" and "p \<noteq> 0"
proof -
  note w = wf_active [OF micro_invD(1) [OF I] r]
  have pb: "p \<in> blocks m r" using w(6) p by simp
  then show "p \<in> blocks m r" .
  have L: "live \<inter> blocks m r = blocks m r - set (p # ps)"
    using micro_invD(5) [OF I] r p unfolding live_wf_def by metis
  then show np: "p \<notin> live" using pb by auto
  show "p \<noteq> 0" using block_inside(1) [OF I r pb] r by simp
  show "micro_inv (upd r ((mChunks m r)\<lparr>mUsedCount := mUsedCount (mChunks m r) + 1, mFreeList := ps\<rparr>) m)
      base (insert p live) big"
    using w p L pb by (intro upd_inv [OF I r]) auto
qed

text \<open>A block in use lies in a region; a new region holds none.\<close>

lemma block_region:
  assumes I: "micro_inv m base live big" and r: "mData (mChunks m r) \<noteq> 0" and p: "p \<in> blocks m r"
  shows "\<exists>w y. region m base big w = Some y \<and> fst y \<le> p \<and> p + bsize r \<le> snd y \<and> (\<forall>i. w \<noteq> OBig i)"
proof (cases "snd r = (0, 0)")
  case True
  note w = wf_active [OF micro_invD(1) [OF I] r] and b = base_region [OF I]
  have rN: "r = (fst r, 0, 0)" using True by (simp add: prod_eq_iff)
  have "mData (mChunks m (fst r, 0, 0)) = mChunkStart m + fst r * mFixedSize m"
    using micro_invD(2) [OF I] w(1) unfolding heap_wf_def by simp
  then have d: "mData (mChunks m r) = mChunkStart m + fst r * mFixedSize m" using rN by simp
  have "mDataEnd (mChunks m r) \<le> mChunkStart m + fst r * mFixedSize m + mFixedSize m"
    using w(4) max_chunks_bounds(2) [OF b(3) w(1)] d by simp
  moreover have "fst r * mFixedSize m + mFixedSize m \<le> 17 * mFixedSize m" by (rule step_le [OF w(1)])
  ultimately have "fst base \<le> p \<and> p + bsize r \<le> snd base"
    using block_inside [OF I r p] b d by linarith
  then show ?thesis by (intro exI [of _ OBase]) simp
next
  case False
  have "mMyHeap (mChunks m r)" using micro_invD(2) [OF I] r False unfolding heap_wf_def by blast
  then show ?thesis using block_inside [OF I r p] by (intro exI [of _ "OChunk r"]) simp
qed

lemma live_not_fresh:
  assumes I: "micro_inv m base live big" and f: "fresh (region m base big) d n" and p: "p \<in> live" and q: "d \<le> p" "p < d + n"
  shows False
proof -
  obtain r where r: "mData (mChunks m r) \<noteq> 0" "p \<in> blocks m r"
    using micro_invD(5) [OF I] p unfolding live_wf_def by blast
  obtain w y where y: "region m base big w = Some y" "fst y \<le> p" "p + bsize r \<le> snd y"
    using block_region [OF I r] by blast
  have "d + n < fst y \<or> snd y < d" using f y(1) unfolding fresh_def by blast
  then show False using y q by linarith
qed

definition activated :: "nat \<Rightarrow> chunk_ref \<Rightarrow> micro \<Rightarrow> memory_chunk" where
  "activated d r m = \<lparr>mMyHeap = True, mData = d, mDataEnd = d + bsize r * max_chunks m (fst r), mUsedCount = 0,
     mFreeList = grid d (bsize r) (max_chunks m (fst r)), mChunkSize = bsize r\<rparr>"

definition activate :: "nat \<Rightarrow> chunk_ref \<Rightarrow> micro \<Rightarrow> micro" where
  "activate d r m = addMicroChunk d (d + bsize r * max_chunks m (fst r)) r (upd r (activated d r m) m)"

lemma activate_simps [simp]:
  "mChunks (activate d r m) = (mChunks m)(r := activated d r m)" "mGroups (activate d r m) = mGroups m"
  "mCurrent (activate d r m) = mCurrent m"
  "mFixedSize (activate d r m) = mFixedSize m" "mChunkStart (activate d r m) = mChunkStart m" "mChunkEnd (activate d r m) = mChunkEnd m"
  "group_chunks (activate d r m) N = group_chunks m N" "max_chunks (activate d r m) N = max_chunks m N"
  by (simp_all add: activate_def addMicroChunk_def Let_def group_chunks_def max_chunks_def split: prod.split)

lemma addMicroChunk_chunks [simp]: "mChunks (addMicroChunk a b r m) = mChunks m"
  by (simp add: addMicroChunk_def Let_def split: prod.split)

lemma activate_array:
  "mMicroChunks (activate d r m) = snd (insert_micro \<lparr>mMemStart = d, mMemEnd = d + bsize r * max_chunks m (fst r), mChunk = r\<rparr>
     (mMicroChunks m))"
  "mLastMicroChunk (activate d r m) = Some (fst (insert_micro \<lparr>mMemStart = d, mMemEnd = d + bsize r * max_chunks m (fst r), mChunk = r\<rparr>
     (mMicroChunks m)))"
  by (simp_all add: activate_def addMicroChunk_def Let_def split: prod.split)

lemma not_first:
  assumes I: "micro_inv m base live big" and r: "fst r < 17" "mData (mChunks m r) = 0"
  shows "snd r \<noteq> (0, 0)"
proof
  assume "snd r = (0, 0)"
  then have "r = (fst r, 0, 0)" by (simp add: prod_eq_iff)
  moreover have "mData (mChunks m (fst r, 0, 0)) = mChunkStart m + fst r * mFixedSize m"
    using micro_invD(2) [OF I] r(1) unfolding heap_wf_def by simp
  ultimately have "mChunkStart m = 0" using r(2) by simp
  then show False using base_region [OF I] by simp
qed

definition entry :: "(chunk_ref \<Rightarrow> memory_chunk) \<Rightarrow> chunk_ref \<Rightarrow> micro_chunk" where
  "entry cs q = \<lparr>mMemStart = mData (cs q), mMemEnd = mDataEnd (cs q), mChunk = q\<rparr>"

lemma entries_upd:
  assumes "\<not> mMyHeap (cs r)" and "mMyHeap c"
  shows "{entry (cs(r := c)) q | q. mMyHeap ((cs(r := c)) q)} = insert (entry (cs(r := c)) r) {entry cs q | q. mMyHeap (cs q)}"
proof -
  have s: "{q. mMyHeap ((cs(r := c)) q)} = insert r {q. mMyHeap (cs q)}" using assms by auto
  have "entry (cs(r := c)) ` {q. mMyHeap (cs q)} = entry cs ` {q. mMyHeap (cs q)}"
    using assms(1) by (intro image_cong) (auto simp: entry_def)
  then show ?thesis unfolding setcompr_eq_image s by simp
qed

lemma entries_del:
  assumes "mMyHeap (cs r)" and "\<not> mMyHeap c"
  shows "{entry (cs(r := c)) q | q. mMyHeap ((cs(r := c)) q)} = {entry cs q | q. mMyHeap (cs q)} - {entry cs r}"
proof -
  have s: "{q. mMyHeap ((cs(r := c)) q)} = {q. mMyHeap (cs q)} - {r}" using assms by auto
  have i: "inj (entry cs)" by (rule injI) (simp add: entry_def)
  have "entry (cs(r := c)) ` ({q. mMyHeap (cs q)} - {r}) = entry cs ` ({q. mMyHeap (cs q)} - {r})"
    by (intro image_cong) (auto simp: entry_def)
  then show ?thesis unfolding setcompr_eq_image s by (simp add: image_set_diff [OF i])
qed

lemma live_chunk:
  "live_wf m live \<Longrightarrow> mData (mChunks m q) \<noteq> 0 \<Longrightarrow> live \<inter> blocks m q = blocks m q - set (mFreeList (mChunks m q))"
  unfolding live_wf_def by blast

lemma activate_inv:
  assumes I: "micro_inv m base live big" and r: "fst r < 17" "snd r \<in> set (group_chunks m (fst r))" "mData (mChunks m r) = 0"
    and f: "fresh (region m base big) d (bsize r * max_chunks m (fst r))"
  shows "micro_inv (activate d r m) base live big"
proof -
  let ?m = "activate d r m" and ?n = "bsize r * max_chunks m (fst r)"
  note b = base_region [OF I] and H = micro_invD(2) [OF I] and A = micro_invD(3) [OF I]
  have d: "0 < d" using f by (simp add: fresh_def)
  have n: "0 < ?n" using class_end_bounds [OF r(1)] max_chunks_bounds(1) [OF b(3) r(1)] by simp
  have nf: "snd r \<noteq> (0, 0)" by (rule not_first [OF I r(1,3)])
  have idle: "\<not> mMyHeap (mChunks m r)" using micro_invD(1) [OF I, of r] r(3) unfolding chunk_wf_def Let_def by simp
  have wf: "chunk_wf ?m q" for q
  proof (cases "q = r")
    case True
    have "blocks ?m r = set (grid d (bsize r) (max_chunks m (fst r)))" by (simp add: blocks_def activated_def)
    moreover have "0 < bsize r" using class_end_bounds [OF r(1)] by simp
    ultimately show ?thesis unfolding True chunk_wf_def Let_def using d r(1,2) by (simp add: activated_def distinct_grid)
  next
    case False
    then show ?thesis by (intro chunk_wf_mono [OF micro_invD(1) [OF I]]) simp_all
  qed
  have h: "heap_wf ?m base"
  proof -
    have "(N, 0, 0) \<noteq> r" for N using nf by auto
    then show ?thesis using H unfolding heap_wf_def by (auto simp: activated_def)
  qed
  let ?x = "\<lparr>mMemStart = d, mMemEnd = d + ?n, mChunk = r\<rparr>"
  obtain i ys where ys: "insert_micro ?x (mMicroChunks m) = (i, ys)" by (cases "insert_micro ?x (mMicroChunks m)")
  have old: "y = \<lparr>mMemStart = mData (mChunks m (mChunk y)), mMemEnd = mDataEnd (mChunks m (mChunk y)), mChunk = mChunk y\<rparr> \<and>
      mMyHeap (mChunks m (mChunk y))" if "y \<in> set (mMicroChunks m)" for y
    using that unfolding array_set [OF A] by auto
  have gap: "mMemEnd ?x < mMemStart y \<or> mMemEnd y < mMemStart ?x" if y: "y \<in> set (mMicroChunks m)" for y
  proof -
    have "region m base big (OChunk (mChunk y)) = Some (mMemStart y, mMemEnd y)" using old [OF y] by (cases y) simp
    then show ?thesis using f unfolding fresh_def by fastforce
  qed
  have a: "array_wf ?m"
  proof -
    have "sorted_chunks (mMicroChunks m)" using A by (simp add: array_wf_def)
    then have "sorted_chunks ys" using insert_micro_sorted [OF _ _ _ ys] n gap by simp
    moreover have "set ys = {\<lparr>mMemStart = mData (mChunks ?m q), mMemEnd = mDataEnd (mChunks ?m q), mChunk = q\<rparr> | q. mMyHeap (mChunks ?m q)}"
      (is "_ = ?S")
    proof -
      have "?S = insert ?x {\<lparr>mMemStart = mData (mChunks m q), mMemEnd = mDataEnd (mChunks m q), mChunk = q\<rparr> | q. mMyHeap (mChunks m q)}"
        using entries_upd [of "mChunks m" r "activated d r m", OF idle] by (simp add: entry_def activated_def)
      then show ?thesis using insert_micro_set [OF ys] array_set [OF A] by simp
    qed
    ultimately show ?thesis using insert_micro_set [OF ys] unfolding array_wf_def activate_array ys by simp
  qed
  have R: "regions_wf (region ?m base big)"
  proof (rule regions_add [OF micro_invD(4) [OF I] f n])
    show "region m base big (OChunk r) = None" using idle by simp
    show "region ?m base big v = region m base big v" if "v \<noteq> OChunk r" for v using that by (cases v) auto
    show "region ?m base big (OChunk r) = Some (d, d + ?n)" by (simp add: activated_def)
  qed
  have bl: "blocks ?m q = blocks m q" if "q \<noteq> r" for q using that by (simp add: blocks_def)
  have L: "live_wf m live" by (rule micro_invD(5) [OF I])
  have new: "live \<inter> blocks ?m r = {}"
  proof -
    have "d \<le> p \<and> p < d + ?n" if "p \<in> blocks ?m r" for p
      using chunk_block_bounds [OF r(1)] that unfolding blocks_def by (auto simp: activated_def)
    then show ?thesis using live_not_fresh [OF I f] by blast
  qed
  have "live_wf ?m live" unfolding live_wf_def
  proof (intro conjI allI impI ballI)
    fix q assume q: "mData (mChunks ?m q) \<noteq> 0"
    show "live \<inter> blocks ?m q = blocks ?m q - set (mFreeList (mChunks ?m q))"
    proof (cases "q = r")
      case True
      have "blocks ?m r = set (mFreeList (mChunks ?m r))" by (simp add: blocks_def activated_def)
      then show ?thesis using new True by simp
    next
      case False
      then show ?thesis using live_chunk [OF L, of q] q bl [OF False] by simp
    qed
  next
    fix p assume "p \<in> live"
    then obtain q where q: "mData (mChunks m q) \<noteq> 0" "p \<in> blocks m q" using L unfolding live_wf_def by blast
    then have "q \<noteq> r" using r(3) by blast
    then show "\<exists>q. mData (mChunks ?m q) \<noteq> 0 \<and> p \<in> blocks ?m q" using q bl by (intro exI [of _ q]) simp
  qed
  then show ?thesis using wf h a R unfolding micro_inv_def by blast
qed

section \<open>Allocation\<close>

definition served :: "micro \<Rightarrow> nat \<times> nat \<Rightarrow> nat set \<Rightarrow> (nat \<rightharpoonup> nat) \<Rightarrow> nat \<Rightarrow> nat \<Rightarrow> micro \<Rightarrow> bool" where
  "served m base live big N p m' \<longleftrightarrow> p \<noteq> 0 \<and> p \<notin> live \<and> micro_inv m' base (insert p live) big \<and>
     mFixedSize m' = mFixedSize m \<and>
     (\<exists>r. fst r = N \<and> mData (mChunks m' r) \<noteq> 0 \<and> p \<in> blocks m' r) \<and>
     (\<forall>r. mData (mChunks m r) \<noteq> 0 \<longrightarrow> mData (mChunks m' r) = mData (mChunks m r))"

lemma chunk_allocate_active:
  assumes I: "micro_inv m base live big" and r: "mData (mChunks m r) \<noteq> 0"
  shows "\<exists>p m'. chunk_allocate d r m = Some (p, m') \<and> (p = 0 \<longrightarrow> m' = m) \<and> (p \<noteq> 0 \<longrightarrow> served m base live big (fst r) p m')"
proof (cases "mFreeList (mChunks m r)")
  case Nil
  then show ?thesis using r by (simp add: chunk_allocate_def)
next
  case (Cons p ps)
  let ?m = "upd r ((mChunks m r)\<lparr>mUsedCount := mUsedCount (mChunks m r) + 1, mFreeList := ps\<rparr>) m"
  note P = pop_block [OF I r Cons]
  have "chunk_allocate d r m = Some (p, ?m)" using r Cons by (simp add: chunk_allocate_def upd_def Let_def)
  moreover have "served m base live big (fst r) p ?m" unfolding served_def
  proof (intro conjI exI [of _ r] allI impI)
    show "p \<in> blocks ?m r" using P(3) by (simp add: blocks_def)
    show "mData (mChunks ?m q) = mData (mChunks m q)" for q by simp
    show "mData (mChunks ?m r) \<noteq> 0" using r by simp
  qed (use P in \<open>simp_all del: split_paired_All\<close>)
  ultimately show ?thesis using P(4) by blast
qed

lemma chunk_allocate_idle:
  assumes I: "micro_inv m base live big" and r: "fst r < 17" "snd r \<in> set (group_chunks m (fst r))" "mData (mChunks m r) = 0"
    and f: "fresh (region m base big) d (bsize r * max_chunks m (fst r))"
  shows "\<exists>p m'. chunk_allocate d r m = Some (p, m') \<and> served m base live big (fst r) p m'"
proof -
  let ?n = "max_chunks m (fst r)"
  have n: "0 < ?n" by (rule max_chunks_bounds(1) [OF base_region(3) [OF I] r(1)])
  have d: "d \<noteq> 0" using f by (simp add: fresh_def)
  have idle: "mUsedCount (mChunks m r) = 0" using micro_invD(1) [OF I, of r] r(3) unfolding chunk_wf_def Let_def by simp
  have "chunk_init d (bsize r) ?n ((mChunks m r)\<lparr>mMyHeap := True\<rparr>) = Some (activated d r m)"
    using n idle by (simp add: chunk_init_def activated_def)
  then have e: "chunk_allocate d r m = chunk_allocate d r (activate d r m)"
    using r(3) d unfolding chunk_allocate_def Let_def activate_simps
    by (simp add: activate_def upd_def activated_def)
  have J: "micro_inv (activate d r m) base live big" by (rule activate_inv [OF I r f])
  have a: "mData (mChunks (activate d r m) r) \<noteq> 0" using d by (simp add: activated_def)
  obtain p m' where p: "chunk_allocate d r (activate d r m) = Some (p, m')"
      "p = 0 \<longrightarrow> m' = activate d r m" "p \<noteq> 0 \<longrightarrow> served (activate d r m) base live big (fst r) p m'"
    using chunk_allocate_active [OF J a] by blast
  obtain k where "?n = Suc k" using n by (cases ?n) simp_all
  then have "mFreeList (mChunks (activate d r m) r) = d # grid (d + bsize r) (bsize r) k"
    by (simp add: activated_def grid_Cons)
  then have "p \<noteq> 0" using p(1) a d by (simp add: chunk_allocate_def Let_def)
  then have s: "served (activate d r m) base live big (fst r) p m'" using p(3) by blast
  have "served m base live big (fst r) p m'" unfolding served_def
  proof (intro conjI allI impI)
    show "mData (mChunks m' q) = mData (mChunks m q)" if q: "mData (mChunks m q) \<noteq> 0" for q
    proof -
      have "q \<noteq> r" using q r(3) by blast
      then have "mData (mChunks (activate d r m) q) = mData (mChunks m q)" by simp
      then show ?thesis using s q unfolding served_def by (metis (no_types))
    qed
  qed (use s in \<open>simp_all only: served_def activate_simps simp_thms\<close>)
  then show ?thesis using e p(1) by auto
qed

text \<open>The chunk tried first next time is any chunk of the class.\<close>

lemma current_inv:
  assumes I: "micro_inv m base live big" and g: "gi \<in> set (group_chunks m N)"
  shows "micro_inv (m\<lparr>mCurrent := (mCurrent m)(N := gi)\<rparr>) base live big"
proof -
  let ?m = "m\<lparr>mCurrent := (mCurrent m)(N := gi)\<rparr>"
  have "chunk_wf ?m r" for r by (intro chunk_wf_mono [OF micro_invD(1) [OF I]]) simp_all
  moreover have "heap_wf ?m base" using micro_invD(2) [OF I] g unfolding heap_wf_def by (simp add: set_group_chunks)
  moreover have "array_wf ?m" using micro_invD(3) [OF I] by (simp add: array_wf_def)
  moreover have "region ?m base big = region m base big" by (rule ext) (case_tac x; simp)
  moreover have "live_wf ?m live = live_wf m live" by (simp add: live_wf_def blocks_def max_chunks_def)
  ultimately show ?thesis using micro_invD(4,5) [OF I] unfolding micro_inv_def by simp
qed

lemma served_groups:
  "chunk_allocate d r m = Some (p, m') \<Longrightarrow> mGroups m' = mGroups m"
  by (auto simp: chunk_allocate_def Let_def addMicroChunk_def split: if_splits option.splits list.splits prod.splits)

lemma served_current:
  assumes s: "served m base live big N p m'" and g: "gi \<in> set (group_chunks m' K)"
  shows "served m base live big N p (m'\<lparr>mCurrent := (mCurrent m')(K := gi)\<rparr>)"
proof -
  have "blocks (m'\<lparr>mCurrent := (mCurrent m')(K := gi)\<rparr>) = blocks m'" by (rule ext) (simp add: blocks_def max_chunks_def)
  then show ?thesis using s current_inv [OF _ g] unfolding served_def by simp
qed

text \<open>Every chunk tried is full or serves the request.\<close>

lemma try_chunks_step:
  assumes I: "micro_inv m base live big" and N: "N < 17" and f: "fresh (region m base big) d (class_ends ! N * max_chunks m N)"
    and g: "set gis \<subseteq> set (group_chunks m N)"
  shows "\<exists>p m'. try_chunks d N gis m = Some (p, m') \<and> (p = 0 \<longrightarrow> m' = m) \<and> (p \<noteq> 0 \<longrightarrow> served m base live big N p m')"
  using g
proof (induction gis)
  case (Cons gi gis)
  have "\<exists>p m'. chunk_allocate d (N, gi) m = Some (p, m') \<and> (p = 0 \<longrightarrow> m' = m) \<and> (p \<noteq> 0 \<longrightarrow> served m base live big N p m')"
  proof (cases "mData (mChunks m (N, gi)) = 0")
    case True
    then show ?thesis using chunk_allocate_idle [OF I, of "(N, gi)" d] N f Cons.prems
      by (auto simp: served_def simp del: split_paired_All split_paired_Ex)
  qed (use chunk_allocate_active [OF I, of "(N, gi)" d] in simp)
  then obtain p m' where p: "chunk_allocate d (N, gi) m = Some (p, m')" "p = 0 \<longrightarrow> m' = m" "p \<noteq> 0 \<longrightarrow> served m base live big N p m'"
    by blast
  show ?case
  proof (cases "p = 0")
    case True
    then show ?thesis using p Cons by simp
  next
    case False
    have "gi \<in> set (group_chunks m' N)" using served_groups [OF p(1)] Cons.prems by (auto simp: set_group_chunks)
    then have "served m base live big N p (m'\<lparr>mCurrent := (mCurrent m')(N := gi)\<rparr>)"
      using served_current p(3) False by blast
    then show ?thesis using p(1) False by simp
  qed
qed simp

text \<open>The answers \<open>malloc\<close> may give to a request in class \<open>N\<close>: memory for a chunk and for a further group.\<close>

definition answers :: "micro \<Rightarrow> nat \<times> nat \<Rightarrow> (nat \<rightharpoonup> nat) \<Rightarrow> nat \<Rightarrow> nat \<Rightarrow> nat \<Rightarrow> bool" where
  "answers m base big N d g \<longleftrightarrow> fresh (region m base big) d (class_ends ! N * max_chunks m N) \<and>
     fresh (region m base big) g GROUP_SIZE \<and> (d + class_ends ! N * max_chunks m N < g \<or> g + GROUP_SIZE < d)"

definition new_group :: "nat \<Rightarrow> nat \<Rightarrow> micro \<Rightarrow> micro" where
  "new_group g N m = m\<lparr>mChunks := (\<lambda>(N', g', i). if N' = N \<and> g' = g then MemoryChunk else mChunks m (N', g', i)),
     mGroups := (mGroups m)(N := hd (mGroups m N) # g # tl (mGroups m N))\<rparr>"

lemma new_group_simps [simp]:
  "mFixedSize (new_group g N m) = mFixedSize m" "mChunkStart (new_group g N m) = mChunkStart m"
  "mChunkEnd (new_group g N m) = mChunkEnd m" "mMicroChunks (new_group g N m) = mMicroChunks m"
  "mLastMicroChunk (new_group g N m) = mLastMicroChunk m" "mCurrent (new_group g N m) = mCurrent m"
  "max_chunks (new_group g N m) K = max_chunks m K"
  "mGroups (new_group g N m) = (mGroups m)(N := hd (mGroups m N) # g # tl (mGroups m N))"
  by (simp_all add: new_group_def max_chunks_def)

lemma fresh_group:
  assumes "fresh (region m base big) g n"
  shows "g \<notin> set (mGroups m N)"
proof
  assume g: "g \<in> set (mGroups m N)"
  have "0 < g" using assms by (simp add: fresh_def)
  then have "region m base big (OGroup N g) = Some (g, g + GROUP_SIZE)" using g by simp
  then have "g + n < fst (g, g + GROUP_SIZE) \<or> snd (g, g + GROUP_SIZE) < g" using assms unfolding fresh_def by blast
  then show False by simp
qed

lemma idle_chunk:
  assumes "chunk_wf m r" and "fst (snd r) \<notin> set (mGroups m (fst r))"
  shows "mData (mChunks m r) = 0 \<and> \<not> mMyHeap (mChunks m r)"
  using assms unfolding chunk_wf_def Let_def by (auto simp: set_group_chunks split: if_splits)

lemma new_group_chunk:
  assumes I: "micro_inv m base live big" and g: "fresh (region m base big) g n"
  shows "mData (mChunks (new_group g N m) r) = mData (mChunks m r)"
    and "mMyHeap (mChunks (new_group g N m) r) = mMyHeap (mChunks m r)"
    and "mData (mChunks m r) \<noteq> 0 \<Longrightarrow> mChunks (new_group g N m) r = mChunks m r"
proof -
  obtain N' g' i where r: "r = (N', g', i)" by (cases r)
  have "mData (mChunks m r) = 0 \<and> \<not> mMyHeap (mChunks m r)" if "N' = N" "g' = g"
    using idle_chunk [OF micro_invD(1) [OF I], of r] fresh_group [OF g] that by (simp add: r)
  then show "mData (mChunks (new_group g N m) r) = mData (mChunks m r)"
    and "mMyHeap (mChunks (new_group g N m) r) = mMyHeap (mChunks m r)"
    and "mData (mChunks m r) \<noteq> 0 \<Longrightarrow> mChunks (new_group g N m) r = mChunks m r"
    by (auto simp: new_group_def r MemoryChunk_def)
qed

lemma own_active: "micro_inv m base live big \<Longrightarrow> mMyHeap (mChunks m r) \<Longrightarrow> mData (mChunks m r) \<noteq> 0"
  using micro_invD(1) [of m base live big r] unfolding chunk_wf_def Let_def by (auto split: if_splits)

lemma new_group_inv:
  assumes I: "micro_inv m base live big" and N: "N < 17" and g: "fresh (region m base big) g GROUP_SIZE"
  shows "micro_inv (new_group g N m) base live big"
proof -
  let ?m = "new_group g N m"
  note c = new_group_chunk [OF I g, where N = N]
  have "0 \<in> set (mGroups m N)" using micro_invD(2) [OF I] N unfolding heap_wf_def by simp
  then obtain x xs where xs: "mGroups m N = x # xs" by (cases "mGroups m N") auto
  have gs: "set (mGroups ?m K) = (if K = N then insert g (set (mGroups m K)) else set (mGroups m K))" for K
    using xs by auto
  then have sub: "set (mGroups m K) \<subseteq> set (mGroups ?m K)" for K by auto
  have b: "blocks ?m r = blocks m r" for r using c(1) by (simp add: blocks_def)
  have wf: "chunk_wf ?m r" for r
  proof (cases "mChunks ?m r = mChunks m r")
    case True
    then show ?thesis by (intro chunk_wf_mono [OF micro_invD(1) [OF I]] sub) simp_all
  next
    case False
    then have "mChunks ?m r = MemoryChunk" by (cases r) (auto simp: new_group_def split: if_splits)
    then show ?thesis by (simp add: chunk_wf_def MemoryChunk_def)
  qed
  have h: "heap_wf ?m base"
  proof -
    have "mCurrent m K \<in> set (group_chunks ?m K)" if "mCurrent m K \<in> set (group_chunks m K)" for K
      using that sub [of K] by (auto simp: set_group_chunks)
    moreover have "0 \<in> set (mGroups ?m K)" if "0 \<in> set (mGroups m K)" for K using that sub by blast
    ultimately show ?thesis using micro_invD(2) [OF I] unfolding heap_wf_def c(1,2)
      by (simp del: split_paired_All new_group_simps(8))
  qed
  have a: "array_wf ?m"
  proof -
    have "entry (mChunks ?m) q = entry (mChunks m) q" if "mMyHeap (mChunks m q)" for q
    proof -
      have "mData (mChunks m q) \<noteq> 0" by (rule own_active [OF I that])
      then show ?thesis using c(3) by (simp add: entry_def)
    qed
    then have "{entry (mChunks ?m) q | q. mMyHeap (mChunks ?m q)} = {entry (mChunks m) q | q. mMyHeap (mChunks m q)}"
      unfolding c(2) by metis
    then show ?thesis using micro_invD(3) [OF I] unfolding array_wf_def entry_def by simp
  qed
  have R: "regions_wf (region ?m base big)"
  proof (rule regions_add [OF micro_invD(4) [OF I] g])
    show "0 < GROUP_SIZE" by (simp add: GROUP_SIZE_def)
    show "region m base big (OGroup N g) = None" using fresh_group [OF g] by simp
    show "region ?m base big (OGroup N g) = Some (g, g + GROUP_SIZE)" using g by (simp add: fresh_def)
    show "region ?m base big v = region m base big v" if "v \<noteq> OGroup N g" for v
    proof (cases v)
      case (OChunk r)
      have "mMyHeap (mChunks m r) \<Longrightarrow> mData (mChunks m r) \<noteq> 0"
        by (rule own_active [OF I])
      then show ?thesis using c [of r] OChunk by simp
    next
      case (OGroup K h)
      then have "h \<in> set (mGroups ?m K) \<longleftrightarrow> h \<in> set (mGroups m K)" using that gs by auto
      then show ?thesis using OGroup by (simp del: new_group_simps(8))
    qed simp_all
  qed
  have L: "live_wf m live" by (rule micro_invD(5) [OF I])
  have "live_wf ?m live" unfolding live_wf_def c(1) b
  proof (intro conjI allI impI ballI)
    fix q assume q: "mData (mChunks m q) \<noteq> 0"
    then show "live \<inter> blocks m q = blocks m q - set (mFreeList (mChunks ?m q))"
      using live_chunk [OF L q] c(3) [OF q] by simp
  qed (use L in \<open>unfold live_wf_def, blast\<close>)
  then show ?thesis using wf h a R unfolding micro_inv_def by blast
qed

lemma served_weaken:
  assumes "served m1 base live big N p m'" and "mFixedSize m1 = mFixedSize m"
    and "\<And>r. mData (mChunks m r) \<noteq> 0 \<Longrightarrow> mData (mChunks m1 r) = mData (mChunks m r)"
  shows "served m base live big N p m'"
  unfolding served_def
proof (intro conjI allI impI)
  show "mData (mChunks m' r) = mData (mChunks m r)" if "mData (mChunks m r) \<noteq> 0" for r
    using assms(1) assms(3) [OF that] that unfolding served_def by (metis (no_types))
  show "mFixedSize m' = mFixedSize m" using assms(1,2) unfolding served_def by metis
  show "\<exists>r. fst r = N \<and> mData (mChunks m' r) \<noteq> 0 \<and> p \<in> blocks m' r" using assms(1) unfolding served_def by (elim conjE)
qed (use assms(1) in \<open>unfold served_def, blast+\<close>)

lemma chunkchunk_allocate_step:
  assumes I: "micro_inv m base live big" and N: "N < 17" and f: "answers m base big N d g"
  shows "\<exists>p m'. chunkchunk_allocate d g N m = Some (p, m') \<and> served m base live big N p m'"
proof -
  have d: "fresh (region m base big) d (class_ends ! N * max_chunks m N)" and g: "fresh (region m base big) g GROUP_SIZE"
    and dg: "d + class_ends ! N * max_chunks m N < g \<or> g + GROUP_SIZE < d" using f by (simp_all add: answers_def)
  obtain p m1 where p: "try_chunks d N (group_chunks m N) m = Some (p, m1)" "p = 0 \<longrightarrow> m1 = m"
      "p \<noteq> 0 \<longrightarrow> served m base live big N p m1"
    using try_chunks_step [OF I N d order_refl] by blast
  show ?thesis
  proof (cases "p = 0")
    case False
    then show ?thesis using p by (simp add: chunkchunk_allocate_def)
  next
    case True
    let ?m = "new_group g N m"
    have J: "micro_inv ?m base live big" by (rule new_group_inv [OF I N g])
    have g0: "g \<noteq> 0" using g by (simp add: fresh_def)
    have mem: "(g, 0) \<in> set (group_chunks ?m N)" by (simp add: set_group_chunks)
    have idle: "mData (mChunks ?m (N, g, 0)) = 0" by (simp add: new_group_def MemoryChunk_def)
    have "fresh (region ?m base big) d (class_ends ! N * max_chunks m N)" unfolding fresh_def
    proof (intro conjI allI impI)
      fix v y assume v: "region ?m base big v = Some y"
      show "d + class_ends ! N * max_chunks m N < fst y \<or> snd y < d"
      proof (cases "region m base big v = Some y")
        case True
        then show ?thesis using d unfolding fresh_def by blast
      next
        case False
        have "y = (g, g + GROUP_SIZE)"
        proof (cases v)
          case (OChunk r)
          then show ?thesis using v False new_group_chunk [OF I g, where r = r and N = N] own_active [OF I, of r] by (auto split: if_splits)
        next
          case (OGroup K h)
          have ne: "mGroups m N \<noteq> []" using micro_invD(2) [OF I] N unfolding heap_wf_def by auto
          have "h = g" using v False OGroup ne by (auto split: if_splits dest: list.set_sel)
          then show ?thesis using v OGroup by (simp split: if_splits)
        qed (use v False in simp_all)
        then show ?thesis using dg by simp
      qed
    qed (use d in \<open>simp add: fresh_def\<close>)
    then obtain q m' where q: "chunk_allocate d (N, g, 0) ?m = Some (q, m')" "served ?m base live big N q m'"
      using chunk_allocate_idle [OF J, of "(N, g, 0)" d] N mem idle by auto
    have "mGroups m' = mGroups ?m" by (rule served_groups [OF q(1)])
    then have "(g, 0) \<in> set (group_chunks m' N)" using mem by (simp add: set_group_chunks)
    then have "served ?m base live big N q (m'\<lparr>mCurrent := (mCurrent m')(N := (g, 0))\<rparr>)" by (rule served_current [OF q(2)])
    then have "served m base live big N q (m'\<lparr>mCurrent := (mCurrent m')(N := (g, 0))\<rparr>)"
      by (rule served_weaken) (use new_group_chunk(1) [OF I g] in simp_all)
    moreover have "chunkchunk_allocate d g N m = Some (q, m'\<lparr>mCurrent := (mCurrent m')(N := (g, 0))\<rparr>)"
      using p(1,2) True g0 q(1) by (simp add: chunkchunk_allocate_def Let_def new_group_def)
    ultimately show ?thesis by blast
  qed
qed

lemma fixed_allocate_step:
  assumes I: "micro_inv m base live big" and N: "N < 17" and f: "answers m base big N d g"
  shows "\<exists>p m'. fixed_allocate d g N m = Some (p, m') \<and> served m base live big N p m'"
proof -
  have c: "mCurrent m N \<in> set (group_chunks m N)" using micro_invD(2) [OF I] N unfolding heap_wf_def by simp
  have d: "fresh (region m base big) d (class_ends ! N * max_chunks m N)" using f by (simp add: answers_def)
  have "\<exists>p m'. chunk_allocate d (N, mCurrent m N) m = Some (p, m') \<and> (p = 0 \<longrightarrow> m' = m) \<and> (p \<noteq> 0 \<longrightarrow> served m base live big N p m')"
  proof (cases "mData (mChunks m (N, mCurrent m N)) = 0")
    case True
    then show ?thesis using chunk_allocate_idle [OF I, of "(N, mCurrent m N)" d] N d c by (auto simp: served_def simp del: split_paired_All split_paired_Ex)
  qed (use chunk_allocate_active [OF I, of "(N, mCurrent m N)" d] in simp)
  then obtain p m' where p: "chunk_allocate d (N, mCurrent m N) m = Some (p, m')" "p = 0 \<longrightarrow> m' = m"
      "p \<noteq> 0 \<longrightarrow> served m base live big N p m'" by blast
  show ?thesis
    using p chunkchunk_allocate_step [OF I N f] by (cases "p = 0") (simp_all add: fixed_allocate_def)
qed

text \<open>The class of a request holds it, and is the least that does.\<close>

lemma takeWhile_least:
  "sorted xs \<Longrightarrow> k < length (takeWhile (\<lambda>e. e < n) xs) \<Longrightarrow> xs ! k < (n :: nat)"
  by (metis nth_mem set_takeWhileD takeWhile_nth)

lemma fixed_allocator:
  assumes "n \<le> 1024"
  shows "fixed_allocator_of n < 17" and "n \<le> class_ends ! fixed_allocator_of n"
    and "k < fixed_allocator_of n \<Longrightarrow> class_ends ! k < n"
proof -
  have "length (takeWhile (\<lambda>e. e < n) class_ends) < length class_ends"
  proof (rule ccontr)
    assume "\<not> ?thesis"
    then have "takeWhile (\<lambda>e. e < n) class_ends = class_ends"
      by (metis length_takeWhile_le linorder_neqE_nat nat_less_le takeWhile_eq_take take_all_iff)
    then have "\<forall>e \<in> set class_ends. e < n" by (simp only: takeWhile_eq_all_conv)
    then show False using assms by (simp add: class_ends_def)
  qed
  moreover have l: "length class_ends = 17" by (simp add: class_ends_def)
  ultimately show "fixed_allocator_of n < 17" unfolding fixed_allocator_of_def by simp
  show "n \<le> class_ends ! fixed_allocator_of n" unfolding fixed_allocator_of_def
    using nth_length_takeWhile [of "\<lambda>e. e < n" class_ends] \<open>length (takeWhile _ _) < _\<close> by simp
  have "sorted class_ends" by (simp add: class_ends_def)
  then show "k < fixed_allocator_of n \<Longrightarrow> class_ends ! k < n"
    unfolding fixed_allocator_of_def by (rule takeWhile_least)
qed

lemma micro_malloc_step:
  assumes "micro_inv m base live big" and "n \<le> 1024" and "answers m base big (fixed_allocator_of n) d g"
  shows "\<exists>p m'. micro_malloc d g n m = Some (p, m') \<and> served m base live big (fixed_allocator_of n) p m'"
  using fixed_allocate_step [OF assms(1) fixed_allocator(1) [OF assms(2)] assms(3)] assms(2) by (simp add: micro_malloc_def)

end
