(* ===== verification/MicroFree.thy ===== *)
theory MicroFree
  imports MicroSteps
begin

text \<open>
  Freeing in \<open>MicroAllocator\<close>: the block goes back to its chunk, and a chunk obtained later goes back
  to \<open>free\<close> with its last block. Then the entry points, and what a program may rely on.
\<close>

section \<open>Freeing in a chunk\<close>







section \<open>The entry points\<close>











section \<open>Resizing\<close>







section \<open>Histories\<close>
















end
