(* ===== verification/RWQueue.thy ===== *)
theory RWQueue
  imports Prelude
begin

text \<open>
  \<open>readerwriterqueue/readerwriterqueue.h\<close>: a queue for one producer and one consumer thread, a ring of
  circular buffers. Blocks are named by the order of their creation. Each thread is a small state machine whose
  steps make at most one access to a variable that both threads use and one of them writes; the fences make
  the accesses take effect in program order. A slot is \<open>None\<close> while it is raw memory: a construction over an
  element, a destruction of raw memory and a failed assertion are the result \<open>None\<close>.
\<close>

record 'a block =
  front :: nat
  tail :: nat
  next_block :: nat
  slots :: "'a option list"
  bsize :: nat

definition sizeMask :: "'a block \<Rightarrow> nat" where
  "sizeMask b = bsize b - 1"

definition Block :: "nat \<Rightarrow> 'a block" where
  "Block n = \<lparr>front = 0, tail = 0, next_block = 0, slots = replicate n None, bsize = n\<rparr>"

text \<open>What a thread is about to do, with its local variables.\<close>

datatype 'a producer =
    PIdle
  | PRoom nat nat 'a
  | PStore nat nat 'a
  | PFull nat bool 'a
  | PAhead nat 'a
  | PFill nat nat 'a
  | PNew nat 'a
  | PPublish nat 'a

datatype 'a consumer =
    CIdle
  | CStart nat
  | CAdvance nat
  | CNext nat
  | CMove nat nat
  | CRead nat nat
  | CCommit nat nat 'a

record 'a rwq =
  blocks :: "'a block list"
  frontBlock :: nat
  tailBlock :: nat
  largestBlockSize :: nat
  producer :: "'a producer"
  consumer :: "'a consumer"

abbreviation blk :: "'a rwq \<Rightarrow> nat \<Rightarrow> 'a block" where
  "blk q i \<equiv> blocks q ! i"

definition put_blk :: "nat \<Rightarrow> 'a block \<Rightarrow> 'a rwq \<Rightarrow> 'a rwq" where
  "put_blk i b q = q\<lparr>blocks := (blocks q)[i := b]\<rparr>"

section \<open>Sizes\<close>

definition ceilToPow2 :: "nat \<Rightarrow> nat" where
  "ceilToPow2 x =
     (let x = x - 1;
          x = x OR drop_bit 1 x;
          x = x OR drop_bit 2 x;
          x = x OR drop_bit 4 x;
          x = x OR drop_bit 8 x;
          x = x OR drop_bit 16 x;
          x = x OR drop_bit 32 x in (x + 1) mod 2 ^ 64)"

definition ReaderWriterQueue :: "nat \<Rightarrow> 'a rwq" where
  "ReaderWriterQueue maxSize =
     (let n = ceilToPow2 (maxSize + 1) in
      \<lparr>blocks = [Block n], frontBlock = 0, tailBlock = 0, largestBlockSize = n, producer = PIdle, consumer = CIdle\<rparr>)"

section \<open>Slots\<close>

definition construct :: "nat \<Rightarrow> 'a \<Rightarrow> 'a block \<Rightarrow> 'a block option" where
  "construct i x b =
     (if i < length (slots b) \<and> slots b ! i = None then Some (b\<lparr>slots := (slots b)[i := Some x]\<rparr>) else None)"

definition destroy :: "nat \<Rightarrow> 'a block \<Rightarrow> ('a \<times> 'a block) option" where
  "destroy i b =
     (if i < length (slots b) then map_option (\<lambda>x. (x, b\<lparr>slots := (slots b)[i := None]\<rparr>)) (slots b ! i) else None)"

definition after :: "nat \<Rightarrow> 'a block \<Rightarrow> nat" where
  "after i b = (i + 1) AND sizeMask b"

section \<open>The producer\<close>

text \<open>What a step makes visible: an element is in the queue, was refused or taken, or none was found.\<close>

datatype 'a event = Silent | Enqueued 'a | Full 'a | Dequeued 'a | Empty

text \<open>The first step of \<open>inner_enqueue\<close>: the loads of the tail block, its front and its tail.\<close>

definition start_enqueue :: "bool \<Rightarrow> 'a \<Rightarrow> 'a rwq \<Rightarrow> 'a rwq" where
  "start_enqueue canAlloc x q =
     (let tb = tailBlock q; b = blk q tb in
      if after (tail b) b \<noteq> front b then q\<lparr>producer := PRoom tb (tail b) x\<rparr>
      else q\<lparr>producer := PFull tb canAlloc x\<rparr>)"

definition new_block :: "nat \<Rightarrow> 'a \<Rightarrow> 'a rwq \<Rightarrow> 'a rwq option" where
  "new_block tb x q =
     (let n = largestBlockSize q * 2; q = q\<lparr>largestBlockSize := n\<rparr>; i = length (blocks q) in
      map_option (\<lambda>b. (put_blk tb ((blk q tb)\<lparr>next_block := i\<rparr>)
            (q\<lparr>blocks := blocks q @ [b\<lparr>tail := 1, next_block := next_block (blk q tb)\<rparr>]\<rparr>))\<lparr>producer := PPublish i x\<rparr>)
        (construct 0 x (Block n)))"

text \<open>The further steps. The block ahead is not visible to the consumer before it is the tail block.\<close>

fun produce_at :: "'a producer \<Rightarrow> 'a rwq \<Rightarrow> ('a rwq \<times> 'a event) option" where
  "produce_at PIdle q = Some (q, Silent)"
| "produce_at (PRoom tb bt x) q =
     map_option (\<lambda>b. ((put_blk tb b q)\<lparr>producer := PStore tb bt x\<rparr>, Silent)) (construct bt x (blk q tb))"
| "produce_at (PStore tb bt x) q =
     Some ((put_blk tb ((blk q tb)\<lparr>tail := after bt (blk q tb)\<rparr>) q)\<lparr>producer := PIdle\<rparr>, Enqueued x)"
| "produce_at (PFull tb canAlloc x) q =
     (if next_block (blk q tb) \<noteq> frontBlock q then Some (q\<lparr>producer := PAhead tb x\<rparr>, Silent)
      else if canAlloc then Some (q\<lparr>producer := PNew tb x\<rparr>, Silent)
      else Some (q\<lparr>producer := PIdle\<rparr>, Full x))"
| "produce_at (PAhead tb x) q =
     (let n = next_block (blk q tb); b = blk q n in
      if front b \<noteq> tail b then None else Some (q\<lparr>producer := PFill n (tail b) x\<rparr>, Silent))"
| "produce_at (PFill n nt x) q =
     map_option (\<lambda>b. ((put_blk n (b\<lparr>tail := after nt b\<rparr>) q)\<lparr>producer := PPublish n x\<rparr>, Silent)) (construct nt x (blk q n))"
| "produce_at (PNew tb x) q = map_option (\<lambda>q. (q, Silent)) (new_block tb x q)"
| "produce_at (PPublish n x) q = Some (q\<lparr>tailBlock := n, producer := PIdle\<rparr>, Enqueued x)"

definition produce :: "'a rwq \<Rightarrow> ('a rwq \<times> 'a event) option" where
  "produce q = produce_at (producer q) q"

section \<open>The consumer\<close>

text \<open>\<open>try_dequeue\<close>; its first step is the load of the tail block.\<close>

fun consume_at :: "'a consumer \<Rightarrow> 'a rwq \<Rightarrow> ('a rwq \<times> 'a event) option" where
  "consume_at CIdle q = Some (q\<lparr>consumer := CStart (tailBlock q)\<rparr>, Silent)"
| "consume_at (CStart tailBlockAtStart) q =
     (let fb = frontBlock q; b = blk q fb in
      if front b \<noteq> tail b then Some (q\<lparr>consumer := CRead fb (front b)\<rparr>, Silent)
      else if fb \<noteq> tailBlockAtStart then Some (q\<lparr>consumer := CAdvance fb\<rparr>, Silent)
      else Some (q\<lparr>consumer := CIdle\<rparr>, Empty))"
| "consume_at (CAdvance fb) q = Some (q\<lparr>consumer := CNext (next_block (blk q fb))\<rparr>, Silent)"
| "consume_at (CNext nb) q =
     (let b = blk q nb in
      if front b = tail b then None else Some (q\<lparr>consumer := CMove nb (front b)\<rparr>, Silent))"
| "consume_at (CMove nb nf) q = Some (q\<lparr>frontBlock := nb, consumer := CRead nb nf\<rparr>, Silent)"
| "consume_at (CRead fb bf) q =
     map_option (\<lambda>(x, b). ((put_blk fb b q)\<lparr>consumer := CCommit fb bf x\<rparr>, Silent)) (destroy bf (blk q fb))"
| "consume_at (CCommit fb bf x) q =
     Some ((put_blk fb ((blk q fb)\<lparr>front := after bf (blk q fb)\<rparr>) q)\<lparr>consumer := CIdle\<rparr>, Dequeued x)"

definition consume :: "'a rwq \<Rightarrow> ('a rwq \<times> 'a event) option" where
  "consume q = consume_at (consumer q) q"

section \<open>The destructor\<close>

text \<open>\<open>k\<close> bounds the steps of the loops; the result is the blocks deleted.\<close>

fun destroy_elements :: "nat \<Rightarrow> nat \<Rightarrow> 'a block \<Rightarrow> 'a block option" where
  "destroy_elements k i b =
     (if i = tail b then Some b
      else (case k of 0 \<Rightarrow> None | Suc k \<Rightarrow> Option.bind (destroy i b) (\<lambda>(x, b). destroy_elements k (after i b) b)))"

declare destroy_elements.simps [simp del]

fun delete_blocks :: "nat \<Rightarrow> nat \<Rightarrow> nat \<Rightarrow> 'a rwq \<Rightarrow> nat list option" where
  "delete_blocks 0 i tb q = None"
| "delete_blocks (Suc k) i tb q =
     Option.bind (destroy_elements (bsize (blk q i)) (front (blk q i)) (blk q i))
       (\<lambda>b. let n = next_block b in
          if n = tb then Some [i] else map_option ((#) i) (delete_blocks k n tb q))"

definition delete_queue :: "'a rwq \<Rightarrow> nat list option" where
  "delete_queue q = delete_blocks (length (blocks q)) (frontBlock q) (tailBlock q) q"

end
