(* ===== verification/RWQueueInv.thy ===== *)
theory RWQueueInv
  imports RWQueue
begin

text \<open>
  The queue holds what was enqueued and not yet dequeued, in order, whatever the interleaving of the two
  threads. A block is described by its contents, by whether its first element was moved out already, and
  by an element constructed but not counted yet; the ring by the blocks from the front to the tail and the spare ones.
\<close>

section \<open>One circular buffer\<close>

definition view :: "'a list \<Rightarrow> bool \<Rightarrow> 'a option \<Rightarrow> nat \<Rightarrow> 'a option" where
  "view cs tk pe j =
     (if j < length cs then (if j = 0 \<and> tk then None else Some (cs ! j)) else if j = length cs then pe else None)"

definition holds :: "'a block \<Rightarrow> 'a list \<Rightarrow> bool \<Rightarrow> 'a option \<Rightarrow> bool" where
  "holds b cs tk pe \<longleftrightarrow> (\<exists>k. bsize b = 2 ^ k) \<and> 2 \<le> bsize b \<and> length cs < bsize b \<and> front b < bsize b \<and>
     length (slots b) = bsize b \<and> tail b = (front b + length cs) mod bsize b \<and>
     (\<forall>j < bsize b. slots b ! ((front b + j) mod bsize b) = view cs tk pe j) \<and>
     (tk \<longrightarrow> cs \<noteq> []) \<and> (pe \<noteq> None \<longrightarrow> length cs + 1 < bsize b)"

lemma holds_next: "holds (b\<lparr>next_block := n\<rparr>) cs tk pe = holds b cs tk pe"
  unfolding holds_def by simp

lemma after_mod: "bsize b = 2 ^ k \<Longrightarrow> after i b = (i + 1) mod bsize b"
proof -
  assume n: "bsize b = 2 ^ k"
  have "after i b = (i + 1) AND mask k" unfolding after_def sizeMask_def n by (simp only: mask_eq_exp_minus_1)
  also have "\<dots> = take_bit k (i + 1)" by (simp only: take_bit_eq_mask)
  finally show ?thesis unfolding n by (simp only: take_bit_eq_mod)
qed

lemma shift_mod_le: "(a + i) mod n = (a + j) mod n \<Longrightarrow> i \<le> j \<Longrightarrow> j < n \<Longrightarrow> i = (j :: nat)"
  using mod_eq_dvd_iff_nat [of "a + i" "a + j" n] by (auto dest: dvd_imp_le)

lemma shift_mod_inj: "(a + i) mod n = (a + j) mod n \<Longrightarrow> i < n \<Longrightarrow> j < n \<Longrightarrow> i = (j :: nat)"
  using shift_mod_le [of a i n j] shift_mod_le [of a j n i] by (cases "i \<le> j") simp_all

lemma holds_after:
  assumes "holds b cs tk pe"
  shows "after i b = (i + 1) mod bsize b"
  using assms after_mod unfolding holds_def by blast

lemma holds_empty: 
  assumes "holds b cs tk pe"
  shows "front b = tail b \<longleftrightarrow> cs = []"
proof
  assume "front b = tail b"
  then have "(front b + 0) mod bsize b = (front b + length cs) mod bsize b" using assms unfolding holds_def by simp
  then show "cs = []" using shift_mod_inj [of "front b" 0 "bsize b" "length cs"] assms unfolding holds_def by simp
qed (use assms in \<open>simp add: holds_def\<close>)

lemma holds_room:
  assumes h: "holds b cs tk pe"
  shows "after (tail b) b \<noteq> front b \<longleftrightarrow> length cs + 1 < bsize b"
proof -
  have e: "after (tail b) b = (front b + (length cs + 1)) mod bsize b"
    using h unfolding holds_after [OF h] holds_def by (simp add: mod_simps)
  have l: "length cs < bsize b" "front b < bsize b" using h unfolding holds_def by blast+
  show ?thesis
  proof (cases "length cs + 1 = bsize b")
    case True
    then show ?thesis using e l by simp
  next
    case False
    then have "length cs + 1 < bsize b" using l by simp
    then show ?thesis using e shift_mod_inj [of "front b" "length cs + 1" "bsize b" 0] l by auto
  qed
qed

lemma holds_construct:
  assumes h: "holds b cs tk None" and l: "length cs + 1 < bsize b"
  shows "\<exists>b'. construct (tail b) x b = Some b' \<and> holds b' cs tk (Some x) \<and> front b' = front b \<and> tail b' = tail b \<and>
    next_block b' = next_block b \<and> bsize b' = bsize b"
proof -
  let ?b = "b\<lparr>slots := (slots b)[tail b := Some x]\<rparr>"
  have t: "tail b = (front b + length cs) mod bsize b" "tail b < length (slots b)" using h unfolding holds_def by simp_all
  have s: "slots b ! ((front b + j) mod bsize b) = view cs tk None j" if "j < bsize b" for j
    using h that unfolding holds_def by blast
  have "slots b ! tail b = None" using s [of "length cs"] l t by (simp add: view_def)
  then have c: "construct (tail b) x b = Some ?b" using t(2) by (simp add: construct_def)
  have "(slots b)[tail b := Some x] ! ((front b + j) mod bsize b) = view cs tk (Some x) j" if j: "j < bsize b" for j
  proof (cases "j = length cs")
    case True
    then show ?thesis using t by (simp add: view_def)
  next
    case False
    then have "(front b + j) mod bsize b \<noteq> tail b" using shift_mod_inj [of "front b" j "bsize b" "length cs"] t(1) j l by auto
    then show ?thesis using s [OF j] False by (simp add: view_def)
  qed
  then have "holds ?b cs tk (Some x)" using h l unfolding holds_def by simp
  then show ?thesis using c by simp
qed

lemma holds_store:
  assumes h: "holds b cs tk (Some x)"
  shows "holds (b\<lparr>tail := after (tail b) b\<rparr>) (cs @ [x]) tk None"
proof -
  have "view (cs @ [x]) tk None j = view cs tk (Some x) j" for j
    using h unfolding holds_def by (auto simp: view_def nth_append)
  moreover have "after (tail b) b = (front b + length (cs @ [x])) mod bsize b"
    using h unfolding holds_after [OF h] holds_def by (simp add: mod_simps)
  ultimately show ?thesis using h unfolding holds_def by simp
qed

lemma holds_take:
  assumes h: "holds b cs False pe" and ne: "cs \<noteq> []"
  shows "\<exists>b'. destroy (front b) b = Some (hd cs, b') \<and> holds b' cs True pe \<and> front b' = front b \<and> tail b' = tail b \<and>
    next_block b' = next_block b \<and> bsize b' = bsize b"
proof -
  let ?b = "b\<lparr>slots := (slots b)[front b := None]\<rparr>"
  have f: "front b < bsize b" "front b < length (slots b)" "0 < bsize b" using h unfolding holds_def by auto
  have s: "slots b ! ((front b + j) mod bsize b) = view cs False pe j" if "j < bsize b" for j
    using h that unfolding holds_def by blast
  have "slots b ! front b = Some (hd cs)" using s [of 0] f ne by (simp add: view_def hd_conv_nth)
  then have c: "destroy (front b) b = Some (hd cs, ?b)" using f by (simp add: destroy_def)
  have "(slots b)[front b := None] ! ((front b + j) mod bsize b) = view cs True pe j" if j: "j < bsize b" for j
  proof (cases "j = 0")
    case True
    then show ?thesis using f ne by (simp add: view_def)
  next
    case False
    then have "(front b + j) mod bsize b \<noteq> front b" using shift_mod_inj [of "front b" j "bsize b" 0] f j by auto
    then show ?thesis using s [OF j] False by (simp add: view_def)
  qed
  then have "holds ?b cs True pe" using h ne unfolding holds_def by simp
  then show ?thesis using c by simp
qed

lemma holds_commit:
  assumes h: "holds b cs True pe"
  shows "holds (b\<lparr>front := after (front b) b\<rparr>) (tl cs) False pe"
proof -
  let ?n = "bsize b" and ?f = "after (front b) b"
  have ne: "cs \<noteq> []" and l: "length cs < ?n" and fn: "front b < ?n" using h unfolding holds_def by simp_all
  have f: "?f = (front b + 1) mod ?n" by (rule holds_after [OF h])
  have s: "slots b ! ((front b + j) mod ?n) = view cs True pe j" if "j < ?n" for j using h that unfolding holds_def by blast
  have "slots b ! ((?f + j) mod ?n) = view (tl cs) False pe j" if j: "j < ?n" for j
  proof (cases "j + 1 < ?n")
    case True
    have "(?f + j) mod ?n = (front b + (j + 1)) mod ?n" unfolding f by (simp add: mod_simps)
    then show ?thesis using s [OF True] ne by (auto simp: view_def nth_tl)
  next
    case False
    then have e: "j + 1 = ?n" using j by simp
    have "(?f + j) mod ?n = (front b + (j + 1)) mod ?n" unfolding f by (simp add: mod_simps)
    also have "\<dots> = (front b + 0) mod ?n" unfolding e by simp
    finally have "slots b ! ((?f + j) mod ?n) = None" using s [of 0] ne fn by (simp add: view_def)
    moreover have "length (tl cs) < j" using e l ne by (cases cs) auto
    ultimately show ?thesis by (simp add: view_def)
  qed
  moreover have "tail b = (?f + length (tl cs)) mod ?n"
  proof -
    have "(?f + length (tl cs)) mod ?n = (front b + (1 + length (tl cs))) mod ?n" unfolding f by (simp add: mod_simps)
    moreover have "1 + length (tl cs) = length cs" using ne by (cases cs) auto
    moreover have "tail b = (front b + length cs) mod ?n" using h unfolding holds_def by blast
    ultimately show ?thesis by (simp only:)
  qed
  moreover have "length (tl cs) < length cs" "?f < ?n" using ne f l by (cases cs; simp)+
  ultimately show ?thesis using h l unfolding holds_def by (simp del: length_tl)
qed

section \<open>The ring and the two threads\<close>

abbreviation nxt :: "'a rwq \<Rightarrow> nat \<Rightarrow> nat" where
  "nxt q i \<equiv> next_block (blk q i)"

definition ring :: "'a rwq \<Rightarrow> nat list \<Rightarrow> nat list \<Rightarrow> bool" where
  "ring q fs es \<longleftrightarrow> fs \<noteq> [] \<and> distinct (fs @ es) \<and> set (fs @ es) = {..<length (blocks q)} \<and>
     successively (\<lambda>i j. nxt q i = j) (fs @ es @ [hd fs]) \<and> frontBlock q = hd fs \<and> tailBlock q = last fs"

definition taken :: "'a rwq \<Rightarrow> nat \<Rightarrow> bool" where
  "taken q i \<longleftrightarrow> (case consumer q of CCommit fb bf x \<Rightarrow> i = fb | _ \<Rightarrow> False)"

definition pending :: "'a rwq \<Rightarrow> nat \<Rightarrow> 'a option" where
  "pending q i = (case producer q of PStore tb bt x \<Rightarrow> if i = tb then Some x else None | _ \<Rightarrow> None)"

definition bufs_ok :: "'a rwq \<Rightarrow> (nat \<Rightarrow> 'a list) \<Rightarrow> bool" where
  "bufs_ok q cm \<longleftrightarrow> (\<forall>i < length (blocks q). holds (blk q i) (cm i) (taken q i) (pending q i)) \<and>
     (\<exists>k. largestBlockSize q = 2 ^ k) \<and> 2 \<le> largestBlockSize q"

fun producer_ok :: "'a producer \<Rightarrow> 'a rwq \<Rightarrow> nat list \<Rightarrow> nat list \<Rightarrow> (nat \<Rightarrow> 'a list) \<Rightarrow> bool" where
  "producer_ok PIdle q fs es cm = True"
| "producer_ok (PRoom tb bt x) q fs es cm = (tb = last fs \<and> bt = tail (blk q tb) \<and> length (cm tb) + 1 < bsize (blk q tb))"
| "producer_ok (PStore tb bt x) q fs es cm = (tb = last fs \<and> bt = tail (blk q tb))"
| "producer_ok (PFull tb c x) q fs es cm = (tb = last fs)"
| "producer_ok (PAhead tb x) q fs es cm = (tb = last fs \<and> es \<noteq> [])"
| "producer_ok (PFill n nt x) q fs es cm = (es \<noteq> [] \<and> n = hd es \<and> nt = tail (blk q n))"
| "producer_ok (PNew tb x) q fs es cm = (tb = last fs)"
| "producer_ok (PPublish n x) q fs es cm = (es \<noteq> [] \<and> n = hd es \<and> cm n = [x])"

fun consumer_ok :: "'a consumer \<Rightarrow> 'a rwq \<Rightarrow> nat list \<Rightarrow> (nat \<Rightarrow> 'a list) \<Rightarrow> bool \<Rightarrow> bool" where
  "consumer_ok CIdle q fs cm seen = True"
| "consumer_ok (CStart ts) q fs cm seen = (ts \<in> set fs \<and> (ts = hd fs \<longrightarrow> cm ts = [] \<longrightarrow> seen))"
| "consumer_ok (CAdvance fb) q fs cm seen = (fb = hd fs \<and> tl fs \<noteq> [] \<and> cm fb = [])"
| "consumer_ok (CNext nb) q fs cm seen = (tl fs \<noteq> [] \<and> nb = hd (tl fs) \<and> cm (hd fs) = [])"
| "consumer_ok (CMove nb nf) q fs cm seen = (tl fs \<noteq> [] \<and> nb = hd (tl fs) \<and> cm (hd fs) = [] \<and> nf = front (blk q nb))"
| "consumer_ok (CRead fb bf) q fs cm seen = (fb = hd fs \<and> bf = front (blk q fb) \<and> cm fb \<noteq> [])"
| "consumer_ok (CCommit fb bf x) q fs cm seen = (fb = hd fs \<and> bf = front (blk q fb) \<and> cm fb \<noteq> [] \<and> x = hd (cm fb))"

definition order_ok :: "'a rwq \<Rightarrow> nat list \<Rightarrow> nat list \<Rightarrow> (nat \<Rightarrow> 'a list) \<Rightarrow> 'a list \<Rightarrow> 'a list \<Rightarrow> bool" where
  "order_ok q fs es cm sent got \<longleftrightarrow> sent = got @ concat (map cm fs) \<and> (\<forall>i \<in> set (tl fs). cm i \<noteq> []) \<and>
     (\<forall>i \<in> set es. cm i = [] \<or> (\<exists>x. producer q = PPublish i x))"

definition rwq_at :: "'a rwq \<Rightarrow> nat list \<Rightarrow> nat list \<Rightarrow> (nat \<Rightarrow> 'a list) \<Rightarrow> 'a list \<Rightarrow> 'a list \<Rightarrow> bool \<Rightarrow> bool" where
  "rwq_at q fs es cm sent got seen \<longleftrightarrow> ring q fs es \<and> bufs_ok q cm \<and> producer_ok (producer q) q fs es cm \<and>
     consumer_ok (consumer q) q fs cm seen \<and> order_ok q fs es cm sent got \<and> (sent = got \<longrightarrow> seen)"

definition rwq_inv :: "'a rwq \<Rightarrow> 'a list \<Rightarrow> 'a list \<Rightarrow> bool \<Rightarrow> bool" where
  "rwq_inv q sent got seen \<longleftrightarrow> (\<exists>fs es cm. rwq_at q fs es cm sent got seen)"

lemma rwq_atD:
  assumes "rwq_at q fs es cm sent got seen"
  shows "ring q fs es" and "bufs_ok q cm" and "producer_ok (producer q) q fs es cm" and "consumer_ok (consumer q) q fs cm seen"
    and "order_ok q fs es cm sent got" and "sent = got \<longrightarrow> seen"
  using assms unfolding rwq_at_def by blast+

lemma ringD:
  assumes "ring q fs es"
  shows "fs \<noteq> []" and "distinct (fs @ es)" and "set (fs @ es) = {..<length (blocks q)}"
    and "successively (\<lambda>i j. nxt q i = j) (fs @ es @ [hd fs])" and "frontBlock q = hd fs" and "tailBlock q = last fs"
  using assms unfolding ring_def by blast+

lemma ring_ids:
  assumes "ring q fs es"
  shows "hd fs < length (blocks q)" and "last fs < length (blocks q)" and "es \<noteq> [] \<Longrightarrow> hd es < length (blocks q)"
    and "i \<in> set fs \<Longrightarrow> i < length (blocks q)"
proof -
  have s: "set (fs @ es) = {..<length (blocks q)}" and ne: "fs \<noteq> []" using ringD [OF assms] by blast+
  have "i < length (blocks q)" if "i \<in> set (fs @ es)" for i using that unfolding s by simp
  then show "hd fs < length (blocks q)" and "last fs < length (blocks q)" and "es \<noteq> [] \<Longrightarrow> hd es < length (blocks q)"
    and "i \<in> set fs \<Longrightarrow> i < length (blocks q)" using ne by simp_all
qed

lemma ring_disjoint:
  assumes "ring q fs es"
  shows "hd fs \<notin> set es" and "last fs \<notin> set es"
proof -
  have "set fs \<inter> set es = {}" and ne: "fs \<noteq> []" using ringD(1,2) [OF assms] by simp_all
  then show "hd fs \<notin> set es" and "last fs \<notin> set es" using hd_in_set [OF ne] last_in_set [OF ne] by blast+
qed

lemma ring_tail_next:
  assumes "ring q fs es"
  shows "nxt q (last fs) = (if es = [] then hd fs else hd es)"
proof -
  have "successively (\<lambda>i j. nxt q i = j) (fs @ (es @ [hd fs]))" and "fs \<noteq> []" using ringD [OF assms] by blast+
  then show ?thesis by (auto simp: successively_append_iff hd_append)
qed

lemma ring_front_next:
  assumes "ring q fs es" and "tl fs \<noteq> []"
  shows "nxt q (hd fs) = hd (tl fs)"
proof -
  obtain b c fs' where "fs = b # c # fs'" using assms(2) ringD(1) [OF assms(1)] by (cases fs; cases "tl fs") auto
  then show ?thesis using ringD(4) [OF assms(1)] by simp
qed

lemma bufs_at: "bufs_ok q cm \<Longrightarrow> i < length (blocks q) \<Longrightarrow> holds (blk q i) (cm i) (taken q i) (pending q i)"
  unfolding bufs_ok_def by blast

lemma nth_list_put: "xs[i := b] ! j = (if i = j \<and> i < length xs then b else xs ! j)"
  by (cases "i < length xs") (simp_all add: nth_list_update list_update_beyond not_less)

text \<open>Only block \<open>i\<close> changes, and not its successor.\<close>

lemma ring_put:
  assumes "ring q fs es" and "next_block b = nxt q i"
  shows "ring (put_blk i b q) fs es"
proof -
  have "nxt (put_blk i b q) j = nxt q j" for j
    using assms(2) by (auto simp: put_blk_def nth_list_put)
  then show ?thesis using assms(1) unfolding ring_def by (simp add: put_blk_def)
qed

lemma put_blk_simps [simp]:
  "blk (put_blk i b q) j = (if i = j \<and> i < length (blocks q) then b else blk q j)"
  "length (blocks (put_blk i b q)) = length (blocks q)"
  "frontBlock (put_blk i b q) = frontBlock q" "tailBlock (put_blk i b q) = tailBlock q"
  "largestBlockSize (put_blk i b q) = largestBlockSize q" "producer (put_blk i b q) = producer q" "consumer (put_blk i b q) = consumer q"
  by (simp_all add: put_blk_def nth_list_put)

lemma ring_fields [simp]:
  "ring (q\<lparr>producer := p\<rparr>) fs es = ring q fs es" "ring (q\<lparr>consumer := c\<rparr>) fs es = ring q fs es"
  by (simp_all add: ring_def)

lemma bufs_put:
  assumes "bufs_ok q cm" and "holds b cs (taken q' i) (pending q' i)" and "blocks q' = (blocks q)[i := b]"
    and "\<And>j. j \<noteq> i \<Longrightarrow> taken q' j = taken q j \<and> pending q' j = pending q j" and "largestBlockSize q' = largestBlockSize q"
  shows "bufs_ok q' (cm(i := cs))"
proof -
  have "holds (blk q' j) ((cm(i := cs)) j) (taken q' j) (pending q' j)" if "j < length (blocks q)" for j
  proof (cases "j = i")
    case True
    then show ?thesis using assms(2,3) that by simp
  next
    case False
    then show ?thesis using assms(3) assms(4) [OF False] bufs_at [OF assms(1) that] by simp
  qed
  then show ?thesis using assms(1,3,5) unfolding bufs_ok_def by simp
qed

text \<open>A thread that only changes its own position.\<close>

lemma bufs_same:
  assumes "bufs_ok q cm" and "blocks q' = blocks q" and "taken q' = taken q" and "pending q' = pending q"
    and "largestBlockSize q' = largestBlockSize q"
  shows "bufs_ok q' cm"
  using assms unfolding bufs_ok_def by simp

lemma consumer_ok_producer [simp]: "consumer_ok c (q\<lparr>producer := p\<rparr>) fs cm seen = consumer_ok c q fs cm seen"
  by (cases c) simp_all

lemma producer_ok_consumer [simp]: "producer_ok p (q\<lparr>consumer := c\<rparr>) fs es cm = producer_ok p q fs es cm"
  by (cases p) simp_all

lemma order_ok_consumer [simp]: "order_ok (q\<lparr>consumer := c\<rparr>) fs es cm sent got = order_ok q fs es cm sent got"
  by (simp add: order_ok_def)

lemma consumer_seen: "consumer_ok c q fs cm seen \<Longrightarrow> (seen \<Longrightarrow> seen') \<Longrightarrow> consumer_ok c q fs cm seen'"
  by (cases c) auto

text \<open>The producer's position changes, between ones that leave the spare blocks empty.\<close>

lemma producer_moves:
  assumes A: "rwq_at q fs es cm sent got seen"
    and np: "\<And>n x. producer q \<noteq> PPublish n x" and ns: "\<And>n t x. producer q \<noteq> PStore n t x" "\<And>n t x. p \<noteq> PStore n t x"
    and ok: "producer_ok p q fs es cm"
  shows "rwq_at (q\<lparr>producer := p\<rparr>) fs es cm sent got seen"
proof -
  note D = rwq_atD [OF A]
  have "pending (q\<lparr>producer := p\<rparr>) = pending q"
    using ns by (intro ext) (simp add: pending_def split: producer.split)
  then have "bufs_ok (q\<lparr>producer := p\<rparr>) cm" by (intro bufs_same [OF D(2)]) (simp_all add: taken_def fun_eq_iff)
  moreover have "order_ok (q\<lparr>producer := p\<rparr>) fs es cm sent got" using D(5) np unfolding order_ok_def by auto
  moreover have "producer_ok p (q\<lparr>producer := p\<rparr>) fs es cm" using ok by (cases p) simp_all
  ultimately show ?thesis using D unfolding rwq_at_def by simp
qed

lemma start_enqueue_ok:
  assumes A: "rwq_at q fs es cm sent got seen" and p: "producer q = PIdle"
  shows "rwq_at (start_enqueue c x q) fs es cm sent got seen"
proof -
  note D = rwq_atD [OF A]
  have t: "tailBlock q = last fs" and i: "last fs < length (blocks q)" using ringD(6) [OF D(1)] ring_ids(2) [OF D(1)] by blast+
  note h = bufs_at [OF D(2) i]
  show ?thesis
  proof (cases "length (cm (last fs)) + 1 < bsize (blk q (last fs))")
    case True
    then have "start_enqueue c x q = q\<lparr>producer := PRoom (last fs) (tail (blk q (last fs))) x\<rparr>"
      using holds_room [OF h] by (simp add: start_enqueue_def Let_def t)
    moreover have "rwq_at (q\<lparr>producer := PRoom (last fs) (tail (blk q (last fs))) x\<rparr>) fs es cm sent got seen"
      by (rule producer_moves [OF A]) (use p True in simp_all)
    ultimately show ?thesis by simp
  next
    case False
    then have "start_enqueue c x q = q\<lparr>producer := PFull (last fs) c x\<rparr>"
      using holds_room [OF h] by (simp add: start_enqueue_def Let_def t)
    moreover have "rwq_at (q\<lparr>producer := PFull (last fs) c x\<rparr>) fs es cm sent got seen"
      by (rule producer_moves [OF A]) (use p in simp_all)
    ultimately show ?thesis by simp
  qed
qed

section \<open>Steps of the producer\<close>

lemma consumer_put: "front b = front (blk q i) \<Longrightarrow> consumer_ok c (put_blk i b q) fs cm seen = consumer_ok c q fs cm seen"
  by (cases c) auto

lemma consumer_cong:
  "consumer_ok c q fs cm seen \<Longrightarrow> fs \<noteq> [] \<Longrightarrow> (\<And>i. i \<in> set fs \<Longrightarrow> cm' i = cm i) \<Longrightarrow> consumer_ok c q fs cm' seen"
  by (cases c) auto

lemma hd_not_last: "distinct fs \<Longrightarrow> tl fs \<noteq> [] \<Longrightarrow> hd fs \<noteq> last fs"
  by (cases fs) (auto split: if_splits)

lemma consumer_append:
  assumes "consumer_ok c q fs cm seen" and "distinct fs" and "fs \<noteq> []"
  shows "consumer_ok c q fs (cm(last fs := cm (last fs) @ [x])) seen"
  using assms(1) hd_not_last [OF assms(2)] by (cases c) auto

lemma map_upd_last: "distinct fs \<Longrightarrow> fs \<noteq> [] \<Longrightarrow> concat (map (cm(last fs := cm (last fs) @ [x])) fs) = concat (map cm fs) @ [x]"
proof (induction fs)
  case (Cons a fs)
  show ?case
  proof (cases fs)
    case (Cons b bs)
    then have "last (a # fs) = last fs" "a \<noteq> last fs" using Cons.prems by auto
    then show ?thesis using Cons.IH Cons.prems Cons by simp
  qed simp
qed simp

lemma step_PRoom:
  assumes A: "rwq_at q fs es cm sent got seen" and p: "producer q = PRoom tb bt x"
  shows "\<exists>q'. produce q = Some (q', Silent) \<and> rwq_at q' fs es cm sent got seen"
proof -
  note D = rwq_atD [OF A]
  have tb: "tb = last fs" "bt = tail (blk q tb)" "length (cm tb) + 1 < bsize (blk q tb)"
    using D(3) unfolding p producer_ok.simps by blast+
  have i: "tb < length (blocks q)" using ring_ids(2) [OF D(1)] tb(1) by simp
  have "holds (blk q tb) (cm tb) (taken q tb) None" using bufs_at [OF D(2) i] p by (simp add: pending_def)
  then obtain b where b: "construct bt x (blk q tb) = Some b" "holds b (cm tb) (taken q tb) (Some x)" "front b = front (blk q tb)"
      "tail b = tail (blk q tb)" "next_block b = nxt q tb" "bsize b = bsize (blk q tb)"
    using holds_construct [OF _ tb(3), of "taken q tb" x] tb(2) by auto
  let ?q = "(put_blk tb b q)\<lparr>producer := PStore tb bt x\<rparr>"
  have e: "produce q = Some (?q, Silent)" using p b(1) by (simp add: produce_def)
  have "bufs_ok ?q (cm(tb := cm tb))"
    by (rule bufs_put [OF D(2)]) (use b(2) p in \<open>simp_all add: taken_def pending_def put_blk_def\<close>)
  then have "bufs_ok ?q cm" by simp
  moreover have "ring ?q fs es" using ring_put [OF D(1) b(5)] by simp
  moreover have "consumer_ok (consumer ?q) ?q fs cm seen" using D(4) by (simp add: consumer_put [OF b(3)])
  moreover have "order_ok ?q fs es cm sent got" using D(5) p unfolding order_ok_def by auto
  ultimately have "rwq_at ?q fs es cm sent got seen" using D(6) tb b(4) i unfolding rwq_at_def by simp
  then show ?thesis using e by blast
qed

lemma step_PStore:
  assumes A: "rwq_at q fs es cm sent got seen" and p: "producer q = PStore tb bt x"
  shows "\<exists>q' cm'. produce q = Some (q', Enqueued x) \<and> rwq_at q' fs es cm' (sent @ [x]) got (seen \<or> sent @ [x] = got)"
proof -
  note D = rwq_atD [OF A]
  have tb: "tb = last fs" "bt = tail (blk q tb)" using D(3) p by simp_all
  have i: "tb < length (blocks q)" using ring_ids(2) [OF D(1)] tb(1) by simp
  have ne: "fs \<noteq> []" and ds: "distinct fs" using ringD(1,2) [OF D(1)] by simp_all
  have h: "holds (blk q tb) (cm tb) (taken q tb) (Some x)" using bufs_at [OF D(2) i] p by (simp add: pending_def)
  let ?b = "(blk q tb)\<lparr>tail := after bt (blk q tb)\<rparr>" and ?cm = "cm(tb := cm tb @ [x])"
  let ?q = "(put_blk tb ?b q)\<lparr>producer := PIdle\<rparr>"
  have e: "produce q = Some (?q, Enqueued x)" using p by (simp add: produce_def)
  have "holds ?b (cm tb @ [x]) (taken q tb) None" using holds_store [OF h] tb(2) by simp
  then have "bufs_ok ?q ?cm"
    by (intro bufs_put [OF D(2)]) (use p in \<open>simp_all add: taken_def pending_def put_blk_def\<close>)
  moreover have "ring ?q fs es" using ring_put [OF D(1), of ?b tb] by simp
  moreover have "consumer_ok (consumer ?q) ?q fs ?cm (seen \<or> sent @ [x] = got)"
    using consumer_seen [OF consumer_append [OF D(4) ds ne]] by (simp add: consumer_put tb(1))
  moreover have "order_ok ?q fs es ?cm (sent @ [x]) got"
  proof -
    have "concat (map ?cm fs) = concat (map cm fs) @ [x]" unfolding tb(1) by (rule map_upd_last [OF ds ne])
    moreover have "tb \<notin> set es" using ring_disjoint(2) [OF D(1)] tb(1) by simp
    ultimately show ?thesis using D(5) p unfolding order_ok_def by auto
  qed
  ultimately have "rwq_at ?q fs es ?cm (sent @ [x]) got (seen \<or> sent @ [x] = got)" unfolding rwq_at_def by simp
  then show ?thesis using e by blast
qed

lemma step_PFull:
  assumes A: "rwq_at q fs es cm sent got seen" and p: "producer q = PFull tb c x"
  shows "\<exists>q' ev. produce q = Some (q', ev) \<and> ev \<in> {Silent, Full x} \<and> rwq_at q' fs es cm sent got seen"
proof -
  note D = rwq_atD [OF A]
  have tb: "tb = last fs" using D(3) p by simp
  note nx = ring_tail_next [OF D(1)]
  consider "nxt q tb \<noteq> frontBlock q" | "nxt q tb = frontBlock q" c | "nxt q tb = frontBlock q" "\<not> c" by blast
  then show ?thesis
  proof cases
    case 1
    then have "es \<noteq> []" using nx tb ringD(5) [OF D(1)] by auto
    then have "rwq_at (q\<lparr>producer := PAhead tb x\<rparr>) fs es cm sent got seen"
      by (intro producer_moves [OF A]) (use p tb in simp_all)
    then show ?thesis using 1 p by (simp add: produce_def)
  next
    case 2
    have "rwq_at (q\<lparr>producer := PNew tb x\<rparr>) fs es cm sent got seen"
      by (rule producer_moves [OF A]) (use p tb in simp_all)
    then show ?thesis using 2 p by (simp add: produce_def)
  next
    case 3
    have "rwq_at (q\<lparr>producer := PIdle\<rparr>) fs es cm sent got seen"
      by (rule producer_moves [OF A]) (use p in simp_all)
    then show ?thesis using 3 p by (simp add: produce_def)
  qed
qed

lemma not_taken:
  assumes "rwq_at q fs es cm sent got seen" and "i \<in> set es"
  shows "\<not> taken q i"
proof
  assume "taken q i"
  then obtain bf x where "consumer q = CCommit i bf x" by (cases "consumer q") (auto simp: taken_def)
  then have "i = hd fs" using rwq_atD(4) [OF assms(1)] by simp
  then show False using ring_disjoint(1) [OF rwq_atD(1) [OF assms(1)]] assms(2) by simp
qed

lemma spare_block:
  assumes A: "rwq_at q fs es cm sent got seen" and ne: "es \<noteq> []"
    and p: "\<And>n x. producer q \<noteq> PPublish n x" "\<And>n t x. producer q \<noteq> PStore n t x"
  shows "holds (blk q (hd es)) [] False None" and "hd es < length (blocks q)" and "hd es \<notin> set fs"
proof -
  note D = rwq_atD [OF A]
  show i: "hd es < length (blocks q)" by (rule ring_ids(3) [OF D(1) ne])
  have m: "hd es \<in> set es" using ne by simp
  then have "cm (hd es) = []" using D(5) p unfolding order_ok_def by blast
  moreover have "pending q (hd es) = None" using p(2) by (auto simp: pending_def split: producer.split)
  ultimately show "holds (blk q (hd es)) [] False None" using bufs_at [OF D(2) i] not_taken [OF A m] by simp
  show "hd es \<notin> set fs" using ringD(2) [OF D(1)] m by auto
qed

lemma step_PAhead:
  assumes A: "rwq_at q fs es cm sent got seen" and p: "producer q = PAhead tb x"
  shows "\<exists>q'. produce q = Some (q', Silent) \<and> rwq_at q' fs es cm sent got seen"
proof -
  note D = rwq_atD [OF A]
  have tb: "tb = last fs" "es \<noteq> []" using D(3) p by simp_all
  note s = spare_block [OF A tb(2)]
  have n: "nxt q tb = hd es" using ring_tail_next [OF D(1)] tb by simp
  have "front (blk q (hd es)) = tail (blk q (hd es))" using holds_empty [OF s(1)] p by simp
  moreover have "rwq_at (q\<lparr>producer := PFill (hd es) (tail (blk q (hd es))) x\<rparr>) fs es cm sent got seen"
    by (rule producer_moves [OF A]) (use p tb in simp_all)
  ultimately show ?thesis using p n by (simp add: produce_def Let_def)
qed

lemma step_PFill:
  assumes A: "rwq_at q fs es cm sent got seen" and p: "producer q = PFill n nt x"
  shows "\<exists>q' cm'. produce q = Some (q', Silent) \<and> rwq_at q' fs es cm' sent got seen"
proof -
  note D = rwq_atD [OF A]
  have n: "es \<noteq> []" "n = hd es" "nt = tail (blk q n)" using D(3) p by simp_all
  note s = spare_block [OF A n(1), folded n(2)]
  have h: "holds (blk q n) [] False None" and i: "n < length (blocks q)" and nf: "n \<notin> set fs" using s p by simp_all
  have "length [] + 1 < bsize (blk q n)" using h unfolding holds_def by simp
  from holds_construct [OF h this, of x]
  obtain b where b: "construct nt x (blk q n) = Some b" "holds b [] False (Some x)" "front b = front (blk q n)"
      "tail b = tail (blk q n)" "next_block b = nxt q n" "bsize b = bsize (blk q n)" using n(3) by auto
  let ?b = "b\<lparr>tail := after nt b\<rparr>" and ?cm = "cm(n := [x])"
  let ?q = "(put_blk n ?b q)\<lparr>producer := PPublish n x\<rparr>"
  have e: "produce q = Some (?q, Silent)" using p b(1) by (simp add: produce_def)
  have "holds ?b [x] False None" using holds_store [OF b(2)] b(4) n(3) by simp
  moreover have "\<not> taken q n" using not_taken [OF A] n(1,2) by simp
  ultimately have "bufs_ok ?q ?cm"
    by (intro bufs_put [OF D(2)]) (use p in \<open>simp_all add: taken_def pending_def put_blk_def\<close>)
  moreover have "ring ?q fs es" using ring_put [OF D(1), of ?b n] b(5) by simp
  moreover have "consumer_ok (consumer ?q) ?q fs ?cm seen"
  proof -
    have "consumer_ok (consumer q) q fs ?cm seen"
      by (rule consumer_cong [OF D(4) ringD(1) [OF D(1)]]) (use nf in auto)
    then show ?thesis using b(3) by (simp add: consumer_put)
  qed
  moreover have "order_ok ?q fs es ?cm sent got"
  proof -
    have m: "map ?cm fs = map cm fs" using nf by (intro map_cong) auto
    have "n \<notin> set (tl fs)" using nf list.set_sel(2) [OF ringD(1) [OF D(1)]] by blast
    then show ?thesis using D(5) p unfolding order_ok_def m by auto
  qed
  ultimately have "rwq_at ?q fs es ?cm sent got seen" using D(6) n unfolding rwq_at_def by simp
  then show ?thesis using e by blast
qed

lemma successively_butlast:
  "successively (\<lambda>i j. f i = j) xs \<Longrightarrow> (\<And>i. i \<in> set (butlast xs) \<Longrightarrow> g i = f i) \<Longrightarrow> successively (\<lambda>i j. g i = j) xs"
  by (induction xs rule: induct_list012) auto

text \<open>A new block comes between the tail block and its successor.\<close>

lemma ring_new:
  assumes r: "ring q fs es" and b: "next_block b = nxt q (last fs)" and i: "i = length (blocks q)"
    and q': "blocks q' = (blocks q @ [b])[last fs := (blk q (last fs))\<lparr>next_block := i\<rparr>]"
      "frontBlock q' = frontBlock q" "tailBlock q' = tailBlock q"
  shows "ring q' fs (i # es)"
proof -
  note R = ringD [OF r] and l = ring_ids(2) [OF r]
  have old: "nxt q' j = nxt q j" if "j \<noteq> last fs" "j < length (blocks q)" for j using that q'(1) by (simp add: nth_append)
  have new: "nxt q' (last fs) = i" "nxt q' i = nxt q (last fs)" using q'(1) l b i by (simp_all add: nth_append)
  have ids: "j < length (blocks q)" if "j \<in> set (fs @ es)" for j using that unfolding R(3) by simp
  have fs: "fs = butlast fs @ [last fs]" using R(1) by simp
  have dfs: "last fs \<notin> set (butlast fs)" using R(2) by (subst (asm) fs) simp
  have whole: "successively (\<lambda>i j. nxt q i = j) (fs @ (es @ [hd fs]))" using R(4) by simp
  have 1: "successively (\<lambda>i j. nxt q' i = j) fs"
  proof (rule successively_butlast)
    show "successively (\<lambda>i j. nxt q i = j) fs" using whole by (simp add: successively_append_iff)
    show "nxt q' j = nxt q j" if "j \<in> set (butlast fs)" for j
      using that dfs ids [of j] in_set_butlastD [OF that] by (intro old) auto
  qed
  have 2: "successively (\<lambda>i j. nxt q' i = j) (es @ [hd fs])"
  proof (rule successively_butlast)
    show "successively (\<lambda>i j. nxt q i = j) (es @ [hd fs])" using whole by (simp add: successively_append_iff)
    show "nxt q' j = nxt q j" if "j \<in> set (butlast (es @ [hd fs]))" for j
      using that ring_disjoint(2) [OF r] ids [of j] by (intro old) auto
  qed
  have "nxt q (last fs) = hd (es @ [hd fs])" using whole R(1) by (simp add: successively_append_iff)
  then have "successively (\<lambda>i j. nxt q' i = j) (fs @ (i # es @ [hd fs]))"
    using 1 2 new R(1) by (simp add: successively_append_iff successively_Cons)
  then have s: "successively (\<lambda>i j. nxt q' i = j) (fs @ (i # es) @ [hd fs])" by simp
  have "i \<notin> set (fs @ es)" using ids [of i] i by blast
  then have d: "distinct (fs @ i # es)" using R(2) by auto
  have "set (fs @ i # es) = insert i {..<length (blocks q)}" unfolding R(3) [symmetric] by simp
  also have "\<dots> = {..<length (blocks q')}" unfolding q'(1) i by auto
  finally have "set (fs @ i # es) = {..<length (blocks q')}" .
  then show ?thesis unfolding ring_def q'(2,3) using R(1,5,6) s d by blast
qed

lemma step_PNew:
  assumes A: "rwq_at q fs es cm sent got seen" and p: "producer q = PNew tb x"
  shows "\<exists>q' cm' es'. produce q = Some (q', Silent) \<and> rwq_at q' fs es' cm' sent got seen"
proof -
  note D = rwq_atD [OF A] and ids = ring_ids [OF rwq_atD(1) [OF A]]
  have tb: "tb = last fs" using D(3) p by simp
  define i where "i = length (blocks q)"
  define n where "n = largestBlockSize q * 2"
  obtain k where "largestBlockSize q = 2 ^ k" "2 \<le> largestBlockSize q" using D(2) unfolding bufs_ok_def by blast
  then have n: "n = 2 ^ Suc k" and n2: "2 \<le> n" unfolding n_def by simp_all
  have "holds (Block n) [] False None" unfolding holds_def using n n2
    by (auto simp: Block_def view_def intro!: exI [of _ "Suc k"])
  moreover have "length [] + 1 < bsize (Block n)" using n2 by (simp add: Block_def)
  ultimately obtain b where b: "construct 0 x (Block n) = Some b" "holds b [] False (Some x)" "tail b = 0"
    using holds_construct [of "Block n" "[]" False x] by (auto simp: Block_def)
  define nb where "nb = b\<lparr>tail := 1, next_block := nxt q tb\<rparr>"
  have "after 0 b = 1" using b(2) unfolding holds_after [OF b(2)] holds_def by simp
  then have "holds (b\<lparr>tail := 1\<rparr>) [x] False None" using holds_store [OF b(2)] b(3) by simp
  then have hb: "holds nb [x] False None" unfolding nb_def by (simp only: holds_next)
  let ?q = "(put_blk tb ((blk q tb)\<lparr>next_block := i\<rparr>)
      (q\<lparr>largestBlockSize := n, blocks := blocks q @ [nb]\<rparr>))\<lparr>producer := PPublish i x\<rparr>"
  have e: "produce q = Some (?q, Silent)" using p b(1) by (simp add: produce_def new_block_def Let_def nb_def i_def n_def)
  have R: "ring ?q fs (i # es)"
    by (rule ring_new [OF D(1), of nb]) (simp_all add: nb_def tb i_def put_blk_def)
  let ?cm = "cm(i := [x])"
  have nf: "i \<notin> set fs" using ids(4) i_def by blast
  have nt: "\<not> taken ?q i"
  proof
    assume "taken ?q i"
    then obtain bf y where "consumer q = CCommit i bf y" by (cases "consumer q") (auto simp: taken_def)
    then have "i = hd fs" using D(4) by simp
    then show False using nf hd_in_set [OF ringD(1) [OF D(1)]] by simp
  qed
  have bl: "blk ?q j = (if j = i then nb else if j = tb then (blk q tb)\<lparr>next_block := i\<rparr> else blk q j)" if "j < length (blocks ?q)" for j
    using that ids(2) tb by (auto simp: put_blk_def nth_append i_def nth_list_put)
  have B: "bufs_ok ?q ?cm"
  proof -
    have "holds (blk ?q j) (?cm j) (taken ?q j) (pending ?q j)" if j: "j < length (blocks ?q)" for j
    proof (cases "j = i")
      case True
      have "pending ?q i = None" by (simp add: pending_def)
      then show ?thesis using hb nt bl [OF j] True by simp
    next
      case False
      then have "j < length (blocks q)" using j by (simp add: i_def)
      from bufs_at [OF D(2) this] have "holds (blk q j) (cm j) (taken q j) (pending q j)" .
      moreover have "taken ?q j = taken q j" "pending ?q j = pending q j" using p by (simp_all add: taken_def pending_def)
      ultimately show ?thesis using bl [OF j] False by (auto simp: holds_def)
    qed
    moreover have "largestBlockSize ?q = 2 ^ Suc k" "2 \<le> largestBlockSize ?q" using n n2 by simp_all
    ultimately show ?thesis unfolding bufs_ok_def by blast
  qed
  have C: "consumer_ok (consumer ?q) ?q fs ?cm seen"
  proof -
    have c: "consumer_ok (consumer q) q fs ?cm seen"
      by (rule consumer_cong [OF D(4) ringD(1) [OF D(1)]]) (use nf in auto)
    have fr: "front (blk ?q j) = front (blk q j)" if "j \<in> set fs" for j
      using bl [of j] ids(4) [OF that] nf that by (auto simp: put_blk_def)
    have "hd fs \<in> set fs" "tl fs \<noteq> [] \<Longrightarrow> hd (tl fs) \<in> set fs" using ringD(1) [OF D(1)] by (cases fs; simp)+
    then show ?thesis using c fr by (cases "consumer q") simp_all
  qed
  have O: "order_ok ?q fs (i # es) ?cm sent got"
  proof -
    have m: "map ?cm fs = map cm fs" using nf by (intro map_cong) auto
    have "i \<notin> set (tl fs)" using nf list.set_sel(2) [OF ringD(1) [OF D(1)]] by blast
    moreover have "i \<notin> set es" using ringD(2) [OF R] by simp
    ultimately show ?thesis using D(5) p unfolding order_ok_def m by auto
  qed
  have "rwq_at ?q fs (i # es) ?cm sent got seen" using R B C O D(6) unfolding rwq_at_def by simp
  then show ?thesis using e by blast
qed

lemma step_PPublish:
  assumes A: "rwq_at q fs es cm sent got seen" and p: "producer q = PPublish n x"
  shows "\<exists>q' fs' es'. produce q = Some (q', Enqueued x) \<and> rwq_at q' fs' es' cm (sent @ [x]) got (seen \<or> sent @ [x] = got)"
proof -
  note D = rwq_atD [OF A] and R = ringD [OF rwq_atD(1) [OF A]]
  obtain es' where es: "es = n # es'" "cm n = [x]" using D(3) p by (cases es) auto
  let ?q = "q\<lparr>tailBlock := n, producer := PIdle\<rparr>"
  have e: "produce q = Some (?q, Enqueued x)" using p by (simp add: produce_def)
  have "ring ?q (fs @ [n]) es'" using R es unfolding ring_def by simp
  moreover have "bufs_ok ?q cm" by (rule bufs_same [OF D(2)]) (use p in \<open>simp_all add: taken_def pending_def fun_eq_iff\<close>)
  moreover have "consumer_ok (consumer ?q) ?q (fs @ [n]) cm (seen \<or> sent @ [x] = got)"
    using D(4) R(1) by (cases "consumer q") auto
  moreover have "order_ok ?q (fs @ [n]) es' cm (sent @ [x]) got"
    using D(5) R(1,2) es p unfolding order_ok_def by auto
  ultimately have "rwq_at ?q (fs @ [n]) es' cm (sent @ [x]) got (seen \<or> sent @ [x] = got)" unfolding rwq_at_def by simp
  then show ?thesis using e by blast
qed

end
