(* ===== verification/RWQueueSafe.thy ===== *)
theory RWQueueSafe
  imports RWQueueInv
begin

text \<open>The steps of the consumer, what every interleaving guarantees, and that neither thread waits for the other.\<close>

section \<open>Steps of the consumer\<close>

lemma producer_put:
  "tail b = tail (blk q i) \<Longrightarrow> bsize b = bsize (blk q i) \<Longrightarrow> producer_ok p (put_blk i b q) fs es cm = producer_ok p q fs es cm"
  by (cases p) auto

lemma consumer_moves:
  assumes A: "rwq_at q fs es cm sent got seen"
    and n: "\<And>i j x. consumer q \<noteq> CCommit i j x" "\<And>i j x. c \<noteq> CCommit i j x"
    and ok: "consumer_ok c q fs cm seen'" and s: "sent = got \<longrightarrow> seen'"
  shows "rwq_at (q\<lparr>consumer := c\<rparr>) fs es cm sent got seen'"
proof -
  note D = rwq_atD [OF A]
  have "taken (q\<lparr>consumer := c\<rparr>) = taken q" using n by (intro ext) (simp add: taken_def split: consumer.split)
  then have "bufs_ok (q\<lparr>consumer := c\<rparr>) cm" by (intro bufs_same [OF D(2)]) (simp_all add: pending_def fun_eq_iff)
  moreover have "consumer_ok c (q\<lparr>consumer := c\<rparr>) fs cm seen'" using ok by (cases c) simp_all
  ultimately show ?thesis using D s unfolding rwq_at_def by simp
qed

lemma step_CIdle:
  assumes A: "rwq_at q fs es cm sent got seen" and c: "consumer q = CIdle"
  shows "\<exists>q'. consume q = Some (q', Silent) \<and> rwq_at q' fs es cm sent got (sent = got)"
proof -
  note D = rwq_atD [OF A] and R = ringD [OF rwq_atD(1) [OF A]]
  have "consumer_ok (CStart (last fs)) q fs cm (sent = got)"
  proof -
    have "sent = got" if e: "last fs = hd fs" "cm (last fs) = []"
    proof -
      have "tl fs = []" using hd_not_last [of fs] e R(2) by auto
      then have "fs = [hd fs]" using R(1) by (cases fs) auto
      then have "concat (map cm fs) = cm (hd fs)" by (metis concat.simps list.map append_Nil2)
      then show ?thesis using D(5) e unfolding order_ok_def by simp
    qed
    then show ?thesis using R(1) by simp
  qed
  then have "rwq_at (q\<lparr>consumer := CStart (last fs)\<rparr>) fs es cm sent got (sent = got)"
    by (intro consumer_moves [OF A]) (use c in simp_all)
  then show ?thesis using c R(6) by (simp add: consume_def)
qed

lemma step_CStart:
  assumes A: "rwq_at q fs es cm sent got seen" and c: "consumer q = CStart ts"
  shows "\<exists>q' ev. consume q = Some (q', ev) \<and> (ev = Silent \<and> consumer q' \<noteq> CIdle \<or> ev = Empty \<and> seen) \<and> rwq_at q' fs es cm sent got seen"
proof -
  note D = rwq_atD [OF A] and R = ringD [OF rwq_atD(1) [OF A]]
  have ts: "ts \<in> set fs" "ts = hd fs \<longrightarrow> cm ts = [] \<longrightarrow> seen" using D(4) c by simp_all
  have h: "holds (blk q (hd fs)) (cm (hd fs)) (taken q (hd fs)) (pending q (hd fs))" by (rule bufs_at [OF D(2) ring_ids(1) [OF D(1)]])
  consider "cm (hd fs) \<noteq> []" | "cm (hd fs) = []" "hd fs \<noteq> ts" | "cm (hd fs) = []" "hd fs = ts" by blast
  then show ?thesis
  proof cases
    case 1
    have "rwq_at (q\<lparr>consumer := CRead (hd fs) (front (blk q (hd fs)))\<rparr>) fs es cm sent got seen"
      by (rule consumer_moves [OF A]) (use c 1 D(6) in simp_all)
    then show ?thesis using c 1 R(5) holds_empty [OF h] by (simp add: consume_def Let_def)
  next
    case 2
    then have "tl fs \<noteq> []" using ts(1) R(1) by (cases fs) auto
    then have "rwq_at (q\<lparr>consumer := CAdvance (hd fs)\<rparr>) fs es cm sent got seen"
      by (intro consumer_moves [OF A]) (use c 2 D(6) in simp_all)
    then show ?thesis using c 2 R(5) holds_empty [OF h] by (simp add: consume_def Let_def)
  next
    case 3
    have "rwq_at (q\<lparr>consumer := CIdle\<rparr>) fs es cm sent got seen"
      by (rule consumer_moves [OF A]) (use c D(6) in simp_all)
    then show ?thesis using c 3 R(5) holds_empty [OF h] ts(2) by (simp add: consume_def Let_def)
  qed
qed

lemma step_CAdvance:
  assumes A: "rwq_at q fs es cm sent got seen" and c: "consumer q = CAdvance fb"
  shows "\<exists>q'. consume q = Some (q', Silent) \<and> rwq_at q' fs es cm sent got seen"
proof -
  note D = rwq_atD [OF A]
  have fb: "fb = hd fs" "tl fs \<noteq> []" "cm fb = []"
    using D(4) unfolding c consumer_ok.simps by blast+
  have n: "nxt q fb = hd (tl fs)" using ring_front_next [OF D(1) fb(2)] fb(1) by simp
  have "rwq_at (q\<lparr>consumer := CNext (hd (tl fs))\<rparr>) fs es cm sent got seen"
    by (rule consumer_moves [OF A]) (use c fb D(6) in simp_all)
  then show ?thesis using c n by (simp add: consume_def)
qed

lemma step_CNext:
  assumes A: "rwq_at q fs es cm sent got seen" and c: "consumer q = CNext nb"
  shows "\<exists>q'. consume q = Some (q', Silent) \<and> rwq_at q' fs es cm sent got seen"
proof -
  note D = rwq_atD [OF A]
  have nb: "tl fs \<noteq> []" "nb = hd (tl fs)" "cm (hd fs) = []" using D(4) c by simp_all
  have m: "nb \<in> set (tl fs)" using nb by simp
  then have i: "nb < length (blocks q)" using ring_ids(4) [OF D(1)] list.set_sel(2) [OF ringD(1) [OF D(1)]] by blast
  have "cm nb \<noteq> []" using D(5) m unfolding order_ok_def by blast
  then have ne: "front (blk q nb) \<noteq> tail (blk q nb)" using holds_empty [OF bufs_at [OF D(2) i]] by simp
  have "rwq_at (q\<lparr>consumer := CMove nb (front (blk q nb))\<rparr>) fs es cm sent got seen"
    by (rule consumer_moves [OF A]) (use c nb D(6) in simp_all)
  then show ?thesis using c ne by (simp add: consume_def Let_def)
qed

text \<open>The front moves on: the block left behind becomes the last of the spare ones.\<close>

lemma step_CMove:
  assumes A: "rwq_at q fs es cm sent got seen" and c: "consumer q = CMove nb nf"
  shows "\<exists>q' fs' es'. consume q = Some (q', Silent) \<and> rwq_at q' fs' es' cm sent got seen"
proof -
  note D = rwq_atD [OF A] and R = ringD [OF rwq_atD(1) [OF A]]
  have nb: "tl fs \<noteq> []" "nb = hd (tl fs)" "cm (hd fs) = []" "nf = front (blk q nb)" using D(4) c by simp_all
  obtain a fs' where fs: "fs = a # nb # fs'" using nb(1,2) R(1) by (cases fs; cases "tl fs") auto
  let ?q = "q\<lparr>frontBlock := nb, consumer := CRead nb nf\<rparr>"
  have e: "consume q = Some (?q, Silent)" using c by (simp add: consume_def)
  have "ring ?q (nb # fs') (es @ [a])"
  proof -
    have "successively (\<lambda>i j. nxt q i = j) ([a] @ ((nb # fs') @ es @ [a]))" "nxt q a = nb" using R(4) unfolding fs by simp_all
    then have "successively (\<lambda>i j. nxt q i = j) ((nb # fs') @ es @ [a])" by (simp only: successively_append_iff)
    then have "successively (\<lambda>i j. nxt q i = j) (((nb # fs') @ es @ [a]) @ [nb])"
      using \<open>nxt q a = nb\<close> by (subst successively_append_iff) simp
    then have "successively (\<lambda>i j. nxt ?q i = j) ((nb # fs') @ (es @ [a]) @ [hd (nb # fs')])" by simp
    moreover have "distinct ((nb # fs') @ es @ [a])" using R(2) unfolding fs by auto
    moreover have "set ((nb # fs') @ es @ [a]) = {..<length (blocks ?q)}" using R(3) unfolding fs by auto
    ultimately show ?thesis using R(6) unfolding ring_def fs by simp
  qed
  moreover have "bufs_ok ?q cm" by (rule bufs_same [OF D(2)]) (use c in \<open>simp_all add: taken_def pending_def fun_eq_iff\<close>)
  moreover have "producer_ok (producer ?q) ?q (nb # fs') (es @ [a]) cm"
    using D(3) fs by (cases "producer q") auto
  moreover have "consumer_ok (consumer ?q) ?q (nb # fs') cm seen" using D(5) nb(4) unfolding order_ok_def fs by simp
  moreover have "order_ok ?q (nb # fs') (es @ [a]) cm sent got" using D(5) nb(3) unfolding order_ok_def fs by auto
  ultimately have "rwq_at ?q (nb # fs') (es @ [a]) cm sent got seen" using D(6) unfolding rwq_at_def by simp
  then show ?thesis using e by blast
qed

lemma step_CRead:
  assumes A: "rwq_at q fs es cm sent got seen" and c: "consumer q = CRead fb bf"
  shows "\<exists>q' x. consume q = Some (q', Silent) \<and> consumer q' = CCommit fb bf x \<and> rwq_at q' fs es cm sent got seen"
proof -
  note D = rwq_atD [OF A]
  have fb: "fb = hd fs" "bf = front (blk q fb)" "cm fb \<noteq> []"
    using D(4) unfolding c consumer_ok.simps by blast+
  have i: "fb < length (blocks q)" using ring_ids(1) [OF D(1)] fb(1) by simp
  have h: "holds (blk q fb) (cm fb) False (pending q fb)" using bufs_at [OF D(2) i] c by (simp add: taken_def)
  obtain b where b: "destroy bf (blk q fb) = Some (hd (cm fb), b)" "holds b (cm fb) True (pending q fb)" "front b = front (blk q fb)"
      "tail b = tail (blk q fb)" "next_block b = nxt q fb" "bsize b = bsize (blk q fb)"
    using holds_take [OF h fb(3)] fb(2) by blast
  let ?q = "(put_blk fb b q)\<lparr>consumer := CCommit fb bf (hd (cm fb))\<rparr>"
  have e: "consume q = Some (?q, Silent)" using c b(1) by (simp add: consume_def)
  have "bufs_ok ?q (cm(fb := cm fb))"
    by (rule bufs_put [OF D(2)]) (use b(2) c in \<open>simp_all add: taken_def pending_def put_blk_def\<close>)
  then have "bufs_ok ?q cm" by simp
  moreover have "ring ?q fs es" using ring_put [OF D(1) b(5)] by simp
  moreover have "producer_ok (producer ?q) ?q fs es cm" using D(3) by (simp add: producer_put [OF b(4,6)])
  moreover have "order_ok ?q fs es cm sent got" using D(5) unfolding order_ok_def by simp
  ultimately have "rwq_at ?q fs es cm sent got seen" using D(6) fb b(3) i unfolding rwq_at_def by simp
  then show ?thesis using e by auto
qed

lemma step_CCommit:
  assumes A: "rwq_at q fs es cm sent got seen" and c: "consumer q = CCommit fb bf x"
  shows "\<exists>q' cm'. consume q = Some (q', Dequeued x) \<and> consumer q' = CIdle \<and>
    rwq_at q' fs es cm' sent (got @ [x]) (seen \<or> sent = got @ [x])"
proof -
  note D = rwq_atD [OF A] and R = ringD [OF rwq_atD(1) [OF A]]
  have fb: "fb = hd fs" "bf = front (blk q fb)" "cm fb \<noteq> []" "x = hd (cm fb)"
    using D(4) unfolding c consumer_ok.simps by blast+
  have i: "fb < length (blocks q)" using ring_ids(1) [OF D(1)] fb(1) by simp
  have h: "holds (blk q fb) (cm fb) True (pending q fb)" using bufs_at [OF D(2) i] c by (simp add: taken_def)
  let ?b = "(blk q fb)\<lparr>front := after bf (blk q fb)\<rparr>" and ?cm = "cm(fb := tl (cm fb))"
  let ?q = "(put_blk fb ?b q)\<lparr>consumer := CIdle\<rparr>"
  have e: "consume q = Some (?q, Dequeued x)" using c by (simp add: consume_def)
  have "holds ?b (tl (cm fb)) False (pending q fb)" using holds_commit [OF h] fb(2) by simp
  then have "bufs_ok ?q ?cm"
    by (intro bufs_put [OF D(2)]) (use c in \<open>simp_all add: taken_def pending_def put_blk_def\<close>)
  moreover have "ring ?q fs es" using ring_put [OF D(1), of ?b fb] by simp
  moreover have "producer_ok (producer ?q) ?q fs es ?cm"
  proof -
    have "es \<noteq> [] \<Longrightarrow> hd es \<noteq> fb" using ring_disjoint(1) [OF D(1)] fb(1) by (metis hd_in_set)
    then have "producer_ok (producer q) q fs es ?cm" using D(3) by (cases "producer q") auto
    then show ?thesis by (simp add: producer_put)
  qed
  moreover have "order_ok ?q fs es ?cm sent (got @ [x])"
  proof -
    obtain fs' where fs: "fs = fb # fs'" using R(1) fb(1) by (cases fs) auto
    have nf: "fb \<notin> set fs'" "fb \<notin> set es" using R(2) fs by auto
    have m: "map ?cm fs' = map cm fs'" using nf by (intro map_cong) auto
    have "concat (map ?cm fs) = tl (cm fb) @ concat (map cm fs')" unfolding fs list.map m by simp
    moreover have "concat (map cm fs) = (x # tl (cm fb)) @ concat (map cm fs')" using fb(3,4) fs by simp
    moreover have "sent = got @ concat (map cm fs)" using D(5) unfolding order_ok_def by blast
    ultimately have "sent = (got @ [x]) @ concat (map ?cm fs)" by (simp only: append_assoc append_Cons append_Nil)
    moreover have "\<forall>i \<in> set (tl fs). ?cm i \<noteq> []" "\<forall>i \<in> set es. ?cm i = [] \<or> (\<exists>x. producer ?q = PPublish i x)"
      using D(5) nf fs unfolding order_ok_def by auto
    ultimately show ?thesis unfolding order_ok_def by blast
  qed
  moreover have "sent = got @ [x] \<longrightarrow> seen \<or> sent = got @ [x]" by blast
  ultimately have "rwq_at ?q fs es ?cm sent (got @ [x]) (seen \<or> sent = got @ [x])" unfolding rwq_at_def by simp
  then show ?thesis using e by auto
qed

section \<open>Every interleaving\<close>

fun enqueued :: "'a event \<Rightarrow> 'a list" where
  "enqueued (Enqueued x) = [x]"
| "enqueued _ = []"

fun dequeued :: "'a event \<Rightarrow> 'a list" where
  "dequeued (Dequeued x) = [x]"
| "dequeued _ = []"

text \<open>
  The queue, what was enqueued and dequeued so far, and whether the queue has been empty at some time
  since the current (or last) call of \<open>try_dequeue\<close> began. The producer starts calls at will.
\<close>

inductive rwq_reach :: "nat \<Rightarrow> 'a rwq \<Rightarrow> 'a list \<Rightarrow> 'a list \<Rightarrow> bool \<Rightarrow> bool" for maxSize where
  start: "rwq_reach maxSize (ReaderWriterQueue maxSize) [] [] True"
| enqueue: "rwq_reach maxSize q sent got seen \<Longrightarrow> producer q = PIdle \<Longrightarrow>
     rwq_reach maxSize (start_enqueue canAlloc x q) sent got seen"
| producer_step: "rwq_reach maxSize q sent got seen \<Longrightarrow> produce q = Some (q', ev) \<Longrightarrow>
     rwq_reach maxSize q' (sent @ enqueued ev) got (seen \<or> sent @ enqueued ev = got)"
| consumer_step: "rwq_reach maxSize q sent got seen \<Longrightarrow> consume q = Some (q', ev) \<Longrightarrow>
     rwq_reach maxSize q' sent (got @ dequeued ev) (sent = got @ dequeued ev \<or> consumer q \<noteq> CIdle \<and> seen)"

lemma produce_ok:
  assumes A: "rwq_at q fs es cm sent got seen"
  shows "\<exists>q' ev fs' es' cm'. produce q = Some (q', ev) \<and> rwq_at q' fs' es' cm' (sent @ enqueued ev) got (seen \<or> sent @ enqueued ev = got)"
proof -
  have w: "seen \<or> sent = got \<longleftrightarrow> seen" using rwq_atD(6) [OF A] by blast
  show ?thesis
  proof (cases "producer q")
    case PIdle
    then show ?thesis using A w by (auto simp: produce_def)
  next
    case (PRoom tb bt x)
    then show ?thesis using step_PRoom [OF A PRoom] w by fastforce
  next
    case (PStore tb bt x)
    then show ?thesis using step_PStore [OF A PStore] by fastforce
  next
    case (PFull tb c x)
    then show ?thesis using step_PFull [OF A PFull] w by fastforce
  next
    case (PAhead tb x)
    then show ?thesis using step_PAhead [OF A PAhead] w by fastforce
  next
    case (PFill n nt x)
    then show ?thesis using step_PFill [OF A PFill] w by fastforce
  next
    case (PNew tb x)
    then show ?thesis using step_PNew [OF A PNew] w by fastforce
  next
    case (PPublish n x)
    then show ?thesis using step_PPublish [OF A PPublish] by fastforce
  qed
qed

lemma consume_ok:
  assumes A: "rwq_at q fs es cm sent got seen"
  shows "\<exists>q' ev fs' es' cm'. consume q = Some (q', ev) \<and> (ev = Empty \<longrightarrow> seen \<and> consumer q \<noteq> CIdle) \<and>
    rwq_at q' fs' es' cm' sent (got @ dequeued ev) (sent = got @ dequeued ev \<or> consumer q \<noteq> CIdle \<and> seen)"
proof -
  have w: "sent = got \<or> seen \<longleftrightarrow> seen" using rwq_atD(6) [OF A] by blast
  show ?thesis
  proof (cases "consumer q")
    case CIdle
    then show ?thesis using step_CIdle [OF A CIdle] by fastforce
  next
    case (CStart ts)
    then show ?thesis using step_CStart [OF A CStart] w by fastforce
  next
    case (CAdvance fb)
    then show ?thesis using step_CAdvance [OF A CAdvance] w by fastforce
  next
    case (CNext nb)
    then show ?thesis using step_CNext [OF A CNext] w by fastforce
  next
    case (CMove nb nf)
    then show ?thesis using step_CMove [OF A CMove] w by fastforce
  next
    case (CRead fb bf)
    then show ?thesis using step_CRead [OF A CRead] w by fastforce
  next
    case (CCommit fb bf x)
    then obtain q' cm' where "consume q = Some (q', Dequeued x)" "rwq_at q' fs es cm' sent (got @ [x]) (seen \<or> sent = got @ [x])"
      using step_CCommit [OF A CCommit] by blast
    then show ?thesis using CCommit by (auto simp: disj_commute)
  qed
qed

section \<open>The sizes of blocks\<close>

lemma smear:
  assumes "\<And>k. bit y k \<longleftrightarrow> (\<exists>i < m. bit x (k + i))" and "n = 2 * m"
  shows "bit (y OR drop_bit m y) k \<longleftrightarrow> (\<exists>i < n. bit (x :: nat) (k + i))"
proof -
  have "(\<exists>i < 2 * m. bit x (k + i)) \<longleftrightarrow> (\<exists>i < m. bit x (k + i)) \<or> (\<exists>i < m. bit x (m + k + i))"
  proof
    assume "\<exists>i < 2 * m. bit x (k + i)"
    then obtain i where i: "i < 2 * m" "bit x (k + i)" by blast
    show "(\<exists>i < m. bit x (k + i)) \<or> (\<exists>i < m. bit x (m + k + i))"
    proof (cases "i < m")
      case False
      then have "i - m < m" "m + k + (i - m) = k + i" using i(1) by simp_all
      then show ?thesis using i(2) by metis
    qed (use i in blast)
  next
    assume "(\<exists>i < m. bit x (k + i)) \<or> (\<exists>i < m. bit x (m + k + i))"
    then show "\<exists>i < 2 * m. bit x (k + i)"
    proof
      assume "\<exists>i < m. bit x (m + k + i)"
      then obtain i where "i < m" "bit x (k + (m + i))" by (auto simp: ac_simps)
      then show ?thesis by (intro exI [of _ "m + i"]) simp
    next
      assume "\<exists>i < m. bit x (k + i)"
      then obtain i where "i < m" "bit x (k + i)" by blast
      then show ?thesis by (intro exI [of _ i]) simp
    qed
  qed
  then show ?thesis unfolding bit_or_iff bit_drop_bit_eq comp_def assms by simp
qed

lemma smeared:
  fixes x :: nat
  defines "y \<equiv> (let x = x OR drop_bit 1 x; x = x OR drop_bit 2 x; x = x OR drop_bit 4 x; x = x OR drop_bit 8 x;
      x = x OR drop_bit 16 x in x OR drop_bit 32 x)"
  shows "bit y k \<longleftrightarrow> (\<exists>i < 64. bit x (k + i))"
proof -
  define x1 where "x1 = x OR drop_bit 1 x"
  define x2 where "x2 = x1 OR drop_bit 2 x1"
  define x3 where "x3 = x2 OR drop_bit 4 x2"
  define x4 where "x4 = x3 OR drop_bit 8 x3"
  define x5 where "x5 = x4 OR drop_bit 16 x4"
  have 0: "bit x k \<longleftrightarrow> (\<exists>i < 1. bit x (k + i))" for k by simp
  have 1: "bit x1 k \<longleftrightarrow> (\<exists>i < 2. bit x (k + i))" for k unfolding x1_def by (rule smear [OF 0]) simp
  have 2: "bit x2 k \<longleftrightarrow> (\<exists>i < 4. bit x (k + i))" for k unfolding x2_def by (rule smear [OF 1]) simp
  have 3: "bit x3 k \<longleftrightarrow> (\<exists>i < 8. bit x (k + i))" for k unfolding x3_def by (rule smear [OF 2]) simp
  have 4: "bit x4 k \<longleftrightarrow> (\<exists>i < 16. bit x (k + i))" for k unfolding x4_def by (rule smear [OF 3]) simp
  have 5: "bit x5 k \<longleftrightarrow> (\<exists>i < 32. bit x (k + i))" for k unfolding x5_def by (rule smear [OF 4]) simp
  have "bit (x5 OR drop_bit 32 x5) k \<longleftrightarrow> (\<exists>i < 64. bit x (k + i))" by (rule smear [OF 5]) simp
  then show ?thesis unfolding y_def Let_def x1_def x2_def x3_def x4_def x5_def .
qed

lemma ceilToPow2_eq:
  assumes "1 < n" and "n \<le> 2 ^ 63"
  shows "ceilToPow2 n = 2 ^ Suc (bsr (n - 1))"
proof -
  define x where "x = n - 1"
  define y where "y = (let x = x OR drop_bit 1 x; x = x OR drop_bit 2 x; x = x OR drop_bit 4 x; x = x OR drop_bit 8 x;
      x = x OR drop_bit 16 x in x OR drop_bit 32 x)"
  let ?t = "bsr x"
  have x: "0 < x" "x < 2 ^ 63" using assms by (simp_all add: x_def)
  have lo: "2 ^ ?t \<le> x" and hi: "x < 2 ^ Suc ?t" using bsr_le [OF x(1)] bsr_less [of x] by simp_all
  have "(2 :: nat) ^ ?t < 2 ^ 63" using lo x(2) by (rule le_less_trans)
  then have t: "?t < 63" by (rule power_less_imp_less_exp [rotated]) simp
  have top: "bit x ?t" 
  proof -
    have "x div 2 ^ ?t = 1" by (rule div_nat_eqI) (use lo hi in simp_all)
    then show ?thesis by (simp add: bit_iff_odd)
  qed
  have above: "\<not> bit x k" if "?t < k" for k
  proof -
    have "(2 :: nat) ^ Suc ?t \<le> 2 ^ k" using that by (intro power_increasing) simp_all
    then show ?thesis using hi by (simp add: bit_iff_odd)
  qed
  have "bit y k \<longleftrightarrow> k < Suc ?t" for k
  proof
    assume "bit y k"
    then obtain i where "bit x (k + i)" unfolding y_def smeared by blast
    then show "k < Suc ?t" using above [of "k + i"] by (cases "?t < k + i") auto
  next
    assume k: "k < Suc ?t"
    then have "?t - k < 64" "bit x (k + (?t - k))" using t top by simp_all
    then show "bit y k" unfolding y_def smeared by blast
  qed
  then have "y = mask (Suc ?t)" by (intro bit_eqI) (simp add: bit_mask_iff)
  then have "y + 1 = 2 ^ Suc ?t" by (simp add: mask_eq_exp_minus_1 del: power_Suc)
  moreover have "(2 :: nat) ^ Suc ?t < 2 ^ 64" using t by (intro power_strict_increasing) simp_all
  moreover have "ceilToPow2 n = (y + 1) mod 2 ^ 64" unfolding ceilToPow2_def y_def x_def Let_def by (rule refl)
  ultimately show ?thesis by (simp add: x_def del: power_Suc)
qed

text \<open>
  Rounding a size up gives the least power of two that is not smaller, for every size up to \<open>2^63\<close>.
\<close>

lemma rwq_ceilToPow2:
  assumes "0 < n" and "n \<le> 2 ^ 63"
  shows "\<exists>k. ceilToPow2 n = 2 ^ k \<and> n \<le> 2 ^ k \<and> (\<forall>j. n \<le> 2 ^ j \<longrightarrow> k \<le> j)"
proof (cases "n = 1")
  case True
  then have "ceilToPow2 n = 2 ^ 0" by (simp add: ceilToPow2_def Let_def)
  then show ?thesis using True by (intro exI [of _ 0]) simp
next
  case False
  then have n: "1 < n" using assms(1) by simp
  let ?t = "bsr (n - 1)"
  have "n \<le> 2 ^ Suc ?t" using bsr_less [of "n - 1"] by linarith
  moreover have "Suc ?t \<le> j" if "n \<le> 2 ^ j" for j
  proof -
    have "(2 :: nat) ^ ?t < 2 ^ j" using bsr_le [of "n - 1"] n that by linarith
    then have "?t < j" by (rule power_less_imp_less_exp [rotated]) simp
    then show ?thesis by simp
  qed
  ultimately show ?thesis using ceilToPow2_eq [OF n assms(2)] by blast
qed

lemma rwq_ceilToPow2_witness: "\<exists>k. ceilToPow2 5 = 2 ^ k \<and> 5 \<le> (2 :: nat) ^ k \<and> (\<forall>j. (5 :: nat) \<le> 2 ^ j \<longrightarrow> k \<le> j)"
  by (rule rwq_ceilToPow2) simp_all

section \<open>What the interleavings guarantee\<close>

lemma start_inv:
  assumes m: "0 < maxSize" "maxSize < 2 ^ 63"
  shows "rwq_at (ReaderWriterQueue maxSize) [0] [] (\<lambda>_. []) [] [] True"
proof -
  let ?n = "ceilToPow2 (maxSize + 1)" and ?q = "ReaderWriterQueue maxSize"
  have e: "?n = 2 ^ Suc (bsr maxSize)" using ceilToPow2_eq [of "maxSize + 1"] m by simp
  then have n: "2 \<le> ?n" "0 < ?n" by simp_all
  have "holds (Block ?n) [] False None" unfolding holds_def using e n(1)
    by (auto simp: Block_def view_def intro!: exI [of _ "Suc (bsr maxSize)"])
  then have "bufs_ok ?q (\<lambda>_. [])" using e n(1)
    by (auto simp: bufs_ok_def ReaderWriterQueue_def Let_def taken_def pending_def intro!: exI [of _ "Suc (bsr maxSize)"])
  moreover have "ring ?q [0] []" by (auto simp: ring_def ReaderWriterQueue_def Let_def Block_def)
  moreover have "order_ok ?q [0] [] (\<lambda>_. []) [] []" by (simp add: order_ok_def)
  ultimately show ?thesis unfolding rwq_at_def by (simp add: ReaderWriterQueue_def Let_def)
qed

lemma rwq_reach_inv:
  assumes "rwq_reach maxSize q sent got seen" and m: "0 < maxSize" "maxSize < 2 ^ 63"
  shows "\<exists>fs es cm. rwq_at q fs es cm sent got seen"
  using assms(1)
proof (induction rule: rwq_reach.induct)
  case start
  then show ?case using start_inv [OF m] by blast
next
  case (enqueue q sent got seen c x)
  then obtain fs es cm where A: "rwq_at q fs es cm sent got seen" by blast
  show ?case using start_enqueue_ok [OF A enqueue(2)] by (intro exI)
next
  case (producer_step q sent got seen q' ev)
  then obtain fs es cm where A: "rwq_at q fs es cm sent got seen" by blast
  then show ?case using produce_ok [OF A] producer_step(2) by auto
next
  case (consumer_step q sent got seen q' ev)
  then obtain fs es cm where A: "rwq_at q fs es cm sent got seen" by blast
  then show ?case using consume_ok [OF A] consumer_step(2) by auto
qed

text \<open>
  C2. In every interleaving of one producer and one consumer, what was dequeued is an initial part of
  what was enqueued, in the same order; no assertion fails, no slot is constructed twice and none is destroyed
  or read while raw; and \<open>try_dequeue\<close> fails only if the queue was empty at some time during the call.
\<close>

theorem rwq_fifo:
  assumes "rwq_reach maxSize q sent got seen" and "0 < maxSize" and "maxSize < 2 ^ 63"
  shows "(\<exists>rest. sent = got @ rest) \<and> produce q \<noteq> None \<and> consume q \<noteq> None \<and>
    (\<forall>q'. consume q = Some (q', Empty) \<longrightarrow> seen)"
proof -
  obtain fs es cm where A: "rwq_at q fs es cm sent got seen" using rwq_reach_inv [OF assms] by blast
  have "sent = got @ concat (map cm fs)" using rwq_atD(5) [OF A] unfolding order_ok_def by blast
  then show ?thesis using produce_ok [OF A] consume_ok [OF A] by auto
qed

definition two_step :: "nat rwq" where
  "two_step = fst (the (produce (start_enqueue True 7 (ReaderWriterQueue 1))))"

lemma two_step_reach: "rwq_reach 1 two_step [] [] True"
proof -
  have "rwq_reach 1 (start_enqueue True (7 :: nat) (ReaderWriterQueue 1)) [] [] True"
    by (intro rwq_reach.enqueue rwq_reach.start) (simp add: ReaderWriterQueue_def Let_def)
  moreover have "ceilToPow2 2 = 2" by (simp add: ceilToPow2_def)
  then have "produce (start_enqueue True (7 :: nat) (ReaderWriterQueue 1)) = Some (two_step, Silent)"
    by (simp add: two_step_def produce_def start_enqueue_def ReaderWriterQueue_def Let_def after_def sizeMask_def Block_def construct_def)
  ultimately show ?thesis using rwq_reach.producer_step [of 1 _ "[]" "[]" True two_step Silent] by simp
qed

theorem rwq_fifo_witness: "produce two_step \<noteq> None \<and> consume two_step \<noteq> None"
  using rwq_fifo [OF two_step_reach] by simp

text \<open>A thread that runs alone, for \<open>k\<close> steps or until its call has returned.\<close>

fun consume_alone :: "nat \<Rightarrow> 'a rwq \<Rightarrow> 'a rwq option" where
  "consume_alone 0 q = Some q"
| "consume_alone (Suc k) q = (if consumer q = CIdle then Some q else Option.bind (consume q) (\<lambda>(q, ev). consume_alone k q))"

fun produce_alone :: "nat \<Rightarrow> 'a rwq \<Rightarrow> 'a rwq option" where
  "produce_alone 0 q = Some q"
| "produce_alone (Suc k) q = (if producer q = PIdle then Some q else Option.bind (produce q) (\<lambda>(q, ev). produce_alone k q))"

fun consumer_rank :: "'a consumer \<Rightarrow> nat" where
  "consumer_rank CIdle = 0"
| "consumer_rank (CCommit fb bf x) = 1"
| "consumer_rank (CRead fb bf) = 2"
| "consumer_rank (CMove nb nf) = 3"
| "consumer_rank (CNext nb) = 4"
| "consumer_rank (CAdvance fb) = 5"
| "consumer_rank (CStart ts) = 6"

fun producer_rank :: "'a producer \<Rightarrow> nat" where
  "producer_rank PIdle = 0"
| "producer_rank (PStore tb bt x) = 1"
| "producer_rank (PPublish n x) = 1"
| "producer_rank (PRoom tb bt x) = 2"
| "producer_rank (PFill n nt x) = 2"
| "producer_rank (PNew tb x) = 2"
| "producer_rank (PAhead tb x) = 3"
| "producer_rank (PFull tb c x) = 4"

lemma consumer_rank_0: "consumer_rank c = 0 \<longleftrightarrow> c = CIdle"
  by (cases c) simp_all

lemma producer_rank_0: "producer_rank p = 0 \<longleftrightarrow> p = PIdle"
  by (cases p) simp_all

lemma consume_less: "consume q = Some (q', ev) \<Longrightarrow> consumer q \<noteq> CIdle \<Longrightarrow> consumer_rank (consumer q') < consumer_rank (consumer q)"
  by (cases "consumer q") (auto simp: consume_def Let_def split: if_splits)

lemma produce_less: "produce q = Some (q', ev) \<Longrightarrow> producer q \<noteq> PIdle \<Longrightarrow> producer_rank (producer q') < producer_rank (producer q)"
  by (cases "producer q") (auto simp: produce_def new_block_def Let_def split: if_splits)

lemma consume_alone_ok:
  "rwq_reach maxSize q sent got seen \<Longrightarrow> 0 < maxSize \<Longrightarrow> maxSize < 2 ^ 63 \<Longrightarrow> consumer_rank (consumer q) \<le> k \<Longrightarrow>
    \<exists>q'. consume_alone k q = Some q' \<and> consumer q' = CIdle"
proof (induction k arbitrary: q got seen)
  case 0
  then show ?case by (simp add: consumer_rank_0)
next
  case (Suc k)
  show ?case
  proof (cases "consumer q = CIdle")
    case False
    obtain fs es cm where A: "rwq_at q fs es cm sent got seen" using rwq_reach_inv [OF Suc.prems(1-3)] by blast
    obtain q' ev where q': "consume q = Some (q', ev)" using consume_ok [OF A] by blast
    then have "rwq_reach maxSize q' sent (got @ dequeued ev) (sent = got @ dequeued ev \<or> consumer q \<noteq> CIdle \<and> seen)"
      using rwq_reach.consumer_step [OF Suc.prems(1)] by blast
    moreover have "consumer_rank (consumer q') \<le> k" using consume_less [OF q' False] Suc.prems(4) by simp
    ultimately show ?thesis using Suc.IH Suc.prems(2,3) q' False by simp
  qed simp
qed

lemma produce_alone_ok:
  "rwq_reach maxSize q sent got seen \<Longrightarrow> 0 < maxSize \<Longrightarrow> maxSize < 2 ^ 63 \<Longrightarrow> producer_rank (producer q) \<le> k \<Longrightarrow>
    \<exists>q'. produce_alone k q = Some q' \<and> producer q' = PIdle"
proof (induction k arbitrary: q sent seen)
  case 0
  then show ?case by (simp add: producer_rank_0)
next
  case (Suc k)
  show ?case
  proof (cases "producer q = PIdle")
    case False
    obtain fs es cm where A: "rwq_at q fs es cm sent got seen" using rwq_reach_inv [OF Suc.prems(1-3)] by blast
    obtain q' ev where q': "produce q = Some (q', ev)" using produce_ok [OF A] by blast
    then have "rwq_reach maxSize q' (sent @ enqueued ev) got (seen \<or> sent @ enqueued ev = got)"
      using rwq_reach.producer_step [OF Suc.prems(1)] by blast
    moreover have "producer_rank (producer q') \<le> k" using produce_less [OF q' False] Suc.prems(4) by simp
    ultimately show ?thesis using Suc.IH Suc.prems(2,3) q' False by simp
  qed simp
qed

text \<open>
  C19. Neither thread waits for the other: from any reachable state, wherever the other thread stands, a call
  in progress returns after at most six further steps of the consumer, or four of the producer.
\<close>

theorem rwq_wait_free:
  assumes "rwq_reach maxSize q sent got seen" and "0 < maxSize" and "maxSize < 2 ^ 63"
  shows "(\<exists>q'. consume_alone 6 q = Some q' \<and> consumer q' = CIdle) \<and> (\<exists>q'. produce_alone 4 q = Some q' \<and> producer q' = PIdle)"
proof -
  have "consumer_rank (consumer q) \<le> 6" by (cases "consumer q") simp_all
  moreover have "producer_rank (producer q) \<le> 4" by (cases "producer q") simp_all
  ultimately show ?thesis using consume_alone_ok [OF assms] produce_alone_ok [OF assms] by blast
qed

theorem rwq_wait_free_witness: "\<exists>q'. produce_alone 4 two_step = Some q' \<and> producer q' = PIdle"
  using rwq_wait_free [OF two_step_reach] by simp

section \<open>Room without further memory\<close>

definition roomy_blocks :: "nat \<Rightarrow> 'a rwq \<Rightarrow> bool" where
  "roomy_blocks n q \<longleftrightarrow> (\<forall>b \<in> set (blocks q). n \<le> bsize b) \<and> n \<le> largestBlockSize q"

lemma roomy_put: "roomy_blocks n q \<Longrightarrow> n \<le> bsize b \<Longrightarrow> roomy_blocks n (put_blk i b q)"
  unfolding roomy_blocks_def put_blk_def using set_update_subset_insert [of "blocks q" i b] by auto

lemma roomy_fields [simp]:
  "roomy_blocks n (q\<lparr>producer := p\<rparr>) = roomy_blocks n q" "roomy_blocks n (q\<lparr>consumer := c\<rparr>) = roomy_blocks n q"
  "roomy_blocks n (q\<lparr>tailBlock := i\<rparr>) = roomy_blocks n q" "roomy_blocks n (q\<lparr>frontBlock := i\<rparr>) = roomy_blocks n q"
  by (simp_all add: roomy_blocks_def)

lemma roomy_blk: "roomy_blocks n q \<Longrightarrow> i < length (blocks q) \<Longrightarrow> n \<le> bsize (blk q i)"
  unfolding roomy_blocks_def by simp

lemma construct_size: "construct i x b = Some b' \<Longrightarrow> bsize b' = bsize b"
  by (auto simp: construct_def split: if_splits)

lemma destroy_size: "destroy i b = Some (x, b') \<Longrightarrow> bsize b' = bsize b"
  by (auto simp: destroy_def split: if_splits)

lemma put_outside: "\<not> i < length (blocks q) \<Longrightarrow> put_blk i b q = q"
  by (simp add: put_blk_def list_update_beyond not_less)

lemma roomy_put_same: "roomy_blocks n q \<Longrightarrow> bsize b = bsize (blk q i) \<Longrightarrow> roomy_blocks n (put_blk i b q)"
  using roomy_put [of n q b i] roomy_blk [of n q i] put_outside [of i q b] by (cases "i < length (blocks q)") auto

lemma produce_roomy:
  assumes A: "rwq_at q fs es cm sent got seen" and r: "roomy_blocks n q" and p: "produce q = Some (q', ev)"
  shows "roomy_blocks n q'"
proof (cases "producer q")
  case (PNew tb x)
  let ?n = "largestBlockSize q * 2"
  obtain b where b: "construct 0 x (Block ?n) = Some b" and q': "q' = (put_blk tb ((blk q tb)\<lparr>next_block := length (blocks q)\<rparr>)
      (q\<lparr>largestBlockSize := ?n, blocks := blocks q @ [b\<lparr>tail := 1, next_block := nxt q tb\<rparr>]\<rparr>))\<lparr>producer := PPublish (length (blocks q)) x\<rparr>"
    using p PNew by (auto simp: produce_def new_block_def Let_def)
  have "bsize b = ?n" using construct_size [OF b] by (simp add: Block_def)
  then have s: "roomy_blocks n (q\<lparr>largestBlockSize := ?n, blocks := blocks q @ [b\<lparr>tail := 1, next_block := nxt q tb\<rparr>]\<rparr>)"
    using r by (auto simp: roomy_blocks_def)
  have "tb < length (blocks q)" using rwq_atD(3) [OF A] ring_ids(2) [OF rwq_atD(1) [OF A]] PNew by simp
  then have "n \<le> bsize ((blk q tb)\<lparr>next_block := length (blocks q)\<rparr>)" using roomy_blk [OF r] by simp
  then show ?thesis unfolding q' using roomy_put [OF s] by simp
qed (use r p in \<open>auto simp: produce_def Let_def roomy_put_same construct_size split: if_splits\<close>)

lemma consume_roomy: "roomy_blocks n q \<Longrightarrow> consume q = Some (q', ev) \<Longrightarrow> roomy_blocks n q'"
  by (cases "consumer q") (auto simp: consume_def Let_def roomy_put_same destroy_size split: if_splits)

lemma rwq_reach_roomy:
  assumes "rwq_reach maxSize q sent got seen" and m: "0 < maxSize" "maxSize < 2 ^ 63"
  shows "roomy_blocks (maxSize + 1) q"
  using assms(1)
proof (induction rule: rwq_reach.induct)
  case start
  have "maxSize + 1 \<le> ceilToPow2 (maxSize + 1)"
    using ceilToPow2_eq [of "maxSize + 1"] bsr_less [of maxSize] m by simp
  then show ?case by (simp add: ReaderWriterQueue_def Let_def roomy_blocks_def Block_def)
next
  case (enqueue q sent got seen c x)
  then show ?case by (auto simp: start_enqueue_def Let_def)
next
  case (producer_step q sent got seen q' ev)
  then show ?case using produce_roomy rwq_reach_inv [OF producer_step(1) m] by metis
next
  case (consumer_step q sent got seen q' ev)
  then show ?case using consume_roomy by blast
qed

text \<open>
  A call of the producer finds the tail block full, so that \<open>try_enqueue\<close> may refuse and \<open>enqueue\<close>
  may allocate, only when the queue holds at least \<open>maxSize\<close> elements.
\<close>

lemma rwq_capacity:
  assumes r: "rwq_reach maxSize q sent got seen" and m: "0 < maxSize" "maxSize < 2 ^ 63"
    and p: "producer q = PIdle" and few: "length sent < length got + maxSize"
  shows "\<exists>tb bt. producer (start_enqueue canAlloc x q) = PRoom tb bt x"
proof -
  obtain fs es cm where A: "rwq_at q fs es cm sent got seen" using rwq_reach_inv [OF r m] by blast
  note D = rwq_atD [OF A] and R = ringD [OF rwq_atD(1) [OF A]]
  have i: "last fs < length (blocks q)" by (rule ring_ids(2) [OF D(1)])
  obtain fs' where fs: "fs = fs' @ [last fs]" using R(1) by (metis append_butlast_last_id)
  have "length (cm (last fs)) \<le> length (concat (map cm (fs' @ [last fs])))" by simp
  then have "length (cm (last fs)) \<le> length (concat (map cm fs))" using fs by simp
  moreover have "length (concat (map cm fs)) < maxSize" using few D(5) unfolding order_ok_def by simp
  moreover have "maxSize + 1 \<le> bsize (blk q (last fs))" by (rule roomy_blk [OF rwq_reach_roomy [OF r m] i])
  ultimately have "length (cm (last fs)) + 1 < bsize (blk q (last fs))" by linarith
  then show ?thesis using holds_room [OF bufs_at [OF D(2) i]] R(6) by (simp add: start_enqueue_def Let_def)
qed

lemma rwq_capacity_witness:
  "\<exists>tb bt. producer (start_enqueue False 5 (ReaderWriterQueue 15 :: nat rwq)) = PRoom tb bt 5"
  by (rule rwq_capacity [OF rwq_reach.start]) (simp_all add: ReaderWriterQueue_def Let_def)

section \<open>The destructor\<close>

lemma destroy_elements_ok:
  "holds (b\<lparr>front := i\<rparr>) cs False None \<Longrightarrow> length cs \<le> k \<Longrightarrow>
    \<exists>b'. destroy_elements k i b = Some b' \<and> next_block b' = next_block b"
proof (induction k arbitrary: i b cs)
  case 0
  then have "i = tail b" using holds_empty [OF "0.prems"(1)] by simp
  then show ?case by (simp add: destroy_elements.simps)
next
  case (Suc k)
  show ?case
  proof (cases "cs = []")
    case True
    then have "i = tail b" using holds_empty [OF Suc.prems(1)] by simp
    then show ?thesis by (simp add: destroy_elements.simps)
  next
    case False
    obtain b1 where b1: "destroy i (b\<lparr>front := i\<rparr>) = Some (hd cs, b1)" "holds b1 cs True None" "front b1 = i"
        "next_block b1 = next_block b"
      using holds_take [OF Suc.prems(1) False] by auto
    obtain b2 where b2: "destroy i b = Some (hd cs, b2)" "b1 = b2\<lparr>front := i\<rparr>"
      using b1(1) by (auto simp: destroy_def split: if_splits)
    have "holds (b1\<lparr>front := after (front b1) b1\<rparr>) (tl cs) False None" by (rule holds_commit [OF b1(2)])
    then have h: "holds (b2\<lparr>front := after i b2\<rparr>) (tl cs) False None"
      using b1(3) unfolding b2(2) by (simp add: after_def sizeMask_def)
    obtain b' where "destroy_elements k (after i b2) b2 = Some b'" "next_block b' = next_block b2"
      using Suc.IH [OF h] Suc.prems(2) False by (cases cs) auto
    moreover have "i \<noteq> tail b" using holds_empty [OF Suc.prems(1)] False by auto
    moreover have "next_block b2 = next_block b" using b1(4) unfolding b2(2) by simp
    ultimately show ?thesis using b2(1) by (subst destroy_elements.simps) simp
  qed
qed

lemma delete_blocks_ok:
  assumes "\<And>i. i \<in> set xs \<Longrightarrow> \<exists>b'. destroy_elements (bsize (blk q i)) (front (blk q i)) (blk q i) = Some b' \<and> next_block b' = nxt q i"
    and "xs \<noteq> []" and "successively (\<lambda>i j. nxt q i = j) (xs @ [tb])" and "tb \<notin> set (tl xs)" and "length xs \<le> k"
  shows "delete_blocks k (hd xs) tb q = Some xs"
  using assms
proof (induction xs arbitrary: k)
  case (Cons i xs)
  obtain k' where k: "k = Suc k'" using Cons.prems(5) by (cases k) auto
  obtain b' where b': "destroy_elements (bsize (blk q i)) (front (blk q i)) (blk q i) = Some b'" "next_block b' = nxt q i"
    using Cons.prems(1) [of i] by auto
  show ?case
  proof (cases xs)
    case Nil
    then show ?thesis using b' k Cons.prems(3) by simp
  next
    case (Cons j ys)
    have n: "nxt q i = j" using Cons.prems(3) Cons by simp
    have "j \<noteq> tb" using Cons.prems(4) Cons by simp
    moreover have "delete_blocks k' (hd xs) tb q = Some xs"
      using Cons.IH [of k'] Cons.prems k Cons by simp
    ultimately show ?thesis using b' n k Cons by simp
  qed
qed simp

text \<open>
  C28. When no call is in progress the destructor ends; it deletes every block if the front block is
  the tail block, and never the tail block otherwise.
\<close>

theorem rwq_destructor:
  assumes r: "rwq_reach maxSize q sent got seen" and m: "0 < maxSize" "maxSize < 2 ^ 63"
    and idle: "producer q = PIdle" "consumer q = CIdle"
  shows "\<exists>ds. delete_queue q = Some ds \<and> (if frontBlock q = tailBlock q then set ds = {..<length (blocks q)}
    else tailBlock q \<notin> set ds \<and> tailBlock q < length (blocks q))"
proof -
  obtain fs es cm where A: "rwq_at q fs es cm sent got seen" using rwq_reach_inv [OF r m] by blast
  note D = rwq_atD [OF A] and R = ringD [OF rwq_atD(1) [OF A]]
  have el: "\<exists>b'. destroy_elements (bsize (blk q i)) (front (blk q i)) (blk q i) = Some b' \<and> next_block b' = nxt q i"
    if i: "i < length (blocks q)" for i
  proof -
    have h: "holds (blk q i) (cm i) False None" using bufs_at [OF D(2) i] idle by (simp add: taken_def pending_def)
    then have "length (cm i) \<le> bsize (blk q i)" unfolding holds_def by simp
    then show ?thesis using destroy_elements_ok [of "front (blk q i)" "blk q i" "cm i"] h by simp
  qed
  have ids: "i < length (blocks q)" if "i \<in> set (fs @ es)" for i using that unfolding R(3) by simp
  have card: "length (fs @ es) = length (blocks q)" using distinct_card [OF R(2)] R(3) by simp
  show ?thesis
  proof (cases "tl fs = []")
    case True
    then have fs: "fs = [hd fs]" using R(1) by (cases fs) auto
    then have t: "tailBlock q = hd fs" "frontBlock q = hd fs" using R(5,6) by (metis last.simps)+
    have "delete_blocks (length (blocks q)) (hd (fs @ es)) (hd fs) q = Some (fs @ es)"
    proof (rule delete_blocks_ok)
      show "hd fs \<notin> set (tl (fs @ es))" using ring_disjoint(1) [OF D(1)] True R(1) by (cases fs) auto
    qed (use el ids R card in auto)
    then have "delete_queue q = Some (fs @ es)" using R(1) t by (simp add: delete_queue_def)
    then show ?thesis using t R(3) by auto
  next
    case False
    have ne: "hd fs \<noteq> last fs" using hd_not_last [OF _ False] R(2) by simp
    have bl: "butlast fs \<noteq> []" "hd (butlast fs) = hd fs" using False R(1) by (cases fs; cases "tl fs"; simp)+
    have lf: "last fs \<notin> set (butlast fs)" using R(1,2) by (metis append_butlast_last_id distinct_append not_distinct_conv_prefix)
    have "delete_blocks (length (blocks q)) (hd (butlast fs)) (last fs) q = Some (butlast fs)"
    proof (rule delete_blocks_ok)
      show "last fs \<notin> set (tl (butlast fs))" using lf bl(1) by (metis list.set_sel(2))
      have "successively (\<lambda>i j. nxt q i = j) fs" using R(4) by (simp add: successively_append_iff)
      then show "successively (\<lambda>i j. nxt q i = j) (butlast fs @ [last fs])" using R(1) by simp
      show "length (butlast fs) \<le> length (blocks q)" using card by simp
      show "\<exists>b'. destroy_elements (bsize (blk q i)) (front (blk q i)) (blk q i) = Some b' \<and> next_block b' = nxt q i"
        if "i \<in> set (butlast fs)" for i using el ids [of i] in_set_butlastD [OF that] by simp
    qed (rule bl(1))
    then have "delete_queue q = Some (butlast fs)" using bl(2) R(5,6) by (simp add: delete_queue_def)
    then show ?thesis using ne lf R(5,6) ring_ids(2) [OF D(1)] by auto
  qed
qed

theorem rwq_destructor_witness: "\<exists>ds. delete_queue (ReaderWriterQueue 15 :: nat rwq) = Some ds \<and> set ds = {..<1}"
  using rwq_destructor [OF rwq_reach.start, of 15] by (simp add: ReaderWriterQueue_def Let_def)

end
