(* ===== verification/Obstack.thy ===== *)
theory Obstack
  imports Prelude "HOL-Library.Word"
begin

text \<open>
  \<open>obstack/obstack.hpp\<close>: an arena used as a stack. Each object has a header in front of it with the
  address of the header below, the encrypted destructor and a checksum. Memory is a map from the addresses
  of 8-byte words; functions are named by their addresses. The random cookies are parameters. A
  call of a destructor is recorded in \<open>calls\<close> with the address of its object; a failed assertion is \<open>None\<close>.
\<close>

record cookies =
  checksum_cookie :: "64 word"
  xor_cookie :: "64 word"
  free_marker_dtor :: "64 word"
  array_of_primitives_dtor :: "64 word"

record obstack =
  top_chunk :: nat
  tos :: nat
  mem_start :: nat
  mem_capacity :: nat
  cells :: "nat \<Rightarrow> 64 word"
  calls :: "(64 word \<times> nat) list"

section \<open>Checksums and encrypted pointers\<close>

definition xor_ptr :: "cookies \<Rightarrow> 64 word \<Rightarrow> 64 word" where
  "xor_ptr K p = p XOR xor_cookie K"

definition make_checksum :: "cookies \<Rightarrow> 64 word \<Rightarrow> 64 word \<Rightarrow> 64 word" where
  "make_checksum K prev xored_dtor = xored_dtor XOR prev XOR checksum_cookie K"

definition checksum_ok :: "cookies \<Rightarrow> 64 word \<Rightarrow> 64 word \<Rightarrow> 64 word \<Rightarrow> bool" where
  "checksum_ok K prev xored_dtor checksum = (checksum = make_checksum K prev xored_dtor)"

definition free_marker_dtor_xor :: "cookies \<Rightarrow> 64 word" where
  "free_marker_dtor_xor K = xor_ptr K (free_marker_dtor K)"

definition array_of_primitives_dtor_xor :: "cookies \<Rightarrow> 64 word" where
  "array_of_primitives_dtor_xor K = xor_ptr K (array_of_primitives_dtor K)"

section \<open>Sizes\<close>

text \<open>\<open>max_align_t\<close> has 16 bytes and the alignment 16, a header 24 bytes and the alignment 8.\<close>

definition MAX_ALIGN :: nat where "MAX_ALIGN = 16"
definition HEADER :: nat where "HEADER = 24"

definition to_alloc_capacity :: "nat \<Rightarrow> nat" where
  "to_alloc_capacity n = n div MAX_ALIGN + (if n mod MAX_ALIGN \<noteq> 0 then 1 else 0)"

definition max_aligned_sizeof :: "nat \<Rightarrow> nat" where
  "max_aligned_sizeof n = (if n mod MAX_ALIGN \<noteq> 0 then n + (MAX_ALIGN - n mod MAX_ALIGN) else n)"

definition alignment :: "nat \<Rightarrow> nat" where
  "alignment a = (if 8 < a then a else 8)"

definition offset_to_alignment :: "nat \<Rightarrow> nat \<Rightarrow> nat" where
  "offset_to_alignment p a = (if p mod a \<noteq> 0 then a - p mod a else 0)"

definition max_overhead :: "nat \<Rightarrow> nat" where
  "max_overhead n = (max_aligned_sizeof HEADER + alignment MAX_ALIGN) * n"

definition end_of_mem :: "obstack \<Rightarrow> nat" where
  "end_of_mem ob = mem_start ob + mem_capacity ob"

definition used_size :: "obstack \<Rightarrow> nat" where
  "used_size ob = tos ob - mem_start ob"

section \<open>Construction and allocation\<close>

text \<open>\<open>mem\<close> is what the allocator answered to a request for \<open>to_alloc_capacity capacity\<close> elements.\<close>

definition basic_obstack :: "nat \<Rightarrow> nat \<Rightarrow> (nat \<Rightarrow> 64 word) \<Rightarrow> obstack option" where
  "basic_obstack capacity mem h =
     (if capacity = 0 \<or> mem = 0 then None
      else Some \<lparr>top_chunk = 0, tos = mem, mem_start = mem, mem_capacity = to_alloc_capacity capacity * MAX_ALIGN,
        cells = h, calls = []\<rparr>)"

text \<open>On a buffer of \<open>max_align_t\<close> elements that the caller supplies.\<close>

definition basic_obstack_on :: "nat \<Rightarrow> nat \<Rightarrow> (nat \<Rightarrow> 64 word) \<Rightarrow> obstack option" where
  "basic_obstack_on buffer buffer_size h =
     (if buffer mod MAX_ALIGN \<noteq> 0 \<or> buffer = 0 \<or> buffer_size = 0 then None
      else Some \<lparr>top_chunk = 0, tos = buffer, mem_start = buffer, mem_capacity = buffer_size * MAX_ALIGN,
        cells = h, calls = []\<rparr>)"

text \<open>Sums of addresses wrap at the width of a pointer.\<close>

definition mem_available :: "nat \<Rightarrow> nat \<Rightarrow> obstack \<Rightarrow> bool" where
  "mem_available align bytes ob =
     ((tos ob + offset_to_alignment (tos ob) (alignment align) + max_aligned_sizeof HEADER + bytes) mod 2 ^ 64 < end_of_mem ob)"

definition top_object :: "obstack \<Rightarrow> nat" where
  "top_object ob = top_chunk ob + max_aligned_sizeof HEADER"

definition allocate :: "cookies \<Rightarrow> nat \<Rightarrow> nat \<Rightarrow> 64 word \<Rightarrow> obstack \<Rightarrow> obstack" where
  "allocate K align_to n xored_dtor ob =
     (let c = tos ob + offset_to_alignment (tos ob) align_to;
          prev = of_nat (top_chunk ob)
      in ob\<lparr>cells := (cells ob)(c := prev, c + 8 := xored_dtor, c + 16 := make_checksum K prev xored_dtor),
            top_chunk := c, tos := c + (max_aligned_sizeof HEADER + n)\<rparr>)"

text \<open>The constructor writes the words of the object, whatever its arguments: \<open>init\<close> gives them by their offsets.\<close>

definition construct_at :: "nat \<Rightarrow> nat \<Rightarrow> (nat \<Rightarrow> 64 word) \<Rightarrow> obstack \<Rightarrow> obstack" where
  "construct_at p n init ob = ob\<lparr>cells := (\<lambda>a. if p \<le> a \<and> a + 8 \<le> p + n then init (a - p) else cells ob a)\<rparr>"

definition push :: "cookies \<Rightarrow> nat \<Rightarrow> nat \<Rightarrow> 64 word \<Rightarrow> (nat \<Rightarrow> 64 word) \<Rightarrow> obstack \<Rightarrow> nat \<times> obstack" where
  "push K align n dtor init ob =
     (let ob = allocate K (alignment align) n (xor_ptr K dtor) ob
      in (top_object ob, construct_at (top_object ob) n init ob))"

definition alloc :: "cookies \<Rightarrow> nat \<Rightarrow> nat \<Rightarrow> 64 word \<Rightarrow> (nat \<Rightarrow> 64 word) \<Rightarrow> obstack \<Rightarrow> nat \<times> obstack" where
  "alloc K align n dtor init ob = (if mem_available align n ob then push K align n dtor init ob else (0, ob))"

definition alloc_array :: "cookies \<Rightarrow> nat \<Rightarrow> nat \<Rightarrow> nat \<Rightarrow> obstack \<Rightarrow> nat \<times> obstack" where
  "alloc_array K align elt num ob =
     (let array_bytes = elt * num mod 2 ^ 64 in
      if mem_available align array_bytes ob then
        (let ob = allocate K (alignment align) array_bytes (array_of_primitives_dtor_xor K) ob in (top_object ob, ob))
      else (0, ob))"

section \<open>Destruction\<close>

definition to_chunk_header :: "nat \<Rightarrow> nat" where
  "to_chunk_header obj = obj - max_aligned_sizeof HEADER"

definition to_object :: "nat \<Rightarrow> nat" where
  "to_object c = c + max_aligned_sizeof HEADER"

definition is_valid :: "cookies \<Rightarrow> nat \<Rightarrow> obstack \<Rightarrow> bool" where
  "is_valid K c ob = (mem_start ob \<le> c \<and> c \<le> end_of_mem ob \<and> checksum_ok K (cells ob c) (cells ob (c + 8)) (cells ob (c + 16)))"

definition is_top :: "nat \<Rightarrow> obstack \<Rightarrow> bool" where
  "is_top obj ob = (to_chunk_header obj = top_chunk ob)"

text \<open>The destructor of the object, whose header is marked as free. The checksum stays.\<close>

definition mark_as_destructed :: "cookies \<Rightarrow> nat \<Rightarrow> obstack \<Rightarrow> (64 word \<times> obstack) option" where
  "mark_as_destructed K c ob =
     (if is_valid K c ob
      then Some (xor_ptr K (cells ob (c + 8)), ob\<lparr>cells := (cells ob)(c + 8 := free_marker_dtor_xor K)\<rparr>)
      else None)"

partial_function (option) deallocate_as_possible :: "cookies \<Rightarrow> obstack \<Rightarrow> obstack option" where
  "deallocate_as_possible K ob =
     (if top_chunk ob \<noteq> 0 \<and> cells ob (top_chunk ob + 8) = free_marker_dtor_xor K
      then deallocate_as_possible K (ob\<lparr>tos := top_chunk ob, top_chunk := unat (cells ob (top_chunk ob))\<rparr>)
      else Some ob)"

definition call_dtor :: "64 word \<Rightarrow> nat \<Rightarrow> obstack \<Rightarrow> obstack" where
  "call_dtor dtor obj ob = ob\<lparr>calls := calls ob @ [(dtor, obj)]\<rparr>"

definition pop :: "cookies \<Rightarrow> nat \<Rightarrow> nat \<Rightarrow> obstack \<Rightarrow> obstack option" where
  "pop K c obj ob =
     Option.bind (mark_as_destructed K c ob)
       (\<lambda>(dtor, ob). map_option (call_dtor dtor obj) (deallocate_as_possible K ob))"

definition destruct :: "cookies \<Rightarrow> nat \<Rightarrow> nat \<Rightarrow> obstack \<Rightarrow> obstack option" where
  "destruct K c obj ob = map_option (\<lambda>(dtor, ob). call_dtor dtor obj ob) (mark_as_destructed K c ob)"

definition dealloc :: "cookies \<Rightarrow> nat \<Rightarrow> obstack \<Rightarrow> obstack option" where
  "dealloc K obj ob =
     (if obj = 0 then Some ob
      else if is_top obj ob then pop K (to_chunk_header obj) obj ob
      else destruct K (to_chunk_header obj) obj ob)"

partial_function (option) dealloc_all :: "cookies \<Rightarrow> obstack \<Rightarrow> obstack option" where
  "dealloc_all K ob =
     (if top_chunk ob = 0 then Some ob
      else Option.bind (pop K (top_chunk ob) (to_object (top_chunk ob)) ob) (dealloc_all K))"

end
