(* ===== verification/ObstackSafe.thy ===== *)
theory ObstackSafe
  imports Obstack
begin

text \<open>
  The headers of an \<open>obstack\<close> form a stack, from the newest object down. A destroyed object below
  the top stays until everything above it is destroyed; its stale checksum reveals a second destruction.
\<close>

section \<open>The stack of headers\<close>

type_synonym chunk = "nat \<times> nat \<times> 64 word option"

lemma obs_consts [simp]: "MAX_ALIGN = 16" "HEADER = 24" "max_aligned_sizeof 24 = 32"
  by (simp_all add: MAX_ALIGN_def HEADER_def max_aligned_sizeof_def)

fun header_ok :: "cookies \<Rightarrow> (nat \<Rightarrow> 64 word) \<Rightarrow> nat \<Rightarrow> 64 word option \<Rightarrow> bool" where
  "header_ok K h c (Some d) \<longleftrightarrow> d \<noteq> free_marker_dtor K \<and> h (c + 8) = xor_ptr K d \<and> h (c + 16) = make_checksum K (h c) (xor_ptr K d)"
| "header_ok K h c None \<longleftrightarrow> h (c + 8) = free_marker_dtor_xor K \<and>
     (\<exists>d. d \<noteq> free_marker_dtor K \<and> h (c + 16) = make_checksum K (h c) (xor_ptr K d))"

fun stack_ok :: "cookies \<Rightarrow> (nat \<Rightarrow> 64 word) \<Rightarrow> nat \<Rightarrow> nat \<Rightarrow> nat \<Rightarrow> chunk list \<Rightarrow> bool" where
  "stack_ok K h s tc t [] \<longleftrightarrow> tc = 0 \<and> s \<le> t"
| "stack_ok K h s tc t ((c, n, l) # cs) \<longleftrightarrow> tc = c \<and> 0 < c \<and> 8 dvd c \<and> c + 32 + n \<le> t \<and> header_ok K h c l \<and>
     stack_ok K h s (unat (h c)) c cs"

definition dead :: "chunk \<Rightarrow> bool" where
  "dead x \<longleftrightarrow> snd (snd x) = None"

definition obs_inv :: "cookies \<Rightarrow> obstack \<Rightarrow> chunk list \<Rightarrow> bool" where
  "obs_inv K ob cs \<longleftrightarrow> stack_ok K (cells ob) (mem_start ob) (top_chunk ob) (tos ob) cs \<and> tos ob \<le> end_of_mem ob \<and>
     end_of_mem ob < 2 ^ 64 \<and> 0 < mem_start ob \<and> (cs \<noteq> [] \<longrightarrow> \<not> dead (hd cs))"

lemma xor_ptr_inj: "xor_ptr K a = xor_ptr K b \<longleftrightarrow> a = b"
  unfolding xor_ptr_def by (auto simp: bit_eq_iff bit_xor_iff)

lemma xor_ptr_twice: "xor_ptr K (xor_ptr K d) = d"
  by (auto simp: xor_ptr_def bit_eq_iff bit_xor_iff)

lemma checksum_inj: "make_checksum K p a = make_checksum K p b \<longleftrightarrow> a = b"
  unfolding make_checksum_def by (auto simp: bit_eq_iff bit_xor_iff)

lemma stack_bounds:
  "stack_ok K h s tc t cs \<Longrightarrow> (c, n, l) \<in> set cs \<Longrightarrow> s \<le> c \<and> 0 < c \<and> 8 dvd c \<and> c + 32 + n \<le> t \<and> header_ok K h c l"
proof (induction cs arbitrary: tc t)
  case (Cons x cs)
  obtain a k m where x: "x = (a, k, m)" by (cases x)
  have low: "s \<le> a" if "stack_ok K h s tc' a cs" for tc' using that
  proof (induction cs arbitrary: tc' a)
    case (Cons y ys)
    obtain b j e where "y = (b, j, e)" by (cases y)
    then show ?case using Cons by fastforce
  qed simp
  show ?case
  proof (cases "(c, n, l) = x")
    case True
    then show ?thesis using Cons.prems low x by auto
  next
    case False
    then have "s \<le> c \<and> 0 < c \<and> 8 dvd c \<and> c + 32 + n \<le> a \<and> header_ok K h c l" using Cons x by auto
    then show ?thesis using Cons.prems(1) x by auto
  qed
qed simp

lemma stack_cong:
  "stack_ok K h s tc t cs \<Longrightarrow> (\<And>c n l a. (c, n, l) \<in> set cs \<Longrightarrow> c \<le> a \<Longrightarrow> a < c + 32 \<Longrightarrow> h' a = h a) \<Longrightarrow> stack_ok K h' s tc t cs"
proof (induction cs arbitrary: tc t)
  case (Cons x cs)
  obtain a k m where x: "x = (a, k, m)" by (cases x)
  have e: "h' a = h a" "h' (a + 8) = h (a + 8)" "h' (a + 16) = h (a + 16)"
    using Cons.prems(2) [of a k m] x by simp_all
  have "header_ok K h' a m = header_ok K h a m" using e by (cases m) simp_all
  moreover have "stack_ok K h' s (unat (h a)) a cs" using Cons.prems x by (intro Cons.IH) auto
  ultimately show ?case using Cons.prems(1) x e(1) by simp
qed simp

lemma stack_apart:
  "stack_ok K h s tc t cs \<Longrightarrow> (c, n, l) \<in> set cs \<Longrightarrow> (d, k, m) \<in> set cs \<Longrightarrow>
    (c, n, l) = (d, k, m) \<or> c + 32 + n \<le> d \<or> d + 32 + k \<le> c"
proof (induction cs arbitrary: tc t)
  case (Cons x cs)
  obtain a j e where x: "x = (a, j, e)" by (cases x)
  have st: "stack_ok K h s (unat (h a)) a cs" using Cons.prems(1) x by simp
  have below: "b + 32 + i \<le> a" if "(b, i, f) \<in> set cs" for b i f using stack_bounds [OF st that] by blast
  consider "(c, n, l) = x" "(d, k, m) = x" | "(c, n, l) = x" "(d, k, m) \<in> set cs" | "(c, n, l) \<in> set cs" "(d, k, m) = x"
    | "(c, n, l) \<in> set cs" "(d, k, m) \<in> set cs" using Cons.prems(2,3) by auto
  then show ?case
  proof cases
    case 1
    then show ?thesis by simp
  next
    case 2
    then show ?thesis using below x by auto
  next
    case 3
    then show ?thesis using below x by auto
  next
    case 4
    then show ?thesis using Cons.IH [OF st] by blast
  qed
qed simp

lemma stack_limit: "stack_ok K h s tc t cs \<Longrightarrow> t \<le> t' \<Longrightarrow> stack_ok K h s tc t' cs"
  by (cases cs) auto

section \<open>Destruction\<close>

definition kill :: "nat \<Rightarrow> chunk list \<Rightarrow> chunk list" where
  "kill c = map (\<lambda>(a, n, l). (a, n, if a = c then None else l))"

lemma stack_mark:
  assumes "stack_ok K h s tc t cs" and "(c, n, Some d) \<in> set cs"
  shows "stack_ok K (h(c + 8 := free_marker_dtor_xor K)) s tc t (kill c cs)"
  using assms
proof (induction cs arbitrary: tc t)
  case (Cons x cs)
  obtain a k m where x: "x = (a, k, m)" by (cases x)
  let ?h = "h(c + 8 := free_marker_dtor_xor K)"
  have st: "stack_ok K h s (unat (h a)) a cs" using Cons.prems(1) x by simp
  show ?case
  proof (cases "a = c")
    case True
    have low: "b + 32 + i \<le> a" if "(b, i, f) \<in> set cs" for b i f using stack_bounds [OF st that] by blast
    have "(a, k, m) = (c, n, Some d)"
      using stack_apart [OF Cons.prems(1), of a k m c n "Some d"] Cons.prems(2) x True by auto
    moreover have "kill c cs = cs"
    proof -
      have "(case y of (b, i, f) \<Rightarrow> (b, i, if b = c then None else f)) = y" if "y \<in> set cs" for y
        using low that True by (cases y) fastforce
      then show ?thesis unfolding kill_def by (simp add: map_idI)
    qed
    moreover have "stack_ok K ?h s (unat (h a)) a cs"
      by (rule stack_cong [OF st]) (use low True in fastforce)
    ultimately have "kill c (x # cs) = (c, n, None) # cs" "stack_ok K ?h s (unat (h c)) c cs"
      using x by (auto simp: kill_def)
    moreover have "tc = c" "0 < c" "8 dvd c" "c + 32 + n \<le> t" "header_ok K h c (Some d)"
      using Cons.prems(1) x \<open>(a, k, m) = _\<close> by auto
    moreover have "header_ok K ?h c None" using \<open>header_ok K h c (Some d)\<close> by (auto intro!: exI [of _ d])
    ultimately show ?thesis by (simp del: header_ok.simps fun_upd_apply add: fun_upd_other)
  next
    case False
    then have mem: "(c, n, Some d) \<in> set cs" using Cons.prems(2) x by auto
    then have "c + 32 + n \<le> a" using stack_bounds [OF st mem] by blast
    then have e: "?h a = h a" "?h (a + 8) = h (a + 8)" "?h (a + 16) = h (a + 16)" by simp_all
    have "header_ok K ?h a m" using Cons.prems(1) x e by (cases m) auto
    then show ?thesis using Cons.prems(1) Cons.IH [OF st mem] x False e(1) by (simp add: kill_def del: fun_upd_apply)
  qed
qed simp

lemma mark_ok:
  assumes I: "obs_inv K ob cs" and c: "(c, n, Some d) \<in> set cs"
  shows "mark_as_destructed K c ob = Some (d, ob\<lparr>cells := (cells ob)(c + 8 := free_marker_dtor_xor K)\<rparr>)"
proof -
  have st: "stack_ok K (cells ob) (mem_start ob) (top_chunk ob) (tos ob) cs" and t: "tos ob \<le> end_of_mem ob"
    using I unfolding obs_inv_def by blast+
  note b = stack_bounds [OF st c]
  have "is_valid K c ob" using b t by (simp add: is_valid_def checksum_ok_def)
  then show ?thesis using b by (simp add: mark_as_destructed_def xor_ptr_twice)
qed

lemma mark_dead:
  assumes I: "obs_inv K ob cs" and c: "(c, n, None) \<in> set cs"
  shows "mark_as_destructed K c ob = None"
proof -
  have st: "stack_ok K (cells ob) (mem_start ob) (top_chunk ob) (tos ob) cs" using I unfolding obs_inv_def by blast
  note b = stack_bounds [OF st c]
  obtain d where "d \<noteq> free_marker_dtor K" "cells ob (c + 16) = make_checksum K (cells ob c) (xor_ptr K d)" using b by auto
  then have "\<not> is_valid K c ob"
    using b by (simp add: is_valid_def checksum_ok_def checksum_inj free_marker_dtor_xor_def xor_ptr_inj)
  then show ?thesis by (simp add: mark_as_destructed_def)
qed

lemma rewind:
  "stack_ok K (cells ob) s (top_chunk ob) (tos ob) cs \<Longrightarrow>
    \<exists>tc t. deallocate_as_possible K ob = Some (ob\<lparr>top_chunk := tc, tos := t\<rparr>) \<and> t \<le> tos ob \<and>
      stack_ok K (cells ob) s tc t (dropWhile dead cs)"
proof (induction cs arbitrary: ob)
  case Nil
  then have "deallocate_as_possible K ob = Some ob" by (subst deallocate_as_possible.simps) simp
  then show ?case using Nil by (intro exI [of _ "top_chunk ob"] exI [of _ "tos ob"]) simp
next
  case (Cons x cs)
  obtain c n l where x: "x = (c, n, l)" by (cases x)
  show ?case
  proof (cases l)
    case (Some d)
    then have "cells ob (top_chunk ob + 8) \<noteq> free_marker_dtor_xor K"
      using Cons.prems x by (auto simp: free_marker_dtor_xor_def xor_ptr_inj)
    then have "deallocate_as_possible K ob = Some ob" by (subst deallocate_as_possible.simps) simp
    then show ?thesis using Cons.prems x Some
      by (intro exI [of _ "top_chunk ob"] exI [of _ "tos ob"]) (simp add: dead_def)
  next
    case None
    let ?ob = "ob\<lparr>tos := c, top_chunk := unat (cells ob c)\<rparr>"
    have tc: "top_chunk ob = c" "0 < c" "cells ob (c + 8) = free_marker_dtor_xor K" "c + 32 + n \<le> tos ob"
      using Cons.prems x None by auto
    have "deallocate_as_possible K ob = deallocate_as_possible K ?ob"
      using tc by (subst deallocate_as_possible.simps) simp
    moreover have "stack_ok K (cells ?ob) s (top_chunk ?ob) (tos ?ob) cs" using Cons.prems x by simp
    then obtain tc' t where "deallocate_as_possible K ?ob = Some (?ob\<lparr>top_chunk := tc', tos := t\<rparr>)" "t \<le> c"
        "stack_ok K (cells ob) s tc' t (dropWhile dead cs)"
      using Cons.IH [of ?ob] by auto
    moreover have "?ob\<lparr>top_chunk := tc', tos := t\<rparr> = ob\<lparr>top_chunk := tc', tos := t\<rparr>" by simp
    ultimately show ?thesis using x None tc(4)
      by (intro exI [of _ tc'] exI [of _ t]) (simp add: dead_def [of "(c, n, None)"])
  qed
qed

definition live_calls :: "chunk list \<Rightarrow> (64 word \<times> nat) list" where
  "live_calls cs = concat (map (\<lambda>(c, n, l). case l of None \<Rightarrow> [] | Some d \<Rightarrow> [(d, c + 32)]) cs)"

lemma live_calls_dropWhile [simp]: "live_calls (dropWhile dead cs) = live_calls cs"
  by (induction cs) (auto simp: live_calls_def dead_def)

lemma set_live_calls: "set (live_calls cs) = {(d, c + 32) | c n d. (c, n, Some d) \<in> set cs}"
  by (induction cs) (force simp: live_calls_def split: option.splits)+

lemma hd_dropWhile_dead: "dropWhile dead cs \<noteq> [] \<Longrightarrow> \<not> dead (hd (dropWhile dead cs))"
  using hd_dropWhile by blast

lemma kill_set: "(c', n, Some d) \<in> set (kill c cs) \<longleftrightarrow> (c', n, Some d) \<in> set cs \<and> c' \<noteq> c"
  by (force simp: kill_def split: if_splits)

lemma dropWhile_dead_set: "(c, n, Some d) \<in> set (dropWhile dead cs) \<longleftrightarrow> (c, n, Some d) \<in> set cs"
  by (induction cs) (auto simp: dead_def)

text \<open>The two ways to destroy an object have the same effect on the stack.\<close>

lemma dealloc_live:
  assumes I: "obs_inv K ob cs" and c: "(c, n, Some d) \<in> set cs"
  shows "\<exists>ob'. dealloc K (c + 32) ob = Some ob' \<and> obs_inv K ob' (dropWhile dead (kill c cs)) \<and>
    calls ob' = calls ob @ [(d, c + 32)] \<and> cells ob' = (cells ob)(c + 8 := free_marker_dtor_xor K) \<and>
    mem_start ob' = mem_start ob \<and> mem_capacity ob' = mem_capacity ob \<and> (is_top (c + 32) ob \<or> top_chunk ob' = top_chunk ob)"
proof -
  have st: "stack_ok K (cells ob) (mem_start ob) (top_chunk ob) (tos ob) cs" and t: "tos ob \<le> end_of_mem ob"
    and w: "end_of_mem ob < 2 ^ 64" "0 < mem_start ob" "cs \<noteq> [] \<longrightarrow> \<not> dead (hd cs)"
    using I unfolding obs_inv_def by blast+
  let ?ob = "ob\<lparr>cells := (cells ob)(c + 8 := free_marker_dtor_xor K)\<rparr>"
  have s: "stack_ok K (cells ?ob) (mem_start ob) (top_chunk ?ob) (tos ?ob) (kill c cs)" using stack_mark [OF st c] by simp
  obtain tc t' where r: "deallocate_as_possible K ?ob = Some (?ob\<lparr>top_chunk := tc, tos := t'\<rparr>)" "t' \<le> tos ob"
      "stack_ok K (cells ?ob) (mem_start ob) tc t' (dropWhile dead (kill c cs))"
    using rewind [OF s] by auto
  have hc: "to_chunk_header (c + 32) = c" by (simp add: to_chunk_header_def)
  show ?thesis
  proof (cases "is_top (c + 32) ob")
    case True
    let ?r = "call_dtor d (c + 32) (?ob\<lparr>top_chunk := tc, tos := t'\<rparr>)"
    have "dealloc K (c + 32) ob = Some ?r"
      using True mark_ok [OF I c] r(1) hc by (simp add: dealloc_def pop_def)
    moreover have "obs_inv K ?r (dropWhile dead (kill c cs))" unfolding obs_inv_def
      using r(2,3) t w hd_dropWhile_dead by (simp add: call_dtor_def end_of_mem_def del: fun_upd_apply)
    ultimately show ?thesis using True by (simp add: call_dtor_def)
  next
    case False
    let ?r = "call_dtor d (c + 32) ?ob"
    have e: "dealloc K (c + 32) ob = Some ?r"
      using False mark_ok [OF I c] hc by (simp add: dealloc_def destruct_def)
    obtain x xs where cs: "cs = x # xs" using c by (cases cs) auto
    obtain a k m where x: "x = (a, k, m)" by (cases x)
    have "a \<noteq> c" using False st cs x hc by (auto simp: is_top_def)
    then have "\<not> dead (hd (kill c cs))" "kill c cs \<noteq> []" using w(3) cs x by (simp_all add: kill_def dead_def)
    then have "dropWhile dead (kill c cs) = kill c cs" "kill c cs \<noteq> [] \<longrightarrow> \<not> dead (hd (kill c cs))"
      by (cases "kill c cs"; simp)+
    moreover have "obs_inv K ?r (kill c cs)" unfolding obs_inv_def
      using s t w(1,2) \<open>\<not> dead (hd (kill c cs))\<close> by (simp add: call_dtor_def end_of_mem_def del: fun_upd_apply)
    ultimately show ?thesis using e by (simp add: call_dtor_def)
  qed
qed

lemma live_calls_kill_top:
  assumes "stack_ok K h s tc t ((c, n, Some d) # cs)"
  shows "live_calls (kill c ((c, n, Some d) # cs)) = live_calls cs" and "kill c cs = cs"
proof -
  have st: "stack_ok K h s (unat (h c)) c cs" using assms by simp
  have "(case y of (b, i, f) \<Rightarrow> (b, i, if b = c then None else f)) = y" if "y \<in> set cs" for y
  proof -
    obtain b i f where y: "y = (b, i, f)" by (cases y)
    then show ?thesis using stack_bounds [OF st, of b i f] that by simp
  qed
  then show k: "kill c cs = cs" unfolding kill_def by (simp add: map_idI)
  then show "live_calls (kill c ((c, n, Some d) # cs)) = live_calls cs"
    unfolding kill_def by (simp add: live_calls_def)
qed

text \<open>Everything is destroyed, from the top down, and each object once.\<close>

lemma dealloc_all_ok:
  "obs_inv K ob cs \<Longrightarrow> \<exists>ob'. dealloc_all K ob = Some ob' \<and> obs_inv K ob' [] \<and> calls ob' = calls ob @ live_calls cs \<and>
    mem_start ob' = mem_start ob \<and> mem_capacity ob' = mem_capacity ob"
proof (induction "length cs" arbitrary: ob cs rule: less_induct)
  case less
  have st: "stack_ok K (cells ob) (mem_start ob) (top_chunk ob) (tos ob) cs" and top: "cs \<noteq> [] \<longrightarrow> \<not> dead (hd cs)"
    using less.prems unfolding obs_inv_def by blast+
  show ?case
  proof (cases cs)
    case Nil
    then have "dealloc_all K ob = Some ob" using st by (subst dealloc_all.simps) simp
    then show ?thesis using less.prems Nil by (simp add: live_calls_def)
  next
    case (Cons x xs)
    obtain c n l where x: "x = (c, n, l)" by (cases x)
    obtain d where l: "l = Some d" using top Cons x by (cases l) (auto simp: dead_def)
    have tc: "top_chunk ob = c" "0 < c" using st Cons x by auto
    have m: "(c, n, Some d) \<in> set cs" using Cons x l by simp
    have top': "is_top (c + 32) ob" using tc by (simp add: is_top_def to_chunk_header_def)
    obtain ob1 where o: "dealloc K (c + 32) ob = Some ob1" "obs_inv K ob1 (dropWhile dead (kill c cs))"
        "calls ob1 = calls ob @ [(d, c + 32)]" "mem_start ob1 = mem_start ob" "mem_capacity ob1 = mem_capacity ob"
      using dealloc_live [OF less.prems m] by blast
    have p: "pop K (top_chunk ob) (to_object (top_chunk ob)) ob = Some ob1"
      using o(1) top' tc by (simp add: dealloc_def to_object_def to_chunk_header_def)
    have st': "stack_ok K (cells ob) (mem_start ob) (top_chunk ob) (tos ob) ((c, n, Some d) # xs)" using st Cons x l by simp
    have k: "kill c cs = (c, n, None) # xs" using live_calls_kill_top(2) [OF st'] Cons x by (simp add: kill_def)
    then have dw: "dropWhile dead (kill c cs) = dropWhile dead xs" by (simp add: dead_def)
    have "length (dropWhile dead xs) < length cs" using Cons length_dropWhile_le [of dead xs] by simp
    then obtain ob' where ob': "dealloc_all K ob1 = Some ob'" "obs_inv K ob' []"
        "calls ob' = calls ob1 @ live_calls (dropWhile dead xs)" "mem_start ob' = mem_start ob1" "mem_capacity ob' = mem_capacity ob1"
      using less.hyps [OF _ o(2) [unfolded dw]] by blast
    have "dealloc_all K ob = Some ob'" using p ob'(1) tc by (subst dealloc_all.simps) simp
    moreover have "live_calls cs = (d, c + 32) # live_calls xs" using Cons x l by (simp add: live_calls_def)
    ultimately show ?thesis using ob' o(3-5) by simp
  qed
qed

section \<open>Allocation\<close>

lemma offset_aligned: "0 < a \<Longrightarrow> a dvd p + offset_to_alignment p a"
proof -
  assume a: "0 < a"
  show ?thesis
  proof (cases "p mod a = 0")
    case False
    have "p mod a < a" using a by simp
    then have "p + (a - p mod a) = p div a * a + a" using div_mult_mod_eq [of p a] by linarith
    then show ?thesis using False by (simp add: offset_to_alignment_def)
  qed (auto simp: offset_to_alignment_def)
qed

lemma alignment_8: "align = 2 ^ k \<Longrightarrow> 8 dvd alignment align \<and> 0 < alignment align"
proof -
  assume a: "align = 2 ^ k"
  show ?thesis
  proof (cases "8 < align")
    case True
    then have "(2 :: nat) ^ 3 < 2 ^ k" using a by simp
    then have "3 < k" by (rule power_less_imp_less_exp [rotated]) simp
    then have "(2 :: nat) ^ 3 dvd 2 ^ k" by (intro le_imp_power_dvd) simp
    then show ?thesis using a True by (simp add: alignment_def)
  qed (simp add: alignment_def)
qed

lemma obs_tos:
  assumes "obs_inv K ob cs"
  shows "mem_start ob \<le> tos ob"
proof -
  have st: "stack_ok K (cells ob) (mem_start ob) (top_chunk ob) (tos ob) cs" using assms unfolding obs_inv_def by blast
  show ?thesis
  proof (cases cs)
    case (Cons x xs)
    obtain c n l where "x = (c, n, l)" by (cases x)
    then show ?thesis using stack_bounds [OF st, of c n l] Cons by simp
  qed (use st in simp)
qed

lemma allocate_ok:
  assumes I: "obs_inv K ob cs" and a: "8 dvd a" "0 < a" and d: "d \<noteq> free_marker_dtor K"
    and c: "c = tos ob + offset_to_alignment (tos ob) a" and e: "c + 32 + n \<le> end_of_mem ob"
  shows "obs_inv K (allocate K a n (xor_ptr K d) ob) ((c, n, Some d) # cs)"
    and "top_object (allocate K a n (xor_ptr K d) ob) = c + 32"
    and "x < tos ob \<Longrightarrow> cells (allocate K a n (xor_ptr K d) ob) x = cells ob x"
proof -
  have st: "stack_ok K (cells ob) (mem_start ob) (top_chunk ob) (tos ob) cs" and t: "tos ob \<le> end_of_mem ob"
    and w: "end_of_mem ob < 2 ^ 64" "0 < mem_start ob"
    using I unfolding obs_inv_def by blast+
  let ?ob = "allocate K a n (xor_ptr K d) ob"
  have al: "cells ?ob = (cells ob)(c := of_nat (top_chunk ob), c + 8 := xor_ptr K d,
      c + 16 := make_checksum K (of_nat (top_chunk ob)) (xor_ptr K d))"
    "top_chunk ?ob = c" "tos ?ob = c + (32 + n)" "mem_start ?ob = mem_start ob" "mem_capacity ?ob = mem_capacity ob"
    by (simp_all add: allocate_def Let_def c)
  have ct: "tos ob \<le> c" using c by simp
  have keep: "cells ?ob x = cells ob x" if "x < tos ob" for x using that ct unfolding al by simp
  then show "x < tos ob \<Longrightarrow> cells ?ob x = cells ob x" .
  show "top_object ?ob = c + 32" by (simp add: top_object_def al)
  have "top_chunk ob < 2 ^ 64"
  proof (cases cs)
    case Nil
    then show ?thesis using st by simp
  next
    case (Cons y ys)
    obtain b k m where "y = (b, k, m)" by (cases y)
    then show ?thesis using st Cons t w(1) by auto
  qed
  then have u: "unat (of_nat (top_chunk ob) :: 64 word) = top_chunk ob" by (simp add: unat_of_nat)
  have "stack_ok K (cells ?ob) (mem_start ob) (top_chunk ob) (tos ob) cs"
    by (rule stack_cong [OF st]) (use keep stack_bounds [OF st] in fastforce)
  then have "stack_ok K (cells ?ob) (mem_start ob) (top_chunk ob) c cs" by (rule stack_limit [OF _ ct])
  moreover have "8 dvd c" using dvd_trans [OF a(1)] offset_aligned [OF a(2)] c by blast
  moreover have "0 < c" using obs_tos [OF I] w(2) ct by simp
  moreover have "cells ?ob c = of_nat (top_chunk ob)" "header_ok K (cells ?ob) c (Some d)" using d by (simp_all add: al(1))
  ultimately have "stack_ok K (cells ?ob) (mem_start ?ob) (top_chunk ?ob) (tos ?ob) ((c, n, Some d) # cs)"
    using u by (simp add: al(2-5) del: header_ok.simps)
  then show "obs_inv K ?ob ((c, n, Some d) # cs)"
    unfolding obs_inv_def using w e by (simp add: al(2-5) end_of_mem_def dead_def)
qed

text \<open>A client, or the constructor, may write the words of an object in use.\<close>

lemma client_write:
  assumes I: "obs_inv K ob cs" and c: "(c, n, Some d) \<in> set cs" and h: "\<And>a. a < c + 32 \<or> c + 32 + n < a + 8 \<Longrightarrow> h a = cells ob a"
  shows "obs_inv K (ob\<lparr>cells := h\<rparr>) cs"
proof -
  have st: "stack_ok K (cells ob) (mem_start ob) (top_chunk ob) (tos ob) cs" using I unfolding obs_inv_def by blast
  have "stack_ok K h (mem_start ob) (top_chunk ob) (tos ob) cs"
  proof (rule stack_cong [OF st])
    fix b k l a assume b: "(b, k, l) \<in> set cs" "b \<le> a" "a < b + 32"
    have "a < c + 32 \<or> c + 32 + n \<le> a" using stack_apart [OF st b(1) c] b(2,3) by auto
    then show "h a = cells ob a" using h [of a] by linarith
  qed
  then show ?thesis using I unfolding obs_inv_def by (simp add: end_of_mem_def)
qed

definition has_room :: "nat \<Rightarrow> nat \<Rightarrow> obstack \<Rightarrow> bool" where
  "has_room align n ob \<longleftrightarrow> tos ob + offset_to_alignment (tos ob) (alignment align) + 32 + n < 2 ^ 64"

lemma available_iff:
  assumes "has_room align n ob"
  shows "mem_available align n ob \<longleftrightarrow> tos ob + offset_to_alignment (tos ob) (alignment align) + 32 + n < end_of_mem ob"
  using assms unfolding mem_available_def has_room_def by (simp add: mod_less)

lemma alloc_ok:
  assumes I: "obs_inv K ob cs" and a: "align = 2 ^ k" and d: "d \<noteq> free_marker_dtor K" and r: "has_room align n ob"
    and p: "alloc K align n d init ob = (p, ob')" "p \<noteq> 0"
  shows "\<exists>c. p = c + 32 \<and> alignment align dvd c \<and> obs_inv K ob' ((c, n, Some d) # cs) \<and> tos ob \<le> c \<and>
    (\<forall>x < tos ob. cells ob' x = cells ob x) \<and> mem_start ob' = mem_start ob \<and>
    (\<forall>i. i + 8 \<le> n \<longrightarrow> cells ob' (p + i) = init i) \<and> calls ob' = calls ob"
proof -
  note al = alignment_8 [OF a]
  define c where "c = tos ob + offset_to_alignment (tos ob) (alignment align)"
  have av: "mem_available align n ob" using p by (auto simp: alloc_def split: if_splits)
  then have e: "c + 32 + n \<le> end_of_mem ob" using available_iff [OF r] by (simp add: c_def)
  let ?ob = "allocate K (alignment align) n (xor_ptr K d) ob"
  note A = allocate_ok [OF I conjunct1 [OF al] conjunct2 [OF al] d c_def e]
  have "alloc K align n d init ob = (c + 32, construct_at (c + 32) n init ?ob)"
    using av A(2) by (simp add: alloc_def push_def Let_def)
  then have o: "p = c + 32" "ob' = construct_at (c + 32) n init ?ob" using p(1) by simp_all
  have "obs_inv K ob' ((c, n, Some d) # cs)" unfolding o(2) construct_at_def
    by (rule client_write [OF A(1), of c n d]) auto
  moreover have "alignment align dvd c" unfolding c_def by (rule offset_aligned) (use al in simp)
  moreover have "cells ob' x = cells ob x" if "x < tos ob" for x
    using A(3) [OF that] that c_def by (simp add: o(2) construct_at_def)
  moreover have "tos ob \<le> c" by (simp add: c_def)
  ultimately show ?thesis using o by (simp add: construct_at_def allocate_def Let_def)
qed

lemma alloc_array_ok:
  assumes I: "obs_inv K ob cs" and a: "align = 2 ^ k" and d: "array_of_primitives_dtor K \<noteq> free_marker_dtor K"
    and r: "has_room align (elt * num) ob"
    and p: "alloc_array K align elt num ob = (p, ob')" "p \<noteq> 0"
  shows "\<exists>c. p = c + 32 \<and> alignment align dvd c \<and> obs_inv K ob' ((c, elt * num, Some (array_of_primitives_dtor K)) # cs) \<and>
    tos ob \<le> c \<and> (\<forall>x < tos ob. cells ob' x = cells ob x) \<and> mem_start ob' = mem_start ob \<and> calls ob' = calls ob"
proof -
  note al = alignment_8 [OF a]
  have b: "elt * num mod 2 ^ 64 = elt * num" using r unfolding has_room_def by (intro mod_less) linarith
  define c where "c = tos ob + offset_to_alignment (tos ob) (alignment align)"
  have av: "mem_available align (elt * num) ob" using p b by (auto simp: alloc_array_def Let_def split: if_splits)
  then have e: "c + 32 + elt * num \<le> end_of_mem ob" using available_iff [OF r] by (simp add: c_def)
  let ?ob = "allocate K (alignment align) (elt * num) (xor_ptr K (array_of_primitives_dtor K)) ob"
  note A = allocate_ok [OF I conjunct1 [OF al] conjunct2 [OF al] d c_def e]
  have o: "p = c + 32" "ob' = ?ob"
    using p av A(2) b by (simp_all add: alloc_array_def Let_def array_of_primitives_dtor_xor_def)
  moreover have "alignment align dvd c" unfolding c_def by (rule offset_aligned) (use al in simp)
  moreover have "tos ob \<le> c" by (simp add: c_def)
  ultimately show ?thesis using A by (simp add: allocate_def Let_def)
qed

section \<open>Programs\<close>

text \<open>
  What a client may do: make an arena, allocate objects and arrays of any size and alignment, destroy them
  in any order, write to them, destroy all. The map gives size and destructor of the objects in use.
\<close>

inductive obs_reach :: "cookies \<Rightarrow> obstack \<Rightarrow> (nat \<rightharpoonup> nat \<times> 64 word) \<Rightarrow> bool" for K where
  heap: "basic_obstack capacity mem h = Some ob \<Longrightarrow> end_of_mem ob < 2 ^ 64 \<Longrightarrow> obs_reach K ob Map.empty"
| buffer: "basic_obstack_on buffer n h = Some ob \<Longrightarrow> end_of_mem ob < 2 ^ 64 \<Longrightarrow> obs_reach K ob Map.empty"
| object: "obs_reach K ob lv \<Longrightarrow> align = 2 ^ k \<Longrightarrow> dtor \<noteq> free_marker_dtor K \<Longrightarrow> has_room align n ob \<Longrightarrow>
     alloc K align n dtor init ob = (p, ob') \<Longrightarrow> p \<noteq> 0 \<Longrightarrow> obs_reach K ob' (lv(p \<mapsto> (n, dtor)))"
| array: "obs_reach K ob lv \<Longrightarrow> align = 2 ^ k \<Longrightarrow> has_room align (elt * num) ob \<Longrightarrow>
     alloc_array K align elt num ob = (p, ob') \<Longrightarrow> p \<noteq> 0 \<Longrightarrow> obs_reach K ob' (lv(p \<mapsto> (elt * num, array_of_primitives_dtor K)))"
| destroy: "obs_reach K ob lv \<Longrightarrow> lv p = Some (n, d) \<Longrightarrow> dealloc K p ob = Some ob' \<Longrightarrow> obs_reach K ob' (lv(p := None))"
| store: "obs_reach K ob lv \<Longrightarrow> lv p = Some (n, d) \<Longrightarrow> p \<le> a \<Longrightarrow> a + 8 \<le> p + n \<Longrightarrow>
     obs_reach K (ob\<lparr>cells := (cells ob)(a := v)\<rparr>) lv"
| clear: "obs_reach K ob lv \<Longrightarrow> dealloc_all K ob = Some ob' \<Longrightarrow> obs_reach K ob' Map.empty"

definition in_use :: "chunk list \<Rightarrow> (nat \<rightharpoonup> nat \<times> 64 word) \<Rightarrow> bool" where
  "in_use cs lv \<longleftrightarrow> (\<forall>p n d. lv p = Some (n, d) \<longleftrightarrow> (\<exists>c. p = c + 32 \<and> (c, n, Some d) \<in> set cs))"

lemma in_useD: "in_use cs lv \<Longrightarrow> lv p = Some (n, d) \<Longrightarrow> \<exists>c. p = c + 32 \<and> (c, n, Some d) \<in> set cs"
  unfolding in_use_def by blast

lemma in_use_new:
  assumes u: "in_use cs lv" and I: "obs_inv K ob cs" and c: "tos ob \<le> c"
  shows "in_use ((c, n, Some d) # cs) (lv(c + 32 \<mapsto> (n, d)))" and "lv (c + 32) = None"
proof -
  have st: "stack_ok K (cells ob) (mem_start ob) (top_chunk ob) (tos ob) cs" using I unfolding obs_inv_def by blast
  have no: "(c, k, l) \<notin> set cs" for k l using stack_bounds [OF st, of c k l] c by fastforce
  then show "lv (c + 32) = None" using in_useD [OF u] by (cases "lv (c + 32)") fastforce+
  show "in_use ((c, n, Some d) # cs) (lv(c + 32 \<mapsto> (n, d)))"
    unfolding in_use_def
  proof (intro allI)
    fix p m e
    show "(lv(c + 32 \<mapsto> (n, d))) p = Some (m, e) \<longleftrightarrow> (\<exists>c'. p = c' + 32 \<and> (c', m, Some e) \<in> set ((c, n, Some d) # cs))"
      using u no unfolding in_use_def by (cases "p = c + 32") auto
  qed
qed

lemma in_use_destroyed:
  assumes u: "in_use cs lv"
  shows "in_use (dropWhile dead (kill c cs)) (lv(c + 32 := None))"
  unfolding in_use_def dropWhile_dead_set kill_set
proof (intro allI)
  fix p n d
  show "(lv(c + 32 := None)) p = Some (n, d) \<longleftrightarrow> (\<exists>c'. p = c' + 32 \<and> (c', n, Some d) \<in> set cs \<and> c' \<noteq> c)"
    using u unfolding in_use_def by (cases "p = c + 32") auto
qed

lemma obs_reach_inv:
  assumes "obs_reach K ob lv" and d: "array_of_primitives_dtor K \<noteq> free_marker_dtor K"
  shows "\<exists>cs. obs_inv K ob cs \<and> in_use cs lv"
  using assms(1)
proof (induction rule: obs_reach.induct)
  case (heap capacity mem h ob)
  then have "obs_inv K ob []" by (auto simp: basic_obstack_def obs_inv_def end_of_mem_def split: if_splits)
  then show ?case by (intro exI [of _ "[]"]) (simp add: in_use_def)
next
  case (buffer b n h ob)
  then have "obs_inv K ob []" by (auto simp: basic_obstack_on_def obs_inv_def end_of_mem_def split: if_splits)
  then show ?case by (intro exI [of _ "[]"]) (simp add: in_use_def)
next
  case (object ob lv align k dtor n init p ob')
  then obtain cs where I: "obs_inv K ob cs" and u: "in_use cs lv" by blast
  obtain c where "p = c + 32" "obs_inv K ob' ((c, n, Some dtor) # cs)" "tos ob \<le> c"
    using alloc_ok [OF I object(2-6)] by blast
  then show ?case using in_use_new(1) [OF u I] by blast
next
  case (array ob lv align k elt num p ob')
  then obtain cs where I: "obs_inv K ob cs" and u: "in_use cs lv" by blast
  obtain c where "p = c + 32" "obs_inv K ob' ((c, elt * num, Some (array_of_primitives_dtor K)) # cs)" "tos ob \<le> c"
    using alloc_array_ok [OF I array(2) d array(3-5)] by blast
  then show ?case using in_use_new(1) [OF u I] by blast
next
  case (destroy ob lv p n e ob')
  then obtain cs where I: "obs_inv K ob cs" and u: "in_use cs lv" by blast
  obtain c where c: "p = c + 32" "(c, n, Some e) \<in> set cs" using in_useD [OF u destroy(2)] by blast
  have "obs_inv K ob' (dropWhile dead (kill c cs))" using dealloc_live [OF I c(2)] destroy(3) c(1) by auto
  then show ?case using in_use_destroyed [OF u] c(1) by blast
next
  case (store ob lv p n e a v)
  then obtain cs where I: "obs_inv K ob cs" and u: "in_use cs lv" by blast
  obtain c where c: "p = c + 32" "(c, n, Some e) \<in> set cs" using in_useD [OF u store(2)] by blast
  have "obs_inv K (ob\<lparr>cells := (cells ob)(a := v)\<rparr>) cs"
    by (rule client_write [OF I c(2)]) (use store(3,4) c(1) in auto)
  then show ?case using u by blast
next
  case (clear ob lv ob')
  then obtain cs where I: "obs_inv K ob cs" by blast
  have "obs_inv K ob' []" using dealloc_all_ok [OF I] clear(2) by auto
  then show ?case by (intro exI [of _ "[]"]) (simp add: in_use_def)
qed


lemma live_calls_sorted: "stack_ok K h s tc t cs \<Longrightarrow> sorted_wrt (\<lambda>x y. snd y < snd x) (live_calls cs)"
proof (induction cs arbitrary: tc t)
  case (Cons x cs)
  obtain c n l where x: "x = (c, n, l)" by (cases x)
  have st: "stack_ok K h s (unat (h c)) c cs" using Cons.prems x by simp
  have low: "snd y < c + 32" if "y \<in> set (live_calls cs)" for y
    using that stack_bounds [OF st] unfolding set_live_calls by fastforce
  have "live_calls (x # cs) = (case l of None \<Rightarrow> [] | Some d \<Rightarrow> [(d, c + 32)]) @ live_calls cs"
    by (simp add: live_calls_def x)
  then show ?case using Cons.IH [OF st] low by (cases l) auto
qed (simp add: live_calls_def)

text \<open>
  C20. Destroying all ends, with an empty stack; it calls the destructor of every object in use with its
  address, once, and of no other.
\<close>

theorem obstack_dealloc_all:
  assumes r: "obs_reach K ob lv" and d: "array_of_primitives_dtor K \<noteq> free_marker_dtor K"
  shows "\<exists>ob' ds. dealloc_all K ob = Some ob' \<and> top_chunk ob' = 0 \<and> calls ob' = calls ob @ ds \<and>
    sorted_wrt (\<lambda>x y. snd y < snd x) ds \<and> set ds = {(e, p) | e p n. lv p = Some (n, e)}"
proof -
  obtain cs where I: "obs_inv K ob cs" and u: "in_use cs lv" using obs_reach_inv [OF r d] by blast
  have st: "stack_ok K (cells ob) (mem_start ob) (top_chunk ob) (tos ob) cs" using I unfolding obs_inv_def by blast
  obtain ob' where ob': "dealloc_all K ob = Some ob'" "obs_inv K ob' []" "calls ob' = calls ob @ live_calls cs"
    using dealloc_all_ok [OF I] by blast
  have "sorted_wrt (\<lambda>x y. snd y < snd x) (live_calls cs)" by (rule live_calls_sorted [OF st])
  moreover have "set (live_calls cs) = {(e, p) | e p n. lv p = Some (n, e)}"
    unfolding set_live_calls using u unfolding in_use_def by blast
  ultimately show ?thesis using ob' by (auto simp: obs_inv_def)
qed

lemma pow2_dvd_32: "(2 :: nat) ^ k \<le> 32 \<Longrightarrow> 2 ^ k dvd (32 :: nat)"
proof -
  assume "(2 :: nat) ^ k \<le> 32"
  then have "(2 :: nat) ^ k \<le> 2 ^ 5" by simp
  then have "k \<le> 5" by (rule power_le_imp_le_exp [rotated]) simp
  then have "(2 :: nat) ^ k dvd 2 ^ 5" by (rule le_imp_power_dvd)
  then show ?thesis by simp
qed

lemma object_aligned:
  assumes a: "align = 2 ^ k" and c: "alignment align dvd c"
  shows "(c + 32) mod align = (if align \<le> 32 then 0 else 32)"
proof (cases "align \<le> 32")
  case True
  have "align dvd 32" using True a pow2_dvd_32 by simp
  moreover have "align dvd c"
  proof (cases "8 < align")
    case True
    then show ?thesis using c by (simp add: alignment_def)
  next
    case False
    then have "(2 :: nat) ^ k \<le> 2 ^ 3" using a by simp
    then have "k \<le> 3" by (rule power_le_imp_le_exp [rotated]) simp
    then have "align dvd 2 ^ 3" using a le_imp_power_dvd by blast
    moreover have "2 ^ 3 dvd c" using c False by (simp add: alignment_def)
    ultimately show ?thesis by (rule dvd_trans)
  qed
  ultimately show ?thesis using True by simp
next
  case False
  then have "align dvd c" using c by (simp add: alignment_def)
  then show ?thesis using False by (auto elim!: dvdE)
qed

text \<open>
  Allocation succeeds exactly if header and object, behind the padding, end before the end of the
  arena. The object is new, holds what its constructor wrote, and the contents of the others stay. It is
  aligned for its type up to an alignment of 32; for a larger one it is 32 bytes off.
\<close>

lemma obstack_alloc:
  assumes r: "obs_reach K ob lv" and d: "array_of_primitives_dtor K \<noteq> free_marker_dtor K"
    and a: "align = 2 ^ k" and e: "dtor \<noteq> free_marker_dtor K" and room: "has_room align n ob"
    and p: "alloc K align n dtor init ob = (p, ob')"
  shows "if tos ob + offset_to_alignment (tos ob) (alignment align) + 32 + n < end_of_mem ob
    then lv p = None \<and> p \<noteq> 0 \<and> p mod align = (if align \<le> 32 then 0 else 32) \<and>
      (\<forall>i. i + 8 \<le> n \<longrightarrow> cells ob' (p + i) = init i) \<and>
      (\<forall>q m f b. lv q = Some (m, f) \<longrightarrow> q \<le> b \<longrightarrow> b < q + m \<longrightarrow> cells ob' b = cells ob b)
    else p = 0 \<and> ob' = ob"
proof (cases "mem_available align n ob")
  case True
  obtain cs where I: "obs_inv K ob cs" and u: "in_use cs lv" using obs_reach_inv [OF r d] by blast
  have st: "stack_ok K (cells ob) (mem_start ob) (top_chunk ob) (tos ob) cs" using I unfolding obs_inv_def by blast
  have p0: "p \<noteq> 0" using p True by (auto simp: alloc_def push_def Let_def top_object_def)
  obtain c where c: "p = c + 32" "alignment align dvd c" "tos ob \<le> c" "\<forall>x < tos ob. cells ob' x = cells ob x"
      "\<forall>i. i + 8 \<le> n \<longrightarrow> cells ob' (p + i) = init i"
    using alloc_ok [OF I a e room p p0] by blast
  have "cells ob' b = cells ob b" if q: "lv q = Some (m, f)" "q \<le> b" "b < q + m" for q m f b
  proof -
    obtain x where "q = x + 32" "(x, m, Some f) \<in> set cs" using in_useD [OF u q(1)] by blast
    then have "b < tos ob" using stack_bounds [OF st, of x m "Some f"] q(3) by simp
    then show ?thesis using c(4) by blast
  qed
  moreover have "lv p = None" using in_use_new(2) [OF u I c(3)] c(1) by simp
  ultimately show ?thesis using True available_iff [OF room] p0 object_aligned [OF a c(2)] c(1,5) by auto
next
  case False
  then show ?thesis using available_iff [OF room] p by (simp add: alloc_def)
qed

text \<open>
  Destroying an object below the top a second time, while its memory is still blocked, fails the
  assertion on its checksum.
\<close>

lemma obstack_double_free:
  assumes r: "obs_reach K ob lv" and d: "array_of_primitives_dtor K \<noteq> free_marker_dtor K"
    and p: "lv p = Some (n, e)" and below: "\<not> is_top p ob" and free: "dealloc K p ob = Some ob'"
  shows "dealloc K p ob' = None"
proof -
  obtain cs where I: "obs_inv K ob cs" and u: "in_use cs lv" using obs_reach_inv [OF r d] by blast
  have st: "stack_ok K (cells ob) (mem_start ob) (top_chunk ob) (tos ob) cs" and top: "cs \<noteq> [] \<longrightarrow> \<not> dead (hd cs)"
    using I unfolding obs_inv_def by blast+
  obtain c where c: "p = c + 32" "(c, n, Some e) \<in> set cs" using in_useD [OF u p] by blast
  have I': "obs_inv K ob' (dropWhile dead (kill c cs))" and same: "top_chunk ob' = top_chunk ob"
    using dealloc_live [OF I c(2)] free c(1) below by auto
  obtain x xs where cs: "cs = x # xs" using c by (cases cs) auto
  obtain a k m where x: "x = (a, k, m)" by (cases x)
  have "a \<noteq> c" using below st cs x c(1) by (auto simp: is_top_def to_chunk_header_def)
  then have "\<not> dead (hd (kill c cs))" "kill c cs \<noteq> []" using top cs x by (simp_all add: kill_def dead_def)
  then have "dropWhile dead (kill c cs) = kill c cs" by (cases "kill c cs") simp_all
  moreover have "(c, n, None) \<in> set (kill c cs)" using c(2) by (force simp: kill_def)
  ultimately have "mark_as_destructed K c ob' = None" using mark_dead [OF I'] by simp
  moreover have "\<not> is_top p ob'" using below same by (simp add: is_top_def)
  ultimately show ?thesis using c(1) by (simp add: dealloc_def destruct_def to_chunk_header_def)
qed

text \<open>
  The size of an array is computed modulo \<open>2^64\<close>: a request for \<open>2^61\<close> elements of eight bytes succeeds
  in an arena with room for a header, and the array has no byte.
\<close>

lemma obstack_array_wraps:
  assumes "has_room 8 0 ob" and "tos ob + offset_to_alignment (tos ob) 8 + 32 < end_of_mem ob"
  shows "\<exists>p ob'. alloc_array K 8 8 (2 ^ 61) ob = (p, ob') \<and> p \<noteq> 0 \<and> tos ob' = p"
proof -
  have "(8 * 2 ^ 61) mod 2 ^ 64 = (0 :: nat)" by simp
  moreover have "mem_available 8 0 ob" using available_iff [OF assms(1)] assms(2) by (simp add: alignment_def)
  ultimately show ?thesis by (simp add: alloc_array_def Let_def allocate_def top_object_def)
qed

definition example_cookies :: cookies where
  "example_cookies = \<lparr>checksum_cookie = 77, xor_cookie = 123, free_marker_dtor = 4096, array_of_primitives_dtor = 4112\<rparr>"

definition example_arena :: obstack where
  "example_arena = the (basic_obstack 160 16 (\<lambda>_. 0))"

lemma example_arena_fields:
  "top_chunk example_arena = 0" "tos example_arena = 16" "mem_start example_arena = 16" "mem_capacity example_arena = 160"
  by (simp_all add: example_arena_def basic_obstack_def to_alloc_capacity_def)

lemma example_reach: "obs_reach example_cookies example_arena Map.empty" and
  example_dtor: "array_of_primitives_dtor example_cookies \<noteq> free_marker_dtor example_cookies" and
  example_room: "has_room 8 16 example_arena" and example_room0: "has_room 8 0 example_arena"
proof -
  have "basic_obstack 160 16 (\<lambda>_. 0) = Some example_arena" by (simp add: example_arena_def basic_obstack_def)
  then show "obs_reach example_cookies example_arena Map.empty"
    by (rule obs_reach.heap) (simp add: example_arena_fields end_of_mem_def)
  show "array_of_primitives_dtor example_cookies \<noteq> free_marker_dtor example_cookies" by (simp add: example_cookies_def)
  show "has_room 8 16 example_arena" "has_room 8 0 example_arena"
    by (simp_all add: has_room_def example_arena_fields offset_to_alignment_def alignment_def)
qed

lemma alloc_example:
  assumes "tos ob = t" and "mem_start ob = 16" and "mem_capacity ob = 160" and "8 dvd t" and "t + 48 < 176"
  shows "fst (alloc example_cookies 8 16 d init ob) = t + 32" and "tos (snd (alloc example_cookies 8 16 d init ob)) = t + 48"
    and "top_chunk (snd (alloc example_cookies 8 16 d init ob)) = t"
    and "mem_start (snd (alloc example_cookies 8 16 d init ob)) = 16" and "mem_capacity (snd (alloc example_cookies 8 16 d init ob)) = 160"
proof -
  have "t mod 8 = 0" using assms(4) by auto
  then have o: "offset_to_alignment t (alignment 8) = 0" by (simp add: offset_to_alignment_def alignment_def)
  have "mem_available 8 16 ob" using assms(5) by (simp add: mem_available_def assms(1-3) o end_of_mem_def)
  then have "alloc example_cookies 8 16 d init ob = push example_cookies 8 16 d init ob" by (simp add: alloc_def)
  then show "fst (alloc example_cookies 8 16 d init ob) = t + 32" and "tos (snd (alloc example_cookies 8 16 d init ob)) = t + 48"
    and "top_chunk (snd (alloc example_cookies 8 16 d init ob)) = t"
    and "mem_start (snd (alloc example_cookies 8 16 d init ob)) = 16" and "mem_capacity (snd (alloc example_cookies 8 16 d init ob)) = 160"
    using assms o by (simp_all add: push_def Let_def allocate_def construct_at_def top_object_def)
qed

lemma example_step:
  assumes "obs_reach example_cookies ob lv" and "has_room 8 16 ob" and "d \<noteq> 4096" and "alloc example_cookies 8 16 d init ob = (p, ob')" and "p \<noteq> 0"
  shows "obs_reach example_cookies ob' (lv(p \<mapsto> (16, d)))"
proof (rule obs_reach.object [OF assms(1) _ _ assms(2,4,5)])
  show "(8 :: nat) = 2 ^ 3" by simp
  show "d \<noteq> free_marker_dtor example_cookies" using assms(3) by (simp add: example_cookies_def)
qed

definition one_object :: obstack where
  "one_object = snd (alloc example_cookies 8 16 5000 (\<lambda>_. 9) example_arena)"

lemma one_object: "alloc example_cookies 8 16 5000 (\<lambda>_. 9) example_arena = (48, one_object)"
  using alloc_example(1) [OF example_arena_fields(2-4), of 5000 "\<lambda>_. 9"] by (simp add: one_object_def prod_eq_iff)

lemma obstack_alloc_witness: "one_object \<noteq> example_arena \<and> cells one_object 48 = 9"
proof -
  have e: "(8 :: nat) = 2 ^ 3" "(5000 :: 64 word) \<noteq> free_marker_dtor example_cookies" by (simp_all add: example_cookies_def)
  have "if (16 :: nat) + 0 + 32 + 16 < 176
    then Map.empty (48 :: nat) = None \<and> (48 :: nat) \<noteq> 0 \<and> (48 :: nat) mod 8 = (if 8 \<le> (32 :: nat) then 0 else 32) \<and>
      (\<forall>i. i + 8 \<le> 16 \<longrightarrow> cells one_object (48 + i) = 9) \<and>
      (\<forall>q m (f :: 64 word) b. Map.empty q = Some (m, f) \<longrightarrow> q \<le> b \<longrightarrow> b < q + m \<longrightarrow> cells one_object b = cells example_arena b)
    else (48 :: nat) = 0 \<and> one_object = example_arena"
    using obstack_alloc [OF example_reach example_dtor e example_room one_object]
    by (simp add: example_arena_fields end_of_mem_def offset_to_alignment_def alignment_def)
  then have "\<forall>i. i + 8 \<le> 16 \<longrightarrow> cells one_object (48 + i) = 9" by simp
  from this [rule_format, of 0] have "cells one_object 48 = 9" by simp
  moreover have "cells example_arena 48 = 0" by (simp add: example_arena_def basic_obstack_def)
  ultimately show ?thesis by auto
qed

lemma obstack_array_wraps_witness:
  "\<exists>p ob'. alloc_array example_cookies 8 8 (2 ^ 61) example_arena = (p, ob') \<and> p \<noteq> 0 \<and> tos ob' = p"
  by (rule obstack_array_wraps [OF example_room0])
    (simp add: example_arena_fields offset_to_alignment_def end_of_mem_def)

definition two_objects :: obstack where
  "two_objects = snd (alloc example_cookies 8 16 6000 (\<lambda>_. 1) one_object)"

definition two_live :: "nat \<rightharpoonup> nat \<times> 64 word" where
  "two_live = [48 \<mapsto> (16, 5000), 96 \<mapsto> (16, 6000)]"

lemma two_objects_reach: "obs_reach example_cookies two_objects two_live" and two_objects_top: "\<not> is_top 48 two_objects"
proof -
  have r1: "obs_reach example_cookies one_object [48 \<mapsto> (16, 5000)]"
    by (rule example_step [OF example_reach example_room _ one_object]) simp_all
  have t: "tos one_object = 64" "mem_start one_object = 16" "mem_capacity one_object = 160"
    using alloc_example [OF example_arena_fields(2-4), of 5000 "\<lambda>_. 9"] by (simp_all add: one_object_def)
  have 2: "alloc example_cookies 8 16 6000 (\<lambda>_. 1) one_object = (96, two_objects)" "top_chunk two_objects = 64"
    using alloc_example [OF t, of 6000 "\<lambda>_. 1"] by (simp_all add: two_objects_def prod_eq_iff)
  have "has_room 8 16 one_object" by (simp add: has_room_def t offset_to_alignment_def alignment_def)
  then show "obs_reach example_cookies two_objects two_live"
    unfolding two_live_def by (rule example_step [OF r1 _ _ 2(1)]) simp_all
  show "\<not> is_top 48 two_objects" using 2(2) by (simp add: is_top_def to_chunk_header_def)
qed


theorem obstack_dealloc_all_witness:
  "\<exists>ob' ds. dealloc_all example_cookies two_objects = Some ob' \<and> calls ob' = calls two_objects @ ds \<and> (5000, 48) \<in> set ds"
proof -
  obtain ob' ds where o: "dealloc_all example_cookies two_objects = Some ob'" "calls ob' = calls two_objects @ ds"
      "set ds = {(e, p) | e p n. two_live p = Some (n, e)}"
    using obstack_dealloc_all [OF two_objects_reach example_dtor] by (elim exE conjE) (rule that)
  have "two_live 48 = Some (16, 5000)" by (simp add: two_live_def)
  then have "(5000, 48) \<in> set ds" unfolding o(3) by blast
  then show ?thesis using o(1,2) by blast
qed

lemma obstack_double_free_witness:
  "\<exists>ob'. dealloc example_cookies 48 two_objects = Some ob' \<and> dealloc example_cookies 48 ob' = None"
proof -
  have p: "two_live 48 = Some (16, 5000)" by (simp add: two_live_def)
  obtain cs where I: "obs_inv example_cookies two_objects cs" and u: "in_use cs two_live"
    using obs_reach_inv [OF two_objects_reach example_dtor] by blast
  obtain c where c: "48 = c + 32" "(c, 16, Some 5000) \<in> set cs" using in_useD [OF u p] by blast
  obtain ob' where "dealloc example_cookies 48 two_objects = Some ob'" using dealloc_live [OF I c(2)] c(1) by auto
  then show ?thesis using obstack_double_free [OF two_objects_reach example_dtor p two_objects_top] by blast
qed

end
