(* ===== verification/ThreadAlloc.thy ===== *)
theory ThreadAlloc
  imports Prelude "HOL-Library.Word"
begin

text \<open>
  \<open>threadalloc/threadalloc.cpp\<close>, as it is built for POSIX: each thread has a directory of free blocks in
  five classes, cut from pages; a block that another thread frees waits in the pending chain of the
  directory it came from; when a thread ends its directory is cleaned up, and what is still in use is
  released by the last free. Chains and lists of pages are HOL lists of addresses; directories, pages and
  large blocks are objects at addresses, and an access to one that is not there is \<open>None\<close>. The sections
  between \<open>enter\<close> and \<open>leave\<close> of a directory are one step each. Counters of type \<open>int\<close> do not overflow.
\<close>

definition N_CHAINS :: nat where "N_CHAINS = 5"
definition MAX_BLOCK_SIZE :: nat where "MAX_BLOCK_SIZE = 256"
definition BLOCK_ALIGNMENT :: nat where "BLOCK_ALIGNMENT = 8"
definition PAGE_SIZE :: nat where "PAGE_SIZE = 4096"
definition PENDING_THRESHOLD :: int where "PENDING_THRESHOLD = 100"

definition block_chain :: "nat list" where
  "block_chain = [0, 0, 0, 0, 0, 1, 1, 1, 1, 2, 2, 2, 2, 3, 3, 3, 3,
                  4, 4, 4, 4, 4, 4, 4, 4, 4, 4, 4, 4, 4, 4, 4, 4]"

definition chain_block_size :: "nat list" where
  "chain_block_size = [32, 64, 96, 128, 256]"

text \<open>Sizes of a header, of the fields of a page in front of its data, of a page and of a directory.\<close>

definition HEADER :: nat where "HEADER = 16"
definition PAGE_HEADER :: nat where "PAGE_HEADER = 24"
definition page_bytes :: nat where "page_bytes = PAGE_HEADER + PAGE_SIZE"
definition dir_bytes :: nat where "dir_bytes = 112"

record alloc_page =
  pg_dir :: nat
  n_allocated_blocks :: nat

record thread_alloc_dir =
  chain :: "nat \<Rightarrow> nat list"
  pending_chain :: "nat list"
  pages :: "nat list"
  n_allocated_objects :: int
  n_pending_requests :: int
  terminated :: bool

record tstate =
  ctx :: "nat \<Rightarrow> nat"
  dirs :: "nat \<rightharpoonup> thread_alloc_dir"
  pgs :: "nat \<rightharpoonup> alloc_page"
  large :: "nat \<rightharpoonup> nat"
  hsize :: "nat \<Rightarrow> nat"
  hpage :: "nat \<Rightarrow> nat"
  bytes :: "nat \<Rightarrow> 8 word"

definition ta0 :: tstate where
  "ta0 = \<lparr>ctx = \<lambda>_. 0, dirs = Map.empty, pgs = Map.empty, large = Map.empty, hsize = \<lambda>_. 0, hpage = \<lambda>_. 0, bytes = \<lambda>_. 0\<rparr>"

definition new_dir :: thread_alloc_dir where
  "new_dir = \<lparr>chain = \<lambda>_. [], pending_chain = [], pages = [], n_allocated_objects = 0, n_pending_requests = 0,
     terminated = False\<rparr>"

section \<open>Blocks handed back to their directory\<close>

text \<open>The counters of the page and of the directory, when a block is handed back.\<close>

definition uncount :: "nat \<Rightarrow> nat \<Rightarrow> tstate \<Rightarrow> tstate option" where
  "uncount d b s = do {
     pg \<leftarrow> pgs s (hpage s b);
     D \<leftarrow> dirs s d;
     Some (s\<lparr>pgs := (pgs s)(hpage s b \<mapsto> pg\<lparr>n_allocated_blocks := dec64 (n_allocated_blocks pg)\<rparr>),
             dirs := (dirs s)(d \<mapsto> D\<lparr>n_allocated_objects := n_allocated_objects D - 1\<rparr>)\<rparr>)
   }"

definition chain_of :: "nat \<Rightarrow> nat" where
  "chain_of n = block_chain ! (n div BLOCK_ALIGNMENT)"

definition push_block :: "nat \<Rightarrow> nat \<Rightarrow> tstate \<Rightarrow> tstate option" where
  "push_block d b s = do {
     D \<leftarrow> dirs s d;
     let i = chain_of (hsize s b);
     Some (s\<lparr>dirs := (dirs s)(d \<mapsto> D\<lparr>chain := (chain D)(i := b # chain D i)\<rparr>)\<rparr>)
   }"

fun process_blocks :: "nat \<Rightarrow> nat list \<Rightarrow> tstate \<Rightarrow> tstate option" where
  "process_blocks d [] s = Some s"
| "process_blocks d (b # bs) s = do { s \<leftarrow> uncount d b s; s \<leftarrow> push_block d b s; process_blocks d bs s }"

definition process_pending_requests :: "nat \<Rightarrow> tstate \<Rightarrow> tstate option" where
  "process_pending_requests d s = do {
     D \<leftarrow> dirs s d;
     if PENDING_THRESHOLD < n_pending_requests D
     then process_blocks d (pending_chain D) (s\<lparr>dirs := (dirs s)(d \<mapsto> D\<lparr>pending_chain := [], n_pending_requests := 0\<rparr>)\<rparr>)
     else Some s
   }"

section \<open>Allocation\<close>

definition total_size :: "nat \<Rightarrow> nat" where
  "total_size n = ((n + (BLOCK_ALIGNMENT - 1)) mod 2 ^ 64 div BLOCK_ALIGNMENT * BLOCK_ALIGNMENT + HEADER) mod 2 ^ 64"

text \<open>The loop that links the blocks of a page: \<open>k\<close> steps from \<open>b\<close> on, and the last block.\<close>

fun link_blocks :: "nat \<Rightarrow> nat \<Rightarrow> nat \<Rightarrow> nat \<Rightarrow> tstate \<Rightarrow> nat list \<times> tstate" where
  "link_blocks pg block_size b 0 s = ([b], s\<lparr>hpage := (hpage s)(b := pg)\<rparr>)"
| "link_blocks pg block_size b (Suc k) s =
     (let (bs, s) = link_blocks pg block_size (b + block_size) k (s\<lparr>hpage := (hpage s)(b := pg)\<rparr>) in (b # bs, s))"

text \<open>\<open>p\<close> is the answer of \<open>malloc\<close>. The first block of the new page is for the caller.\<close>

definition new_page :: "nat \<Rightarrow> nat \<Rightarrow> nat \<Rightarrow> tstate \<Rightarrow> (nat \<times> tstate) option" where
  "new_page d i p s = do {
     D \<leftarrow> dirs s d;
     if p = 0 then None
     else do {
       let s = s\<lparr>pgs := (pgs s)(p \<mapsto> \<lparr>pg_dir = d, n_allocated_blocks = 0\<rparr>)\<rparr>;
       let block_size = chain_block_size ! i;
       let (bs, s) = link_blocks p block_size (p + PAGE_HEADER + block_size) (PAGE_SIZE div block_size - 2) s;
       let b = p + PAGE_HEADER;
       Some (b, s\<lparr>hpage := (hpage s)(b := p),
                  dirs := (dirs s)(d \<mapsto> D\<lparr>pages := p # pages D, chain := (chain D)(i := bs)\<rparr>)\<rparr>)
     }
   }"

definition take_block :: "nat \<Rightarrow> nat \<Rightarrow> nat \<Rightarrow> tstate \<Rightarrow> (nat \<times> tstate) option" where
  "take_block d i p s = do {
     D \<leftarrow> dirs s d;
     case chain D i of
       [] \<Rightarrow> new_page d i p s
     | b # bs \<Rightarrow> Some (b, s\<lparr>dirs := (dirs s)(d \<mapsto> D\<lparr>chain := (chain D)(i := bs)\<rparr>)\<rparr>)
   }"

definition count_block :: "nat \<Rightarrow> nat \<Rightarrow> tstate \<Rightarrow> tstate option" where
  "count_block d b s = do {
     pg \<leftarrow> pgs s (hpage s b);
     D \<leftarrow> dirs s d;
     Some (s\<lparr>pgs := (pgs s)(hpage s b \<mapsto> pg\<lparr>n_allocated_blocks := n_allocated_blocks pg + 1\<rparr>),
             dirs := (dirs s)(d \<mapsto> D\<lparr>n_allocated_objects := n_allocated_objects D + 1\<rparr>)\<rparr>)
   }"

text \<open>The directory of the calling thread; \<open>q\<close> is the answer of \<open>malloc\<close> for a new one.\<close>

definition own_dir :: "nat \<Rightarrow> nat \<Rightarrow> tstate \<Rightarrow> (nat \<times> tstate) option" where
  "own_dir t q s =
     (if ctx s t = 0 then
        (if q = 0 then None else Some (q, s\<lparr>dirs := (dirs s)(q \<mapsto> new_dir), ctx := (ctx s)(t := q)\<rparr>))
      else map_option (Pair (ctx s t)) (process_pending_requests (ctx s t) s))"

definition thread_alloc :: "nat \<Rightarrow> nat \<Rightarrow> nat \<Rightarrow> nat \<Rightarrow> tstate \<Rightarrow> (nat \<times> tstate) option" where
  "thread_alloc t n q p s =
     (let sz = total_size n in
      if MAX_BLOCK_SIZE < sz then
        (if p = 0 then None else Some (p + HEADER, s\<lparr>large := (large s)(p \<mapsto> sz), hsize := (hsize s)(p := sz)\<rparr>))
      else do {
        (d, s) \<leftarrow> own_dir t q s;
        (b, s) \<leftarrow> take_block d (chain_of sz) p s;
        s \<leftarrow> count_block d b s;
        Some (b + HEADER, s\<lparr>hsize := (hsize s)(b := sz)\<rparr>)
      })"

section \<open>Release\<close>

text \<open>A block of a directory whose thread has ended; the last one takes page and directory with it.\<close>

definition free_terminated :: "nat \<Rightarrow> nat \<Rightarrow> tstate \<Rightarrow> tstate option" where
  "free_terminated d b s = do {
     s \<leftarrow> uncount d b s;
     pg \<leftarrow> pgs s (hpage s b);
     D \<leftarrow> dirs s d;
     let s = (if n_allocated_blocks pg = 0 then s\<lparr>pgs := (pgs s)(hpage s b := None)\<rparr> else s);
     Some (if n_allocated_objects D = 0 then s\<lparr>dirs := (dirs s)(d := None)\<rparr> else s)
   }"

definition free_pending :: "nat \<Rightarrow> nat \<Rightarrow> tstate \<Rightarrow> tstate option" where
  "free_pending d b s = do {
     D \<leftarrow> dirs s d;
     Some (s\<lparr>dirs := (dirs s)(d \<mapsto> D\<lparr>pending_chain := b # pending_chain D, n_pending_requests := n_pending_requests D + 1\<rparr>)\<rparr>)
   }"

definition thread_free :: "nat \<Rightarrow> nat \<Rightarrow> tstate \<Rightarrow> tstate option" where
  "thread_free t addr s =
     (let b = addr - HEADER in
      if MAX_BLOCK_SIZE < hsize s b then
        (case large s b of None \<Rightarrow> None | Some _ \<Rightarrow> Some (s\<lparr>large := (large s)(b := None)\<rparr>))
      else do {
        pg \<leftarrow> pgs s (hpage s b);
        let d = pg_dir pg;
        D \<leftarrow> dirs s d;
        if d \<noteq> ctx s t then (if terminated D then free_terminated d b s else free_pending d b s)
        else do { s \<leftarrow> uncount d b s; push_block d b s }
      })"

definition copy_bytes :: "nat \<Rightarrow> nat \<Rightarrow> nat \<Rightarrow> tstate \<Rightarrow> tstate" where
  "copy_bytes dst src n s = s\<lparr>bytes := (\<lambda>x. if dst \<le> x \<and> x < dst + n then bytes s (x - dst + src) else bytes s x)\<rparr>"

text \<open>\<open>r\<close> is the answer of \<open>realloc\<close> for a large block.\<close>

definition thread_realloc :: "nat \<Rightarrow> nat \<Rightarrow> nat \<Rightarrow> nat \<Rightarrow> nat \<Rightarrow> nat \<Rightarrow> tstate \<Rightarrow> (nat \<times> tstate) option" where
  "thread_realloc t addr n q p r s =
     (if addr = 0 then thread_alloc t n q p s
      else
        (let b = addr - HEADER; new_size = total_size n in
         if new_size \<le> hsize s b then Some (addr, s)
         else if MAX_BLOCK_SIZE < hsize s b then
           (case large s b of
              None \<Rightarrow> None
            | Some k \<Rightarrow>
                if r = 0 then None
                else Some (r + HEADER, (copy_bytes r b (min k new_size) s)\<lparr>large := (large s)(b := None, r \<mapsto> new_size),
                  hsize := (hsize s)(r := new_size)\<rparr>))
         else do {
           (new_addr, s) \<leftarrow> thread_alloc t n q p s;
           s \<leftarrow> thread_free t addr (copy_bytes new_addr addr (hsize s b - HEADER) s);
           Some (new_addr, s)
         }))"

section \<open>The end of a thread\<close>

text \<open>
  \<open>cleanup\<close> is called by the thread that ends, after its pointer to the directory has been reset; other threads
  run between its locked sections. It stops before the first section, before the sweep and before the
  last decision; for the main thread it returns at once.
\<close>

datatype progress = Locking | Sweeping | Deciding | Returned

definition exit_thread :: "bool \<Rightarrow> nat \<Rightarrow> tstate \<Rightarrow> (nat \<times> progress) option \<times> tstate" where
  "exit_thread is_main t s =
     (if ctx s t = 0 then (None, s)
      else (Some (ctx s t, if is_main then Returned else Locking), s\<lparr>ctx := (ctx s)(t := 0)\<rparr>))"

fun drop_blocks :: "nat \<Rightarrow> nat list \<Rightarrow> tstate \<Rightarrow> tstate option" where
  "drop_blocks d [] s = Some s"
| "drop_blocks d (b # bs) s = do { s \<leftarrow> uncount d b s; drop_blocks d bs s }"

definition drop_pending :: "nat \<Rightarrow> tstate \<Rightarrow> tstate option" where
  "drop_pending d s = do {
     D \<leftarrow> dirs s d;
     s \<leftarrow> drop_blocks d (pending_chain D) s;
     D \<leftarrow> dirs s d;
     Some (s\<lparr>dirs := (dirs s)(d \<mapsto> D\<lparr>pending_chain := []\<rparr>)\<rparr>)
   }"

fun sweep_pages :: "nat list \<Rightarrow> tstate \<Rightarrow> (nat list \<times> tstate) option" where
  "sweep_pages [] s = Some ([], s)"
| "sweep_pages (p # ps) s = do {
     pg \<leftarrow> pgs s p;
     if n_allocated_blocks pg = 0 then sweep_pages ps (s\<lparr>pgs := (pgs s)(p := None)\<rparr>)
     else map_option (\<lambda>(ps, s). (p # ps, s)) (sweep_pages ps s)
   }"

definition sweep :: "nat \<Rightarrow> tstate \<Rightarrow> tstate option" where
  "sweep d s = do {
     D \<leftarrow> dirs s d;
     (ps, s) \<leftarrow> sweep_pages (pages D) s;
     Some (s\<lparr>dirs := (dirs s)(d \<mapsto> D\<lparr>pages := ps\<rparr>)\<rparr>)
   }"

definition decide :: "nat \<Rightarrow> tstate \<Rightarrow> (progress option \<times> tstate) option" where
  "decide d s = do {
     D \<leftarrow> dirs s d;
     if n_allocated_objects D = 0 then Some (None, s\<lparr>dirs := (dirs s)(d := None)\<rparr>)
     else if pending_chain D = [] then Some (None, s\<lparr>dirs := (dirs s)(d \<mapsto> D\<lparr>terminated := True\<rparr>)\<rparr>)
     else map_option (Pair (Some Sweeping)) (drop_pending d s)
   }"

fun cleanup :: "progress \<Rightarrow> nat \<Rightarrow> tstate \<Rightarrow> (progress option \<times> tstate) option" where
  "cleanup Locking d s = map_option (Pair (Some Sweeping)) (drop_pending d s)"
| "cleanup Sweeping d s = map_option (Pair (Some Deciding)) (sweep d s)"
| "cleanup Deciding d s = decide d s"
| "cleanup Returned d s = Some (Some Returned, s)"

end
