(* ===== verification/ThreadAllocInv.thy ===== *)
theory ThreadAllocInv
  imports ThreadAlloc World
begin

text \<open>
  The invariant of threadalloc: where blocks lie, what the counters of pages and directories count, and
  who owns a directory. \<open>U\<close> is the set of the counted blocks: those in use, those that wait in a pending
  chain, and those in \<open>G\<close>, which an operation is about to hand back.
\<close>

lemma ta_consts [simp]: "N_CHAINS = 5" "MAX_BLOCK_SIZE = 256" "BLOCK_ALIGNMENT = 8" "PAGE_SIZE = 4096" "HEADER = 16"
    "PAGE_HEADER = 24" "page_bytes = 4120" "dir_bytes = 112" "PENDING_THRESHOLD = 100"
  by (simp_all add: N_CHAINS_def MAX_BLOCK_SIZE_def BLOCK_ALIGNMENT_def PAGE_SIZE_def HEADER_def PAGE_HEADER_def
      page_bytes_def dir_bytes_def PENDING_THRESHOLD_def)

section \<open>Sizes\<close>

definition fits :: "nat \<Rightarrow> bool" where
  "fits z \<longleftrightarrow> 8 dvd z \<and> 16 \<le> z \<and> z \<le> 256"

lemma chain_table: "\<forall>k \<in> set [2..<33]. block_chain ! k < 5 \<and> 8 * k \<le> chain_block_size ! (block_chain ! k)"
  by code_simp

lemma fits_chain:
  assumes "fits z"
  shows "chain_of z < 5" "z \<le> chain_block_size ! chain_of z"
proof -
  obtain k where k: "z = 8 * k" using assms by (auto simp: fits_def elim: dvdE)
  then have "k \<in> set [2..<33]" using assms by (simp add: fits_def del: upt_rec_numeral)
  then have "block_chain ! k < 5 \<and> 8 * k \<le> chain_block_size ! (block_chain ! k)" using chain_table by blast
  then show "chain_of z < 5" "z \<le> chain_block_size ! chain_of z" using k by (simp_all add: chain_of_def)
qed

lemma total_size_ge: "n < 2 ^ 64 - 32 \<Longrightarrow> n + 16 \<le> total_size n \<and> 8 dvd total_size n"
proof -
  assume n: "n < 2 ^ 64 - 32"
  have d: "(n + 7) div 8 * 8 \<le> n + 7" "n \<le> (n + 7) div 8 * 8" by presburger+
  then have "total_size n = (n + 7) div 8 * 8 + 16" using n by (simp add: total_size_def)
  then show ?thesis using d by simp
qed

lemma total_size_less: "n < 2 ^ 64 - 32 \<Longrightarrow> total_size n < n + 24"
proof -
  assume n: "n < 2 ^ 64 - 32"
  have d: "(n + 7) div 8 * 8 \<le> n + 7" by presburger
  then have "total_size n = (n + 7) div 8 * 8 + 16" using n by (simp add: total_size_def)
  then show ?thesis using d by simp
qed

lemma total_size_fits: "n < 2 ^ 64 - 32 \<Longrightarrow> total_size n \<le> 256 \<Longrightarrow> fits (total_size n)"
  using total_size_ge [of n] by (simp add: fits_def)

lemma block_sizes: "i < 5 \<Longrightarrow> 32 \<le> chain_block_size ! i \<and> chain_block_size ! i \<le> 256"
  by (auto simp: chain_block_size_def less_Suc_eq numeral_eq_Suc)

section \<open>Places of blocks\<close>

definition slots :: "nat \<Rightarrow> nat \<Rightarrow> nat list" where
  "slots i p = grid (p + PAGE_HEADER) (chain_block_size ! i) (PAGE_SIZE div chain_block_size ! i)"

lemma slot_bounds: "b \<in> set (slots i p) \<Longrightarrow> p + 24 \<le> b \<and> b + chain_block_size ! i \<le> p + 4120"
proof -
  assume "b \<in> set (slots i p)"
  then have "p + 24 \<le> b \<and> b + chain_block_size ! i \<le> p + 24 + 4096 div chain_block_size ! i * chain_block_size ! i"
    using grid_bounds unfolding slots_def by simp
  moreover have "4096 div chain_block_size ! i * chain_block_size ! i \<le> 4096" by simp
  ultimately show ?thesis by linarith
qed

lemma slots_apart: "b \<in> set (slots i p) \<Longrightarrow> c \<in> set (slots i p) \<Longrightarrow> b \<noteq> c \<Longrightarrow> apart b (chain_block_size ! i) c (chain_block_size ! i)"
  using grid_apart unfolding slots_def apart_def by blast

lemma distinct_slots: "i < 5 \<Longrightarrow> distinct (slots i p)"
  using block_sizes [of i] unfolding slots_def by (simp add: distinct_grid)

definition on_page :: "(nat \<rightharpoonup> alloc_page) \<Rightarrow> nat \<Rightarrow> nat \<Rightarrow> bool" where
  "on_page P p d \<longleftrightarrow> (\<exists>pg. P p = Some pg \<and> pg_dir pg = d)"

definition place :: "(nat \<rightharpoonup> alloc_page) \<Rightarrow> (nat \<Rightarrow> nat) \<Rightarrow> (nat \<Rightarrow> nat) \<Rightarrow> nat \<Rightarrow> nat \<Rightarrow> nat \<Rightarrow> bool" where
  "place P H cls d b i \<longleftrightarrow> on_page P (H b) d \<and> cls (H b) = i \<and> b \<in> set (slots i (H b))"

definition of_page :: "(nat \<Rightarrow> nat) \<Rightarrow> nat set \<Rightarrow> nat \<Rightarrow> nat set" where
  "of_page H U p = {b \<in> U. H b = p}"

definition of_dir :: "(nat \<rightharpoonup> alloc_page) \<Rightarrow> (nat \<Rightarrow> nat) \<Rightarrow> nat set \<Rightarrow> nat \<Rightarrow> nat set" where
  "of_dir P H U d = {b \<in> U. on_page P (H b) d}"

lemma on_page_fun: "on_page P p d \<Longrightarrow> on_page P p e \<Longrightarrow> d = e"
  by (auto simp: on_page_def)

lemma on_page_count [simp]:
  "P p = Some pg \<Longrightarrow> on_page (P(p \<mapsto> pg\<lparr>n_allocated_blocks := k\<rparr>)) q d = on_page P q d"
  by (auto simp: on_page_def)

lemma place_count [simp]:
  "P p = Some pg \<Longrightarrow> place (P(p \<mapsto> pg\<lparr>n_allocated_blocks := k\<rparr>)) H cls d b i = place P H cls d b i"
  by (simp add: place_def)

lemma of_dir_count [simp]:
  "P p = Some pg \<Longrightarrow> of_dir (P(p \<mapsto> pg\<lparr>n_allocated_blocks := k\<rparr>)) H U d = of_dir P H U d"
  by (simp add: of_dir_def)

lemma of_page_Diff [simp]: "of_page H (U - {b}) p = of_page H U p - {b}"
  by (auto simp: of_page_def)

lemma of_dir_Diff [simp]: "of_dir P H (U - {b}) d = of_dir P H U d - {b}"
  by (auto simp: of_dir_def)

lemma of_page_insert: "of_page H (insert b U) p = (if H b = p then insert b (of_page H U p) else of_page H U p)"
  by (auto simp: of_page_def)

lemma of_dir_insert: "of_dir P H (insert b U) d = (if on_page P (H b) d then insert b (of_dir P H U d) else of_dir P H U d)"
  by (auto simp: of_dir_def)

lemma finite_of [simp]: "finite U \<Longrightarrow> finite (of_page H U p)" "finite U \<Longrightarrow> finite (of_dir P H U d)"
  by (simp_all add: of_page_def of_dir_def)

section \<open>The invariant\<close>

definition pages_ok :: "tstate \<Rightarrow> (nat \<Rightarrow> nat) \<Rightarrow> nat set \<Rightarrow> bool" where
  "pages_ok s cls U \<longleftrightarrow> (\<forall>p pg. pgs s p = Some pg \<longrightarrow>
     dirs s (pg_dir pg) \<noteq> None \<and> cls p < 5 \<and> n_allocated_blocks pg = card (of_page (hpage s) U p))"

definition counted_ok :: "tstate \<Rightarrow> (nat \<Rightarrow> nat) \<Rightarrow> nat set \<Rightarrow> bool" where
  "counted_ok s cls U \<longleftrightarrow> finite U \<and>
     (\<forall>b \<in> U. fits (hsize s b) \<and> (\<exists>d. place (pgs s) (hpage s) cls d b (chain_of (hsize s b))))"

definition dir_ok :: "(nat \<rightharpoonup> alloc_page) \<Rightarrow> (nat \<Rightarrow> nat) \<Rightarrow> nat set \<Rightarrow> nat \<Rightarrow> thread_alloc_dir \<Rightarrow> bool" where
  "dir_ok P H U d D \<longleftrightarrow> n_allocated_objects D = int (card (of_dir P H U d)) \<and>
     distinct (pending_chain D) \<and> set (pending_chain D) \<subseteq> of_dir P H U d \<and>
     (if terminated D then pending_chain D = [] \<and> of_dir P H U d \<noteq> {} \<and> (\<forall>p. on_page P p d \<longrightarrow> of_page H U p \<noteq> {})
      else distinct (pages D) \<and> set (pages D) = {p. on_page P p d})"

definition chains_ok :: "(nat \<rightharpoonup> alloc_page) \<Rightarrow> (nat \<Rightarrow> nat) \<Rightarrow> (nat \<Rightarrow> nat) \<Rightarrow> nat set \<Rightarrow> nat \<Rightarrow> thread_alloc_dir \<Rightarrow> bool" where
  "chains_ok P H cls U d D \<longleftrightarrow>
     (\<forall>i < 5. distinct (chain D i) \<and> (\<forall>b \<in> set (chain D i). place P H cls d b i \<and> b \<notin> U))"

definition waiting :: "tstate \<Rightarrow> nat \<Rightarrow> bool" where
  "waiting s b \<longleftrightarrow> (\<exists>d D. dirs s d = Some D \<and> b \<in> set (pending_chain D))"

definition live_ok :: "tstate \<Rightarrow> (nat \<rightharpoonup> nat) \<Rightarrow> nat set \<Rightarrow> nat set \<Rightarrow> bool" where
  "live_ok s L U G \<longleftrightarrow>
     (\<forall>a n. L a = Some n \<longrightarrow> 16 \<le> a \<and> n + 16 \<le> hsize s (a - 16) \<and> (a - 16 \<in> U \<or> large s (a - 16) \<noteq> None)) \<and>
     (\<forall>b k. large s b = Some k \<longrightarrow> L (b + 16) \<noteq> None \<and> hsize s b = k \<and> 256 < k) \<and>
     (\<forall>b \<in> U. L (b + 16) \<noteq> None \<or> b \<in> G \<or> waiting s b) \<and>
     (\<forall>b. waiting s b \<longrightarrow> b \<notin> G \<and> L (b + 16) = None) \<and> G \<subseteq> U \<and> (\<forall>b \<in> G. L (b + 16) = None)"

definition alive :: "tstate \<Rightarrow> nat \<Rightarrow> bool" where
  "alive s d \<longleftrightarrow> (\<exists>D. dirs s d = Some D \<and> \<not> terminated D)"

definition roles_ok :: "tstate \<Rightarrow> (nat \<Rightarrow> (nat \<times> progress) option) \<Rightarrow> bool" where
  "roles_ok s C \<longleftrightarrow>
     (\<forall>t. ctx s t \<noteq> 0 \<longrightarrow> alive s (ctx s t)) \<and>
     (\<forall>t t'. ctx s t \<noteq> 0 \<longrightarrow> ctx s t = ctx s t' \<longrightarrow> t = t') \<and>
     (\<forall>t d r. C t = Some (d, r) \<longrightarrow> alive s d \<and> (\<forall>t'. ctx s t' \<noteq> d) \<and>
        (\<forall>t' r'. C t' = Some (d, r') \<longrightarrow> t' = t)) \<and>
     (\<forall>d. alive s d \<longrightarrow> (\<exists>t. ctx s t = d) \<or> (\<exists>t r. C t = Some (d, r)))"

definition steps_ok :: "tstate \<Rightarrow> (nat \<Rightarrow> (nat \<times> progress) option) \<Rightarrow> (nat \<Rightarrow> nat) \<Rightarrow> nat set \<Rightarrow> bool" where
  "steps_ok s C cls U \<longleftrightarrow>
     (\<forall>t d p. C t = Some (d, Deciding) \<longrightarrow> on_page (pgs s) p d \<longrightarrow> of_page (hpage s) U p \<noteq> {}) \<and>
     (\<forall>t D. ctx s t \<noteq> 0 \<longrightarrow> dirs s (ctx s t) = Some D \<longrightarrow> chains_ok (pgs s) (hpage s) cls U (ctx s t) D)"

text \<open>The objects obtained from the system: directories, pages and large blocks.\<close>

definition obj :: "tstate \<Rightarrow> nat \<Rightarrow> nat \<Rightarrow> nat \<Rightarrow> bool" where
  "obj s k a n \<longleftrightarrow> (k = 0 \<and> dirs s a \<noteq> None \<and> n = 112) \<or> (k = 1 \<and> pgs s a \<noteq> None \<and> n = 4120) \<or>
     (k = 2 \<and> large s a = Some n)"

definition fresh :: "tstate \<Rightarrow> nat \<Rightarrow> nat \<Rightarrow> bool" where
  "fresh s a n \<longleftrightarrow> 0 < a \<and> (\<forall>k b m. obj s k b m \<longrightarrow> apart a n b m)"

definition objs_ok :: "tstate \<Rightarrow> bool" where
  "objs_ok s \<longleftrightarrow> (\<forall>k a n. obj s k a n \<longrightarrow> 0 < a) \<and>
     (\<forall>k a n l b m. obj s k a n \<longrightarrow> obj s l b m \<longrightarrow> (k, a) \<noteq> (l, b) \<longrightarrow> apart a n b m)"

definition ta_inv :: "tstate \<Rightarrow> (nat \<rightharpoonup> nat) \<Rightarrow> (nat \<Rightarrow> (nat \<times> progress) option) \<Rightarrow> (nat \<Rightarrow> nat) \<Rightarrow> nat set \<Rightarrow> nat set \<Rightarrow> bool" where
  "ta_inv s L C cls U G \<longleftrightarrow> pages_ok s cls U \<and> counted_ok s cls U \<and>
     (\<forall>d D. dirs s d = Some D \<longrightarrow> dir_ok (pgs s) (hpage s) U d D) \<and>
     live_ok s L U G \<and> roles_ok s C \<and> steps_ok s C cls U \<and> objs_ok s"

section \<open>What the parts depend on\<close>

lemma alive_indep [simp]:
  "alive (s\<lparr>pgs := P\<rparr>) = alive s" "alive (s\<lparr>large := l\<rparr>) = alive s" "alive (s\<lparr>hsize := z\<rparr>) = alive s"
  "alive (s\<lparr>hpage := h\<rparr>) = alive s" "alive (s\<lparr>ctx := x\<rparr>) = alive s"
  by (simp_all add: alive_def fun_eq_iff)

lemma ta_indep [simp]:
  "roles_ok (s\<lparr>pgs := P\<rparr>) C = roles_ok s C" "roles_ok (s\<lparr>large := l\<rparr>) C = roles_ok s C"
  "roles_ok (s\<lparr>hsize := z\<rparr>) C = roles_ok s C" "roles_ok (s\<lparr>hpage := h\<rparr>) C = roles_ok s C"
  "waiting (s\<lparr>pgs := P\<rparr>) b = waiting s b" "waiting (s\<lparr>large := l\<rparr>) b = waiting s b"
  "waiting (s\<lparr>hsize := z\<rparr>) b = waiting s b" "waiting (s\<lparr>hpage := h\<rparr>) b = waiting s b"
  "waiting (s\<lparr>ctx := x\<rparr>) b = waiting s b"
  "live_ok (s\<lparr>pgs := P\<rparr>) L U G = live_ok s L U G" "live_ok (s\<lparr>hpage := h\<rparr>) L U G = live_ok s L U G"
  "live_ok (s\<lparr>ctx := x\<rparr>) L U G = live_ok s L U G"
  "obj (s\<lparr>hsize := z\<rparr>) = obj s" "obj (s\<lparr>hpage := h\<rparr>) = obj s" "obj (s\<lparr>ctx := x\<rparr>) = obj s" "obj (s\<lparr>bytes := w\<rparr>) = obj s"
  by (simp_all add: roles_ok_def waiting_def live_ok_def obj_def fun_eq_iff)

lemma objs_ok_cong: "obj s' = obj s \<Longrightarrow> objs_ok s' = objs_ok s"
  by (simp add: objs_ok_def)

lemma obj_dirs [simp]: "dirs s d = Some D \<Longrightarrow> obj (s\<lparr>dirs := (dirs s)(d \<mapsto> D')\<rparr>) = obj s"
  by (auto simp: obj_def fun_eq_iff)

lemma obj_pgs [simp]: "pgs s p = Some pg \<Longrightarrow> obj (s\<lparr>pgs := (pgs s)(p \<mapsto> pg')\<rparr>) = obj s"
  by (auto simp: obj_def fun_eq_iff)

lemma obj_pgs_dirs [simp]:
  "pgs s p = Some pg \<Longrightarrow> dirs s d = Some D \<Longrightarrow>
     obj (s\<lparr>dirs := (dirs s)(d \<mapsto> D'), pgs := (pgs s)(p \<mapsto> pg')\<rparr>) = obj s"
  by (auto simp: obj_def fun_eq_iff)

lemma roles_dirs:
  assumes "dirs s d = Some D" and "terminated D' = terminated D"
  shows "roles_ok (s\<lparr>dirs := (dirs s)(d \<mapsto> D')\<rparr>) C = roles_ok s C"
proof -
  have "alive (s\<lparr>dirs := (dirs s)(d \<mapsto> D')\<rparr>) = alive s" using assms by (auto simp: alive_def fun_eq_iff)
  then show ?thesis by (simp add: roles_ok_def)
qed

lemma waiting_dirs:
  assumes "dirs s d = Some D" and "set (pending_chain D') = set (pending_chain D)"
  shows "waiting (s\<lparr>dirs := (dirs s)(d \<mapsto> D')\<rparr>) b = waiting s b"
proof -
  have "(\<exists>e E. ((dirs s)(d \<mapsto> D')) e = Some E \<and> b \<in> set (pending_chain E)) \<longleftrightarrow>
      (\<exists>e E. dirs s e = Some E \<and> b \<in> set (pending_chain E))"
    using assms by (metis fun_upd_other fun_upd_same option.inject)
  then show ?thesis by (simp add: waiting_def)
qed

lemma live_dirs:
  assumes "dirs s d = Some D" and "set (pending_chain D') = set (pending_chain D)"
  shows "live_ok (s\<lparr>dirs := (dirs s)(d \<mapsto> D')\<rparr>) L U G = live_ok s L U G"
  unfolding live_ok_def waiting_dirs [OF assms] by simp

lemma ta_invD:
  assumes "ta_inv s L C cls U G"
  shows "pages_ok s cls U" "counted_ok s cls U" "\<And>d D. dirs s d = Some D \<Longrightarrow> dir_ok (pgs s) (hpage s) U d D"
    "live_ok s L U G" "roles_ok s C" "steps_ok s C cls U" "objs_ok s"
  using assms unfolding ta_inv_def by blast+

lemma live_okD:
  assumes "live_ok s L U G"
  shows "L a = Some n \<Longrightarrow> 16 \<le> a \<and> n + 16 \<le> hsize s (a - 16) \<and> (a - 16 \<in> U \<or> large s (a - 16) \<noteq> None)"
    "large s b = Some k \<Longrightarrow> L (b + 16) \<noteq> None \<and> hsize s b = k \<and> 256 < k"
    "b \<in> U \<Longrightarrow> L (b + 16) \<noteq> None \<or> b \<in> G \<or> waiting s b"
    "waiting s b \<Longrightarrow> b \<notin> G \<and> L (b + 16) = None" "G \<subseteq> U" "b \<in> G \<Longrightarrow> L (b + 16) = None"
  using assms unfolding live_ok_def by blast+

lemma counted_okD:
  assumes "counted_ok s cls U"
  shows "finite U" "b \<in> U \<Longrightarrow> fits (hsize s b)"
    "b \<in> U \<Longrightarrow> \<exists>d. place (pgs s) (hpage s) cls d b (chain_of (hsize s b))"
  using assms unfolding counted_ok_def by blast+

lemma pages_okD:
  assumes "pages_ok s cls U" and "pgs s p = Some pg"
  shows "\<exists>D. dirs s (pg_dir pg) = Some D" "cls p < 5" "n_allocated_blocks pg = card (of_page (hpage s) U p)"
  using assms unfolding pages_ok_def by blast+

end
