(* ===== verification/ThreadAllocOps.thy ===== *)
theory ThreadAllocOps
  imports ThreadAllocInv
begin

text \<open>
  The operations of threadalloc keep the invariant: blocks handed back and counted, new directories and
  pages, the drain of a pending chain, and the steps of the clean-up.
\<close>

section \<open>A block is handed back\<close>

lemma counted_place:
  assumes "counted_ok s cls U" and "b \<in> U"
  obtains pg where "pgs s (hpage s b) = Some pg" "place (pgs s) (hpage s) cls (pg_dir pg) b (chain_of (hsize s b))"
  using counted_okD(3) [OF assms] unfolding place_def on_page_def by blast

lemma card_Diff: "finite A \<Longrightarrow> b \<in> A \<Longrightarrow> int (card (A - {b})) = int (card A) - 1"
  using card_gt_0_iff [of A] by (auto simp: card_Diff_singleton)

lemma uncount_pages:
  assumes p: "pages_ok s cls U" and f: "finite U" and b: "b \<in> U" and pg: "pgs s (hpage s b) = Some pg" and D: "dirs s d = Some D"
  shows "pages_ok (s\<lparr>pgs := (pgs s)(hpage s b \<mapsto> pg\<lparr>n_allocated_blocks := dec64 (n_allocated_blocks pg)\<rparr>),
      dirs := (dirs s)(d \<mapsto> D')\<rparr>) cls (U - {b})"
proof -
  have m: "b \<in> of_page (hpage s) U (hpage s b)" using b by (simp add: of_page_def)
  then have "0 < card (of_page (hpage s) U (hpage s b))" using f card_gt_0_iff by fastforce
  then have dec: "dec64 (n_allocated_blocks pg) = card (of_page (hpage s) U (hpage s b) - {b})"
    using pages_okD(3) [OF p pg] m f by simp
  have other: "of_page (hpage s) U q - {b} = of_page (hpage s) U q" if "q \<noteq> hpage s b" for q
    using that by (auto simp: of_page_def)
  show ?thesis
    unfolding pages_ok_def
  proof (intro allI impI)
    fix q qg assume "pgs (s\<lparr>pgs := (pgs s)(hpage s b \<mapsto> pg\<lparr>n_allocated_blocks := dec64 (n_allocated_blocks pg)\<rparr>),
      dirs := (dirs s)(d \<mapsto> D')\<rparr>) q = Some qg"
    then show "dirs (s\<lparr>pgs := (pgs s)(hpage s b \<mapsto> pg\<lparr>n_allocated_blocks := dec64 (n_allocated_blocks pg)\<rparr>),
        dirs := (dirs s)(d \<mapsto> D')\<rparr>) (pg_dir qg) \<noteq> None \<and> cls q < 5 \<and> n_allocated_blocks qg =
        card (of_page (hpage (s\<lparr>pgs := (pgs s)(hpage s b \<mapsto> pg\<lparr>n_allocated_blocks := dec64 (n_allocated_blocks pg)\<rparr>),
        dirs := (dirs s)(d \<mapsto> D')\<rparr>)) (U - {b}) q)"
      using pages_okD [OF p pg] pages_okD [OF p, of q qg] dec other [of q] by (cases "q = hpage s b") auto
  qed
qed

lemma uncount_dir:
  assumes ok: "dir_ok P H U e E" and f: "finite U" and b: "b \<in> U" and on: "on_page P (H b) d"
    and np: "b \<notin> set (pending_chain E)" and nt: "e = d \<Longrightarrow> \<not> terminated E"
  shows "dir_ok P H (U - {b}) e (if e = d then E\<lparr>n_allocated_objects := n_allocated_objects E - 1\<rparr> else E)"
proof (cases "e = d")
  case True
  have "b \<in> of_dir P H U d" using b on by (simp add: of_dir_def)
  then have "int (card (of_dir P H U d - {b})) = int (card (of_dir P H U d)) - 1" using f by (intro card_Diff) simp_all
  then show ?thesis using ok True np nt by (auto simp: dir_ok_def)
next
  case False
  then have "b \<notin> of_dir P H U e" using on on_page_fun by (auto simp: of_dir_def)
  then have same: "of_dir P H U e - {b} = of_dir P H U e" by simp
  have "of_page H U p - {b} = of_page H U p" if "on_page P p e" for p
    using that False on on_page_fun by (fastforce simp: of_page_def)
  then show ?thesis using ok False same by (auto simp: dir_ok_def)
qed

lemma chains_mono: "chains_ok P H cls U d D \<Longrightarrow> U' \<subseteq> U \<Longrightarrow> chains_ok P H cls U' d D"
  unfolding chains_ok_def by blast

lemma uncount_steps:
  assumes k: "steps_ok s C cls U" and pg: "pgs s (hpage s b) = Some pg" and D: "dirs s d = Some D" and on: "pg_dir pg = d"
    and nd: "\<forall>t. C t \<noteq> Some (d, Deciding)"
  shows "steps_ok (s\<lparr>pgs := (pgs s)(hpage s b \<mapsto> pg\<lparr>n_allocated_blocks := x\<rparr>),
      dirs := (dirs s)(d \<mapsto> D\<lparr>n_allocated_objects := y\<rparr>)\<rparr>) C cls (U - {b})"
proof -
  have "of_page (hpage s) U p - {b} \<noteq> {}" if t: "C t = Some (e, Deciding)" and p: "on_page (pgs s) p e" for t e p
  proof -
    have "hpage s b \<noteq> p" using nd t p on pg by (auto simp: on_page_def)
    then have "of_page (hpage s) U p - {b} = of_page (hpage s) U p" by (auto simp: of_page_def)
    then show ?thesis using k t p unfolding steps_ok_def by simp
  qed
  moreover have "chains_ok (pgs s) (hpage s) cls (U - {b}) (ctx s t) E"
    if "ctx s t \<noteq> 0" "dirs s (ctx s t) = Some E" for t E
    using k that chains_mono unfolding steps_ok_def by blast
  moreover have "chains_ok P H cls U d (E\<lparr>n_allocated_objects := y\<rparr>) = chains_ok P H cls U d E" for P H U E
    by (simp add: chains_ok_def)
  moreover have "place ((pgs s)(hpage s b \<mapsto> pg\<lparr>n_allocated_blocks := x\<rparr>)) = place (pgs s)"
    using pg by (intro ext) simp
  then have "chains_ok ((pgs s)(hpage s b \<mapsto> pg\<lparr>n_allocated_blocks := x\<rparr>)) H cls U e E = chains_ok (pgs s) H cls U e E" for H U e E
    by (simp add: chains_ok_def)
  ultimately show ?thesis using D pg unfolding steps_ok_def by (auto split: if_splits)
qed

lemma uncount_live:
  assumes l: "live_ok s L U G" and b: "b \<in> G" and D: "dirs s d = Some D"
  shows "live_ok (s\<lparr>pgs := P, dirs := (dirs s)(d \<mapsto> D\<lparr>n_allocated_objects := y\<rparr>)\<rparr>) L (U - {b}) (G - {b})"
proof -
  have "L a = Some n \<Longrightarrow> a - 16 \<noteq> b" for a n using live_okD(1,6) [OF l] b by fastforce
  then have "live_ok s L (U - {b}) (G - {b})" using l b unfolding live_ok_def by blast
  moreover have "live_ok (s\<lparr>dirs := (dirs s)(d \<mapsto> D\<lparr>n_allocated_objects := y\<rparr>)\<rparr>) L U G = live_ok s L U G" for U G
    by (rule live_dirs [OF D]) simp
  moreover have "s\<lparr>pgs := P, dirs := q\<rparr> = s\<lparr>dirs := q\<rparr>\<lparr>pgs := P\<rparr>" for q by simp
  ultimately show ?thesis by (metis ta_indep(10))
qed

definition uncounted :: "nat \<Rightarrow> nat \<Rightarrow> alloc_page \<Rightarrow> thread_alloc_dir \<Rightarrow> tstate \<Rightarrow> tstate" where
  "uncounted d b pg D s = s\<lparr>pgs := (pgs s)(hpage s b \<mapsto> pg\<lparr>n_allocated_blocks := dec64 (n_allocated_blocks pg)\<rparr>),
     dirs := (dirs s)(d \<mapsto> D\<lparr>n_allocated_objects := n_allocated_objects D - 1\<rparr>)\<rparr>"

lemma uncounted_simps [simp]:
  "hsize (uncounted d b pg D s) = hsize s" "hpage (uncounted d b pg D s) = hpage s" "ctx (uncounted d b pg D s) = ctx s"
  "large (uncounted d b pg D s) = large s" "bytes (uncounted d b pg D s) = bytes s"
  "dirs (uncounted d b pg D s) = (dirs s)(d \<mapsto> D\<lparr>n_allocated_objects := n_allocated_objects D - 1\<rparr>)"
  by (simp_all add: uncounted_def)

lemma uncounted_places:
  assumes "pgs s (hpage s b) = Some pg"
  shows "on_page (pgs (uncounted d b pg D s)) = on_page (pgs s)" "place (pgs (uncounted d b pg D s)) = place (pgs s)"
    "of_dir (pgs (uncounted d b pg D s)) = of_dir (pgs s)"
  using assms by (intro ext; simp add: uncounted_def)+

lemma uncounted_alive: "dirs s d = Some D \<Longrightarrow> alive (uncounted d b pg D s) = alive s"
  by (auto simp: alive_def uncounted_def fun_eq_iff)

lemma uncount_ok:
  assumes I: "ta_inv s L C cls U G" and b: "b \<in> G" and D: "dirs s d = Some D" and nt: "\<not> terminated D"
    and on: "on_page (pgs s) (hpage s b) d" and nd: "\<forall>t. C t \<noteq> Some (d, Deciding)"
  obtains pg where "pgs s (hpage s b) = Some pg" "uncount d b s = Some (uncounted d b pg D s)"
    "ta_inv (uncounted d b pg D s) L C cls (U - {b}) (G - {b})"
proof -
  note i = ta_invD [OF I]
  obtain pg where pg: "pgs s (hpage s b) = Some pg" "pg_dir pg = d" using on by (auto simp: on_page_def)
  have U: "b \<in> U" "finite U" using live_okD(5) [OF i(4)] b counted_okD(1) [OF i(2)] by auto
  let ?s = "uncounted d b pg D s"
  have "pages_ok ?s cls (U - {b})" using uncount_pages [OF i(1) U(2,1) pg(1) D] unfolding uncounted_def .
  moreover have "counted_ok ?s cls (U - {b})"
    using counted_okD [OF i(2)] uncounted_places [OF pg(1)] unfolding counted_ok_def by simp
  moreover have "dir_ok (pgs ?s) (hpage ?s) (U - {b}) e E" if e: "dirs ?s e = Some E" for e E
  proof -
    obtain E0 where E0: "dirs s e = Some E0" "E = (if e = d then E0\<lparr>n_allocated_objects := n_allocated_objects E0 - 1\<rparr> else E0)"
      using e D by (cases "e = d") auto
    have "b \<notin> set (pending_chain E0)" using live_okD(4) [OF i(4), of b] b E0(1) unfolding waiting_def by blast
    moreover have "e = d \<Longrightarrow> \<not> terminated E0" using E0(1) D nt by simp
    ultimately have "dir_ok (pgs s) (hpage s) (U - {b}) e E" unfolding E0(2) by (intro uncount_dir [OF i(3) [OF E0(1)] U(2,1) on])
    then show ?thesis unfolding dir_ok_def uncounted_simps uncounted_places [OF pg(1)] .
  qed
  moreover have "live_ok ?s L (U - {b}) (G - {b})" unfolding uncounted_def by (rule uncount_live [OF i(4) b D])
  moreover have "roles_ok ?s C" using i(5) uncounted_alive [OF D] by (simp add: roles_ok_def)
  moreover have "steps_ok ?s C cls (U - {b})" unfolding uncounted_def by (rule uncount_steps [OF i(6) pg(1) D pg(2) nd])
  moreover have "obj ?s = obj s" using D pg(1) by (auto simp: obj_def fun_eq_iff uncounted_def)
  then have "objs_ok ?s" using i(7) objs_ok_cong by blast
  ultimately have "ta_inv ?s L C cls (U - {b}) (G - {b})" unfolding ta_inv_def by blast
  moreover have "uncount d b s = Some ?s" using pg D by (simp add: uncount_def uncounted_def)
  ultimately show ?thesis using that pg(1) by blast
qed

section \<open>Chains\<close>

text \<open>Everything but the chains of a directory is as the invariant demands whatever they are.\<close>

lemma chain_update_inv:
  assumes I: "ta_inv s L C cls U G" and D: "dirs s d = Some D"
    and ok: "\<forall>t. ctx s t = d \<longrightarrow> chains_ok (pgs s) (hpage s) cls U d (D\<lparr>chain := f\<rparr>)"
  shows "ta_inv (s\<lparr>dirs := (dirs s)(d \<mapsto> D\<lparr>chain := f\<rparr>)\<rparr>) L C cls U G"
proof -
  note i = ta_invD [OF I]
  let ?s = "s\<lparr>dirs := (dirs s)(d \<mapsto> D\<lparr>chain := f\<rparr>)\<rparr>"
  have "pages_ok ?s cls U" using i(1) D unfolding pages_ok_def by auto
  moreover have "counted_ok ?s cls U" using i(2) by (simp add: counted_ok_def)
  moreover have "dir_ok (pgs ?s) (hpage ?s) U e E" if "dirs ?s e = Some E" for e E
    using that i(3) [OF D] i(3) [of e E] by (cases "e = d") (auto simp: dir_ok_def)
  moreover have "live_ok ?s L U G" using i(4) live_dirs [OF D, of "D\<lparr>chain := f\<rparr>"] by simp
  moreover have "roles_ok ?s C" using i(5) roles_dirs [OF D, of "D\<lparr>chain := f\<rparr>"] by simp
  moreover have "steps_ok ?s C cls U" using i(6) ok unfolding steps_ok_def by auto
  moreover have "objs_ok ?s" using i(7) objs_ok_cong [OF obj_dirs [OF D]] by simp
  ultimately show ?thesis unfolding ta_inv_def by blast
qed

lemma own_chains: "ta_inv s L C cls U G \<Longrightarrow> ctx s t \<noteq> 0 \<Longrightarrow> dirs s (ctx s t) = Some D \<Longrightarrow>
    chains_ok (pgs s) (hpage s) cls U (ctx s t) D"
  using ta_invD(6) unfolding steps_ok_def by blast

text \<open>A block that is not counted and in no chain: between a chain and its user.\<close>

definition held :: "tstate \<Rightarrow> (nat \<Rightarrow> nat) \<Rightarrow> nat set \<Rightarrow> nat \<Rightarrow> nat \<Rightarrow> nat \<Rightarrow> bool" where
  "held s cls U d b i \<longleftrightarrow> place (pgs s) (hpage s) cls d b i \<and> b \<notin> U \<and> i < 5 \<and>
     (\<exists>D. dirs s d = Some D \<and> b \<notin> set (chain D i))"

text \<open>What handing blocks back and forth leaves as it is.\<close>

definition quiet :: "tstate \<Rightarrow> tstate \<Rightarrow> bool" where
  "quiet s s' \<longleftrightarrow> ctx s' = ctx s \<and> hsize s' = hsize s \<and> hpage s' = hpage s \<and> large s' = large s \<and> bytes s' = bytes s \<and>
     on_page (pgs s') = on_page (pgs s) \<and> alive s' = alive s \<and> obj s' = obj s"

lemma quiet_refl [simp]: "quiet s s"
  by (simp add: quiet_def)

lemma quiet_trans: "quiet s t \<Longrightarrow> quiet t u \<Longrightarrow> quiet s u"
  by (simp add: quiet_def)

lemma quiet_fresh: "quiet s t \<Longrightarrow> fresh t a n = fresh s a n"
  by (simp add: quiet_def fresh_def)

lemma quiet_chain: "dirs s d = Some D \<Longrightarrow> quiet s (s\<lparr>dirs := (dirs s)(d \<mapsto> D\<lparr>chain := f\<rparr>)\<rparr>)"
  by (auto simp: quiet_def alive_def fun_eq_iff)

lemma quiet_uncounted: "dirs s d = Some D \<Longrightarrow> pgs s (hpage s b) = Some pg \<Longrightarrow> quiet s (uncounted d b pg D s)"
  using uncounted_places(1) [of s b pg d D] uncounted_alive [of s d D b pg]
  by (auto simp: quiet_def fun_eq_iff obj_def uncounted_def)

lemma push_ok:
  assumes I: "ta_inv s L C cls U G" and h: "held s cls U d b (chain_of (hsize s b))" and t: "ctx s t = d" "d \<noteq> 0"
  obtains s' where "push_block d b s = Some s'" "ta_inv s' L C cls U G" "quiet s s'" "dirs s' d \<noteq> None"
proof -
  let ?i = "chain_of (hsize s b)"
  obtain D where D: "dirs s d = Some D" "b \<notin> set (chain D ?i)" using h by (auto simp: held_def)
  let ?f = "(chain D)(?i := b # chain D ?i)"
  have c: "chains_ok (pgs s) (hpage s) cls U d D" using own_chains [OF I, of t] t D(1) by simp
  have "chains_ok (pgs s) (hpage s) cls U d (D\<lparr>chain := ?f\<rparr>)"
    using c h D(2) unfolding chains_ok_def held_def by auto
  then have "ta_inv (s\<lparr>dirs := (dirs s)(d \<mapsto> D\<lparr>chain := ?f\<rparr>)\<rparr>) L C cls U G" by (intro chain_update_inv [OF I D(1)]) simp
  then show ?thesis using that [OF _ _ quiet_chain [OF D(1)]] D(1) by (simp add: push_block_def Let_def)
qed

text \<open>A counted block of the thread's own directory goes back into its chain.\<close>

lemma hand_back:
  assumes I: "ta_inv s L C cls U G" and b: "b \<in> G" and on: "on_page (pgs s) (hpage s b) d"
    and t: "ctx s t = d" "d \<noteq> 0"
  obtains s1 s' where "uncount d b s = Some s1" "push_block d b s1 = Some s'" "ta_inv s' L C cls (U - {b}) (G - {b})" "quiet s s'"
proof -
  note i = ta_invD [OF I]
  have "alive s d" using i(5) t unfolding roles_ok_def by blast
  then obtain D where D: "dirs s d = Some D" "\<not> terminated D" by (auto simp: alive_def)
  have nd: "\<forall>t. C t \<noteq> Some (d, Deciding)" using i(5) t(1) unfolding roles_ok_def by blast
  obtain pg where pg: "pgs s (hpage s b) = Some pg" "uncount d b s = Some (uncounted d b pg D s)"
      "ta_inv (uncounted d b pg D s) L C cls (U - {b}) (G - {b})"
    using uncount_ok [OF I b D on nd] by blast
  have bU: "b \<in> U" using live_okD(5) [OF i(4)] b by blast
  have "place (pgs s) (hpage s) cls d b (chain_of (hsize s b))"
    using counted_okD(3) [OF i(2) bU] on on_page_fun unfolding place_def by blast
  moreover have "b \<notin> set (chain D (chain_of (hsize s b)))"
    using own_chains [OF I, of t] t D(1) bU fits_chain(1) [OF counted_okD(2) [OF i(2) bU]] unfolding chains_ok_def by blast
  ultimately have h: "held (uncounted d b pg D s) cls (U - {b}) d b (chain_of (hsize (uncounted d b pg D s) b))"
    using uncounted_places [OF pg(1)] fits_chain(1) [OF counted_okD(2) [OF i(2) bU]] by (simp add: held_def)
  obtain s' where s': "push_block d b (uncounted d b pg D s) = Some s'" "ta_inv s' L C cls (U - {b}) (G - {b})"
      "quiet (uncounted d b pg D s) s'"
    using push_ok [OF pg(3) h, of t] t by auto
  show ?thesis using that [OF pg(2) s'(1,2)] quiet_trans [OF quiet_uncounted [OF D(1) pg(1)] s'(3)] by simp
qed

section \<open>A pending chain is drained\<close>

lemma process_blocks_ok:
  assumes "ta_inv s L C cls U (set bs)" and "distinct bs" and "\<forall>b \<in> set bs. on_page (pgs s) (hpage s b) d"
    and "ctx s t = d" and "d \<noteq> 0"
  shows "\<exists>s'. process_blocks d bs s = Some s' \<and> ta_inv s' L C cls (U - set bs) {} \<and> quiet s s'"
  using assms
proof (induction bs arbitrary: s U)
  case (Cons b bs)
  have on: "on_page (pgs s) (hpage s b) d" and bG: "b \<in> set (b # bs)" using Cons.prems(3) by simp_all
  obtain s1 s2 where s2: "uncount d b s = Some s1" "push_block d b s1 = Some s2"
      "ta_inv s2 L C cls (U - {b}) (set (b # bs) - {b})" "quiet s s2"
    by (rule hand_back [OF Cons.prems(1) bG on Cons.prems(4,5)])
  have "ta_inv s2 L C cls (U - {b}) (set bs)" using s2(3) Cons.prems(2) by simp
  moreover have "\<forall>c \<in> set bs. on_page (pgs s2) (hpage s2 c) d" "ctx s2 t = d"
    using Cons.prems(3,4) s2(4) unfolding quiet_def by simp_all
  ultimately obtain s' where s': "process_blocks d bs s2 = Some s'" "ta_inv s' L C cls (U - {b} - set bs) {}" "quiet s2 s'"
    using Cons.IH [of s2 "U - {b}"] Cons.prems(2,5) by auto
  have "U - {b} - set bs = U - set (b # bs)" by auto
  then show ?case using s' s2(1,2) quiet_trans [OF s2(4) s'(3)] by simp
qed simp

lemma drop_blocks_ok:
  assumes "ta_inv s L C cls U (set bs)" and "distinct bs" and "\<forall>b \<in> set bs. on_page (pgs s) (hpage s b) d"
    and "alive s d" and "\<forall>t. C t \<noteq> Some (d, Deciding)"
  shows "\<exists>s'. drop_blocks d bs s = Some s' \<and> ta_inv s' L C cls (U - set bs) {} \<and> quiet s s'"
  using assms
proof (induction bs arbitrary: s U)
  case (Cons b bs)
  have on: "on_page (pgs s) (hpage s b) d" and bG: "b \<in> set (b # bs)" using Cons.prems(3) by simp_all
  obtain D where D: "dirs s d = Some D" "\<not> terminated D" using Cons.prems(4) by (auto simp: alive_def)
  obtain pg where pg: "pgs s (hpage s b) = Some pg" "uncount d b s = Some (uncounted d b pg D s)"
      "ta_inv (uncounted d b pg D s) L C cls (U - {b}) (set (b # bs) - {b})"
    by (rule uncount_ok [OF Cons.prems(1) bG D on Cons.prems(5)])
  let ?s = "uncounted d b pg D s"
  have q: "quiet s ?s" by (rule quiet_uncounted [OF D(1) pg(1)])
  have "ta_inv ?s L C cls (U - {b}) (set bs)" using pg(3) Cons.prems(2) by simp
  moreover have "\<forall>c \<in> set bs. on_page (pgs ?s) (hpage ?s c) d" "alive ?s d"
    using Cons.prems(3,4) q unfolding quiet_def by simp_all
  ultimately obtain s' where s': "drop_blocks d bs ?s = Some s'" "ta_inv s' L C cls (U - {b} - set bs) {}" "quiet ?s s'"
    using Cons.IH [of ?s "U - {b}"] Cons.prems(2,5) by auto
  have "U - {b} - set bs = U - set (b # bs)" by auto
  then show ?case using s' pg(2) quiet_trans [OF q s'(3)] by simp
qed simp

text \<open>The pending blocks of a directory are taken over.\<close>

lemma grab_pending:
  assumes I: "ta_inv s L C cls U {}" and D: "dirs s d = Some D"
  shows "ta_inv (s\<lparr>dirs := (dirs s)(d \<mapsto> D\<lparr>pending_chain := [], n_pending_requests := k\<rparr>)\<rparr>) L C cls U (set (pending_chain D))"
proof -
  note i = ta_invD [OF I]
  let ?D = "D\<lparr>pending_chain := [], n_pending_requests := k\<rparr>" and ?G = "set (pending_chain D)"
  let ?s = "s\<lparr>dirs := (dirs s)(d \<mapsto> ?D)\<rparr>"
  have sub: "\<And>e E. dirs s e = Some E \<Longrightarrow> set (pending_chain E) \<subseteq> of_dir (pgs s) (hpage s) U e" using i(3) by (auto simp: dir_ok_def)
  have w: "waiting ?s b \<longleftrightarrow> waiting s b \<and> b \<notin> ?G" for b
  proof
    assume "waiting ?s b"
    then obtain e E where e: "e \<noteq> d" "dirs s e = Some E" "b \<in> set (pending_chain E)"
      by (auto simp: waiting_def split: if_splits)
    then have "b \<notin> ?G" using sub [OF e(2)] sub [OF D] on_page_fun by (fastforce simp: of_dir_def)
    then show "waiting s b \<and> b \<notin> ?G" using e unfolding waiting_def by blast
  next
    assume "waiting s b \<and> b \<notin> ?G"
    then obtain e E where e: "dirs s e = Some E" "b \<in> set (pending_chain E)" "b \<notin> ?G" unfolding waiting_def by blast
    then have "((dirs s)(d \<mapsto> ?D)) e = Some E" using D by auto
    then show "waiting ?s b" using e(2) by (auto simp: waiting_def simp del: fun_upd_apply)
  qed
  have GU: "?G \<subseteq> U" "\<forall>b \<in> ?G. waiting s b" using sub [OF D] D by (auto simp: of_dir_def waiting_def)
  have "pages_ok ?s cls U" using i(1) D unfolding pages_ok_def by auto
  moreover have "counted_ok ?s cls U" using i(2) by (simp add: counted_ok_def)
  moreover have "dir_ok (pgs ?s) (hpage ?s) U e E" if "dirs ?s e = Some E" for e E
    using that i(3) [OF D] i(3) [of e E] by (cases "e = d") (auto simp: dir_ok_def)
  moreover have "live_ok ?s L U ?G"
    using live_okD [OF i(4)] GU unfolding live_ok_def w by simp blast
  moreover have "roles_ok ?s C" using i(5) roles_dirs [OF D, of ?D] by simp
  moreover have "steps_ok ?s C cls U" using i(6) D unfolding steps_ok_def chains_ok_def by auto
  moreover have "objs_ok ?s" using i(7) objs_ok_cong [OF obj_dirs [OF D]] by simp
  ultimately show ?thesis unfolding ta_inv_def by blast
qed

lemma quiet_pending: "dirs s d = Some D \<Longrightarrow> quiet s (s\<lparr>dirs := (dirs s)(d \<mapsto> D\<lparr>pending_chain := x, n_pending_requests := k\<rparr>)\<rparr>)"
  by (auto simp: quiet_def alive_def fun_eq_iff)

lemma pending_on: "ta_inv s L C cls U G \<Longrightarrow> dirs s d = Some D \<Longrightarrow>
    distinct (pending_chain D) \<and> (\<forall>b \<in> set (pending_chain D). on_page (pgs s) (hpage s b) d)"
  using ta_invD(3) unfolding dir_ok_def of_dir_def by blast

lemma process_pending_ok:
  assumes I: "ta_inv s L C cls U {}" and t: "ctx s t = d" "d \<noteq> 0"
  shows "\<exists>s' U'. process_pending_requests d s = Some s' \<and> ta_inv s' L C cls U' {} \<and> quiet s s'"
proof -
  obtain D where D: "dirs s d = Some D" using ta_invD(5) [OF I] t unfolding roles_ok_def alive_def by blast
  let ?s = "s\<lparr>dirs := (dirs s)(d \<mapsto> D\<lparr>pending_chain := [], n_pending_requests := 0\<rparr>)\<rparr>"
  obtain s' where "process_blocks d (pending_chain D) ?s = Some s'" "ta_inv s' L C cls (U - set (pending_chain D)) {}" "quiet ?s s'"
    using process_blocks_ok [OF grab_pending [OF I D, of 0], of d t] pending_on [OF I D] t by auto
  then show ?thesis using D I quiet_trans [OF quiet_pending [OF D]] by (auto simp: process_pending_requests_def)
qed

definition no_pending :: "nat \<Rightarrow> tstate \<Rightarrow> tstate" where
  "no_pending d s = s\<lparr>dirs := (dirs s)(d := map_option (pending_chain_update (\<lambda>_. [])) (dirs s d))\<rparr>"

lemma pending_count_commute:
  "D\<lparr>pending_chain := x, n_allocated_objects := y\<rparr> = D\<lparr>n_allocated_objects := y, pending_chain := x\<rparr>"
  by (cases D) simp

lemma uncount_no_pending: "uncount d b (no_pending d s) = map_option (no_pending d) (uncount d b s)"
proof (cases "pgs s (hpage s b)")
  case None
  then show ?thesis by (simp add: uncount_def no_pending_def)
next
  case (Some pg)
  show ?thesis
  proof (cases "dirs s d")
    case None
    then show ?thesis using Some by (simp add: uncount_def no_pending_def)
  next
    case (Some D)
    show ?thesis using \<open>pgs s (hpage s b) = Some pg\<close> Some
      by (simp add: uncount_def no_pending_def)
        (simp only: pending_count_commute [where D = D and x = "[]" and y = "n_allocated_objects D - 1"])
  qed
qed

lemma drop_no_pending: "drop_blocks d bs (no_pending d s) = map_option (no_pending d) (drop_blocks d bs s)"
proof (induction bs arbitrary: s)
  case (Cons b bs)
  then show ?case by (cases "uncount d b s") (simp_all add: uncount_no_pending)
qed simp

lemma drop_pending_ok:
  assumes I: "ta_inv s L C cls U {}" and a: "alive s d" and nd: "\<forall>t. C t \<noteq> Some (d, Deciding)"
  shows "\<exists>s' U'. drop_pending d s = Some s' \<and> ta_inv s' L C cls U' {} \<and> quiet s s'"
proof -
  obtain D where D: "dirs s d = Some D" using a by (auto simp: alive_def)
  let ?s = "s\<lparr>dirs := (dirs s)(d \<mapsto> D\<lparr>pending_chain := [], n_pending_requests := n_pending_requests D\<rparr>)\<rparr>"
  have "D\<lparr>pending_chain := [], n_pending_requests := n_pending_requests D\<rparr> = D\<lparr>pending_chain := []\<rparr>" by (cases D) simp
  then have np: "no_pending d s = ?s" using D by (simp add: no_pending_def)
  have q: "quiet s ?s" by (rule quiet_pending [OF D])
  then have al: "alive ?s d" using a by (simp add: quiet_def)
  obtain s' where s': "drop_blocks d (pending_chain D) ?s = Some s'" "ta_inv s' L C cls (U - set (pending_chain D)) {}" "quiet ?s s'"
    using drop_blocks_ok [OF grab_pending [OF I D, of "n_pending_requests D"] _ _ al nd] pending_on [OF I D] by auto
  obtain s1 where s1: "drop_blocks d (pending_chain D) s = Some s1" "s' = no_pending d s1"
    using s'(1) unfolding np [symmetric] drop_no_pending by blast
  have "alive s' d" using al s'(3) by (simp add: quiet_def)
  then obtain D1 where "dirs s1 d = Some D1" unfolding s1(2) alive_def no_pending_def by auto
  then have "drop_pending d s = Some s'" using D s1 by (simp add: drop_pending_def no_pending_def)
  then show ?thesis using s'(2) quiet_trans [OF q s'(3)] by blast
qed

section \<open>New directories and pages\<close>

lemma objs_ok_new:
  assumes "objs_ok s" and "fresh s a n" and "0 < n" and new: "\<And>l b m. obj s' l b m \<longleftrightarrow> obj s l b m \<or> (l = k \<and> b = a \<and> m = n)"
  shows "objs_ok s'"
proof -
  have f: "0 < a" "\<And>l b m. obj s l b m \<Longrightarrow> apart a n b m" using assms(2) unfolding fresh_def by blast+
  have o: "\<And>l b m. obj s l b m \<Longrightarrow> 0 < b"
    "\<And>j c u l b m. obj s j c u \<Longrightarrow> obj s l b m \<Longrightarrow> (j, c) \<noteq> (l, b) \<Longrightarrow> apart c u b m"
    using assms(1) unfolding objs_ok_def by blast+
  show ?thesis unfolding objs_ok_def new
  proof (intro conjI allI impI)
    fix j c u l b m
    assume "obj s j c u \<or> (j = k \<and> c = a \<and> u = n)" "obj s l b m \<or> (l = k \<and> b = a \<and> m = n)" "(j, c) \<noteq> (l, b)"
    then show "apart c u b m" using o(2) [of j c u l b m] f(2) [of l b m] f(2) [of j c u] apart_sym [of c u b m] by auto
  qed (use o(1) f(1) in blast)
qed

lemma fresh_not_obj: "fresh s a n \<Longrightarrow> 0 < n \<Longrightarrow> 0 < m \<Longrightarrow> \<not> obj s k a m"
  unfolding fresh_def apart_def by fastforce

lemma fresh_None: "fresh s a n \<Longrightarrow> 0 < n \<Longrightarrow> dirs s a = None \<and> pgs s a = None"
  using fresh_not_obj [of s a n 112 0] fresh_not_obj [of s a n 4120 1] by (simp add: obj_def)

lemma new_dir_ok:
  assumes I: "ta_inv s L C cls U {}" and f: "fresh s q 112" and t: "ctx s t = 0"
  shows "ta_inv (s\<lparr>dirs := (dirs s)(q \<mapsto> new_dir), ctx := (ctx s)(t := q)\<rparr>) L C cls U {}"
proof -
  note i = ta_invD [OF I]
  let ?s = "s\<lparr>dirs := (dirs s)(q \<mapsto> new_dir), ctx := (ctx s)(t := q)\<rparr>"
  have q: "dirs s q = None" "0 < q" using fresh_None [OF f] f by (simp_all add: fresh_def)
  have no: "\<not> on_page (pgs s) p q" for p using pages_okD(1) [OF i(1)] q(1) unfolding on_page_def by fastforce
  then have none: "of_dir (pgs s) (hpage s) U q = {}" by (simp add: of_dir_def)
  have "(\<exists>d D. ((dirs s)(q \<mapsto> new_dir)) d = Some D \<and> b \<in> set (pending_chain D)) \<longleftrightarrow>
      (\<exists>d D. dirs s d = Some D \<and> b \<in> set (pending_chain D))" for b
    using q(1) by (metis empty_iff fun_upd_other fun_upd_same list.set(1) new_dir_def option.distinct(1) option.inject thread_alloc_dir.select_convs(2))
  then have w: "waiting ?s b = waiting s b" for b by (simp add: waiting_def)
  have al: "alive ?s d \<longleftrightarrow> d = q \<or> alive s d" for d by (auto simp: alive_def new_dir_def)
  have nq: "\<not> alive s q" using q(1) by (simp add: alive_def)
  have "pages_ok ?s cls U" using i(1) unfolding pages_ok_def by auto
  moreover have "counted_ok ?s cls U" using i(2) by (simp add: counted_ok_def)
  moreover have "dir_ok (pgs ?s) (hpage ?s) U e E" if "dirs ?s e = Some E" for e E
    using that i(3) [of e E] none no by (cases "e = q") (auto simp: dir_ok_def new_dir_def)
  moreover have "live_ok ?s L U {}" using i(4) unfolding live_ok_def w by simp
  moreover have "roles_ok ?s C"
  proof -
    have r: "\<forall>u. ctx s u \<noteq> 0 \<longrightarrow> alive s (ctx s u)" "\<forall>u u'. ctx s u \<noteq> 0 \<longrightarrow> ctx s u = ctx s u' \<longrightarrow> u = u'"
      "\<forall>u d r. C u = Some (d, r) \<longrightarrow> alive s d \<and> (\<forall>t'. ctx s t' \<noteq> d) \<and> (\<forall>t' r'. C t' = Some (d, r') \<longrightarrow> t' = u)"
      "\<forall>d. alive s d \<longrightarrow> (\<exists>u. ctx s u = d) \<or> (\<exists>u r. C u = Some (d, r))" using i(5) unfolding roles_ok_def by blast+
    have nu: "ctx s u \<noteq> q" for u using r(1) nq q(2) by force
    show ?thesis unfolding roles_ok_def al
    proof (intro conjI allI impI)
      fix u assume "ctx ?s u \<noteq> 0" then show "ctx ?s u = q \<or> alive s (ctx ?s u)" using r(1) by (cases "u = t") auto
    next
      fix u u' assume "ctx ?s u \<noteq> 0" "ctx ?s u = ctx ?s u'"
      then show "u = u'" using r(2) nu by (cases "u = t"; cases "u' = t") auto
    next
      fix u d r assume c: "C u = Some (d, r)"
      then show "d = q \<or> alive s d" using r(3) by blast
      have "d \<noteq> q" using c r(3) nq by blast
      then show "ctx ?s t' \<noteq> d" for t' using c r(3) by auto
      show "\<And>t' r'. C t' = Some (d, r') \<Longrightarrow> t' = u" using c r(3) by blast
    next
      fix d assume "d = q \<or> alive s d"
      then show "(\<exists>u. ctx ?s u = d) \<or> (\<exists>u r. C u = Some (d, r))"
      proof
        assume "d = q" then have "ctx ?s t = d" by simp then show ?thesis by blast
      next
        assume a: "alive s d"
        then have "d \<noteq> 0" using i(7) unfolding objs_ok_def obj_def alive_def by fastforce
        then have "ctx s u = d \<Longrightarrow> ctx ?s u = d" for u using t by auto
        then show ?thesis using a r(4) by blast
      qed
    qed
  qed
  moreover have "steps_ok ?s C cls U" using i(6) q unfolding steps_ok_def chains_ok_def by (auto simp: new_dir_def split: if_splits)
  moreover have "objs_ok ?s" by (rule objs_ok_new [OF i(7) f, of _ 0]) (auto simp: obj_def)
  ultimately show ?thesis unfolding ta_inv_def by blast
qed

lemma link_blocks_eq:
  "link_blocks p w b k s = (grid b w (Suc k), s\<lparr>hpage := (\<lambda>x. if x \<in> set (grid b w (Suc k)) then p else hpage s x)\<rparr>)"
proof (induction k arbitrary: b s)
  case 0
  then show ?case by (simp add: grid_def fun_upd_def fun_eq_iff)
next
  case (Suc k)
  then show ?case by (simp add: grid_Cons [of b w "Suc k"] Let_def) (auto simp: fun_eq_iff)
qed

lemma new_slots: "i < 5 \<Longrightarrow> slots i p = (p + 24) # grid (p + 24 + chain_block_size ! i) (chain_block_size ! i) (Suc (4096 div chain_block_size ! i - 2))"
proof -
  assume i: "i < 5"
  have "4096 div 256 \<le> 4096 div chain_block_size ! i" using block_sizes [OF i] by (intro div_le_mono2) simp_all
  then have "4096 div chain_block_size ! i = Suc (Suc (4096 div chain_block_size ! i - 2))" by simp
  then show ?thesis using grid_Cons unfolding slots_def by (metis ta_consts(4,6))
qed

text \<open>Blocks of the pages there are do not lie on a fresh page.\<close>

lemma old_block_off_page:
  assumes o: "objs_ok s" and f: "fresh s p 4120" and pl: "place (pgs s) (hpage s) cls e b j" and i: "i < 5" and j: "cls (hpage s b) < 5"
  shows "hpage s b \<noteq> p" "b \<notin> set (slots i p)"
proof -
  have "pgs s (hpage s b) \<noteq> None" using pl by (auto simp: place_def on_page_def)
  then have "obj s 1 (hpage s b) 4120" by (simp add: obj_def)
  then have a: "apart p 4120 (hpage s b) 4120" using f unfolding fresh_def by blast
  then show "hpage s b \<noteq> p" by (auto simp: apart_def)
  have "j = cls (hpage s b)" "b \<in> set (slots j (hpage s b))" using pl by (auto simp: place_def)
  then have "hpage s b + 24 \<le> b \<and> b + 32 \<le> hpage s b + 4120" using slot_bounds block_sizes [OF j] by fastforce
  moreover have "p + 24 \<le> b \<and> b + 32 \<le> p + 4120" if "b \<in> set (slots i p)"
    using slot_bounds [OF that] block_sizes [OF i] by simp
  ultimately show "b \<notin> set (slots i p)" using a by (auto simp: apart_def)
qed

definition paged :: "nat \<Rightarrow> nat \<Rightarrow> nat \<Rightarrow> thread_alloc_dir \<Rightarrow> tstate \<Rightarrow> tstate" where
  "paged d i p D s = s\<lparr>pgs := (pgs s)(p \<mapsto> \<lparr>pg_dir = d, n_allocated_blocks = 0\<rparr>),
     hpage := (\<lambda>x. if x \<in> set (slots i p) then p else hpage s x),
     dirs := (dirs s)(d \<mapsto> D\<lparr>pages := p # pages D, chain := (chain D)(i := tl (slots i p))\<rparr>)\<rparr>"

lemma new_page_eq:
  assumes "dirs s d = Some D" and "p \<noteq> 0" and i: "i < 5"
  shows "new_page d i p s = Some (p + 24, paged d i p D s)"
proof -
  let ?g = "grid (p + 24 + chain_block_size ! i) (chain_block_size ! i) (Suc (4096 div chain_block_size ! i - 2))"
  let ?s1 = "s\<lparr>pgs := (pgs s)(p \<mapsto> \<lparr>pg_dir = d, n_allocated_blocks = 0\<rparr>)\<rparr>"
  let ?s2 = "?s1\<lparr>hpage := (\<lambda>x. if x \<in> set ?g then p else hpage s x)\<rparr>"
  have "new_page d i p s = Some (p + 24, ?s2\<lparr>hpage := (hpage ?s2)(p + 24 := p),
      dirs := (dirs ?s2)(d \<mapsto> D\<lparr>pages := p # pages D, chain := (chain D)(i := ?g)\<rparr>)\<rparr>)"
    using assms by (simp add: new_page_def link_blocks_eq Let_def cong: if_cong)
  moreover have "(hpage ?s2)(p + 24 := p) = (\<lambda>x. if x \<in> set (slots i p) then p else hpage s x)" unfolding new_slots [OF i] by auto
  ultimately show ?thesis by (simp add: paged_def new_slots [OF i])
qed

lemma new_page_ok:
  assumes I: "ta_inv s L C cls U {}" and D: "dirs s d = Some D" and t: "ctx s t = d" "d \<noteq> 0" and i: "i < 5" and f: "fresh s p 4120"
    and empty: "chain D i = []"
  shows "ta_inv (paged d i p D s) L C (cls(p := i)) U {}" "held (paged d i p D s) (cls(p := i)) U d (p + 24) i"
proof -
  note v = ta_invD [OF I]
  let ?s = "paged d i p D s" and ?cls = "cls(p := i)"
  have p: "pgs s p = None" using fresh_None [OF f] by simp
  have "alive s d" using v(5) t unfolding roles_ok_def by blast
  then have nt: "\<not> terminated D" using D by (simp add: alive_def)
  have cl: "cls (hpage s b) < 5" if "place (pgs s) (hpage s) cls e b j" for e b j
    using that pages_okD(2) [OF v(1)] unfolding place_def on_page_def by blast
  have on: "on_page (pgs ?s) q e \<longleftrightarrow> on_page (pgs s) q e \<or> (q = p \<and> e = d)" for q e
    using p by (auto simp: on_page_def paged_def)
  have keep: "hpage ?s b = hpage s b \<and> place (pgs ?s) (hpage ?s) ?cls e b j \<and> hpage s b \<noteq> p" if "place (pgs s) (hpage s) cls e b j" for e b j
  proof -
    have *: "hpage s b \<noteq> p" "b \<notin> set (slots i p)" using old_block_off_page [OF v(7) f that i cl [OF that]] .
    then have "hpage ?s b = hpage s b" by (simp add: paged_def)
    then show ?thesis using that * on by (simp add: place_def)
  qed
  have U: "hpage ?s b = hpage s b \<and> hpage s b \<noteq> p \<and> b \<notin> set (slots i p)" if u: "b \<in> U" for b
  proof -
    obtain e where e: "place (pgs s) (hpage s) cls e b (chain_of (hsize s b))" using counted_okD(3) [OF v(2) u] by blast
    show ?thesis using keep [OF e] old_block_off_page [OF v(7) f e i cl [OF e]] by blast
  qed
  have ofp: "of_page (hpage ?s) U q = of_page (hpage s) U q" for q using U by (auto simp: of_page_def)
  have ofp0: "of_page (hpage s) U p = {}" using U by (auto simp: of_page_def)
  have ofd: "of_dir (pgs ?s) (hpage ?s) U e = of_dir (pgs s) (hpage s) U e" for e using U on by (auto simp: of_dir_def)
  have chs: "chains_ok (pgs ?s) (hpage ?s) ?cls U e E" if "chains_ok (pgs s) (hpage s) cls U e E" for e E
    using that keep unfolding chains_ok_def by blast
  have tls: "distinct (tl (slots i p)) \<and> p + 24 \<notin> set (tl (slots i p)) \<and> set (tl (slots i p)) \<subseteq> set (slots i p) \<and> p + 24 \<in> set (slots i p)"
    using distinct_slots [OF i, of p] unfolding new_slots [OF i] by auto
  have slot: "place (pgs ?s) (hpage ?s) ?cls d b i \<and> b \<notin> U" if "b \<in> set (slots i p)" for b
    using that on U by (auto simp: place_def paged_def on_page_def)
  show "held ?s ?cls U d (p + 24) i" using slot tls i by (simp add: held_def paged_def)
  have dirs: "dirs ?s e = (if e = d then Some (D\<lparr>pages := p # pages D, chain := (chain D)(i := tl (slots i p))\<rparr>) else dirs s e)" for e
    by (simp add: paged_def)
  have "pages_ok ?s ?cls U"
    unfolding pages_ok_def ofp
  proof (intro allI impI)
    fix q qg assume "pgs ?s q = Some qg"
    then show "dirs ?s (pg_dir qg) \<noteq> None \<and> ?cls q < 5 \<and> n_allocated_blocks qg = card (of_page (hpage s) U q)"
      using pages_okD [OF v(1), of q qg] ofp0 i dirs by (cases "q = p") (auto simp: paged_def)
  qed
  moreover have "counted_ok ?s ?cls U"
  proof -
    have "hsize ?s = hsize s" by (simp add: paged_def)
    moreover have "\<exists>e. place (pgs ?s) (hpage ?s) ?cls e b (chain_of (hsize s b))" if u: "b \<in> U" for b
      using counted_okD(3) [OF v(2) u] keep by blast
    ultimately show ?thesis using counted_okD(1,2) [OF v(2)] unfolding counted_ok_def by simp
  qed
  moreover have "dir_ok (pgs ?s) (hpage ?s) U e E" if e: "dirs ?s e = Some E" for e E
  proof (cases "e = d")
    case True
    have "p \<notin> set (pages D)" "set (p # pages D) = {q. on_page (pgs ?s) q d}" "distinct (pages D)"
      using v(3) [OF D] nt on p by (auto simp: dir_ok_def on_page_def)
    then show ?thesis using e True v(3) [OF D] nt unfolding dir_ok_def ofd ofp by (auto simp: dirs)
  next
    case False
    then have "dirs s e = Some E" "{q. on_page (pgs ?s) q e} = {q. on_page (pgs s) q e}" using e on by (auto simp: dirs)
    then show ?thesis using v(3) [of e E] False on unfolding dir_ok_def ofd ofp by auto
  qed
  moreover have "live_ok ?s L U {}"
  proof -
    let ?d = "s\<lparr>dirs := (dirs s)(d \<mapsto> D\<lparr>pages := p # pages D, chain := (chain D)(i := tl (slots i p))\<rparr>)\<rparr>"
    have "live_ok ?d L U {}" using v(4) live_dirs [OF D, of "D\<lparr>pages := p # pages D, chain := (chain D)(i := tl (slots i p))\<rparr>"] by simp
    moreover have "waiting ?s = waiting ?d" by (simp add: waiting_def paged_def fun_eq_iff)
    ultimately show ?thesis unfolding live_ok_def by (simp add: paged_def)
  qed
  moreover have "alive ?s = alive s" using D by (auto simp: alive_def fun_eq_iff paged_def)
  then have "roles_ok ?s C" using v(5) by (simp add: roles_ok_def paged_def)
  moreover have "steps_ok ?s C ?cls U"
    unfolding steps_ok_def ofp
  proof (intro conjI allI impI)
    fix t' e q assume c: "C t' = Some (e, Deciding)" and q: "on_page (pgs ?s) q e"
    have "e \<noteq> d" using c t v(5) unfolding roles_ok_def by blast
    then show "of_page (hpage s) U q \<noteq> {}" using c q on v(6) unfolding steps_ok_def by blast
  next
    fix t' E assume c: "ctx ?s t' \<noteq> 0" and E: "dirs ?s (ctx ?s t') = Some E"
    have ct: "ctx ?s t' = ctx s t'" by (simp add: paged_def)
    show "chains_ok (pgs ?s) (hpage ?s) ?cls U (ctx ?s t') E"
    proof (cases "ctx s t' = d")
      case True
      have "chains_ok (pgs ?s) (hpage ?s) ?cls U d D" using chs own_chains [OF I, of t] t D by simp
      moreover have "E = D\<lparr>pages := p # pages D, chain := (chain D)(i := tl (slots i p))\<rparr>" using E True ct by (simp add: dirs)
      moreover have "place (pgs ?s) (hpage ?s) ?cls d b i \<and> b \<notin> U" if "b \<in> set (tl (slots i p))" for b using that tls slot by blast
      ultimately show ?thesis using True ct tls unfolding chains_ok_def by simp
    next
      case False
      then show ?thesis using chs own_chains [OF I, of t' E] c E ct by (simp add: dirs)
    qed
  qed
  moreover have "objs_ok ?s"
    by (rule objs_ok_new [OF v(7) f, of _ 1]) (use D p in \<open>auto simp: obj_def paged_def\<close>)
  ultimately show "ta_inv ?s L C ?cls U {}" unfolding ta_inv_def by blast
qed

lemma take_block_ok:
  assumes I: "ta_inv s L C cls U {}" and D: "dirs s d = Some D" and t: "ctx s t = d" "d \<noteq> 0" and i: "i < 5" and f: "fresh s p 4120"
  shows "\<exists>b s' cls'. take_block d i p s = Some (b, s') \<and> ta_inv s' L C cls' U {} \<and> held s' cls' U d b i \<and>
    ctx s' = ctx s \<and> hsize s' = hsize s \<and> large s' = large s \<and> bytes s' = bytes s"
proof (cases "chain D i")
  case Nil
  have "p \<noteq> 0" using f by (simp add: fresh_def)
  then have "take_block d i p s = Some (p + 24, paged d i p D s)" using new_page_eq [OF D _ i] D Nil by (simp add: take_block_def)
  moreover have "ctx (paged d i p D s) = ctx s" "hsize (paged d i p D s) = hsize s" "large (paged d i p D s) = large s"
    "bytes (paged d i p D s) = bytes s" by (simp_all add: paged_def)
  ultimately show ?thesis using new_page_ok [OF I D t i f Nil] by blast
next
  case (Cons b bs)
  let ?f = "(chain D)(i := bs)"
  let ?s = "s\<lparr>dirs := (dirs s)(d \<mapsto> D\<lparr>chain := ?f\<rparr>)\<rparr>"
  have c: "chains_ok (pgs s) (hpage s) cls U d D" using own_chains [OF I, of t] t D by simp
  then have "chains_ok (pgs s) (hpage s) cls U d (D\<lparr>chain := ?f\<rparr>)" using Cons i unfolding chains_ok_def by auto
  then have "ta_inv ?s L C cls U {}" by (intro chain_update_inv [OF I D]) simp
  moreover have "held ?s cls U d b i" using c Cons i unfolding chains_ok_def held_def by auto
  moreover have "take_block d i p s = Some (b, ?s)" using D Cons by (simp add: take_block_def)
  ultimately show ?thesis by (intro exI [of _ b] exI [of _ ?s] exI [of _ cls]) simp
qed

lemma objs_apart: "objs_ok s \<Longrightarrow> obj s k a n \<Longrightarrow> obj s l b m \<Longrightarrow> k \<noteq> l \<or> a \<noteq> b \<Longrightarrow> apart a n b m"
  unfolding objs_ok_def by blast

text \<open>A block on a page is no large block.\<close>

lemma place_not_large:
  assumes o: "objs_ok s" and pl: "place (pgs s) (hpage s) cls d b i" and i: "i < 5"
  shows "large s b = None"
proof (rule ccontr)
  assume "large s b \<noteq> None"
  then obtain k where "large s b = Some k" by blast
  then have l: "obj s 2 b k" by (simp add: obj_def)
  have "pgs s (hpage s b) \<noteq> None" using pl by (auto simp: place_def on_page_def)
  then have "obj s 1 (hpage s b) 4120" by (simp add: obj_def)
  then have "apart b k (hpage s b) 4120" by (rule objs_apart [OF o l]) simp
  then show False using slot_bounds [of b i "hpage s b"] block_sizes [OF i] pl by (auto simp: place_def apart_def)
qed

definition counted :: "nat \<Rightarrow> nat \<Rightarrow> nat \<Rightarrow> alloc_page \<Rightarrow> thread_alloc_dir \<Rightarrow> tstate \<Rightarrow> tstate" where
  "counted d b sz pg D s = s\<lparr>pgs := (pgs s)(hpage s b \<mapsto> pg\<lparr>n_allocated_blocks := n_allocated_blocks pg + 1\<rparr>),
     dirs := (dirs s)(d \<mapsto> D\<lparr>n_allocated_objects := n_allocated_objects D + 1\<rparr>), hsize := (hsize s)(b := sz)\<rparr>"

lemma count_ok:
  assumes I: "ta_inv s L C cls U {}" and h: "held s cls U d b (chain_of sz)" and t: "ctx s t = d" "d \<noteq> 0"
    and sz: "fits sz" "n + 16 \<le> sz"
  shows "\<exists>s'. count_block d b s = Some s' \<and> ta_inv (s'\<lparr>hsize := (hsize s')(b := sz)\<rparr>) (L(b + 16 \<mapsto> n)) C cls (insert b U) {} \<and>
    ctx s' = ctx s \<and> hsize s' = hsize s \<and> large s' = large s \<and> bytes s' = bytes s"
proof -
  note v = ta_invD [OF I]
  have pl: "place (pgs s) (hpage s) cls d b (chain_of sz)" and nU: "b \<notin> U" and i5: "chain_of sz < 5" using h by (simp_all add: held_def)
  obtain D where D: "dirs s d = Some D" "b \<notin> set (chain D (chain_of sz))" using h by (auto simp: held_def)
  have "alive s d" using v(5) t unfolding roles_ok_def by blast
  then have nt: "\<not> terminated D" using D(1) by (simp add: alive_def)
  obtain pg where pg: "pgs s (hpage s b) = Some pg" "pg_dir pg = d" using pl by (auto simp: place_def on_page_def)
  have onb: "on_page (pgs s) (hpage s b) e \<longleftrightarrow> e = d" for e using pg by (auto simp: on_page_def)
  let ?s = "counted d b sz pg D s" and ?U = "insert b U"
  have simps: "hpage ?s = hpage s" "ctx ?s = ctx s" "large ?s = large s" "hsize ?s = (hsize s)(b := sz)"
    "dirs ?s = (dirs s)(d \<mapsto> D\<lparr>n_allocated_objects := n_allocated_objects D + 1\<rparr>)" by (simp_all add: counted_def)
  have on: "on_page (pgs ?s) = on_page (pgs s)" using pg(1) by (auto simp: counted_def on_page_def fun_eq_iff)
  have plc: "place (pgs ?s) = place (pgs s)" unfolding place_def on fun_eq_iff by simp
  have ofd: "of_dir (pgs ?s) = of_dir (pgs s)" unfolding of_dir_def on fun_eq_iff by simp
  have fin: "finite U" using counted_okD(1) [OF v(2)] .
  have nb: "b \<notin> of_page (hpage s) U q" "b \<notin> of_dir (pgs s) (hpage s) U e" for q e using nU by (simp_all add: of_page_def of_dir_def)
  have nl: "large s b = None" by (rule place_not_large [OF v(7) pl i5])
  have "pages_ok ?s cls ?U"
    unfolding pages_ok_def simps
  proof (intro allI impI)
    fix q qg assume "pgs ?s q = Some qg"
    then show "((dirs s)(d \<mapsto> D\<lparr>n_allocated_objects := n_allocated_objects D + 1\<rparr>)) (pg_dir qg) \<noteq> None \<and> cls q < 5 \<and>
        n_allocated_blocks qg = card (of_page (hpage s) ?U q)"
      using pages_okD [OF v(1) pg(1)] pages_okD [OF v(1), of q qg] fin nb
      by (cases "q = hpage s b") (auto simp: counted_def of_page_insert)
  qed
  moreover have "counted_ok ?s cls ?U"
    using counted_okD [OF v(2)] nU pl sz(1) unfolding counted_ok_def plc simps by auto
  moreover have "dir_ok (pgs ?s) (hpage ?s) ?U e E" if e: "dirs ?s e = Some E" for e E
  proof (cases "e = d")
    case True
    then show ?thesis using e v(3) [OF D(1)] nt nb(2) [of d] fin
      unfolding dir_ok_def ofd on simps by (auto simp: of_dir_insert onb)
  next
    case False
    then show ?thesis using e v(3) [of e E] unfolding dir_ok_def ofd on simps by (auto simp: of_dir_insert of_page_insert onb)
  qed
  moreover have "live_ok ?s (L(b + 16 \<mapsto> n)) ?U {}"
  proof -
    have w: "waiting ?s x = waiting s x" for x
      using waiting_dirs [OF D(1), of "D\<lparr>n_allocated_objects := n_allocated_objects D + 1\<rparr>"] by (simp add: waiting_def counted_def)
    have wb: "\<not> waiting s b" using v(3) nU unfolding waiting_def dir_ok_def of_dir_def by blast
    note l = live_okD [OF v(4)]
    have "x = b" if "x + 16 = b + 16" for x :: nat using that by simp
    moreover have "a = b + 16" if "L a = Some m" "a - 16 = b" for a m using l(1) [OF that(1)] that(2) by linarith
    ultimately show ?thesis unfolding live_ok_def w simps using l nU nl wb sz(2) by (auto; metis)
  qed
  moreover have "alive ?s = alive s" using D(1) by (auto simp: alive_def fun_eq_iff counted_def)
  then have "roles_ok ?s C" using v(5) by (simp add: roles_ok_def simps)
  moreover have "steps_ok ?s C cls ?U"
    unfolding steps_ok_def on simps
  proof (intro conjI allI impI)
    fix u e q assume "C u = Some (e, Deciding)" "on_page (pgs s) q e"
    then show "of_page (hpage s) ?U q \<noteq> {}" using v(6) unfolding steps_ok_def by (auto simp: of_page_insert)
  next
    fix u E assume u: "ctx s u \<noteq> 0" and E: "((dirs s)(d \<mapsto> D\<lparr>n_allocated_objects := n_allocated_objects D + 1\<rparr>)) (ctx s u) = Some E"
    then obtain E0 where E0: "dirs s (ctx s u) = Some E0" "chain E = chain E0" using D(1) by (cases "ctx s u = d") auto
    have c: "chains_ok (pgs s) (hpage s) cls U (ctx s u) E0" by (rule own_chains [OF I u E0(1)])
    have "b \<notin> set (chain E0 j)" if "j < 5" for j
    proof
      assume m: "b \<in> set (chain E0 j)"
      then have "place (pgs s) (hpage s) cls (ctx s u) b j" using c that unfolding chains_ok_def by blast
      then have "j = chain_of sz" "ctx s u = d" using pl onb by (auto simp: place_def)
      then show False using m E0(1) D by simp
    qed
    then show "chains_ok (pgs ?s) (hpage s) cls ?U (ctx s u) E" using c E0(2) unfolding chains_ok_def plc by auto
  qed
  moreover have "obj ?s = obj s" using D(1) pg(1) by (auto simp: obj_def fun_eq_iff counted_def)
  then have "objs_ok ?s" using v(7) objs_ok_cong by blast
  ultimately have "ta_inv ?s (L(b + 16 \<mapsto> n)) C cls ?U {}" unfolding ta_inv_def by blast
  then show ?thesis using D(1) pg(1) by (simp add: count_block_def counted_def)
qed

end
