(* ===== verification/ThreadAllocSafe.thy ===== *)
theory ThreadAllocSafe
  imports ThreadAllocOps
begin

text \<open>
  Histories of threadalloc: requests and frees of any thread, the ends of threads and the steps of
  the clean-up in any order.
\<close>

section \<open>Allocation\<close>

text \<open>The answers of \<open>malloc\<close> that a request may get: objects apart from all that there are.\<close>

definition answers_ok :: "nat \<Rightarrow> nat \<Rightarrow> nat \<Rightarrow> nat \<Rightarrow> tstate \<Rightarrow> bool" where
  "answers_ok t n q p s \<longleftrightarrow>
     (if MAX_BLOCK_SIZE < total_size n then fresh s p (total_size n)
      else (ctx s t = 0 \<longrightarrow> fresh s q dir_bytes \<and> apart p page_bytes q dir_bytes) \<and> fresh s p page_bytes)"

lemma in_use_places:
  assumes I: "ta_inv s L C cls U G" and a: "L a = Some n"
  shows "16 \<le> a \<and> n + 16 \<le> hsize s (a - 16)" and
    "large s (a - 16) = Some (hsize s (a - 16)) \<or> a - 16 \<in> U \<and> (\<exists>d. place (pgs s) (hpage s) cls d (a - 16) (chain_of (hsize s (a - 16))) \<and>
       chain_of (hsize s (a - 16)) < 5 \<and> hsize s (a - 16) \<le> chain_block_size ! chain_of (hsize s (a - 16)))"
proof -
  note v = ta_invD [OF I]
  note l = live_okD [OF v(4)]
  show "16 \<le> a \<and> n + 16 \<le> hsize s (a - 16)" using l(1) [OF a] by simp
  show "large s (a - 16) = Some (hsize s (a - 16)) \<or> a - 16 \<in> U \<and> (\<exists>d. place (pgs s) (hpage s) cls d (a - 16) (chain_of (hsize s (a - 16))) \<and>
       chain_of (hsize s (a - 16)) < 5 \<and> hsize s (a - 16) \<le> chain_block_size ! chain_of (hsize s (a - 16)))"
  proof (cases "large s (a - 16)")
    case None
    then have u: "a - 16 \<in> U" using l(1) [OF a] by simp
    then show ?thesis using counted_okD(3) [OF v(2) u] fits_chain [OF counted_okD(2) [OF v(2) u]] by blast
  next
    case (Some k)
    then show ?thesis using l(2) by simp
  qed
qed

text \<open>A fresh object is at no block in use.\<close>

lemma fresh_not_in_use:
  assumes I: "ta_inv s L C cls U G" and f: "fresh s p n" and n: "0 < n"
  shows "L (p + 16) = None" "p \<notin> U" "large s p = None"
proof -
  note v = ta_invD [OF I]
  show lg: "large s p = None"
  proof (rule ccontr)
    assume "large s p \<noteq> None"
    then obtain k where k: "large s p = Some k" by blast
    then have "obj s 2 p k" "256 < k" using live_okD(2) [OF v(4) k] by (simp_all add: obj_def)
    then show False using fresh_not_obj [OF f n, of k 2] by simp
  qed
  show u: "p \<notin> U"
  proof
    assume u: "p \<in> U"
    obtain d where pl: "place (pgs s) (hpage s) cls d p (chain_of (hsize s p))" using counted_okD(3) [OF v(2) u] by blast
    have "pgs s (hpage s p) \<noteq> None" using pl by (auto simp: place_def on_page_def)
    then have "obj s 1 (hpage s p) 4120" by (simp add: obj_def)
    then have "apart p n (hpage s p) 4120" using f unfolding fresh_def by blast
    then show False using slot_bounds [of p "chain_of (hsize s p)" "hsize s p"] pl n
        slot_bounds [of p "chain_of (hsize s p)" "hpage s p"] block_sizes [OF fits_chain(1) [OF counted_okD(2) [OF v(2) u]]]
      by (auto simp: place_def apart_def)
  qed
  show "L (p + 16) = None"
  proof (cases "L (p + 16)")
    case (Some m)
    then show ?thesis using live_okD(1) [OF v(4) Some] u lg by simp
  qed simp
qed

lemma large_alloc_ok:
  assumes I: "ta_inv s L C cls U {}" and f: "fresh s p z" and z: "256 < z" "n + 16 \<le> z"
  shows "ta_inv (s\<lparr>large := (large s)(p \<mapsto> z), hsize := (hsize s)(p := z)\<rparr>) (L(p + 16 \<mapsto> n)) C cls U {}"
proof -
  note v = ta_invD [OF I]
  let ?s = "s\<lparr>large := (large s)(p \<mapsto> z), hsize := (hsize s)(p := z)\<rparr>"
  have n: "L (p + 16) = None" "p \<notin> U" "large s p = None" using fresh_not_in_use [OF I f] z(1) by simp_all
  have "pages_ok ?s cls U" using v(1) by (simp add: pages_ok_def)
  moreover have "counted_ok ?s cls U" using v(2) n(2) unfolding counted_ok_def by auto
  moreover have "live_ok ?s (L(p + 16 \<mapsto> n)) U {}"
  proof -
    note l = live_okD [OF v(4)]
    have w: "waiting ?s x = waiting s x" for x by (simp add: waiting_def)
    have wp: "\<not> waiting s p" using n(2) v(3) unfolding waiting_def dir_ok_def of_dir_def by blast
    have "a = p + 16" if "L a = Some m" "a - 16 = p" for a m using l(1) [OF that(1)] that(2) by linarith
    then show ?thesis unfolding live_ok_def w using l n z wp by (auto; metis)
  qed
  moreover have "roles_ok ?s C" using v(5) by simp
  moreover have "steps_ok ?s C cls U" using v(6) by (simp add: steps_ok_def)
  moreover have "objs_ok ?s" by (rule objs_ok_new [OF v(7) f, of _ 2]) (use z n(3) in \<open>auto simp: obj_def\<close>)
  moreover have "\<forall>d D. dirs ?s d = Some D \<longrightarrow> dir_ok (pgs ?s) (hpage ?s) U d D" using v(3) by simp
  ultimately show ?thesis unfolding ta_inv_def by blast
qed

lemma own_dir_ok:
  assumes I: "ta_inv s L C cls U {}" and f: "ctx s t = 0 \<longrightarrow> fresh s q 112 \<and> apart p 4120 q 112" and p: "fresh s p 4120"
  shows "\<exists>d s' U'. own_dir t q s = Some (d, s') \<and> ta_inv s' L C cls U' {} \<and> ctx s' t = d \<and> d \<noteq> 0 \<and> fresh s' p 4120 \<and>
    hsize s' = hsize s \<and> large s' = large s \<and> bytes s' = bytes s"
proof (cases "ctx s t = 0")
  case True
  let ?s = "s\<lparr>dirs := (dirs s)(q \<mapsto> new_dir), ctx := (ctx s)(t := q)\<rparr>"
  have q: "fresh s q 112" "q \<noteq> 0" "apart p 4120 q 112" using f True by (simp_all add: fresh_def)
  have "fresh ?s p 4120" using p q(3) unfolding fresh_def obj_def by auto
  then show ?thesis using new_dir_ok [OF I q(1) True] True q(2) by (intro exI [of _ q] exI [of _ ?s] exI [of _ U]) (simp add: own_dir_def)
next
  case False
  obtain s' U' where s': "process_pending_requests (ctx s t) s = Some s'" "ta_inv s' L C cls U' {}" "quiet s s'"
    using process_pending_ok [OF I refl False] by blast
  then show ?thesis using False p quiet_fresh [OF s'(3)] by (auto simp: own_dir_def quiet_def)
qed

lemma thread_alloc_ok:
  assumes I: "ta_inv s L C cls U {}" and n: "n < 2 ^ 64 - 32" and ans: "answers_ok t n q p s"
  shows "\<exists>a s' cls' U'. thread_alloc t n q p s = Some (a, s') \<and> ta_inv s' (L(a \<mapsto> n)) C cls' U' {} \<and> L a = None \<and>
    bytes s' = bytes s \<and> (\<forall>b. L (b + 16) \<noteq> None \<longrightarrow> hsize s' b = hsize s b)"
proof (cases "256 < total_size n")
  case True
  have f: "fresh s p (total_size n)" using ans True by (simp add: answers_ok_def)
  let ?s = "s\<lparr>large := (large s)(p \<mapsto> total_size n), hsize := (hsize s)(p := total_size n)\<rparr>"
  have "ta_inv ?s (L(p + 16 \<mapsto> n)) C cls U {}" using large_alloc_ok [OF I f True] total_size_ge [OF n] by simp
  moreover have "thread_alloc t n q p s = Some (p + 16, ?s)" using True f by (simp add: thread_alloc_def Let_def fresh_def)
  moreover have "L (p + 16) = None" using fresh_not_in_use(1) [OF I f] True by simp
  ultimately show ?thesis by (intro exI [of _ "p + 16"] exI [of _ ?s] exI [of _ cls] exI [of _ U]) auto
next
  case False
  have z: "fits (total_size n)" "n + 16 \<le> total_size n" using total_size_fits [OF n] total_size_ge [OF n] False by simp_all
  note i5 = fits_chain(1) [OF z(1)]
  obtain d s1 U1 where s1: "own_dir t q s = Some (d, s1)" "ta_inv s1 L C cls U1 {}" "ctx s1 t = d" "d \<noteq> 0" "fresh s1 p 4120"
      "hsize s1 = hsize s" "large s1 = large s" "bytes s1 = bytes s"
    using own_dir_ok [OF I, of t q p] ans False by (auto simp: answers_ok_def)
  obtain D where D: "dirs s1 d = Some D" using ta_invD(5) [OF s1(2)] s1(3,4) unfolding roles_ok_def alive_def by blast
  obtain b s2 cls' where s2: "take_block d (chain_of (total_size n)) p s1 = Some (b, s2)" "ta_inv s2 L C cls' U1 {}"
      "held s2 cls' U1 d b (chain_of (total_size n))" "ctx s2 = ctx s1" "hsize s2 = hsize s1" "large s2 = large s1" "bytes s2 = bytes s1"
    using take_block_ok [OF s1(2) D s1(3,4) i5 s1(5)] by blast
  have "ctx s2 t = d" using s2(4) s1(3) by simp
  then obtain s3 where s3: "count_block d b s2 = Some s3"
      "ta_inv (s3\<lparr>hsize := (hsize s3)(b := total_size n)\<rparr>) (L(b + 16 \<mapsto> n)) C cls' (insert b U1) {}" "hsize s3 = hsize s2" "bytes s3 = bytes s2"
    using count_ok [OF s2(2,3) _ s1(4) z] by blast
  have h: "place (pgs s2) (hpage s2) cls' d b (chain_of (total_size n))" "b \<notin> U1" using s2(3) by (simp_all add: held_def)
  have "L (b + 16) = None"
  proof (cases "L (b + 16)")
    case (Some m)
    then show ?thesis using live_okD(1) [OF ta_invD(4) [OF s2(2)] Some] h(2) place_not_large [OF ta_invD(7) [OF s2(2)] h(1) i5] by simp
  qed simp
  moreover have "thread_alloc t n q p s = Some (b + 16, s3\<lparr>hsize := (hsize s3)(b := total_size n)\<rparr>)"
    using False s1(1) s2(1) s3(1) by (simp add: thread_alloc_def Let_def)
  ultimately show ?thesis using s3 s2(5,7) s1(6,8)
    by (intro exI [of _ "b + 16"] exI [of _ "s3\<lparr>hsize := (hsize s3)(b := total_size n)\<rparr>"] exI [of _ cls'] exI [of _ "insert b U1"]) auto
qed

section \<open>Release\<close>

lemma objs_ok_sub: "(\<And>k a n. obj s' k a n \<Longrightarrow> obj s k a n) \<Longrightarrow> objs_ok s \<Longrightarrow> objs_ok s'"
  unfolding objs_ok_def by blast

lemma large_free_ok:
  assumes I: "ta_inv s L C cls U {}" and b: "large s b = Some k"
  shows "ta_inv (s\<lparr>large := (large s)(b := None)\<rparr>) (L(b + 16 := None)) C cls U {}"
proof -
  note v = ta_invD [OF I]
  let ?s = "s\<lparr>large := (large s)(b := None)\<rparr>"
  have k: "hsize s b = k" "256 < k" using live_okD(2) [OF v(4) b] by simp_all
  then have u: "b \<notin> U" using counted_okD(2) [OF v(2), of b] by (auto simp: fits_def)
  have "pages_ok ?s cls U" using v(1) by (simp add: pages_ok_def)
  moreover have "counted_ok ?s cls U" using v(2) by (simp add: counted_ok_def)
  moreover have "live_ok ?s (L(b + 16 := None)) U {}"
  proof -
    note l = live_okD [OF v(4)]
    have w: "waiting ?s x = waiting s x" for x by (simp add: waiting_def)
    have ne: "a - 16 \<noteq> b" if "L a = Some m" "a \<noteq> b + 16" for a m using l(1) [OF that(1)] that(2) by linarith
    show ?thesis unfolding live_ok_def w
    proof (intro conjI allI impI ballI)
      fix a m assume "(L(b + 16 := None)) a = Some m"
      then have a: "L a = Some m" "a \<noteq> b + 16" by (auto split: if_splits)
      show "16 \<le> a" "m + 16 \<le> hsize ?s (a - 16)" "a - 16 \<in> U \<or> large ?s (a - 16) \<noteq> None"
        using l(1) [OF a(1)] ne [OF a] by simp_all
    next
      fix x j assume "large ?s x = Some j"
      then have x: "x \<noteq> b" "large s x = Some j" by (auto split: if_splits)
      show "(L(b + 16 := None)) (x + 16) \<noteq> None" "hsize ?s x = j" "256 < j" using l(2) [OF x(2)] x(1) by simp_all
    next
      fix x assume x: "x \<in> U"
      then have "x \<noteq> b" using u by blast
      then show "(L(b + 16 := None)) (x + 16) \<noteq> None \<or> x \<in> {} \<or> waiting s x" using l(3) [OF x] by simp
    qed (use l(4) in auto)
  qed
  moreover have "roles_ok ?s C" using v(5) by simp
  moreover have "steps_ok ?s C cls U" using v(6) by (simp add: steps_ok_def)
  moreover have "objs_ok ?s" by (rule objs_ok_sub [OF _ v(7)]) (auto simp: obj_def split: if_splits)
  moreover have "\<forall>d D. dirs ?s d = Some D \<longrightarrow> dir_ok (pgs ?s) (hpage ?s) U d D" using v(3) by simp
  ultimately show ?thesis unfolding ta_inv_def by blast
qed

text \<open>The user gives up a small block.\<close>

lemma give_up_ok:
  assumes I: "ta_inv s L C cls U {}" and b: "b \<in> U" "L (b + 16) \<noteq> None"
  shows "ta_inv s (L(b + 16 := None)) C cls U {b}"
proof -
  note v = ta_invD [OF I]
  note l = live_okD [OF v(4)]
  have nl: "large s b = None"
  proof (cases "large s b")
    case (Some k)
    then show ?thesis using l(2) [OF Some] counted_okD(2) [OF v(2) b(1)] by (simp add: fits_def)
  qed simp
  have nw: "\<not> waiting s b" using l(4) [of b] b(2) by auto
  have "live_ok s (L(b + 16 := None)) U {b}"
    unfolding live_ok_def
  proof (intro conjI allI impI ballI)
    fix a m assume "(L(b + 16 := None)) a = Some m"
    then have a: "L a = Some m" by (auto split: if_splits)
    show "16 \<le> a" "m + 16 \<le> hsize s (a - 16)" "a - 16 \<in> U \<or> large s (a - 16) \<noteq> None" using l(1) [OF a] by simp_all
  next
    fix x j assume x: "large s x = Some j"
    then have "x \<noteq> b" using nl by auto
    then show "(L(b + 16 := None)) (x + 16) \<noteq> None" "hsize s x = j" "256 < j" using l(2) [OF x] by simp_all
  next
    fix x assume x: "x \<in> U"
    show "(L(b + 16 := None)) (x + 16) \<noteq> None \<or> x \<in> {b} \<or> waiting s x" using l(3) [OF x] by (cases "x = b") simp_all
  next
    fix x assume x: "waiting s x"
    show "x \<notin> {b}" using x nw by auto
    show "(L(b + 16 := None)) (x + 16) = None" using l(4) [OF x] by simp
  qed (use b in auto)
  then show ?thesis using I unfolding ta_inv_def by blast
qed

lemma free_pending_ok:
  assumes I: "ta_inv s L C cls U {b}" and D: "dirs s d = Some D" "\<not> terminated D" and on: "on_page (pgs s) (hpage s b) d"
  shows "\<exists>s'. free_pending d b s = Some s' \<and> ta_inv s' L C cls U {} \<and> quiet s s'"
proof -
  note v = ta_invD [OF I]
  note l = live_okD [OF v(4)]
  let ?D = "D\<lparr>pending_chain := b # pending_chain D, n_pending_requests := n_pending_requests D + 1\<rparr>"
  let ?s = "s\<lparr>dirs := (dirs s)(d \<mapsto> ?D)\<rparr>"
  have bU: "b \<in> U" and nw: "\<not> waiting s b" using l(4,5) by blast+
  have w: "waiting ?s x \<longleftrightarrow> waiting s x \<or> x = b" for x
  proof
    assume "waiting ?s x"
    then show "waiting s x \<or> x = b" using D(1) unfolding waiting_def by (auto split: if_splits)
  next
    assume "waiting s x \<or> x = b"
    then have "\<exists>e E. ((dirs s)(d \<mapsto> ?D)) e = Some E \<and> x \<in> set (pending_chain E)"
    proof
      assume "x = b" then show ?thesis by (intro exI [of _ d] exI [of _ ?D]) simp
    next
      assume "waiting s x"
      then obtain e E where e: "dirs s e = Some E" "x \<in> set (pending_chain E)" unfolding waiting_def by blast
      then show ?thesis using D(1) by (intro exI [of _ e] exI [of _ "if e = d then ?D else E"]) auto
    qed
    then show "waiting ?s x" unfolding waiting_def by simp
  qed
  have "pages_ok ?s cls U" using v(1) D(1) unfolding pages_ok_def by auto
  moreover have "counted_ok ?s cls U" using v(2) by (simp add: counted_ok_def)
  moreover have "dir_ok (pgs ?s) (hpage ?s) U e E" if e: "dirs ?s e = Some E" for e E
  proof (cases "e = d")
    case True
    have "b \<notin> set (pending_chain D)" using nw D(1) unfolding waiting_def by blast
    then show ?thesis using e True v(3) [OF D(1)] D(2) bU on by (auto simp: dir_ok_def of_dir_def)
  next
    case False
    then show ?thesis using e v(3) [of e E] by simp
  qed
  moreover have "live_ok ?s L U {}" using l bU unfolding live_ok_def w by simp blast
  moreover have "roles_ok ?s C" using v(5) roles_dirs [OF D(1), of ?D] by simp
  moreover have "steps_ok ?s C cls U" using v(6) D(1) unfolding steps_ok_def chains_ok_def by auto
  moreover have "objs_ok ?s" using v(7) objs_ok_cong [OF obj_dirs [OF D(1)]] by simp
  moreover have "quiet s ?s" using D(1) by (auto simp: quiet_def alive_def fun_eq_iff)
  ultimately show ?thesis using D(1) unfolding ta_inv_def free_pending_def by auto
qed

section \<open>Pages and directories given back\<close>

text \<open>
  Pages \<open>R\<close> of \<open>d\<close> without a counted block disappear, and the directory changes to \<open>X\<close> or disappears
  with its last page. \<open>d\<close> belongs to no running thread.
\<close>

lemma shrink:
  assumes p: "pages_ok s cls U" and c: "counted_ok s cls U" and k: "steps_ok s C cls U" and o: "objs_ok s"
    and D: "dirs s d = Some D" and other: "\<And>e E. e \<noteq> d \<Longrightarrow> dirs s e = Some E \<Longrightarrow> dir_ok (pgs s) (hpage s) U e E"
    and nt: "\<forall>t. ctx s t \<noteq> d"
    and R: "\<And>q. q \<in> R \<Longrightarrow> on_page (pgs s) q d \<and> of_page (hpage s) U q = {}"
    and s': "s' = s\<lparr>pgs := (\<lambda>q. if q \<in> R then None else pgs s q), dirs := (dirs s)(d := X)\<rparr>"
    and gone: "X = None \<Longrightarrow> (\<forall>q. on_page (pgs s) q d \<longrightarrow> q \<in> R)"
    and stay: "\<And>D'. X = Some D' \<Longrightarrow> dir_ok (pgs s') (hpage s) U d D'"
    and l: "live_ok s' L U G" and r: "roles_ok s' C"
  shows "ta_inv s' L C cls U G"
proof -
  have on: "on_page (pgs s') q e \<longleftrightarrow> on_page (pgs s) q e \<and> q \<notin> R" for q e by (auto simp: s' on_page_def)
  have UR: "hpage s b \<notin> R" if "b \<in> U" for b using R that by (auto simp: of_page_def)
  have ofd: "of_dir (pgs s') (hpage s) U e = of_dir (pgs s) (hpage s) U e" for e using UR on by (auto simp: of_dir_def)
  have offd: "on_page (pgs s') q e \<longleftrightarrow> on_page (pgs s) q e" if "e \<noteq> d" for q e using that R on on_page_fun by blast
  have pl: "place (pgs s') (hpage s) cls e b j" if "place (pgs s) (hpage s) cls e b j" "hpage s b \<notin> R" for e b j
    using that on by (simp add: place_def)
  have "pages_ok s' cls U"
    unfolding pages_ok_def
  proof (intro allI impI)
    fix q qg assume q: "pgs s' q = Some qg"
    then have q0: "pgs s q = Some qg" "q \<notin> R" by (auto simp: s' split: if_splits)
    have "pg_dir qg \<noteq> d \<or> X \<noteq> None" using gone q0 unfolding on_page_def by blast
    then show "dirs s' (pg_dir qg) \<noteq> None \<and> cls q < 5 \<and> n_allocated_blocks qg = card (of_page (hpage s') U q)"
      using pages_okD [OF p q0(1)] by (auto simp: s')
  qed
  moreover have "counted_ok s' cls U"
  proof -
    have "\<exists>e. place (pgs s') (hpage s) cls e b (chain_of (hsize s b))" if "b \<in> U" for b
      using counted_okD(3) [OF c that] pl UR [OF that] by blast
    then show ?thesis using counted_okD(1,2) [OF c] unfolding counted_ok_def by (simp add: s')
  qed
  moreover have "dir_ok (pgs s') (hpage s') U e E" if e: "dirs s' e = Some E" for e E
  proof (cases "e = d")
    case True
    then show ?thesis using e stay by (simp add: s')
  next
    case False
    then show ?thesis using e other [of e E] offd [OF False] ofd unfolding dir_ok_def by (simp add: s')
  qed
  moreover have "steps_ok s' C cls U"
    unfolding steps_ok_def
  proof (intro conjI allI impI)
    fix t e q assume "C t = Some (e, Deciding)" "on_page (pgs s') q e"
    then show "of_page (hpage s') U q \<noteq> {}" using k on unfolding steps_ok_def by (simp add: s')
  next
    fix t E assume t: "ctx s' t \<noteq> 0" and E: "dirs s' (ctx s' t) = Some E"
    have ct: "ctx s' t = ctx s t" "ctx s t \<noteq> d" using nt by (simp_all add: s')
    then have c: "chains_ok (pgs s) (hpage s) cls U (ctx s t) E" using k t E unfolding steps_ok_def by (simp add: s')
    have "hpage s b \<notin> R" if "place (pgs s) (hpage s) cls (ctx s t) b j" for b j
      using that R ct(2) on_page_fun unfolding place_def by blast
    then have "chains_ok (pgs s') (hpage s) cls U (ctx s t) E" using c pl unfolding chains_ok_def by blast
    then show "chains_ok (pgs s') (hpage s') cls U (ctx s' t) E" by (simp add: s')
  qed
  moreover have "obj s' j a n \<Longrightarrow> obj s j a n" for j a n using D by (auto simp: obj_def s' split: if_splits)
  then have "objs_ok s'" by (rule objs_ok_sub [OF _ o])
  ultimately show ?thesis using l r unfolding ta_inv_def by blast
qed

lemma dir_ok_terminatedI:
  "n_allocated_objects D = int (card (of_dir P H U d)) \<Longrightarrow> pending_chain D = [] \<Longrightarrow> terminated D \<Longrightarrow>
     of_dir P H U d \<noteq> {} \<Longrightarrow> (\<And>p. on_page P p d \<Longrightarrow> of_page H U p \<noteq> {}) \<Longrightarrow> dir_ok P H U d D"
  by (simp add: dir_ok_def)

lemma free_terminated_ok:
  assumes I: "ta_inv s L C cls U {b}" and D: "dirs s d = Some D" "terminated D" and on: "on_page (pgs s) (hpage s b) d"
  shows "\<exists>s'. free_terminated d b s = Some s' \<and> ta_inv s' L C cls (U - {b}) {} \<and> bytes s' = bytes s \<and> hsize s' = hsize s"
proof -
  note v = ta_invD [OF I]
  obtain pg where pg: "pgs s (hpage s b) = Some pg" "pg_dir pg = d" using on by (auto simp: on_page_def)
  have U: "b \<in> U" "finite U" using live_okD(5) [OF v(4)] counted_okD(1) [OF v(2)] by auto
  let ?s = "uncounted d b pg D s" and ?U = "U - {b}" and ?p = "hpage s b"
  let ?D = "D\<lparr>n_allocated_objects := n_allocated_objects D - 1\<rparr>"
  have on1: "on_page (pgs ?s) = on_page (pgs s)" and ofd1: "of_dir (pgs ?s) = of_dir (pgs s)"
    and pl1: "place (pgs ?s) = place (pgs s)" using uncounted_places [OF pg(1)] by blast+
  have na: "\<not> alive s d" using D by (simp add: alive_def)
  have nd: "\<forall>t. C t \<noteq> Some (d, Deciding)" using v(5) na unfolding roles_ok_def by blast
  have p1: "pages_ok ?s cls ?U" using uncount_pages [OF v(1) U(2,1) pg(1) D(1)] unfolding uncounted_def .
  have c1: "counted_ok ?s cls ?U" using counted_okD [OF v(2)] pl1 unfolding counted_ok_def by simp
  have k1: "steps_ok ?s C cls ?U" unfolding uncounted_def by (rule uncount_steps [OF v(6) pg(1) D(1) pg(2) nd])
  have "obj ?s = obj s" using D pg(1) by (auto simp: obj_def fun_eq_iff uncounted_def)
  then have o1: "objs_ok ?s" using v(7) objs_ok_cong by blast
  have l1: "live_ok ?s L ?U ({b} - {b})" unfolding uncounted_def by (rule uncount_live [OF v(4) _ D(1)]) simp
  have d0: "n_allocated_objects D = int (card (of_dir (pgs s) (hpage s) U d))" "pending_chain D = []"
    "\<And>q. on_page (pgs s) q d \<Longrightarrow> of_page (hpage s) U q \<noteq> {}" using v(3) [OF D(1)] D(2) by (auto simp: dir_ok_def)
  have "b \<in> of_dir (pgs s) (hpage s) U d" using U(1) on by (simp add: of_dir_def)
  then have x: "int (card (of_dir (pgs s) (hpage s) U d - {b})) = int (card (of_dir (pgs s) (hpage s) U d)) - 1"
    by (rule card_Diff [OF finite_of(2) [OF U(2)]])
  have n1: "n_allocated_objects ?D = int (card (of_dir (pgs s) (hpage s) ?U d))" unfolding of_dir_Diff x using d0(1) by simp
  have other: "dir_ok (pgs ?s) (hpage ?s) ?U e E" if e: "e \<noteq> d" "dirs ?s e = Some E" for e E
  proof -
    have E: "dirs s e = Some E" using e by simp
    have "b \<notin> set (pending_chain E)" using live_okD(4) [OF v(4), of b] E unfolding waiting_def by blast
    then have "dir_ok (pgs s) (hpage s) ?U e E" using uncount_dir [OF v(3) [OF E] U(2,1) on] e(1) by simp
    then show ?thesis unfolding dir_ok_def uncounted_simps on1 ofd1 .
  qed
  have nt: "\<forall>t. ctx ?s t \<noteq> d"
  proof
    fix t
    have "d \<noteq> 0" using v(7) D(1) unfolding objs_ok_def obj_def by blast
    then show "ctx ?s t \<noteq> d" using v(5) na unfolding roles_ok_def by auto
  qed
  let ?R = "if of_page (hpage s) ?U ?p = {} then {?p} else {}"
  let ?X = "if of_dir (pgs s) (hpage s) ?U d = {} then None else Some ?D"
  let ?t = "?s\<lparr>pgs := (\<lambda>q. if q \<in> ?R then None else pgs ?s q), dirs := (dirs ?s)(d := ?X)\<rparr>"
  have pgs1: "pgs ?s ?p = Some (pg\<lparr>n_allocated_blocks := dec64 (n_allocated_blocks pg)\<rparr>)" by (simp add: uncounted_def)
  have cnt: "dec64 (n_allocated_blocks pg) = card (of_page (hpage s) ?U ?p)" using pages_okD(3) [OF p1 pgs1] by simp
  have un: "uncount d b s = Some ?s" using pg D(1) by (simp add: uncount_def uncounted_def)
  have z1: "(card (of_page (hpage s) ?U ?p) = 0) = (of_page (hpage s) ?U ?p = {})" using U(2) by (simp add: card_eq_0_iff del: of_page_Diff)
  have z2: "(card (of_dir (pgs s) (hpage s) ?U d) = 0) = (of_dir (pgs s) (hpage s) ?U d = {})" using U(2) by (simp add: card_eq_0_iff del: of_dir_Diff)
  have eq: "(\<lambda>q. if q \<in> {?p} then None else pgs ?s q) = (pgs ?s)(?p := None)" "(\<lambda>q. if q \<in> {} then None else pgs ?s q) = pgs ?s" by auto
  have "dirs ?s d = Some ?D" by simp
  then have same: "?s\<lparr>dirs := (dirs ?s)(d := Some ?D)\<rparr> = ?s" "\<And>P. ?s\<lparr>pgs := P, dirs := (dirs ?s)(d := Some ?D)\<rparr> = ?s\<lparr>pgs := P\<rparr>"
    by (cases ?s; auto)+
  have "free_terminated d b s = Some ?t"
  proof -
    have "free_terminated d b s =
       (let u = (if n_allocated_blocks (pg\<lparr>n_allocated_blocks := dec64 (n_allocated_blocks pg)\<rparr>) = 0
                 then ?s\<lparr>pgs := (pgs ?s)(?p := None)\<rparr> else ?s)
        in Some (if n_allocated_objects ?D = 0 then u\<lparr>dirs := (dirs u)(d := None)\<rparr> else u))"
      unfolding free_terminated_def un using pgs1 by simp
    also have "\<dots> = Some ?t"
      unfolding Let_def n1 using cnt z1 z2 same eq
      by (cases "of_page (hpage s) ?U ?p = {}"; cases "of_dir (pgs s) (hpage s) ?U d = {}")
        (simp_all del: of_page_Diff of_dir_Diff uncounted_simps)
    finally show ?thesis .
  qed
  moreover have "ta_inv ?t L C cls ?U {}"
  proof (rule shrink [OF p1 c1 k1 o1 _ other nt, of ?D ?R ?t ?X])
    show "dirs ?s d = Some ?D" by simp
    show "on_page (pgs ?s) q d \<and> of_page (hpage ?s) ?U q = {}" if "q \<in> ?R" for q
      using that on unfolding on1 uncounted_simps by (simp split: if_splits del: of_page_Diff)
    show "\<forall>q. on_page (pgs ?s) q d \<longrightarrow> q \<in> ?R" if x: "?X = None"
    proof (intro allI impI)
      fix q assume q: "on_page (pgs ?s) q d"
      have e: "of_dir (pgs s) (hpage s) ?U d = {}" using x by (simp split: if_splits del: of_dir_Diff)
      obtain c where c: "c \<in> U" "hpage s c = q" using d0(3) [of q] q unfolding on1 by (auto simp: of_page_def)
      have "c = b" using e c q unfolding on1 by (auto simp: of_dir_def)
      moreover have "of_page (hpage s) ?U ?p = {}" using e on by (auto simp: of_dir_def of_page_def)
      ultimately show "q \<in> ?R" using c(2) by (simp del: of_page_Diff)
    qed
    show "dir_ok (pgs ?t) (hpage ?s) ?U d E" if x: "?X = Some E" for E
    proof -
      have E: "E = ?D" "of_dir (pgs s) (hpage s) ?U d \<noteq> {}" using x by (simp_all split: if_splits del: of_dir_Diff)
      have ont: "on_page (pgs ?t) q e \<longleftrightarrow> on_page (pgs s) q e \<and> q \<notin> ?R" for q e
        using on1 by (auto simp: on_page_def fun_eq_iff simp del: of_page_Diff)
      have "hpage s c \<notin> ?R" if "c \<in> ?U" for c using that by (auto simp: of_page_def)
      then have oft: "of_dir (pgs ?t) (hpage s) ?U d = of_dir (pgs s) (hpage s) ?U d" using ont unfolding of_dir_def by blast
      have page: "of_page (hpage s) ?U q \<noteq> {}" if q: "on_page (pgs ?t) q d" for q
      proof (cases "q = ?p")
        case True
        then show ?thesis using q unfolding ont by (simp split: if_splits del: of_page_Diff)
      next
        case False
        then have "of_page (hpage s) ?U q = of_page (hpage s) U q" by (auto simp: of_page_def)
        then show ?thesis using q d0(3) [of q] unfolding ont by (simp del: of_page_Diff)
      qed
      have h: "hpage ?s = hpage s" by simp
      show ?thesis unfolding h E(1)
      proof (rule dir_ok_terminatedI [OF _ _ _ _ page])
        show "n_allocated_objects ?D = int (card (of_dir (pgs ?t) (hpage s) ?U d))" unfolding oft by (rule n1)
        show "of_dir (pgs ?t) (hpage s) ?U d \<noteq> {}" unfolding oft by (rule E(2))
      qed (use d0(2) D(2) in simp_all)
    qed
    show "live_ok ?t L ?U {}"
    proof -
      have "(\<exists>E. dirs ?t e = Some E \<and> x \<in> set (pending_chain E)) \<longleftrightarrow> (\<exists>E. dirs ?s e = Some E \<and> x \<in> set (pending_chain E))" for e x
        using d0(2) by (cases "e = d") (simp_all split: if_splits del: of_dir_Diff of_page_Diff)
      then have w: "waiting ?t x = waiting ?s x" for x unfolding waiting_def by (rule ex_cong1)
      then show ?thesis using l1 unfolding live_ok_def w by simp
    qed
    have "alive ?t = alive s" using D by (auto simp: alive_def fun_eq_iff simp del: of_dir_Diff of_page_Diff split: if_splits)
    then show "roles_ok ?t C" using v(5) unfolding roles_ok_def by simp
  qed simp_all
  ultimately show ?thesis by simp
qed

lemma thread_free_ok:
  assumes I: "ta_inv s L C cls U {}" and a: "L a \<noteq> None"
  shows "\<exists>s' U'. thread_free t a s = Some s' \<and> ta_inv s' (L(a := None)) C cls U' {} \<and> bytes s' = bytes s \<and> hsize s' = hsize s"
proof -
  note v = ta_invD [OF I]
  obtain n where n: "L a = Some n" using a by blast
  let ?b = "a - 16"
  have a16: "16 \<le> a" using in_use_places(1) [OF I n] by simp
  then have ab: "?b + 16 = a" by simp
  show ?thesis
  proof (cases "large s ?b")
    case (Some k)
    then have "256 < hsize s ?b" using live_okD(2) [OF v(4) Some] by simp
    then have "thread_free t a s = Some (s\<lparr>large := (large s)(?b := None)\<rparr>)" using Some by (simp add: thread_free_def Let_def)
    then show ?thesis using large_free_ok [OF I Some] unfolding ab by auto
  next
    case None
    then have u: "?b \<in> U" using live_okD(1) [OF v(4) n] by simp
    then have small: "\<not> 256 < hsize s ?b" using counted_okD(2) [OF v(2) u] by (simp add: fits_def)
    obtain pg where pg: "pgs s (hpage s ?b) = Some pg" using counted_place [OF v(2) u] .
    obtain D where D: "dirs s (pg_dir pg) = Some D" using pages_okD(1) [OF v(1) pg] by blast
    have on: "on_page (pgs s) (hpage s ?b) (pg_dir pg)" using pg by (simp add: on_page_def)
    have I1: "ta_inv s (L(a := None)) C cls U {?b}" using give_up_ok [OF I u] a unfolding ab by simp
    have eq: "thread_free t a s =
       (if pg_dir pg \<noteq> ctx s t then (if terminated D then free_terminated (pg_dir pg) ?b s else free_pending (pg_dir pg) ?b s)
        else do { s \<leftarrow> uncount (pg_dir pg) ?b s; push_block (pg_dir pg) ?b s })"
      using small pg D by (simp add: thread_free_def Let_def)
    show ?thesis
    proof (cases "pg_dir pg = ctx s t")
      case True
      have "pg_dir pg \<noteq> 0" using D v(7) unfolding objs_ok_def obj_def by blast
      then obtain s1 s' where "uncount (pg_dir pg) ?b s = Some s1" "push_block (pg_dir pg) ?b s1 = Some s'"
          "ta_inv s' (L(a := None)) C cls (U - {?b}) ({?b} - {?b})" "quiet s s'"
        using hand_back [OF I1 _ on True [symmetric]] by blast
      then show ?thesis using eq True by (auto simp: quiet_def)
    next
      case False
      show ?thesis
      proof (cases "terminated D")
        case True
        then show ?thesis using free_terminated_ok [OF I1 D True on] eq False by auto
      next
        case nt: False
        then show ?thesis using free_pending_ok [OF I1 D nt on] eq False by (auto simp: quiet_def)
      qed
    qed
  qed
qed

section \<open>Blocks in use lie apart\<close>

lemma apart_within: "apart x n y m \<Longrightarrow> x \<le> a \<Longrightarrow> a + k \<le> x + n \<Longrightarrow> y \<le> b \<Longrightarrow> b + j \<le> y + m \<Longrightarrow> apart a k b j"
  by (auto simp: apart_def)

lemma ta_live_apart:
  assumes I: "ta_inv s L C cls U G" and a: "L a = Some n" and b: "L b = Some m" and ne: "a \<noteq> b"
  shows "apart (a - 16) (hsize s (a - 16)) (b - 16) (hsize s (b - 16))"
proof -
  note v = ta_invD [OF I]
  let ?a = "a - 16" and ?b = "b - 16"
  have ne': "?a \<noteq> ?b" using ne in_use_places(1) [OF I a] in_use_places(1) [OF I b] by linarith
  have ext: "\<exists>k x z. obj s k x z \<and> x \<le> c \<and> c + hsize s c \<le> x + z \<and>
      (k = 2 \<and> x = c \<or> k = 1 \<and> x = hpage s c \<and> c \<in> set (slots (cls x) x) \<and> hsize s c \<le> chain_block_size ! cls x)"
    if c: "c + 16 = e" "L e = Some k" for c e k
  proof (cases "large s c = Some (hsize s c)")
    case True
    then have "obj s 2 c (hsize s c)" by (simp add: obj_def)
    then show ?thesis by blast
  next
    case False
    have "c = e - 16" using c(1) by simp
    then obtain d where pl: "place (pgs s) (hpage s) cls d c (chain_of (hsize s c))" "hsize s c \<le> chain_block_size ! chain_of (hsize s c)"
      using in_use_places(2) [OF I c(2)] False by auto
    have i: "cls (hpage s c) = chain_of (hsize s c)" "c \<in> set (slots (cls (hpage s c)) (hpage s c))" using pl(1) by (auto simp: place_def)
    have "obj s 1 (hpage s c) 4120" using pl(1) by (auto simp: place_def on_page_def obj_def)
    moreover have "hpage s c \<le> c" "c + hsize s c \<le> hpage s c + 4120" using slot_bounds [OF i(2)] i(1) pl(2) by simp_all
    ultimately show ?thesis using i pl(2) by (intro exI [of _ 1] exI [of _ "hpage s c"] exI [of _ 4120]) simp
  qed
  have ea: "?a + 16 = a" "?b + 16 = b" using in_use_places(1) [OF I a] in_use_places(1) [OF I b] by simp_all
  obtain k x z where A: "obj s k x z" "x \<le> ?a" "?a + hsize s ?a \<le> x + z"
      "k = 2 \<and> x = ?a \<or> k = 1 \<and> x = hpage s ?a \<and> ?a \<in> set (slots (cls x) x) \<and> hsize s ?a \<le> chain_block_size ! cls x"
    using ext [OF ea(1) a] by blast
  obtain l y w where B: "obj s l y w" "y \<le> ?b" "?b + hsize s ?b \<le> y + w"
      "l = 2 \<and> y = ?b \<or> l = 1 \<and> y = hpage s ?b \<and> ?b \<in> set (slots (cls y) y) \<and> hsize s ?b \<le> chain_block_size ! cls y"
    using ext [OF ea(2) b] by blast
  show ?thesis
  proof (cases "k = l \<and> x = y")
    case True
    then have "?a \<in> set (slots (cls x) x)" "?b \<in> set (slots (cls x) x)" "hsize s ?a \<le> chain_block_size ! cls x" "hsize s ?b \<le> chain_block_size ! cls x"
      using A(4) B(4) ne' by auto
    then show ?thesis using apart_within [OF slots_apart [OF _ _ ne']] by simp
  next
    case False
    then show ?thesis using apart_within [OF objs_apart [OF v(7) A(1) B(1)] A(2,3) B(2,3)] by blast
  qed
qed

section \<open>Resizing\<close>

text \<open>\<open>realloc\<close> moves a large block, or lets it grow where it is.\<close>

definition realloc_ok :: "nat \<Rightarrow> nat \<Rightarrow> nat \<Rightarrow> tstate \<Rightarrow> bool" where
  "realloc_ok b r n s \<longleftrightarrow> 0 < r \<and> (\<forall>k c m. obj s k c m \<longrightarrow> (k, c) \<noteq> (2, b) \<longrightarrow> apart r n c m)"

lemma ta_inv_bytes [simp]: "ta_inv (s\<lparr>bytes := w\<rparr>) L C cls U G = ta_inv s L C cls U G"
  by (simp add: ta_inv_def pages_ok_def counted_ok_def live_ok_def waiting_def roles_ok_def alive_def steps_ok_def objs_ok_def)

lemma realloc_large:
  assumes I: "ta_inv s L C cls U {}" and b: "large s b = Some k" and r: "realloc_ok b r z s" and z: "256 < z" "n + 16 \<le> z"
  shows "ta_inv (s\<lparr>large := (large s)(b := None, r \<mapsto> z), hsize := (hsize s)(r := z)\<rparr>) (L(b + 16 := None, r + 16 \<mapsto> n)) C cls U {}"
proof -
  let ?s = "s\<lparr>large := (large s)(b := None)\<rparr>"
  have "obj ?s l o' m \<Longrightarrow> obj s l o' m \<and> (l, o') \<noteq> (2, b)" for l o' m by (auto simp: obj_def split: if_splits)
  then have "fresh ?s r z" using r unfolding fresh_def realloc_ok_def by blast
  from large_alloc_ok [OF large_free_ok [OF I b] this z] show ?thesis by simp
qed

lemma copy_bytes_at: "i < n \<Longrightarrow> bytes (copy_bytes dst src n s) (dst + i) = bytes s (src + i)"
  by (simp add: copy_bytes_def add.commute)

lemma copy_bytes_other: "\<not> (dst \<le> x \<and> x < dst + n) \<Longrightarrow> bytes (copy_bytes dst src n s) x = bytes s x"
  by (auto simp: copy_bytes_def)

lemma thread_realloc_ok:
  assumes I: "ta_inv s L C cls U {}" and n: "n < 2 ^ 64 - 32" and ans: "answers_ok t n q p s" and a: "a = 0 \<or> L a \<noteq> None"
    and r: "large s (a - 16) \<noteq> None \<Longrightarrow> realloc_ok (a - 16) r (total_size n) s"
  shows "\<exists>a' s' cls' U'. thread_realloc t a n q p r s = Some (a', s') \<and> ta_inv s' (L(a := None, a' \<mapsto> n)) C cls' U' {} \<and>
    (\<forall>m i. L a = Some m \<longrightarrow> i < min m n \<longrightarrow> bytes s' (a' + i) = bytes s (a + i)) \<and>
    (\<forall>c j x. L c = Some j \<longrightarrow> c \<noteq> a \<longrightarrow> c \<le> x \<longrightarrow> x < c + j \<longrightarrow> bytes s' x = bytes s x)"
proof (cases "a = 0")
  case True
  obtain a' s' cls' U' where s': "thread_alloc t n q p s = Some (a', s')" "ta_inv s' (L(a' \<mapsto> n)) C cls' U' {}" "bytes s' = bytes s"
    using thread_alloc_ok [OF I n ans] by blast
  have "L 0 = None"
  proof (cases "L 0")
    case (Some m)
    then show ?thesis using in_use_places(1) [OF I Some] by simp
  qed simp
  then have "L(0 := None) = L" by auto
  then have "L(0 := None, a' \<mapsto> n) = L(a' \<mapsto> n)" by simp
  then show ?thesis using s' True \<open>L 0 = None\<close> by (auto simp: thread_realloc_def)
next
  case nz: False
  then obtain m where m: "L a = Some m" using a by blast
  note v = ta_invD [OF I]
  let ?b = "a - 16"
  have sz: "16 \<le> a" "m + 16 \<le> hsize s ?b" using in_use_places(1) [OF I m] by simp_all
  then have ab: "?b + 16 = a" by simp
  note z = total_size_ge [OF n]
  show ?thesis
  proof (cases "total_size n \<le> hsize s ?b")
    case True
    have "live_ok s (L(a := None, a \<mapsto> n)) U {}"
      using v(4) True z m unfolding live_ok_def by auto
    then have "ta_inv s (L(a := None, a \<mapsto> n)) C cls U {}" using I unfolding ta_inv_def by blast
    then show ?thesis using True nz by (auto simp: thread_realloc_def Let_def)
  next
    case grow: False
    show ?thesis
    proof (cases "256 < hsize s ?b")
      case True
      then obtain k where k: "large s ?b = Some k" "hsize s ?b = k"
        using live_okD(1) [OF v(4) m] counted_okD(2) [OF v(2), of ?b] live_okD(2) [OF v(4), of ?b] by (auto simp: fits_def)
      have rk: "realloc_ok ?b r (total_size n) s" "r \<noteq> 0" using r k(1) by (auto simp: realloc_ok_def)
      let ?s = "(copy_bytes r ?b (min k (total_size n)) s)\<lparr>large := (large s)(?b := None, r \<mapsto> total_size n), hsize := (hsize s)(r := total_size n)\<rparr>"
      have big: "256 < total_size n" "n + 16 \<le> total_size n" using grow True z by simp_all
      then have inv: "ta_inv ?s (L(a := None, r + 16 \<mapsto> n)) C cls U {}"
        using realloc_large [of "copy_bytes r ?b (min k (total_size n)) s" L C cls U ?b k r "total_size n" n] I k(1) rk(1) ab
        by (simp add: copy_bytes_def realloc_ok_def)
      have "thread_realloc t a n q p r s = Some (r + 16, ?s)"
        using nz grow True k rk(2) by (simp add: thread_realloc_def Let_def)
      moreover have "bytes ?s (r + 16 + i) = bytes s (a + i)" if "i < min m n" for i
        using that sz k(2) z ab by (simp add: copy_bytes_def add.commute)
      moreover have "bytes ?s x = bytes s x" if c: "L c = Some j" "c \<noteq> a" "c \<le> x" "x < c + j" for c j x
      proof (cases "c = r + 16")
        case True
        have "obj s 2 r k'" if "large s r = Some k'" for k' using that by (simp add: obj_def)
        then have "r = ?b \<or> large s r = None" using rk(1) big(1) unfolding realloc_ok_def apart_def
          by (cases "large s r") (fastforce dest: live_okD(2) [OF v(4)])+
        then have "r \<in> U" using live_okD(1) [OF v(4) c(1)] True c(2) ab by auto
        then obtain d where pl: "place (pgs s) (hpage s) cls d r (chain_of (hsize s r))" "chain_of (hsize s r) < 5"
          using counted_okD(3) [OF v(2)] fits_chain(1) [OF counted_okD(2) [OF v(2)]] by blast
        then have "obj s 1 (hpage s r) 4120" by (auto simp: place_def on_page_def obj_def)
        then have "apart r (total_size n) (hpage s r) 4120" using rk(1) unfolding realloc_ok_def by auto
        then show ?thesis using slot_bounds [of r "chain_of (hsize s r)" "hpage s r"] block_sizes [OF pl(2)] pl(1) big(1)
          by (auto simp: place_def apart_def)
      next
        case False
        have "(L(a := None, r + 16 \<mapsto> n)) (r + 16) = Some n" "(L(a := None, r + 16 \<mapsto> n)) c = Some j" using c False by simp_all
        note ap = ta_live_apart [OF inv this False [symmetric]] and cs = in_use_places(1) [OF inv this(2)]
        have "hsize ?s (r + 16 - 16) = total_size n" by simp
        then have "apart r (total_size n) (c - 16) (j + 16)" using apart_within [OF ap, of r "total_size n" "c - 16" "j + 16"] cs by linarith
        then have "r + total_size n \<le> x \<or> x < r" using c(3,4) in_use_places(1) [OF I c(1)] unfolding apart_def by linarith
        then have "\<not> (r \<le> x \<and> x < r + min k (total_size n))" by linarith
        then show ?thesis using copy_bytes_other by simp
      qed
      ultimately show ?thesis using m inv by (intro exI [of _ "r + 16"] exI [of _ ?s] exI [of _ cls] exI [of _ U]) auto
    next
      case False
      obtain a' s1 cls' U' where s1: "thread_alloc t n q p s = Some (a', s1)" "ta_inv s1 (L(a' \<mapsto> n)) C cls' U' {}" "L a' = None"
          "bytes s1 = bytes s" "\<forall>b. L (b + 16) \<noteq> None \<longrightarrow> hsize s1 b = hsize s b"
        using thread_alloc_ok [OF I n ans] by blast
      have ne: "a' \<noteq> a" using s1(3) m by auto
      have hs: "hsize s1 ?b = hsize s ?b" using s1(5) m ab by (metis option.distinct(1))
      let ?s = "copy_bytes a' a (hsize s ?b - 16) s1"
      have "ta_inv ?s (L(a' \<mapsto> n)) C cls' U' {}" using s1(2) by (simp add: copy_bytes_def)
      then obtain s' U2 where s': "thread_free t a ?s = Some s'" "ta_inv s' ((L(a' \<mapsto> n))(a := None)) C cls' U2 {}" "bytes s' = bytes ?s"
        using thread_free_ok [of ?s "L(a' \<mapsto> n)" C cls' U' a t] m ne by auto
      have "(L(a' \<mapsto> n))(a := None) = L(a := None, a' \<mapsto> n)" using ne by auto
      moreover have "thread_realloc t a n q p r s = Some (a', s')"
        using nz grow False s1(1) s'(1) hs by (simp add: thread_realloc_def Let_def)
      moreover have "bytes s' (a' + i) = bytes s (a + i)" if i: "i < min m n" for i
      proof -
        have "i < hsize s ?b - 16" using i sz by linarith
        then have "bytes ?s (a' + i) = bytes s1 (a + i)" by (rule copy_bytes_at)
        then show ?thesis using s'(3) s1(4) by simp
      qed
      moreover have "bytes s' x = bytes s x" if c: "L c = Some j" "c \<noteq> a" "c \<le> x" "x < c + j" for c j x
      proof -
        have ca: "c \<noteq> a'" using c(1) s1(3) by auto
        have Lc: "(L(a' \<mapsto> n)) a' = Some n" "(L(a' \<mapsto> n)) c = Some j" using c ca by simp_all
        have "apart (a' - 16) (n + 16) (c - 16) (j + 16)"
          by (rule apart_within [OF ta_live_apart [OF s1(2) Lc ca [symmetric]]])
            (use in_use_places(1) [OF s1(2) Lc(1)] in_use_places(1) [OF s1(2) Lc(2)] in linarith)+
        moreover have "hsize s ?b - 16 \<le> n"
        proof -
          have "?b \<in> U" using live_okD(1,2) [OF v(4)] m False by fastforce
          then have "8 dvd hsize s ?b" using counted_okD(2) [OF v(2)] by (simp add: fits_def)
          moreover have "8 dvd total_size n" "total_size n < n + 24" using z total_size_less [OF n] by simp_all
          ultimately show ?thesis using grow by (auto elim!: dvdE)
        qed
        ultimately have "\<not> (a' \<le> x \<and> x < a' + (hsize s ?b - 16))"
          using c(3,4) in_use_places(1) [OF s1(2) Lc(1)] in_use_places(1) [OF s1(2) Lc(2)] by (auto simp: apart_def)
        then show ?thesis using s'(3) s1(4) copy_bytes_other by simp
      qed
      ultimately show ?thesis using s'(2) m by (intro exI [of _ a'] exI [of _ s'] exI [of _ cls'] exI [of _ U2]) auto
    qed
  qed
qed

end
