(* ===== verification/ThreadAllocHistory.thy ===== *)
theory ThreadAllocHistory
  imports ThreadAllocSafe
begin

text \<open>
  The end of threads in threadalloc, the states that threads reach together, and what holds in them.
\<close>

section \<open>The clean-up\<close>

lemma roles_C:
  assumes "roles_ok s C" and "C t = Some (d, r)"
  shows "alive s d" "\<forall>u. ctx s u \<noteq> d" "C u = Some (d, r') \<Longrightarrow> u = t"
  using assms unfolding roles_ok_def by blast+

lemma progress_roles:
  assumes r: "roles_ok s C" and t: "C t = Some (d, x)"
  shows "roles_ok s (C(t \<mapsto> (d, y)))"
proof -
  note c = roles_C [OF r t]
  show ?thesis unfolding roles_ok_def
  proof (intro conjI allI impI)
    show "alive s e" if u: "(C(t \<mapsto> (d, y))) u = Some (e, z)" for u e z
      using u c(1) roles_C(1) [OF r, of u e z] by (cases "u = t") auto
    show "ctx s t' \<noteq> e" if u: "(C(t \<mapsto> (d, y))) u = Some (e, z)" for u e z t'
      using u c(2) roles_C(2) [OF r, of u e z] by (cases "u = t") auto
    show "t' = u" if u: "(C(t \<mapsto> (d, y))) u = Some (e, z)" and u': "(C(t \<mapsto> (d, y))) t' = Some (e, z')" for u e z t' z'
      using u u' r c(3) roles_C(3) [OF r] by (auto split: if_splits)
    show "(\<exists>u. ctx s u = e) \<or> (\<exists>u z. (C(t \<mapsto> (d, y))) u = Some (e, z))" if a: "alive s e" for e
    proof (cases "e = d")
      case True
      then have "(C(t \<mapsto> (d, y))) t = Some (e, y)" by simp
      then show ?thesis by blast
    next
      case False
      have "(\<exists>u. ctx s u = e) \<or> (\<exists>u z. C u = Some (e, z))" using a r unfolding roles_ok_def by blast
      then show ?thesis
      proof
        assume "\<exists>u z. C u = Some (e, z)"
        then obtain u z where "C u = Some (e, z)" by blast
        then have "(C(t \<mapsto> (d, y))) u = Some (e, z)" using False t by auto
        then show ?thesis by blast
      qed blast
    qed
  qed (use r in \<open>unfold roles_ok_def, blast\<close>)+
qed

lemma progress_inv:
  assumes I: "ta_inv s L C cls U G" and t: "C t = Some (d, x)" and y: "y = Deciding \<Longrightarrow> (\<forall>p. on_page (pgs s) p d \<longrightarrow> of_page (hpage s) U p \<noteq> {})"
  shows "ta_inv s L (C(t \<mapsto> (d, y))) cls U G"
proof -
  note v = ta_invD [OF I]
  have "steps_ok s (C(t \<mapsto> (d, y))) cls U" using v(6) y unfolding steps_ok_def by (auto split: if_splits)
  then show ?thesis using I progress_roles [OF v(5) t] unfolding ta_inv_def by blast
qed

text \<open>A directory that is gone, or marked, needs no thread to clean it up.\<close>

lemma finish_roles:
  assumes r: "roles_ok s C" and t: "C t = Some (d, x)" and al: "\<And>e. alive s' e \<longleftrightarrow> alive s e \<and> e \<noteq> d" and c: "ctx s' = ctx s"
  shows "roles_ok s' (C(t := None))"
proof -
  note k = roles_C [OF r t]
  show ?thesis unfolding roles_ok_def al c
  proof (intro conjI allI impI)
    show "e \<noteq> d" if u: "(C(t := None)) u = Some (e, z)" for u e z using u k(3) by (auto split: if_splits)
    show "alive s e" if u: "(C(t := None)) u = Some (e, z)" for u e z using u roles_C(1) [OF r, of u e z] by (cases "u = t") auto
    show "ctx s t' \<noteq> e" if u: "(C(t := None)) u = Some (e, z)" for u e z t' using u roles_C(2) [OF r, of u e z] by (cases "u = t") auto
    show "t' = u" if u: "(C(t := None)) u = Some (e, z)" and u': "(C(t := None)) t' = Some (e, z')" for u e z t' z'
      using u u' roles_C(3) [OF r] by (auto split: if_splits)
    show "(\<exists>u. ctx s u = e) \<or> (\<exists>u z. (C(t := None)) u = Some (e, z))" if a: "alive s e \<and> e \<noteq> d" for e
    proof -
      have "(\<exists>u. ctx s u = e) \<or> (\<exists>u z. C u = Some (e, z))" using a r unfolding roles_ok_def by blast
      then show ?thesis
      proof
        assume "\<exists>u z. C u = Some (e, z)"
        then obtain u z where "C u = Some (e, z)" by blast
        then have "(C(t := None)) u = Some (e, z)" using a t by auto
        then show ?thesis by blast
      qed blast
    qed
    show "ctx s u \<noteq> d" for u using k(2) by blast
  qed (use r in \<open>unfold roles_ok_def, blast\<close>)+
qed

lemma exit_ok:
  assumes I: "ta_inv s L C cls U {}" and c: "C t = None" and e: "exit_thread m t s = (x, s')"
  shows "ta_inv s' L (C(t := x)) cls U {}"
proof (cases "ctx s t = 0")
  case True
  then have "x = None" "s' = s" "C(t := None) = C" using e c by (auto simp: exit_thread_def)
  then show ?thesis using I by simp
next
  case False
  note v = ta_invD [OF I]
  let ?d = "ctx s t" and ?y = "if m then Returned else Locking"
  let ?s = "s\<lparr>ctx := (ctx s)(t := 0)\<rparr>"
  have x: "x = Some (?d, ?y)" "s' = ?s" using e False by (auto simp: exit_thread_def)
  have r: "\<forall>u. ctx s u \<noteq> 0 \<longrightarrow> alive s (ctx s u)" "\<forall>u u'. ctx s u \<noteq> 0 \<longrightarrow> ctx s u = ctx s u' \<longrightarrow> u = u'"
    "\<forall>u d r. C u = Some (d, r) \<longrightarrow> alive s d \<and> (\<forall>t'. ctx s t' \<noteq> d) \<and> (\<forall>t' r'. C t' = Some (d, r') \<longrightarrow> t' = u)"
    "\<forall>d. alive s d \<longrightarrow> (\<exists>u. ctx s u = d) \<or> (\<exists>u r. C u = Some (d, r))" using v(5) unfolding roles_ok_def by blast+
  have pos: "alive s d \<Longrightarrow> d \<noteq> 0" for d using v(7) unfolding objs_ok_def obj_def alive_def by fastforce
  have "roles_ok ?s (C(t := x))"
    unfolding roles_ok_def x(1)
  proof (intro conjI allI impI)
    show "alive ?s (ctx ?s u)" if "ctx ?s u \<noteq> 0" for u using that r(1) by (cases "u = t") simp_all
    show "u = u'" if "ctx ?s u \<noteq> 0" "ctx ?s u = ctx ?s u'" for u u' using that r(2) by (cases "u = t"; cases "u' = t") auto
    show "alive ?s d" if "(C(t := Some (?d, ?y))) u = Some (d, z)" for u d z
      using that r(1,3) False by (cases "u = t") auto
    show "ctx ?s t' \<noteq> d" if u: "(C(t := Some (?d, ?y))) u = Some (d, z)" for u d z t'
    proof (cases "u = t")
      case True
      then show ?thesis using u r(2) False by (cases "t' = t") auto
    next
      case ne: False
      then have "C u = Some (d, z)" using u by simp
      then have "ctx s t' \<noteq> d" "alive s d" using roles_C(1,2) [OF v(5)] by blast+
      then show ?thesis using pos [of d] by (cases "t' = t") auto
    qed
    show "t' = u" if u: "(C(t := Some (?d, ?y))) u = Some (d, z)" and u': "(C(t := Some (?d, ?y))) t' = Some (d, z')" for u d z t' z'
      using u u' r(3) by (cases "u = t"; cases "t' = t") auto
    show "(\<exists>u. ctx ?s u = d) \<or> (\<exists>u z. (C(t := Some (?d, ?y))) u = Some (d, z))" if a: "alive ?s d" for d
    proof (cases "d = ?d")
      case True
      then have "(C(t := Some (?d, ?y))) t = Some (d, ?y)" by simp
      then show ?thesis by blast
    next
      case ne: False
      have "(\<exists>u. ctx s u = d) \<or> (\<exists>u z. C u = Some (d, z))" using a r(4) by simp
      then show ?thesis
      proof
        assume "\<exists>u. ctx s u = d"
        then obtain u where "ctx ?s u = d" using ne by (metis fun_upd_other tstate.select_convs(1) tstate.surjective tstate.update_convs(1))
        then show ?thesis by blast
      next
        assume "\<exists>u z. C u = Some (d, z)"
        then obtain u z where u: "C u = Some (d, z)" by blast
        then have "(C(t := Some (?d, ?y))) u = Some (d, z)" using c by auto
        then show ?thesis by blast
      qed
    qed
  qed
  moreover have "steps_ok ?s (C(t := x)) cls U" using v(6) unfolding steps_ok_def x(1) by (auto split: if_splits)
  moreover have "pages_ok ?s cls U" "counted_ok ?s cls U" using v(1,2) by (simp_all add: pages_ok_def counted_ok_def)
  moreover have "live_ok ?s L U {}" using v(4) by simp
  moreover have "objs_ok ?s" using v(7) objs_ok_cong [of ?s s] by simp
  moreover have "\<forall>d D. dirs ?s d = Some D \<longrightarrow> dir_ok (pgs ?s) (hpage ?s) U d D" using v(3) by simp
  ultimately show ?thesis unfolding ta_inv_def x(2) by blast
qed

lemma sweep_pages_eq:
  "distinct ps \<Longrightarrow> \<forall>p \<in> set ps. pgs s p \<noteq> None \<Longrightarrow>
     sweep_pages ps s = Some (filter (\<lambda>p. n_allocated_blocks (the (pgs s p)) \<noteq> 0) ps,
       s\<lparr>pgs := (\<lambda>q. if q \<in> {p \<in> set ps. n_allocated_blocks (the (pgs s p)) = 0} then None else pgs s q)\<rparr>)"
proof (induction ps arbitrary: s)
  case Nil
  then show ?case by (cases s) simp
next
  case (Cons p ps)
  obtain pg where pg: "pgs s p = Some pg" using Cons.prems(2) by auto
  show ?case
  proof (cases "n_allocated_blocks pg = 0")
    case True
    let ?s = "s\<lparr>pgs := (pgs s)(p := None)\<rparr>"
    have ne: "\<And>q. q \<in> set ps \<Longrightarrow> q \<noteq> p" using Cons.prems(1) by auto
    then have "\<forall>q \<in> set ps. pgs ?s q \<noteq> None" using Cons.prems(2) by auto
    then have ih: "sweep_pages ps ?s = Some (filter (\<lambda>q. n_allocated_blocks (the (pgs ?s q)) \<noteq> 0) ps,
        ?s\<lparr>pgs := (\<lambda>q. if q \<in> {q \<in> set ps. n_allocated_blocks (the (pgs ?s q)) = 0} then None else pgs ?s q)\<rparr>)"
      using Cons.IH [of ?s] Cons.prems(1) by simp
    have "filter (\<lambda>q. n_allocated_blocks (the (pgs ?s q)) \<noteq> 0) ps = filter (\<lambda>q. n_allocated_blocks (the (pgs s q)) \<noteq> 0) ps"
      using ne by (intro filter_cong) auto
    moreover have "(\<lambda>q. if q \<in> {q \<in> set ps. n_allocated_blocks (the (pgs ?s q)) = 0} then None else pgs ?s q) =
        (\<lambda>q. if q \<in> {q \<in> set (p # ps). n_allocated_blocks (the (pgs s q)) = 0} then None else pgs s q)"
      using ne pg True by (intro ext) auto
    ultimately show ?thesis using ih pg True by simp
  next
    case False
    have "(\<lambda>q. if q \<in> {q \<in> set (p # ps). n_allocated_blocks (the (pgs s q)) = 0} then None else pgs s q) =
        (\<lambda>q. if q \<in> {q \<in> set ps. n_allocated_blocks (the (pgs s q)) = 0} then None else pgs s q)"
      using pg False by (intro ext) auto
    then show ?thesis using Cons.IH [of s] Cons.prems pg False by simp
  qed
qed

lemma waiting_dir_update:
  assumes "dirs s d = Some D" and "\<And>E. X = Some E \<Longrightarrow> set (pending_chain E) = set (pending_chain D)"
    and "X = None \<Longrightarrow> pending_chain D = []"
  shows "waiting (s\<lparr>pgs := P, dirs := (dirs s)(d := X)\<rparr>) b = waiting s b"
proof -
  have "(\<exists>E. ((dirs s)(d := X)) e = Some E \<and> b \<in> set (pending_chain E)) \<longleftrightarrow> (\<exists>E. dirs s e = Some E \<and> b \<in> set (pending_chain E))" for e
    using assms by (cases "e = d"; cases X) auto
  then show ?thesis unfolding waiting_def by simp
qed

lemma live_dir_update:
  assumes "dirs s d = Some D" and "\<And>E. X = Some E \<Longrightarrow> set (pending_chain E) = set (pending_chain D)"
    and "X = None \<Longrightarrow> pending_chain D = []" and "live_ok s L U G"
  shows "live_ok (s\<lparr>pgs := P, dirs := (dirs s)(d := X)\<rparr>) L U G"
proof -
  have w: "waiting (s\<lparr>pgs := P, dirs := (dirs s)(d := X)\<rparr>) b = waiting s b" for b
    by (rule waiting_dir_update [OF assms(1)]) (use assms(2,3) in blast)+
  show ?thesis using assms(4) unfolding live_ok_def w by simp
qed

lemma sweep_ok:
  assumes I: "ta_inv s L C cls U {}" and t: "C t = Some (d, x)"
  shows "\<exists>s'. sweep d s = Some s' \<and> ta_inv s' L (C(t \<mapsto> (d, Deciding))) cls U {} \<and> bytes s' = bytes s"
proof -
  note v = ta_invD [OF I]
  have al: "alive s d" "\<forall>u. ctx s u \<noteq> d" using roles_C [OF v(5) t] by blast+
  then obtain D where D: "dirs s d = Some D" "\<not> terminated D" by (auto simp: alive_def)
  have dk: "distinct (pages D)" "set (pages D) = {p. on_page (pgs s) p d}" using v(3) [OF D(1)] D(2) by (auto simp: dir_ok_def)
  let ?R = "{p \<in> set (pages D). n_allocated_blocks (the (pgs s p)) = 0}"
  let ?P = "\<lambda>q. if q \<in> ?R then None else pgs s q"
  let ?D = "D\<lparr>pages := filter (\<lambda>p. n_allocated_blocks (the (pgs s p)) \<noteq> 0) (pages D)\<rparr>"
  let ?s = "s\<lparr>pgs := ?P, dirs := (dirs s)(d := Some ?D)\<rparr>"
  have on0: "\<forall>p \<in> set (pages D). pgs s p \<noteq> None" using dk(2) by (auto simp: on_page_def)
  have "sweep d s = Some ?s" using D(1) sweep_pages_eq [OF dk(1) on0] by (simp add: sweep_def)
  moreover have fin: "finite U" using counted_okD(1) [OF v(2)] .
  have cnt: "n_allocated_blocks (the (pgs s p)) = 0 \<longleftrightarrow> of_page (hpage s) U p = {}" if p: "on_page (pgs s) p d" for p
  proof -
    obtain pg where pg: "pgs s p = Some pg" using p by (auto simp: on_page_def)
    then show ?thesis using pages_okD(3) [OF v(1) pg] fin by (simp add: card_eq_0_iff)
  qed
  have R: "on_page (pgs s) q d \<and> of_page (hpage s) U q = {}" if "q \<in> ?R" for q using that dk(2) cnt by auto
  have on: "on_page ?P q e \<longleftrightarrow> on_page (pgs s) q e \<and> q \<notin> ?R" for q e by (auto simp: on_page_def)
  have keep: "of_page (hpage s) U q \<noteq> {}" if "on_page ?P q d" for q using that cnt [of q] dk(2) unfolding on by auto
  have inv: "ta_inv ?s L C cls U {}"
  proof (rule shrink [OF v(1,2,6,7) D(1) v(3) al(2) R refl])
    have "of_dir ?P (hpage s) U d = of_dir (pgs s) (hpage s) U d"
    proof -
      have "hpage s b \<notin> ?R" if "b \<in> U" for b using R [of "hpage s b"] that unfolding of_page_def by blast
      then show ?thesis using on unfolding of_dir_def by blast
    qed
    moreover have "set (pages ?D) = {p. on_page ?P p d}" using dk(2) unfolding on by auto
    ultimately show "dir_ok (pgs ?s) (hpage s) U d E" if "Some ?D = Some E" for E
      using that v(3) [OF D(1)] D(2) dk(1) unfolding dir_ok_def by auto
    show "live_ok ?s L U {}" by (rule live_dir_update [OF D(1) _ _ v(4)]) auto
    have "alive ?s = alive s" using D by (auto simp: alive_def fun_eq_iff)
    then show "roles_ok ?s C" using v(5) unfolding roles_ok_def by simp
  qed simp_all
  have "ta_inv ?s L (C(t \<mapsto> (d, Deciding))) cls U {}" by (rule progress_inv [OF inv t]) (use keep in simp)
  ultimately show ?thesis by (intro exI [of _ ?s]) simp
qed

lemma decide_ok:
  assumes I: "ta_inv s L C cls U {}" and t: "C t = Some (d, Deciding)"
  shows "\<exists>x s' U'. decide d s = Some (x, s') \<and> ta_inv s' L (C(t := map_option (Pair d) x)) cls U' {} \<and> bytes s' = bytes s"
proof -
  note v = ta_invD [OF I]
  have al: "alive s d" "\<forall>u. ctx s u \<noteq> d" using roles_C [OF v(5) t] by blast+
  then obtain D where D: "dirs s d = Some D" "\<not> terminated D" by (auto simp: alive_def)
  have full: "of_page (hpage s) U p \<noteq> {}" if "on_page (pgs s) p d" for p using v(6) t that unfolding steps_ok_def by blast
  have dk: "n_allocated_objects D = int (card (of_dir (pgs s) (hpage s) U d))" "set (pending_chain D) \<subseteq> of_dir (pgs s) (hpage s) U d"
    using v(3) [OF D(1)] by (auto simp: dir_ok_def)
  have fin: "finite U" using counted_okD(1) [OF v(2)] .
  have oth: "\<And>e E. e \<noteq> d \<Longrightarrow> dirs s e = Some E \<Longrightarrow> dir_ok (pgs s) (hpage s) U e E" by (rule v(3))
  have k: "steps_ok s (C(t := None)) cls U" using v(6) unfolding steps_ok_def by (auto split: if_splits)
  have one: "s\<lparr>pgs := (\<lambda>q. if q \<in> {} then None else pgs s q), dirs := X\<rparr> = s\<lparr>dirs := X\<rparr>" for X by (cases s) simp
  consider (gone) "n_allocated_objects D = 0" | (marked) "n_allocated_objects D \<noteq> 0" "pending_chain D = []"
    | (again) "n_allocated_objects D \<noteq> 0" "pending_chain D \<noteq> []" by blast
  then show ?thesis
  proof cases
    case gone
    have e: "of_dir (pgs s) (hpage s) U d = {}" using gone dk(1) fin by (simp add: card_eq_0_iff)
    have none: "\<not> on_page (pgs s) q d" for q using full [of q] e by (auto simp: of_dir_def of_page_def)
    have "ta_inv (s\<lparr>dirs := (dirs s)(d := None)\<rparr>) L (C(t := None)) cls U {}"
    proof (rule shrink [where R = "{}", OF v(1,2) k v(7) D(1) _ al(2) _ one [symmetric]])
      have "live_ok (s\<lparr>pgs := pgs s, dirs := (dirs s)(d := None)\<rparr>) L U {}"
        by (rule live_dir_update [OF D(1) _ _ v(4)]) (use e dk(2) in auto)
      then show "live_ok (s\<lparr>dirs := (dirs s)(d := None)\<rparr>) L U {}" by simp
      show "roles_ok (s\<lparr>dirs := (dirs s)(d := None)\<rparr>) (C(t := None))"
        by (rule finish_roles [OF v(5) t]) (auto simp: alive_def)
    qed (use none oth in simp_all)
    then show ?thesis using gone D(1) by (intro exI [of _ None] exI [of _ "s\<lparr>dirs := (dirs s)(d := None)\<rparr>"] exI [of _ U]) (simp add: decide_def)
  next
    case marked
    let ?D = "D\<lparr>terminated := True\<rparr>"
    let ?s = "s\<lparr>dirs := (dirs s)(d := Some ?D)\<rparr>"
    have "of_dir (pgs s) (hpage s) U d \<noteq> {}" using marked(1) dk(1) by auto
    then have dok: "dir_ok (pgs s) (hpage s) U d ?D" using dk(1) marked(2) full by (intro dir_ok_terminatedI) simp_all
    have "ta_inv ?s L (C(t := None)) cls U {}"
    proof (rule shrink [where R = "{}", OF v(1,2) k v(7) D(1) _ al(2) _ one [symmetric]])
      have "live_ok (s\<lparr>pgs := pgs s, dirs := (dirs s)(d := Some ?D)\<rparr>) L U {}"
        by (rule live_dir_update [OF D(1) _ _ v(4)]) auto
      then show "live_ok ?s L U {}" by simp
      show "roles_ok ?s (C(t := None))" by (rule finish_roles [OF v(5) t]) (auto simp: alive_def)
    qed (use dok oth in simp_all)
    then show ?thesis using marked D(1) by (intro exI [of _ None] exI [of _ ?s] exI [of _ U]) (simp add: decide_def)
  next
    case again
    have I1: "ta_inv s L (C(t \<mapsto> (d, Sweeping))) cls U {}" by (rule progress_inv [OF I t]) simp
    have "\<forall>u. (C(t \<mapsto> (d, Sweeping))) u \<noteq> Some (d, Deciding)" using roles_C(3) [OF v(5) t] by auto
    then obtain s' U' where "drop_pending d s = Some s'" "ta_inv s' L (C(t \<mapsto> (d, Sweeping))) cls U' {}" "quiet s s'"
      using drop_pending_ok [OF I1 al(1)] by blast
    then show ?thesis using again D(1) by (auto simp: decide_def quiet_def intro!: exI [of _ U'])
  qed
qed

lemma cleanup_ok:
  assumes I: "ta_inv s L C cls U {}" and t: "C t = Some (d, r)"
  shows "\<exists>x s' U'. cleanup r d s = Some (x, s') \<and> ta_inv s' L (C(t := map_option (Pair d) x)) cls U' {} \<and> bytes s' = bytes s"
proof (cases r)
  case Locking
  have I1: "ta_inv s L (C(t \<mapsto> (d, Sweeping))) cls U {}" by (rule progress_inv [OF I t]) simp
  have "\<forall>u. (C(t \<mapsto> (d, Sweeping))) u \<noteq> Some (d, Deciding)" using roles_C(3) [OF ta_invD(5) [OF I] t] by auto
  then obtain s' U' where "drop_pending d s = Some s'" "ta_inv s' L (C(t \<mapsto> (d, Sweeping))) cls U' {}" "quiet s s'"
    using drop_pending_ok [OF I1 roles_C(1) [OF ta_invD(5) [OF I] t]] by blast
  then show ?thesis using Locking by (auto simp: quiet_def intro!: exI [of _ U'])
next
  case Sweeping
  then show ?thesis using sweep_ok [OF I t] by (auto intro!: exI [of _ U])
next
  case Deciding
  then show ?thesis using decide_ok [OF I] t by simp
next
  case Returned
  then have "C(t := Some (d, Returned)) = C" using t by auto
  then show ?thesis using Returned I by (auto intro!: exI [of _ U])
qed

section \<open>Histories\<close>

text \<open>
  What any number of threads can bring about together; thread 0 is the main thread. \<open>L\<close> maps the blocks in
  use to the bytes asked for, \<open>C\<close> tells how far the clean-up of a thread that ends has come.
\<close>

inductive ta_reach :: "tstate \<Rightarrow> (nat \<rightharpoonup> nat) \<Rightarrow> (nat \<Rightarrow> (nat \<times> progress) option) \<Rightarrow> bool" where
  start: "ta_reach ta0 Map.empty (\<lambda>_. None)"
| alloc: "ta_reach s L C \<Longrightarrow> C t = None \<Longrightarrow> n < 2 ^ 64 - 32 \<Longrightarrow> answers_ok t n q p s \<Longrightarrow>
    thread_alloc t n q p s = Some (a, s') \<Longrightarrow> ta_reach s' (L(a \<mapsto> n)) C"
| free: "ta_reach s L C \<Longrightarrow> C t = None \<Longrightarrow> L a \<noteq> None \<Longrightarrow> thread_free t a s = Some s' \<Longrightarrow> ta_reach s' (L(a := None)) C"
| realloc: "ta_reach s L C \<Longrightarrow> C t = None \<Longrightarrow> n < 2 ^ 64 - 32 \<Longrightarrow> answers_ok t n q p s \<Longrightarrow> a = 0 \<or> L a \<noteq> None \<Longrightarrow>
    (large s (a - 16) \<noteq> None \<Longrightarrow> realloc_ok (a - 16) r (total_size n) s) \<Longrightarrow>
    thread_realloc t a n q p r s = Some (a', s') \<Longrightarrow> ta_reach s' (L(a := None, a' \<mapsto> n)) C"
| store: "ta_reach s L C \<Longrightarrow> L a = Some n \<Longrightarrow> a \<le> x \<Longrightarrow> x < a + n \<Longrightarrow> ta_reach (s\<lparr>bytes := (bytes s)(x := v)\<rparr>) L C"
| ends: "ta_reach s L C \<Longrightarrow> C t = None \<Longrightarrow> exit_thread (t = 0) t s = (x, s') \<Longrightarrow> ta_reach s' L (C(t := x))"
| clean: "ta_reach s L C \<Longrightarrow> C t = Some (d, r) \<Longrightarrow> cleanup r d s = Some (x, s') \<Longrightarrow>
    ta_reach s' L (C(t := map_option (Pair d) x))"

lemma ta0_inv: "ta_inv ta0 Map.empty (\<lambda>_. None) (\<lambda>_. 0) {} {}"
  by (simp add: ta_inv_def pages_ok_def counted_ok_def live_ok_def waiting_def roles_ok_def alive_def steps_ok_def objs_ok_def obj_def ta0_def)

lemma ta_reach_inv: "ta_reach s L C \<Longrightarrow> \<exists>cls U. ta_inv s L C cls U {}"
proof (induction rule: ta_reach.induct)
  case start
  then show ?case using ta0_inv by blast
next
  case (alloc s L C t n q p a s')
  then obtain cls U where I: "ta_inv s L C cls U {}" by blast
  show ?case using thread_alloc_ok [OF I alloc(3,4)] alloc(5) by (auto simp del: fun_upd_apply)
next
  case (free s L C t a s')
  then obtain cls U where I: "ta_inv s L C cls U {}" by blast
  show ?case using thread_free_ok [OF I free(3), of t] free(4) by (auto simp del: fun_upd_apply)
next
  case (realloc s L C t n q p a r a' s')
  then obtain cls U where I: "ta_inv s L C cls U {}" by blast
  show ?case using thread_realloc_ok [OF I realloc(3,4,5,6)] realloc(7) by (auto simp del: fun_upd_apply)
next
  case (store s L C a n x v)
  then show ?case by simp
next
  case (ends s L C t x s')
  then obtain cls U where I: "ta_inv s L C cls U {}" by blast
  show ?case using exit_ok [OF I ends(2,3)] by blast
next
  case (clean s L C t d r x s')
  then obtain cls U where I: "ta_inv s L C cls U {}" by blast
  show ?case using cleanup_ok [OF I clean(2)] clean(3) by (auto simp del: fun_upd_apply)
qed

text \<open>
  C7. However threads interleave, blocks in use lie apart, headers included; every
  request with good answers of the system is met by a new block, every thread can free every block, and no step of a clean-up
  fails: no operation looks at a page or directory that is no longer there.
\<close>

theorem ta_histories_sound:
  assumes "ta_reach s L C"
  shows "(\<forall>a n b m. L a = Some n \<longrightarrow> L b = Some m \<longrightarrow> a \<noteq> b \<longrightarrow> a + n + 16 \<le> b \<or> b + m + 16 \<le> a) \<and>
    (\<forall>t n q p. n < 2 ^ 64 - 32 \<longrightarrow> answers_ok t n q p s \<longrightarrow>
       (\<exists>a s'. thread_alloc t n q p s = Some (a, s') \<and> L a = None \<and> bytes s' = bytes s)) \<and>
    (\<forall>t a. L a \<noteq> None \<longrightarrow> (\<exists>s'. thread_free t a s = Some s' \<and> bytes s' = bytes s)) \<and>
    (\<forall>t d r. C t = Some (d, r) \<longrightarrow> (\<exists>x s'. cleanup r d s = Some (x, s') \<and> bytes s' = bytes s))"
proof -
  obtain cls U where I: "ta_inv s L C cls U {}" using ta_reach_inv [OF assms] by blast
  show ?thesis
  proof (intro conjI allI impI)
    fix a n b m assume ab: "L a = Some n" "L b = Some m" "a \<noteq> b"
    show "a + n + 16 \<le> b \<or> b + m + 16 \<le> a"
      using ta_live_apart [OF I ab] in_use_places(1) [OF I ab(1)] in_use_places(1) [OF I ab(2)] unfolding apart_def by linarith
  next
    fix t n q p assume "n < 2 ^ 64 - 32" "answers_ok t n q p s"
    then show "\<exists>a s'. thread_alloc t n q p s = Some (a, s') \<and> L a = None \<and> bytes s' = bytes s" using thread_alloc_ok [OF I] by blast
  next
    fix t a assume "L a \<noteq> None"
    then show "\<exists>s'. thread_free t a s = Some s' \<and> bytes s' = bytes s" using thread_free_ok [OF I] by blast
  next
    fix t d r assume "C t = Some (d, r)"
    then show "\<exists>x s'. cleanup r d s = Some (x, s') \<and> bytes s' = bytes s" using cleanup_ok [OF I] by blast
  qed
qed


text \<open>
  Resizing succeeds with good answers of the system, keeps the contents up to the smaller size, and leaves
  those of all other blocks alone.
\<close>

lemma ta_realloc_keeps:
  assumes "ta_reach s L C" and "n < 2 ^ 64 - 32" and "answers_ok t n q p s" and "L a = Some m"
    and "large s (a - 16) \<noteq> None \<longrightarrow> realloc_ok (a - 16) r (total_size n) s"
  shows "\<exists>a' s'. thread_realloc t a n q p r s = Some (a', s') \<and> (\<forall>i < min m n. bytes s' (a' + i) = bytes s (a + i)) \<and>
    (\<forall>c j x. L c = Some j \<longrightarrow> c \<noteq> a \<longrightarrow> c \<le> x \<longrightarrow> x < c + j \<longrightarrow> bytes s' x = bytes s x)"
proof -
  obtain cls U where I: "ta_inv s L C cls U {}" using ta_reach_inv [OF assms(1)] by blast
  have a: "a = 0 \<or> L a \<noteq> None" using assms(4) by simp
  have r: "large s (a - 16) \<noteq> None \<Longrightarrow> realloc_ok (a - 16) r (total_size n) s" using assms(5) by blast
  obtain a' s' where "thread_realloc t a n q p r s = Some (a', s')"
      "\<forall>m i. L a = Some m \<longrightarrow> i < min m n \<longrightarrow> bytes s' (a' + i) = bytes s (a + i)"
      "\<forall>c j x. L c = Some j \<longrightarrow> c \<noteq> a \<longrightarrow> c \<le> x \<longrightarrow> x < c + j \<longrightarrow> bytes s' x = bytes s x"
    using thread_realloc_ok [OF I assms(2,3) a r] by metis
  then show ?thesis using assms(4) by (intro exI [of _ a'] exI [of _ s']) blast
qed

lemma drop_pending_empty: "drop_pending d s = Some s' \<Longrightarrow> \<exists>D. dirs s' d = Some D \<and> pending_chain D = []"
  unfolding drop_pending_def by (auto split: bind_splits)

lemma sweep_pending: "sweep d s = Some s' \<Longrightarrow> dirs s d = Some D \<Longrightarrow> \<exists>D'. dirs s' d = Some D' \<and> pending_chain D' = pending_chain D"
  unfolding sweep_def by (auto split: bind_splits)

text \<open>
  Unless other threads free blocks in between, a clean-up ends after its three steps, with the
  directory gone or marked as terminated.
\<close>

lemma ta_cleanup_ends:
  assumes "ta_reach s L C" and "C t = Some (d, Locking)"
  shows "\<exists>s1 s2 s3. cleanup Locking d s = Some (Some Sweeping, s1) \<and> cleanup Sweeping d s1 = Some (Some Deciding, s2) \<and>
    cleanup Deciding d s2 = Some (None, s3) \<and> (case dirs s3 d of None \<Rightarrow> True | Some D \<Rightarrow> terminated D \<and> 0 < n_allocated_objects D)"
proof -
  obtain cls U where I: "ta_inv s L C cls U {}" using ta_reach_inv [OF assms(1)] by blast
  obtain s1 U1 where s1: "cleanup Locking d s = Some (Some Sweeping, s1)" "ta_inv s1 L (C(t := Some (d, Sweeping))) cls U1 {}"
    using cleanup_ok [OF I assms(2)] by auto
  obtain D1 where D1: "dirs s1 d = Some D1" "pending_chain D1 = []" using drop_pending_empty [of d s s1] s1(1) by auto
  obtain s2 U2 where s2: "cleanup Sweeping d s1 = Some (Some Deciding, s2)" "ta_inv s2 L (C(t := Some (d, Deciding))) cls U2 {}"
    using cleanup_ok [OF s1(2), of t d Sweeping] by auto
  obtain D2 where D2: "dirs s2 d = Some D2" "pending_chain D2 = []" using s2(1) sweep_pending [of d s1 s2, OF _ D1(1)] D1(2) by auto
  have "0 \<le> n_allocated_objects D2" using ta_invD(3) [OF s2(2) D2(1)] by (simp add: dir_ok_def)
  then have "\<exists>s3. cleanup Deciding d s2 = Some (None, s3) \<and> (case dirs s3 d of None \<Rightarrow> True | Some D \<Rightarrow> terminated D \<and> 0 < n_allocated_objects D)"
    using D2 by (auto simp: decide_def)
  then show ?thesis using s1(1) s2(1) by blast
qed

section \<open>An example\<close>

text \<open>
  Thread 1 allocates 200 bytes and ends; its directory at 8 and the page at 128 stay until thread 2 frees the block at 168.
\<close>

definition ex_dir :: "int \<Rightarrow> bool \<Rightarrow> thread_alloc_dir" where
  "ex_dir n x = \<lparr>chain = (\<lambda>_. [])(4 := tl (slots 4 128)), pending_chain = [], pages = [128], n_allocated_objects = n,
     n_pending_requests = 0, terminated = x\<rparr>"

definition ex_state :: "nat \<Rightarrow> bool \<Rightarrow> tstate" where
  "ex_state c x = \<lparr>ctx = (\<lambda>_. 0)(1 := c), dirs = [8 \<mapsto> ex_dir 1 x], pgs = [128 \<mapsto> \<lparr>pg_dir = 8, n_allocated_blocks = 1\<rparr>],
     large = Map.empty, hsize = (\<lambda>_. 0)(152 := 216), hpage = (\<lambda>y. if y \<in> set (slots 4 128) then 128 else 0), bytes = \<lambda>_. 0\<rparr>"

lemma ex_slot: "152 \<in> set (slots 4 128)"
  by (simp add: new_slots)

lemma ex_total: "total_size 200 = 216" "total_size 220 = 240" "chain_of 216 = 4"
  by (simp_all add: total_size_def chain_of_def block_chain_def)

lemma ex_alloc: "thread_alloc 1 200 8 128 ta0 = Some (168, ex_state 8 False)"
proof -
  let ?s = "ta0\<lparr>dirs := [8 \<mapsto> new_dir], ctx := (\<lambda>_. 0)(1 := 8)\<rparr>"
  have "own_dir 1 8 ta0 = Some (8, ?s)" by (simp add: own_dir_def ta0_def)
  moreover have "take_block 8 4 128 ?s = Some (152, paged 8 4 128 new_dir ?s)"
    using new_page_eq [of ?s 8 new_dir 128 4] by (simp add: take_block_def new_dir_def)
  moreover have "count_block 8 152 (paged 8 4 128 new_dir ?s) = Some ((ex_state 8 False)\<lparr>hsize := \<lambda>_. 0\<rparr>)"
    by (simp add: count_block_def paged_def new_dir_def ta0_def ex_state_def ex_dir_def ex_slot cong: if_cong)
  ultimately show ?thesis by (simp add: thread_alloc_def ex_total ex_state_def)
qed

lemma ex_reach1: "ta_reach (ex_state 8 False) [168 \<mapsto> 200] (\<lambda>_. None)"
proof -
  have "answers_ok 1 200 8 128 ta0" by (simp add: answers_ok_def ex_total fresh_def obj_def ta0_def apart_def)
  then show ?thesis using ta_reach.alloc [OF ta_reach.start, where t = 1 and n = 200 and q = 8 and p = 128] ex_alloc by simp
qed

lemma ex_reach2: "ta_reach (ex_state 0 False) [168 \<mapsto> 200] ((\<lambda>_. None)(1 := Some (8, Locking)))"
  by (rule ta_reach.ends [OF ex_reach1]) (simp_all add: exit_thread_def ex_state_def)






theorem ta_histories_sound_witness:
  "\<exists>x s'. cleanup Locking 8 (ex_state 0 False) = Some (x, s')"
proof -
  have "\<exists>x s'. cleanup Locking 8 (ex_state 0 False) = Some (x, s') \<and> bytes s' = bytes (ex_state 0 False)"
    by (rule ta_histories_sound [OF ex_reach2, THEN conjunct2, THEN conjunct2, THEN conjunct2, rule_format, of 1 8 Locking]) simp
  then show ?thesis by blast
qed


lemma ta_realloc_keeps_witness:
  "\<exists>a' s'. thread_realloc 1 168 220 0 8000 0 (ex_state 8 False) = Some (a', s') \<and> (\<forall>i < 200. bytes s' (a' + i) = bytes (ex_state 8 False) (168 + i))"
proof -
  have "fresh (ex_state 8 False) 8000 4120" by (simp add: fresh_def obj_def ex_state_def apart_def)
  then have "answers_ok 1 220 0 8000 (ex_state 8 False)" by (simp add: answers_ok_def ex_state_def ex_total)
  then show ?thesis
    using ta_realloc_keeps [OF ex_reach1, where n = 220 and t = 1 and q = 0 and p = 8000 and a = 168 and m = 200 and r = 0]
    by (auto simp: ex_state_def)
qed

lemma ta_cleanup_ends_witness:
  "\<exists>s1 s2 s3. cleanup Locking 8 (ex_state 0 False) = Some (Some Sweeping, s1) \<and> cleanup Sweeping 8 s1 = Some (Some Deciding, s2) \<and>
    cleanup Deciding 8 s2 = Some (None, s3)"
  using ta_cleanup_ends [OF ex_reach2, of 1 8] by auto

end
