(* ===== verification/Iron.thy ===== *)
theory Iron
  imports World
begin

text \<open>
  \<open>ironpeter/iron.cpp\<close>, built for 32 bits: 32 bins of 64 KiB nodes cut into blocks of one size each, and whole
  64 KiB units for larger requests. The free objects of a node and the nodes of a bin are HOL lists. The
  system (\<open>VirtualAlloc\<close>) gives the address \<open>p\<close>, 0 if it has no memory; a failed assertion or an access through a
  null pointer is \<open>None\<close>. The operations of all threads run one after another under the mutex.
\<close>

definition PLATFORM_SIZE :: nat where "PLATFORM_SIZE = 65536"
definition GRAN_ALLOC :: nat where "GRAN_ALLOC = 4"
definition PLATFORM_BINS :: nat where "PLATFORM_BINS = 32"

section \<open>The tables\<close>

definition next_size :: "nat \<Rightarrow> nat" where
  "next_size cur =
     (let ncur = cur * 4 mod 2 ^ 32 div 3; ncur = ncur - ncur mod GRAN_ALLOC
      in if ncur = cur then ncur + GRAN_ALLOC else ncur)"

fun sizes_from :: "nat \<Rightarrow> nat \<Rightarrow> nat list" where
  "sizes_from 0 cur = []"
| "sizes_from (Suc k) cur = cur # sizes_from k (next_size cur)"

definition sizes :: "nat list" where
  "sizes = sizes_from 256 GRAN_ALLOC"

function find_bin :: "nat \<Rightarrow> nat \<Rightarrow> nat" where
  "find_bin j need = (if j < length sizes \<and> sizes ! j < need then find_bin (j + 1) need else j)"
  by pat_completeness auto
termination by (relation "measure (\<lambda>(j, need). length sizes - j)") auto

declare find_bin.simps [simp del]

text \<open>The loop keeps \<open>j\<close> from one entry to the next.\<close>

fun bremap :: "nat \<Rightarrow> nat" where
  "bremap 0 = find_bin 0 GRAN_ALLOC"
| "bremap (Suc i) = find_bin (bremap i) (Suc i * GRAN_ALLOC + GRAN_ALLOC)"

definition bsizes :: "nat \<Rightarrow> nat" where
  "bsizes i = sizes ! bremap i"

definition node_header :: nat where "node_header = 16"

section \<open>State\<close>

record node =
  usedObjs :: nat
  nd_index :: nat
  free_objs :: "nat list"

record iron =
  nodes :: "nat \<Rightarrow> nat list"
  nd :: "nat \<rightharpoonup> node"
  plat :: "nat \<rightharpoonup> nat"
  allocs :: nat

definition iron0 :: iron where
  "iron0 = \<lparr>nodes = \<lambda>_. [], nd = Map.empty, plat = Map.empty, allocs = 0\<rparr>"

section \<open>The platform\<close>

definition platform_alloc :: "nat \<Rightarrow> nat \<Rightarrow> iron \<Rightarrow> iron option" where
  "platform_alloc count p s =
     (if p mod PLATFORM_SIZE \<noteq> 0 then None
      else Some (s\<lparr>allocs := allocs s + 1, plat := (if p = 0 then plat s else (plat s)(p \<mapsto> count))\<rparr>))"

definition platform_free :: "nat \<Rightarrow> iron \<Rightarrow> iron option" where
  "platform_free p s =
     (if p = 0 then Some s
      else if p mod PLATFORM_SIZE \<noteq> 0 \<or> plat s p = None then None
      else Some (s\<lparr>allocs := allocs s - 1, plat := (plat s)(p := None)\<rparr>))"

section \<open>Nodes\<close>

text \<open>The constructor links the blocks from \<open>temp\<close>, behind the header, on.\<close>

definition blocks_at :: "nat \<Rightarrow> nat \<Rightarrow> nat list" where
  "blocks_at p granularity = grid (p + node_header) granularity ((PLATFORM_SIZE - node_header) div granularity)"

definition new_node :: "nat \<Rightarrow> nat \<Rightarrow> nat \<Rightarrow> node" where
  "new_node p granularity i = \<lparr>usedObjs = 0, nd_index = i, free_objs = blocks_at p granularity\<rparr>"

definition node_alloc :: "node \<Rightarrow> (nat \<times> node) option" where
  "node_alloc N =
     (case free_objs N of
        [] \<Rightarrow> None
      | a # as \<Rightarrow> Some (a, N\<lparr>usedObjs := usedObjs N + 1, free_objs := as\<rparr>))"

definition node_free :: "nat \<Rightarrow> node \<Rightarrow> node" where
  "node_free a N = N\<lparr>usedObjs := (if usedObjs N = 0 then 2 ^ 32 - 1 else usedObjs N - 1), free_objs := a # free_objs N\<rparr>"

section \<open>Allocation\<close>

text \<open>A bin without a node gets a new one.\<close>

definition fill_bin :: "nat \<Rightarrow> nat \<Rightarrow> nat \<Rightarrow> iron \<Rightarrow> iron option" where
  "fill_bin msb mss p s =
     (if nodes s msb = [] then
        (if p = 0 then None
         else map_option (\<lambda>s. s\<lparr>nd := (nd s)(p \<mapsto> new_node p mss msb), nodes := (nodes s)(msb := [p])\<rparr>)
                (platform_alloc 1 p s))
      else Some s)"

text \<open>The next object of the first node; a node without a free object leaves the bin.\<close>

definition take_object :: "nat \<Rightarrow> iron \<Rightarrow> (nat \<times> iron) option" where
  "take_object msb s =
     (let dest = hd (nodes s msb) in do {
        N \<leftarrow> nd s dest;
        (a, N) \<leftarrow> node_alloc N;
        let s = s\<lparr>nd := (nd s)(dest \<mapsto> N)\<rparr>;
        Some (a, if free_objs N = [] then s\<lparr>nodes := (nodes s)(msb := tl (nodes s msb))\<rparr> else s)
      })"

definition iron_malloc :: "nat \<Rightarrow> nat \<Rightarrow> iron \<Rightarrow> (nat \<times> iron) option" where
  "iron_malloc n p s =
     (if PLATFORM_SIZE div 2 < n
      then map_option (Pair p) (platform_alloc ((n - 1) div PLATFORM_SIZE + 1) p s)
      else
        (let i = (if n = 0 then 0 else (n - 1) div GRAN_ALLOC) in
         do { s \<leftarrow> fill_bin (bremap i) (bsizes i) p s; take_object (bremap i) s }))"

section \<open>Release\<close>

text \<open>Empty nodes of a bin go back to the platform; the others are listed in reverse order.\<close>

fun clean_bin :: "nat \<Rightarrow> nat list \<Rightarrow> iron \<Rightarrow> iron option" where
  "clean_bin i [] s = Some s"
| "clean_bin i (x # xs) s = do {
     N \<leftarrow> nd s x;
     if usedObjs N = 0
     then do { s \<leftarrow> platform_free x s; clean_bin i xs (s\<lparr>nd := (nd s)(x := None)\<rparr>) }
     else clean_bin i xs (s\<lparr>nodes := (nodes s)(i := x # nodes s i)\<rparr>)
   }"

fun clean_bins :: "nat \<Rightarrow> nat \<Rightarrow> iron \<Rightarrow> iron option" where
  "clean_bins i 0 s = Some s"
| "clean_bins i (Suc k) s = do { s \<leftarrow> clean_bin i (nodes s i) (s\<lparr>nodes := (nodes s)(i := [])\<rparr>); clean_bins (i + 1) k s }"

definition clean_up :: "iron \<Rightarrow> iron option" where
  "clean_up s = clean_bins 0 PLATFORM_BINS s"

definition iron_free :: "nat \<Rightarrow> iron \<Rightarrow> iron option" where
  "iron_free p s =
     (let dest = p - p mod PLATFORM_SIZE in
      if dest = p then platform_free p s
      else do {
        N \<leftarrow> nd s dest;
        let s = (if free_objs N = [] then s\<lparr>nodes := (nodes s)(nd_index N := dest # nodes s (nd_index N))\<rparr> else s);
        let N = node_free p N;
        let s = s\<lparr>nd := (nd s)(dest \<mapsto> N)\<rparr>;
        if usedObjs N = 0 then clean_up s else Some s
      })"

section \<open>The tables, sizes and bins\<close>

lemma iron_consts [simp]: "PLATFORM_SIZE = 65536" "GRAN_ALLOC = 4" "PLATFORM_BINS = 32" "node_header = 16"
  by (simp_all add: PLATFORM_SIZE_def GRAN_ALLOC_def PLATFORM_BINS_def node_header_def)

definition bin_sizes :: "nat list" where
  "bin_sizes = [4, 8, 12, 16, 20, 24, 32, 40, 52, 68, 88, 116, 152, 200, 264, 352, 468, 624, 832, 1108, 1476, 1968,
     2624, 3496, 4660, 6212, 8280, 11040, 14720, 19624, 26164, 34884]"

lemma length_sizes [simp]: "length sizes = 256"
proof -
  have "length (sizes_from k c) = k" for k c by (induction k arbitrary: c) simp_all
  then show ?thesis unfolding sizes_def .
qed

lemma take_sizes_from: "j \<le> k \<Longrightarrow> take j (sizes_from k c) = sizes_from j c"
proof (induction j arbitrary: k c)
  case (Suc j)
  then show ?case by (cases k) simp_all
qed simp

lemma sizes_from_numeral: "sizes_from (numeral k) c = c # sizes_from (pred_numeral k) (next_size c)"
  by (simp only: numeral_eq_Suc sizes_from.simps)

lemma take_sizes: "take 32 sizes = bin_sizes"
proof -
  have "take 32 sizes = sizes_from 32 4" unfolding sizes_def iron_consts by (rule take_sizes_from) simp
  also have "\<dots> = bin_sizes" by (simp add: sizes_from_numeral next_size_def bin_sizes_def)
  finally show ?thesis .
qed

lemma sizes_nth: "j < 32 \<Longrightarrow> sizes ! j = bin_sizes ! j"
  unfolding take_sizes [symmetric] by simp

lemma bin_sizes_props: "sorted_wrt (<) bin_sizes" "\<forall>g \<in> set bin_sizes. 4 dvd g \<and> 4 \<le> g \<and> g \<le> 34884" "bin_sizes ! 31 = 34884" "length bin_sizes = 32"
  by (simp_all add: bin_sizes_def)

lemma sizes_less: "i < j \<Longrightarrow> j < 32 \<Longrightarrow> sizes ! i < sizes ! j"
  using sorted_wrt_nth_less [OF bin_sizes_props(1)] bin_sizes_props(4) sizes_nth [of i] sizes_nth [of j] by simp

lemma sizes_range: "j < 32 \<Longrightarrow> 4 dvd sizes ! j \<and> 4 \<le> sizes ! j \<and> sizes ! j \<le> 34884"
  using bin_sizes_props(2,4) sizes_nth [of j] nth_mem [of j bin_sizes] by auto

lemma find_bin_le: "need \<le> 34884 \<Longrightarrow> j \<le> 31 \<Longrightarrow> j \<le> find_bin j need \<and> find_bin j need \<le> 31 \<and> need \<le> sizes ! find_bin j need \<and>
    (\<forall>k. j \<le> k \<longrightarrow> k < find_bin j need \<longrightarrow> sizes ! k < need)"
proof (induction j need rule: find_bin.induct)
  case (1 j need)
  show ?case
  proof (cases "sizes ! j < need")
    case True
    then have "j \<noteq> 31" using "1.prems"(1) sizes_nth [of 31] bin_sizes_props(3) by auto
    then have j: "j + 1 \<le> 31" "j < 256" using "1.prems"(2) by simp_all
    have eq: "find_bin j need = find_bin (j + 1) need" using True j(2) by (subst find_bin.simps) simp
    have "j + 1 \<le> find_bin (j + 1) need \<and> find_bin (j + 1) need \<le> 31 \<and> need \<le> sizes ! find_bin (j + 1) need \<and>
      (\<forall>k. j + 1 \<le> k \<longrightarrow> k < find_bin (j + 1) need \<longrightarrow> sizes ! k < need)" using 1 True j by simp
    then show ?thesis unfolding eq using True by (metis Suc_eq_plus1 Suc_leD le_antisym not_less_eq_eq)
  next
    case False
    then have "find_bin j need = j" by (subst find_bin.simps) simp
    then show ?thesis using False "1.prems" by simp
  qed
qed

text \<open>The entries of the tables: the least bin whose blocks hold the request.\<close>

declare bremap.simps [simp del]

lemma bremap_least: "i < 8192 \<Longrightarrow> bremap i \<le> 31 \<and> i * 4 + 4 \<le> sizes ! bremap i \<and> (\<forall>k < bremap i. sizes ! k < i * 4 + 4)"
proof (induction i)
  case 0
  then show ?case using find_bin_le [of 4 0] by (simp add: bremap.simps(1))
next
  case (Suc i)
  then have IH: "bremap i \<le> 31" "\<forall>k < bremap i. sizes ! k < i * 4 + 4" by simp_all
  have "Suc i * 4 + 4 \<le> 34884" using Suc.prems by simp
  note f = find_bin_le [OF this IH(1)]
  have "sizes ! k < Suc i * 4 + 4" if "k < find_bin (bremap i) (Suc i * 4 + 4)" for k
  proof (cases "bremap i \<le> k")
    case True
    then show ?thesis using f that by blast
  next
    case False
    then have "sizes ! k < i * 4 + 4" using IH(2) by simp
    then show ?thesis by simp
  qed
  then show ?case using f by (simp add: bremap.simps(2))
qed

end
