(* ===== verification/IronSafe.thy ===== *)
theory IronSafe
  imports Iron
begin

text \<open>
  The invariant of the iron heap, its histories and its properties: blocks apart, nodes with a free object
  listed in their bin, no node kept that has no object in use.
\<close>

section \<open>Blocks of a node\<close>

lemma iron_block_bounds: "j < 32 \<Longrightarrow> a \<in> set (blocks_at x (sizes ! j)) \<Longrightarrow> x + 16 \<le> a \<and> a + sizes ! j \<le> x + 65536"
proof -
  assume "a \<in> set (blocks_at x (sizes ! j))"
  then have "x + 16 \<le> a \<and> a + sizes ! j \<le> x + 16 + 65520 div sizes ! j * sizes ! j"
    using grid_bounds unfolding blocks_at_def by simp
  moreover have "65520 div sizes ! j * sizes ! j \<le> 65520" by simp
  ultimately show ?thesis by linarith
qed

lemma block_node: "j < 32 \<Longrightarrow> x mod 65536 = 0 \<Longrightarrow> a \<in> set (blocks_at x (sizes ! j)) \<Longrightarrow> a - a mod 65536 = x \<and> a \<noteq> x"
proof -
  assume a: "j < 32" "x mod 65536 = 0" "a \<in> set (blocks_at x (sizes ! j))"
  have b: "x + 16 \<le> a" "a < x + 65536" using iron_block_bounds [OF a(1,3)] sizes_range [OF a(1)] by linarith+
  obtain c where c: "a = x + c" "c < 65536" using b by (metis add_less_cancel_left le_add1 le_trans less_eqE)
  then have "a mod 65536 = c" using a(2) by (metis add.left_neutral mod_add_left_eq mod_less)
  then show ?thesis using c b by simp
qed

lemma blocks_distinct: "j < 32 \<Longrightarrow> distinct (blocks_at x (sizes ! j))"
  using sizes_range [of j] unfolding blocks_at_def by (simp add: distinct_grid)

lemma blocks_nonempty: "j < 32 \<Longrightarrow> blocks_at x (sizes ! j) \<noteq> []"
proof -
  assume "j < 32"
  then have "0 < sizes ! j" "sizes ! j \<le> 65520" using sizes_range [of j] by linarith+
  then have "0 < 65520 div sizes ! j" by (simp add: div_greater_zero_iff)
  then show ?thesis unfolding blocks_at_def by (simp flip: length_greater_0_conv)
qed

lemma node_blocks_apart: "a \<in> set (blocks_at x g) \<Longrightarrow> b \<in> set (blocks_at x g) \<Longrightarrow> a \<noteq> b \<Longrightarrow> apart a g b g"
  using grid_apart unfolding blocks_at_def apart_def by blast

section \<open>The invariant\<close>

definition used :: "(nat \<rightharpoonup> nat) \<Rightarrow> nat \<Rightarrow> nat \<Rightarrow> nat set" where
  "used L x i = {a \<in> set (blocks_at x (sizes ! i)). L a \<noteq> None}"

definition node_ok :: "(nat \<rightharpoonup> nat) \<Rightarrow> (nat \<rightharpoonup> nat) \<Rightarrow> nat \<Rightarrow> node \<Rightarrow> bool" where
  "node_ok P L x N \<longleftrightarrow> P x = Some 1 \<and> nd_index N < 32 \<and> distinct (free_objs N) \<and>
     set (free_objs N) = {a \<in> set (blocks_at x (sizes ! nd_index N)). L a = None} \<and>
     usedObjs N = card (used L x (nd_index N))"

definition bin_ok :: "(nat \<rightharpoonup> node) \<Rightarrow> nat \<Rightarrow> nat list \<Rightarrow> bool" where
  "bin_ok M i xs \<longleftrightarrow> distinct xs \<and> set xs = {x. \<exists>N. M x = Some N \<and> nd_index N = i \<and> free_objs N \<noteq> []}"

definition live_ok :: "(nat \<rightharpoonup> node) \<Rightarrow> (nat \<rightharpoonup> nat) \<Rightarrow> (nat \<rightharpoonup> nat) \<Rightarrow> bool" where
  "live_ok M P L \<longleftrightarrow> (\<forall>a n. L a = Some n \<longrightarrow>
     (\<exists>x N. M x = Some N \<and> a \<in> set (blocks_at x (sizes ! nd_index N)) \<and> n \<le> sizes ! nd_index N) \<or>
     (M a = None \<and> (\<exists>k. P a = Some k \<and> n \<le> k * 65536)))"

definition plat_ok :: "(nat \<rightharpoonup> node) \<Rightarrow> (nat \<rightharpoonup> nat) \<Rightarrow> (nat \<rightharpoonup> nat) \<Rightarrow> bool" where
  "plat_ok M P L \<longleftrightarrow> (\<forall>x k. P x = Some k \<longrightarrow> 0 < x \<and> 0 < k \<and> x mod 65536 = 0 \<and> (M x \<noteq> None \<or> L x \<noteq> None)) \<and>
     (\<forall>x k y l. P x = Some k \<longrightarrow> P y = Some l \<longrightarrow> x \<noteq> y \<longrightarrow> apart x (k * 65536) y (l * 65536))"

definition iron_inv :: "iron \<Rightarrow> (nat \<rightharpoonup> nat) \<Rightarrow> bool" where
  "iron_inv s L \<longleftrightarrow> (\<forall>x N. nd s x = Some N \<longrightarrow> node_ok (plat s) L x N) \<and> (\<forall>i. bin_ok (nd s) i (nodes s i)) \<and>
     live_ok (nd s) (plat s) L \<and> plat_ok (nd s) (plat s) L"

definition tidy :: "iron \<Rightarrow> bool" where
  "tidy s \<longleftrightarrow> (\<forall>x N. nd s x = Some N \<longrightarrow> 0 < usedObjs N)"

lemma iron_invD:
  assumes "iron_inv s L"
  shows "nd s x = Some N \<Longrightarrow> node_ok (plat s) L x N" "bin_ok (nd s) i (nodes s i)" "live_ok (nd s) (plat s) L" "plat_ok (nd s) (plat s) L"
  using assms unfolding iron_inv_def by blast+

lemma node_okD:
  assumes "node_ok P L x N"
  shows "P x = Some 1" "nd_index N < 32" "distinct (free_objs N)"
    "set (free_objs N) = {a \<in> set (blocks_at x (sizes ! nd_index N)). L a = None}" "usedObjs N = card (used L x (nd_index N))"
  using assms unfolding node_ok_def by blast+

lemma plat_okD:
  assumes "plat_ok M P L" and "P x = Some k"
  shows "0 < x" "0 < k" "x mod 65536 = 0" "M x \<noteq> None \<or> L x \<noteq> None" "P y = Some l \<Longrightarrow> x \<noteq> y \<Longrightarrow> apart x (k * 65536) y (l * 65536)"
  using assms unfolding plat_ok_def by blast+

lemma finite_used [simp]: "finite (used L x i)"
  by (simp add: used_def)

text \<open>Where a node lies, and that its blocks lie in no other object.\<close>

lemma node_place:
  assumes I: "iron_inv s L" and N: "nd s x = Some N"
  shows "plat s x = Some 1" "0 < x" "x mod 65536 = 0" "nd_index N < 32"
  using node_okD(1,2) [OF iron_invD(1) [OF I N]] plat_okD [OF iron_invD(4) [OF I]] by blast+

lemma block_of_node:
  assumes I: "iron_inv s L" and N: "nd s x = Some N" and a: "a \<in> set (blocks_at x (sizes ! nd_index N))"
    and M: "nd s y = Some M" and b: "a \<in> set (blocks_at y (sizes ! nd_index M))"
  shows "y = x"
  using block_node [OF node_place(4,3) [OF I N] a] block_node [OF node_place(4,3) [OF I M] b] by simp

lemma block_not_plat:
  assumes I: "iron_inv s L" and N: "nd s x = Some N" and a: "a \<in> set (blocks_at x (sizes ! nd_index N))"
  shows "plat s a = None"
proof (cases "plat s a")
  case (Some k)
  then have "a mod 65536 = 0" using plat_okD(3) [OF iron_invD(4) [OF I]] by blast
  then show ?thesis using block_node [OF node_place(4,3) [OF I N] a] by simp
qed simp

section \<open>Allocation\<close>

definition plat_fresh :: "iron \<Rightarrow> nat \<Rightarrow> nat \<Rightarrow> bool" where
  "plat_fresh s p k \<longleftrightarrow> 0 < p \<and> p mod 65536 = 0 \<and> (\<forall>q l. plat s q = Some l \<longrightarrow> apart p (k * 65536) q (l * 65536))"

lemma fresh_not_there:
  assumes I: "iron_inv s L" and f: "plat_fresh s p k" and k: "0 < k"
  shows "plat s p = None" "nd s p = None" "L p = None"
proof -
  show pn: "plat s p = None"
  proof (cases "plat s p")
    case (Some l)
    then have "apart p (k * 65536) p (l * 65536)" "0 < l" using f plat_okD(2) [OF iron_invD(4) [OF I]] unfolding plat_fresh_def by blast+
    then show ?thesis using k by (simp add: apart_def)
  qed simp
  show "nd s p = None"
  proof (cases "nd s p")
    case (Some N)
    then show ?thesis using node_place(1) [OF I Some] pn by simp
  qed simp
  show "L p = None"
  proof (cases "L p")
    case (Some n)
    then obtain x N where "nd s x = Some N" "p \<in> set (blocks_at x (sizes ! nd_index N))"
      using iron_invD(3) [OF I] pn unfolding live_ok_def by fastforce
    then have "p - p mod 65536 \<noteq> p" using block_node [OF node_place(4,3) [OF I]] by metis
    then show ?thesis using f by (simp add: plat_fresh_def)
  qed simp
qed

lemma plat_ok_new:
  assumes ok: "plat_ok M P L" and f: "plat_fresh s p k" and P: "plat s = P" and k: "0 < k"
    and M: "\<And>x. M x \<noteq> None \<Longrightarrow> M' x \<noteq> None" and L: "\<And>x. L x \<noteq> None \<Longrightarrow> L' x \<noteq> None" and new: "M' p \<noteq> None \<or> L' p \<noteq> None"
  shows "plat_ok M' (P(p \<mapsto> k)) L'"
  unfolding plat_ok_def
proof (intro conjI allI impI)
  fix x l assume x: "(P(p \<mapsto> k)) x = Some l"
  show "0 < x" "0 < l" "x mod 65536 = 0" "M' x \<noteq> None \<or> L' x \<noteq> None"
    using x f k new plat_okD(1-4) [OF ok, of x l] M L by (auto simp: plat_fresh_def split: if_splits)
next
  fix x l y m assume "(P(p \<mapsto> k)) x = Some l" "(P(p \<mapsto> k)) y = Some m" "x \<noteq> y"
  then show "apart x (l * 65536) y (m * 65536)"
    using f P plat_okD(5) [OF ok, of x l y m] apart_sym unfolding plat_fresh_def by (auto split: if_splits)
qed

lemma large_ok:
  assumes I: "iron_inv s L" and f: "plat_fresh s p k" and n: "0 < k" "n \<le> k * 65536"
  shows "iron_inv (s\<lparr>allocs := c, plat := (plat s)(p \<mapsto> k)\<rparr>) (L(p \<mapsto> n))"
proof -
  note new = fresh_not_there [OF I f n(1)]
  have off: "p \<notin> set (blocks_at x (sizes ! nd_index N))" if N: "nd s x = Some N" for x N
  proof
    assume "p \<in> set (blocks_at x (sizes ! nd_index N))"
    then have "p - p mod 65536 \<noteq> p" using block_node [OF node_place(4,3) [OF I N]] by metis
    then show False using f by (simp add: plat_fresh_def)
  qed
  have "node_ok ((plat s)(p \<mapsto> k)) (L(p \<mapsto> n)) x N" if N: "nd s x = Some N" for x N
  proof -
    have "used (L(p \<mapsto> n)) x (nd_index N) = used L x (nd_index N)" using off [OF N] by (auto simp: used_def)
    moreover have "{a \<in> set (blocks_at x (sizes ! nd_index N)). (L(p \<mapsto> n)) a = None} = {a \<in> set (blocks_at x (sizes ! nd_index N)). L a = None}"
      using off [OF N] by auto
    moreover have "x \<noteq> p" using N new(2) by auto
    ultimately show ?thesis using iron_invD(1) [OF I N] unfolding node_ok_def by simp
  qed
  moreover have "live_ok (nd s) ((plat s)(p \<mapsto> k)) (L(p \<mapsto> n))"
    using iron_invD(3) [OF I] new n(2) unfolding live_ok_def by (auto; metis option.distinct(1))
  moreover have "plat_ok (nd s) ((plat s)(p \<mapsto> k)) (L(p \<mapsto> n))"
    by (rule plat_ok_new [OF iron_invD(4) [OF I] f refl n(1)]) auto
  ultimately show ?thesis using iron_invD(2) [OF I] unfolding iron_inv_def by simp
qed

lemma new_node_ok:
  assumes I: "iron_inv s L" and f: "plat_fresh s p 1" and i: "i < 32" and e: "nodes s i = []"
  shows "iron_inv (s\<lparr>allocs := c, plat := (plat s)(p \<mapsto> 1), nd := (nd s)(p \<mapsto> new_node p (sizes ! i) i), nodes := (nodes s)(i := [p])\<rparr>) L"
proof -
  note new = fresh_not_there [OF I f zero_less_one]
  have p0: "p mod 65536 = 0" using f by (simp add: plat_fresh_def)
  have none: "L a = None" if a: "a \<in> set (blocks_at p (sizes ! i))" for a
  proof (rule ccontr)
    assume "L a \<noteq> None"
    then obtain n where n: "L a = Some n" by blast
    note an = block_node [OF i p0 a]
    consider x N where "nd s x = Some N" "a \<in> set (blocks_at x (sizes ! nd_index N))" | k where "plat s a = Some k"
      using iron_invD(3) [OF I] n unfolding live_ok_def by blast
    then show False
    proof cases
      case (1 x N)
      then show False using block_node [OF node_place(4,3) [OF I 1(1)] 1(2)] an new(2) by simp
    next
      case (2 k)
      then show False using plat_okD(3) [OF iron_invD(4) [OF I] 2] an by simp
    qed
  qed
  have N0: "free_objs (new_node p (sizes ! i) i) = blocks_at p (sizes ! i)" "nd_index (new_node p (sizes ! i) i) = i"
    "usedObjs (new_node p (sizes ! i) i) = 0" by (simp_all add: new_node_def)
  have "used L p i = {}" using none by (auto simp: used_def)
  then have "node_ok ((plat s)(p \<mapsto> 1)) L p (new_node p (sizes ! i) i)"
    using i none blocks_distinct [OF i] unfolding node_ok_def N0 by auto
  moreover have "node_ok ((plat s)(p \<mapsto> 1)) L x N" if "nd s x = Some N" for x N
    using iron_invD(1) [OF I that] new(2) that unfolding node_ok_def by auto
  moreover have "bin_ok ((nd s)(p \<mapsto> new_node p (sizes ! i) i)) j (((nodes s)(i := [p])) j)" for j
  proof (cases "j = i")
    case True
    have "{x. \<exists>N. nd s x = Some N \<and> nd_index N = i \<and> free_objs N \<noteq> []} = {}" using iron_invD(2) [OF I, of i] e by (simp add: bin_ok_def)
    then show ?thesis using True N0 blocks_nonempty [OF i] unfolding bin_ok_def by auto
  next
    case False
    have "{x. \<exists>N. ((nd s)(p \<mapsto> new_node p (sizes ! i) i)) x = Some N \<and> nd_index N = j \<and> free_objs N \<noteq> []} =
        {x. \<exists>N. nd s x = Some N \<and> nd_index N = j \<and> free_objs N \<noteq> []}" using False N0(2) new(2) by auto
    then show ?thesis using iron_invD(2) [OF I, of j] False by (simp add: bin_ok_def)
  qed
  moreover have "live_ok ((nd s)(p \<mapsto> new_node p (sizes ! i) i)) ((plat s)(p \<mapsto> 1)) L"
    unfolding live_ok_def
  proof (intro allI impI)
    fix a n assume a: "L a = Some n"
    then have ap: "a \<noteq> p" using new(3) by auto
    consider x N where "nd s x = Some N" "a \<in> set (blocks_at x (sizes ! nd_index N))" "n \<le> sizes ! nd_index N"
      | k where "nd s a = None" "plat s a = Some k" "n \<le> k * 65536" using iron_invD(3) [OF I] a unfolding live_ok_def by blast
    then show "(\<exists>x N. ((nd s)(p \<mapsto> new_node p (sizes ! i) i)) x = Some N \<and> a \<in> set (blocks_at x (sizes ! nd_index N)) \<and> n \<le> sizes ! nd_index N) \<or>
        (((nd s)(p \<mapsto> new_node p (sizes ! i) i)) a = None \<and> (\<exists>k. ((plat s)(p \<mapsto> 1)) a = Some k \<and> n \<le> k * 65536))"
    proof cases
      case (1 x N)
      then have "((nd s)(p \<mapsto> new_node p (sizes ! i) i)) x = Some N" using new(2) by auto
      then show ?thesis using 1 by blast
    next
      case (2 k)
      then show ?thesis using ap by simp
    qed
  qed
  moreover have "plat_ok ((nd s)(p \<mapsto> new_node p (sizes ! i) i)) ((plat s)(p \<mapsto> 1)) L"
    by (rule plat_ok_new [OF iron_invD(4) [OF I] f refl zero_less_one]) auto
  ultimately show ?thesis unfolding iron_inv_def by simp
qed

text \<open>An object of a node changes hands: only that node's free list, count and bin change.\<close>

lemma node_update:
  assumes I: "iron_inv s L" and N: "nd s x = Some N" and a: "a \<in> set (blocks_at x (sizes ! nd_index N))"
    and idx: "nd_index N' = nd_index N" and ok: "node_ok (plat s) L' x N'" and L': "\<And>b. b \<noteq> a \<Longrightarrow> L' b = L b"
    and live: "\<And>n. L' a = Some n \<Longrightarrow> n \<le> sizes ! nd_index N"
    and bin: "bin_ok ((nd s)(x \<mapsto> N')) (nd_index N) xs"
  shows "iron_inv (s\<lparr>nd := (nd s)(x \<mapsto> N'), nodes := (nodes s)(nd_index N := xs)\<rparr>) L'"
proof -
  have "node_ok (plat s) L' y M" if M: "((nd s)(x \<mapsto> N')) y = Some M" for y M
  proof (cases "y = x")
    case True
    then show ?thesis using M ok by simp
  next
    case False
    then have M0: "nd s y = Some M" using M by simp
    have "a \<notin> set (blocks_at y (sizes ! nd_index M))" using block_of_node [OF I N a M0] False by blast
    then have "used L' y (nd_index M) = used L y (nd_index M)"
      "{b \<in> set (blocks_at y (sizes ! nd_index M)). L' b = None} = {b \<in> set (blocks_at y (sizes ! nd_index M)). L b = None}"
      using L' by (fastforce simp: used_def)+
    then show ?thesis using iron_invD(1) [OF I M0] unfolding node_ok_def by simp
  qed
  moreover have "bin_ok ((nd s)(x \<mapsto> N')) j (((nodes s)(nd_index N := xs)) j)" for j
  proof (cases "j = nd_index N")
    case True
    then show ?thesis using bin by simp
  next
    case False
    have "{y. \<exists>M. ((nd s)(x \<mapsto> N')) y = Some M \<and> nd_index M = j \<and> free_objs M \<noteq> []} = {y. \<exists>M. nd s y = Some M \<and> nd_index M = j \<and> free_objs M \<noteq> []}"
      using False idx N by auto
    then show ?thesis using iron_invD(2) [OF I, of j] False by (simp add: bin_ok_def)
  qed
  moreover have "live_ok ((nd s)(x \<mapsto> N')) (plat s) L'"
    unfolding live_ok_def
  proof (intro allI impI)
    fix b n assume b: "L' b = Some n"
    show "(\<exists>y M. ((nd s)(x \<mapsto> N')) y = Some M \<and> b \<in> set (blocks_at y (sizes ! nd_index M)) \<and> n \<le> sizes ! nd_index M) \<or>
      (((nd s)(x \<mapsto> N')) b = None \<and> (\<exists>k. plat s b = Some k \<and> n \<le> k * 65536))"
    proof (cases "b = a")
      case True
      have "((nd s)(x \<mapsto> N')) x = Some N'" by simp
      then show ?thesis using True a idx live b by metis
    next
      case False
      then have "L b = Some n" using L' b by simp
      then consider y M where "nd s y = Some M" "b \<in> set (blocks_at y (sizes ! nd_index M))" "n \<le> sizes ! nd_index M"
        | k where "nd s b = None" "plat s b = Some k" "n \<le> k * 65536" using iron_invD(3) [OF I] unfolding live_ok_def by blast
      then show ?thesis
      proof cases
        case (1 y M)
        then have "((nd s)(x \<mapsto> N')) y = Some (if y = x then N' else M)" "nd_index (if y = x then N' else M) = nd_index M"
          using N idx by auto
        then show ?thesis using 1 by metis
      next
        case (2 k)
        then show ?thesis using N by auto
      qed
    qed
  qed
  moreover have "plat_ok ((nd s)(x \<mapsto> N')) (plat s) L'"
  proof -
    have "plat s a = None" by (rule block_not_plat [OF I N a])
    then have "\<And>y k. plat s y = Some k \<Longrightarrow> L' y = L y" using L' by (metis option.distinct(1))
    then show ?thesis using iron_invD(4) [OF I] unfolding plat_ok_def by auto
  qed
  ultimately show ?thesis unfolding iron_inv_def by simp
qed

lemma take_ok:
  assumes I: "iron_inv s L" and b: "nodes s i = x # xs" and i: "i < 32" and n: "n \<le> sizes ! i" and t: "tidy s \<or> (\<forall>y N. nd s y = Some N \<longrightarrow> y \<noteq> x \<longrightarrow> 0 < usedObjs N)"
  shows "\<exists>a s'. take_object i s = Some (a, s') \<and> L a = None \<and> 0 < a \<and> iron_inv s' (L(a \<mapsto> n)) \<and> tidy s'"
proof -
  have bi: "distinct (x # xs)" "set (x # xs) = {y. \<exists>N. nd s y = Some N \<and> nd_index N = i \<and> free_objs N \<noteq> []}"
    using iron_invD(2) [OF I, of i] b by (simp_all add: bin_ok_def)
  then obtain N where N: "nd s x = Some N" "nd_index N = i" "free_objs N \<noteq> []" by auto
  obtain a as where fr: "free_objs N = a # as" using N(3) by (cases "free_objs N") auto
  let ?N = "N\<lparr>usedObjs := usedObjs N + 1, free_objs := as\<rparr>"
  note k = node_okD [OF iron_invD(1) [OF I N(1)]]
  have a: "a \<in> set (blocks_at x (sizes ! nd_index N))" "L a = None" using k(4) fr by auto
  have ok: "node_ok (plat s) (L(a \<mapsto> n)) x ?N"
  proof -
    have "used (L(a \<mapsto> n)) x (nd_index N) = insert a (used L x (nd_index N))" "a \<notin> used L x (nd_index N)"
      using a by (auto simp: used_def)
    then have "usedObjs N + 1 = card (used (L(a \<mapsto> n)) x (nd_index N))" using k(5) by simp
    moreover have "set as = {b \<in> set (blocks_at x (sizes ! nd_index N)). (L(a \<mapsto> n)) b = None}"
      using k(3,4) fr by auto
    ultimately show ?thesis using k(1-3) fr unfolding node_ok_def by simp
  qed
  define ys where "ys = (if as = [] then xs else x # xs)"
  have same: "{y. \<exists>M. ((nd s)(x \<mapsto> ?N)) y = Some M \<and> nd_index M = i \<and> free_objs M \<noteq> []} =
      (if as = [] then {y. \<exists>M. nd s y = Some M \<and> nd_index M = i \<and> free_objs M \<noteq> []} - {x}
       else {y. \<exists>M. nd s y = Some M \<and> nd_index M = i \<and> free_objs M \<noteq> []})"
    using N by auto
  have bin: "bin_ok ((nd s)(x \<mapsto> ?N)) i ys"
    unfolding bin_ok_def same using bi by (auto simp: ys_def simp flip: bi(2))
  have inv: "iron_inv (s\<lparr>nd := (nd s)(x \<mapsto> ?N), nodes := (nodes s)(i := ys)\<rparr>) (L(a \<mapsto> n))"
    using node_update [OF I N(1) a(1), of ?N "L(a \<mapsto> n)" ys] ok n bin N(2) by simp
  have eq: "s\<lparr>nd := (nd s)(x \<mapsto> ?N), nodes := (nodes s)(i := ys)\<rparr> =
      (let s' = s\<lparr>nd := (nd s)(x \<mapsto> ?N)\<rparr> in if as = [] then s'\<lparr>nodes := (nodes s')(i := tl (nodes s' i))\<rparr> else s')"
    using b by (auto simp: ys_def Let_def fun_upd_idem)
  have td: "tidy (s\<lparr>nd := (nd s)(x \<mapsto> ?N), nodes := (nodes s)(i := ys)\<rparr>)" using t unfolding tidy_def by auto
  have "0 < a" using iron_block_bounds [OF k(2) a(1)] by simp
  have "take_object i s = Some (a, s\<lparr>nd := (nd s)(x \<mapsto> ?N), nodes := (nodes s)(i := ys)\<rparr>)"
    unfolding eq using N(1) fr b by (simp add: take_object_def node_alloc_def Let_def)
  then show ?thesis using a(2) \<open>0 < a\<close> inv td by blast
qed

text \<open>The answer of \<open>VirtualAlloc\<close> to the call that a request makes, if it makes one.\<close>

definition answer_ok :: "nat \<Rightarrow> nat \<Rightarrow> iron \<Rightarrow> bool" where
  "answer_ok n p s \<longleftrightarrow>
     (if 32768 < n then plat_fresh s p ((n - 1) div 65536 + 1)
      else nodes s (bremap (if n = 0 then 0 else (n - 1) div 4)) = [] \<longrightarrow> plat_fresh s p 1)"

lemma request_bin:
  assumes "n \<le> 32768"
  shows "bremap (if n = 0 then 0 else (n - 1) div 4) < 32" "n \<le> bsizes (if n = 0 then 0 else (n - 1) div 4)"
proof -
  let ?i = "if n = 0 then 0 else (n - 1) div 4"
  have i: "?i < 8192" "n \<le> ?i * 4 + 4" using assms by auto
  show "bremap ?i < 32" "n \<le> bsizes ?i" using bremap_least [OF i(1)] i(2) by (simp_all add: bsizes_def)
qed

lemma iron_malloc_ok:
  assumes I: "iron_inv s L" and t: "tidy s" and ans: "answer_ok n p s"
  shows "\<exists>a s'. iron_malloc n p s = Some (a, s') \<and> L a = None \<and> 0 < a \<and> iron_inv s' (L(a \<mapsto> n)) \<and> tidy s'"
proof (cases "32768 < n")
  case True
  let ?k = "(n - 1) div 65536 + 1"
  have f: "plat_fresh s p ?k" using ans True by (simp add: answer_ok_def)
  have "n \<le> ?k * 65536" using True by simp
  then have "iron_inv (s\<lparr>allocs := allocs s + 1, plat := (plat s)(p \<mapsto> ?k)\<rparr>) (L(p \<mapsto> n))" by (intro large_ok [OF I f]) simp_all
  moreover have "tidy (s\<lparr>allocs := allocs s + 1, plat := (plat s)(p \<mapsto> ?k)\<rparr>)" using t by (simp add: tidy_def)
  moreover have "iron_malloc n p s = Some (p, s\<lparr>allocs := allocs s + 1, plat := (plat s)(p \<mapsto> ?k)\<rparr>)"
    using True f by (auto simp: iron_malloc_def platform_alloc_def plat_fresh_def)
  ultimately show ?thesis using fresh_not_there(3) [OF I f] f by (auto simp: plat_fresh_def)
next
  case False
  define i where "i = (if n = 0 then 0 else (n - 1) div 4)"
  have b: "bremap i < 32" "n \<le> sizes ! bremap i" using request_bin [of n] False unfolding i_def bsizes_def by simp_all
  have eq: "iron_malloc n p s = do { s \<leftarrow> fill_bin (bremap i) (bsizes i) p s; take_object (bremap i) s }"
    using False by (simp add: iron_malloc_def i_def Let_def)
  show ?thesis
  proof (cases "nodes s (bremap i)")
    case Nil
    then have f: "plat_fresh s p 1" using ans False by (simp add: answer_ok_def i_def)
    let ?s = "s\<lparr>allocs := allocs s + 1, plat := (plat s)(p \<mapsto> 1), nd := (nd s)(p \<mapsto> new_node p (sizes ! bremap i) (bremap i)),
      nodes := (nodes s)(bremap i := [p])\<rparr>"
    have "iron_inv ?s L" by (rule new_node_ok [OF I f b(1) Nil])
    moreover have "nodes ?s (bremap i) = p # []" by simp
    moreover have "tidy ?s \<or> (\<forall>y N. nd ?s y = Some N \<longrightarrow> y \<noteq> p \<longrightarrow> 0 < usedObjs N)" using t by (auto simp: tidy_def)
    ultimately obtain a s' where "take_object (bremap i) ?s = Some (a, s')" "L a = None" "0 < a" "iron_inv s' (L(a \<mapsto> n))" "tidy s'"
      using take_ok [of ?s L "bremap i" p "[]" n] b by blast
    moreover have "fill_bin (bremap i) (bsizes i) p s = Some ?s"
      using f Nil by (simp add: fill_bin_def platform_alloc_def plat_fresh_def bsizes_def)
    ultimately show ?thesis unfolding eq by simp
  next
    case (Cons x xs)
    then show ?thesis unfolding eq using take_ok [OF I Cons b] t by (simp add: fill_bin_def)
  qed
qed

section \<open>Clean-up\<close>

text \<open>Only the set of the nodes of a bin matters to the invariant.\<close>

lemma bin_list_cong:
  assumes "iron_inv (s\<lparr>nodes := (nodes s)(i := xs)\<rparr>) L" and "set ys = set xs" and "distinct ys"
  shows "iron_inv (s\<lparr>nodes := (nodes s)(i := ys)\<rparr>) L"
  using assms unfolding iron_inv_def bin_ok_def by (auto split: if_splits)

lemma drop_node:
  assumes I: "iron_inv s L" and N: "nd s x = Some N" "usedObjs N = 0" and xs: "nodes s (nd_index N) = xs @ x # ys"
  shows "plat s x = Some 1" "iron_inv (s\<lparr>allocs := c, plat := (plat s)(x := None), nd := (nd s)(x := None), nodes := (nodes s)(nd_index N := xs @ ys)\<rparr>) L"
proof -
  note k = node_okD [OF iron_invD(1) [OF I N(1)]]
  show p: "plat s x = Some 1" by (rule k(1))
  have "used L x (nd_index N) = {}" using k(5) N(2) by simp
  then have none: "a \<in> set (blocks_at x (sizes ! nd_index N)) \<Longrightarrow> L a = None" for a by (auto simp: used_def)
  let ?s = "s\<lparr>allocs := c, plat := (plat s)(x := None), nd := (nd s)(x := None), nodes := (nodes s)(nd_index N := xs @ ys)\<rparr>"
  have "node_ok (plat ?s) L y M" if "nd ?s y = Some M" for y M
    using iron_invD(1) [OF I, of y M] that unfolding node_ok_def by (auto split: if_splits)
  moreover have "bin_ok (nd ?s) j (nodes ?s j)" for j
  proof (cases "j = nd_index N")
    case True
    have "distinct (xs @ x # ys)" "set (xs @ x # ys) = {y. \<exists>M. nd s y = Some M \<and> nd_index M = j \<and> free_objs M \<noteq> []}"
      using iron_invD(2) [OF I, of j] xs True by (simp_all add: bin_ok_def)
    then have "distinct (xs @ ys)" "set (xs @ ys) = {y. \<exists>M. nd s y = Some M \<and> nd_index M = j \<and> free_objs M \<noteq> []} - {x}" by auto
    then show ?thesis using True unfolding bin_ok_def by auto
  next
    case False
    have "{y. \<exists>M. nd ?s y = Some M \<and> nd_index M = j \<and> free_objs M \<noteq> []} = {y. \<exists>M. nd s y = Some M \<and> nd_index M = j \<and> free_objs M \<noteq> []}"
      using False N(1) by auto
    then show ?thesis using iron_invD(2) [OF I, of j] False by (simp add: bin_ok_def)
  qed
  moreover have "live_ok (nd ?s) (plat ?s) L"
    unfolding live_ok_def
  proof (intro allI impI)
    fix a n assume a: "L a = Some n"
    consider y M where "nd s y = Some M" "a \<in> set (blocks_at y (sizes ! nd_index M))" "n \<le> sizes ! nd_index M"
      | l where "nd s a = None" "plat s a = Some l" "n \<le> l * 65536" using iron_invD(3) [OF I] a unfolding live_ok_def by blast
    then show "(\<exists>y M. nd ?s y = Some M \<and> a \<in> set (blocks_at y (sizes ! nd_index M)) \<and> n \<le> sizes ! nd_index M) \<or>
        (nd ?s a = None \<and> (\<exists>l. plat ?s a = Some l \<and> n \<le> l * 65536))"
    proof cases
      case (1 y M)
      then have "y \<noteq> x" using none a N(1) by auto
      then show ?thesis using 1 by (intro disjI1 exI [of _ y] exI [of _ M]) simp
    next
      case (2 l)
      then have "a \<noteq> x" using N(1) by auto
      then show ?thesis using 2 by simp
    qed
  qed
  moreover have "plat_ok (nd ?s) (plat ?s) L" using iron_invD(4) [OF I] unfolding plat_ok_def by (auto split: if_splits)
  ultimately show "iron_inv ?s L" unfolding iron_inv_def by blast
qed

text \<open>What the clean-up of a bin keeps of the others.\<close>

definition bin_used :: "nat \<Rightarrow> iron \<Rightarrow> bool" where
  "bin_used i s \<longleftrightarrow> (\<forall>x \<in> set (nodes s i). \<forall>N. nd s x = Some N \<longrightarrow> 0 < usedObjs N)"

lemma clean_bin_ok:
  assumes "iron_inv (s\<lparr>nodes := (nodes s)(i := nodes s i @ xs)\<rparr>) L" and "bin_used i s"
  shows "\<exists>s'. clean_bin i xs s = Some s' \<and> iron_inv s' L \<and> bin_used i s' \<and> (\<forall>j. j \<noteq> i \<longrightarrow> nodes s' j = nodes s j) \<and> nd s' \<subseteq>\<^sub>m nd s"
  using assms
proof (induction xs arbitrary: s)
  case Nil
  have "s\<lparr>nodes := (nodes s)(i := nodes s i @ [])\<rparr> = s" by simp
  then show ?case using Nil by simp
next
  case (Cons x xs)
  let ?t = "s\<lparr>nodes := (nodes s)(i := nodes s i @ x # xs)\<rparr>"
  have "x \<in> set (nodes ?t i)" by simp
  then obtain N where N: "nd s x = Some N" "nd_index N = i" "free_objs N \<noteq> []"
    using iron_invD(2) [OF Cons.prems(1), of i] by (auto simp: bin_ok_def)
  have dist: "distinct (nodes s i @ x # xs)" using iron_invD(2) [OF Cons.prems(1), of i] by (simp add: bin_ok_def)
  show ?case
  proof (cases "usedObjs N = 0")
    case True
    note d = drop_node(1) [OF Cons.prems(1), where x = x and N = N and xs = "nodes s i" and ys = xs]
      drop_node(2) [OF Cons.prems(1), where x = x and N = N and xs = "nodes s i" and ys = xs and c = "allocs s - 1"]
    have p: "plat s x = Some 1" using d(1) N True by simp
    note pl = plat_okD [OF iron_invD(4) [OF Cons.prems(1)], of x 1]
    let ?s = "s\<lparr>allocs := allocs s - 1, plat := (plat s)(x := None), nd := (nd s)(x := None)\<rparr>"
    have "iron_inv (?s\<lparr>nodes := (nodes ?s)(i := nodes ?s i @ xs)\<rparr>) L" using d(2) N True by (simp add: fun_upd_same del: fun_upd_apply)
    moreover have "bin_used i ?s" using Cons.prems(2) unfolding bin_used_def by simp
    ultimately obtain s' where s': "clean_bin i xs ?s = Some s'" "iron_inv s' L" "bin_used i s'" "\<forall>j. j \<noteq> i \<longrightarrow> nodes s' j = nodes ?s j" "nd s' \<subseteq>\<^sub>m nd ?s"
      using Cons.IH [of ?s] by blast
    have "platform_free x s = Some (s\<lparr>allocs := allocs s - 1, plat := (plat s)(x := None)\<rparr>)"
      using p pl(1,3) by (simp add: platform_free_def)
    then have "clean_bin i (x # xs) s = Some s'" using N(1) True s'(1) by simp
    moreover have "nd ?s \<subseteq>\<^sub>m nd s" by (auto simp: map_le_def)
    then have "nd s' \<subseteq>\<^sub>m nd s" using s'(5) map_le_trans by blast
    ultimately show ?thesis using s'(2-4) by simp
  next
    case False
    let ?s = "s\<lparr>nodes := (nodes s)(i := x # nodes s i)\<rparr>"
    have "?s\<lparr>nodes := (nodes ?s)(i := nodes ?s i @ xs)\<rparr> = s\<lparr>nodes := (nodes s)(i := (x # nodes s i) @ xs)\<rparr>" by simp
    moreover have "iron_inv (s\<lparr>nodes := (nodes s)(i := (x # nodes s i) @ xs)\<rparr>) L"
      by (rule bin_list_cong [OF Cons.prems(1)]) (use dist in auto)
    moreover have "bin_used i ?s" using Cons.prems(2) N(1) False unfolding bin_used_def by auto
    ultimately obtain s' where s': "clean_bin i xs ?s = Some s'" "iron_inv s' L" "bin_used i s'" "\<forall>j. j \<noteq> i \<longrightarrow> nodes s' j = nodes ?s j" "nd s' \<subseteq>\<^sub>m nd ?s"
      using Cons.IH [of ?s] by metis
    then show ?thesis using N(1) False by simp
  qed
qed

lemma clean_bins_ok:
  assumes "iron_inv s L" and "\<forall>j < i. bin_used j s"
  shows "\<exists>s'. clean_bins i k s = Some s' \<and> iron_inv s' L \<and> (\<forall>j < i + k. bin_used j s') \<and> nd s' \<subseteq>\<^sub>m nd s"
  using assms
proof (induction k arbitrary: i s)
  case 0
  then show ?case by simp
next
  case (Suc k)
  let ?s = "s\<lparr>nodes := (nodes s)(i := [])\<rparr>"
  have "?s\<lparr>nodes := (nodes ?s)(i := nodes ?s i @ nodes s i)\<rparr> = s" by simp
  then have "iron_inv (?s\<lparr>nodes := (nodes ?s)(i := nodes ?s i @ nodes s i)\<rparr>) L" using Suc.prems(1) by simp
  moreover have "bin_used i ?s" by (simp add: bin_used_def)
  ultimately obtain s1 where s1: "clean_bin i (nodes s i) ?s = Some s1" "iron_inv s1 L" "bin_used i s1" "\<forall>j. j \<noteq> i \<longrightarrow> nodes s1 j = nodes ?s j"
      "nd s1 \<subseteq>\<^sub>m nd ?s"
    using clean_bin_ok by blast
  have "bin_used j s1" if "j < i + 1" for j
  proof (cases "j = i")
    case True
    then show ?thesis using s1(3) by simp
  next
    case False
    then have "bin_used j s" "nodes s1 j = nodes s j" using that Suc.prems(2) s1(4) by simp_all
    moreover have "nd s1 \<subseteq>\<^sub>m nd s" using s1(5) by simp
    ultimately show ?thesis unfolding bin_used_def map_le_def by (metis domI)
  qed
  then obtain s' where "clean_bins (i + 1) k s1 = Some s'" "iron_inv s' L" "\<forall>j < i + 1 + k. bin_used j s'" "nd s' \<subseteq>\<^sub>m nd s1"
    using Suc.IH [of s1 "i + 1"] s1(2) by auto
  moreover have "nd s1 \<subseteq>\<^sub>m nd s" using s1(5) by simp
  ultimately show ?case using s1(1) map_le_trans by (simp; blast)
qed

lemma clean_up_ok:
  assumes "iron_inv s L"
  shows "\<exists>s'. clean_up s = Some s' \<and> iron_inv s' L \<and> tidy s'"
proof -
  obtain s' where s': "clean_bins 0 32 s = Some s'" "iron_inv s' L" "\<forall>j < 32. bin_used j s'"
    using clean_bins_ok [OF assms, of 0 32] by auto
  have "0 < usedObjs N" if N: "nd s' x = Some N" for x N
  proof (cases "free_objs N = []")
    case True
    note k = node_okD [OF iron_invD(1) [OF s'(2) N]]
    have "used L x (nd_index N) = set (blocks_at x (sizes ! nd_index N))" using k(4) True by (auto simp: used_def)
    then have "used L x (nd_index N) \<noteq> {}" using blocks_nonempty [OF k(2)] by simp
    then show ?thesis using k(5) by (simp add: card_gt_0_iff)
  next
    case False
    then have "x \<in> set (nodes s' (nd_index N))" using iron_invD(2) [OF s'(2), of "nd_index N"] N unfolding bin_ok_def by auto
    then show ?thesis using s'(3) N node_okD(2) [OF iron_invD(1) [OF s'(2) N]] unfolding bin_used_def by blast
  qed
  then show ?thesis using s'(1,2) unfolding clean_up_def tidy_def by auto
qed

section \<open>Release\<close>

lemma iron_large_free_ok:
  assumes I: "iron_inv s L" and a: "nd s a = None" "plat s a = Some k"
  shows "iron_inv (s\<lparr>allocs := c, plat := (plat s)(a := None)\<rparr>) (L(a := None))"
proof -
  have a0: "a mod 65536 = 0" using plat_okD(3) [OF iron_invD(4) [OF I] a(2)] .
  have off: "a \<notin> set (blocks_at x (sizes ! nd_index N))" if N: "nd s x = Some N" for x N
  proof
    assume "a \<in> set (blocks_at x (sizes ! nd_index N))"
    then have "a - a mod 65536 \<noteq> a" using block_node [OF node_place(4,3) [OF I N]] by metis
    then show False using a0 by simp
  qed
  have "node_ok ((plat s)(a := None)) (L(a := None)) x N" if N: "nd s x = Some N" for x N
  proof -
    have "used (L(a := None)) x (nd_index N) = used L x (nd_index N)" using off [OF N] by (auto simp: used_def)
    moreover have "{b \<in> set (blocks_at x (sizes ! nd_index N)). (L(a := None)) b = None} = {b \<in> set (blocks_at x (sizes ! nd_index N)). L b = None}"
      using off [OF N] by auto
    moreover have "x \<noteq> a" using N a(1) by auto
    ultimately show ?thesis using iron_invD(1) [OF I N] unfolding node_ok_def by simp
  qed
  moreover have "live_ok (nd s) ((plat s)(a := None)) (L(a := None))"
    using iron_invD(3) [OF I] unfolding live_ok_def by auto
  moreover have "plat_ok (nd s) ((plat s)(a := None)) (L(a := None))" using iron_invD(4) [OF I] unfolding plat_ok_def by auto
  ultimately show ?thesis using iron_invD(2) [OF I] unfolding iron_inv_def by simp
qed

lemma iron_free_ok:
  assumes I: "iron_inv s L" and t: "tidy s" and a: "L a = Some n"
  shows "\<exists>s'. iron_free a s = Some s' \<and> iron_inv s' (L(a := None)) \<and> tidy s'"
proof -
  consider (small) x N where "nd s x = Some N" "a \<in> set (blocks_at x (sizes ! nd_index N))"
    | (large) k where "nd s a = None" "plat s a = Some k" using iron_invD(3) [OF I] a unfolding live_ok_def by blast
  then show ?thesis
  proof cases
    case large
    have a0: "a - a mod 65536 = a" "a \<noteq> 0" "a mod 65536 = 0" using plat_okD(1,3) [OF iron_invD(4) [OF I] large(2)] by simp_all
    have "iron_free a s = Some (s\<lparr>allocs := allocs s - 1, plat := (plat s)(a := None)\<rparr>)"
      using a0 large(2) by (simp add: iron_free_def Let_def platform_free_def)
    moreover have "tidy (s\<lparr>allocs := allocs s - 1, plat := (plat s)(a := None)\<rparr>)" using t by (simp add: tidy_def)
    ultimately show ?thesis using iron_large_free_ok [OF I large] by blast
  next
    case (small x N)
    let ?i = "nd_index N"
    note k = node_okD [OF iron_invD(1) [OF I small(1)]]
    have d: "a - a mod 65536 = x" "a \<noteq> x" using block_node [OF node_place(4,3) [OF I small(1)] small(2)] by simp_all
    have u: "a \<in> used L x ?i" using small(2) a by (simp add: used_def)
    then have pos: "0 < usedObjs N" using k(5) by (auto simp: card_gt_0_iff)
    have u': "used (L(a := None)) x ?i = used L x ?i - {a}" by (auto simp: used_def)
    let ?N = "node_free a N"
    have N': "nd_index ?N = ?i" "free_objs ?N = a # free_objs N" "usedObjs ?N = usedObjs N - 1" using pos by (simp_all add: node_free_def)
    have "set (a # free_objs N) = {b \<in> set (blocks_at x (sizes ! ?i)). (L(a := None)) b = None}" "a \<notin> set (free_objs N)"
      using k(4) small(2) a by auto
    then have ok: "node_ok (plat s) (L(a := None)) x ?N" using k u unfolding node_ok_def N' u' by simp
    define xs where "xs = (if free_objs N = [] then x # nodes s ?i else nodes s ?i)"
    have b: "distinct (nodes s ?i)" "set (nodes s ?i) = {y. \<exists>M. nd s y = Some M \<and> nd_index M = ?i \<and> free_objs M \<noteq> []}"
      using iron_invD(2) [OF I, of ?i] by (simp_all add: bin_ok_def)
    have "{y. \<exists>M. ((nd s)(x \<mapsto> ?N)) y = Some M \<and> nd_index M = ?i \<and> free_objs M \<noteq> []} =
        insert x {y. \<exists>M. nd s y = Some M \<and> nd_index M = ?i \<and> free_objs M \<noteq> []}" using N' small(1) by auto
    then have eqs: "{y. \<exists>M. ((nd s)(x \<mapsto> ?N)) y = Some M \<and> nd_index M = ?i \<and> free_objs M \<noteq> []} = insert x (set (nodes s ?i))"
      unfolding b(2) .
    have "x \<in> set (nodes s ?i) \<longleftrightarrow> free_objs N \<noteq> []" unfolding b(2) using small(1) by simp
    then have "distinct xs" "set xs = insert x (set (nodes s ?i))" using b(1) unfolding xs_def by auto
    then have bin: "bin_ok ((nd s)(x \<mapsto> ?N)) ?i xs" unfolding bin_ok_def eqs by simp
    let ?s = "s\<lparr>nd := (nd s)(x \<mapsto> ?N), nodes := (nodes s)(?i := xs)\<rparr>"
    have inv: "iron_inv ?s (L(a := None))" by (rule node_update [OF I small N'(1) ok _ _ bin]) simp_all
    have sw: "s\<lparr>nodes := f, nd := g\<rparr> = s\<lparr>nd := g, nodes := f\<rparr>" for f g by simp
    have eq: "iron_free a s = (if usedObjs ?N = 0 then clean_up ?s else Some ?s)"
      using d small(1) by (cases "free_objs N") (simp_all add: iron_free_def Let_def xs_def fun_upd_triv node_free_def sw)
    show ?thesis
    proof (cases "usedObjs ?N = 0")
      case True
      then show ?thesis using eq clean_up_ok [OF inv] by simp
    next
      case False
      then have "tidy ?s" using t unfolding tidy_def by simp
      then show ?thesis using eq False inv by simp
    qed
  qed
qed

section \<open>Histories\<close>

text \<open>Requests that the system can or cannot meet, and frees of objects in use. \<open>L\<close> maps them to the bytes asked for.\<close>

inductive iron_reach :: "iron \<Rightarrow> (nat \<rightharpoonup> nat) \<Rightarrow> bool" where
  start: "iron_reach iron0 Map.empty"
| malloc: "iron_reach s L \<Longrightarrow> answer_ok n p s \<Longrightarrow> iron_malloc n p s = Some (a, s') \<Longrightarrow> iron_reach s' (L(a \<mapsto> n))"
| fail: "iron_reach s L \<Longrightarrow> 32768 < n \<Longrightarrow> iron_malloc n 0 s = Some (0, s') \<Longrightarrow> iron_reach s' L"
| free: "iron_reach s L \<Longrightarrow> L a \<noteq> None \<Longrightarrow> iron_free a s = Some s' \<Longrightarrow> iron_reach s' (L(a := None))"

lemma iron_reach_inv: "iron_reach s L \<Longrightarrow> iron_inv s L \<and> tidy s"
proof (induction rule: iron_reach.induct)
  case start
  then show ?case by (simp add: iron0_def iron_inv_def bin_ok_def live_ok_def plat_ok_def tidy_def)
next
  case (malloc s L n p a s')
  then show ?case using iron_malloc_ok [of s L n p] by (auto simp del: fun_upd_apply)
next
  case (fail s L n s')
  then have "s' = s\<lparr>allocs := allocs s + 1\<rparr>" by (simp add: iron_malloc_def platform_alloc_def)
  then show ?case using fail by (simp add: iron_inv_def tidy_def)
next
  case (free s L a s')
  then show ?case using iron_free_ok [of s L a] by (auto simp del: fun_upd_apply)
qed

lemma live_blocks_apart:
  assumes I: "iron_inv s L" and a: "L a = Some n" and b: "L b = Some m" and ne: "a \<noteq> b"
  shows "apart a n b m"
proof -
  have ext: "\<exists>x k. plat s x = Some k \<and> x \<le> c \<and> c + j \<le> x + k * 65536 \<and>
      (x = c \<and> nd s x = None \<or> (\<exists>N. nd s x = Some N \<and> c \<in> set (blocks_at x (sizes ! nd_index N)) \<and> j \<le> sizes ! nd_index N))"
    if c: "L c = Some j" for c j
  proof -
    consider (small) x N where "nd s x = Some N" "c \<in> set (blocks_at x (sizes ! nd_index N))" "j \<le> sizes ! nd_index N"
      | (large) k where "nd s c = None" "plat s c = Some k" "j \<le> k * 65536" using iron_invD(3) [OF I] c unfolding live_ok_def by blast
    then show ?thesis
    proof cases
      case (small x N)
      note p = node_place [OF I small(1)]
      have "x + 16 \<le> c" "c + sizes ! nd_index N \<le> x + 65536" using iron_block_bounds [OF p(4) small(2)] by simp_all
      then show ?thesis using small p(1) by (intro exI [of _ x] exI [of _ 1]) auto
    next
      case (large k)
      then show ?thesis by (intro exI [of _ c] exI [of _ k]) simp
    qed
  qed
  obtain x k where A: "plat s x = Some k" "x \<le> a" "a + n \<le> x + k * 65536"
      "x = a \<and> nd s x = None \<or> (\<exists>N. nd s x = Some N \<and> a \<in> set (blocks_at x (sizes ! nd_index N)) \<and> n \<le> sizes ! nd_index N)"
    using ext [OF a] by blast
  obtain y l where B: "plat s y = Some l" "y \<le> b" "b + m \<le> y + l * 65536"
      "y = b \<and> nd s y = None \<or> (\<exists>N. nd s y = Some N \<and> b \<in> set (blocks_at y (sizes ! nd_index N)) \<and> m \<le> sizes ! nd_index N)"
    using ext [OF b] by blast
  show ?thesis
  proof (cases "x = y")
    case True
    obtain N where N: "nd s x = Some N" "a \<in> set (blocks_at x (sizes ! nd_index N))" "n \<le> sizes ! nd_index N"
      using A(4) B(4) ne True by auto
    have "b \<in> set (blocks_at x (sizes ! nd_index N))" "m \<le> sizes ! nd_index N" using B(4) N(1) True by auto
    then show ?thesis using N(2,3) node_blocks_apart [of a x "sizes ! nd_index N" b] ne by (auto simp: apart_def)
  next
    case False
    then have "apart x (k * 65536) y (l * 65536)" using plat_okD(5) [OF iron_invD(4) [OF I] A(1) B(1)] by blast
    then show ?thesis using A B by (auto simp: apart_def)
  qed
qed

text \<open>
  C8. In every history of the heap objects in use lie apart, every request with a good answer of the
  system is met by a new object, every object can be freed, and every node kept has an object in use.
\<close>

theorem iron_histories_sound:
  assumes "iron_reach s L"
  shows "(\<forall>a n b m. L a = Some n \<longrightarrow> L b = Some m \<longrightarrow> a \<noteq> b \<longrightarrow> a + n \<le> b \<or> b + m \<le> a) \<and>
    (\<forall>n p. answer_ok n p s \<longrightarrow> (\<exists>a s'. iron_malloc n p s = Some (a, s') \<and> a \<noteq> 0 \<and> L a = None)) \<and>
    (\<forall>a. L a \<noteq> None \<longrightarrow> (\<exists>s'. iron_free a s = Some s')) \<and>
    (\<forall>x N. nd s x = Some N \<longrightarrow> (\<exists>a \<in> set (blocks_at x (sizes ! nd_index N)). L a \<noteq> None))"
proof -
  have I: "iron_inv s L" and t: "tidy s" using iron_reach_inv [OF assms] by blast+
  have "\<exists>a \<in> set (blocks_at x (sizes ! nd_index N)). L a \<noteq> None" if N: "nd s x = Some N" for x N
  proof -
    have "0 < usedObjs N" using t N unfolding tidy_def by blast
    then have "0 < card (used L x (nd_index N))" using node_okD(5) [OF iron_invD(1) [OF I N]] by simp
    then show ?thesis by (auto simp: used_def card_gt_0_iff)
  qed
  moreover have "\<forall>a n b m. L a = Some n \<longrightarrow> L b = Some m \<longrightarrow> a \<noteq> b \<longrightarrow> a + n \<le> b \<or> b + m \<le> a"
    using live_blocks_apart [OF I] unfolding apart_def by blast
  moreover have "\<forall>n p. answer_ok n p s \<longrightarrow> (\<exists>a s'. iron_malloc n p s = Some (a, s') \<and> a \<noteq> 0 \<and> L a = None)"
    using iron_malloc_ok [OF I t] by blast
  moreover have "\<forall>a. L a \<noteq> None \<longrightarrow> (\<exists>s'. iron_free a s = Some s')" using iron_free_ok [OF I t] by blast
  ultimately show ?thesis by blast
qed

lemma bin_sizes_growth: "\<forall>k \<in> set [0..<31]. 3 * bin_sizes ! Suc k \<le> 4 * bin_sizes ! k + 12"
  by (simp add: bin_sizes_def upt_rec)

text \<open>
  The table gives a request of up to half a node the least bin that holds it, the assertion on the
  number of bins holds, and less than a third of the request and four bytes are wasted.
\<close>

lemma iron_size_class:
  assumes "0 < n" and "n \<le> 32768"
  shows "bremap ((n - 1) div 4) < PLATFORM_BINS \<and> n \<le> bsizes ((n - 1) div 4) \<and>
    (\<forall>j < bremap ((n - 1) div 4). sizes ! j < n) \<and> 3 * bsizes ((n - 1) div 4) \<le> 4 * n + 8"
proof -
  let ?i = "(n - 1) div 4"
  let ?j = "bremap ?i"
  have i: "?i < 8192" "?i * 4 + 1 \<le> n" "n \<le> ?i * 4 + 4" using assms by auto
  note b = bremap_least [OF i(1)]
  have less: "sizes ! j < n" if "j < ?j" for j
  proof -
    have "sizes ! j < ?i * 4 + 4" "4 dvd sizes ! j" using b that sizes_range [of j] by auto
    then have "sizes ! j \<le> ?i * 4" by (auto elim!: dvdE)
    then show ?thesis using i(2) by simp
  qed
  have "3 * sizes ! ?j \<le> 4 * n + 8"
  proof (cases ?j)
    case 0
    then show ?thesis using assms(1) sizes_nth [of 0] by (simp add: bin_sizes_def)
  next
    case (Suc k)
    then have k: "k < 31" using b by simp
    then have "k \<in> set [0..<31]" by simp
    then have "3 * bin_sizes ! Suc k \<le> 4 * bin_sizes ! k + 12" using bin_sizes_growth by blast
    moreover have "sizes ! k < n" using less Suc by simp
    ultimately show ?thesis using sizes_nth [of k] sizes_nth [of "Suc k"] k Suc by simp
  qed
  then show ?thesis using b less i(3) by (simp add: bsizes_def)
qed
text \<open>
  When all objects are freed, all memory is back: no node, no unit of the system and no bin entry is left.
\<close>

lemma iron_memory_returned:
  assumes "iron_reach s Map.empty"
  shows "nd s = Map.empty \<and> plat s = Map.empty \<and> (\<forall>i. nodes s i = [])"
proof -
  have I: "iron_inv s Map.empty" and t: "tidy s" using iron_reach_inv [OF assms] by blast+
  have n: "nd s x = None" for x
  proof (cases "nd s x")
    case (Some N)
    have "0 < usedObjs N" using t Some unfolding tidy_def by blast
    then show ?thesis using node_okD(5) [OF iron_invD(1) [OF I Some]] by (simp add: used_def)
  qed simp
  have "plat s x = None" for x using plat_okD(4) [OF iron_invD(4) [OF I], of x] n by (cases "plat s x") auto
  moreover have "nodes s i = []" for i using iron_invD(2) [OF I, of i] n by (simp add: bin_ok_def)
  ultimately show ?thesis using n by blast
qed

text \<open>
  C30. Every node of a history is well formed: its index is a bin, its objects in use and its free objects
  add up to the blocks that fit, it is in the list of its bin, once, iff it has a free object, and its blocks are aligned.
\<close>

theorem iron_nodes_wf:
  assumes "iron_reach s L" and "nd s x = Some N"
  shows "x mod PLATFORM_SIZE = 0 \<and> nd_index N < PLATFORM_BINS \<and>
    usedObjs N + length (free_objs N) = (PLATFORM_SIZE - node_header) div sizes ! nd_index N \<and>
    distinct (nodes s (nd_index N)) \<and> (x \<in> set (nodes s (nd_index N)) \<longleftrightarrow> free_objs N \<noteq> []) \<and>
    (\<forall>a \<in> set (free_objs N). 4 dvd a \<and> x + node_header \<le> a \<and> a + sizes ! nd_index N \<le> x + PLATFORM_SIZE)"
proof -
  have I: "iron_inv s L" using iron_reach_inv [OF assms(1)] by blast
  note p = node_place [OF I assms(2)]
  note k = node_okD [OF iron_invD(1) [OF I assms(2)]]
  let ?B = "blocks_at x (sizes ! nd_index N)"
  have "used L x (nd_index N) \<union> set (free_objs N) = set ?B" "used L x (nd_index N) \<inter> set (free_objs N) = {}"
    using k(4) by (auto simp: used_def)
  then have "card (set ?B) = usedObjs N + card (set (free_objs N))" using k(5) card_Un_disjoint [of "used L x (nd_index N)" "set (free_objs N)"] by simp
  then have c: "usedObjs N + length (free_objs N) = 65520 div sizes ! nd_index N"
    using distinct_card [OF k(3)] distinct_card [OF blocks_distinct [OF p(4), of x]] by (simp add: blocks_at_def)
  have b: "distinct (nodes s (nd_index N))" "x \<in> set (nodes s (nd_index N)) \<longleftrightarrow> free_objs N \<noteq> []"
    using iron_invD(2) [OF I, of "nd_index N"] assms(2) by (auto simp: bin_ok_def)
  have "4 dvd a \<and> x + 16 \<le> a \<and> a + sizes ! nd_index N \<le> x + 65536" if "a \<in> set (free_objs N)" for a
  proof -
    have a: "a \<in> set ?B" using that k(4) by blast
    then obtain q where "a = x + 16 + q * sizes ! nd_index N" by (auto simp: blocks_at_def grid_def)
    moreover have "4 dvd sizes ! nd_index N" using sizes_range [OF p(4)] by blast
    moreover have "4 dvd x" using p(3) dvd_trans [of 4 65536 x] by (simp add: mod_eq_0_iff_dvd)
    ultimately have "4 dvd a" by simp
    then show ?thesis using iron_block_bounds [OF p(4) a] by blast
  qed
  then show ?thesis using p c b by simp
qed

text \<open>
  C31. A request that the first node of its bin serves, followed by the free of its object, gives the heap
  back as it was: the same nodes, lists and orders, also when the node left its bin in between.
\<close>

theorem iron_malloc_free_roundtrip:
  assumes "iron_reach s L" and "n \<le> 32768" and "nodes s (bremap (if n = 0 then 0 else (n - 1) div GRAN_ALLOC)) \<noteq> []"
  shows "\<exists>a s'. iron_malloc n p s = Some (a, s') \<and> s' \<noteq> s \<and> iron_free a s' = Some s"
proof -
  have I: "iron_inv s L" and t: "tidy s" using iron_reach_inv [OF assms(1)] by blast+
  define j where "j = (if n = 0 then 0 else (n - 1) div 4)"
  define i where "i = bremap j"
  have eq: "iron_malloc n p s = do { s \<leftarrow> fill_bin i (bsizes j) p s; take_object i s }"
    using assms(2) by (simp add: iron_malloc_def i_def j_def Let_def)
  obtain x xs where b: "nodes s i = x # xs" using assms(3) unfolding i_def j_def iron_consts by (auto simp: neq_Nil_conv)
  then have "x \<in> set (nodes s i)" by simp
  then obtain N where N: "nd s x = Some N" "nd_index N = i" "free_objs N \<noteq> []" using iron_invD(2) [OF I, of i] by (auto simp: bin_ok_def)
  then obtain a as where fr: "free_objs N = a # as" by (auto simp: neq_Nil_conv)
  note k = node_okD [OF iron_invD(1) [OF I N(1)]]
  have "a \<in> set (blocks_at x (sizes ! nd_index N))" using k(4) fr by auto
  then have d: "a - a mod 65536 = x" "a \<noteq> x" using block_node [OF node_place(4,3) [OF I N(1)]] by blast+
  have pos: "0 < usedObjs N" using t N(1) unfolding tidy_def by blast
  let ?N = "N\<lparr>usedObjs := usedObjs N + 1, free_objs := as\<rparr>"
  let ?s = "s\<lparr>nd := (nd s)(x \<mapsto> ?N), nodes := (if as = [] then (nodes s)(i := xs) else nodes s)\<rparr>"
  have m: "iron_malloc n p s = Some (a, ?s)"
    unfolding eq using b N(1) fr by (simp add: fill_bin_def take_object_def node_alloc_def Let_def)
  have undo: "node_free a (N\<lparr>usedObjs := Suc (usedObjs N), free_objs := as\<rparr>) = N" using fr pos by (cases N) (simp add: node_free_def)
  have full: "(nodes s)(i := x # xs) = nodes s" using b by (simp add: fun_upd_idem)
  have "nd ?s x = Some ?N" by simp
  then have "iron_free a ?s = Some s"
    using d fr N(1,2) pos full undo by (cases "as = []") (simp_all add: iron_free_def Let_def fun_upd_idem)
  moreover have "?s \<noteq> s"
  proof
    assume "?s = s"
    then have "nd ?s x = nd s x" by simp
    then show False using N(1) fr by (cases N) simp
  qed
  ultimately show ?thesis using m by blast
qed
section \<open>Witnesses\<close>

text \<open>Objects of 20000 bytes: two blocks of 26164 bytes fit into a node.\<close>

lemma bremap_eq: "i < 8192 \<Longrightarrow> k < 31 \<Longrightarrow> sizes ! k < i * 4 + 4 \<Longrightarrow> i * 4 + 4 \<le> sizes ! Suc k \<Longrightarrow> bremap i = Suc k"
proof -
  assume a: "i < 8192" "k < 31" "sizes ! k < i * 4 + 4" "i * 4 + 4 \<le> sizes ! Suc k"
  note b = bremap_least [OF a(1)]
  have "\<not> Suc k < bremap i" using b a(4) by (auto simp: not_less)
  moreover have "\<not> bremap i < Suc k"
  proof
    assume "bremap i < Suc k"
    then have "sizes ! bremap i \<le> sizes ! k" using sizes_less [of "bremap i" k] a(2) by (cases "bremap i = k") simp_all
    then show False using b a(3) by simp
  qed
  ultimately show ?thesis by simp
qed

lemma bremap_20000: "bremap 4999 = 30" "bsizes 4999 = 26164"
proof -
  have s: "sizes ! 29 = 19624" "sizes ! 30 = 26164" using sizes_nth [of 29] sizes_nth [of 30] by (simp_all add: bin_sizes_def)
  show "bremap 4999 = 30" using bremap_eq [of 4999 29] s by simp
  then show "bsizes 4999 = 26164" using s by (simp add: bsizes_def)
qed

definition wit1 :: iron where
  "wit1 = iron0\<lparr>nodes := (\<lambda>_. [])(30 := [65536]), nd := [65536 \<mapsto> \<lparr>usedObjs = 1, nd_index = 30, free_objs = [91716]\<rparr>],
     plat := [65536 \<mapsto> 1], allocs := 1\<rparr>"

lemma wit_blocks: "blocks_at 65536 26164 = [65552, 91716]"
  by (simp add: blocks_at_def grid_def upt_rec)

lemma wit1_malloc: "iron_malloc 20000 65536 iron0 = Some (65552, wit1)"
  by (simp add: iron_malloc_def fill_bin_def platform_alloc_def take_object_def node_alloc_def new_node_def iron0_def wit1_def Let_def bremap_20000 wit_blocks)

lemma wit1_reach: "iron_reach wit1 [65552 \<mapsto> 20000]"
proof (rule iron_reach.malloc [OF iron_reach.start _ wit1_malloc])
  show "answer_ok 20000 65536 iron0" by (simp add: answer_ok_def iron0_def plat_fresh_def)
qed

theorem iron_histories_sound_witness:
  "(\<exists>a s'. iron_malloc 20000 0 wit1 = Some (a, s') \<and> a \<noteq> 65552) \<and> (\<exists>s'. iron_free 65552 wit1 = Some s')"
proof -
  note th = iron_histories_sound [OF wit1_reach]
  have "answer_ok 20000 0 wit1" using bremap_20000 by (simp add: answer_ok_def wit1_def)
  then obtain a s' where "iron_malloc 20000 0 wit1 = Some (a, s')" "[65552 \<mapsto> 20000::nat] a = None" using th by blast
  moreover from this have "a \<noteq> 65552" by auto
  moreover have "\<exists>s'. iron_free 65552 wit1 = Some s'" using th by simp
  ultimately show ?thesis by blast
qed

lemma iron_memory_returned_witness:
  "\<exists>s. iron_free 65552 wit1 = Some s \<and> nd s = Map.empty \<and> plat s = Map.empty"
proof -
  obtain s where s: "iron_free 65552 wit1 = Some s"
    using iron_free_ok [of wit1 "[65552 \<mapsto> 20000]" 65552 20000] iron_reach_inv [OF wit1_reach] by auto
  have "iron_reach s ([65552 \<mapsto> 20000](65552 := None))" by (rule iron_reach.free [OF wit1_reach _ s]) simp
  then have "iron_reach s Map.empty" by simp
  then show ?thesis using iron_memory_returned s by blast
qed

theorem iron_nodes_wf_witness:
  "nd_index (the (nd wit1 65536)) < PLATFORM_BINS \<and> 1 + 1 = (PLATFORM_SIZE - node_header) div sizes ! 30 \<and> (65536::nat) \<in> set (nodes wit1 30)"
proof -
  have N: "nd wit1 65536 = Some \<lparr>usedObjs = 1, nd_index = 30, free_objs = [91716]\<rparr>" by (simp add: wit1_def)
  show ?thesis using iron_nodes_wf [OF wit1_reach N] N by simp
qed

theorem iron_malloc_free_roundtrip_witness:
  "\<exists>a s'. iron_malloc 20000 0 wit1 = Some (a, s') \<and> s' \<noteq> wit1 \<and> iron_free a s' = Some wit1"
  by (rule iron_malloc_free_roundtrip [OF wit1_reach]) (simp_all add: bremap_20000, simp add: wit1_def)

lemma iron_size_class_witness: "bremap 4999 < PLATFORM_BINS \<and> 20000 \<le> bsizes 4999 \<and> 3 * bsizes 4999 \<le> 80008"
  using iron_size_class [of 20000] by simp

end
