(* ===== verification/DumbTlsf.thy ===== *)
theory DumbTlsf
  imports ClientView
begin

text \<open>
  \<open>dumb_tlsf/dumb_tlsf.cpp\<close>: a table of 44 pointer-linked free lists, four for each power of two, and an arena
  from which new blocks are cut. The arenas (reservations) are linked through their headers of two words. The
  answer \<open>p\<close> of \<open>DUMB_TLSF_ALLOCATOR\<close> (\<open>malloc\<close> by default), 0 if there is no memory, is an argument of the
  operations. Pointers have 8 bytes.
\<close>

definition max_size :: nat where "max_size = 4096 + 3 * 1024"

definition segregate1 :: "nat \<Rightarrow> nat \<Rightarrow> nat" where
  "segregate1 esize l1 = (l1 * 2 ^ 2 OR (esize div 2 ^ (l1 - 2) AND 3)) - 8"

definition segregate :: "nat \<Rightarrow> nat" where
  "segregate esize = (if esize = 0 then 0 else segregate1 esize (bsr esize))"

definition esizeof :: "nat \<Rightarrow> nat" where
  "esizeof n = round_up 8 n"

definition header_size :: nat where "header_size = 16"

record dumb_tlsf = world +
  alloc_size :: nat
  table :: "nat \<Rightarrow> nat"
  res :: nat
  limit :: nat
  arena_end :: nat

definition dumb_tlsf0 :: "'a world_scheme \<Rightarrow> dumb_tlsf" where
  "dumb_tlsf0 w = \<lparr>cells = cells w, regions = regions w, alloc_size = 2 ^ 20, table = \<lambda>_. 0, res = 0, limit = 0, arena_end = 0\<rparr>"

text \<open>A reservation of \<open>n\<close> bytes whose header links to \<open>prev\<close>; the arena is what lies behind the header.\<close>

definition reserve :: "nat \<Rightarrow> nat \<Rightarrow> nat \<Rightarrow> 'a dumb_tlsf_scheme \<Rightarrow> 'a dumb_tlsf_scheme option" where
  "reserve n p prev s = do {
     s \<leftarrow> store p prev (sys_take p n s);
     s \<leftarrow> store (p + 8) n s;
     Some (s\<lparr>res := p, limit := p + header_size, arena_end := p + n\<rparr>)
   }"

definition alloc_e :: "nat \<Rightarrow> nat \<Rightarrow> nat \<Rightarrow> 'a dumb_tlsf_scheme \<Rightarrow> (nat \<times> 'a dumb_tlsf_scheme) option" where
  "alloc_e esize index p s =
     (let r = table s index in
      if r \<noteq> 0 then do { nxt \<leftarrow> load r s; Some (r, s\<lparr>table := (table s)(index := nxt)\<rparr>) }
      else do {
        s \<leftarrow> (if arena_end s < limit s + esize then reserve (alloc_size s) p (res s) s else Some s);
        Some (limit s, s\<lparr>limit := limit s + esize\<rparr>)
      })"

definition free_e :: "nat \<Rightarrow> nat \<Rightarrow> 'a dumb_tlsf_scheme \<Rightarrow> 'a dumb_tlsf_scheme option" where
  "free_e p index s = do {
     s \<leftarrow> store p (table s index) s;
     Some (s\<lparr>table := (table s)(index := p)\<rparr>)
   }"

definition dalloc :: "nat \<Rightarrow> nat \<Rightarrow> 'a dumb_tlsf_scheme \<Rightarrow> (nat \<times> 'a dumb_tlsf_scheme) option" where
  "dalloc p n s =
     (if max_size < n then Some (p, sys_take p n s) else alloc_e (esizeof n) (segregate (esizeof n)) p s)"

definition dfree :: "nat \<Rightarrow> nat \<Rightarrow> 'a dumb_tlsf_scheme \<Rightarrow> 'a dumb_tlsf_scheme option" where
  "dfree p n s = (if max_size < n then c_free p s else free_e p (segregate (esizeof n)) s)"

definition dreserve :: "nat \<Rightarrow> nat \<Rightarrow> 'a dumb_tlsf_scheme \<Rightarrow> 'a dumb_tlsf_scheme option" where
  "dreserve n p s = (if limit s = 0 then reserve n p 0 s else Some s)"

definition dset_alloc_size :: "nat \<Rightarrow> 'a dumb_tlsf_scheme \<Rightarrow> 'a dumb_tlsf_scheme" where
  "dset_alloc_size n s = s\<lparr>alloc_size := n\<rparr>"

text \<open>The loops over the list of reservations, which a bad list would make run forever.\<close>

partial_function (option) reserved_from :: "nat \<Rightarrow> nat \<Rightarrow> 'a dumb_tlsf_scheme \<Rightarrow> nat option" where
  "reserved_from blk acc s =
     (if blk = 0 then Some acc
      else do { k \<leftarrow> load (blk + 8) s; prev \<leftarrow> load blk s; reserved_from prev (acc + k) s })"

definition dreserved_memory :: "'a dumb_tlsf_scheme \<Rightarrow> nat option" where
  "dreserved_memory s = reserved_from (res s) 0 s"

definition dused_memory :: "'a dumb_tlsf_scheme \<Rightarrow> nat option" where
  "dused_memory s = map_option (\<lambda>total. total - (arena_end s - limit s)) (dreserved_memory s)"

partial_function (option) give_reserves :: "'a dumb_tlsf_scheme \<Rightarrow> 'a dumb_tlsf_scheme option" where
  "give_reserves s =
     (if res s = 0 then Some s
      else do { pres \<leftarrow> load (res s) s; k \<leftarrow> load (res s + 8) s; s \<leftarrow> c_free (res s) s; give_reserves (s\<lparr>res := pres\<rparr>) })"

definition dapocalypse :: "'a dumb_tlsf_scheme \<Rightarrow> 'a dumb_tlsf_scheme option" where
  "dapocalypse s = do {
     s \<leftarrow> give_reserves s;
     Some (s\<lparr>limit := 0, arena_end := 0, table := (\<lambda>i. if i < 44 then 0 else table s i)\<rparr>)
   }"

text \<open>Objects that carry their size in front.\<close>

definition dsalloc :: "nat \<Rightarrow> nat \<Rightarrow> 'a dumb_tlsf_scheme \<Rightarrow> (nat \<times> 'a dumb_tlsf_scheme) option" where
  "dsalloc p n s = do {
     (q, s) \<leftarrow> dalloc p (n + 8) s;
     s \<leftarrow> store q n s;
     Some (q + 8, s)
   }"

definition dsfree :: "nat \<Rightarrow> 'a dumb_tlsf_scheme \<Rightarrow> 'a dumb_tlsf_scheme option" where
  "dsfree p s = do { n \<leftarrow> load (p - 8) s; dfree (p - 8) n s }"

text \<open>The template of an object of type \<open>T\<close> asks for the size of a pointer to it.\<close>

definition dsalloc_T :: "nat \<Rightarrow> 'a dumb_tlsf_scheme \<Rightarrow> (nat \<times> 'a dumb_tlsf_scheme) option" where
  "dsalloc_T p s = dsalloc p 8 s"

declare reserved_from.simps [simp del] give_reserves.simps [simp del]

section \<open>Classes\<close>

lemma dt_consts [simp]: "max_size = 7168" "header_size = 16"
  by (simp_all add: max_size_def header_size_def)

lemma bsr_8: "8 \<le> e \<Longrightarrow> 3 \<le> bsr e"
proof -
  assume "8 \<le> e"
  then have "(2::nat) ^ 3 < 2 ^ Suc (bsr e)" using bsr_less [of e] by simp
  then have "3 < Suc (bsr e)" by (simp only: power_strict_increasing_iff one_less_numeral_iff semiring_norm)
  then show ?thesis by simp
qed

lemma and_3: "x AND 3 = x mod (4::nat)"
  using take_bit_eq_mask [of 2 x] by (simp add: take_bit_eq_mod mask_eq_exp_minus_1)

lemma or_quarter: "r < 4 \<Longrightarrow> (l * 4 OR r) = l * 4 + (r::nat)"
proof -
  assume r: "r < 4"
  have "push_bit 2 l AND r = 0"
  proof (rule bit_eqI)
    fix i
    have "bit r i \<Longrightarrow> i < 2" using r bit_take_bit_iff [of 2 r i] by (simp add: take_bit_eq_mod)
    then show "bit (push_bit 2 l AND r) i \<longleftrightarrow> bit 0 i" by (auto simp: bit_simps)
  qed
  then show ?thesis using disjunctive_add_eq_or [of "push_bit 2 l" r] by (simp add: push_bit_eq_mult)
qed

text \<open>The leading digit of \<open>e\<close> to base two and the two digits that follow it.\<close>

lemma segregate_eq:
  assumes "8 \<le> e"
  shows "segregate e = (bsr e - 3) * 4 + e div 2 ^ (bsr e - 2)" and "4 \<le> e div 2 ^ (bsr e - 2)" and "e div 2 ^ (bsr e - 2) < 8"
proof -
  let ?l = "bsr e" and ?d = "e div 2 ^ (bsr e - 2)"
  have l: "3 \<le> ?l" using bsr_8 [OF assms] .
  then obtain k where "?l = 3 + k" using le_Suc_ex by blast
  then have p: "(2::nat) ^ ?l = 4 * 2 ^ (?l - 2)" by (simp add: power_add)
  show d: "4 \<le> ?d" "?d < 8"
    using bsr_le [of e] bsr_less [of e] assms p by (simp_all add: less_eq_div_iff_mult_less_eq div_less_iff_less_mult mult.commute)
  have "?d mod 4 = ?d - 4" using d by (simp add: mod_if)
  then have "segregate e = ?l * 4 + ?d - 12"
    using assms l d by (simp add: segregate_def segregate1_def and_3 or_quarter)
  then show "segregate e = (?l - 3) * 4 + ?d" using l by (simp add: diff_mult_distrib)
qed


text \<open>The index of a larger block is not smaller.\<close>

lemma segregate_mono:
  assumes "8 \<le> a" and "a \<le> b"
  shows "segregate a \<le> segregate b"
proof -
  have b: "8 \<le> b" using assms by simp
  note A = segregate_eq [OF assms(1)] and B = segregate_eq [OF b]
  have "(2::nat) ^ bsr a < 2 ^ Suc (bsr b)" using bsr_le [of a] bsr_less [of b] assms by linarith
  then have "bsr a < Suc (bsr b)" by (simp only: power_strict_increasing_iff one_less_numeral_iff semiring_norm)
  then consider "bsr a = bsr b" | "bsr a < bsr b" by linarith
  then show ?thesis
  proof cases
    case 1
    then show ?thesis using A(1) B(1) div_le_mono [OF assms(2), of "2 ^ (bsr a - 2)"] by simp
  next
    case 2
    have "3 \<le> bsr a" using bsr_8 [OF assms(1)] .
    then have "(bsr a - 3) * 4 + 4 \<le> (bsr b - 3) * 4" using 2 by simp
    then show ?thesis using A B by linarith
  qed
qed

lemma segregate_values: "segregate 7168 = 43" "segregate 64 = 16" "segregate 72 = 16"
  by (simp_all add: segregate_eq bsr_numeral)

lemma esizeof_props: "8 dvd esizeof n" "n \<le> esizeof n" "esizeof n < n + 8" "0 < n \<Longrightarrow> 8 \<le> esizeof n" "n \<le> 7168 \<Longrightarrow> esizeof n \<le> 7168"
proof -
  show d: "8 dvd esizeof n" and g: "n \<le> esizeof n" and l: "esizeof n < n + 8"
    unfolding esizeof_def using round_up_dvd round_up_ge round_up_less by simp_all
  show "8 \<le> esizeof n" if "0 < n" using d g that by (auto intro: dvd_imp_le)
  show "esizeof n \<le> 7168" if "n \<le> 7168"
  proof -
    obtain k where k: "esizeof n = 8 * k" using d by (elim dvdE)
    then have "k < 897" using l that by simp
    then show ?thesis using k by simp
  qed
qed

lemma segregate_less: "0 < n \<Longrightarrow> n \<le> 7168 \<Longrightarrow> segregate (esizeof n) < 44"
  using segregate_mono [of "esizeof n" 7168] esizeof_props(4,5) [of n] segregate_values(1) by simp

end
