(* ===== verification/DumbTlsfSafe.thy ===== *)
theory DumbTlsfSafe
  imports DumbTlsf
begin

text \<open>
  The invariant of the dumb TLSF heap, and its properties. The free lists are safe as long as all requests that
  share a list round up to one size \<open>S c\<close>; the development shows both that and what happens otherwise.
\<close>

section \<open>The invariant\<close>

text \<open>
  The classes of blocks: \<open>Inl c\<close> is list \<open>c\<close> of the table, or an object of \<open>c\<close> bytes from the system, and the
  headers of the reservations are the list \<open>Inr ()\<close>.
\<close>

fun dt_sz :: "(nat \<Rightarrow> nat) \<Rightarrow> nat + unit \<Rightarrow> nat" where
  "dt_sz S (Inl c) = (if c < 44 then S c else c)"
| "dt_sz S (Inr u) = 16"

fun dt_heads :: "'a dumb_tlsf_scheme \<Rightarrow> nat + unit \<Rightarrow> nat" where
  "dt_heads s (Inl c) = (if c < 44 then table s c else 0)"
| "dt_heads s (Inr u) = res s"

definition uniform :: "(nat \<Rightarrow> nat) \<Rightarrow> nat \<Rightarrow> bool" where
  "uniform S n \<longleftrightarrow> n \<le> 7168 \<longrightarrow> 0 < n \<and> S (segregate (esizeof n)) = esizeof n"

definition dt_fits :: "(nat \<Rightarrow> nat) \<Rightarrow> nat + unit \<Rightarrow> nat \<Rightarrow> bool" where
  "dt_fits S c n \<longleftrightarrow> uniform S n \<and> c = Inl (if n \<le> 7168 then segregate (esizeof n) else n)"

definition reserves_ok :: "(nat \<Rightarrow> nat option) \<Rightarrow> (nat \<times> nat) list \<Rightarrow> nat list \<Rightarrow> bool" where
  "reserves_ok m rs as \<longleftrightarrow> (\<forall>a \<in> set as. \<exists>k. m (a + 8) = Some k \<and> (a, k) \<in> set rs \<and> 16 \<le> k)"

definition arena_ok :: "(nat \<times> nat) list \<Rightarrow> nat \<Rightarrow> nat \<Rightarrow> nat list \<Rightarrow> bool" where
  "arena_ok rs lo hi as \<longleftrightarrow>
     (if as = [] then lo = 0 \<and> hi = 0 else \<exists>k. (hd as, k) \<in> set rs \<and> hd as + 16 \<le> lo \<and> lo \<le> hi \<and> hi = hd as + k)"

definition owned_ok :: "(nat \<times> nat) set \<Rightarrow> (nat \<times> nat) list \<Rightarrow> nat list \<Rightarrow> (nat \<rightharpoonup> nat + unit) \<Rightarrow> bool" where
  "owned_ok W rs as M \<longleftrightarrow> (\<forall>p k. (p, k) \<in> W \<longrightarrow> (p, k) \<in> set rs \<and> p \<notin> set as \<and> M p = None) \<and>
     (\<forall>p k. (p, k) \<in> set rs \<longrightarrow> (p, k) \<in> W \<or> p \<in> set as \<or> M p = Some (Inl k) \<and> 7168 < k) \<and>
     (\<forall>p k. M p = Some (Inl k) \<longrightarrow> 44 \<le> k \<longrightarrow> (p, k) \<in> set rs \<and> 7168 < k)"

definition no_bases :: "(nat \<times> (nat + unit)) set \<Rightarrow> (nat \<times> nat) list \<Rightarrow> bool" where
  "no_bases B rs \<longleftrightarrow> (\<forall>x c j. (x, Inl c) \<in> B \<longrightarrow> c < 44 \<longrightarrow> (x, j) \<notin> set rs)"

definition dt_core ::
  "(nat \<Rightarrow> nat) \<Rightarrow> (nat \<times> nat) set \<Rightarrow> 'a dumb_tlsf_scheme \<Rightarrow> (nat + unit \<Rightarrow> nat list) \<Rightarrow> (nat \<rightharpoonup> nat + unit) \<Rightarrow> bool" where
  "dt_core S W s fs M \<longleftrightarrow>
     heap_inv (dt_sz S) (\<lambda>_. ptr_fmt 0) (cells s) (regions s) (dt_heads s) fs M \<and>
     (\<forall>c \<ge> 44. fs (Inl c) = []) \<and> (\<forall>x. M x \<noteq> Some (Inr ())) \<and>
     reserves_ok (cells s) (regions s) (fs (Inr ())) \<and> arena_ok (regions s) (limit s) (arena_end s) (fs (Inr ())) \<and>
     (\<forall>(x, d) \<in> blocks fs M. apart (limit s) (arena_end s - limit s) x (dt_sz S d)) \<and>
     owned_ok W (regions s) (fs (Inr ())) M \<and> no_bases (blocks fs M) (regions s)"

definition dt_inv :: "(nat \<Rightarrow> nat) \<Rightarrow> (nat \<times> nat) set \<Rightarrow> 'a dumb_tlsf_scheme \<Rightarrow> (nat \<rightharpoonup> nat) \<Rightarrow> bool" where
  "dt_inv S W s L \<longleftrightarrow> (\<exists>fs M. dt_core S W s fs M \<and> views 0 (dt_fits S) L M)"

text \<open>The environment: a request is one of \<open>S\<close>, and the system answers the call it makes, if it makes one.\<close>

definition dt_env :: "(nat \<Rightarrow> nat) \<Rightarrow> nat \<Rightarrow> nat \<Rightarrow> 'a dumb_tlsf_scheme \<Rightarrow> bool" where
  "dt_env S p n s \<longleftrightarrow> uniform S n \<and>
     (if n \<le> 7168
      then table s (segregate (esizeof n)) = 0 \<longrightarrow> arena_end s < limit s + esizeof n \<longrightarrow>
             malloc_ok p (alloc_size s) s \<and> 16 + esizeof n \<le> alloc_size s
      else malloc_ok p n s)"

lemma dt_coreD:
  assumes "dt_core S W s fs M"
  shows "heap_inv (dt_sz S) (\<lambda>_. ptr_fmt 0) (cells s) (regions s) (dt_heads s) fs M"
    and "44 \<le> c \<Longrightarrow> fs (Inl c) = []" and "M x \<noteq> Some (Inr ())"
    and "reserves_ok (cells s) (regions s) (fs (Inr ()))" and "arena_ok (regions s) (limit s) (arena_end s) (fs (Inr ()))"
    and "(x, d) \<in> blocks fs M \<Longrightarrow> apart (limit s) (arena_end s - limit s) x (dt_sz S d)"
    and "owned_ok W (regions s) (fs (Inr ())) M" and "no_bases (blocks fs M) (regions s)"
  using assms unfolding dt_core_def by blast+

lemma owned_okD:
  assumes "owned_ok W rs as M"
  shows "(p, k) \<in> W \<Longrightarrow> (p, k) \<in> set rs" "(p, k) \<in> W \<Longrightarrow> p \<notin> set as" "(p, k) \<in> W \<Longrightarrow> M p = None"
    and "(p, k) \<in> set rs \<Longrightarrow> (p, k) \<in> W \<or> p \<in> set as \<or> M p = Some (Inl k) \<and> 7168 < k"
    and "M p = Some (Inl k) \<Longrightarrow> 44 \<le> k \<Longrightarrow> (p, k) \<in> set rs \<and> 7168 < k"
  using assms unfolding owned_ok_def by blast+

lemma no_basesD: "no_bases B rs \<Longrightarrow> (x, Inl c) \<in> B \<Longrightarrow> c < 44 \<Longrightarrow> (x, j) \<notin> set rs"
  unfolding no_bases_def by blast

lemma no_bases_mono: "no_bases B rs \<Longrightarrow> A \<subseteq> B \<Longrightarrow> set qs \<subseteq> set rs \<Longrightarrow> no_bases A qs"
  unfolding no_bases_def by blast

lemma dt_coreI:
  assumes "heap_inv (dt_sz S) (\<lambda>_. ptr_fmt 0) (cells s) (regions s) (dt_heads s) fs M"
    and "\<And>c. 44 \<le> c \<Longrightarrow> fs (Inl c) = []" and "\<And>x. M x \<noteq> Some (Inr ())"
    and "reserves_ok (cells s) (regions s) (fs (Inr ()))" and "arena_ok (regions s) (limit s) (arena_end s) (fs (Inr ()))"
    and "\<And>x d. (x, d) \<in> blocks fs M \<Longrightarrow> apart (limit s) (arena_end s - limit s) x (dt_sz S d)"
    and "owned_ok W (regions s) (fs (Inr ())) M" and "no_bases (blocks fs M) (regions s)"
  shows "dt_core S W s fs M"
  unfolding dt_core_def using assms by blast

lemma dt_heads_table: "c < 44 \<Longrightarrow> dt_heads (s\<lparr>table := (table s)(c := v)\<rparr>) = (dt_heads s)(Inl c := v)"
proof (rule ext)
  fix d show "c < 44 \<Longrightarrow> dt_heads (s\<lparr>table := (table s)(c := v)\<rparr>) d = ((dt_heads s)(Inl c := v)) d" by (cases d) auto
qed

lemma dt_heads_cong: "table s = table t \<Longrightarrow> res s = res t \<Longrightarrow> dt_heads s = dt_heads t"
proof (rule ext)
  fix d show "table s = table t \<Longrightarrow> res s = res t \<Longrightarrow> dt_heads s d = dt_heads t d" by (cases d) auto
qed

lemma uniform_class: "uniform S n \<Longrightarrow> n \<le> 7168 \<Longrightarrow>
    segregate (esizeof n) < 44 \<and> S (segregate (esizeof n)) = esizeof n \<and> 8 \<le> esizeof n \<and> n \<le> esizeof n"
  using segregate_less [of n] esizeof_props(2,4) [of n] by (simp add: uniform_def)

lemma dt_roomy: "roomy 0 (dt_fits S) (dt_sz S)"
  unfolding roomy_def
proof (intro allI impI)
  fix c n assume "dt_fits S c n"
  then show "0 + n \<le> dt_sz S c" using uniform_class [of S n] by (auto simp: dt_fits_def)
qed

lemma dt_views_upd: "views 0 (dt_fits S) L M \<Longrightarrow> dt_fits S c n \<Longrightarrow> views 0 (dt_fits S) (L(x \<mapsto> n)) (M(x \<mapsto> c))"
  using views_upd [of 0 "dt_fits S" L M c n x] by simp

lemma dt_views_del: "views 0 (dt_fits S) L M \<Longrightarrow> views 0 (dt_fits S) (L(x := None)) (M(x := None))"
  using views_del [of 0 "dt_fits S" L M x] by simp

lemma dt_inv_init: "regions_ok (regions w) \<Longrightarrow> dt_inv S (set (regions w)) (dumb_tlsf0 w) Map.empty"
proof -
  assume w: "regions_ok (regions w)"
  have h: "dt_heads (dumb_tlsf0 w) = (\<lambda>c. fnil (ptr_fmt 0))"
  proof (rule ext)
    fix c show "dt_heads (dumb_tlsf0 w) c = fnil (ptr_fmt 0)" by (cases c) (simp_all add: dumb_tlsf0_def)
  qed
  have "dt_core S (set (regions w)) (dumb_tlsf0 w) (\<lambda>_. []) Map.empty"
  proof (rule dt_coreI)
    show "heap_inv (dt_sz S) (\<lambda>_. ptr_fmt 0) (cells (dumb_tlsf0 w)) (regions (dumb_tlsf0 w)) (dt_heads (dumb_tlsf0 w)) (\<lambda>_. []) Map.empty"
      unfolding h using w by (intro heap_init) (simp add: dumb_tlsf0_def)
  qed (auto simp: reserves_ok_def arena_ok_def owned_ok_def no_bases_def dumb_tlsf0_def blocks_def)
  then show ?thesis unfolding dt_inv_def using views_empty by blast
qed
section \<open>Allocation\<close>

lemma old_block_off:
  assumes C: "dt_core S W s fs M" and ok: "malloc_ok p n s" and b: "(x, d) \<in> blocks fs M"
  shows "apart p n x (dt_sz S d)" "x \<noteq> p"
proof -
  note H = dt_coreD(1) [OF C]
  show a: "apart p n x (dt_sz S d)" using heap_block_inside [OF H b] malloc_ok_inside [OF ok] by blast
  then show "x \<noteq> p" using heap_block_size [OF H b] malloc_ok_pos [OF ok] by (auto simp: apart_def)
qed

lemma fresh_not_region: "malloc_ok p n s \<Longrightarrow> regions_ok (regions s) \<Longrightarrow> (p, k) \<notin> set (regions s)"
  using malloc_ok_apart malloc_ok_pos regions_ok_pos by (fastforce simp: apart_def)

lemma reserves_okD: "reserves_ok m rs as \<Longrightarrow> a \<in> set as \<Longrightarrow> \<exists>k. m (a + 8) = Some k \<and> (a, k) \<in> set rs \<and> 16 \<le> k"
  unfolding reserves_ok_def by blast

lemma reserve_ok:
  assumes C: "dt_core S W s fs M" and ok: "malloc_ok p n s" and n: "16 \<le> n"
  shows "\<exists>t. reserve n p (res s) s = Some t \<and> dt_core S W t (fs(Inr () := p # fs (Inr ()))) M \<and>
    regions t = (p, n) # regions s \<and> (\<forall>x. apart p n x 8 \<longrightarrow> cells t x = cells s x) \<and>
    table t = table s \<and> limit t = p + 16 \<and> arena_end t = p + n"
proof -
  note H = dt_coreD(1) [OF C]
  have p: "0 < p" using malloc_ok_pos [OF ok] by simp
  let ?rs = "(p, n) # regions s" and ?m = "poke (p + 8) n (poke p (res s) (wipe p n (cells s)))" and ?fs = "fs(Inr () := p # fs (Inr ()))"
  let ?t = "s\<lparr>cells := ?m, regions := ?rs, res := p, limit := p + 16, arena_end := p + n\<rparr>"
  have run: "reserve n p (res s) s = Some ?t" using p n by (simp add: reserve_def sys_take_def store_def inside_Cons)
  note old = old_block_off [OF C ok]
  have T: "heap_inv (dt_sz S) (\<lambda>_. ptr_fmt 0) (wipe p n (cells s)) ?rs (dt_heads s) fs M"
    using H p n malloc_ok_apart [OF ok] by (intro heap_take) auto
  have A: "heap_inv (dt_sz S) (\<lambda>_. ptr_fmt 0) (poke p (res s) (wipe p n (cells s))) ?rs ((dt_heads s)(Inr () := p)) ?fs M"
  proof -
    have "block_ok (dt_sz S) (\<lambda>_. ptr_fmt 0) ?rs p (Inr ())" using p n by (simp add: block_ok_def inside_Cons)
    moreover have "apart p (dt_sz S (Inr ())) y (dt_sz S d)" if "(y, d) \<in> blocks fs M" for y d
      using old(1) [OF that] n by (auto simp: apart_def)
    ultimately show ?thesis using heap_add [OF T, of p "Inr ()"] by simp
  qed
  have "heap_inv (dt_sz S) (\<lambda>_. ptr_fmt 0) ?m ?rs ((dt_heads s)(Inr () := p)) ?fs M"
  proof (rule heap_poke_apart [OF A])
    fix c x assume x: "x \<in> set (?fs c)"
    show "apart (p + 8) 8 (x + foff (ptr_fmt 0)) 8"
    proof (cases "x = p")
      case True
      then show ?thesis by (simp add: apart_def)
    next
      case False
      then have b: "(x, c) \<in> blocks fs M" using x by (auto simp: in_blocks split: if_splits)
      then show ?thesis using old(1) [OF b] heap_block_size [OF H b] n by (auto simp: apart_def)
    qed
  qed
  moreover have "dt_heads ?t = (dt_heads s)(Inr () := p)"
  proof (rule ext)
    fix d show "dt_heads ?t d = ((dt_heads s)(Inr () := p)) d" by (cases d) auto
  qed
  ultimately have HH: "heap_inv (dt_sz S) (\<lambda>_. ptr_fmt 0) (cells ?t) (regions ?t) (dt_heads ?t) ?fs M" by simp
  have out: "?m x = cells s x" if "apart p n x 8" for x
  proof -
    have "p + n \<le> x \<or> x + 8 \<le> p" using that unfolding apart_def .
    then show ?thesis using n by auto
  qed
  have "dt_core S W ?t ?fs M"
  proof (rule dt_coreI [OF HH])
    show "reserves_ok (cells ?t) (regions ?t) (?fs (Inr ()))"
      unfolding reserves_ok_def
    proof
      fix a assume a: "a \<in> set (?fs (Inr ()))"
      show "\<exists>k. cells ?t (a + 8) = Some k \<and> (a, k) \<in> set (regions ?t) \<and> 16 \<le> k"
      proof (cases "a = p")
        case True
        then show ?thesis using n by simp
      next
        case False
        then have a: "a \<in> set (fs (Inr ()))" using a by simp
        then have "apart p n a 16" using old(1) [of a "Inr ()"] by (simp add: in_blocks)
        then have "apart p n (a + 8) 8" by (auto simp: apart_def)
        then show ?thesis using out reserves_okD [OF dt_coreD(4) [OF C] a] by auto
      qed
    qed
    show "apart (limit ?t) (arena_end ?t - limit ?t) x (dt_sz S d)" if "(x, d) \<in> blocks ?fs M" for x d
    proof (cases "(x, d) \<in> blocks fs M")
      case True
      then show ?thesis using old(1) [OF True] n by (auto simp: apart_def)
    next
      case False
      then have "x = p" "d = Inr ()" using that by (auto simp: in_blocks split: if_splits)
      then show ?thesis by (simp add: apart_def)
    qed
    have "M p = None" using old(2) [of p] by (cases "M p") (auto simp: in_blocks)
    moreover have "(p, k) \<notin> W" for k
      using fresh_not_region [OF ok heap_regions [OF H]] dt_coreD(7) [OF C] by (auto simp: owned_ok_def)
    ultimately show "owned_ok W (regions ?t) (?fs (Inr ())) M"
      using dt_coreD(7) [OF C] by (auto simp: owned_ok_def)
    show "no_bases (blocks ?fs M) (regions ?t)"
      unfolding no_bases_def
    proof (intro allI impI)
      fix x c j assume x: "(x, Inl c) \<in> blocks ?fs M" "c < 44"
      then have b: "(x, Inl c) \<in> blocks fs M" by (simp add: in_blocks)
      then show "(x, j) \<notin> set (regions ?t)" using no_basesD [OF dt_coreD(8) [OF C] b x(2)] old(2) [OF b] by simp
    qed
  qed (use dt_coreD(2,3) [OF C] n in \<open>auto simp: arena_ok_def\<close>)
  then show ?thesis using run out by (intro exI [of _ ?t]) simp
qed

lemma owned_live:
  assumes O: "owned_ok W rs as M" and c: "c < 44" and x: "\<And>j. (x, j) \<notin> set rs"
  shows "owned_ok W rs as (M(x \<mapsto> Inl c))"
  unfolding owned_ok_def
proof (intro conjI allI impI)
  fix p k assume p: "(p, k) \<in> W"
  then show r: "(p, k) \<in> set rs" "p \<notin> set as" using owned_okD(1,2) [OF O] by blast+
  then have "p \<noteq> x" using x by blast
  then show "(M(x \<mapsto> Inl c)) p = None" using owned_okD(3) [OF O p] by simp
next
  fix p k assume p: "(p, k) \<in> set rs"
  then have "p \<noteq> x" using x by blast
  then show "(p, k) \<in> W \<or> p \<in> set as \<or> (M(x \<mapsto> Inl c)) p = Some (Inl k) \<and> 7168 < k" using owned_okD(4) [OF O p] by simp
next
  fix p k assume "(M(x \<mapsto> Inl c)) p = Some (Inl k)" "44 \<le> k"
  then have "M p = Some (Inl k)" using c by (simp split: if_splits)
  then show "(p, k) \<in> set rs" "7168 < k" using owned_okD(5) [OF O _ \<open>44 \<le> k\<close>] by blast+
qed

lemma bump_ok:
  assumes C: "dt_core S W s fs M" and room: "limit s + e \<le> arena_end s" and c: "c < 44" "S c = e" "8 \<le> e"
  shows "dt_core S W (s\<lparr>limit := limit s + e\<rparr>) fs (M(limit s \<mapsto> Inl c)) \<and> M (limit s) = None \<and> 0 < limit s"
proof -
  note H = dt_coreD(1) [OF C]
  let ?t = "s\<lparr>limit := limit s + e\<rparr>" and ?x = "limit s"
  have ne: "fs (Inr ()) \<noteq> []" using dt_coreD(5) [OF C] room c(3) by (auto simp: arena_ok_def)
  obtain k where k: "(hd (fs (Inr ())), k) \<in> set (regions s)" "hd (fs (Inr ())) + 16 \<le> ?x" "arena_end s = hd (fs (Inr ())) + k"
    using dt_coreD(5) [OF C] ne by (auto simp: arena_ok_def)
  have x0: "0 < ?x" using k(2) by simp
  have off: "apart ?x e y (dt_sz S d)" if "(y, d) \<in> blocks fs M" for y d
    using dt_coreD(6) [OF C that] room by (auto simp: apart_def)
  have none: "M ?x = None"
  proof (cases "M ?x")
    case (Some d)
    then have "(?x, d) \<in> blocks fs M" by (simp add: in_blocks)
    then show ?thesis using off heap_block_size [OF H] c(3) by (fastforce simp: apart_def)
  qed simp
  have "inside ?x e (regions s)" using k room by (intro insideI [OF k(1)]) simp_all
  then have "block_ok (dt_sz S) (\<lambda>_. ptr_fmt 0) (regions s) ?x (Inl c)" using c x0 by (simp add: block_ok_def)
  then have Cv: "heap_inv (dt_sz S) (\<lambda>_. ptr_fmt 0) (cells s) (regions s) (dt_heads s) fs (M(?x \<mapsto> Inl c))"
    using off c by (intro heap_carve [OF H]) simp_all
  have not_reg: "(?x, j) \<notin> set (regions s)" for j
  proof
    assume j: "(?x, j) \<in> set (regions s)"
    have "apart ?x j (hd (fs (Inr ()))) k" using k j by (intro regions_ok_apart [OF heap_regions [OF H] j k(1)]) auto
    then show False using k(2,3) room c(3) regions_ok_pos [OF heap_regions [OF H] j] by (auto simp: apart_def)
  qed
  have hds: "dt_heads ?t = dt_heads s" by (rule dt_heads_cong) simp_all
  have "dt_core S W ?t fs (M(?x \<mapsto> Inl c))"
  proof (rule dt_coreI)
    show "heap_inv (dt_sz S) (\<lambda>_. ptr_fmt 0) (cells ?t) (regions ?t) (dt_heads ?t) fs (M(?x \<mapsto> Inl c))" unfolding hds using Cv by simp
    show "apart (limit ?t) (arena_end ?t - limit ?t) y (dt_sz S d)" if y: "(y, d) \<in> blocks fs (M(?x \<mapsto> Inl c))" for y d
    proof (cases "(y, d) \<in> blocks fs M")
      case True
      then show ?thesis using dt_coreD(6) [OF C True] room by (auto simp: apart_def)
    next
      case False
      then have "y = ?x" "d = Inl c" using y by (auto simp: in_blocks split: if_splits)
      then show ?thesis using c by (simp add: apart_def)
    qed
    show "arena_ok (regions ?t) (limit ?t) (arena_end ?t) (fs (Inr ()))" using ne k room by (auto simp: arena_ok_def)
    show "owned_ok W (regions ?t) (fs (Inr ())) (M(?x \<mapsto> Inl c))"
      using owned_live [OF dt_coreD(7) [OF C] c(1) not_reg] by simp
    show "no_bases (blocks fs (M(?x \<mapsto> Inl c))) (regions ?t)"
      unfolding no_bases_def
    proof (intro allI impI)
      fix y d j assume "(y, Inl d) \<in> blocks fs (M(?x \<mapsto> Inl c))" "d < 44"
      then show "(y, j) \<notin> set (regions ?t)"
        using not_reg no_basesD [OF dt_coreD(8) [OF C], of y d] by (cases "y = ?x") (auto simp: in_blocks)
    qed
  qed (use dt_coreD(2-4) [OF C] in auto)
  then show ?thesis using none x0 by blast
qed
lemma dt_pop:
  assumes C: "dt_core S W s fs M" and c: "fs (Inl c) = x # xs" "c < 44"
  obtains q where "table s c = x" and "x \<noteq> 0" and "load x s = Some q" and "M x = None"
    and "dt_core S W (s\<lparr>table := (table s)(c := q)\<rparr>) (fs(Inl c := xs)) (M(x \<mapsto> Inl c))"
proof -
  note H = dt_coreD(1) [OF C]
  obtain q where q: "dt_heads s (Inl c) = x" "cells s x = Some q" "inside x 8 (regions s)" "M x = None"
    "heap_inv (dt_sz S) (\<lambda>_. ptr_fmt 0) (cells s) (regions s) ((dt_heads s)(Inl c := q)) (fs(Inl c := xs)) (M(x \<mapsto> Inl c))"
    using heap_pop [OF H c(1)] by auto
  have xb: "(x, Inl c) \<in> blocks fs M" using c(1) by (simp add: in_blocks)
  have "x \<noteq> 0" using heap_block_pos [OF H xb] by simp
  let ?t = "s\<lparr>table := (table s)(c := q)\<rparr>"
  have B: "blocks (fs(Inl c := xs)) (M(x \<mapsto> Inl c)) \<subseteq> blocks fs M" using c(1) by (auto simp: blocks_def split: if_splits)
  have not_reg: "(x, j) \<notin> set (regions s)" for j using no_basesD [OF dt_coreD(8) [OF C] xb c(2)] .
  have "dt_core S W ?t (fs(Inl c := xs)) (M(x \<mapsto> Inl c))"
  proof (rule dt_coreI)
    show "heap_inv (dt_sz S) (\<lambda>_. ptr_fmt 0) (cells ?t) (regions ?t) (dt_heads ?t) (fs(Inl c := xs)) (M(x \<mapsto> Inl c))"
      unfolding dt_heads_table [OF c(2)] using q(5) by simp
    show "owned_ok W (regions ?t) ((fs(Inl c := xs)) (Inr ())) (M(x \<mapsto> Inl c))"
      using owned_live [OF dt_coreD(7) [OF C] c(2) not_reg] by simp
    show "no_bases (blocks (fs(Inl c := xs)) (M(x \<mapsto> Inl c))) (regions ?t)"
      by (rule no_bases_mono [OF dt_coreD(8) [OF C] B]) simp
  qed (use B dt_coreD(2-6) [OF C] c(2) in auto)
  then show ?thesis using that q(1-4) c(2) \<open>x \<noteq> 0\<close> by (simp add: load_def)
qed
lemma dt_small_alloc:
  assumes C: "dt_core S W s fs M" and V: "views 0 (dt_fits S) L M" and e: "dt_env S p n s" and n: "n \<le> 7168"
  shows "\<exists>q t. dalloc p n s = Some (q, t) \<and> fresh_block L q n \<and> dt_inv S W t (L(q \<mapsto> n)) \<and> keeps L s t"
proof -
  note H = dt_coreD(1) [OF C]
  let ?e = "esizeof n" and ?c = "segregate (esizeof n)"
  have U: "uniform S n" using e by (simp add: dt_env_def)
  note u = uniform_class [OF U n]
  have f: "dt_fits S (Inl ?c) n" using U n by (simp add: dt_fits_def)
  have d: "dalloc p n s = alloc_e ?e ?c p s" using n by (simp add: dalloc_def)
  have fin: ?thesis if t: "alloc_e ?e ?c p s = Some (q, t)" "dt_core S W t gs (M(q \<mapsto> Inl ?c))" "M q = None" "keeps L s t" for q t gs
  proof -
    have "fresh_block L q n" by (rule view_fresh [OF dt_coreD(1) [OF t(2)] t(3) V dt_roomy f, unfolded add_0_right])
    moreover have "dt_inv S W t (L(q \<mapsto> n))" unfolding dt_inv_def using t(2) dt_views_upd [OF V f] by blast
    ultimately show ?thesis using d t(1,4) by auto
  qed
  show ?thesis
  proof (cases "fs (Inl ?c)")
    case (Cons x xs)
    obtain q where q: "table s ?c = x" "x \<noteq> 0" "load x s = Some q" "M x = None"
      "dt_core S W (s\<lparr>table := (table s)(?c := q)\<rparr>) (fs(Inl ?c := xs)) (M(x \<mapsto> Inl ?c))"
      using dt_pop [OF C Cons] u by blast
    have "keeps L s (s\<lparr>table := (table s)(?c := q)\<rparr>)" by (simp add: keeps_def load_def)
    moreover have "alloc_e ?e ?c p s = Some (x, s\<lparr>table := (table s)(?c := q)\<rparr>)" using q(1-3) by (simp add: alloc_e_def)
    ultimately show ?thesis using fin q(4,5) by blast
  next
    case Nil
    then have z: "table s ?c = 0" using heap_empty_iff [OF H, of "Inl ?c"] u by simp
    show ?thesis
    proof (cases "arena_end s < limit s + ?e")
      case False
      then have B: "dt_core S W (s\<lparr>limit := limit s + ?e\<rparr>) fs (M(limit s \<mapsto> Inl ?c))" "M (limit s) = None"
        using bump_ok [OF C, of ?e ?c] u by simp_all
      have "keeps L s (s\<lparr>limit := limit s + ?e\<rparr>)" by (simp add: keeps_def load_def)
      moreover have "alloc_e ?e ?c p s = Some (limit s, s\<lparr>limit := limit s + ?e\<rparr>)" using z False by (simp add: alloc_e_def)
      ultimately show ?thesis using fin B by blast
    next
      case True
      then have ok: "malloc_ok p (alloc_size s) s" "16 + ?e \<le> alloc_size s" using e n z by (simp_all add: dt_env_def)
      then obtain r where r: "reserve (alloc_size s) p (res s) s = Some r" "dt_core S W r (fs(Inr () := p # fs (Inr ()))) M"
        "regions r = (p, alloc_size s) # regions s" "\<forall>x. apart p (alloc_size s) x 8 \<longrightarrow> cells r x = cells s x"
        "limit r = p + 16" "arena_end r = p + alloc_size s"
        using reserve_ok [OF C ok(1)] by auto
      have B: "dt_core S W (r\<lparr>limit := limit r + ?e\<rparr>) (fs(Inr () := p # fs (Inr ()))) (M(limit r \<mapsto> Inl ?c))" "M (limit r) = None"
        using bump_ok [OF r(2), of ?e ?c] u r(5,6) ok(2) by simp_all
      have "keeps L s r" by (rule view_keeps_take [OF H V dt_roomy ok(1) r(3)]) (use r(4) in blast)
      then have "keeps L s (r\<lparr>limit := limit r + ?e\<rparr>)" using keeps_cong [of "r\<lparr>limit := limit r + ?e\<rparr>" r L s] by simp
      moreover have "alloc_e ?e ?c p s = Some (limit r, r\<lparr>limit := limit r + ?e\<rparr>)" using z True r(1) by (simp add: alloc_e_def)
      ultimately show ?thesis using fin B by blast
    qed
  qed
qed

lemma dt_big_alloc:
  assumes C: "dt_core S W s fs M" and V: "views 0 (dt_fits S) L M" and e: "dt_env S p n s" and n: "7168 < n"
  shows "\<exists>q t. dalloc p n s = Some (q, t) \<and> fresh_block L q n \<and> dt_inv S W t (L(q \<mapsto> n)) \<and> keeps L s t"
proof -
  note H = dt_coreD(1) [OF C]
  have ok: "malloc_ok p n s" using e n by (simp add: dt_env_def)
  have p: "0 < p" using malloc_ok_pos [OF ok] by simp
  have f: "dt_fits S (Inl n) n" using n by (simp add: dt_fits_def uniform_def)
  let ?t = "s\<lparr>regions := (p, n) # regions s, cells := wipe p n (cells s)\<rparr>"
  note old = old_block_off [OF C ok]
  have h: "dt_heads ?t = dt_heads s" by (rule dt_heads_cong) simp_all
  have T: "heap_inv (dt_sz S) (\<lambda>_. ptr_fmt 0) (cells ?t) (regions ?t) (dt_heads s) fs M"
    using H p n malloc_ok_apart [OF ok] heap_take [OF H p, of n] by simp
  have Cv: "heap_inv (dt_sz S) (\<lambda>_. ptr_fmt 0) (cells ?t) (regions ?t) (dt_heads ?t) fs (M(p \<mapsto> Inl n))"
    unfolding h using p n old(1) heap_carve [OF T, of p "Inl n"] by (simp add: block_ok_def inside_Cons)
  have Mp: "M p = None" using old(2) [of p] by (cases "M p") (auto simp: in_blocks)
  have nr: "(p, k) \<notin> set (regions s)" for k using fresh_not_region [OF ok heap_regions [OF H]] .
  have as: "p \<notin> set (fs (Inr ()))" using old(2) [of p "Inr ()"] by (auto simp: in_blocks)
  have C': "dt_core S W ?t fs (M(p \<mapsto> Inl n))"
  proof (rule dt_coreI [OF Cv])
    show "reserves_ok (cells ?t) (regions ?t) (fs (Inr ()))"
      unfolding reserves_ok_def
    proof
      fix a assume a: "a \<in> set (fs (Inr ()))"
      then have "apart p n a 16" using old(1) [of a "Inr ()"] by (simp add: in_blocks)
      then have "wipe p n (cells s) (a + 8) = cells s (a + 8)" by (intro wipe_apart) (auto simp: apart_def)
      then show "\<exists>k. cells ?t (a + 8) = Some k \<and> (a, k) \<in> set (regions ?t) \<and> 16 \<le> k"
        using reserves_okD [OF dt_coreD(4) [OF C] a] by auto
    qed
    have lim: "apart (limit s) (arena_end s - limit s) p n"
    proof (cases "fs (Inr ()) = []")
      case True
      then show ?thesis using dt_coreD(5) [OF C] by (simp add: arena_ok_def apart_def)
    next
      case False
      then obtain k where k: "(hd (fs (Inr ())), k) \<in> set (regions s)" "hd (fs (Inr ())) + 16 \<le> limit s" "limit s \<le> arena_end s"
          "arena_end s = hd (fs (Inr ())) + k" using dt_coreD(5) [OF C] by (auto simp: arena_ok_def)
      then show ?thesis using malloc_ok_apart [OF ok k(1)] by (auto simp: apart_def)
    qed
    show "apart (limit ?t) (arena_end ?t - limit ?t) x (dt_sz S d)" if "(x, d) \<in> blocks fs (M(p \<mapsto> Inl n))" for x d
    proof (cases "(x, d) \<in> blocks fs M")
      case True
      then show ?thesis using dt_coreD(6) [OF C True] by simp
    next
      case False
      then have "x = p" "d = Inl n" using that by (auto simp: in_blocks split: if_splits)
      then show ?thesis using lim n by simp
    qed
    show "owned_ok W (regions ?t) (fs (Inr ())) (M(p \<mapsto> Inl n))"
      unfolding owned_ok_def
    proof (intro conjI allI impI)
      fix q k assume q: "(q, k) \<in> W"
      note o = owned_okD(1-3) [OF dt_coreD(7) [OF C] q]
      then have "q \<noteq> p" using nr by blast
      then show "(q, k) \<in> set (regions ?t)" "q \<notin> set (fs (Inr ()))" "(M(p \<mapsto> Inl n)) q = None" using o by simp_all
    next
      fix q k assume q: "(q, k) \<in> set (regions ?t)"
      show "(q, k) \<in> W \<or> q \<in> set (fs (Inr ())) \<or> (M(p \<mapsto> Inl n)) q = Some (Inl k) \<and> 7168 < k"
      proof (cases "q = p")
        case True
        then show ?thesis using q nr n by auto
      next
        case False
        then show ?thesis using q owned_okD(4) [OF dt_coreD(7) [OF C], of q k] by simp
      qed
    next
      fix q k assume "(M(p \<mapsto> Inl n)) q = Some (Inl k)" "44 \<le> k"
      then show "(q, k) \<in> set (regions ?t)" "7168 < k"
        using owned_okD(5) [OF dt_coreD(7) [OF C], of q k] n by (auto split: if_splits)
    qed
    show "no_bases (blocks fs (M(p \<mapsto> Inl n))) (regions ?t)"
      unfolding no_bases_def
    proof (intro allI impI)
      fix x c j assume x: "(x, Inl c) \<in> blocks fs (M(p \<mapsto> Inl n))" "c < 44"
      then have b: "(x, Inl c) \<in> blocks fs M" using n by (auto simp: in_blocks split: if_splits)
      then show "(x, j) \<notin> set (regions ?t)" using no_basesD [OF dt_coreD(8) [OF C] b x(2)] old(2) [OF b] by simp
    qed
    show "arena_ok (regions ?t) (limit ?t) (arena_end ?t) (fs (Inr ()))" using dt_coreD(5) [OF C] by (auto simp: arena_ok_def)
  qed (use dt_coreD(2,3) [OF C] in auto)
  have "dalloc p n s = Some (p, ?t)" using n p by (simp add: dalloc_def sys_take_def)
  moreover have "fresh_block L p n" by (rule view_fresh [OF Cv Mp V dt_roomy f, unfolded add_0_right])
  moreover have "dt_inv S W ?t (L(p \<mapsto> n))" unfolding dt_inv_def using C' dt_views_upd [OF V f] by blast
  moreover have "keeps L s ?t" by (rule view_keeps_take [OF H V dt_roomy ok]) (auto simp: apart_def)
  ultimately show ?thesis by blast
qed
section \<open>Release and writes\<close>

text \<open>Writes to blocks in use leave the headers of the reservations alone.\<close>

lemma reserves_poke:
  assumes C: "dt_core S W s fs M" and x: "M x = Some (Inl c)" and a: "x \<le> a" "a + 8 \<le> x + dt_sz S (Inl c)"
  shows "reserves_ok (poke a v (cells s)) (regions s) (fs (Inr ()))"
  unfolding reserves_ok_def
proof
  fix b assume b: "b \<in> set (fs (Inr ()))"
  have "apart x (dt_sz S (Inl c)) b (dt_sz S (Inr ()))"
    using heap_apart [OF dt_coreD(1) [OF C], of x "Inl c" b "Inr ()"] x b by (simp add: in_blocks)
  then have "poke a v (cells s) (b + 8) = cells s (b + 8)" using a by (intro poke_apart) (auto simp: apart_def)
  then show "\<exists>k. poke a v (cells s) (b + 8) = Some k \<and> (b, k) \<in> set (regions s) \<and> 16 \<le> k"
    using reserves_okD [OF dt_coreD(4) [OF C] b] by simp
qed

lemma owned_gone:
  assumes O: "owned_ok W rs as M" and x: "M x = Some (Inl c)" "\<And>j. (x, j) \<notin> set rs"
  shows "owned_ok W rs as (M(x := None))"
  unfolding owned_ok_def
proof (intro conjI allI impI)
  fix p k assume p: "(p, k) \<in> W"
  show "(p, k) \<in> set rs" "p \<notin> set as" "(M(x := None)) p = None" using owned_okD(1-3) [OF O p] by simp_all
next
  fix p k assume p: "(p, k) \<in> set rs"
  then have "p \<noteq> x" using x(2) by blast
  then show "(p, k) \<in> W \<or> p \<in> set as \<or> (M(x := None)) p = Some (Inl k) \<and> 7168 < k" using owned_okD(4) [OF O p] by simp
next
  fix p k assume "(M(x := None)) p = Some (Inl k)" "44 \<le> k"
  then show "(p, k) \<in> set rs" "7168 < k" using owned_okD(5) [OF O, of p k] by (auto split: if_splits)
qed

lemma dt_small_free:
  assumes C: "dt_core S W s fs M" and V: "views 0 (dt_fits S) L M" and L: "L x = Some n" and n: "n \<le> 7168"
  shows "\<exists>t. dfree x n s = Some t \<and> dt_inv S W t (L(x := None)) \<and> keeps (L(x := None)) s t"
proof -
  note H = dt_coreD(1) [OF C]
  let ?c = "segregate (esizeof n)"
  obtain d where d: "M x = Some d" "dt_fits S d n" using viewsD [OF V L] by auto
  then have M: "M x = Some (Inl ?c)" and U: "uniform S n" using n by (simp_all add: dt_fits_def)
  note u = uniform_class [OF U n]
  have xb: "(x, Inl ?c) \<in> blocks fs M" using M by (simp add: in_blocks)
  let ?m = "poke x (table s ?c) (cells s)" and ?fs = "fs(Inl ?c := x # fs (Inl ?c))"
  let ?t = "s\<lparr>cells := ?m, table := (table s)(?c := x)\<rparr>"
  have "inside x 8 (regions s)" using heap_live_inside [OF H M, of x 8] u by simp
  then have run: "dfree x n s = Some ?t" using n by (simp add: dfree_def free_e_def store_def)
  have h: "dt_heads ?t = (dt_heads s)(Inl ?c := x)"
  proof (rule ext)
    fix d show "dt_heads ?t d = ((dt_heads s)(Inl ?c := x)) d" using u by (cases d) auto
  qed
  have B: "blocks ?fs (M(x := None)) \<subseteq> blocks fs M" using M by (auto simp: blocks_def split: if_splits)
  have "dt_core S W ?t ?fs (M(x := None))"
  proof (rule dt_coreI)
    show "heap_inv (dt_sz S) (\<lambda>_. ptr_fmt 0) (cells ?t) (regions ?t) (dt_heads ?t) ?fs (M(x := None))"
      unfolding h using heap_push [OF H M] u by simp
    show "reserves_ok (cells ?t) (regions ?t) (?fs (Inr ()))" using reserves_poke [OF C M, of x] u by simp
    show "owned_ok W (regions ?t) (?fs (Inr ())) (M(x := None))"
      using owned_gone [OF dt_coreD(7) [OF C] M no_basesD [OF dt_coreD(8) [OF C] xb]] u by simp
    show "no_bases (blocks ?fs (M(x := None))) (regions ?t)" by (rule no_bases_mono [OF dt_coreD(8) [OF C] B]) simp
  qed (use B dt_coreD(2,3,5,6) [OF C] u in auto)
  then have "dt_inv S W ?t (L(x := None))" unfolding dt_inv_def using dt_views_del [OF V] by blast
  moreover have "keeps (L(x := None)) s ?t" using view_keeps_push [OF H V dt_roomy M, of ?t] by simp
  ultimately show ?thesis using run by blast
qed

lemma dt_big_free:
  assumes C: "dt_core S W s fs M" and V: "views 0 (dt_fits S) L M" and L: "L x = Some n" and n: "7168 < n"
  shows "\<exists>t. dfree x n s = Some t \<and> dt_inv S W t (L(x := None)) \<and> keeps (L(x := None)) s t"
proof -
  note H = dt_coreD(1) [OF C] and O = dt_coreD(7) [OF C]
  obtain d where d: "M x = Some d" "dt_fits S d n" using viewsD [OF V L] by auto
  then have M: "M x = Some (Inl n)" using n by (simp add: dt_fits_def)
  have r: "(x, n) \<in> set (regions s)" using owned_okD(5) [OF O M] n by simp
  have x0: "0 < x" using regions_ok_pos [OF heap_regions [OF H] r] by simp
  let ?t = "s\<lparr>regions := filter (\<lambda>r. fst r \<noteq> x) (regions s), cells := wipe x n (cells s)\<rparr>"
  have run: "dfree x n s = Some ?t" using n x0 sys_give_Some [OF heap_regions [OF H] r] by (simp add: dfree_def c_free_def)
  have D: "heap_inv (dt_sz S) (\<lambda>_. ptr_fmt 0) (cells s) (regions s) (dt_heads s) fs (M(x := None))"
    using heap_drop_live [OF H, of "- {x}"] by (simp add: restrict_complement_singleton_eq)
  have B: "blocks fs (M(x := None)) \<subseteq> blocks fs M" by (auto simp: blocks_def split: if_splits)
  have ap: "apart y (dt_sz S d) x n" if "(y, d) \<in> blocks fs (M(x := None))" for y d
  proof -
    have "(y, d) \<in> blocks fs M" "(y, d) \<noteq> (x, Inl n)"
      using that heap_free_not_live [OF H] M by (auto simp: in_blocks split: if_splits)
    then show ?thesis using heap_apart [OF H, of y d x "Inl n"] M n by (simp add: in_blocks)
  qed
  have h: "dt_heads ?t = dt_heads s" by (rule dt_heads_cong) simp_all
  have G: "heap_inv (dt_sz S) (\<lambda>_. ptr_fmt 0) (cells ?t) (regions ?t) (dt_heads ?t) fs (M(x := None))"
    unfolding h using heap_give [OF D r ap] by simp
  have xa: "x \<notin> set (fs (Inr ()))" using heap_class_unique [OF H, of x "Inl n" "Inr ()"] M by (auto simp: in_blocks)
  have "dt_core S W ?t fs (M(x := None))"
  proof (rule dt_coreI [OF G])
    show "reserves_ok (cells ?t) (regions ?t) (fs (Inr ()))"
      unfolding reserves_ok_def
    proof
      fix a assume a: "a \<in> set (fs (Inr ()))"
      then have "apart a 16 x n" using ap [of a "Inr ()"] by (simp add: in_blocks)
      then have "wipe x n (cells s) (a + 8) = cells s (a + 8)" by (intro wipe_apart) (auto simp: apart_def)
      moreover have "a \<noteq> x" using a xa by blast
      ultimately show "\<exists>k. cells ?t (a + 8) = Some k \<and> (a, k) \<in> set (regions ?t) \<and> 16 \<le> k"
        using reserves_okD [OF dt_coreD(4) [OF C] a] by simp
    qed
    show "arena_ok (regions ?t) (limit ?t) (arena_end ?t) (fs (Inr ()))"
      using dt_coreD(5) [OF C] xa hd_in_set [of "fs (Inr ())"] unfolding arena_ok_def by (auto split: if_splits)
    show "owned_ok W (regions ?t) (fs (Inr ())) (M(x := None))"
      unfolding owned_ok_def
    proof (intro conjI allI impI)
      fix p k assume p: "(p, k) \<in> W"
      have "p \<noteq> x" using owned_okD(3) [OF O p] M by auto
      then show "(p, k) \<in> set (regions ?t)" "p \<notin> set (fs (Inr ()))" "(M(x := None)) p = None" using owned_okD(1-3) [OF O p] by simp_all
    next
      fix p k assume "(p, k) \<in> set (regions ?t)"
      then show "(p, k) \<in> W \<or> p \<in> set (fs (Inr ())) \<or> (M(x := None)) p = Some (Inl k) \<and> 7168 < k" using owned_okD(4) [OF O, of p k] by simp
    next
      fix p k assume "(M(x := None)) p = Some (Inl k)" "44 \<le> k"
      then show "(p, k) \<in> set (regions ?t)" "7168 < k" using owned_okD(5) [OF O, of p k] by (auto split: if_splits)
    qed
    show "no_bases (blocks fs (M(x := None))) (regions ?t)" by (rule no_bases_mono [OF dt_coreD(8) [OF C] B]) auto
  qed (use B dt_coreD(2,3,6) [OF C] in auto)
  then have "dt_inv S W ?t (L(x := None))" unfolding dt_inv_def using dt_views_del [OF V] by blast
  moreover have "keeps (L(x := None)) s ?t"
  proof (rule view_keeps [OF D dt_views_del [OF V] dt_roomy])
    fix y d assume y: "(M(x := None)) y = Some d"
    then have yb: "(y, d) \<in> blocks fs (M(x := None))" by (simp add: in_blocks)
    show "inside y (dt_sz S d) (regions ?t)" using heap_block_inside [OF G yb] .
    fix a assume "y + 0 \<le> a" "a + 8 \<le> y + dt_sz S d"
    then show "cells ?t a = cells s a" using ap [OF yb] by (simp, intro wipe_apart) (auto simp: apart_def)
  qed
  ultimately show ?thesis using run by blast
qed

lemma dt_write:
  assumes I: "dt_inv S W s L" and L: "L p = Some n" "p \<le> a" "a + 8 \<le> p + n"
  shows "\<exists>t. store a v s = Some t \<and> dt_inv S W t L"
proof -
  obtain fs M where C: "dt_core S W s fs M" and V: "views 0 (dt_fits S) L M" using I by (auto simp: dt_inv_def)
  note H = dt_coreD(1) [OF C]
  have w: "inside a 8 (regions s)" "heap_inv (dt_sz S) (\<lambda>_. ptr_fmt 0) (poke a v (cells s)) (regions s) (dt_heads s) fs M"
    using view_write [OF H V dt_roomy L] by blast+
  obtain x c where x: "M x = Some c" "x \<le> a" "a + 8 \<le> x + dt_sz S c" "dt_fits S c n"
    using view_cell [OF H V dt_roomy L] by (metis add_0_right)
  then obtain d where d: "c = Inl d" by (auto simp: dt_fits_def)
  let ?t = "s\<lparr>cells := poke a v (cells s)\<rparr>"
  have h: "dt_heads ?t = dt_heads s" by (rule dt_heads_cong) simp_all
  have "dt_core S W ?t fs M"
  proof (rule dt_coreI)
    show "heap_inv (dt_sz S) (\<lambda>_. ptr_fmt 0) (cells ?t) (regions ?t) (dt_heads ?t) fs M" unfolding h using w(2) by simp
    show "reserves_ok (cells ?t) (regions ?t) (fs (Inr ()))" using reserves_poke [OF C, of x d a v] x d by simp
  qed (use dt_coreD(2,3,5-8) [OF C] in auto)
  then show ?thesis unfolding dt_inv_def store_def using w(1) V by auto
qed

interpretation dt: client_heap "dt_inv S W" "dt_env S" dalloc dfree
proof unfold_locales
  fix s :: "'a dumb_tlsf_scheme" and L e n
  assume I: "dt_inv S W s L" and e: "dt_env S e n s"
  then obtain fs M where C: "dt_core S W s fs M" "views 0 (dt_fits S) L M" by (auto simp: dt_inv_def)
  show "\<exists>p t. dalloc e n s = Some (p, t) \<and> fresh_block L p n \<and> dt_inv S W t (L(p \<mapsto> n)) \<and> keeps L s t"
    using dt_small_alloc [OF C e] dt_big_alloc [OF C e] by (cases "n \<le> 7168") (auto simp del: fun_upd_apply)
next
  fix s :: "'a dumb_tlsf_scheme" and L p n
  assume I: "dt_inv S W s L" and L: "L p = Some n"
  then obtain fs M where C: "dt_core S W s fs M" "views 0 (dt_fits S) L M" by (auto simp: dt_inv_def)
  show "\<exists>t. dfree p n s = Some t \<and> dt_inv S W t (L(p := None)) \<and> keeps (L(p := None)) s t"
    using dt_small_free [OF C L] dt_big_free [OF C L] by (cases "n \<le> 7168") (auto simp del: fun_upd_apply)
next
  fix s :: "'a dumb_tlsf_scheme" and L p n a v
  assume "dt_inv S W s L" "L p = Some n" "p \<le> a" "a + 8 \<le> p + n"
  then show "\<exists>t. store a v s = Some t \<and> dt_inv S W t L" by (rule dt_write)
next
  fix s :: "'a dumb_tlsf_scheme" and L
  assume "dt_inv S W s L"
  then show "disjoint_blocks L" using view_disjoint [OF dt_coreD(1) _ dt_roomy] by (auto simp: dt_inv_def)
qed
section \<open>The reservations\<close>

lemma reserved_from_ok:
  assumes "chain (ptr_fmt 0) (cells s) b as" and "reserves_ok (cells s) (regions s) as" and "regions_ok (regions s)"
  shows "reserved_from b acc s = Some (acc + (\<Sum>a\<leftarrow>as. the (cells s (a + 8))))"
  using assms
proof (induction as arbitrary: b acc)
  case Nil
  then show ?case by (simp add: reserved_from.simps)
next
  case (Cons a as)
  obtain q where q: "b = a" "a \<noteq> 0" "cells s a = Some q" "chain (ptr_fmt 0) (cells s) q as" using Cons.prems(1) by auto
  obtain k where k: "cells s (a + 8) = Some k" "(a, k) \<in> set (regions s)" "16 \<le> k"
    using reserves_okD [OF Cons.prems(2), of a] by auto
  have "load a s = Some q" "load (a + 8) s = Some k" using q k by (auto simp: load_def intro: insideI [OF k(2)])
  moreover have "reserves_ok (cells s) (regions s) as" using Cons.prems(2) by (simp add: reserves_ok_def)
  ultimately show ?case using Cons.IH [OF q(4) _ Cons.prems(3)] q(1,2) k(1) by (subst reserved_from.simps) simp
qed

lemma give_reserves_ok:
  assumes "chain (ptr_fmt 0) (cells s) (res s) as" and "distinct as" and "reserves_ok (cells s) (regions s) as" and "regions_ok (regions s)"
  shows "\<exists>m. give_reserves s = Some (s\<lparr>res := 0, cells := m, regions := filter (\<lambda>r. fst r \<notin> set as) (regions s)\<rparr>)"
  using assms
proof (induction as arbitrary: s)
  case Nil
  then have z: "res s = 0" by simp
  then have "s\<lparr>res := 0, cells := cells s\<rparr> = s" by (cases s) simp
  then show ?case using z by (subst give_reserves.simps) (auto intro: exI [of _ "cells s"])
next
  case (Cons a as)
  obtain q where q: "res s = a" "a \<noteq> 0" "cells s a = Some q" "chain (ptr_fmt 0) (cells s) q as" using Cons.prems(1) by auto
  obtain k where k: "cells s (a + 8) = Some k" "(a, k) \<in> set (regions s)" "16 \<le> k"
    using reserves_okD [OF Cons.prems(3), of a] by auto
  let ?t = "s\<lparr>regions := filter (\<lambda>r. fst r \<noteq> a) (regions s), cells := wipe a k (cells s), res := q\<rparr>"
  have l: "load a s = Some q" "load (a + 8) s = Some k" using q k by (auto simp: load_def intro: insideI [OF k(2)])
  have f: "c_free a s = Some (s\<lparr>regions := filter (\<lambda>r. fst r \<noteq> a) (regions s), cells := wipe a k (cells s)\<rparr>)"
    using sys_give_Some [OF Cons.prems(4) k(2)] q(2) by (simp add: c_free_def)
  have keep: "wipe a k (cells s) (x + i) = cells s (x + i)" if x: "x \<in> set as" and i: "i \<le> 8" for x i
  proof -
    obtain j where j: "(x, j) \<in> set (regions s)" "16 \<le> j" using reserves_okD [OF Cons.prems(3), of x] x by auto
    have "x \<noteq> a" using x Cons.prems(2) by auto
    then have "apart a k x j" using regions_ok_apart [OF Cons.prems(4) k(2) j(1)] by auto
    then show ?thesis using i j(2) by (intro wipe_apart) (auto simp: apart_def)
  qed
  have "chain (ptr_fmt 0) (cells ?t) (res ?t) as" using q(4) keep [of _ 0] by (subst chain_cong [where m' = "cells s"]) auto
  moreover have "reserves_ok (cells ?t) (regions ?t) as"
    unfolding reserves_ok_def
  proof
    fix x assume x: "x \<in> set as"
    then have "x \<noteq> a" using Cons.prems(2) by auto
    then show "\<exists>j. cells ?t (x + 8) = Some j \<and> (x, j) \<in> set (regions ?t) \<and> 16 \<le> j"
      using reserves_okD [OF Cons.prems(3), of x] x keep [OF x, of 8] by auto
  qed
  moreover have "regions_ok (regions ?t)" using Cons.prems(4) regions_ok_filter by simp
  ultimately obtain m where "give_reserves ?t = Some (?t\<lparr>res := 0, cells := m, regions := filter (\<lambda>r. fst r \<notin> set as) (regions ?t)\<rparr>)"
    using Cons.IH [of ?t] Cons.prems(2) by auto
  moreover have "filter (\<lambda>r. fst r \<notin> set as) (regions ?t) = filter (\<lambda>r. fst r \<notin> set (a # as)) (regions s)"
    by (auto intro: filter_cong)
  ultimately show ?case using q(1,2) l f by (subst give_reserves.simps) (auto intro: exI [of _ m])
qed

definition large_only :: "(nat \<rightharpoonup> nat) \<Rightarrow> (nat \<rightharpoonup> nat)" where
  "large_only L = (\<lambda>p. case L p of None \<Rightarrow> None | Some n \<Rightarrow> if 7168 < n then Some n else None)"

lemma large_view: "views 0 (dt_fits S) L M \<Longrightarrow> M p = Some (Inl k) \<Longrightarrow> 7168 < k \<Longrightarrow> L p = Some k"
proof -
  assume V: "views 0 (dt_fits S) L M" and M: "M p = Some (Inl k)" "7168 < k"
  obtain n where n: "L p = Some n" "dt_fits S (Inl k) n" using views_live [OF V M(1)] by auto
  show ?thesis
  proof (cases "n \<le> 7168")
    case True
    then have "k < 44" using n(2) uniform_class [of S n] by (simp add: dt_fits_def)
    then show ?thesis using M(2) by simp
  next
    case False
    then show ?thesis using n by (simp add: dt_fits_def)
  qed
qed

lemma view_large:
  assumes C: "dt_core S W s fs M" and V: "views 0 (dt_fits S) L M" and L: "L p = Some n" "7168 < n"
  shows "M p = Some (Inl n)" "(p, n) \<in> set (regions s)" "p \<notin> set (fs (Inr ()))"
proof -
  obtain d where "M p = Some d" "dt_fits S d n" using viewsD [OF V L(1)] by auto
  then show M: "M p = Some (Inl n)" using L(2) by (simp add: dt_fits_def)
  then show "(p, n) \<in> set (regions s)" using owned_okD(5) [OF dt_coreD(7) [OF C] M] L(2) by simp
  show "p \<notin> set (fs (Inr ()))" using heap_class_unique [OF dt_coreD(1) [OF C], of p "Inl n" "Inr ()"] M by (auto simp: in_blocks)
qed

lemma apocalypse_ok:
  assumes C: "dt_core S W s fs M" and V: "views 0 (dt_fits S) L M"
  shows "\<exists>t. dapocalypse s = Some t \<and> dt_inv S W t (large_only L) \<and> regions t = filter (\<lambda>r. fst r \<notin> set (fs (Inr ()))) (regions s) \<and>
    res t = 0 \<and> limit t = 0 \<and> arena_end t = 0 \<and> (\<forall>i < 44. table t i = 0)"
proof -
  note H = dt_coreD(1) [OF C] and O = dt_coreD(7) [OF C]
  let ?as = "fs (Inr ())"
  let ?rs = "filter (\<lambda>r. fst r \<notin> set ?as) (regions s)"
  have "chain (ptr_fmt 0) (cells s) (res s) ?as" using heap_chain [OF H, of "Inr ()"] by simp
  then obtain m where m: "give_reserves s = Some (s\<lparr>res := 0, cells := m, regions := ?rs\<rparr>)"
    using give_reserves_ok heap_distinct [OF H] dt_coreD(4) [OF C] heap_regions [OF H] by blast
  let ?t = "s\<lparr>res := 0, cells := m, regions := ?rs, limit := 0, arena_end := 0, table := (\<lambda>i. if i < 44 then 0 else table s i)\<rparr>"
  have run: "dapocalypse s = Some ?t" using m by (simp add: dapocalypse_def cong: if_cong)
  let ?M = "M |` {p. \<exists>n > 7168. L p = Some n}"
  have big: "M p = Some (Inl n) \<and> (p, n) \<in> set ?rs" if Lp: "L p = Some n" and n: "7168 < n" for p n
    using view_large [OF C V Lp n] by simp
  have MM: "?M p = Some d \<longleftrightarrow> (\<exists>n > 7168. L p = Some n \<and> d = Inl n)" for p d using big [of p] by (auto simp: restrict_map_def)
  have B: "blocks (\<lambda>_. []) ?M = {(p, Inl n) | p n. L p = Some n \<and> 7168 < n}" unfolding blocks_def by (auto simp: MM)
  then have sub: "blocks (\<lambda>_. []) ?M \<subseteq> blocks fs M" using big by (auto simp: in_blocks)
  have h: "dt_heads ?t = (\<lambda>c. fnil (ptr_fmt 0))"
  proof (rule ext)
    fix c show "dt_heads ?t c = fnil (ptr_fmt 0)" by (cases c) simp_all
  qed
  have HH: "heap_inv (dt_sz S) (\<lambda>_. ptr_fmt 0) (cells ?t) (regions ?t) (dt_heads ?t) (\<lambda>_. []) ?M"
    unfolding heap_inv_def h
  proof (intro conjI allI)
    show "regions_ok (regions ?t)" using regions_ok_filter [OF heap_regions [OF H]] by simp
    show "spaced (dt_sz S) (blocks (\<lambda>_. []) ?M)" using H sub by (auto simp: heap_inv_def intro: spaced_mono)
    show "\<forall>(x, c) \<in> blocks (\<lambda>_. []) ?M. block_ok (dt_sz S) (\<lambda>_. ptr_fmt 0) (regions ?t) x c"
    proof clarify
      fix x c assume x: "(x, c) \<in> blocks (\<lambda>_. []) ?M"
      then obtain n where n: "c = Inl n" "L x = Some n" "7168 < n" using B by auto
      have "(x, n) \<in> set ?rs" using big [OF n(2,3)] by blast
      moreover have "0 < x" using heap_block_pos [OF H] x sub by blast
      ultimately show "block_ok (dt_sz S) (\<lambda>_. ptr_fmt 0) (regions ?t) x c"
        using n insideI [of x n ?rs x n] by (simp add: block_ok_def)
    qed
  qed auto
  have core: "dt_core S W ?t (\<lambda>_. []) ?M"
  proof (rule dt_coreI [OF HH])
    show "owned_ok W (regions ?t) [] ?M"
      unfolding owned_ok_def
    proof (intro conjI allI impI)
      fix p k assume p: "(p, k) \<in> W"
      show "(p, k) \<in> set (regions ?t)" "p \<notin> set []" "?M p = None" using owned_okD(1-3) [OF O p] by (auto simp: restrict_map_def)
    next
      fix p k assume "(p, k) \<in> set (regions ?t)"
      then have "(p, k) \<in> W \<or> M p = Some (Inl k) \<and> 7168 < k" using owned_okD(4) [OF O, of p k] by auto
      moreover have "?M p = Some (Inl k)" if M: "M p = Some (Inl k)" "7168 < k"
        using large_view [OF V M] MM M(2) by blast
      ultimately show "(p, k) \<in> W \<or> p \<in> set [] \<or> ?M p = Some (Inl k) \<and> 7168 < k" by blast
    next
      fix p k assume "?M p = Some (Inl k)" "44 \<le> k"
      then show "(p, k) \<in> set (regions ?t)" "7168 < k" using MM [of p "Inl k"] big [of p k] by auto
    qed
    show "no_bases (blocks (\<lambda>_. []) ?M) (regions ?t)" unfolding no_bases_def B by auto
  qed (auto simp: reserves_ok_def arena_ok_def MM apart_def)
  have "views 0 (dt_fits S) (large_only L) ?M"
    unfolding views_def
  proof (intro conjI allI impI)
    fix x
    show "rel_option (\<lambda>n c. dt_fits S c n) (large_only L (x + 0)) (?M x)"
    proof (cases "\<exists>n > 7168. L x = Some n")
      case True
      then obtain n where n: "7168 < n" "L x = Some n" by blast
      then have "?M x = Some (Inl n)" using MM by blast
      then show ?thesis using n by (simp add: large_only_def dt_fits_def uniform_def)
    next
      case False
      then have "?M x = None" by (auto simp: restrict_map_def)
      moreover have "large_only L x = None" using False by (auto simp: large_only_def split: option.splits)
      ultimately show ?thesis by simp
    qed
  qed simp
  then have "dt_inv S W ?t (large_only L)" unfolding dt_inv_def using core by blast
  then show ?thesis using run by (intro exI [of _ ?t]) simp
qed

section \<open>Properties\<close>

text \<open>
  C13. Every legal program over \<open>dalloc\<close> and \<open>dfree\<close> whose small requests are not empty and round up to one size per list
  of the table runs without undefined behaviour, never holds overlapping blocks and reads back what it wrote.
\<close>

theorem dt_programs_sound:
  assumes "regions_ok (regions w)" and "legal (dt_env S) dalloc dfree (cs @ cs') (dumb_tlsf0 w) Map.empty"
  shows "sound_run dalloc dfree cs cs' (dumb_tlsf0 w)"
  by (rule dt.run_sound [OF dt_inv_init [OF assms(1)] assms(2)])


text \<open>
  In every history \<open>dreserved_memory\<close> reports the bytes that \<open>dapocalypse\<close> gives back, and what the system still counts
  after that is what it counted at the start and the large objects in use; the heap is then as at the start.
\<close>

lemma dt_memory_returned:
  assumes "regions_ok (regions w)" and "legal (dt_env S) dalloc dfree cs (dumb_tlsf0 w) Map.empty"
    and "run dalloc dfree cs (dumb_tlsf0 w) Map.empty = Some (s, L)"
  shows "\<exists>t. dapocalypse s = Some t \<and> set (regions t) = set (regions w) \<union> {(p, n). L p = Some n \<and> max_size < n} \<and>
    dreserved_memory s = Some (\<Sum>(p, n) \<in> set (regions s) - set (regions t). n) \<and>
    res t = 0 \<and> limit t = 0 \<and> arena_end t = 0 \<and> (\<forall>i < 44. table t i = 0)"
proof -
  have "dt_inv S (set (regions w)) s L"
    using dt.run_safe [OF dt_inv_init [OF assms(1)] assms(2)] assms(3) by auto
  then obtain fs M where C: "dt_core S (set (regions w)) s fs M" and V: "views 0 (dt_fits S) L M" by (auto simp: dt_inv_def)
  note H = dt_coreD(1) [OF C] and O = dt_coreD(7) [OF C] and R = dt_coreD(4) [OF C]
  let ?as = "fs (Inr ())"
  obtain t where t: "dapocalypse s = Some t" "dt_inv S (set (regions w)) t (large_only L)"
    "regions t = filter (\<lambda>r. fst r \<notin> set ?as) (regions s)" "res t = 0" "limit t = 0" "arena_end t = 0" "\<forall>i < 44. table t i = 0"
    using apocalypse_ok [OF C V] by blast
  have "set (regions t) = set (regions w) \<union> {(p, n). L p = Some n \<and> 7168 < n}"
  proof (intro set_eqI iffI)
    fix r assume r: "r \<in> set (regions t)"
    obtain p n where pn: "r = (p, n)" by (cases r)
    have "(p, n) \<in> set (regions w) \<or> M p = Some (Inl n) \<and> 7168 < n" using r t(3) owned_okD(4) [OF O, of p n] pn by auto
    then show "r \<in> set (regions w) \<union> {(p, n). L p = Some n \<and> 7168 < n}" using large_view [OF V, of p n] pn by auto
  next
    fix r assume r: "r \<in> set (regions w) \<union> {(p, n). L p = Some n \<and> 7168 < n}"
    obtain p n where pn: "r = (p, n)" by (cases r)
    have "(p, n) \<in> set (regions s) \<and> p \<notin> set ?as"
      using r pn owned_okD(1,2) [OF O, of p n] view_large(2,3) [OF C V, of p n] by auto
    then show "r \<in> set (regions t)" using t(3) pn by simp
  qed
  moreover have "dreserved_memory s = Some (\<Sum>(p, n) \<in> set (regions s) - set (regions t). n)"
  proof -
    let ?k = "\<lambda>a. the (cells s (a + 8))"
    have "reserved_from (res s) 0 s = Some (\<Sum>a\<leftarrow>?as. ?k a)"
      using reserved_from_ok [OF _ R heap_regions [OF H], of "res s" 0] heap_chain [OF H, of "Inr ()"] by simp
    moreover have "set (regions s) - set (regions t) = (\<lambda>a. (a, ?k a)) ` set ?as"
    proof (intro set_eqI iffI)
      fix r assume r: "r \<in> set (regions s) - set (regions t)"
      then have a: "fst r \<in> set ?as" using t(3) by auto
      then obtain j where j: "cells s (fst r + 8) = Some j" "(fst r, j) \<in> set (regions s)" using reserves_okD [OF R a] by blast
      have "(fst r, snd r) \<in> set (regions s)" using r by simp
      then have "snd r = j" using regions_ok_base [OF heap_regions [OF H] _ j(2)] by blast
      then have "snd r = ?k (fst r)" using j(1) by simp
      then have "r = (fst r, ?k (fst r))" by (simp add: prod_eq_iff)
      then show "r \<in> (\<lambda>a. (a, ?k a)) ` set ?as" using a by (rule image_eqI)
    next
      fix r assume "r \<in> (\<lambda>a. (a, ?k a)) ` set ?as"
      then obtain a where a: "a \<in> set ?as" "r = (a, ?k a)" by blast
      obtain j where "cells s (a + 8) = Some j" "(a, j) \<in> set (regions s)" using reserves_okD [OF R a(1)] by blast
      then show "r \<in> set (regions s) - set (regions t)" using t(3) a by simp
    qed
    moreover have "(\<Sum>(p, n) \<in> (\<lambda>a. (a, ?k a)) ` set ?as. n) = (\<Sum>a\<leftarrow>?as. ?k a)"
      using heap_distinct [OF H, of "Inr ()"] by (subst sum.reindex) (auto simp: inj_on_def sum_list_distinct_conv_sum_set)
    ultimately show ?thesis by (simp add: dreserved_memory_def)
  qed
  ultimately show ?thesis unfolding dt_consts using t(1,4-7) by blast
qed
section \<open>Witnesses\<close>

text \<open>Two objects of 64 bytes in a first reservation of a mebibyte.\<close>

definition dt_ex :: "nat \<Rightarrow> (nat \<Rightarrow> nat option) \<Rightarrow> dumb_tlsf" where
  "dt_ex l m = \<lparr>cells = m, regions = [(65536, 1048576)], alloc_size = 1048576, table = \<lambda>_. 0, res = 65536, limit = l, arena_end = 1114112\<rparr>"

abbreviation dt_ex_cells :: "nat \<Rightarrow> nat option" where
  "dt_ex_cells \<equiv> poke 65544 1048576 (poke 65536 0 (wipe 65536 1048576 (\<lambda>_. None)))"

abbreviation dt_ex0 :: dumb_tlsf where
  "dt_ex0 \<equiv> dumb_tlsf0 \<lparr>cells = \<lambda>_. None, regions = []\<rparr>"

lemma dt_ex_classes: "esizeof 64 = 64" "esizeof 72 = 72"
  by (simp_all add: esizeof_def)

lemma dt_ex_first: "dalloc 65536 64 dt_ex0 = Some (65552, dt_ex 65616 dt_ex_cells)"
  by (simp add: dalloc_def alloc_e_def dt_ex_classes dumb_tlsf0_def reserve_def sys_take_def store_def inside_def dt_ex_def Let_def)

lemma dt_ex_next: "dalloc 0 64 (dt_ex 65616 m) = Some (65616, dt_ex 65680 m)"
  by (simp add: dalloc_def alloc_e_def dt_ex_classes dt_ex_def Let_def)

lemma dt_ex_env: "dt_env (\<lambda>_. 64) 65536 64 dt_ex0" "dt_env (\<lambda>_. 64) 0 64 (dt_ex 65616 m)"
  by (simp_all add: dt_env_def uniform_def dt_ex_classes dumb_tlsf0_def dt_ex_def malloc_ok_def)

theorem dt_programs_sound_witness:
  "\<exists>t K. run dalloc dfree [Malloc 65536 64, Write 65552 8 7, Malloc 0 64, Free 65616] dt_ex0 Map.empty = Some (t, K) \<and>
    disjoint_blocks K \<and> K 65552 = Some 64 \<and> load (65552 + 8) t = Some 7"
proof -
  let ?cs = "[Malloc 65536 64, Write 65552 8 7]" and ?cs' = "[Malloc 0 64, Free 65616]"
  let ?s = "dt_ex 65616 (poke 65560 7 dt_ex_cells)"
  have w: "store 65560 7 (dt_ex 65616 dt_ex_cells) = Some ?s" by (simp add: store_def dt_ex_def inside_def)
  have f: "dfree 65616 64 (dt_ex 65680 m) \<noteq> None" for m
    by (simp add: dfree_def free_e_def store_def dt_ex_def inside_def)
  have "legal (dt_env (\<lambda>_. 64)) dalloc dfree (?cs @ ?cs') dt_ex0 Map.empty"
    using w dt_ex_env by (simp add: dt_ex_first dt_ex_next split: option.splits)
  then have S: "sound_run dalloc dfree ?cs ?cs' dt_ex0" by (intro dt_programs_sound) simp_all
  have "run dalloc dfree ?cs dt_ex0 Map.empty = Some (?s, [65552 \<mapsto> 64])" using w by (simp add: dt_ex_first)
  moreover have "load (65552 + 8) ?s = Some 7" by (simp add: load_def dt_ex_def inside_def)
  ultimately show ?thesis using sound_runD [OF S, of ?s "[65552 \<mapsto> 64]" 65552 64 8] by simp
qed


lemma dt_memory_returned_witness:
  "\<exists>t. dapocalypse (dt_ex 65616 dt_ex_cells) = Some t \<and> regions t = [] \<and> res t = 0 \<and> dreserved_memory (dt_ex 65616 dt_ex_cells) = Some 1048576"
proof -
  have l: "legal (dt_env (\<lambda>_. 64)) dalloc dfree [Malloc 65536 64] dt_ex0 Map.empty" using dt_ex_env by (simp add: dt_ex_first)
  have r: "run dalloc dfree [Malloc 65536 64] dt_ex0 Map.empty = Some (dt_ex 65616 dt_ex_cells, [65552 \<mapsto> 64])" by (simp add: dt_ex_first)
  have e: "{(p, n). [65552 \<mapsto> 64] p = Some n \<and> max_size < (n::nat)} = {}" by (auto split: if_splits)
  have w: "regions_ok (regions (\<lparr>cells = \<lambda>_. None, regions = []\<rparr> :: world))" by simp
  obtain t where t: "dapocalypse (dt_ex 65616 dt_ex_cells) = Some t" "set (regions t) = {}" "res t = 0"
      "dreserved_memory (dt_ex 65616 dt_ex_cells) = Some (\<Sum>(p, n) \<in> set (regions (dt_ex 65616 dt_ex_cells)) - set (regions t). n)"
    using dt_memory_returned [OF w l r] unfolding e by auto
  then show ?thesis by (simp add: dt_ex_def)
qed

end
