(* ===== verification/FcHeap.thy ===== *)
theory FcHeap
  imports DList BitIndex
begin

text \<open>
  \<open>fc_malloc/fc_heap.hpp\<close>: a single-threaded heap of 2 MiB pages that are cut into blocks of powers of two.
  Every block starts with a header of 8 bytes that holds its size and that of the block before it, so that a freed
  block can be merged with its neighbours; free blocks of like sizes are linked through their data into 32 bins.
  Requests of up to 64 bytes come from two bitmaps. The build is the one with assertions: an assertion that fails,
  an access through a null pointer or to a block that is not there is \<open>None\<close>.
\<close>

definition PAGE_SIZE :: nat where "PAGE_SIZE = 2 * 1024 * 1024"
definition NUM_BINS :: nat where "NUM_BINS = 32"

section \<open>Block headers\<close>

datatype flag = Queued | Idle | Active

text \<open>\<open>_size\<close> is a field of 24 bits; a negative size marks the last block of a page.\<close>

record block_header =
  prev_size :: int
  bsize :: int
  flags :: "flag set"

record queue_state =
  qnext :: nat
  qprev :: nat

definition int24 :: "int \<Rightarrow> int" where
  "int24 x = (x + 2 ^ 23) mod 2 ^ 24 - 2 ^ 23"

definition block_size :: "block_header \<Rightarrow> nat" where
  "block_size b = nat \<bar>bsize b\<bar>"

definition next_block :: "nat \<Rightarrow> block_header \<Rightarrow> nat" where
  "next_block a b = (if bsize b \<le> 0 then 0 else a + block_size b)"

definition prev_block :: "nat \<Rightarrow> block_header \<Rightarrow> nat" where
  "prev_block a b = (if prev_size b \<le> 0 then 0 else nat (int a - prev_size b))"

partial_function (option) head_of :: "(nat \<rightharpoonup> block_header) \<Rightarrow> nat \<Rightarrow> nat option" where
  "head_of M a = do { b \<leftarrow> M a; if prev_block a b = 0 then Some a else head_of M (prev_block a b) }"

partial_function (option) tail_of :: "(nat \<rightharpoonup> block_header) \<Rightarrow> nat \<Rightarrow> nat option" where
  "tail_of M a = do { b \<leftarrow> M a; if next_block a b = 0 then Some a else tail_of M (next_block a b) }"

definition page_size :: "(nat \<rightharpoonup> block_header) \<Rightarrow> nat \<Rightarrow> nat option" where
  "page_size M a = do { t \<leftarrow> tail_of M a; h \<leftarrow> head_of M a; b \<leftarrow> M t; Some (t - h + block_size b) }"

declare head_of.simps [simp del] tail_of.simps [simp del]

section \<open>The heap\<close>

record fc_heap =
  blk :: "nat \<rightharpoonup> block_header"
  qs :: "nat \<rightharpoonup> queue_state"
  pages :: "nat set"
  bins :: "nat \<Rightarrow> nat"
  free_32_data :: nat
  free_64_data :: nat
  scan_32 :: nat
  scan_64 :: nat
  state_32 :: "64 word list"
  state_64 :: "64 word list"

definition page_check :: "nat \<Rightarrow> (nat \<rightharpoonup> block_header) \<Rightarrow> unit option" where
  "page_check a M = do { n \<leftarrow> page_size M a; check (n = PAGE_SIZE) }"

definition CHECK_SIZE :: "nat \<Rightarrow> unit option" where
  "CHECK_SIZE x = check (x \<noteq> 0 \<and> x AND (x - 1) = 0)"

text \<open>The constructor; \<open>d32\<close> and \<open>d64\<close> are the answers of \<open>mmap_alloc\<close>.\<close>

definition fc_heap0 :: "nat \<Rightarrow> nat \<Rightarrow> fc_heap" where
  "fc_heap0 d32 d64 = \<lparr>blk = Map.empty, qs = Map.empty, pages = {}, bins = \<lambda>_. 0, free_32_data = d32, free_64_data = d64,
     scan_32 = 0, scan_64 = 0, state_32 = replicate (PAGE_SIZE div 32 div 64) (- 1), state_64 = replicate (PAGE_SIZE div 64 div 64) (- 1)\<rparr>"

section \<open>Splitting and merging\<close>

text \<open>A new block of \<open>sz\<close> bytes at the end of block \<open>a\<close>.\<close>

definition split_block :: "nat \<Rightarrow> nat \<Rightarrow> fc_heap \<Rightarrow> (nat \<times> fc_heap) option" where
  "split_block sz a s = do {
     b \<leftarrow> blk s a;
     check (32 \<le> sz \<and> 32 \<le> block_size b \<and> sz \<le> block_size b - 32);
     page_check a (blk s);
     check (bsize b \<noteq> 0xbad);
     CHECK_SIZE sz;
     let old_nxt = next_block a b;
     let b' = b\<lparr>bsize := int24 (int (block_size b - sz))\<rparr>;
     check (bsize b' \<noteq> 0);
     let nxt = next_block a b';
     check (nxt \<noteq> 0);
     let c = \<lparr>prev_size = bsize b', bsize = int24 (if bsize b < 0 then - int sz else int sz), flags = {}\<rparr>;
     check (bsize b' \<noteq> 0);
     M \<leftarrow> relink old_nxt (prev_size_update (\<lambda>_. bsize c)) ((blk s)(a \<mapsto> b', nxt \<mapsto> c));
     check (block_size b' + block_size c = block_size b \<and> next_block nxt c = old_nxt \<and> prev_block nxt c = a);
     page_check a M;
     page_check nxt M;
     check (nxt \<noteq> a);
     Some (nxt, s\<lparr>blk := M\<rparr>)
   }"

text \<open>The block is merged with the next one, whose header is marked; the mark is the effect of an assertion.\<close>

definition merge_next :: "nat \<Rightarrow> fc_heap \<Rightarrow> (nat \<times> fc_heap) option" where
  "merge_next a s = do {
     b \<leftarrow> blk s a;
     check (bsize b \<noteq> 0xbad);
     let c = next_block a b;
     if c = 0 then Some (a, s)
     else do {
       cb \<leftarrow> blk s c;
       check (bsize cb \<noteq> 0xbad \<and> 0 < block_size cb \<and> 0 < bsize b);
       let b' = b\<lparr>bsize := int24 (bsize b + int (block_size cb))\<rparr>;
       check (bsize b' \<noteq> 0);
       M \<leftarrow> (if 0 < bsize cb
             then alter (next_block a b') (prev_size_update (\<lambda>_. int (block_size b'))) ((blk s)(a \<mapsto> b'))
             else Some ((blk s)(a \<mapsto> b'\<lparr>bsize := int24 (- bsize b')\<rparr>)));
       M \<leftarrow> alter c (bsize_update (\<lambda>_. 0xbad)) M;
       merged \<leftarrow> M a;
       check (bsize merged \<noteq> 0 \<and> block_size b < block_size merged);
       (if next_block a merged \<noteq> 0 then do {
          n \<leftarrow> M (next_block a merged);
          check (block_size merged div 8 = (next_block a merged - a) div 8 \<and> prev_size n = int (block_size merged));
          page_check a M
        } else Some ());
       Some (a, s\<lparr>blk := M\<rparr>)
     }
   }"

definition merge_prev :: "nat \<Rightarrow> fc_heap \<Rightarrow> (nat \<times> fc_heap) option" where
  "merge_prev a s = do {
     page_check a (blk s);
     b \<leftarrow> blk s a;
     if prev_block a b = 0 then Some (a, s) else merge_next (prev_block a b) s
   }"

section \<open>Flags and queues\<close>

definition set_active :: "bool \<Rightarrow> nat \<Rightarrow> fc_heap \<Rightarrow> fc_heap option" where
  "set_active v a s = do {
     M \<leftarrow> alter a (flags_update (\<lambda>f. if v then insert Active f else f - {Active})) (blk s);
     Some (s\<lparr>blk := M\<rparr>)
   }"

definition set_queued :: "bool \<Rightarrow> nat \<Rightarrow> fc_heap \<Rightarrow> fc_heap option" where
  "set_queued v a s = do {
     M \<leftarrow> alter a (flags_update (\<lambda>f. if v then insert Queued f else f - {Queued})) (blk s);
     Some (s\<lparr>blk := M, qs := (if v then (qs s)(a \<mapsto> \<lparr>qnext = 0, qprev = 0\<rparr>) else qs s)\<rparr>)
   }"

definition dequeue :: "nat \<Rightarrow> fc_heap \<Rightarrow> fc_heap option" where
  "dequeue a s = do {
     q \<leftarrow> qs s a;
     Q \<leftarrow> relink (qprev q) (qnext_update (\<lambda>_. qnext q)) (qs s);
     Q \<leftarrow> relink (qnext q) (qprev_update (\<lambda>_. qprev q)) Q;
     set_queued False a (s\<lparr>qs := Q\<rparr>)
   }"

definition push :: "nat \<Rightarrow> nat \<Rightarrow> fc_heap \<Rightarrow> fc_heap option" where
  "push i a s = do {
     Q \<leftarrow> alter a (qnext_update (\<lambda>_. bins s i)) (qs s);
     Q \<leftarrow> relink (bins s i) (qprev_update (\<lambda>_. a)) Q;
     Some (s\<lparr>qs := Q, bins := (bins s)(i := a)\<rparr>)
   }"

definition pop :: "nat \<Rightarrow> fc_heap \<Rightarrow> (nat \<times> fc_heap) option" where
  "pop i s =
     (if bins s i = 0 then Some (0, s)
      else do {
        q \<leftarrow> qs s (bins s i);
        Q \<leftarrow> relink (qnext q) (qprev_update (\<lambda>_. 0)) (qs s);
        Some (bins s i, s\<lparr>bins := (bins s)(i := qnext q), qs := Q\<rparr>)
      })"

section \<open>Pages\<close>

text \<open>The answer \<open>p\<close> of \<open>malloc\<close> for a page, and the constructor of its only block.\<close>

definition new_page :: "nat \<Rightarrow> fc_heap \<Rightarrow> fc_heap option" where
  "new_page p s =
     (if p = 0 then None
      else do {
        let M = (blk s)(p \<mapsto> \<lparr>prev_size = 0, bsize = int24 (- int PAGE_SIZE), flags = {}\<rparr>);
        page_check p M;
        Some (s\<lparr>blk := M, pages := insert p (pages s)\<rparr>)
      })"

definition delete_page :: "nat \<Rightarrow> fc_heap \<Rightarrow> fc_heap option" where
  "delete_page p s =
     (if p \<notin> pages s then None
      else Some (s\<lparr>pages := pages s - {p}, blk := blk s |` (- {p ..< p + PAGE_SIZE}), qs := qs s |` (- {p ..< p + PAGE_SIZE})\<rparr>))"

section \<open>Release\<close>

text \<open>A queued block leaves its bin.\<close>

definition unqueue :: "nat \<Rightarrow> fc_heap \<Rightarrow> fc_heap option" where
  "unqueue a s = do {
     b \<leftarrow> blk s a;
     if bins s (bsr (block_size b)) = a
     then do { (h, s) \<leftarrow> pop (bsr (block_size b)) s; set_queued False a s }
     else dequeue a s
   }"

definition mergeable :: "nat \<Rightarrow> fc_heap \<Rightarrow> bool option" where
  "mergeable a s =
     (if a = 0 then Some False else do { b \<leftarrow> blk s a; Some (Active \<notin> flags b \<and> Queued \<in> flags b) })"

definition heap_free :: "nat \<Rightarrow> fc_heap \<Rightarrow> fc_heap option" where
  "heap_free h s = do {
     check (h \<noteq> 0);
     b \<leftarrow> blk s h;
     check (Active \<in> flags b \<and> bsize b \<noteq> 0 \<and> block_size b < PAGE_SIZE);
     let pre = prev_block h b;
     let nxt = next_block h b;
     m \<leftarrow> mergeable nxt s;
     (h, s) \<leftarrow> (if m then do { s \<leftarrow> unqueue nxt s; merge_next h s } else Some (h, s));
     m \<leftarrow> mergeable pre s;
     (h, s) \<leftarrow> (if m then do { s \<leftarrow> unqueue pre s; merge_next pre s } else Some (h, s));
     b \<leftarrow> blk s h;
     if block_size b = PAGE_SIZE then delete_page h s
     else do {
       s \<leftarrow> set_active False h s;
       s \<leftarrow> set_queued True h s;
       push (bsr (block_size b)) h s
     }
   }"

section \<open>Allocation\<close>

function find_block :: "nat \<Rightarrow> fc_heap \<Rightarrow> (nat \<times> fc_heap) option" where
  "find_block i s =
     (if i < 32 then do { (h, t) \<leftarrow> pop i s; if h \<noteq> 0 then Some (h, t) else find_block (i + 1) s } else Some (0, s))"
  by pat_completeness auto
termination by (relation "measure (\<lambda>(i, s). 32 - i)") auto

declare find_block.simps [simp del]

text \<open>The end of block \<open>h\<close> is handed out, the rest is free.\<close>

definition cut_block :: "nat \<Rightarrow> nat \<Rightarrow> fc_heap \<Rightarrow> (nat \<times> fc_heap) option" where
  "cut_block n h s = do {
     (t, s) \<leftarrow> split_block n h s;
     s \<leftarrow> set_active True h s;
     s \<leftarrow> heap_free h s;
     s \<leftarrow> set_active True t s;
     Some (t, s)
   }"

definition heap_alloc :: "nat \<Rightarrow> nat \<Rightarrow> fc_heap \<Rightarrow> (nat \<times> fc_heap) option" where
  "heap_alloc n p s = do {
     check (32 \<le> n);
     CHECK_SIZE n;
     (h, s) \<leftarrow> find_block (bsr n) s;
     if h \<noteq> 0 then do {
       b \<leftarrow> blk s h;
       check (bsize b \<noteq> 0 \<and> bsize b \<noteq> 0xbad \<and> Queued \<in> flags b);
       s \<leftarrow> set_queued False h s;
       if block_size b - 32 < n
       then do { s \<leftarrow> set_active True h s; Some (h, s) }
       else cut_block n h s
     }
     else do { s \<leftarrow> new_page p s; cut_block n p s }
   }"

section \<open>Small objects\<close>

text \<open>
  The scan for a word with a free bit, which ends after \<open>c\<close> words; position and words of the bitmap. A bit is
  set iff its object is free; bit 63 is the first object of a word.
\<close>

fun scan_word :: "nat \<Rightarrow> nat \<Rightarrow> 64 word list \<Rightarrow> nat \<times> bool" where
  "scan_word 0 pos ws = (pos, False)"
| "scan_word (Suc c) pos ws =
     (if ws ! pos \<noteq> 0 then (pos, True)
      else let pos = (if pos + 1 = length ws then 0 else pos + 1) in if c = 0 then (pos, False) else scan_word c pos ws)"

definition take_bit_of :: "nat \<Rightarrow> 64 word list \<Rightarrow> nat \<times> 64 word list" where
  "take_bit_of pos ws =
     (let bt = LZERO (ws ! pos) in (pos * 64 + bt, ws[pos := ws ! pos XOR push_bit (63 - bt) 1]))"

definition flip_bit_of :: "nat \<Rightarrow> 64 word list \<Rightarrow> 64 word list" where
  "flip_bit_of i ws = ws[i div 64 := ws ! (i div 64) XOR push_bit (63 - i mod 64) 1]"

definition alloc64 :: "fc_heap \<Rightarrow> nat \<times> fc_heap" where
  "alloc64 s =
     (case scan_word (length (state_64 s)) (scan_64 s) (state_64 s) of
        (pos, False) \<Rightarrow> (0, s\<lparr>scan_64 := pos\<rparr>)
      | (pos, True) \<Rightarrow>
          let (i, ws) = take_bit_of pos (state_64 s) in (free_64_data s + i * 64, s\<lparr>scan_64 := pos, state_64 := ws\<rparr>))"

definition alloc32 :: "fc_heap \<Rightarrow> nat \<times> fc_heap" where
  "alloc32 s =
     (case scan_word (length (state_32 s)) (scan_32 s) (state_32 s) of
        (pos, False) \<Rightarrow> alloc64 (s\<lparr>scan_32 := pos\<rparr>)
      | (pos, True) \<Rightarrow>
          let (i, ws) = take_bit_of pos (state_32 s) in (free_32_data s + i * 32, s\<lparr>scan_32 := pos, state_32 := ws\<rparr>))"

definition free32 :: "nat \<Rightarrow> fc_heap \<Rightarrow> bool \<times> fc_heap" where
  "free32 p s =
     (if free_32_data s \<le> p \<and> p < free_32_data s + PAGE_SIZE
      then (True, s\<lparr>state_32 := flip_bit_of ((p - free_32_data s) div 32) (state_32 s)\<rparr>) else (False, s))"

definition free64 :: "nat \<Rightarrow> fc_heap \<Rightarrow> bool \<times> fc_heap" where
  "free64 p s =
     (if free_64_data s \<le> p \<and> p < free_64_data s + PAGE_SIZE
      then (True, s\<lparr>state_64 := flip_bit_of ((p - free_64_data s) div 64) (state_64 s)\<rparr>) else (False, s))"

section \<open>The entry points\<close>

text \<open>The size is a \<open>size_t\<close> of 64 bits; \<open>1 << k\<close> is a shift of an \<open>int\<close>, undefined from 31 on.\<close>

definition fc_malloc :: "nat \<Rightarrow> nat \<Rightarrow> fc_heap \<Rightarrow> (nat \<times> fc_heap) option" where
  "fc_malloc n p s =
     (if n \<le> 64 then Some (if n \<le> 32 then alloc32 s else alloc64 s)
      else do {
        let n = (n + 8) mod 2 ^ 64;
        let n = (if n < 32 then 32 else n);
        check (bsr (n - 1) + 1 < 31);
        let n = 2 ^ (bsr (n - 1) + 1);
        let n = (if n < 24 then 24 else n);
        (h, s) \<leftarrow> heap_alloc n p s;
        b \<leftarrow> blk s h;
        check (Active \<in> flags b);
        Some (h + 8, s)
      })"

definition fc_free :: "nat \<Rightarrow> fc_heap \<Rightarrow> fc_heap option" where
  "fc_free f s =
     (case free32 f s of
        (True, s) \<Rightarrow> Some s
      | (False, s) \<Rightarrow>
          (case free64 f s of (True, s) \<Rightarrow> Some s | (False, s) \<Rightarrow> heap_free (f - 8) s))"

end
