(* ===== verification/FcHeapInv.thy ===== *)
theory FcHeapInv
  imports FcHeap
begin

text \<open>
  The layout of the pages of the fc heap: what the headers of a page say about the list of its blocks, and what
  walking, splitting and merging do to it.
\<close>

lemma PAGE_SIZE_eq [simp]: "PAGE_SIZE = 2097152"
  by (simp add: PAGE_SIZE_def)

lemma int24_id: "- 8388608 \<le> x \<Longrightarrow> x < 8388608 \<Longrightarrow> int24 x = x"
  by (simp add: int24_def)

section \<open>Segments of a page\<close>

text \<open>
  The headers from \<open>p\<close>, entered behind a block of \<open>k\<close> bytes, to \<open>q\<close>, where the last block has \<open>l\<close> bytes, describe blocks
  of the sizes and flags \<open>bs\<close>; \<open>e\<close> is the end of the page.
\<close>

definition header_ok :: "(nat \<rightharpoonup> block_header) \<Rightarrow> nat \<Rightarrow> nat \<Rightarrow> nat \<Rightarrow> nat \<Rightarrow> flag set \<Rightarrow> bool" where
  "header_ok M e p k n f \<longleftrightarrow> 0 < p \<and> 32 \<le> n \<and> 32 dvd n \<and> p + n \<le> e \<and>
     M p = Some \<lparr>prev_size = int k, bsize = (if p + n = e then - int n else int n), flags = f\<rparr>"

fun seg :: "(nat \<rightharpoonup> block_header) \<Rightarrow> nat \<Rightarrow> nat \<Rightarrow> nat \<Rightarrow> (nat \<times> flag set) list \<Rightarrow> nat \<Rightarrow> nat \<Rightarrow> bool" where
  "seg M e p k [] q l \<longleftrightarrow> p = q \<and> k = l"
| "seg M e p k ((n, f) # bs) q l \<longleftrightarrow> header_ok M e p k n f \<and> seg M e (p + n) n bs q l"

definition page_ok :: "(nat \<rightharpoonup> block_header) \<Rightarrow> nat \<Rightarrow> (nat \<times> flag set) list \<Rightarrow> bool" where
  "page_ok M p bs \<longleftrightarrow> (\<exists>l. seg M (p + PAGE_SIZE) p 0 bs (p + PAGE_SIZE) l)"

lemma seg_append: "seg M e p k (us @ vs) q l \<longleftrightarrow> (\<exists>r j. seg M e p k us r j \<and> seg M e r j vs q l)"
proof (induction us arbitrary: p k)
  case (Cons u us)
  then show ?case by (cases u) (simp; blast)
qed simp

lemma seg_le: "seg M e p k bs q l \<Longrightarrow> p \<le> q \<and> (bs \<noteq> [] \<longrightarrow> p + 32 \<le> q \<and> q \<le> e)"
proof (induction bs arbitrary: p k)
  case (Cons b bs)
  obtain n f where b: "b = (n, f)" by (cases b)
  have h: "header_ok M e p k n f" "seg M e (p + n) n bs q l" using Cons.prems b by simp_all
  then have "32 \<le> n" "p + n \<le> e" by (simp_all add: header_ok_def)
  then show ?case using Cons.IH [OF h(2)] h(2) by (cases "bs = []") auto
qed simp

lemma header_cong: "M' p = M p \<Longrightarrow> header_ok M' e p k n f = header_ok M e p k n f"
  by (simp add: header_ok_def)

lemma seg_cong:
  assumes "\<And>x. p \<le> x \<Longrightarrow> x < q \<Longrightarrow> M' x = M x" and "seg M e p k bs q l"
  shows "seg M' e p k bs q l"
  using assms
proof (induction bs arbitrary: p k)
  case (Cons b bs)
  obtain n f where b: "b = (n, f)" by (cases b)
  have h: "header_ok M e p k n f" "seg M e (p + n) n bs q l" using Cons.prems(2) b by simp_all
  have "p < q" using seg_le [OF Cons.prems(2)] by simp
  then have "header_ok M' e p k n f" using h(1) Cons.prems(1) [of p] header_cong [of M' p M e k n f] by simp
  moreover have "seg M' e (p + n) n bs q l" by (rule Cons.IH [OF _ h(2)]) (use Cons.prems(1) \<open>p < q\<close> in auto)
  ultimately show ?case using b by simp
qed simp

text \<open>Only the size before a segment depends on what is before it.\<close>

lemma seg_end: "seg M e p k bs q l \<Longrightarrow> bs \<noteq> [] \<Longrightarrow> l = fst (last bs)"
  by (induction bs arbitrary: p k) (auto split: if_splits)

section \<open>Walking\<close>

lemma header_fields:
  assumes "header_ok M e p k n f"
  shows "\<exists>b. M p = Some b \<and> block_size b = n \<and> flags b = f \<and> prev_size b = int k \<and> bsize b = (if p + n = e then - int n else int n) \<and>
    next_block p b = (if p + n = e then 0 else p + n) \<and> prev_block p b = (if k = 0 then 0 else p - k)"
  using assms by (auto simp: header_ok_def next_block_def prev_block_def block_size_def)

lemma tail_seg:
  assumes "seg M e p k bs e l" and "bs \<noteq> []"
  shows "\<exists>t b. tail_of M p = Some t \<and> M t = Some b \<and> t + block_size b = e \<and> p \<le> t"
  using assms
proof (induction bs arbitrary: p k)
  case (Cons b bs)
  obtain n f where b: "b = (n, f)" by (cases b)
  have h: "header_ok M e p k n f" "seg M e (p + n) n bs e l" using Cons.prems b by simp_all
  obtain c where c: "M p = Some c" "block_size c = n" "next_block p c = (if p + n = e then 0 else p + n)" using header_fields [OF h(1)] by blast
  have pos: "0 < p" using h(1) by (simp add: header_ok_def)
  show ?case
  proof (cases "bs = []")
    case True
    then have "p + n = e" using h(2) by simp
    then show ?thesis using c by (subst tail_of.simps) simp
  next
    case False
    then have ne: "p + n \<noteq> e" using seg_le [OF h(2)] by auto
    obtain t d where "tail_of M (p + n) = Some t" "M t = Some d" "t + block_size d = e" "p + n \<le> t" using Cons.IH [OF h(2) False] by blast
    then show ?thesis using c ne pos by (subst tail_of.simps) simp
  qed
qed simp

lemma head_seg:
  assumes "seg M e p 0 us q k" and "header_ok M e q k n f"
  shows "head_of M q = Some p"
  using assms
proof (induction us arbitrary: q k n f rule: rev_induct)
  case Nil
  obtain c where "M q = Some c" "prev_block q c = (if k = 0 then 0 else q - k)" using header_fields [OF Nil(2)] by blast
  then show ?case using Nil by (subst head_of.simps) simp
next
  case (snoc u us)
  obtain m g where u: "u = (m, g)" by (cases u)
  obtain r j where r: "seg M e p 0 us r j" "header_ok M e r j m g" "r + m = q" "m = k" using snoc.prems(1) by (auto simp: u seg_append)
  obtain c where c: "M q = Some c" "prev_block q c = (if k = 0 then 0 else q - k)" using header_fields [OF snoc.prems(2)] by blast
  have k: "0 < k" "0 < r" using r by (simp_all add: header_ok_def)
  have "prev_block q c = r" using c(2) k r(3,4) by auto
  then show ?case using c(1) k(2) snoc.IH [OF r(1,2)] by (subst head_of.simps) simp
qed

lemma page_size_ok:
  assumes "seg M e p 0 us a k" and "seg M e a k ((n, f) # vs) e l" and "e = p + PAGE_SIZE"
  shows "page_check a M = Some ()"
proof -
  obtain t b where "tail_of M a = Some t" "M t = Some b" "t + block_size b = e" "a \<le> t" using tail_seg [OF assms(2)] by auto
  moreover have "header_ok M e a k n f" using assms(2) by simp
  then have "head_of M a = Some p" by (rule head_seg [OF assms(1)])
  moreover have "p \<le> a" using seg_le [OF assms(1)] by simp
  ultimately show ?thesis using assms(3) by (simp add: page_check_def page_size_def)
qed
section \<open>Splitting and merging\<close>

lemma seg_prev:
  assumes "seg M e q k ((n, f) # vs) e l" and "M q = Some b"
  shows "seg (M(q \<mapsto> prev_size_update (\<lambda>_. int j) b)) e q j ((n, f) # vs) e l"
proof -
  have h: "header_ok M e q k n f" "seg M e (q + n) n vs e l" using assms(1) by simp_all
  then have "header_ok (M(q \<mapsto> prev_size_update (\<lambda>_. int j) b)) e q j n f" using assms(2) by (auto simp: header_ok_def)
  moreover have "seg (M(q \<mapsto> prev_size_update (\<lambda>_. int j) b)) e (q + n) n vs e l"
    by (rule seg_cong [OF _ h(2)]) (use h(1) in \<open>auto simp: header_ok_def\<close>)
  ultimately show ?thesis by simp
qed

lemma block_place:
  assumes "seg M e p 0 us a k" and "header_ok M e a k n f" and "e = p + 2097152"
  shows "p \<le> a" "a + n \<le> p + 2097152" "0 < a" "32 \<le> n" "32 dvd n" "n \<le> 2097152"
  using seg_le [OF assms(1)] assms(2,3) by (auto simp: header_ok_def)

lemma dvd32_not_bad: "32 dvd n \<Longrightarrow> int n \<noteq> 2989 \<and> - int n \<noteq> 2989"
proof -
  assume "32 dvd n"
  then obtain k where "n = 32 * k" by (elim dvdE)
  then show ?thesis by presburger
qed

lemma split_ok:
  assumes us: "seg (blk s) e p 0 us a k" and b: "seg (blk s) e a k ((N, f) # vs) e l" and e: "e = p + 2097152"
    and sz: "32 \<le> sz" "32 dvd sz" "sz + 32 \<le> N" "CHECK_SIZE sz = Some ()"
  shows "\<exists>M l'. split_block sz a s = Some (a + (N - sz), s\<lparr>blk := M\<rparr>) \<and>
    seg M e p 0 us a k \<and> seg M e a k ((N - sz, f) # (sz, {}) # vs) e l' \<and> (\<forall>x. x < p \<or> e \<le> x \<longrightarrow> M x = blk s x)"
proof -
  let ?M0 = "blk s"
  have h: "header_ok ?M0 e a k N f" "seg ?M0 e (a + N) N vs e l" using b by simp_all
  note pl = block_place [OF us h(1) e]
  define B where "B = \<lparr>prev_size = int k, bsize = (if a + N = e then - int N else int N), flags = f\<rparr>"
  have B: "?M0 a = Some B" using h(1) by (simp add: header_ok_def B_def)
  have Bf: "block_size B = N" "next_block a B = (if a + N = e then 0 else a + N)" "bsize B \<noteq> 0xbad" "bsize B < 0 \<longleftrightarrow> a + N = e"
    using pl dvd32_not_bad [OF pl(5)] by (auto simp: B_def block_size_def next_block_def)
  let ?r = "N - sz" and ?t = "a + (N - sz)"
  have r: "32 \<le> ?r" "32 dvd ?r" "?t + sz = a + N" using sz pl(5) by (simp_all add: dvd_diff_nat)
  let ?B' = "B\<lparr>bsize := int ?r\<rparr>"
  let ?C = "\<lparr>prev_size = int ?r, bsize = (if a + N = e then - int sz else int sz), flags = {}\<rparr>"
  have i24: "int24 (int ?r) = int ?r" "int24 (if bsize B < 0 then - int sz else int sz) = (if a + N = e then - int sz else int sz)"
    using pl sz Bf(4) by (simp_all add: int24_id)
  have B'f: "block_size ?B' = ?r" "next_block a ?B' = ?t" "?t \<noteq> 0" "block_size ?C = sz" "prev_block ?t ?C = a"
    "next_block ?t ?C = (if a + N = e then 0 else a + N)"
    using r sz(1) pl by (auto simp: block_size_def next_block_def prev_block_def)
  let ?M1 = "?M0(a \<mapsto> ?B', ?t \<mapsto> ?C)"
  have ne: "?t \<noteq> a" "a + N \<noteq> a" "a + N \<noteq> ?t" using r(1) sz(1) pl by auto
  obtain M l' where M: "relink (if a + N = e then 0 else a + N) (prev_size_update (\<lambda>_. bsize ?C)) ?M1 = Some M"
    "seg M e (a + N) sz vs e l'" "\<And>x. x \<noteq> a + N \<Longrightarrow> M x = ?M1 x" "e \<le> a + N \<Longrightarrow> M = ?M1"
  proof (cases vs)
    case Nil
    then have "a + N = e" using h(2) by simp
    then show ?thesis using that [of ?M1 sz] Nil by simp
  next
    case (Cons v vs')
    obtain m g where v: "v = (m, g)" by (cases v)
    have hv: "header_ok ?M0 e (a + N) N m g" using h(2) Cons v by simp
    then have lt: "a + N < e" by (auto simp: header_ok_def)
    obtain b0 where b0: "?M0 (a + N) = Some b0" using header_fields [OF hv] by blast
    have "seg ?M1 e (a + N) N vs e l" by (rule seg_cong [OF _ h(2)]) (use r sz in auto)
    moreover have "?M1 (a + N) = Some b0" using b0 ne by simp
    ultimately have "seg (?M1(a + N \<mapsto> prev_size_update (\<lambda>_. int sz) b0)) e (a + N) sz vs e l" unfolding Cons v by (rule seg_prev)
    moreover have "relink (if a + N = e then 0 else a + N) (prev_size_update (\<lambda>_. bsize ?C)) ?M1 = Some (?M1(a + N \<mapsto> prev_size_update (\<lambda>_. int sz) b0))"
      using lt ne b0 pl by (simp add: relink_def alter_def)
    ultimately show ?thesis using that lt by auto
  qed
  have Ma: "M a = Some ?B'" "M ?t = Some ?C" using M(3) [of a] M(3) [of ?t] ne by simp_all
  have ha: "header_ok M e a k ?r f" using Ma(1) r sz pl e by (auto simp: header_ok_def B_def)
  have ht: "header_ok M e ?t ?r sz {}" using Ma(2) r sz pl e by (simp add: header_ok_def)
  have out: "M x = ?M0 x" if "x < p \<or> e \<le> x" for x
  proof (cases "x = a + N")
    case True
    then show ?thesis using that pl M(4) ne by auto
  next
    case False
    then show ?thesis using that M(3) [OF False] pl r sz e by auto
  qed
  have us': "seg M e p 0 us a k"
  proof (rule seg_cong [OF _ us])
    fix x assume "p \<le> x" "x < a"
    then show "M x = ?M0 x" using M(3) [of x] by simp
  qed
  have vs': "seg M e a k ((?r, f) # (sz, {}) # vs) e l'" using ha ht M(2) r(3) by simp
  have "page_check a M = Some ()" using page_size_ok [OF us' vs'] e by simp
  moreover have "page_check ?t M = Some ()"
  proof (rule page_size_ok)
    show "seg M e p 0 (us @ [(?r, f)]) ?t ?r" using us' ha by (auto simp: seg_append)
    show "seg M e ?t ?r ((sz, {}) # vs) e l'" using vs' by simp
  qed (use e in simp)
  moreover have "page_check a ?M0 = Some ()" using page_size_ok [OF us b] e by simp
  moreover have "sz \<le> N - 32" using sz(3) by simp
  ultimately have "split_block sz a s = Some (?t, s\<lparr>blk := M\<rparr>)"
    unfolding split_block_def B using sz pl Bf B'f M(1) ne(1) i24 by (simp add: Let_def)
  then show ?thesis using us' vs' out by blast
qed
lemma merge_ok:
  assumes us: "seg (blk s) e p 0 us a k" and b: "seg (blk s) e a k ((n, f) # (m, g) # vs) e l" and e: "e = p + 2097152"
  shows "\<exists>M l'. merge_next a s = Some (a, s\<lparr>blk := M\<rparr>) \<and>
    seg M e p 0 us a k \<and> seg M e a k ((n + m, f) # vs) e l' \<and> (\<forall>x. x < p \<or> e \<le> x \<longrightarrow> M x = blk s x)"
proof -
  let ?M0 = "blk s"
  have h: "header_ok ?M0 e a k n f" "header_ok ?M0 e (a + n) n m g" "seg ?M0 e (a + n + m) m vs e l" using b by simp_all
  note pl = block_place [OF us h(1) e]
  have us1: "seg ?M0 e p 0 (us @ [(n, f)]) (a + n) n" using us h(1) by (auto simp: seg_append)
  note qm = block_place [OF us1 h(2) e]
  have ne: "a + n \<noteq> e" using qm e by simp
  define B where "B = \<lparr>prev_size = int k, bsize = int n, flags = f\<rparr>"
  define C where "C = \<lparr>prev_size = int n, bsize = (if a + n + m = e then - int m else int m), flags = g\<rparr>"
  have B: "?M0 a = Some B" and C: "?M0 (a + n) = Some C" using h(1,2) ne by (simp_all add: header_ok_def B_def C_def)
  have Bf: "block_size B = n" "next_block a B = a + n" "bsize B \<noteq> 0xbad" "bsize B = int n"
    using pl dvd32_not_bad [OF pl(5)] by (auto simp: B_def block_size_def next_block_def)
  have Cf: "block_size C = m" "bsize C \<noteq> 0xbad" "0 < bsize C \<longleftrightarrow> a + n + m \<noteq> e"
    using qm dvd32_not_bad [OF qm(5)] by (auto simp: C_def block_size_def)
  let ?v = "int n + int m" and ?q = "a + n + m"
  have i24: "int24 ?v = ?v" "int24 (- ?v) = - ?v" using pl qm by (simp_all add: int24_id)
  let ?B' = "B\<lparr>bsize := ?v\<rparr>"
  have B'f: "block_size ?B' = n + m" "next_block a ?B' = ?q" using pl by (simp_all add: block_size_def next_block_def)
  have dis: "a + n \<noteq> a" "?q \<noteq> a" "?q \<noteq> a + n" using pl qm by auto
  define B2 where "B2 = (if ?q = e then ?B'\<lparr>bsize := - ?v\<rparr> else ?B')"
  have B2f: "bsize B2 \<noteq> 0" "block_size B2 = n + m" "next_block a B2 = (if ?q = e then 0 else ?q)"
    using pl by (auto simp: B2_def block_size_def next_block_def)
  obtain M1 l' where M1: "(if 0 < bsize C then alter (next_block a ?B') (prev_size_update (\<lambda>_. int (block_size ?B'))) (?M0(a \<mapsto> ?B'))
        else Some (?M0(a \<mapsto> ?B'\<lparr>bsize := int24 (- bsize ?B')\<rparr>))) = Some M1"
    "seg M1 e ?q (n + m) vs e l'" "\<And>x. x \<noteq> ?q \<Longrightarrow> M1 x = (?M0(a \<mapsto> B2)) x" "?q \<noteq> e \<Longrightarrow> \<exists>c. M1 ?q = Some c \<and> prev_size c = int (n + m)"
    "e \<le> ?q \<Longrightarrow> M1 = ?M0(a \<mapsto> B2)"
  proof (cases vs)
    case Nil
    then have "?q = e" using h(3) by simp
    then show ?thesis using that [of "?M0(a \<mapsto> B2)" "n + m"] Nil Cf(3) i24 by (simp add: B2_def)
  next
    case (Cons v vs')
    obtain j w where v: "v = (j, w)" by (cases v)
    have hv: "header_ok ?M0 e ?q m j w" using h(3) Cons v by simp
    then have lt: "?q < e" by (auto simp: header_ok_def)
    obtain b0 where b0: "?M0 ?q = Some b0" using header_fields [OF hv] by blast
    let ?M1 = "?M0(a \<mapsto> B2)"
    have "seg ?M1 e ?q m vs e l" by (rule seg_cong [OF _ h(3)]) (use pl in auto)
    moreover have q0: "?M1 ?q = Some b0" using b0 dis by simp
    ultimately have s1: "seg (?M1(?q \<mapsto> prev_size_update (\<lambda>_. int (n + m)) b0)) e ?q (n + m) vs e l" unfolding Cons v by (rule seg_prev)
    have "B2 = ?B'" using lt by (simp add: B2_def)
    then have al: "alter (next_block a ?B') (prev_size_update (\<lambda>_. int (block_size ?B'))) (?M0(a \<mapsto> ?B')) =
        Some (?M1(?q \<mapsto> prev_size_update (\<lambda>_. int (n + m)) b0))"
      using q0 unfolding B'f alter_def by simp
    have "0 < bsize C" using Cf(3) lt by simp
    then show ?thesis using that [OF _ s1] al lt by simp
  qed
  let ?M2 = "M1(a + n \<mapsto> bsize_update (\<lambda>_. 0xbad) C)"
  have M1c: "M1 (a + n) = Some C" using M1(3) [of "a + n"] dis C by simp
  have al: "alter (a + n) (bsize_update (\<lambda>_. 0xbad)) M1 = Some ?M2" using M1c by (simp add: alter_def)
  have Ma: "?M2 a = Some B2" using M1(3) [of a] dis by simp
  have ha: "header_ok ?M2 e a k (n + m) f"
    using Ma pl qm e by (auto simp: header_ok_def B2_def B_def)
  have s2: "seg ?M2 e ?q (n + m) vs e l'" by (rule seg_cong [OF _ M1(2)]) (use qm in auto)
  have out: "?M2 x = ?M0 x" if "x < p \<or> e \<le> x" for x
  proof (cases "x = ?q")
    case True
    then show ?thesis using that pl qm M1(5) dis e by auto
  next
    case False
    then show ?thesis using that M1(3) [OF False] pl qm e by auto
  qed
  have us': "seg ?M2 e p 0 us a k"
  proof (rule seg_cong [OF _ us])
    fix x assume "p \<le> x" "x < a"
    then show "?M2 x = ?M0 x" using M1(3) [of x] by simp
  qed
  have vs': "seg ?M2 e a k ((n + m, f) # vs) e l'" using ha s2 by (simp add: add.assoc)
  have pc: "page_check a ?M2 = Some ()" using page_size_ok [OF us' vs'] e by simp
  have nx: "\<exists>c. ?M2 ?q = Some c \<and> prev_size c = int (n + m)" if "?q \<noteq> e" using M1(4) [OF that] dis by simp
  let ?fin = "if next_block a B2 \<noteq> 0 then do {
          n' \<leftarrow> ?M2 (next_block a B2);
          check (block_size B2 div 8 = (next_block a B2 - a) div 8 \<and> prev_size n' = int (block_size B2));
          page_check a ?M2
        } else Some ()"
  have fin: "?fin = Some ()"
  proof (cases "?q = e")
    case True
    then show ?thesis using B2f(3) by simp
  next
    case False
    then show ?thesis using B2f nx [OF False] pc pl by auto
  qed
  have "merge_next a s = Some (a, s\<lparr>blk := ?M2\<rparr>)"
    unfolding merge_next_def B using C Bf Cf pl qm B'f M1(1) al Ma B2f fin i24 by (cases "?q = e") (simp_all add: Let_def)
  then show ?thesis using us' vs' out by blast
qed

end
