(* ===== verification/FcHeapOps.thy ===== *)
theory FcHeapOps
  imports FcHeapInv
begin

text \<open>
  The fc heap as a whole: the layouts of all pages and the bins, which list exactly the free blocks; what each
  operation on the queues and \<open>heap_free\<close> do to them. On layouts a release is the function \<open>coalesce\<close>.
\<close>

section \<open>Layouts\<close>

type_synonym layout = "nat \<rightharpoonup> (nat \<times> flag set) list"

fun spots :: "nat \<Rightarrow> (nat \<times> flag set) list \<Rightarrow> (nat \<times> nat \<times> flag set) list" where
  "spots p [] = []"
| "spots p ((n, f) # bs) = (p, n, f) # spots (p + n) bs"

definition layout_ok :: "(nat \<rightharpoonup> block_header) \<Rightarrow> nat set \<Rightarrow> layout \<Rightarrow> bool" where
  "layout_ok M P lay \<longleftrightarrow> P = dom lay \<and> (\<forall>p bs. lay p = Some bs \<longrightarrow> bs \<noteq> [] \<and> page_ok M p bs) \<and>
     (\<forall>p q. p \<in> dom lay \<longrightarrow> q \<in> dom lay \<longrightarrow> p \<noteq> q \<longrightarrow> apart p 2097152 q 2097152)"

definition frees :: "nat \<Rightarrow> (nat \<times> flag set) list \<Rightarrow> (nat \<times> nat) set" where
  "frees p bs = {(a, n). (a, n, {Queued}) \<in> set (spots p bs)}"

definition free_set :: "layout \<Rightarrow> (nat \<times> nat) set" where
  "free_set lay = (\<Union>p \<in> dom lay. frees p (the (lay p)))"

definition bins_ok :: "(nat \<rightharpoonup> queue_state) \<Rightarrow> (nat \<Rightarrow> nat) \<Rightarrow> (nat \<times> nat) set \<Rightarrow> bool" where
  "bins_ok Q h F \<longleftrightarrow> (\<exists>X. \<forall>i. dlist qprev qnext Q (h i) (X i) \<and> distinct (X i) \<and> set (X i) = {a. \<exists>n. (a, n) \<in> F \<and> bsr n = i})"

definition fc_ok :: "fc_heap \<Rightarrow> layout \<Rightarrow> bool" where
  "fc_ok s lay \<longleftrightarrow> layout_ok (blk s) (pages s) lay \<and> bins_ok (qs s) (bins s) (free_set lay)"

lemma layout_okD:
  assumes "layout_ok M P lay"
  shows "P = dom lay" "lay p = Some bs \<Longrightarrow> bs \<noteq> []" "lay p = Some bs \<Longrightarrow> page_ok M p bs"
    "lay p = Some bs \<Longrightarrow> lay q = Some cs \<Longrightarrow> p \<noteq> q \<Longrightarrow> apart p 2097152 q 2097152"
  using assms unfolding layout_ok_def by blast+

definition bytes :: "(nat \<times> flag set) list \<Rightarrow> nat" where
  "bytes bs = sum_list (map fst bs)"

lemma bytes_simps [simp]: "bytes [] = 0" "bytes ((n, f) # bs) = n + bytes bs" "bytes (us @ vs) = bytes us + bytes vs"
  by (simp_all add: bytes_def)

lemma spots_append: "spots p (us @ vs) = spots p us @ spots (p + bytes us) vs"
  by (induction us arbitrary: p) (auto simp: add.assoc)

lemma seg_bytes: "seg M e p k bs q l \<Longrightarrow> q = p + bytes bs"
proof (induction bs arbitrary: p k)
  case (Cons b bs)
  obtain n f where b: "b = (n, f)" by (cases b)
  then have "q = p + n + bytes bs" using Cons.IH [of "p + n" n] Cons.prems by simp
  then show ?case using b by simp
qed simp

lemma spots_split:
  assumes "(a, n, f) \<in> set (spots p bs)"
  obtains us vs where "bs = us @ (n, f) # vs" and "a = p + bytes us"
  using assms
proof (induction bs arbitrary: p thesis)
  case (Cons b bs)
  obtain m g where b: "b = (m, g)" by (cases b)
  show ?case
  proof (cases "(a, n, f) = (p, m, g)")
    case True
    then show ?thesis using Cons.prems(1) [of "[]" bs] b by simp
  next
    case False
    then have "(a, n, f) \<in> set (spots (p + m) bs)" using Cons.prems(2) b False by auto
    then obtain us vs where "bs = us @ (n, f) # vs" "a = p + m + bytes us" using Cons.IH by blast
    then show ?thesis using Cons.prems(1) [of "b # us" vs] b by (simp add: add.assoc)
  qed
qed simp

lemma page_split:
  assumes "page_ok M p (us @ (n, f) # vs)"
  obtains k l where "seg M (p + 2097152) p 0 us (p + bytes us) k" and "seg M (p + 2097152) (p + bytes us) k ((n, f) # vs) (p + 2097152) l"
    and "header_ok M (p + 2097152) (p + bytes us) k n f"
proof -
  obtain l where "seg M (p + 2097152) p 0 (us @ (n, f) # vs) (p + 2097152) l" using assms by (auto simp: page_ok_def)
  then obtain r k where r: "seg M (p + 2097152) p 0 us r k" "seg M (p + 2097152) r k ((n, f) # vs) (p + 2097152) l"
    unfolding seg_append by blast
  have e: "r = p + bytes us" using seg_bytes [OF r(1)] .
  have "header_ok M (p + 2097152) r k n f" using r(2) by simp
  then show ?thesis using that r unfolding e by blast
qed

lemma page_join:
  assumes "seg M (p + 2097152) p 0 us (p + bytes us) k" and "seg M (p + 2097152) (p + bytes us) k bs (p + 2097152) l"
  shows "page_ok M p (us @ bs)"
  unfolding page_ok_def seg_append PAGE_SIZE_eq using assms by blast

lemma page_bytes: "page_ok M p bs \<Longrightarrow> bytes bs = 2097152"
  unfolding page_ok_def using seg_bytes by fastforce

lemma page_start: "page_ok M p bs \<Longrightarrow> bs \<noteq> [] \<Longrightarrow> 0 < p"
  unfolding page_ok_def by (cases bs) (auto simp: header_ok_def)

lemma page_cong: "(\<And>x. p \<le> x \<Longrightarrow> x < p + 2097152 \<Longrightarrow> M' x = M x) \<Longrightarrow> page_ok M p bs \<Longrightarrow> page_ok M' p bs"
  unfolding page_ok_def using seg_cong by (metis PAGE_SIZE_eq)

lemma spot_bounds:
  assumes "page_ok M p bs" and "(a, n, f) \<in> set (spots p bs)"
  shows "p \<le> a" "a + n \<le> p + 2097152" "32 \<le> n" "32 dvd n" "0 < a" "\<exists>b. M a = Some b \<and> flags b = f \<and> block_size b = n"
proof -
  obtain us vs where us: "bs = us @ (n, f) # vs" "a = p + bytes us" using spots_split [OF assms(2)] .
  obtain k l where s: "seg M (p + 2097152) p 0 us (p + bytes us) k" "header_ok M (p + 2097152) (p + bytes us) k n f"
    using page_split [of M p us n f vs] assms(1) us(1) by blast
  show "p \<le> a" "a + n \<le> p + 2097152" "32 \<le> n" "32 dvd n" "0 < a" using block_place [OF s refl] us(2) by simp_all
  show "\<exists>b. M a = Some b \<and> flags b = f \<and> block_size b = n" using header_fields [OF s(2)] us(2) by blast
qed

text \<open>A block is in one place only.\<close>

lemma spots_apart:
  assumes "page_ok M p bs" and "(a, n, f) \<in> set (spots p bs)" and "(b, m, g) \<in> set (spots p bs)" and "(a, n, f) \<noteq> (b, m, g)"
  shows "apart a n b m"
proof -
  obtain us vs where us: "bs = us @ (n, f) # vs" "a = p + bytes us" using spots_split [OF assms(2)] .
  have left: "b + m \<le> q + bytes us" if x: "(b, m, g) \<in> set (spots q us)" for q
  proof -
    obtain xs ys where "us = xs @ (m, g) # ys" "b = q + bytes xs" using spots_split [OF x] .
    then show ?thesis by simp
  qed
  have right: "r \<le> b" if x: "(b, m, g) \<in> set (spots r vs)" for r
  proof -
    obtain xs ys where "vs = xs @ (m, g) # ys" "b = r + bytes xs" using spots_split [OF x] .
    then show ?thesis by simp
  qed
  have "set (spots p bs) = set (spots p us) \<union> {(a, n, f)} \<union> set (spots (a + n) vs)" using us by (auto simp: spots_append)
  then show ?thesis using assms(3,4) left [of p] right [of "a + n"] us(2) by (auto simp: apart_def)
qed
lemma free_set_iff: "(a, n) \<in> free_set lay \<longleftrightarrow> (\<exists>p bs. lay p = Some bs \<and> (a, n, {Queued}) \<in> set (spots p bs))"
proof
  assume "(a, n) \<in> free_set lay"
  then obtain p where p: "p \<in> dom lay" "(a, n, {Queued}) \<in> set (spots p (the (lay p)))" by (auto simp: free_set_def frees_def)
  then obtain bs where "lay p = Some bs" by blast
  then show "\<exists>p bs. lay p = Some bs \<and> (a, n, {Queued}) \<in> set (spots p bs)" using p(2) by auto
next
  assume "\<exists>p bs. lay p = Some bs \<and> (a, n, {Queued}) \<in> set (spots p bs)"
  then obtain p bs where "lay p = Some bs" "(a, n, {Queued}) \<in> set (spots p bs)" by blast
  then show "(a, n) \<in> free_set lay" unfolding free_set_def frees_def by (intro UN_I [of p]) auto
qed

lemma free_set_upd: "free_set (lay(p \<mapsto> bs)) = frees p bs \<union> free_set (lay(p := None))"
  by (auto simp: free_set_def dom_def split: if_splits)

lemma free_set_same: "lay p = Some bs \<Longrightarrow> free_set lay = frees p bs \<union> free_set (lay(p := None))"
  using free_set_upd [of lay p bs] by (simp add: fun_upd_idem)

lemma frees_append: "frees p (us @ vs) = frees p us \<union> frees (p + bytes us) vs"
  by (auto simp: frees_def spots_append)

lemma frees_Cons: "frees p ((n, f) # bs) = (if f = {Queued} then insert (p, n) (frees (p + n) bs) else frees (p + n) bs)"
  by (auto simp: frees_def)

lemma frees_Nil [simp]: "frees p [] = {}"
  by (simp add: frees_def)

lemma block_unique:
  assumes ok: "layout_ok M P lay" and a: "lay p = Some bs" "(a, n, f) \<in> set (spots p bs)" and b: "lay q = Some cs" "(a, m, g) \<in> set (spots q cs)"
  shows "p = q \<and> n = m \<and> f = g"
proof -
  note A = spot_bounds [OF layout_okD(3) [OF ok a(1)] a(2)] and B = spot_bounds [OF layout_okD(3) [OF ok b(1)] b(2)]
  have pq: "p = q"
  proof (rule ccontr)
    assume "p \<noteq> q"
    then have "apart p 2097152 q 2097152" using layout_okD(4) [OF ok a(1) b(1)] by blast
    then show False using A(1-3) B(1-3) by (auto simp: apart_def)
  qed
  then have b': "(a, m, g) \<in> set (spots p bs)" using a(1) b by simp
  show ?thesis
  proof (rule ccontr)
    assume "\<not> ?thesis"
    then have "apart a n a m" using spots_apart [OF layout_okD(3) [OF ok a(1)] a(2) b'] pq by auto
    then show False using A(3) B(3) by (simp add: apart_def)
  qed
qed

text \<open>Changes within one page.\<close>

lemma layout_update:
  assumes ok: "layout_ok M P lay" and p: "lay p = Some bs" and cs: "page_ok M' p cs" "cs \<noteq> []"
    and out: "\<And>x. x < p \<or> p + 2097152 \<le> x \<Longrightarrow> M' x = M x"
  shows "layout_ok M' P (lay(p \<mapsto> cs))"
  unfolding layout_ok_def
proof (intro conjI allI impI)
  show "P = dom (lay(p \<mapsto> cs))" using layout_okD(1) [OF ok] p by auto
next
  fix q ds assume q: "(lay(p \<mapsto> cs)) q = Some ds"
  show "ds \<noteq> []" using q cs(2) layout_okD(2) [OF ok] by (auto split: if_splits)
  show "page_ok M' q ds"
  proof (cases "q = p")
    case True
    then show ?thesis using q cs by simp
  next
    case False
    then have q': "lay q = Some ds" using q by simp
    then have "apart p 2097152 q 2097152" using layout_okD(4) [OF ok p q'] False by blast
    then show ?thesis by (intro page_cong [OF _ layout_okD(3) [OF ok q']] out) (auto simp: apart_def)
  qed
next
  fix q r assume "q \<in> dom (lay(p \<mapsto> cs))" "r \<in> dom (lay(p \<mapsto> cs))" "q \<noteq> r"
  then show "apart q 2097152 r 2097152" using layout_okD(4) [OF ok] p by (auto split: if_splits)
qed

lemma flags_page:
  assumes "page_ok M p (us @ (n, f) # vs)" and "M (p + bytes us) = Some b"
  shows "page_ok (M(p + bytes us \<mapsto> flags_update (\<lambda>_. g) b)) p (us @ (n, g) # vs)"
proof -
  let ?a = "p + bytes us" and ?e = "p + 2097152"
  obtain k l where s: "seg M ?e p 0 us ?a k" "seg M ?e ?a k ((n, f) # vs) ?e l" "header_ok M ?e ?a k n f" using page_split [OF assms(1)] .
  let ?M = "M(?a \<mapsto> flags_update (\<lambda>_. g) b)"
  have "header_ok ?M ?e ?a k n g" using s(3) assms(2) by (auto simp: header_ok_def)
  moreover have "seg ?M ?e (?a + n) n vs ?e l" by (rule seg_cong [where M = M]) (use s(2,3) in \<open>auto simp: header_ok_def\<close>)
  ultimately have "seg ?M ?e ?a k ((n, g) # vs) ?e l" by simp
  moreover have "seg ?M ?e p 0 us ?a k" by (rule seg_cong [OF _ s(1)]) auto
  ultimately show ?thesis by (rule page_join [rotated])
qed

lemma flags_layout:
  assumes ok: "layout_ok M P lay" and p: "lay p = Some (us @ (n, f) # vs)"
  shows "\<exists>b. M (p + bytes us) = Some b \<and> flags b = f \<and> block_size b = n \<and>
    layout_ok (M(p + bytes us \<mapsto> flags_update (\<lambda>_. g) b)) P (lay(p \<mapsto> us @ (n, g) # vs))"
proof -
  have "(p + bytes us, n, f) \<in> set (spots p (us @ (n, f) # vs))" by (simp add: spots_append)
  note sp = spot_bounds [OF layout_okD(3) [OF ok p] this]
  obtain b where b: "M (p + bytes us) = Some b" "flags b = f" "block_size b = n" using sp(6) by blast
  have "layout_ok (M(p + bytes us \<mapsto> flags_update (\<lambda>_. g) b)) P (lay(p \<mapsto> us @ (n, g) # vs))"
    by (rule layout_update [OF ok p flags_page [OF layout_okD(3) [OF ok p] b(1)]]) (use sp in auto)
  then show ?thesis using b by blast
qed

section \<open>Bins\<close>

interpretation fq: dnode qprev qnext "\<lambda>v. qprev_update (\<lambda>_. v)" "\<lambda>v. qnext_update (\<lambda>_. v)"
  by unfold_locales simp_all

definition single :: "(nat \<times> nat) set \<Rightarrow> bool" where
  "single F \<longleftrightarrow> (\<forall>a n m. (a, n) \<in> F \<longrightarrow> (a, m) \<in> F \<longrightarrow> n = m) \<and> (\<forall>a n. (a, n) \<in> F \<longrightarrow> 0 < a)"

lemma single_free: "layout_ok M P lay \<Longrightarrow> single (free_set lay)"
  unfolding single_def
proof (intro conjI allI impI)
  fix a n m assume ok: "layout_ok M P lay" and "(a, n) \<in> free_set lay" "(a, m) \<in> free_set lay"
  then obtain p bs q cs where "lay p = Some bs" "(a, n, {Queued}) \<in> set (spots p bs)" "lay q = Some cs" "(a, m, {Queued}) \<in> set (spots q cs)"
    unfolding free_set_iff by blast
  then show "n = m" using block_unique [OF ok] by blast
next
  fix a n assume ok: "layout_ok M P lay" and "(a, n) \<in> free_set lay"
  then obtain p bs where "lay p = Some bs" "(a, n, {Queued}) \<in> set (spots p bs)" unfolding free_set_iff by blast
  then show "0 < a" using spot_bounds(5) [OF layout_okD(3) [OF ok]] by blast
qed

text \<open>Two changes of links at different nodes commute.\<close>

lemma relink_swap:
  assumes "relink x f M = Some A" and "relink y g A = Some B" and "x \<noteq> y \<or> x = 0"
  shows "\<exists>C. relink y g M = Some C \<and> relink x f C = Some B"
proof (cases "x = 0 \<or> y = 0")
  case True
  then show ?thesis using assms(1,2) by (auto simp: relink_def)
next
  case False
  then obtain r where r: "M x = Some r" "A = M(x \<mapsto> f r)" using assms(1) by (auto simp: relink_def alter_def split: option.splits)
  obtain t where t: "M y = Some t" "B = A(y \<mapsto> g t)" using assms(2,3) r False by (auto simp: relink_def alter_def split: option.splits)
  have "relink y g M = Some (M(y \<mapsto> g t))" "relink x f (M(y \<mapsto> g t)) = Some B"
    using r t False assms(3) by (simp_all add: relink_def alter_def fun_upd_twist)
  then show ?thesis by blast
qed

lemma bins_disjoint:
  assumes F: "single F" and X: "\<And>j. set (X j) = {a. \<exists>n. (a, n) \<in> F \<and> bsr n = j}" and y: "y \<in> set (X i)" "y \<in> set (X j)"
  shows "i = j"
proof -
  obtain n m where "(y, n) \<in> F" "bsr n = i" "(y, m) \<in> F" "bsr m = j" using y X [of i] X [of j] by auto
  moreover from this have "n = m" using F unfolding single_def by blast
  ultimately show ?thesis by simp
qed

lemma bins_push:
  assumes ok: "bins_ok Q h F" and F: "single F" and new: "\<And>m. (a, m) \<notin> F" "0 < a" and Q: "Q a = Some \<lparr>qnext = 0, qprev = 0\<rparr>" and i: "bsr n = i"
  shows "\<exists>Q'. do { Q \<leftarrow> alter a (qnext_update (\<lambda>_. h i)) Q; relink (h i) (qprev_update (\<lambda>_. a)) Q } = Some Q' \<and>
    bins_ok Q' (h(i := a)) (insert (a, n) F)"
proof -
  obtain X where X: "\<And>j. dlist qprev qnext Q (h j) (X j)" "\<And>j. distinct (X j)" "\<And>j. set (X j) = {a. \<exists>n. (a, n) \<in> F \<and> bsr n = j}"
    using ok unfolding bins_ok_def by blast
  have nX: "a \<notin> set (X j)" for j using X(3) new(1) by auto
  let ?r = "\<lparr>qnext = h i, qprev = 0\<rparr>" and ?Q = "Q(a \<mapsto> \<lparr>qnext = h i, qprev = 0\<rparr>)"
  have d: "dlist qprev qnext ?Q (h j) (X j)" for j using X(1) nX by (subst dlist_cong [where M = Q]) auto
  have pr: "a \<noteq> 0" "?Q a = Some ?r" "qprev ?r = 0" "qnext ?r = h i" using new(2) by simp_all
  obtain Q' where Q': "relink (h i) (qprev_update (\<lambda>_. a)) ?Q = Some Q'" "dlist qprev qnext Q' a (a # X i)" "\<And>y. y \<notin> set (X i) \<Longrightarrow> Q' y = ?Q y"
    by (rule fq.push_front [OF d [of i] X(2) [of i] nX [of i] pr]) blast
  have "dlist qprev qnext Q' ((h(i := a)) j) ((X(i := a # X i)) j)" for j
  proof (cases "j = i")
    case True
    then show ?thesis using Q'(2) by simp
  next
    case False
    have "Q' y = ?Q y" if y: "y \<in> set (X j)" for y
    proof (rule Q'(3))
      show "y \<notin> set (X i)" using bins_disjoint [OF F X(3) _ y] False by blast
    qed
    then show ?thesis using False d by (simp, subst dlist_cong [where M = ?Q]) auto
  qed
  moreover have "set ((X(i := a # X i)) j) = {b. \<exists>m. (b, m) \<in> insert (a, n) F \<and> bsr m = j}" for j using X(3) i by auto
  moreover have "distinct ((X(i := a # X i)) j)" for j using X(2) nX by simp
  ultimately have "bins_ok Q' (h(i := a)) (insert (a, n) F)" unfolding bins_ok_def by blast
  then show ?thesis using Q'(1) Q by (simp add: alter_def)
qed

text \<open>A block leaves its bin, as head or from inside.\<close>

lemma bins_remove:
  assumes ok: "bins_ok Q h F" and F: "single F" and a: "(a, n) \<in> F" and i: "bsr n = i"
  shows "\<exists>r Q'. Q a = Some r \<and> bins_ok Q' (if h i = a then h(i := qnext r) else h) (F - {(a, n)}) \<and>
    (if h i = a then relink (qnext r) (qprev_update (\<lambda>_. 0)) Q = Some Q'
     else do { Q \<leftarrow> relink (qprev r) (qnext_update (\<lambda>_. qnext r)) Q; relink (qnext r) (qprev_update (\<lambda>_. qprev r)) Q } = Some Q')"
proof -
  obtain X where X: "\<And>j. dlist qprev qnext Q (h j) (X j)" "\<And>j. distinct (X j)" "\<And>j. set (X j) = {a. \<exists>n. (a, n) \<in> F \<and> bsr n = j}"
    using ok unfolding bins_ok_def by blast
  have "a \<in> set (X i)" using X(3) a i by auto
  then obtain us vs where us: "X i = us @ a # vs" by (auto simp: in_set_conv_decomp)
  obtain r where r: "Q a = Some r" using dlist_Some [OF X(1) [of i], of a] us by auto
  obtain Q1 Q' where q: "relink (qnext r) (qprev_update (\<lambda>_. qprev r)) Q = Some Q1" "relink (qprev r) (qnext_update (\<lambda>_. qnext r)) Q1 = Some Q'"
    "dlist qprev qnext Q' (if qprev r \<noteq> 0 then h i else qnext r) (us @ vs)" "\<And>y. y \<notin> set us \<union> set vs \<Longrightarrow> Q' y = Q y"
    by (rule fq.unlink [OF X(1) [of i, unfolded us] X(2) [of i, unfolded us] r]) blast
  obtain m k q where s: "dseg qprev qnext Q 0 (h i) us m k" "dseg qprev qnext Q a (qnext r) vs q 0" "qprev r = m"
    using X(1) [of i] r unfolding us dlist_dseg dseg_append by auto
  have pm: "m \<noteq> 0 \<longleftrightarrow> us \<noteq> []" "m \<noteq> 0 \<Longrightarrow> m \<in> set us" using dseg_last [OF s(1)] dseg_Some [OF s(1)] by (auto split: if_splits)
  have nv: "qnext r \<noteq> 0 \<Longrightarrow> qnext r \<in> set vs" using s(2) by (cases vs) auto
  have hd: "h i = a \<longleftrightarrow> us = []"
    using dlist_head [OF X(1) [of i]] X(2) [of i] us by (cases us) auto
  have dis: "qnext r \<noteq> qprev r \<or> qnext r = 0" using pm nv s(3) X(2) [of i] us by auto
  have lists: "bins_ok Q' (if h i = a then h(i := qnext r) else h) (F - {(a, n)})"
    unfolding bins_ok_def
  proof (intro exI [of _ "X(i := us @ vs)"] allI conjI)
    fix j
    show "dlist qprev qnext Q' ((if h i = a then h(i := qnext r) else h) j) ((X(i := us @ vs)) j)"
    proof (cases "j = i")
      case True
      then show ?thesis using q(3) hd pm s(3) by (auto split: if_splits)
    next
      case False
      have "Q' y = Q y" if y: "y \<in> set (X j)" for y
        using bins_disjoint [OF F X(3) _ y, of i] False us by (intro q(4)) auto
      then have "dlist qprev qnext Q' (h j) (X j)" using X(1) [of j] by (subst dlist_cong [where M = Q]) auto
      then show ?thesis using False by simp
    qed
    show "distinct ((X(i := us @ vs)) j)" using X(2) [of j] X(2) [of i] us by auto
    have one: "(a, m) \<in> F \<Longrightarrow> m = n" for m using F a unfolding single_def by blast
    show "set ((X(i := us @ vs)) j) = {b. \<exists>m. (b, m) \<in> F - {(a, n)} \<and> bsr m = j}"
    proof (cases "j = i")
      case True
      have "set (us @ vs) = set (X i) - {a}" using us X(2) [of i] by auto
      then show ?thesis using True X(3) [of i] one i by auto
    next
      case False
      then show ?thesis using X(3) [of j] i by auto
    qed
  qed
  show ?thesis
  proof (cases "h i = a")
    case True
    then have "qprev r = 0" using hd pm s(3) by simp
    then show ?thesis using r q(1,2) lists True by auto
  next
    case False
    obtain C where "relink (qprev r) (qnext_update (\<lambda>_. qnext r)) Q = Some C" "relink (qnext r) (qprev_update (\<lambda>_. qprev r)) C = Some Q'"
      using relink_swap [OF q(1,2) dis] by blast
    then show ?thesis using r lists False by auto
  qed
qed
section \<open>One block of a page\<close>

definition rest_free :: "layout \<Rightarrow> nat \<Rightarrow> (nat \<times> flag set) list \<Rightarrow> nat \<Rightarrow> (nat \<times> flag set) list \<Rightarrow> (nat \<times> nat) set" where
  "rest_free lay p us n vs = frees p us \<union> frees (p + bytes us + n) vs \<union> free_set (lay(p := None))"

lemma free_set_put: "free_set (lay(p \<mapsto> us @ (n, f) # vs)) = rest_free lay p us n vs \<union> (if f = {Queued} then {(p + bytes us, n)} else {})"
  unfolding free_set_upd rest_free_def frees_append frees_Cons by auto

lemma free_set_at: "lay p = Some (us @ (n, f) # vs) \<Longrightarrow> free_set lay = rest_free lay p us n vs \<union> (if f = {Queued} then {(p + bytes us, n)} else {})"
  using free_set_put [of lay p us n f vs] by (simp add: fun_upd_idem)

lemma spots_before: "(b, m, g) \<in> set (spots p us) \<Longrightarrow> b + m \<le> p + bytes us"
  by (erule spots_split) simp

lemma spots_after: "(b, m, g) \<in> set (spots p us) \<Longrightarrow> p \<le> b"
  by (erule spots_split) simp

lemma rest_free_other:
  assumes ok: "layout_ok M P lay" and p: "lay p = Some (us @ (n, f) # vs)"
  shows "(p + bytes us, m) \<notin> rest_free lay p us n vs"
proof
  let ?a = "p + bytes us" and ?bs = "us @ (n, f) # vs"
  assume m: "(?a, m) \<in> rest_free lay p us n vs"
  note pg = layout_okD(3) [OF ok p]
  have here: "(?a, n, f) \<in> set (spots p ?bs)" by (simp add: spots_append)
  note A = spot_bounds [OF pg here]
  consider "(?a, m, {Queued}) \<in> set (spots p us)" | "(?a, m, {Queued}) \<in> set (spots (?a + n) vs)" | "(?a, m) \<in> free_set (lay(p := None))"
    using m unfolding rest_free_def frees_def by blast
  then show False
  proof cases
    case 1
    then have "(?a, m, {Queued}) \<in> set (spots p ?bs)" by (simp add: spots_append)
    then have "32 \<le> m" using spot_bounds(3) [OF pg] by blast
    then show False using spots_before [OF 1] by simp
  next
    case 2
    then show False using spots_after [OF 2] A(3) by simp
  next
    case 3
    then obtain q cs where q: "(lay(p := None)) q = Some cs" "(?a, m, {Queued}) \<in> set (spots q cs)" unfolding free_set_iff by blast
    then have "lay q = Some cs" "q \<noteq> p" by (auto split: if_splits)
    then show False using block_unique [OF ok p here _ q(2)] by blast
  qed
qed

definition small :: "fc_heap \<Rightarrow> nat \<times> nat \<times> nat \<times> nat \<times> 64 word list \<times> 64 word list" where
  "small s = (free_32_data s, free_64_data s, scan_32 s, scan_64 s, state_32 s, state_64 s)"

lemma small_simps [simp]: "small (s\<lparr>blk := M\<rparr>) = small s" "small (s\<lparr>qs := Q\<rparr>) = small s" "small (s\<lparr>pages := P\<rparr>) = small s" "small (s\<lparr>bins := h\<rparr>) = small s"
  by (simp_all add: small_def)

lemma fc_okD: "fc_ok s lay \<Longrightarrow> layout_ok (blk s) (pages s) lay" "fc_ok s lay \<Longrightarrow> bins_ok (qs s) (bins s) (free_set lay)"
  by (simp_all add: fc_ok_def)

text \<open>A change of flags that leaves the block out of the bins.\<close>

lemma set_flags_ok:
  assumes ok: "fc_ok s lay" and p: "lay p = Some (us @ (n, f) # vs)" and f: "f \<noteq> {Queued}" "u f \<noteq> {Queued}"
  shows "\<exists>M. alter (p + bytes us) (flags_update u) (blk s) = Some M \<and> fc_ok (s\<lparr>blk := M\<rparr>) (lay(p \<mapsto> us @ (n, u f) # vs))"
proof -
  obtain b where b: "blk s (p + bytes us) = Some b" "flags b = f"
    "layout_ok ((blk s)(p + bytes us \<mapsto> flags_update (\<lambda>_. u f) b)) (pages s) (lay(p \<mapsto> us @ (n, u f) # vs))"
    using flags_layout [OF fc_okD(1) [OF ok] p, of "u f"] by blast
  have "flags_update u b = flags_update (\<lambda>_. u f) b" using b(2) by (cases b) simp
  then have "alter (p + bytes us) (flags_update u) (blk s) = Some ((blk s)(p + bytes us \<mapsto> flags_update (\<lambda>_. u f) b))" using b(1) by (simp add: alter_def)
  moreover have "free_set (lay(p \<mapsto> us @ (n, u f) # vs)) = free_set lay" using f free_set_put [of lay p us n "u f" vs] free_set_at [of lay p us n f vs, OF p] by simp
  ultimately show ?thesis using b(3) fc_okD(2) [OF ok] by (simp add: fc_ok_def)
qed

lemma set_active_ok:
  assumes ok: "fc_ok s lay" and p: "lay p = Some (us @ (n, f) # vs)" and f: "f \<in> {{}, {Active}}"
  shows "\<exists>t. set_active v (p + bytes us) s = Some t \<and> fc_ok t (lay(p \<mapsto> us @ (n, if v then {Active} else {}) # vs)) \<and> small t = small s"
proof -
  let ?u = "\<lambda>f. if v then insert Active f else f - {Active}"
  have u: "?u f = (if v then {Active} else {})" "f \<noteq> {Queued}" "?u f \<noteq> {Queued}" using f by auto
  show ?thesis using set_flags_ok [where u = ?u, OF ok p u(2,3)] u(1) by (auto simp: set_active_def)
qed

text \<open>A free block leaves its bin.\<close>

lemma unqueue_ok:
  assumes ok: "fc_ok s lay" and p: "lay p = Some (us @ (n, {Queued}) # vs)"
  shows "\<exists>t. unqueue (p + bytes us) s = Some t \<and> fc_ok t (lay(p \<mapsto> us @ (n, {}) # vs)) \<and> small t = small s"
proof -
  let ?a = "p + bytes us" and ?lay = "lay(p \<mapsto> us @ (n, {}) # vs)"
  note L = fc_okD(1) [OF ok]
  obtain b where b: "blk s ?a = Some b" "flags b = {Queued}" "block_size b = n"
    "layout_ok ((blk s)(?a \<mapsto> flags_update (\<lambda>_. {}) b)) (pages s) ?lay"
    using flags_layout [OF L p, of "{}"] by blast
  have fs: "free_set lay = insert (?a, n) (rest_free lay p us n vs)" "free_set ?lay = rest_free lay p us n vs"
    using free_set_at [of lay p us n "{Queued}" vs, OF p] free_set_put [of lay p us n "{}" vs] by simp_all
  then have F: "free_set lay - {(?a, n)} = free_set ?lay" using rest_free_other [OF L p] by auto
  obtain r Q' where r: "qs s ?a = Some r" "bins_ok Q' (if bins s (bsr n) = ?a then (bins s)(bsr n := qnext r) else bins s) (free_set ?lay)"
    "if bins s (bsr n) = ?a then relink (qnext r) (qprev_update (\<lambda>_. 0)) (qs s) = Some Q'
     else do { Q \<leftarrow> relink (qprev r) (qnext_update (\<lambda>_. qnext r)) (qs s); relink (qnext r) (qprev_update (\<lambda>_. qprev r)) Q } = Some Q'"
    using bins_remove [OF fc_okD(2) [OF ok] single_free [OF L], of ?a n "bsr n"] fs(1) F by auto
  have fl: "flags_update (\<lambda>f. f - {Queued}) b = flags_update (\<lambda>_. {}) b" using b(2) by (cases b) simp
  let ?t = "s\<lparr>blk := (blk s)(?a \<mapsto> flags_update (\<lambda>_. {}) b), qs := Q', bins := (if bins s (bsr n) = ?a then (bins s)(bsr n := qnext r) else bins s)\<rparr>"
  have "0 < ?a" using spot_bounds(5) [OF layout_okD(3) [OF L p], of ?a n "{Queued}"] by (simp add: spots_append)
  then have "unqueue ?a s = Some ?t"
    using b(1,3) r(1,3) fl by (auto simp: unqueue_def pop_def dequeue_def set_queued_def alter_def split: bind_splits if_splits)
  moreover have "fc_ok ?t ?lay" using b(4) r(2) by (simp add: fc_ok_def)
  ultimately show ?thesis by auto
qed

text \<open>A block joins its bin.\<close>

lemma enqueue_ok:
  assumes ok: "fc_ok s lay" and p: "lay p = Some (us @ (n, {}) # vs)"
  shows "\<exists>t. do { s \<leftarrow> set_queued True (p + bytes us) s; push (bsr n) (p + bytes us) s } = Some t \<and>
    fc_ok t (lay(p \<mapsto> us @ (n, {Queued}) # vs)) \<and> small t = small s"
proof -
  let ?a = "p + bytes us" and ?lay = "lay(p \<mapsto> us @ (n, {Queued}) # vs)"
  note L = fc_okD(1) [OF ok]
  obtain b where b: "blk s ?a = Some b" "flags b = {}" "layout_ok ((blk s)(?a \<mapsto> flags_update (\<lambda>_. {Queued}) b)) (pages s) ?lay"
    using flags_layout [OF L p, of "{Queued}"] by blast
  have a0: "0 < ?a" using spot_bounds(5) [OF layout_okD(3) [OF L p], of ?a n "{}"] by (simp add: spots_append)
  have fs: "free_set lay = rest_free lay p us n vs" "free_set ?lay = insert (?a, n) (rest_free lay p us n vs)"
    using free_set_at [of lay p us n "{}" vs, OF p] free_set_put [of lay p us n "{Queued}" vs] by simp_all
  let ?Q = "(qs s)(?a \<mapsto> \<lparr>qnext = 0, qprev = 0\<rparr>)"
  have nf: "(?a, m) \<notin> free_set lay" for m using rest_free_other [OF L p] fs(1) by simp
  have "bins_ok ?Q (bins s) (free_set lay)"
  proof -
    obtain X where X: "\<And>j. dlist qprev qnext (qs s) (bins s j) (X j)" "\<And>j. distinct (X j)" "\<And>j. set (X j) = {a. \<exists>n. (a, n) \<in> free_set lay \<and> bsr n = j}"
      using fc_okD(2) [OF ok] unfolding bins_ok_def by blast
    have "dlist qprev qnext ?Q (bins s j) (X j)" for j
      using X(1) [of j] X(3) [of j] nf by (subst dlist_cong [where M = "qs s"]) auto
    then show ?thesis using X(2,3) unfolding bins_ok_def by blast
  qed
  then obtain Q' where Q': "do { Q \<leftarrow> alter ?a (qnext_update (\<lambda>_. bins s (bsr n))) ?Q; relink (bins s (bsr n)) (qprev_update (\<lambda>_. ?a)) Q } = Some Q'"
    "bins_ok Q' ((bins s)(bsr n := ?a)) (free_set ?lay)"
    using bins_push [OF _ single_free [OF L] nf a0, of ?Q "bins s" n "bsr n"] unfolding fs by auto
  have fl: "flags_update (insert Queued) b = flags_update (\<lambda>_. {Queued}) b" using b(2) by (cases b) simp
  let ?t = "s\<lparr>blk := (blk s)(?a \<mapsto> flags_update (\<lambda>_. {Queued}) b), qs := Q', bins := (bins s)(bsr n := ?a)\<rparr>"
  have "do { s \<leftarrow> set_queued True ?a s; push (bsr n) ?a s } = Some ?t"
    using b(1) Q'(1) fl by (auto simp: set_queued_def push_def alter_def split: bind_splits)
  moreover have "fc_ok ?t ?lay" using b(3) Q'(2) by (simp add: fc_ok_def)
  ultimately show ?thesis by auto
qed
section \<open>Release\<close>

lemma merge_layout:
  assumes ok: "fc_ok s lay" and p: "lay p = Some (us @ (n, f) # (m, g) # vs)" and f: "f \<noteq> {Queued}" "g \<noteq> {Queued}"
  shows "\<exists>t. merge_next (p + bytes us) s = Some (p + bytes us, t) \<and> fc_ok t (lay(p \<mapsto> us @ (n + m, f) # vs)) \<and> small t = small s"
proof -
  let ?a = "p + bytes us" and ?e = "p + 2097152" and ?lay = "lay(p \<mapsto> us @ (n + m, f) # vs)"
  note L = fc_okD(1) [OF ok]
  obtain k l where s: "seg (blk s) ?e p 0 us ?a k" "seg (blk s) ?e ?a k ((n, f) # (m, g) # vs) ?e l"
    by (rule page_split [OF layout_okD(3) [OF L p]])
  obtain M l' where M: "merge_next ?a s = Some (?a, s\<lparr>blk := M\<rparr>)" "seg M ?e p 0 us ?a k" "seg M ?e ?a k ((n + m, f) # vs) ?e l'"
    "\<And>x. x < p \<or> ?e \<le> x \<Longrightarrow> M x = blk s x"
    using merge_ok [OF s refl] by blast
  have "layout_ok M (pages s) ?lay" by (rule layout_update [OF L p page_join [OF M(2,3)] _ M(4)]) simp_all
  moreover have "free_set ?lay = free_set lay"
    using f free_set_put [of lay p us "n + m" f vs] free_set_at [of lay p us n f "(m, g) # vs", OF p]
    by (simp add: rest_free_def frees_Cons add.assoc)
  ultimately show ?thesis using M(1) fc_okD(2) [OF ok] by (simp add: fc_ok_def)
qed

definition flags_ok :: "(nat \<times> flag set) list \<Rightarrow> bool" where
  "flags_ok bs \<longleftrightarrow> (\<forall>(n, f) \<in> set bs. f \<in> {{}, {Active}, {Queued}})"

lemma flags_ok_simps [simp]: "flags_ok []" "flags_ok ((n, f) # bs) \<longleftrightarrow> f \<in> {{}, {Active}, {Queued}} \<and> flags_ok bs"
  "flags_ok (us @ vs) \<longleftrightarrow> flags_ok us \<and> flags_ok vs"
  by (auto simp: flags_ok_def)

lemma block_at:
  assumes ok: "fc_ok s lay" and p: "lay p = Some (us @ (n, f) # vs)"
  shows "\<exists>b. blk s (p + bytes us) = Some b \<and> flags b = f \<and> block_size b = n \<and> bsize b \<noteq> 0 \<and> bsize b \<noteq> 0xbad \<and>
    next_block (p + bytes us) b = (if vs = [] then 0 else p + bytes us + n) \<and>
    prev_block (p + bytes us) b = (if us = [] then 0 else p + bytes (butlast us)) \<and> 0 < p + bytes us \<and> 32 \<le> n \<and> 32 dvd n \<and> 0 < p"
proof -
  let ?a = "p + bytes us" and ?e = "p + 2097152"
  note pg = layout_okD(3) [OF fc_okD(1) [OF ok] p]
  obtain k l where s: "seg (blk s) ?e p 0 us ?a k" "seg (blk s) ?e ?a k ((n, f) # vs) ?e l" "header_ok (blk s) ?e ?a k n f"
    by (rule page_split [OF pg])
  obtain b where b: "blk s ?a = Some b" "block_size b = n" "flags b = f" "bsize b = (if ?a + n = ?e then - int n else int n)"
    "next_block ?a b = (if ?a + n = ?e then 0 else ?a + n)" "prev_block ?a b = (if k = 0 then 0 else ?a - k)" using header_fields [OF s(3)] by blast
  note pl = block_place [OF s(1,3) refl]
  have "?a + n = ?e \<longleftrightarrow> vs = []" using s(2) seg_le [of "blk s" ?e "?a + n" n vs ?e l] by auto
  moreover have "prev_block ?a b = (if us = [] then 0 else p + bytes (butlast us))"
  proof (cases us rule: rev_exhaust)
    case Nil
    then show ?thesis using s(1) b(6) by simp
  next
    case (snoc ws w)
    obtain m g where w: "w = (m, g)" by (cases w)
    obtain r j where r: "header_ok (blk s) ?e r j m g" "m = k" using s(1) unfolding snoc w seg_append by auto
    then have "0 < k" by (simp add: header_ok_def)
    then show ?thesis using b(6) snoc w r(2) by simp
  qed
  moreover have "0 < p" using page_start [OF pg] by simp
  ultimately show ?thesis using b pl dvd32_not_bad [OF pl(5)] by auto
qed

lemma mergeable_ok:
  assumes ok: "fc_ok s lay" and p: "lay p = Some (us @ (n, f) # vs)" and f: "flags_ok [(n, f)]"
  shows "mergeable (p + bytes us) s = Some (f = {Queued})"
proof -
  define a where "a = p + bytes us"
  obtain b where b: "blk s a = Some b" "flags b = f" "0 < a" using block_at [OF ok p] unfolding a_def by blast
  have m: "(Active \<notin> f \<and> Queued \<in> f) = (f = {Queued})" using f by auto
  have "mergeable a s = Some (Active \<notin> f \<and> Queued \<in> f)" using b by (simp add: mergeable_def)
  then show ?thesis unfolding m a_def .
qed

text \<open>What a release does to the list of the blocks of a page.\<close>

definition merge_right :: "nat \<Rightarrow> (nat \<times> flag set) list \<Rightarrow> nat \<times> (nat \<times> flag set) list" where
  "merge_right n vs = (case vs of [] \<Rightarrow> (n, []) | (m, f) # ws \<Rightarrow> if f = {Queued} then (n + m, ws) else (n, vs))"

definition merge_left :: "(nat \<times> flag set) list \<Rightarrow> nat \<Rightarrow> (nat \<times> flag set) list \<times> nat" where
  "merge_left us n = (if us \<noteq> [] \<and> snd (last us) = {Queued} then (butlast us, n + fst (last us)) else (us, n))"

definition coalesce :: "(nat \<times> flag set) list \<Rightarrow> nat \<Rightarrow> (nat \<times> flag set) list \<Rightarrow> (nat \<times> flag set) list" where
  "coalesce us n vs = (let (n, vs) = merge_right n vs; (us, n) = merge_left us n in us @ (n, {Queued}) # vs)"

definition put_page :: "nat \<Rightarrow> (nat \<times> flag set) list \<Rightarrow> layout \<Rightarrow> layout" where
  "put_page p bs lay = (if bs = [(PAGE_SIZE, {Queued})] then lay(p := None) else lay(p \<mapsto> bs))"

lemma right_ok:
  assumes ok: "fc_ok s lay" and p: "lay p = Some (us @ (n, {Active}) # vs)" and f: "flags_ok vs" and mr: "merge_right n vs = (n', vs')"
  shows "\<exists>t. do { m \<leftarrow> mergeable (if vs = [] then 0 else p + bytes us + n) s;
        if m then do { s \<leftarrow> unqueue (if vs = [] then 0 else p + bytes us + n) s; merge_next (p + bytes us) s } else Some (p + bytes us, s) } =
      Some (p + bytes us, t) \<and> fc_ok t (lay(p \<mapsto> us @ (n', {Active}) # vs')) \<and> small t = small s"
proof (cases vs)
  case Nil
  then have "lay(p \<mapsto> us @ (n', {Active}) # vs') = lay" using mr p by (simp add: merge_right_def fun_upd_idem)
  then show ?thesis using ok Nil by (simp add: mergeable_def)
next
  case (Cons v ws)
  obtain m g where v: "v = (m, g)" by (cases v)
  let ?us = "us @ [(n, {Active})]"
  have p': "lay p = Some (?us @ (m, g) # ws)" using p Cons v by simp
  have nx: "p + bytes us + n = p + bytes ?us" by simp
  have mg: "mergeable (p + bytes us + n) s = Some (g = {Queued})" unfolding nx by (rule mergeable_ok [OF ok p']) (use f Cons v in simp)
  show ?thesis
  proof (cases "g = {Queued}")
    case False
    then have "lay(p \<mapsto> us @ (n', {Active}) # vs') = lay" using mr p Cons v by (simp add: merge_right_def fun_upd_idem)
    then show ?thesis using ok Cons mg False by simp
  next
    case True
    obtain t where t: "unqueue (p + bytes us + n) s = Some t" "fc_ok t (lay(p \<mapsto> us @ (n, {Active}) # (m, {}) # ws))" "small t = small s"
      using unqueue_ok [OF ok p' [unfolded True]] nx by auto
    obtain r where "merge_next (p + bytes us) t = Some (p + bytes us, r)" "fc_ok r (lay(p \<mapsto> us @ (n + m, {Active}) # ws))" "small r = small t"
      using merge_layout [OF t(2), of p us n "{Active}" m "{}" ws] by auto
    then show ?thesis using t Cons v True mg mr by (simp add: merge_right_def)
  qed
qed

lemma left_ok:
  assumes ok: "fc_ok s lay" and p: "lay p = Some (us @ (n, {Active}) # vs)" and f: "flags_ok us" and ml: "merge_left us n = (us', n')"
  shows "\<exists>t g. do { m \<leftarrow> mergeable (if us = [] then 0 else p + bytes (butlast us)) s;
        if m then do { s \<leftarrow> unqueue (if us = [] then 0 else p + bytes (butlast us)) s; merge_next (if us = [] then 0 else p + bytes (butlast us)) s }
        else Some (p + bytes us, s) } =
      Some (p + bytes us', t) \<and> fc_ok t (lay(p \<mapsto> us' @ (n', g) # vs)) \<and> g \<in> {{}, {Active}} \<and> small t = small s"
proof (cases us rule: rev_exhaust)
  case Nil
  then have "lay(p \<mapsto> us' @ (n', {Active}) # vs) = lay" "us' = []" using ml p by (simp_all add: merge_left_def fun_upd_idem)
  then show ?thesis using ok Nil by (intro exI [of _ s] exI [of _ "{Active}"]) (simp add: mergeable_def)
next
  case (snoc ws w)
  obtain m g where w: "w = (m, g)" by (cases w)
  have p': "lay p = Some (ws @ (m, g) # (n, {Active}) # vs)" using p snoc w by simp
  have mg: "mergeable (p + bytes ws) s = Some (g = {Queued})" using mergeable_ok [OF ok p'] f snoc w by simp
  show ?thesis
  proof (cases "g = {Queued}")
    case False
    then have "lay(p \<mapsto> us' @ (n', {Active}) # vs) = lay" "us' = us" using ml p snoc w by (simp_all add: merge_left_def fun_upd_idem)
    then show ?thesis using ok snoc w mg False by (intro exI [of _ s] exI [of _ "{Active}"]) simp
  next
    case True
    obtain t where t: "unqueue (p + bytes ws) s = Some t" "fc_ok t (lay(p \<mapsto> ws @ (m, {}) # (n, {Active}) # vs))" "small t = small s"
      using unqueue_ok [OF ok p' [unfolded True]] by auto
    obtain r where "merge_next (p + bytes ws) t = Some (p + bytes ws, r)" "fc_ok r (lay(p \<mapsto> ws @ (m + n, {}) # vs))" "small r = small t"
      using merge_layout [OF t(2), of p ws m "{}" n "{Active}" vs] by auto
    then show ?thesis using t snoc w True mg ml by (intro exI [of _ r] exI [of _ "{}"]) (simp add: merge_left_def add.commute)
  qed
qed

lemma page_deleted:
  assumes ok: "fc_ok s lay" and p: "lay p = Some [(2097152, f)]" and f: "f \<noteq> {Queued}"
  shows "\<exists>t. delete_page p s = Some t \<and> fc_ok t (lay(p := None)) \<and> small t = small s"
proof -
  note L = fc_okD(1) [OF ok]
  let ?t = "s\<lparr>pages := pages s - {p}, blk := blk s |` (- {p ..< p + 2097152}), qs := qs s |` (- {p ..< p + 2097152})\<rparr>"
  have "delete_page p s = Some ?t" using layout_okD(1) [OF L] p by (auto simp: delete_page_def)
  moreover have "layout_ok (blk ?t) (pages ?t) (lay(p := None))"
    unfolding layout_ok_def
  proof (intro conjI allI impI)
    show "pages ?t = dom (lay(p := None))" using layout_okD(1) [OF L] by auto
  next
    fix q bs assume q: "(lay(p := None)) q = Some bs"
    then have q': "lay q = Some bs" "q \<noteq> p" by (auto split: if_splits)
    then show "bs \<noteq> []" using layout_okD(2) [OF L] by blast
    have "apart p 2097152 q 2097152" using layout_okD(4) [OF L p q'(1)] q'(2) by blast
    then show "page_ok (blk ?t) q bs" by (intro page_cong [OF _ layout_okD(3) [OF L q'(1)]]) (auto simp: apart_def restrict_map_def)
  next
    fix q r assume "q \<in> dom (lay(p := None))" "r \<in> dom (lay(p := None))" "q \<noteq> r"
    then show "apart q 2097152 r 2097152" using layout_okD(4) [OF L] by (auto split: if_splits)
  qed
  moreover have F: "free_set (lay(p := None)) = free_set lay"
    using free_set_same [of lay, OF p] f by (simp add: frees_Cons)
  have "bins_ok (qs ?t) (bins ?t) (free_set lay)"
  proof -
    obtain X where X: "\<And>j. dlist qprev qnext (qs s) (bins s j) (X j)" "\<And>j. distinct (X j)" "\<And>j. set (X j) = {a. \<exists>n. (a, n) \<in> free_set lay \<and> bsr n = j}"
      using fc_okD(2) [OF ok] unfolding bins_ok_def by blast
    have "qs ?t y = qs s y" if y: "y \<in> set (X j)" for y j
    proof -
      obtain n where "(y, n) \<in> free_set (lay(p := None))" using y X(3) F by auto
      then obtain q bs where q: "(lay(p := None)) q = Some bs" "(y, n, {Queued}) \<in> set (spots q bs)" unfolding free_set_iff by blast
      then have q': "lay q = Some bs" "q \<noteq> p" by (auto split: if_splits)
      then have "apart p 2097152 q 2097152" using layout_okD(4) [OF L p q'(1)] by blast
      then have "y < p \<or> p + 2097152 \<le> y"
        using spot_bounds(1-3) [OF layout_okD(3) [OF L q'(1)] q(2)] unfolding apart_def by linarith
      then show ?thesis by (auto simp: restrict_map_def)
    qed
    then have "dlist qprev qnext (qs ?t) (bins ?t j) (X j)" for j using X(1) [of j] by (subst dlist_cong [where M = "qs s"]) auto
    then show ?thesis using X(2,3) unfolding bins_ok_def by blast
  qed
  ultimately show ?thesis unfolding fc_ok_def F by auto
qed

lemma finish_ok:
  assumes ok: "fc_ok s lay" and p: "lay p = Some (us @ (n, g) # vs)" and g: "g \<in> {{}, {Active}}"
  shows "\<exists>t. do { b \<leftarrow> blk s (p + bytes us);
        if block_size b = PAGE_SIZE then delete_page (p + bytes us) s
        else do { s \<leftarrow> set_active False (p + bytes us) s; s \<leftarrow> set_queued True (p + bytes us) s; push (bsr (block_size b)) (p + bytes us) s } } = Some t \<and>
      fc_ok t (put_page p (us @ (n, {Queued}) # vs) lay) \<and> small t = small s"
proof -
  obtain b where b: "blk s (p + bytes us) = Some b" "block_size b = n" using block_at [OF ok p] by blast
  have len: "bytes (us @ (n, g) # vs) = 2097152" using page_bytes [OF layout_okD(3) [OF fc_okD(1) [OF ok] p]] .
  have pos: "0 < m" if "(m, f) \<in> set (us @ vs)" for m f
  proof -
    obtain xs ys where "us @ (n, g) # vs = xs @ (m, f) # ys" using \<open>(m, f) \<in> set (us @ vs)\<close> in_set_conv_decomp [of "(m, f)" "us @ (n, g) # vs"] by auto
    then have "(p + bytes xs, m, f) \<in> set (spots p (us @ (n, g) # vs))" by (simp add: spots_append)
    then show ?thesis using spot_bounds(3) [OF layout_okD(3) [OF fc_okD(1) [OF ok] p]] by fastforce
  qed
  show ?thesis
  proof (cases "n = 2097152")
    case True
    have none: "xs = []" if "bytes xs = 0" "set xs \<subseteq> set (us @ vs)" for xs
    proof (cases xs)
      case (Cons x xs')
      then show ?thesis using that pos by (cases x) auto
    qed simp
    have "us = []" "vs = []" using none [of us] none [of vs] len True by simp_all
    then show ?thesis using page_deleted [OF ok, of p g] p g b True by (auto simp: put_page_def)
  next
    case False
    obtain t where t: "set_active False (p + bytes us) s = Some t" "fc_ok t (lay(p \<mapsto> us @ (n, {}) # vs))" "small t = small s"
      using set_active_ok [OF ok p g, of False] by auto
    obtain r where r: "do { s \<leftarrow> set_queued True (p + bytes us) t; push (bsr n) (p + bytes us) s } = Some r"
      "fc_ok r (lay(p \<mapsto> us @ (n, {Queued}) # vs))" "small r = small t"
      using enqueue_ok [OF t(2), of p us n vs] by auto
    have "us @ (n, {Queued}) # vs \<noteq> [(2097152, {Queued})]" using False by (cases us) auto
    then show ?thesis using b t r False by (auto simp: put_page_def)
  qed
qed

lemma heap_free_eq:
  assumes "blk s a = Some b" and "Active \<in> flags b" and "bsize b \<noteq> 0" and "block_size b < PAGE_SIZE" and "a \<noteq> 0"
  shows "heap_free a s = do {
        (h, s) \<leftarrow> do { m \<leftarrow> mergeable (next_block a b) s;
          if m then do { s \<leftarrow> unqueue (next_block a b) s; merge_next a s } else Some (a, s) };
        (h, s) \<leftarrow> do { m \<leftarrow> mergeable (prev_block a b) s;
          if m then do { s \<leftarrow> unqueue (prev_block a b) s; merge_next (prev_block a b) s } else Some (h, s) };
        b \<leftarrow> blk s h;
        if block_size b = PAGE_SIZE then delete_page h s
        else do { s \<leftarrow> set_active False h s; s \<leftarrow> set_queued True h s; push (bsr (block_size b)) h s } }"
  using assms by (simp add: heap_free_def Let_def)

text \<open>A release coalesces the block with its free neighbours.\<close>

lemma heap_free_ok:
  assumes ok: "fc_ok s lay" and p: "lay p = Some (us @ (n, {Active}) # vs)" and f: "flags_ok us" "flags_ok vs" and n: "n < PAGE_SIZE"
  shows "\<exists>t. heap_free (p + bytes us) s = Some t \<and> fc_ok t (put_page p (coalesce us n vs) lay) \<and> small t = small s"
proof -
  let ?a = "p + bytes us" and ?nx = "if vs = [] then 0 else p + bytes us + n" and ?pv = "if us = [] then 0 else p + bytes (butlast us)"
  obtain b where b: "blk s ?a = Some b" "flags b = {Active}" "block_size b = n" "bsize b \<noteq> 0" "next_block ?a b = ?nx" "prev_block ?a b = ?pv" "0 < ?a"
    using block_at [OF ok p] by blast
  obtain n1 vs1 where mr: "merge_right n vs = (n1, vs1)" by (cases "merge_right n vs")
  obtain us1 n2 where ml: "merge_left us n1 = (us1, n2)" by (cases "merge_left us n1")
  have co: "coalesce us n vs = us1 @ (n2, {Queued}) # vs1" using mr ml by (simp add: coalesce_def)
  let ?L1 = "lay(p \<mapsto> us @ (n1, {Active}) # vs1)"
  obtain s1 where s1: "do { m \<leftarrow> mergeable ?nx s; if m then do { s \<leftarrow> unqueue ?nx s; merge_next ?a s } else Some (?a, s) } = Some (?a, s1)"
    "fc_ok s1 ?L1" "small s1 = small s" using right_ok [OF ok p f(2) mr] by blast
  obtain s2 g where s2: "do { m \<leftarrow> mergeable ?pv s1; if m then do { s \<leftarrow> unqueue ?pv s1; merge_next ?pv s } else Some (?a, s1) } = Some (p + bytes us1, s2)"
    "fc_ok s2 (?L1(p \<mapsto> us1 @ (n2, g) # vs1))" "g \<in> {{}, {Active}}" "small s2 = small s1"
    using left_ok [OF s1(2), of p us n1 vs1 us1 n2] f(1) ml by auto
  let ?L2 = "?L1(p \<mapsto> us1 @ (n2, g) # vs1)"
  obtain t where t: "do { b \<leftarrow> blk s2 (p + bytes us1);
        if block_size b = PAGE_SIZE then delete_page (p + bytes us1) s2
        else do { s \<leftarrow> set_active False (p + bytes us1) s2; s \<leftarrow> set_queued True (p + bytes us1) s; push (bsr (block_size b)) (p + bytes us1) s } } = Some t"
    "fc_ok t (put_page p (us1 @ (n2, {Queued}) # vs1) ?L2)" "small t = small s2"
    using finish_ok [OF s2(2), of p us1 n2 g vs1] s2(3) by auto
  have "put_page p (coalesce us n vs) ?L2 = put_page p (coalesce us n vs) lay" by (simp add: put_page_def)
  moreover have "heap_free ?a s = Some t"
  proof -
    have "heap_free ?a s = do {
        (h, s) \<leftarrow> do { m \<leftarrow> mergeable ?nx s; if m then do { s \<leftarrow> unqueue ?nx s; merge_next ?a s } else Some (?a, s) };
        (h, s) \<leftarrow> do { m \<leftarrow> mergeable ?pv s; if m then do { s \<leftarrow> unqueue ?pv s; merge_next ?pv s } else Some (h, s) };
        b \<leftarrow> blk s h;
        if block_size b = PAGE_SIZE then delete_page h s
        else do { s \<leftarrow> set_active False h s; s \<leftarrow> set_queued True h s; push (bsr (block_size b)) h s } }"
      unfolding b(5,6) [symmetric] by (rule heap_free_eq) (use b n in simp_all)
    then show ?thesis by (simp only: s1(1) s2(1) t(1) Option.bind_lunit prod.case)
  qed
  ultimately show ?thesis using t(2,3) s2(4) s1(3) co by auto
qed

end
