(* ===== verification/FcHeapSafe.thy ===== *)
theory FcHeapSafe
  imports FcHeapOps
begin

text \<open>
  Allocation from the fc heap on the layouts of its pages: a block from a bin, the end cut off a block whose rest is
  released, and a page from the system.
\<close>

section \<open>Taking a block\<close>

lemma bins_free:
  assumes ok: "fc_ok s lay" and i: "bins s i \<noteq> 0"
  obtains p us n vs where "lay p = Some (us @ (n, {Queued}) # vs)" and "bins s i = p + bytes us" and "bsr n = i"
proof -
  obtain X where X: "dlist qprev qnext (qs s) (bins s i) (X i)" "set (X i) = {a. \<exists>n. (a, n) \<in> free_set lay \<and> bsr n = i}"
    using fc_okD(2) [OF ok] unfolding bins_ok_def by blast
  then have "X i \<noteq> []" using i by (cases "X i") (simp_all add: dlist_def)
  then have "bins s i \<in> set (X i)" using dlist_head [OF X(1)] by (cases "X i") auto
  then obtain n where "(bins s i, n) \<in> free_set lay" "bsr n = i" using X(2) by auto
  then obtain p bs where "lay p = Some bs" "(bins s i, n, {Queued}) \<in> set (spots p bs)" unfolding free_set_iff by blast
  then show ?thesis using that spots_split \<open>bsr n = i\<close> by metis
qed

lemma pop_ok:
  assumes ok: "fc_ok s lay" and p: "lay p = Some (us @ (n, {Queued}) # vs)" and i: "bins s (bsr n) = p + bytes us"
  shows "\<exists>r t b. pop (bsr n) s = Some (p + bytes us, r) \<and> blk r = blk s \<and> set_queued False (p + bytes us) r = Some t \<and>
    fc_ok t (lay(p \<mapsto> us @ (n, {}) # vs)) \<and> small t = small s"
proof -
  let ?a = "p + bytes us"
  obtain b where b: "blk s ?a = Some b" "block_size b = n" "0 < ?a" using block_at [OF ok p] by blast
  obtain t where t: "unqueue ?a s = Some t" "fc_ok t (lay(p \<mapsto> us @ (n, {}) # vs))" "small t = small s" using unqueue_ok [OF ok p] by blast
  have "unqueue ?a s = do { (h, s) \<leftarrow> pop (bsr n) s; set_queued False ?a s }" using b i by (simp add: unqueue_def)
  then obtain h r where r: "pop (bsr n) s = Some (h, r)" "set_queued False ?a r = Some t" using t(1) by (auto split: bind_splits)
  then have "h = ?a" "blk r = blk s" using i b(3) by (auto simp: pop_def split: bind_splits if_splits)
  then show ?thesis using r t(2,3) by blast
qed

lemma find_block_ok:
  assumes ok: "fc_ok s lay" and "i \<le> 32"
  shows "(find_block i s = Some (0, s) \<and> (\<forall>j. i \<le> j \<and> j < 32 \<longrightarrow> bins s j = 0)) \<or>
    (\<exists>p us n vs r t. lay p = Some (us @ (n, {Queued}) # vs) \<and> i \<le> bsr n \<and> find_block i s = Some (p + bytes us, r) \<and> blk r = blk s \<and>
       set_queued False (p + bytes us) r = Some t \<and> fc_ok t (lay(p \<mapsto> us @ (n, {}) # vs)) \<and> small t = small s)"
  using assms(2)
proof (induction "32 - i" arbitrary: i)
  case 0
  then show ?case by (subst find_block.simps) simp
next
  case (Suc k)
  then have i: "i < 32" by simp
  show ?case
  proof (cases "bins s i = 0")
    case True
    then have eq: "find_block i s = find_block (i + 1) s" using i by (subst find_block.simps) (simp add: pop_def)
    have IH: "(find_block (i + 1) s = Some (0, s) \<and> (\<forall>j. i + 1 \<le> j \<and> j < 32 \<longrightarrow> bins s j = 0)) \<or>
      (\<exists>p us n vs r t. lay p = Some (us @ (n, {Queued}) # vs) \<and> i + 1 \<le> bsr n \<and> find_block (i + 1) s = Some (p + bytes us, r) \<and> blk r = blk s \<and>
         set_queued False (p + bytes us) r = Some t \<and> fc_ok t (lay(p \<mapsto> us @ (n, {}) # vs)) \<and> small t = small s)"
      (is "?none \<or> ?some") by (rule Suc.hyps(1)) (use Suc.hyps(2) i in simp_all)
    show ?thesis
    proof (cases ?none)
      case none: True
      have "bins s j = 0" if "i \<le> j \<and> j < 32" for j
        by (cases "j = i") (use none True that in simp_all)
      then show ?thesis using eq none by simp
    next
      case False
      then obtain p us n vs r t where "lay p = Some (us @ (n, {Queued}) # vs)" "i + 1 \<le> bsr n" "find_block (i + 1) s = Some (p + bytes us, r)"
        "blk r = blk s" "set_queued False (p + bytes us) r = Some t" "fc_ok t (lay(p \<mapsto> us @ (n, {}) # vs))" "small t = small s"
        using IH by blast
      moreover from this(2) have "i \<le> bsr n" by simp
      ultimately show ?thesis unfolding eq by (intro disjI2) blast
    qed
  next
    case False
    obtain p us n vs where p: "lay p = Some (us @ (n, {Queued}) # vs)" "bins s i = p + bytes us" "bsr n = i" using bins_free [OF ok False] .
    obtain r t where r: "pop i s = Some (p + bytes us, r)" "blk r = blk s" "set_queued False (p + bytes us) r = Some t"
      "fc_ok t (lay(p \<mapsto> us @ (n, {}) # vs))" "small t = small s" using pop_ok [OF ok p(1)] p(2,3) by auto
    have "find_block i s = Some (p + bytes us, r)" using i r(1) p(2) False by (subst find_block.simps) simp
    then show ?thesis using p r by (intro disjI2) blast
  qed
qed

lemma power_of_2: "CHECK_SIZE (2 ^ j) = Some ()"
proof -
  have "(2 ^ j :: nat) AND (2 ^ j - 1) = take_bit j (2 ^ j)" by (simp add: take_bit_eq_mask mask_eq_exp_minus_1)
  also have "\<dots> = 0" by (simp add: take_bit_eq_mod)
  finally show ?thesis by (simp add: CHECK_SIZE_def)
qed

lemma merge_left_bytes: "merge_left us n = (us', n') \<Longrightarrow> bytes us' + n' = bytes us + n"
proof (cases us rule: rev_exhaust)
  case (snoc ws w)
  assume "merge_left us n = (us', n')"
  then show ?thesis using snoc by (cases w) (auto simp: merge_left_def split: if_splits)
qed (simp add: merge_left_def)

lemma cut_ok:
  assumes ok: "fc_ok s lay" and p: "lay p = Some (us @ (N, {}) # vs)" and n: "n = 2 ^ j" "5 \<le> j" "n + 32 \<le> N" and f: "flags_ok us" "flags_ok vs"
    and ml: "merge_left us (N - n) = (us', N')"
  shows "\<exists>t. cut_block n (p + bytes us) s = Some (p + bytes us + (N - n), t) \<and> fc_ok t (lay(p \<mapsto> us' @ (N', {Queued}) # (n, {Active}) # vs)) \<and> small t = small s"
proof -
  let ?a = "p + bytes us" and ?e = "p + 2097152"
  note L = fc_okD(1) [OF ok]
  have n32: "32 \<le> n" "32 dvd n"
  proof -
    have "(2::nat) ^ 5 dvd 2 ^ j" using n(2) by (rule le_imp_power_dvd)
    then show "32 dvd n" by (simp add: n(1))
    then show "32 \<le> n" using n(1) by (intro dvd_imp_le) simp_all
  qed
  obtain k l where s: "seg (blk s) ?e p 0 us ?a k" "seg (blk s) ?e ?a k ((N, {}) # vs) ?e l" by (rule page_split [OF layout_okD(3) [OF L p]])
  obtain M l' where M: "split_block n ?a s = Some (?a + (N - n), s\<lparr>blk := M\<rparr>)" "seg M ?e p 0 us ?a k"
    "seg M ?e ?a k ((N - n, {}) # (n, {}) # vs) ?e l'" "\<And>x. x < p \<or> ?e \<le> x \<Longrightarrow> M x = blk s x"
    using split_ok [OF s refl n32 n(3)] power_of_2 [of j] n(1) by blast
  let ?L1 = "lay(p \<mapsto> us @ (N - n, {}) # (n, {}) # vs)"
  have "layout_ok M (pages s) ?L1" by (rule layout_update [OF L p page_join [OF M(2,3)] _ M(4)]) simp_all
  moreover have "free_set ?L1 = free_set lay"
    using free_set_put [of lay p us "N - n" "{}" "(n, {}) # vs"] free_set_at [of lay p us N "{}" vs, OF p] n(3)
    by (simp add: rest_free_def frees_Cons)
  ultimately have ok1: "fc_ok (s\<lparr>blk := M\<rparr>) ?L1" using fc_okD(2) [OF ok] by (simp add: fc_ok_def)
  obtain s2 where s2: "set_active True ?a (s\<lparr>blk := M\<rparr>) = Some s2" "fc_ok s2 (lay(p \<mapsto> us @ (N - n, {Active}) # (n, {}) # vs))" "small s2 = small s"
    using set_active_ok [OF ok1, of p us "N - n" "{}" "(n, {}) # vs" True] by auto
  have "N \<le> 2097152" using block_place [OF s(1) _ refl] s(2) by auto
  then have lt: "N - n < PAGE_SIZE" using n32(1) n(3) by simp
  have co: "coalesce us (N - n) ((n, {}) # vs) = us' @ (N', {Queued}) # (n, {}) # vs" using ml by (simp add: coalesce_def merge_right_def)
  obtain s3 where s3: "heap_free ?a s2 = Some s3" "fc_ok s3 (lay(p \<mapsto> us' @ (N', {Queued}) # (n, {}) # vs))" "small s3 = small s2"
    using heap_free_ok [OF s2(2), of p us "N - n" "(n, {}) # vs"] f lt co by (auto simp: put_page_def)
  have at: "?a + (N - n) = p + bytes (us' @ [(N', {Queued})])" using merge_left_bytes [OF ml] by simp
  obtain t where t: "set_active True (?a + (N - n)) s3 = Some t" "fc_ok t (lay(p \<mapsto> us' @ (N', {Queued}) # (n, {Active}) # vs))" "small t = small s3"
    unfolding at using set_active_ok [OF s3(2), of p "us' @ [(N', {Queued})]" n "{}" vs True] by auto
  have "cut_block n ?a s = Some (?a + (N - n), t)" using M(1) s2(1) s3(1) t(1) by (simp add: cut_block_def)
  then show ?thesis using t(2,3) s3(3) s2(3) by simp
qed

definition page_fresh :: "nat \<Rightarrow> layout \<Rightarrow> bool" where
  "page_fresh p lay \<longleftrightarrow> 0 < p \<and> (\<forall>q \<in> dom lay. apart p 2097152 q 2097152)"

lemma fc_new_page_ok:
  assumes ok: "fc_ok s lay" and p: "page_fresh p lay"
  shows "\<exists>t. new_page p s = Some t \<and> fc_ok t (lay(p \<mapsto> [(2097152, {})])) \<and> small t = small s"
proof -
  note L = fc_okD(1) [OF ok]
  let ?M = "(blk s)(p \<mapsto> \<lparr>prev_size = 0, bsize = - 2097152, flags = {}\<rparr>)" and ?lay = "lay(p \<mapsto> [(2097152, {})])"
  have h: "header_ok ?M (p + 2097152) p 0 2097152 {}" using p by (simp add: header_ok_def page_fresh_def)
  then have seg: "seg ?M (p + 2097152) p 0 [(2097152, {})] (p + 2097152) 2097152" by (simp only: seg.simps simp_thms)
  have nil: "seg ?M (p + 2097152) p 0 [] p 0" by (simp only: seg.simps simp_thms)
  have pc: "page_check p ?M = Some ()" by (rule page_size_ok [OF nil seg]) (simp only: PAGE_SIZE_eq)
  have none: "lay p = None"
  proof (rule ccontr)
    assume "lay p \<noteq> None"
    then have "apart p 2097152 p 2097152" using p by (auto simp: page_fresh_def)
    then show False by (simp add: apart_def)
  qed
  have "layout_ok ?M (insert p (pages s)) ?lay"
    unfolding layout_ok_def
  proof (intro conjI allI impI)
    show "insert p (pages s) = dom ?lay" using layout_okD(1) [OF L] by simp
  next
    fix q bs assume q: "?lay q = Some bs"
    show "bs \<noteq> []" using q layout_okD(2) [OF L] by (auto split: if_splits)
    show "page_ok ?M q bs"
    proof (cases "q = p")
      case True
      then have "bs = [(2097152, {})]" using q by simp
      then show ?thesis unfolding page_ok_def PAGE_SIZE_eq using seg True by blast
    next
      case False
      then have q': "lay q = Some bs" using q by simp
      then have "apart p 2097152 q 2097152" using p by (auto simp: page_fresh_def)
      then show ?thesis by (intro page_cong [OF _ layout_okD(3) [OF L q']]) (auto simp: apart_def)
    qed
  next
    fix q r assume "q \<in> dom ?lay" "r \<in> dom ?lay" "q \<noteq> r"
    then show "apart q 2097152 r 2097152" using layout_okD(4) [OF L] p apart_sym by (auto simp: page_fresh_def split: if_splits)
  qed
  moreover have "free_set ?lay = free_set lay"
    unfolding free_set_upd using none by (simp add: frees_Cons fun_upd_idem)
  moreover have "int24 (- int PAGE_SIZE) = - 2097152" by (simp add: int24_id)
  ultimately show ?thesis using p pc fc_okD(2) [OF ok] by (auto simp: new_page_def Let_def page_fresh_def fc_ok_def small_def)
qed

end
