(* ===== verification/FcHeapTidy.thy ===== *)
theory FcHeapTidy
  imports FcHeapSafe
begin

text \<open>
  What every operation of the fc heap keeps of its pages: each has a block in use, no two free blocks are neighbours.
  \<open>held_set\<close> is the set of the blocks in use; a release removes one from it, an allocation adds one.
\<close>

section \<open>Tidy pages\<close>

definition gap_ok :: "nat \<times> flag set \<Rightarrow> nat \<times> flag set \<Rightarrow> bool" where
  "gap_ok x y \<longleftrightarrow> snd x \<noteq> {Queued} \<or> snd y \<noteq> {Queued}"

definition plain :: "(nat \<times> flag set) list \<Rightarrow> bool" where
  "plain bs \<longleftrightarrow> (\<forall>x \<in> set bs. snd x \<in> {{Active}, {Queued}})"

lemma plain_simps [simp]: "plain []" "plain ((n, f) # bs) \<longleftrightarrow> f \<in> {{Active}, {Queued}} \<and> plain bs"
  "plain (us @ vs) \<longleftrightarrow> plain us \<and> plain vs"
  unfolding plain_def by (simp_all add: ball_Un)

definition tidy :: "(nat \<times> flag set) list \<Rightarrow> bool" where
  "tidy bs \<longleftrightarrow> plain bs \<and> successively gap_ok bs \<and> 2 \<le> length bs"

definition tidy_layout :: "layout \<Rightarrow> bool" where
  "tidy_layout lay \<longleftrightarrow> (\<forall>p bs. lay p = Some bs \<longrightarrow> tidy bs)"

lemma plain_flags: "plain bs \<Longrightarrow> flags_ok bs"
proof (induction bs)
  case (Cons b bs)
  then show ?case by (cases b) auto
qed simp

lemma tidy_flags:
  assumes "tidy (us @ vs)"
  shows "flags_ok us" "flags_ok vs"
  using assms plain_flags [of us] plain_flags [of vs] by (simp_all add: tidy_def)

lemma tidy_put: "tidy_layout lay \<Longrightarrow> tidy bs \<Longrightarrow> tidy_layout (lay(p \<mapsto> bs))"
  by (simp add: tidy_layout_def)

lemma tidy_drop: "tidy_layout lay \<Longrightarrow> tidy_layout (lay(p := None))"
  by (simp add: tidy_layout_def)

section \<open>Blocks in use\<close>

definition held :: "nat \<Rightarrow> (nat \<times> flag set) list \<Rightarrow> (nat \<times> nat) set" where
  "held p bs = {(a, n). (a, n, {Active}) \<in> set (spots p bs)}"

definition held_set :: "layout \<Rightarrow> (nat \<times> nat) set" where
  "held_set lay = (\<Union>p \<in> dom lay. held p (the (lay p)))"

lemma held_Nil [simp]: "held p [] = {}"
  by (simp add: held_def)

lemma held_Cons: "held p ((n, f) # bs) = (if f = {Active} then insert (p, n) (held (p + n) bs) else held (p + n) bs)"
  by (auto simp: held_def)

lemma held_append: "held p (us @ vs) = held p us \<union> held (p + bytes us) vs"
  by (auto simp: held_def spots_append)

lemma held_set_iff: "(a, n) \<in> held_set lay \<longleftrightarrow> (\<exists>p bs. lay p = Some bs \<and> (a, n, {Active}) \<in> set (spots p bs))"
proof
  assume "(a, n) \<in> held_set lay"
  then obtain p where p: "p \<in> dom lay" "(a, n, {Active}) \<in> set (spots p (the (lay p)))" by (auto simp: held_set_def held_def)
  then obtain bs where "lay p = Some bs" by blast
  then show "\<exists>p bs. lay p = Some bs \<and> (a, n, {Active}) \<in> set (spots p bs)" using p(2) by auto
next
  assume "\<exists>p bs. lay p = Some bs \<and> (a, n, {Active}) \<in> set (spots p bs)"
  then obtain p bs where "lay p = Some bs" "(a, n, {Active}) \<in> set (spots p bs)" by blast
  then show "(a, n) \<in> held_set lay" unfolding held_set_def held_def by (intro UN_I [of p]) auto
qed

lemma held_set_upd: "held_set (lay(p \<mapsto> bs)) = held p bs \<union> held_set (lay(p := None))"
  by (auto simp: held_set_def dom_def split: if_splits)

lemma held_set_same: "lay p = Some bs \<Longrightarrow> held_set lay = held p bs \<union> held_set (lay(p := None))"
  using held_set_upd [of lay p bs] by (simp add: fun_upd_idem)

lemma held_unique:
  assumes "layout_ok M P lay" and "(a, n) \<in> held_set lay" and "(a, m) \<in> held_set lay"
  shows "n = m"
  using assms(2,3) block_unique [OF assms(1)] unfolding held_set_iff by blast

lemma held_not_free:
  assumes "layout_ok M P lay" and "(a, n) \<in> held_set lay" and "(a, m) \<in> free_set lay"
  shows False
proof -
  obtain p bs q cs where "lay p = Some bs" "(a, n, {Active}) \<in> set (spots p bs)" "lay q = Some cs" "(a, m, {Queued}) \<in> set (spots q cs)"
    using assms(2,3) unfolding held_set_iff free_set_iff by blast
  then have "{Active} = {Queued}" using block_unique [OF assms(1)] by blast
  then show False by simp
qed

lemma held_elsewhere:
  assumes ok: "layout_ok M P lay" and p: "lay p = Some bs" and a: "(a, n, f) \<in> set (spots p bs)"
  shows "(a, m) \<notin> held_set (lay(p := None))"
proof
  assume "(a, m) \<in> held_set (lay(p := None))"
  then obtain q cs where "(lay(p := None)) q = Some cs" "(a, m, {Active}) \<in> set (spots q cs)" unfolding held_set_iff by blast
  then have q: "q \<noteq> p" "lay q = Some cs" "(a, m, {Active}) \<in> set (spots q cs)" by (auto split: if_splits)
  then show False using block_unique [OF ok p a q(2,3)] by blast
qed

text \<open>Two blocks in use do not overlap, and they lie in pages of the heap.\<close>

lemma held_bounds:
  assumes ok: "layout_ok M P lay" and a: "(a, n) \<in> held_set lay"
  shows "\<exists>p. p \<in> P \<and> p \<le> a \<and> a + n \<le> p + 2097152 \<and> 32 \<le> n \<and> 0 < a"
proof -
  obtain p bs where p: "lay p = Some bs" "(a, n, {Active}) \<in> set (spots p bs)" using a unfolding held_set_iff by blast
  have "p \<in> P" using layout_okD(1) [OF ok] p(1) by auto
  then show ?thesis using spot_bounds(1-3,5) [OF layout_okD(3) [OF ok p(1)] p(2)] by blast
qed

lemma held_apart:
  assumes ok: "layout_ok M P lay" and a: "(a, n) \<in> held_set lay" and b: "(b, m) \<in> held_set lay" and ne: "a \<noteq> b"
  shows "apart a n b m"
proof -
  obtain p bs where p: "lay p = Some bs" "(a, n, {Active}) \<in> set (spots p bs)" using a unfolding held_set_iff by blast
  obtain q cs where q: "lay q = Some cs" "(b, m, {Active}) \<in> set (spots q cs)" using b unfolding held_set_iff by blast
  show ?thesis
  proof (cases "p = q")
    case True
    then show ?thesis using spots_apart [OF layout_okD(3) [OF ok p(1)] p(2), of b m "{Active}"] p q ne by simp
  next
    case False
    then have "apart p 2097152 q 2097152" using layout_okD(4) [OF ok p(1) q(1)] by blast
    then show ?thesis using spot_bounds(1,2) [OF layout_okD(3) [OF ok p(1)] p(2)] spot_bounds(1,2) [OF layout_okD(3) [OF ok q(1)] q(2)]
      unfolding apart_def by linarith
  qed
qed

section \<open>Release\<close>

text \<open>The block that a release leaves has no free neighbour; the blocks in use stay.\<close>

lemma merge_right_shape:
  assumes mr: "merge_right n vs = (n', vs')"
  shows "held (b + n') vs' = held (b + n) vs \<and> n' + bytes vs' = n + bytes vs \<and> (\<exists>ws. vs = ws @ vs') \<and>
    (successively gap_ok vs \<longrightarrow> vs' = [] \<or> snd (hd vs') \<noteq> {Queued})"
proof (cases vs)
  case Nil
  then show ?thesis using mr by (simp add: merge_right_def)
next
  case (Cons v ws)
  obtain m f where v: "v = (m, f)" by (cases v)
  show ?thesis
  proof (cases "f = {Queued}")
    case True
    then have e: "n' = n + m" "vs' = ws" using mr Cons v by (simp_all add: merge_right_def)
    have "held (b + n') vs' = held (b + n) vs" "n' + bytes vs' = n + bytes vs" unfolding e Cons v True by (simp_all add: held_Cons add.assoc)
    moreover have "vs = [v] @ vs'" using e Cons by simp
    moreover have "vs' = [] \<or> snd (hd vs') \<noteq> {Queued}" if "successively gap_ok vs"
      using that unfolding e Cons v True by (cases ws) (simp_all add: gap_ok_def)
    ultimately show ?thesis by blast
  next
    case False
    then have "n' = n" "vs' = vs" using mr Cons v by (simp_all add: merge_right_def)
    moreover have "vs = [] @ vs" by simp
    moreover have "snd (hd vs) \<noteq> {Queued}" using Cons v False by simp
    ultimately show ?thesis by blast
  qed
qed

lemma merge_left_shape:
  assumes ml: "merge_left us n = (us', n')"
  shows "held b us' = held b us \<and> bytes us' + n' = bytes us + n \<and> (\<exists>ws. us = us' @ ws) \<and>
    (successively gap_ok us \<longrightarrow> us' = [] \<or> snd (last us') \<noteq> {Queued})"
proof (cases us rule: rev_exhaust)
  case Nil
  then show ?thesis using ml by (simp add: merge_left_def)
next
  case (snoc ws w)
  obtain m f where w: "w = (m, f)" by (cases w)
  show ?thesis
  proof (cases "f = {Queued}")
    case True
    then have e: "n' = n + m" "us' = ws" using ml snoc w by (simp_all add: merge_left_def)
    have "held b us' = held b us" "bytes us' + n' = bytes us + n" unfolding e snoc w True by (simp_all add: held_append held_Cons)
    moreover have "us = us' @ [w]" using e snoc by simp
    moreover have "us' = [] \<or> snd (last us') \<noteq> {Queued}" if "successively gap_ok us"
      using that unfolding e snoc w True by (cases "ws = []") (simp_all add: gap_ok_def successively_append_iff)
    ultimately show ?thesis by blast
  next
    case False
    then have "n' = n" "us' = us" using ml snoc w by (simp_all add: merge_left_def)
    moreover have "us = us @ []" by simp
    moreover have "snd (last us) \<noteq> {Queued}" using snoc w False by simp
    ultimately show ?thesis by blast
  qed
qed

lemma coalesce_tidy:
  assumes t: "tidy (us @ (n, {Active}) # vs)" and two: "2 \<le> length (coalesce us n vs)"
  shows "tidy (coalesce us n vs)"
proof -
  obtain n1 vs1 where mr: "merge_right n vs = (n1, vs1)" by (cases "merge_right n vs")
  obtain us1 n2 where ml: "merge_left us n1 = (us1, n2)" by (cases "merge_left us n1")
  have co: "coalesce us n vs = us1 @ (n2, {Queued}) # vs1" using mr ml by (simp add: coalesce_def)
  have s: "successively gap_ok us" "successively gap_ok vs" using t by (auto simp: tidy_def successively_append_iff successively_Cons)
  obtain ws where ws: "vs = ws @ vs1" and hd: "vs1 = [] \<or> snd (hd vs1) \<noteq> {Queued}" using merge_right_shape [OF mr] s(2) by blast
  obtain xs where xs: "us = us1 @ xs" and la: "us1 = [] \<or> snd (last us1) \<noteq> {Queued}" using merge_left_shape [OF ml] s(1) by blast
  have "successively gap_ok us1" "successively gap_ok vs1" using s unfolding ws xs by (simp_all add: successively_append_iff)
  then have "successively gap_ok (us1 @ (n2, {Queued}) # vs1)"
    using hd la by (cases "us1 = []"; cases vs1) (simp_all add: successively_append_iff gap_ok_def)
  moreover have "plain (us1 @ (n2, {Queued}) # vs1)" using t unfolding tidy_def ws xs by simp
  ultimately show ?thesis using two unfolding co tidy_def by blast
qed

lemma coalesce_held:
  "held p (coalesce us n vs) = held p us \<union> held (p + bytes us + n) vs \<and> bytes (coalesce us n vs) = bytes us + n + bytes vs"
proof -
  obtain n1 vs1 where mr: "merge_right n vs = (n1, vs1)" by (cases "merge_right n vs")
  obtain us1 n2 where ml: "merge_left us n1 = (us1, n2)" by (cases "merge_left us n1")
  have co: "coalesce us n vs = us1 @ (n2, {Queued}) # vs1" using mr ml by (simp add: coalesce_def)
  have r: "held (p + bytes us + n1) vs1 = held (p + bytes us + n) vs" "n1 + bytes vs1 = n + bytes vs"
    using merge_right_shape [OF mr] by blast+
  have l: "held p us1 = held p us" "bytes us1 + n2 = bytes us + n1" using merge_left_shape [OF ml] by blast+
  have at: "p + bytes us1 + n2 = p + bytes us + n1" using l(2) by simp
  have "held p (coalesce us n vs) = held p us1 \<union> held (p + bytes us1 + n2) vs1" unfolding co by (simp add: held_append held_Cons)
  also have "\<dots> = held p us \<union> held (p + bytes us + n) vs" unfolding at l(1) r(1) ..
  finally show ?thesis using l(2) r(2) unfolding co by simp
qed

lemma coalesce_length: "coalesce us n vs \<noteq> []"
  by (auto simp: coalesce_def Let_def split: prod.splits)

lemma coalesce_single:
  assumes "length (coalesce us n vs) < 2"
  shows "\<exists>N. coalesce us n vs = [(N, {Queued})]"
proof -
  obtain n1 vs1 where mr: "merge_right n vs = (n1, vs1)" by (cases "merge_right n vs")
  obtain us1 n2 where ml: "merge_left us n1 = (us1, n2)" by (cases "merge_left us n1")
  have "coalesce us n vs = us1 @ (n2, {Queued}) # vs1" using mr ml by (simp add: coalesce_def)
  then show ?thesis using assms by simp
qed

lemma spot_small:
  assumes ok: "layout_ok M P lay" and p: "lay p = Some (us @ (n, f) # vs)" and t: "tidy (us @ (n, f) # vs)"
  shows "n < 2097152"
proof -
  have b: "bytes (us @ (n, f) # vs) = 2097152" using page_bytes [OF layout_okD(3) [OF ok p]] .
  have pos: "32 \<le> m" if x: "(m, g) \<in> set (us @ (n, f) # vs)" for m g
  proof -
    obtain xs ys where e: "us @ (n, f) # vs = xs @ (m, g) # ys" using x unfolding in_set_conv_decomp by blast
    then have "(p + bytes xs, m, g) \<in> set (spots p (us @ (n, f) # vs))" unfolding e by (simp add: spots_append)
    then show ?thesis using spot_bounds(3) [OF layout_okD(3) [OF ok p]] by blast
  qed
  have "us \<noteq> [] \<or> vs \<noteq> []" using t by (auto simp: tidy_def)
  then show ?thesis
  proof
    assume "us \<noteq> []"
    then obtain m g us' where u: "us = (m, g) # us'" by (cases us) auto
    then have "32 \<le> m" by (intro pos [of m g]) simp
    then show ?thesis using b u by simp
  next
    assume "vs \<noteq> []"
    then obtain m g vs' where v: "vs = (m, g) # vs'" by (cases vs) auto
    then have "32 \<le> m" by (intro pos [of m g]) simp
    then show ?thesis using b v by simp
  qed
qed

lemma heap_free_held:
  assumes ok: "fc_ok s lay" and t: "tidy_layout lay" and a: "(a, n) \<in> held_set lay"
  shows "\<exists>r lay'. heap_free a s = Some r \<and> fc_ok r lay' \<and> tidy_layout lay' \<and> held_set lay' = held_set lay - {(a, n)} \<and>
    pages r \<subseteq> pages s \<and> small r = small s"
proof -
  note L = fc_okD(1) [OF ok]
  obtain p bs where p: "lay p = Some bs" "(a, n, {Active}) \<in> set (spots p bs)" using a unfolding held_set_iff by blast
  obtain us vs where bs: "bs = us @ (n, {Active}) # vs" "a = p + bytes us" using spots_split [OF p(2)] .
  have tb: "tidy (us @ (n, {Active}) # vs)" using t p(1) bs by (auto simp: tidy_layout_def)
  have p': "lay p = Some (us @ (n, {Active}) # vs)" using p(1) bs by simp
  have fl: "flags_ok us" "flags_ok vs" using tidy_flags [OF tb] by simp_all
  have n: "n < PAGE_SIZE" using spot_small [OF L p' tb] by simp
  obtain r where r: "heap_free a s = Some r" "fc_ok r (put_page p (coalesce us n vs) lay)" "small r = small s"
    using heap_free_ok [OF ok p' fl n] bs(2) by blast
  let ?lay = "put_page p (coalesce us n vs) lay"
  have len: "bytes (coalesce us n vs) = 2097152" using coalesce_held [of p us n vs] page_bytes [OF layout_okD(3) [OF L p']] by simp
  have hs: "held p (coalesce us n vs) = held p bs - {(a, n)}"
  proof -
    have "(a, n) \<notin> held p us \<union> held (p + bytes us + n) vs"
    proof
      assume x: "(a, n) \<in> held p us \<union> held (p + bytes us + n) vs"
      have "32 \<le> n" using spot_bounds(3) [OF layout_okD(3) [OF L p(1)] p(2)] .
      have left: "b + m \<le> q + bytes us" if x: "(b, m) \<in> held q us" for b m q
      proof -
        obtain xs ys where "us = xs @ (m, {Active}) # ys" "b = q + bytes xs" using spots_split x unfolding held_def by blast
        then show ?thesis by simp
      qed
      have right: "q \<le> b" if x: "(b, m) \<in> held q vs" for b m q
      proof -
        obtain xs ys where "vs = xs @ (m, {Active}) # ys" "b = q + bytes xs" using spots_split x unfolding held_def by blast
        then show ?thesis by simp
      qed
      show False using x left [of a n p] right [of a n "p + bytes us + n"] bs(2) \<open>32 \<le> n\<close> by auto
    qed
    moreover have "held p bs = insert (a, n) (held p us \<union> held (p + bytes us + n) vs)" unfolding bs by (simp add: held_append held_Cons)
    ultimately show ?thesis using coalesce_held [of p us n vs] by blast
  qed
  have out: "(a, n) \<notin> held_set (lay(p := None))" using held_elsewhere [OF L p] .
  have T: "tidy_layout ?lay \<and> held_set ?lay = held_set lay - {(a, n)}"
  proof (cases "length (coalesce us n vs) < 2")
    case True
    obtain N where N: "coalesce us n vs = [(N, {Queued})]" using coalesce_single [OF True] by blast
    then have lay: "?lay = lay(p := None)" using len by (simp add: put_page_def)
    have "held p bs - {(a, n)} = {}" using hs unfolding N by (simp add: held_Cons)
    then show ?thesis unfolding lay held_set_same [of lay, OF p(1)] using tidy_drop [OF t] out by blast
  next
    case False
    then have "coalesce us n vs \<noteq> [(PAGE_SIZE, {Queued})]" by auto
    then have lay: "?lay = lay(p \<mapsto> coalesce us n vs)" by (simp add: put_page_def)
    have "tidy (coalesce us n vs)" using coalesce_tidy [OF tb] False by simp
    then show ?thesis unfolding lay held_set_same [of lay, OF p(1)] held_set_upd hs using tidy_put [OF t] out by blast
  qed
  have "dom ?lay \<subseteq> dom lay" using p(1) by (auto simp: put_page_def)
  then have "pages r \<subseteq> pages s" using layout_okD(1) [OF L] layout_okD(1) [OF fc_okD(1) [OF r(2)]] by simp
  then show ?thesis using r T by blast
qed

section \<open>Allocation\<close>

lemma tidy_place:
  assumes t: "tidy (us @ (N, {Queued}) # vs)"
  shows "tidy (us @ (N, {Active}) # vs)" and "merge_left us m = (us, m)" and "tidy (us @ (m, {Queued}) # (k, {Active}) # vs)"
proof -
  have s: "successively gap_ok us" "us = [] \<or> gap_ok (last us) (N, {Queued})" "successively gap_ok ((N, {Queued}) # vs)" "plain us" "plain vs"
    "1 \<le> length us + length vs"
    using t by (auto simp: tidy_def successively_append_iff)
  then have v: "successively gap_ok vs" by (cases vs) simp_all
  have a: "successively gap_ok ((j, {Active}) # vs)" for j using v by (cases vs) (simp_all add: gap_ok_def)
  show "tidy (us @ (N, {Active}) # vs)" using s a [of N] by (simp add: tidy_def successively_append_iff gap_ok_def)
  show "merge_left us m = (us, m)" using s(2) by (auto simp: merge_left_def gap_ok_def)
  show "tidy (us @ (m, {Queued}) # (k, {Active}) # vs)" using s a [of k] by (auto simp: tidy_def successively_append_iff gap_ok_def)
qed

text \<open>A block is added at \<open>a\<close>, which no block in use has.\<close>

lemma held_new:
  assumes L: "layout_ok M P lay'" and p: "lay' p = Some (us @ (n, {Active}) # vs)" and o: "held_set (lay(p := None)) = held_set (lay'(p := None))"
    and h: "held_set lay = held p us \<union> held (p + bytes us + n) vs \<union> held_set (lay(p := None))"
  shows "held_set lay' = insert (p + bytes us, n) (held_set lay) \<and> (\<forall>m. (p + bytes us, m) \<notin> held_set lay)"
proof -
  have e: "held_set lay' = insert (p + bytes us, n) (held_set lay)"
    unfolding held_set_same [of lay', OF p] h o by (simp add: held_append held_Cons)
  have "(p + bytes us, m) \<notin> held_set lay" for m
  proof
    assume x: "(p + bytes us, m) \<in> held_set lay"
    note pg = layout_okD(3) [OF L p]
    have at: "(p + bytes us, n, {Active}) \<in> set (spots p (us @ (n, {Active}) # vs))" by (simp add: spots_append)
    have pos: "32 \<le> n" using spot_bounds(3) [OF pg at] .
    have x': "(p + bytes us, m) \<in> held_set lay'" using e x by blast
    have mn: "m = n" using held_unique [OF L x'] e by blast
    have "(p + bytes us, m) \<in> held p us \<union> held (p + bytes us + n) vs"
      using x held_elsewhere [OF L p at] unfolding h o by blast
    then show False
    proof
      assume "(p + bytes us, m) \<in> held p us"
      then obtain xs ys where "us = xs @ (m, {Active}) # ys" "p + bytes us = p + bytes xs" unfolding held_def using spots_split by blast
      then show False using pos mn by simp
    next
      assume "(p + bytes us, m) \<in> held (p + bytes us + n) vs"
      then obtain xs ys where "vs = xs @ (m, {Active}) # ys" "p + bytes us = p + bytes us + n + bytes xs" unfolding held_def using spots_split by blast
      then show False using pos by simp
    qed
  qed
  then show ?thesis using e by blast
qed

definition served :: "nat \<Rightarrow> fc_heap \<Rightarrow> layout \<Rightarrow> nat \<Rightarrow> fc_heap \<Rightarrow> layout \<Rightarrow> bool" where
  "served n s lay h t lay' \<longleftrightarrow> fc_ok t lay' \<and> tidy_layout lay' \<and> held_set lay' = insert (h, n) (held_set lay) \<and> (\<forall>m. (h, m) \<notin> held_set lay) \<and>
     small t = small s"

lemma alloc_found:
  assumes ok: "fc_ok s lay" and t: "tidy_layout lay" and p: "lay p = Some (us @ (N, {Queued}) # vs)"
    and n: "n = 2 ^ j" "5 \<le> j" "n \<le> N"
    and r: "fc_ok r (lay(p \<mapsto> us @ (N, {}) # vs))" "small r = small s"
  shows "\<exists>h t. (if N - 32 < n then do { s \<leftarrow> set_active True (p + bytes us) r; Some (p + bytes us, s) } else cut_block n (p + bytes us) r) = Some (h, t) \<and>
    (\<exists>lay'. served n s lay h t lay' \<and> dom lay' = dom lay)"
proof -
  note L = fc_okD(1) [OF ok]
  have tb: "tidy (us @ (N, {Queued}) # vs)" using t p by (auto simp: tidy_layout_def)
  note tp = tidy_place [OF tb]
  have fl: "flags_ok us" "flags_ok vs" using tidy_flags [of us "(N, {Queued}) # vs"] tb by simp_all
  have at: "(p + bytes us, N, {Queued}) \<in> set (spots p (us @ (N, {Queued}) # vs))" by (simp add: spots_append)
  have N: "32 \<le> N" "32 dvd N" using spot_bounds(3,4) [OF layout_okD(3) [OF L p] at] by simp_all
  have "(2::nat) ^ 5 dvd 2 ^ j" using n(2) by (rule le_imp_power_dvd)
  then have n32: "32 dvd n" by (simp add: n(1))
  have h: "held_set lay = held p us \<union> held (p + bytes us + N) vs \<union> held_set (lay(p := None))"
    unfolding held_set_same [of lay, OF p] by (simp add: held_append held_Cons)
  show ?thesis
  proof (cases "N - 32 < n")
    case True
    have eq: "N = n"
    proof -
      obtain a b where "N = 32 * a" "n = 32 * b" using N(2) n32 by (elim dvdE)
      then show ?thesis using True n(3) by simp
    qed
    obtain t where t': "set_active True (p + bytes us) r = Some t" "fc_ok t (lay(p \<mapsto> us @ (n, {Active}) # vs))" "small t = small r"
      using set_active_ok [OF r(1), of p us N "{}" vs True] eq by auto
    let ?lay = "lay(p \<mapsto> us @ (n, {Active}) # vs)"
    have "held_set ?lay = insert (p + bytes us, n) (held_set lay) \<and> (\<forall>m. (p + bytes us, m) \<notin> held_set lay)"
      by (rule held_new [OF fc_okD(1) [OF t'(2)]]) (use h eq in simp_all)
    then have "served n s lay (p + bytes us) t ?lay" unfolding served_def using t'(2,3) r(2) tidy_put [OF t] tp(1) eq by simp
    moreover have "dom ?lay = dom lay" using p by auto
    moreover have "(if N - 32 < n then do { s \<leftarrow> set_active True (p + bytes us) r; Some (p + bytes us, s) } else cut_block n (p + bytes us) r) = Some (p + bytes us, t)" using True t'(1) by simp
    ultimately show ?thesis by blast
  next
    case False
    then have n2: "n + 32 \<le> N" using N by simp
    obtain t where t': "cut_block n (p + bytes us) r = Some (p + bytes us + (N - n), t)"
      "fc_ok t (lay(p \<mapsto> us @ (N - n, {Queued}) # (n, {Active}) # vs))" "small t = small r"
      using cut_ok [OF r(1), of p us N vs n j us "N - n"] n n2 fl tp(2) by auto
    let ?lay = "lay(p \<mapsto> us @ (N - n, {Queued}) # (n, {Active}) # vs)" and ?us = "us @ [(N - n, {Queued})]"
    have a: "p + bytes us + (N - n) = p + bytes ?us" "p + bytes ?us + n = p + bytes us + N" using n2 by simp_all
    have "held_set ?lay = insert (p + bytes ?us, n) (held_set lay) \<and> (\<forall>m. (p + bytes ?us, m) \<notin> held_set lay)"
    proof (rule held_new [OF fc_okD(1) [OF t'(2)]])
      show "held_set lay = held p ?us \<union> held (p + bytes ?us + n) vs \<union> held_set (lay(p := None))" unfolding a(2) h by (simp add: held_append held_Cons)
    qed simp_all
    then have "served n s lay (p + bytes us + (N - n)) t ?lay" unfolding served_def a(1) using t'(2,3) r(2) tidy_put [OF t] tp(3) by simp
    moreover have "dom ?lay = dom lay" using p by auto
    moreover have "(if N - 32 < n then do { s \<leftarrow> set_active True (p + bytes us) r; Some (p + bytes us, s) } else cut_block n (p + bytes us) r) = Some (p + bytes us + (N - n), t)"
      using False t'(1) by simp
    ultimately show ?thesis by blast
  qed
qed

text \<open>A page from the system is cut in two.\<close>

lemma alloc_page:
  assumes ok: "fc_ok s lay" and t: "tidy_layout lay" and q: "page_fresh q lay" and n: "n = 2 ^ j" "5 \<le> j" "j \<le> 20"
  shows "\<exists>h t. do { s \<leftarrow> new_page q s; cut_block n q s } = Some (h, t) \<and> (\<exists>lay'. served n s lay h t lay' \<and> dom lay' = insert q (dom lay))"
proof -
  obtain r where r: "new_page q s = Some r" "fc_ok r (lay(q \<mapsto> [(2097152, {})]))" "small r = small s" using fc_new_page_ok [OF ok q] by blast
  have "(2::nat) ^ j \<le> 2 ^ 20" using n(3) by (intro power_increasing) simp_all
  then have n2: "n \<le> 1048576" by (simp add: n(1))
  let ?lay = "lay(q \<mapsto> [(2097152 - n, {Queued}), (n, {Active})])"
  obtain t where t': "cut_block n (q + bytes []) r = Some (q + bytes [] + (2097152 - n), t)"
    "fc_ok t (lay(q \<mapsto> [] @ (2097152 - n, {Queued}) # [(n, {Active})]))" "small t = small r"
    using cut_ok [OF r(2), of q "[]" 2097152 "[]" n j "[]" "2097152 - n"] n n2 by (auto simp: merge_left_def)
  have none: "lay q = None"
  proof (rule ccontr)
    assume "lay q \<noteq> None"
    then have "apart q 2097152 q 2097152" using q by (auto simp: page_fresh_def)
    then show False by (simp add: apart_def)
  qed
  then have lay: "lay(q := None) = lay" by (simp add: fun_upd_idem)
  let ?us = "[(2097152 - n, {Queued})] :: (nat \<times> flag set) list"
  have p: "?lay q = Some (?us @ (n, {Active}) # [])" by simp
  have "held_set ?lay = insert (q + bytes ?us, n) (held_set lay) \<and> (\<forall>m. (q + bytes ?us, m) \<notin> held_set lay)"
    by (rule held_new [where lay' = ?lay, OF fc_okD(1) p]) (use t'(2) lay in \<open>simp_all add: held_Cons\<close>)
  moreover have "tidy [(2097152 - n, {Queued}), (n, {Active})]" by (simp add: tidy_def gap_ok_def)
  ultimately have "served n s lay (q + (2097152 - n)) t ?lay" unfolding served_def using t'(2,3) r(3) tidy_put [OF t] by simp
  moreover have "do { s \<leftarrow> new_page q s; cut_block n q s } = Some (q + (2097152 - n), t)" using r(1) t'(1) by simp
  moreover have "dom ?lay = insert q (dom lay)" by simp
  ultimately show ?thesis by blast
qed

lemma bsr_power: "bsr (2 ^ j) = j"
  by (rule bsr_unique) simp_all

lemma heap_alloc_held:
  assumes ok: "fc_ok s lay" and t: "tidy_layout lay" and q: "page_fresh q lay" and n: "n = 2 ^ j" "5 \<le> j" "j \<le> 20"
  shows "\<exists>h t lay'. heap_alloc n q s = Some (h, t) \<and> served n s lay h t lay' \<and> dom lay' \<subseteq> insert q (dom lay)"
proof -
  have n32: "32 \<le> n" using power_increasing [of 5 j "2 :: nat"] n(1,2) by simp
  have b: "bsr n = j" "bsr n \<le> 32" using n(3) unfolding n(1) bsr_power by simp_all
  have cs: "CHECK_SIZE n = Some ()" using power_of_2 n(1) by simp
  from find_block_ok [OF ok b(2)] show ?thesis
  proof (elim disjE conjE exE)
    assume f: "find_block (bsr n) s = Some (0, s)"
    obtain h t lay' where a: "do { s \<leftarrow> new_page q s; cut_block n q s } = Some (h, t)" "served n s lay h t lay'" "dom lay' = insert q (dom lay)"
      using alloc_page [OF ok t q n] by blast
    have "heap_alloc n q s = Some (h, t)" using n32 cs f a(1) by (simp add: heap_alloc_def)
    then show ?thesis using a(2,3) by blast
  next
    fix p us N vs r u
    assume p: "lay p = Some (us @ (N, {Queued}) # vs)" and N: "bsr n \<le> bsr N" and f: "find_block (bsr n) s = Some (p + bytes us, r)" "blk r = blk s"
      and u: "set_queued False (p + bytes us) r = Some u" "fc_ok u (lay(p \<mapsto> us @ (N, {}) # vs))" "small u = small s"
    obtain b where b': "blk s (p + bytes us) = Some b" "flags b = {Queued}" "block_size b = N" "bsize b \<noteq> 0" "bsize b \<noteq> 0xbad" "0 < p + bytes us" "32 \<le> N"
      using block_at [OF ok p] by blast
    have "n \<le> 2 ^ bsr N" unfolding n(1) using N b(1) by (intro power_increasing) simp_all
    also have "\<dots> \<le> N" using b'(7) by (intro bsr_le) simp
    finally have nN: "n \<le> N" .
    obtain h t lay' where a: "(if N - 32 < n then do { s \<leftarrow> set_active True (p + bytes us) u; Some (p + bytes us, s) } else cut_block n (p + bytes us) u) = Some (h, t)"
      "served n s lay h t lay'" "dom lay' = dom lay" using alloc_found [OF ok t p n(1,2) nN u(2,3)] by blast
    have "heap_alloc n q s = Some (h, t)"
      unfolding heap_alloc_def using n32 cs f b' u(1) a(1) by simp
    then show ?thesis using a(2,3) by blast
  qed
qed

end
