(* ===== verification/FcHeapSmall.thy ===== *)
theory FcHeapSmall
  imports FcHeapTidy
begin

text \<open>
  The bitmaps for the small objects of the fc heap as sets: \<open>objs ws\<close> are the objects that the words \<open>ws\<close> mark as free.
  A scan finds one unless there is none; taking or returning an object removes or adds it.
\<close>

unbundle bit_operations_syntax

definition objs :: "64 word list \<Rightarrow> nat set" where
  "objs ws = {i. i < 64 * length ws \<and> bit (ws ! (i div 64)) (63 - i mod 64)}"

lemma bit_flip: "k < 64 \<Longrightarrow> n < 64 \<Longrightarrow> bit (w XOR push_bit n (1 :: 64 word)) k \<longleftrightarrow> bit w k \<noteq> (k = n)"
  by (auto simp: bit_simps)

lemma index_place: "b < 64 \<Longrightarrow> i div 64 = q \<and> 63 - i mod 64 = 63 - b \<longleftrightarrow> i = q * 64 + (b :: nat)"
proof
  assume b: "b < 64" and i: "i div 64 = q \<and> 63 - i mod 64 = 63 - b"
  have "i mod 64 < 64" by simp
  then have "i mod 64 = b" using i b by linarith
  then show "i = q * 64 + b" using i div_mult_mod_eq [of i 64] by simp
qed simp

lemma objs_flip:
  assumes q: "q < length ws" and b: "b < 64"
  shows "objs (ws[q := ws ! q XOR push_bit (63 - b) 1]) = {i. (i \<in> objs ws) \<noteq> (i = q * 64 + b)}"
proof (rule set_eqI)
  fix i
  let ?ws = "ws[q := ws ! q XOR push_bit (63 - b) 1]"
  show "i \<in> objs ?ws \<longleftrightarrow> i \<in> {i. (i \<in> objs ws) \<noteq> (i = q * 64 + b)}"
  proof (cases "i < 64 * length ws")
    case False
    then show ?thesis using q b by (simp add: objs_def)
  next
    case True
    show ?thesis
    proof (cases "i div 64 = q")
      case iq: True
      have k: "63 - i mod 64 < (64::nat)" "63 - b < (64::nat)" by simp_all
      have "63 - i mod 64 = 63 - b \<longleftrightarrow> i = q * 64 + b" using index_place [OF b, of i q] iq by simp
      then show ?thesis using True iq q bit_flip [OF k, of "ws ! q"] by (simp add: objs_def)
    next
      case False
      then have "i \<noteq> q * 64 + b" using b by auto
      then show ?thesis using False True by (simp add: objs_def)
    qed
  qed
qed

lemma objs_empty: "objs ws = {} \<longleftrightarrow> (\<forall>w \<in> set ws. w = 0)"
proof
  assume e: "objs ws = {}"
  show "\<forall>w \<in> set ws. w = 0"
  proof
    fix w assume "w \<in> set ws"
    then obtain q where q: "q < length ws" "w = ws ! q" by (auto simp: in_set_conv_nth)
    have "\<not> bit w (63 - b)" if "b < 64" for b
    proof -
      have "q * 64 + b \<notin> objs ws" using e by simp
      then show ?thesis using q that by (simp add: objs_def)
    qed
    then show "w = 0" using word_zero_iff [of w] by blast
  qed
next
  assume z: "\<forall>w \<in> set ws. w = 0"
  have "i \<notin> objs ws" for i
  proof
    assume "i \<in> objs ws"
    then have i: "i < 64 * length ws" "bit (ws ! (i div 64)) (63 - i mod 64)" by (simp_all add: objs_def)
    then have "ws ! (i div 64) \<in> set ws" by (simp add: div_less_iff_less_mult)
    then have "ws ! (i div 64) = 0" using z by blast
    then show False using i(2) by simp
  qed
  then show "objs ws = {}" by blast
qed

section \<open>The scan\<close>

lemma scan_word_ok:
  assumes "pos < length ws" and "scan_word c pos ws = (q, found)"
  shows "q < length ws \<and> (found \<longrightarrow> ws ! q \<noteq> 0) \<and> (\<not> found \<longrightarrow> (\<forall>i < c. ws ! ((pos + i) mod length ws) = 0))"
  using assms
proof (induction c arbitrary: pos)
  case (Suc c)
  show ?case
  proof (cases "ws ! pos = 0")
    case False
    then show ?thesis using Suc.prems by auto
  next
    case zero: True
    define nx where "nx = (if pos + 1 = length ws then 0 else pos + 1)"
    have step: "(if c = 0 then (nx, False) else scan_word c nx ws) = (q, found)"
      using Suc.prems(2) zero by (simp add: nx_def Let_def split: if_splits)
    have nx: "nx < length ws" "nx = (pos + 1) mod length ws" using Suc.prems(1) by (auto simp: nx_def)
    show ?thesis
    proof (cases c)
      case 0
      then have "q = nx" "\<not> found" using step by auto
      then show ?thesis using nx(1) zero Suc.prems(1) 0 by simp
    next
      case (Suc d)
      then have s: "scan_word c nx ws = (q, found)" using step by (simp only: nat.distinct if_False)
      note ih = Suc.IH [OF nx(1) s]
      have "ws ! ((pos + i) mod length ws) = 0" if "\<not> found" "i < Suc c" for i
      proof (cases i)
        case 0
        then show ?thesis using zero Suc.prems(1) by simp
      next
        case (Suc j)
        then have "ws ! ((nx + j) mod length ws) = 0" using ih that by simp
        moreover have "(nx + j) mod length ws = (pos + i) mod length ws" unfolding nx(2) mod_add_left_eq using Suc by simp
        ultimately show ?thesis by simp
      qed
      then show ?thesis using ih by blast
    qed
  qed
qed auto

lemma scan_all:
  assumes pos: "pos < length ws" and s: "scan_word (length ws) pos ws = (q, found)"
  shows "q < length ws" "found \<Longrightarrow> ws ! q \<noteq> 0" "found \<longleftrightarrow> objs ws \<noteq> {}"
proof -
  note ok = scan_word_ok [OF pos s]
  show f: "ws ! q \<noteq> 0" if found using ok that by blast
  show q: "q < length ws" using ok by blast
  show "found \<longleftrightarrow> objs ws \<noteq> {}"
  proof (cases found)
    case True
    then show ?thesis using f q by (auto simp: objs_empty)
  next
    case False
    have "w = 0" if w: "w \<in> set ws" for w
    proof -
      obtain j where j: "j < length ws" "w = ws ! j" using w by (auto simp: in_set_conv_nth)
      define i where "i = (j + (length ws - pos)) mod length ws"
      have "(pos + i) mod length ws = (pos + (j + (length ws - pos))) mod length ws" unfolding i_def by (rule mod_add_right_eq)
      also have "pos + (j + (length ws - pos)) = j + length ws" using pos by simp
      finally have "(pos + i) mod length ws = j" using j(1) by simp
      moreover have "i < length ws" unfolding i_def by (rule mod_less_divisor) (use pos in linarith)
      ultimately show ?thesis using ok False j(2) by auto
    qed
    then have "\<forall>w \<in> set ws. w = 0" by blast
    then show ?thesis using False objs_empty [of ws] by blast
  qed
qed

text \<open>A word with a free bit gives up an object, and an object in use comes back.\<close>

lemma take_bit_ok:
  assumes q: "q < length ws" and nz: "ws ! q \<noteq> 0" and t: "take_bit_of q ws = (i, ws')"
  shows "i \<in> objs ws \<and> objs ws' = objs ws - {i} \<and> length ws' = length ws"
proof -
  let ?b = "LZERO (ws ! q)"
  have "first_set_bit64 (ws ! q) = ?b" using nz by (simp add: first_set_bit64_def)
  moreover have "?b < 64"
    using first_set_bit64_spec [of "ws ! q"] nz word_zero_iff [of "ws ! q"] by (auto simp: first_set_bit64_def)
  ultimately have b: "?b < 64" "bit (ws ! q) (63 - ?b)" using first_set_bit64_spec [of "ws ! q"] by auto
  have i: "i = q * 64 + ?b" "ws' = ws[q := ws ! q XOR push_bit (63 - ?b) 1]" using t by (simp_all add: take_bit_of_def Let_def)
  have "i \<in> objs ws" using q b by (simp add: i objs_def)
  then show ?thesis using objs_flip [OF q b(1)] unfolding i by auto
qed

lemma flip_bit_ok:
  assumes "i < 64 * length ws" and "i \<notin> objs ws"
  shows "objs (flip_bit_of i ws) = insert i (objs ws) \<and> length (flip_bit_of i ws) = length ws"
proof -
  have "i div 64 < length ws" using assms(1) by (simp add: div_less_iff_less_mult mult.commute)
  then have "objs (flip_bit_of i ws) = {j. (j \<in> objs ws) \<noteq> (j = i div 64 * 64 + i mod 64)}"
    unfolding flip_bit_of_def by (rule objs_flip) simp
  also have "i div 64 * 64 + i mod 64 = i" by (rule div_mult_mod_eq)
  finally show ?thesis using assms(2) by (auto simp: flip_bit_of_def)
qed

end
