(* ===== verification/FcHeapHistory.thy ===== *)
theory FcHeapHistory
  imports FcHeapSmall
begin

text \<open>
  The histories of the fc heap: the blocks in use, small and large, as a set of addresses and sizes, and what the entry
  points \<open>fc_malloc\<close> and \<open>fc_free\<close> do to it.
\<close>

section \<open>Blocks in use\<close>

definition used32 :: "fc_heap \<Rightarrow> (nat \<times> nat) set" where
  "used32 s = {(free_32_data s + i * 32, 32) | i. i < 65536 \<and> i \<notin> objs (state_32 s)}"

definition used64 :: "fc_heap \<Rightarrow> (nat \<times> nat) set" where
  "used64 s = {(free_64_data s + i * 64, 64) | i. i < 32768 \<and> i \<notin> objs (state_64 s)}"

definition used_big :: "layout \<Rightarrow> (nat \<times> nat) set" where
  "used_big lay = {(h + 8, m - 8) | h m. (h, m) \<in> held_set lay}"

definition in_use :: "fc_heap \<Rightarrow> layout \<Rightarrow> (nat \<times> nat) set" where
  "in_use s lay = used32 s \<union> used64 s \<union> used_big lay"

definition small_ok :: "fc_heap \<Rightarrow> bool" where
  "small_ok s \<longleftrightarrow> length (state_32 s) = 1024 \<and> length (state_64 s) = 512 \<and> scan_32 s < 1024 \<and> scan_64 s < 512 \<and>
     0 < free_32_data s \<and> 0 < free_64_data s \<and> apart (free_32_data s) 2097152 (free_64_data s) 2097152"

definition places_ok :: "fc_heap \<Rightarrow> bool" where
  "places_ok s \<longleftrightarrow> (\<forall>p \<in> pages s. apart p 2097152 (free_32_data s) 2097152 \<and> apart p 2097152 (free_64_data s) 2097152)"

definition holds :: "(nat \<times> nat) set \<Rightarrow> (nat \<rightharpoonup> nat) \<Rightarrow> bool" where
  "holds U L \<longleftrightarrow> (\<forall>a k. L a = Some k \<longrightarrow> (\<exists>n. (a, n) \<in> U \<and> k \<le> n)) \<and> (\<forall>a n. (a, n) \<in> U \<longrightarrow> L a \<noteq> None)"

definition fc_inv :: "fc_heap \<Rightarrow> layout \<Rightarrow> (nat \<rightharpoonup> nat) \<Rightarrow> bool" where
  "fc_inv s lay L \<longleftrightarrow> fc_ok s lay \<and> tidy_layout lay \<and> small_ok s \<and> places_ok s \<and> holds (in_use s lay) L"

lemma fc_invD:
  assumes "fc_inv s lay L"
  shows "fc_ok s lay" "tidy_layout lay" "small_ok s" "places_ok s" "holds (in_use s lay) L"
  using assms by (simp_all add: fc_inv_def)

lemma small_okD:
  assumes "small_ok s"
  shows "length (state_32 s) = 1024" "length (state_64 s) = 512" "scan_32 s < 1024" "scan_64 s < 512" "0 < free_32_data s" "0 < free_64_data s"
    "apart (free_32_data s) 2097152 (free_64_data s) 2097152"
  using assms by (simp_all add: small_ok_def)

lemma used32_bounds: "(a, n) \<in> used32 s \<Longrightarrow> free_32_data s \<le> a \<and> a + n \<le> free_32_data s + 2097152 \<and> n = 32"
  by (auto simp: used32_def)

lemma used64_bounds: "(a, n) \<in> used64 s \<Longrightarrow> free_64_data s \<le> a \<and> a + n \<le> free_64_data s + 2097152 \<and> n = 64"
  by (auto simp: used64_def)

lemma used_big_bounds:
  assumes ok: "fc_ok s lay" and "(a, n) \<in> used_big lay"
  shows "\<exists>p \<in> pages s. p + 8 \<le> a \<and> a + n \<le> p + 2097152 \<and> 24 \<le> n"
proof -
  obtain h m where h: "a = h + 8" "n = m - 8" "(h, m) \<in> held_set lay" using assms(2) by (auto simp: used_big_def)
  obtain p where "p \<in> pages s" "p \<le> h" "h + m \<le> p + 2097152" "32 \<le> m" using held_bounds [OF fc_okD(1) [OF ok] h(3)] by blast
  then show ?thesis using h by (intro bexI [of _ p]) auto
qed

lemma grid_cells: "i \<noteq> j \<Longrightarrow> apart (d + i * k) k (d + j * k) k"
proof -
  assume "i \<noteq> j"
  then have "i + 1 \<le> j \<or> j + 1 \<le> i" by linarith
  then have "(i + 1) * k \<le> j * k \<or> (j + 1) * k \<le> i * k" using mult_le_mono1 by blast
  then show ?thesis by (auto simp: apart_def algebra_simps)
qed

text \<open>Every block in use is in one of the two arenas or in a page, none of which overlap.\<close>

lemma in_use_apart:
  assumes I: "fc_inv s lay L" and a: "(a, n) \<in> in_use s lay" and b: "(b, m) \<in> in_use s lay" and ne: "(a, n) \<noteq> (b, m)"
  shows "apart a n b m"
proof -
  note ok = fc_invD(1) [OF I] and S = small_okD [OF fc_invD(3) [OF I]]
  have P: "apart p 2097152 (free_32_data s) 2097152" "apart p 2097152 (free_64_data s) 2097152" if "p \<in> pages s" for p
    using fc_invD(4) [OF I] that by (simp_all add: places_ok_def)
  have mixed: "apart x k y j" if x: "(x, k) \<in> in_use s lay" and y: "(y, j) \<in> used_big lay" and o: "(x, k) \<notin> used_big lay" for x k y j
  proof -
    obtain p where p: "p \<in> pages s" "p + 8 \<le> y" "y + j \<le> p + 2097152" using used_big_bounds [OF ok y] by blast
    have "(x, k) \<in> used32 s \<or> (x, k) \<in> used64 s" using x o by (auto simp: in_use_def)
    then show ?thesis using used32_bounds [of x k s] used64_bounds [of x k s] P [OF p(1)] p(2,3) unfolding apart_def by linarith
  qed
  consider (big) "(a, n) \<in> used_big lay" "(b, m) \<in> used_big lay" | (l) "(a, n) \<in> used_big lay" "(b, m) \<notin> used_big lay"
    | (r) "(a, n) \<notin> used_big lay" "(b, m) \<in> used_big lay" | (s32) "(a, n) \<in> used32 s" "(b, m) \<in> used32 s" | (s64) "(a, n) \<in> used64 s" "(b, m) \<in> used64 s"
    | (x1) "(a, n) \<in> used32 s" "(b, m) \<in> used64 s" | (x2) "(a, n) \<in> used64 s" "(b, m) \<in> used32 s"
    using a b unfolding in_use_def by blast
  then show ?thesis
  proof cases
    case big
    obtain h k g j where h: "a = h + 8" "n = k - 8" "(h, k) \<in> held_set lay" "b = g + 8" "m = j - 8" "(g, j) \<in> held_set lay"
      using big by (auto simp: used_big_def)
    have "h \<noteq> g" using held_unique [OF fc_okD(1) [OF ok] h(3), of j] h ne by auto
    then have "apart h k g j" using held_apart [OF fc_okD(1) [OF ok] h(3,6)] by blast
    then show ?thesis using h by (auto simp: apart_def)
  next
    case l
    then show ?thesis using mixed [OF b, of a n] apart_sym by blast
  next
    case r
    then show ?thesis using mixed [OF a, of b m] by blast
  next
    case s32
    then obtain i j where "a = free_32_data s + i * 32" "n = 32" "b = free_32_data s + j * 32" "m = 32" by (auto simp: used32_def)
    then show ?thesis using ne grid_cells [of i j "free_32_data s" 32] by auto
  next
    case s64
    then obtain i j where "a = free_64_data s + i * 64" "n = 64" "b = free_64_data s + j * 64" "m = 64" by (auto simp: used64_def)
    then show ?thesis using ne grid_cells [of i j "free_64_data s" 64] by auto
  next
    case x1
    then show ?thesis using used32_bounds [OF x1(1)] used64_bounds [OF x1(2)] S(7) unfolding apart_def by linarith
  next
    case x2
    then show ?thesis using used64_bounds [OF x2(1)] used32_bounds [OF x2(2)] S(7) unfolding apart_def by linarith
  qed
qed

lemma in_use_pos:
  assumes I: "fc_inv s lay L" and a: "(a, n) \<in> in_use s lay"
  shows "0 < n" "0 < a"
proof -
  have "(a, n) \<in> used32 s \<or> (a, n) \<in> used64 s \<or> (a, n) \<in> used_big lay" using a by (auto simp: in_use_def)
  moreover have "24 \<le> n \<and> 8 \<le> a" if x: "(a, n) \<in> used_big lay" using used_big_bounds [OF fc_invD(1) [OF I] x] by auto
  ultimately show "0 < n" "0 < a" using used32_bounds [of a n s] used64_bounds [of a n s] small_okD(5,6) [OF fc_invD(3) [OF I]] by auto
qed

lemma in_use_unique:
  assumes I: "fc_inv s lay L" and a: "(a, n) \<in> in_use s lay" "(a, m) \<in> in_use s lay"
  shows "n = m"
proof (rule ccontr)
  assume "n \<noteq> m"
  then have "apart a n a m" using in_use_apart [OF I a] by simp
  then show False using in_use_pos(1) [OF I a(1)] in_use_pos(1) [OF I a(2)] by (simp add: apart_def)
qed

lemma holds_insert: "holds U L \<Longrightarrow> n \<le> m \<Longrightarrow> holds (insert (a, m) U) (L(a \<mapsto> n))"
  unfolding holds_def by (auto split: if_splits)

lemma holds_remove:
  assumes "holds U L" and "\<And>n. (a, n) \<in> U \<Longrightarrow> n = m"
  shows "holds (U - {(a, m)}) (L(a := None))"
  unfolding holds_def
proof (intro conjI allI impI)
  fix b k assume "(L(a := None)) b = Some k"
  then have b: "b \<noteq> a" "L b = Some k" by (auto split: if_splits)
  then obtain n where "(b, n) \<in> U" "k \<le> n" using assms(1) unfolding holds_def by blast
  then show "\<exists>n. (b, n) \<in> U - {(a, m)} \<and> k \<le> n" using b(1) by blast
next
  fix b n assume x: "(b, n) \<in> U - {(a, m)}"
  then have "b \<noteq> a" using assms(2) by blast
  moreover have "L b \<noteq> None" using x assms(1) unfolding holds_def by blast
  ultimately show "(L(a := None)) b \<noteq> None" by simp
qed

section \<open>Small objects\<close>

definition core :: "fc_heap \<Rightarrow> (nat \<rightharpoonup> block_header) \<times> (nat \<rightharpoonup> queue_state) \<times> nat set \<times> (nat \<Rightarrow> nat) \<times> nat \<times> nat" where
  "core s = (blk s, qs s, pages s, bins s, free_32_data s, free_64_data s)"

lemma coreD:
  assumes "core t = core s"
  shows "fc_ok t lay = fc_ok s lay" "pages t = pages s" "places_ok t = places_ok s" "free_32_data t = free_32_data s" "free_64_data t = free_64_data s"
  using assms by (simp_all add: core_def fc_ok_def places_ok_def)

lemma alloc64_ok:
  assumes S: "small_ok s" and a: "alloc64 s = (a, t)"
  shows "small_ok t \<and> core t = core s \<and> state_32 t = state_32 s \<and>
    (if objs (state_64 s) = {} then a = 0 \<and> state_64 t = state_64 s
     else 0 < a \<and> (a, 64) \<notin> used64 s \<and> used64 t = insert (a, 64) (used64 s))"
proof -
  note D = small_okD [OF S]
  obtain q found where sc: "scan_word (length (state_64 s)) (scan_64 s) (state_64 s) = (q, found)"
    by (cases "scan_word (length (state_64 s)) (scan_64 s) (state_64 s)")
  have pos: "scan_64 s < length (state_64 s)" using D(2,4) by simp
  note sp = scan_all [OF pos sc]
  show ?thesis
  proof (cases found)
    case False
    then have "a = 0" "t = s\<lparr>scan_64 := q\<rparr>" using a sc by (simp_all add: alloc64_def)
    then show ?thesis using False sp S D(2) by (simp add: small_ok_def core_def)
  next
    case True
    obtain i ws where i: "take_bit_of q (state_64 s) = (i, ws)" by (cases "take_bit_of q (state_64 s)")
    note tk = take_bit_ok [OF sp(1) sp(2) [OF True] i]
    have t: "a = free_64_data s + i * 64" "t = s\<lparr>scan_64 := q, state_64 := ws\<rparr>" using a sc True i by (simp_all add: alloc64_def)
    have "i < 32768" using tk D(2) by (auto simp: objs_def)
    then have "used64 t = insert (a, 64) (used64 s)" unfolding used64_def t using tk by auto
    moreover have "(a, 64) \<notin> used64 s" using tk unfolding used64_def t by auto
    ultimately show ?thesis using True sp S D tk t by (auto simp: small_ok_def core_def)
  qed
qed

lemma alloc32_ok:
  assumes S: "small_ok s" and a: "alloc32 s = (a, t)"
  shows "small_ok t \<and> core t = core s \<and>
    (if objs (state_32 s) \<noteq> {} then 0 < a \<and> state_64 t = state_64 s \<and> (a, 32) \<notin> used32 s \<and> used32 t = insert (a, 32) (used32 s)
     else state_32 t = state_32 s \<and> (if objs (state_64 s) = {} then a = 0 \<and> state_64 t = state_64 s
       else 0 < a \<and> (a, 64) \<notin> used64 s \<and> used64 t = insert (a, 64) (used64 s)))"
proof -
  note D = small_okD [OF S]
  obtain q found where sc: "scan_word (length (state_32 s)) (scan_32 s) (state_32 s) = (q, found)"
    by (cases "scan_word (length (state_32 s)) (scan_32 s) (state_32 s)")
  have pos: "scan_32 s < length (state_32 s)" using D(1,3) by simp
  note sp = scan_all [OF pos sc]
  show ?thesis
  proof (cases found)
    case False
    let ?r = "s\<lparr>scan_32 := q\<rparr>"
    have r: "small_ok ?r" "core ?r = core s" "used64 ?r = used64 s" using S sp(1) D(1) by (simp_all add: small_ok_def core_def used64_def)
    have "alloc64 ?r = (a, t)" using a sc False by (simp add: alloc32_def)
    note al = alloc64_ok [OF r(1) this, unfolded r(2,3)]
    show ?thesis using al False sp(3) by (cases "objs (state_64 s) = {}") simp_all
  next
    case True
    obtain i ws where i: "take_bit_of q (state_32 s) = (i, ws)" by (cases "take_bit_of q (state_32 s)")
    note tk = take_bit_ok [OF sp(1) sp(2) [OF True] i]
    have t: "a = free_32_data s + i * 32" "t = s\<lparr>scan_32 := q, state_32 := ws\<rparr>" using a sc True i by (simp_all add: alloc32_def)
    have "i < 65536" using tk D(1) by (auto simp: objs_def)
    then have "used32 t = insert (a, 32) (used32 s)" unfolding used32_def t using tk by auto
    moreover have "(a, 32) \<notin> used32 s" using tk unfolding used32_def t by auto
    ultimately show ?thesis using True sp S D tk t by (auto simp: small_ok_def core_def)
  qed
qed

lemma used_cong: "state_32 t = state_32 s \<Longrightarrow> core t = core s \<Longrightarrow> used32 t = used32 s"
  "state_64 t = state_64 s \<Longrightarrow> core t = core s \<Longrightarrow> used64 t = used64 s"
  by (simp_all add: used32_def used64_def core_def)

text \<open>A request of up to 64 bytes is met from the bitmaps or not at all.\<close>

definition exhausted :: "nat \<Rightarrow> fc_heap \<Rightarrow> bool" where
  "exhausted n s \<longleftrightarrow> n \<le> 64 \<and> objs (state_64 s) = {} \<and> (n \<le> 32 \<longrightarrow> objs (state_32 s) = {})"

lemma small_malloc:
  assumes I: "fc_inv s lay L" and n: "n \<le> 64" and a: "(if n \<le> 32 then alloc32 s else alloc64 s) = (a, t)"
  shows "(if exhausted n s then a = 0 \<and> fc_inv t lay L else 0 < a \<and> L a = None \<and> fc_inv t lay (L(a \<mapsto> n)))"
proof -
  note D = fc_invD [OF I]
  have key: "small_ok t \<and> core t = core s \<and>
      (if exhausted n s then a = 0 \<and> used32 t = used32 s \<and> used64 t = used64 s
       else 0 < a \<and> (\<exists>m. n \<le> m \<and> (a, m) \<notin> used32 s \<union> used64 s \<and> used32 t \<union> used64 t = insert (a, m) (used32 s \<union> used64 s)))"
  proof (cases "n \<le> 32")
    case True
    have al: "alloc32 s = (a, t)" using a True by simp
    note r = alloc32_ok [OF D(3) al]
    show ?thesis
    proof (cases "objs (state_32 s) = {}")
      case False
      then have e: "\<not> exhausted n s" using True by (simp add: exhausted_def)
      have u: "used64 t = used64 s" "used32 t = insert (a, 32) (used32 s)" "0 < a" "(a, 32) \<notin> used32 s" using r False used_cong(2) [of t s] by auto
      have "(a, 32) \<notin> used64 s" using used64_bounds [of a 32 s] by auto
      then show ?thesis using r e u True by (auto intro!: exI [of _ 32])
    next
      case e32: True
      have u32: "used32 t = used32 s" using r e32 used_cong(1) [of t s] by simp
      show ?thesis
      proof (cases "objs (state_64 s) = {}")
        case True
        then have "exhausted n s" using e32 n by (simp add: exhausted_def)
        then show ?thesis using r e32 True u32 used_cong(2) [of t s] by simp
      next
        case False
        then have e: "\<not> exhausted n s" by (simp add: exhausted_def)
        have u: "used64 t = insert (a, 64) (used64 s)" "0 < a" "(a, 64) \<notin> used64 s" using r e32 False by simp_all
        have "(a, 64) \<notin> used32 s" using used32_bounds [of a 64 s] by auto
        then show ?thesis using r e u u32 n by (auto intro!: exI [of _ 64])
      qed
    qed
  next
    case False
    have al: "alloc64 s = (a, t)" using a False by simp
    note r = alloc64_ok [OF D(3) al]
    have u32: "used32 t = used32 s" using r used_cong(1) [of t s] by simp
    show ?thesis
    proof (cases "objs (state_64 s) = {}")
      case True
      then have "exhausted n s" using False n by (simp add: exhausted_def)
      then show ?thesis using r True u32 used_cong(2) [of t s] by simp
    next
      case o: False
      then have e: "\<not> exhausted n s" by (simp add: exhausted_def)
      have u: "used64 t = insert (a, 64) (used64 s)" "0 < a" "(a, 64) \<notin> used64 s" using r o by simp_all
      have "(a, 64) \<notin> used32 s" using used32_bounds [of a 64 s] by auto
      then show ?thesis using r e u u32 n by (auto intro!: exI [of _ 64])
    qed
  qed
  note C = coreD [of t s]
  show ?thesis
  proof (cases "exhausted n s")
    case True
    then have "in_use t lay = in_use s lay" using key by (simp add: in_use_def)
    then show ?thesis using True key D C by (simp add: fc_inv_def)
  next
    case False
    obtain m where m: "n \<le> m" "(a, m) \<notin> used32 s \<union> used64 s" "used32 t \<union> used64 t = insert (a, m) (used32 s \<union> used64 s)" using key False by auto
    have u: "in_use t lay = insert (a, m) (in_use s lay)" using m(3) by (auto simp: in_use_def)
    have J: "fc_inv t lay (L(a \<mapsto> n))" using key D C holds_insert [OF D(5) m(1)] by (simp add: fc_inv_def u)
    have "L a = None"
    proof (rule ccontr)
      assume "L a \<noteq> None"
      then obtain k where k: "(a, k) \<in> in_use s lay" using D(5) unfolding holds_def by blast
      have "k = m" using in_use_unique [OF J, of a k m] k u by simp
      then have "(a, m) \<in> used_big lay" using k m(2) by (simp add: in_use_def)
      then obtain p where p: "p \<in> pages s" "p + 8 \<le> a" "a + m \<le> p + 2097152" using used_big_bounds [OF D(1)] by blast
      have "(a, m) \<in> used32 t \<or> (a, m) \<in> used64 t" using m(3) by blast
      moreover have "apart p 2097152 (free_32_data t) 2097152" "apart p 2097152 (free_64_data t) 2097152"
        using fc_invD(4) [OF J] C(2) p(1) key by (simp_all add: places_ok_def)
      moreover have "0 < m" using in_use_pos(1) [OF J, of a m] u by simp
      ultimately show False using used32_bounds [of a m t] used64_bounds [of a m t] p(2,3) unfolding apart_def by linarith
    qed
    then show ?thesis using False key J by simp
  qed
qed

section \<open>Large blocks\<close>

text \<open>The answers of the system for a page.\<close>

definition page_answer :: "nat \<Rightarrow> fc_heap \<Rightarrow> bool" where
  "page_answer p s \<longleftrightarrow> 0 < p \<and> (\<forall>q \<in> pages s \<union> {free_32_data s, free_64_data s}. apart p 2097152 q 2097152)"

lemma smallD: "small t = small s \<Longrightarrow> free_32_data t = free_32_data s \<and> free_64_data t = free_64_data s \<and> small_ok t = small_ok s \<and>
    used32 t = used32 s \<and> used64 t = used64 s"
  by (simp add: small_def small_ok_def used32_def used64_def)

lemma request_size:
  assumes n: "64 < n" "n + 8 \<le> 2 ^ 20"
  shows "\<exists>j. bsr (n + 8 - 1) + 1 = j \<and> 5 \<le> j \<and> j \<le> 20 \<and> n + 8 \<le> 2 ^ j"
proof -
  let ?k = "n + 8 - 1" and ?j = "bsr (n + 8 - 1) + 1"
  have lt: "?k < 2 ^ ?j" using bsr_less [of ?k] by simp
  have "(2::nat) ^ bsr ?k \<le> ?k" using n(1) by (intro bsr_le) simp
  then have "(2::nat) ^ bsr ?k < 2 ^ 20" using n by linarith
  then have "bsr ?k < 20" by (simp only: power_strict_increasing_iff one_less_numeral_iff semiring_norm)
  moreover have "(2::nat) ^ 6 < 2 ^ ?j" using lt n(1) by simp
  then have "6 < ?j" by (simp only: power_strict_increasing_iff one_less_numeral_iff semiring_norm)
  ultimately show ?thesis using lt by auto
qed

lemma used_big_insert: "used_big lay' = insert (h + 8, m - 8) (used_big lay)" if "held_set lay' = insert (h, m) (held_set lay)"
  using that by (auto simp: used_big_def)

lemma held_active:
  assumes ok: "fc_ok s lay" and h: "(h, m) \<in> held_set lay"
  shows "\<exists>b. blk s h = Some b \<and> Active \<in> flags b"
proof -
  obtain p bs where p: "lay p = Some bs" "(h, m, {Active}) \<in> set (spots p bs)" using h unfolding held_set_iff by blast
  obtain us vs where "bs = us @ (m, {Active}) # vs" "h = p + bytes us" using spots_split [OF p(2)] .
  then show ?thesis using block_at [OF ok, of p us m "{Active}" vs] p(1) by auto
qed

lemma big_malloc:
  assumes I: "fc_inv s lay L" and n: "64 < n" "n + 8 \<le> 2 ^ 20" and p: "page_answer p s"
  shows "\<exists>a t lay'. fc_malloc n p s = Some (a, t) \<and> 0 < a \<and> L a = None \<and> fc_inv t lay' (L(a \<mapsto> n))"
proof -
  note D = fc_invD [OF I] and L = fc_okD(1) [OF fc_invD(1) [OF I]]
  obtain j where j: "bsr (n + 8 - 1) + 1 = j" "5 \<le> j" "j \<le> 20" "n + 8 \<le> 2 ^ j" using request_size [OF n] by blast
  have fresh: "page_fresh p lay" using p layout_okD(1) [OF L] by (auto simp: page_answer_def page_fresh_def)
  obtain h t lay' where a: "heap_alloc (2 ^ j) p s = Some (h, t)" "served (2 ^ j) s lay h t lay'" "dom lay' \<subseteq> insert p (dom lay)"
    using heap_alloc_held [OF D(1,2) fresh refl j(2,3)] by blast
  have sv: "fc_ok t lay'" "tidy_layout lay'" "held_set lay' = insert (h, 2 ^ j) (held_set lay)" "\<And>m. (h, m) \<notin> held_set lay" "small t = small s"
    using a(2) by (simp_all add: served_def)
  obtain b where b: "blk t h = Some b" "Active \<in> flags b" using held_active [OF sv(1), of h "2 ^ j"] sv(3) by auto
  have m: "fc_malloc n p s = Some (h + 8, t)"
  proof -
    have "(2::nat) ^ 5 \<le> 2 ^ j" using j(2) by (intro power_increasing) simp_all
    then have "\<not> (2 ^ j < (24 :: nat))" by simp
    moreover have "(n + 8) mod 2 ^ 64 = n + 8" "(if n + 8 < 32 then 32 else n + 8) = n + 8" using n by simp_all
    ultimately show ?thesis unfolding fc_malloc_def Let_def using n(1) j a(1) b by (simp only:) simp
  qed
  have pt: "pages t \<subseteq> insert p (pages s)" using a(3) layout_okD(1) [OF L] layout_okD(1) [OF fc_okD(1) [OF sv(1)]] by simp
  note sm = smallD [OF sv(5)]
  have pl: "places_ok t" using pt D(4) p by (auto simp: places_ok_def page_answer_def sm)
  have u: "in_use t lay' = insert (h + 8, 2 ^ j - 8) (in_use s lay)" using used_big_insert [OF sv(3)] sm by (simp add: in_use_def)
  have J: "fc_inv t lay' (L(h + 8 \<mapsto> n))"
    unfolding fc_inv_def u using sv(1,2) D(3) sm pl holds_insert [OF D(5), of n "2 ^ j - 8" "h + 8"] j(4) by simp
  have "L (h + 8) = None"
  proof (rule ccontr)
    assume "L (h + 8) \<noteq> None"
    then obtain k where k: "(h + 8, k) \<in> in_use s lay" using D(5) unfolding holds_def by blast
    have top: "(h + 8, 2 ^ j - 8) \<in> used_big lay'" using sv(3) by (auto simp: used_big_def)
    obtain q where q: "q \<in> pages t" "q + 8 \<le> h + 8" "h + 8 + (2 ^ j - 8) \<le> q + 2097152" "24 \<le> (2 :: nat) ^ j - 8"
      using used_big_bounds [OF sv(1) top] by blast
    have ap: "apart q 2097152 (free_32_data s) 2097152" "apart q 2097152 (free_64_data s) 2097152" using pl q(1) sm by (simp_all add: places_ok_def)
    have nb: "(h + 8, k) \<notin> used_big lay"
    proof
      assume "(h + 8, k) \<in> used_big lay"
      then obtain g m where "h + 8 = g + 8" "(g, m) \<in> held_set lay" by (auto simp: used_big_def)
      then show False using sv(4) by simp
    qed
    have "(h + 8, k) \<in> used32 s \<or> (h + 8, k) \<in> used64 s" using k nb by (auto simp: in_use_def)
    then show False using used32_bounds [of "h + 8" k s] used64_bounds [of "h + 8" k s] ap q(2-4) unfolding apart_def by linarith
  qed
  then show ?thesis using m J by (intro exI [of _ "h + 8"] exI [of _ t] exI [of _ lay']) simp
qed

section \<open>Release\<close>

lemma cells_remove:
  "0 < k \<Longrightarrow> {(d + j * k, k) | j :: nat. j < N \<and> j \<notin> insert i X} = {(d + j * k, k) | j. j < N \<and> j \<notin> X} - {(d + i * k, k)}"
proof (intro set_eqI iffI)
  fix x assume k: "0 < k" and "x \<in> {(d + j * k, k) | j. j < N \<and> j \<notin> insert i X}"
  then obtain j where j: "x = (d + j * k, k)" "j < N" "j \<notin> X" "j \<noteq> i" by blast
  then have "x \<noteq> (d + i * k, k)" using k by simp
  then show "x \<in> {(d + j * k, k) | j. j < N \<and> j \<notin> X} - {(d + i * k, k)}" using j by blast
next
  fix x assume "x \<in> {(d + j * k, k) | j. j < N \<and> j \<notin> X} - {(d + i * k, k)}"
  then obtain j where j: "x = (d + j * k, k)" "j < N" "j \<notin> X" "x \<noteq> (d + i * k, k)" by blast
  then have "j \<noteq> i" by blast
  then show "x \<in> {(d + j * k, k) | j. j < N \<and> j \<notin> insert i X}" using j by blast
qed

lemma used_kinds:
  assumes I: "fc_inv s lay L"
  shows "(a, m) \<in> used32 s \<Longrightarrow> (a, m) \<notin> used64 s \<and> (a, m) \<notin> used_big lay" and "(a, m) \<in> used64 s \<Longrightarrow> (a, m) \<notin> used_big lay"
proof -
  note D = fc_invD [OF I]
  have big: "\<not> (free_32_data s \<le> a \<and> a + m \<le> free_32_data s + 2097152) \<and> \<not> (free_64_data s \<le> a \<and> a + m \<le> free_64_data s + 2097152)"
    if x: "(a, m) \<in> used_big lay"
  proof -
    obtain p where p: "p \<in> pages s" "p + 8 \<le> a" "a + m \<le> p + 2097152" "24 \<le> m" using used_big_bounds [OF D(1) x] by blast
    have "apart p 2097152 (free_32_data s) 2097152" "apart p 2097152 (free_64_data s) 2097152" using p(1) D(4) by (simp_all add: places_ok_def)
    then show ?thesis using p(2-4) unfolding apart_def by linarith
  qed
  show "(a, m) \<notin> used64 s \<and> (a, m) \<notin> used_big lay" if x: "(a, m) \<in> used32 s"
    using used32_bounds [OF x] used64_bounds [of a m s] big by auto
  show "(a, m) \<notin> used_big lay" if x: "(a, m) \<in> used64 s" using used64_bounds [OF x] big by auto
qed

lemma fc_free_32:
  assumes I: "fc_inv s lay L" and s32: "(a, m) \<in> used32 s" and H: "holds (in_use s lay - {(a, m)}) (L(a := None))"
  shows "\<exists>t lay'. fc_free a s = Some t \<and> fc_inv t lay' (L(a := None)) \<and> pages t \<subseteq> pages s"
proof -
  note D = fc_invD [OF I] and S = small_okD [OF fc_invD(3) [OF I]]
  obtain i where i: "a = free_32_data s + i * 32" "m = 32" "i < 65536" "i \<notin> objs (state_32 s)" using s32 by (auto simp: used32_def)
  let ?t = "s\<lparr>state_32 := flip_bit_of i (state_32 s)\<rparr>"
  have fl: "objs (flip_bit_of i (state_32 s)) = insert i (objs (state_32 s))" "length (flip_bit_of i (state_32 s)) = 1024"
    using flip_bit_ok [of i "state_32 s"] i S(1) by simp_all
  have "fc_free a s = Some ?t" using i by (simp add: fc_free_def free32_def)
  moreover have "in_use ?t lay = in_use s lay - {(a, m)}"
  proof -
    have "used32 ?t = used32 s - {(a, m)}"
      using cells_remove [of 32 "free_32_data s" _ i "objs (state_32 s)"] unfolding used32_def i(1,2) by (simp add: fl(1))
    moreover have "(a, m) \<notin> used64 s" "(a, m) \<notin> used_big lay" using used_kinds [OF I, of a m] s32 by blast+
    moreover have "used64 ?t = used64 s" by (simp add: used64_def)
    ultimately show ?thesis by (auto simp: in_use_def)
  qed
  moreover have "core ?t = core s" by (simp add: core_def)
  moreover have "small_ok ?t" using D(3) fl(2) by (simp add: small_ok_def)
  ultimately have "fc_inv ?t lay (L(a := None))" using D H coreD [of ?t s] by (simp add: fc_inv_def)
  then show ?thesis using \<open>fc_free a s = Some ?t\<close> by (intro exI [of _ ?t] exI [of _ lay]) simp
qed

lemma fc_free_64:
  assumes I: "fc_inv s lay L" and s64: "(a, m) \<in> used64 s" and H: "holds (in_use s lay - {(a, m)}) (L(a := None))"
  shows "\<exists>t lay'. fc_free a s = Some t \<and> fc_inv t lay' (L(a := None)) \<and> pages t \<subseteq> pages s"
proof -
  note D = fc_invD [OF I] and S = small_okD [OF fc_invD(3) [OF I]]
  obtain i where i: "a = free_64_data s + i * 64" "m = 64" "i < 32768" "i \<notin> objs (state_64 s)" using s64 by (auto simp: used64_def)
  let ?t = "s\<lparr>state_64 := flip_bit_of i (state_64 s)\<rparr>"
  have fl: "objs (flip_bit_of i (state_64 s)) = insert i (objs (state_64 s))" "length (flip_bit_of i (state_64 s)) = 512"
    using flip_bit_ok [of i "state_64 s"] i S(2) by simp_all
  have "\<not> (free_32_data s \<le> a \<and> a < free_32_data s + 2097152)" using used64_bounds [OF s64] S(7) unfolding apart_def by linarith
  then have "free32 a s = (False, s)" by (simp add: free32_def)
  moreover have "free64 a s = (True, ?t)" using i by (simp add: free64_def)
  ultimately have f: "fc_free a s = Some ?t" by (simp add: fc_free_def)
  have "in_use ?t lay = in_use s lay - {(a, m)}"
  proof -
    have "used64 ?t = used64 s - {(a, m)}"
      using cells_remove [of 64 "free_64_data s" _ i "objs (state_64 s)"] unfolding used64_def i(1,2) by (simp add: fl(1))
    moreover have "(a, m) \<notin> used32 s" "(a, m) \<notin> used_big lay" using used_kinds [OF I, of a m] s64 by blast+
    moreover have "used32 ?t = used32 s" by (simp add: used32_def)
    ultimately show ?thesis by (auto simp: in_use_def)
  qed
  moreover have "core ?t = core s" by (simp add: core_def)
  moreover have "small_ok ?t" using D(3) fl(2) by (simp add: small_ok_def)
  ultimately have "fc_inv ?t lay (L(a := None))" using D H coreD [of ?t s] by (simp add: fc_inv_def)
  then show ?thesis using f by (intro exI [of _ ?t] exI [of _ lay]) simp
qed

lemma fc_free_big:
  assumes I: "fc_inv s lay L" and big: "(a, m) \<in> used_big lay" and H: "holds (in_use s lay - {(a, m)}) (L(a := None))"
  shows "\<exists>t lay'. fc_free a s = Some t \<and> fc_inv t lay' (L(a := None)) \<and> pages t \<subseteq> pages s"
proof -
  note D = fc_invD [OF I] and S = small_okD [OF fc_invD(3) [OF I]]
  obtain h M where h: "a = h + 8" "m = M - 8" "(h, M) \<in> held_set lay" using big by (auto simp: used_big_def)
  obtain p where p: "p \<in> pages s" "p + 8 \<le> a" "a + m \<le> p + 2097152" "24 \<le> m" using used_big_bounds [OF D(1) big] by blast
  have ap: "apart p 2097152 (free_32_data s) 2097152" "apart p 2097152 (free_64_data s) 2097152" using p(1) D(4) by (simp_all add: places_ok_def)
  have "\<not> (free_32_data s \<le> a \<and> a < free_32_data s + 2097152)" "\<not> (free_64_data s \<le> a \<and> a < free_64_data s + 2097152)"
    using ap p(2-4) unfolding apart_def by linarith+
  then have "free32 a s = (False, s)" "free64 a s = (False, s)" by (simp_all only: free32_def free64_def PAGE_SIZE_eq if_False)
  then have f: "fc_free a s = heap_free h s" using h(1) by (simp add: fc_free_def)
  obtain r lay' where r: "heap_free h s = Some r" "fc_ok r lay'" "tidy_layout lay'" "held_set lay' = held_set lay - {(h, M)}" "pages r \<subseteq> pages s" "small r = small s"
    using heap_free_held [OF D(1,2) h(3)] by blast
  note sm = smallD [OF r(6)]
  have "used_big lay' = used_big lay - {(a, m)}"
  proof -
    have "(g, j) = (h, M)" if g: "(g, j) \<in> held_set lay" "(g + 8, j - 8) = (a, m)" for g j
    proof -
      have "g = h" using g(2) h(1) by simp
      then show ?thesis using held_unique [OF fc_okD(1) [OF D(1)] g(1), of M] h(3) by simp
    qed
    then have inj: "(g + 8, j - 8) \<noteq> (a, m)" if "(g, j) \<in> held_set lay" "(g, j) \<noteq> (h, M)" for g j using that by blast
    show ?thesis
    proof (intro set_eqI iffI)
      fix x assume "x \<in> used_big lay'"
      then obtain g j where g: "x = (g + 8, j - 8)" "(g, j) \<in> held_set lay" "(g, j) \<noteq> (h, M)" unfolding used_big_def r(4) by blast
      then show "x \<in> used_big lay - {(a, m)}" using inj [OF g(2,3)] unfolding used_big_def by blast
    next
      fix x assume "x \<in> used_big lay - {(a, m)}"
      then obtain g j where g: "x = (g + 8, j - 8)" "(g, j) \<in> held_set lay" "x \<noteq> (a, m)" unfolding used_big_def by blast
      then have "(g, j) \<noteq> (h, M)" using h(1,2) by blast
      then show "x \<in> used_big lay'" using g unfolding used_big_def r(4) by blast
    qed
  qed
  moreover have "(a, m) \<notin> used32 s" "(a, m) \<notin> used64 s" using used32_bounds [of a m s] used64_bounds [of a m s] ap p(2-4) unfolding apart_def by linarith+
  ultimately have u: "in_use r lay' = in_use s lay - {(a, m)}" using sm by (auto simp: in_use_def)
  have "places_ok r" using D(4) r(5) sm unfolding places_ok_def by auto
  then have "fc_inv r lay' (L(a := None))" using D r(2,3) sm H by (simp add: fc_inv_def u)
  then show ?thesis using f r(1,5) by (intro exI [of _ r] exI [of _ lay']) simp
qed

lemma fc_free_used:
  assumes I: "fc_inv s lay L" and L: "L a = Some k"
  shows "\<exists>t lay'. fc_free a s = Some t \<and> fc_inv t lay' (L(a := None)) \<and> pages t \<subseteq> pages s"
proof -
  note D = fc_invD [OF I]
  obtain m where m: "(a, m) \<in> in_use s lay" using L D(5) unfolding holds_def by blast
  have H: "holds (in_use s lay - {(a, m)}) (L(a := None))" by (rule holds_remove [OF D(5)]) (use in_use_unique [OF I _ m] in blast)
  have "(a, m) \<in> used32 s \<or> (a, m) \<in> used64 s \<or> (a, m) \<in> used_big lay" using m by (auto simp: in_use_def)
  then show ?thesis using fc_free_32 [OF I _ H] fc_free_64 [OF I _ H] fc_free_big [OF I _ H] by blast
qed

section \<open>Histories\<close>

text \<open>The client writes into a large block, over the links that a free block has there.\<close>

lemma fc_client_write:
  assumes I: "fc_inv s lay L" and h: "(h, m) \<in> held_set lay"
  shows "fc_inv (s\<lparr>qs := (qs s)(h := x)\<rparr>) lay L"
proof -
  note D = fc_invD [OF I]
  let ?t = "s\<lparr>qs := (qs s)(h := x)\<rparr>"
  obtain X where X: "\<And>j. dlist qprev qnext (qs s) (bins s j) (X j)" "\<And>j. distinct (X j)"
    "\<And>j. set (X j) = {a. \<exists>n. (a, n) \<in> free_set lay \<and> bsr n = j}"
    using fc_okD(2) [OF D(1)] unfolding bins_ok_def by blast
  have "h \<notin> set (X j)" for j using X(3) held_not_free [OF fc_okD(1) [OF D(1)] h] by auto
  then have "dlist qprev qnext ((qs s)(h := x)) (bins s j) (X j)" for j using X(1) [of j] by (subst dlist_cong [where M = "qs s"]) auto
  then have "bins_ok (qs ?t) (bins ?t) (free_set lay)" using X(2,3) unfolding bins_ok_def by (intro exI [of _ X]) simp
  then have "fc_ok ?t lay" using fc_okD(1) [OF D(1)] by (simp add: fc_ok_def)
  moreover have "in_use ?t lay = in_use s lay" by (simp add: in_use_def used32_def used64_def)
  ultimately show ?thesis using D by (simp add: fc_inv_def small_ok_def places_ok_def)
qed

inductive fc_reach :: "fc_heap \<Rightarrow> (nat \<rightharpoonup> nat) \<Rightarrow> bool" where
  start: "0 < d32 \<Longrightarrow> 0 < d64 \<Longrightarrow> apart d32 2097152 d64 2097152 \<Longrightarrow> fc_reach (fc_heap0 d32 d64) Map.empty"
| malloc: "fc_reach s L \<Longrightarrow> n + 8 \<le> 2 ^ 20 \<Longrightarrow> page_answer p s \<Longrightarrow> fc_malloc n p s = Some (a, t) \<Longrightarrow>
    fc_reach t (if a = 0 then L else L(a \<mapsto> n))"
| free: "fc_reach s L \<Longrightarrow> L a \<noteq> None \<Longrightarrow> fc_free a s = Some t \<Longrightarrow> fc_reach t (L(a := None))"
| put: "fc_reach s L \<Longrightarrow> L a \<noteq> None \<Longrightarrow> p \<in> pages s \<Longrightarrow> p \<le> a \<Longrightarrow> a < p + PAGE_SIZE \<Longrightarrow> fc_reach (s\<lparr>qs := (qs s)(a - 8 := x)\<rparr>) L"

lemma objs_ones: "objs (replicate k (- 1)) = {..< 64 * k}"
proof (rule set_eqI)
  fix i
  have "i < 64 * k \<Longrightarrow> replicate k (- 1 :: 64 word) ! (i div 64) = - 1" by (simp add: div_less_iff_less_mult mult.commute)
  then show "i \<in> objs (replicate k (- 1)) \<longleftrightarrow> i \<in> {..< 64 * k}" by (auto simp: objs_def)
qed

lemma fc_inv_init:
  assumes "0 < d32" and "0 < d64" and "apart d32 2097152 d64 2097152"
  shows "fc_inv (fc_heap0 d32 d64) Map.empty Map.empty"
proof -
  let ?s = "fc_heap0 d32 d64"
  have o: "objs (state_32 ?s) = {..< 65536}" "objs (state_64 ?s) = {..< 32768}"
    unfolding fc_heap0_def using objs_ones [of 1024] objs_ones [of 512] by simp_all
  have u: "in_use ?s Map.empty = {}" unfolding in_use_def used32_def used64_def o by (auto simp: used_big_def held_set_def)
  have "bins_ok (qs ?s) (bins ?s) {}" unfolding bins_ok_def by (intro exI [of _ "\<lambda>_. []"]) (simp add: fc_heap0_def)
  moreover have "layout_ok (blk ?s) (pages ?s) Map.empty" by (simp add: layout_ok_def fc_heap0_def)
  moreover have "free_set Map.empty = {}" by (simp add: free_set_def)
  ultimately have "fc_ok ?s Map.empty" by (simp add: fc_ok_def)
  moreover have "small_ok ?s" using assms by (simp add: small_ok_def fc_heap0_def)
  moreover have "places_ok ?s" by (simp add: places_ok_def fc_heap0_def)
  moreover have "tidy_layout Map.empty" by (simp add: tidy_layout_def)
  ultimately show ?thesis unfolding fc_inv_def u by (simp add: holds_def)
qed

lemma fc_malloc_ok:
  assumes I: "fc_inv s lay L" and n: "n + 8 \<le> 2 ^ 20" and p: "page_answer p s"
  shows "\<exists>a t lay'. fc_malloc n p s = Some (a, t) \<and> (a = 0 \<longleftrightarrow> exhausted n s) \<and> fc_inv t lay' (if a = 0 then L else L(a \<mapsto> n)) \<and> (a \<noteq> 0 \<longrightarrow> L a = None)"
proof (cases "n \<le> 64")
  case True
  obtain a t where at: "(if n \<le> 32 then alloc32 s else alloc64 s) = (a, t)" by (cases "if n \<le> 32 then alloc32 s else alloc64 s")
  have "fc_malloc n p s = Some (a, t)" using True at by (simp add: fc_malloc_def)
  moreover note r = small_malloc [OF I True at]
  moreover have "(a = 0 \<longleftrightarrow> exhausted n s) \<and> fc_inv t lay (if a = 0 then L else L(a \<mapsto> n)) \<and> (a \<noteq> 0 \<longrightarrow> L a = None)"
    using r by (cases "exhausted n s") simp_all
  ultimately show ?thesis by blast
next
  case False
  then have "\<not> exhausted n s" by (simp add: exhausted_def)
  moreover obtain a t lay' where "fc_malloc n p s = Some (a, t)" "0 < a" "L a = None" "fc_inv t lay' (L(a \<mapsto> n))"
    using big_malloc [OF I _ n p] False by auto
  ultimately show ?thesis by (intro exI [of _ a] exI [of _ t] exI [of _ lay']) simp
qed

lemma fc_reach_inv: "fc_reach s L \<Longrightarrow> \<exists>lay. fc_inv s lay L"
proof (induction rule: fc_reach.induct)
  case (start d32 d64)
  then show ?case using fc_inv_init by blast
next
  case (malloc s L n p a t)
  obtain lay where "fc_inv s lay L" using malloc.IH by blast
  from fc_malloc_ok [OF this malloc.hyps(2,3)] malloc.hyps(4) show ?case by (auto simp del: fun_upd_apply)
next
  case (free s L a t)
  obtain lay k where I: "fc_inv s lay L" and k: "L a = Some k" using free.IH free.hyps(2) by blast
  from fc_free_used [OF I k] free.hyps(3) show ?case by (auto simp del: fun_upd_apply)
next
  case (put s L a p x)
  obtain lay where I: "fc_inv s lay L" using put.IH by blast
  note D = fc_invD [OF I]
  obtain m where m: "(a, m) \<in> in_use s lay" using put.hyps(2) D(5) unfolding holds_def by blast
  have "apart p 2097152 (free_32_data s) 2097152" "apart p 2097152 (free_64_data s) 2097152" using D(4) put.hyps(3) by (simp_all add: places_ok_def)
  then have "(a, m) \<notin> used32 s" "(a, m) \<notin> used64 s"
    using used32_bounds [of a m s] used64_bounds [of a m s] put.hyps(4,5) unfolding apart_def PAGE_SIZE_eq by linarith+
  then have "(a, m) \<in> used_big lay" using m by (simp add: in_use_def)
  then obtain h k where "a = h + 8" "(h, k) \<in> held_set lay" by (auto simp: used_big_def)
  then show ?case using fc_client_write [OF I, of h k x] by auto
qed

lemma tidy_has_active:
  assumes "tidy bs"
  shows "\<exists>n us vs. bs = us @ (n, {Active}) # vs"
proof -
  obtain x y zs where b: "bs = x # y # zs" using assms by (cases bs; cases "tl bs") (auto simp: tidy_def)
  obtain n f m g where xy: "x = (n, f)" "y = (m, g)" by (cases x; cases y) auto
  have fg: "f \<in> {{Active}, {Queued}}" "g \<in> {{Active}, {Queued}}" "f \<noteq> {Queued} \<or> g \<noteq> {Queued}" using assms unfolding b xy by (simp_all add: tidy_def gap_ok_def)
  show ?thesis
  proof (cases "f = {Queued}")
    case True
    then have "bs = [x] @ (m, {Active}) # zs" using fg xy b by auto
    then show ?thesis by blast
  next
    case False
    then have "bs = [] @ (n, {Active}) # y # zs" using fg xy b by auto
    then show ?thesis by blast
  qed
qed

lemma page_in_use:
  assumes I: "fc_inv s lay L" and p: "p \<in> pages s"
  shows "\<exists>a. L a \<noteq> None \<and> p \<le> a \<and> a < p + PAGE_SIZE"
proof -
  note D = fc_invD [OF I] and lo = fc_okD(1) [OF fc_invD(1) [OF I]]
  obtain bs where bs: "lay p = Some bs" using layout_okD(1) [OF lo] p by auto
  have "tidy bs" using D(2) bs by (simp add: tidy_layout_def)
  then obtain n us vs where e: "bs = us @ (n, {Active}) # vs" using tidy_has_active by blast
  then have sp: "(p + bytes us, n, {Active}) \<in> set (spots p bs)" by (simp add: spots_append)
  then have "(p + bytes us, n) \<in> held_set lay" unfolding held_set_iff using bs by blast
  then have "(p + bytes us + 8, n - 8) \<in> in_use s lay" by (auto simp: in_use_def used_big_def)
  then have "L (p + bytes us + 8) \<noteq> None" using D(5) unfolding holds_def by blast
  moreover have "p + bytes us + n \<le> p + 2097152" "32 \<le> n" using spot_bounds(2,3) [OF layout_okD(3) [OF lo bs] sp] .
  ultimately show ?thesis by (intro exI [of _ "p + bytes us + 8"]) simp
qed

text \<open>
  C9. In every history of the fc heap blocks in use do not overlap; a request of up to 2^20 - 8 bytes is met, without an
  assertion failing, by a new block, but for small requests when no bit for them is left, which get NULL; every block can be freed.
\<close>

theorem fc_histories_sound:
  assumes "fc_reach s L"
  shows "(\<forall>a n b m. L a = Some n \<longrightarrow> L b = Some m \<longrightarrow> a \<noteq> b \<longrightarrow> apart a n b m) \<and>
    (\<forall>n p. n + 8 \<le> 2 ^ 20 \<longrightarrow> page_answer p s \<longrightarrow> (\<exists>a t. fc_malloc n p s = Some (a, t) \<and> (if exhausted n s then a = 0 else a \<noteq> 0 \<and> L a = None))) \<and>
    (\<forall>a. L a \<noteq> None \<longrightarrow> (\<exists>t. fc_free a s = Some t))"
proof (intro conjI allI impI)
  obtain lay where I: "fc_inv s lay L" using fc_reach_inv [OF assms] by blast
  note D = fc_invD [OF I]
  fix a n b m assume a: "L a = Some n" and b: "L b = Some m" and ne: "a \<noteq> b"
  obtain j k where j: "(a, j) \<in> in_use s lay" "n \<le> j" "(b, k) \<in> in_use s lay" "m \<le> k" using a b D(5) unfolding holds_def by blast
  have "apart a j b k" using in_use_apart [OF I j(1,3)] ne by simp
  then show "apart a n b m" using j(2,4) unfolding apart_def by linarith
next
  obtain lay where I: "fc_inv s lay L" using fc_reach_inv [OF assms] by blast
  fix n p :: nat assume n: "n + 8 \<le> 2 ^ 20" and p: "page_answer p s"
  obtain a t where "fc_malloc n p s = Some (a, t)" "a = 0 \<longleftrightarrow> exhausted n s" "a \<noteq> 0 \<longrightarrow> L a = None" using fc_malloc_ok [OF I n p] by blast
  then show "\<exists>a t. fc_malloc n p s = Some (a, t) \<and> (if exhausted n s then a = 0 else a \<noteq> 0 \<and> L a = None)" by auto
next
  obtain lay where I: "fc_inv s lay L" using fc_reach_inv [OF assms] by blast
  fix a assume "L a \<noteq> None"
  then obtain k where "L a = Some k" by blast
  from fc_free_used [OF I this] show "\<exists>t. fc_free a s = Some t" by blast
qed

text \<open>
  C33. A page is kept only while a block in it is in use: when all large blocks are freed, every page is back at the system
  and the bins are empty.
\<close>

theorem fc_memory_returned:
  assumes "fc_reach s L" and "\<And>a p. p \<in> pages s \<Longrightarrow> p \<le> a \<Longrightarrow> a < p + PAGE_SIZE \<Longrightarrow> L a = None"
  shows "pages s = {} \<and> bins s = (\<lambda>_. 0)"
proof -
  obtain lay where I: "fc_inv s lay L" using fc_reach_inv [OF assms(1)] by blast
  note ok = fc_invD(1) [OF I]
  have e: "pages s = {}"
  proof (rule ccontr)
    assume "pages s \<noteq> {}"
    then obtain p where p: "p \<in> pages s" by blast
    obtain a where a: "L a \<noteq> None" "p \<le> a" "a < p + PAGE_SIZE" using page_in_use [OF I p] by blast
    show False using a(1) assms(2) [OF p a(2,3)] by (rule notE)
  qed
  then have "dom lay = {}" using layout_okD(1) [OF fc_okD(1) [OF ok]] by simp
  then have none: "lay p \<noteq> Some bs" for p bs by auto
  have "bins s i = 0" for i
  proof (rule ccontr)
    assume "bins s i \<noteq> 0"
    then show False by (rule bins_free [OF ok]) (simp add: none)
  qed
  then have "bins s = (\<lambda>_. 0)" by (rule ext)
  then show ?thesis using e by blast
qed

text \<open>
  C10. A release is \<open>coalesce\<close> on the list of the blocks of the page: the block is joined with its free neighbours, it enters
  the bin of its new size, the neighbours leave theirs, and a page that is free as a whole goes back to the system.
\<close>

theorem fc_free_coalesces:
  assumes "fc_ok s lay" and "tidy_layout lay" and "lay p = Some (us @ (n, {Active}) # vs)"
  shows "\<exists>t. heap_free (p + bytes us) s = Some t \<and> fc_ok t (put_page p (coalesce us n vs) lay)"
proof -
  have t: "tidy (us @ (n, {Active}) # vs)" using assms(2,3) by (auto simp: tidy_layout_def)
  have "flags_ok us" "flags_ok vs" using tidy_flags [OF t] by simp_all
  moreover have "n < PAGE_SIZE" using spot_small [OF fc_okD(1) [OF assms(1)] assms(3) t] by simp
  ultimately show ?thesis using heap_free_ok [OF assms(1,3)] by blast
qed


text \<open>A size within eight bytes of 2^64 wraps: the request gets a block of 32 bytes, header included.\<close>

lemma fc_malloc_wraps:
  assumes "2 ^ 64 \<le> n + 8" and "n < 2 ^ 64"
  shows "fc_malloc n p s = do { (h, s) \<leftarrow> heap_alloc 32 p s; b \<leftarrow> blk s h; check (Active \<in> flags b); Some (h + 8, s) }"
proof -
  have "(n + 8) mod 2 ^ 64 = n + 8 - 2 ^ 64" using assms by (simp add: mod_if)
  then have "(n + 8) mod 2 ^ 64 < 32" using assms(2) by simp
  moreover have "bsr (32 - 1) + 1 = 5" by (simp add: bsr_numeral)
  moreover have "\<not> n \<le> 64" using assms(1) by simp
  ultimately show ?thesis unfolding fc_malloc_def Let_def by simp
qed

section \<open>Examples\<close>

definition fc_ex :: fc_heap where
  "fc_ex = fc_heap0 8388608 16777216"

lemma fc_ex_reach: "fc_reach fc_ex Map.empty"
  unfolding fc_ex_def by (rule fc_reach.start) (simp_all add: apart_def)

lemma fc_ex_answer: "page_answer 33554432 fc_ex"
  by (simp add: page_answer_def fc_ex_def fc_heap0_def apart_def)

lemma fc_ex_malloc:
  obtains a t where "fc_malloc 100 33554432 fc_ex = Some (a, t)" and "a \<noteq> 0" and "fc_reach t [a \<mapsto> 100]"
proof -
  obtain lay where I: "fc_inv fc_ex lay Map.empty" using fc_reach_inv [OF fc_ex_reach] by blast
  obtain a t where a: "fc_malloc 100 33554432 fc_ex = Some (a, t)" "a = 0 \<longleftrightarrow> exhausted 100 fc_ex"
    using fc_malloc_ok [OF I _ fc_ex_answer, of 100] by auto
  have "a \<noteq> 0" using a(2) by (simp add: exhausted_def)
  moreover have "fc_reach t (if a = 0 then Map.empty else [a \<mapsto> 100])" by (rule fc_reach.malloc [OF fc_ex_reach _ fc_ex_answer a(1)]) simp
  ultimately show ?thesis using that a(1) by simp
qed

theorem fc_histories_sound_witness:
  "\<exists>a t. fc_malloc 100 33554432 fc_ex = Some (a, t) \<and> a \<noteq> 0 \<and> (\<exists>u. fc_free a t = Some u)"
proof -
  obtain a t where a: "fc_malloc 100 33554432 fc_ex = Some (a, t)" "a \<noteq> 0" "fc_reach t [a \<mapsto> 100]" by (rule fc_ex_malloc)
  have "\<exists>u. fc_free a t = Some u" using fc_histories_sound [OF a(3)] by simp
  then show ?thesis using a by blast
qed

theorem fc_memory_returned_witness:
  "\<exists>a t u. fc_malloc 100 33554432 fc_ex = Some (a, t) \<and> fc_free a t = Some u \<and> pages u = {} \<and> bins u = (\<lambda>_. 0)"
proof -
  obtain a t where a: "fc_malloc 100 33554432 fc_ex = Some (a, t)" "a \<noteq> 0" "fc_reach t [a \<mapsto> 100]" by (rule fc_ex_malloc)
  obtain lay where I: "fc_inv t lay [a \<mapsto> 100]" using fc_reach_inv [OF a(3)] by blast
  obtain u where u: "fc_free a t = Some u" using fc_free_used [OF I, of a 100] by auto
  have "fc_reach u ([a \<mapsto> 100](a := None))" by (rule fc_reach.free [OF a(3) _ u]) simp
  then have "fc_reach u Map.empty" by simp
  then have "pages u = {} \<and> bins u = (\<lambda>_. 0)" by (rule fc_memory_returned) simp
  then show ?thesis using a(1) u by blast
qed

text \<open>A page with a free block of 2097024 bytes and one of 128 in use, both of which the release makes one page again.\<close>

theorem fc_free_coalesces_witness:
  "\<exists>s t. do { s \<leftarrow> new_page 33554432 fc_ex; cut_block 128 33554432 s } = Some (35651456, s) \<and> heap_free 35651456 s = Some t \<and> pages t = {}"
proof -
  let ?p = "33554432 :: nat" and ?lay = "[33554432 \<mapsto> [(2097024, {Queued}), (128, {Active})]] :: layout"
  obtain lay where I: "fc_inv fc_ex lay Map.empty" using fc_reach_inv [OF fc_ex_reach] by blast
  have "dom lay = {}" using layout_okD(1) [OF fc_okD(1) [OF fc_invD(1) [OF I]]] by (simp add: fc_ex_def fc_heap0_def)
  then have e: "lay = Map.empty" by (simp only: dom_eq_empty_conv)
  have "page_fresh ?p Map.empty" by (simp add: page_fresh_def)
  then obtain r where r: "new_page ?p fc_ex = Some r" "fc_ok r [?p \<mapsto> [(2097152, {})]]"
    using fc_new_page_ok [OF fc_invD(1) [OF I]] unfolding e by blast
  obtain s where s: "cut_block 128 ?p r = Some (35651456, s)" "fc_ok s ?lay"
    using cut_ok [OF r(2), of ?p "[]" 2097152 "[]" 128 7 "[]" 2097024] by (auto simp: merge_left_def)
  have t: "tidy_layout ?lay" by (simp add: tidy_layout_def tidy_def gap_ok_def)
  obtain t where t: "heap_free (?p + bytes [(2097024, {Queued})]) s = Some t" "fc_ok t (put_page ?p (coalesce [(2097024, {Queued})] 128 []) ?lay)"
    using fc_free_coalesces [OF s(2) t, of ?p "[(2097024, {Queued})]" 128 "[]"] by auto
  have "coalesce [(2097024, {Queued})] 128 [] = [(2097152, {Queued})]" by (simp add: coalesce_def merge_right_def merge_left_def)
  then have "put_page ?p (coalesce [(2097024, {Queued})] 128 []) ?lay = Map.empty" by (simp add: put_page_def)
  then have "pages t = {}" using layout_okD(1) [OF fc_okD(1) [OF t(2)]] by simp
  then show ?thesis using r(1) s(1) t(1) by simp
qed


end
