(* ===== verification/Michael.thy ===== *)
theory Michael
  imports World
begin

text \<open>
  \<open>michael/include/allocator.h\<close>: Michael's lock-free allocator, as libcds writes it for 64 bits. The model is one processor heap
  (the superblocks of one size class) of one processor. A thread is a small state machine; each of its steps makes one access to
  shared state, a load or a compare-and-swap of \<open>active\<close>, \<open>pPartial\<close> or of the anchor of a superblock, the read or write of the
  link in a free block, or one operation on a list under its lock. A load whose only use is to be compared in the next
  compare-and-swap is one step with it. \<open>None\<close> is a failed assertion or an access to a descriptor that is not there.
  The answers of the system (the address of a new descriptor and of a new superblock) are arguments; 0 is the null pointer.
\<close>

section \<open>Data\<close>

datatype superblock_state = ACTIVE | FULL | PARTIAL | EMPTY

record anchor_tag =
  avail :: nat
  count :: nat
  astate :: superblock_state
  tag :: nat

record superblock_desc =
  anchor :: anchor_tag
  pSB :: nat

record size_class =
  nBlockSize :: nat
  nSBSize :: nat
  nCapacity :: nat
  nSBSizeIdx :: nat

definition c_nMaxCredits :: nat where "c_nMaxCredits = 63"

text \<open>
  The processor heap, with the list of free descriptors of its processor; the headers \<open>desc\<close> and the links \<open>nNextFree\<close> of blocks by the
  address of the block; the superblocks taken from the page heap. A block's link lies in the bytes the client gets.
\<close>

record heap =
  active :: "nat \<times> nat"
  pPartial :: nat
  partialList :: "nat list"
  listSBDescFree :: "nat list"
  descs :: "nat \<rightharpoonup> superblock_desc"
  desc :: "nat \<Rightarrow> nat"
  nNextFree :: "nat \<Rightarrow> nat"
  pages :: "nat set"

definition heap0 :: heap where
  "heap0 = \<lparr>active = (0, 0), pPartial = 0, partialList = [], listSBDescFree = [], descs = Map.empty, desc = \<lambda>_. 0, nNextFree = \<lambda>_. 0, pages = {}\<rparr>"

text \<open>
  What a thread is about to do. \<open>d\<close> is a descriptor, \<open>c\<close> the credits it saw, \<open>A\<close> the anchor it loaded, \<open>v\<close> the link it read, \<open>a\<close> the
  block it is to return (0 in a release), \<open>b\<close> the block it frees or the superblock it installs, \<open>n\<close> the credits it holds.
\<close>

datatype after = Retry | Again | Leave

datatype thread =
    Idle
  | Alloc
  | ActiveLoad nat nat
  | ActiveRead nat nat anchor_tag
  | ActiveSwap nat nat anchor_tag nat
  | GetPartial
  | PopPartial
  | Reserve nat
  | PartialLoad nat nat
  | PartialRead nat nat anchor_tag
  | PartialSwap nat nat anchor_tag nat
  | Update nat nat nat
  | GiveBack nat nat nat
  | AddPartial nat nat
  | PushPartial nat nat
  | NewDesc
  | NewPage nat
  | Install nat nat nat
  | Drop nat after
  | FreeLoad nat
  | FreeLink nat nat anchor_tag
  | FreeSwap nat nat anchor_tag
  | Unlink nat
  | Done nat

section \<open>Steps\<close>

definition block :: "size_class \<Rightarrow> superblock_desc \<Rightarrow> nat \<Rightarrow> nat" where
  "block K D i = pSB D + i * nBlockSize K"

text \<open>The fields of the anchor have 11, 11 and 40 bits.\<close>

definition pop_anchor :: "nat \<Rightarrow> anchor_tag \<Rightarrow> anchor_tag" where
  "pop_anchor v A = A\<lparr>avail := v mod 2 ^ 11, tag := (tag A + 1) mod 2 ^ 40\<rparr>"

definition more_credits :: "nat \<Rightarrow> nat" where
  "more_credits n = (if n < c_nMaxCredits then n else c_nMaxCredits)"

definition put_anchor :: "nat \<Rightarrow> superblock_desc \<Rightarrow> anchor_tag \<Rightarrow> heap \<Rightarrow> heap" where
  "put_anchor d D A s = s\<lparr>descs := (descs s)(d \<mapsto> D\<lparr>anchor := A\<rparr>)\<rparr>"

definition reserve_active :: "heap \<Rightarrow> heap \<times> thread" where
  "reserve_active s =
     (case active s of (d, c) \<Rightarrow>
        if d = 0 then (s, GetPartial)
        else (s\<lparr>active := (if c = 0 then (0, 0) else (d, c - 1))\<rparr>, ActiveLoad d c))"

text \<open>The anchor after a block is popped under a reservation that took the last credit (\<open>c = 0\<close>) or another.\<close>

definition active_anchor :: "nat \<Rightarrow> anchor_tag \<Rightarrow> nat \<Rightarrow> anchor_tag" where
  "active_anchor c A v =
     (let B = pop_anchor v A in
      if c = 0 then if count A = 0 then B\<lparr>astate := FULL\<rparr> else B\<lparr>count := count A - more_credits (count A)\<rparr> else B)"

definition swap_active :: "size_class \<Rightarrow> nat \<Rightarrow> nat \<Rightarrow> anchor_tag \<Rightarrow> nat \<Rightarrow> heap \<Rightarrow> (heap \<times> thread) option" where
  "swap_active K d c A v s = do {
     D \<leftarrow> descs s d;
     if anchor D \<noteq> A then Some (s, ActiveLoad d c)
     else do {
       let B = active_anchor c A v;
       check (astate B \<noteq> EMPTY \<and> desc s (block K D (avail A)) = d);
       Some (put_anchor d D B s,
         if c = 0 \<and> 0 < count A then Update d (more_credits (count A)) (block K D (avail A)) else Done (block K D (avail A)))
     }
   }"

definition get_partial :: "heap \<Rightarrow> heap \<times> thread" where
  "get_partial s = (if pPartial s = 0 then (s, PopPartial) else (s\<lparr>pPartial := 0\<rparr>, Reserve (pPartial s)))"

definition pop_partial :: "heap \<Rightarrow> heap \<times> thread" where
  "pop_partial s = (case partialList s of [] \<Rightarrow> (s, NewDesc) | d # ds \<Rightarrow> (s\<lparr>partialList := ds\<rparr>, Reserve d))"

definition reserve_partial :: "nat \<Rightarrow> heap \<Rightarrow> (heap \<times> thread) option" where
  "reserve_partial d s = do {
     D \<leftarrow> descs s d;
     let A = anchor D;
     if astate A = EMPTY then Some (s, Drop d Retry)
     else do {
       let n = (if count A = 0 then c_nMaxCredits else more_credits (count A - 1));
       let B = A\<lparr>count := (count A + 2 ^ 11 - (n + 1)) mod 2 ^ 11, astate := (if 0 < n then ACTIVE else FULL), tag := (tag A + 1) mod 2 ^ 40\<rparr>;
       Some (put_anchor d D B s, PartialLoad d n)
     }
   }"

definition swap_partial :: "size_class \<Rightarrow> nat \<Rightarrow> nat \<Rightarrow> anchor_tag \<Rightarrow> nat \<Rightarrow> heap \<Rightarrow> (heap \<times> thread) option" where
  "swap_partial K d n A v s = do {
     D \<leftarrow> descs s d;
     if anchor D \<noteq> A then Some (s, PartialLoad d n)
     else do {
       check (astate A \<noteq> EMPTY \<and> desc s (block K D (avail A)) = d);
       Some (put_anchor d D (pop_anchor v A) s, if 0 < n then Update d n (block K D (avail A)) else Done (block K D (avail A)))
     }
   }"

text \<open>The load of the anchor, and the read of the link of its first block, which may be in use by now.\<close>

definition load_anchor :: "size_class \<Rightarrow> nat \<Rightarrow> heap \<Rightarrow> anchor_tag option" where
  "load_anchor K d s = do { D \<leftarrow> descs s d; check (avail (anchor D) < nCapacity K); Some (anchor D) }"

definition read_link :: "size_class \<Rightarrow> nat \<Rightarrow> anchor_tag \<Rightarrow> heap \<Rightarrow> nat option" where
  "read_link K d A s = do { D \<leftarrow> descs s d; Some (nNextFree s (block K D (avail A))) }"

definition update_active :: "nat \<Rightarrow> nat \<Rightarrow> nat \<Rightarrow> heap \<Rightarrow> heap \<times> thread" where
  "update_active d n a s = (if active s = (0, 0) then (s\<lparr>active := (d, n - 1)\<rparr>, Done a) else (s, GiveBack d n a))"

definition give_back :: "nat \<Rightarrow> nat \<Rightarrow> nat \<Rightarrow> heap \<Rightarrow> (heap \<times> thread) option" where
  "give_back d n a s = do {
     D \<leftarrow> descs s d;
     Some (put_anchor d D ((anchor D)\<lparr>count := (count (anchor D) + n) mod 2 ^ 11, astate := PARTIAL\<rparr>) s, AddPartial d a)
   }"

definition finish :: "nat \<Rightarrow> thread" where
  "finish a = (if a = 0 then Idle else Done a)"

definition add_partial :: "nat \<Rightarrow> nat \<Rightarrow> heap \<Rightarrow> (heap \<times> thread) option" where
  "add_partial d a s = do {
     check (pPartial s \<noteq> d);
     Some (if pPartial s = 0 then (s\<lparr>pPartial := d\<rparr>, finish a) else (s, PushPartial d a))
   }"

definition push_partial :: "nat \<Rightarrow> nat \<Rightarrow> heap \<Rightarrow> (heap \<times> thread) option" where
  "push_partial d a s = do { check (d \<notin> set (partialList s)); Some (s\<lparr>partialList := partialList s @ [d]\<rparr>, finish a) }"

text \<open>A descriptor from the list or, at the address \<open>e\<close>, from the system; only its tag is set in the latter case.\<close>

definition new_desc :: "nat \<Rightarrow> heap \<Rightarrow> (heap \<times> thread) option" where
  "new_desc e s =
     (case listSBDescFree s of
        d # ds \<Rightarrow> Some (s\<lparr>listSBDescFree := ds\<rparr>, NewPage d)
      | [] \<Rightarrow> do {
          check (e \<noteq> 0);
          Some (s\<lparr>descs := (descs s)(e \<mapsto> \<lparr>anchor = \<lparr>avail = 0, count = 0, astate = ACTIVE, tag = 0\<rparr>, pSB = 0\<rparr>)\<rparr>, NewPage e)
        })"

text \<open>The superblock \<open>b\<close> and the links of its blocks; the headers name the descriptor.\<close>

definition init_page :: "size_class \<Rightarrow> nat \<Rightarrow> nat \<Rightarrow> heap \<Rightarrow> heap" where
  "init_page K d b s =
     s\<lparr>desc := (\<lambda>x. if \<exists>i < nCapacity K. x = b + i * nBlockSize K then d else desc s x),
       nNextFree := (\<lambda>x. if \<exists>i < nCapacity K. x = b + i * nBlockSize K
         then (let i = (x - b) div nBlockSize K in if i + 1 = nCapacity K then 0 else i + 1) else nNextFree s x)\<rparr>"

definition new_page :: "size_class \<Rightarrow> nat \<Rightarrow> nat \<Rightarrow> heap \<Rightarrow> (heap \<times> thread) option" where
  "new_page K d b s = do {
     D \<leftarrow> descs s d;
     check (b \<noteq> 0);
     let c = more_credits (nCapacity K - 1) - 1;
     let A = (anchor D)\<lparr>avail := 1, count := nCapacity K - 1 - (c + 1), astate := ACTIVE, tag := (tag (anchor D) + 1) mod 2 ^ 40\<rparr>;
     let t = init_page K d b s;
     Some (t\<lparr>descs := (descs s)(d \<mapsto> \<lparr>anchor = A, pSB = b\<rparr>), pages := insert b (pages s)\<rparr>, Install d c b)
   }"

definition install :: "nat \<Rightarrow> nat \<Rightarrow> nat \<Rightarrow> heap \<Rightarrow> heap \<times> thread" where
  "install d c b s = (if active s = (0, 0) then (s\<lparr>active := (d, c)\<rparr>, Done b) else (s, Drop d Again))"

definition free_superblock :: "nat \<Rightarrow> after \<Rightarrow> heap \<Rightarrow> (heap \<times> thread) option" where
  "free_superblock d k s = do {
     D \<leftarrow> descs s d;
     check (pSB D \<in> pages s \<and> d \<notin> set (listSBDescFree s));
     Some (s\<lparr>pages := pages s - {pSB D}, listSBDescFree := listSBDescFree s @ [d]\<rparr>,
       case k of Retry \<Rightarrow> GetPartial | Again \<Rightarrow> Alloc | Leave \<Rightarrow> Idle)
   }"

section \<open>Release\<close>

definition free_anchor :: "size_class \<Rightarrow> superblock_desc \<Rightarrow> nat \<Rightarrow> anchor_tag \<Rightarrow> anchor_tag" where
  "free_anchor K D b A =
     (let B = A\<lparr>avail := (b - pSB D) div nBlockSize K mod 2 ^ 11, tag := (tag A + 1) mod 2 ^ 40, astate := (if astate A = FULL then PARTIAL else astate A)\<rparr> in
      if count A = nCapacity K - 1 then B\<lparr>astate := EMPTY\<rparr> else B\<lparr>count := (count A + 1) mod 2 ^ 11\<rparr>)"

definition link_block :: "nat \<Rightarrow> nat \<Rightarrow> anchor_tag \<Rightarrow> heap \<Rightarrow> heap \<times> thread" where
  "link_block d b A s = (s\<lparr>nNextFree := (nNextFree s)(b := avail A)\<rparr>, FreeSwap d b A)"

definition swap_free :: "size_class \<Rightarrow> nat \<Rightarrow> nat \<Rightarrow> anchor_tag \<Rightarrow> heap \<Rightarrow> (heap \<times> thread) option" where
  "swap_free K d b A s = do {
     D \<leftarrow> descs s d;
     check (astate A \<noteq> EMPTY);
     if anchor D \<noteq> A then Some (s, FreeLink d b (anchor D))
     else do {
       let B = free_anchor K D b A;
       Some (put_anchor d D B s, if astate B = EMPTY then Unlink d else if astate A = FULL then AddPartial d 0 else Idle)
     }
   }"

definition unlink :: "nat \<Rightarrow> heap \<Rightarrow> heap \<times> thread" where
  "unlink d s = (if d \<in> set (partialList s) then (s\<lparr>partialList := remove1 d (partialList s)\<rparr>, Drop d Leave) else (s, Idle))"

text \<open>The step of a thread that is not idle; \<open>e\<close> is the answer of the system.\<close>

fun thread_step :: "size_class \<Rightarrow> nat \<Rightarrow> heap \<Rightarrow> thread \<Rightarrow> (heap \<times> thread) option" where
  "thread_step K e s Idle = None"
| "thread_step K e s Alloc = Some (reserve_active s)"
| "thread_step K e s (ActiveLoad d c) = do { A \<leftarrow> load_anchor K d s; Some (s, ActiveRead d c A) }"
| "thread_step K e s (ActiveRead d c A) = do { v \<leftarrow> read_link K d A s; Some (s, ActiveSwap d c A v) }"
| "thread_step K e s (ActiveSwap d c A v) = swap_active K d c A v s"
| "thread_step K e s GetPartial = Some (get_partial s)"
| "thread_step K e s PopPartial = Some (pop_partial s)"
| "thread_step K e s (Reserve d) = reserve_partial d s"
| "thread_step K e s (PartialLoad d n) = do { A \<leftarrow> load_anchor K d s; Some (s, PartialRead d n A) }"
| "thread_step K e s (PartialRead d n A) = do { v \<leftarrow> read_link K d A s; Some (s, PartialSwap d n A v) }"
| "thread_step K e s (PartialSwap d n A v) = swap_partial K d n A v s"
| "thread_step K e s (Update d n a) = Some (update_active d n a s)"
| "thread_step K e s (GiveBack d n a) = give_back d n a s"
| "thread_step K e s (AddPartial d a) = add_partial d a s"
| "thread_step K e s (PushPartial d a) = push_partial d a s"
| "thread_step K e s NewDesc = new_desc e s"
| "thread_step K e s (NewPage d) = new_page K d e s"
| "thread_step K e s (Install d c b) = Some (install d c b s)"
| "thread_step K e s (Drop d k) = free_superblock d k s"
| "thread_step K e s (FreeLoad b) = do { D \<leftarrow> descs s (desc s b); Some (s, FreeLink (desc s b) b (anchor D)) }"
| "thread_step K e s (FreeLink d b A) = Some (link_block d b A s)"
| "thread_step K e s (FreeSwap d b A) = swap_free K d b A s"
| "thread_step K e s (Unlink d) = Some (unlink d s)"
| "thread_step K e s (Done a) = None"

end
