(* ===== verification/MichaelInv.thy ===== *)
theory MichaelInv
  imports Michael
begin

text \<open>
  The invariant of Michael's allocator. Every superblock in service has at most one holder that will make it available again
  (\<open>active\<close>, \<open>pPartial\<close>, the list of partial superblocks, or a thread): \<open>tokens\<close> counts it. The blocks promised to threads
  are \<open>reserved\<close>. The free blocks of a superblock are its counted blocks, the reserved ones and, when it is empty, the last
  one freed; all others are in use by the client or carried by a thread.
\<close>

section \<open>What threads hold\<close>

text \<open>The descriptor a thread alone is in charge of (0 if none), split into those that are in service and not.\<close>

fun quiet :: "thread \<Rightarrow> nat" where
  "quiet (Reserve d) = d"
| "quiet (AddPartial d a) = d"
| "quiet (PushPartial d a) = d"
| "quiet _ = 0"

fun busy :: "thread \<Rightarrow> nat" where
  "busy (ActiveLoad d c) = (if c = 0 then d else 0)"
| "busy (ActiveRead d c A) = (if c = 0 then d else 0)"
| "busy (ActiveSwap d c A v) = (if c = 0 then d else 0)"
| "busy (PartialLoad d n) = (if n = 0 then 0 else d)"
| "busy (PartialRead d n A) = (if n = 0 then 0 else d)"
| "busy (PartialSwap d n A v) = (if n = 0 then 0 else d)"
| "busy (Update d n a) = d"
| "busy (GiveBack d n a) = d"
| "busy (Install d c b) = d"
| "busy _ = 0"

fun blank :: "thread \<Rightarrow> nat" where
  "blank (NewPage d) = d"
| "blank _ = 0"

fun dropped :: "thread \<Rightarrow> nat" where
  "dropped (Drop d k) = d"
| "dropped _ = 0"

fun reserved :: "nat \<Rightarrow> thread \<Rightarrow> nat" where
  "reserved d (ActiveLoad d' c) = (if d' = d then 1 else 0)"
| "reserved d (ActiveRead d' c A) = (if d' = d then 1 else 0)"
| "reserved d (ActiveSwap d' c A v) = (if d' = d then 1 else 0)"
| "reserved d (PartialLoad d' n) = (if d' = d then n + 1 else 0)"
| "reserved d (PartialRead d' n A) = (if d' = d then n + 1 else 0)"
| "reserved d (PartialSwap d' n A v) = (if d' = d then n + 1 else 0)"
| "reserved d (Update d' n a) = (if d' = d then n else 0)"
| "reserved d (GiveBack d' n a) = (if d' = d then n else 0)"
| "reserved d (Install d' c b) = (if d' = d then c + 1 else 0)"
| "reserved d _ = 0"

text \<open>The block a thread has taken out of its superblock and not handed over yet, or is about to put back.\<close>

fun carried :: "thread \<Rightarrow> nat" where
  "carried (Update d n a) = a"
| "carried (GiveBack d n a) = a"
| "carried (AddPartial d a) = a"
| "carried (PushPartial d a) = a"
| "carried (Install d c b) = b"
| "carried (Done a) = a"
| "carried (FreeLoad b) = b"
| "carried (FreeLink d b A) = b"
| "carried (FreeSwap d b A) = b"
| "carried _ = 0"

definition hits :: "(thread \<Rightarrow> nat) \<Rightarrow> thread list \<Rightarrow> nat \<Rightarrow> nat" where
  "hits f T d = length (filter (\<lambda>p. f p = d) T)"

definition occurs :: "nat list \<Rightarrow> nat \<Rightarrow> nat" where
  "occurs xs d = length (filter (\<lambda>x. x = d) xs)"

definition waiting :: "heap \<Rightarrow> thread list \<Rightarrow> nat \<Rightarrow> nat" where
  "waiting s T d = (if pPartial s = d then 1 else 0) + occurs (partialList s) d + hits quiet T d"

definition working :: "heap \<Rightarrow> thread list \<Rightarrow> nat \<Rightarrow> nat" where
  "working s T d = (if fst (active s) = d then 1 else 0) + hits busy T d"

definition unused :: "heap \<Rightarrow> thread list \<Rightarrow> nat \<Rightarrow> nat" where
  "unused s T d = occurs (listSBDescFree s) d + hits blank T d"

definition reservations :: "heap \<Rightarrow> thread list \<Rightarrow> nat \<Rightarrow> nat" where
  "reservations s T d = (if fst (active s) = d then snd (active s) + 1 else 0) + sum_list (map (reserved d) T)"

definition uses :: "thread list \<Rightarrow> nat set \<Rightarrow> nat \<Rightarrow> nat" where
  "uses T L a = (if a + 8 \<in> L then 1 else 0) + hits carried T a"

lemma hits_simps [simp]:
  "hits f [] d = 0" "hits f (p # T) d = (if f p = d then 1 else 0) + hits f T d" "hits f (us @ vs) d = hits f us d + hits f vs d"
  by (simp_all add: hits_def)

lemma occurs_simps [simp]:
  "occurs [] d = 0" "occurs (x # xs) d = (if x = d then 1 else 0) + occurs xs d" "occurs (xs @ ys) d = occurs xs d + occurs ys d"
  by (simp_all add: occurs_def)

lemma hits_pos: "p \<in> set T \<Longrightarrow> 0 < hits f T (f p)"
  by (auto simp: hits_def filter_empty_conv)

lemma occurs_zero: "occurs xs d = 0 \<longleftrightarrow> d \<notin> set xs"
  by (induction xs) auto

lemma occurs_remove1: "d \<in> set xs \<Longrightarrow> occurs (remove1 d xs) x = (if x = d then occurs xs x - 1 else occurs xs x)"
  by (induction xs) (auto simp: occurs_zero [symmetric])

lemmas counts = waiting_def working_def unused_def reservations_def uses_def

section \<open>A superblock in service\<close>

fun follow :: "(nat \<Rightarrow> nat) \<Rightarrow> nat \<Rightarrow> nat list \<Rightarrow> bool" where
  "follow f h [] \<longleftrightarrow> True"
| "follow f h (x # xs) \<longleftrightarrow> h = x \<and> follow f (f x) xs"

lemma follow_cong: "(\<And>x. x \<in> set xs \<Longrightarrow> f x = g x) \<Longrightarrow> follow f h xs = follow g h xs"
  by (induction xs arbitrary: h) auto

definition free_ok :: "size_class \<Rightarrow> superblock_desc \<Rightarrow> (nat \<Rightarrow> nat) \<Rightarrow> nat \<Rightarrow> (nat \<Rightarrow> bool) \<Rightarrow> bool" where
  "free_ok K D nf R used \<longleftrightarrow> (\<exists>xs. distinct xs \<and> follow (\<lambda>i. nf (block K D i)) (avail (anchor D)) xs \<and>
     length xs = count (anchor D) + R + (if astate (anchor D) = EMPTY then 1 else 0) \<and>
     set xs = {i. i < nCapacity K \<and> \<not> used (block K D i)} \<and> (\<forall>i \<in> set xs. nf (block K D i) < nCapacity K)) \<and>
   avail (anchor D) < nCapacity K"

text \<open>The state of a superblock by who holds it: a list or thread from which it may be taken (\<open>q\<close>), or one that makes it active (\<open>w\<close>).\<close>

definition state_ok :: "size_class \<Rightarrow> anchor_tag \<Rightarrow> nat \<Rightarrow> nat \<Rightarrow> bool" where
  "state_ok K A q w \<longleftrightarrow> (if q = 1 then w = 0 \<and> (astate A = PARTIAL \<and> 1 \<le> count A \<or> astate A = EMPTY \<and> count A = nCapacity K - 1)
     else q = 0 \<and> (if w = 1 then astate A = ACTIVE else w = 0 \<and> astate A = FULL \<and> count A = 0))"

definition super_ok :: "size_class \<Rightarrow> nat \<Rightarrow> superblock_desc \<Rightarrow> (nat \<Rightarrow> nat) \<Rightarrow> (nat \<Rightarrow> nat) \<Rightarrow> nat \<Rightarrow> nat \<Rightarrow> nat \<Rightarrow> (nat \<Rightarrow> bool) \<Rightarrow> bool" where
  "super_ok K d D nf hf R q w used \<longleftrightarrow> free_ok K D nf R used \<and> state_ok K (anchor D) q w \<and> (\<forall>i < nCapacity K. hf (block K D i) = d)"

section \<open>What a thread knows\<close>

text \<open>An anchor that a thread has loaded is out of date or has the head of the free blocks, and the link read from it.\<close>

definition seen :: "superblock_desc \<Rightarrow> anchor_tag \<Rightarrow> bool" where
  "seen D A \<longleftrightarrow> tag A \<le> tag (anchor D) \<and> (tag A = tag (anchor D) \<longrightarrow> avail A = avail (anchor D))"

definition read_ok :: "size_class \<Rightarrow> superblock_desc \<Rightarrow> (nat \<Rightarrow> nat) \<Rightarrow> anchor_tag \<Rightarrow> nat \<Rightarrow> bool" where
  "read_ok K D nf A v \<longleftrightarrow> seen D A \<and> (tag A = tag (anchor D) \<longrightarrow> v = nf (block K D (avail A)))"

fun thread_ok :: "size_class \<Rightarrow> heap \<Rightarrow> thread \<Rightarrow> bool" where
  "thread_ok K s (ActiveLoad d c) \<longleftrightarrow> d \<noteq> 0"
| "thread_ok K s (ActiveRead d c A) \<longleftrightarrow> d \<noteq> 0 \<and> seen (the (descs s d)) A"
| "thread_ok K s (ActiveSwap d c A v) \<longleftrightarrow> d \<noteq> 0 \<and> read_ok K (the (descs s d)) (nNextFree s) A v"
| "thread_ok K s (Reserve d) \<longleftrightarrow> d \<noteq> 0"
| "thread_ok K s (PartialLoad d n) \<longleftrightarrow> d \<noteq> 0"
| "thread_ok K s (PartialRead d n A) \<longleftrightarrow> d \<noteq> 0 \<and> seen (the (descs s d)) A"
| "thread_ok K s (PartialSwap d n A v) \<longleftrightarrow> d \<noteq> 0 \<and> read_ok K (the (descs s d)) (nNextFree s) A v"
| "thread_ok K s (Update d n a) \<longleftrightarrow> d \<noteq> 0 \<and> 0 < n \<and> a \<noteq> 0 \<and> desc s a = d"
| "thread_ok K s (GiveBack d n a) \<longleftrightarrow> d \<noteq> 0 \<and> 0 < n \<and> a \<noteq> 0 \<and> desc s a = d"
| "thread_ok K s (AddPartial d a) \<longleftrightarrow> d \<noteq> 0"
| "thread_ok K s (PushPartial d a) \<longleftrightarrow> d \<noteq> 0"
| "thread_ok K s (NewPage d) \<longleftrightarrow> d \<noteq> 0"
| "thread_ok K s (Install d c b) \<longleftrightarrow> d \<noteq> 0 \<and> b \<noteq> 0 \<and> b = pSB (the (descs s d)) \<and> count (anchor (the (descs s d))) + c + 2 = nCapacity K"
| "thread_ok K s (Drop d k) \<longleftrightarrow> d \<noteq> 0"
| "thread_ok K s (FreeLoad b) \<longleftrightarrow> b \<noteq> 0"
| "thread_ok K s (FreeLink d b A) \<longleftrightarrow> d \<noteq> 0 \<and> b \<noteq> 0 \<and> desc s b = d \<and> astate A \<noteq> EMPTY \<and> avail A < nCapacity K"
| "thread_ok K s (FreeSwap d b A) \<longleftrightarrow> d \<noteq> 0 \<and> b \<noteq> 0 \<and> desc s b = d \<and> astate A \<noteq> EMPTY \<and> avail A < nCapacity K \<and> nNextFree s b = avail A"
| "thread_ok K s (Unlink d) \<longleftrightarrow> d \<noteq> 0"
| "thread_ok K s (Done a) \<longleftrightarrow> a \<noteq> 0"
| "thread_ok K s _ \<longleftrightarrow> True"

section \<open>The heap\<close>

definition in_service :: "heap \<Rightarrow> thread list \<Rightarrow> nat \<Rightarrow> bool" where
  "in_service s T d \<longleftrightarrow> descs s d \<noteq> None \<and> unused s T d + hits dropped T d = 0"

definition has_page :: "heap \<Rightarrow> thread list \<Rightarrow> nat \<Rightarrow> bool" where
  "has_page s T d \<longleftrightarrow> descs s d \<noteq> None \<and> unused s T d = 0"

definition bytes :: "size_class \<Rightarrow> nat" where
  "bytes K = nCapacity K * nBlockSize K"

definition class_ok :: "size_class \<Rightarrow> bool" where
  "class_ok K \<longleftrightarrow> 2 \<le> nCapacity K \<and> nCapacity K \<le> 2 ^ 11 \<and> 0 < nBlockSize K"

definition pages_ok :: "size_class \<Rightarrow> heap \<Rightarrow> thread list \<Rightarrow> bool" where
  "pages_ok K s T \<longleftrightarrow> pages s = {pSB (the (descs s d)) | d. has_page s T d} \<and> (\<forall>d. has_page s T d \<longrightarrow> 0 < pSB (the (descs s d))) \<and>
     (\<forall>d d'. has_page s T d \<longrightarrow> has_page s T d' \<longrightarrow> d \<noteq> d' \<longrightarrow> apart (pSB (the (descs s d))) (bytes K) (pSB (the (descs s d'))) (bytes K))"

definition holders_ok :: "heap \<Rightarrow> thread list \<Rightarrow> bool" where
  "holders_ok s T \<longleftrightarrow> descs s 0 = None \<and> (fst (active s) = 0 \<longrightarrow> snd (active s) = 0) \<and> 0 \<notin> set (partialList s) \<and> 0 \<notin> set (listSBDescFree s) \<and>
     (\<forall>d. d \<noteq> 0 \<longrightarrow> waiting s T d + working s T d + unused s T d + hits dropped T d \<le> 1) \<and>
     (\<forall>d. d \<noteq> 0 \<longrightarrow> descs s d = None \<longrightarrow> waiting s T d + working s T d + unused s T d + hits dropped T d = 0) \<and>
     (\<forall>d. d \<noteq> 0 \<longrightarrow> \<not> in_service s T d \<longrightarrow> reservations s T d = 0)"

definition used_ok :: "size_class \<Rightarrow> heap \<Rightarrow> thread list \<Rightarrow> nat set \<Rightarrow> bool" where
  "used_ok K s T L \<longleftrightarrow> (\<forall>p \<in> L. 8 < p) \<and> (\<forall>a. a \<noteq> 0 \<longrightarrow> uses T L a \<le> 1) \<and>
     (\<forall>a. a \<noteq> 0 \<longrightarrow> 0 < uses T L a \<longrightarrow> (\<exists>d i. in_service s T d \<and> i < nCapacity K \<and> a = block K (the (descs s d)) i))"

definition m_inv :: "size_class \<Rightarrow> heap \<Rightarrow> thread list \<Rightarrow> nat set \<Rightarrow> bool" where
  "m_inv K s T L \<longleftrightarrow> class_ok K \<and> holders_ok s T \<and> pages_ok K s T \<and> used_ok K s T L \<and> (\<forall>p \<in> set T. thread_ok K s p) \<and>
     (\<forall>d. in_service s T d \<longrightarrow> super_ok K d (the (descs s d)) (nNextFree s) (desc s) (reservations s T d) (waiting s T d) (working s T d)
        (\<lambda>a. 0 < uses T L a))"

section \<open>Use of the invariant\<close>

lemma m_invD:
  assumes "m_inv K s T L"
  shows "class_ok K" "holders_ok s T" "pages_ok K s T" "used_ok K s T L" "\<And>p. p \<in> set T \<Longrightarrow> thread_ok K s p"
    "\<And>d. in_service s T d \<Longrightarrow> super_ok K d (the (descs s d)) (nNextFree s) (desc s) (reservations s T d) (waiting s T d) (working s T d) (\<lambda>a. 0 < uses T L a)"
  using assms by (simp_all add: m_inv_def)

lemma holdersD:
  assumes "holders_ok s T" and "d \<noteq> 0"
  shows "waiting s T d + working s T d + unused s T d + hits dropped T d \<le> 1"
    "descs s d = None \<Longrightarrow> waiting s T d + working s T d + unused s T d + hits dropped T d = 0"
    "\<not> in_service s T d \<Longrightarrow> reservations s T d = 0"
  using assms unfolding holders_ok_def by blast+

lemma usedD:
  assumes "used_ok K s T L"
  shows "p \<in> L \<Longrightarrow> 8 < p" "a \<noteq> 0 \<Longrightarrow> uses T L a \<le> 1"
    "a \<noteq> 0 \<Longrightarrow> 0 < uses T L a \<Longrightarrow> \<exists>d i. in_service s T d \<and> i < nCapacity K \<and> a = block K (the (descs s d)) i"
  using assms unfolding used_ok_def by blast+

lemma superD:
  assumes "super_ok K d D nf hf R q w used"
  shows "free_ok K D nf R used" "state_ok K (anchor D) q w" "i < nCapacity K \<Longrightarrow> hf (block K D i) = d"
  using assms by (simp_all add: super_ok_def)

lemma sum_mem: "p \<in> set T \<Longrightarrow> (f p :: nat) \<le> sum_list (map f T)"
  by (induction T) auto

text \<open>A thread with a reservation finds a free block, and knows its link if its anchor is current.\<close>

lemma reserved_service:
  assumes I: "m_inv K s T L" and p: "p \<in> set T" and r: "0 < reserved d p" and d: "d \<noteq> 0"
  shows "in_service s T d" "0 < reservations s T d"
proof -
  show "0 < reservations s T d" using sum_mem [OF p, of "reserved d"] r by (simp add: reservations_def)
  then show "in_service s T d" using holdersD(3) [OF m_invD(2) [OF I] d] by auto
qed

lemma free_head:
  assumes "free_ok K D nf R used" and "0 < R"
  shows "avail (anchor D) < nCapacity K" "\<not> used (block K D (avail (anchor D)))" "nf (block K D (avail (anchor D))) < nCapacity K"
proof -
  obtain xs where xs: "follow (\<lambda>i. nf (block K D i)) (avail (anchor D)) xs" "length xs = count (anchor D) + R + (if astate (anchor D) = EMPTY then 1 else 0)"
    "set xs = {i. i < nCapacity K \<and> \<not> used (block K D i)}" "\<forall>i \<in> set xs. nf (block K D i) < nCapacity K"
    using assms(1) unfolding free_ok_def by blast
  have "xs \<noteq> []" using xs(2) assms(2) by auto
  then have "avail (anchor D) \<in> set xs" using xs(1) by (cases xs) auto
  then show "avail (anchor D) < nCapacity K" "\<not> used (block K D (avail (anchor D)))" "nf (block K D (avail (anchor D))) < nCapacity K"
    using xs(3,4) by auto
qed

lemma thread_ok_cong:
  "descs s' = descs s \<Longrightarrow> desc s' = desc s \<Longrightarrow> nNextFree s' = nNextFree s \<Longrightarrow> thread_ok K s' p = thread_ok K s p"
  by (cases p) simp_all

text \<open>The link of a block in use is changed by its owner only.\<close>

lemma thread_ok_link:
  assumes I: "m_inv K s T L" and p: "p \<in> set T" and a: "0 < uses T L a" "carried p \<noteq> a"
  shows "thread_ok K (s\<lparr>nNextFree := (nNextFree s)(a := v)\<rparr>) p"
proof -
  note ok = m_invD(5) [OF I p]
  have head: "block K (the (descs s d)) (avail A) \<noteq> a" if d: "d \<noteq> 0" "0 < reserved d p" and A: "seen (the (descs s d)) A" "tag A = tag (anchor (the (descs s d)))" for d A
  proof -
    note rs = reserved_service [OF I p d(2,1)]
    have "\<not> 0 < uses T L (block K (the (descs s d)) (avail (anchor (the (descs s d)))))"
      using free_head(2) [OF superD(1) [OF m_invD(6) [OF I rs(1)]] rs(2)] .
    then show ?thesis using a(1) A by (auto simp: seen_def)
  qed
  show ?thesis
  proof (cases p)
    case (ActiveSwap d c A w)
    then show ?thesis using ok head [of d A] by (auto simp: read_ok_def)
  next
    case (PartialSwap d n A w)
    then show ?thesis using ok head [of d A] by (auto simp: read_ok_def)
  qed (use ok a(2) in auto)
qed

section \<open>Steps that move what is held\<close>

definition same_holders :: "heap \<Rightarrow> thread list \<Rightarrow> heap \<Rightarrow> thread list \<Rightarrow> nat \<Rightarrow> bool" where
  "same_holders s T s' T' d \<longleftrightarrow> waiting s' T' d = waiting s T d \<and> working s' T' d = working s T d \<and> unused s' T' d = unused s T d \<and>
     hits dropped T' d = hits dropped T d \<and> reservations s' T' d = reservations s T d"

lemma same_holdersD:
  assumes "same_holders s T s' T' d"
  shows "waiting s' T' d = waiting s T d" "working s' T' d = working s T d" "unused s' T' d = unused s T d"
    "hits dropped T' d = hits dropped T d" "reservations s' T' d = reservations s T d"
  using assms by (simp_all add: same_holders_def)

lemma service_nz: "holders_ok s T \<Longrightarrow> has_page s T d \<Longrightarrow> d \<noteq> 0" "holders_ok s T \<Longrightarrow> in_service s T d \<Longrightarrow> d \<noteq> 0"
  by (cases "d = 0"; simp add: holders_ok_def has_page_def in_service_def)+

lemma service_page: "in_service s T d \<Longrightarrow> has_page s T d"
  by (simp add: in_service_def has_page_def)

text \<open>Links matter only where a block is free.\<close>

lemma super_cong:
  assumes "super_ok K d D nf hf R q w used" and "\<And>i. i < nCapacity K \<Longrightarrow> hf' (block K D i) = hf (block K D i)"
    and "\<And>i. i < nCapacity K \<Longrightarrow> used' (block K D i) = used (block K D i)"
    and "\<And>i. i < nCapacity K \<Longrightarrow> \<not> used (block K D i) \<Longrightarrow> nf' (block K D i) = nf (block K D i)"
  shows "super_ok K d D nf' hf' R q w used'"
proof -
  obtain xs where xs: "distinct xs" "follow (\<lambda>i. nf (block K D i)) (avail (anchor D)) xs"
    "length xs = count (anchor D) + R + (if astate (anchor D) = EMPTY then 1 else 0)"
    "set xs = {i. i < nCapacity K \<and> \<not> used (block K D i)}" "\<forall>i \<in> set xs. nf (block K D i) < nCapacity K" "avail (anchor D) < nCapacity K"
    using superD(1) [OF assms(1)] unfolding free_ok_def by blast
  have "follow (\<lambda>i. nf' (block K D i)) (avail (anchor D)) xs"
    using xs(2,4) assms(4) follow_cong [of xs "\<lambda>i. nf' (block K D i)" "\<lambda>i. nf (block K D i)"] by auto
  moreover have "{i. i < nCapacity K \<and> \<not> used' (block K D i)} = set xs" using xs(4) assms(3) by auto
  moreover have "\<forall>i \<in> set xs. nf' (block K D i) < nCapacity K" using xs(4,5) assms(4) by auto
  ultimately have "free_ok K D nf' R used'" unfolding free_ok_def using xs(1,3,6) by auto
  then show ?thesis using superD(2,3) [OF assms(1)] assms(2) by (simp add: super_ok_def)
qed

lemma keep_all:
  assumes I: "m_inv K s T L" and h: "descs s' = descs s" "desc s' = desc s" "pages s' = pages s"
    and z: "fst (active s') = 0 \<longrightarrow> snd (active s') = 0" "0 \<notin> set (partialList s')" "0 \<notin> set (listSBDescFree s')"
    and same: "\<And>d. d \<noteq> 0 \<Longrightarrow> same_holders s T s' T' d"
    and u: "\<And>a. a \<noteq> 0 \<Longrightarrow> uses T' L' a = uses T L a" "\<And>p. p \<in> L' \<Longrightarrow> 8 < p"
    and nf: "\<And>a. nNextFree s' a \<noteq> nNextFree s a \<Longrightarrow> a \<noteq> 0 \<and> 0 < uses T L a"
    and th: "\<And>p. p \<in> set T' \<Longrightarrow> thread_ok K s' p"
  shows "m_inv K s' T' L'"
proof -
  note D = m_invD [OF I] and S = same_holdersD [OF same]
  have ser: "in_service s' T' d = in_service s T d" "has_page s' T' d = has_page s T d" for d
    using S [of d] h(1) D(2) by (cases "d = 0"; simp add: in_service_def has_page_def holders_ok_def)+
  have "holders_ok s' T'" using D(2) z S h(1) unfolding holders_ok_def ser by simp
  moreover have "pages_ok K s' T'" using D(3) unfolding pages_ok_def ser h .
  moreover have "used_ok K s' T' L'" using D(4) u unfolding used_ok_def ser h by auto
  moreover have "super_ok K d (the (descs s' d)) (nNextFree s') (desc s') (reservations s' T' d) (waiting s' T' d) (working s' T' d) (\<lambda>a. 0 < uses T' L' a)"
    if d: "in_service s' T' d" for d
  proof -
    have d': "in_service s T d" using d ser by simp
    have nz: "d \<noteq> 0" using service_nz(2) [OF D(2) d'] .
    have pos: "block K (the (descs s d)) i \<noteq> 0" for i
      using D(3) service_page [OF d'] unfolding pages_ok_def block_def by fastforce
    have "nNextFree s' (block K (the (descs s d)) i) = nNextFree s (block K (the (descs s d)) i)" if "\<not> 0 < uses T L (block K (the (descs s d)) i)" for i
      using that nf [of "block K (the (descs s d)) i"] by (intro ccontr [where P = "_ = _"]) simp
    then show ?thesis unfolding S [OF nz] h by (intro super_cong [OF D(6) [OF d']]) (use u(1) pos in simp_all)
  qed
  ultimately show ?thesis using D(1) th by (simp add: m_inv_def)
qed

lemma block_pos: "pages_ok K s T \<Longrightarrow> has_page s T d \<Longrightarrow> 0 < block K (the (descs s d)) i"
  by (simp add: pages_ok_def block_def)

section \<open>Steps that concern one descriptor\<close>

definition others_same :: "heap \<Rightarrow> thread list \<Rightarrow> heap \<Rightarrow> thread list \<Rightarrow> nat \<Rightarrow> bool" where
  "others_same s T s' T' d \<longleftrightarrow> descs s' 0 = None \<and> (\<forall>e. e \<noteq> 0 \<longrightarrow> e \<noteq> d \<longrightarrow> same_holders s T s' T' e \<and> descs s' e = descs s e)"

lemma others_sameD:
  assumes "others_same s T s' T' d" and "e \<noteq> 0" and "e \<noteq> d"
  shows "same_holders s T s' T' e" "descs s' e = descs s e"
  using assms unfolding others_same_def by blast+

lemma others_service:
  assumes H: "holders_ok s T" and O: "others_same s T s' T' d" and e: "e \<noteq> d"
  shows "in_service s' T' e = in_service s T e" "has_page s' T' e = has_page s T e"
proof -
  have "in_service s' T' e = in_service s T e \<and> has_page s' T' e = has_page s T e"
  proof (cases "e = 0")
    case True
    then show ?thesis using H O by (simp add: in_service_def has_page_def holders_ok_def others_same_def)
  next
    case False
    then show ?thesis using same_holdersD [OF others_sameD(1) [OF O False e]] others_sameD(2) [OF O False e] by (simp add: in_service_def has_page_def)
  qed
  then show "in_service s' T' e = in_service s T e" "has_page s' T' e = has_page s T e" by simp_all
qed

lemma others_holders:
  assumes H: "holders_ok s T" and O: "others_same s T s' T' d" and d: "descs s' d \<noteq> None"
    and z: "fst (active s') = 0 \<longrightarrow> snd (active s') = 0" "0 \<notin> set (partialList s')" "0 \<notin> set (listSBDescFree s')"
    and own: "waiting s' T' d + working s' T' d + unused s' T' d + hits dropped T' d \<le> 1" "\<not> in_service s' T' d \<Longrightarrow> reservations s' T' d = 0"
  shows "holders_ok s' T'"
  unfolding holders_ok_def
proof (intro conjI allI impI)
  show "descs s' 0 = None" using O by (simp add: others_same_def)
  show "snd (active s') = 0" if "fst (active s') = 0" using that z by blast
next
  fix e assume e: "e \<noteq> (0::nat)"
  note He = holdersD [OF H e]
  show "waiting s' T' e + working s' T' e + unused s' T' e + hits dropped T' e \<le> 1"
    using own(1) He(1) same_holdersD [OF others_sameD(1) [OF O e]] by (cases "e = d") simp_all
  show "waiting s' T' e + working s' T' e + unused s' T' e + hits dropped T' e = 0" if "descs s' e = None"
    using that d He(2) same_holdersD [OF others_sameD(1) [OF O e]] others_sameD(2) [OF O e] by (cases "e = d") simp_all
  show "reservations s' T' e = 0" if "\<not> in_service s' T' e"
    using that own(2) He(3) same_holdersD(5) [OF others_sameD(1) [OF O e]] others_service(1) [OF H O] by (cases "e = d") simp_all
qed (use z in simp_all)

text \<open>A block in use is one of another superblock or one of \<open>d\<close>, if that stays in service.\<close>

lemma others_used:
  assumes I: "m_inv K s T L" and O: "others_same s T s' T' d" and L: "\<And>x. x \<in> L' \<Longrightarrow> 8 < x"
    and u: "\<And>a. a \<noteq> 0 \<Longrightarrow> 0 < uses T' L' a \<Longrightarrow> uses T' L' a \<le> 1 \<and>
      ((\<exists>e i. e \<noteq> d \<and> in_service s T e \<and> i < nCapacity K \<and> a = block K (the (descs s e)) i) \<or>
       in_service s' T' d \<and> (\<exists>i < nCapacity K. a = block K (the (descs s' d)) i))"
  shows "used_ok K s' T' L'"
  unfolding used_ok_def
proof (intro conjI allI impI ballI)
  show "8 < x" if "x \<in> L'" for x using L [OF that] .
  show "uses T' L' a \<le> 1" if "a \<noteq> 0" for a using u [OF that] by (cases "uses T' L' a") auto
next
  fix a assume a: "a \<noteq> (0::nat)" "0 < uses T' L' a"
  note H = m_invD(2) [OF I]
  consider e i where "e \<noteq> d" "in_service s T e" "i < nCapacity K" "a = block K (the (descs s e)) i"
    | i where "in_service s' T' d" "i < nCapacity K" "a = block K (the (descs s' d)) i" using u [OF a] by blast
  then show "\<exists>e i. in_service s' T' e \<and> i < nCapacity K \<and> a = block K (the (descs s' e)) i"
  proof cases
    case 1
    have "e \<noteq> 0" using service_nz(2) [OF H 1(2)] .
    then have "descs s' e = descs s e" using others_sameD(2) [OF O _ 1(1)] by simp
    moreover have "in_service s' T' e" using others_service(1) [OF H O 1(1)] 1(2) by simp
    ultimately show ?thesis using 1(3,4) by (intro exI [of _ e] exI [of _ i]) simp
  next
    case 2
    then show ?thesis by blast
  qed
qed

lemma others_super:
  assumes I: "m_inv K s T L" and O: "others_same s T s' T' d" and e: "e \<noteq> d" "in_service s' T' e"
    and l: "\<And>i. i < nCapacity K \<Longrightarrow> desc s' (block K (the (descs s e)) i) = desc s (block K (the (descs s e)) i)"
      "\<And>i. i < nCapacity K \<Longrightarrow> nNextFree s' (block K (the (descs s e)) i) = nNextFree s (block K (the (descs s e)) i)"
      "\<And>i. i < nCapacity K \<Longrightarrow> uses T' L' (block K (the (descs s e)) i) = uses T L (block K (the (descs s e)) i)"
  shows "super_ok K e (the (descs s' e)) (nNextFree s') (desc s') (reservations s' T' e) (waiting s' T' e) (working s' T' e) (\<lambda>a. 0 < uses T' L' a)"
proof -
  note H = m_invD(2) [OF I]
  have e': "in_service s T e" using others_service(1) [OF H O e(1)] e(2) by simp
  have nz: "e \<noteq> 0" using service_nz(2) [OF H e'] .
  note S = same_holdersD [OF others_sameD(1) [OF O nz e(1)]] others_sameD(2) [OF O nz e(1)]
  show ?thesis unfolding S by (rule super_cong [OF m_invD(6) [OF I e']]) (simp_all add: l)
qed

text \<open>The descriptor is out of service before and after; blocks in use and the links stay.\<close>

lemma outside_step:
  assumes I: "m_inv K s T L" and O: "others_same s T s' T' d" and h: "desc s' = desc s" "nNextFree s' = nNextFree s" "descs s' d \<noteq> None"
    and z: "fst (active s') = 0 \<longrightarrow> snd (active s') = 0" "0 \<notin> set (partialList s')" "0 \<notin> set (listSBDescFree s')"
    and own: "waiting s' T' d + working s' T' d + unused s' T' d + hits dropped T' d \<le> 1" "reservations s' T' d = 0"
      "\<not> in_service s T d" "\<not> in_service s' T' d"
    and P: "pages_ok K s' T'" and u: "\<And>a. a \<noteq> 0 \<Longrightarrow> uses T' L a = uses T L a" and th: "\<And>p. p \<in> set T' \<Longrightarrow> thread_ok K s' p"
  shows "m_inv K s' T' L"
proof -
  note M = m_invD [OF I]
  have "holders_ok s' T'" by (rule others_holders [OF M(2) O h(3) z own(1)]) (rule own(2))
  moreover have "used_ok K s' T' L"
  proof (rule others_used [OF I O])
    show "8 < x" if "x \<in> L" for x using usedD(1) [OF M(4) that] .
    show "uses T' L a \<le> 1 \<and> ((\<exists>e i. e \<noteq> d \<and> in_service s T e \<and> i < nCapacity K \<and> a = block K (the (descs s e)) i) \<or>
       in_service s' T' d \<and> (\<exists>i < nCapacity K. a = block K (the (descs s' d)) i))" if a: "a \<noteq> 0" "0 < uses T' L a" for a
    proof -
      obtain e i where e: "in_service s T e" "i < nCapacity K" "a = block K (the (descs s e)) i" using usedD(3) [OF M(4) a(1)] a u by auto
      then have "e \<noteq> d" using own(3) by auto
      then show ?thesis using e u [OF a(1)] usedD(2) [OF M(4) a(1)] by auto
    qed
  qed
  moreover have "super_ok K e (the (descs s' e)) (nNextFree s') (desc s') (reservations s' T' e) (waiting s' T' e) (working s' T' e) (\<lambda>a. 0 < uses T' L a)"
    if e: "in_service s' T' e" for e
  proof -
    have ne: "e \<noteq> d" using e own(4) by auto
    have e': "in_service s T e" using others_service(1) [OF M(2) O ne] e by simp
    show ?thesis
      by (rule others_super [OF I O ne e]) (use u block_pos [OF M(3) service_page [OF e']] in \<open>simp_all add: h\<close>)
  qed
  ultimately show ?thesis using M(1) P th by (simp add: m_inv_def)
qed

section \<open>Steps that change an anchor\<close>

lemma put_anchor_simps [simp]:
  "active (put_anchor d D A s) = active s" "pPartial (put_anchor d D A s) = pPartial s" "partialList (put_anchor d D A s) = partialList s"
  "listSBDescFree (put_anchor d D A s) = listSBDescFree s" "desc (put_anchor d D A s) = desc s" "nNextFree (put_anchor d D A s) = nNextFree s"
  "pages (put_anchor d D A s) = pages s" "descs (put_anchor d D A s) = (descs s)(d \<mapsto> D\<lparr>anchor := A\<rparr>)"
  by (simp_all add: put_anchor_def)

lemma block_anchor [simp]: "block K (D\<lparr>anchor := A\<rparr>) i = block K D i"
  by (simp add: block_def)

text \<open>The tag grows, or head and tag stay.\<close>

definition newer :: "anchor_tag \<Rightarrow> anchor_tag \<Rightarrow> bool" where
  "newer A B \<longleftrightarrow> tag A < tag B \<or> tag A = tag B \<and> avail A = avail B"

lemma seen_newer: "seen D C \<Longrightarrow> newer (anchor D) A \<Longrightarrow> seen (D\<lparr>anchor := A\<rparr>) C"
  by (auto simp: seen_def newer_def)

lemma read_newer: "read_ok K D nf C v \<Longrightarrow> newer (anchor D) A \<Longrightarrow> read_ok K (D\<lparr>anchor := A\<rparr>) nf C v"
  using seen_newer [of D C A] by (auto simp: read_ok_def seen_def newer_def)

lemma thread_ok_anchor:
  assumes "thread_ok K s p" and "descs s d = Some D" and "newer (anchor D) A" and "\<And>c b. p \<noteq> Install d c b"
  shows "thread_ok K (put_anchor d D A s) p"
proof -
  have s: "seen (the (((descs s)(d \<mapsto> D\<lparr>anchor := A\<rparr>)) e)) C" if "seen (the (descs s e)) C" for e C
    using that seen_newer [of D C A] assms(2,3) by (cases "e = d") simp_all
  have r: "read_ok K (the (((descs s)(d \<mapsto> D\<lparr>anchor := A\<rparr>)) e)) (nNextFree s) C v" if "read_ok K (the (descs s e)) (nNextFree s) C v" for e C v
    using that read_newer [of K D "nNextFree s" C v A] assms(2,3) by (cases "e = d") simp_all
  have i: "e \<noteq> d" if "p = Install e c b" for e c b using that assms(4) by auto
  show ?thesis using assms(1) s r i by (cases p) (simp_all del: fun_upd_apply, simp_all)
qed

lemma block_in: "i < nCapacity K \<Longrightarrow> block K D i + nBlockSize K \<le> pSB D + bytes K"
proof -
  assume "i < nCapacity K"
  then have "Suc i * nBlockSize K \<le> nCapacity K * nBlockSize K" by (intro mult_le_mono1) simp
  then show ?thesis by (simp add: block_def bytes_def)
qed

text \<open>Blocks of different superblocks differ.\<close>

lemma blocks_differ:
  assumes "class_ok K" and P: "pages_ok K s T" and d: "has_page s T d" and e: "has_page s T e" and ne: "d \<noteq> e"
    and i: "i < nCapacity K" and j: "j < nCapacity K"
  shows "apart (block K (the (descs s d)) i) (nBlockSize K) (block K (the (descs s e)) j) (nBlockSize K)"
    "block K (the (descs s d)) i \<noteq> block K (the (descs s e)) j"
proof -
  have a: "apart (pSB (the (descs s d))) (bytes K) (pSB (the (descs s e))) (bytes K)" using P d e ne by (simp add: pages_ok_def)
  have "pSB (the (descs s d)) \<le> block K (the (descs s d)) i" "pSB (the (descs s e)) \<le> block K (the (descs s e)) j" by (simp_all add: block_def)
  then show A: "apart (block K (the (descs s d)) i) (nBlockSize K) (block K (the (descs s e)) j) (nBlockSize K)"
    using a block_in [OF i, of "the (descs s d)"] block_in [OF j, of "the (descs s e)"] unfolding apart_def by linarith
  show "block K (the (descs s d)) i \<noteq> block K (the (descs s e)) j" using A assms(1) by (auto simp: apart_def class_ok_def)
qed

lemma keep_anchor:
  assumes I: "m_inv K s T L" and d: "in_service s T d" and D: "descs s d = Some D"
    and same: "\<And>e. e \<noteq> 0 \<Longrightarrow> e \<noteq> d \<Longrightarrow> same_holders s T (put_anchor d D A s) T' e"
    and own: "unused (put_anchor d D A s) T' d = 0" "hits dropped T' d = 0"
      "waiting (put_anchor d D A s) T' d + working (put_anchor d D A s) T' d \<le> 1"
    and u: "\<And>a. a \<noteq> 0 \<Longrightarrow> (\<forall>i < nCapacity K. a \<noteq> block K D i) \<Longrightarrow> uses T' L a = uses T L a" "\<And>i. i < nCapacity K \<Longrightarrow> uses T' L (block K D i) \<le> 1"
    and sup: "super_ok K d (D\<lparr>anchor := A\<rparr>) (nNextFree s) (desc s) (reservations (put_anchor d D A s) T' d)
      (waiting (put_anchor d D A s) T' d) (working (put_anchor d D A s) T' d) (\<lambda>a. 0 < uses T' L a)"
    and th: "\<And>p. p \<in> set T' \<Longrightarrow> thread_ok K (put_anchor d D A s) p"
  shows "m_inv K (put_anchor d D A s) T' L"
proof -
  let ?s = "put_anchor d D A s"
  note M = m_invD [OF I]
  have nz: "d \<noteq> 0" using service_nz(2) [OF M(2) d] .
  have O: "others_same s T ?s T' d" using same nz M(2) by (simp add: others_same_def holders_ok_def)
  note ser = others_service [OF M(2) O]
  have sd: "in_service ?s T' d" "has_page ?s T' d" using own by (simp_all add: in_service_def has_page_def)
  have D': "the (descs ?s d) = D\<lparr>anchor := A\<rparr>" by simp
  have "holders_ok ?s T'" by (rule others_holders [OF M(2) O]) (use own sd M(2) in \<open>simp_all add: holders_ok_def\<close>)
  moreover have "pages_ok K ?s T'"
  proof -
    have "has_page ?s T' e = has_page s T e" for e using ser(2) [of e] sd(2) service_page [OF d] by (cases "e = d") simp_all
    moreover have "pSB (the (descs ?s e)) = pSB (the (descs s e))" for e using D by simp
    ultimately show ?thesis using M(3) unfolding pages_ok_def by simp
  qed
  moreover have "used_ok K ?s T' L"
  proof (rule others_used [OF I O])
    show "8 < x" if "x \<in> L" for x using usedD(1) [OF M(4) that] .
    show "uses T' L a \<le> 1 \<and> ((\<exists>e i. e \<noteq> d \<and> in_service s T e \<and> i < nCapacity K \<and> a = block K (the (descs s e)) i) \<or>
       in_service ?s T' d \<and> (\<exists>i < nCapacity K. a = block K (the (descs ?s d)) i))" if a: "a \<noteq> 0" "0 < uses T' L a" for a
    proof (cases "\<exists>i < nCapacity K. a = block K D i")
      case True
      then show ?thesis using u(2) sd(1) unfolding D' block_anchor by auto
    next
      case False
      then have s: "uses T' L a = uses T L a" using u(1) a(1) by blast
      then obtain e i where e: "in_service s T e" "i < nCapacity K" "a = block K (the (descs s e)) i" using usedD(3) [OF M(4) a(1)] a(2) by auto
      then have "e \<noteq> d" using False D by auto
      then show ?thesis using e s usedD(2) [OF M(4) a(1)] by auto
    qed
  qed
  moreover have "super_ok K e (the (descs ?s e)) (nNextFree ?s) (desc ?s) (reservations ?s T' e) (waiting ?s T' e) (working ?s T' e) (\<lambda>a. 0 < uses T' L a)"
    if e: "in_service ?s T' e" for e
  proof (cases "e = d")
    case True
    then show ?thesis using sup by simp
  next
    case False
    have e': "in_service s T e" using ser(1) [OF False] e by simp
    have "uses T' L (block K (the (descs s e)) i) = uses T L (block K (the (descs s e)) i)" if "i < nCapacity K" for i
      using u(1) [of "block K (the (descs s e)) i"] block_pos [OF M(3) service_page [OF e'], of i]
        blocks_differ(2) [OF M(1,3) service_page [OF e'] service_page [OF d] False that] D by simp
    then show ?thesis by (intro others_super [OF I O False e]) simp_all
  qed
  ultimately show ?thesis using M(1) th by (simp add: m_inv_def)
qed

section \<open>Superblocks that leave service\<close>

lemma keep_drop:
  assumes I: "m_inv K s T L" and d: "in_service s T d" and D: "descs s d = Some D"
    and h: "descs s' = descs s" "desc s' = desc s" "pages s' = pages s" "nNextFree s' = nNextFree s"
    and z: "fst (active s') = 0 \<longrightarrow> snd (active s') = 0" "0 \<notin> set (partialList s')" "0 \<notin> set (listSBDescFree s')"
    and same: "\<And>e. e \<noteq> 0 \<Longrightarrow> e \<noteq> d \<Longrightarrow> same_holders s T s' T' e"
    and own: "waiting s' T' d = 0" "working s' T' d = 0" "unused s' T' d = 0" "hits dropped T' d = 1" "reservations s' T' d = 0"
    and u: "\<And>a. a \<noteq> 0 \<Longrightarrow> (\<forall>i < nCapacity K. a \<noteq> block K D i) \<Longrightarrow> uses T' L a = uses T L a" "\<And>i. i < nCapacity K \<Longrightarrow> uses T' L (block K D i) = 0"
    and th: "\<And>p. p \<in> set T' \<Longrightarrow> thread_ok K s p"
  shows "m_inv K s' T' L"
proof -
  note M = m_invD [OF I]
  have nz: "d \<noteq> 0" using service_nz(2) [OF M(2) d] .
  have O: "others_same s T s' T' d" using same h M(2) by (simp add: others_same_def holders_ok_def)
  note ser = others_service [OF M(2) O]
  have sd: "\<not> in_service s' T' d" "has_page s' T' d" using own h D by (simp_all add: in_service_def has_page_def)
  have "holders_ok s' T'" by (rule others_holders [OF M(2) O _ z]) (use own h D in simp_all)
  moreover have "pages_ok K s' T'"
  proof -
    have "has_page s' T' e = has_page s T e" for e using ser(2) [of e] sd(2) service_page [OF d] by (cases "e = d") simp_all
    then show ?thesis using M(3) unfolding pages_ok_def h by simp
  qed
  moreover have "used_ok K s' T' L"
  proof (rule others_used [OF I O])
    show "8 < x" if "x \<in> L" for x using usedD(1) [OF M(4) that] .
    show "uses T' L a \<le> 1 \<and> ((\<exists>e i. e \<noteq> d \<and> in_service s T e \<and> i < nCapacity K \<and> a = block K (the (descs s e)) i) \<or>
       in_service s' T' d \<and> (\<exists>i < nCapacity K. a = block K (the (descs s' d)) i))" if a: "a \<noteq> 0" "0 < uses T' L a" for a
    proof -
      have no: "\<forall>i < nCapacity K. a \<noteq> block K D i" using u(2) a(2) by auto
      then have s: "uses T' L a = uses T L a" using u(1) a(1) by blast
      then obtain e i where e: "in_service s T e" "i < nCapacity K" "a = block K (the (descs s e)) i" using usedD(3) [OF M(4) a(1)] a(2) by auto
      then have "e \<noteq> d" using no D by auto
      then show ?thesis using e s usedD(2) [OF M(4) a(1)] by auto
    qed
  qed
  moreover have "super_ok K e (the (descs s' e)) (nNextFree s') (desc s') (reservations s' T' e) (waiting s' T' e) (working s' T' e) (\<lambda>a. 0 < uses T' L a)"
    if e: "in_service s' T' e" for e
  proof -
    have ne: "e \<noteq> d" using e sd(1) by auto
    have e': "in_service s T e" using ser(1) [OF ne] e by simp
    have "uses T' L (block K (the (descs s e)) i) = uses T L (block K (the (descs s e)) i)" if "i < nCapacity K" for i
      using u(1) [of "block K (the (descs s e)) i"] block_pos [OF M(3) service_page [OF e'], of i]
        blocks_differ(2) [OF M(1,3) service_page [OF e'] service_page [OF d] ne that] D by simp
    then show ?thesis by (intro others_super [OF I O ne e]) (simp_all add: h)
  qed
  moreover have "thread_ok K s' p" if "p \<in> set T'" for p using th [OF that] thread_ok_cong [OF h(1,2,4)] by blast
  ultimately show ?thesis using M(1) by (simp add: m_inv_def)
qed

section \<open>Free blocks taken and put back\<close>

lemma pop_free:
  assumes F: "free_ok K D nf R used" and R: "0 < R" and K: "class_ok K"
    and v: "v = nf (block K D (avail (anchor D)))" and B: "avail B = v mod 2 ^ 11" "astate B \<noteq> EMPTY" "astate (anchor D) \<noteq> EMPTY"
    and n: "count B + R' + 1 = count (anchor D) + R"
    and u: "\<And>i. i < nCapacity K \<Longrightarrow> used' (block K D i) \<longleftrightarrow> used (block K D i) \<or> i = avail (anchor D)"
  shows "free_ok K (D\<lparr>anchor := B\<rparr>) nf R' used'"
proof -
  obtain xs where xs: "distinct xs" "follow (\<lambda>i. nf (block K D i)) (avail (anchor D)) xs" "length xs = count (anchor D) + R"
    "set xs = {i. i < nCapacity K \<and> \<not> used (block K D i)}" "\<forall>i \<in> set xs. nf (block K D i) < nCapacity K"
    using F B(3) unfolding free_ok_def by auto
  obtain ys where ys: "xs = avail (anchor D) # ys" using xs(2,3) R by (cases xs) auto
  have v': "v < nCapacity K" using xs(5) ys v by simp
  then have "avail B = v" using B(1) K by (simp add: class_ok_def)
  moreover have "follow (\<lambda>i. nf (block K D i)) v ys" using xs(2) ys v by simp
  moreover have "length ys = count B + R'" using xs(3) ys n by simp
  moreover have "set ys = {i. i < nCapacity K \<and> \<not> used' (block K D i)}" using xs(1,4) ys u by auto
  moreover have "\<forall>i \<in> set ys. nf (block K D i) < nCapacity K" using xs(5) ys by simp
  moreover have "distinct ys" using xs(1) ys by simp
  ultimately show ?thesis unfolding free_ok_def using B(2) v' by auto
qed

lemma push_free:
  assumes F: "free_ok K D nf R used" and K: "class_ok K" and j: "j < nCapacity K" "used (block K D j)" "nf (block K D j) = avail (anchor D)"
    and B: "avail B = j" "astate (anchor D) \<noteq> EMPTY"
    and n: "count B + R + (if astate B = EMPTY then 1 else 0) = count (anchor D) + R + 1"
    and u: "\<And>i. i < nCapacity K \<Longrightarrow> used' (block K D i) \<longleftrightarrow> used (block K D i) \<and> i \<noteq> j"
  shows "free_ok K (D\<lparr>anchor := B\<rparr>) nf R used'"
proof -
  obtain xs where xs: "distinct xs" "follow (\<lambda>i. nf (block K D i)) (avail (anchor D)) xs" "length xs = count (anchor D) + R"
    "set xs = {i. i < nCapacity K \<and> \<not> used (block K D i)}" "\<forall>i \<in> set xs. nf (block K D i) < nCapacity K" "avail (anchor D) < nCapacity K"
    using F B(2) unfolding free_ok_def by auto
  have "j \<notin> set xs" using xs(4) j(2) by simp
  then have "distinct (j # xs)" using xs(1) by simp
  moreover have "follow (\<lambda>i. nf (block K D i)) j (j # xs)" using xs(2) j(3) by simp
  moreover have "set (j # xs) = {i. i < nCapacity K \<and> \<not> used' (block K D i)}" using xs(4) u j by auto
  moreover have "\<forall>i \<in> set (j # xs). nf (block K D i) < nCapacity K" using xs(5,6) j(3) by simp
  moreover have "length (j # xs) = count B + R + (if astate B = EMPTY then 1 else 0)" using xs(3) n by simp
  ultimately show ?thesis unfolding free_ok_def using B(1) j(1) by (intro conjI exI [of _ "j # xs"]) simp_all
qed

text \<open>Only the reservations move.\<close>

lemma move_free:
  assumes F: "free_ok K D nf R used" and B: "avail B = avail (anchor D)" and n: "count B + R' = count (anchor D) + R"
    and e: "astate B = EMPTY \<longleftrightarrow> astate (anchor D) = EMPTY"
    and u: "\<And>i. i < nCapacity K \<Longrightarrow> used' (block K D i) = used (block K D i)"
  shows "free_ok K (D\<lparr>anchor := B\<rparr>) nf R' used'"
proof -
  obtain xs where xs: "distinct xs" "follow (\<lambda>i. nf (block K D i)) (avail (anchor D)) xs"
    "length xs = count (anchor D) + R + (if astate (anchor D) = EMPTY then 1 else 0)"
    "set xs = {i. i < nCapacity K \<and> \<not> used (block K D i)}" "\<forall>i \<in> set xs. nf (block K D i) < nCapacity K" "avail (anchor D) < nCapacity K"
    using F unfolding free_ok_def by blast
  have "set xs = {i. i < nCapacity K \<and> \<not> used' (block K D i)}" using xs(4) u by auto
  then show ?thesis unfolding free_ok_def using xs B n e by (intro conjI exI [of _ xs]) simp_all
qed

text \<open>Free blocks and blocks in use add up.\<close>

lemma free_bound:
  assumes F: "free_ok K D nf R used"
  shows "count (anchor D) + R + (if astate (anchor D) = EMPTY then 1 else 0) \<le> nCapacity K"
    "j < nCapacity K \<Longrightarrow> used (block K D j) \<Longrightarrow> count (anchor D) + R + (if astate (anchor D) = EMPTY then 1 else 0) < nCapacity K"
    "count (anchor D) + R + (if astate (anchor D) = EMPTY then 1 else 0) = nCapacity K \<Longrightarrow> i < nCapacity K \<Longrightarrow> \<not> used (block K D i)"
    "i < nCapacity K \<Longrightarrow> j < nCapacity K \<Longrightarrow> i \<noteq> j \<Longrightarrow> used (block K D i) \<Longrightarrow> used (block K D j) \<Longrightarrow> count (anchor D) + R + 2 \<le> nCapacity K"
proof -
  obtain xs where xs: "distinct xs" "length xs = count (anchor D) + R + (if astate (anchor D) = EMPTY then 1 else 0)"
    "set xs = {i. i < nCapacity K \<and> \<not> used (block K D i)}" using F unfolding free_ok_def by blast
  have sub: "set xs \<subseteq> {..< nCapacity K}" using xs(3) by auto
  have c: "card (set xs) = length xs" using xs(1) by (rule distinct_card)
  show "count (anchor D) + R + (if astate (anchor D) = EMPTY then 1 else 0) \<le> nCapacity K"
    using card_mono [OF _ sub] c xs(2) by simp
  show "count (anchor D) + R + (if astate (anchor D) = EMPTY then 1 else 0) < nCapacity K" if "j < nCapacity K" "used (block K D j)"
  proof -
    have "set xs \<subset> {..< nCapacity K}" using that xs(3) by auto
    then show ?thesis using psubset_card_mono [of "{..< nCapacity K}" "set xs"] c xs(2) by simp
  qed
  show "\<not> used (block K D i)" if "count (anchor D) + R + (if astate (anchor D) = EMPTY then 1 else 0) = nCapacity K" "i < nCapacity K"
  proof -
    have "set xs = {..< nCapacity K}" using card_subset_eq [OF _ sub] c xs(2) that(1) by simp
    then show ?thesis using that(2) xs(3) by auto
  qed
  show "count (anchor D) + R + 2 \<le> nCapacity K" if "i < nCapacity K" "j < nCapacity K" "i \<noteq> j" "used (block K D i)" "used (block K D j)"
  proof -
    have "set xs \<subseteq> {..< nCapacity K} - {i, j}" using that xs(3) by auto
    then have "card (set xs) \<le> card ({..< nCapacity K} - {i, j})" by (intro card_mono) simp_all
    also have "\<dots> = nCapacity K - 2" using that by (simp add: card_Diff_subset)
    finally show ?thesis using c xs(2) that by simp
  qed
qed

lemma block_inj: "class_ok K \<Longrightarrow> block K D i = block K D j \<longleftrightarrow> i = j"
  by (simp add: block_def class_ok_def)

end
