(* ===== verification/MichaelSteps.thy ===== *)
theory MichaelSteps
  imports MichaelInv
begin

text \<open>
  Every step of a thread of Michael's allocator succeeds and keeps the invariant, as long as no release removes a superblock from the list
  of partial superblocks that is not empty.
\<close>

section \<open>Moves\<close>

lemma others_ok: "m_inv K s (us @ p # vs) L \<Longrightarrow> x \<in> set us \<union> set vs \<Longrightarrow> thread_ok K s x"
  by (rule m_invD(5)) auto

text \<open>What one thread holds goes to another holder of the same kind.\<close>

lemma same_step:
  assumes I: "m_inv K s (us @ p # vs) L" and h: "descs s' = descs s" "desc s' = desc s" "pages s' = pages s" "nNextFree s' = nNextFree s"
    and z: "fst (active s') = 0 \<longrightarrow> snd (active s') = 0" "0 \<notin> set (partialList s')" "0 \<notin> set (listSBDescFree s')"
    and same: "\<And>d. d \<noteq> 0 \<Longrightarrow> same_holders s (us @ p # vs) s' (us @ q # vs) d" and c: "carried q = carried p" and q: "thread_ok K s q"
  shows "m_inv K s' (us @ q # vs) L"
proof (rule keep_all [OF I h(1-3) z same])
  show "thread_ok K s' x" if "x \<in> set (us @ q # vs)" for x
    using that q others_ok [OF I, of x] unfolding thread_ok_cong [OF h(1,2,4)] by auto
  show "8 < x" if "x \<in> L" for x using usedD(1) [OF m_invD(4) [OF I] that] .
qed (use h(4) c in \<open>simp_all add: uses_def\<close>)

lemma heap_nz: "m_inv K s T L \<Longrightarrow> fst (active s) = 0 \<longrightarrow> snd (active s) = 0" "m_inv K s T L \<Longrightarrow> 0 \<notin> set (partialList s)"
  "m_inv K s T L \<Longrightarrow> 0 \<notin> set (listSBDescFree s)"
  using m_invD(2) by (simp_all add: holders_ok_def)

lemma pure_step:
  assumes I: "m_inv K s (us @ p # vs) L" and f: "quiet q = quiet p" "busy q = busy p" "blank q = blank p" "dropped q = dropped p" "carried q = carried p"
    and r: "\<And>d. d \<noteq> 0 \<Longrightarrow> reserved d q = reserved d p" and q: "thread_ok K s q"
  shows "m_inv K s (us @ q # vs) L"
  by (rule same_step [OF I refl refl refl refl heap_nz [OF I]]) (use f r q in \<open>simp_all add: same_holders_def counts\<close>)

section \<open>Reservation in the active superblock\<close>

lemma alloc_step:
  assumes I: "m_inv K s (us @ Alloc # vs) L"
  shows "\<exists>s' q. reserve_active s = (s', q) \<and> m_inv K s' (us @ q # vs) L"
proof -
  obtain d c where a: "active s = (d, c)" by (cases "active s")
  show ?thesis
  proof (cases "d = 0")
    case True
    have "m_inv K s (us @ GetPartial # vs) L" by (rule pure_step [OF I]) simp_all
    then show ?thesis using a True by (simp add: reserve_active_def)
  next
    case False
    let ?s = "s\<lparr>active := (if c = 0 then (0, 0) else (d, c - 1))\<rparr>"
    have "m_inv K ?s (us @ ActiveLoad d c # vs) L"
      by (rule same_step [OF I]) (use a False heap_nz [OF I] in \<open>auto simp: same_holders_def counts\<close>)
    then show ?thesis using a False by (simp add: reserve_active_def)
  qed
qed

lemma in_service_Some: "in_service s T d \<Longrightarrow> \<exists>D. descs s d = Some D"
  by (auto simp: in_service_def)

lemma load_step:
  assumes I: "m_inv K s T L" and p: "p \<in> set T" and r: "0 < reserved d p" "d \<noteq> 0"
  shows "\<exists>D. descs s d = Some D \<and> load_anchor K d s = Some (anchor D) \<and> in_service s T d"
proof -
  note R = reserved_service [OF I p r]
  obtain D where D: "descs s d = Some D" using in_service_Some [OF R(1)] by blast
  have "avail (anchor D) < nCapacity K" using free_head(1) [OF superD(1) [OF m_invD(6) [OF I R(1)]] R(2)] D by simp
  then show ?thesis using D R(1) by (simp add: load_anchor_def)
qed

lemma active_load_step:
  assumes I: "m_inv K s (us @ ActiveLoad d c # vs) L"
  shows "\<exists>s' q. thread_step K e s (ActiveLoad d c) = Some (s', q) \<and> m_inv K s' (us @ q # vs) L"
proof -
  have nz: "d \<noteq> 0" using m_invD(5) [OF I, of "ActiveLoad d c"] by simp
  obtain D where D: "descs s d = Some D" "load_anchor K d s = Some (anchor D)" using load_step [OF I, of "ActiveLoad d c" d] nz by auto
  have "m_inv K s (us @ ActiveRead d c (anchor D) # vs) L" by (rule pure_step [OF I]) (use nz D in \<open>simp_all add: seen_def\<close>)
  then show ?thesis using D by simp
qed

lemma active_read_step:
  assumes I: "m_inv K s (us @ ActiveRead d c A # vs) L"
  shows "\<exists>s' q. thread_step K e s (ActiveRead d c A) = Some (s', q) \<and> m_inv K s' (us @ q # vs) L"
proof -
  have k: "d \<noteq> 0" "seen (the (descs s d)) A" using m_invD(5) [OF I, of "ActiveRead d c A"] by simp_all
  obtain D where D: "descs s d = Some D" using load_step [OF I, of "ActiveRead d c A" d] k by auto
  have "m_inv K s (us @ ActiveSwap d c A (nNextFree s (block K D (avail A))) # vs) L"
    by (rule pure_step [OF I]) (use k D in \<open>simp_all add: read_ok_def\<close>)
  then show ?thesis using D by (simp add: read_link_def)
qed

lemma partial_load_step:
  assumes I: "m_inv K s (us @ PartialLoad d n # vs) L"
  shows "\<exists>s' q. thread_step K e s (PartialLoad d n) = Some (s', q) \<and> m_inv K s' (us @ q # vs) L"
proof -
  have nz: "d \<noteq> 0" using m_invD(5) [OF I, of "PartialLoad d n"] by simp
  obtain D where D: "descs s d = Some D" "load_anchor K d s = Some (anchor D)" using load_step [OF I, of "PartialLoad d n" d] nz by auto
  have "m_inv K s (us @ PartialRead d n (anchor D) # vs) L" by (rule pure_step [OF I]) (use nz D in \<open>simp_all add: seen_def\<close>)
  then show ?thesis using D by simp
qed

lemma partial_read_step:
  assumes I: "m_inv K s (us @ PartialRead d n A # vs) L"
  shows "\<exists>s' q. thread_step K e s (PartialRead d n A) = Some (s', q) \<and> m_inv K s' (us @ q # vs) L"
proof -
  have k: "d \<noteq> 0" "seen (the (descs s d)) A" using m_invD(5) [OF I, of "PartialRead d n A"] by simp_all
  obtain D where D: "descs s d = Some D" using load_step [OF I, of "PartialRead d n A" d] k by auto
  have "m_inv K s (us @ PartialSwap d n A (nNextFree s (block K D (avail A))) # vs) L"
    by (rule pure_step [OF I]) (use k D in \<open>simp_all add: read_ok_def\<close>)
  then show ?thesis using D by (simp add: read_link_def)
qed

section \<open>Moves between holders\<close>

lemma get_partial_step:
  assumes I: "m_inv K s (us @ GetPartial # vs) L"
  shows "\<exists>s' q. get_partial s = (s', q) \<and> m_inv K s' (us @ q # vs) L"
proof (cases "pPartial s = 0")
  case True
  have "m_inv K s (us @ PopPartial # vs) L" by (rule pure_step [OF I]) simp_all
  then show ?thesis using True by (simp add: get_partial_def)
next
  case False
  have "m_inv K (s\<lparr>pPartial := 0\<rparr>) (us @ Reserve (pPartial s) # vs) L"
    by (rule same_step [OF I]) (use False heap_nz [OF I] in \<open>auto simp: same_holders_def counts\<close>)
  then show ?thesis using False by (simp add: get_partial_def)
qed

lemma pop_partial_step:
  assumes I: "m_inv K s (us @ PopPartial # vs) L"
  shows "\<exists>s' q. pop_partial s = (s', q) \<and> m_inv K s' (us @ q # vs) L"
proof (cases "partialList s")
  case Nil
  have "m_inv K s (us @ NewDesc # vs) L" by (rule pure_step [OF I]) simp_all
  then show ?thesis using Nil by (simp add: pop_partial_def)
next
  case (Cons d ds)
  have "m_inv K (s\<lparr>partialList := ds\<rparr>) (us @ Reserve d # vs) L"
    by (rule same_step [OF I]) (use Cons heap_nz [OF I] in \<open>auto simp: same_holders_def counts\<close>)
  then show ?thesis using Cons by (simp add: pop_partial_def)
qed

lemma update_step:
  assumes I: "m_inv K s (us @ Update d n a # vs) L"
  shows "\<exists>s' q. update_active d n a s = (s', q) \<and> m_inv K s' (us @ q # vs) L"
proof -
  have k: "d \<noteq> 0" "0 < n" "a \<noteq> 0" "desc s a = d" using m_invD(5) [OF I, of "Update d n a"] by simp_all
  show ?thesis
  proof (cases "active s = (0, 0)")
    case True
    have "m_inv K (s\<lparr>active := (d, n - 1)\<rparr>) (us @ Done a # vs) L"
      by (rule same_step [OF I]) (use True k heap_nz [OF I] in \<open>auto simp: same_holders_def counts\<close>)
    then show ?thesis using True by (simp add: update_active_def)
  next
    case False
    have "m_inv K s (us @ GiveBack d n a # vs) L" by (rule pure_step [OF I]) (use k in simp_all)
    then show ?thesis using False by (simp add: update_active_def)
  qed
qed

lemma finish_holds [simp]: "quiet (finish a) = 0" "busy (finish a) = 0" "blank (finish a) = 0" "dropped (finish a) = 0" "carried (finish a) = a"
  "reserved d (finish a) = 0" "thread_ok K s (finish a)"
  by (simp_all add: finish_def)

lemma add_partial_step:
  assumes I: "m_inv K s (us @ AddPartial d a # vs) L"
  shows "\<exists>s' q. add_partial d a s = Some (s', q) \<and> m_inv K s' (us @ q # vs) L"
proof -
  have k: "d \<noteq> 0" using m_invD(5) [OF I, of "AddPartial d a"] by simp
  have "pPartial s \<noteq> d" using holdersD(1) [OF m_invD(2) [OF I] k] by (auto simp: waiting_def)
  moreover have "m_inv K (s\<lparr>pPartial := d\<rparr>) (us @ finish a # vs) L" if "pPartial s = 0"
    by (rule same_step [OF I]) (use that k heap_nz [OF I] in \<open>auto simp: same_holders_def counts\<close>)
  moreover have "m_inv K s (us @ PushPartial d a # vs) L" by (rule pure_step [OF I]) (use k in simp_all)
  ultimately show ?thesis by (auto simp: add_partial_def)
qed

lemma push_partial_step:
  assumes I: "m_inv K s (us @ PushPartial d a # vs) L"
  shows "\<exists>s' q. push_partial d a s = Some (s', q) \<and> m_inv K s' (us @ q # vs) L"
proof -
  have k: "d \<noteq> 0" using m_invD(5) [OF I, of "PushPartial d a"] by simp
  have "occurs (partialList s) d = 0" using holdersD(1) [OF m_invD(2) [OF I] k] by (simp add: waiting_def)
  then have "d \<notin> set (partialList s)" using occurs_zero [of "partialList s" d] by blast
  moreover have "m_inv K (s\<lparr>partialList := partialList s @ [d]\<rparr>) (us @ finish a # vs) L"
    by (rule same_step [OF I]) (use k heap_nz [OF I] in \<open>auto simp: same_holders_def counts\<close>)
  ultimately show ?thesis by (simp add: push_partial_def)
qed

lemma link_step:
  assumes I: "m_inv K s (us @ FreeLink d b A # vs) L"
  shows "\<exists>s' q. link_block d b A s = (s', q) \<and> m_inv K s' (us @ q # vs) L"
proof -
  have k: "d \<noteq> 0" "b \<noteq> 0" "desc s b = d" "astate A \<noteq> EMPTY" "avail A < nCapacity K" using m_invD(5) [OF I, of "FreeLink d b A"] by simp_all
  let ?s = "s\<lparr>nNextFree := (nNextFree s)(b := avail A)\<rparr>"
  have ub: "uses (us @ FreeLink d b A # vs) L b = 1" using usedD(2) [OF m_invD(4) [OF I] k(2)] by (simp add: uses_def)
  have oth: "hits carried us b = 0" "hits carried vs b = 0" using ub by (simp_all add: uses_def split: if_splits)
  have th: "thread_ok K ?s x" if x: "x \<in> set us \<union> set vs" for x
  proof (rule thread_ok_link [OF I])
    show "x \<in> set (us @ FreeLink d b A # vs)" using x by auto
    show "0 < uses (us @ FreeLink d b A # vs) L b" using ub by simp
    show "carried x \<noteq> b" using x oth by (auto simp: hits_def filter_empty_conv)
  qed
  have "m_inv K ?s (us @ FreeSwap d b A # vs) L"
  proof (rule keep_all [OF I])
    show "thread_ok K ?s x" if "x \<in> set (us @ FreeSwap d b A # vs)" for x using that th k by auto
    show "8 < x" if "x \<in> L" for x using usedD(1) [OF m_invD(4) [OF I] that] .
    show "a \<noteq> 0 \<and> 0 < uses (us @ FreeLink d b A # vs) L a" if "nNextFree ?s a \<noteq> nNextFree s a" for a using that k(2) ub by (auto split: if_splits)
  qed (use heap_nz [OF I] in \<open>simp_all add: same_holders_def counts\<close>)
  then show ?thesis by (simp add: link_block_def)
qed

end
