(* ===== verification/MichaelTake.thy ===== *)
theory MichaelTake
  imports MichaelSteps
begin

text \<open>
  The steps of Michael's allocator that change an anchor: blocks taken, reserved, given back and freed.
\<close>

section \<open>Counting\<close>

lemma hits_mid: "hits f (us @ q # vs) d + (if f p = d then 1 else 0) = hits f (us @ p # vs) d + (if f q = d then 1 else 0)"
  by simp

lemma reservations_mid: "reservations (put_anchor d' D A s) (us @ q # vs) d + reserved d p = reservations s (us @ p # vs) d + reserved d q"
  by (simp add: reservations_def)

lemma holders_put: "waiting (put_anchor d D A s) T e = waiting s T e" "working (put_anchor d D A s) T e = working s T e"
  "unused (put_anchor d D A s) T e = unused s T e" "reservations (put_anchor d D A s) T e = reservations s T e"
  by (simp_all add: counts)

text \<open>A superblock with a reservation is not empty.\<close>

lemma reserved_live:
  assumes I: "m_inv K s T L" and d: "in_service s T d" and r: "0 < reservations s T d"
  shows "astate (anchor (the (descs s d))) \<noteq> EMPTY"
proof
  assume e: "astate (anchor (the (descs s d))) = EMPTY"
  note S = m_invD(6) [OF I d]
  have "count (anchor (the (descs s d))) = nCapacity K - 1" using superD(2) [OF S] e by (simp add: state_ok_def split: if_splits)
  then show False using free_bound(1) [OF superD(1) [OF S]] e r m_invD(1) [OF I] by (simp add: class_ok_def)
qed

text \<open>A descriptor some thread, list or field holds is in service.\<close>

lemma held_service:
  assumes I: "m_inv K s T L" and d: "d \<noteq> 0" and h: "0 < waiting s T d + working s T d"
  shows "in_service s T d" "waiting s T d + working s T d = 1"
proof -
  note H = holdersD(1,2) [OF m_invD(2) [OF I] d]
  have "descs s d \<noteq> None"
  proof
    assume "descs s d = None"
    from H(2) [OF this] show False using h by simp
  qed
  moreover have "waiting s T d + working s T d = 1 \<and> unused s T d + hits dropped T d = 0" using H(1) h by linarith
  ultimately show "in_service s T d" "waiting s T d + working s T d = 1" by (simp_all add: in_service_def)
qed

text \<open>An empty superblock has neither reservations nor blocks in use.\<close>

lemma empty_free:
  assumes I: "m_inv K s T L" and ser: "in_service s T d" and D: "descs s d = Some D" and e: "astate (anchor D) = EMPTY"
  shows "reservations s T d = 0" "i < nCapacity K \<Longrightarrow> uses T L (block K D i) = 0"
proof -
  have S: "super_ok K d D (nNextFree s) (desc s) (reservations s T d) (waiting s T d) (working s T d) (\<lambda>a. 0 < uses T L a)"
    using m_invD(6) [OF I ser] D by simp
  note F = free_bound [OF superD(1) [OF S]]
  have "count (anchor D) = nCapacity K - 1" using superD(2) [OF S] e by (simp add: state_ok_def split: if_splits)
  then have n: "count (anchor D) + (if astate (anchor D) = EMPTY then 1 else 0) = nCapacity K"
    using e m_invD(1) [OF I] by (simp add: class_ok_def)
  then show r: "reservations s T d = 0" using F(1) by simp
  show "uses T L (block K D i) = 0" if "i < nCapacity K" using F(3) [of i] n r that by simp
qed

text \<open>The block a thread carries is one of a superblock in service, where the count leaves room.\<close>

lemma carried_block:
  assumes I: "m_inv K s T L" and p: "p \<in> set T" and b: "carried p = b" "b \<noteq> 0"
  obtains d D j where "in_service s T d" "descs s d = Some D" "desc s b = d" "j < nCapacity K" "b = block K D j" "uses T L b = 1"
    "astate (anchor D) \<noteq> EMPTY" "count (anchor D) + reservations s T d < nCapacity K" "avail (anchor D) < nCapacity K"
proof -
  note M = m_invD [OF I]
  have "0 < hits carried T b" using p b(1) by (auto simp: hits_def filter_empty_conv)
  then have u: "0 < uses T L b" by (simp add: uses_def)
  then obtain d j where d: "in_service s T d" "j < nCapacity K" "b = block K (the (descs s d)) j" using usedD(3) [OF M(4) b(2)] by blast
  obtain D where D: "descs s d = Some D" using in_service_Some [OF d(1)] by blast
  note S = superD [OF M(6) [OF d(1)]]
  note F = free_bound(2) [OF S(1) d(2)]
  show ?thesis
  proof (rule that [OF d(1) D _ d(2)])
    show "desc s b = d" using S(3) [OF d(2)] d(3) by simp
    show "b = block K D j" using d(3) D by simp
    show "uses T L b = 1" using u usedD(2) [OF M(4) b(2)] by simp
    show "count (anchor D) + reservations s T d < nCapacity K" using F u d(3) D by simp
    show "avail (anchor D) < nCapacity K" using S(1) D by (simp add: free_ok_def)
    show "astate (anchor D) \<noteq> EMPTY"
    proof
      assume "astate (anchor D) = EMPTY"
      from empty_free(2) [OF I d(1) D this d(2)] show False using u d(3) D by simp
    qed
  qed
qed

text \<open>A thread that is to install a new superblock is alone with it.\<close>

lemma install_alone:
  assumes I: "m_inv K s (us @ p # vs) L" and x: "Install d c b \<in> set us \<union> set vs"
  shows "reserved d p = 0" "busy p \<noteq> d" "quiet p \<noteq> d" "carried p \<noteq> 0 \<Longrightarrow> desc s (carried p) \<noteq> d"
    "reservations s (us @ p # vs) d = c + 1" "in_service s (us @ p # vs) d"
proof -
  let ?T = "us @ p # vs"
  note M = m_invD [OF I]
  have k: "d \<noteq> 0" "b \<noteq> 0" "b = pSB (the (descs s d))" "count (anchor (the (descs s d))) + c + 2 = nCapacity K"
    using M(5) [of "Install d c b"] x by auto
  have hb: "0 < hits busy us d + hits busy vs d" "0 < hits carried us b + hits carried vs b"
    using x hits_pos [of "Install d c b" us busy] hits_pos [of "Install d c b" vs busy]
      hits_pos [of "Install d c b" us carried] hits_pos [of "Install d c b" vs carried] by auto
  have w: "0 < waiting s ?T d + working s ?T d" using hb(1) by (simp add: working_def)
  note one = held_service [OF I k(1) w]
  show "in_service s ?T d" by (rule one(1))
  show "busy p \<noteq> d" "quiet p \<noteq> d" using one(2) hb(1) by (auto simp: counts)
  have r: "c + 1 \<le> sum_list (map (reserved d) us) + sum_list (map (reserved d) vs)"
    using x sum_mem [of "Install d c b" us "reserved d"] sum_mem [of "Install d c b" vs "reserved d"] by auto
  note F = free_bound [OF superD(1) [OF M(6) [OF one(1)]]]
  have b: "b = block K (the (descs s d)) 0" "0 < uses ?T L b" using k(3) hb(2) by (simp_all add: block_def uses_def)
  have "count (anchor (the (descs s d))) + reservations s ?T d < nCapacity K" using F(2) [of 0] b k(4) by simp
  then have R: "reservations s ?T d \<le> c + 1" using k(4) by simp
  then show "reserved d p = 0" "reservations s ?T d = c + 1" using r by (simp_all add: reservations_def)
  show "desc s (carried p) \<noteq> d" if c: "carried p \<noteq> 0"
  proof
    assume d: "desc s (carried p) = d"
    obtain D j where D: "descs s d = Some D" "j < nCapacity K" "carried p = block K D j" "uses ?T L (carried p) = 1"
      by (rule carried_block [OF I, of p "carried p"]) (simp, simp, rule c, use d in blast)
    have "j \<noteq> 0"
    proof
      assume "j = 0"
      then have "carried p = b" using D(1,3) b(1) by simp
      then show False using D(4) hb(2) by (simp add: uses_def)
    qed
    then show False using F(4) [of 0 j] D b k(4) \<open>reservations s ?T d = c + 1\<close> by simp
  qed
qed

text \<open>What the other threads know holds after a step that changes the anchor of a superblock the thread has a part in.\<close>

lemma others_anchor:
  assumes I: "m_inv K s (us @ p # vs) L" and x: "x \<in> set us \<union> set vs" and D: "descs s d = Some D" "newer (anchor D) A"
    and h: "0 < reserved d p \<or> busy p = d \<or> quiet p = d \<or> carried p \<noteq> 0 \<and> desc s (carried p) = d"
  shows "thread_ok K (put_anchor d D A s) x"
proof (rule thread_ok_anchor [OF others_ok [OF I x] D])
  show "x \<noteq> Install d c b" for c b
  proof
    assume "x = Install d c b"
    then show False using install_alone(1-4) [OF I, of d c b] x h by auto
  qed
qed

section \<open>A block is taken\<close>

lemma pop_step:
  assumes I: "m_inv K s (us @ p # vs) L" and D: "descs s d = Some D" and d: "d \<noteq> 0" and r: "0 < reserved d p"
    and B: "avail B = nNextFree s (block K D (avail (anchor D))) mod 2 ^ 11" "tag (anchor D) < tag B" "astate B \<noteq> EMPTY"
    and n: "count B + reserved d q + 1 = count (anchor D) + reserved d p"
    and f: "quiet p = 0" "quiet q = 0" "blank p = 0" "blank q = 0" "dropped p = 0" "dropped q = 0" "carried p = 0" "carried q = block K D (avail (anchor D))"
    and w: "busy p \<in> {0, d}" "busy q \<in> {0, d}" "busy q = d \<longrightarrow> busy p = d" and e: "\<And>e. e \<noteq> d \<Longrightarrow> reserved e q = reserved e p"
    and st: "state_ok K B (waiting s (us @ p # vs) d) (working s (us @ p # vs) d - (if busy p = d \<and> busy q \<noteq> d then 1 else 0))"
    and q: "thread_ok K (put_anchor d D B s) q"
  shows "m_inv K (put_anchor d D B s) (us @ q # vs) L"
proof -
  let ?T = "us @ p # vs" and ?a = "block K D (avail (anchor D))"
  note M = m_invD [OF I]
  have rs: "in_service s ?T d" "0 < reservations s ?T d" using reserved_service [OF I _ r d] by simp_all
  have S: "super_ok K d D (nNextFree s) (desc s) (reservations s ?T d) (waiting s ?T d) (working s ?T d) (\<lambda>a. 0 < uses ?T L a)"
    using M(6) [OF rs(1)] D by simp
  note H = free_head [OF superD(1) [OF S] rs(2)]
  have a: "?a \<noteq> 0" using block_pos [OF M(3) service_page [OF rs(1)], of "avail (anchor D)"] D by simp
  have us: "uses (us @ q # vs) L x = uses ?T L x + (if x = ?a then 1 else 0)" if "x \<noteq> 0" for x using f that by (simp add: uses_def)
  have bp: "block K D i \<noteq> 0" for i using block_pos [OF M(3) service_page [OF rs(1)], of i] D by simp
  have pos: "0 < uses (us @ q # vs) L (block K D i) \<longleftrightarrow> 0 < uses ?T L (block K D i) \<or> i = avail (anchor D)" for i
    using us [OF bp] block_inj [OF M(1)] by simp
  have hd: "waiting s (us @ q # vs) d = waiting s ?T d" "unused s (us @ q # vs) d = unused s ?T d" "hits dropped (us @ q # vs) d = hits dropped ?T d"
    "working s (us @ q # vs) d = working s ?T d - (if busy p = d \<and> busy q \<noteq> d then 1 else 0)"
    using f d w by (auto simp: counts)
  have U: "unused s ?T d = 0" "hits dropped ?T d = 0" using rs(1) by (simp_all add: in_service_def)
  show ?thesis
  proof (rule keep_anchor [OF I rs(1) D])
    show "same_holders s ?T (put_anchor d D B s) (us @ q # vs) x" if "x \<noteq> 0" "x \<noteq> d" for x
      using that f w e [OF that(2)] by (auto simp: same_holders_def counts)
    show "unused (put_anchor d D B s) (us @ q # vs) d = 0" "hits dropped (us @ q # vs) d = 0" using hd U by (simp_all add: holders_put)
    show "waiting (put_anchor d D B s) (us @ q # vs) d + working (put_anchor d D B s) (us @ q # vs) d \<le> 1"
      using hd holdersD(1) [OF M(2) d] by (simp add: holders_put)
    show "uses (us @ q # vs) L x = uses ?T L x" if "x \<noteq> 0" "\<forall>i < nCapacity K. x \<noteq> block K D i" for x
      using us [OF that(1)] that(2) H(1) by auto
    show "uses (us @ q # vs) L (block K D i) \<le> 1" if "i < nCapacity K" for i
      using us [OF bp, of i] usedD(2) [OF M(4) bp, of i] H(2) by auto
    have "free_ok K (D\<lparr>anchor := B\<rparr>) (nNextFree s) (reservations (put_anchor d D B s) (us @ q # vs) d) (\<lambda>a. 0 < uses (us @ q # vs) L a)"
    proof (rule pop_free [OF superD(1) [OF S] rs(2) M(1) refl B(1,3)])
      show "astate (anchor D) \<noteq> EMPTY" using reserved_live [OF I rs] D by simp
      show "count B + reservations (put_anchor d D B s) (us @ q # vs) d + 1 = count (anchor D) + reservations s ?T d"
        using n reservations_mid [of d D B s us q vs d p] by simp
      show "0 < uses (us @ q # vs) L (block K D i) \<longleftrightarrow> 0 < uses ?T L (block K D i) \<or> i = avail (anchor D)" for i by (rule pos)
    qed
    then show "super_ok K d (D\<lparr>anchor := B\<rparr>) (nNextFree s) (desc s) (reservations (put_anchor d D B s) (us @ q # vs) d)
      (waiting (put_anchor d D B s) (us @ q # vs) d) (working (put_anchor d D B s) (us @ q # vs) d) (\<lambda>a. 0 < uses (us @ q # vs) L a)"
      using st superD(3) [OF S] by (simp add: super_ok_def holders_put hd)
    show "thread_ok K (put_anchor d D B s) x" if "x \<in> set (us @ q # vs)" for x
      using that q others_anchor [OF I _ D, of x B] B(2) r by (auto simp: newer_def)
  qed
qed
definition low :: "heap \<Rightarrow> nat \<Rightarrow> bool" where
  "low s d \<longleftrightarrow> tag (anchor (the (descs s d))) + 1 < 2 ^ 40"

lemma lowD: "low s d \<Longrightarrow> descs s d = Some D \<Longrightarrow> (tag (anchor D) + 1) mod 2 ^ 40 = tag (anchor D) + 1"
  by (simp add: low_def)

lemma pop_anchor_simps [simp]: "avail (pop_anchor v A) = v mod 2 ^ 11" "count (pop_anchor v A) = count A" "astate (pop_anchor v A) = astate A"
  "tag (pop_anchor v A) = (tag A + 1) mod 2 ^ 40"
  by (simp_all add: pop_anchor_def)

lemma active_anchor_simps: "avail (active_anchor c A v) = v mod 2 ^ 11" "tag (active_anchor c A v) = (tag A + 1) mod 2 ^ 40"
  "0 < c \<Longrightarrow> active_anchor c A v = pop_anchor v A" "count A = 0 \<Longrightarrow> count (active_anchor c A v) = 0" "count A = 0 \<Longrightarrow> astate (active_anchor 0 A v) = FULL"
  "0 < count A \<Longrightarrow> count (active_anchor 0 A v) = count A - more_credits (count A)" "0 < count A \<Longrightarrow> astate (active_anchor 0 A v) = astate A"
  by (simp_all add: active_anchor_def Let_def)

lemma more_credits_bounds: "more_credits n \<le> n" "0 < n \<Longrightarrow> 0 < more_credits n"
  by (simp_all add: more_credits_def c_nMaxCredits_def)

lemma state_ok_same: "state_ok K A q w \<Longrightarrow> astate B = astate A \<Longrightarrow> count B = count A \<Longrightarrow> w' = w \<Longrightarrow> state_ok K B q w'"
  unfolding state_ok_def by (simp only:)

text \<open>What a thread with a reservation in \<open>d\<close> finds.\<close>

lemma reserved_finds:
  assumes I: "m_inv K s T L" and p: "p \<in> set T" and r: "0 < reserved d p" and d: "d \<noteq> 0"
  obtains D where "descs s d = Some D" "avail (anchor D) < nCapacity K" "desc s (block K D (avail (anchor D))) = d" "astate (anchor D) \<noteq> EMPTY"
    "state_ok K (anchor D) (waiting s T d) (working s T d)" "block K D (avail (anchor D)) \<noteq> 0"
proof -
  note R = reserved_service [OF I p r d]
  obtain D where D: "descs s d = Some D" using in_service_Some [OF R(1)] by blast
  note S = superD [OF m_invD(6) [OF I R(1)]]
  have h: "avail (anchor D) < nCapacity K" using free_head(1) [OF S(1) R(2)] D by simp
  show ?thesis
  proof (rule that [OF D h])
    show "desc s (block K D (avail (anchor D))) = d" using S(3) [OF h] D by simp
    show "astate (anchor D) \<noteq> EMPTY" using reserved_live [OF I R] D by simp
    show "state_ok K (anchor D) (waiting s T d) (working s T d)" using S(2) D by simp
    show "block K D (avail (anchor D)) \<noteq> 0" using block_pos [OF m_invD(3) [OF I] service_page [OF R(1)], of "avail (anchor D)"] D by simp
  qed
qed

lemma active_swap_step:
  assumes I: "m_inv K s (us @ ActiveSwap d c A v # vs) L" and t: "low s d"
  shows "\<exists>s' q. swap_active K d c A v s = Some (s', q) \<and> m_inv K s' (us @ q # vs) L"
proof -
  let ?p = "ActiveSwap d c A v"
  have k: "d \<noteq> 0" "read_ok K (the (descs s d)) (nNextFree s) A v" using m_invD(5) [OF I, of ?p] by simp_all
  obtain D where D: "descs s d = Some D" "desc s (block K D (avail (anchor D))) = d" "astate (anchor D) \<noteq> EMPTY"
    "state_ok K (anchor D) (waiting s (us @ ?p # vs) d) (working s (us @ ?p # vs) d)" "block K D (avail (anchor D)) \<noteq> 0"
    using reserved_finds [OF I, of ?p d] k(1) by auto
  show ?thesis
  proof (cases "anchor D = A")
    case False
    have "m_inv K s (us @ ActiveLoad d c # vs) L" by (rule pure_step [OF I]) (use k in simp_all)
    then show ?thesis using D(1) False by (simp add: swap_active_def)
  next
    case True
    let ?B = "active_anchor c A v" and ?a = "block K D (avail A)"
    let ?q = "if c = 0 \<and> 0 < count A then Update d (more_credits (count A)) ?a else Done ?a"
    have v: "v = nNextFree s (block K D (avail (anchor D)))" using k(2) D(1) True by (simp add: read_ok_def)
    have tg: "tag (anchor D) < tag ?B" using lowD [OF t D(1)] True by (simp add: active_anchor_simps)
    have w: "c = 0 \<Longrightarrow> waiting s (us @ ?p # vs) d = 0 \<and> working s (us @ ?p # vs) d = 1"
      using holdersD(1) [OF m_invD(2) [OF I] k(1)] by (simp add: counts)
    have e: "astate ?B \<noteq> EMPTY"
      using D(3) True by (cases "c = 0"; cases "count A = 0") (simp_all add: active_anchor_simps)
    have "m_inv K (put_anchor d D ?B s) (us @ ?q # vs) L"
    proof (rule pop_step [OF I D(1) k(1) _ _ tg e])
      show "state_ok K ?B (waiting s (us @ ?p # vs) d) (working s (us @ ?p # vs) d - (if busy ?p = d \<and> busy ?q \<noteq> d then 1 else 0))"
      proof (cases "c = 0 \<and> count A = 0")
        case full: True
        then show ?thesis using w k(1) by (simp add: active_anchor_simps state_ok_def)
      next
        case False
        show ?thesis
        proof (cases "c = 0")
          case last: True
          then show ?thesis using False D(4) True w by (simp add: active_anchor_simps state_ok_def)
        next
          case more: False
          then show ?thesis using k(1) True by (intro state_ok_same [OF D(4)]) (simp_all add: active_anchor_simps)
        qed
      qed
      show "count ?B + reserved d ?q + 1 = count (anchor D) + reserved d ?p"
        using True more_credits_bounds(1) [of "count A"] by (cases "c = 0"; cases "count A = 0") (simp_all add: active_anchor_simps)
    qed (use k(1) v True D(2,5) more_credits_bounds(2) [of "count A"] in \<open>auto simp: active_anchor_simps\<close>)
    then show ?thesis using D(1,2) True e by (simp add: swap_active_def Let_def)
  qed
qed

lemma partial_swap_step:
  assumes I: "m_inv K s (us @ PartialSwap d n A v # vs) L" and t: "low s d"
  shows "\<exists>s' q. swap_partial K d n A v s = Some (s', q) \<and> m_inv K s' (us @ q # vs) L"
proof -
  let ?p = "PartialSwap d n A v"
  have k: "d \<noteq> 0" "read_ok K (the (descs s d)) (nNextFree s) A v" using m_invD(5) [OF I, of ?p] by simp_all
  obtain D where D: "descs s d = Some D" "desc s (block K D (avail (anchor D))) = d" "astate (anchor D) \<noteq> EMPTY"
    "state_ok K (anchor D) (waiting s (us @ ?p # vs) d) (working s (us @ ?p # vs) d)" "block K D (avail (anchor D)) \<noteq> 0"
    using reserved_finds [OF I, of ?p d] k(1) by auto
  show ?thesis
  proof (cases "anchor D = A")
    case False
    have "m_inv K s (us @ PartialLoad d n # vs) L" by (rule pure_step [OF I]) (use k in simp_all)
    then show ?thesis using D(1) False by (simp add: swap_partial_def)
  next
    case True
    let ?B = "pop_anchor v A" and ?a = "block K D (avail A)"
    let ?q = "if 0 < n then Update d n ?a else Done ?a"
    have v: "v = nNextFree s (block K D (avail (anchor D)))" using k(2) D(1) True by (simp add: read_ok_def)
    have tg: "tag (anchor D) < tag ?B" using lowD [OF t D(1)] True by simp
    have e: "astate ?B \<noteq> EMPTY" using D(3) True by simp
    have "m_inv K (put_anchor d D ?B s) (us @ ?q # vs) L"
    proof (rule pop_step [OF I D(1) k(1) _ _ tg e])
      show "state_ok K ?B (waiting s (us @ ?p # vs) d) (working s (us @ ?p # vs) d - (if busy ?p = d \<and> busy ?q \<noteq> d then 1 else 0))"
        by (rule state_ok_same [OF D(4)]) (use True k(1) in simp_all)
    qed (use k(1) v True D(2,5) in auto)
    then show ?thesis using D(1,2,3) True by (simp add: swap_partial_def)
  qed
qed

end
