(* ===== verification/MichaelPut.thy ===== *)
theory MichaelPut
  imports MichaelTake
begin

text \<open>
  The steps of Michael's allocator that reserve blocks, give reservations back and put blocks back into their superblock.
\<close>

section \<open>Reservations\<close>

lemma move_step:
  assumes I: "m_inv K s (us @ p # vs) L" and ser: "in_service s (us @ p # vs) d" and D: "descs s d = Some D"
    and B: "avail B = avail (anchor D)" "tag (anchor D) \<le> tag B" "astate B = EMPTY \<longleftrightarrow> astate (anchor D) = EMPTY"
    and n: "count B + reserved d q = count (anchor D) + reserved d p"
    and f: "blank p = 0" "blank q = 0" "dropped p = 0" "dropped q = 0" "carried q = carried p"
    and w: "quiet p \<in> {0, d}" "quiet q \<in> {0, d}" "busy p \<in> {0, d}" "busy q \<in> {0, d}" and e: "\<And>e. e \<noteq> d \<Longrightarrow> reserved e q = reserved e p"
    and st: "state_ok K B (waiting s (us @ q # vs) d) (working s (us @ q # vs) d)" "waiting s (us @ q # vs) d + working s (us @ q # vs) d \<le> 1"
    and h: "busy p = d \<or> quiet p = d" and q: "thread_ok K (put_anchor d D B s) q"
  shows "m_inv K (put_anchor d D B s) (us @ q # vs) L"
proof -
  let ?T = "us @ p # vs"
  note M = m_invD [OF I]
  have d: "d \<noteq> 0" using service_nz(2) [OF M(2) ser] .
  have S: "super_ok K d D (nNextFree s) (desc s) (reservations s ?T d) (waiting s ?T d) (working s ?T d) (\<lambda>a. 0 < uses ?T L a)"
    using M(6) [OF ser] D by simp
  have us: "uses (us @ q # vs) L = uses ?T L" using f by (simp add: uses_def fun_eq_iff)
  have bp: "block K D i \<noteq> 0" for i using block_pos [OF M(3) service_page [OF ser], of i] D by simp
  have U: "unused s ?T d = 0" "hits dropped ?T d = 0" using ser by (simp_all add: in_service_def)
  show ?thesis
  proof (rule keep_anchor [OF I ser D])
    show "same_holders s ?T (put_anchor d D B s) (us @ q # vs) x" if "x \<noteq> 0" "x \<noteq> d" for x
      using that f w e [OF that(2)] by (auto simp: same_holders_def counts)
    show "unused (put_anchor d D B s) (us @ q # vs) d = 0" "hits dropped (us @ q # vs) d = 0"
      using U f by (simp_all add: holders_put counts)
    show "waiting (put_anchor d D B s) (us @ q # vs) d + working (put_anchor d D B s) (us @ q # vs) d \<le> 1"
      using st(2) by (simp add: holders_put)
    show "uses (us @ q # vs) L x = uses ?T L x" for x unfolding us ..
    show "uses (us @ q # vs) L (block K D i) \<le> 1" for i unfolding us using usedD(2) [OF M(4) bp] .
    have "free_ok K (D\<lparr>anchor := B\<rparr>) (nNextFree s) (reservations (put_anchor d D B s) (us @ q # vs) d) (\<lambda>a. 0 < uses (us @ q # vs) L a)"
    proof (rule move_free [OF superD(1) [OF S] B(1) _ B(3)])
      show "count B + reservations (put_anchor d D B s) (us @ q # vs) d = count (anchor D) + reservations s ?T d"
        using n reservations_mid [of d D B s us q vs d p] by simp
    qed (simp add: us)
    then show "super_ok K d (D\<lparr>anchor := B\<rparr>) (nNextFree s) (desc s) (reservations (put_anchor d D B s) (us @ q # vs) d)
      (waiting (put_anchor d D B s) (us @ q # vs) d) (working (put_anchor d D B s) (us @ q # vs) d) (\<lambda>a. 0 < uses (us @ q # vs) L a)"
      using st(1) superD(3) [OF S] by (simp add: super_ok_def holders_put)
    show "thread_ok K (put_anchor d D B s) x" if "x \<in> set (us @ q # vs)" for x
      using that q others_anchor [OF I _ D, of x B] B(1,2) h by (auto simp: newer_def le_less)
  qed
qed

lemma drop_empty:
  assumes I: "m_inv K s (us @ p # vs) L" and ser: "in_service s (us @ p # vs) d" and D: "descs s d = Some D" and e: "astate (anchor D) = EMPTY"
    and h: "descs s' = descs s" "desc s' = desc s" "pages s' = pages s" "nNextFree s' = nNextFree s" "active s' = active s" "pPartial s' = pPartial s"
      "listSBDescFree s' = listSBDescFree s" "0 \<notin> set (partialList s')"
    and f: "busy p = 0" "blank p = 0" "dropped p = 0" "carried p = 0" "\<And>e. reserved e p = 0"
    and one: "\<And>e. e \<noteq> 0 \<Longrightarrow> waiting s' (us @ Drop d k # vs) e + (if e = d then 1 else 0) = waiting s (us @ p # vs) e" "waiting s (us @ p # vs) d = 1"
  shows "m_inv K s' (us @ Drop d k # vs) L"
proof -
  let ?T = "us @ p # vs" and ?T' = "us @ Drop d k # vs"
  note M = m_invD [OF I]
  have d: "d \<noteq> 0" using service_nz(2) [OF M(2) ser] .
  note H = held_service [OF I d]
  show ?thesis
  proof (rule keep_drop [OF I ser D h(1-4)])
    show "fst (active s') = 0 \<longrightarrow> snd (active s') = 0" "0 \<notin> set (partialList s')" "0 \<notin> set (listSBDescFree s')"
      using h heap_nz [OF I] by simp_all
    show "same_holders s ?T s' ?T' x" if "x \<noteq> 0" "x \<noteq> d" for x
      unfolding same_holders_def using one(1) [OF that(1)] that f h by (simp add: counts)
    show "waiting s' ?T' d = 0" using one(1) [OF d] one(2) by simp
    show "working s' ?T' d = 0" using H(2) one(2) f h by (simp add: working_def)
    show "unused s' ?T' d = 0" "hits dropped ?T' d = 1" using ser f h by (simp_all add: in_service_def unused_def)
    show "reservations s' ?T' d = 0" using empty_free(1) [OF I ser D e] f(5) h(5) by (simp add: reservations_def split: if_splits)
    show "uses ?T' L a = uses ?T L a" if "a \<noteq> 0" for a using that f by (simp add: uses_def)
    show "uses ?T' L (block K D i) = 0" if "i < nCapacity K" for i
      using empty_free(2) [OF I ser D e that] block_pos [OF M(3) service_page [OF ser], of i] D by (simp add: uses_def)
    show "thread_ok K s x" if "x \<in> set ?T'" for x using that d others_ok [OF I, of x] by auto
  qed
qed
lemma minus_mod: "n \<le> c - 1 \<Longrightarrow> 1 \<le> c \<Longrightarrow> c \<le> 2 ^ 11 \<Longrightarrow> (c + 2 ^ 11 - (n + 1)) mod 2 ^ 11 = c - (n + 1)" for n c :: nat
proof -
  assume a: "n \<le> c - 1" "1 \<le> c" "c \<le> 2 ^ 11"
  then have "c + 2 ^ 11 - (n + 1) = (c - (n + 1)) + 2 ^ 11" by simp
  moreover have "c - (n + 1) < 2 ^ 11" using a by simp
  ultimately show ?thesis by (metis mod_add_self2 mod_less)
qed

lemma reserve_step:
  assumes I: "m_inv K s (us @ Reserve d # vs) L" and t: "low s d"
  shows "\<exists>s' q. reserve_partial d s = Some (s', q) \<and> m_inv K s' (us @ q # vs) L"
proof -
  let ?T = "us @ Reserve d # vs"
  note M = m_invD [OF I]
  have d: "d \<noteq> 0" using M(5) [of "Reserve d"] by simp
  have W: "0 < waiting s ?T d" by (simp add: waiting_def)
  have ser: "in_service s ?T d" "waiting s ?T d = 1" "working s ?T d = 0" using held_service [OF I d] W by simp_all
  obtain D where D: "descs s d = Some D" using in_service_Some [OF ser(1)] by blast
  have S: "super_ok K d D (nNextFree s) (desc s) (reservations s ?T d) (waiting s ?T d) (working s ?T d) (\<lambda>a. 0 < uses ?T L a)"
    using M(6) [OF ser(1)] D by simp
  show ?thesis
  proof (cases "astate (anchor D) = EMPTY")
    case True
    have "m_inv K s (us @ Drop d Retry # vs) L"
      by (rule drop_empty [OF I ser(1) D True]) (use ser heap_nz [OF I] in \<open>simp_all add: waiting_def\<close>)
    then show ?thesis using D True by (simp add: reserve_partial_def)
  next
    case False
    have st: "astate (anchor D) = PARTIAL" "1 \<le> count (anchor D)" using superD(2) [OF S] ser False by (simp_all add: state_ok_def)
    let ?A = "anchor D"
    let ?n = "more_credits (count ?A - 1)"
    let ?B = "?A\<lparr>count := (count ?A + 2 ^ 11 - (?n + 1)) mod 2 ^ 11, astate := (if 0 < ?n then ACTIVE else FULL), tag := (tag ?A + 1) mod 2 ^ 40\<rparr>"
    have cap: "count ?A \<le> 2 ^ 11" using free_bound(1) [OF superD(1) [OF S]] M(1) by (simp add: class_ok_def)
    have cnt: "(count ?A + 2 ^ 11 - (?n + 1)) mod 2 ^ 11 = count ?A - (?n + 1)"
      by (rule minus_mod [OF more_credits_bounds(1) st(2) cap])
    have none: "?n = 0 \<Longrightarrow> count ?A = 1" using st(2) by (simp add: more_credits_def c_nMaxCredits_def split: if_splits)
    have "m_inv K (put_anchor d D ?B s) (us @ PartialLoad d ?n # vs) L"
    proof (rule move_step [OF I ser(1) D])
      show "avail ?B = avail ?A" "tag ?A \<le> tag ?B" using lowD [OF t D] by simp_all
      show "astate ?B = EMPTY \<longleftrightarrow> astate ?A = EMPTY" using False by simp
      show "count ?B + reserved d (PartialLoad d ?n) = count ?A + reserved d (Reserve d)"
        using cnt more_credits_bounds(1) [of "count ?A - 1"] st(2) by simp
      have h: "waiting s (us @ PartialLoad d ?n # vs) d = 0" "working s (us @ PartialLoad d ?n # vs) d = (if 0 < ?n then 1 else 0)"
        using ser d by (simp_all add: counts)
      show "state_ok K ?B (waiting s (us @ PartialLoad d ?n # vs) d) (working s (us @ PartialLoad d ?n # vs) d)"
        unfolding h using none cnt by (cases "0 < ?n") (simp_all add: state_ok_def)
      show "waiting s (us @ PartialLoad d ?n # vs) d + working s (us @ PartialLoad d ?n # vs) d \<le> 1" unfolding h by simp
    qed (use d in simp_all)
    then show ?thesis using D False st(2) by (simp add: reserve_partial_def Let_def)
  qed
qed

text \<open>A superblock about to be made active has reservations.\<close>

lemma busy_reserved: "thread_ok K s p \<Longrightarrow> d \<noteq> 0 \<Longrightarrow> busy p = d \<Longrightarrow> 0 < reserved d p"
  by (cases p) (auto split: if_splits)

lemma working_reserved:
  assumes I: "m_inv K s T L" and d: "d \<noteq> 0" and w: "0 < working s T d"
  shows "0 < reservations s T d"
proof (cases "fst (active s) = d")
  case True
  then show ?thesis by (simp add: reservations_def)
next
  case False
  then obtain p where p: "p \<in> set T" "busy p = d" using w by (auto simp: working_def hits_def filter_empty_conv)
  show ?thesis using sum_mem [OF p(1), of "reserved d"] busy_reserved [OF m_invD(5) [OF I p(1)] d p(2)] by (simp add: reservations_def)
qed

lemma give_back_step:
  assumes I: "m_inv K s (us @ GiveBack d n a # vs) L"
  shows "\<exists>s' q. give_back d n a s = Some (s', q) \<and> m_inv K s' (us @ q # vs) L"
proof -
  let ?p = "GiveBack d n a"
  let ?T = "us @ ?p # vs" and ?T' = "us @ AddPartial d a # vs"
  have k: "d \<noteq> 0" "0 < n" "a \<noteq> 0" "desc s a = d" using m_invD(5) [OF I, of ?p] by simp_all
  obtain d' D where D': "in_service s ?T d'" "descs s d' = Some D" "desc s a = d'" "count (anchor D) + reservations s ?T d' < nCapacity K"
    by (rule carried_block [OF I, of ?p a]) (simp, simp, rule k(3), blast)
  have ser: "in_service s ?T d" and D: "descs s d = Some D" "count (anchor D) + reservations s ?T d < nCapacity K" using D' k(4) by auto
  have "0 < waiting s ?T d + working s ?T d" by (simp add: working_def)
  then have one: "waiting s ?T d + working s ?T d = 1" by (rule held_service [OF I k(1)])
  then have h: "working s ?T d = 1" "waiting s ?T d = 0" by (simp_all add: working_def)
  have st: "astate (anchor D) = ACTIVE" using superD(2) [OF m_invD(6) [OF I ser]] h D by (simp add: state_ok_def)
  let ?B = "(anchor D)\<lparr>count := (count (anchor D) + n) mod 2 ^ 11, astate := PARTIAL\<rparr>"
  have "n \<le> reservations s ?T d" by (simp add: reservations_def)
  then have "count (anchor D) + n < 2 ^ 11" using D(2) m_invD(1) [OF I] by (simp add: class_ok_def)
  then have cnt: "(count (anchor D) + n) mod 2 ^ 11 = count (anchor D) + n" by simp
  have h': "waiting s ?T' d = 1" "working s ?T' d = 0" using h k(1) by (simp_all add: counts)
  have "m_inv K (put_anchor d D ?B s) ?T' L"
  proof (rule move_step [OF I ser D(1)])
    show "state_ok K ?B (waiting s ?T' d) (working s ?T' d)" unfolding h' cnt using k(2) by (simp add: state_ok_def)
    show "waiting s ?T' d + working s ?T' d \<le> 1" unfolding h' by simp
  qed (use k st cnt in simp_all)
  then show ?thesis using D(1) by (simp add: give_back_def)
qed
section \<open>Release\<close>

lemma free_load_step:
  assumes I: "m_inv K s (us @ FreeLoad b # vs) L"
  shows "\<exists>s' q. thread_step K e s (FreeLoad b) = Some (s', q) \<and> m_inv K s' (us @ q # vs) L"
proof -
  have b: "b \<noteq> 0" using m_invD(5) [OF I, of "FreeLoad b"] by simp
  obtain d D where D: "in_service s (us @ FreeLoad b # vs) d" "descs s d = Some D" "desc s b = d" "astate (anchor D) \<noteq> EMPTY" "avail (anchor D) < nCapacity K"
    by (rule carried_block [OF I, of "FreeLoad b" b]) (simp, simp, rule b, blast)
  have "d \<noteq> 0" using service_nz(2) [OF m_invD(2) [OF I] D(1)] .
  then have "m_inv K s (us @ FreeLink d b (anchor D) # vs) L" by (intro pure_step [OF I]) (use b D in simp_all)
  then show ?thesis using D by simp
qed

text \<open>The anchor after block \<open>j\<close> is put back.\<close>

lemma free_anchor_simps:
  assumes "class_ok K" and "j < nCapacity K" and "b = block K D j"
  shows "avail (free_anchor K D b A) = j" "tag (free_anchor K D b A) = (tag A + 1) mod 2 ^ 40"
    "count A = nCapacity K - 1 \<Longrightarrow> count (free_anchor K D b A) = count A" "count A = nCapacity K - 1 \<Longrightarrow> astate (free_anchor K D b A) = EMPTY"
    "count A < nCapacity K - 1 \<Longrightarrow> count (free_anchor K D b A) = count A + 1"
    "count A < nCapacity K - 1 \<Longrightarrow> astate (free_anchor K D b A) = (if astate A = FULL then PARTIAL else astate A)"
proof -
  have "(b - pSB D) div nBlockSize K mod 2 ^ 11 = j" using assms by (simp add: class_ok_def block_def)
  then show "avail (free_anchor K D b A) = j" by (simp add: free_anchor_def Let_def)
  show "count (free_anchor K D b A) = count A + 1" if "count A < nCapacity K - 1"
  proof -
    have "nCapacity K \<le> 2 ^ 11" using assms(1) by (simp add: class_ok_def)
    then have "count A + 1 < 2 ^ 11" using that by linarith
    then have "(count A + 1) mod 2 ^ 11 = count A + 1" by (rule mod_less)
    then show ?thesis using that by (simp add: free_anchor_def Let_def)
  qed
qed (simp_all add: free_anchor_def Let_def)

lemma push_step:
  assumes I: "m_inv K s (us @ FreeSwap d b A # vs) L" and ser: "in_service s (us @ FreeSwap d b A # vs) d" and D: "descs s d = Some D" "anchor D = A"
    and j: "j < nCapacity K" "b = block K D j" and u1: "uses (us @ FreeSwap d b A # vs) L b = 1" and nf: "nNextFree s b = avail A"
    and B: "avail B = j" "tag A < tag B" "astate A \<noteq> EMPTY" "count B + (if astate B = EMPTY then 1 else 0) = count A + 1"
    and f: "blank q = 0" "dropped q = 0" "carried q = 0" "busy q = 0" "quiet q \<in> {0, d}" "\<And>e. reserved e q = 0"
    and st: "state_ok K B (waiting s (us @ q # vs) d) (working s (us @ q # vs) d)" "waiting s (us @ q # vs) d + working s (us @ q # vs) d \<le> 1"
    and q: "thread_ok K (put_anchor d D B s) q"
  shows "m_inv K (put_anchor d D B s) (us @ q # vs) L"
proof -
  let ?p = "FreeSwap d b A"
  let ?T = "us @ ?p # vs"
  note M = m_invD [OF I]
  have S: "super_ok K d D (nNextFree s) (desc s) (reservations s ?T d) (waiting s ?T d) (working s ?T d) (\<lambda>a. 0 < uses ?T L a)"
    using M(6) [OF ser] D by simp
  have bp: "block K D i \<noteq> 0" for i using block_pos [OF M(3) service_page [OF ser], of i] D by simp
  have us: "uses (us @ q # vs) L x = uses ?T L x - (if x = b then 1 else 0)" if "x \<noteq> 0" for x using that f by (simp add: uses_def)
  have pos: "0 < uses (us @ q # vs) L (block K D i) \<longleftrightarrow> 0 < uses ?T L (block K D i) \<and> i \<noteq> j" for i
    using us [OF bp] block_inj [OF M(1)] j(2) u1 by simp
  have U: "unused s ?T d = 0" "hits dropped ?T d = 0" using ser by (simp_all add: in_service_def)
  show ?thesis
  proof (rule keep_anchor [OF I ser D(1)])
    show "same_holders s ?T (put_anchor d D B s) (us @ q # vs) x" if "x \<noteq> 0" "x \<noteq> d" for x
      using that f by (auto simp: same_holders_def counts)
    show "unused (put_anchor d D B s) (us @ q # vs) d = 0" "hits dropped (us @ q # vs) d = 0"
      using U f by (simp_all add: holders_put counts)
    show "waiting (put_anchor d D B s) (us @ q # vs) d + working (put_anchor d D B s) (us @ q # vs) d \<le> 1"
      using st(2) by (simp add: holders_put)
    show "uses (us @ q # vs) L x = uses ?T L x" if "x \<noteq> 0" "\<forall>i < nCapacity K. x \<noteq> block K D i" for x
      using us [OF that(1)] that(2) j by auto
    show "uses (us @ q # vs) L (block K D i) \<le> 1" for i using us [OF bp, of i] usedD(2) [OF M(4) bp, of i] by simp
    have R: "reservations (put_anchor d D B s) (us @ q # vs) d = reservations s ?T d"
      using reservations_mid [of d D B s us q vs d ?p] f(6) by simp
    have "free_ok K (D\<lparr>anchor := B\<rparr>) (nNextFree s) (reservations s ?T d) (\<lambda>a. 0 < uses (us @ q # vs) L a)"
    proof (rule push_free [OF superD(1) [OF S] M(1) j(1) _ _ B(1)])
      show "0 < uses ?T L (block K D j)" using u1 j(2) by simp
      show "nNextFree s (block K D j) = avail (anchor D)" using nf j(2) D(2) by simp
      show "astate (anchor D) \<noteq> EMPTY" using B(3) D(2) by simp
      show "count B + reservations s ?T d + (if astate B = EMPTY then 1 else 0) = count (anchor D) + reservations s ?T d + 1" using B(4) D(2) by simp
      show "0 < uses (us @ q # vs) L (block K D i) \<longleftrightarrow> 0 < uses ?T L (block K D i) \<and> i \<noteq> j" for i by (rule pos)
    qed
    then show "super_ok K d (D\<lparr>anchor := B\<rparr>) (nNextFree s) (desc s) (reservations (put_anchor d D B s) (us @ q # vs) d)
      (waiting (put_anchor d D B s) (us @ q # vs) d) (working (put_anchor d D B s) (us @ q # vs) d) (\<lambda>a. 0 < uses (us @ q # vs) L a)"
      unfolding R using st(1) superD(3) [OF S] by (simp add: super_ok_def holders_put)
    show "thread_ok K (put_anchor d D B s) x" if "x \<in> set (us @ q # vs)" for x
      using that q others_anchor [OF I _ D(1), of x B] B(2) D(2) M(5) [of ?p] by (auto simp: newer_def)
  qed
qed

text \<open>The state of a superblock after a release; \<open>FULL\<close> superblocks get a thread that lists them.\<close>

lemma free_anchor_state:
  assumes K: "class_ok K" and j: "j < nCapacity K" "b = block K D j" and S: "state_ok K A q w" and A: "astate A \<noteq> EMPTY" "count A \<le> nCapacity K - 1"
    and w: "count A = nCapacity K - 1 \<Longrightarrow> w = 0"
  shows "state_ok K (free_anchor K D b A) (if astate (free_anchor K D b A) \<noteq> EMPTY \<and> astate A = FULL then q + 1 else q) w"
    "count (free_anchor K D b A) + (if astate (free_anchor K D b A) = EMPTY then 1 else 0) = count A + 1"
    "astate (free_anchor K D b A) \<noteq> EMPTY \<Longrightarrow> astate A = FULL \<Longrightarrow> q = 0 \<and> w = 0"
proof -
  note B = free_anchor_simps [OF K j, of A]
  have cap: "2 \<le> nCapacity K" using K by (simp add: class_ok_def)
  show "astate (free_anchor K D b A) \<noteq> EMPTY \<Longrightarrow> astate A = FULL \<Longrightarrow> q = 0 \<and> w = 0" using S by (auto simp: state_ok_def split: if_splits)
  show "state_ok K (free_anchor K D b A) (if astate (free_anchor K D b A) \<noteq> EMPTY \<and> astate A = FULL then q + 1 else q) w"
  proof (cases "count A = nCapacity K - 1")
    case True
    have "q = 1" using S w [OF True] True cap by (auto simp: state_ok_def split: if_splits)
    then show ?thesis using B(3,4) [OF True] True w by (simp add: state_ok_def)
  next
    case False
    then have c: "count A < nCapacity K - 1" using A(2) by simp
    show ?thesis using S A(1) B(5,6) [OF c] by (cases "astate A") (auto simp: state_ok_def split: if_splits)
  qed
  show "count (free_anchor K D b A) + (if astate (free_anchor K D b A) = EMPTY then 1 else 0) = count A + 1"
  proof (cases "count A = nCapacity K - 1")
    case False
    then have c: "count A < nCapacity K - 1" using A(2) by simp
    show ?thesis using A(1) B(5,6) [OF c] by simp
  qed (use B(3,4) in simp)
qed

lemma free_swap_step:
  assumes I: "m_inv K s (us @ FreeSwap d b A # vs) L" and t: "low s d"
  shows "\<exists>s' q. swap_free K d b A s = Some (s', q) \<and> m_inv K s' (us @ q # vs) L"
proof -
  let ?p = "FreeSwap d b A"
  let ?T = "us @ ?p # vs"
  note M = m_invD [OF I]
  have k: "d \<noteq> 0" "b \<noteq> 0" "desc s b = d" "astate A \<noteq> EMPTY" "avail A < nCapacity K" "nNextFree s b = avail A" using M(5) [of ?p] by simp_all
  obtain d' D j where D': "in_service s ?T d'" "descs s d' = Some D" "desc s b = d'" "j < nCapacity K" "b = block K D j" "uses ?T L b = 1"
    "astate (anchor D) \<noteq> EMPTY" "count (anchor D) + reservations s ?T d' < nCapacity K" "avail (anchor D) < nCapacity K"
    by (rule carried_block [OF I, of ?p b]) (simp, simp, rule k(2), blast)
  have ser: "in_service s ?T d" and D: "descs s d = Some D" "count (anchor D) + reservations s ?T d < nCapacity K" using D'(1,2,3,8) k(3) by auto
  show ?thesis
  proof (cases "anchor D = A")
    case False
    have "m_inv K s (us @ FreeLink d b (anchor D) # vs) L" by (rule pure_step [OF I]) (use k D' in simp_all)
    then show ?thesis using D(1) False k(4) by (simp add: swap_free_def)
  next
    case True
    let ?B = "free_anchor K D b A"
    let ?q = "if astate ?B = EMPTY then Unlink d else if astate A = FULL then AddPartial d 0 else Idle"
    have S: "state_ok K A (waiting s ?T d) (working s ?T d)" using superD(2) [OF M(6) [OF ser]] D(1) True by simp
    have w: "working s ?T d = 0" if "count A = nCapacity K - 1"
    proof (rule ccontr)
      assume "working s ?T d \<noteq> 0"
      then show False using working_reserved [OF I k(1)] D(2) True that by simp
    qed
    note F = free_anchor_state [OF M(1) D'(4,5) S k(4) _ w]
    have cap: "count A \<le> nCapacity K - 1" using D(2) True by simp
    have h: "waiting s (us @ ?q # vs) d = (if astate ?B \<noteq> EMPTY \<and> astate A = FULL then waiting s ?T d + 1 else waiting s ?T d)"
      "working s (us @ ?q # vs) d = working s ?T d" using k(1) by (simp_all add: counts)
    have "m_inv K (put_anchor d D ?B s) (us @ ?q # vs) L"
    proof (rule push_step [OF I ser D(1) True D'(4,5,6) k(6) _ _ k(4) F(2) [OF cap]])
      show "avail ?B = j" "tag A < tag ?B" using free_anchor_simps(1,2) [OF M(1) D'(4,5)] lowD [OF t D(1)] True by simp_all
      show "state_ok K ?B (waiting s (us @ ?q # vs) d) (working s (us @ ?q # vs) d)" unfolding h using F(1) [OF cap] .
      show "waiting s (us @ ?q # vs) d + working s (us @ ?q # vs) d \<le> 1" unfolding h using F(3) [OF cap] holdersD(1) [OF M(2) k(1)] by auto
    qed (use k(1) in simp_all)
    then show ?thesis using D(1) True k(4) by (simp add: swap_free_def Let_def)
  qed
qed

lemma unlink_step:
  assumes I: "m_inv K s (us @ Unlink d # vs) L" and fresh: "d \<in> set (partialList s) \<Longrightarrow> astate (anchor (the (descs s d))) = EMPTY"
  shows "\<exists>s' q. unlink d s = (s', q) \<and> m_inv K s' (us @ q # vs) L"
proof (cases "d \<in> set (partialList s)")
  case False
  have "m_inv K s (us @ Idle # vs) L" by (rule pure_step [OF I]) simp_all
  then show ?thesis using False by (simp add: unlink_def)
next
  case True
  let ?T = "us @ Unlink d # vs" and ?s = "s\<lparr>partialList := remove1 d (partialList s)\<rparr>"
  have d: "d \<noteq> 0" using m_invD(5) [OF I, of "Unlink d"] by simp
  have oc: "0 < occurs (partialList s) d" using True occurs_zero [of "partialList s" d] by (cases "occurs (partialList s) d") simp_all
  then have W: "0 < waiting s ?T d" by (simp add: waiting_def)
  have ser: "in_service s ?T d" "waiting s ?T d = 1" using held_service [OF I d] W by simp_all
  obtain D where D: "descs s d = Some D" using in_service_Some [OF ser(1)] by blast
  have "m_inv K ?s (us @ Drop d Leave # vs) L"
  proof (rule drop_empty [OF I ser(1) D])
    show "astate (anchor D) = EMPTY" using fresh [OF True] D by simp
    show "0 \<notin> set (partialList ?s)" using heap_nz(2) [OF I] set_remove1_subset [of d "partialList s"] by auto
    show "waiting ?s (us @ Drop d Leave # vs) e + (if e = d then 1 else 0) = waiting s ?T e" if "e \<noteq> 0" for e
      using that oc by (simp add: waiting_def occurs_remove1 [OF True])
    show "waiting s ?T d = 1" by (rule ser(2))
  qed simp_all
  then show ?thesis using True by (simp add: unlink_def)
qed

end
