(* ===== verification/MichaelNew.thy ===== *)
theory MichaelNew
  imports MichaelPut
begin

text \<open>
  The steps of Michael's allocator that bring superblocks into service and take them out of it.
\<close>

section \<open>A new superblock is installed or dropped\<close>

lemma install_step:
  assumes I: "m_inv K s (us @ Install d c b # vs) L"
  shows "\<exists>s' q. install d c b s = (s', q) \<and> m_inv K s' (us @ q # vs) L"
proof -
  let ?p = "Install d c b"
  let ?T = "us @ ?p # vs" and ?T' = "us @ Drop d Again # vs"
  note M = m_invD [OF I]
  have k: "d \<noteq> 0" "b \<noteq> 0" "b = pSB (the (descs s d))" "count (anchor (the (descs s d))) + c + 2 = nCapacity K" using M(5) [of ?p] by simp_all
  show ?thesis
  proof (cases "active s = (0, 0)")
    case True
    have "m_inv K (s\<lparr>active := (d, c)\<rparr>) (us @ Done b # vs) L"
      by (rule same_step [OF I]) (use True k heap_nz [OF I] in \<open>auto simp: same_holders_def counts\<close>)
    then show ?thesis using True by (simp add: install_def)
  next
    case False
    have "0 < waiting s ?T d + working s ?T d" by (simp add: working_def)
    note one = held_service [OF I k(1) this]
    obtain D where D: "descs s d = Some D" using in_service_Some [OF one(1)] by blast
    note F = free_bound [OF superD(1) [OF M(6) [OF one(1)]]]
    have b: "b = block K D 0" "0 < uses ?T L b" "0 < nCapacity K" using k D by (simp_all add: block_def uses_def)
    have bp: "block K D i \<noteq> 0" for i using block_pos [OF M(3) service_page [OF one(1)], of i] D by simp
    have "count (anchor D) + reservations s ?T d < nCapacity K" using F(2) [of 0] b D by simp
    moreover have "c + 1 \<le> reservations s ?T d" by (simp add: reservations_def)
    ultimately have R: "reservations s ?T d = c + 1" using k(4) D by simp
    have other: "uses ?T L (block K D i) = 0" if i: "i < nCapacity K" "i \<noteq> 0" for i
    proof (rule ccontr)
      assume "uses ?T L (block K D i) \<noteq> 0"
      then show False using F(4) [of 0 i] i b D R k(4) by simp
    qed
    have us: "uses ?T' L a = uses ?T L a - (if a = b then 1 else 0)" if "a \<noteq> 0" for a using that by (simp add: uses_def)
    have "m_inv K s ?T' L"
    proof (rule keep_drop [OF I one(1) D refl refl refl refl heap_nz [OF I]])
      show "same_holders s ?T s ?T' e" if "e \<noteq> 0" "e \<noteq> d" for e using that by (simp add: same_holders_def counts)
      show "waiting s ?T' d = 0" "working s ?T' d = 0" using one(2) k(1) by (simp_all add: counts split: if_splits)
      show "unused s ?T' d = 0" "hits dropped ?T' d = 1" using one(1) by (simp_all add: in_service_def counts)
      show "reservations s ?T' d = 0" using R by (simp add: reservations_def split: if_splits)
      show "uses ?T' L a = uses ?T L a" if "a \<noteq> 0" "\<forall>i < nCapacity K. a \<noteq> block K D i" for a using us [OF that(1)] that(2) b by auto
      show "uses ?T' L (block K D i) = 0" if "i < nCapacity K" for i
        using us [OF bp, of i] other [OF that] usedD(2) [OF M(4) k(2)] b by (cases "i = 0") simp_all
      show "thread_ok K s x" if "x \<in> set ?T'" for x using that k(1) others_ok [OF I, of x] by auto
    qed
    then show ?thesis using False by (simp add: install_def)
  qed
qed

section \<open>A superblock is returned\<close>

definition next_thread :: "after \<Rightarrow> thread" where
  "next_thread k = (case k of Retry \<Rightarrow> GetPartial | Again \<Rightarrow> Alloc | Leave \<Rightarrow> Idle)"

lemma next_thread_holds [simp]: "quiet (next_thread k) = 0" "busy (next_thread k) = 0" "blank (next_thread k) = 0" "dropped (next_thread k) = 0"
  "carried (next_thread k) = 0" "reserved d (next_thread k) = 0" "thread_ok K s (next_thread k)"
  by (cases k; simp add: next_thread_def)+

text \<open>A descriptor whose superblock is about to be returned.\<close>

lemma dropped_descriptor:
  assumes I: "m_inv K s T L" and p: "Drop d k \<in> set T"
  shows "d \<noteq> 0" "waiting s T d = 0" "working s T d = 0" "unused s T d = 0" "hits dropped T d = 1" "descs s d \<noteq> None" "has_page s T d"
    "\<not> in_service s T d" "reservations s T d = 0"
proof -
  note M = m_invD [OF I]
  show d: "d \<noteq> 0" using M(5) [OF p] by simp
  have dr: "0 < hits dropped T d" using hits_pos [OF p, of dropped] by simp
  note H = holdersD [OF M(2) d]
  show one: "waiting s T d = 0" "working s T d = 0" "unused s T d = 0" "hits dropped T d = 1" using H(1) dr by linarith+
  show D: "descs s d \<noteq> None"
  proof
    assume "descs s d = None"
    from H(2) [OF this] show False using dr by simp
  qed
  then show "has_page s T d" using one(3) by (simp add: has_page_def)
  show ns: "\<not> in_service s T d" using one(4) by (simp add: in_service_def)
  show "reservations s T d = 0" using H(3) [OF ns] .
qed

lemma drop_step:
  assumes I: "m_inv K s (us @ Drop d k # vs) L"
  shows "\<exists>s' q. free_superblock d k s = Some (s', q) \<and> m_inv K s' (us @ q # vs) L"
proof -
  let ?T = "us @ Drop d k # vs" and ?T' = "us @ next_thread k # vs"
  note M = m_invD [OF I]
  note one = dropped_descriptor [OF I, of d k, simplified]
  obtain D where D: "descs s d = Some D" using one(6) by blast
  let ?s = "s\<lparr>pages := pages s - {pSB D}, listSBDescFree := listSBDescFree s @ [d]\<rparr>"
  have O: "others_same s ?T ?s ?T' d" using M(2) by (simp add: others_same_def holders_ok_def same_holders_def counts)
  have own: "waiting ?s ?T' d = 0" "working ?s ?T' d = 0" "unused ?s ?T' d = 1" "hits dropped ?T' d = 0" "reservations ?s ?T' d = 0"
    using dropped_descriptor [OF I, of d k] by (simp_all add: counts split: if_splits)
  have P: "pages_ok K ?s ?T'"
  proof -
    have ser: "has_page ?s ?T' e \<longleftrightarrow> has_page s ?T e \<and> e \<noteq> d" for e
      using others_service(2) [OF M(2) O, of e] own(3) by (cases "e = d") (simp_all add: has_page_def)
    have Q: "pages s = {pSB (the (descs s e)) | e. has_page s ?T e}" "\<And>e. has_page s ?T e \<Longrightarrow> 0 < pSB (the (descs s e))"
      "\<And>e e'. has_page s ?T e \<Longrightarrow> has_page s ?T e' \<Longrightarrow> e \<noteq> e' \<Longrightarrow> apart (pSB (the (descs s e))) (bytes K) (pSB (the (descs s e'))) (bytes K)"
      using M(3) by (simp_all add: pages_ok_def)
    have "0 < bytes K" using M(1) by (simp add: bytes_def class_ok_def)
    then have ne: "pSB (the (descs s e)) \<noteq> pSB D" if "has_page s ?T e" "e \<noteq> d" for e using Q(3) [OF that(1) one(7) that(2)] D by (auto simp: apart_def)
    have "pages ?s = {pSB (the (descs ?s e)) | e. has_page ?s ?T' e}" unfolding ser using Q(1) ne D by auto
    then show ?thesis unfolding pages_ok_def ser using Q(2,3) by simp
  qed
  have "m_inv K ?s ?T' L"
  proof (rule outside_step [OF I O _ _ _ _ _ _ _ own(5) one(8) _ P])
    show "thread_ok K ?s x" if "x \<in> set ?T'" for x using that others_ok [OF I, of x] thread_ok_cong [of ?s s K x] by auto
    show "\<not> in_service ?s ?T' d" using own(3) by (simp add: in_service_def)
    show "waiting ?s ?T' d + working ?s ?T' d + unused ?s ?T' d + hits dropped ?T' d \<le> 1" using own by simp
  qed (use heap_nz [OF I] one(1) D in \<open>simp_all add: uses_def\<close>)
  moreover have "pSB D \<in> pages s" using M(3) one(7) D unfolding pages_ok_def by (metis (mono_tags, lifting) mem_Collect_eq option.sel)
  moreover have "d \<notin> set (listSBDescFree s)" using one(4) occurs_zero [of "listSBDescFree s" d] by (simp add: unused_def)
  ultimately show ?thesis using D by (simp add: free_superblock_def next_thread_def)
qed

end
