(* ===== verification/MichaelPage.thy ===== *)
theory MichaelPage
  imports MichaelNew
begin

text \<open>
  The steps of Michael's allocator that get a descriptor and a superblock.
\<close>

section \<open>Changes outside the superblocks in service\<close>

lemma thread_ok_outside:
  assumes I: "m_inv K s T L" and p: "p \<in> set T" and d: "\<And>d. in_service s T d \<Longrightarrow> descs s' d = descs s d"
    and b: "\<And>d i. in_service s T d \<Longrightarrow> i < nCapacity K \<Longrightarrow> desc s' (block K (the (descs s d)) i) = desc s (block K (the (descs s d)) i)"
      "\<And>d i. in_service s T d \<Longrightarrow> i < nCapacity K \<Longrightarrow> nNextFree s' (block K (the (descs s d)) i) = nNextFree s (block K (the (descs s d)) i)"
  shows "thread_ok K s' p"
proof -
  note ok = m_invD(5) [OF I p]
  have D: "descs s' d = descs s d" if "0 < reserved d p" "d \<noteq> 0" for d using reserved_service(1) [OF I p that] by (rule d)
  have v: "nNextFree s' (block K (the (descs s d)) (avail A)) = nNextFree s (block K (the (descs s d)) (avail A))"
    if h: "0 < reserved d p" "d \<noteq> 0" "seen (the (descs s d)) A" "tag A = tag (anchor (the (descs s d)))" for d A
  proof -
    note rs = reserved_service [OF I p h(1,2)]
    have "avail (anchor (the (descs s d))) < nCapacity K" using free_head(1) [OF superD(1) [OF m_invD(6) [OF I rs(1)]] rs(2)] .
    then show ?thesis using h(3,4) by (intro b(2) [OF rs(1)]) (simp add: seen_def)
  qed
  have c: "desc s' (carried p) = desc s (carried p) \<and> nNextFree s' (carried p) = nNextFree s (carried p)" if h: "carried p \<noteq> 0"
  proof -
    obtain d D j where e: "in_service s T d" "descs s d = Some D" "j < nCapacity K" "carried p = block K D j"
      by (rule carried_block [OF I p refl h], blast)
    show ?thesis using b(1,2) [OF e(1,3)] e(2,4) by simp
  qed
  show ?thesis
  proof (cases p)
    case (ActiveRead d c' A)
    then show ?thesis using ok D [of d] by simp
  next
    case (ActiveSwap d c' A w)
    then show ?thesis using ok D [of d] v [of d A] by (auto simp: read_ok_def)
  next
    case (PartialRead d n A)
    then show ?thesis using ok D [of d] by simp
  next
    case (PartialSwap d n A w)
    then show ?thesis using ok D [of d] v [of d A] by (auto simp: read_ok_def)
  next
    case (Install d c' a)
    then show ?thesis using ok D [of d] by simp
  qed (use ok c in simp_all)
qed

section \<open>A descriptor\<close>

lemma new_desc_step:
  assumes I: "m_inv K s (us @ NewDesc # vs) L" and e: "listSBDescFree s = [] \<Longrightarrow> e \<noteq> 0 \<and> descs s e = None"
  shows "\<exists>s' q. new_desc e s = Some (s', q) \<and> m_inv K s' (us @ q # vs) L"
proof (cases "listSBDescFree s")
  case (Cons d ds)
  have "m_inv K (s\<lparr>listSBDescFree := ds\<rparr>) (us @ NewPage d # vs) L"
    by (rule same_step [OF I]) (use Cons heap_nz [OF I] in \<open>auto simp: same_holders_def counts\<close>)
  then show ?thesis using Cons by (simp add: new_desc_def)
next
  case Nil
  let ?T = "us @ NewDesc # vs" and ?T' = "us @ NewPage e # vs"
  let ?s = "s\<lparr>descs := (descs s)(e \<mapsto> \<lparr>anchor = \<lparr>avail = 0, count = 0, astate = ACTIVE, tag = 0\<rparr>, pSB = 0\<rparr>)\<rparr>"
  note M = m_invD [OF I]
  have ne: "e \<noteq> 0" "descs s e = None" using e [OF Nil] by simp_all
  have O: "others_same s ?T ?s ?T' e" using M(2) ne by (simp add: others_same_def holders_ok_def same_holders_def counts)
  have own: "waiting ?s ?T' e = 0" "working ?s ?T' e = 0" "unused ?s ?T' e = 1" "hits dropped ?T' e = 0"
    using holdersD(2) [OF M(2) ne] by (simp_all add: counts split: if_splits)
  have nser: "\<not> in_service s ?T e" "\<not> has_page s ?T e" "\<not> in_service ?s ?T' e" "\<not> has_page ?s ?T' e"
    using ne(2) own(3) by (simp_all add: in_service_def has_page_def)
  have old: "descs ?s d = descs s d" if "has_page s ?T d" for d using that ne by (auto simp: has_page_def)
  have P: "pages_ok K ?s ?T'"
  proof -
    have ser: "has_page ?s ?T' d = has_page s ?T d" for d using others_service(2) [OF M(2) O, of d] nser by (cases "d = e") simp_all
    have "{pSB (the (descs ?s d)) | d. has_page s ?T d} = {pSB (the (descs s d)) | d. has_page s ?T d}"
      using old by (metis (no_types, lifting))
    then show ?thesis using M(3) old unfolding pages_ok_def ser by simp
  qed
  have r: "reservations ?s ?T' e = 0" using holdersD(3) [OF M(2) ne(1) nser(1)] by (simp add: reservations_def split: if_splits)
  have "m_inv K ?s ?T' L"
  proof (rule outside_step [OF I O _ _ _ _ _ _ _ r nser(1,3) P])
    show "thread_ok K ?s x" if "x \<in> set ?T'" for x
    proof (cases "x = NewPage e")
      case False
      then have "x \<in> set ?T" using that by auto
      then show ?thesis by (rule thread_ok_outside [OF I]) (use old service_page in simp_all)
    qed (use ne in simp)
    show "waiting ?s ?T' e + working ?s ?T' e + unused ?s ?T' e + hits dropped ?T' e \<le> 1" using own by simp
  qed (use heap_nz [OF I] in \<open>simp_all add: uses_def\<close>)
  then show ?thesis using Nil ne by (simp add: new_desc_def)
qed

section \<open>A superblock\<close>

lemma init_page_simps:
  "active (init_page K d b s) = active s" "pPartial (init_page K d b s) = pPartial s" "partialList (init_page K d b s) = partialList s"
  "listSBDescFree (init_page K d b s) = listSBDescFree s" "descs (init_page K d b s) = descs s" "pages (init_page K d b s) = pages s"
  "i < nCapacity K \<Longrightarrow> desc (init_page K d b s) (b + i * nBlockSize K) = d"
  "(\<forall>i < nCapacity K. x \<noteq> b + i * nBlockSize K) \<Longrightarrow> desc (init_page K d b s) x = desc s x"
  "(\<forall>i < nCapacity K. x \<noteq> b + i * nBlockSize K) \<Longrightarrow> nNextFree (init_page K d b s) x = nNextFree s x"
  by (auto simp: init_page_def)

lemma init_page_link: "0 < nBlockSize K \<Longrightarrow> i < nCapacity K \<Longrightarrow>
    nNextFree (init_page K d b s) (b + i * nBlockSize K) = (if i + 1 = nCapacity K then 0 else i + 1)"
  by (auto simp: init_page_def Let_def)

lemma follow_upt: "(\<And>i. a \<le> i \<Longrightarrow> i + 1 < n \<Longrightarrow> f i = i + 1) \<Longrightarrow> follow f a [a ..< n]"
proof (induction "n - a" arbitrary: a)
  case (Suc k)
  have up: "[a ..< n] = a # [a + 1 ..< n]" using Suc.hyps(2) by (simp add: upt_conv_Cons)
  show ?case
  proof (cases "a + 1 < n")
    case True
    have "follow f (a + 1) [a + 1 ..< n]" by (rule Suc.hyps(1)) (use Suc in auto)
    then show ?thesis using up Suc.prems [of a] True by simp
  next
    case False
    then show ?thesis using up by simp
  qed
qed simp

text \<open>All blocks of a new superblock but the first are free.\<close>

lemma new_super_ok:
  assumes K: "class_ok K" and D: "pSB D = b" "avail (anchor D) = 1" "astate (anchor D) = ACTIVE" "count (anchor D) + R = nCapacity K - 1"
    and nf: "\<And>i. i < nCapacity K \<Longrightarrow> nf (b + i * nBlockSize K) = (if i + 1 = nCapacity K then 0 else i + 1)"
    and hf: "\<And>i. i < nCapacity K \<Longrightarrow> hf (b + i * nBlockSize K) = d" and u: "\<And>i. i < nCapacity K \<Longrightarrow> used (b + i * nBlockSize K) \<longleftrightarrow> i = 0"
  shows "super_ok K d D nf hf R 0 1 used"
proof -
  have bl: "block K D i = b + i * nBlockSize K" for i using D(1) by (simp add: block_def)
  have cap: "1 < nCapacity K" using K by (simp add: class_ok_def)
  have "follow (\<lambda>i. nf (block K D i)) 1 [1 ..< nCapacity K]" by (rule follow_upt) (simp add: bl nf)
  moreover have "set [1 ..< nCapacity K] = {i. i < nCapacity K \<and> \<not> used (block K D i)}" using u by (auto simp: bl)
  moreover have "\<forall>i \<in> set [1 ..< nCapacity K]. nf (block K D i) < nCapacity K" using cap by (auto simp: bl nf)
  ultimately have "free_ok K D nf R used" unfolding free_ok_def using D cap by (intro conjI exI [of _ "[1 ..< nCapacity K]"]) simp_all
  then show ?thesis using D(3) hf by (simp add: super_ok_def state_ok_def bl)
qed

definition page_fresh :: "size_class \<Rightarrow> heap \<Rightarrow> nat \<Rightarrow> bool" where
  "page_fresh K s b \<longleftrightarrow> 0 < b \<and> (\<forall>x \<in> pages s. apart b (bytes K) x (bytes K))"

lemma page_freshD: "page_fresh K s b \<Longrightarrow> pages_ok K s T \<Longrightarrow> has_page s T e \<Longrightarrow> apart b (bytes K) (pSB (the (descs s e))) (bytes K)"
  unfolding page_fresh_def pages_ok_def by blast

text \<open>The heap with the superblock of the descriptor \<open>d\<close>, now \<open>D\<close>.\<close>

definition with_page :: "size_class \<Rightarrow> nat \<Rightarrow> superblock_desc \<Rightarrow> heap \<Rightarrow> heap" where
  "with_page K d D s = (init_page K d (pSB D) s)\<lparr>descs := (descs s)(d \<mapsto> D), pages := insert (pSB D) (pages s)\<rparr>"

lemma with_page_simps:
  "active (with_page K d D s) = active s" "pPartial (with_page K d D s) = pPartial s" "partialList (with_page K d D s) = partialList s"
  "listSBDescFree (with_page K d D s) = listSBDescFree s" "descs (with_page K d D s) = (descs s)(d \<mapsto> D)" "pages (with_page K d D s) = insert (pSB D) (pages s)"
  "desc (with_page K d D s) = desc (init_page K d (pSB D) s)" "nNextFree (with_page K d D s) = nNextFree (init_page K d (pSB D) s)"
  by (simp_all add: with_page_def init_page_simps)

lemma blank_descriptor:
  assumes I: "m_inv K s (us @ NewPage d # vs) L"
  shows "d \<noteq> 0" "waiting s (us @ NewPage d # vs) d = 0" "working s (us @ NewPage d # vs) d = 0" "unused s (us @ NewPage d # vs) d = 1"
    "hits dropped (us @ NewPage d # vs) d = 0" "\<exists>D. descs s d = Some D" "\<not> has_page s (us @ NewPage d # vs) d" "\<not> in_service s (us @ NewPage d # vs) d"
    "reservations s (us @ NewPage d # vs) d = 0"
proof -
  let ?T = "us @ NewPage d # vs"
  note M = m_invD [OF I]
  show d: "d \<noteq> 0" using M(5) [of "NewPage d"] by simp
  have bl: "0 < hits blank ?T d" by simp
  note H = holdersD [OF M(2) d]
  show one: "waiting s ?T d = 0" "working s ?T d = 0" "unused s ?T d = 1" "hits dropped ?T d = 0" using H(1) bl unfolding unused_def by linarith+
  have "descs s d \<noteq> None"
  proof
    assume "descs s d = None"
    from H(2) [OF this] show False using one(3) by simp
  qed
  then show "\<exists>D. descs s d = Some D" by blast
  show "\<not> has_page s ?T d" "\<not> in_service s ?T d" using one(3) by (simp_all add: has_page_def in_service_def)
  then show "reservations s ?T d = 0" using H(3) by simp
qed

lemma with_page_counts:
  assumes "e \<noteq> 0"
  shows "waiting (with_page K d D s) (us @ Install d c b # vs) e = waiting s (us @ NewPage d # vs) e"
    "working (with_page K d D s) (us @ Install d c b # vs) e = working s (us @ NewPage d # vs) e + (if e = d then 1 else 0)"
    "reservations (with_page K d D s) (us @ Install d c b # vs) e = reservations s (us @ NewPage d # vs) e + (if e = d then c + 1 else 0)"
    "unused (with_page K d D s) (us @ Install d c b # vs) e = unused s (us @ NewPage d # vs) e - (if e = d then 1 else 0)"
    "hits dropped (us @ Install d c b # vs) e = hits dropped (us @ NewPage d # vs) e"
    "uses (us @ Install d c b # vs) L e = uses (us @ NewPage d # vs) L e + (if e = b then 1 else 0)"
  using assms by (simp_all add: counts with_page_simps)

lemma with_page_others: "m_inv K s (us @ NewPage d # vs) L \<Longrightarrow> others_same s (us @ NewPage d # vs) (with_page K d D s) (us @ Install d c b # vs) d"
  using blank_descriptor(1) [of K s us d vs L] m_invD(2) [of K s "us @ NewPage d # vs" L]
  by (simp add: others_same_def same_holders_def with_page_counts with_page_simps holders_ok_def)

lemma with_page_service:
  assumes I: "m_inv K s (us @ NewPage d # vs) L"
  shows "in_service (with_page K d D s) (us @ Install d c b # vs) e \<longleftrightarrow> in_service s (us @ NewPage d # vs) e \<or> e = d"
    "has_page (with_page K d D s) (us @ Install d c b # vs) e \<longleftrightarrow> has_page s (us @ NewPage d # vs) e \<or> e = d"
proof -
  note one = blank_descriptor [OF I] and S = others_service [OF m_invD(2) [OF I] with_page_others [OF I], of e D c b]
  have "in_service (with_page K d D s) (us @ Install d c b # vs) d" "has_page (with_page K d D s) (us @ Install d c b # vs) d"
    unfolding in_service_def has_page_def with_page_counts [OF one(1)] using one by (simp_all add: with_page_simps)
  then show "in_service (with_page K d D s) (us @ Install d c b # vs) e \<longleftrightarrow> in_service s (us @ NewPage d # vs) e \<or> e = d"
    "has_page (with_page K d D s) (us @ Install d c b # vs) e \<longleftrightarrow> has_page s (us @ NewPage d # vs) e \<or> e = d"
    using S by (cases "e = d"; simp)+
qed

lemma with_page_holders:
  assumes I: "m_inv K s (us @ NewPage d # vs) L"
  shows "holders_ok (with_page K d D s) (us @ Install d c b # vs)"
proof (rule others_holders [OF m_invD(2) [OF I] with_page_others [OF I]])
  note one = blank_descriptor [OF I]
  show "waiting (with_page K d D s) (us @ Install d c b # vs) d + working (with_page K d D s) (us @ Install d c b # vs) d +
      unused (with_page K d D s) (us @ Install d c b # vs) d + hits dropped (us @ Install d c b # vs) d \<le> 1"
    unfolding with_page_counts [OF one(1)] using one by simp
  show "reservations (with_page K d D s) (us @ Install d c b # vs) d = 0" if "\<not> in_service (with_page K d D s) (us @ Install d c b # vs) d"
    using that with_page_service(1) [OF I] by simp
qed (use heap_nz [OF I] in \<open>simp_all add: with_page_simps\<close>)

lemma with_page_old: "m_inv K s (us @ NewPage d # vs) L \<Longrightarrow> has_page s (us @ NewPage d # vs) e \<Longrightarrow> descs (with_page K d D s) e = descs s e"
  using blank_descriptor(7) by (auto simp: with_page_simps)

lemma collect_insert: "(\<And>e. P e \<Longrightarrow> g e = f e) \<Longrightarrow> g d = x \<Longrightarrow> {g e | e. P e \<or> e = d} = insert x {f e | e. P e}"
  by (auto; metis)

lemma with_page_pages:
  assumes I: "m_inv K s (us @ NewPage d # vs) L" and b: "page_fresh K s (pSB D)"
  shows "pages_ok K (with_page K d D s) (us @ Install d c b # vs)"
proof -
  let ?T = "us @ NewPage d # vs" and ?T' = "us @ Install d c b # vs" and ?s = "with_page K d D s"
  note old = with_page_old [OF I, of _ D] and ser = with_page_service [OF I, of D c b] and M = m_invD [OF I]
  have new: "descs ?s d = Some D" by (simp add: with_page_simps)
  have P: "pages s = {pSB (the (descs s e)) | e. has_page s ?T e}" "\<And>e. has_page s ?T e \<Longrightarrow> 0 < pSB (the (descs s e))"
    "\<And>e e'. has_page s ?T e \<Longrightarrow> has_page s ?T e' \<Longrightarrow> e \<noteq> e' \<Longrightarrow> apart (pSB (the (descs s e))) (bytes K) (pSB (the (descs s e'))) (bytes K)"
    using M(3) by (simp_all add: pages_ok_def)
  have f: "apart (pSB D) (bytes K) (pSB (the (descs s e))) (bytes K)" if "has_page s ?T e" for e by (rule page_freshD [OF b M(3) that])
  have "{pSB (the (descs ?s e)) | e. has_page s ?T e \<or> e = d} = insert (pSB D) {pSB (the (descs s e)) | e. has_page s ?T e}"
    by (rule collect_insert) (use old new in simp_all)
  then have "pages ?s = {pSB (the (descs ?s e)) | e. has_page ?s ?T' e}" unfolding ser using P(1) by (simp add: with_page_simps)
  moreover have "0 < pSB (the (descs ?s e))" if "has_page ?s ?T' e" for e
    using that old [of e] P(2) [of e] b new unfolding ser page_fresh_def by auto
  moreover have "apart (pSB (the (descs ?s e))) (bytes K) (pSB (the (descs ?s e'))) (bytes K)" if h: "has_page ?s ?T' e" "has_page ?s ?T' e'" "e \<noteq> e'" for e e'
  proof -
    consider "has_page s ?T e" "has_page s ?T e'" | "has_page s ?T e" "e' = d" | "e = d" "has_page s ?T e'" using h unfolding ser by blast
    then show ?thesis
    proof cases
      case 1
      then show ?thesis using P(3) [of e e'] h(3) old by simp
    next
      case 2
      then show ?thesis using f [of e] old [of e] new by (simp add: apart_def disj_commute)
    next
      case 3
      then show ?thesis using f [of e'] old [of e'] new by simp
    qed
  qed
  ultimately show ?thesis unfolding pages_ok_def by blast
qed

text \<open>The blocks of the new superblock are not those of another one.\<close>

lemma with_page_blocks:
  fixes D :: superblock_desc
  assumes I: "m_inv K s (us @ NewPage d # vs) L" and b: "page_fresh K s (pSB D)"
  shows "has_page s (us @ NewPage d # vs) e \<Longrightarrow> i < nCapacity K \<Longrightarrow> j < nCapacity K \<Longrightarrow> block K (the (descs s e)) i \<noteq> pSB D + j * nBlockSize K"
    "j < nCapacity K \<Longrightarrow> uses (us @ NewPage d # vs) L (pSB D + j * nBlockSize K) = 0"
proof -
  let ?T = "us @ NewPage d # vs" and ?s = "with_page K d D s"
  note M = m_invD [OF I]
  show apart: "block K (the (descs s e)) i \<noteq> pSB D + j * nBlockSize K" if e: "has_page s ?T e" and ij: "i < nCapacity K" "j < nCapacity K" for e i j
  proof -
    have "block K (the (descs ?s e)) i \<noteq> block K (the (descs ?s d)) j"
      by (rule blocks_differ(2) [OF M(1) with_page_pages [OF I b, of 0 0] _ _ _ ij])
        (use e with_page_service [OF I] blank_descriptor(7) [OF I] in auto)
    then show ?thesis using with_page_old [OF I e, of D] by (simp add: block_def with_page_simps)
  qed
  show "uses ?T L (pSB D + j * nBlockSize K) = 0" if j: "j < nCapacity K"
  proof (rule ccontr)
    have "pSB D + j * nBlockSize K \<noteq> 0" using b by (simp add: page_fresh_def)
    moreover assume "uses ?T L (pSB D + j * nBlockSize K) \<noteq> 0"
    ultimately obtain e i where e: "in_service s ?T e" "i < nCapacity K" "pSB D + j * nBlockSize K = block K (the (descs s e)) i"
      using usedD(3) [OF M(4)] by blast
    show False using apart [OF service_page [OF e(1)] e(2) j] e(3) by simp
  qed
qed

lemma with_page_step:
  assumes I: "m_inv K s (us @ NewPage d # vs) L" and b: "page_fresh K s (pSB D)" and c: "count (anchor D) + c + 2 = nCapacity K"
    and A: "avail (anchor D) = 1" "astate (anchor D) = ACTIVE"
  shows "m_inv K (with_page K d D s) (us @ Install d c (pSB D) # vs) L"
proof -
  let ?T = "us @ NewPage d # vs" and ?s = "with_page K d D s" and ?T' = "us @ Install d c (pSB D) # vs"
  note M = m_invD [OF I] and one = blank_descriptor [OF I] and O = with_page_others [OF I, of D c "pSB D"]
    and ser = with_page_service [OF I, of D c "pSB D"] and bl = with_page_blocks [OF I b] and us = with_page_counts(6) [of _ us d c "pSB D" vs L]
  have cap: "0 < nCapacity K" "0 < nBlockSize K" "0 < pSB D" using M(1) b by (simp_all add: class_ok_def page_fresh_def)
  have new: "the (descs ?s d) = D" by (simp add: with_page_simps)
  have old: "desc ?s (block K (the (descs s e)) i) = desc s (block K (the (descs s e)) i)"
    "nNextFree ?s (block K (the (descs s e)) i) = nNextFree s (block K (the (descs s e)) i)" if "in_service s ?T e" "i < nCapacity K" for e i
    using bl(1) [OF service_page [OF that(1)] that(2)] by (auto simp: with_page_simps intro!: init_page_simps(8,9))
  have "used_ok K ?s ?T' L"
  proof (rule others_used [OF I O])
    show "8 < x" if "x \<in> L" for x using usedD(1) [OF M(4) that] .
    show "uses ?T' L a \<le> 1 \<and> ((\<exists>e i. e \<noteq> d \<and> in_service s ?T e \<and> i < nCapacity K \<and> a = block K (the (descs s e)) i) \<or>
       in_service ?s ?T' d \<and> (\<exists>i < nCapacity K. a = block K (the (descs ?s d)) i))" if a: "a \<noteq> 0" "0 < uses ?T' L a" for a
    proof (cases "a = pSB D")
      case True
      then have "uses ?T' L a = 1" using us [OF a(1)] bl(2) [of 0] cap by simp
      moreover have "0 < nCapacity K \<and> a = block K (the (descs ?s d)) 0" using True cap new by (simp add: block_def)
      ultimately show ?thesis using ser(1) by auto
    next
      case False
      then have u: "uses ?T' L a = uses ?T L a" using us [OF a(1)] by simp
      then obtain e i where e: "in_service s ?T e" "i < nCapacity K" "a = block K (the (descs s e)) i" using usedD(3) [OF M(4) a(1)] a(2) by auto
      then have "e \<noteq> d" using one(8) by auto
      then show ?thesis using e u usedD(2) [OF M(4) a(1)] by auto
    qed
  qed
  moreover have "thread_ok K ?s x" if "x \<in> set ?T'" for x
  proof (cases "x = Install d c (pSB D)")
    case True
    then show ?thesis using one(1) cap c new by simp
  next
    case False
    then have "x \<in> set ?T" using that by auto
    then show ?thesis by (rule thread_ok_outside [OF I]) (use old with_page_old [OF I service_page] in simp_all)
  qed
  moreover have "super_ok K e (the (descs ?s e)) (nNextFree ?s) (desc ?s) (reservations ?s ?T' e) (waiting ?s ?T' e) (working ?s ?T' e) (\<lambda>a. 0 < uses ?T' L a)"
    if e: "in_service ?s ?T' e" for e
  proof (cases "e = d")
    case False
    then have e': "in_service s ?T e" using e ser(1) by simp
    have "uses ?T' L (block K (the (descs s e)) i) = uses ?T L (block K (the (descs s e)) i)" if "i < nCapacity K" for i
      using us [of "block K (the (descs s e)) i"] block_pos [OF M(3) service_page [OF e'], of i] bl(1) [OF service_page [OF e'] that, of 0] cap by simp
    then show ?thesis by (intro others_super [OF I O False e]) (simp_all add: old [OF e'])
  next
    case True
    have "super_ok K d D (nNextFree ?s) (desc ?s) (c + 1) 0 1 (\<lambda>a. 0 < uses ?T' L a)"
    proof (rule new_super_ok [OF M(1) refl A])
      show "count (anchor D) + (c + 1) = nCapacity K - 1" using c by simp
    qed (use cap us bl(2) init_page_link [OF cap(2)] init_page_simps(7) in \<open>simp_all add: with_page_simps\<close>)
    then show ?thesis unfolding True with_page_counts(1-3) [OF one(1)] one(2,3,9) new by simp
  qed
  ultimately show ?thesis using M(1) with_page_pages [OF I b] with_page_holders [OF I] by (simp add: m_inv_def)
qed

lemma new_page_step:
  assumes I: "m_inv K s (us @ NewPage d # vs) L" and b: "page_fresh K s b"
  shows "\<exists>s' q. new_page K d b s = Some (s', q) \<and> m_inv K s' (us @ q # vs) L"
proof -
  obtain D where D: "descs s d = Some D" using blank_descriptor(6) [OF I] by blast
  define c where "c = more_credits (nCapacity K - 1) - 1"
  define A where "A = (anchor D)\<lparr>avail := 1, count := nCapacity K - 1 - (c + 1), astate := ACTIVE, tag := (tag (anchor D) + 1) mod 2 ^ 40\<rparr>"
  have "c + 1 \<le> nCapacity K - 1" "2 \<le> nCapacity K"
    using more_credits_bounds [of "nCapacity K - 1"] m_invD(1) [OF I] by (simp_all add: c_def class_ok_def)
  then have "m_inv K (with_page K d \<lparr>anchor = A, pSB = b\<rparr> s) (us @ Install d c (pSB \<lparr>anchor = A, pSB = b\<rparr>) # vs) L"
    by (intro with_page_step [OF I]) (use b in \<open>simp_all add: A_def\<close>)
  moreover have "new_page K d b s = Some (with_page K d \<lparr>anchor = A, pSB = b\<rparr> s, Install d c b)"
    using D b by (simp add: new_page_def Let_def with_page_def A_def c_def page_fresh_def)
  ultimately show ?thesis by simp
qed

end
