(* ===== verification/MichaelHistory.thy ===== *)
theory MichaelHistory
  imports MichaelPage
begin

text \<open>
  Histories of Michael's allocator: any number of threads that allocate and release in any interleaving, and the client's writes to
  the blocks it has been given.
\<close>

section \<open>One step\<close>

text \<open>
  The contract of the system: a descriptor that is not in use, a superblock apart from the others. A thread about to change an
  anchor finds its tag below its bound. In a history without stale removals a thread that is about to remove a superblock from the list of partial
  superblocks finds it empty, or not in the list.
\<close>

fun answer_ok :: "size_class \<Rightarrow> heap \<Rightarrow> nat \<Rightarrow> thread \<Rightarrow> bool" where
  "answer_ok K s e NewDesc \<longleftrightarrow> listSBDescFree s = [] \<longrightarrow> e \<noteq> 0 \<and> descs s e = None"
| "answer_ok K s e (NewPage d) \<longleftrightarrow> page_fresh K s e"
| "answer_ok K s e (ActiveSwap d c A v) \<longleftrightarrow> low s d"
| "answer_ok K s e (PartialSwap d n A v) \<longleftrightarrow> low s d"
| "answer_ok K s e (Reserve d) \<longleftrightarrow> low s d"
| "answer_ok K s e (FreeSwap d b A) \<longleftrightarrow> low s d"
| "answer_ok K s e _ \<longleftrightarrow> True"

fun unlink_ok :: "heap \<Rightarrow> thread \<Rightarrow> bool" where
  "unlink_ok s (Unlink d) \<longleftrightarrow> d \<in> set (partialList s) \<longrightarrow> astate (anchor (the (descs s d))) = EMPTY"
| "unlink_ok s _ \<longleftrightarrow> True"

definition stepping :: "thread \<Rightarrow> bool" where
  "stepping p \<longleftrightarrow> (case p of Idle \<Rightarrow> False | Done a \<Rightarrow> False | _ \<Rightarrow> True)"

lemma step_ok:
  assumes I: "m_inv K s (us @ p # vs) L" and p: "stepping p" and a: "answer_ok K s e p" and u: "unlink_ok s p"
  shows "\<exists>s' q. thread_step K e s p = Some (s', q) \<and> m_inv K s' (us @ q # vs) L"
proof (cases p)
  case Alloc
  then show ?thesis using alloc_step I by auto
next
  case (ActiveLoad d c)
  then show ?thesis using active_load_step I by simp
next
  case (ActiveRead d c A)
  then show ?thesis using active_read_step I by simp
next
  case (ActiveSwap d c A v)
  then show ?thesis using active_swap_step I a by simp
next
  case GetPartial
  then show ?thesis using get_partial_step I by auto
next
  case PopPartial
  then show ?thesis using pop_partial_step I by auto
next
  case (Reserve d)
  then show ?thesis using reserve_step I a by simp
next
  case (PartialLoad d n)
  then show ?thesis using partial_load_step I by simp
next
  case (PartialRead d n A)
  then show ?thesis using partial_read_step I by simp
next
  case (PartialSwap d n A v)
  then show ?thesis using partial_swap_step I a by simp
next
  case (Update d n a)
  then show ?thesis using update_step [of K s us d n a vs L] I by auto
next
  case (GiveBack d n a)
  then show ?thesis using give_back_step I by simp
next
  case (AddPartial d a)
  then show ?thesis using add_partial_step I by simp
next
  case (PushPartial d a)
  then show ?thesis using push_partial_step I by simp
next
  case NewDesc
  then show ?thesis using new_desc_step I a by simp
next
  case (NewPage d)
  then show ?thesis using new_page_step I a by simp
next
  case (Install d c b)
  then show ?thesis using install_step [of K s us d c b vs L] I by auto
next
  case (Drop d k)
  then show ?thesis using drop_step I by simp
next
  case (FreeLoad b)
  then show ?thesis using free_load_step I by simp
next
  case (FreeLink d b A)
  then show ?thesis using link_step [of K s us d b A vs L] I by auto
next
  case (FreeSwap d b A)
  then show ?thesis using free_swap_step I a by simp
next
  case (Unlink d)
  then show ?thesis using unlink_step [of K s us d vs L] I u by auto
qed (use p in \<open>simp_all add: stepping_def\<close>)

section \<open>Histories\<close>

inductive m_reach :: "size_class \<Rightarrow> bool \<Rightarrow> heap \<Rightarrow> thread list \<Rightarrow> nat set \<Rightarrow> bool" where
  start: "class_ok K \<Longrightarrow> m_reach K g heap0 (replicate n Idle) {}"
| call: "m_reach K g s T L \<Longrightarrow> i < length T \<Longrightarrow> T ! i = Idle \<Longrightarrow> m_reach K g s (T[i := Alloc]) L"
| return: "m_reach K g s T L \<Longrightarrow> i < length T \<Longrightarrow> T ! i = Done a \<Longrightarrow> m_reach K g s (T[i := Idle]) (insert (a + 8) L)"
| release: "m_reach K g s T L \<Longrightarrow> i < length T \<Longrightarrow> T ! i = Idle \<Longrightarrow> p \<in> L \<Longrightarrow> m_reach K g s (T[i := FreeLoad (p - 8)]) (L - {p})"
| client: "m_reach K g s T L \<Longrightarrow> p \<in> L \<Longrightarrow> m_reach K g (s\<lparr>nNextFree := (nNextFree s)(p - 8 := v)\<rparr>) T L"
| step: "m_reach K g s T L \<Longrightarrow> i < length T \<Longrightarrow> answer_ok K s e (T ! i) \<Longrightarrow> (g \<longrightarrow> unlink_ok s (T ! i)) \<Longrightarrow>
    thread_step K e s (T ! i) = Some (s', q) \<Longrightarrow> m_reach K g s' (T[i := q]) L"

lemma heap0_inv:
  assumes "class_ok K"
  shows "m_inv K heap0 (replicate n Idle) {}"
proof -
  have no: "hits f (replicate n Idle) d = 0" if "f Idle = 0" "d \<noteq> 0" for f d using that by (simp add: hits_def)
  have r: "sum_list (map (reserved d) (replicate n Idle)) = 0" for d by (induction n) simp_all
  have none: "\<not> in_service heap0 T d" "\<not> has_page heap0 T d" for T d by (simp_all add: in_service_def has_page_def heap0_def)
  have c: "waiting heap0 (replicate n Idle) d = 0" "working heap0 (replicate n Idle) d = 0" "unused heap0 (replicate n Idle) d = 0"
    "hits dropped (replicate n Idle) d = 0" "reservations heap0 (replicate n Idle) d = 0" "uses (replicate n Idle) {} d = 0" if "d \<noteq> 0" for d
    using that no r by (simp_all add: counts heap0_def)
  have "holders_ok heap0 (replicate n Idle)" using c unfolding holders_ok_def by (simp add: heap0_def)
  moreover have "pages_ok K heap0 (replicate n Idle)" using none unfolding pages_ok_def by (simp add: heap0_def)
  moreover have "used_ok K heap0 (replicate n Idle) {}" using c unfolding used_ok_def by simp
  ultimately show ?thesis using assms none by (simp add: m_inv_def)
qed

lemma split_at: "i < length T \<Longrightarrow> T = take i T @ T ! i # drop (Suc i) T" "i < length T \<Longrightarrow> T[i := q] = take i T @ q # drop (Suc i) T"
  by (simp_all add: id_take_nth_drop [symmetric] upd_conv_take_nth_drop)

lemma return_step:
  assumes I: "m_inv K s (us @ Done a # vs) L"
  shows "m_inv K s (us @ Idle # vs) (insert (a + 8) L)"
proof -
  have a: "a \<noteq> 0" using m_invD(5) [OF I, of "Done a"] by simp
  have "uses (us @ Done a # vs) L a \<le> 1" using usedD(2) [OF m_invD(4) [OF I] a] .
  then have n: "a + 8 \<notin> L" by (auto simp: uses_def)
  show ?thesis
  proof (rule keep_all [OF I refl refl refl heap_nz [OF I]])
    show "uses (us @ Idle # vs) (insert (a + 8) L) x = uses (us @ Done a # vs) L x" if "x \<noteq> 0" for x using that n by (cases "x = a") (simp_all add: uses_def)
    show "8 < x" if "x \<in> insert (a + 8) L" for x using that a usedD(1) [OF m_invD(4) [OF I]] by auto
    show "thread_ok K s x" if "x \<in> set (us @ Idle # vs)" for x using that others_ok [OF I, of x] by auto
  qed (simp_all add: same_holders_def counts)
qed

lemma m_release_step:
  assumes I: "m_inv K s (us @ Idle # vs) L" and p: "p \<in> L"
  shows "m_inv K s (us @ FreeLoad (p - 8) # vs) (L - {p})"
proof (rule keep_all [OF I refl refl refl heap_nz [OF I]])
  have p8: "8 < p" using usedD(1) [OF m_invD(4) [OF I] p] .
  show "uses (us @ FreeLoad (p - 8) # vs) (L - {p}) x = uses (us @ Idle # vs) L x" if "x \<noteq> 0" for x using that p p8 by (auto simp: uses_def)
  show "8 < x" if "x \<in> L - {p}" for x using that usedD(1) [OF m_invD(4) [OF I]] by blast
  show "thread_ok K s x" if "x \<in> set (us @ FreeLoad (p - 8) # vs)" for x using that p8 others_ok [OF I, of x] by auto
qed (simp_all add: same_holders_def counts)

lemma client_step:
  assumes I: "m_inv K s T L" and p: "p \<in> L"
  shows "m_inv K (s\<lparr>nNextFree := (nNextFree s)(p - 8 := v)\<rparr>) T L"
proof (rule keep_all [OF I])
  have p8: "8 < p" using usedD(1) [OF m_invD(4) [OF I] p] .
  then have u: "0 < uses T L (p - 8)" "p - 8 \<noteq> 0" using p by (simp_all add: uses_def)
  show "8 < x" if "x \<in> L" for x using usedD(1) [OF m_invD(4) [OF I] that] .
  show "a \<noteq> 0 \<and> 0 < uses T L a" if "nNextFree (s\<lparr>nNextFree := (nNextFree s)(p - 8 := v)\<rparr>) a \<noteq> nNextFree s a" for a
    using that u by (cases "a = p - 8") simp_all
  show "thread_ok K (s\<lparr>nNextFree := (nNextFree s)(p - 8 := v)\<rparr>) x" if x: "x \<in> set T" for x
  proof (rule thread_ok_link [OF I x u(1)])
    have "uses T L (p - 8) \<le> 1" using usedD(2) [OF m_invD(4) [OF I] u(2)] .
    then have "hits carried T (p - 8) = 0" using p p8 by (simp add: uses_def)
    then show "carried x \<noteq> p - 8" using hits_pos [OF x, of carried] by auto
  qed
qed (use heap_nz [OF I] in \<open>simp_all add: same_holders_def counts\<close>)

lemma m_reach_inv: "m_reach K g s T L \<Longrightarrow> g \<Longrightarrow> m_inv K s T L"
proof (induction rule: m_reach.induct)
  case (start K g n)
  then show ?case using heap0_inv by blast
next
  case (call K g s T L i)
  then have "m_inv K s (take i T @ Idle # drop (Suc i) T) L" using split_at(1) [of i T] by simp
  then show ?case unfolding split_at(2) [OF call.hyps(2)] by (rule pure_step) simp_all
next
  case (return K g s T L i a)
  then have "m_inv K s (take i T @ Done a # drop (Suc i) T) L" using split_at(1) [of i T] by simp
  then show ?case unfolding split_at(2) [OF return.hyps(2)] by (rule return_step)
next
  case (release K g s T L i p)
  then have "m_inv K s (take i T @ Idle # drop (Suc i) T) L" using split_at(1) [of i T] by simp
  then show ?case unfolding split_at(2) [OF release.hyps(2)] using release.hyps(4) by (rule m_release_step)
next
  case (client K g s T L p v)
  then show ?case using client_step by blast
next
  case (step K g s T L i e s' q)
  have I: "m_inv K s (take i T @ T ! i # drop (Suc i) T) L" using step split_at(1) [of i T] by simp
  have "stepping (T ! i)" using step.hyps(5) by (cases "T ! i") (simp_all add: stepping_def)
  then show ?case unfolding split_at(2) [OF step.hyps(2)] using step_ok [OF I _ step.hyps(3)] step.hyps(4,5) step.prems by auto
qed
section \<open>Runs\<close>

datatype event = Call nat | Return nat | Release nat nat | Client nat nat | Step nat nat

fun m_event :: "size_class \<Rightarrow> bool \<Rightarrow> event \<Rightarrow> heap \<times> thread list \<times> nat set \<Rightarrow> (heap \<times> thread list \<times> nat set) option" where
  "m_event K g (Call i) (s, T, L) = (if i < length T \<and> T ! i = Idle then Some (s, T[i := Alloc], L) else None)"
| "m_event K g (Return i) (s, T, L) =
     (if i < length T then (case T ! i of Done a \<Rightarrow> Some (s, T[i := Idle], insert (a + 8) L) | _ \<Rightarrow> None) else None)"
| "m_event K g (Release i p) (s, T, L) =
     (if i < length T \<and> T ! i = Idle \<and> p \<in> L then Some (s, T[i := FreeLoad (p - 8)], L - {p}) else None)"
| "m_event K g (Client p v) (s, T, L) = (if p \<in> L then Some (s\<lparr>nNextFree := (nNextFree s)(p - 8 := v)\<rparr>, T, L) else None)"
| "m_event K g (Step i e) (s, T, L) =
     (if i < length T \<and> answer_ok K s e (T ! i) \<and> (g \<longrightarrow> unlink_ok s (T ! i))
      then do { (s', q) \<leftarrow> thread_step K e s (T ! i); Some (s', T[i := q], L) } else None)"

fun m_run :: "size_class \<Rightarrow> bool \<Rightarrow> event list \<Rightarrow> heap \<times> thread list \<times> nat set \<Rightarrow> (heap \<times> thread list \<times> nat set) option" where
  "m_run K g [] x = Some x"
| "m_run K g (ev # evs) x = do { y \<leftarrow> m_event K g ev x; m_run K g evs y }"

lemma m_event_reach: "m_reach K g s T L \<Longrightarrow> m_event K g ev (s, T, L) = Some (s', T', L') \<Longrightarrow> m_reach K g s' T' L'"
proof (cases ev)
  case (Return i)
  assume "m_reach K g s T L" "m_event K g ev (s, T, L) = Some (s', T', L')"
  then show ?thesis using Return by (auto split: if_splits thread.splits intro: m_reach.return)
next
  case (Step i e)
  assume "m_reach K g s T L" "m_event K g ev (s, T, L) = Some (s', T', L')"
  then show ?thesis using Step by (auto split: if_splits bind_splits intro: m_reach.step)
qed (auto split: if_splits intro: m_reach.call m_reach.release m_reach.client)

lemma m_run_reach: "m_reach K g s T L \<Longrightarrow> m_run K g evs (s, T, L) = Some (s', T', L') \<Longrightarrow> m_reach K g s' T' L'"
proof (induction evs arbitrary: s T L)
  case (Cons ev evs)
  obtain s1 T1 L1 where "m_event K g ev (s, T, L) = Some (s1, T1, L1)" "m_run K g evs (s1, T1, L1) = Some (s', T', L')"
    using Cons.prems(2) by (auto split: bind_splits)
  then show ?case using m_event_reach [OF Cons.prems(1)] Cons.IH by blast
qed simp

definition K2 :: size_class where "K2 = \<lparr>nBlockSize = 16, nSBSize = 32, nCapacity = 2, nSBSizeIdx = 0\<rparr>"
lemma K2_simps: "nCapacity K2 = 2" "nBlockSize K2 = 16" "class_ok K2"
  by (simp_all add: K2_def class_ok_def)

lemma init_page_K2: "init_page K2 d b s = s\<lparr>desc := (desc s)(b := d, b + 16 := d), nNextFree := (nNextFree s)(b := 1, b + 16 := 0)\<rparr>"
proof -
  have "(\<lambda>x. if \<exists>i<2. x = b + i * 16 then u else f x) = f(b := u, b + 16 := u)" for u and f :: "nat \<Rightarrow> nat"
    by (auto simp: fun_eq_iff numeral_2_eq_2 less_Suc_eq)
  moreover have "(\<lambda>x. if \<exists>i<2. x = b + i * 16 then (if (x - b) div 16 + 1 = 2 then 0 else (x - b) div 16 + 1) else f x) = f(b := 1, b + 16 := 0)" for f
    by (auto simp: fun_eq_iff numeral_2_eq_2 less_Suc_eq)
  ultimately show ?thesis unfolding init_page_def Let_def by (simp only: K2_simps)
qed

lemmas run_simps = reserve_active_def load_anchor_def read_link_def swap_active_def active_anchor_def pop_anchor_def more_credits_def c_nMaxCredits_def
  put_anchor_def get_partial_def pop_partial_def reserve_partial_def swap_partial_def update_active_def give_back_def add_partial_def push_partial_def
  finish_def new_desc_def new_page_def install_def free_superblock_def free_anchor_def link_block_def swap_free_def unlink_def block_def low_def
  page_fresh_def bytes_def apart_def init_page_K2 K2_simps Let_def

text \<open>An allocation from a new superblock, one from the active superblock, and one from a partial superblock.\<close>

definition alloc_new :: "nat \<Rightarrow> nat \<Rightarrow> nat \<Rightarrow> event list" where
  "alloc_new i d b = [Call i, Step i 0, Step i 0, Step i 0, Step i d, Step i b, Step i 0, Return i]"

definition alloc_active :: "nat \<Rightarrow> event list" where
  "alloc_active i = [Call i, Step i 0, Step i 0, Step i 0, Step i 0, Return i]"

definition alloc_partial :: "nat \<Rightarrow> event list" where
  "alloc_partial i = [Call i, Step i 0, Step i 0, Step i 0, Step i 0, Step i 0, Step i 0, Return i]"

definition free_run :: "nat \<Rightarrow> nat \<Rightarrow> event list" where
  "free_run i p = [Release i p, Step i 0, Step i 0, Step i 0, Step i 0]"

lemmas event_lists = alloc_new_def alloc_active_def alloc_partial_def free_run_def
section \<open>One thread\<close>

text \<open>With one thread no removal is stale.\<close>

lemma unlink_empty: "thread_step K e s p = Some (s', Unlink d) \<Longrightarrow> astate (anchor (the (descs s' d))) = EMPTY"
proof (cases p)
  case (FreeSwap d' b A)
  assume "thread_step K e s p = Some (s', Unlink d)"
  then show ?thesis using FreeSwap by (auto simp: swap_free_def Let_def check_def split: bind_splits if_splits)
next
  case (Drop d' k)
  assume "thread_step K e s p = Some (s', Unlink d)"
  then show ?thesis using Drop by (cases k) (auto simp: free_superblock_def check_def split: bind_splits)
qed (auto simp: reserve_active_def get_partial_def pop_partial_def update_active_def install_def link_block_def unlink_def swap_active_def reserve_partial_def
    swap_partial_def give_back_def add_partial_def push_partial_def new_desc_def new_page_def finish_def check_def Let_def
    split: bind_splits if_splits list.splits prod.splits)

lemma one_thread: "m_reach K g s T L \<Longrightarrow> length T = 1 \<Longrightarrow> m_reach K True s T L \<and> unlink_ok s (T ! 0)"
proof (induction rule: m_reach.induct)
  case (start K g n)
  then show ?case using m_reach.start [of K True n] by simp
next
  case (client K g s T L p v)
  then show ?case by (cases "T ! 0") (auto intro: m_reach.client)
next
  case (step K g s T L i e s' q)
  have i: "i = 0" "length T = 1" using step by simp_all
  have "unlink_ok s' q" using unlink_empty [of K e s "T ! i" s'] step.hyps(5) by (cases q) auto
  then show ?case using step i by (auto intro: m_reach.step)
qed (auto intro: m_reach.call m_reach.return m_reach.release)

lemma sound_inv: "m_reach K g s T L \<Longrightarrow> g \<or> length T = 1 \<Longrightarrow> m_inv K s T L"
  using m_reach_inv one_thread by blast

section \<open>What the client sees\<close>




lemma inv_lost:
  assumes I: "m_inv K s T L" and T: "T = replicate n Idle" and x: "x \<in> pages s"
  shows "\<exists>d D. descs s d = Some D \<and> pSB D = x \<and>
    (fst (active s) = d \<or> pPartial s = d \<or> d \<in> set (partialList s) \<or> card {i. i < nCapacity K \<and> block K D i + 8 \<in> L} = nCapacity K)"
proof -
  note M = m_invD [OF I]
  obtain d where d: "has_page s T d" "x = pSB (the (descs s d))" using M(3) x unfolding pages_ok_def by auto
  obtain D where D: "descs s d = Some D" using d(1) by (auto simp: has_page_def)
  have no: "hits f T y = 0" if "f Idle = 0" "y \<noteq> 0" for f y using that T by (simp add: hits_def)
  have nz: "d \<noteq> 0" using service_nz(1) [OF M(2) d(1)] .
  have ser: "in_service s T d" using d(1) no [of dropped d] nz by (simp add: in_service_def has_page_def)
  show ?thesis
  proof (cases "fst (active s) = d \<or> pPartial s = d \<or> d \<in> set (partialList s)")
    case True
    then show ?thesis using d D by auto
  next
    case False
    have "waiting s T d = 0" using False no [of quiet d] nz occurs_zero [of "partialList s" d] by (simp add: waiting_def)
    moreover have "working s T d = 0" using False no [of busy d] nz by (simp add: working_def)
    moreover have r: "reservations s T d = 0"
    proof -
      have "sum_list (map (reserved d) (replicate n Idle)) = 0" by (induction n) simp_all
      then show ?thesis using False T by (simp add: reservations_def)
    qed
    ultimately have S: "super_ok K d D (nNextFree s) (desc s) 0 0 0 (\<lambda>a. 0 < uses T L a)" using M(6) [OF ser] D by simp
    have st: "astate (anchor D) = FULL" "count (anchor D) = 0" using superD(2) [OF S] by (simp_all add: state_ok_def)
    then obtain xs where "length xs = 0" "set xs = {i. i < nCapacity K \<and> \<not> 0 < uses T L (block K D i)}"
      using superD(1) [OF S] unfolding free_ok_def by auto
    then have all: "0 < uses T L (block K D i)" if "i < nCapacity K" for i using that by auto
    have "block K D i + 8 \<in> L" if "i < nCapacity K" for i
      using all [OF that] block_pos [OF M(3) d(1), of i] D no [of carried "block K D i"] by (auto simp: uses_def split: if_splits)
    then have "{i. i < nCapacity K \<and> block K D i + 8 \<in> L} = {..< nCapacity K}" by auto
    then have "card {i. i < nCapacity K \<and> block K D i + 8 \<in> L} = nCapacity K" by simp
    then show ?thesis using D d(2) by (intro exI [of _ d] exI [of _ D]) simp
  qed
qed

section \<open>Properties\<close>

lemma alloc_two: "m_run K2 g (alloc_new 0 64 4096 @ alloc_active 0) (heap0, [Idle, Idle], {}) =
  Some (\<lparr>active = (0, 0), pPartial = 0, partialList = [], listSBDescFree = [],
    descs = [64 \<mapsto> \<lparr>anchor = \<lparr>avail = 0, count = 0, astate = FULL, tag = Suc (Suc 0)\<rparr>, pSB = 4096\<rparr>], desc = (\<lambda>_. 0)(4096 := 64, 4112 := 64),
    nNextFree = (\<lambda>_. 0)(4096 := 1, 4112 := 0), pages = {4096}\<rparr>, [Idle, Idle], {4120, 4104})"
  by (simp add: run_simps event_lists heap0_def)

lemma heap0_reach: "m_reach K2 g heap0 [Idle, Idle] {}"
  using m_reach.start [of K2 g 2] K2_simps(3) by (simp add: numeral_2_eq_2)

lemma two_blocks: "\<exists>s. m_reach K2 g s [Idle, Idle] {4120, 4104} \<and> 4096 \<in> pages s"
  by (rule exI, rule conjI, rule m_run_reach [OF heap0_reach alloc_two], simp)



text \<open>
  C35. In these histories the next step of every thread succeeds: no assertion of the code fails, no descriptor that is
  not there is accessed and no superblock is given back twice.
\<close>

theorem michael_never_stuck:
  assumes "m_reach K g s T L" and "g \<or> length T = 1" and "i < length T" and "stepping (T ! i)" and "answer_ok K s e (T ! i)" and "unlink_ok s (T ! i)"
  shows "\<exists>s' q. thread_step K e s (T ! i) = Some (s', q)"
proof -
  have "m_inv K s (take i T @ T ! i # drop (Suc i) T) L" using sound_inv [OF assms(1,2)] split_at(1) [OF assms(3)] by simp
  then show ?thesis using step_ok assms(4-6) by blast
qed

lemma michael_never_stuck_witness: "\<exists>s' q. thread_step K2 0 heap0 Alloc = Some (s', q)"
proof -
  have r: "m_reach K2 True heap0 [Alloc, Idle] {}" using m_reach.call [OF heap0_reach [of True], of 0] by simp
  show ?thesis using michael_never_stuck [OF r, of 0 0] by (simp add: stepping_def)
qed

text \<open>
  C36. In these histories no superblock is lost: when all threads are idle, every superblock taken from the system is the active one, the spare
  partial one or in the list of partial superblocks, where the next allocations find it, or all its blocks are in use.
\<close>

theorem michael_nothing_lost:
  assumes "m_reach K g s (replicate n Idle) L" and "g \<or> n = 1" and "x \<in> pages s"
  shows "\<exists>d D. descs s d = Some D \<and> pSB D = x \<and>
    (fst (active s) = d \<or> pPartial s = d \<or> d \<in> set (partialList s) \<or> card {i. i < nCapacity K \<and> block K D i + 8 \<in> L} = nCapacity K)"
  by (rule inv_lost [OF sound_inv [OF assms(1)] refl assms(3)]) (use assms(2) in simp)

lemma michael_nothing_lost_witness:
  "\<exists>(s :: heap) d D. descs s d = Some D \<and> pSB D = 4096 \<and>
    (fst (active s) = d \<or> pPartial s = d \<or> d \<in> set (partialList s) \<or> card {i. i < nCapacity K2 \<and> block K2 D i + 8 \<in> {4120, 4104}} = nCapacity K2)"
proof -
  obtain s where r: "m_reach K2 True s [Idle, Idle] {4120, 4104}" "4096 \<in> pages s" using two_blocks by blast
  have "m_reach K2 True s (replicate 2 Idle) {4120, 4104}" using r(1) by (simp add: numeral_2_eq_2)
  from michael_nothing_lost [OF this disjI1 [OF TrueI] r(2)] show ?thesis by (rule exI)
qed

definition stale_run :: "event list" where
  "stale_run = alloc_new 0 64 4096 @ alloc_active 0 @ alloc_new 0 128 8192 @ alloc_active 0 @
     free_run 0 4104 @ free_run 0 8200 @ [Step 0 0, Release 0 8216, Step 0 0, Step 0 0, Step 0 0] @ alloc_partial 1 @
     [Call 1, Step 1 0, Step 1 0, Step 1 0, Step 1 0, Step 1 0, Step 1 0, Step 1 0, Step 1 0, Step 1 12288, Step 1 0, Return 1] @
     alloc_active 1 @ free_run 1 4104 @ free_run 1 12296 @ [Step 1 0, Step 0 0, Step 0 0]"

text \<open>
  C12. Without that condition the allocator is not safe: two threads can bring it to a state where the block of the client at 12312, whose
  superblock began at 12288, lies in memory that has been given back. A thread that empties a superblock is overtaken before it removes the descriptor from
  the list; the descriptor is recycled with a new superblock and listed again, and is then removed and freed with that superblock.
\<close>

theorem michael_stale_unlink:
  "\<exists>s L. m_reach K2 False s [Idle, Idle] L \<and> 12312 \<in> L \<and> desc s 12304 = 128 \<and> pages s = {4096} \<and> bytes K2 = 32"
proof -
  obtain s L where r: "m_run K2 False stale_run (heap0, [Idle, Idle], {}) = Some (s, [Idle, Idle], L)"
    "12312 \<in> L \<and> desc s 12304 = 128 \<and> pages s = {4096}"
    by (simp add: stale_run_def run_simps event_lists heap0_def)
  show ?thesis using m_run_reach [OF heap0_reach r(1)] r(2) by (auto simp: bytes_def K2_simps)
qed

end
