(* ===== verification/MichaelSizes.thy ===== *)
theory MichaelSizes
  imports MichaelInv
begin

text \<open>
  The size classes of Michael's allocator (\<open>default_sizeclass_selector\<close> of \<open>michael/include/allocator.h\<close>, tables in
  \<open>michael/michael_heap.cpp\<close>). The table from sizes in units of 16 bytes to classes has 4097 entries in runs of equal length; it is
  written here as the runs.
\<close>

section \<open>The tables\<close>

definition c_nSizeClassCount :: nat where "c_nSizeClassCount = 63"

definition c_nMaxBlockSize :: nat where "c_nMaxBlockSize = 64 * 1024"

definition c_nPage64K :: nat where "c_nPage64K = 64 * 1024 - 32"

definition c_nPage1M :: nat where "c_nPage1M = 1024 * 1024"

definition m_szClassBounds :: "nat list" where
  "m_szClassBounds =
     [32, 48, 64, 80, 96, 112, 128, 144, 160, 176, 192, 208, 224, 240, 256, 320, 384, 448,
      512, 576, 640, 704, 768, 832, 896, 960, 1024,
      1280, 1536, 1792, 2048, 2304, 2560, 2816, 3072, 3328, 3584, 3840, 4096,
      5120, 6144, 7168, 8192, 9216, 10240, 11264, 12288, 13312, 14336, 15360, 16384,
      20480, 24576, 28672, 32768, 36864, 40960, 45056, 49152, 53248, 57344, 61440, 65536]"

definition m_szClass :: "size_class list" where
  "m_szClass = map (\<lambda>i. let b = m_szClassBounds ! i; p = (if i < 18 then c_nPage64K else c_nPage1M) in
     \<lparr>nBlockSize = b, nSBSize = p, nCapacity = p div b, nSBSizeIdx = (if i < 18 then 0 else 1)\<rparr>) [0 ..< c_nSizeClassCount]"

definition class_runs :: "(nat \<times> nat) list" where
  "class_runs = (3, 0) # concat (map (\<lambda>(n, cs). map (Pair n) cs) [(1, [1 ..< 15]), (4, [15 ..< 27]), (16, [27 ..< 39]), (64, [39 ..< 51]), (256, [51 ..< 63])])"

definition m_szClassMap :: "nat list" where
  "m_szClassMap = concat (map (\<lambda>(n, c). replicate n c) class_runs)"

section \<open>The class of a request\<close>

definition find_class :: "nat \<Rightarrow> nat option" where
  "find_class nSize = (if c_nMaxBlockSize < nSize then None else Some (m_szClassMap ! ((nSize + 15) div 16)))"

text \<open>A request gets a header of 8 bytes; no bounds are checked. \<open>None\<close> is a block from the system.\<close>

definition alloc_class :: "nat \<Rightarrow> nat option" where
  "alloc_class nSize = find_class ((nSize + 8) mod 2 ^ 64)"

text \<open>Consecutive runs from entry \<open>s\<close> on, for the classes from \<open>c\<close> on: the last entry of a run is the bound of its class.\<close>

fun runs_ok :: "nat \<Rightarrow> nat \<Rightarrow> (nat \<times> nat) list \<Rightarrow> nat list \<Rightarrow> bool" where
  "runs_ok s c [] bs \<longleftrightarrow> bs = []"
| "runs_ok s c ((n, c') # rs) [] \<longleftrightarrow> False"
| "runs_ok s c ((n, c') # rs) (b # bs) \<longleftrightarrow> c' = c \<and> 0 < n \<and> b = 16 * (s + n - 1) \<and> runs_ok (s + n) (Suc c) rs bs"

lemma runs_entry:
  "runs_ok s c rs bs \<Longrightarrow> k < sum_list (map fst rs) \<Longrightarrow>
   \<exists>j < length bs. concat (map (\<lambda>(n, c). replicate n c) rs) ! k = c + j \<and> 16 * (s + k) \<le> bs ! j \<and> (0 < j \<longrightarrow> bs ! (j - 1) + 16 \<le> 16 * (s + k))"
proof (induction s c rs bs arbitrary: k rule: runs_ok.induct)
  case (3 s c n c' rs b bs)
  show ?case
  proof (cases "k < n")
    case True
    then show ?thesis using 3 by (intro exI [of _ 0]) (simp add: nth_append)
  next
    case False
    have "\<exists>j < length bs. concat (map (\<lambda>(n, c). replicate n c) rs) ! (k - n) = Suc c + j \<and> 16 * (s + n + (k - n)) \<le> bs ! j \<and>
      (0 < j \<longrightarrow> bs ! (j - 1) + 16 \<le> 16 * (s + n + (k - n)))"
      by (rule "3.IH") (use 3 False in auto)
    then obtain j where j: "j < length bs" "concat (map (\<lambda>(n, c). replicate n c) rs) ! (k - n) = Suc c + j" "16 * (s + k) \<le> bs ! j"
      "0 < j \<longrightarrow> bs ! (j - 1) + 16 \<le> 16 * (s + k)" using False by auto
    have "(b # bs) ! (Suc j - 1) + 16 \<le> 16 * (s + k)"
      using j(4) "3.prems"(1) False by (cases j) (auto simp: algebra_simps)
    then show ?thesis using j(1-3) False by (intro exI [of _ "Suc j"]) (simp add: nth_append)
  qed
qed simp_all

lemma class_runs_eval: "class_runs = [(3, 0), (1, 1), (1, 2), (1, 3), (1, 4), (1, 5), (1, 6), (1, 7), (1, 8), (1, 9), (1, 10), (1, 11), (1, 12), (1, 13), (1, 14),
   (4, 15), (4, 16), (4, 17), (4, 18), (4, 19), (4, 20), (4, 21), (4, 22), (4, 23), (4, 24), (4, 25), (4, 26),
   (16, 27), (16, 28), (16, 29), (16, 30), (16, 31), (16, 32), (16, 33), (16, 34), (16, 35), (16, 36), (16, 37), (16, 38),
   (64, 39), (64, 40), (64, 41), (64, 42), (64, 43), (64, 44), (64, 45), (64, 46), (64, 47), (64, 48), (64, 49), (64, 50),
   (256, 51), (256, 52), (256, 53), (256, 54), (256, 55), (256, 56), (256, 57), (256, 58), (256, 59), (256, 60), (256, 61), (256, 62)]"
  by (simp add: class_runs_def upt_rec)

lemma class_runs_ok: "runs_ok 0 0 class_runs m_szClassBounds" "sum_list (map fst class_runs) = 4097" "length m_szClassBounds = 63"
  unfolding class_runs_eval m_szClassBounds_def by simp_all

lemma find_class_bounds:
  assumes "n \<le> 65536"
  shows "\<exists>c < 63. find_class n = Some c \<and> n \<le> m_szClassBounds ! c \<and> (0 < c \<longrightarrow> m_szClassBounds ! (c - 1) < n)"
proof -
  let ?k = "(n + 15) div 16"
  have k: "?k < 4097" using assms by linarith
  obtain j where j: "j < 63" "m_szClassMap ! ?k = j" "16 * ?k \<le> m_szClassBounds ! j" "0 < j \<longrightarrow> m_szClassBounds ! (j - 1) + 16 \<le> 16 * ?k"
    using runs_entry [OF class_runs_ok(1), of ?k] k class_runs_ok(2,3) by (auto simp: m_szClassMap_def)
  have "n \<le> 16 * ?k" "16 * ?k < n + 16" by linarith+
  then show ?thesis using j assms by (intro exI [of _ j]) (auto simp: find_class_def c_nMaxBlockSize_def)
qed

lemma class_entry: "c < 63 \<Longrightarrow> nBlockSize (m_szClass ! c) = m_szClassBounds ! c \<and> nCapacity (m_szClass ! c) = nSBSize (m_szClass ! c) div m_szClassBounds ! c \<and>
    nSBSize (m_szClass ! c) = (if c < 18 then 65504 else 1048576)"
  by (simp add: m_szClass_def c_nSizeClassCount_def Let_def c_nPage64K_def c_nPage1M_def)

lemma class_bounds: "c < 63 \<Longrightarrow> 32 \<le> m_szClassBounds ! c \<and> m_szClassBounds ! c \<le> 65536 \<and> (c < 18 \<longrightarrow> m_szClassBounds ! c \<le> 448) \<and> (18 \<le> c \<longrightarrow> 512 \<le> m_szClassBounds ! c)"
proof -
  assume c: "c < 63"
  have "list_all (\<lambda>(c, b). 32 \<le> b \<and> b \<le> 65536 \<and> (c < 18 \<longrightarrow> b \<le> 448) \<and> (18 \<le> c \<longrightarrow> 512 \<le> b)) (zip [0 ..< 63] m_szClassBounds)"
    by (simp add: m_szClassBounds_def upt_rec)
  then show ?thesis using c class_runs_ok(3) by (auto simp: list_all_length)
qed

lemma every_class_ok: 
  assumes "c < 63"
  shows "class_ok (m_szClass ! c) \<and> bytes (m_szClass ! c) \<le> nSBSize (m_szClass ! c)"
proof -
  note E = class_entry [OF assms] and B = class_bounds [OF assms]
  have up: "nSBSize (m_szClass ! c) div m_szClassBounds ! c \<le> 2048"
  proof (cases "c < 18")
    case True
    then have "nSBSize (m_szClass ! c) div m_szClassBounds ! c \<le> 65504 div 32" using E B div_le_mono2 [of 32 "m_szClassBounds ! c" 65504] by simp
    then show ?thesis by simp
  next
    case False
    then have "nSBSize (m_szClass ! c) div m_szClassBounds ! c \<le> 1048576 div 512" using E B div_le_mono2 [of 512 "m_szClassBounds ! c" 1048576] by simp
    then show ?thesis by simp
  qed
  have "2 * m_szClassBounds ! c \<le> nSBSize (m_szClass ! c)" using E B by (cases "c < 18") auto
  then have lo: "2 \<le> nSBSize (m_szClass ! c) div m_szClassBounds ! c" using B by (simp add: less_eq_div_iff_mult_less_eq)
  show ?thesis using E B up lo by (simp add: class_ok_def bytes_def)
qed

lemma class_step: "0 < c \<Longrightarrow> c < 63 \<Longrightarrow> m_szClassBounds ! (c - 1) < m_szClassBounds ! c"
proof -
  assume c: "0 < c" "c < 63"
  have "list_all (\<lambda>(a, b). a < b) (zip m_szClassBounds (tl m_szClassBounds))" by (simp add: m_szClassBounds_def)
  then show ?thesis using c class_runs_ok(3) by (auto simp: list_all_length nth_tl dest: spec [of _ "c - 1"])
qed

lemma class_mono: "i \<le> j \<Longrightarrow> j < 63 \<Longrightarrow> m_szClassBounds ! i \<le> m_szClassBounds ! j"
proof (induction j)
  case (Suc j)
  show ?case
  proof (cases "i = Suc j")
    case False
    then show ?thesis using Suc class_step [of "Suc j"] by simp
  qed simp
qed simp

section \<open>Properties\<close>

text \<open>
  C37. A request of up to 65528 bytes is served from the smallest size class whose blocks have room for it and the header; the superblocks of the class
  fit their pages and have 2 to 2048 blocks, as the 11 bits of the anchor's fields demand.
\<close>

theorem michael_class_fits:
  assumes "n + 8 \<le> 65536"
  shows "\<exists>c < 63. alloc_class n = Some c \<and> n + 8 \<le> nBlockSize (m_szClass ! c) \<and> (c = 0 \<or> nBlockSize (m_szClass ! (c - 1)) < n + 8) \<and>
    class_ok (m_szClass ! c) \<and> bytes (m_szClass ! c) \<le> nSBSize (m_szClass ! c)"
proof -
  obtain c where c: "c < 63" "find_class (n + 8) = Some c" "n + 8 \<le> m_szClassBounds ! c" "0 < c \<longrightarrow> m_szClassBounds ! (c - 1) < n + 8"
    using find_class_bounds [OF assms] by blast
  have "alloc_class n = Some c" using c(2) assms by (simp add: alloc_class_def)
  then show ?thesis using c class_entry [of c] class_entry [of "c - 1"] every_class_ok [OF c(1)] by (intro exI [of _ c]) auto
qed

lemma michael_class_fits_witness: "\<exists>c < 63. alloc_class 100 = Some c \<and> 108 \<le> nBlockSize (m_szClass ! c)"
  using michael_class_fits [of 100] by auto

lemma michael_alloc_wraps: "alloc_class (2 ^ 64 - 1) = Some 0"
proof -
  obtain c where c: "c < 63" "find_class 7 = Some c" "0 < c \<longrightarrow> m_szClassBounds ! (c - 1) < 7" using find_class_bounds [of 7] by auto
  then have "c = 0" using class_bounds [of "c - 1"] by (cases c) auto
  then show ?thesis using c(2) by (simp add: alloc_class_def)
qed

end
