(* ===== verification/MichaelClient.thy ===== *)
theory MichaelClient
  imports MichaelSizes
begin

text \<open>
  What Michael's allocator does around its superblocks (\<open>michael/include/allocator.h\<close>, \<open>bound_check.h\<close>): the header in front of a block,
  aligned blocks, \<open>realloc\<close> and the bound checker. Memory is a map from addresses to bytes; the functions \<open>alloc\<close> and \<open>free\<close> of the heap, its headers and the
  block sizes of its descriptors are arguments.
\<close>

section \<open>Headers\<close>

text \<open>A header of 8 bytes: the descriptor of a block, the block that an aligned one is part of, or the size of a block from the system.\<close>

datatype block_header = Desc nat | Redirect nat | OSAllocated nat

text \<open>The block that the header at \<open>b\<close> belongs to.\<close>

definition begin_block :: "(nat \<Rightarrow> block_header) \<Rightarrow> nat \<Rightarrow> nat" where
  "begin_block h b = (case h b of Redirect c \<Rightarrow> c | _ \<Rightarrow> b)"

section \<open>Aligned blocks\<close>

text \<open>
  The size asked for, and what is done with the block \<open>b\<close> that \<open>int_alloc\<close> returns: the headers and the address for the client. Alignments are powers of
  two, so that the masks of the code are remainders and quotients.
\<close>

definition aligned_request :: "nat \<Rightarrow> nat \<Rightarrow> nat" where
  "aligned_request nSize nAlignment = (if nAlignment \<le> 8 then nSize + 8 else nSize + nAlignment + 8) mod 2 ^ 64"

definition alloc_aligned :: "nat \<Rightarrow> nat \<Rightarrow> (nat \<Rightarrow> block_header) \<Rightarrow> ((nat \<Rightarrow> block_header) \<times> nat) option" where
  "alloc_aligned nAlignment b h =
     (if nAlignment \<le> 8 then do { check ((b + 8) mod nAlignment = 0); Some (h, b + 8) }
      else if (b + 8) mod nAlignment \<noteq> 0 then do {
        let r = b div nAlignment * nAlignment + nAlignment - 8;
        check (r \<noteq> b);
        check ((r + 8) mod nAlignment = 0);
        Some (h(r := Redirect b), r + 8)
      } else Some (h, b + 8))"

section \<open>Reallocation\<close>

definition memcpy :: "nat \<Rightarrow> nat \<Rightarrow> nat \<Rightarrow> (nat \<Rightarrow> nat) \<Rightarrow> (nat \<Rightarrow> nat)" where
  "memcpy q p n m = (\<lambda>x. if q \<le> x \<and> x < q + n then m (p + (x - q)) else m x)"

text \<open>A new block, the bytes of the old one, and its release; the null pointer is 0.\<close>

definition realloc_move :: "(nat \<Rightarrow> 'h \<Rightarrow> nat \<times> 'h) \<Rightarrow> (nat \<Rightarrow> 'h \<Rightarrow> 'h) \<Rightarrow> nat \<Rightarrow> nat \<Rightarrow> nat \<Rightarrow> 'h \<times> (nat \<Rightarrow> nat) \<Rightarrow> nat \<times> 'h \<times> (nat \<Rightarrow> nat)" where
  "realloc_move al fr p n k s =
     (case s of (h, m) \<Rightarrow> case al n h of (q, h) \<Rightarrow> if q = 0 then (0, h, m) else (q, fr p h, memcpy q p k m))"

definition m_realloc :: "(nat \<Rightarrow> 'h \<Rightarrow> nat \<times> 'h) \<Rightarrow> (nat \<Rightarrow> 'h \<Rightarrow> 'h) \<Rightarrow> ('h \<Rightarrow> nat \<Rightarrow> block_header) \<Rightarrow> (nat \<Rightarrow> nat) \<Rightarrow> nat \<Rightarrow> nat \<Rightarrow>
    'h \<times> (nat \<Rightarrow> nat) \<Rightarrow> (nat \<times> 'h \<times> (nat \<Rightarrow> nat)) option" where
  "m_realloc al fr hdr bs p nOrigSize s =
     (case s of (h, m) \<Rightarrow>
        if nOrigSize = 0 then Some (0, fr p h, m)
        else (let nNewSize = (nOrigSize + 8) mod 2 ^ 64 in
          case hdr h (p - 8) of
            Redirect _ \<Rightarrow> None
          | OSAllocated nCurSize \<Rightarrow>
              if nNewSize \<le> nCurSize then Some (p, h, m) else Some (realloc_move al fr p nOrigSize (nCurSize - 8) s)
          | Desc d \<Rightarrow>
              if bs d \<le> nNewSize then Some (p, h, m) else Some (realloc_move al fr p nNewSize (bs d - 8) s)))"

section \<open>The bound checker\<close>








section \<open>Facts\<close>

lemma memcpy_at: "i < n \<Longrightarrow> memcpy q p n m (q + i) = m (p + i)"
  by (simp add: memcpy_def)






lemma align_up:
  fixes a b :: nat
  assumes a: "8 dvd a" "8 < a" and b: "8 dvd b" "(b + 8) mod a \<noteq> 0"
  shows "b + 16 \<le> b div a * a + a" "b div a * a + a \<le> b + a" "(b div a * a + a) mod a = 0"
proof -
  obtain k l where k: "a = 8 * k" "b = 8 * l" using a(1) b(1) by (auto elim!: dvdE)
  let ?r = "l mod k"
  have r: "?r < k" using k(1) a(2) by simp
  have "?r + 1 \<noteq> k"
  proof
    assume "?r + 1 = k"
    then have "(l + 1) mod k = 0" by (metis mod_add_left_eq mod_self)
    then have "(8 * (l + 1)) mod (8 * k) = 0" by (metis mult_mod_right mult_0_right)
    then show False using b(2) k by (simp add: algebra_simps)
  qed
  then have "?r + 2 \<le> k" using r by simp
  then have "l + 2 \<le> l div k * k + k" using div_mult_mod_eq [of l k] by linarith
  moreover have "b div a * a = 8 * (l div k * k)" using k by simp
  ultimately show "b + 16 \<le> b div a * a + a" using k by linarith
  show "b div a * a + a \<le> b + a" by simp
  show "(b div a * a + a) mod a = 0" by simp
qed

section \<open>Properties\<close>

text \<open>
  C38. A block for an aligned request is long enough: for every alignment that is a power of two \<open>alloc_aligned\<close> fails no assertion, the address it returns is a
  multiple of the alignment, the bytes asked for end within the block, the header of the block stays as it is, and \<open>free\<close> finds the block again.
\<close>

theorem michael_aligned_fits:
  assumes "a = 2 ^ k" and "8 dvd b" and "n + a + 8 < 2 ^ 64" and "aligned_request n a \<le> blk" and "h b = Desc d"
  shows "\<exists>h' p. alloc_aligned a b h = Some (h', p) \<and> p mod a = 0 \<and> b + 8 \<le> p \<and> p + n \<le> b + blk \<and> h' b = Desc d \<and> begin_block h' (p - 8) = b"
proof (cases "a \<le> 8")
  case True
  then have "a dvd 8" using assms(1) power_le_imp_le_exp [of "2 :: nat" k 3] le_imp_power_dvd [of k 3 "2 :: nat"] by simp
  then have "(b + 8) mod a = 0" using assms(2) by (metis dvd_add dvd_imp_mod_0 dvd_refl dvd_trans)
  then show ?thesis using True assms(3-5) by (simp add: alloc_aligned_def aligned_request_def begin_block_def check_def)
next
  case False
  have a: "8 dvd a" "8 < a"
  proof -
    have "3 \<le> k" using False assms(1) power_increasing [of k 3 "2 :: nat"] by (cases "k \<le> 3") auto
    then show "8 dvd a" using assms(1) le_imp_power_dvd [of 3 k "2 :: nat"] by simp
  qed (use False in simp)
  have blk: "n + a + 8 \<le> blk" using assms(3,4) False by (simp add: aligned_request_def)
  show ?thesis
  proof (cases "(b + 8) mod a = 0")
    case True
    then show ?thesis using blk assms(5) False by (simp add: alloc_aligned_def begin_block_def)
  next
    case n0: False
    note up = align_up [OF a assms(2) n0]
    let ?p = "b div a * a + a"
    have ne: "?p - 8 \<noteq> b" "?p + n \<le> b + blk" using up blk by linarith+
    then have "alloc_aligned a b h = Some (h(?p - 8 := Redirect b), ?p)"
      using False n0 up(3) by (simp add: alloc_aligned_def Let_def check_def)
    then show ?thesis using up ne assms(5) by (intro exI [of _ "h(?p - 8 := Redirect b)"] exI [of _ ?p]) (simp add: begin_block_def)
  qed
qed

lemma michael_aligned_fits_witness: "\<exists>h' p. alloc_aligned 64 4096 (\<lambda>_. Desc 7) = Some (h', p) \<and> p mod 64 = 0 \<and> p + 100 \<le> 4096 + 192"
  using michael_aligned_fits [of 64 6 4096 100 192 "\<lambda>_. Desc 7" 7] by (auto simp: aligned_request_def)

text \<open>
  C39. \<open>realloc\<close> has its comparison the wrong way round for blocks of superblocks: asked for more bytes than the block has, it returns the block as it is; asked for
  so few that a smaller size class is used, it copies all bytes of the old block, past the end of the new one.
\<close>

theorem michael_realloc_inverted:
  assumes "hdr h (p - 8) = Desc d" and "c < 63" and "bs d = nBlockSize (m_szClass ! c)" and "0 < n" and "n + 16 \<le> 65536"
  shows "(bs d < n + 8 \<longrightarrow> m_realloc al fr hdr bs p n (h, m) = Some (p, h, m)) \<and>
    (0 < c \<longrightarrow> n + 16 \<le> nBlockSize (m_szClass ! (c - 1)) \<longrightarrow> al (n + 8) h = (q, h') \<longrightarrow> q \<noteq> 0 \<longrightarrow>
     (\<exists>m' e. m_realloc al fr hdr bs p n (h, m) = Some (q, fr p h', m') \<and> alloc_class (n + 8) = Some e \<and> nBlockSize (m_szClass ! e) < bs d \<and>
       m' (q + (bs d - 9)) = m (p + (bs d - 9))))"
proof -
  have w: "(n + 8) mod 2 ^ 64 = n + 8" using assms(5) by simp
  have "m_realloc al fr hdr bs p n (h, m) = Some (p, h, m)" if "bs d < n + 8"
    using that assms(1,4) w by (simp add: m_realloc_def Let_def)
  moreover have "\<exists>m' e. m_realloc al fr hdr bs p n (h, m) = Some (q, fr p h', m') \<and> alloc_class (n + 8) = Some e \<and> nBlockSize (m_szClass ! e) < bs d \<and>
       m' (q + (bs d - 9)) = m (p + (bs d - 9))"
    if h: "0 < c" "n + 16 \<le> nBlockSize (m_szClass ! (c - 1))" "al (n + 8) h = (q, h')" "q \<noteq> 0"
  proof -
    have b: "m_szClassBounds ! (c - 1) < m_szClassBounds ! c" using class_step [of c] assms(2) h(1) by simp
    have bs: "bs d = m_szClassBounds ! c" "n + 16 \<le> m_szClassBounds ! (c - 1)" using assms(2,3) h(1,2) class_entry [of c] class_entry [of "c - 1"] by simp_all
    obtain e where e: "e < 63" "find_class (n + 16) = Some e" "n + 16 \<le> m_szClassBounds ! e" "0 < e \<longrightarrow> m_szClassBounds ! (e - 1) < n + 16"
      using find_class_bounds [OF assms(5)] by blast
    have "(n + 8 + 8) mod 2 ^ 64 = n + 16" using assms(5) by simp
    then have ae: "alloc_class (n + 8) = Some e" unfolding alloc_class_def using e(2) by simp
    have "e \<le> c - 1"
    proof (rule ccontr)
      assume "\<not> e \<le> c - 1"
      then have "c - 1 \<le> e - 1" "e - 1 < 63" "0 < e" using e(1) by simp_all
      then have "m_szClassBounds ! (c - 1) \<le> m_szClassBounds ! (e - 1)" by (intro class_mono)
      then show False using e(4) bs(2) \<open>0 < e\<close> by simp
    qed
    then have "m_szClassBounds ! e \<le> m_szClassBounds ! (c - 1)" using assms(2) by (intro class_mono) simp_all
    then have less: "nBlockSize (m_szClass ! e) < bs d" using b bs class_entry [OF e(1)] by simp
    have "m_realloc al fr hdr bs p n (h, m) = Some (q, fr p h', memcpy q p (bs d - 8) m)"
      using bs b h(3,4) assms(1,4) w by (simp add: m_realloc_def realloc_move_def Let_def)
    moreover have "bs d - 9 < bs d - 8" using b bs by linarith
    then have "memcpy q p (bs d - 8) m (q + (bs d - 9)) = m (p + (bs d - 9))" by (rule memcpy_at)
    ultimately show ?thesis using ae less by (intro exI [of _ "memcpy q p (bs d - 8) m"] exI [of _ e]) simp
  qed
  ultimately show ?thesis by blast
qed
lemma michael_realloc_inverted_witness:
  "m_realloc (\<lambda>n h. (8192, h)) (\<lambda>p h. h) (\<lambda>h x. Desc 64) (\<lambda>d. 512) 4104 1000 ((), \<lambda>x. x mod 256) = Some (4104, (), \<lambda>x. x mod 256) \<and>
   (\<exists>m' e. m_realloc (\<lambda>n h. (8192, h)) (\<lambda>p h. h) (\<lambda>h x. Desc 64) (\<lambda>d. 512) 4104 8 ((), \<lambda>x. x mod 256) = Some (8192, (), m') \<and> alloc_class 16 = Some e \<and>
     nBlockSize (m_szClass ! e) < 512 \<and> m' (8192 + 503) = (4104 + 503) mod 256)"
proof -
  have b: "512 = nBlockSize (m_szClass ! 18)" "24 \<le> nBlockSize (m_szClass ! (18 - 1))"
    using class_entry [of 18] class_entry [of 17] by (simp_all add: m_szClassBounds_def)
  let ?hdr = "\<lambda>h x. Desc 64" and ?bs = "\<lambda>d :: nat. 512 :: nat" and ?al = "\<lambda>(n :: nat) (h :: unit). (8192 :: nat, h)" and ?fr = "\<lambda>(p :: nat) (h :: unit). h"
  have "m_realloc ?al ?fr ?hdr ?bs 4104 1000 ((), \<lambda>x. x mod 256) = Some (4104, (), \<lambda>x. x mod 256)"
    using michael_realloc_inverted [of ?hdr "()" 4104 64 18 ?bs 1000 ?al ?fr "\<lambda>x. x mod 256" 0 "()"] b by simp
  moreover have "\<exists>m' e. m_realloc ?al ?fr ?hdr ?bs 4104 8 ((), \<lambda>x. x mod 256) = Some (8192, (), m') \<and> alloc_class 16 = Some e \<and>
     nBlockSize (m_szClass ! e) < 512 \<and> m' (8192 + 503) = (4104 + 503) mod 256"
    using michael_realloc_inverted [of ?hdr "()" 4104 64 18 ?bs 8 ?al ?fr "\<lambda>x. x mod 256" 8192 "()"] b by simp
  ultimately show ?thesis by blast
qed



end
